(* ===== verification/Prelude.thy ===== *)
theory Prelude
  imports Main "HOL-Library.Extended_Nat" "HOL-Library.Word" "HOL-Library.Monad_Syntax"
begin

text \<open>
  Shared vocabulary of the development: the collections that carry the component proofs,
  the type synonyms of the model and a few facts on lists, options and machine words
  that several components use.

  An operation of the C code that can stop at an assertion or return a null pointer is
  modelled with result type \<^typ>\<open>'a option\<close>; \<^const>\<open>None\<close> is that outcome.
\<close>

named_theorems sem_simps \<open>evaluation of the temporal operators on predicates\<close>
named_theorems pass_intros \<open>contracts of formula passes, as introduction rules\<close>

text \<open>An atomic proposition is its interned name; interned pointers are equal iff the names are.\<close>

type_synonym ap = string
type_synonym letter = "ap set"
type_synonym trace = "nat \<Rightarrow> letter"

type_synonym u8 = "8 word"
type_synonym u16 = "16 word"
type_synonym u32 = "32 word"
type_synonym u64 = "64 word"

subsection \<open>Options\<close>

lemma bind_Some_iff [simp]:
  "(Option.bind m f = Some y) \<longleftrightarrow> (\<exists>x. m = Some x \<and> f x = Some y)"
  by (cases m) auto

subsection \<open>Lists\<close>

lemma ex_first_nat:
  fixes P :: "nat \<Rightarrow> bool"
  assumes "P n"
  shows "\<exists>m\<le>n. P m \<and> (\<forall>k<m. \<not> P k)"
proof -
  have "P (LEAST m. P m)" by (rule LeastI) (rule assms)
  moreover have "(LEAST m. P m) \<le> n" by (rule Least_le) (rule assms)
  moreover have "\<forall>k<(LEAST m. P m). \<not> P k" by (auto dest: not_less_Least)
  ultimately show ?thesis by blast
qed

text \<open>The first position from \<open>i\<close> on at which a predicate holds.\<close>

lemma ex_first_from:
  fixes P :: "nat \<Rightarrow> bool"
  assumes "P j" and "i \<le> j"
  obtains m where "i \<le> m" and "m \<le> j" and "P m" and "\<forall>k. i \<le> k \<and> k < m \<longrightarrow> \<not> P k"
proof -
  have "P j \<and> i \<le> j" using assms by simp
  from ex_first_nat [of "\<lambda>k. P k \<and> i \<le> k", OF this]
  obtain m where "m \<le> j" "P m" "i \<le> m" "\<forall>k<m. \<not> (P k \<and> i \<le> k)" by blast
  then show ?thesis by (intro that) auto
qed

subsection \<open>Positions of a word of length \<open>L\<close>\<close>

lemma enat_less_trans_le: "k \<le> j \<Longrightarrow> enat j < L \<Longrightarrow> enat k < L"
  by (meson enat_ord_simps(1) order_le_less_trans)

lemma enat_less_trans_less: "k < j \<Longrightarrow> enat j < L \<Longrightarrow> enat k < L"
  by (rule enat_less_trans_le [of k j]) simp_all

end
