(* ===== verification/Ast.thy ===== *)
theory Ast
  imports Prelude
begin

text \<open>
  The formula AST of \<^verbatim>\<open>include/tlsf/ast.h\<close> and \<^verbatim>\<open>src/lib/ast.c\<close>.  A C \<^verbatim>\<open>Node\<close> is a kind tag
  and a union; the kinds that share a union layout share a constructor here, and the tag
  is its first argument: \<^verbatim>\<open>.arg\<close> nodes are \<open>Unary\<close> (LTL) or \<open>HlUnary\<close> (set and integer
  expressions), \<^verbatim>\<open>.lhs/.rhs\<close> nodes are \<open>Binary\<close> or \<open>HlBinary\<close>, and so on.  The provenance
  fields (\<^verbatim>\<open>source_id\<close>, \<^verbatim>\<open>origin_bindings\<close>) are carried along by the C passes and read by none of
  the operations modelled here; they are left out.  Of the \<^verbatim>\<open>bounded\<close> provenance the parser
  records (\<^verbatim>\<open>X[n]\<close> against \<^verbatim>\<open>X[!n]\<close>, and the ranges alike), the \<^verbatim>\<open>strong\<close> bit is part of the
  meaning and is the boolean argument of \<open>NextN\<close> and \<open>BoundedOp\<close>.
\<close>

subsection \<open>Node kinds\<close>

datatype un_kind = NODE_NOT | NODE_X | NODE_X_STRONG | NODE_F | NODE_G

datatype bin_kind =
  NODE_AND | NODE_OR | NODE_IMPL | NODE_EQUIV | NODE_U | NODE_R | NODE_W | NODE_M

datatype hl_un_kind = NODE_INT_NEG | NODE_SET_SIZE | NODE_SET_MIN | NODE_SET_MAX

datatype hl_bin_kind =
    NODE_INT_ADD | NODE_INT_SUB | NODE_INT_MUL | NODE_INT_DIV | NODE_INT_MOD
  | NODE_CMP_EQ | NODE_CMP_NE | NODE_CMP_LT | NODE_CMP_LE | NODE_CMP_GT | NODE_CMP_GE
  | NODE_SET_UNION | NODE_SET_INTER | NODE_SET_DIFF | NODE_IN | NODE_MATCH

datatype call_kind = NODE_DEF_CALL | NODE_PATTERN

datatype range_kind = NODE_G_RANGE | NODE_F_RANGE

datatype quant_kind =
    NODE_FORALL | NODE_EXISTS | NODE_SUM | NODE_PRODUCT
  | NODE_SET_BIG_UNION | NODE_SET_BIG_INTER

datatype set_kind = NODE_SET | NODE_SET_ENUM

subsection \<open>Nodes\<close>

text \<open>
  \<open>RangeBinder lo lo_strict hi hi_strict\<close> is the binder \<open>lo (<|\<le>) var (<|\<le>) hi\<close> (a null
  \<^verbatim>\<open>qset\<close>), \<open>SetBinder\<close> the binder \<open>var IN set\<close>.
\<close>

datatype 'n qbinder = RangeBinder 'n bool 'n bool | SetBinder 'n

datatype node =
    NodeTrue
  | NodeFalse
  | NodeAp ap
  | NodeInt int
  | Unary un_kind node
  | Binary bin_kind node node
  | IntVar string
  | SizeOf string
  | HlUnary hl_un_kind node
  | HlBinary hl_bin_kind node node
  | NextN bool node node
  | Call call_kind string "node list"
  | BusIndex string node
  | Ite node node node
  | BoundedOp range_kind bool node node node
  | Quant quant_kind string "node qbinder" node
  | SetLit set_kind "node list"

text \<open>The node constructors of \<^verbatim>\<open>ast.c\<close> that the formula passes call.\<close>

abbreviation node_not :: "node \<Rightarrow> node" where "node_not \<equiv> Unary NODE_NOT"
abbreviation node_x :: "node \<Rightarrow> node" where "node_x \<equiv> Unary NODE_X"
abbreviation node_x_strong :: "node \<Rightarrow> node" where "node_x_strong \<equiv> Unary NODE_X_STRONG"
abbreviation node_f :: "node \<Rightarrow> node" where "node_f \<equiv> Unary NODE_F"
abbreviation node_g :: "node \<Rightarrow> node" where "node_g \<equiv> Unary NODE_G"
abbreviation node_and :: "node \<Rightarrow> node \<Rightarrow> node" where "node_and \<equiv> Binary NODE_AND"
abbreviation node_or :: "node \<Rightarrow> node \<Rightarrow> node" where "node_or \<equiv> Binary NODE_OR"
abbreviation node_impl :: "node \<Rightarrow> node \<Rightarrow> node" where "node_impl \<equiv> Binary NODE_IMPL"
abbreviation node_equiv :: "node \<Rightarrow> node \<Rightarrow> node" where "node_equiv \<equiv> Binary NODE_EQUIV"
abbreviation node_u :: "node \<Rightarrow> node \<Rightarrow> node" where "node_u \<equiv> Binary NODE_U"
abbreviation node_r :: "node \<Rightarrow> node \<Rightarrow> node" where "node_r \<equiv> Binary NODE_R"
abbreviation node_w :: "node \<Rightarrow> node \<Rightarrow> node" where "node_w \<equiv> Binary NODE_W"
abbreviation node_m :: "node \<Rightarrow> node \<Rightarrow> node" where "node_m \<equiv> Binary NODE_M"
abbreviation node_next_n :: "node \<Rightarrow> node \<Rightarrow> node" where "node_next_n \<equiv> NextN False"

subsection \<open>The value of the kind tag\<close>

text \<open>The C enumerator values, which \<^verbatim>\<open>struct_cmp\<close> compares.\<close>

primrec un_kind_code :: "un_kind \<Rightarrow> nat" where
  "un_kind_code NODE_NOT = 4"
| "un_kind_code NODE_X = 9"
| "un_kind_code NODE_G = 10"
| "un_kind_code NODE_F = 13"
| "un_kind_code NODE_X_STRONG = 16"

primrec bin_kind_code :: "bin_kind \<Rightarrow> nat" where
  "bin_kind_code NODE_AND = 5"
| "bin_kind_code NODE_OR = 6"
| "bin_kind_code NODE_IMPL = 7"
| "bin_kind_code NODE_EQUIV = 8"
| "bin_kind_code NODE_R = 11"
| "bin_kind_code NODE_W = 12"
| "bin_kind_code NODE_U = 14"
| "bin_kind_code NODE_M = 15"

primrec hl_un_kind_code :: "hl_un_kind \<Rightarrow> nat" where
  "hl_un_kind_code NODE_INT_NEG = 25"
| "hl_un_kind_code NODE_SET_SIZE = 43"
| "hl_un_kind_code NODE_SET_MIN = 44"
| "hl_un_kind_code NODE_SET_MAX = 45"

primrec hl_bin_kind_code :: "hl_bin_kind \<Rightarrow> nat" where
  "hl_bin_kind_code NODE_INT_ADD = 20"
| "hl_bin_kind_code NODE_INT_SUB = 21"
| "hl_bin_kind_code NODE_INT_MUL = 22"
| "hl_bin_kind_code NODE_INT_DIV = 23"
| "hl_bin_kind_code NODE_INT_MOD = 24"
| "hl_bin_kind_code NODE_CMP_EQ = 28"
| "hl_bin_kind_code NODE_CMP_NE = 29"
| "hl_bin_kind_code NODE_CMP_LT = 30"
| "hl_bin_kind_code NODE_CMP_LE = 31"
| "hl_bin_kind_code NODE_CMP_GT = 32"
| "hl_bin_kind_code NODE_CMP_GE = 33"
| "hl_bin_kind_code NODE_SET_UNION = 40"
| "hl_bin_kind_code NODE_SET_INTER = 41"
| "hl_bin_kind_code NODE_SET_DIFF = 42"
| "hl_bin_kind_code NODE_IN = 46"
| "hl_bin_kind_code NODE_MATCH = 47"

primrec quant_kind_code :: "quant_kind \<Rightarrow> nat" where
  "quant_kind_code NODE_FORALL = 48"
| "quant_kind_code NODE_EXISTS = 49"
| "quant_kind_code NODE_SUM = 50"
| "quant_kind_code NODE_PRODUCT = 51"
| "quant_kind_code NODE_SET_BIG_UNION = 52"
| "quant_kind_code NODE_SET_BIG_INTER = 53"

fun node_kind :: "node \<Rightarrow> nat" where
  "node_kind NodeTrue = 0"
| "node_kind NodeFalse = 1"
| "node_kind (NodeAp _) = 2"
| "node_kind (NodeInt _) = 3"
| "node_kind (Unary k _) = un_kind_code k"
| "node_kind (Binary k _ _) = bin_kind_code k"
| "node_kind (Call NODE_DEF_CALL _ _) = 17"
| "node_kind (BusIndex _ _) = 18"
| "node_kind (Call NODE_PATTERN _ _) = 19"
| "node_kind (HlUnary k _) = hl_un_kind_code k"
| "node_kind (HlBinary k _ _) = hl_bin_kind_code k"
| "node_kind (IntVar _) = 26"
| "node_kind (SizeOf _) = 27"
| "node_kind (Ite _ _ _) = 34"
| "node_kind (NextN _ _ _) = 35"
| "node_kind (BoundedOp NODE_G_RANGE _ _ _ _) = 36"
| "node_kind (BoundedOp NODE_F_RANGE _ _ _ _) = 37"
| "node_kind (SetLit NODE_SET _) = 38"
| "node_kind (SetLit NODE_SET_ENUM _) = 39"
| "node_kind (Quant k _ _ _) = quant_kind_code k"

subsection \<open>Kind predicates\<close>

primrec un_is_temporal :: "un_kind \<Rightarrow> bool" where
  "un_is_temporal NODE_NOT = False"
| "un_is_temporal NODE_X = True"
| "un_is_temporal NODE_X_STRONG = True"
| "un_is_temporal NODE_F = True"
| "un_is_temporal NODE_G = True"

primrec bin_is_temporal :: "bin_kind \<Rightarrow> bool" where
  "bin_is_temporal NODE_AND = False"
| "bin_is_temporal NODE_OR = False"
| "bin_is_temporal NODE_IMPL = False"
| "bin_is_temporal NODE_EQUIV = False"
| "bin_is_temporal NODE_U = True"
| "bin_is_temporal NODE_R = True"
| "bin_is_temporal NODE_W = True"
| "bin_is_temporal NODE_M = True"

fun node_kind_is_temporal :: "node \<Rightarrow> bool" where
  "node_kind_is_temporal (Unary k _) = un_is_temporal k"
| "node_kind_is_temporal (Binary k _ _) = bin_is_temporal k"
| "node_kind_is_temporal _ = False"

definition node_kind_is_high_level :: "node \<Rightarrow> bool" where
  "node_kind_is_high_level n =
     (let k = node_kind n in
      k = 17 \<or> k = 18 \<or> k = 19 \<or> k = 26 \<or> k = 27 \<or> k = 34 \<or> k = 35 \<or> k = 36 \<or> k = 37 \<or>
      (28 \<le> k \<and> k \<le> 33) \<or> (38 \<le> k \<and> k \<le> 53))"

text \<open>
  The expanded fragment: what \<^verbatim>\<open>expand()\<close> leaves, the sixteen kinds of the public
  \<^verbatim>\<open>TlsfAstKind\<close>.
\<close>

primrec ground :: "node \<Rightarrow> bool" where
  "ground NodeTrue = True"
| "ground NodeFalse = True"
| "ground (NodeAp _) = True"
| "ground (NodeInt _) = False"
| "ground (Unary _ a) = ground a"
| "ground (Binary _ a b) = (ground a \<and> ground b)"
| "ground (IntVar _) = False"
| "ground (SizeOf _) = False"
| "ground (HlUnary _ _) = False"
| "ground (HlBinary _ _ _) = False"
| "ground (Call _ _ _) = False"
| "ground (BusIndex _ _) = False"
| "ground (Ite _ _ _) = False"
| "ground (NextN _ _ _) = False"
| "ground (BoundedOp _ _ _ _ _) = False"
| "ground (Quant _ _ _ _) = False"
| "ground (SetLit _ _) = False"

lemma un_kind_code_le [simp]: "un_kind_code k \<le> 16"
  by (cases k) simp_all

lemma bin_kind_code_le [simp]: "bin_kind_code k \<le> 16"
  by (cases k) simp_all

lemma ground_kind_le: "ground n \<Longrightarrow> node_kind n \<le> 16"
  by (cases n) simp_all

lemma ground_not_high_level: "ground n \<Longrightarrow> \<not> node_kind_is_high_level n"
  using ground_kind_le [of n] by (auto simp: node_kind_is_high_level_def Let_def)

text \<open>Induction over expanded formulas only.\<close>

lemma ground_induct [consumes 1, case_names True False Ap Un Bin]:
  assumes "ground n"
    and "P NodeTrue" and "P NodeFalse" and "\<And>p. P (NodeAp p)"
    and "\<And>k a. ground a \<Longrightarrow> P a \<Longrightarrow> P (Unary k a)"
    and "\<And>k a b. ground a \<Longrightarrow> ground b \<Longrightarrow> P a \<Longrightarrow> P b \<Longrightarrow> P (Binary k a b)"
  shows "P n"
  using assms(1) by (induction n) (auto intro: assms)

subsection \<open>Node count\<close>

text \<open>\<^verbatim>\<open>ast_node_count\<close> adds up in \<^verbatim>\<open>uint32_t\<close>; \<open>tree_size\<close> is the count without wrap-around.\<close>

fun ast_node_count :: "node \<Rightarrow> u32" where
  "ast_node_count (Unary _ a) = 1 + ast_node_count a"
| "ast_node_count (Binary _ a b) = 1 + ast_node_count a + ast_node_count b"
| "ast_node_count _ = 1"

fun tree_size :: "node \<Rightarrow> nat" where
  "tree_size (Unary _ a) = 1 + tree_size a"
| "tree_size (Binary _ a b) = 1 + tree_size a + tree_size b"
| "tree_size _ = 1"

lemma ast_node_count_of_nat: "ast_node_count n = of_nat (tree_size n)"
  by (induction n rule: tree_size.induct) simp_all

lemma unat_ast_node_count: "unat (ast_node_count n) = tree_size n mod 2 ^ 32"
  by (simp add: ast_node_count_of_nat unat_of_nat)

lemma tree_size_pos [simp]: "0 < tree_size n"
  by (induction n rule: tree_size.induct) simp_all

text \<open>Atoms of an expanded formula, left to right.\<close>

primrec atoms :: "node \<Rightarrow> ap set" where
  "atoms NodeTrue = {}"
| "atoms NodeFalse = {}"
| "atoms (NodeAp p) = {p}"
| "atoms (NodeInt _) = {}"
| "atoms (Unary _ a) = atoms a"
| "atoms (Binary _ a b) = atoms a \<union> atoms b"
| "atoms (IntVar _) = {}"
| "atoms (SizeOf _) = {}"
| "atoms (HlUnary _ _) = {}"
| "atoms (HlBinary _ _ _) = {}"
| "atoms (Call _ _ _) = {}"
| "atoms (BusIndex _ _) = {}"
| "atoms (Ite _ _ _) = {}"
| "atoms (NextN _ _ _) = {}"
| "atoms (BoundedOp _ _ _ _ _) = {}"
| "atoms (Quant _ _ _ _) = {}"
| "atoms (SetLit _ _) = {}"

end
