(* ===== verification/Ltl_Semantics.thy ===== *)
theory Ltl_Semantics
  imports Ast
begin

text \<open>
  The abstract specification all formula passes are measured against: LTL over finite and
  infinite words.  A word is a function from positions to letters together with its length
  \<open>L\<close>, an extended natural number: \<open>L = \<infinity>\<close> is an infinite word, \<open>L = enat n\<close> a finite one.
  Both semantics of TLSF (LTL and LTLf) are instances of the same definition.
\<close>

subsection \<open>Temporal operators on predicates\<close>

definition next_weak :: "enat \<Rightarrow> (nat \<Rightarrow> bool) \<Rightarrow> nat \<Rightarrow> bool" where
  "next_weak L P i \<longleftrightarrow> (enat (Suc i) < L \<longrightarrow> P (Suc i))"

definition next_strong :: "enat \<Rightarrow> (nat \<Rightarrow> bool) \<Rightarrow> nat \<Rightarrow> bool" where
  "next_strong L P i \<longleftrightarrow> enat (Suc i) < L \<and> P (Suc i)"

definition ev :: "enat \<Rightarrow> (nat \<Rightarrow> bool) \<Rightarrow> nat \<Rightarrow> bool" where
  "ev L P i \<longleftrightarrow> (\<exists>j\<ge>i. enat j < L \<and> P j)"

definition alw :: "enat \<Rightarrow> (nat \<Rightarrow> bool) \<Rightarrow> nat \<Rightarrow> bool" where
  "alw L P i \<longleftrightarrow> (\<forall>j\<ge>i. enat j < L \<longrightarrow> P j)"

definition until :: "enat \<Rightarrow> (nat \<Rightarrow> bool) \<Rightarrow> (nat \<Rightarrow> bool) \<Rightarrow> nat \<Rightarrow> bool" where
  "until L P Q i \<longleftrightarrow> (\<exists>j\<ge>i. enat j < L \<and> Q j \<and> (\<forall>k. i \<le> k \<and> k < j \<longrightarrow> P k))"

definition release :: "enat \<Rightarrow> (nat \<Rightarrow> bool) \<Rightarrow> (nat \<Rightarrow> bool) \<Rightarrow> nat \<Rightarrow> bool" where
  "release L P Q i \<longleftrightarrow> (\<forall>j\<ge>i. enat j < L \<longrightarrow> Q j \<or> (\<exists>k. i \<le> k \<and> k < j \<and> P k))"

definition weak_until :: "enat \<Rightarrow> (nat \<Rightarrow> bool) \<Rightarrow> (nat \<Rightarrow> bool) \<Rightarrow> nat \<Rightarrow> bool" where
  "weak_until L P Q i \<longleftrightarrow> until L P Q i \<or> alw L P i"

definition strong_release :: "enat \<Rightarrow> (nat \<Rightarrow> bool) \<Rightarrow> (nat \<Rightarrow> bool) \<Rightarrow> nat \<Rightarrow> bool" where
  "strong_release L P Q i \<longleftrightarrow> (\<exists>j\<ge>i. enat j < L \<and> P j \<and> (\<forall>k. i \<le> k \<and> k \<le> j \<longrightarrow> Q k))"

fun un_sem :: "enat \<Rightarrow> un_kind \<Rightarrow> (nat \<Rightarrow> bool) \<Rightarrow> nat \<Rightarrow> bool" where
  "un_sem L NODE_NOT P = (\<lambda>i. \<not> P i)"
| "un_sem L NODE_X P = next_weak L P"
| "un_sem L NODE_X_STRONG P = next_strong L P"
| "un_sem L NODE_F P = ev L P"
| "un_sem L NODE_G P = alw L P"

fun bin_sem :: "enat \<Rightarrow> bin_kind \<Rightarrow> (nat \<Rightarrow> bool) \<Rightarrow> (nat \<Rightarrow> bool) \<Rightarrow> nat \<Rightarrow> bool" where
  "bin_sem L NODE_AND P Q = (\<lambda>i. P i \<and> Q i)"
| "bin_sem L NODE_OR P Q = (\<lambda>i. P i \<or> Q i)"
| "bin_sem L NODE_IMPL P Q = (\<lambda>i. P i \<longrightarrow> Q i)"
| "bin_sem L NODE_EQUIV P Q = (\<lambda>i. P i \<longleftrightarrow> Q i)"
| "bin_sem L NODE_U P Q = until L P Q"
| "bin_sem L NODE_R P Q = release L P Q"
| "bin_sem L NODE_W P Q = weak_until L P Q"
| "bin_sem L NODE_M P Q = strong_release L P Q"

text \<open>Satisfaction; an unexpanded node is no formula and satisfies nothing.\<close>

primrec sat :: "enat \<Rightarrow> trace \<Rightarrow> node \<Rightarrow> nat \<Rightarrow> bool" where
  "sat L w NodeTrue = (\<lambda>i. True)"
| "sat L w NodeFalse = (\<lambda>i. False)"
| "sat L w (NodeAp p) = (\<lambda>i. p \<in> w i)"
| "sat L w (NodeInt _) = (\<lambda>i. False)"
| "sat L w (Unary k a) = un_sem L k (sat L w a)"
| "sat L w (Binary k a b) = bin_sem L k (sat L w a) (sat L w b)"
| "sat L w (IntVar _) = (\<lambda>i. False)"
| "sat L w (SizeOf _) = (\<lambda>i. False)"
| "sat L w (HlUnary _ _) = (\<lambda>i. False)"
| "sat L w (HlBinary _ _ _) = (\<lambda>i. False)"
| "sat L w (Call _ _ _) = (\<lambda>i. False)"
| "sat L w (BusIndex _ _) = (\<lambda>i. False)"
| "sat L w (Ite _ _ _) = (\<lambda>i. False)"
| "sat L w (NextN _ _ _) = (\<lambda>i. False)"
| "sat L w (BoundedOp _ _ _ _ _) = (\<lambda>i. False)"
| "sat L w (Quant _ _ _ _) = (\<lambda>i. False)"
| "sat L w (SetLit _ _) = (\<lambda>i. False)"

subsection \<open>Semantic equivalence\<close>

definition sem_eq :: "enat \<Rightarrow> node \<Rightarrow> node \<Rightarrow> bool" where
  "sem_eq L m n \<longleftrightarrow> (\<forall>w i. enat i < L \<longrightarrow> sat L w m i = sat L w n i)"

text \<open>
  A pass runs with the flag \<open>finite\<close> of the specification's semantics; without it only
  infinite words matter.
\<close>

definition word_length :: "bool \<Rightarrow> enat \<Rightarrow> bool" where
  "word_length fin L \<longleftrightarrow> (fin \<or> L = \<infinity>)"

lemma word_length_inf [simp]: "word_length fin \<infinity>"
  by (simp add: word_length_def)

lemma word_length_True [simp]: "word_length True L"
  by (simp add: word_length_def)

lemma word_length_False [simp]: "word_length False L \<longleftrightarrow> L = \<infinity>"
  by (simp add: word_length_def)

lemma sem_eqI [intro?]:
  "(\<And>w i. enat i < L \<Longrightarrow> sat L w m i = sat L w n i) \<Longrightarrow> sem_eq L m n"
  by (simp add: sem_eq_def)

lemma sem_eqD: "sem_eq L m n \<Longrightarrow> enat i < L \<Longrightarrow> sat L w m i = sat L w n i"
  by (simp add: sem_eq_def)

lemma sem_eq_refl [simp, intro!]: "sem_eq L n n"
  by (simp add: sem_eq_def)

lemma sem_eq_sym: "sem_eq L m n \<Longrightarrow> sem_eq L n m"
  by (simp add: sem_eq_def)

lemma sem_eq_trans [trans]: "sem_eq L m n \<Longrightarrow> sem_eq L n k \<Longrightarrow> sem_eq L m k"
  by (simp add: sem_eq_def)

text \<open>The operators only look at later positions inside the word: congruence and monotonicity.\<close>

lemma un_sem_cong:
  assumes "\<And>j. i \<le> j \<Longrightarrow> enat j < L \<Longrightarrow> P j = P' j" and "enat i < L"
  shows "un_sem L k P i = un_sem L k P' i"
  using assms
  by (cases k) (auto simp: next_weak_def next_strong_def ev_def alw_def)

lemma bin_sem_cong:
  assumes P: "\<And>j. i \<le> j \<Longrightarrow> enat j < L \<Longrightarrow> P j = P' j"
    and Q: "\<And>j. i \<le> j \<Longrightarrow> enat j < L \<Longrightarrow> Q j = Q' j" and i: "enat i < L"
  shows "bin_sem L k P Q i = bin_sem L k P' Q' i"
proof -
  have le: "enat j < L \<Longrightarrow> l \<le> j \<Longrightarrow> enat l < L" for j l by (rule enat_less_trans_le)
  have u: "until L P Q i = until L P' Q' i"
    unfolding until_def by (rule iff_exI) (metis P Q le less_imp_le)
  have r: "release L P Q i = release L P' Q' i"
    unfolding release_def by (rule iff_allI) (metis P Q le less_imp_le)
  have g: "alw L P i = alw L P' i"
    unfolding alw_def using P by auto
  have m: "strong_release L P Q i = strong_release L P' Q' i"
    unfolding strong_release_def by (rule iff_exI) (metis P Q le)
  show ?thesis
    using P [of i] Q [of i] i by (cases k) (auto simp: u r g m weak_until_def)
qed

lemma sem_eq_Unary [intro]: "sem_eq L a b \<Longrightarrow> sem_eq L (Unary k a) (Unary k b)"
  unfolding sem_eq_def sat.simps by (intro allI impI un_sem_cong) auto

lemma sem_eq_Binary [intro]:
  "sem_eq L a a' \<Longrightarrow> sem_eq L b b' \<Longrightarrow> sem_eq L (Binary k a b) (Binary k a' b')"
  unfolding sem_eq_def sat.simps by (intro allI impI bin_sem_cong) auto

text \<open>Kinds that are monotone in their operands: all but negation, implication, equivalence.\<close>

primrec un_mono :: "un_kind \<Rightarrow> bool" where
  "un_mono NODE_NOT = False"
| "un_mono NODE_X = True"
| "un_mono NODE_X_STRONG = True"
| "un_mono NODE_F = True"
| "un_mono NODE_G = True"

primrec bin_mono :: "bin_kind \<Rightarrow> bool" where
  "bin_mono NODE_AND = True"
| "bin_mono NODE_OR = True"
| "bin_mono NODE_IMPL = False"
| "bin_mono NODE_EQUIV = False"
| "bin_mono NODE_U = True"
| "bin_mono NODE_R = True"
| "bin_mono NODE_W = True"
| "bin_mono NODE_M = True"

lemma un_sem_mono:
  assumes "un_mono k" and "un_sem L k P i" and "enat i < L"
    and "\<And>j. i \<le> j \<Longrightarrow> enat j < L \<Longrightarrow> P j \<Longrightarrow> P' j"
  shows "un_sem L k P' i"
  using assms by (cases k) (auto simp: next_weak_def next_strong_def ev_def alw_def)

lemma bin_sem_mono:
  assumes k: "bin_mono k" and h: "bin_sem L k P Q i" and i: "enat i < L"
    and P: "\<And>j. i \<le> j \<Longrightarrow> enat j < L \<Longrightarrow> P j \<Longrightarrow> P' j"
    and Q: "\<And>j. i \<le> j \<Longrightarrow> enat j < L \<Longrightarrow> Q j \<Longrightarrow> Q' j"
  shows "bin_sem L k P' Q' i"
proof -
  have le: "enat j < L \<Longrightarrow> l \<le> j \<Longrightarrow> enat l < L" for j l by (rule enat_less_trans_le)
  have u: "until L P Q i \<Longrightarrow> until L P' Q' i"
    unfolding until_def by (metis P Q le less_imp_le)
  have r: "release L P Q i \<Longrightarrow> release L P' Q' i"
    unfolding release_def by (metis P Q le less_imp_le)
  have g: "alw L P i \<Longrightarrow> alw L P' i"
    unfolding alw_def using P by auto
  have m: "strong_release L P Q i \<Longrightarrow> strong_release L P' Q' i"
    unfolding strong_release_def by (metis P Q le)
  show ?thesis
    using k h i P [of i] Q [of i] by (cases k) (auto simp: weak_until_def dest: u r g m)
qed

subsection \<open>Laws of the temporal operators\<close>

lemma not_until [sem_simps]: "(\<not> until L P Q i) = release L (\<lambda>j. \<not> P j) (\<lambda>j. \<not> Q j) i"
  by (auto simp: until_def release_def)

lemma not_release [sem_simps]: "(\<not> release L P Q i) = until L (\<lambda>j. \<not> P j) (\<lambda>j. \<not> Q j) i"
  by (auto simp: until_def release_def)

lemma release_weak_until: "release L P Q i = weak_until L Q (\<lambda>j. P j \<and> Q j) i"
proof
  assume r: "release L P Q i"
  show "weak_until L Q (\<lambda>j. P j \<and> Q j) i"
  proof (cases "alw L Q i")
    case True
    then show ?thesis by (simp add: weak_until_def)
  next
    case False
    then obtain j where j: "i \<le> j" "enat j < L" "\<not> Q j" by (auto simp: alw_def)
    with r obtain k where k: "i \<le> k" "k < j" "P k" by (auto simp: release_def)
    obtain m where m: "i \<le> m" "m \<le> k" "P m" "\<forall>l. i \<le> l \<and> l < m \<longrightarrow> \<not> P l"
      using ex_first_from [of P k i] k by blast
    have mL: "enat m < L" using enat_less_trans_le [of m j] j m k by simp
    have "Q l" if "i \<le> l" "l \<le> m" for l
      using r that m(4) enat_less_trans_le [of l m] mL unfolding release_def
      by (metis less_le_trans)
    then have "until L Q (\<lambda>j. P j \<and> Q j) i"
      using m mL unfolding until_def by (intro exI [of _ m]) auto
    then show ?thesis by (simp add: weak_until_def)
  qed
next
  assume "weak_until L Q (\<lambda>j. P j \<and> Q j) i"
  then show "release L P Q i"
    unfolding weak_until_def
  proof
    assume "until L Q (\<lambda>j. P j \<and> Q j) i"
    then show ?thesis unfolding until_def release_def by (metis not_le le_neq_implies_less)
  next
    assume "alw L Q i"
    then show ?thesis by (auto simp: alw_def release_def)
  qed
qed

lemma strong_release_until: "strong_release L P Q i = until L Q (\<lambda>j. P j \<and> Q j) i"
  unfolding strong_release_def until_def by (metis less_imp_le le_neq_implies_less order_refl)

lemma not_weak_until [sem_simps]:
  "(\<not> weak_until L P Q i) = strong_release L (\<lambda>j. \<not> P j) (\<lambda>j. \<not> Q j) i"
proof -
  have "weak_until L P Q i = release L Q (\<lambda>j. P j \<or> Q j) i"
  proof -
    have "release L Q (\<lambda>j. P j \<or> Q j) i = weak_until L (\<lambda>j. P j \<or> Q j) (\<lambda>j. Q j \<and> (P j \<or> Q j)) i"
      by (rule release_weak_until)
    also have "\<dots> = weak_until L P Q i"
    proof
      assume w: "weak_until L (\<lambda>j. P j \<or> Q j) (\<lambda>j. Q j \<and> (P j \<or> Q j)) i"
      show "weak_until L P Q i"
      proof (cases "ev L Q i")
        case True
        then obtain j where j: "i \<le> j" "enat j < L" "Q j" by (auto simp: ev_def)
        obtain m where m: "i \<le> m" "m \<le> j" "Q m" "\<forall>l. i \<le> l \<and> l < m \<longrightarrow> \<not> Q l"
          using ex_first_from [of Q j i] j by blast
        have mL: "enat m < L" using enat_less_trans_le [of m j] j m by simp
        have "P l" if l: "i \<le> l" "l < m" for l
        proof -
          have "enat l < L" using enat_less_trans_less [of l m] mL l by simp
          moreover have "\<not> Q l'" if "i \<le> l'" "l' \<le> l" for l' using m(4) l that by auto
          ultimately show ?thesis
            using w l unfolding weak_until_def until_def alw_def
            by (metis order_refl not_le)
        qed
        then show ?thesis using m mL unfolding weak_until_def until_def by blast
      next
        case False
        then show ?thesis using w by (auto simp: weak_until_def until_def alw_def ev_def)
      qed
    next
      assume "weak_until L P Q i"
      then show "weak_until L (\<lambda>j. P j \<or> Q j) (\<lambda>j. Q j \<and> (P j \<or> Q j)) i"
        by (auto simp: weak_until_def until_def alw_def)
    qed
    finally show ?thesis by simp
  qed
  then have "(\<not> weak_until L P Q i) = until L (\<lambda>j. \<not> Q j) (\<lambda>j. \<not> (P j \<or> Q j)) i"
    by (simp add: not_release)
  also have "\<dots> = strong_release L (\<lambda>j. \<not> P j) (\<lambda>j. \<not> Q j) i"
    by (simp add: strong_release_until)
  finally show ?thesis .
qed

lemma not_strong_release [sem_simps]:
  "(\<not> strong_release L P Q i) = weak_until L (\<lambda>j. \<not> P j) (\<lambda>j. \<not> Q j) i"
  using not_weak_until [of L "\<lambda>j. \<not> P j" "\<lambda>j. \<not> Q j" i] unfolding not_not by blast

lemma ev_until: "ev L P i = until L (\<lambda>_. True) P i"
  by (simp add: ev_def until_def)

lemma alw_release: "alw L P i = release L (\<lambda>_. False) P i"
  by (simp add: alw_def release_def)

lemma not_ev [sem_simps]: "(\<not> ev L P i) = alw L (\<lambda>j. \<not> P j) i"
  by (auto simp: ev_def alw_def)

lemma not_alw [sem_simps]: "(\<not> alw L P i) = ev L (\<lambda>j. \<not> P j) i"
  by (auto simp: ev_def alw_def)

lemma not_next_weak [sem_simps]: "(\<not> next_weak L P i) = next_strong L (\<lambda>j. \<not> P j) i"
  by (auto simp: next_weak_def next_strong_def)

lemma not_next_strong [sem_simps]: "(\<not> next_strong L P i) = next_weak L (\<lambda>j. \<not> P j) i"
  by (auto simp: next_weak_def next_strong_def)

lemma next_strong_inf: "next_strong \<infinity> P i = next_weak \<infinity> P i"
  by (simp add: next_weak_def next_strong_def)

lemmas temporal_defs = next_weak_def next_strong_def ev_def alw_def until_def release_def
  weak_until_def strong_release_def

end
