(* ===== verification/Pass_Contract.thy ===== *)
theory Pass_Contract
  imports Ltl_Semantics
begin

text \<open>
  The contract every formula pass of the library promises (\<^verbatim>\<open>rewrite.h\<close>: "every transform is
  equivalence-preserving"): on an expanded formula the pass returns an expanded formula
  that holds at the same positions of the same words.  \<open>formula_pass\<close> is the interface the
  drivers (\<^verbatim>\<open>apply_rewrites\<close>, \<^verbatim>\<open>tlsf_normalize_formula\<close>) rely on; the theories of the passes
  interpret it.
\<close>

subsection \<open>Refinement of one formula by another\<close>

definition refines :: "bool \<Rightarrow> node \<Rightarrow> node \<Rightarrow> bool" where
  "refines fin n m \<longleftrightarrow> ground m \<and> (\<forall>L. word_length fin L \<longrightarrow> sem_eq L m n)"

lemma refinesI [intro?]:
  "ground m \<Longrightarrow> (\<And>L. word_length fin L \<Longrightarrow> sem_eq L m n) \<Longrightarrow> refines fin n m"
  by (simp add: refines_def)

lemma refines_refl [simp]: "refines fin n n \<longleftrightarrow> ground n"
  by (auto simp: refines_def)

lemma refines_trans [trans]: "refines fin n m \<Longrightarrow> refines fin m k \<Longrightarrow> refines fin n k"
  by (auto simp: refines_def intro: sem_eq_trans)

lemma refines_ground: "refines fin n m \<Longrightarrow> ground m"
  by (simp add: refines_def)

lemma refines_sem_eq: "refines fin n m \<Longrightarrow> word_length fin L \<Longrightarrow> sem_eq L m n"
  by (simp add: refines_def)

lemma refines_Unary: "refines fin a b \<Longrightarrow> refines fin (Unary k a) (Unary k b)"
  by (auto simp: refines_def)

lemma refines_Binary:
  "refines fin a a' \<Longrightarrow> refines fin b b' \<Longrightarrow> refines fin (Binary k a b) (Binary k a' b')"
  by (auto simp: refines_def)

text \<open>A pass on all finite and infinite words is a pass on the infinite ones.\<close>

lemma refines_finite: "refines True n m \<Longrightarrow> refines fin n m"
  by (auto simp: refines_def)

subsection \<open>Structural equality, the stability test of the drivers\<close>

text \<open>
  \<^verbatim>\<open>node_equal\<close> (\<^verbatim>\<open>rewrite.c\<close>) and \<^verbatim>\<open>node_eq\<close> (\<^verbatim>\<open>normalize.c\<close>).  Atom names compare by interned
  pointer.  Every other kind falls into the C \<open>default\<close> branch, which compares the union
  members \<^verbatim>\<open>lhs\<close> and \<^verbatim>\<open>rhs\<close> whatever the kind.  The union overlays them on the first two pointers
  of the node: for a reduction these are \<^verbatim>\<open>qvar\<close> and \<^verbatim>\<open>qlo\<close> (interned name, and null for a set
  binder), for \<^verbatim>\<open>G[lo:hi]\<close> and \<^verbatim>\<open>F[lo:hi]\<close> a null and \<^verbatim>\<open>qlo\<close>, for a definition guard \<^verbatim>\<open>if_cond\<close> and
  \<^verbatim>\<open>if_then\<close>, for a bus element its name and index; nodes come zeroed from the arena, so the
  members a kind does not write are null.  Equal pointers compare equal; following a name
  or an argument array as a node, or a null, is left unspecified.
\<close>

fun node_equal :: "node \<Rightarrow> node \<Rightarrow> bool" where
  "node_equal NodeTrue y = (y = NodeTrue)"
| "node_equal NodeFalse y = (y = NodeFalse)"
| "node_equal (NodeAp p) y = (case y of NodeAp q \<Rightarrow> p = q | _ \<Rightarrow> False)"
| "node_equal (NodeInt v) y = (case y of NodeInt u \<Rightarrow> v = u | _ \<Rightarrow> False)"
| "node_equal (Unary k a) y = (case y of Unary k' b \<Rightarrow> k = k' \<and> node_equal a b | _ \<Rightarrow> False)"
| "node_equal (Binary k a b) y =
     (case y of Binary k' c d \<Rightarrow> k = k' \<and> node_equal a c \<and> node_equal b d | _ \<Rightarrow> False)"
| "node_equal (HlUnary k a) y =
     (case y of HlUnary k' b \<Rightarrow> k = k' \<and> node_equal a b | _ \<Rightarrow> False)"
| "node_equal (HlBinary k a b) y =
     (case y of HlBinary k' c d \<Rightarrow> k = k' \<and> node_equal a c \<and> node_equal b d | _ \<Rightarrow> False)"
| "node_equal (NextN s a b) y =
     (case y of NextN t c d \<Rightarrow> node_equal a c \<and> node_equal b d | _ \<Rightarrow> False)"
| "node_equal (IntVar s) y = (case y of IntVar t \<Rightarrow> s = t \<or> undefined | _ \<Rightarrow> False)"
| "node_equal (SizeOf s) y = (case y of SizeOf t \<Rightarrow> s = t \<or> undefined | _ \<Rightarrow> False)"
| "node_equal (BusIndex s a) y =
     (case y of BusIndex t b \<Rightarrow> (if s = t then node_equal a b else undefined) | _ \<Rightarrow> False)"
| "node_equal (Ite c t e) y =
     (case y of Ite c' t' e' \<Rightarrow> node_equal c c' \<and> node_equal t t' | _ \<Rightarrow> False)"
| "node_equal (BoundedOp k s lo hi body) y =
     (case y of BoundedOp k' s' lo' hi' body' \<Rightarrow> k = k' \<and> node_equal lo lo' | _ \<Rightarrow> False)"
| "node_equal (Quant k v (RangeBinder lo ls hi hs) body) y =
     (case y of
        Quant k' v' (RangeBinder lo' ls' hi' hs') body' \<Rightarrow>
          k = k' \<and> (if v = v' then node_equal lo lo' else undefined)
      | Quant k' v' (SetBinder s') body' \<Rightarrow> k = k' \<and> undefined
      | _ \<Rightarrow> False)"
| "node_equal (Quant k v (SetBinder s) body) y =
     (case y of
        Quant k' v' (SetBinder s') body' \<Rightarrow> k = k' \<and> (v = v' \<or> undefined)
      | Quant k' v' (RangeBinder lo' ls' hi' hs') body' \<Rightarrow> k = k' \<and> undefined
      | _ \<Rightarrow> False)"
| "node_equal (Call k s as) y = (node_kind y = node_kind (Call k s as) \<and> undefined)"
| "node_equal (SetLit k as) y = (node_kind y = node_kind (SetLit k as) \<and> undefined)"

lemma node_equal_ground [simp]: "ground x \<Longrightarrow> node_equal x y \<longleftrightarrow> x = y"
  by (induction x arbitrary: y rule: ground_induct) (auto split: node.splits)

subsection \<open>The interface\<close>

text \<open>Iterating a pass until the result is stable, at most \<open>k\<close> times.\<close>

fun iterate_pass :: "(node \<Rightarrow> node option) \<Rightarrow> nat \<Rightarrow> node \<Rightarrow> node option" where
  "iterate_pass pass 0 n = Some n"
| "iterate_pass pass (Suc k) n =
     do { m \<leftarrow> pass n; if node_equal m n then Some m else iterate_pass pass k m }"

locale formula_pass =
  fixes fin :: bool
    and pass :: "node \<Rightarrow> node option"
  assumes pass_total: "ground n \<Longrightarrow> \<exists>m. pass n = Some m"
    and pass_refines: "ground n \<Longrightarrow> pass n = Some m \<Longrightarrow> refines fin n m"
begin

lemma pass_obtain:
  assumes "ground n"
  obtains m where "pass n = Some m" "refines fin n m"
  using pass_total [OF assms] pass_refines [OF assms] by blast

lemma iterate_refines:
  "ground n \<Longrightarrow> \<exists>m. iterate_pass pass k n = Some m \<and> refines fin n m"
proof (induction k arbitrary: n)
  case 0
  then show ?case by simp
next
  case (Suc k)
  obtain m where m: "pass n = Some m" "refines fin n m"
    using pass_obtain [OF Suc.prems] .
  show ?case
  proof (cases "node_equal m n")
    case True
    with m show ?thesis by simp
  next
    case False
    from Suc.IH [OF refines_ground [OF m(2)]] obtain r
      where "iterate_pass pass k m = Some r" "refines fin m r" by blast
    with False m show ?thesis by (auto intro: refines_trans)
  qed
qed

text \<open>A formula the pass leaves alone is returned unchanged, however many rounds are allowed.\<close>

lemma iterate_stable: "ground n \<Longrightarrow> pass n = Some n \<Longrightarrow> iterate_pass pass k n = Some n"
  by (cases k) simp_all

end

text \<open>A pass that cannot fail.\<close>

locale total_pass =
  fixes fin :: bool
    and f :: "node \<Rightarrow> node"
  assumes f_refines: "ground n \<Longrightarrow> refines fin n (f n)"
begin

lemma f_ground: "ground n \<Longrightarrow> ground (f n)"
  using f_refines refines_ground by blast

lemma f_sem_eq: "ground n \<Longrightarrow> word_length fin L \<Longrightarrow> sem_eq L (f n) n"
  using f_refines refines_sem_eq by blast

end

sublocale total_pass \<subseteq> formula_pass fin "\<lambda>n. Some (f n)"
  by unfold_locales (auto intro: f_refines)

end
