(* ===== verification/Nnf.thy ===== *)
theory Nnf
  imports Pass_Contract
begin

text \<open>
  Negation normal form, \<^verbatim>\<open>src/lib/nnf.c\<close>.  \<open>to_nnf n polarity fin\<close> pushes a negation
  (\<open>polarity = False\<close>) through one recursive descent; \<^const>\<open>None\<close> is the failed assertion on a
  high-level node.
\<close>

primrec to_nnf :: "node \<Rightarrow> bool \<Rightarrow> bool \<Rightarrow> node option" where
  "to_nnf NodeTrue polarity fin = Some (if polarity then NodeTrue else NodeFalse)"
| "to_nnf NodeFalse polarity fin = Some (if polarity then NodeFalse else NodeTrue)"
| "to_nnf (NodeAp p) polarity fin =
     Some (if polarity then NodeAp p else node_not (NodeAp p))"
| "to_nnf (Unary k n) polarity fin = (case k of
     NODE_NOT \<Rightarrow> to_nnf n (\<not> polarity) fin
   | NODE_X \<Rightarrow> do { arg \<leftarrow> to_nnf n polarity fin;
       Some (if polarity \<or> \<not> fin then node_x arg else node_x_strong arg) }
   | NODE_X_STRONG \<Rightarrow> do { arg \<leftarrow> to_nnf n polarity fin;
       Some (if polarity then node_x_strong arg else node_x arg) }
   | NODE_G \<Rightarrow> do { arg \<leftarrow> to_nnf n polarity fin;
       Some (if polarity then node_g arg else node_f arg) }
   | NODE_F \<Rightarrow> do { arg \<leftarrow> to_nnf n polarity fin;
       Some (if polarity then node_f arg else node_g arg) })"
| "to_nnf (Binary k phi psi) polarity fin = (case k of
     NODE_AND \<Rightarrow> do { l \<leftarrow> to_nnf phi polarity fin; r \<leftarrow> to_nnf psi polarity fin;
       Some (if polarity then node_and l r else node_or l r) }
   | NODE_OR \<Rightarrow> do { l \<leftarrow> to_nnf phi polarity fin; r \<leftarrow> to_nnf psi polarity fin;
       Some (if polarity then node_or l r else node_and l r) }
   | NODE_IMPL \<Rightarrow> do { l \<leftarrow> to_nnf phi (\<not> polarity) fin; r \<leftarrow> to_nnf psi polarity fin;
       Some (if polarity then node_or l r else node_and l r) }
   | NODE_EQUIV \<Rightarrow> do {
       phi_pos \<leftarrow> to_nnf phi True fin; phi_neg \<leftarrow> to_nnf phi False fin;
       psi_pos \<leftarrow> to_nnf psi True fin; psi_neg \<leftarrow> to_nnf psi False fin;
       Some (if polarity
             then node_and (node_or phi_neg psi_pos) (node_or psi_neg phi_pos)
             else node_or (node_and phi_pos psi_neg) (node_and psi_pos phi_neg)) }
   | NODE_U \<Rightarrow> do { l \<leftarrow> to_nnf phi polarity fin; r \<leftarrow> to_nnf psi polarity fin;
       Some (if polarity then node_u l r else node_r l r) }
   | NODE_R \<Rightarrow> do { l \<leftarrow> to_nnf phi polarity fin; r \<leftarrow> to_nnf psi polarity fin;
       Some (if polarity then node_r l r else node_u l r) }
   | NODE_W \<Rightarrow> do { l \<leftarrow> to_nnf phi polarity fin; r \<leftarrow> to_nnf psi polarity fin;
       Some (if polarity then node_w l r else node_m l r) }
   | NODE_M \<Rightarrow> do { l \<leftarrow> to_nnf phi polarity fin; r \<leftarrow> to_nnf psi polarity fin;
       Some (if polarity then node_m l r else node_w l r) })"
| "to_nnf (NodeInt _) polarity fin = None"
| "to_nnf (IntVar _) polarity fin = None"
| "to_nnf (SizeOf _) polarity fin = None"
| "to_nnf (HlUnary _ _) polarity fin = None"
| "to_nnf (HlBinary _ _ _) polarity fin = None"
| "to_nnf (Call _ _ _) polarity fin = None"
| "to_nnf (BusIndex _ _) polarity fin = None"
| "to_nnf (Ite _ _ _) polarity fin = None"
| "to_nnf (NextN _ _ _) polarity fin = None"
| "to_nnf (BoundedOp _ _ _ _ _) polarity fin = None"
| "to_nnf (Quant _ _ _ _) polarity fin = None"
| "to_nnf (SetLit _ _) polarity fin = None"

subsection \<open>The normal form\<close>

text \<open>Negation only in front of an atom; no implication and no equivalence.\<close>

fun is_nnf :: "node \<Rightarrow> bool" where
  "is_nnf NodeTrue = True"
| "is_nnf NodeFalse = True"
| "is_nnf (NodeAp _) = True"
| "is_nnf (Unary NODE_NOT a) = (\<exists>p. a = NodeAp p)"
| "is_nnf (Unary _ a) = is_nnf a"
| "is_nnf (Binary k a b) = (bin_mono k \<and> is_nnf a \<and> is_nnf b)"
| "is_nnf _ = False"

lemma is_nnf_Unary: "is_nnf (Unary k a) \<longleftrightarrow> (if k = NODE_NOT then \<exists>p. a = NodeAp p else is_nnf a)"
  by (cases k) simp_all

lemma is_nnf_ground: "is_nnf n \<Longrightarrow> ground n"
  by (induction n rule: is_nnf.induct) auto

lemma to_nnf_total: "ground n \<Longrightarrow> \<exists>m. to_nnf n pol fin = Some m"
proof (induction n arbitrary: pol rule: ground_induct)
  case (Un k a)
  then show ?case by (cases k) auto
next
  case (Bin k a b)
  have "\<exists>m. to_nnf a p fin = Some m" "\<exists>m. to_nnf b p fin = Some m" for p
    using Bin.IH by blast+
  then show ?case by (cases k) (auto, metis+)
qed simp_all

lemma to_nnf_is_nnf: "to_nnf n pol fin = Some m \<Longrightarrow> is_nnf m"
proof (induction n arbitrary: pol m)
  case (Unary k a)
  then show ?case by (cases k) (auto simp: is_nnf_Unary split: if_splits)
next
  case (Binary k a b)
  then show ?case by (cases k) (auto split: if_splits)
qed (auto split: if_splits)

lemma to_nnf_atoms: "to_nnf n pol fin = Some m \<Longrightarrow> atoms m = atoms n"
proof (induction n arbitrary: pol m)
  case (Unary k a)
  then show ?case by (cases k) (auto split: if_splits)
next
  case (Binary k a b)
  have "\<And>pol m. to_nnf a pol fin = Some m \<Longrightarrow> atoms m = atoms a"
    and "\<And>pol m. to_nnf b pol fin = Some m \<Longrightarrow> atoms m = atoms b"
    using Binary.IH by blast+
  then show ?case using Binary.prems by (cases k) (fastforce split: if_splits)+
qed (auto split: if_splits)

text \<open>
  The polarity invariant: the result holds where the input has the truth value \<open>pol\<close>.  The
  operators only see positions inside the word, so congruence carries it through.
\<close>

definition nnf_of :: "enat \<Rightarrow> trace \<Rightarrow> bool \<Rightarrow> node \<Rightarrow> node \<Rightarrow> bool" where
  "nnf_of L w pol n m \<longleftrightarrow> (\<forall>i. enat i < L \<longrightarrow> sat L w m i = (sat L w n i = pol))"

lemma nnf_of_un:
  assumes m: "nnf_of L w pol a m"
    and dual: "\<And>i. enat i < L \<Longrightarrow> un_sem L k' (\<lambda>j. sat L w a j = pol) i = (un_sem L k (sat L w a) i = pol')"
  shows "nnf_of L w pol' (Unary k a) (Unary k' m)"
  unfolding nnf_of_def
proof (intro allI impI)
  fix i assume i: "enat i < L"
  have "sat L w (Unary k' m) i = un_sem L k' (\<lambda>j. sat L w a j = pol) i"
    unfolding sat.simps using m i by (intro un_sem_cong) (auto simp: nnf_of_def)
  then show "sat L w (Unary k' m) i = (sat L w (Unary k a) i = pol')"
    using dual [OF i] by simp
qed

lemma nnf_of_bin:
  assumes m: "nnf_of L w pol a m" and m': "nnf_of L w pol2 b m'"
    and dual: "\<And>i. enat i < L \<Longrightarrow>
      bin_sem L k' (\<lambda>j. sat L w a j = pol) (\<lambda>j. sat L w b j = pol2) i =
      (bin_sem L k (sat L w a) (sat L w b) i = pol')"
  shows "nnf_of L w pol' (Binary k a b) (Binary k' m m')"
  unfolding nnf_of_def
proof (intro allI impI)
  fix i assume i: "enat i < L"
  have "sat L w (Binary k' m m') i =
      bin_sem L k' (\<lambda>j. sat L w a j = pol) (\<lambda>j. sat L w b j = pol2) i"
    unfolding sat.simps using m m' i by (intro bin_sem_cong) (auto simp: nnf_of_def)
  then show "sat L w (Binary k' m m') i = (sat L w (Binary k a b) i = pol')"
    using dual [OF i] by simp
qed

lemma to_nnf_nnf_of:
  assumes "word_length fin L" and "to_nnf n pol fin = Some m"
  shows "nnf_of L w pol n m"
  using assms(2)
proof (induction n arbitrary: pol m)
  case (Unary k a)
  show ?case
  proof (cases "k = NODE_NOT")
    case True
    with Unary.prems have "to_nnf a (\<not> pol) fin = Some m" by simp
    from Unary.IH [OF this] True show ?thesis by (auto simp: nnf_of_def)
  next
    case False
    with Unary.prems obtain r k' where r: "to_nnf a pol fin = Some r" and m: "m = Unary k' r"
      and k': "k' = (case k of NODE_X \<Rightarrow> if pol \<or> \<not> fin then NODE_X else NODE_X_STRONG
        | NODE_X_STRONG \<Rightarrow> if pol then NODE_X_STRONG else NODE_X
        | NODE_G \<Rightarrow> if pol then NODE_G else NODE_F | NODE_F \<Rightarrow> if pol then NODE_F else NODE_G
        | NODE_NOT \<Rightarrow> NODE_NOT)"
      by (cases k) (auto split: if_splits)
    have "un_sem L k' (\<lambda>j. sat L w a j = pol) i = (un_sem L k (sat L w a) i = pol)" for i
      using False assms(1) unfolding k'
      by (cases k; cases pol; cases fin)
         (auto simp: word_length_def next_weak_def next_strong_def ev_def alw_def)
    with Unary.IH [OF r] show ?thesis unfolding m by (intro nnf_of_un)
  qed
next
  case (Binary k a b)
  note IH = Binary.IH
  show ?case
  proof (cases k)
    case NODE_AND
    with Binary.prems show ?thesis
      by (auto intro!: nnf_of_bin [OF IH] split: if_splits)
  next
    case NODE_OR
    with Binary.prems show ?thesis
      by (auto intro!: nnf_of_bin [OF IH] split: if_splits)
  next
    case NODE_IMPL
    with Binary.prems show ?thesis
      by (auto intro!: nnf_of_bin [OF IH] split: if_splits)
  next
    case NODE_EQUIV
    with Binary.prems obtain p q r s where
      "to_nnf a True fin = Some p" "to_nnf a False fin = Some q"
      "to_nnf b True fin = Some r" "to_nnf b False fin = Some s"
      and m: "m = (if pol then node_and (node_or q r) (node_or s p)
                   else node_or (node_and p s) (node_and r q))"
      by auto
    then have "nnf_of L w True a p" "nnf_of L w False a q" "nnf_of L w True b r" "nnf_of L w False b s"
      using IH by blast+
    then show ?thesis unfolding m NODE_EQUIV by (auto simp: nnf_of_def)
  next
    case NODE_U
    with Binary.prems show ?thesis
      by (auto intro!: nnf_of_bin [OF IH] split: if_splits simp flip: not_until)
  next
    case NODE_R
    with Binary.prems show ?thesis
      by (auto intro!: nnf_of_bin [OF IH] split: if_splits simp flip: not_release)
  next
    case NODE_W
    with Binary.prems show ?thesis
      by (auto intro!: nnf_of_bin [OF IH] split: if_splits simp flip: not_weak_until)
  next
    case NODE_M
    with Binary.prems show ?thesis
      by (auto intro!: nnf_of_bin [OF IH] split: if_splits simp flip: not_strong_release)
  qed
qed (auto simp: nnf_of_def split: if_splits)

lemma to_nnf_sem_eq:
  "to_nnf n True fin = Some m \<Longrightarrow> word_length fin L \<Longrightarrow> sem_eq L m n"
  using to_nnf_nnf_of [of fin L n True m] by (auto simp: nnf_of_def sem_eq_def)

interpretation nnf_pass: formula_pass fin "\<lambda>n. to_nnf n True fin" for fin
  by unfold_locales
     (auto intro: to_nnf_total refinesI is_nnf_ground to_nnf_is_nnf to_nnf_sem_eq)

subsection \<open>Property\<close>

text \<open>
  C22. \<^verbatim>\<open>to_nnf\<close> never fails on an expanded formula; its result has negation only in front of
  atoms, no implication and no equivalence, mentions the same atoms, and holds at exactly the
  same positions: of every infinite word, and with \<open>finite\<close> set of every finite word as well
  (where the dual of the weak next is the strong next).
\<close>

theorem to_nnf_correct:
  assumes "ground n" and "word_length fin L"
  shows "\<exists>m. to_nnf n True fin = Some m \<and> is_nnf m \<and> atoms m = atoms n \<and> sem_eq L m n"
  using to_nnf_total [OF assms(1), of True fin] to_nnf_sem_eq [OF _ assms(2)]
  by (metis to_nnf_is_nnf to_nnf_atoms)

theorem to_nnf_correct_witness:
  "sem_eq (enat 3)
     (node_r (node_not (NodeAp ''p'')) (node_x_strong (node_not (NodeAp ''q''))))
     (node_not (node_u (NodeAp ''p'') (node_x (NodeAp ''q''))))"
  using to_nnf_correct [of "node_not (node_u (NodeAp ''p'') (node_x (NodeAp ''q'')))" True "enat 3"]
  by simp

end
