(* ===== verification/Rewrite.thy ===== *)
theory Rewrite
  imports Nnf
begin

text \<open>
  Meaning-preserving rewriting, \<^verbatim>\<open>src/lib/rewrite.c\<close>: the local rules (operator replacement,
  pushing in, pulling out, weak simplification), the bottom-up traversal \<open>rw_pass\<close>, the
  capped fixpoint driver \<open>apply_rewrites\<close>, and the conjunct decomposition.
\<close>

unbundle bit_operations_syntax

subsection \<open>Flags\<close>

definition RW_NONE :: u32 where "RW_NONE = 0"
definition RW_NNF :: u32 where "RW_NNF = 1"
definition RW_NO_WEAK_UNTIL :: u32 where "RW_NO_WEAK_UNTIL = 2"
definition RW_NO_RELEASE :: u32 where "RW_NO_RELEASE = 4"
definition RW_NO_FINALLY :: u32 where "RW_NO_FINALLY = 8"
definition RW_NO_GLOBALLY :: u32 where "RW_NO_GLOBALLY = 16"
definition RW_PUSH_G_IN :: u32 where "RW_PUSH_G_IN = 32"
definition RW_PUSH_F_IN :: u32 where "RW_PUSH_F_IN = 64"
definition RW_PUSH_X_IN :: u32 where "RW_PUSH_X_IN = 128"
definition RW_PULL_G_OUT :: u32 where "RW_PULL_G_OUT = 256"
definition RW_PULL_F_OUT :: u32 where "RW_PULL_F_OUT = 512"
definition RW_PULL_X_OUT :: u32 where "RW_PULL_X_OUT = 1024"
definition RW_SIMPLIFY_WEAK :: u32 where "RW_SIMPLIFY_WEAK = 2048"
definition RW_NO_STRONG_RELEASE :: u32 where "RW_NO_STRONG_RELEASE = 4096"
definition RW_FINITE :: u32 where "RW_FINITE = 8192"

lemmas rw_flag_defs = RW_NONE_def RW_NNF_def RW_NO_WEAK_UNTIL_def RW_NO_RELEASE_def
  RW_NO_FINALLY_def RW_NO_GLOBALLY_def RW_PUSH_G_IN_def RW_PUSH_F_IN_def RW_PUSH_X_IN_def
  RW_PULL_G_OUT_def RW_PULL_F_OUT_def RW_PULL_X_OUT_def RW_SIMPLIFY_WEAK_def
  RW_NO_STRONG_RELEASE_def RW_FINITE_def

definition has_flag :: "u32 \<Rightarrow> u32 \<Rightarrow> bool" where
  "has_flag flags f \<longleftrightarrow> flags AND f \<noteq> 0"

definition RW_NO_DERIVED :: u32 where
  "RW_NO_DERIVED = RW_NO_WEAK_UNTIL OR RW_NO_FINALLY OR RW_NO_GLOBALLY"

definition RW_STRONG_SIMPLIFY :: u32 where
  "RW_STRONG_SIMPLIFY = RW_SIMPLIFY_WEAK OR RW_NNF OR RW_NO_WEAK_UNTIL OR RW_NO_RELEASE OR
     RW_PULL_G_OUT OR RW_PULL_F_OUT OR RW_PULL_X_OUT"

subsection \<open>Kind tests and field access\<close>

text \<open>\<open>n->kind == k\<close>, and the union members, read only after the kind was tested.\<close>

primrec is_un :: "un_kind \<Rightarrow> node \<Rightarrow> bool" where
  "is_un k (Unary k' a) = (k = k')"
| "is_un k NodeTrue = False"
| "is_un k NodeFalse = False"
| "is_un k (NodeAp _) = False"
| "is_un k (NodeInt _) = False"
| "is_un k (Binary _ _ _) = False"
| "is_un k (IntVar _) = False"
| "is_un k (SizeOf _) = False"
| "is_un k (HlUnary _ _) = False"
| "is_un k (HlBinary _ _ _) = False"
| "is_un k (Call _ _ _) = False"
| "is_un k (BusIndex _ _) = False"
| "is_un k (Ite _ _ _) = False"
| "is_un k (NextN _ _ _) = False"
| "is_un k (BoundedOp _ _ _ _ _) = False"
| "is_un k (Quant _ _ _ _) = False"
| "is_un k (SetLit _ _) = False"

definition is_bin :: "bin_kind \<Rightarrow> node \<Rightarrow> bool" where
  "is_bin k n = (case n of Binary k' a b \<Rightarrow> k = k' | _ \<Rightarrow> False)"

definition is_true :: "node \<Rightarrow> bool" where
  "is_true n = (case n of NodeTrue \<Rightarrow> True | _ \<Rightarrow> False)"

definition is_false :: "node \<Rightarrow> bool" where
  "is_false n = (case n of NodeFalse \<Rightarrow> True | _ \<Rightarrow> False)"

fun un_arg :: "node \<Rightarrow> node" where "un_arg (Unary k a) = a"
fun bin_lhs :: "node \<Rightarrow> node" where "bin_lhs (Binary k a b) = a"
fun bin_rhs :: "node \<Rightarrow> node" where "bin_rhs (Binary k a b) = b"

lemma is_un_iff: "is_un k n \<longleftrightarrow> (\<exists>a. n = Unary k a)"
  by (cases n) auto

lemma is_bin_iff: "is_bin k n \<longleftrightarrow> (\<exists>a b. n = Binary k a b)"
  by (cases n) (auto simp: is_bin_def)

lemma is_true_iff [simp]: "is_true n \<longleftrightarrow> n = NodeTrue"
  by (cases n) (auto simp: is_true_def)

lemma is_false_iff [simp]: "is_false n \<longleftrightarrow> n = NodeFalse"
  by (cases n) (auto simp: is_false_def)

lemma is_un_Unary [simp]: "is_un k (Unary k' a) \<longleftrightarrow> k = k'"
  by simp

lemma is_bin_simps [simp]:
  "is_bin k (Binary k' a b) \<longleftrightarrow> k = k'" "\<not> is_bin k NodeTrue" "\<not> is_bin k NodeFalse"
  "\<not> is_bin k (NodeAp p)" "\<not> is_bin k (Unary u a)"
  by (simp_all add: is_bin_def)

subsection \<open>Weak simplification\<close>

definition simplify_weak_un :: "un_kind \<Rightarrow> node \<Rightarrow> bool \<Rightarrow> node" where
  "simplify_weak_un k arg fin = (case k of
     NODE_NOT \<Rightarrow>
       if is_true arg then NodeFalse
       else if is_false arg then NodeTrue
       else if is_un NODE_NOT arg then un_arg arg
       else node_not arg
   | NODE_X \<Rightarrow>
       if is_true arg then NodeTrue
       else if \<not> fin \<and> is_false arg then NodeFalse
       else node_x arg
   | NODE_X_STRONG \<Rightarrow> if is_false arg then NodeFalse else node_x_strong arg
   | NODE_F \<Rightarrow>
       if is_true arg then NodeTrue
       else if is_false arg then NodeFalse
       else if is_un NODE_F arg then arg
       else node_f arg
   | NODE_G \<Rightarrow>
       if is_true arg then NodeTrue
       else if is_false arg then NodeFalse
       else if is_un NODE_G arg then arg
       else node_g arg)"

definition simplify_weak_bin :: "bin_kind \<Rightarrow> node \<Rightarrow> node \<Rightarrow> node" where
  "simplify_weak_bin k lhs rhs = (case k of
     NODE_AND \<Rightarrow>
       if is_false lhs \<or> is_false rhs then NodeFalse
       else if is_true lhs then rhs
       else if is_true rhs then lhs
       else if node_equal lhs rhs then lhs
       else node_and lhs rhs
   | NODE_OR \<Rightarrow>
       if is_true lhs \<or> is_true rhs then NodeTrue
       else if is_false lhs then rhs
       else if is_false rhs then lhs
       else if node_equal lhs rhs then lhs
       else node_or lhs rhs
   | NODE_IMPL \<Rightarrow>
       if is_false lhs \<or> is_true rhs then NodeTrue
       else if is_true lhs then rhs
       else if is_false rhs then node_not lhs
       else node_impl lhs rhs
   | NODE_EQUIV \<Rightarrow>
       if is_true lhs then rhs
       else if is_true rhs then lhs
       else if is_false lhs then node_not rhs
       else if is_false rhs then node_not lhs
       else if node_equal lhs rhs then NodeTrue
       else node_equiv lhs rhs
   | NODE_U \<Rightarrow>
       if is_true rhs then NodeTrue
       else if is_false rhs then NodeFalse
       else if is_false lhs then rhs
       else if is_true lhs then node_f rhs
       else node_u lhs rhs
   | NODE_R \<Rightarrow>
       if is_false rhs then NodeFalse
       else if is_true rhs then NodeTrue
       else if is_false lhs then node_g rhs
       else if is_true lhs then rhs
       else node_r lhs rhs
   | NODE_W \<Rightarrow>
       if is_true lhs then NodeTrue
       else if is_true rhs then NodeTrue
       else if is_false lhs then rhs
       else if is_false rhs then node_g lhs
       else node_w lhs rhs
   | NODE_M \<Rightarrow>
       if is_false rhs then NodeFalse
       else if is_false lhs then NodeFalse
       else if is_true rhs then node_f lhs
       else if is_true lhs then rhs
       else node_m lhs rhs)"

definition simplify_weak_local :: "node \<Rightarrow> bool \<Rightarrow> node" where
  "simplify_weak_local n fin = (case n of
     Unary k arg \<Rightarrow> simplify_weak_un k arg fin
   | Binary k lhs rhs \<Rightarrow> simplify_weak_bin k lhs rhs
   | _ \<Rightarrow> n)"

subsection \<open>Per-node rules\<close>

definition replace_rule :: "u32 \<Rightarrow> node \<Rightarrow> node option" where
  "replace_rule flags n =
    (if has_flag flags RW_NO_WEAK_UNTIL \<and> is_bin NODE_W n
     then Some (node_or (node_u (bin_lhs n) (bin_rhs n)) (node_g (bin_lhs n)))
     else if has_flag flags RW_NO_RELEASE \<and> is_bin NODE_R n
     then Some (node_w (bin_rhs n) (node_and (bin_lhs n) (bin_rhs n)))
     else if has_flag flags RW_NO_STRONG_RELEASE \<and> is_bin NODE_M n
     then Some (node_u (bin_rhs n) (node_and (bin_lhs n) (bin_rhs n)))
     else if has_flag flags RW_NO_FINALLY \<and> is_un NODE_F n
     then Some (node_u NodeTrue (un_arg n))
     else if has_flag flags RW_NO_GLOBALLY \<and> is_un NODE_G n
     then Some (node_r NodeFalse (un_arg n))
     else None)"

definition push_rule :: "u32 \<Rightarrow> node \<Rightarrow> node option" where
  "push_rule flags n =
    (if has_flag flags RW_PUSH_G_IN \<and> is_un NODE_G n \<and> is_bin NODE_AND (un_arg n)
     then Some (node_and (node_g (bin_lhs (un_arg n))) (node_g (bin_rhs (un_arg n))))
     else if has_flag flags RW_PUSH_F_IN \<and> is_un NODE_F n \<and> is_bin NODE_OR (un_arg n)
     then Some (node_or (node_f (bin_lhs (un_arg n))) (node_f (bin_rhs (un_arg n))))
     else if has_flag flags RW_PUSH_X_IN \<and> is_un NODE_X n \<and>
          (is_bin NODE_AND (un_arg n) \<or> is_bin NODE_OR (un_arg n))
     then let c = un_arg n; l = node_x (bin_lhs c); r = node_x (bin_rhs c)
          in Some (if is_bin NODE_AND c then node_and l r else node_or l r)
     else None)"

definition pull_rule :: "u32 \<Rightarrow> node \<Rightarrow> node option" where
  "pull_rule flags n =
    (if has_flag flags RW_PULL_G_OUT \<and> is_bin NODE_AND n \<and>
        is_un NODE_G (bin_lhs n) \<and> is_un NODE_G (bin_rhs n)
     then Some (node_g (node_and (un_arg (bin_lhs n)) (un_arg (bin_rhs n))))
     else if has_flag flags RW_PULL_F_OUT \<and> is_bin NODE_OR n \<and>
        is_un NODE_F (bin_lhs n) \<and> is_un NODE_F (bin_rhs n)
     then Some (node_f (node_or (un_arg (bin_lhs n)) (un_arg (bin_rhs n))))
     else if has_flag flags RW_PULL_X_OUT \<and> (is_bin NODE_AND n \<or> is_bin NODE_OR n) \<and>
        is_un NODE_X (bin_lhs n) \<and> is_un NODE_X (bin_rhs n)
     then Some (node_x (if is_bin NODE_AND n
                        then node_and (un_arg (bin_lhs n)) (un_arg (bin_rhs n))
                        else node_or (un_arg (bin_lhs n)) (un_arg (bin_rhs n))))
     else None)"

definition apply_local :: "node \<Rightarrow> u32 \<Rightarrow> node" where
  "apply_local n flags =
    (case replace_rule flags n of Some m \<Rightarrow> m | None \<Rightarrow>
     (case push_rule flags n of Some m \<Rightarrow> m | None \<Rightarrow>
      (case pull_rule flags n of Some m \<Rightarrow> m | None \<Rightarrow>
       if has_flag flags RW_SIMPLIFY_WEAK
       then simplify_weak_local n (has_flag flags RW_FINITE) else n)))"

subsection \<open>Traversal and driver\<close>

primrec rw_pass :: "u32 \<Rightarrow> node \<Rightarrow> node option" where
  "rw_pass flags NodeTrue = Some NodeTrue"
| "rw_pass flags NodeFalse = Some NodeFalse"
| "rw_pass flags (NodeAp p) = Some (NodeAp p)"
| "rw_pass flags (NodeInt v) = Some (NodeInt v)"
| "rw_pass flags (Unary k a) =
     do { x \<leftarrow> rw_pass flags a; Some (apply_local (Unary k x) flags) }"
| "rw_pass flags (Binary k a b) =
     do { r \<leftarrow> rw_pass flags b; l \<leftarrow> rw_pass flags a; Some (apply_local (Binary k l r) flags) }"
| "rw_pass flags (IntVar _) = None"
| "rw_pass flags (SizeOf _) = None"
| "rw_pass flags (HlUnary _ _) = None"
| "rw_pass flags (HlBinary _ _ _) = None"
| "rw_pass flags (Call _ _ _) = None"
| "rw_pass flags (BusIndex _ _) = None"
| "rw_pass flags (Ite _ _ _) = None"
| "rw_pass flags (NextN _ _ _) = None"
| "rw_pass flags (BoundedOp _ _ _ _ _) = None"
| "rw_pass flags (Quant _ _ _ _) = None"
| "rw_pass flags (SetLit _ _) = None"

definition RW_FIXPOINT_CAP :: nat where "RW_FIXPOINT_CAP = 200"

definition apply_rewrites :: "node \<Rightarrow> u32 \<Rightarrow> node option" where
  "apply_rewrites f flags =
    (if flags = RW_NONE then Some f
     else do {
       g \<leftarrow> (if has_flag flags RW_NNF then to_nnf f True (has_flag flags RW_FINITE)
                else Some f);
       let local = flags AND NOT (RW_NNF OR RW_FINITE);
       if local = 0 then Some g
       else iterate_pass (rw_pass (local OR (flags AND RW_FINITE))) RW_FIXPOINT_CAP g })"

text \<open>The conjuncts of a formula along its \<open>G\<close>/\<open>X\<close> spine, in order.\<close>

fun decomp_append :: "node \<Rightarrow> node list" where
  "decomp_append (Binary k a b) =
     (if k = NODE_AND then decomp_append a @ decomp_append b else [Binary k a b])"
| "decomp_append (Unary k a) =
     (if k = NODE_G \<or> k = NODE_X \<or> k = NODE_X_STRONG then map (Unary k) (decomp_append a)
      else [Unary k a])"
| "decomp_append f = [f]"

definition rewrite_decompose :: "node \<Rightarrow> node list" where
  "rewrite_decompose f = decomp_append f"

end
