(* ===== verification/Rewrite_Correct.thy ===== *)
theory Rewrite_Correct
  imports Rewrite
begin

text \<open>
  Correctness of \<^verbatim>\<open>rewrite.c\<close>: every local rule is an equivalence on the words of the
  semantics it runs under, hence so are the traversal and the capped driver; the operators a
  flag eliminates are gone from a stable result; the decomposition is a conjunction.
\<close>

subsection \<open>Weak simplification\<close>

lemma alw_alw: "alw L (alw L P) i = alw L P i"
  by (auto simp: alw_def)

lemma ev_ev: "ev L (ev L P) i = ev L P i"
  by (auto simp: ev_def intro: le_trans)

lemma const_un [simp]:
  assumes "enat i < L"
  shows "ev L (\<lambda>_. c) i = c" "alw L (\<lambda>_. c) i = c"
    "next_weak L (\<lambda>_. True) i" "\<not> next_strong L (\<lambda>_. False) i"
  using assms by (auto simp: ev_def alw_def next_weak_def next_strong_def)

lemma const_until [simp]:
  assumes "enat i < L"
  shows "until L P (\<lambda>_. c) i = c" "until L (\<lambda>_. False) P i = P i"
    "until L (\<lambda>_. True) P i = ev L P i"
  using assms by (auto simp: until_def ev_def le_less)

lemma const_weak_until [simp]:
  assumes "enat i < L"
  shows "weak_until L P (\<lambda>_. True) i" "weak_until L (\<lambda>_. True) P i"
    "weak_until L (\<lambda>_. False) P i = P i" "weak_until L P (\<lambda>_. False) i = alw L P i"
  using assms by (auto simp: weak_until_def)

lemma const_release [simp]:
  assumes "enat i < L"
  shows "release L P (\<lambda>_. c) i = c" "release L (\<lambda>_. False) P i = alw L P i"
    "release L (\<lambda>_. True) P i = P i"
  using assms by (auto simp: release_def alw_def le_less)

lemma const_strong_release [simp]:
  assumes "enat i < L"
  shows "\<not> strong_release L P (\<lambda>_. False) i" "\<not> strong_release L (\<lambda>_. False) P i"
    "strong_release L P (\<lambda>_. True) i = ev L P i" "strong_release L (\<lambda>_. True) P i = P i"
  using assms by (auto simp: strong_release_def ev_def le_antisym)

lemma simplify_weak_un_refines:
  assumes "ground a"
  shows "refines fin (Unary k a) (simplify_weak_un k a fin)"
proof
  show "ground (simplify_weak_un k a fin)"
    using assms by (cases k) (auto simp: simplify_weak_un_def is_un_iff)
next
  fix L assume L: "word_length fin L"
  show "sem_eq L (simplify_weak_un k a fin) (Unary k a)"
  proof
    fix w i assume i: "enat i < L"
    show "sat L w (simplify_weak_un k a fin) i = sat L w (Unary k a) i"
    proof (cases k)
      case NODE_NOT
      then show ?thesis by (auto simp: simplify_weak_un_def is_un_iff)
    next
      case NODE_X
      then show ?thesis using i L
        by (auto simp: simplify_weak_un_def word_length_def next_weak_def)
    next
      case NODE_X_STRONG
      then show ?thesis using i by (auto simp: simplify_weak_un_def)
    next
      case NODE_F
      then show ?thesis using i by (auto simp: simplify_weak_un_def is_un_iff ev_ev)
    next
      case NODE_G
      then show ?thesis using i by (auto simp: simplify_weak_un_def is_un_iff alw_alw)
    qed
  qed
qed

lemma simplify_weak_bin_refines:
  assumes "ground a" "ground b"
  shows "refines fin (Binary k a b) (simplify_weak_bin k a b)"
proof
  show "ground (simplify_weak_bin k a b)"
    using assms by (cases k) (auto simp: simplify_weak_bin_def)
next
  fix L
  show "sem_eq L (simplify_weak_bin k a b) (Binary k a b)"
  proof
    fix w i assume "enat i < L"
    then show "sat L w (simplify_weak_bin k a b) i = sat L w (Binary k a b) i"
      using assms by (cases k) (simp_all add: simplify_weak_bin_def)
  qed
qed

lemma simplify_weak_local_refines:
  "ground n \<Longrightarrow> refines fin n (simplify_weak_local n fin)"
  by (cases n)
     (auto simp: simplify_weak_local_def intro: simplify_weak_un_refines simplify_weak_bin_refines)

subsection \<open>Replacement, pushing and pulling\<close>

text \<open>These rules hold on every word, finite or infinite.\<close>

lemma alw_conj: "alw L (\<lambda>j. P j \<and> Q j) i = (alw L P i \<and> alw L Q i)"
  by (auto simp: alw_def)

lemma ev_disj: "ev L (\<lambda>j. P j \<or> Q j) i = (ev L P i \<or> ev L Q i)"
  by (auto simp: ev_def)

lemma next_weak_conj: "next_weak L (\<lambda>j. P j \<and> Q j) i = (next_weak L P i \<and> next_weak L Q i)"
  by (auto simp: next_weak_def)

lemma next_weak_disj: "next_weak L (\<lambda>j. P j \<or> Q j) i = (next_weak L P i \<or> next_weak L Q i)"
  by (auto simp: next_weak_def)

lemma next_strong_conj:
  "next_strong L (\<lambda>j. P j \<and> Q j) i = (next_strong L P i \<and> next_strong L Q i)"
  by (auto simp: next_strong_def)

lemmas distribution_laws = alw_conj ev_disj next_weak_conj next_weak_disj next_strong_conj

lemma replace_rule_refines:
  "ground n \<Longrightarrow> replace_rule flags n = Some m \<Longrightarrow> refines True n m"
  by (auto simp: replace_rule_def refines_def sem_eq_def is_bin_iff is_un_iff
        weak_until_def [symmetric] release_weak_until strong_release_until
        ev_until [symmetric] alw_release [symmetric] split: if_splits)

lemma push_rule_refines:
  "ground n \<Longrightarrow> push_rule flags n = Some m \<Longrightarrow> refines True n m"
  by (auto simp: push_rule_def Let_def refines_def sem_eq_def is_bin_iff is_un_iff
        distribution_laws split: if_splits)

lemma pull_rule_refines:
  "ground n \<Longrightarrow> pull_rule flags n = Some m \<Longrightarrow> refines True n m"
  by (auto simp: pull_rule_def refines_def sem_eq_def is_bin_iff is_un_iff
        distribution_laws split: if_splits)

lemma apply_local_refines:
  assumes "ground n"
  shows "refines (has_flag flags RW_FINITE) n (apply_local n flags)"
  using assms
  by (auto simp: apply_local_def split: option.split
        intro: refines_finite replace_rule_refines push_rule_refines pull_rule_refines
          simplify_weak_local_refines)

subsection \<open>Traversal\<close>

lemma rw_pass_refines:
  "ground n \<Longrightarrow> \<exists>m. rw_pass flags n = Some m \<and> refines (has_flag flags RW_FINITE) n m"
proof (induction n rule: ground_induct)
  case (Un k a)
  then obtain x where x: "rw_pass flags a = Some x" "refines (has_flag flags RW_FINITE) a x"
    by blast
  have "refines (has_flag flags RW_FINITE) (Unary k x) (apply_local (Unary k x) flags)"
    using x by (intro apply_local_refines) (auto dest: refines_ground)
  with x show ?case by (auto intro: refines_trans refines_Unary)
next
  case (Bin k a b)
  then obtain x y where x: "rw_pass flags a = Some x" "refines (has_flag flags RW_FINITE) a x"
    and y: "rw_pass flags b = Some y" "refines (has_flag flags RW_FINITE) b y"
    by blast
  have "refines (has_flag flags RW_FINITE) (Binary k x y) (apply_local (Binary k x y) flags)"
    using x y by (intro apply_local_refines) (auto dest: refines_ground)
  with x y show ?case by (auto intro: refines_trans refines_Binary)
qed simp_all

interpretation rw: formula_pass "has_flag flags RW_FINITE" "rw_pass flags" for flags
  by unfold_locales (use rw_pass_refines [of _ flags] in \<open>force+\<close>)

subsection \<open>The driver\<close>

lemma has_flag_local:
  "has_flag ((flags AND NOT (RW_NNF OR RW_FINITE)) OR (flags AND RW_FINITE)) RW_FINITE
     = has_flag flags RW_FINITE"
proof -
  have "((flags AND NOT (RW_NNF OR RW_FINITE)) OR (flags AND RW_FINITE)) AND RW_FINITE
      = flags AND RW_FINITE"
    by (rule bit_word_eqI) (auto simp: bit_simps)
  then show ?thesis by (simp add: has_flag_def)
qed

lemma apply_rewrites_refines:
  assumes "ground n"
  shows "\<exists>m. apply_rewrites n flags = Some m \<and> refines (has_flag flags RW_FINITE) n m"
proof (cases "flags = RW_NONE")
  case True
  with assms show ?thesis by (simp add: apply_rewrites_def)
next
  case False
  let ?fin = "has_flag flags RW_FINITE"
  let ?local = "(flags AND NOT (RW_NNF OR RW_FINITE)) OR (flags AND RW_FINITE)"
  obtain g where g: "(if has_flag flags RW_NNF then to_nnf n True ?fin else Some n) = Some g"
    "refines ?fin n g"
    using to_nnf_total [OF assms, of True ?fin] nnf_pass.pass_refines [OF assms, of ?fin] assms
    by (cases "has_flag flags RW_NNF") auto
  obtain m where "iterate_pass (rw_pass ?local) RW_FIXPOINT_CAP g = Some m" "refines ?fin g m"
    using rw.iterate_refines [OF refines_ground [OF g(2)], of ?local RW_FIXPOINT_CAP]
    unfolding has_flag_local by blast
  then have "apply_rewrites n flags = Some m \<or> apply_rewrites n flags = Some g"
    using False g by (simp add: apply_rewrites_def Let_def)
  with g \<open>refines ?fin g m\<close> show ?thesis by (blast intro: refines_trans)
qed

interpretation rw_driver: formula_pass "has_flag flags RW_FINITE" "\<lambda>n. apply_rewrites n flags" for flags
  by unfold_locales (use apply_rewrites_refines [of _ flags] in \<open>force+\<close>)

subsection \<open>Decomposition\<close>

lemma decomp_append_ground: "ground f \<Longrightarrow> g \<in> set (decomp_append f) \<Longrightarrow> ground g"
  by (induction f arbitrary: g rule: decomp_append.induct) (auto split: if_splits)

lemma decomp_append_nonempty: "decomp_append f \<noteq> []"
  by (induction f rule: decomp_append.induct) auto

lemma un_sem_conj_list:
  assumes "k = NODE_G \<or> k = NODE_X \<or> k = NODE_X_STRONG" and "xs \<noteq> []"
  shows "un_sem L k (\<lambda>j. \<forall>x\<in>set xs. P x j) i = (\<forall>x\<in>set xs. un_sem L k (P x) i)"
  using assms by (cases xs) (auto simp: next_weak_def next_strong_def alw_def)

lemma decomp_append_sat:
  "sat L w f i = (\<forall>g\<in>set (decomp_append f). sat L w g i)"
proof (induction f arbitrary: i rule: decomp_append.induct)
  case (1 k a b)
  show ?case
  proof (cases "k = NODE_AND")
    case True
    with "1.IH"(1) [of i] "1.IH"(2) [of i] show ?thesis by (simp add: ball_Un)
  next
    case False
    then show ?thesis by simp
  qed
next
  case (2 k a)
  show ?case
  proof (cases "k = NODE_G \<or> k = NODE_X \<or> k = NODE_X_STRONG")
    case True
    have "sat L w a = (\<lambda>j. \<forall>g\<in>set (decomp_append a). sat L w g j)"
      by (intro ext) (rule "2.IH" [OF True])
    then show ?thesis
      using True un_sem_conj_list [OF True decomp_append_nonempty [of a], of L "sat L w"]
      by simp
  next
    case False
    then show ?thesis by simp
  qed
qed simp_all

lemma decomp_append_idem: "g \<in> set (decomp_append f) \<Longrightarrow> decomp_append g = [g]"
proof (induction f arbitrary: g rule: decomp_append.induct)
  case (1 k a b)
  show ?case
  proof (cases "k = NODE_AND")
    case True
    with "1.prems" have "g \<in> set (decomp_append a) \<or> g \<in> set (decomp_append b)" by simp
    with "1.IH" [OF True] show ?thesis by blast
  next
    case False
    with "1.prems" show ?thesis by simp
  qed
next
  case (2 k a)
  show ?case
  proof (cases "k = NODE_G \<or> k = NODE_X \<or> k = NODE_X_STRONG")
    case True
    with "2.prems" obtain h where h: "h \<in> set (decomp_append a)" "g = Unary k h" by auto
    from "2.IH" [OF True h(1)] h(2) True show ?thesis by simp
  next
    case False
    with "2.prems" show ?thesis by simp
  qed
qed auto

subsection \<open>Operator elimination\<close>

text \<open>
  The operators of a formula, and what one pass with replacement flags alone does to them.
\<close>

fun ops :: "node \<Rightarrow> (un_kind + bin_kind) set" where
  "ops (Unary k a) = insert (Inl k) (ops a)"
| "ops (Binary k a b) = insert (Inr k) (ops a \<union> ops b)"
| "ops _ = {}"

definition eliminated :: "u32 \<Rightarrow> un_kind + bin_kind \<Rightarrow> bool" where
  "eliminated flags op \<longleftrightarrow>
     (op = Inr NODE_W \<and> has_flag flags RW_NO_WEAK_UNTIL) \<or>
     (op = Inr NODE_R \<and> has_flag flags RW_NO_RELEASE) \<or>
     (op = Inr NODE_M \<and> has_flag flags RW_NO_STRONG_RELEASE) \<or>
     (op = Inl NODE_F \<and> has_flag flags RW_NO_FINALLY) \<or>
     (op = Inl NODE_G \<and> has_flag flags RW_NO_GLOBALLY)"

definition successors :: "u32 \<Rightarrow> un_kind + bin_kind \<Rightarrow> (un_kind + bin_kind) set" where
  "successors flags op =
     (if \<not> eliminated flags op then {op} else case op of
        Inr NODE_W \<Rightarrow> {Inr NODE_OR, Inr NODE_U, Inl NODE_G}
      | Inr NODE_R \<Rightarrow> {Inr NODE_W, Inr NODE_AND}
      | Inr NODE_M \<Rightarrow> {Inr NODE_U, Inr NODE_AND}
      | Inl NODE_F \<Rightarrow> {Inr NODE_U}
      | Inl NODE_G \<Rightarrow> {Inr NODE_R}
      | _ \<Rightarrow> {})"

text \<open>Only operator replacement is asked for, and not all of \<open>W\<close>, \<open>R\<close> and \<open>G\<close> at once.\<close>

definition replacement_only :: "u32 \<Rightarrow> bool" where
  "replacement_only flags \<longleftrightarrow>
     flags AND NOT (RW_NNF OR RW_FINITE OR RW_NO_WEAK_UNTIL OR RW_NO_RELEASE OR
       RW_NO_STRONG_RELEASE OR RW_NO_FINALLY OR RW_NO_GLOBALLY) = 0 \<and>
     \<not> (has_flag flags RW_NO_WEAK_UNTIL \<and> has_flag flags RW_NO_RELEASE \<and>
        has_flag flags RW_NO_GLOBALLY)"

lemma has_flag_mask_0:
  assumes "flags AND NOT m = 0" and "m AND f = 0"
  shows "\<not> has_flag flags f"
proof -
  have "flags AND f = ((flags AND NOT m) AND f) OR (flags AND (m AND f))"
    by (rule bit_word_eqI) (auto simp: bit_simps)
  with assms show ?thesis by (simp add: has_flag_def)
qed

lemma replacement_only_flags:
  assumes "replacement_only flags"
  shows "\<not> has_flag flags RW_PUSH_G_IN" "\<not> has_flag flags RW_PUSH_F_IN"
    "\<not> has_flag flags RW_PUSH_X_IN" "\<not> has_flag flags RW_PULL_G_OUT"
    "\<not> has_flag flags RW_PULL_F_OUT" "\<not> has_flag flags RW_PULL_X_OUT"
    "\<not> has_flag flags RW_SIMPLIFY_WEAK"
proof -
  let ?m = "RW_NNF OR RW_FINITE OR RW_NO_WEAK_UNTIL OR RW_NO_RELEASE OR
       RW_NO_STRONG_RELEASE OR RW_NO_FINALLY OR RW_NO_GLOBALLY"
  have *: "?m AND f = 0 \<Longrightarrow> \<not> has_flag flags f" for f
    using assms has_flag_mask_0 [of flags ?m f] by (simp add: replacement_only_def)
  show "\<not> has_flag flags RW_PUSH_G_IN" "\<not> has_flag flags RW_PUSH_F_IN"
    "\<not> has_flag flags RW_PUSH_X_IN" "\<not> has_flag flags RW_PULL_G_OUT"
    "\<not> has_flag flags RW_PULL_F_OUT" "\<not> has_flag flags RW_PULL_X_OUT"
    "\<not> has_flag flags RW_SIMPLIFY_WEAK"
    by (rule *, simp add: rw_flag_defs)+
qed

lemma apply_local_replacement_only:
  "replacement_only flags \<Longrightarrow>
   apply_local n flags = (case replace_rule flags n of Some m \<Rightarrow> m | None \<Rightarrow> n)"
  using replacement_only_flags [of flags]
  by (simp add: apply_local_def push_rule_def pull_rule_def split: option.split)

lemma ops_replaced_un:
  "replacement_only flags \<Longrightarrow>
   ops (apply_local (Unary k x) flags) \<subseteq> successors flags (Inl k) \<union> ops x"
  by (cases k) (auto simp: apply_local_replacement_only replace_rule_def successors_def
      eliminated_def is_bin_iff is_un_iff)

lemma ops_replaced_bin:
  "replacement_only flags \<Longrightarrow>
   ops (apply_local (Binary k x y) flags) \<subseteq> successors flags (Inr k) \<union> ops x \<union> ops y"
  by (cases k) (auto simp: apply_local_replacement_only replace_rule_def successors_def
      eliminated_def is_bin_iff is_un_iff)

lemma rw_pass_ops:
  "replacement_only flags \<Longrightarrow> rw_pass flags n = Some m \<Longrightarrow>
   ops m \<subseteq> (\<Union>op\<in>ops n. successors flags op)"
proof (induction n arbitrary: m)
  case (Unary k a)
  then obtain x where "rw_pass flags a = Some x" "m = apply_local (Unary k x) flags" by auto
  with Unary ops_replaced_un [of flags k x] show ?case by fastforce
next
  case (Binary k a b)
  then obtain x y where "rw_pass flags a = Some x" "rw_pass flags b = Some y"
    "m = apply_local (Binary k x y) flags" by auto
  with Binary ops_replaced_bin [of flags k x y] show ?case by fastforce
qed auto

lemma apply_local_clean:
  "replacement_only flags \<Longrightarrow> \<forall>op\<in>ops n. \<not> eliminated flags op \<Longrightarrow> apply_local n flags = n"
  by (cases n) (auto simp: apply_local_replacement_only replace_rule_def eliminated_def
      is_bin_def)

lemma rw_pass_clean:
  "ground n \<Longrightarrow> replacement_only flags \<Longrightarrow> \<forall>op\<in>ops n. \<not> eliminated flags op \<Longrightarrow>
   rw_pass flags n = Some n"
proof (induction n rule: ground_induct)
  case (Un k a)
  then have "rw_pass flags a = Some a" by simp
  then show ?case using Un.prems by (simp add: apply_local_clean)
next
  case (Bin k a b)
  then have "rw_pass flags a = Some a" "rw_pass flags b = Some b" by simp_all
  then show ?case using Bin.prems by (simp add: apply_local_clean)
qed simp_all

lemma successors_twice:
  assumes "replacement_only flags" and "op' \<in> successors flags op" and "op'' \<in> successors flags op'"
  shows "\<not> eliminated flags op''"
  using assms by (cases op; cases "projl op"; cases "projr op")
    (auto simp: successors_def eliminated_def replacement_only_def split: if_splits)

lemma rw_pass_twice_clean:
  assumes r: "replacement_only flags" and "rw_pass flags n = Some m1" "rw_pass flags m1 = Some m2"
  shows "\<forall>op\<in>ops m2. \<not> eliminated flags op"
  using rw_pass_ops [OF r assms(2)] rw_pass_ops [OF r assms(3)] successors_twice [OF r] by fast

lemma iterate_pass_three:
  assumes "ground n" "ground m1" "ground m2"
    and "pass n = Some m1" "pass m1 = Some m2" "pass m2 = Some m2"
  shows "iterate_pass pass (Suc (Suc (Suc k))) n = Some m2"
  using assms by auto

lemma iterate_clean:
  assumes r: "replacement_only flags" and n: "ground n" and k: "3 \<le> k"
  shows "\<exists>m. iterate_pass (rw_pass flags) k n = Some m \<and> (\<forall>op\<in>ops m. \<not> eliminated flags op)"
proof -
  obtain m1 where m1: "rw_pass flags n = Some m1" "ground m1"
    using rw.pass_obtain [OF n, of flags] refines_ground by metis
  obtain m2 where m2: "rw_pass flags m1 = Some m2" "ground m2"
    using rw.pass_obtain [OF m1(2), of flags] refines_ground by metis
  have clean: "\<forall>op\<in>ops m2. \<not> eliminated flags op"
    by (rule rw_pass_twice_clean [OF r m1(1) m2(1)])
  obtain j where "k = Suc (Suc (Suc j))"
    using k by (metis Suc_le_D numeral_3_eq_3 Suc_le_mono)
  with iterate_pass_three [OF n m1(2) m2(2) m1(1) m2(1) rw_pass_clean [OF m2(2) r clean]] clean
  show ?thesis by blast
qed

lemma local_flags:
  "(flags AND NOT (RW_NNF OR RW_FINITE)) OR (flags AND RW_FINITE) = flags AND NOT RW_NNF"
proof -
  have *: "(flags AND NOT (a OR b)) OR (flags AND b) = flags AND NOT a" if "a AND b = 0" for a b
  proof (rule bit_word_eqI)
    fix n assume "n < LENGTH(32)"
    moreover have "\<not> (bit a n \<and> bit b n)" using that by (metis bit_and_iff bit_0_eq bot_apply bot_bool_def)
    ultimately show "bit ((flags AND NOT (a OR b)) OR (flags AND b)) n = bit (flags AND NOT a) n"
      by (auto simp: bit_simps)
  qed
  show ?thesis by (rule *) (simp add: rw_flag_defs)
qed

lemma has_flag_local':
  assumes "RW_NNF AND f = 0"
  shows "has_flag (flags AND NOT RW_NNF) f = has_flag flags f"
proof -
  have "flags AND f = ((flags AND NOT RW_NNF) AND f) OR (flags AND (RW_NNF AND f))"
    by (rule bit_word_eqI) (auto simp: bit_simps)
  with assms show ?thesis by (simp add: has_flag_def)
qed

lemma eliminated_local: "eliminated (flags AND NOT RW_NNF) op = eliminated flags op"
  unfolding eliminated_def by (subst has_flag_local', simp add: rw_flag_defs)+ rule

lemma replacement_only_local:
  assumes "replacement_only flags"
  shows "replacement_only (flags AND NOT RW_NNF)"
proof -
  let ?m = "RW_NNF OR RW_FINITE OR RW_NO_WEAK_UNTIL OR RW_NO_RELEASE OR
       RW_NO_STRONG_RELEASE OR RW_NO_FINALLY OR RW_NO_GLOBALLY"
  have "(flags AND NOT RW_NNF) AND NOT ?m = (flags AND NOT ?m) AND NOT RW_NNF"
    by (rule bit_word_eqI) (auto simp: bit_simps)
  then have "(flags AND NOT RW_NNF) AND NOT ?m = 0"
    using assms by (simp add: replacement_only_def)
  moreover have "has_flag (flags AND NOT RW_NNF) RW_NO_WEAK_UNTIL = has_flag flags RW_NO_WEAK_UNTIL"
    "has_flag (flags AND NOT RW_NNF) RW_NO_RELEASE = has_flag flags RW_NO_RELEASE"
    "has_flag (flags AND NOT RW_NNF) RW_NO_GLOBALLY = has_flag flags RW_NO_GLOBALLY"
    by (rule has_flag_local', simp add: rw_flag_defs)+
  ultimately show ?thesis using assms by (simp add: replacement_only_def)
qed

lemma eliminated_mask_0:
  assumes "flags AND NOT (RW_NNF OR RW_FINITE) = 0"
  shows "\<not> eliminated flags op"
proof -
  have "\<not> has_flag flags RW_NO_WEAK_UNTIL" "\<not> has_flag flags RW_NO_RELEASE"
    "\<not> has_flag flags RW_NO_STRONG_RELEASE" "\<not> has_flag flags RW_NO_FINALLY"
    "\<not> has_flag flags RW_NO_GLOBALLY"
    by (rule has_flag_mask_0 [OF assms], simp add: rw_flag_defs)+
  then show ?thesis by (simp add: eliminated_def)
qed

subsection \<open>Properties\<close>

text \<open>
  C23. \<^verbatim>\<open>apply_rewrites\<close> never fails on an expanded formula, whatever the set of flags (the
  fixpoint cap is never an error), and its result is an expanded formula that holds at the same
  positions of the same words: of every infinite word, and with \<^verbatim>\<open>RW_FINITE\<close> of every finite
  word too.
\<close>

theorem apply_rewrites_correct:
  assumes "ground f" and "word_length (has_flag flags RW_FINITE) L"
  shows "\<exists>g. apply_rewrites f flags = Some g \<and> ground g \<and> sem_eq L g f"
  using rw_driver.pass_obtain [OF assms(1), of flags] assms(2)
  by (metis refines_ground refines_sem_eq)

theorem apply_rewrites_correct_witness:
  "\<exists>g. apply_rewrites (node_not (node_w (NodeAp ''p'') (node_x NodeFalse)))
         (RW_STRONG_SIMPLIFY OR RW_FINITE) = Some g \<and> ground g \<and>
     sem_eq (enat 5) g (node_not (node_w (NodeAp ''p'') (node_x NodeFalse)))"
proof -
  have "has_flag (RW_STRONG_SIMPLIFY OR RW_FINITE) RW_FINITE"
    by (simp add: has_flag_def RW_STRONG_SIMPLIFY_def rw_flag_defs)
  then show ?thesis
    by (intro apply_rewrites_correct) simp_all
qed

text \<open>
  C30. Operator elimination.  When only operator-replacement flags are given (with or without
  \<^verbatim>\<open>RW_NNF\<close> and \<^verbatim>\<open>RW_FINITE\<close>), and not \<^verbatim>\<open>RW_NO_WEAK_UNTIL\<close>, \<^verbatim>\<open>RW_NO_RELEASE\<close> and
  \<^verbatim>\<open>RW_NO_GLOBALLY\<close> all together, no operator that a flag eliminates is left in the result.
\<close>

theorem apply_rewrites_eliminates:
  assumes "ground f" and r: "replacement_only flags" and "apply_rewrites f flags = Some g"
    and "op \<in> ops g"
  shows "\<not> eliminated flags op"
proof (cases "flags AND NOT (RW_NNF OR RW_FINITE) = 0")
  case True
  then show ?thesis by (rule eliminated_mask_0)
next
  case False
  let ?fin = "has_flag flags RW_FINITE"
  have "flags \<noteq> RW_NONE" using False by (auto simp: RW_NONE_def)
  then obtain h where h: "(if has_flag flags RW_NNF then to_nnf f True ?fin else Some f) = Some h"
    and g: "iterate_pass (rw_pass (flags AND NOT RW_NNF)) RW_FIXPOINT_CAP h = Some g"
    using assms(3) False unfolding apply_rewrites_def Let_def local_flags by auto
  have "ground h" using h assms(1)
    by (auto split: if_splits intro: is_nnf_ground to_nnf_is_nnf)
  then show ?thesis
    using iterate_clean [OF replacement_only_local [OF r], of h RW_FIXPOINT_CAP] g assms(4)
    by (auto simp: eliminated_local RW_FIXPOINT_CAP_def)
qed

theorem apply_rewrites_eliminates_witness:
  "Inl NODE_F \<notin> ops (node_u NodeTrue (node_r NodeFalse (NodeAp ''p'')))"
proof -
  let ?flags = "RW_NO_FINALLY OR RW_NO_GLOBALLY"
  have "iterate_pass (rw_pass 24) (Suc (Suc k)) (node_f (node_g (NodeAp ''p''))) =
      Some (node_u NodeTrue (node_r NodeFalse (NodeAp ''p'')))" for k
    by (simp add: apply_local_def replace_rule_def push_rule_def pull_rule_def has_flag_def
        rw_flag_defs)
  note this [of 198, simplified, simp]
  have "replacement_only ?flags"
    by (simp add: replacement_only_def has_flag_def rw_flag_defs)
  moreover have "apply_rewrites (node_f (node_g (NodeAp ''p''))) ?flags =
      Some (node_u NodeTrue (node_r NodeFalse (NodeAp ''p'')))"
    by (simp add: apply_rewrites_def RW_FIXPOINT_CAP_def has_flag_def rw_flag_defs)
  ultimately have "\<not> eliminated ?flags (Inl NODE_F)"
    if "Inl NODE_F \<in> ops (node_u NodeTrue (node_r NodeFalse (NodeAp ''p'')))"
    using apply_rewrites_eliminates [OF _ _ _ that, of "node_f (node_g (NodeAp ''p''))"] by simp
  then show ?thesis by (auto simp: eliminated_def has_flag_def rw_flag_defs)
qed

text \<open>
  \<^verbatim>\<open>rewrite_decompose\<close> returns at least one conjunct; the formula holds where all of them
  hold, on finite and infinite words alike; an expanded formula has expanded conjuncts; and the
  split is complete: no conjunct can be decomposed any further.
\<close>

theorem rewrite_decompose_correct:
  "rewrite_decompose f \<noteq> [] \<and>
   (sat L w f i = list_all (\<lambda>g. sat L w g i) (rewrite_decompose f)) \<and>
   (list_all ground (rewrite_decompose f) = ground f) \<and>
   list_all (\<lambda>g. rewrite_decompose g = [g]) (rewrite_decompose f)"
proof -
  have "list_all ground (decomp_append f) = ground f"
    by (induction f rule: decomp_append.induct)
       (auto simp: list.pred_map comp_def decomp_append_nonempty)
  then show ?thesis
    using decomp_append_nonempty [of f] decomp_append_sat [of L w f i] decomp_append_idem [of _ f]
    by (simp add: rewrite_decompose_def list_all_iff)
qed

lemma iterate_pass_oscillates:
  assumes "pass x = Some y" "pass y = Some x" "\<not> node_equal x y" "\<not> node_equal y x"
  shows "iterate_pass pass (2 * k) x = Some x"
  using assms by (induction k) simp_all

text \<open>
  The cap can be reached without inverse passes: \<^verbatim>\<open>RW_NO_FINALLY\<close> with
  \<^verbatim>\<open>RW_SIMPLIFY_WEAK\<close> turns \<open>F p\<close> into \<open>true U p\<close>, which weak simplification turns back; the
  200 rounds of \<^verbatim>\<open>apply_rewrites\<close> end where they began, with the eliminated operator in place.
\<close>

theorem no_finally_simplify_oscillates:
  "apply_rewrites (node_f (NodeAp p)) (RW_NO_FINALLY OR RW_SIMPLIFY_WEAK) = Some (node_f (NodeAp p))"
proof -
  let ?pass = "rw_pass (RW_NO_FINALLY OR RW_SIMPLIFY_WEAK)"
  have "iterate_pass ?pass (2 * 100) (node_f (NodeAp p)) = Some (node_f (NodeAp p))"
    by (rule iterate_pass_oscillates [where y = "node_u NodeTrue (NodeAp p)"])
       (simp_all add: apply_local_def replace_rule_def push_rule_def pull_rule_def has_flag_def
         rw_flag_defs simplify_weak_local_def simplify_weak_bin_def)
  then show ?thesis
    by (simp add: apply_rewrites_def has_flag_def rw_flag_defs RW_FIXPOINT_CAP_def
        del: iterate_pass.simps)
qed

text \<open>
  The flags \<^verbatim>\<open>RW_NO_WEAK_UNTIL\<close>, \<^verbatim>\<open>RW_NO_RELEASE\<close> and \<^verbatim>\<open>RW_NO_GLOBALLY\<close> together chase each other:
  \<open>G p\<close> becomes \<open>false R p\<close>, then \<open>p W (false \<and> p)\<close>, then \<open>(p U (false \<and> p)) \<or> G p\<close>.  The formula
  grows until the cap and an operator that was to be eliminated is left.
\<close>

definition cycle_flags :: u32 where
  "cycle_flags = RW_NO_WEAK_UNTIL OR RW_NO_RELEASE OR RW_NO_GLOBALLY"

definition cycle_wrap :: "node \<Rightarrow> node \<Rightarrow> node" where
  "cycle_wrap p x = node_or (node_u p (node_and NodeFalse p)) x"

lemma cycle_passes:
  "rw_pass cycle_flags (node_g (NodeAp p)) = Some (node_r NodeFalse (NodeAp p))"
  "rw_pass cycle_flags (node_r NodeFalse (NodeAp p)) = Some (node_w (NodeAp p) (node_and NodeFalse (NodeAp p)))"
  "rw_pass cycle_flags (node_w (NodeAp p) (node_and NodeFalse (NodeAp p))) = Some (cycle_wrap (NodeAp p) (node_g (NodeAp p)))"
  "rw_pass cycle_flags x = Some y \<Longrightarrow> rw_pass cycle_flags (cycle_wrap (NodeAp p) x) = Some (cycle_wrap (NodeAp p) y)"
  by (simp_all add: cycle_flags_def cycle_wrap_def apply_local_def replace_rule_def push_rule_def pull_rule_def has_flag_def rw_flag_defs)

inductive chased :: "node \<Rightarrow> node \<Rightarrow> bool" for p :: node where
  "chased p (node_g p)"
| "chased p (node_r NodeFalse p)"
| "chased p (node_w p (node_and NodeFalse p))"
| "chased p x \<Longrightarrow> chased p (cycle_wrap p x)"

lemma chased_pass:
  "chased (NodeAp p) x \<Longrightarrow> \<exists>y. rw_pass cycle_flags x = Some y \<and> chased (NodeAp p) y \<and> ground y \<and> y \<noteq> x"
proof (induction rule: chased.induct)
  case (4 x)
  then obtain y where y: "rw_pass cycle_flags x = Some y" "chased (NodeAp p) y" "ground y" "y \<noteq> x" by blast
  have "chased (NodeAp p) (cycle_wrap (NodeAp p) y)" "ground (cycle_wrap (NodeAp p) y)"
    "cycle_wrap (NodeAp p) y \<noteq> cycle_wrap (NodeAp p) x"
    using y(3,4) by - (rule chased.intros(4) [OF y(2)], simp_all add: cycle_wrap_def)
  with cycle_passes(4) [OF y(1)] show ?case by blast
qed (use chased.intros [of "NodeAp p"] in \<open>force simp: cycle_passes cycle_wrap_def simp del: rw_pass.simps\<close>)+

lemma chased_iterate: "chased (NodeAp p) x \<Longrightarrow> \<exists>y. iterate_pass (rw_pass cycle_flags) k x = Some y \<and> chased (NodeAp p) y"
proof (induction k arbitrary: x)
  case (Suc k)
  from chased_pass [OF Suc.prems] obtain y where "rw_pass cycle_flags x = Some y" "chased (NodeAp p) y" "ground y" "y \<noteq> x" by blast
  with Suc.IH [of y] show ?case by simp
qed simp

lemma chased_left: "chased p x \<Longrightarrow> \<exists>op\<in>ops x. eliminated cycle_flags op"
  by (induction rule: chased.induct) (auto simp: eliminated_def cycle_flags_def cycle_wrap_def has_flag_def rw_flag_defs)

theorem elimination_cycle:
  "\<exists>g op. apply_rewrites (node_g (NodeAp p)) cycle_flags = Some g \<and> op \<in> ops g \<and> eliminated cycle_flags op"
proof -
  obtain g where "iterate_pass (rw_pass cycle_flags) RW_FIXPOINT_CAP (node_g (NodeAp p)) = Some g" "chased (NodeAp p) g"
    using chased_iterate [OF chased.intros(1)] by blast
  then show ?thesis using chased_left [of "NodeAp p" g]
    by (auto simp: apply_rewrites_def cycle_flags_def has_flag_def rw_flag_defs Let_def simp del: iterate_pass.simps)
qed

end
