(* ===== verification/Apset.thy ===== *)
theory Apset
  imports Prelude
begin

text \<open>
  The atomic-proposition table of \<^verbatim>\<open>src/lib/apset.c\<close>: a dense array of names with an
  open-addressing hash table of one-based indices beside it, probed linearly.  The C code
  hashes the pointer of the interned name; the address of a name is the parameter \<open>addr\<close>.
  The probing loops of the code have no bound: here they carry the number of slots as fuel,
  and \<^const>\<open>None\<close> is a loop that has seen every slot and would run for ever.
\<close>

unbundle bit_operations_syntax

record ap_table =
  names :: "ap list"
  flags :: "u8 list"
  cap :: nat
  hash :: "nat list"
  hcap :: nat

definition ap_table_init :: ap_table where
  "ap_table_init = \<lparr>names = [], flags = [], cap = 0, hash = [], hcap = 0\<rparr>"

definition ptr_hash :: "u64 \<Rightarrow> nat" where
  "ptr_hash p = unat (ucast (drop_bit 32 (p * 0x9E3779B97F4A7C15)) :: u32)"

fun probe_free :: "nat list \<Rightarrow> nat \<Rightarrow> nat \<Rightarrow> nat \<Rightarrow> nat option" where
  "probe_free h msk 0 j = None"
| "probe_free h msk (Suc fuel) j =
     (if h ! j = 0 then Some j else probe_free h msk fuel ((j + 1) AND msk))"

fun rehash_from :: "(ap \<Rightarrow> u64) \<Rightarrow> ap list \<Rightarrow> nat \<Rightarrow> nat \<Rightarrow> nat list \<Rightarrow> nat list option" where
  "rehash_from addr [] i new_hcap h = Some h"
| "rehash_from addr (x # xs) i new_hcap h =
     do { let msk = new_hcap - 1;
          j \<leftarrow> probe_free h msk new_hcap (ptr_hash (addr x) AND msk);
          rehash_from addr xs (i + 1) new_hcap (h[j := i + 1]) }"

definition rehash :: "(ap \<Rightarrow> u64) \<Rightarrow> ap_table \<Rightarrow> nat \<Rightarrow> ap_table option" where
  "rehash addr t new_hcap =
     do { h \<leftarrow> rehash_from addr (names t) 0 new_hcap (replicate new_hcap 0);
          Some (t\<lparr>hash := h, hcap := new_hcap\<rparr>) }"

text \<open>The result \<^verbatim>\<open>-1\<close> of \<^verbatim>\<open>ap_table_find\<close> is the inner \<^const>\<open>None\<close>.\<close>

fun probe_name :: "ap_table \<Rightarrow> ap \<Rightarrow> nat \<Rightarrow> nat \<Rightarrow> nat option option" where
  "probe_name t name 0 j = None"
| "probe_name t name (Suc fuel) j =
     (if hash t ! j = 0 then Some None
      else let idx = hash t ! j - 1 in
        if names t ! idx = name then Some (Some idx)
        else probe_name t name fuel ((j + 1) AND (hcap t - 1)))"

definition ap_table_find :: "(ap \<Rightarrow> u64) \<Rightarrow> ap_table \<Rightarrow> ap \<Rightarrow> nat option option" where
  "ap_table_find addr t name =
     (if hcap t = 0 then Some None
      else probe_name t name (hcap t) (ptr_hash (addr name) AND (hcap t - 1)))"

definition ap_table_intern :: "(ap \<Rightarrow> u64) \<Rightarrow> ap_table \<Rightarrow> ap \<Rightarrow> u8 \<Rightarrow> (ap_table \<times> nat) option" where
  "ap_table_intern addr t name fl =
     do { found \<leftarrow> ap_table_find addr t name;
          case found of
            Some i \<Rightarrow> Some (t\<lparr>flags := (flags t)[i := flags t ! i OR fl]\<rparr>, i)
          | None \<Rightarrow>
            let t = (if length (names t) = cap t
                     then t\<lparr>cap := if cap t \<noteq> 0 then cap t * 2 mod 2 ^ 32 else 16\<rparr> else t);
                idx = length (names t);
                t = t\<lparr>names := names t @ [name], flags := flags t @ [fl]\<rparr>
            in if length (names t) * 2 > hcap t
               then do { t \<leftarrow> rehash addr t (if hcap t \<noteq> 0 then hcap t * 2 mod 2 ^ 32 else 32);
                         Some (t, idx) }
               else do { let msk = hcap t - 1;
                         j \<leftarrow> probe_free (hash t) msk (hcap t) (ptr_hash (addr name) AND msk);
                         Some (t\<lparr>hash := (hash t)[j := idx + 1]\<rparr>, idx) } }"

subsection \<open>Probe sequences\<close>

lemma and_mask_mod: "m = 2 ^ k \<Longrightarrow> x AND (m - 1) = x mod (m::nat)"
  by (simp add: take_bit_eq_mod [symmetric] take_bit_eq_mask mask_eq_exp_minus_1)

definition slot :: "nat \<Rightarrow> nat \<Rightarrow> nat \<Rightarrow> nat" where
  "slot m j d = (j + d) mod m"

lemma slot_less [simp]: "0 < m \<Longrightarrow> slot m j d < m"
  by (simp add: slot_def)

lemma slot_Suc: "(slot m j d + 1) mod m = slot m j (Suc d)"
  by (simp add: slot_def mod_simps)

lemma slot_mod [simp]: "slot m (j mod m) d = slot m j d"
  by (simp add: slot_def mod_simps)

lemma slot_reaches:
  assumes "s < m"
  shows "\<exists>d<m. slot m j d = s"
proof (intro exI [of _ "(s + m - j mod m) mod m"] conjI)
  have jm: "j mod m < m" using assms by simp
  have "slot m j ((s + m - j mod m) mod m) = (j mod m + (s + m - j mod m)) mod m"
    by (simp add: slot_def mod_simps)
  also have "j mod m + (s + m - j mod m) = s + m" using jm by simp
  finally show "slot m j ((s + m - j mod m) mod m) = s" using assms by simp
qed (use assms in simp)

lemma next_slot:
  assumes "m = 2 ^ k"
  shows "(slot m j d + 1) AND (m - 1) = slot m j (Suc d)"
    and "Suc (slot m j d) AND (m - Suc 0) = slot m j (Suc d)"
  using and_mask_mod [OF assms, of "slot m j d + 1"] by (simp_all add: slot_Suc [simplified])

text \<open>\<open>leads_to h j d\<close>: the \<open>d\<close> slots a probe from \<open>j\<close> visits first are occupied.\<close>

definition leads_to :: "nat list \<Rightarrow> nat \<Rightarrow> nat \<Rightarrow> bool" where
  "leads_to h j d \<longleftrightarrow> (\<forall>d'<d. h ! slot (length h) j d' \<noteq> 0)"

lemma probe_free_finds:
  assumes "length h = 2 ^ k" and "leads_to h j d" and "d + fuel = length h"
    and "s < length h" and "h ! s = 0"
  shows "\<exists>d'<length h. probe_free h (length h - 1) fuel (slot (length h) j d) =
           Some (slot (length h) j d') \<and> h ! slot (length h) j d' = 0 \<and> leads_to h j d'"
  using assms(2,3)
proof (induction fuel arbitrary: d)
  case 0
  obtain d' where "d' < length h" "slot (length h) j d' = s"
    using slot_reaches [OF assms(4)] by blast
  with 0 assms(5) show ?case by (auto simp: leads_to_def)
next
  case (Suc fuel)
  show ?case
  proof (cases "h ! slot (length h) j d = 0")
    case True
    with Suc.prems show ?thesis by (intro exI [of _ d]) auto
  next
    case False
    with Suc.prems have "leads_to h j (Suc d)" by (auto simp: leads_to_def less_Suc_eq)
    from Suc.IH [OF this] Suc.prems(2) False show ?thesis
      by (simp add: next_slot [OF assms(1)])
  qed
qed

text \<open>
  \<open>table_ok H n h\<close>: the hash array \<open>h\<close> holds the one-based indices of \<open>n\<close> names, each once, each
  reachable from the home slot \<open>H i\<close> of its name through occupied slots.
\<close>

definition table_ok :: "(nat \<Rightarrow> nat) \<Rightarrow> nat \<Rightarrow> nat list \<Rightarrow> bool" where
  "table_ok H n h \<longleftrightarrow>
     (\<forall>j<length h. h ! j \<le> n) \<and>
     (\<forall>i<n. \<exists>d<length h. h ! slot (length h) (H i) d = i + 1 \<and> leads_to h (H i) d) \<and>
     (\<forall>j<length h. \<forall>j'<length h. h ! j = h ! j' \<and> h ! j \<noteq> 0 \<longrightarrow> j = j')"

lemma table_ok_le: "table_ok H n h \<Longrightarrow> j < length h \<Longrightarrow> h ! j \<le> n"
  unfolding table_ok_def by blast

lemma table_ok_home:
  "table_ok H n h \<Longrightarrow> i < n \<Longrightarrow>
   \<exists>d<length h. h ! slot (length h) (H i) d = i + 1 \<and> leads_to h (H i) d"
  unfolding table_ok_def by blast

lemma table_ok_inj:
  "table_ok H n h \<Longrightarrow> j < length h \<Longrightarrow> j' < length h \<Longrightarrow> h ! j = h ! j' \<Longrightarrow> h ! j \<noteq> 0 \<Longrightarrow> j = j'"
  unfolding table_ok_def by blast

lemma table_ok_empty: "table_ok H 0 (replicate m 0)"
  by (simp add: table_ok_def)

lemma table_ok_free:
  assumes ok: "table_ok H n h" and "n < length h"
  shows "\<exists>s<length h. h ! s = 0"
proof (rule ccontr)
  assume "\<not> ?thesis"
  then have nz: "\<forall>s<length h. h ! s \<noteq> 0" by meson
  have "inj_on ((!) h) {..<length h}"
  proof (rule inj_onI)
    fix x y assume "x \<in> {..<length h}" "y \<in> {..<length h}" and eq: "h ! x = h ! y"
    then have *: "x < length h" "y < length h" by simp_all
    then have "h ! x \<noteq> 0" using nz by blast
    with table_ok_inj [OF ok * eq] show "x = y" by blast
  qed
  moreover have "(!) h ` {..<length h} \<subseteq> {1..n}"
    using table_ok_le [OF ok] nz by (auto simp: Suc_le_eq)
  ultimately have "card {..<length h} \<le> card {1..n}"
    by (meson card_inj_on_le finite_atLeastAtMost)
  with assms(2) show False by simp
qed

lemma table_ok_insert:
  assumes ok: "table_ok H n h" and s: "s = slot (length h) (H n) d" "d < length h"
    and free: "h ! s = 0" "leads_to h (H n) d"
  shows "table_ok H (Suc n) (h[s := Suc n])"
proof -
  let ?h = "h[s := Suc n]"
  have m: "0 < length h" using s by linarith
  have sl: "s < length h" using s(1) m by simp
  have lead: "leads_to ?h j d'" if "leads_to h j d'" for j d'
    using that sl by (auto simp: leads_to_def nth_list_update)
  have "\<exists>d'<length ?h. ?h ! slot (length ?h) (H i) d' = i + 1 \<and> leads_to ?h (H i) d'"
    if i: "i < Suc n" for i
  proof (cases "i = n")
    case True
    with s free sl lead show ?thesis by (intro exI [of _ d]) auto
  next
    case False
    with i ok obtain d' where d': "d' < length h" "h ! slot (length h) (H i) d' = i + 1"
      "leads_to h (H i) d'" using table_ok_home [OF ok, of i] by (metis less_SucE)
    then have "slot (length h) (H i) d' \<noteq> s" using free by auto
    with d' lead show ?thesis by (intro exI [of _ d']) (auto simp: nth_list_update)
  qed
  moreover have "j = j'" if j: "j < length h" "j' < length h" "?h ! j = ?h ! j'" "?h ! j \<noteq> 0" for j j'
  proof -
    have "h ! j \<noteq> Suc n" "h ! j' \<noteq> Suc n" using table_ok_le [OF ok] j by fastforce+
    then have "?h ! j = h ! j \<and> ?h ! j' = h ! j' \<or> j = s \<and> j' = s"
      using j by (cases "j = s"; cases "j' = s") auto
    then show ?thesis using table_ok_inj [OF ok, of j j'] j by auto
  qed
  moreover have "?h ! j \<le> Suc n" if "j < length h" for j
    using table_ok_le [OF ok that] sl by (simp add: nth_list_update)
  ultimately show ?thesis unfolding table_ok_def length_list_update by blast
qed

lemma table_ok_cong: "(\<And>i. i < n \<Longrightarrow> H i = H' i) \<Longrightarrow> table_ok H n h = table_ok H' n h"
  by (auto simp: table_ok_def)

text \<open>Probing for a free slot and filling it keeps the table.\<close>

lemma probe_free_insert:
  assumes "table_ok H n h" and "length h = 2 ^ k" and "n < length h"
  shows "\<exists>j. probe_free h (length h - 1) (length h) (slot (length h) (H n) 0) = Some j \<and>
     table_ok H (Suc n) (h[j := Suc n])"
proof -
  obtain s where s: "s < length h" "h ! s = 0" using table_ok_free [OF assms(1,3)] by blast
  have "leads_to h (H n) 0" by (simp add: leads_to_def)
  from probe_free_finds [OF assms(2) this _ s, of "length h"]
  show ?thesis using table_ok_insert [OF assms(1) refl] by force
qed

subsection \<open>The table invariant\<close>

definition home :: "(ap \<Rightarrow> u64) \<Rightarrow> ap list \<Rightarrow> nat \<Rightarrow> nat" where
  "home addr xs i = ptr_hash (addr (xs ! i))"

definition ap_table_ok :: "(ap \<Rightarrow> u64) \<Rightarrow> ap_table \<Rightarrow> bool" where
  "ap_table_ok addr t \<longleftrightarrow>
     distinct (names t) \<and> length (flags t) = length (names t) \<and>
     (if hcap t = 0 then names t = []
      else (\<exists>k. hcap t = 2 ^ k) \<and> length (hash t) = hcap t \<and>
           length (names t) * 2 \<le> hcap t \<and>
           table_ok (home addr (names t)) (length (names t)) (hash t))"

lemma ap_table_init_ok [simp]: "ap_table_ok addr ap_table_init"
  by (simp add: ap_table_ok_def ap_table_init_def)

text \<open>The position of a name in the dense array.\<close>

fun index_of :: "'a list \<Rightarrow> 'a \<Rightarrow> nat option" where
  "index_of [] y = None"
| "index_of (x # xs) y = (if x = y then Some 0 else map_option Suc (index_of xs y))"

lemma index_of_None: "index_of xs y = None \<longleftrightarrow> y \<notin> set xs"
  by (induction xs) auto

lemma index_of_notin [simp]: "y \<notin> set xs \<Longrightarrow> index_of xs y = None"
  by (simp add: index_of_None)

lemma index_of_SomeD: "index_of xs y = Some i \<Longrightarrow> i < length xs \<and> xs ! i = y"
  by (induction xs arbitrary: i) (auto split: if_splits)

lemma index_of_nth: "distinct xs \<Longrightarrow> i < length xs \<Longrightarrow> index_of xs (xs ! i) = Some i"
  by (induction xs arbitrary: i) (auto simp: nth_Cons split: nat.splits)

lemma probe_name_present:
  assumes t: "hcap t = 2 ^ k" "length (hash t) = hcap t" and d: "distinct (names t)"
    and ok: "table_ok H (length (names t)) (hash t)"
    and i: "i < length (names t)" and h: "hash t ! slot (hcap t) j d = i + 1"
    and "leads_to (hash t) j d" and "d0 \<le> d" and "d < d0 + fuel"
  shows "probe_name t (names t ! i) fuel (slot (hcap t) j d0) = Some (Some i)"
  using assms(8,9)
proof (induction fuel arbitrary: d0)
  case 0
  then show ?case by simp
next
  case (Suc fuel)
  show ?case
  proof (cases "d0 = d")
    case True
    with h show ?thesis by (simp add: Let_def)
  next
    case False
    with Suc.prems have less: "d0 < d" by simp
    then have nz: "hash t ! slot (hcap t) j d0 \<noteq> 0"
      using assms(7) t(2) by (simp add: leads_to_def)
    have "slot (hcap t) j d0 < hcap t" using t(1) by simp
    then have "hash t ! slot (hcap t) j d0 \<le> length (names t)"
      using ok t(2) by (simp add: table_ok_def)
    then have "hash t ! slot (hcap t) j d0 - 1 < length (names t)" using nz by linarith
    then have "names t ! (hash t ! slot (hcap t) j d0 - 1) = names t ! i \<longrightarrow>
        hash t ! slot (hcap t) j d0 - 1 = i"
      using d i by (simp add: nth_eq_iff_index_eq)
    then show ?thesis using nz Suc.IH [of "Suc d0"] Suc.prems less
      by (auto simp: Let_def next_slot [OF t(1)])
  qed
qed

lemma probe_name_absent:
  assumes t: "hcap t = 2 ^ k" "length (hash t) = hcap t"
    and ok: "table_ok H (length (names t)) (hash t)" and n: "name \<notin> set (names t)"
    and s: "s < hcap t" "hash t ! s = 0"
    and "leads_to (hash t) j d0" and "d0 + fuel = hcap t"
  shows "probe_name t name fuel (slot (hcap t) j d0) = Some None"
  using assms(7,8)
proof (induction fuel arbitrary: d0)
  case 0
  obtain d' where "d' < hcap t" "slot (hcap t) j d' = s"
    using slot_reaches [OF s(1)] by blast
  with 0 s(2) t(2) show ?case by (auto simp: leads_to_def)
next
  case (Suc fuel)
  show ?case
  proof (cases "hash t ! slot (hcap t) j d0 = 0")
    case True
    then show ?thesis by simp
  next
    case False
    then have lead: "leads_to (hash t) j (Suc d0)"
      using Suc.prems t(2) by (auto simp: leads_to_def less_Suc_eq)
    have "slot (hcap t) j d0 < hcap t" using t(1) by simp
    then have "hash t ! slot (hcap t) j d0 \<le> length (names t)"
      using ok t(2) by (simp add: table_ok_def)
    then have "hash t ! slot (hcap t) j d0 - 1 < length (names t)" using False by linarith
    then have "names t ! (hash t ! slot (hcap t) j d0 - 1) \<noteq> name"
      using n by auto
    then show ?thesis using False Suc.IH [OF lead] Suc.prems
      by (simp add: Let_def next_slot [OF t(1)])
  qed
qed

lemma ap_table_find_ok:
  assumes "ap_table_ok addr t"
  shows "ap_table_find addr t name = Some (index_of (names t) name)"
proof (cases "hcap t = 0")
  case True
  with assms show ?thesis by (simp add: ap_table_find_def ap_table_ok_def)
next
  case False
  let ?j = "ptr_hash (addr name)"
  from False assms obtain k where t: "hcap t = 2 ^ k" "length (hash t) = hcap t"
    and d: "distinct (names t)" and load: "length (names t) * 2 \<le> hcap t"
    and ok: "table_ok (home addr (names t)) (length (names t)) (hash t)"
    by (auto simp: ap_table_ok_def)
  have j: "?j AND (hcap t - 1) = slot (hcap t) ?j 0"
    using and_mask_mod [OF t(1)] by (simp add: slot_def)
  show ?thesis
  proof (cases "index_of (names t) name")
    case (Some i)
    then have i: "i < length (names t)" "names t ! i = name" by (auto dest: index_of_SomeD)
    with ok obtain dd where "dd < hcap t" "hash t ! slot (hcap t) ?j dd = i + 1"
      "leads_to (hash t) ?j dd" unfolding table_ok_def home_def t(2) by metis
    from probe_name_present [OF t d ok i(1) this(2,3), of 0 "hcap t"] this(1) i Some False j
    show ?thesis by (simp add: ap_table_find_def)
  next
    case None
    have "length (names t) < length (hash t)" using load False t(2) by linarith
    from table_ok_free [OF ok this] obtain s where "s < hcap t" "hash t ! s = 0" using t(2) by auto
    from probe_name_absent [OF t ok _ this, of name ?j 0 "hcap t"] None False j
    have "ap_table_find addr t name = Some None"
      by (simp add: ap_table_find_def leads_to_def index_of_None)
    with None show ?thesis by (simp only:)
  qed
qed

lemma rehash_from_ok:
  assumes "table_ok (home addr (pre @ xs)) (length pre) h" and "length h = 2 ^ k"
    and "length (pre @ xs) < length h"
  shows "\<exists>h'. rehash_from addr xs (length pre) (length h) h = Some h' \<and> length h' = length h \<and>
     table_ok (home addr (pre @ xs)) (length (pre @ xs)) h'"
  using assms
proof (induction xs arbitrary: pre h)
  case Nil
  then show ?case by simp
next
  case (Cons x xs)
  have "home addr (pre @ x # xs) (length pre) = ptr_hash (addr x)" by (simp add: home_def)
  with probe_free_insert [OF Cons.prems(1,2)] Cons.prems(3)
  obtain j where j: "probe_free h (length h - 1) (length h) (ptr_hash (addr x) AND (length h - 1)) = Some j"
    and ok: "table_ok (home addr (pre @ x # xs)) (Suc (length pre)) (h[j := Suc (length pre)])"
    using and_mask_mod [OF Cons.prems(2)] by (auto simp: slot_def)
  have "table_ok (home addr ((pre @ [x]) @ xs)) (length (pre @ [x])) (h[j := Suc (length pre)])"
    using ok by simp
  from Cons.IH [OF this] Cons.prems(2,3) j show ?case by (auto simp: Let_def)
qed

lemma ap_table_okI:
  assumes "distinct ns" "length fl = length ns" "m = 2 ^ k" "length h = m"
    "length ns * 2 \<le> m" "table_ok (home addr ns) (length ns) h"
  shows "ap_table_ok addr \<lparr>names = ns, flags = fl, cap = c, hash = h, hcap = m\<rparr>"
  using assms by (auto simp: ap_table_ok_def)

lemma ap_table_intern_ok:
  assumes inv: "ap_table_ok addr t" and small: "length (names t) < 2 ^ 30"
  shows "\<exists>t'. ap_table_intern addr t name fl = Some (t', case index_of (names t) name of
             Some i \<Rightarrow> i | None \<Rightarrow> length (names t)) \<and>
           ap_table_ok addr t' \<and>
           names t' = (if name \<in> set (names t) then names t else names t @ [name]) \<and>
           flags t' = (case index_of (names t) name of
             Some i \<Rightarrow> (flags t)[i := flags t ! i OR fl] | None \<Rightarrow> flags t @ [fl])"
proof (cases "index_of (names t) name")
  case (Some i)
  then have "name \<in> set (names t)" using index_of_SomeD nth_mem by metis
  with Some inv show ?thesis
    by (simp add: ap_table_intern_def ap_table_find_ok [OF inv] ap_table_ok_def)
next
  case None
  then have new: "name \<notin> set (names t)" by (simp add: index_of_None)
  let ?n = "length (names t)" and ?ns = "names t @ [name]"
  have find: "ap_table_find addr t name = Some None"
    using new by (simp add: ap_table_find_ok [OF inv])
  have flags: "length (flags t) = ?n" and dist: "distinct ?ns"
    using inv new by (auto simp: ap_table_ok_def)
  show ?thesis
  proof (cases "(?n + 1) * 2 > hcap t")
    case True
    let ?m = "if hcap t \<noteq> 0 then hcap t * 2 mod 2 ^ 32 else 32"
    have cap': "(\<exists>k. ?m = 2 ^ k) \<and> (?n + 1) * 2 \<le> ?m"
    proof (cases "hcap t = 0")
      case True
      have "\<exists>k. (32::nat) = 2 ^ k" by (rule exI [of _ 5]) simp
      with True inv show ?thesis by (simp add: ap_table_ok_def)
    next
      case False
      with inv obtain k where k: "hcap t = 2 ^ k" and "?n * 2 \<le> hcap t"
        by (auto simp: ap_table_ok_def)
      with True have n: "hcap t = ?n * 2 \<or> hcap t = ?n * 2 + 1" by arith
      have "hcap t * 2 = 2 ^ Suc k" using k by simp
      moreover have "hcap t * 2 < 2 ^ 32" using n small by auto
      moreover have "(?n + 1) * 2 \<le> hcap t * 2" using n False by (cases ?n) auto
      ultimately show ?thesis using False by (auto simp del: power_Suc)
    qed
    then obtain k where k: "?m = 2 ^ k" by blast
    have "table_ok (home addr ([] @ ?ns)) (length ([]::ap list)) (replicate ?m 0)"
      using table_ok_empty by simp
    from rehash_from_ok [OF this, of k] cap' k
    obtain h' where "rehash_from addr ?ns 0 ?m (replicate ?m 0) = Some h'" "length h' = ?m"
      "table_ok (home addr ?ns) (length ?ns) h'" by auto
    note h' = this
    have "length ?ns * 2 \<le> ?m" using cap' by simp
    note ok' = ap_table_okI [OF dist _ k h'(2) this h'(3), of "flags t @ [fl]"]
    have "\<exists>c. ap_table_intern addr t name fl =
        Some (\<lparr>names = ?ns, flags = flags t @ [fl], cap = c, hash = h', hcap = ?m\<rparr>, ?n)"
      using True h'(1) find
      by (cases t) (auto simp: ap_table_intern_def Let_def rehash_def split: if_splits)
    with ok' flags new show ?thesis by fastforce
  next
    case False
    then have m: "hcap t \<noteq> 0" by simp
    with inv obtain k where k: "hcap t = 2 ^ k" and len: "length (hash t) = hcap t"
      and ok: "table_ok (home addr (names t)) ?n (hash t)" by (auto simp: ap_table_ok_def)
    have "table_ok (home addr ?ns) ?n (hash t)"
      using ok by (subst table_ok_cong [of _ _ "home addr (names t)"]) (auto simp: home_def nth_append)
    from probe_free_insert [OF this, of k] False k len
    obtain j where "probe_free (hash t) (hcap t - 1) (hcap t) (ptr_hash (addr name) AND (hcap t - 1)) = Some j"
      "table_ok (home addr ?ns) (Suc ?n) ((hash t)[j := Suc ?n])"
      using and_mask_mod [OF k] by (auto simp: slot_def home_def)
    note j = this
    have "length ?ns * 2 \<le> hcap t" "table_ok (home addr ?ns) (length ?ns) ((hash t)[j := Suc ?n])"
      "length ((hash t)[j := Suc ?n]) = hcap t"
      using False j(2) len by simp_all
    note ok' = ap_table_okI [OF dist _ k this(3) this(1,2), of "flags t @ [fl]"]
    have "\<exists>c. ap_table_intern addr t name fl =
        Some (\<lparr>names = ?ns, flags = flags t @ [fl], cap = c, hash = (hash t)[j := Suc ?n],
               hcap = hcap t\<rparr>, ?n)"
      using False j(1) find
      by (cases t) (simp add: ap_table_intern_def Let_def)
    with ok' flags new show ?thesis by fastforce
  qed
qed

subsection \<open>The interface of an index of names\<close>

text \<open>
  What the users of the table rely on (\<^verbatim>\<open>conversion.c\<close>, \<^verbatim>\<open>spec.c\<close>): interning never fails below
  the capacity \<open>bound\<close>, returns the position of the name, and only ever appends new names.
\<close>

definition snoc_new :: "'a list \<Rightarrow> 'a \<Rightarrow> 'a list" where
  "snoc_new xs x = (if x \<in> set xs then xs else xs @ [x])"

lemma set_snoc_new [simp]: "set (snoc_new xs x) = insert x (set xs)"
  by (auto simp: snoc_new_def)

lemma length_snoc_new: "length (snoc_new xs x) \<le> Suc (length xs)"
  by (simp add: snoc_new_def)

lemma set_foldl_snoc_new [simp]: "set (foldl snoc_new xs ys) = set xs \<union> set ys"
  by (induction ys arbitrary: xs) auto

lemma distinct_foldl_snoc_new: "distinct xs \<Longrightarrow> distinct (foldl snoc_new xs ys)"
  by (induction ys arbitrary: xs) (auto simp: snoc_new_def)

locale name_index =
  fixes inv :: "'t \<Rightarrow> bool"
    and nm :: "'t \<Rightarrow> 'k list"
    and add :: "'t \<Rightarrow> 'k \<Rightarrow> 'f \<Rightarrow> ('t \<times> nat) option"
    and bound :: nat
  assumes add_ok: "inv t \<Longrightarrow> length (nm t) < bound \<Longrightarrow>
      \<exists>t' i. add t x f = Some (t', i) \<and> inv t' \<and> nm t' = snoc_new (nm t) x \<and>
        i < length (nm t') \<and> nm t' ! i = x"
    and inv_distinct: "inv t \<Longrightarrow> distinct (nm t)"
begin

primrec add_list :: "'t \<Rightarrow> ('k \<times> 'f) list \<Rightarrow> 't option" where
  "add_list t [] = Some t"
| "add_list t (x # xs) = do { (t', i) \<leftarrow> add t (fst x) (snd x); add_list t' xs }"

lemma add_list_ok:
  "inv t \<Longrightarrow> length (nm t) + length xs \<le> bound \<Longrightarrow>
   \<exists>t'. add_list t xs = Some t' \<and> inv t' \<and> nm t' = foldl snoc_new (nm t) (map fst xs)"
proof (induction xs arbitrary: t)
  case Nil
  then show ?case by simp
next
  case (Cons x xs)
  from Cons.prems add_ok [of t "fst x" "snd x"]
  obtain t' i where t': "add t (fst x) (snd x) = Some (t', i)" "inv t'" "nm t' = snoc_new (nm t) (fst x)"
    by auto
  have "length (nm t') + length xs \<le> bound"
    using Cons.prems(2) t'(3) length_snoc_new [of "nm t" "fst x"] by simp
  from Cons.IH [OF t'(2) this] t' show ?case by auto
qed

lemma add_list_append:
  "add_list t (xs @ ys) = do { t' \<leftarrow> add_list t xs; add_list t' ys }"
proof (induction xs arbitrary: t)
  case (Cons x xs)
  then show ?case by (cases "add t (fst x) (snd x)") auto
qed simp

end

interpretation ap_index: name_index "ap_table_ok addr" names "ap_table_intern addr" "2 ^ 30" for addr
proof
  fix t :: ap_table and x fl
  assume t: "ap_table_ok addr t" "length (names t) < 2 ^ 30"
  show "\<exists>t' i. ap_table_intern addr t x fl = Some (t', i) \<and> ap_table_ok addr t' \<and>
      names t' = snoc_new (names t) x \<and> i < length (names t') \<and> names t' ! i = x"
  proof (cases "index_of (names t) x")
    case None
    then have "x \<notin> set (names t)" by (simp add: index_of_None)
    with ap_table_intern_ok [OF t, of x fl] show ?thesis by (auto simp: snoc_new_def)
  next
    case (Some i)
    from index_of_SomeD [OF this] have "i < length (names t)" "names t ! i = x" by simp_all
    then have "x \<in> set (names t)" by auto
    with ap_table_intern_ok [OF t, of x fl] Some index_of_SomeD [OF Some]
    show ?thesis by (auto simp: snoc_new_def)
  qed
qed (simp add: ap_table_ok_def)

subsection \<open>Bitsets\<close>

record apset =
  words :: "u64 list"
  nbits :: nat

definition nwords :: "nat \<Rightarrow> nat" where
  "nwords n = (n + 63) div 64"

definition apset_init :: "nat \<Rightarrow> apset" where
  "apset_init n = \<lparr>words = replicate (if nwords n = 0 then 1 else nwords n) 0, nbits = n\<rparr>"

definition apset_set :: "apset \<Rightarrow> nat \<Rightarrow> apset" where
  "apset_set s i = s\<lparr>words := (words s)[i div 64 := words s ! (i div 64) OR push_bit (i mod 64) 1]\<rparr>"

definition apset_test :: "apset \<Rightarrow> nat \<Rightarrow> bool" where
  "apset_test s i \<longleftrightarrow> drop_bit (i mod 64) (words s ! (i div 64)) AND 1 \<noteq> 0"

definition tlsf_words_or :: "u64 list \<Rightarrow> u64 list \<Rightarrow> nat \<Rightarrow> u64 list" where
  "tlsf_words_or dst src n = map2 (OR) (take n dst) (take n src) @ drop n dst"

definition apset_union :: "apset \<Rightarrow> apset \<Rightarrow> apset" where
  "apset_union dst src = dst\<lparr>words := tlsf_words_or (words dst) (words src) (nwords (nbits dst))\<rparr>"

definition popcountll :: "u64 \<Rightarrow> nat" where
  "popcountll w = length (filter (bit w) [0..<64])"

definition tlsf_words_popcount :: "u64 list \<Rightarrow> nat \<Rightarrow> nat" where
  "tlsf_words_popcount ws n = (foldl (\<lambda>acc w. (acc + popcountll w) mod 2 ^ 64) 0 (take n ws)) mod 2 ^ 32"

definition apset_count :: "apset \<Rightarrow> nat" where
  "apset_count s = tlsf_words_popcount (words s) (nwords (nbits s))"

text \<open>The set a bitset stands for, and the shape every bitset of the program has.\<close>

definition apset_elems :: "apset \<Rightarrow> nat set" where
  "apset_elems s = {i. i < nbits s \<and> apset_test s i}"

definition apset_ok :: "apset \<Rightarrow> bool" where
  "apset_ok s \<longleftrightarrow> length (words s) = max 1 (nwords (nbits s)) \<and>
     (\<forall>i<64 * length (words s). nbits s \<le> i \<longrightarrow> \<not> apset_test s i)"

lemma apset_test_bit: "apset_test s i = bit (words s ! (i div 64)) (i mod 64)"
  by (simp add: apset_test_def bit_iff_odd_drop_bit and_one_eq odd_iff_mod_2_eq_one)

lemma word_index_less: "apset_ok s \<Longrightarrow> i < nbits s \<Longrightarrow> i div 64 < length (words s)"
  by (simp add: apset_ok_def nwords_def)

lemma apset_init_ok: "apset_ok (apset_init n)"
proof -
  have "words (apset_init n) ! j = 0" if "j < length (words (apset_init n))" for j
    using that by (simp add: apset_init_def)
  then show ?thesis
    by (auto simp: apset_ok_def apset_test_bit less_mult_imp_div_less mult.commute)
       (simp add: apset_init_def)
qed

lemma apset_test_set:
  "i div 64 < length (words s) \<Longrightarrow> apset_test (apset_set s i) j \<longleftrightarrow> apset_test s j \<or> i = j"
proof -
  assume "i div 64 < length (words s)"
  moreover have "i = j \<longleftrightarrow> i div 64 = j div 64 \<and> i mod 64 = j mod 64"
    by (metis div_mult_mod_eq)
  moreover have "j mod 64 < 64" by simp
  ultimately show ?thesis
    by (auto simp: apset_test_bit apset_set_def nth_list_update bit_simps)
qed

lemma apset_set_ok:
  "apset_ok s \<Longrightarrow> i < nbits s \<Longrightarrow> apset_ok (apset_set s i)"
  using word_index_less [of s i]
  by (auto simp: apset_ok_def apset_test_set) (simp_all add: apset_set_def)

lemma apset_elems_set:
  "apset_ok s \<Longrightarrow> i < nbits s \<Longrightarrow> apset_elems (apset_set s i) = insert i (apset_elems s)"
  using word_index_less [of s i]
  by (auto simp: apset_elems_def apset_test_set) (simp_all add: apset_set_def)

lemma apset_test_union:
  assumes a: "apset_ok a" and b: "apset_ok b" and n: "nbits a = nbits b" and i: "i < nbits a"
  shows "apset_test (apset_union a b) i \<longleftrightarrow> apset_test a i \<or> apset_test b i"
proof -
  let ?w = "nwords (nbits a)"
  have "i div 64 < ?w" using i by (simp add: nwords_def)
  moreover have "?w \<le> length (words a)" "?w \<le> length (words b)"
    using a b n by (simp_all add: apset_ok_def)
  ultimately show ?thesis
    by (simp add: apset_test_bit apset_union_def tlsf_words_or_def nth_append bit_or_iff)
qed

lemma apset_elems_union:
  "apset_ok a \<Longrightarrow> apset_ok b \<Longrightarrow> nbits a = nbits b \<Longrightarrow>
   apset_elems (apset_union a b) = apset_elems a \<union> apset_elems b"
proof -
  assume *: "apset_ok a" "apset_ok b" "nbits a = nbits b"
  have "nbits (apset_union a b) = nbits a" by (simp add: apset_union_def)
  with * show ?thesis by (auto simp: apset_elems_def apset_test_union)
qed

text \<open>The population count of the words is the number of elements.\<close>

definition word_bits :: "u64 \<Rightarrow> nat set" where
  "word_bits w = {k. k < 64 \<and> bit w k}"

lemma card_word_bits: "popcountll w = card (word_bits w)"
proof -
  have "word_bits w = set (filter (bit w) [0..<64])" by (auto simp: word_bits_def)
  then have "card (word_bits w) = card (set (filter (bit w) [0..<64]))" by (simp only:)
  also have "\<dots> = length (filter (bit w) [0..<64])" by (rule distinct_card) simp
  finally show ?thesis by (simp add: popcountll_def)
qed

lemma foldl_popcount:
  "foldl (\<lambda>acc w. (acc + popcountll w) mod m) a ws mod m = (a + (\<Sum>w\<leftarrow>ws. popcountll w)) mod m"
proof (induction ws arbitrary: a)
  case (Cons w ws)
  show ?case by (simp add: Cons mod_simps add.assoc)
qed simp

lemma card_bits_of_words:
  "card {i. i < 64 * length ws \<and> bit (ws ! (i div 64)) (i mod 64)} = (\<Sum>w\<leftarrow>ws. popcountll w)"
proof (induction ws rule: rev_induct)
  case (snoc w ws)
  let ?n = "64 * length ws"
  have "{i. i < 64 * length (ws @ [w]) \<and> bit ((ws @ [w]) ! (i div 64)) (i mod 64)} =
      {i. i < ?n \<and> bit (ws ! (i div 64)) (i mod 64)} \<union> (\<lambda>k. ?n + k) ` word_bits w" (is "?L = ?A \<union> ?B")
  proof (intro set_eqI)
    fix i
    show "i \<in> ?L \<longleftrightarrow> i \<in> ?A \<union> ?B"
    proof (cases "i < ?n")
      case True
      then have "i div 64 < length ws" by (simp add: less_mult_imp_div_less mult.commute)
      with True show ?thesis by (auto simp: nth_append)
    next
      case False
      then obtain k where k: "i = ?n + k" by (metis le_Suc_ex not_less)
      then show ?thesis by (auto simp: nth_append word_bits_def)
    qed
  qed
  moreover have "?A \<inter> ?B = {}" by (auto simp: word_bits_def)
  moreover have "finite ?A" "finite ?B" by (auto simp: word_bits_def)
  moreover have "card ?B = card (word_bits w)" by (rule card_image) simp
  ultimately show ?case by (simp add: card_Un_disjoint snoc card_word_bits)
qed simp

lemma apset_count_card:
  assumes ok: "apset_ok s" and n: "nbits s < 2 ^ 32"
  shows "apset_count s = card (apset_elems s)"
proof -
  let ?ws = "take (nwords (nbits s)) (words s)"
  have len: "length ?ws = nwords (nbits s)" using ok by (simp add: apset_ok_def)
  have "apset_elems s = {i. i < 64 * length ?ws \<and> bit (?ws ! (i div 64)) (i mod 64)}"
  proof (intro set_eqI)
    fix i
    have "i < 64 * nwords (nbits s) \<longleftrightarrow> i div 64 < nwords (nbits s)"
      by (metis div_less_iff_less_mult mult.commute zero_less_numeral)
    moreover have "i < nbits s \<Longrightarrow> i < 64 * nwords (nbits s)" by (simp add: nwords_def)
    moreover have "64 * nwords (nbits s) \<le> 64 * length (words s)" using ok by (simp add: apset_ok_def)
    ultimately show "i \<in> apset_elems s \<longleftrightarrow>
        i \<in> {i. i < 64 * length ?ws \<and> bit (?ws ! (i div 64)) (i mod 64)}"
      unfolding apset_elems_def mem_Collect_eq len using ok
      by (auto simp: apset_test_bit apset_ok_def dest: leI)
  qed
  then have c: "card (apset_elems s) = (\<Sum>w\<leftarrow>?ws. popcountll w)"
    by (simp only: card_bits_of_words)
  have "card (apset_elems s) \<le> card {..<nbits s}"
    by (rule card_mono) (auto simp: apset_elems_def)
  then have "(\<Sum>w\<leftarrow>?ws. popcountll w) < 2 ^ 32" using n c by simp
  moreover have "foldl (\<lambda>acc w. (acc + popcountll w) mod 2 ^ 64) 0 ?ws mod 2 ^ 32 =
      (foldl (\<lambda>acc w. (acc + popcountll w) mod 2 ^ 64) 0 ?ws mod 2 ^ 64) mod 2 ^ 32"
    by (rule mod_mod_cancel [symmetric]) (simp add: le_imp_power_dvd)
  ultimately show ?thesis
    using c by (simp only: apset_count_def tlsf_words_popcount_def foldl_popcount) simp
qed

subsection \<open>Properties\<close>

text \<open>
  Looking up a name in a well-formed table always ends, whatever the addresses of the
  names (they may all collide): the probe meets the name or a free slot, and the answer is the
  position of the name in the dense array, or absent.
\<close>

theorem ap_table_find_correct:
  assumes "ap_table_ok addr t"
  shows "ap_table_find addr t name = Some (index_of (names t) name)"
  by (rule ap_table_find_ok [OF assms])

theorem ap_table_find_correct_witness:
  "\<exists>t. names t = [''a'', ''b''] \<and> ap_table_find (\<lambda>_. 7) t ''b'' = Some (Some 1)"
proof -
  obtain t where t: "ap_table_ok (\<lambda>_. 7) t" "names t = [''a'']"
    using ap_table_intern_ok [OF ap_table_init_ok [of "\<lambda>_. 7"], of "''a''" 1]
    by (auto simp: ap_table_init_def)
  obtain u where "ap_table_ok (\<lambda>_. 7) u" "names u = [''a'', ''b'']"
    using ap_table_intern_ok [OF t(1), of "''b''" 2] t(2) by auto
  with ap_table_find_correct [of "\<lambda>_. 7" u "''b''"] show ?thesis by auto
qed

text \<open>
  C28. Interning below the capacity of the table returns the index of the name, appends it only
  when it is new, ors the flags into the entry, and keeps the table well formed: the arrays
  grow and the hash table is rebuilt so that it stays at most half full.
\<close>

theorem ap_table_intern_correct:
  assumes "ap_table_ok addr t" and "length (names t) < 2 ^ 30"
  shows "\<exists>t' i. ap_table_intern addr t name fl = Some (t', i) \<and> ap_table_ok addr t' \<and>
     names t' = snoc_new (names t) name \<and> i < length (names t') \<and> names t' ! i = name \<and>
     flags t' ! i = (if name \<in> set (names t) then flags t ! i OR fl else fl)"
proof (cases "index_of (names t) name")
  case None
  then have "name \<notin> set (names t)" by (simp add: index_of_None)
  moreover have "length (flags t) = length (names t)" using assms(1) by (simp add: ap_table_ok_def)
  ultimately show ?thesis using ap_table_intern_ok [OF assms, of name fl]
    by (auto simp: snoc_new_def nth_append)
next
  case (Some i)
  then have i: "i < length (names t)" "names t ! i = name" by (auto dest: index_of_SomeD)
  moreover have "length (flags t) = length (names t)" using assms(1) by (simp add: ap_table_ok_def)
  ultimately show ?thesis using ap_table_intern_ok [OF assms, of name fl] Some
    by (auto simp: snoc_new_def)
qed

theorem ap_table_intern_correct_witness:
  "\<exists>t. ap_table_intern (\<lambda>_. 7) ap_table_init ''req'' 1 = Some (t, 0) \<and> names t = [''req''] \<and>
       flags t ! 0 = 1"
  using ap_table_intern_correct [OF ap_table_init_ok [of "\<lambda>_. 7"], of "''req''" 1]
  by (auto simp: ap_table_init_def snoc_new_def)

text \<open>
  Bitsets over atom indices behave as sets: a fresh one is empty, setting a bit inserts,
  the word-wise union is set union and the population count is the cardinality.
\<close>

theorem apset_is_set:
  assumes "apset_ok a" and "apset_ok b" and "nbits a = nbits b" and "i < nbits a" and "nbits a < 2 ^ 32"
  shows "apset_elems (apset_init n) = {} \<and>
     apset_elems (apset_set a i) = insert i (apset_elems a) \<and>
     apset_elems (apset_union a b) = apset_elems a \<union> apset_elems b \<and>
     apset_count a = card (apset_elems a)"
proof -
  have "apset_elems (apset_init n) = {}"
    using apset_init_ok [of n]
    by (auto simp: apset_elems_def apset_test_bit apset_init_def nwords_def less_mult_imp_div_less)
  then show ?thesis using assms
    by (simp add: apset_elems_set apset_elems_union apset_count_card)
qed

theorem apset_is_set_witness:
  "apset_elems (apset_set (apset_init 70) 65) = {65}"
proof -
  have e: "apset_elems (apset_init 70) = {}"
    by (auto simp: apset_elems_def apset_test_bit apset_init_def nwords_def nth_Cons')
  show ?thesis
    using apset_is_set [OF apset_init_ok [of 70] apset_init_ok [of 70], of 65] e
    by (simp add: apset_init_def)
qed

end
