(* ===== verification/Spec.thy ===== *)
theory Spec
  imports Rewrite_Correct Apset
begin

text \<open>
  The specification structure \<^verbatim>\<open>TlsfSpec\<close> of \<^verbatim>\<open>include/tlsf/spec.h\<close> and its operations in
  \<^verbatim>\<open>src/lib/spec.c\<close>: the grow-by-doubling arrays and the \<^verbatim>\<open>spec_add_*\<close> functions of the parser,
  the names of semantics and targets, the validations, the adaptation between Mealy and Moore
  timing, and the fair environment.
\<close>

subsection \<open>Semantics and target\<close>

datatype semantics =
    SEM_MEALY | SEM_MOORE | SEM_MEALY_STRICT | SEM_MOORE_STRICT | SEM_MEALY_FINITE | SEM_MOORE_FINITE

datatype target = TARGET_MEALY | TARGET_MOORE

definition semantics_is_moore :: "semantics \<Rightarrow> bool" where
  "semantics_is_moore s \<longleftrightarrow> s = SEM_MOORE \<or> s = SEM_MOORE_STRICT \<or> s = SEM_MOORE_FINITE"

definition semantics_is_strict :: "semantics \<Rightarrow> bool" where
  "semantics_is_strict s \<longleftrightarrow> s = SEM_MEALY_STRICT \<or> s = SEM_MOORE_STRICT"

definition semantics_is_finite :: "semantics \<Rightarrow> bool" where
  "semantics_is_finite s \<longleftrightarrow> s = SEM_MEALY_FINITE \<or> s = SEM_MOORE_FINITE"

primrec spec_semantics_name :: "semantics \<Rightarrow> string" where
  "spec_semantics_name SEM_MEALY = ''Mealy''"
| "spec_semantics_name SEM_MOORE = ''Moore''"
| "spec_semantics_name SEM_MEALY_STRICT = ''Strict,Mealy''"
| "spec_semantics_name SEM_MOORE_STRICT = ''Strict,Moore''"
| "spec_semantics_name SEM_MEALY_FINITE = ''Finite,Mealy''"
| "spec_semantics_name SEM_MOORE_FINITE = ''Finite,Moore''"

definition spec_target_name :: "target \<Rightarrow> string" where
  "spec_target_name t = (if t = TARGET_MOORE then ''Moore'' else ''Mealy'')"

text \<open>\<^verbatim>\<open>strtok(buf, ",")\<close>: the maximal runs of other characters.\<close>

fun split_tok :: "string \<Rightarrow> string \<Rightarrow> string list" where
  "split_tok cur [] = (if cur = [] then [] else [rev cur])"
| "split_tok cur (c # cs) =
     (if c = CHR '','' then (if cur = [] then split_tok [] cs else rev cur # split_tok [] cs)
      else split_tok (c # cur) cs)"

definition is_blank :: "char \<Rightarrow> bool" where
  "is_blank c \<longleftrightarrow> c = CHR '' '' \<or> c = CHR 0x09"

definition trim_blanks :: "string \<Rightarrow> string" where
  "trim_blanks tok = rev (dropWhile is_blank (rev (dropWhile is_blank tok)))"

text \<open>The four booleans of the loop: \<^verbatim>\<open>mealy, moore, strict, finite\<close>.\<close>

fun parse_tokens :: "string list \<Rightarrow> bool \<times> bool \<times> bool \<times> bool \<Rightarrow> (bool \<times> bool \<times> bool \<times> bool) option" where
  "parse_tokens [] st = Some st"
| "parse_tokens (t # ts) (mealy, moore, strict, fin) =
     (let tok = trim_blanks t in
      if tok = ''Mealy'' then parse_tokens ts (True, moore, strict, fin)
      else if tok = ''Moore'' then parse_tokens ts (mealy, True, strict, fin)
      else if tok = ''Strict'' then parse_tokens ts (mealy, moore, True, fin)
      else if tok = ''Finite'' then parse_tokens ts (mealy, moore, strict, True)
      else None)"

definition parse_semantics :: "string \<Rightarrow> semantics option" where
  "parse_semantics s =
     (if length s \<ge> 64 then None
      else do {
        (mealy, moore, strict, fin) \<leftarrow> parse_tokens (split_tok [] s) (False, False, False, False);
        if mealy = moore \<or> (strict \<and> fin) then None
        else if mealy
        then Some (if strict then SEM_MEALY_STRICT else if fin then SEM_MEALY_FINITE else SEM_MEALY)
        else Some (if strict then SEM_MOORE_STRICT else if fin then SEM_MOORE_FINITE else SEM_MOORE) })"

definition parse_target :: "string \<Rightarrow> target option" where
  "parse_target s =
     (if s = ''Mealy'' then Some TARGET_MEALY
      else if s = ''Moore'' then Some TARGET_MOORE else None)"

subsection \<open>Growing arrays\<close>

text \<open>
  An array with its capacity; the count is the length.  The capacity is a \<open>w\<close>-bit unsigned
  integer (\<open>w = 32\<close> for formulas and signals, \<open>16\<close> for the other tables) and is doubled when the
  array is full; \<^const>\<open>None\<close> is a copy or a store beyond the new array.
\<close>

record 'a growable =
  items :: "'a list"
  capacity :: nat

definition LIST_INIT_CAP :: nat where "LIST_INIT_CAP = 8"

definition empty_growable :: "'a growable" where
  "empty_growable = \<lparr>items = [], capacity = 0\<rparr>"

definition grow_push :: "nat \<Rightarrow> 'a growable \<Rightarrow> 'a \<Rightarrow> 'a growable option" where
  "grow_push w g x =
     (let new_cap = (if length (items g) = capacity g
                     then if capacity g \<noteq> 0 then capacity g * 2 mod 2 ^ w else LIST_INIT_CAP
                     else capacity g)
      in if length (items g) < new_cap
         then Some \<lparr>items = items g @ [x], capacity = new_cap\<rparr> else None)"

subsection \<open>The specification\<close>

record signal_decl =
  sd_name :: string
  bus_lo :: u16
  bus_hi :: u16
  is_bus :: bool
  origin_name :: string
  origin_id :: u32
  origin_index :: u16
  origin_bus_lo :: u16
  origin_bus_hi :: u16
  origin_is_bus :: bool
  origin_is_enum :: bool
  origin_width_expr :: "node option"
  origin_is_encoded_bit :: bool
  bus_lo_expr :: "node option"
  bus_hi_expr :: "node option"

record param_decl =
  pd_name :: string
  pd_value :: "64 word"
  default_val :: "64 word"
  has_default :: bool

record def_decl =
  dd_name :: string
  dd_params :: "string list"
  dd_body :: node

record enum_label =
  el_name :: string
  el_bits :: string

record enum_type =
  et_name :: string
  et_width :: u32
  label_start :: u16
  label_count :: u16

record tlsf_spec =
  spec_semantics :: semantics
  spec_target :: target
  spec_tags :: "string growable"
  spec_params :: "param_decl growable"
  spec_defs :: "def_decl growable"
  enum_labels :: "enum_label growable"
  enum_types :: "enum_type growable"
  inputs :: "signal_decl growable"
  outputs :: "signal_decl growable"
  initially :: "node growable"
  require :: "node growable"
  assume_list :: "node growable"
  preset :: "node growable"
  assert_list :: "node growable"
  guarantee :: "node growable"

definition spec_new :: tlsf_spec where
  "spec_new = \<lparr>spec_semantics = SEM_MEALY, spec_target = TARGET_MEALY, spec_tags = empty_growable,
     spec_params = empty_growable, spec_defs = empty_growable, enum_labels = empty_growable,
     enum_types = empty_growable, inputs = empty_growable, outputs = empty_growable,
     initially = empty_growable, require = empty_growable, assume_list = empty_growable,
     preset = empty_growable, assert_list = empty_growable, guarantee = empty_growable\<rparr>"

definition formula_list_push :: "node growable \<Rightarrow> node \<Rightarrow> node growable option" where
  "formula_list_push = grow_push 32"

definition literal_bound :: "node option \<Rightarrow> u16" where
  "literal_bound e = (case e of Some (NodeInt v) \<Rightarrow> word_of_int v | _ \<Rightarrow> 0)"

definition spec_add_signal ::
  "tlsf_spec \<Rightarrow> bool \<Rightarrow> string \<Rightarrow> bool \<Rightarrow> node option \<Rightarrow> node option \<Rightarrow> tlsf_spec option" where
  "spec_add_signal s is_output name isbus lo_expr hi_expr =
     (let xs = (if is_output then outputs s else inputs s);
          d = \<lparr>sd_name = name, bus_lo = literal_bound lo_expr, bus_hi = literal_bound hi_expr,
               is_bus = isbus, origin_name = name, origin_id = of_nat (length (items xs)) + 1,
               origin_index = literal_bound lo_expr, origin_bus_lo = literal_bound lo_expr,
               origin_bus_hi = literal_bound hi_expr, origin_is_bus = isbus,
               origin_is_enum = False, origin_width_expr = hi_expr, origin_is_encoded_bit = False,
               bus_lo_expr = lo_expr, bus_hi_expr = hi_expr\<rparr>
      in do { xs' \<leftarrow> grow_push 32 xs d;
              Some (if is_output then s\<lparr>outputs := xs'\<rparr> else s\<lparr>inputs := xs'\<rparr>) })"

definition spec_add_param :: "tlsf_spec \<Rightarrow> string \<Rightarrow> bool \<Rightarrow> 64 word \<Rightarrow> tlsf_spec option" where
  "spec_add_param s name has_def v =
     do { xs \<leftarrow> grow_push 16 (spec_params s)
            \<lparr>pd_name = name, pd_value = v, default_val = v, has_default = has_def\<rparr>;
          Some (s\<lparr>spec_params := xs\<rparr>) }"

definition spec_add_def :: "tlsf_spec \<Rightarrow> string \<Rightarrow> string list \<Rightarrow> node \<Rightarrow> tlsf_spec option" where
  "spec_add_def s name ps body =
     do { xs \<leftarrow> grow_push 16 (spec_defs s) \<lparr>dd_name = name, dd_params = ps, dd_body = body\<rparr>;
          Some (s\<lparr>spec_defs := xs\<rparr>) }"

definition spec_add_enum_label :: "tlsf_spec \<Rightarrow> string \<Rightarrow> string \<Rightarrow> tlsf_spec option" where
  "spec_add_enum_label s name bits =
     do { xs \<leftarrow> grow_push 16 (enum_labels s) \<lparr>el_name = name, el_bits = bits\<rparr>;
          Some (s\<lparr>enum_labels := xs\<rparr>) }"

definition spec_find_enum_label :: "tlsf_spec \<Rightarrow> string \<Rightarrow> string option" where
  "spec_find_enum_label s name =
     map_option el_bits (find (\<lambda>e. el_name e = name) (items (enum_labels s)))"

definition spec_add_enum_type :: "tlsf_spec \<Rightarrow> string \<Rightarrow> u32 \<Rightarrow> u16 \<Rightarrow> u16 \<Rightarrow> tlsf_spec option" where
  "spec_add_enum_type s name width start cnt =
     do { xs \<leftarrow> grow_push 16 (enum_types s)
            \<lparr>et_name = name, et_width = width, label_start = start, label_count = cnt\<rparr>;
          Some (s\<lparr>enum_types := xs\<rparr>) }"

definition spec_find_enum_type :: "tlsf_spec \<Rightarrow> string \<Rightarrow> enum_type option" where
  "spec_find_enum_type s name = find (\<lambda>e. et_name e = name) (items (enum_types s))"

definition spec_add_tag :: "tlsf_spec \<Rightarrow> string \<Rightarrow> tlsf_spec option" where
  "spec_add_tag s tag = do { xs \<leftarrow> grow_push 16 (spec_tags s) tag; Some (s\<lparr>spec_tags := xs\<rparr>) }"

text \<open>The six sections, in the order the code lists them.\<close>

definition sections :: "tlsf_spec \<Rightarrow> node list list" where
  "sections s = [items (initially s), items (require s), items (assume_list s),
     items (preset s), items (assert_list s), items (guarantee s)]"

definition spec_ground :: "tlsf_spec \<Rightarrow> bool" where
  "spec_ground s \<longleftrightarrow> list_all (list_all ground) (sections s)"

subsection \<open>Target adaptation\<close>

definition signal_name_in :: "string \<Rightarrow> signal_decl list \<Rightarrow> bool" where
  "signal_name_in name signals = list_ex (\<lambda>d. sd_name d = name) signals"

text \<open>
  The C code collects the slots to overwrite and writes them at the end, so that a node shared
  by several parents is wrapped once per slot; on the tree every atom is replaced once.
\<close>

fun wrap_signal_aps :: "signal_decl list \<Rightarrow> bool \<Rightarrow> node \<Rightarrow> node" where
  "wrap_signal_aps outs shift_outputs (NodeAp p) =
     (if signal_name_in p outs \<noteq> shift_outputs then NodeAp p else node_x (NodeAp p))"
| "wrap_signal_aps outs shift_outputs (Unary k a) = Unary k (wrap_signal_aps outs shift_outputs a)"
| "wrap_signal_aps outs shift_outputs (Binary k a b) =
     Binary k (wrap_signal_aps outs shift_outputs a) (wrap_signal_aps outs shift_outputs b)"
| "wrap_signal_aps outs shift_outputs n = n"

definition spec_validate_target_adaptation :: "tlsf_spec \<Rightarrow> bool" where
  "spec_validate_target_adaptation s \<longleftrightarrow>
     \<not> (semantics_is_finite (spec_semantics s) \<and>
        semantics_is_moore (spec_semantics s) \<noteq> (spec_target s = TARGET_MOORE))"

definition map_items :: "('a \<Rightarrow> 'a) \<Rightarrow> 'a growable \<Rightarrow> 'a growable" where
  "map_items f g = g\<lparr>items := map f (items g)\<rparr>"

definition spec_adapt_target :: "tlsf_spec \<Rightarrow> tlsf_spec option" where
  "spec_adapt_target s =
     (let semantics_moore = semantics_is_moore (spec_semantics s);
          target_moore = (spec_target s = TARGET_MOORE)
      in if semantics_moore = target_moore then Some s
         else if semantics_is_finite (spec_semantics s) then None
         else let wrap = map_items (wrap_signal_aps (items (outputs s)) (\<not> semantics_moore))
              in Some (s\<lparr>initially := wrap (initially s), require := wrap (require s),
                        assume_list := wrap (assume_list s), preset := wrap (preset s),
                        assert_list := wrap (assert_list s), guarantee := wrap (guarantee s)\<rparr>))"

subsection \<open>Fair environment\<close>

definition FAIR_INDEX :: string where "FAIR_INDEX = ''__tlsf_fair_i''"

definition fair_input_formula :: "signal_decl \<Rightarrow> string \<Rightarrow> bool \<Rightarrow> node" where
  "fair_input_formula signal index negated =
     (let atom = (if is_bus signal then BusIndex (sd_name signal) (IntVar index)
                  else NodeAp (sd_name signal));
          val = (if negated then node_not atom else atom);
          fair = node_g (node_f val)
      in if \<not> is_bus signal then fair
         else let lo = (case bus_lo_expr signal of Some e \<Rightarrow> e | None \<Rightarrow> NodeInt (uint (bus_lo signal)));
                  hi = (case bus_hi_expr signal of Some e \<Rightarrow> e | None \<Rightarrow> NodeInt (uint (bus_hi signal)))
              in Quant NODE_FORALL index (RangeBinder lo False hi False) fair)"

fun fair_inputs :: "signal_decl list \<Rightarrow> node growable \<Rightarrow> node growable option" where
  "fair_inputs [] acc = Some acc"
| "fair_inputs (d # ds) acc =
     do { acc1 \<leftarrow> formula_list_push acc (fair_input_formula d FAIR_INDEX False);
          acc2 \<leftarrow> formula_list_push acc1 (fair_input_formula d FAIR_INDEX True);
          fair_inputs ds acc2 }"

definition spec_add_fair_environment :: "tlsf_spec \<Rightarrow> tlsf_spec option" where
  "spec_add_fair_environment s =
     do { xs \<leftarrow> fair_inputs (items (inputs s)) (assume_list s); Some (s\<lparr>assume_list := xs\<rparr>) }"

subsection \<open>Validation\<close>

fun node_has_strong_next :: "node \<Rightarrow> bool" where
  "node_has_strong_next (Unary k a) = (if k = NODE_X_STRONG then True else node_has_strong_next a)"
| "node_has_strong_next (HlUnary k a) = node_has_strong_next a"
| "node_has_strong_next (Binary k a b) = (node_has_strong_next a \<or> node_has_strong_next b)"
| "node_has_strong_next (HlBinary k a b) = (node_has_strong_next a \<or> node_has_strong_next b)"
| "node_has_strong_next (NextN strong a b) = (node_has_strong_next a \<or> node_has_strong_next b)"
| "node_has_strong_next (Call k f args) = list_ex node_has_strong_next args"
| "node_has_strong_next (BusIndex b i) = node_has_strong_next i"
| "node_has_strong_next (Ite c t e) =
     (node_has_strong_next c \<or> node_has_strong_next t \<or> node_has_strong_next e)"
| "node_has_strong_next (Quant k v (RangeBinder lo ls hi hs) body) =
     (node_has_strong_next lo \<or> node_has_strong_next hi \<or> node_has_strong_next body)"
| "node_has_strong_next (Quant k v (SetBinder s) body) =
     (node_has_strong_next s \<or> node_has_strong_next body)"
| "node_has_strong_next (BoundedOp k strong lo hi body) =
     (strong \<or> node_has_strong_next lo \<or> node_has_strong_next hi \<or> node_has_strong_next body)"
| "node_has_strong_next (SetLit k elems) = list_ex node_has_strong_next elems"
| "node_has_strong_next _ = False"

definition formula_list_has_strong_next :: "node growable \<Rightarrow> bool" where
  "formula_list_has_strong_next fs = list_ex node_has_strong_next (items fs)"

definition spec_validate_semantics :: "tlsf_spec \<Rightarrow> bool" where
  "spec_validate_semantics s =
     (if semantics_is_finite (spec_semantics s) then True
      else if list_ex (\<lambda>d. node_has_strong_next (dd_body d)) (items (spec_defs s)) then False
      else \<not> (formula_list_has_strong_next (initially s) \<or> formula_list_has_strong_next (require s) \<or>
              formula_list_has_strong_next (assume_list s) \<or> formula_list_has_strong_next (preset s) \<or>
              formula_list_has_strong_next (assert_list s) \<or> formula_list_has_strong_next (guarantee s)))"

text \<open>\<^verbatim>\<open>tolower\<close> of the C locale.\<close>

definition tolower :: "char \<Rightarrow> char" where
  "tolower c = (if 65 \<le> (of_char c :: nat) \<and> (of_char c :: nat) \<le> 90
                then char_of ((of_char c :: nat) + 32) else c)"

fun names_equal_ignoring_case :: "string \<Rightarrow> string \<Rightarrow> bool" where
  "names_equal_ignoring_case (l # lhs) (r # rhs) =
     (if tolower l \<noteq> tolower r then False else names_equal_ignoring_case lhs rhs)"
| "names_equal_ignoring_case lhs rhs = (lhs = [] \<and> rhs = [])"

definition ltlxba_atom_ok :: "string \<Rightarrow> bool" where
  "ltlxba_atom_ok name = list_all (\<lambda>c. c \<noteq> CHR 0x27 \<and> c \<noteq> CHR 0x40) name"

fun ltlxba_formula_ok :: "node \<Rightarrow> bool" where
  "ltlxba_formula_ok (NodeAp p) = ltlxba_atom_ok p"
| "ltlxba_formula_ok (Unary k a) = ltlxba_formula_ok a"
| "ltlxba_formula_ok (Binary k a b) = (ltlxba_formula_ok a \<and> ltlxba_formula_ok b)"
| "ltlxba_formula_ok _ = True"

definition spec_validate_ltlxba_atoms :: "tlsf_spec \<Rightarrow> bool" where
  "spec_validate_ltlxba_atoms s =
     (list_all (\<lambda>d. ltlxba_atom_ok (sd_name d)) (items (inputs s)) \<and>
      list_all (\<lambda>d. ltlxba_atom_ok (sd_name d)) (items (outputs s)) \<and>
      list_all (list_all ltlxba_formula_ok) (sections s))"

text \<open>
  The alphabet of a specification (\<^verbatim>\<open>conversion.c\<close>): the scalar declarations, then the atoms of
  the formulas in order of occurrence, interned into an \<^typ>\<open>ap_table\<close>.
\<close>

definition AP_FLAG_INPUT :: u8 where "AP_FLAG_INPUT = 1"
definition AP_FLAG_OUTPUT :: u8 where "AP_FLAG_OUTPUT = 2"

fun seed_signals :: "(ap \<Rightarrow> u64) \<Rightarrow> u8 \<Rightarrow> ap_table \<Rightarrow> signal_decl list \<Rightarrow> ap_table option" where
  "seed_signals addr fl t [] = Some t"
| "seed_signals addr fl t (d # ds) =
     (if is_bus d then seed_signals addr fl t ds
      else do { (t', i) \<leftarrow> ap_table_intern addr t (sd_name d) fl; seed_signals addr fl t' ds })"

definition conversion_seed_signals :: "(ap \<Rightarrow> u64) \<Rightarrow> ap_table \<Rightarrow> tlsf_spec \<Rightarrow> ap_table option" where
  "conversion_seed_signals addr t s =
     do { t1 \<leftarrow> seed_signals addr AP_FLAG_INPUT t (items (inputs s));
          seed_signals addr AP_FLAG_OUTPUT t1 (items (outputs s)) }"

fun conversion_intern_aps :: "(ap \<Rightarrow> u64) \<Rightarrow> ap_table \<Rightarrow> node \<Rightarrow> ap_table option" where
  "conversion_intern_aps addr t (NodeAp p) =
     do { (t', i) \<leftarrow> ap_table_intern addr t p 0; Some t' }"
| "conversion_intern_aps addr t (Unary k a) = conversion_intern_aps addr t a"
| "conversion_intern_aps addr t (Binary k a b) =
     do { t' \<leftarrow> conversion_intern_aps addr t a; conversion_intern_aps addr t' b }"
| "conversion_intern_aps addr t _ = Some t"

fun intern_formulas :: "(ap \<Rightarrow> u64) \<Rightarrow> ap_table \<Rightarrow> node list \<Rightarrow> ap_table option" where
  "intern_formulas addr t [] = Some t"
| "intern_formulas addr t (f # fs) =
     do { t' \<leftarrow> conversion_intern_aps addr t f; intern_formulas addr t' fs }"

definition names_clash :: "string \<Rightarrow> string \<Rightarrow> bool" where
  "names_clash lhs rhs \<longleftrightarrow> lhs \<noteq> rhs \<and> names_equal_ignoring_case lhs rhs"

fun no_clash :: "string list \<Rightarrow> bool" where
  "no_clash [] = True"
| "no_clash (l # rs) = (\<not> list_ex (names_clash l) rs \<and> no_clash rs)"

definition spec_validate_lowercase_signals :: "(ap \<Rightarrow> u64) \<Rightarrow> tlsf_spec \<Rightarrow> bool option" where
  "spec_validate_lowercase_signals addr s =
     do { t \<leftarrow> conversion_seed_signals addr ap_table_init s;
          t' \<leftarrow> intern_formulas addr t (concat (sections s));
          Some (no_clash (names t')) }"

end
