(* ===== verification/Spec_Correct.thy ===== *)
theory Spec_Correct
  imports Spec
begin

text \<open>
  Properties of \<^verbatim>\<open>spec.c\<close>: the grammar of SEMANTICS values, the memory safety of the growing
  arrays and its limit, the meaning of the timing adaptation and of the fair environment, and
  what each validation accepts.
\<close>

subsection \<open>Semantics names\<close>

lemma parse_tokens_eq:
  "parse_tokens ts (m, o', s, f) =
     (let T = trim_blanks ` set ts in
      if T \<subseteq> {''Mealy'', ''Moore'', ''Strict'', ''Finite''}
      then Some (m \<or> ''Mealy'' \<in> T, o' \<or> ''Moore'' \<in> T, s \<or> ''Strict'' \<in> T, f \<or> ''Finite'' \<in> T)
      else None)"
proof (induction ts arbitrary: m o' s f)
  case Nil
  then show ?case by simp
next
  case (Cons t ts)
  consider "trim_blanks t = ''Mealy''" | "trim_blanks t = ''Moore''" | "trim_blanks t = ''Strict''"
    | "trim_blanks t = ''Finite''" | "trim_blanks t \<notin> {''Mealy'', ''Moore'', ''Strict'', ''Finite''}"
    by blast
  then show ?case by cases (simp_all add: Let_def Cons.IH)
qed

lemma semantics_of_flags:
  "(if n \<ge> 64 then None
    else do {
      (mealy, moore, strict, fin) \<leftarrow> (if known then Some (m, o', s, f) else None);
      if mealy = moore \<or> (strict \<and> fin) then None
      else if mealy
      then Some (if strict then SEM_MEALY_STRICT else if fin then SEM_MEALY_FINITE else SEM_MEALY)
      else Some (if strict then SEM_MOORE_STRICT else if fin then SEM_MOORE_FINITE else SEM_MOORE) })
    = Some x \<longleftrightarrow>
   n < (64::nat) \<and> known \<and> m = (\<not> o') \<and> \<not> (s \<and> f) \<and> semantics_is_moore x = o' \<and>
   semantics_is_strict x = s \<and> semantics_is_finite x = f"
  by (cases m; cases o'; cases s; cases f; cases x)
     (auto simp: semantics_is_moore_def semantics_is_strict_def semantics_is_finite_def)

lemma parse_semantics_iff:
  "parse_semantics s = Some x \<longleftrightarrow>
     (let T = trim_blanks ` set (split_tok [] s) in
      length s < 64 \<and> T \<subseteq> {''Mealy'', ''Moore'', ''Strict'', ''Finite''} \<and>
      (''Mealy'' \<in> T) = (''Moore'' \<notin> T) \<and> \<not> (''Strict'' \<in> T \<and> ''Finite'' \<in> T) \<and>
      semantics_is_moore x = (''Moore'' \<in> T) \<and> semantics_is_strict x = (''Strict'' \<in> T) \<and>
      semantics_is_finite x = (''Finite'' \<in> T))"
  unfolding parse_semantics_def parse_tokens_eq Let_def by (subst semantics_of_flags) simp

subsection \<open>Growing arrays\<close>

definition growable_ok :: "nat \<Rightarrow> 'a growable \<Rightarrow> bool" where
  "growable_ok w g \<longleftrightarrow> length (items g) \<le> capacity g \<and> capacity g \<le> 2 ^ (w - 1) \<and>
     (capacity g = 0 \<or> (\<exists>k. capacity g = 8 * 2 ^ k))"

lemma grow_push_ok:
  assumes w: "4 < w" and ok: "growable_ok w g" and small: "length (items g) < 2 ^ (w - 1)"
  shows "\<exists>g'. grow_push w g x = Some g' \<and> growable_ok w g' \<and> items g' = items g @ [x]"
proof (cases "length (items g) = capacity g \<and> capacity g \<noteq> 0")
  case False
  have "(8::nat) = 2 ^ 3" by simp
  also have "(2::nat) ^ 3 \<le> 2 ^ (w - 1)" using w by (intro power_increasing) simp_all
  finally have "(8::nat) \<le> 2 ^ (w - 1)" .
  moreover have "\<exists>k. (8::nat) = 8 * 2 ^ k" by (rule exI [of _ 0]) simp
  ultimately show ?thesis
    using False ok by (auto simp: grow_push_def growable_ok_def LIST_INIT_CAP_def)
next
  case True
  then obtain k where k: "capacity g = 8 * 2 ^ k" using ok by (auto simp: growable_ok_def)
  have less: "capacity g < 2 ^ (w - 1)" using small True by simp
  have eight: "(8::nat) * 2 ^ k = 2 ^ (k + 3)" by (simp add: power_add)
  from less k have "(2::nat) ^ (k + 3) < 2 ^ (w - 1)" unfolding eight by simp
  then have "k + 3 < w - 1" by (rule power_less_imp_less_exp [rotated]) simp
  then have "Suc (k + 3) \<le> w - 1" by simp
  then have "(2::nat) ^ Suc (k + 3) \<le> 2 ^ (w - 1)" by (intro power_increasing) simp_all
  moreover have "capacity g * 2 = 2 ^ Suc (k + 3)"
    using k by (simp add: power_add)
  ultimately have le: "capacity g * 2 \<le> 2 ^ (w - 1)" by (simp only:)
  have "(2::nat) ^ (w - 1) < 2 ^ w" using w by (intro power_strict_increasing) simp_all
  with le have "capacity g * 2 < 2 ^ w" by (rule le_less_trans)
  then have m: "capacity g * 2 mod 2 ^ w = capacity g * 2" by simp
  have "\<exists>k'. capacity g * 2 = 8 * 2 ^ k'" using k by (intro exI [of _ "Suc k"]) simp
  then show ?thesis
    using True ok le by (simp add: grow_push_def growable_ok_def m)
qed

lemma grow_push_overflow:
  assumes w: "4 < w" and ok: "growable_ok w g" and full: "length (items g) = 2 ^ (w - 1)"
  shows "grow_push w g x = None"
proof -
  have cap: "capacity g = 2 ^ (w - 1)" using ok full by (simp add: growable_ok_def)
  have "(2::nat) ^ (w - 1) * 2 = 2 ^ w" using w by (simp flip: power_Suc2)
  then show ?thesis using cap full by (simp add: grow_push_def)
qed

subsection \<open>Timing adaptation\<close>

text \<open>The word in which the atoms selected by the wrapping are read one step later.\<close>

definition delay :: "signal_decl list \<Rightarrow> bool \<Rightarrow> trace \<Rightarrow> trace" where
  "delay outs shift_outputs w i =
     {p. if signal_name_in p outs = shift_outputs then p \<in> w (Suc i) else p \<in> w i}"

lemma wrap_signal_aps_ground [simp]: "ground (wrap_signal_aps outs b n) = ground n"
  by (induction outs b n rule: wrap_signal_aps.induct) simp_all

lemma sat_wrap_signal_aps:
  "ground n \<Longrightarrow> sat \<infinity> w (wrap_signal_aps outs b n) = sat \<infinity> (delay outs b w) n"
  by (induction n rule: ground_induct) (auto simp: next_weak_def delay_def)

subsection \<open>Fair environment\<close>

lemma fair_inputs_ok:
  assumes "growable_ok 32 acc" and "length (items acc) + 2 * length ds \<le> 2 ^ 31"
  shows "\<exists>acc'. fair_inputs ds acc = Some acc' \<and>
     items acc' = items acc @ concat (map (\<lambda>d. [fair_input_formula d FAIR_INDEX False,
       fair_input_formula d FAIR_INDEX True]) ds)"
  using assms
proof (induction ds arbitrary: acc)
  case Nil
  then show ?case by simp
next
  case (Cons d ds)
  obtain a1 where a1: "formula_list_push acc (fair_input_formula d FAIR_INDEX False) = Some a1"
    "growable_ok 32 a1" "items a1 = items acc @ [fair_input_formula d FAIR_INDEX False]"
    using grow_push_ok [OF _ Cons.prems(1)] Cons.prems(2) by (auto simp: formula_list_push_def)
  obtain a2 where a2: "formula_list_push a1 (fair_input_formula d FAIR_INDEX True) = Some a2"
    "growable_ok 32 a2" "items a2 = items a1 @ [fair_input_formula d FAIR_INDEX True]"
    using grow_push_ok [OF _ a1(2)] a1(3) Cons.prems(2) by (auto simp: formula_list_push_def)
  from Cons.IH [OF a2(2)] Cons.prems(2) a1 a2 show ?case by auto
qed

subsection \<open>Strong next\<close>

lemma has_strong_next_ground:
  "ground n \<Longrightarrow> node_has_strong_next n \<longleftrightarrow> Inl NODE_X_STRONG \<in> ops n"
  by (induction n rule: ground_induct) auto

subsection \<open>The alphabet\<close>

fun atom_list :: "node \<Rightarrow> ap list" where
  "atom_list (NodeAp p) = [p]"
| "atom_list (Unary k a) = atom_list a"
| "atom_list (Binary k a b) = atom_list a @ atom_list b"
| "atom_list _ = []"

lemma set_atom_list [simp]: "set (atom_list n) = atoms n"
  by (induction n) auto

lemma conversion_intern_aps_list:
  "conversion_intern_aps addr t n = ap_index.add_list addr t (map (\<lambda>p. (p, 0)) (atom_list n))"
proof (induction n arbitrary: t)
  case (NodeAp p)
  then show ?case by (cases "ap_table_intern addr t p 0") auto
next
  case (Binary k a b)
  then show ?case by (simp add: ap_index.add_list_append)
qed auto

lemma intern_formulas_list:
  "intern_formulas addr t fs = ap_index.add_list addr t (map (\<lambda>p. (p, 0)) (concat (map atom_list fs)))"
  by (induction fs arbitrary: t)
     (simp_all add: conversion_intern_aps_list ap_index.add_list_append)

lemma seed_signals_list:
  "seed_signals addr fl t ds =
     ap_index.add_list addr t (map (\<lambda>d. (sd_name d, fl)) (filter (\<lambda>d. \<not> is_bus d) ds))"
  by (induction ds arbitrary: t) (auto split: prod.splits)

definition alphabet_list :: "tlsf_spec \<Rightarrow> ap list" where
  "alphabet_list s =
     map sd_name (filter (\<lambda>d. \<not> is_bus d) (items (inputs s))) @
     map sd_name (filter (\<lambda>d. \<not> is_bus d) (items (outputs s))) @
     concat (map atom_list (concat (sections s)))"

lemma validate_lowercase_names:
  assumes "length (alphabet_list s) \<le> 2 ^ 30"
  shows "\<exists>ns. spec_validate_lowercase_signals addr s = Some (no_clash ns) \<and>
     distinct ns \<and> set ns = set (alphabet_list s)"
proof -
  let ?l = "map (\<lambda>d. (sd_name d, AP_FLAG_INPUT)) (filter (\<lambda>d. \<not> is_bus d) (items (inputs s))) @
     map (\<lambda>d. (sd_name d, AP_FLAG_OUTPUT)) (filter (\<lambda>d. \<not> is_bus d) (items (outputs s))) @
     map (\<lambda>p. (p, 0)) (concat (map atom_list (concat (sections s))))"
  have fst: "map fst ?l = alphabet_list s" by (simp add: alphabet_list_def comp_def)
  then have "length ?l \<le> 2 ^ 30" using assms by (metis length_map)
  with ap_index.add_list_ok [OF ap_table_init_ok, of ?l addr]
  obtain t where t: "ap_index.add_list addr ap_table_init ?l = Some t"
    "names t = foldl snoc_new [] (map fst ?l)" by (auto simp: ap_table_init_def)
  have "spec_validate_lowercase_signals addr s = Some (no_clash (names t))"
    using t(1) unfolding spec_validate_lowercase_signals_def conversion_seed_signals_def
      seed_signals_list intern_formulas_list ap_index.add_list_append bind_Some_iff by blast
  moreover have "distinct (names t)" "set (names t) = set (alphabet_list s)"
    using t(2) unfolding fst by (simp_all add: distinct_foldl_snoc_new)
  ultimately show ?thesis by blast
qed

lemma names_equal_iff: "names_equal_ignoring_case l r \<longleftrightarrow> map tolower l = map tolower r"
  by (induction l r rule: names_equal_ignoring_case.induct) auto

lemma no_clash_iff:
  "distinct ns \<Longrightarrow> no_clash ns \<longleftrightarrow> inj_on (map tolower) (set ns)"
proof (induction ns)
  case (Cons n ns)
  then show ?case by (auto simp: names_clash_def names_equal_iff list_ex_iff inj_on_def)
qed simp

subsection \<open>Properties\<close>

text \<open>
  A SEMANTICS string is accepted exactly when it is shorter than 64 characters, its
  comma-separated, blank-trimmed tokens are known names, one of \<^verbatim>\<open>Mealy\<close> and \<^verbatim>\<open>Moore\<close> occurs and
  not both of \<^verbatim>\<open>Strict\<close> and \<^verbatim>\<open>Finite\<close>; order and repetition do not matter.  Printing and parsing
  round-trip, for semantics and targets.
\<close>

theorem parse_semantics_correct:
  "(parse_semantics s = Some x \<longleftrightarrow>
     (let T = trim_blanks ` set (split_tok [] s) in
      length s < 64 \<and> T \<subseteq> {''Mealy'', ''Moore'', ''Strict'', ''Finite''} \<and>
      (''Mealy'' \<in> T) = (''Moore'' \<notin> T) \<and> \<not> (''Strict'' \<in> T \<and> ''Finite'' \<in> T) \<and>
      semantics_is_moore x = (''Moore'' \<in> T) \<and> semantics_is_strict x = (''Strict'' \<in> T) \<and>
      semantics_is_finite x = (''Finite'' \<in> T))) \<and>
   parse_semantics (spec_semantics_name y) = Some y \<and>
   parse_target (spec_target_name t) = Some t"
proof (intro conjI)
  show "parse_semantics (spec_semantics_name y) = Some y"
    by (cases y) (simp_all add: parse_semantics_def trim_blanks_def is_blank_def)
  show "parse_target (spec_target_name t) = Some t"
    by (cases t) (simp_all add: parse_target_def spec_target_name_def)
qed (rule parse_semantics_iff)

text \<open>
  The grow-by-doubling arrays: below half the range of the capacity's type a push stays in
  bounds, appends the element and keeps the array well formed.  At that size the doubled
  capacity wraps to zero and the push writes outside the new array: the 32769th parameter,
  definition, enumeration label or tag, whose capacity is a \<^verbatim>\<open>uint16_t\<close>.
\<close>

theorem spec_add_param_bounds:
  assumes "growable_ok 16 (spec_params s)"
  shows "(length (items (spec_params s)) < 32768 \<longrightarrow>
      (\<exists>s'. spec_add_param s name has_def v = Some s' \<and> growable_ok 16 (spec_params s') \<and>
        map pd_name (items (spec_params s')) = map pd_name (items (spec_params s)) @ [name])) \<and>
    (length (items (spec_params s)) = 32768 \<longrightarrow> spec_add_param s name has_def v = None)"
  using grow_push_ok [OF _ assms] grow_push_overflow [OF _ assms]
  by (fastforce simp: spec_add_param_def)

theorem spec_add_param_bounds_witness:
  "(\<exists>s. spec_add_param spec_new ''m'' False 0 = Some s) \<and>
   spec_add_param (spec_new\<lparr>spec_params := \<lparr>items = replicate 32768
       \<lparr>pd_name = ''n'', pd_value = 0, default_val = 0, has_default = False\<rparr>, capacity = 32768\<rparr>\<rparr>)
     ''m'' False 0 = None"
proof
  have e: "spec_params spec_new = \<lparr>items = [], capacity = 0\<rparr>"
    by (simp add: spec_new_def empty_growable_def)
  have ok: "growable_ok 16 (spec_params spec_new)"
    unfolding e by (simp add: growable_ok_def)
  show "\<exists>s. spec_add_param spec_new ''m'' False 0 = Some s"
    using spec_add_param_bounds [OF ok, of "''m''" False 0] unfolding e by auto
  have "\<exists>k. (32768::nat) = 8 * 2 ^ k" by (rule exI [of _ 12]) simp
  then have ok: "growable_ok 16 (spec_params (spec_new\<lparr>spec_params := \<lparr>items = replicate 32768
       \<lparr>pd_name = ''n'', pd_value = 0, default_val = 0, has_default = False\<rparr>, capacity = 32768\<rparr>\<rparr>))"
    by (simp add: growable_ok_def)
  show "spec_add_param (spec_new\<lparr>spec_params := \<lparr>items = replicate 32768
       \<lparr>pd_name = ''n'', pd_value = 0, default_val = 0, has_default = False\<rparr>, capacity = 32768\<rparr>\<rparr>)
     ''m'' False 0 = None"
    using spec_add_param_bounds [OF ok, of "''m''" False 0] by simp
qed

text \<open>
  C29. Adapting between Mealy and Moore timing.  It fails exactly where
  \<^verbatim>\<open>spec_validate_target_adaptation\<close> complains (a finite-word semantics with the other target),
  leaves an agreeing specification alone, and otherwise every formula of every section holds,
  at every position of an infinite word, exactly where the original formula holds in the word
  whose non-output atoms (Moore to Mealy) or output atoms (Mealy to Moore) are read one step
  later.
\<close>

theorem spec_adapt_target_correct:
  assumes "spec_ground s"
  shows "(spec_adapt_target s = None \<longleftrightarrow> \<not> spec_validate_target_adaptation s) \<and>
    (\<forall>s'. spec_adapt_target s = Some s' \<longrightarrow>
      (let moore = semantics_is_moore (spec_semantics s) in
       if moore = (spec_target s = TARGET_MOORE) then s' = s
       else list_all2 (list_all2 (\<lambda>g f. \<forall>w i. sat \<infinity> w g i =
              sat \<infinity> (delay (items (outputs s)) (\<not> moore) w) f i)) (sections s') (sections s)))"
proof -
  have "list_all2 (\<lambda>g f. \<forall>w i. sat \<infinity> w g i = sat \<infinity> (delay outs b w) f i)
      (items (map_items (wrap_signal_aps outs b) fs)) (items fs)"
    if "list_all ground (items fs)" for outs b fs
    using that by (auto simp: map_items_def list_all2_conv_all_nth list_all_length sat_wrap_signal_aps)
  with assms show ?thesis
    by (auto simp: spec_adapt_target_def spec_validate_target_adaptation_def Let_def
        sections_def spec_ground_def)
qed

theorem spec_adapt_target_correct_witness:
  "\<exists>s'. spec_adapt_target (spec_new\<lparr>spec_target := TARGET_MOORE,
        guarantee := \<lparr>items = [NodeAp ''p''], capacity = 8\<rparr>,
        outputs := \<lparr>items = [], capacity = 0\<rparr>\<rparr>) = Some s' \<and>
     (\<forall>w i. sat \<infinity> w (hd (items (guarantee s'))) i = (''p'' \<in> w i))"
  using spec_adapt_target_correct [of "spec_new\<lparr>spec_target := TARGET_MOORE,
        guarantee := \<lparr>items = [NodeAp ''p''], capacity = 8\<rparr>,
        outputs := \<lparr>items = [], capacity = 0\<rparr>\<rparr>"]
  by (auto simp: spec_ground_def sections_def spec_new_def empty_growable_def Let_def
      spec_adapt_target_def semantics_is_moore_def semantics_is_finite_def map_items_def delay_def
      signal_name_in_def)

text \<open>
  The fair environment of a specification with scalar inputs: it appends two assumptions
  per input (the array has room for them), and together they say that every input is
  infinitely often true and infinitely often false.
\<close>

theorem spec_add_fair_environment_correct:
  assumes "growable_ok 32 (assume_list s)"
    and "length (items (assume_list s)) + 2 * length (items (inputs s)) \<le> 2 ^ 31"
    and "list_all (\<lambda>d. \<not> is_bus d) (items (inputs s))"
  shows "\<exists>s' fs. spec_add_fair_environment s = Some s' \<and>
    items (assume_list s') = items (assume_list s) @ fs \<and>
    length fs = 2 * length (items (inputs s)) \<and>
    (list_all (\<lambda>f. sat \<infinity> w f 0) fs \<longleftrightarrow>
      (\<forall>d\<in>set (items (inputs s)). \<forall>i. (\<exists>j\<ge>i. sd_name d \<in> w j) \<and> (\<exists>j\<ge>i. sd_name d \<notin> w j)))"
proof -
  let ?fs = "concat (map (\<lambda>d. [fair_input_formula d FAIR_INDEX False,
       fair_input_formula d FAIR_INDEX True]) (items (inputs s)))"
  have "length ?fs = 2 * length (items (inputs s))"
    by (induction "items (inputs s)") (auto simp: length_concat comp_def sum_list_triv)
  moreover have "list_all (\<lambda>f. sat \<infinity> w f 0) ?fs \<longleftrightarrow>
      (\<forall>d\<in>set (items (inputs s)). \<forall>i. (\<exists>j\<ge>i. sd_name d \<in> w j) \<and> (\<exists>j\<ge>i. sd_name d \<notin> w j))"
    using assms(3) by (auto simp: list_all_iff fair_input_formula_def Let_def alw_def ev_def)
  ultimately show ?thesis
    using fair_inputs_ok [OF assms(1,2)] by (auto simp: spec_add_fair_environment_def)
qed

theorem spec_add_fair_environment_correct_witness:
  "\<exists>s d. items (inputs s) = [d] \<and> sd_name d = ''r'' \<and>
     (\<exists>s' fs. spec_add_fair_environment s = Some s' \<and> items (assume_list s') = fs \<and> length fs = 2 \<and>
       \<not> list_all (\<lambda>f. sat \<infinity> (\<lambda>_. {''r''}) f 0) fs)"
proof -
  have "\<exists>s. spec_add_signal spec_new False ''r'' False None None = Some s \<and>
      items (assume_list s) = [] \<and> growable_ok 32 (assume_list s) \<and>
      (\<exists>d. items (inputs s) = [d] \<and> \<not> is_bus d \<and> sd_name d = ''r'')"
    by (simp add: spec_add_signal_def spec_new_def empty_growable_def grow_push_def LIST_INIT_CAP_def
        Let_def growable_ok_def)
  then obtain s :: tlsf_spec and d where s: "items (assume_list s) = []" "growable_ok 32 (assume_list s)"
    "items (inputs s) = [d]" "\<not> is_bus d" "sd_name d = ''r''" by blast
  from spec_add_fair_environment_correct [OF s(2), of "\<lambda>_. {''r''}"] s
  show ?thesis by (intro exI [of _ s] exI [of _ d]) auto
qed

text \<open>
  Under infinite-word semantics, an expanded specification that \<^verbatim>\<open>spec_validate_semantics\<close>
  accepts has no strong next in any section, and one without definitions and without strong
  next is accepted; under finite-word semantics everything is accepted.
\<close>

theorem spec_validate_semantics_correct:
  assumes "spec_ground s" and "items (spec_defs s) = []"
  shows "spec_validate_semantics s \<longleftrightarrow>
    semantics_is_finite (spec_semantics s) \<or>
    list_all (list_all (\<lambda>f. Inl NODE_X_STRONG \<notin> ops f)) (sections s)"
  using assms
  by (auto simp: spec_validate_semantics_def formula_list_has_strong_next_def sections_def
      spec_ground_def list_all_iff list_ex_iff has_strong_next_ground)

theorem spec_validate_semantics_correct_witness:
  "\<not> spec_validate_semantics (spec_new\<lparr>require :=
     \<lparr>items = [node_f (node_x_strong NodeTrue)], capacity = 8\<rparr>\<rparr>)"
  using spec_validate_semantics_correct [of "spec_new\<lparr>require :=
     \<lparr>items = [node_f (node_x_strong NodeTrue)], capacity = 8\<rparr>\<rparr>"]
  by (simp add: spec_ground_def sections_def spec_new_def empty_growable_def semantics_is_finite_def)

text \<open>
  Before expansion the check misses the bounded strong next: \<open>X[!n] p\<close> is accepted under
  infinite-word semantics, while \<open>G[!a:b] p\<close>, \<open>F[!a:b] p\<close> and \<open>X[!] p\<close> are refused.
\<close>

theorem strong_next_n_is_missed:
  "spec_validate_semantics (spec_new\<lparr>guarantee :=
     \<lparr>items = [NextN True (NodeInt n) (NodeAp p)], capacity = 8\<rparr>\<rparr>) \<and>
   \<not> spec_validate_semantics (spec_new\<lparr>guarantee :=
     \<lparr>items = [BoundedOp k True (NodeInt m) (NodeInt n) (NodeAp p)], capacity = 8\<rparr>\<rparr>) \<and>
   \<not> spec_validate_semantics (spec_new\<lparr>guarantee :=
     \<lparr>items = [node_x_strong (NodeAp p)], capacity = 8\<rparr>\<rparr>)"
  by (simp add: spec_validate_semantics_def formula_list_has_strong_next_def spec_new_def
      empty_growable_def semantics_is_finite_def)

lemma ltlxba_formula_ok_iff: "ground n \<Longrightarrow> ltlxba_formula_ok n \<longleftrightarrow> (\<forall>p\<in>atoms n. ltlxba_atom_ok p)"
  by (induction n rule: ground_induct) auto

definition spec_atoms :: "tlsf_spec \<Rightarrow> ap set" where
  "spec_atoms s = (\<Union>fs\<in>set (sections s). \<Union>f\<in>set fs. atoms f)"

text \<open>
  \<^verbatim>\<open>spec_validate_ltlxba_atoms\<close> accepts an expanded specification exactly when neither a
  declared signal nor an atom of a formula contains an apostrophe or an at sign.
\<close>

theorem spec_validate_ltlxba_atoms_correct:
  assumes "spec_ground s"
  shows "spec_validate_ltlxba_atoms s \<longleftrightarrow>
    (\<forall>p \<in> sd_name ` set (items (inputs s)) \<union> sd_name ` set (items (outputs s)) \<union> spec_atoms s.
       CHR 0x27 \<notin> set p \<and> CHR 0x40 \<notin> set p)"
proof -
  have atom: "ltlxba_atom_ok p \<longleftrightarrow> CHR 0x27 \<notin> set p \<and> CHR 0x40 \<notin> set p" for p
    by (auto simp: ltlxba_atom_ok_def list_all_iff)
  have "list_all (list_all ltlxba_formula_ok) (sections s) \<longleftrightarrow> (\<forall>p\<in>spec_atoms s. ltlxba_atom_ok p)"
    using assms by (fastforce simp: spec_ground_def list_all_iff spec_atoms_def ltlxba_formula_ok_iff)
  then show ?thesis
    by (auto simp: spec_validate_ltlxba_atoms_def atom list_all_iff)
qed

theorem spec_validate_ltlxba_atoms_correct_witness:
  "\<not> spec_validate_ltlxba_atoms (spec_new\<lparr>preset :=
     \<lparr>items = [node_or NodeTrue (NodeAp [CHR ''p'', CHR 0x27])], capacity = 8\<rparr>\<rparr>)"
  using spec_validate_ltlxba_atoms_correct [of "spec_new\<lparr>preset :=
     \<lparr>items = [node_or NodeTrue (NodeAp [CHR ''p'', CHR 0x27])], capacity = 8\<rparr>\<rparr>"]
  by (simp add: spec_ground_def sections_def spec_new_def empty_growable_def spec_atoms_def)

text \<open>
  A lowercase export is accepted exactly when lowering the case is injective on the scalar
  signals and the atoms of the formulas together; the computation always ends, whatever the
  addresses of the interned names, for an alphabet of less than 2 to the 30 occurrences.
\<close>

theorem spec_validate_lowercase_correct:
  assumes "length (alphabet_list s) \<le> 2 ^ 30"
  shows "spec_validate_lowercase_signals addr s =
    Some (inj_on (map tolower) (set (alphabet_list s)))"
  using validate_lowercase_names [OF assms, of addr] no_clash_iff by fastforce

theorem spec_validate_lowercase_correct_witness:
  "spec_validate_lowercase_signals (\<lambda>_. 5) (spec_new\<lparr>guarantee :=
     \<lparr>items = [node_u (NodeAp ''Req'') (NodeAp ''req'')], capacity = 8\<rparr>\<rparr>) = Some False"
proof -
  let ?s = "spec_new\<lparr>guarantee := \<lparr>items = [node_u (NodeAp ''Req'') (NodeAp ''req'')], capacity = 8\<rparr>\<rparr>"
  have a: "alphabet_list ?s = [''Req'', ''req'']"
    by (simp add: alphabet_list_def sections_def spec_new_def empty_growable_def)
  have "tolower (CHR ''R'') = tolower (CHR ''r'')" by code_simp
  then have "\<not> inj_on (map tolower) (set (alphabet_list ?s))"
    unfolding a by (simp add: inj_on_def)
  with spec_validate_lowercase_correct [of ?s "\<lambda>_. 5"] a show ?thesis by simp
qed

end
