(* ===== verification/Classify.thy ===== *)
theory Classify
  imports Spec
begin

text \<open>
  Safety and liveness classification, \<^verbatim>\<open>src/lib/classify.c\<close>.  The classifier is syntactic: no
  \<open>F\<close>, \<open>U\<close>, \<open>M\<close> in the normal form.  What it is worth is stated below against the topological
  notion: over infinite words, a formula classified as safety has a bad prefix on every word
  that violates it.
\<close>

datatype formula_class = FCLASS_SAFETY | FCLASS_LIVENESS

text \<open>\<^const>\<open>None\<close> is the failed assertion on a high-level node.\<close>

fun has_liveness :: "node \<Rightarrow> bool option" where
  "has_liveness (Unary k a) =
     (case k of NODE_F \<Rightarrow> Some True
      | NODE_X \<Rightarrow> has_liveness a
      | NODE_X_STRONG \<Rightarrow> has_liveness a
      | NODE_G \<Rightarrow> has_liveness a
      | NODE_NOT \<Rightarrow> has_liveness a)"
| "has_liveness (Binary k a b) =
     (if k = NODE_U \<or> k = NODE_M then Some True
      else do { l \<leftarrow> has_liveness a; if l then Some True else has_liveness b })"
| "has_liveness NodeTrue = Some False"
| "has_liveness NodeFalse = Some False"
| "has_liveness (NodeAp p) = Some False"
| "has_liveness (NodeInt v) = Some False"
| "has_liveness _ = None"

definition classify_formula :: "node \<Rightarrow> formula_class option" where
  "classify_formula n =
     do { l \<leftarrow> has_liveness n; Some (if l then FCLASS_LIVENESS else FCLASS_SAFETY) }"

record classified_formula =
  cf_formula :: node
  cls :: formula_class

record classified_spec =
  cs_guarantees :: "classified_formula list"
  cs_asserts :: "classified_formula list"
  cs_initially :: "node list"
  cs_preset :: "node list"
  cs_require :: "node list"
  cs_assume :: "node list"

fun fill_classified :: "node list \<Rightarrow> classified_formula list option" where
  "fill_classified [] = Some []"
| "fill_classified (f # fs) =
     do { c \<leftarrow> classify_formula f;
          rest \<leftarrow> fill_classified fs;
          Some (\<lparr>cf_formula = f, cls = c\<rparr> # rest) }"

definition classify_spec :: "tlsf_spec \<Rightarrow> classified_spec option" where
  "classify_spec s =
     do { gs \<leftarrow> fill_classified (items (guarantee s));
          as \<leftarrow> fill_classified (items (assert_list s));
          Some \<lparr>cs_guarantees = gs, cs_asserts = as, cs_initially = items (initially s),
                cs_preset = items (preset s), cs_require = items (require s),
                cs_assume = items (assume_list s)\<rparr> }"

subsection \<open>Syntax\<close>

lemma has_liveness_ops:
  "ground n \<Longrightarrow>
   has_liveness n = Some (Inl NODE_F \<in> ops n \<or> Inr NODE_U \<in> ops n \<or> Inr NODE_M \<in> ops n)"
proof (induction n rule: ground_induct)
  case (Un k a)
  then show ?case by (cases k) auto
next
  case (Bin k a b)
  then show ?case by (cases k) auto
qed simp_all

lemma classify_formula_total: "ground n \<Longrightarrow> \<exists>c. classify_formula n = Some c"
  by (simp add: classify_formula_def has_liveness_ops)

lemma fill_classified_total:
  "list_all ground fs \<Longrightarrow> \<exists>cs. fill_classified fs = Some cs \<and> map cf_formula cs = fs \<and>
     list_all (\<lambda>c. classify_formula (cf_formula c) = Some (cls c)) cs"
proof (induction fs)
  case (Cons f fs)
  then obtain cs where "fill_classified fs = Some cs" "map cf_formula cs = fs"
    "list_all (\<lambda>c. classify_formula (cf_formula c) = Some (cls c)) cs" by auto
  with Cons.prems classify_formula_total [of f] show ?case by auto
qed simp

subsection \<open>Bad prefixes\<close>

definition agree :: "nat \<Rightarrow> trace \<Rightarrow> trace \<Rightarrow> bool" where
  "agree k v w \<longleftrightarrow> (\<forall>j<k. v j = w j)"

text \<open>A property of positions of words that is refuted by a finite prefix wherever it fails.\<close>

definition refutable :: "(trace \<Rightarrow> nat \<Rightarrow> bool) \<Rightarrow> bool" where
  "refutable P \<longleftrightarrow> (\<forall>w i. \<not> P w i \<longrightarrow> (\<exists>k. \<forall>v. agree k v w \<longrightarrow> \<not> P v i))"

lemma refutableI:
  "(\<And>w i. \<not> P w i \<Longrightarrow> \<exists>k. \<forall>v. agree k v w \<longrightarrow> \<not> P v i) \<Longrightarrow> refutable P"
  by (simp add: refutable_def)

lemma refutableD: "refutable P \<Longrightarrow> \<not> P w i \<Longrightarrow> \<exists>k. \<forall>v. agree k v w \<longrightarrow> \<not> P v i"
  by (simp add: refutable_def)

lemma agree_mono: "agree k v w \<Longrightarrow> k' \<le> k \<Longrightarrow> agree k' v w"
  by (simp add: agree_def)

text \<open>Finitely many failures have a common bad prefix.\<close>

lemma refutable_interval:
  assumes "refutable P" and "\<And>l. l < n \<Longrightarrow> \<not> P w (i + l)"
  shows "\<exists>k. \<forall>v. agree k v w \<longrightarrow> (\<forall>l<n. \<not> P v (i + l))"
  using assms(2)
proof (induction n)
  case 0
  then show ?case by simp
next
  case (Suc n)
  then obtain k where k: "\<forall>v. agree k v w \<longrightarrow> (\<forall>l<n. \<not> P v (i + l))" by auto
  obtain k' where k': "\<forall>v. agree k' v w \<longrightarrow> \<not> P v (i + n)"
    using refutableD [OF assms(1) Suc.prems [of n]] by auto
  show ?case
  proof (intro exI [of _ "max k k'"] allI impI)
    fix v l assume "agree (max k k') v w" "l < Suc n"
    then show "\<not> P v (i + l)"
      using k k' agree_mono [of "max k k'" v w k] agree_mono [of "max k k'" v w k']
      by (auto simp: less_Suc_eq)
  qed
qed

lemma refutable_letter: "refutable (\<lambda>w i. Q (w i))"
proof (rule refutableI)
  fix w :: trace and i assume "\<not> Q (w i)"
  then show "\<exists>k. \<forall>v. agree k v w \<longrightarrow> \<not> Q (v i)"
    by (intro exI [of _ "Suc i"]) (auto simp: agree_def)
qed

lemma refutable_conj:
  "refutable P \<Longrightarrow> refutable Q \<Longrightarrow> refutable (\<lambda>w i. P w i \<and> Q w i)"
  unfolding refutable_def by blast

lemma refutable_disj:
  assumes "refutable P" "refutable Q"
  shows "refutable (\<lambda>w i. P w i \<or> Q w i)"
proof (rule refutableI)
  fix w i assume "\<not> (P w i \<or> Q w i)"
  with assms obtain k k' where "\<forall>v. agree k v w \<longrightarrow> \<not> P v i" "\<forall>v. agree k' v w \<longrightarrow> \<not> Q v i"
    unfolding refutable_def by blast
  then show "\<exists>k. \<forall>v. agree k v w \<longrightarrow> \<not> (P v i \<or> Q v i)"
    by (intro exI [of _ "max k k'"])
       (meson agree_mono max.cobounded1 max.cobounded2)
qed

lemma refutable_next: "refutable P \<Longrightarrow> refutable (\<lambda>w. next_weak \<infinity> (P w))"
  by (auto simp: refutable_def next_weak_def)

lemma refutable_alw: "refutable P \<Longrightarrow> refutable (\<lambda>w. alw \<infinity> (P w))"
  unfolding refutable_def alw_def by (metis enat_ord_code(4))

text \<open>A violated \<open>W\<close> has a position by which both sides have failed throughout.\<close>

lemma refutable_weak_until:
  assumes P: "refutable P" and Q: "refutable Q"
  shows "refutable (\<lambda>w. weak_until \<infinity> (P w) (Q w))"
proof (rule refutableI)
  fix w i assume "\<not> weak_until \<infinity> (P w) (Q w) i"
  then obtain j where j: "i \<le> j" "\<not> P w j" "\<And>l. i \<le> l \<Longrightarrow> l \<le> j \<Longrightarrow> \<not> Q w l"
    by (auto simp: not_weak_until strong_release_def)
  obtain k where k: "\<forall>v. agree k v w \<longrightarrow> \<not> P v j" using refutableD [OF P j(2)] by blast
  have "\<not> Q w (i + l)" if "l < Suc (j - i)" for l using that j(1) by (intro j(3)) auto
  from refutable_interval [OF Q this] obtain k'
    where k': "\<forall>v. agree k' v w \<longrightarrow> (\<forall>l<Suc (j - i). \<not> Q v (i + l))" by auto
  show "\<exists>k. \<forall>v. agree k v w \<longrightarrow> \<not> weak_until \<infinity> (P v) (Q v) i"
  proof (intro exI [of _ "max k k'"] allI impI)
    fix v assume v: "agree (max k k') v w"
    have "\<not> Q v l" if l: "i \<le> l" "l \<le> j" for l
    proof -
      have "\<not> Q v (i + (l - i))"
        using k' [rule_format, of v "l - i"] agree_mono [OF v, of k'] l by simp
      then show ?thesis using l by simp
    qed
    then show "\<not> weak_until \<infinity> (P v) (Q v) i"
      using k agree_mono [OF v, of k] j(1) unfolding not_weak_until strong_release_def by auto
  qed
qed

lemma refutable_release:
  assumes "refutable P" and "refutable Q"
  shows "refutable (\<lambda>w. release \<infinity> (P w) (Q w))"
proof -
  have "(\<lambda>w. release \<infinity> (P w) (Q w)) = (\<lambda>w. weak_until \<infinity> (Q w) (\<lambda>j. P w j \<and> Q w j))"
    by (intro ext) (rule release_weak_until)
  with refutable_weak_until [OF assms(2) refutable_conj [OF assms]] show ?thesis by simp
qed

lemma safety_refutable:
  "is_nnf n \<Longrightarrow> has_liveness n = Some False \<Longrightarrow> refutable (\<lambda>w. sat \<infinity> w n)"
proof (induction n)
  case (NodeAp p)
  then show ?case using refutable_letter [of "\<lambda>l. p \<in> l"] by simp
next
  case (Unary k a)
  show ?case
  proof (cases "k = NODE_NOT")
    case True
    with Unary.prems obtain p where "a = NodeAp p" by (auto simp: is_nnf_Unary)
    with True show ?thesis using refutable_letter [of "\<lambda>l. p \<notin> l"] by simp
  next
    case False
    with Unary have "refutable (\<lambda>w. sat \<infinity> w a)" "k \<noteq> NODE_F"
      by (auto simp: is_nnf_Unary split: un_kind.splits)
    with False show ?thesis
      by (cases k) (simp_all add: refutable_next refutable_alw next_strong_inf [abs_def])
  qed
next
  case (Binary k a b)
  then have k: "bin_mono k" "k \<noteq> NODE_U" "k \<noteq> NODE_M"
    and "refutable (\<lambda>w. sat \<infinity> w a)" "refutable (\<lambda>w. sat \<infinity> w b)"
    by (auto split: if_splits)
  then show ?case
    by (cases k)
       (simp_all add: refutable_conj refutable_disj refutable_weak_until refutable_release)
qed (simp_all add: refutable_def)

subsection \<open>Properties\<close>

text \<open>
  C31. The classifier is total on expanded formulas, and sound for safety: if the negation
  normal form of a formula is classified as safety, every infinite word that violates the
  formula has a finite prefix all of whose continuations violate it.
\<close>

theorem classify_safety_bad_prefix:
  assumes "ground f" and "to_nnf f True False = Some n" and "classify_formula n = Some FCLASS_SAFETY"
    and "\<not> sat \<infinity> w f i"
  shows "\<exists>k. \<forall>v. agree k v w \<longrightarrow> \<not> sat \<infinity> v f i"
proof -
  have eq: "sat \<infinity> v n j = sat \<infinity> v f j" for v j
    using to_nnf_sem_eq [OF assms(2), of \<infinity>] by (simp add: sem_eq_def)
  have "has_liveness n = Some False"
    using assms(3) by (auto simp: classify_formula_def split: if_splits)
  from safety_refutable [OF to_nnf_is_nnf [OF assms(2)] this] assms(4)
  show ?thesis unfolding refutable_def eq by blast
qed

theorem classify_safety_bad_prefix_witness:
  "\<exists>k. \<forall>v. agree k v (\<lambda>_. {}) \<longrightarrow> \<not> sat \<infinity> v (node_not (node_f (node_not (NodeAp ''p'')))) 0"
  by (rule classify_safety_bad_prefix [where n = "node_g (NodeAp ''p'')"])
     (auto simp: classify_formula_def ev_def intro!: exI [of _ "0::nat"])

text \<open>
  Classifying a specification succeeds on every expanded one; it keeps all six sections in
  their order and tags every guarantee and every assert with its own class.
\<close>

theorem classify_spec_correct:
  assumes "spec_ground s"
  shows "\<exists>cs. classify_spec s = Some cs \<and>
    map cf_formula (cs_guarantees cs) = items (guarantee s) \<and>
    map cf_formula (cs_asserts cs) = items (assert_list s) \<and>
    list_all (\<lambda>c. classify_formula (cf_formula c) = Some (cls c)) (cs_guarantees cs @ cs_asserts cs) \<and>
    [cs_initially cs, cs_require cs, cs_assume cs, cs_preset cs] =
      [items (initially s), items (require s), items (assume_list s), items (preset s)]"
proof -
  obtain gs where gs: "fill_classified (items (guarantee s)) = Some gs"
    "map cf_formula gs = items (guarantee s)"
    "list_all (\<lambda>c. classify_formula (cf_formula c) = Some (cls c)) gs"
    using fill_classified_total [of "items (guarantee s)"] assms
    by (auto simp: spec_ground_def sections_def)
  obtain as where "fill_classified (items (assert_list s)) = Some as"
    "map cf_formula as = items (assert_list s)"
    "list_all (\<lambda>c. classify_formula (cf_formula c) = Some (cls c)) as"
    using fill_classified_total [of "items (assert_list s)"] assms
    by (auto simp: spec_ground_def sections_def)
  with gs show ?thesis by (auto simp: classify_spec_def)
qed

theorem classify_spec_correct_witness:
  "\<exists>cs. classify_spec (spec_new\<lparr>guarantee :=
      \<lparr>items = [node_g (NodeAp ''g''), node_f (NodeAp ''g'')], capacity = 8\<rparr>\<rparr>) = Some cs \<and>
    map cls (cs_guarantees cs) = [FCLASS_SAFETY, FCLASS_LIVENESS]"
proof -
  let ?s = "spec_new\<lparr>guarantee :=
      \<lparr>items = [node_g (NodeAp ''g''), node_f (NodeAp ''g'')], capacity = 8\<rparr>\<rparr>"
  have "spec_ground ?s" by (simp add: spec_ground_def sections_def spec_new_def empty_growable_def)
  from classify_spec_correct [OF this] show ?thesis
    by (auto simp: map_eq_Cons_conv classify_formula_def)
qed

end
