(* ===== verification/Section_Pattern.thy ===== *)
theory Section_Pattern
  imports Classify
begin

text \<open>
  The section-preserving view of a specification and its lowering to one LTL formula,
  \<^verbatim>\<open>src/lib/section_pattern.c\<close>.  The abstract contract is the documented meaning of a TLSF
  specification, with implication or strict implication; the lowering implements it.
\<close>

subsection \<open>Roles\<close>

datatype role =
    TLSF_ROLE_INITIALLY | TLSF_ROLE_PRESET | TLSF_ROLE_REQUIRE
  | TLSF_ROLE_ASSERT | TLSF_ROLE_ASSUME | TLSF_ROLE_GUARANTEE

primrec role_code :: "role \<Rightarrow> nat" where
  "role_code TLSF_ROLE_INITIALLY = 0"
| "role_code TLSF_ROLE_PRESET = 1"
| "role_code TLSF_ROLE_REQUIRE = 2"
| "role_code TLSF_ROLE_ASSERT = 3"
| "role_code TLSF_ROLE_ASSUME = 4"
| "role_code TLSF_ROLE_GUARANTEE = 5"

lemma role_code_inj: "role_code r = role_code r' \<longleftrightarrow> r = r'"
  by (cases r; cases r') simp_all

text \<open>Roles are compared as enumerators by the loops of the C code.\<close>

instantiation role :: linorder
begin

definition less_eq_role :: "role \<Rightarrow> role \<Rightarrow> bool" where
  "r \<le> r' \<longleftrightarrow> role_code r \<le> role_code r'"

definition less_role :: "role \<Rightarrow> role \<Rightarrow> bool" where
  "r < r' \<longleftrightarrow> role_code r < role_code r'"

instance
  by standard (auto simp: less_eq_role_def less_role_def role_code_inj [symmetric])

end

subsection \<open>The view\<close>

record section_entry =
  entry_role :: role
  entry_formula :: node
  entry_cls :: formula_class

record section_view =
  view_semantics :: semantics
  entries :: "section_entry list"
  view_cap :: nat

definition section_pattern_init :: "semantics \<Rightarrow> section_view" where
  "section_pattern_init sem = \<lparr>view_semantics = sem, entries = [], view_cap = 0\<rparr>"

definition section_pattern_add ::
  "section_view \<Rightarrow> role \<Rightarrow> node \<Rightarrow> formula_class \<Rightarrow> section_view option" where
  "section_pattern_add v r f c =
     (if length (entries v) = view_cap v \<and> view_cap v > (2 ^ 32 - 1) div 2 then None
      else Some (v\<lparr>view_cap := (if length (entries v) = view_cap v
                               then if view_cap v \<noteq> 0 then view_cap v * 2 else 16
                               else view_cap v),
                  entries := entries v @ [\<lparr>entry_role = r, entry_formula = f, entry_cls = c\<rparr>]\<rparr>))"

definition section_pattern_add_classified ::
  "section_view \<Rightarrow> role \<Rightarrow> node \<Rightarrow> section_view option" where
  "section_pattern_add_classified v r f =
     (if r = TLSF_ROLE_ASSERT \<or> r = TLSF_ROLE_GUARANTEE
      then do { nnf \<leftarrow> to_nnf f True (semantics_is_finite (view_semantics v));
                c \<leftarrow> classify_formula nnf;
                section_pattern_add v r f c }
      else section_pattern_add v r f FCLASS_SAFETY)"

fun add_entries :: "section_view \<Rightarrow> (role \<times> node \<times> formula_class) list \<Rightarrow> section_view option" where
  "add_entries v [] = Some v"
| "add_entries v ((r, f, c) # es) = do { v' \<leftarrow> section_pattern_add v r f c; add_entries v' es }"

definition section_pattern_from_classified ::
  "tlsf_spec \<Rightarrow> classified_spec \<Rightarrow> section_view option" where
  "section_pattern_from_classified s cs =
     add_entries (section_pattern_init (spec_semantics s))
       (map (\<lambda>f. (TLSF_ROLE_INITIALLY, f, FCLASS_SAFETY)) (cs_initially cs) @
        map (\<lambda>f. (TLSF_ROLE_PRESET, f, FCLASS_SAFETY)) (cs_preset cs) @
        map (\<lambda>f. (TLSF_ROLE_REQUIRE, f, FCLASS_SAFETY)) (cs_require cs) @
        map (\<lambda>f. (TLSF_ROLE_ASSUME, f, FCLASS_LIVENESS)) (cs_assume cs) @
        map (\<lambda>c. (TLSF_ROLE_ASSERT, cf_formula c, cls c)) (cs_asserts cs) @
        map (\<lambda>c. (TLSF_ROLE_GUARANTEE, cf_formula c, cls c)) (cs_guarantees cs))"

subsection \<open>Lowering\<close>

text \<open>A null pointer stands for the empty conjunction.\<close>

fun and_opt :: "node option \<Rightarrow> node option \<Rightarrow> node option" where
  "and_opt None y = y"
| "and_opt (Some x) None = Some x"
| "and_opt (Some x) (Some y) = Some (node_and x y)"

definition entry_selected :: "role \<Rightarrow> bool \<Rightarrow> bool \<Rightarrow> bool \<Rightarrow> section_entry \<Rightarrow> bool" where
  "entry_selected r use_class safety liveness e \<longleftrightarrow>
     entry_role e = r \<and>
     (use_class \<longrightarrow> (entry_cls e = FCLASS_SAFETY \<and> safety) \<or> (entry_cls e = FCLASS_LIVENESS \<and> liveness))"

definition conj_entries :: "section_view \<Rightarrow> role \<Rightarrow> bool \<Rightarrow> bool \<Rightarrow> bool \<Rightarrow> node option" where
  "conj_entries v r use_class safety liveness =
     foldl (\<lambda>acc e. if entry_selected r use_class safety liveness e
                    then and_opt acc (Some (entry_formula e)) else acc) None (entries v)"

definition section_pattern_conj :: "section_view \<Rightarrow> role \<Rightarrow> node option" where
  "section_pattern_conj v r = conj_entries v r False True True"

definition section_pattern_role_empty :: "section_view \<Rightarrow> role \<Rightarrow> bool" where
  "section_pattern_role_empty v r \<longleftrightarrow> \<not> list_ex (\<lambda>e. entry_role e = r) (entries v)"

definition g_conj :: "node option \<Rightarrow> node option" where
  "g_conj x = map_option node_g x"

definition section_pattern_to_ltl :: "section_view \<Rightarrow> bool \<Rightarrow> bool \<Rightarrow> node" where
  "section_pattern_to_ltl v want_safety want_liveness =
     (let strict = semantics_is_strict (view_semantics v);
          e_init = section_pattern_conj v TLSF_ROLE_INITIALLY;
          req_raw = section_pattern_conj v TLSF_ROLE_REQUIRE;
          a_live = section_pattern_conj v TLSF_ROLE_ASSUME;
          s_pre = section_pattern_conj v TLSF_ROLE_PRESET;
          g_gua = conj_entries v TLSF_ROLE_GUARANTEE True want_safety want_liveness;
          assert_raw = (if want_safety then section_pattern_conj v TLSF_ROLE_ASSERT else None);
          e_req = g_conj req_raw
      in if strict then
        let safety_part = (case assert_raw of None \<Rightarrow> None
              | Some asrt \<Rightarrow> Some (case req_raw of Some req \<Rightarrow> node_w asrt (node_not req)
                                            | None \<Rightarrow> node_g asrt));
            env = and_opt e_req a_live;
            gua_part = (case g_gua of None \<Rightarrow> None
              | Some gua \<Rightarrow> Some (case env of Some e \<Rightarrow> node_impl e gua | None \<Rightarrow> gua));
            sys_safety = and_opt (if want_safety then s_pre else None) safety_part;
            body = and_opt sys_safety gua_part
        in case body of None \<Rightarrow> NodeTrue
           | Some b \<Rightarrow> (case e_init of Some e \<Rightarrow> node_impl e b | None \<Rightarrow> b)
      else
        let env = and_opt e_req a_live;
            g_assert = g_conj assert_raw;
            sys = and_opt g_assert g_gua;
            inner = (case sys of None \<Rightarrow> None
              | Some x \<Rightarrow> Some (case env of Some e \<Rightarrow> node_impl e x | None \<Rightarrow> x));
            body = and_opt (if want_safety then s_pre else None) inner
        in case e_init of
             Some e \<Rightarrow> (case body of Some b \<Rightarrow> node_impl e b | None \<Rightarrow> NodeTrue)
           | None \<Rightarrow> (case body of Some b \<Rightarrow> b | None \<Rightarrow> NodeTrue))"

subsection \<open>The contract: what a specification means\<close>

definition all_hold :: "enat \<Rightarrow> trace \<Rightarrow> nat \<Rightarrow> node list \<Rightarrow> bool" where
  "all_hold L w i fs \<longleftrightarrow> (\<forall>f\<in>set fs. sat L w f i)"

text \<open>
  \<open>tlsf_meaning strict init req assm pre asrt guar\<close>: from INITIALLY, PRESET holds and, given \<open>G\<close>
  REQUIRE and ASSUME, so do \<open>G\<close> ASSERT and GUARANTEE; with strict implication ASSERT has to hold
  until REQUIRE is violated, whatever ASSUME says.
\<close>

definition tlsf_meaning ::
  "bool \<Rightarrow> enat \<Rightarrow> trace \<Rightarrow> nat \<Rightarrow> node list \<Rightarrow> node list \<Rightarrow> node list \<Rightarrow> node list \<Rightarrow> node list \<Rightarrow>
   node list \<Rightarrow> bool" where
  "tlsf_meaning strict L w i init req assm pre asrt guar \<longleftrightarrow>
     (all_hold L w i init \<longrightarrow>
        all_hold L w i pre \<and>
        (let env = alw L (\<lambda>j. all_hold L w j req) i \<and> all_hold L w i assm in
         if strict
         then weak_until L (\<lambda>j. all_hold L w j asrt) (\<lambda>j. \<not> all_hold L w j req) i \<and>
              (env \<longrightarrow> all_hold L w i guar)
         else env \<longrightarrow> alw L (\<lambda>j. all_hold L w j asrt) i \<and> all_hold L w i guar))"

definition role_formulas :: "section_view \<Rightarrow> role \<Rightarrow> node list" where
  "role_formulas v r = map entry_formula (filter (\<lambda>e. entry_role e = r) (entries v))"

definition class_formulas :: "section_view \<Rightarrow> role \<Rightarrow> bool \<Rightarrow> bool \<Rightarrow> node list" where
  "class_formulas v r safety liveness =
     map entry_formula (filter (entry_selected r True safety liveness) (entries v))"

subsection \<open>Conjunctions\<close>

text \<open>The truth value of an optional conjunction.\<close>

definition osat :: "enat \<Rightarrow> trace \<Rightarrow> nat \<Rightarrow> node option \<Rightarrow> bool" where
  "osat L w i x \<longleftrightarrow> (case x of None \<Rightarrow> True | Some n \<Rightarrow> sat L w n i)"

lemma osat_simps [simp]: "osat L w i None" "osat L w i (Some n) = sat L w n i"
  by (simp_all add: osat_def)

lemma osat_and_opt [simp]: "osat L w i (and_opt x y) \<longleftrightarrow> osat L w i x \<and> osat L w i y"
  by (cases x; cases y) simp_all

definition oground :: "node option \<Rightarrow> bool" where
  "oground x \<longleftrightarrow> (case x of None \<Rightarrow> True | Some n \<Rightarrow> ground n)"

lemma oground_simps [simp]: "oground None" "oground (Some n) = ground n"
  by (simp_all add: oground_def)

lemma oground_and_opt [simp]: "oground x \<Longrightarrow> oground y \<Longrightarrow> oground (and_opt x y)"
  by (cases x; cases y) simp_all

lemma and_opt_Some_not_None [simp]: "and_opt x (Some y) \<noteq> None"
  by (cases x) simp_all

lemma and_opt_None_iff: "and_opt x y = None \<longleftrightarrow> x = None \<and> y = None"
  by (cases x; cases y) simp_all

lemma foldl_and_opt:
  "osat L w i (foldl (\<lambda>acc e. if P e then and_opt acc (Some (g e)) else acc) acc es) \<longleftrightarrow>
     osat L w i acc \<and> (\<forall>e\<in>set es. P e \<longrightarrow> sat L w (g e) i)"
  by (induction es arbitrary: acc) auto

lemma foldl_and_opt_None:
  "foldl (\<lambda>acc e. if P e then and_opt acc (Some (g e)) else acc) acc es = None \<longleftrightarrow>
     acc = None \<and> (\<forall>e\<in>set es. \<not> P e)"
  by (induction es arbitrary: acc) auto

lemma osat_conj_entries:
  "osat L w i (conj_entries v r True a b) = all_hold L w i (class_formulas v r a b)"
  by (auto simp: conj_entries_def foldl_and_opt all_hold_def class_formulas_def)

lemma osat_section_conj [simp]:
  "osat L w i (section_pattern_conj v r) = all_hold L w i (role_formulas v r)"
  by (auto simp: section_pattern_conj_def conj_entries_def foldl_and_opt all_hold_def
      role_formulas_def entry_selected_def)

lemma section_conj_None: "section_pattern_conj v r = None \<longleftrightarrow> role_formulas v r = []"
  by (simp add: section_pattern_conj_def conj_entries_def foldl_and_opt_None role_formulas_def
      filter_empty_conv entry_selected_def)

text \<open>An optional conjunction under an operator.\<close>

lemma sat_of_osat: "x = Some n \<Longrightarrow> sat L w n = (\<lambda>j. osat L w j x)"
  by simp

lemma osat_g_conj [simp]:
  "enat i < L \<Longrightarrow> osat L w i (g_conj x) = alw L (\<lambda>j. osat L w j x) i"
  by (cases x) (simp_all add: g_conj_def alw_def)

lemma section_pattern_to_ltl_sat:
  assumes i: "enat i < L"
  shows "sat L w (section_pattern_to_ltl v want_safety want_liveness) i \<longleftrightarrow>
     tlsf_meaning (semantics_is_strict (view_semantics v)) L w i
       (role_formulas v TLSF_ROLE_INITIALLY) (role_formulas v TLSF_ROLE_REQUIRE)
       (role_formulas v TLSF_ROLE_ASSUME)
       (if want_safety then role_formulas v TLSF_ROLE_PRESET else [])
       (if want_safety then role_formulas v TLSF_ROLE_ASSERT else [])
       (class_formulas v TLSF_ROLE_GUARANTEE want_safety want_liveness)"
proof -
  let ?o = "osat L w"
  have impl: "?o i (case x of None \<Rightarrow> None | Some n \<Rightarrow> Some (case e of Some e \<Rightarrow> node_impl e n | None \<Rightarrow> n))
      = (?o i e \<longrightarrow> ?o i x)" for x e
    by (cases x; cases e) simp_all
  have top1: "sat L w (case x of None \<Rightarrow> NodeTrue | Some b \<Rightarrow> (case e of Some e \<Rightarrow> node_impl e b | None \<Rightarrow> b)) i
      = (?o i e \<longrightarrow> ?o i x)" for x e
    by (cases x; cases e) simp_all
  have top2: "sat L w (case e of Some e \<Rightarrow> (case x of Some b \<Rightarrow> node_impl e b | None \<Rightarrow> NodeTrue)
        | None \<Rightarrow> (case x of Some b \<Rightarrow> b | None \<Rightarrow> NodeTrue)) i = (?o i e \<longrightarrow> ?o i x)" for x e
    by (cases x; cases e) simp_all
  have wu: "?o i (case x of None \<Rightarrow> None | Some a \<Rightarrow> Some (case r of Some req \<Rightarrow> node_w a (node_not req)
        | None \<Rightarrow> node_g a)) = weak_until L (\<lambda>j. ?o j x) (\<lambda>j. \<not> ?o j r) i" for x r
    using i by (cases x; cases r) (auto simp: weak_until_def alw_def until_def)
  have iff: "?o j (if c then x else None) = (c \<longrightarrow> ?o j x)" for c x j by simp
  have nil: "all_hold L w j (if c then xs else []) = (c \<longrightarrow> all_hold L w j xs)" for c xs j
    by (cases c) (simp_all add: all_hold_def)
  show ?thesis
    unfolding section_pattern_to_ltl_def tlsf_meaning_def Let_def
    by (cases "semantics_is_strict (view_semantics v)")
       (simp_all only: if_True if_False top1 top2 impl wu osat_and_opt osat_g_conj [OF i] iff nil
          osat_section_conj osat_conj_entries, auto)
qed

lemma section_pattern_to_ltl_ground:
  assumes "list_all (\<lambda>e. ground (entry_formula e)) (entries v)"
  shows "ground (section_pattern_to_ltl v want_safety want_liveness)"
proof -
  have "oground (foldl (\<lambda>acc e. if P e then and_opt acc (Some (entry_formula e)) else acc) acc es)"
    if "oground acc" "list_all (\<lambda>e. ground (entry_formula e)) es" for P acc es
    using that by (induction es arbitrary: acc) auto
  from this [OF _ assms] have c: "oground (conj_entries v r u a b)" for r u a b
    by (simp add: conj_entries_def)
  then have s: "oground (section_pattern_conj v r)" for r by (simp add: section_pattern_conj_def)
  have g: "oground x \<Longrightarrow> oground (g_conj x)" for x by (cases x) (simp_all add: g_conj_def)
  have impl: "oground x \<Longrightarrow> oground e \<Longrightarrow> oground (case x of None \<Rightarrow> None
      | Some n \<Rightarrow> Some (case e of Some e \<Rightarrow> node_impl e n | None \<Rightarrow> n))" for x e
    by (cases x; cases e) simp_all
  have top1: "oground x \<Longrightarrow> oground e \<Longrightarrow> ground (case x of None \<Rightarrow> NodeTrue
      | Some b \<Rightarrow> (case e of Some e \<Rightarrow> node_impl e b | None \<Rightarrow> b))" for x e
    by (cases x; cases e) simp_all
  have top2: "oground x \<Longrightarrow> oground e \<Longrightarrow> ground (case e of
        Some e \<Rightarrow> (case x of Some b \<Rightarrow> node_impl e b | None \<Rightarrow> NodeTrue)
      | None \<Rightarrow> (case x of Some b \<Rightarrow> b | None \<Rightarrow> NodeTrue))" for x e
    by (cases x; cases e) simp_all
  have wu: "oground x \<Longrightarrow> oground r \<Longrightarrow> oground (case x of None \<Rightarrow> None | Some a \<Rightarrow>
      Some (case r of Some req \<Rightarrow> node_w a (node_not req) | None \<Rightarrow> node_g a))" for x r
    by (cases x; cases r) simp_all
  have iff: "oground x \<Longrightarrow> oground (if b then x else None)" for x b by simp
  show ?thesis
    unfolding section_pattern_to_ltl_def Let_def
    by (cases "semantics_is_strict (view_semantics v)")
       (simp_all only: if_True if_False, intro top1 top2 impl wu iff oground_and_opt g s c,
        intro top1 top2 impl wu iff oground_and_opt g s c)
qed

subsection \<open>Building the view\<close>

lemma section_pattern_add_ok:
  assumes "length (entries v) \<le> view_cap v" and "length (entries v) < 2 ^ 31"
  shows "\<exists>v'. section_pattern_add v r f c = Some v' \<and> length (entries v') \<le> view_cap v' \<and>
     view_semantics v' = view_semantics v \<and>
     entries v' = entries v @ [\<lparr>entry_role = r, entry_formula = f, entry_cls = c\<rparr>]"
  using assms by (auto simp: section_pattern_add_def)

lemma add_entries_ok:
  assumes "length (entries v) \<le> view_cap v" and "length (entries v) + length es \<le> 2 ^ 31"
  shows "\<exists>v'. add_entries v es = Some v' \<and> view_semantics v' = view_semantics v \<and>
     entries v' = entries v @ map (\<lambda>(r, f, c). \<lparr>entry_role = r, entry_formula = f, entry_cls = c\<rparr>) es"
  using assms
proof (induction es arbitrary: v)
  case Nil
  then show ?case by simp
next
  case (Cons e es)
  obtain r f c where e: "e = (r, f, c)" by (cases e)
  obtain v1 where v1: "section_pattern_add v r f c = Some v1" "length (entries v1) \<le> view_cap v1"
    "view_semantics v1 = view_semantics v"
    "entries v1 = entries v @ [\<lparr>entry_role = r, entry_formula = f, entry_cls = c\<rparr>]"
    using section_pattern_add_ok [OF Cons.prems(1), of r f c] Cons.prems(2) by auto
  from Cons.IH [OF v1(2)] v1 Cons.prems(2) show ?case by (auto simp: e)
qed

definition spec_size :: "tlsf_spec \<Rightarrow> nat" where
  "spec_size s = length (concat (sections s))"

text \<open>Classification, view and lowering, as the front ends compose them.\<close>

definition lower_spec :: "tlsf_spec \<Rightarrow> bool \<Rightarrow> bool \<Rightarrow> node option" where
  "lower_spec s want_safety want_liveness =
     do { cs \<leftarrow> classify_spec s;
          v \<leftarrow> section_pattern_from_classified s cs;
          Some (section_pattern_to_ltl v want_safety want_liveness) }"

lemma cls_cases: "c = FCLASS_SAFETY \<or> c = FCLASS_LIVENESS"
  by (cases c) simp_all

lemma lower_spec_view:
  assumes "spec_ground s" and "spec_size s \<le> 2 ^ 31"
  shows "\<exists>cs v. classify_spec s = Some cs \<and> section_pattern_from_classified s cs = Some v \<and>
     view_semantics v = spec_semantics s \<and>
     list_all (\<lambda>e. ground (entry_formula e)) (entries v) \<and>
     role_formulas v TLSF_ROLE_INITIALLY = items (initially s) \<and>
     role_formulas v TLSF_ROLE_REQUIRE = items (require s) \<and>
     role_formulas v TLSF_ROLE_ASSUME = items (assume_list s) \<and>
     role_formulas v TLSF_ROLE_PRESET = items (preset s) \<and>
     role_formulas v TLSF_ROLE_ASSERT = items (assert_list s) \<and>
     role_formulas v TLSF_ROLE_GUARANTEE = items (guarantee s) \<and>
     class_formulas v TLSF_ROLE_GUARANTEE True True = items (guarantee s)"
proof -
  obtain gs as where g: "fill_classified (items (guarantee s)) = Some gs" "map cf_formula gs = items (guarantee s)"
    and a: "fill_classified (items (assert_list s)) = Some as" "map cf_formula as = items (assert_list s)"
    using fill_classified_total [of "items (guarantee s)"] fill_classified_total [of "items (assert_list s)"]
      assms(1) by (auto simp: spec_ground_def sections_def)
  let ?cs = "\<lparr>cs_guarantees = gs, cs_asserts = as, cs_initially = items (initially s),
      cs_preset = items (preset s), cs_require = items (require s), cs_assume = items (assume_list s)\<rparr>"
  have cs: "classify_spec s = Some ?cs" using g(1) a(1) by (simp add: classify_spec_def)
  let ?mk = "\<lambda>(r, f, c). \<lparr>entry_role = r, entry_formula = f, entry_cls = c\<rparr>"
  let ?es = "map (\<lambda>f. (TLSF_ROLE_INITIALLY, f, FCLASS_SAFETY)) (items (initially s)) @
        map (\<lambda>f. (TLSF_ROLE_PRESET, f, FCLASS_SAFETY)) (items (preset s)) @
        map (\<lambda>f. (TLSF_ROLE_REQUIRE, f, FCLASS_SAFETY)) (items (require s)) @
        map (\<lambda>f. (TLSF_ROLE_ASSUME, f, FCLASS_LIVENESS)) (items (assume_list s)) @
        map (\<lambda>c. (TLSF_ROLE_ASSERT, cf_formula c, cls c)) as @
        map (\<lambda>c. (TLSF_ROLE_GUARANTEE, cf_formula c, cls c)) gs"
  have len: "length as = length (items (assert_list s))" "length gs = length (items (guarantee s))"
    using g(2) a(2) by (metis length_map)+
  have "length ?es \<le> 2 ^ 31" using assms(2) by (simp add: spec_size_def sections_def len)
  then obtain v where v: "section_pattern_from_classified s ?cs = Some v"
    "view_semantics v = spec_semantics s" "entries v = map ?mk ?es"
    using add_entries_ok [of "section_pattern_init (spec_semantics s)" ?es]
    by (auto simp: section_pattern_from_classified_def section_pattern_init_def)
  have "set (map entry_formula (entries v)) \<subseteq> set (concat (sections s))"
    unfolding v(3) using g(2) [symmetric] a(2) [symmetric] by (auto simp: sections_def)
  then have "list_all (\<lambda>e. ground (entry_formula e)) (entries v)"
    using assms(1) unfolding spec_ground_def list_all_iff by fastforce
  moreover have f: "role_formulas v TLSF_ROLE_INITIALLY = items (initially s)"
    "role_formulas v TLSF_ROLE_REQUIRE = items (require s)"
    "role_formulas v TLSF_ROLE_ASSUME = items (assume_list s)"
    "role_formulas v TLSF_ROLE_PRESET = items (preset s)"
    "role_formulas v TLSF_ROLE_ASSERT = items (assert_list s)"
    "role_formulas v TLSF_ROLE_GUARANTEE = items (guarantee s)"
    unfolding role_formulas_def v(3) g(2) [symmetric] a(2) [symmetric]
    by (simp_all add: filter_map comp_def)
  moreover have "class_formulas v TLSF_ROLE_GUARANTEE True True = role_formulas v TLSF_ROLE_GUARANTEE"
    unfolding class_formulas_def role_formulas_def using cls_cases
    by (auto simp: entry_selected_def intro!: arg_cong [where f = "map entry_formula"] filter_cong)
  ultimately show ?thesis using cs v(1,2) by simp
qed

subsection \<open>Properties\<close>

text \<open>
  C4. Lowering a whole specification: classification, section view and monolithic formula
  together succeed on every expanded specification (of at most 2 to the 31 formulas), give an
  expanded formula, and that formula holds exactly when the specification does: implication
  semantics, strict implication, and the same on finite words.
\<close>

theorem lower_spec_correct:
  assumes "spec_ground s" and "spec_size s \<le> 2 ^ 31" and "enat i < L"
  shows "\<exists>phi. lower_spec s True True = Some phi \<and> ground phi \<and>
    (sat L w phi i \<longleftrightarrow>
      tlsf_meaning (semantics_is_strict (spec_semantics s)) L w i (items (initially s))
        (items (require s)) (items (assume_list s)) (items (preset s)) (items (assert_list s))
        (items (guarantee s)))"
  using lower_spec_view [OF assms(1,2)] section_pattern_to_ltl_sat [OF assms(3), of w _ True True]
  by (fastforce simp: lower_spec_def section_pattern_to_ltl_ground)

theorem lower_spec_correct_witness:
  "\<exists>phi. lower_spec (spec_new\<lparr>spec_semantics := SEM_MEALY_STRICT,
       require := \<lparr>items = [NodeAp ''r''], capacity = 8\<rparr>,
       assert_list := \<lparr>items = [NodeAp ''g''], capacity = 8\<rparr>\<rparr>) True True = Some phi \<and>
     \<not> sat \<infinity> (\<lambda>i. if i = 0 then {''r''} else {}) phi 0"
proof -
  let ?s = "spec_new\<lparr>spec_semantics := SEM_MEALY_STRICT,
       require := \<lparr>items = [NodeAp ''r''], capacity = 8\<rparr>,
       assert_list := \<lparr>items = [NodeAp ''g''], capacity = 8\<rparr>\<rparr>"
  have "spec_ground ?s" "spec_size ?s \<le> 2 ^ 31"
    by (simp_all add: spec_ground_def spec_size_def sections_def spec_new_def empty_growable_def)
  from lower_spec_correct [OF this, of 0 \<infinity> "\<lambda>i. if i = 0 then {''r''} else {}"]
  obtain phi where phi: "lower_spec ?s True True = Some phi"
    "sat \<infinity> (\<lambda>i. if i = 0 then {''r''} else {}) phi 0 \<longleftrightarrow>
       weak_until \<infinity> (\<lambda>j. ''g'' \<in> (if j = 0 then {''r''} else {})) (\<lambda>j. ''r'' \<notin> (if j = 0 then {''r''} else {})) 0"
    by (auto simp: tlsf_meaning_def all_hold_def spec_new_def empty_growable_def
        semantics_is_strict_def)
  have "\<not> sat \<infinity> (\<lambda>i. if i = 0 then {''r''} else {}) phi 0"
    unfolding phi(2) not_weak_until strong_release_def by (intro exI [of _ 0]) simp
  with phi(1) show ?thesis by blast
qed

text \<open>
  The partial lowerings: for any view and any choice of safety and liveness parts the
  formula is the same implication over the selected sections; PRESET and ASSERT belong to the
  safety part, and a guarantee to the part of its class.
\<close>

theorem section_pattern_to_ltl_correct:
  assumes "enat i < L"
  shows "sat L w (section_pattern_to_ltl v want_safety want_liveness) i \<longleftrightarrow>
     tlsf_meaning (semantics_is_strict (view_semantics v)) L w i
       (role_formulas v TLSF_ROLE_INITIALLY) (role_formulas v TLSF_ROLE_REQUIRE)
       (role_formulas v TLSF_ROLE_ASSUME)
       (if want_safety then role_formulas v TLSF_ROLE_PRESET else [])
       (if want_safety then role_formulas v TLSF_ROLE_ASSERT else [])
       (class_formulas v TLSF_ROLE_GUARANTEE want_safety want_liveness)"
  by (rule section_pattern_to_ltl_sat [OF assms])

theorem section_pattern_to_ltl_correct_witness:
  "\<not> sat (enat 2) (\<lambda>_. {}) (section_pattern_to_ltl \<lparr>view_semantics = SEM_MEALY_FINITE,
      entries = [\<lparr>entry_role = TLSF_ROLE_GUARANTEE, entry_formula = node_f (NodeAp ''g''),
                  entry_cls = FCLASS_LIVENESS\<rparr>], view_cap = 16\<rparr> False True) 0"
proof -
  have "enat 0 < enat 2" by simp
  from section_pattern_to_ltl_correct [OF this, of "\<lambda>_. {}" "\<lparr>view_semantics = SEM_MEALY_FINITE,
      entries = [\<lparr>entry_role = TLSF_ROLE_GUARANTEE, entry_formula = node_f (NodeAp ''g''),
                  entry_cls = FCLASS_LIVENESS\<rparr>], view_cap = 16\<rparr>" False True]
  show ?thesis
    by (simp add: tlsf_meaning_def all_hold_def semantics_is_strict_def role_formulas_def
        class_formulas_def entry_selected_def ev_def alw_def)
qed

end
