(* ===== verification/Env_Witness.thy ===== *)
theory Env_Witness
  imports Section_Pattern
begin

text \<open>
  Certified satisfiability of a dropped environment, \<^verbatim>\<open>src/lib/env_witness.c\<close>: the formulas are
  compiled to a postorder program, a lasso word is evaluated with one bit per position, and
  the temporal operators are computed as least or greatest fixpoints on the positions.  The
  contract: \<open>ENV_WITNESS_SATISFIABLE\<close> is only returned when an infinite word really satisfies
  every INITIALLY and ASSUME formula at its start and every REQUIRE formula everywhere.
\<close>

definition MAX_NODES :: nat where "MAX_NODES = 128"
definition ENV_WITNESS_MAX_APS :: nat where "ENV_WITNESS_MAX_APS = 8"
definition ENV_WITNESS_MAX_LENGTH :: nat where "ENV_WITNESS_MAX_LENGTH = 4"

datatype env_witness_result = ENV_WITNESS_UNKNOWN | ENV_WITNESS_SATISFIABLE

subsection \<open>Programs\<close>

datatype opcode = OpTrue | OpFalse | OpAp | OpUn un_kind | OpBin bin_kind

record instruction =
  op_kind :: opcode
  op_lhs :: nat
  op_rhs :: nat
  op_ap :: nat

record program =
  nodes :: "instruction list"
  roots :: "(nat \<times> role) list"
  aps :: "string list"
  syntax_left :: nat

definition empty_program :: program where
  "empty_program = \<lparr>nodes = [], roots = [], aps = [], syntax_left = MAX_NODES\<rparr>"

definition spend_syntax :: "program \<Rightarrow> program option" where
  "spend_syntax p = (if syntax_left p = 0 then None else Some (p\<lparr>syntax_left := syntax_left p - 1\<rparr>))"

definition emit :: "program \<Rightarrow> opcode \<Rightarrow> nat \<Rightarrow> nat \<Rightarrow> nat \<Rightarrow> program \<times> nat" where
  "emit p k l r a =
     (p\<lparr>nodes := nodes p @ [\<lparr>op_kind = k, op_lhs = l, op_rhs = r, op_ap = a\<rparr>]\<rparr>, length (nodes p))"

definition program_ap :: "program \<Rightarrow> string \<Rightarrow> (program \<times> nat) option" where
  "program_ap p name = (case index_of (aps p) name of
     Some i \<Rightarrow> Some (p, i)
   | None \<Rightarrow> if length (aps p) = ENV_WITNESS_MAX_APS then None
             else Some (p\<lparr>aps := aps p @ [name]\<rparr>, length (aps p)))"

text \<open>The result \<^verbatim>\<open>-1\<close> is \<^const>\<open>None\<close>.\<close>

primrec compile_node :: "node \<Rightarrow> program \<Rightarrow> (program \<times> nat) option" where
  "compile_node NodeTrue p = do { p \<leftarrow> spend_syntax p; Some (emit p OpTrue 0 0 0) }"
| "compile_node NodeFalse p = do { p \<leftarrow> spend_syntax p; Some (emit p OpFalse 0 0 0) }"
| "compile_node (NodeAp name) p =
     do { p \<leftarrow> spend_syntax p; (p, a) \<leftarrow> program_ap p name; Some (emit p OpAp 0 0 a) }"
| "compile_node (Unary k n) p =
     do { p \<leftarrow> spend_syntax p; (p, l) \<leftarrow> compile_node n p; Some (emit p (OpUn k) l 0 0) }"
| "compile_node (Binary k m n) p =
     do { p \<leftarrow> spend_syntax p; (p, l) \<leftarrow> compile_node m p; (p, r) \<leftarrow> compile_node n p;
          Some (emit p (OpBin k) l r 0) }"
| "compile_node (NodeInt v) p = None"
| "compile_node (IntVar v) p = None"
| "compile_node (SizeOf v) p = None"
| "compile_node (HlUnary k n) p = None"
| "compile_node (HlBinary k m n) p = None"
| "compile_node (NextN s m n) p = None"
| "compile_node (Call k f args) p = None"
| "compile_node (BusIndex b i) p = None"
| "compile_node (Ite c t e) p = None"
| "compile_node (BoundedOp k s l h b) p = None"
| "compile_node (Quant k v b n) p = None"
| "compile_node (SetLit k es) p = None"

fun compile_entries :: "section_entry list \<Rightarrow> program \<Rightarrow> program option" where
  "compile_entries [] p = Some p"
| "compile_entries (e # es) p =
     (let r = entry_role e in
      if r \<noteq> TLSF_ROLE_INITIALLY \<and> r \<noteq> TLSF_ROLE_REQUIRE \<and> r \<noteq> TLSF_ROLE_ASSUME then None
      else do { (p, rt) \<leftarrow> compile_node (entry_formula e) p;
                compile_entries es (p\<lparr>roots := roots p @ [(rt, r)]\<rparr>) })"

definition compile_environment :: "section_view \<Rightarrow> program option" where
  "compile_environment d =
     (if length (entries d) > MAX_NODES then None else compile_entries (entries d) empty_program)"

subsection \<open>Evaluation on a lasso\<close>

record env_lasso =
  lasso_aps :: "string list"
  letters :: "u8 list"
  lasso_length :: nat
  loop :: nat

definition next_bits :: "env_lasso \<Rightarrow> u32 \<Rightarrow> u32" where
  "next_bits w v = drop_bit 1 v OR push_bit (lasso_length w - 1) (drop_bit (loop w) v AND 1)"

definition or_letter_bits :: "env_lasso \<Rightarrow> nat \<Rightarrow> u32 \<Rightarrow> u32" where
  "or_letter_bits w a v =
     foldl (\<lambda>v j. v OR push_bit j (drop_bit a (ucast (letters w ! j)) AND 1)) v [0..<lasso_length w]"

definition ap_bits :: "env_lasso \<Rightarrow> string \<Rightarrow> u32" where
  "ap_bits w name =
     foldl (\<lambda>v a. if lasso_aps w ! a = name then or_letter_bits w a v else v) 0
       [0..<length (lasso_aps w)]"

text \<open>One unit of budget per round; \<^const>\<open>None\<close> is an exhausted budget.\<close>

fun fix_loop :: "nat \<Rightarrow> (u32 \<Rightarrow> u32) \<Rightarrow> u32 \<Rightarrow> (u32 \<times> nat) option" where
  "fix_loop 0 f v = None"
| "fix_loop (Suc b) f v = (if f v = v then Some (v, b) else fix_loop b f (f v))"

definition release_step :: "env_lasso \<Rightarrow> u32 \<Rightarrow> u32 \<Rightarrow> u32 \<Rightarrow> u32" where
  "release_step w a b v = b AND (a OR next_bits w v)"

definition until_step :: "env_lasso \<Rightarrow> u32 \<Rightarrow> u32 \<Rightarrow> u32 \<Rightarrow> u32" where
  "until_step w a b v = b OR (a AND next_bits w v)"

definition eval_op :: "program \<Rightarrow> env_lasso \<Rightarrow> u32 \<Rightarrow> instruction \<Rightarrow> u32 \<Rightarrow> u32 \<Rightarrow> nat \<Rightarrow> (u32 \<times> nat) option" where
  "eval_op p w msk i a b budget = (case op_kind i of
     OpTrue \<Rightarrow> Some (msk, budget)
   | OpFalse \<Rightarrow> Some (0, budget)
   | OpAp \<Rightarrow> Some (ap_bits w (aps p ! op_ap i), budget)
   | OpUn NODE_NOT \<Rightarrow> Some (msk XOR a, budget)
   | OpUn NODE_X \<Rightarrow> Some (next_bits w a, budget)
   | OpUn NODE_X_STRONG \<Rightarrow> Some (next_bits w a, budget)
   | OpUn NODE_F \<Rightarrow> fix_loop budget (until_step w msk a) 0
   | OpUn NODE_G \<Rightarrow> fix_loop budget (release_step w 0 a) msk
   | OpBin NODE_AND \<Rightarrow> Some (a AND b, budget)
   | OpBin NODE_OR \<Rightarrow> Some (a OR b, budget)
   | OpBin NODE_IMPL \<Rightarrow> Some ((msk XOR a) OR b, budget)
   | OpBin NODE_EQUIV \<Rightarrow> Some (msk XOR (a XOR b), budget)
   | OpBin NODE_U \<Rightarrow> fix_loop budget (until_step w a b) 0
   | OpBin NODE_W \<Rightarrow> fix_loop budget (until_step w a b) msk
   | OpBin NODE_R \<Rightarrow> fix_loop budget (release_step w a b) msk
   | OpBin NODE_M \<Rightarrow> fix_loop budget (release_step w a b) 0)"

definition word_mask :: "env_lasso \<Rightarrow> u32" where
  "word_mask w = push_bit (lasso_length w) 1 - 1"

text \<open>The loop over the instructions, from \<open>i\<close> on; \<^const>\<open>None\<close> is the early exit without budget.\<close>

fun eval_nodes ::
  "program \<Rightarrow> env_lasso \<Rightarrow> instruction list \<Rightarrow> nat \<Rightarrow> u32 list \<Rightarrow> nat \<Rightarrow> (u32 list \<times> nat) option" where
  "eval_nodes p w [] i values budget = Some (values, budget)"
| "eval_nodes p w (op # rest) i values budget =
     (if budget = 0 then None
      else do { (v, budget) \<leftarrow> eval_op p w (word_mask w) op (values ! op_lhs op) (values ! op_rhs op)
                                 (budget - 1);
                eval_nodes p w rest (i + 1) (values[i := v]) budget })"

fun eval_roots :: "env_lasso \<Rightarrow> (nat \<times> role) list \<Rightarrow> u32 list \<Rightarrow> nat \<Rightarrow> env_witness_result \<times> nat" where
  "eval_roots w [] values budget = (ENV_WITNESS_SATISFIABLE, budget)"
| "eval_roots w ((rt, r) # rs) values budget =
     (if budget = 0 then (ENV_WITNESS_UNKNOWN, 0)
      else let required = (if r = TLSF_ROLE_REQUIRE then word_mask w else 1)
           in if (values ! rt) AND required \<noteq> required then (ENV_WITNESS_UNKNOWN, budget - 1)
              else eval_roots w rs values (budget - 1))"

definition evaluate :: "program \<Rightarrow> env_lasso \<Rightarrow> nat \<Rightarrow> env_witness_result \<times> nat" where
  "evaluate p w budget =
     (case eval_nodes p w (nodes p) 0 (replicate MAX_NODES 0) budget of
        None \<Rightarrow> (ENV_WITNESS_UNKNOWN, 0)
      | Some (values, budget) \<Rightarrow> eval_roots w (roots p) values budget)"

definition lasso_valid :: "env_lasso \<Rightarrow> bool" where
  "lasso_valid w \<longleftrightarrow> lasso_length w \<noteq> 0 \<and> lasso_length w \<le> ENV_WITNESS_MAX_LENGTH \<and>
     loop w < lasso_length w \<and> length (lasso_aps w) \<le> ENV_WITNESS_MAX_APS \<and> distinct (lasso_aps w)"

definition env_lasso_check :: "section_view \<Rightarrow> env_lasso \<Rightarrow> nat \<Rightarrow> env_witness_result" where
  "env_lasso_check dropped w budget =
     (if \<not> lasso_valid w then ENV_WITNESS_UNKNOWN
      else case compile_environment dropped of
             None \<Rightarrow> ENV_WITNESS_UNKNOWN
           | Some p \<Rightarrow> fst (evaluate p w budget))"

subsection \<open>Search\<close>

text \<open>\<open>Inl True\<close>: found; \<open>Inl False\<close>: out of budget; \<open>Inr b\<close>: go on with budget \<open>b\<close>.\<close>

definition search_lasso :: "program \<Rightarrow> nat \<Rightarrow> nat \<Rightarrow> u64 \<Rightarrow> env_lasso" where
  "search_lasso p len lp bits =
     \<lparr>lasso_aps = aps p,
      letters = map (\<lambda>j. ucast (drop_bit (length (aps p) * j) bits)) [0..<len],
      lasso_length = len, loop = lp\<rparr>"

function search_bits :: "program \<Rightarrow> nat \<Rightarrow> nat \<Rightarrow> nat \<Rightarrow> nat \<Rightarrow> nat \<Rightarrow> bool + nat" where
  "search_bits p len lp bits end_bits budget =
     (if end_bits \<le> bits then Inr budget
      else if budget = 0 then Inl False
      else case evaluate p (search_lasso p len lp (of_nat bits)) (budget - 1) of
             (ENV_WITNESS_SATISFIABLE, b) \<Rightarrow> Inl True
           | (ENV_WITNESS_UNKNOWN, b) \<Rightarrow> search_bits p len lp (bits + 1) end_bits b)"
  by pat_completeness auto
termination
  by (relation "measure (\<lambda>(p, len, lp, bits, end_bits, budget). end_bits - bits)") auto

fun search_loops :: "program \<Rightarrow> nat \<Rightarrow> nat list \<Rightarrow> nat \<Rightarrow> bool + nat" where
  "search_loops p len [] budget = Inr budget"
| "search_loops p len (lp # lps) budget =
     (case search_bits p len lp 0 (2 ^ (length (aps p) * len)) budget of
        Inl r \<Rightarrow> Inl r
      | Inr b \<Rightarrow> search_loops p len lps b)"

fun search_lengths :: "program \<Rightarrow> nat list \<Rightarrow> nat \<Rightarrow> bool + nat" where
  "search_lengths p [] budget = Inr budget"
| "search_lengths p (len # lens) budget =
     (case search_loops p len [0..<len] budget of
        Inl r \<Rightarrow> Inl r
      | Inr b \<Rightarrow> search_lengths p lens b)"

definition env_witness_search :: "section_view \<Rightarrow> nat \<Rightarrow> env_witness_result" where
  "env_witness_search dropped budget =
     (case compile_environment dropped of
        None \<Rightarrow> ENV_WITNESS_UNKNOWN
      | Some p \<Rightarrow>
          (case search_lengths p [1..<Suc ENV_WITNESS_MAX_LENGTH] budget of
             Inl True \<Rightarrow> ENV_WITNESS_SATISFIABLE
           | _ \<Rightarrow> ENV_WITNESS_UNKNOWN))"

declare search_bits.simps [simp del]

end
