(* ===== verification/Lasso_Fixpoints.thy ===== *)
theory Lasso_Fixpoints
  imports Env_Witness
begin

text \<open>
  The infinite word of a lasso, sets of its positions as machine words, and the fixpoint
  iteration of \<^verbatim>\<open>evaluate\<close> (\<^verbatim>\<open>env_witness.c\<close>): the temporal operators are the least or greatest
  solutions of their unfolding laws, the iteration computes them, and it needs at most five
  rounds on a lasso of length four.
\<close>


subsection \<open>The infinite word of a lasso\<close>

definition lasso_pos :: "env_lasso \<Rightarrow> nat \<Rightarrow> nat" where
  "lasso_pos w i =
     (if i < lasso_length w then i else loop w + (i - loop w) mod (lasso_length w - loop w))"

definition lasso_succ :: "env_lasso \<Rightarrow> nat \<Rightarrow> nat" where
  "lasso_succ w j = (if j + 1 < lasso_length w then j + 1 else loop w)"

definition lasso_letter :: "env_lasso \<Rightarrow> nat \<Rightarrow> letter" where
  "lasso_letter w j = {p. \<exists>a<length (lasso_aps w). lasso_aps w ! a = p \<and> bit (letters w ! j) a}"

definition lasso_trace :: "env_lasso \<Rightarrow> trace" where
  "lasso_trace w i = lasso_letter w (lasso_pos w i)"

lemma lasso_validD:
  assumes "lasso_valid w"
  shows "0 < lasso_length w" "lasso_length w \<le> 4" "loop w < lasso_length w"
    "length (lasso_aps w) \<le> 8" "distinct (lasso_aps w)"
  using assms by (simp_all add: lasso_valid_def ENV_WITNESS_MAX_LENGTH_def ENV_WITNESS_MAX_APS_def)

lemma lasso_pos_less: "lasso_valid w \<Longrightarrow> lasso_pos w i < lasso_length w"
proof -
  assume "lasso_valid w"
  then have "loop w < lasso_length w" by (rule lasso_validD)
  then have "(i - loop w) mod (lasso_length w - loop w) < lasso_length w - loop w" by simp
  then have "loop w + (i - loop w) mod (lasso_length w - loop w) < lasso_length w" by linarith
  then show ?thesis by (simp add: lasso_pos_def)
qed

lemma lasso_pos_Suc:
  assumes "lasso_valid w"
  shows "lasso_pos w (Suc i) = lasso_succ w (lasso_pos w i)"
proof -
  let ?n = "lasso_length w" and ?l = "loop w"
  have l: "?l < ?n" using assms by (rule lasso_validD)
  show ?thesis
  proof (cases "i < ?n")
    case True
    show ?thesis
    proof (cases "Suc i < ?n")
      case True
      then show ?thesis by (simp add: lasso_pos_def lasso_succ_def)
    next
      case False
      with True have "Suc i = ?n" by simp
      then show ?thesis using l by (auto simp: lasso_pos_def lasso_succ_def)
    qed
  next
    case False
    let ?m = "?n - ?l" and ?r = "(i - ?l) mod (?n - ?l)"
    have m: "0 < ?m" using l by simp
    have "(Suc i - ?l) mod ?m = (if Suc ?r = ?m then 0 else Suc ?r)"
      using False l by (simp add: Suc_diff_le mod_Suc)
    then have "lasso_pos w (Suc i) = ?l + (if Suc ?r = ?m then 0 else Suc ?r)"
      using False by (simp add: lasso_pos_def)
    moreover have "lasso_pos w i = ?l + ?r" using False by (simp add: lasso_pos_def)
    moreover have "?r < ?m" using m by simp
    then have "?l + ?r + 1 < ?n \<longleftrightarrow> Suc ?r \<noteq> ?m" using l by linarith
    ultimately show ?thesis by (simp add: lasso_succ_def)
  qed
qed

lemma lasso_pos_id: "j < lasso_length w \<Longrightarrow> lasso_pos w j = j"
  by (simp add: lasso_pos_def)

lemma lasso_succ_less: "lasso_valid w \<Longrightarrow> j < lasso_length w \<Longrightarrow> lasso_succ w j < lasso_length w"
  by (auto simp: lasso_succ_def dest: lasso_validD)

subsection \<open>Position sets as words\<close>

text \<open>\<open>shows w v P\<close>: the word \<open>v\<close> has exactly the bits of the positions of the lasso where \<open>P\<close> holds.\<close>

definition shows_pred :: "env_lasso \<Rightarrow> u32 \<Rightarrow> (nat \<Rightarrow> bool) \<Rightarrow> bool" where
  "shows_pred w v P \<longleftrightarrow>
     (\<forall>i. P i = bit v (lasso_pos w i)) \<and> (\<forall>j\<ge>lasso_length w. \<not> bit v j)"

definition in_mask :: "env_lasso \<Rightarrow> u32 \<Rightarrow> bool" where
  "in_mask w v \<longleftrightarrow> (\<forall>j\<ge>lasso_length w. \<not> bit v j)"

lemma bit_word_mask: "lasso_valid w \<Longrightarrow> bit (word_mask w) j \<longleftrightarrow> j < lasso_length w"
proof -
  assume "lasso_valid w"
  then have "lasso_length w \<le> 4" by (rule lasso_validD)
  moreover have "word_mask w = mask (lasso_length w)"
    by (simp add: word_mask_def mask_eq_decr_exp)
  ultimately show ?thesis by (auto simp: bit_mask_iff)
qed

lemma bit_next_bits:
  assumes w: "lasso_valid w" and v: "in_mask w v"
  shows "bit (next_bits w v) j \<longleftrightarrow> j < lasso_length w \<and> bit v (lasso_succ w j)"
proof -
  have n: "0 < lasso_length w" "lasso_length w \<le> 4" using w by (rule lasso_validD)+
  have one: "bit (drop_bit l v AND 1) k \<longleftrightarrow> k = 0 \<and> bit v l" for l k
    by (cases k) (auto simp: bit_simps)
  have "bit (next_bits w v) j \<longleftrightarrow>
      bit v (Suc j) \<or> (lasso_length w - 1 \<le> j \<and> j < 32 \<and> j - (lasso_length w - 1) = 0 \<and> bit v (loop w))"
    unfolding next_bits_def bit_or_iff bit_drop_bit_eq bit_push_bit_iff one
    by (auto simp: comp_def)
  also have "\<dots> \<longleftrightarrow> j < lasso_length w \<and> bit v (lasso_succ w j)"
    using n v by (auto simp: lasso_succ_def in_mask_def not_le)
  finally show ?thesis .
qed

lemma next_bits_in_mask: "lasso_valid w \<Longrightarrow> in_mask w v \<Longrightarrow> in_mask w (next_bits w v)"
  using bit_next_bits by (auto simp: in_mask_def)

lemma shows_in_mask: "shows_pred w v P \<Longrightarrow> in_mask w v"
  by (simp add: shows_pred_def in_mask_def)

lemma shows_pos: "shows_pred w v P \<Longrightarrow> bit v (lasso_pos w i) = P i"
  by (simp add: shows_pred_def)

lemma shows_predI:
  "in_mask w v \<Longrightarrow> (\<And>i. bit v (lasso_pos w i) = P i) \<Longrightarrow> shows_pred w v P"
  by (simp add: shows_pred_def in_mask_def)

lemma in_mask_word_mask: "lasso_valid w \<Longrightarrow> in_mask w (word_mask w)"
  by (simp add: in_mask_def bit_word_mask)

lemma in_mask_0: "in_mask w 0"
  by (simp add: in_mask_def)

lemma shows_mask: "lasso_valid w \<Longrightarrow> shows_pred w (word_mask w) (\<lambda>i. True)"
  by (auto intro!: shows_predI in_mask_word_mask simp: bit_word_mask lasso_pos_less)

lemma shows_0: "shows_pred w 0 (\<lambda>i. False)"
  by (simp add: shows_pred_def)

lemma shows_next:
  assumes "lasso_valid w" and "shows_pred w v P"
  shows "shows_pred w (next_bits w v) (\<lambda>i. P (Suc i))"
  using assms lasso_pos_less [OF assms(1)] lasso_pos_Suc [OF assms(1)]
  by (auto intro!: shows_predI next_bits_in_mask shows_in_mask [OF assms(2)]
      simp: bit_next_bits [OF assms(1) shows_in_mask [OF assms(2)]] shows_pos [OF assms(2), symmetric])

lemma shows_not:
  "lasso_valid w \<Longrightarrow> shows_pred w a P \<Longrightarrow> shows_pred w (word_mask w XOR a) (\<lambda>i. \<not> P i)"
  by (auto simp: shows_pred_def bit_simps bit_word_mask lasso_pos_less)

lemma shows_and: "shows_pred w a P \<Longrightarrow> shows_pred w b Q \<Longrightarrow> shows_pred w (a AND b) (\<lambda>i. P i \<and> Q i)"
  by (auto simp: shows_pred_def bit_simps)

lemma shows_or: "shows_pred w a P \<Longrightarrow> shows_pred w b Q \<Longrightarrow> shows_pred w (a OR b) (\<lambda>i. P i \<or> Q i)"
  by (auto simp: shows_pred_def bit_simps)

lemma shows_xor: "shows_pred w a P \<Longrightarrow> shows_pred w b Q \<Longrightarrow> shows_pred w (a XOR b) (\<lambda>i. P i \<noteq> Q i)"
  by (auto simp: shows_pred_def bit_simps)

lemma shows_cong: "shows_pred w a P \<Longrightarrow> (\<And>i. P i = Q i) \<Longrightarrow> shows_pred w a Q"
  by (simp add: shows_pred_def)

subsection \<open>Fixpoints on the positions\<close>

text \<open>\<open>steps w f g\<close>: the word function \<open>f\<close> computes \<open>g\<close> of the value at the successor position.\<close>

definition steps :: "env_lasso \<Rightarrow> (u32 \<Rightarrow> u32) \<Rightarrow> (nat \<Rightarrow> bool \<Rightarrow> bool) \<Rightarrow> bool" where
  "steps w f g \<longleftrightarrow> (\<forall>i. mono (g i)) \<and>
     (\<forall>v. in_mask w v \<longrightarrow> in_mask w (f v) \<and>
       (\<forall>i. bit (f v) (lasso_pos w i) = g i (bit v (lasso_pos w (Suc i)))))"

lemma shows_self: "in_mask w v \<Longrightarrow> shows_pred w v (\<lambda>i. bit v (lasso_pos w i))"
  by (auto simp: shows_pred_def in_mask_def)

lemma steps_until:
  assumes w: "lasso_valid w" and a: "shows_pred w a P" and b: "shows_pred w b Q"
  shows "steps w (until_step w a b) (\<lambda>i z. Q i \<or> (P i \<and> z))"
  unfolding steps_def
proof (intro conjI allI impI)
  fix v assume v: "in_mask w v"
  have *: "shows_pred w (until_step w a b v) (\<lambda>i. Q i \<or> (P i \<and> bit v (lasso_pos w (Suc i))))"
    unfolding until_step_def by (rule shows_or [OF b shows_and [OF a shows_next [OF w shows_self [OF v]]]])
  show "in_mask w (until_step w a b v)" by (rule shows_in_mask [OF *])
  fix i
  show "bit (until_step w a b v) (lasso_pos w i) = (Q i \<or> P i \<and> bit v (lasso_pos w (Suc i)))"
    by (rule shows_pos [OF *])
qed (auto simp: mono_def)

lemma steps_release:
  assumes w: "lasso_valid w" and a: "shows_pred w a P" and b: "shows_pred w b Q"
  shows "steps w (release_step w a b) (\<lambda>i z. Q i \<and> (P i \<or> z))"
  unfolding steps_def
proof (intro conjI allI impI)
  fix v assume v: "in_mask w v"
  have *: "shows_pred w (release_step w a b v) (\<lambda>i. Q i \<and> (P i \<or> bit v (lasso_pos w (Suc i))))"
    unfolding release_step_def by (rule shows_and [OF b shows_or [OF a shows_next [OF w shows_self [OF v]]]])
  show "in_mask w (release_step w a b v)" by (rule shows_in_mask [OF *])
  fix i
  show "bit (release_step w a b v) (lasso_pos w i) = (Q i \<and> (P i \<or> bit v (lasso_pos w (Suc i))))"
    by (rule shows_pos [OF *])
qed (auto simp: mono_def)

lemma stepsD:
  assumes "steps w f g" and "in_mask w v"
  shows "in_mask w (f v)" and "bit (f v) (lasso_pos w i) = g i (bit v (lasso_pos w (Suc i)))"
  using assms by (simp_all add: steps_def)

lemma steps_mono: "steps w f g \<Longrightarrow> g i x \<Longrightarrow> (x \<Longrightarrow> y) \<Longrightarrow> g i y"
  by (auto simp: steps_def mono_def le_bool_def)

text \<open>Least and greatest solutions of \<open>X i = g i (X (i + 1))\<close>.\<close>

definition least_sol :: "(nat \<Rightarrow> bool \<Rightarrow> bool) \<Rightarrow> (nat \<Rightarrow> bool) \<Rightarrow> bool" where
  "least_sol g X \<longleftrightarrow> (\<forall>i. X i = g i (X (Suc i))) \<and>
     (\<forall>Y. (\<forall>i. g i (Y (Suc i)) \<longrightarrow> Y i) \<longrightarrow> (\<forall>i. X i \<longrightarrow> Y i))"

definition greatest_sol :: "(nat \<Rightarrow> bool \<Rightarrow> bool) \<Rightarrow> (nat \<Rightarrow> bool) \<Rightarrow> bool" where
  "greatest_sol g X \<longleftrightarrow> (\<forall>i. X i = g i (X (Suc i))) \<and>
     (\<forall>Y. (\<forall>i. Y i \<longrightarrow> g i (Y (Suc i))) \<longrightarrow> (\<forall>i. Y i \<longrightarrow> X i))"

lemma least_sol_unfold: "least_sol g X \<Longrightarrow> X i = g i (X (Suc i))"
  unfolding least_sol_def by blast

lemma greatest_sol_unfold: "greatest_sol g X \<Longrightarrow> X i = g i (X (Suc i))"
  unfolding greatest_sol_def by blast

lemma least_solD: "least_sol g X \<Longrightarrow> (\<And>i. g i (Y (Suc i)) \<Longrightarrow> Y i) \<Longrightarrow> X i \<Longrightarrow> Y i"
  unfolding least_sol_def by blast

lemma greatest_solD: "greatest_sol g X \<Longrightarrow> (\<And>i. Y i \<Longrightarrow> g i (Y (Suc i))) \<Longrightarrow> Y i \<Longrightarrow> X i"
  unfolding greatest_sol_def by blast

lemma fix_loop_least:
  assumes st: "steps w f g" and X: "least_sol g X"
    and v: "in_mask w v" "\<And>i. bit v (lasso_pos w i) \<Longrightarrow> X i" and r: "fix_loop b f v = Some (u, b')"
  shows "shows_pred w u X"
  using v r
proof (induction b arbitrary: v)
  case (Suc b)
  show ?case
  proof (cases "f v = v")
    case True
    have eq: "bit v (lasso_pos w i) = g i (bit v (lasso_pos w (Suc i)))" for i
      using stepsD(2) [OF st Suc.prems(1), of i] arg_cong [OF True, of "\<lambda>u. bit u (lasso_pos w i)"]
      by blast
    have "X i \<Longrightarrow> bit v (lasso_pos w i)" for i
      by (erule least_solD [OF X, where Y = "\<lambda>i. bit v (lasso_pos w i)", rotated]) (rule eq [THEN iffD2])
    with Suc.prems True show ?thesis by (auto intro!: shows_predI)
  next
    case False
    have step: "X i" if "bit (f v) (lasso_pos w i)" for i
    proof -
      have "g i (bit v (lasso_pos w (Suc i)))" using stepsD(2) [OF st Suc.prems(1)] that by simp
      then have "g i (X (Suc i))" by (rule steps_mono [OF st]) (rule Suc.prems(2))
      with least_sol_unfold [OF X, of i] show ?thesis by blast
    qed
    from False Suc.prems(3) have r: "fix_loop b f (f v) = Some (u, b')" by simp
    show ?thesis by (rule Suc.IH [OF stepsD(1) [OF st Suc.prems(1)] step r])
  qed
qed simp

lemma fix_loop_greatest:
  assumes st: "steps w f g" and X: "greatest_sol g X"
    and v: "in_mask w v" "\<And>i. X i \<Longrightarrow> bit v (lasso_pos w i)" and r: "fix_loop b f v = Some (u, b')"
  shows "shows_pred w u X"
  using v r
proof (induction b arbitrary: v)
  case (Suc b)
  show ?case
  proof (cases "f v = v")
    case True
    have eq: "bit v (lasso_pos w i) = g i (bit v (lasso_pos w (Suc i)))" for i
      using stepsD(2) [OF st Suc.prems(1), of i] arg_cong [OF True, of "\<lambda>u. bit u (lasso_pos w i)"]
      by blast
    have "bit v (lasso_pos w i) \<Longrightarrow> X i" for i
      by (erule greatest_solD [OF X, where Y = "\<lambda>i. bit v (lasso_pos w i)", rotated]) (rule eq [THEN iffD1])
    with Suc.prems True show ?thesis by (auto intro!: shows_predI)
  next
    case False
    have step: "bit (f v) (lasso_pos w i)" if "X i" for i
    proof -
      have "g i (X (Suc i))" using greatest_sol_unfold [OF X, of i] that by blast
      then have "g i (bit v (lasso_pos w (Suc i)))" by (rule steps_mono [OF st]) (rule Suc.prems(2))
      then show ?thesis using stepsD(2) [OF st Suc.prems(1)] by simp
    qed
    from False Suc.prems(3) have r: "fix_loop b f (f v) = Some (u, b')" by simp
    show ?thesis by (rule Suc.IH [OF stepsD(1) [OF st Suc.prems(1)] step r])
  qed
qed simp

subsection \<open>The temporal operators as solutions\<close>

lemma until_unfold: "until \<infinity> P Q i \<longleftrightarrow> Q i \<or> (P i \<and> until \<infinity> P Q (Suc i))"
proof
  assume "until \<infinity> P Q i"
  then obtain j where "i \<le> j" "Q j" "\<forall>k. i \<le> k \<and> k < j \<longrightarrow> P k" by (auto simp: until_def)
  then show "Q i \<or> (P i \<and> until \<infinity> P Q (Suc i))"
    by (cases "i = j") (auto simp: until_def intro!: exI [of _ j])
next
  assume "Q i \<or> (P i \<and> until \<infinity> P Q (Suc i))"
  then show "until \<infinity> P Q i"
    by (auto simp: until_def) (metis Suc_leD Suc_leI le_neq_implies_less)
qed

lemma until_least: "least_sol (\<lambda>i z. Q i \<or> (P i \<and> z)) (until \<infinity> P Q)"
  unfolding least_sol_def
proof (intro conjI allI impI)
  fix Y i assume Y: "\<forall>i. Q i \<or> (P i \<and> Y (Suc i)) \<longrightarrow> Y i" and "until \<infinity> P Q i"
  then obtain j where j: "i \<le> j" "Q j" "\<forall>k. i \<le> k \<and> k < j \<longrightarrow> P k" by (auto simp: until_def)
  from j(1,3) show "Y i"
  proof (induction rule: inc_induct)
    case base
    with Y j(2) show ?case by blast
  next
    case (step n)
    then show ?case using Y by simp
  qed
qed (rule until_unfold)

lemma release_greatest: "greatest_sol (\<lambda>i z. Q i \<and> (P i \<or> z)) (release \<infinity> P Q)"
proof -
  let ?U = "until \<infinity> (\<lambda>j. \<not> P j) (\<lambda>j. \<not> Q j)"
  have r: "release \<infinity> P Q = (\<lambda>i. \<not> ?U i)" by (simp add: not_until fun_eq_iff)
  show ?thesis
    unfolding greatest_sol_def r
  proof (intro conjI allI impI)
    show "(\<not> ?U i) = (Q i \<and> (P i \<or> \<not> ?U (Suc i)))" for i by (subst until_unfold) blast
    fix Y i assume Y: "\<forall>i. Y i \<longrightarrow> Q i \<and> (P i \<or> Y (Suc i))" "Y i"
    have "?U i \<longrightarrow> \<not> Y i"
      using until_least [of "\<lambda>j. \<not> Q j" "\<lambda>j. \<not> P j"] Y(1) unfolding least_sol_def
      by (elim conjE allE [of _ "\<lambda>i. \<not> Y i"]) blast
    with Y(2) show "\<not> ?U i" by blast
  qed
qed

lemma strong_release_least: "least_sol (\<lambda>i z. Q i \<and> (P i \<or> z)) (strong_release \<infinity> P Q)"
proof -
  have "strong_release \<infinity> P Q = until \<infinity> Q (\<lambda>j. P j \<and> Q j)"
    by (simp add: strong_release_until fun_eq_iff)
  moreover have "(\<lambda>i z. Q i \<and> (P i \<or> z)) = (\<lambda>i z. (P i \<and> Q i) \<or> (Q i \<and> z))" by (auto simp: fun_eq_iff)
  ultimately show ?thesis using until_least [of "\<lambda>j. P j \<and> Q j" Q] by simp
qed

lemma weak_until_greatest: "greatest_sol (\<lambda>i z. Q i \<or> (P i \<and> z)) (weak_until \<infinity> P Q)"
proof -
  have "release \<infinity> Q (\<lambda>j. P j \<or> Q j) i = weak_until \<infinity> P Q i" for i
  proof -
    have "(\<not> weak_until \<infinity> P Q i) = (\<not> release \<infinity> Q (\<lambda>j. P j \<or> Q j) i)"
      unfolding not_weak_until not_release strong_release_until by simp
    then show ?thesis by blast
  qed
  then have "weak_until \<infinity> P Q = release \<infinity> Q (\<lambda>j. P j \<or> Q j)" by (simp add: fun_eq_iff)
  moreover have "(\<lambda>i z. Q i \<or> (P i \<and> z)) = (\<lambda>i z. (P i \<or> Q i) \<and> (Q i \<or> z))" by (auto simp: fun_eq_iff)
  ultimately show ?thesis using release_greatest [of "\<lambda>j. P j \<or> Q j" Q] by simp
qed

lemma ev_least: "least_sol (\<lambda>i z. P i \<or> (True \<and> z)) (ev \<infinity> P)"
  using until_least [of P "\<lambda>_. True"] by (simp add: ev_until [abs_def])

lemma alw_greatest: "greatest_sol (\<lambda>i z. P i \<and> (False \<or> z)) (alw \<infinity> P)"
  using release_greatest [of P "\<lambda>_. False"] by (simp add: alw_release [abs_def])

subsection \<open>Budget of the iteration\<close>

lemma fix_loop_budget:
  assumes "I v" and "\<And>v. I v \<Longrightarrow> f v \<noteq> v \<Longrightarrow> I (f v) \<and> m (f v) < (m v :: nat)" and "m v < b"
  shows "\<exists>u b'. fix_loop b f v = Some (u, b') \<and> b \<le> b' + m v + 1"
  using assms(1,3)
proof (induction b arbitrary: v)
  case (Suc b)
  show ?case
  proof (cases "f v = v")
    case False
    with assms(2) [OF Suc.prems(1)] have *: "I (f v)" "m (f v) < m v" by auto
    with Suc.prems(2) have "m (f v) < b" by simp
    from Suc.IH [OF *(1) this] * False show ?thesis by fastforce
  qed simp
qed simp

definition ext :: "env_lasso \<Rightarrow> u32 \<Rightarrow> nat set" where
  "ext w v = {j. j < lasso_length w \<and> bit v j}"

lemma ext_eq: "in_mask w u \<Longrightarrow> in_mask w v \<Longrightarrow> ext w u = ext w v \<Longrightarrow> u = v"
proof (rule bit_eqI)
  fix n assume "in_mask w u" "in_mask w v" "ext w u = ext w v"
  then show "bit u n = bit v n" unfolding in_mask_def ext_def
    by (cases "n < lasso_length w") (auto simp: set_eq_iff)
qed

lemma ext_finite [simp]: "finite (ext w v)"
  by (simp add: ext_def)

lemma card_ext_le: "card (ext w v) \<le> lasso_length w"
proof -
  have "card (ext w v) \<le> card {..<lasso_length w}" by (rule card_mono) (auto simp: ext_def)
  then show ?thesis by simp
qed

lemma steps_ext_mono:
  assumes st: "steps w f g" and u: "in_mask w u" and v: "in_mask w v" and le: "ext w u \<subseteq> ext w v"
    and w: "lasso_valid w"
  shows "ext w (f u) \<subseteq> ext w (f v)"
proof
  fix j assume "j \<in> ext w (f u)"
  then have j: "j < lasso_length w" "bit (f u) (lasso_pos w j)" by (auto simp: ext_def lasso_pos_id)
  then have "g j (bit u (lasso_pos w (Suc j)))" using stepsD(2) [OF st u] by simp
  then have "g j (bit v (lasso_pos w (Suc j)))"
    by (rule steps_mono [OF st]) (use le lasso_pos_less [OF w] in \<open>auto simp: ext_def\<close>)
  then have "bit (f v) j" using stepsD(2) [OF st v, of j] j by (simp add: lasso_pos_id)
  then show "j \<in> ext w (f v)" using j by (simp add: ext_def)
qed

lemma fix_loop_total:
  assumes w: "lasso_valid w" and st: "steps w f g" and v: "v = 0 \<or> v = word_mask w" and b: "4 < b"
  shows "\<exists>u b'. fix_loop b f v = Some (u, b') \<and> b \<le> b' + 5"
proof (cases "v = 0")
  case True
  define m where "m u = lasso_length w - card (ext w u)" for u
  let ?inv = "\<lambda>u. in_mask w u \<and> ext w u \<subseteq> ext w (f u)"
  have "?inv (f u) \<and> m (f u) < m u" if u: "?inv u" "f u \<noteq> u" for u
  proof -
    have fu: "in_mask w (f u)" using stepsD(1) [OF st] u by blast
    have "ext w u \<noteq> ext w (f u)" using ext_eq [OF fu] u by metis
    then have "card (ext w u) < card (ext w (f u))" using u by (intro psubset_card_mono) auto
    then show ?thesis
      using steps_ext_mono [OF st _ fu _ w] u fu card_ext_le [of w "f u"] unfolding m_def by auto
  qed
  moreover have "?inv v" using True by (simp add: in_mask_0 ext_def)
  moreover have mv: "m v \<le> 4" using lasso_validD(2) [OF w] by (simp add: m_def)
  ultimately obtain u b' where "fix_loop b f v = Some (u, b')" "b \<le> b' + m v + 1"
    using fix_loop_budget [of ?inv v f m b] b by auto
  with mv show ?thesis by auto
next
  case False
  with v have v: "v = word_mask w" by simp
  let ?inv = "\<lambda>u. in_mask w u \<and> ext w (f u) \<subseteq> ext w u"
  let ?m = "\<lambda>u. card (ext w u)"
  have "?inv (f u) \<and> ?m (f u) < ?m u" if u: "?inv u" "f u \<noteq> u" for u
  proof -
    have fu: "in_mask w (f u)" using stepsD(1) [OF st] u by blast
    have "ext w u \<noteq> ext w (f u)" using ext_eq [OF fu] u by metis
    then have "?m (f u) < ?m u" using u by (intro psubset_card_mono) auto
    then show ?thesis using steps_ext_mono [OF st fu _ _ w] u fu by auto
  qed
  moreover have "?inv v" unfolding v by (auto simp: in_mask_word_mask [OF w] ext_def bit_word_mask [OF w])
  moreover have mv: "?m v \<le> 4" using card_ext_le [of w v] lasso_validD(2) [OF w] by linarith
  ultimately obtain u b' where "fix_loop b f v = Some (u, b')" "b \<le> b' + ?m v + 1"
    using fix_loop_budget [of ?inv v f ?m b] b by auto
  with mv show ?thesis by auto
qed

end
