(* ===== verification/Env_Witness_Correct.thy ===== *)
theory Env_Witness_Correct
  imports Lasso_Fixpoints
begin

text \<open>
  Correctness of the environment certificate: the compiled program denotes the formulas, each
  instruction computes the positions of the lasso at which its formula holds, and a positive
  answer therefore exhibits a satisfying infinite word.
\<close>

subsection \<open>Instructions\<close>

lemma eval_op_un:
  assumes w: "lasso_valid w" and a: "shows_pred w a P" and i: "op_kind i = OpUn k"
    and r: "eval_op p w (word_mask w) i a b budget = Some (v, rest)"
  shows "shows_pred w v (un_sem \<infinity> k P)"
proof (cases k)
  case NODE_NOT
  with r i shows_not [OF w a] show ?thesis by (simp add: eval_op_def)
next
  case NODE_X
  with r i shows_next [OF w a] show ?thesis
    by (auto simp: eval_op_def next_weak_def intro: shows_cong)
next
  case NODE_X_STRONG
  with r i shows_next [OF w a] show ?thesis
    by (auto simp: eval_op_def next_strong_def intro: shows_cong)
next
  case NODE_F
  have "steps w (until_step w (word_mask w) a) (\<lambda>i z. P i \<or> (True \<and> z))"
    by (rule steps_until [OF w shows_mask [OF w] a])
  from fix_loop_least [OF this ev_least in_mask_0] r i NODE_F show ?thesis by (simp add: eval_op_def)
next
  case NODE_G
  have "steps w (release_step w 0 a) (\<lambda>i z. P i \<and> (False \<or> z))"
    by (rule steps_release [OF w shows_0 a])
  from fix_loop_greatest [OF this alw_greatest in_mask_word_mask [OF w]] r i NODE_G
  show ?thesis by (simp add: eval_op_def bit_word_mask [OF w] lasso_pos_less [OF w])
qed

lemma eval_op_bin:
  assumes w: "lasso_valid w" and a: "shows_pred w a P" and b: "shows_pred w b Q"
    and i: "op_kind i = OpBin k" and r: "eval_op p w (word_mask w) i a b budget = Some (v, rest)"
  shows "shows_pred w v (bin_sem \<infinity> k P Q)"
proof -
  note u = steps_until [OF w a b] and rel = steps_release [OF w a b]
  have m: "bit (word_mask w) (lasso_pos w i)" for i
    by (simp add: bit_word_mask [OF w] lasso_pos_less [OF w])
  show ?thesis
  proof (cases k)
    case NODE_AND
    with r i shows_and [OF a b] show ?thesis by (simp add: eval_op_def)
  next
    case NODE_OR
    with r i shows_or [OF a b] show ?thesis by (simp add: eval_op_def)
  next
    case NODE_IMPL
    with r i shows_or [OF shows_not [OF w a] b] show ?thesis
      by (auto simp: eval_op_def intro: shows_cong)
  next
    case NODE_EQUIV
    with r i shows_not [OF w shows_xor [OF a b]] show ?thesis
      by (auto simp: eval_op_def intro: shows_cong)
  next
    case NODE_U
    with fix_loop_least [OF u until_least in_mask_0] r i show ?thesis by (simp add: eval_op_def)
  next
    case NODE_R
    with fix_loop_greatest [OF rel release_greatest in_mask_word_mask [OF w]] r i m
    show ?thesis by (simp add: eval_op_def)
  next
    case NODE_W
    with fix_loop_greatest [OF u weak_until_greatest in_mask_word_mask [OF w]] r i m
    show ?thesis by (simp add: eval_op_def)
  next
    case NODE_M
    with fix_loop_least [OF rel strong_release_least in_mask_0] r i show ?thesis
      by (simp add: eval_op_def)
  qed
qed

text \<open>Every operator needs at most five rounds.\<close>

lemma eval_op_total:
  assumes w: "lasso_valid w" and a: "shows_pred w a P" and b: "shows_pred w b Q" and budget: "4 < budget"
  shows "\<exists>v rest. eval_op p w (word_mask w) i a b budget = Some (v, rest) \<and> budget \<le> rest + 5"
proof -
  note total = fix_loop_total [OF w _ _ budget]
  have "\<exists>v rest. fix_loop budget (until_step w (word_mask w) a) 0 = Some (v, rest) \<and> budget \<le> rest + 5"
    by (rule total [OF steps_until [OF w shows_mask [OF w] a]]) simp
  moreover have "\<exists>v rest. fix_loop budget (release_step w 0 a) (word_mask w) = Some (v, rest) \<and> budget \<le> rest + 5"
    by (rule total [OF steps_release [OF w shows_0 a]]) simp
  moreover have "\<exists>v rest. fix_loop budget (until_step w a b) x = Some (v, rest) \<and> budget \<le> rest + 5"
    "\<exists>v rest. fix_loop budget (release_step w a b) x = Some (v, rest) \<and> budget \<le> rest + 5"
    if "x = 0 \<or> x = word_mask w" for x
    by (rule total [OF steps_until [OF w a b] that] total [OF steps_release [OF w a b] that])+
  ultimately show ?thesis
    by (auto simp: eval_op_def split: opcode.split un_kind.split bin_kind.split)
qed

lemma bit_or_push_one:
  fixes x v :: u32
  assumes "n < 32"
  shows "bit (v OR push_bit n (drop_bit a x AND 1)) k \<longleftrightarrow> bit v k \<or> (k = n \<and> bit x a)"
proof -
  have one: "bit (drop_bit a x AND 1) m \<longleftrightarrow> m = 0 \<and> bit x a" for m
    by (cases m) (auto simp: bit_simps)
  show ?thesis
    unfolding bit_or_iff bit_push_bit_iff one using assms by auto
qed

lemma bit_or_letter_bits:
  assumes "lasso_length w \<le> 32"
  shows "bit (or_letter_bits w a v) k \<longleftrightarrow> bit v k \<or> (k < lasso_length w \<and> bit (letters w ! k) a)"
proof -
  have u: "bit (ucast (letters w ! j) :: u32) a = bit (letters w ! j) a" for j
    by (auto simp: bit_simps dest: bit_imp_le_length)
  have "bit (foldl (\<lambda>v j. v OR push_bit j (drop_bit a (ucast (letters w ! j) :: u32) AND 1)) v [0..<n]) k
      \<longleftrightarrow> bit v k \<or> (k < n \<and> bit (letters w ! k) a)" if "n \<le> 32" for n
    using that
  proof (induction n)
    case (Suc n)
    have "bit (foldl (\<lambda>v j. v OR push_bit j (drop_bit a (ucast (letters w ! j) :: u32) AND 1)) v [0..<Suc n]) k
      \<longleftrightarrow> bit (foldl (\<lambda>v j. v OR push_bit j (drop_bit a (ucast (letters w ! j) :: u32) AND 1)) v [0..<n]) k
        \<or> (k = n \<and> bit (letters w ! n) a)"
      using Suc.prems by (simp only: upt_Suc foldl_append foldl.simps bit_or_push_one u
          le0 if_True Suc_le_eq)
    with Suc show ?case by (auto simp: less_Suc_eq)
  qed simp
  with assms show ?thesis by (simp add: or_letter_bits_def)
qed

lemma bit_ap_bits:
  assumes "lasso_valid w"
  shows "bit (ap_bits w name) k \<longleftrightarrow> k < lasso_length w \<and> name \<in> lasso_letter w k"
proof -
  have n: "lasso_length w \<le> 32" using lasso_validD(2) [OF assms] by simp
  have "bit (foldl (\<lambda>v a. if lasso_aps w ! a = name then or_letter_bits w a v else v) v [0..<m]) k \<longleftrightarrow>
      bit v k \<or> (k < lasso_length w \<and> (\<exists>a<m. lasso_aps w ! a = name \<and> bit (letters w ! k) a))"
    for v :: u32 and m
    by (induction m) (auto simp: bit_or_letter_bits [OF n] less_Suc_eq)
  from this [of 0 "length (lasso_aps w)"] show ?thesis by (auto simp: ap_bits_def lasso_letter_def)
qed

lemma shows_ap:
  "lasso_valid w \<Longrightarrow> shows_pred w (ap_bits w name) (\<lambda>i. name \<in> lasso_trace w i)"
  by (auto simp: shows_pred_def bit_ap_bits lasso_pos_less lasso_trace_def)

subsection \<open>Programs\<close>

text \<open>\<open>denotes is ns k n\<close>: the instruction at \<open>k\<close> computes the formula \<open>n\<close> from earlier ones.\<close>

inductive denotes :: "instruction list \<Rightarrow> string list \<Rightarrow> nat \<Rightarrow> node \<Rightarrow> bool"
  for ins :: "instruction list" and nms :: "string list" where
  d_true: "k < length ins \<Longrightarrow> op_kind (ins ! k) = OpTrue \<Longrightarrow> denotes ins nms k NodeTrue"
| d_false: "k < length ins \<Longrightarrow> op_kind (ins ! k) = OpFalse \<Longrightarrow> denotes ins nms k NodeFalse"
| d_ap: "k < length ins \<Longrightarrow> op_kind (ins ! k) = OpAp \<Longrightarrow> op_ap (ins ! k) < length nms \<Longrightarrow>
    nms ! op_ap (ins ! k) = p \<Longrightarrow> denotes ins nms k (NodeAp p)"
| d_un: "k < length ins \<Longrightarrow> op_kind (ins ! k) = OpUn u \<Longrightarrow> op_lhs (ins ! k) < k \<Longrightarrow>
    denotes ins nms (op_lhs (ins ! k)) a \<Longrightarrow> denotes ins nms k (Unary u a)"
| d_bin: "k < length ins \<Longrightarrow> op_kind (ins ! k) = OpBin u \<Longrightarrow> op_lhs (ins ! k) < k \<Longrightarrow>
    op_rhs (ins ! k) < k \<Longrightarrow> denotes ins nms (op_lhs (ins ! k)) a \<Longrightarrow>
    denotes ins nms (op_rhs (ins ! k)) b \<Longrightarrow> denotes ins nms k (Binary u a b)"

lemma denotes_less: "denotes ins nms k n \<Longrightarrow> k < length ins"
  by (cases rule: denotes.cases) auto

lemma denotes_append: "denotes ins nms k n \<Longrightarrow> denotes (ins @ ins') (nms @ nms') k n"
  by (induction rule: denotes.induct) (auto intro: denotes.intros simp: nth_append)

definition program_ok :: "program \<Rightarrow> bool" where
  "program_ok p \<longleftrightarrow>
     (\<forall>k<length (nodes p). (\<exists>n. denotes (nodes p) (aps p) k n) \<and>
        op_lhs (nodes p ! k) \<le> k \<and> op_rhs (nodes p ! k) \<le> k) \<and>
     length (nodes p) + syntax_left p \<le> MAX_NODES"

text \<open>What compiling adds: instructions and nms at the end.\<close>

definition extends :: "program \<Rightarrow> program \<Rightarrow> bool" where
  "extends p q \<longleftrightarrow> (\<exists>ins nms. nodes q = nodes p @ ins \<and> aps q = aps p @ nms) \<and> roots q = roots p"

lemma extends_refl [simp]: "extends p p"
  by (simp add: extends_def)

lemma extends_trans: "extends p q \<Longrightarrow> extends q r \<Longrightarrow> extends p r"
  by (auto simp: extends_def)

lemma extends_denotes:
  "extends p q \<Longrightarrow> denotes (nodes p) (aps p) k n \<Longrightarrow> denotes (nodes q) (aps q) k n"
  by (auto simp: extends_def intro: denotes_append)

lemma program_ok_extend:
  assumes "program_ok p" "extends p q" "nodes q = nodes p" "syntax_left q \<le> syntax_left p"
  shows "program_ok q"
  using assms extends_denotes [OF assms(2)] by (fastforce simp: program_ok_def)

lemma emit_ok:
  assumes p: "program_ok p" "length (nodes p) + syntax_left p < MAX_NODES"
    and lr: "l \<le> length (nodes p)" "r \<le> length (nodes p)"
    and d: "denotes (nodes (fst (emit p op l r a))) (aps p) (length (nodes p)) n"
  shows "program_ok (fst (emit p op l r a)) \<and> extends p (fst (emit p op l r a)) \<and>
     snd (emit p op l r a) = length (nodes p)"
proof -
  have ext: "extends p (fst (emit p op l r a))" by (simp add: extends_def emit_def)
  have aps: "aps (fst (emit p op l r a)) = aps p" by (simp add: emit_def)
  have "\<exists>n. denotes (nodes (fst (emit p op l r a))) (aps p) k n" if "k < Suc (length (nodes p))" for k
  proof (cases "k = length (nodes p)")
    case False
    with that p(1) obtain m where "denotes (nodes p) (aps p) k m" by (auto simp: program_ok_def less_Suc_eq)
    from extends_denotes [OF ext this] aps show ?thesis by auto
  qed (use d in blast)
  moreover have "op_lhs (nodes (fst (emit p op l r a)) ! k) \<le> k \<and> op_rhs (nodes (fst (emit p op l r a)) ! k) \<le> k"
    if "k < Suc (length (nodes p))" for k
    using that lr p(1) by (cases "k = length (nodes p)") (auto simp: emit_def program_ok_def nth_append)
  ultimately show ?thesis using ext p by (auto simp: program_ok_def emit_def)
qed

lemma spend_syntax_ok:
  "program_ok p \<Longrightarrow> spend_syntax p = Some q \<Longrightarrow>
   program_ok q \<and> extends p q \<and> nodes q = nodes p \<and> length (nodes q) + syntax_left q < MAX_NODES"
  by (auto simp: spend_syntax_def program_ok_def extends_def split: if_splits)

lemma program_ap_ok:
  assumes "program_ok p" "program_ap p name = Some (q, a)"
  shows "program_ok q \<and> extends p q \<and> nodes q = nodes p \<and> syntax_left q = syntax_left p \<and>
    a < length (aps q) \<and> aps q ! a = name"
proof (cases "index_of (aps p) name")
  case None
  with assms have q: "q = p\<lparr>aps := aps p @ [name]\<rparr>" "a = length (aps p)"
    by (auto simp: program_ap_def split: if_splits)
  then have "extends p q" "nodes q = nodes p" by (simp_all add: extends_def)
  then have "program_ok q" using program_ok_extend [OF assms(1)] q by simp
  with \<open>extends p q\<close> q show ?thesis by simp
next
  case (Some i)
  with assms index_of_SomeD [OF Some] show ?thesis by (auto simp: program_ap_def)
qed

text \<open>The last step of every case: one more instruction.\<close>

lemma compile_emit:
  assumes "spend_syntax p = Some p1" "program_ok p" and "program_ok p3" "extends p1 p3"
    and "length (nodes p3) + syntax_left p3 \<le> length (nodes p1) + syntax_left p1"
    and e: "emit p3 op l r a = (q, k)" and lr: "l \<le> length (nodes p3)" "r \<le> length (nodes p3)"
    and d: "denotes (nodes q) (aps p3) (length (nodes p3)) n"
  shows "program_ok q \<and> extends p q \<and> denotes (nodes q) (aps q) k n \<and>
   length (nodes q) + syntax_left q \<le> length (nodes p) + syntax_left p"
proof -
  note s = spend_syntax_ok [OF assms(2,1)]
  have q: "q = fst (emit p3 op l r a)" "k = length (nodes p3)" "aps q = aps p3"
    "length (nodes q) = Suc (length (nodes p3))" "syntax_left q = syntax_left p3"
    using e by (auto simp: emit_def)
  have "length (nodes p3) + syntax_left p3 < MAX_NODES" using s assms(5) by linarith
  with emit_ok [OF assms(3) _ lr, of op a n] d q have "program_ok q" "extends p3 q" by auto
  moreover have "extends p p3" using s assms(4) by (blast intro: extends_trans)
  moreover have "length (nodes p1) + syntax_left p1 < length (nodes p) + syntax_left p"
    using assms(1) by (auto simp: spend_syntax_def split: if_splits)
  ultimately show ?thesis using assms(5) d q by (auto intro: extends_trans)
qed

lemma compile_node_ok:
  "program_ok p \<Longrightarrow> compile_node n p = Some (q, k) \<Longrightarrow>
   program_ok q \<and> extends p q \<and> denotes (nodes q) (aps q) k n \<and>
   length (nodes q) + syntax_left q \<le> length (nodes p) + syntax_left p"
proof (induction n arbitrary: p q k)
  case NodeTrue
  then obtain p1 where p1: "spend_syntax p = Some p1" "emit p1 OpTrue 0 0 0 = (q, k)" by auto
  show ?case
    by (rule compile_emit [OF p1(1) NodeTrue.prems(1) _ _ _ p1(2)])
       (use spend_syntax_ok [OF NodeTrue.prems(1) p1(1)] p1(2) in \<open>auto simp: emit_def intro: denotes.intros\<close>)
next
  case NodeFalse
  then obtain p1 where p1: "spend_syntax p = Some p1" "emit p1 OpFalse 0 0 0 = (q, k)" by auto
  show ?case
    by (rule compile_emit [OF p1(1) NodeFalse.prems(1) _ _ _ p1(2)])
       (use spend_syntax_ok [OF NodeFalse.prems(1) p1(1)] p1(2) in \<open>auto simp: emit_def intro: denotes.intros\<close>)
next
  case (NodeAp name)
  then obtain p1 p2 a where p1: "spend_syntax p = Some p1" "program_ap p1 name = Some (p2, a)"
    "emit p2 OpAp 0 0 a = (q, k)" by (auto split: prod.splits)
  note s = spend_syntax_ok [OF NodeAp.prems(1) p1(1)]
  note t = program_ap_ok [OF _ p1(2)]
  show ?case
    by (rule compile_emit [OF p1(1) NodeAp.prems(1) _ _ _ p1(3)])
       (use s t p1(3) in \<open>auto simp: emit_def intro: denotes.intros\<close>)
next
  case (Unary u n)
  from Unary.prems(2) obtain p1 p2 l where p1: "spend_syntax p = Some p1" "compile_node n p1 = Some (p2, l)"
    "emit p2 (OpUn u) l 0 0 = (q, k)" by (auto split: prod.splits)
  note s = spend_syntax_ok [OF Unary.prems(1) p1(1)]
  have t: "program_ok p2" "extends p1 p2" "denotes (nodes p2) (aps p2) l n"
    "length (nodes p2) + syntax_left p2 \<le> length (nodes p1) + syntax_left p1"
    using Unary.IH [OF _ p1(2)] s by blast+
  have "denotes (nodes q) (aps p2) (length (nodes p2)) (Unary u n)"
    by (rule d_un) (use p1(3) denotes_less [OF t(3)] denotes_append [OF t(3), of _ "[]"] in
        \<open>auto simp: emit_def\<close>)
  with t denotes_less [OF t(3)] show ?case
    by (intro compile_emit [OF p1(1) Unary.prems(1) _ _ _ p1(3)]) auto
next
  case (Binary u m n)
  from Binary.prems(2) obtain p1 p2 l p3 r where p1: "spend_syntax p = Some p1" "compile_node m p1 = Some (p2, l)"
    "compile_node n p2 = Some (p3, r)" "emit p3 (OpBin u) l r 0 = (q, k)" by (auto split: prod.splits)
  note s = spend_syntax_ok [OF Binary.prems(1) p1(1)]
  have t: "program_ok p2" "extends p1 p2" "denotes (nodes p2) (aps p2) l m"
    "length (nodes p2) + syntax_left p2 \<le> length (nodes p1) + syntax_left p1"
    using Binary.IH(1) [OF _ p1(2)] s by blast+
  have v: "program_ok p3" "extends p2 p3" "denotes (nodes p3) (aps p3) r n"
    "length (nodes p3) + syntax_left p3 \<le> length (nodes p2) + syntax_left p2"
    using Binary.IH(2) [OF t(1) p1(3)] by blast+
  have l: "denotes (nodes p3) (aps p3) l m" by (rule extends_denotes [OF v(2) t(3)])
  have "denotes (nodes q) (aps p3) (length (nodes p3)) (Binary u m n)"
    by (rule d_bin) (use p1(4) denotes_less [OF l] denotes_less [OF v(3)]
      denotes_append [OF l, of _ "[]"] denotes_append [OF v(3), of _ "[]"] in \<open>auto simp: emit_def\<close>)
  moreover have "extends p1 p3" by (rule extends_trans [OF t(2) v(2)])
  ultimately show ?case
    using v(1,4) t(4) denotes_less [OF l] denotes_less [OF v(3)] by (intro compile_emit [OF p1(1) Binary.prems(1) _ _ _ p1(4)]) auto
qed (simp_all (no_asm_use))

subsection \<open>Environments\<close>

definition env_role :: "role \<Rightarrow> bool" where
  "env_role r \<longleftrightarrow> r = TLSF_ROLE_INITIALLY \<or> r = TLSF_ROLE_REQUIRE \<or> r = TLSF_ROLE_ASSUME"

definition root_for :: "program \<Rightarrow> nat \<times> role \<Rightarrow> section_entry \<Rightarrow> bool" where
  "root_for p kr e \<longleftrightarrow> denotes (nodes p) (aps p) (fst kr) (entry_formula e) \<and>
     snd kr = entry_role e \<and> env_role (entry_role e)"

lemma extends_nodes_denotes:
  "nodes q = nodes p @ ins \<Longrightarrow> aps q = aps p @ nms \<Longrightarrow> denotes (nodes p) (aps p) k n \<Longrightarrow>
   denotes (nodes q) (aps q) k n"
  by (simp add: denotes_append)

lemma compile_entries_ok:
  "program_ok p \<Longrightarrow> compile_entries es p = Some q \<Longrightarrow>
   program_ok q \<and> (\<exists>ins nms. nodes q = nodes p @ ins \<and> aps q = aps p @ nms) \<and>
   (\<exists>rs. roots q = roots p @ rs \<and> list_all2 (root_for q) rs es)"
proof (induction es arbitrary: p)
  case Nil
  then show ?case by simp
next
  case (Cons e es)
  from Cons.prems(2) obtain p1 k where r: "env_role (entry_role e)"
    and p1: "compile_node (entry_formula e) p = Some (p1, k)"
    and q: "compile_entries es (p1\<lparr>roots := roots p1 @ [(k, entry_role e)]\<rparr>) = Some q"
    by (auto simp: Let_def env_role_def split: if_splits)
  have ok: "program_ok p1" "extends p p1" "denotes (nodes p1) (aps p1) k (entry_formula e)"
    using compile_node_ok [OF Cons.prems(1) p1] by blast+
  have "program_ok (p1\<lparr>roots := roots p1 @ [(k, entry_role e)]\<rparr>)"
    using ok(1) by (simp add: program_ok_def)
  from Cons.IH [OF this q] obtain ins nms rs where q1: "program_ok q"
    "nodes q = nodes p1 @ ins" "aps q = aps p1 @ nms"
    "roots q = (roots p1 @ [(k, entry_role e)]) @ rs" "list_all2 (root_for q) rs es"
    by auto
  have "root_for q (k, entry_role e) e"
    using extends_nodes_denotes [OF q1(2,3) ok(3)] r by (simp add: root_for_def)
  with q1 ok(2) show ?case by (auto simp: extends_def)
qed

lemma compile_environment_ok:
  assumes "compile_environment d = Some p"
  shows "program_ok p" and "list_all2 (root_for p) (roots p) (entries d)"
    and "length (nodes p) \<le> 128" and "length (roots p) \<le> 128"
proof -
  have c: "compile_entries (entries d) empty_program = Some p" "length (entries d) \<le> 128"
    using assms by (auto simp: compile_environment_def MAX_NODES_def split: if_splits)
  have "program_ok empty_program" by (simp add: program_ok_def empty_program_def)
  from compile_entries_ok [OF this c(1)] show "program_ok p" "list_all2 (root_for p) (roots p) (entries d)"
    by (auto simp: empty_program_def)
  then show "length (nodes p) \<le> 128" "length (roots p) \<le> 128"
    using c(2) by (auto simp: program_ok_def MAX_NODES_def dest: list_all2_lengthD)
qed

subsection \<open>Evaluation\<close>

definition values_ok :: "program \<Rightarrow> env_lasso \<Rightarrow> u32 list \<Rightarrow> nat \<Rightarrow> bool" where
  "values_ok p w vs i \<longleftrightarrow> length vs = 128 \<and> (\<forall>k<128. in_mask w (vs ! k)) \<and>
     (\<forall>k<i. \<forall>n. denotes (nodes p) (aps p) k n \<longrightarrow> shows_pred w (vs ! k) (sat \<infinity> (lasso_trace w) n))"

lemma eval_instruction:
  assumes w: "lasso_valid w" and vs: "values_ok p w vs k" and d: "denotes (nodes p) (aps p) k n"
    and r: "eval_op p w (word_mask w) (nodes p ! k) (vs ! op_lhs (nodes p ! k)) (vs ! op_rhs (nodes p ! k)) b
      = Some (v, rest)"
  shows "shows_pred w v (sat \<infinity> (lasso_trace w) n)"
  using d
proof (cases rule: denotes.cases)
  case d_true
  with r shows_mask [OF w] show ?thesis by (simp add: eval_op_def)
next
  case d_false
  with r shows_0 show ?thesis by (simp add: eval_op_def)
next
  case (d_ap p')
  with r shows_ap [OF w, of p'] show ?thesis by (simp add: eval_op_def)
next
  case (d_un u a)
  have "shows_pred w (vs ! op_lhs (nodes p ! k)) (sat \<infinity> (lasso_trace w) a)"
    using vs d_un by (simp add: values_ok_def)
  from eval_op_un [OF w this d_un(3) r] d_un(1) show ?thesis by simp
next
  case (d_bin u a c)
  have "shows_pred w (vs ! op_lhs (nodes p ! k)) (sat \<infinity> (lasso_trace w) a)"
    "shows_pred w (vs ! op_rhs (nodes p ! k)) (sat \<infinity> (lasso_trace w) c)"
    using vs d_bin by (simp_all add: values_ok_def)
  from eval_op_bin [OF w this d_bin(3) r] d_bin(1) show ?thesis by simp
qed

lemma values_ok_step:
  assumes w: "lasso_valid w" and p: "program_ok p" and vs: "values_ok p w vs i" and i: "i < length (nodes p)"
    and r: "eval_op p w (word_mask w) (nodes p ! i) (vs ! op_lhs (nodes p ! i)) (vs ! op_rhs (nodes p ! i)) b
      = Some (v, rest)"
  shows "values_ok p w (vs[i := v]) (Suc i)"
proof -
  have i128: "i < 128" using p i by (simp add: program_ok_def MAX_NODES_def)
  obtain n where "denotes (nodes p) (aps p) i n" using p i by (auto simp: program_ok_def)
  then have "in_mask w v" using eval_instruction [OF w vs _ r] shows_in_mask by blast
  then show ?thesis
    using vs i128 eval_instruction [OF w vs _ r] by (auto simp: values_ok_def nth_list_update less_Suc_eq)
qed

lemma eval_nodes_ok:
  assumes w: "lasso_valid w" and p: "program_ok p"
  shows "values_ok p w vs i \<Longrightarrow> i \<le> length (nodes p) \<Longrightarrow>
    eval_nodes p w (drop i (nodes p)) i vs b = Some (vs', b') \<Longrightarrow>
    values_ok p w vs' (length (nodes p))"
proof (induction "length (nodes p) - i" arbitrary: i vs b)
  case 0
  then show ?case by simp
next
  case (Suc m)
  then have i: "i < length (nodes p)" by simp
  then have dr: "drop i (nodes p) = nodes p ! i # drop (Suc i) (nodes p)" by (simp add: Cons_nth_drop_Suc)
  from Suc.prems(3) obtain v b1 where
    v: "eval_op p w (word_mask w) (nodes p ! i) (vs ! op_lhs (nodes p ! i)) (vs ! op_rhs (nodes p ! i)) (b - 1)
      = Some (v, b1)" and rest: "eval_nodes p w (drop (Suc i) (nodes p)) (Suc i) (vs[i := v]) b1 = Some (vs', b')"
    unfolding dr by (auto split: if_splits prod.splits)
  show ?case
    by (rule Suc.hyps(1) [OF _ values_ok_step [OF w p Suc.prems(1) i v] _ rest]) (use Suc.hyps(2) i in auto)
qed

text \<open>Six units of budget per instruction are enough.\<close>

lemma eval_nodes_total:
  assumes w: "lasso_valid w" and p: "program_ok p"
  shows "values_ok p w vs i \<Longrightarrow> i \<le> length (nodes p) \<Longrightarrow> 6 * (length (nodes p) - i) \<le> b \<Longrightarrow>
    \<exists>vs' b'. eval_nodes p w (drop i (nodes p)) i vs b = Some (vs', b') \<and>
      b \<le> b' + 6 * (length (nodes p) - i)"
proof (induction "length (nodes p) - i" arbitrary: i vs b)
  case 0
  then show ?case by simp
next
  case (Suc m)
  then have i: "i < length (nodes p)" by simp
  then have dr: "drop i (nodes p) = nodes p ! i # drop (Suc i) (nodes p)" by (simp add: Cons_nth_drop_Suc)
  have b: "6 + 6 * (length (nodes p) - Suc i) \<le> b" using Suc.prems(3) i by simp
  then have b4: "4 < b - 1" by simp
  have "in_mask w (vs ! op_lhs (nodes p ! i))" "in_mask w (vs ! op_rhs (nodes p ! i))"
    using Suc.prems(1) p i by (fastforce simp: values_ok_def program_ok_def MAX_NODES_def)+
  then obtain v b1 where
    v: "eval_op p w (word_mask w) (nodes p ! i) (vs ! op_lhs (nodes p ! i)) (vs ! op_rhs (nodes p ! i)) (b - 1)
      = Some (v, b1)" and b1: "b - 1 \<le> b1 + 5"
    using eval_op_total [OF w shows_self shows_self b4] by blast
  have "m = length (nodes p) - Suc i" "Suc i \<le> length (nodes p)" "6 * (length (nodes p) - Suc i) \<le> b1"
    using Suc.hyps(2) i b b1 by simp_all
  from Suc.hyps(1) [OF this(1) values_ok_step [OF w p Suc.prems(1) i v] this(2,3)] b b1 v dr i
  show ?case by fastforce
qed

lemma eval_roots_iff:
  "fst (eval_roots w rs vs b) = ENV_WITNESS_SATISFIABLE \<longleftrightarrow>
     length rs \<le> b \<and> (\<forall>(k, r)\<in>set rs. let m = (if r = TLSF_ROLE_REQUIRE then word_mask w else 1)
       in vs ! k AND m = m)"
proof (induction rs arbitrary: b)
  case (Cons kr rs)
  obtain k r where "kr = (k, r)" by (cases kr)
  with Cons show ?case by (cases b) (auto simp: Let_def)
qed simp

text \<open>What the certificate promises about a word.\<close>

definition env_satisfied :: "section_view \<Rightarrow> trace \<Rightarrow> bool" where
  "env_satisfied d t \<longleftrightarrow> (\<forall>e\<in>set (entries d). env_role (entry_role e) \<and>
     (if entry_role e = TLSF_ROLE_REQUIRE then \<forall>i. sat \<infinity> t (entry_formula e) i
      else sat \<infinity> t (entry_formula e) 0))"

lemma root_value:
  assumes w: "lasso_valid w" and s: "shows_pred w v P"
  shows "(let m = (if r = TLSF_ROLE_REQUIRE then word_mask w else 1) in v AND m = m) \<longleftrightarrow>
    (if r = TLSF_ROLE_REQUIRE then \<forall>i. P i else P 0)"
proof (cases "r = TLSF_ROLE_REQUIRE")
  case True
  have "v AND word_mask w = word_mask w \<longleftrightarrow> (\<forall>j<lasso_length w. bit v j)"
  proof
    assume eq: "v AND word_mask w = word_mask w"
    have "bit (v AND word_mask w) j = bit (word_mask w) j" for j by (simp only: eq)
    then show "\<forall>j<lasso_length w. bit v j" by (auto simp: bit_and_iff bit_word_mask [OF w])
  next
    assume "\<forall>j<lasso_length w. bit v j"
    then show "v AND word_mask w = word_mask w"
      by (intro bit_word_eqI) (auto simp: bit_and_iff bit_word_mask [OF w])
  qed
  also have "\<dots> \<longleftrightarrow> (\<forall>i. bit v (lasso_pos w i))"
    using lasso_pos_less [OF w] lasso_pos_id by metis
  finally have "v AND word_mask w = word_mask w \<longleftrightarrow> (\<forall>i. bit v (lasso_pos w i))" .
  moreover have "(\<forall>i. P i) \<longleftrightarrow> (\<forall>i. bit v (lasso_pos w i))" using shows_pos [OF s] by blast
  ultimately show ?thesis using True by (simp add: Let_def)
next
  case False
  have "lasso_pos w 0 = 0" using lasso_validD(1) [OF w] by (simp add: lasso_pos_def)
  then have "P 0 = bit v 0" using s by (metis shows_pred_def)
  moreover have "v AND 1 = 1 \<longleftrightarrow> bit v 0"
    by (simp add: and_one_eq bit_0 odd_iff_mod_2_eq_one)
  ultimately show ?thesis using False by simp
qed

lemma roots_satisfied:
  assumes w: "lasso_valid w" and vs: "values_ok p w vs (length (nodes p))"
    and rs: "list_all2 (root_for p) rs es"
  shows "(\<forall>(k, r)\<in>set rs. let m = (if r = TLSF_ROLE_REQUIRE then word_mask w else 1) in vs ! k AND m = m) \<longleftrightarrow>
    (\<forall>e\<in>set es. env_role (entry_role e) \<and>
      (if entry_role e = TLSF_ROLE_REQUIRE then \<forall>i. sat \<infinity> (lasso_trace w) (entry_formula e) i
       else sat \<infinity> (lasso_trace w) (entry_formula e) 0))"
  using rs
proof (induction rule: list_all2_induct)
  case (Cons kr rs e es)
  obtain k r where kr: "kr = (k, r)" by (cases kr)
  with Cons(1) have d: "denotes (nodes p) (aps p) k (entry_formula e)" "r = entry_role e"
    "env_role (entry_role e)" by (simp_all add: root_for_def)
  have "shows_pred w (vs ! k) (sat \<infinity> (lasso_trace w) (entry_formula e))"
    using vs d(1) denotes_less [OF d(1)] by (simp add: values_ok_def)
  from root_value [OF w this, of r] Cons.IH d kr show ?case by simp
qed simp

lemma initial_values_ok: "values_ok p w (replicate MAX_NODES 0) 0"
  by (simp add: values_ok_def MAX_NODES_def in_mask_def)

lemma evaluate_sound:
  assumes w: "lasso_valid w" and c: "compile_environment d = Some p"
    and r: "fst (evaluate p w budget) = ENV_WITNESS_SATISFIABLE"
  shows "env_satisfied d (lasso_trace w)"
proof -
  note ok = compile_environment_ok [OF c]
  obtain vs b where vs: "eval_nodes p w (nodes p) 0 (replicate MAX_NODES 0) budget = Some (vs, b)"
    "fst (eval_roots w (roots p) vs b) = ENV_WITNESS_SATISFIABLE"
    using r by (auto simp: evaluate_def split: option.splits prod.splits)
  have "values_ok p w vs (length (nodes p))"
    using eval_nodes_ok [OF w ok(1) initial_values_ok, of budget vs b] vs(1) by simp
  from roots_satisfied [OF w this ok(2)] vs(2) show ?thesis
    unfolding eval_roots_iff env_satisfied_def by blast
qed

lemma evaluate_complete:
  assumes w: "lasso_valid w" and c: "compile_environment d = Some p" and b: "1000 \<le> budget"
    and sat: "env_satisfied d (lasso_trace w)"
  shows "fst (evaluate p w budget) = ENV_WITNESS_SATISFIABLE"
proof -
  note ok = compile_environment_ok [OF c]
  have "6 * length (nodes p) \<le> budget" using ok(3) b by linarith
  then obtain vs b' where vs: "eval_nodes p w (nodes p) 0 (replicate MAX_NODES 0) budget = Some (vs, b')"
    "budget \<le> b' + 6 * length (nodes p)"
    using eval_nodes_total [OF w ok(1) initial_values_ok, of budget] by auto
  have "values_ok p w vs (length (nodes p))"
    using eval_nodes_ok [OF w ok(1) initial_values_ok, of budget vs b'] vs(1) by simp
  note r = roots_satisfied [OF w this ok(2)]
  have "length (roots p) \<le> b'" using vs(2) ok(3,4) b by linarith
  with r sat have "fst (eval_roots w (roots p) vs b') = ENV_WITNESS_SATISFIABLE"
    unfolding eval_roots_iff env_satisfied_def by blast
  with vs(1) show ?thesis by (simp add: evaluate_def)
qed

subsection \<open>The search\<close>

text \<open>The atom table of a compiled program is a valid table of a lasso.\<close>

definition aps_ok :: "program \<Rightarrow> bool" where
  "aps_ok p \<longleftrightarrow> distinct (aps p) \<and> length (aps p) \<le> 8"

lemma compile_node_aps:
  "aps_ok p \<Longrightarrow> compile_node n p = Some (q, k) \<Longrightarrow> aps_ok q"
proof (induction n arbitrary: p q k)
  case (NodeAp name)
  from NodeAp.prems(2) obtain p1 p2 a where p1: "spend_syntax p = Some p1"
    "program_ap p1 name = Some (p2, a)" "emit p2 OpAp 0 0 a = (q, k)" by (auto split: prod.splits)
  have "aps_ok p1" using p1(1) NodeAp.prems(1) by (auto simp: spend_syntax_def aps_ok_def split: if_splits)
  with p1(2) have "aps_ok p2"
    by (cases "index_of (aps p1) name")
       (auto simp: program_ap_def aps_ok_def ENV_WITNESS_MAX_APS_def index_of_None split: if_splits)
  with p1(3) show ?case by (auto simp: emit_def aps_ok_def)
next
  case (Unary u n)
  from Unary.prems(2) obtain p1 p2 l where p1: "spend_syntax p = Some p1" "compile_node n p1 = Some (p2, l)"
    "emit p2 (OpUn u) l 0 0 = (q, k)" by (auto split: prod.splits)
  have "aps_ok p1" using p1(1) Unary.prems(1) by (auto simp: spend_syntax_def aps_ok_def split: if_splits)
  from Unary.IH [OF this p1(2)] p1(3) show ?case by (auto simp: emit_def aps_ok_def)
next
  case (Binary u m n)
  from Binary.prems(2) obtain p1 p2 l p3 r where p1: "spend_syntax p = Some p1"
    "compile_node m p1 = Some (p2, l)" "compile_node n p2 = Some (p3, r)"
    "emit p3 (OpBin u) l r 0 = (q, k)" by (auto split: prod.splits)
  have "aps_ok p1" using p1(1) Binary.prems(1) by (auto simp: spend_syntax_def aps_ok_def split: if_splits)
  from Binary.IH(2) [OF Binary.IH(1) [OF this p1(2)] p1(3)] p1(4) show ?case
    by (auto simp: emit_def aps_ok_def)
next
  case NodeTrue
  then show ?case by (auto simp: spend_syntax_def emit_def aps_ok_def split: if_splits)
next
  case NodeFalse
  then show ?case by (auto simp: spend_syntax_def emit_def aps_ok_def split: if_splits)
qed (simp_all (no_asm_use))

lemma compile_entries_aps:
  "aps_ok p \<Longrightarrow> compile_entries es p = Some q \<Longrightarrow> aps_ok q"
proof (induction es arbitrary: p)
  case (Cons e es)
  from Cons.prems(2) obtain p1 k where p1: "compile_node (entry_formula e) p = Some (p1, k)"
    and q: "compile_entries es (p1\<lparr>roots := roots p1 @ [(k, entry_role e)]\<rparr>) = Some q"
    by (auto simp: Let_def split: if_splits)
  have "aps_ok (p1\<lparr>roots := roots p1 @ [(k, entry_role e)]\<rparr>)"
    using compile_node_aps [OF Cons.prems(1) p1] by (simp add: aps_ok_def)
  from Cons.IH [OF this q] show ?case .
qed simp

lemma search_bits_sound:
  "search_bits p len lp bits end_bits budget = Inl True \<Longrightarrow>
   \<exists>b x. fst (evaluate p (search_lasso p len lp x) b) = ENV_WITNESS_SATISFIABLE"
proof (induction p len lp bits end_bits budget rule: search_bits.induct)
  case (1 p len lp bits end_bits budget)
  obtain r b where e: "evaluate p (search_lasso p len lp (of_nat bits)) (budget - 1) = (r, b)" by fastforce
  show ?case
  proof (cases r)
    case ENV_WITNESS_SATISFIABLE
    with e show ?thesis by (metis fst_conv)
  next
    case ENV_WITNESS_UNKNOWN
    with e "1.prems" have "search_bits p len lp (bits + 1) end_bits b = Inl True"
      "\<not> end_bits \<le> bits" "budget \<noteq> 0"
      by (subst (asm) (1) search_bits.simps, simp split: if_splits)+
    with "1.IH" [OF _ _ e [symmetric] ENV_WITNESS_UNKNOWN] show ?thesis by blast
  qed
qed

lemma search_loops_sound:
  "search_loops p len lps budget = Inl True \<Longrightarrow>
   \<exists>b x lp. lp \<in> set lps \<and> fst (evaluate p (search_lasso p len lp x) b) = ENV_WITNESS_SATISFIABLE"
proof (induction lps arbitrary: budget)
  case (Cons lp lps)
  show ?case
  proof (cases "search_bits p len lp 0 (2 ^ (length (aps p) * len)) budget")
    case (Inl r)
    with Cons.prems search_bits_sound [of p len lp 0 "2 ^ (length (aps p) * len)" budget]
    show ?thesis by auto
  next
    case (Inr b)
    with Cons.prems Cons.IH [of b] show ?thesis by auto
  qed
qed simp

lemma search_lengths_sound:
  "search_lengths p lens budget = Inl True \<Longrightarrow>
   \<exists>b x lp len. len \<in> set lens \<and> lp < len \<and>
     fst (evaluate p (search_lasso p len lp x) b) = ENV_WITNESS_SATISFIABLE"
proof (induction lens arbitrary: budget)
  case (Cons len lens)
  show ?case
  proof (cases "search_loops p len [0..<len] budget")
    case (Inl r)
    with Cons.prems search_loops_sound [of p len "[0..<len]" budget] show ?thesis by fastforce
  next
    case (Inr b)
    with Cons.prems Cons.IH [of b] show ?thesis by fastforce
  qed
qed simp

lemma env_witness_search_model:
  assumes "env_witness_search d budget = ENV_WITNESS_SATISFIABLE"
  shows "\<exists>t. env_satisfied d t"
proof -
  obtain p where p: "compile_environment d = Some p"
    "search_lengths p [1..<Suc ENV_WITNESS_MAX_LENGTH] budget = Inl True"
    using assms by (auto simp: env_witness_search_def split: option.splits sum.splits bool.splits)
  from search_lengths_sound [OF p(2)] obtain b x lp len
    where len: "len \<in> set [1..<Suc ENV_WITNESS_MAX_LENGTH]" and lp: "lp < len"
      and sat: "fst (evaluate p (search_lasso p len lp x) b) = ENV_WITNESS_SATISFIABLE" by blast
  from len lp sat have l: "0 < len" "len \<le> 4" "lp < len"
    "fst (evaluate p (search_lasso p len lp x) b) = ENV_WITNESS_SATISFIABLE"
    by (simp_all add: ENV_WITNESS_MAX_LENGTH_def)
  have "aps_ok empty_program" by (simp add: aps_ok_def empty_program_def)
  with p(1) have "aps_ok p"
    by (auto simp: compile_environment_def intro: compile_entries_aps split: if_splits)
  then have "lasso_valid (search_lasso p len lp x)"
    using l by (auto simp: lasso_valid_def search_lasso_def aps_ok_def ENV_WITNESS_MAX_LENGTH_def
        ENV_WITNESS_MAX_APS_def)
  from evaluate_sound [OF this p(1) l(4)] show ?thesis by blast
qed

subsection \<open>Properties\<close>

text \<open>
  C25. A positive certificate is genuine.  When \<^verbatim>\<open>env_lasso_check\<close> answers satisfiable, whatever
  the budget, the dropped view contains only environment roles and the infinite word of the
  lasso satisfies every INITIALLY and ASSUME formula at its first position and every REQUIRE
  formula at every position.
\<close>

theorem env_lasso_check_sound:
  assumes "env_lasso_check d w budget = ENV_WITNESS_SATISFIABLE"
  shows "env_satisfied d (lasso_trace w)"
  using assms evaluate_sound [of w d _ budget]
  by (auto simp: env_lasso_check_def split: if_splits option.splits)

theorem env_lasso_check_sound_witness:
  "env_satisfied \<lparr>view_semantics = SEM_MEALY, entries = [\<lparr>entry_role = TLSF_ROLE_ASSUME,
       entry_formula = node_f (NodeAp ''r''), entry_cls = FCLASS_LIVENESS\<rparr>], view_cap = 16\<rparr>
     (lasso_trace \<lparr>lasso_aps = [''r''], letters = [0, 1], lasso_length = 2, loop = 0\<rparr>)"
  by (rule env_lasso_check_sound [where budget = 100])
     code_simp

text \<open>
  C32. The check is exact when the budget is at least 1000, the program being limited to 128
  instructions: for a valid lasso and a view that compiles, the answer is satisfiable exactly
  when the word satisfies the environment.  In particular every fixpoint iteration ends.
\<close>

theorem env_lasso_check_exact:
  assumes "lasso_valid w" and "compile_environment d \<noteq> None" and "1000 \<le> budget"
  shows "env_lasso_check d w budget = ENV_WITNESS_SATISFIABLE \<longleftrightarrow> env_satisfied d (lasso_trace w)"
  using assms evaluate_sound [of w d _ budget] evaluate_complete [of w d _ budget]
  by (auto simp: env_lasso_check_def)

theorem env_lasso_check_exact_witness:
  "env_lasso_check \<lparr>view_semantics = SEM_MEALY, entries = [\<lparr>entry_role = TLSF_ROLE_REQUIRE,
       entry_formula = NodeFalse, entry_cls = FCLASS_SAFETY\<rparr>], view_cap = 16\<rparr>
     \<lparr>lasso_aps = [], letters = [0], lasso_length = 1, loop = 0\<rparr> 1000 \<noteq> ENV_WITNESS_SATISFIABLE"
proof -
  let ?d = "\<lparr>view_semantics = SEM_MEALY, entries = [\<lparr>entry_role = TLSF_ROLE_REQUIRE,
       entry_formula = NodeFalse, entry_cls = FCLASS_SAFETY\<rparr>], view_cap = 16\<rparr>"
  let ?w = "\<lparr>lasso_aps = [], letters = [0], lasso_length = 1, loop = 0\<rparr> :: env_lasso"
  have "lasso_valid ?w"
    by (simp add: lasso_valid_def ENV_WITNESS_MAX_LENGTH_def ENV_WITNESS_MAX_APS_def)
  moreover have "compile_environment ?d \<noteq> None"
    by (simp add: compile_environment_def MAX_NODES_def empty_program_def spend_syntax_def emit_def)
  ultimately show ?thesis
    using env_lasso_check_exact [of ?w ?d 1000] by (simp add: env_satisfied_def)
qed

text \<open>
  C33. The bounded search is sound: when it answers satisfiable, some infinite word satisfies
  the dropped environment.
\<close>

theorem env_witness_search_sound:
  assumes "env_witness_search d budget = ENV_WITNESS_SATISFIABLE"
  shows "\<exists>t. env_satisfied d t"
  by (rule env_witness_search_model [OF assms])

theorem env_witness_search_sound_witness:
  "\<exists>t. env_satisfied \<lparr>view_semantics = SEM_MEALY, entries = [\<lparr>entry_role = TLSF_ROLE_INITIALLY,
       entry_formula = node_not (NodeAp ''r''), entry_cls = FCLASS_SAFETY\<rparr>], view_cap = 16\<rparr> t"
  by (rule env_witness_search_sound [where budget = 100])
     code_simp

end
