(* ===== verification/Norm_Schedule.thy ===== *)
theory Norm_Schedule
  imports Spec Decimal
begin

text \<open>
  The schedules of the normalizer, first part of \<^verbatim>\<open>src/lib/normalize.c\<close>: passes, phases and
  rules with their soundness metadata, the parser of schedule strings, their printer, and the
  check that refuses a schedule whose rules are not sound for the words or not allowed in the
  phase.
\<close>

datatype norm_phase =
    TLSF_NORM_PHASE_PRE_EXPAND | TLSF_NORM_PHASE_MATCH | TLSF_NORM_PHASE_ROUTE
  | TLSF_NORM_PHASE_VISIBLE | TLSF_NORM_PHASE_BENCH

datatype norm_pass =
    TLSF_NORM_PASS_SPLIT | TLSF_NORM_PASS_NNF | TLSF_NORM_PASS_WEAK | TLSF_NORM_PASS_BOOL_CANON
  | TLSF_NORM_PASS_OR_TO_IMPL_PATTERN | TLSF_NORM_PASS_EQUIV_OUTPUT_SIDE
  | TLSF_NORM_PASS_MUTEX_DEMORGAN | TLSF_NORM_PASS_ROUTE_SAFE
  | TLSF_NORM_PASS_SICKERT_STAGE2 | TLSF_NORM_PASS_SICKERT_STAGE3
  | TLSF_NORM_PASS_PRE_INDEXED_X | TLSF_NORM_PASS_PRE_BOUNDED_BOOL
  | TLSF_NORM_PASS_PRE_SPINE_SPLIT | TLSF_NORM_PASS_PRE_WEAK

datatype norm_rule =
    TLSF_NORM_RULE_WEAK_DOUBLE_NEG | TLSF_NORM_RULE_WEAK_CONST_FOLD | TLSF_NORM_RULE_WEAK_IDEMPOTENT
  | TLSF_NORM_RULE_BOOL_FLATTEN_AND | TLSF_NORM_RULE_BOOL_FLATTEN_OR
  | TLSF_NORM_RULE_BOOL_SORT_AND | TLSF_NORM_RULE_BOOL_SORT_OR
  | TLSF_NORM_RULE_OR_TO_RESPONSE_IMPL | TLSF_NORM_RULE_OR_TO_GUARDED_NEXT_IMPL
  | TLSF_NORM_RULE_EQUIV_OUTPUT_LEFT | TLSF_NORM_RULE_MUTEX_DEMORGAN_PAIR
  | TLSF_NORM_RULE_ROUTE_NNF | TLSF_NORM_RULE_ROUTE_PUSH_G_IN | TLSF_NORM_RULE_ROUTE_PUSH_X_IN
  | TLSF_NORM_RULE_SICKERT_LIMIT_LIFT | TLSF_NORM_RULE_SICKERT_GF_W | TLSF_NORM_RULE_SICKERT_FG_U
  | TLSF_NORM_RULE_PRE_X0 | TLSF_NORM_RULE_PRE_XN_FLATTEN | TLSF_NORM_RULE_PRE_XN_BOOL_DISTRIBUTE
  | TLSF_NORM_RULE_PRE_BOUNDED_SINGLETON | TLSF_NORM_RULE_PRE_BOUNDED_EMPTY
  | TLSF_NORM_RULE_PRE_BOUNDED_CONST_FOLD | TLSF_NORM_RULE_PRE_SPINE_SPLIT | TLSF_NORM_RULE_PRE_WEAK

datatype norm_reject =
    TLSF_NORM_REJECT_NONE | TLSF_NORM_REJECT_GROWTH | TLSF_NORM_REJECT_NODES
  | TLSF_NORM_REJECT_FINITE_WORD | TLSF_NORM_REJECT_PHASE | TLSF_NORM_REJECT_NOT_APPLICABLE

primrec pass_name :: "norm_pass \<Rightarrow> string" where
  "pass_name TLSF_NORM_PASS_SPLIT = ''split''"
| "pass_name TLSF_NORM_PASS_NNF = ''nnf''"
| "pass_name TLSF_NORM_PASS_WEAK = ''weak''"
| "pass_name TLSF_NORM_PASS_BOOL_CANON = ''bool-canon''"
| "pass_name TLSF_NORM_PASS_OR_TO_IMPL_PATTERN = ''or-to-impl-pattern''"
| "pass_name TLSF_NORM_PASS_EQUIV_OUTPUT_SIDE = ''equiv-output-side''"
| "pass_name TLSF_NORM_PASS_MUTEX_DEMORGAN = ''mutex-demorgan''"
| "pass_name TLSF_NORM_PASS_ROUTE_SAFE = ''route-safe''"
| "pass_name TLSF_NORM_PASS_SICKERT_STAGE2 = ''sickert-stage2''"
| "pass_name TLSF_NORM_PASS_SICKERT_STAGE3 = ''sickert-stage3''"
| "pass_name TLSF_NORM_PASS_PRE_INDEXED_X = ''pre-indexed-x''"
| "pass_name TLSF_NORM_PASS_PRE_BOUNDED_BOOL = ''pre-bounded-bool''"
| "pass_name TLSF_NORM_PASS_PRE_SPINE_SPLIT = ''pre-spine-split''"
| "pass_name TLSF_NORM_PASS_PRE_WEAK = ''pre-weak''"

text \<open>The passes in the order of their enumerators.\<close>

definition all_passes :: "norm_pass list" where
  "all_passes =
     [TLSF_NORM_PASS_SPLIT, TLSF_NORM_PASS_NNF, TLSF_NORM_PASS_WEAK, TLSF_NORM_PASS_BOOL_CANON,
      TLSF_NORM_PASS_OR_TO_IMPL_PATTERN, TLSF_NORM_PASS_EQUIV_OUTPUT_SIDE,
      TLSF_NORM_PASS_MUTEX_DEMORGAN, TLSF_NORM_PASS_ROUTE_SAFE, TLSF_NORM_PASS_SICKERT_STAGE2,
      TLSF_NORM_PASS_SICKERT_STAGE3, TLSF_NORM_PASS_PRE_INDEXED_X, TLSF_NORM_PASS_PRE_BOUNDED_BOOL,
      TLSF_NORM_PASS_PRE_SPINE_SPLIT, TLSF_NORM_PASS_PRE_WEAK]"

subsection \<open>Rule metadata\<close>

record rule_info =
  rule_name :: string
  equivalence_infinite :: bool
  equivalence_finite :: bool
  allowed_pre_expand :: bool
  allowed_match :: bool
  allowed_route :: bool
  allowed_visible :: bool
  may_increase_nodes :: bool
  default_growth_cap_percent :: u32

definition RI :: "string \<Rightarrow> bool \<Rightarrow> bool \<Rightarrow> bool \<Rightarrow> bool \<Rightarrow> bool \<Rightarrow> bool \<Rightarrow> bool \<Rightarrow> u32 \<Rightarrow> rule_info" where
  "RI n ei ef pr ma ro vi grow growth_cap =
     \<lparr>rule_name = n, equivalence_infinite = ei, equivalence_finite = ef, allowed_pre_expand = pr,
      allowed_match = ma, allowed_route = ro, allowed_visible = vi, may_increase_nodes = grow,
      default_growth_cap_percent = growth_cap\<rparr>"

primrec RULES :: "norm_rule \<Rightarrow> rule_info" where
  "RULES TLSF_NORM_RULE_WEAK_DOUBLE_NEG = RI ''weak-double-neg'' True True False True True True False 0"
| "RULES TLSF_NORM_RULE_WEAK_CONST_FOLD = RI ''weak-const-fold'' True True False True True True False 0"
| "RULES TLSF_NORM_RULE_WEAK_IDEMPOTENT = RI ''weak-idempotent'' True True False True True True False 0"
| "RULES TLSF_NORM_RULE_BOOL_FLATTEN_AND = RI ''bool-flatten-and'' True True False True True True False 0"
| "RULES TLSF_NORM_RULE_BOOL_FLATTEN_OR = RI ''bool-flatten-or'' True True False True True True False 0"
| "RULES TLSF_NORM_RULE_BOOL_SORT_AND = RI ''bool-sort-and'' True True False True True True False 0"
| "RULES TLSF_NORM_RULE_BOOL_SORT_OR = RI ''bool-sort-or'' True True False True True True False 0"
| "RULES TLSF_NORM_RULE_OR_TO_RESPONSE_IMPL =
     RI ''or-to-response-impl'' True True False True True True False 0"
| "RULES TLSF_NORM_RULE_OR_TO_GUARDED_NEXT_IMPL =
     RI ''or-to-guarded-next-impl'' True True False True True True False 0"
| "RULES TLSF_NORM_RULE_EQUIV_OUTPUT_LEFT =
     RI ''equiv-output-left'' True True False True True True False 0"
| "RULES TLSF_NORM_RULE_MUTEX_DEMORGAN_PAIR =
     RI ''mutex-demorgan-pair'' True True False True True True False 0"
| "RULES TLSF_NORM_RULE_ROUTE_NNF = RI ''route-nnf'' True True False True True True False 0"
| "RULES TLSF_NORM_RULE_ROUTE_PUSH_G_IN = RI ''route-push-g-in'' True True False True True True True 200"
| "RULES TLSF_NORM_RULE_ROUTE_PUSH_X_IN = RI ''route-push-x-in'' True True False True True True True 200"
| "RULES TLSF_NORM_RULE_SICKERT_LIMIT_LIFT =
     RI ''sickert-limit-lift'' True False False True True True True 400"
| "RULES TLSF_NORM_RULE_SICKERT_GF_W = RI ''sickert-gf-w'' True False False True True True True 400"
| "RULES TLSF_NORM_RULE_SICKERT_FG_U = RI ''sickert-fg-u'' True False False True True True True 400"
| "RULES TLSF_NORM_RULE_PRE_X0 = RI ''pre-x0'' True True True False False False False 0"
| "RULES TLSF_NORM_RULE_PRE_XN_FLATTEN = RI ''pre-xn-flatten'' True True True False False False False 0"
| "RULES TLSF_NORM_RULE_PRE_XN_BOOL_DISTRIBUTE =
     RI ''pre-xn-bool-distribute'' True True True False False False True 300"
| "RULES TLSF_NORM_RULE_PRE_BOUNDED_SINGLETON =
     RI ''pre-bounded-singleton'' True True True False False False False 0"
| "RULES TLSF_NORM_RULE_PRE_BOUNDED_EMPTY =
     RI ''pre-bounded-empty'' True True True False False False False 0"
| "RULES TLSF_NORM_RULE_PRE_BOUNDED_CONST_FOLD =
     RI ''pre-bounded-const-fold'' True True True False False False False 0"
| "RULES TLSF_NORM_RULE_PRE_SPINE_SPLIT = RI ''pre-spine-split'' True True True False False False False 0"
| "RULES TLSF_NORM_RULE_PRE_WEAK = RI ''pre-weak'' True True True False False False False 0"

primrec pass_rules :: "norm_pass \<Rightarrow> norm_rule list" where
  "pass_rules TLSF_NORM_PASS_SPLIT = []"
| "pass_rules TLSF_NORM_PASS_NNF = [TLSF_NORM_RULE_ROUTE_NNF]"
| "pass_rules TLSF_NORM_PASS_WEAK =
     [TLSF_NORM_RULE_WEAK_DOUBLE_NEG, TLSF_NORM_RULE_WEAK_CONST_FOLD, TLSF_NORM_RULE_WEAK_IDEMPOTENT]"
| "pass_rules TLSF_NORM_PASS_BOOL_CANON =
     [TLSF_NORM_RULE_BOOL_FLATTEN_AND, TLSF_NORM_RULE_BOOL_FLATTEN_OR,
      TLSF_NORM_RULE_BOOL_SORT_AND, TLSF_NORM_RULE_BOOL_SORT_OR]"
| "pass_rules TLSF_NORM_PASS_OR_TO_IMPL_PATTERN =
     [TLSF_NORM_RULE_OR_TO_RESPONSE_IMPL, TLSF_NORM_RULE_OR_TO_GUARDED_NEXT_IMPL]"
| "pass_rules TLSF_NORM_PASS_EQUIV_OUTPUT_SIDE = [TLSF_NORM_RULE_EQUIV_OUTPUT_LEFT]"
| "pass_rules TLSF_NORM_PASS_MUTEX_DEMORGAN = [TLSF_NORM_RULE_MUTEX_DEMORGAN_PAIR]"
| "pass_rules TLSF_NORM_PASS_ROUTE_SAFE =
     [TLSF_NORM_RULE_ROUTE_NNF, TLSF_NORM_RULE_ROUTE_PUSH_G_IN, TLSF_NORM_RULE_ROUTE_PUSH_X_IN]"
| "pass_rules TLSF_NORM_PASS_SICKERT_STAGE2 = [TLSF_NORM_RULE_SICKERT_LIMIT_LIFT]"
| "pass_rules TLSF_NORM_PASS_SICKERT_STAGE3 = [TLSF_NORM_RULE_SICKERT_GF_W, TLSF_NORM_RULE_SICKERT_FG_U]"
| "pass_rules TLSF_NORM_PASS_PRE_INDEXED_X = [TLSF_NORM_RULE_PRE_XN_FLATTEN, TLSF_NORM_RULE_PRE_X0]"
| "pass_rules TLSF_NORM_PASS_PRE_BOUNDED_BOOL =
     [TLSF_NORM_RULE_PRE_BOUNDED_EMPTY, TLSF_NORM_RULE_PRE_BOUNDED_SINGLETON,
      TLSF_NORM_RULE_PRE_BOUNDED_CONST_FOLD]"
| "pass_rules TLSF_NORM_PASS_PRE_SPINE_SPLIT = [TLSF_NORM_RULE_PRE_SPINE_SPLIT]"
| "pass_rules TLSF_NORM_PASS_PRE_WEAK = [TLSF_NORM_RULE_PRE_WEAK]"

text \<open>\<^verbatim>\<open>TLSF_NORM_RULE_COUNT\<close>, for a pass without rules, is \<^const>\<open>None\<close>.\<close>

definition pass_primary_rule :: "norm_pass \<Rightarrow> norm_rule option" where
  "pass_primary_rule p = (case pass_rules p of [] \<Rightarrow> None | r # rs \<Rightarrow> Some r)"

primrec rule_allowed_in_phase :: "rule_info \<Rightarrow> norm_phase \<Rightarrow> bool" where
  "rule_allowed_in_phase ri TLSF_NORM_PHASE_PRE_EXPAND = allowed_pre_expand ri"
| "rule_allowed_in_phase ri TLSF_NORM_PHASE_MATCH = allowed_match ri"
| "rule_allowed_in_phase ri TLSF_NORM_PHASE_ROUTE = allowed_route ri"
| "rule_allowed_in_phase ri TLSF_NORM_PHASE_VISIBLE = allowed_visible ri"
| "rule_allowed_in_phase ri TLSF_NORM_PHASE_BENCH = allowed_visible ri"

definition pass_is_pre :: "norm_pass \<Rightarrow> bool" where
  "pass_is_pre p \<longleftrightarrow> p = TLSF_NORM_PASS_PRE_INDEXED_X \<or> p = TLSF_NORM_PASS_PRE_BOUNDED_BOOL \<or>
     p = TLSF_NORM_PASS_PRE_SPINE_SPLIT \<or> p = TLSF_NORM_PASS_PRE_WEAK"

subsection \<open>Schedules\<close>

type_synonym pass_spec = "norm_pass \<times> u32"
type_synonym norm_schedule = "pass_spec list"

definition tlsf_norm_schedule_is_pre :: "norm_schedule \<Rightarrow> bool" where
  "tlsf_norm_schedule_is_pre sch = list_ex (\<lambda>s. pass_is_pre (fst s)) sch"

definition tlsf_norm_schedule_is_post :: "norm_schedule \<Rightarrow> bool" where
  "tlsf_norm_schedule_is_post sch = list_ex (\<lambda>s. \<not> pass_is_pre (fst s)) sch"

definition pass_from_name :: "string \<Rightarrow> norm_pass option" where
  "pass_from_name name =
     (if name = ''boolean'' then Some TLSF_NORM_PASS_WEAK
      else find (\<lambda>p. name = pass_name p) all_passes)"

definition PROFILE_REPEAT_CAP :: u32 where "PROFILE_REPEAT_CAP = 16"

definition match_safe_block :: norm_schedule where
  "match_safe_block = [(TLSF_NORM_PASS_WEAK, 1), (TLSF_NORM_PASS_BOOL_CANON, 1),
     (TLSF_NORM_PASS_OR_TO_IMPL_PATTERN, 1), (TLSF_NORM_PASS_EQUIV_OUTPUT_SIDE, 1),
     (TLSF_NORM_PASS_MUTEX_DEMORGAN, 1)]"

definition pre_safe_block :: norm_schedule where
  "pre_safe_block = [(TLSF_NORM_PASS_PRE_INDEXED_X, 1), (TLSF_NORM_PASS_PRE_BOUNDED_BOOL, 1),
     (TLSF_NORM_PASS_PRE_SPINE_SPLIT, 1)]"

definition expand_token :: "string \<Rightarrow> u32 \<Rightarrow> norm_schedule option" where
  "expand_token base iter =
     (case pass_from_name base of
        Some p \<Rightarrow> Some [(p, iter)]
      | None \<Rightarrow>
          let rep = (if iter \<noteq> 0 then iter else 1);
              rep = (if rep > PROFILE_REPEAT_CAP then PROFILE_REPEAT_CAP else rep)
          in if base = ''off'' then Some []
             else if base = ''match-safe'' then Some (concat (replicate (unat rep) match_safe_block))
             else if base = ''pre-safe'' then Some (concat (replicate (unat rep) pre_safe_block))
             else if base = ''sickert-bounded''
             then Some [(TLSF_NORM_PASS_SICKERT_STAGE2, rep), (TLSF_NORM_PASS_WEAK, 1),
                        (TLSF_NORM_PASS_SICKERT_STAGE3, rep), (TLSF_NORM_PASS_WEAK, 1)]
             else None)"

text \<open>The text before the first colon, and what follows it when there is one.\<close>

definition split_colon :: "string \<Rightarrow> string \<times> string option" where
  "split_colon tok =
     (takeWhile (\<lambda>c. c \<noteq> CHR '':'') tok,
      case dropWhile (\<lambda>c. c \<noteq> CHR '':'') tok of [] \<Rightarrow> None | _ # r \<Rightarrow> Some r)"

definition parse_token :: "string \<Rightarrow> norm_schedule option" where
  "parse_token t =
     (let tok = dropWhile (\<lambda>c. c = CHR '' '') t;
          (base, suffix) = split_colon tok
      in do { iter \<leftarrow> (case suffix of None \<Rightarrow> Some 0
                       | Some r \<Rightarrow> (case strtol10 r of (v, rest) \<Rightarrow>
                           if rest \<noteq> [] \<or> v < 0 then None else Some (word_of_int v)));
              if base = [] then Some [] else expand_token base iter })"

fun parse_token_list :: "string list \<Rightarrow> norm_schedule option" where
  "parse_token_list [] = Some []"
| "parse_token_list (t # ts) =
     do { xs \<leftarrow> parse_token t; ys \<leftarrow> parse_token_list ts; Some (xs @ ys) }"

definition tlsf_norm_parse_schedule :: "string \<Rightarrow> norm_schedule option" where
  "tlsf_norm_parse_schedule s = parse_token_list (split_tok [] s)"

definition pass_spec_string :: "pass_spec \<Rightarrow> string" where
  "pass_spec_string s =
     (if snd s > 1 then pass_name (fst s) @ CHR '':'' # show_nat (unat (snd s)) else pass_name (fst s))"

fun join_comma :: "string list \<Rightarrow> string" where
  "join_comma [] = []"
| "join_comma [x] = x"
| "join_comma (x # y # ys) = x @ CHR '','' # join_comma (y # ys)"

definition tlsf_norm_schedule_string :: "norm_schedule \<Rightarrow> string" where
  "tlsf_norm_schedule_string sch =
     (if sch = [] then ''off'' else join_comma (map pass_spec_string sch))"

text \<open>The size of the buffer the printer allocates.\<close>

definition schedule_string_cap :: "norm_schedule \<Rightarrow> nat" where
  "schedule_string_cap sch = 1 + (\<Sum>s\<leftarrow>sch. length (pass_name (fst s)) + 14)"

subsection \<open>The check\<close>

definition rule_reject :: "bool \<Rightarrow> norm_phase \<Rightarrow> norm_rule \<Rightarrow> norm_reject option" where
  "rule_reject finite_word phase r =
     (if finite_word \<and> \<not> equivalence_finite (RULES r) then Some TLSF_NORM_REJECT_FINITE_WORD
      else if \<not> rule_allowed_in_phase (RULES r) phase then Some TLSF_NORM_REJECT_PHASE
      else None)"

fun first_reject :: "bool \<Rightarrow> norm_phase \<Rightarrow> norm_rule list \<Rightarrow> norm_reject option" where
  "first_reject finite_word phase [] = None"
| "first_reject finite_word phase (r # rs) =
     (case rule_reject finite_word phase r of Some x \<Rightarrow> Some x | None \<Rightarrow> first_reject finite_word phase rs)"

text \<open>The verdict and the reason: \<^const>\<open>TLSF_NORM_REJECT_NONE\<close> when accepted.\<close>

definition tlsf_norm_schedule_check :: "norm_schedule \<Rightarrow> bool \<Rightarrow> norm_phase \<Rightarrow> bool \<times> norm_reject" where
  "tlsf_norm_schedule_check sch finite_word phase =
     (case first_reject finite_word phase (concat (map (\<lambda>s. pass_rules (fst s)) sch)) of
        None \<Rightarrow> (True, TLSF_NORM_REJECT_NONE) | Some r \<Rightarrow> (False, r))"

subsection \<open>Printing and parsing\<close>

lemma pass_name_clean:
  "pass_name p \<noteq> [] \<and> CHR '':'' \<notin> set (pass_name p) \<and> CHR '','' \<notin> set (pass_name p) \<and>
   hd (pass_name p) \<noteq> CHR '' ''"
  by (cases p) simp_all

lemma pass_from_pass_name [simp]: "pass_from_name (pass_name p) = Some p"
  by (cases p) (simp_all add: pass_from_name_def all_passes_def)

lemma split_tok_join:
  "list_all (\<lambda>x. x \<noteq> [] \<and> CHR '','' \<notin> set x) xs \<Longrightarrow> split_tok [] (join_comma xs) = xs"
proof (induction xs rule: join_comma.induct)
  have last: "CHR '','' \<notin> set x \<Longrightarrow> split_tok cur x = (if cur = [] \<and> x = [] then [] else [rev cur @ x])" for cur x
    by (induction x arbitrary: cur) auto
  {
    case (2 x)
    then show ?case using last [of x "[]"] by simp
  next
    case (3 x y ys)
    have "split_tok cur (x @ CHR '','' # r) = (rev cur @ x) # split_tok [] r"
      if "CHR '','' \<notin> set x" "cur \<noteq> [] \<or> x \<noteq> []" for cur x r
      using that by (induction x arbitrary: cur) auto
    with 3 show ?case by simp
  }
qed simp

lemma split_colon_plain: "CHR '':'' \<notin> set x \<Longrightarrow> split_colon x = (x, None)"
proof -
  assume "CHR '':'' \<notin> set x"
  then have d: "dropWhile (\<lambda>c. c \<noteq> CHR '':'') x = []" and t: "takeWhile (\<lambda>c. c \<noteq> CHR '':'') x = x"
    by (auto simp: dropWhile_eq_Nil_conv takeWhile_eq_all_conv)
  show ?thesis unfolding split_colon_def d t by simp
qed

lemma split_colon_suffix: "CHR '':'' \<notin> set x \<Longrightarrow> split_colon (x @ CHR '':'' # r) = (x, Some r)"
proof -
  assume x: "CHR '':'' \<notin> set x"
  then have "takeWhile (\<lambda>c. c \<noteq> CHR '':'') (x @ CHR '':'' # r) = x"
    "dropWhile (\<lambda>c. c \<noteq> CHR '':'') (x @ CHR '':'' # r) = CHR '':'' # r"
    by (induction x) auto
  then show ?thesis by (simp add: split_colon_def)
qed

lemma parse_token_print:
  "parse_token (pass_spec_string (p, it)) = Some [(p, if it > 1 then it else 0)]"
proof -
  note n = pass_name_clean [of p]
  have dw: "dropWhile (\<lambda>c. c = CHR '' '') (pass_name p @ r) = pass_name p @ r" for r
    using n by (cases "pass_name p") auto
  show ?thesis
  proof (cases "it > 1")
    case True
    have "unat it < 2 ^ LENGTH(32)" by (rule unsigned_less)
    then have it: "unat it < 2 ^ 63" by simp
    have sp: "split_colon (pass_name p @ CHR '':'' # show_nat (unat it)) = (pass_name p, Some (show_nat (unat it)))"
      using n by (intro split_colon_suffix) simp
    have back_val: "(word_of_int (int (unat it)) :: u32) = it" by simp
    have "parse_token (pass_name p @ CHR '':'' # show_nat (unat it)) = Some [(p, it)]"
      unfolding parse_token_def dw Let_def sp using n strtol10_show_nat [OF it] back_val
      by (simp add: expand_token_def)
    with True show ?thesis by (simp add: pass_spec_string_def)
  next
    case False
    have "parse_token (pass_name p) = Some [(p, 0)]"
      using dw [of "[]"] n by (simp add: parse_token_def split_colon_plain expand_token_def)
    with False show ?thesis by (simp add: pass_spec_string_def)
  qed
qed

lemma pass_spec_string_clean: "pass_spec_string s \<noteq> [] \<and> CHR '','' \<notin> set (pass_spec_string s)"
proof -
  have "CHR '','' \<notin> set (show_nat n)" for n
    using show_nat_digits [of n] digit_not_space by (auto simp: list_all_iff)
  with pass_name_clean [of "fst s"] show ?thesis by (auto simp: pass_spec_string_def)
qed

lemma parse_print_list:
  "parse_token_list (map pass_spec_string sch) = Some (map (\<lambda>(p, it). (p, if it > 1 then it else 0)) sch)"
proof (induction sch)
  case (Cons s sch)
  then show ?case using parse_token_print [of "fst s" "snd s"] by (cases s) simp
qed simp

lemma length_pass_spec_string: "length (pass_spec_string s) \<le> length (pass_name (fst s)) + 11"
proof -
  have "unat (snd s) < 2 ^ LENGTH(32)" by (rule unsigned_less)
  then have "unat (snd s) < 10 ^ Suc 9" by simp
  from length_show_nat [OF this] show ?thesis by (simp add: pass_spec_string_def)
qed

lemma length_join_comma: "length (join_comma xs) \<le> (\<Sum>x\<leftarrow>xs. length x + 1)"
  by (induction xs rule: join_comma.induct) auto

text \<open>No rule of a Sickert pass is an equivalence on finite words.\<close>

lemma first_reject_None:
  "first_reject finite_word phase rs = None \<longleftrightarrow>
   list_all (\<lambda>r. (finite_word \<longrightarrow> equivalence_finite (RULES r)) \<and>
     rule_allowed_in_phase (RULES r) phase) rs"
  by (induction rs) (auto simp: rule_reject_def split: if_splits)

lemma schedule_check_iff:
  "fst (tlsf_norm_schedule_check sch finite_word phase) \<longleftrightarrow>
   list_all (\<lambda>s. list_all (\<lambda>r. (finite_word \<longrightarrow> equivalence_finite (RULES r)) \<and>
     rule_allowed_in_phase (RULES r) phase) (pass_rules (fst s))) sch"
  using first_reject_None [of finite_word phase "concat (map (\<lambda>s. pass_rules (fst s)) sch)"]
  by (cases "first_reject finite_word phase (concat (map (\<lambda>s. pass_rules (fst s)) sch))")
     (auto simp: tlsf_norm_schedule_check_def list_all_iff)

lemma sickert_not_finite:
  "\<not> equivalence_finite (RULES TLSF_NORM_RULE_SICKERT_LIMIT_LIFT)"
  "\<not> equivalence_finite (RULES TLSF_NORM_RULE_SICKERT_GF_W)"
  by (simp_all add: RI_def)

lemma schedule_check_no_sickert:
  assumes "fst (tlsf_norm_schedule_check sch finite_word phase)"
  shows "\<not> (finite_word \<and>
      list_ex (\<lambda>s. fst s = TLSF_NORM_PASS_SICKERT_STAGE2 \<or> fst s = TLSF_NORM_PASS_SICKERT_STAGE3) sch)"
  using assms sickert_not_finite unfolding schedule_check_iff
  by (fastforce simp: list_all_iff list_ex_iff)

subsection \<open>Properties\<close>

text \<open>
  C39. Printing a schedule and parsing it back gives the same passes in the same order with the
  same iteration counts, a count of one (which the driver does not distinguish from none) being
  read back as none; and the text fits the buffer the printer allocates.
\<close>

theorem schedule_string_roundtrip:
  "tlsf_norm_parse_schedule (tlsf_norm_schedule_string sch) =
     Some (map (\<lambda>(p, it). (p, if it > 1 then it else 0)) sch) \<and>
   (sch = [] \<or> length (tlsf_norm_schedule_string sch) < schedule_string_cap sch)"
proof (cases "sch = []")
  case True
  have "parse_token ''off'' = Some []"
    by (simp add: parse_token_def split_colon_def expand_token_def pass_from_name_def all_passes_def Let_def)
  with True show ?thesis by (simp add: tlsf_norm_schedule_string_def tlsf_norm_parse_schedule_def)
next
  case False
  have "split_tok [] (join_comma (map pass_spec_string sch)) = map pass_spec_string sch"
    by (rule split_tok_join) (simp add: list_all_iff pass_spec_string_clean)
  moreover have "length (join_comma (map pass_spec_string sch)) \<le> (\<Sum>s\<leftarrow>sch. length (pass_spec_string s) + 1)"
    using length_join_comma [of "map pass_spec_string sch"] by (simp add: comp_def)
  moreover have "(\<Sum>s\<leftarrow>sch. length (pass_spec_string s) + 1) \<le> (\<Sum>s\<leftarrow>sch. length (pass_name (fst s)) + 14)"
  proof (rule sum_list_mono)
    fix s
    show "length (pass_spec_string s) + 1 \<le> length (pass_name (fst s)) + 14"
      using length_pass_spec_string [of s] by linarith
  qed
  ultimately show ?thesis using False
    by (simp add: tlsf_norm_schedule_string_def tlsf_norm_parse_schedule_def parse_print_list
        schedule_string_cap_def)
qed

text \<open>
  The check accepts a schedule exactly when every rule of every pass is an equivalence on
  the words of the specification and allowed in the phase; on a finite-word specification no
  Sickert pass is ever accepted.
\<close>

lemma schedule_check_correct:
  "(fst (tlsf_norm_schedule_check sch finite_word phase) =
     list_all (\<lambda>s. list_all (\<lambda>r. (if finite_word then equivalence_finite (RULES r) else True) \<and>
        rule_allowed_in_phase (RULES r) phase) (pass_rules (fst s))) sch) \<and>
   \<not> (finite_word \<and> fst (tlsf_norm_schedule_check sch finite_word phase) \<and>
      list_ex (\<lambda>s. fst s = TLSF_NORM_PASS_SICKERT_STAGE2 \<or> fst s = TLSF_NORM_PASS_SICKERT_STAGE3) sch)"
  using schedule_check_no_sickert [of sch finite_word phase]
  by (auto simp: schedule_check_iff list_all_iff)

end
