(* ===== verification/Norm_Match.thy ===== *)
theory Norm_Match
  imports Rewrite
begin

text \<open>
  The match-safe pattern passes of \<^verbatim>\<open>src/lib/normalize.c\<close> that expose the template shapes the
  recognisers parse: \<^verbatim>\<open>or_to_impl\<close>, \<^verbatim>\<open>mutex_demorgan\<close> and \<^verbatim>\<open>equiv_output_side\<close>, all driven by
  \<^verbatim>\<open>map_children\<close>.  The C code returns the same pointer when nothing changed; the rebuilt
  node is the same formula.
\<close>

subsection \<open>Bottom-up traversal\<close>

definition map_children :: "(node \<Rightarrow> node) \<Rightarrow> node \<Rightarrow> node" where
  "map_children f n = (case n of
     Unary k a \<Rightarrow> Unary k (f a)
   | Binary k l r \<Rightarrow> Binary k (f l) (f r)
   | _ \<Rightarrow> n)"

lemma map_children_cong [fundef_cong]:
  assumes "n = m" and "\<And>k a. m = Unary k a \<Longrightarrow> f a = g a"
    and "\<And>k l r. m = Binary k l r \<Longrightarrow> f l = g l"
    and "\<And>k l r. m = Binary k l r \<Longrightarrow> f r = g r"
  shows "map_children f n = map_children g m"
  using assms by (auto simp: map_children_def split: node.splits)

lemma map_children_simps [simp]:
  "map_children f (Unary k a) = Unary k (f a)"
  "map_children f (Binary k2 l r) = Binary k2 (f l) (f r)"
  "map_children f NodeTrue = NodeTrue"
  "map_children f NodeFalse = NodeFalse"
  "map_children f (NodeAp p) = NodeAp p"
  by (simp_all add: map_children_def)

subsection \<open>The passes\<close>

fun is_response_rhs :: "node \<Rightarrow> bool" where
  "is_response_rhs (Unary k _) = (k = NODE_F \<or> k = NODE_X \<or> k = NODE_X_STRONG)"
| "is_response_rhs _ = False"

text \<open>The root rewrite: \<open>!r || \<psi>\<close> and \<open>\<psi> || !r\<close> become \<open>r -> \<psi>\<close> for a response \<open>\<psi>\<close>.\<close>

definition or_to_impl_root :: "node \<Rightarrow> node" where
  "or_to_impl_root r =
     (if is_bin NODE_OR r then
        (let l = bin_lhs r; rhs = bin_rhs r in
         if is_un NODE_NOT l \<and> is_response_rhs rhs then node_impl (un_arg l) rhs
         else if is_un NODE_NOT rhs \<and> is_response_rhs l then node_impl (un_arg rhs) l
         else r)
      else r)"

function or_to_impl :: "node \<Rightarrow> node" where
  "or_to_impl n = or_to_impl_root (map_children or_to_impl n)"
  by pat_completeness auto
termination by (relation "measure size") auto

fun is_ap :: "node \<Rightarrow> bool" where
  "is_ap (NodeAp _) = True"
| "is_ap _ = False"

definition mutex_demorgan_root :: "node \<Rightarrow> node" where
  "mutex_demorgan_root r =
     (if is_bin NODE_OR r \<and> is_un NODE_NOT (bin_lhs r) \<and> is_un NODE_NOT (bin_rhs r) \<and>
         is_ap (un_arg (bin_lhs r)) \<and> is_ap (un_arg (bin_rhs r))
      then node_not (node_and (un_arg (bin_lhs r)) (un_arg (bin_rhs r)))
      else r)"

function mutex_demorgan :: "node \<Rightarrow> node" where
  "mutex_demorgan n = mutex_demorgan_root (map_children mutex_demorgan n)"
  by pat_completeness auto
termination by (relation "measure size") auto

text \<open>The \<open>while\<close> loop of \<^verbatim>\<open>is_output_side\<close> over the next chain.\<close>

fun is_next_chain_over_ap :: "node \<Rightarrow> bool" where
  "is_next_chain_over_ap (Unary NODE_X n) = is_next_chain_over_ap n"
| "is_next_chain_over_ap (Unary NODE_X_STRONG n) = is_next_chain_over_ap n"
| "is_next_chain_over_ap (NodeAp _) = True"
| "is_next_chain_over_ap _ = False"

fun is_output_side :: "node \<Rightarrow> bool" where
  "is_output_side (Unary NODE_NOT n) = is_next_chain_over_ap n"
| "is_output_side n = is_next_chain_over_ap n"

definition equiv_output_side_root :: "node \<Rightarrow> node" where
  "equiv_output_side_root r =
     (if is_bin NODE_EQUIV r \<and> is_output_side (bin_rhs r) \<and> \<not> is_output_side (bin_lhs r)
      then node_equiv (bin_rhs r) (bin_lhs r) else r)"

function equiv_output_side :: "node \<Rightarrow> node" where
  "equiv_output_side n = equiv_output_side_root (map_children equiv_output_side n)"
  by pat_completeness auto
termination by (relation "measure size") auto

declare or_to_impl.simps [simp del] mutex_demorgan.simps [simp del]
  equiv_output_side.simps [simp del]

subsection \<open>A sound root rewrite makes a sound pass\<close>

text \<open>
  The interface: a pass that rewrites the root after its children.  \<open>shape\<close> is what the
  root rewrite looks for; it must leave no such shape at the root or in the parts it moves.
\<close>

primrec subformulas :: "node \<Rightarrow> node set" where
  "subformulas NodeTrue = {NodeTrue}"
| "subformulas NodeFalse = {NodeFalse}"
| "subformulas (NodeAp p) = {NodeAp p}"
| "subformulas (NodeInt v) = {NodeInt v}"
| "subformulas (Unary k a) = insert (Unary k a) (subformulas a)"
| "subformulas (Binary k a b) = insert (Binary k a b) (subformulas a \<union> subformulas b)"
| "subformulas (IntVar s) = {IntVar s}"
| "subformulas (SizeOf s) = {SizeOf s}"
| "subformulas (HlUnary k a) = {HlUnary k a}"
| "subformulas (HlBinary k a b) = {HlBinary k a b}"
| "subformulas (Call k s as) = {Call k s as}"
| "subformulas (BusIndex s a) = {BusIndex s a}"
| "subformulas (Ite a b c) = {Ite a b c}"
| "subformulas (NextN s a b) = {NextN s a b}"
| "subformulas (BoundedOp k s a b c) = {BoundedOp k s a b c}"
| "subformulas (Quant k v b n) = {Quant k v b n}"
| "subformulas (SetLit k as) = {SetLit k as}"

locale bottom_up =
  fixes f rew :: "node \<Rightarrow> node" and shape :: "node \<Rightarrow> bool"
  assumes f_unfold: "f n = rew (map_children f n)"
    and rew_refines: "ground n \<Longrightarrow> refines True n (rew n)"
    and rew_clean: "ground n \<Longrightarrow> \<forall>s\<in>subformulas n - {n}. \<not> shape s \<Longrightarrow>
                    \<forall>s\<in>subformulas (rew n). \<not> shape s"
    and rew_stable: "\<not> shape n \<Longrightarrow> rew n = n"
begin

lemma refines_f: "ground n \<Longrightarrow> refines True n (f n)"
proof (induction n rule: ground_induct)
  case (Un k a)
  then have "refines True (Unary k a) (map_children f (Unary k a))" by (simp add: refines_Unary)
  then show ?case using rew_refines f_unfold refines_trans refines_ground by metis
next
  case (Bin k a b)
  then have "refines True (Binary k a b) (map_children f (Binary k a b))"
    by (simp add: refines_Binary)
  then show ?case using rew_refines f_unfold refines_trans refines_ground by metis
qed (use rew_refines f_unfold in \<open>metis ground.simps map_children_simps\<close>)+

lemma f_clean: "ground n \<Longrightarrow> \<forall>s\<in>subformulas (f n). \<not> shape s"
proof (induction n rule: ground_induct)
  case (Un k a)
  have "ground (Unary k (f a))" using refines_ground [OF refines_f] Un by simp
  moreover have "\<forall>s\<in>subformulas (Unary k (f a)) - {Unary k (f a)}. \<not> shape s" using Un by auto
  ultimately have "\<forall>s\<in>subformulas (rew (Unary k (f a))). \<not> shape s" by (rule rew_clean)
  then show ?case using f_unfold [of "Unary k a"] by simp
next
  case (Bin k a b)
  have "ground (Binary k (f a) (f b))" using refines_ground [OF refines_f] Bin by simp
  moreover have "\<forall>s\<in>subformulas (Binary k (f a) (f b)) - {Binary k (f a) (f b)}. \<not> shape s"
    using Bin by auto
  ultimately have "\<forall>s\<in>subformulas (rew (Binary k (f a) (f b))). \<not> shape s" by (rule rew_clean)
  then show ?case using f_unfold [of "Binary k a b"] by simp
next
  case True
  then show ?case using rew_clean [of NodeTrue] f_unfold [of NodeTrue] by simp
next
  case False
  then show ?case using rew_clean [of NodeFalse] f_unfold [of NodeFalse] by simp
next
  case (Ap p)
  then show ?case using rew_clean [of "NodeAp p"] f_unfold [of "NodeAp p"] by simp
qed

text \<open>A formula without the shape is left alone, so the pass is idempotent.\<close>

lemma f_fixed: "ground n \<Longrightarrow> \<forall>s\<in>subformulas n. \<not> shape s \<Longrightarrow> f n = n"
  by (induction n rule: ground_induct) (simp_all add: f_unfold rew_stable)

lemma f_idem: "ground n \<Longrightarrow> f (f n) = f n"
  using f_fixed [OF refines_ground [OF refines_f]] f_clean by blast

end

sublocale bottom_up \<subseteq> total_pass fin f for fin
  by unfold_locales (auto intro: refines_finite refines_f)

subsection \<open>The three passes provide it\<close>

lemma subformulas_size: "s \<in> subformulas n \<Longrightarrow> size s \<le> size n"
  by (induction n) auto

lemma subformulas_self [simp]: "n \<in> subformulas n"
  by (cases n) simp_all

lemma not_own_subformula [simp]:
  "Unary k a \<notin> subformulas a" "Binary k2 a b \<notin> subformulas a" "Binary k2 a b \<notin> subformulas b"
  by (auto dest: subformulas_size)

text \<open>The shapes the passes look for.\<close>

definition or_impl_shape :: "node \<Rightarrow> bool" where
  "or_impl_shape n \<longleftrightarrow> is_bin NODE_OR n \<and>
     (is_un NODE_NOT (bin_lhs n) \<and> is_response_rhs (bin_rhs n) \<or>
      is_un NODE_NOT (bin_rhs n) \<and> is_response_rhs (bin_lhs n))"

definition mutex_shape :: "node \<Rightarrow> bool" where
  "mutex_shape n \<longleftrightarrow> (\<exists>p q. n = node_or (node_not (NodeAp p)) (node_not (NodeAp q)))"

definition equiv_shape :: "node \<Rightarrow> bool" where
  "equiv_shape n \<longleftrightarrow>
     is_bin NODE_EQUIV n \<and> is_output_side (bin_rhs n) \<and> \<not> is_output_side (bin_lhs n)"

lemmas shape_defs = or_impl_shape_def mutex_shape_def equiv_shape_def

lemma is_ap_iff: "is_ap n \<longleftrightarrow> (\<exists>p. n = NodeAp p)"
  by (cases n) auto

lemma or_to_impl_root_cases:
  obtains (same) "\<not> or_impl_shape n" "or_to_impl_root n = n"
  | (left) a b where "n = node_or (node_not a) b" "or_impl_shape n"
      "or_to_impl_root n = node_impl a b"
  | (right) a b where "n = node_or b (node_not a)" "or_impl_shape n"
      "or_to_impl_root n = node_impl a b"
proof -
  consider "\<not> or_impl_shape n"
    | "is_bin NODE_OR n" "is_un NODE_NOT (bin_lhs n) \<and> is_response_rhs (bin_rhs n)"
    | "is_bin NODE_OR n" "\<not> (is_un NODE_NOT (bin_lhs n) \<and> is_response_rhs (bin_rhs n))"
      "is_un NODE_NOT (bin_rhs n) \<and> is_response_rhs (bin_lhs n)"
    by (auto simp: or_impl_shape_def)
  then show ?thesis
  proof cases
    case 1
    then show ?thesis by (intro same) (auto simp: or_to_impl_root_def or_impl_shape_def Let_def)
  next
    case 2
    then show ?thesis
      by (auto simp: or_to_impl_root_def or_impl_shape_def is_bin_iff is_un_iff intro: left)
  next
    case 3
    then obtain l b where n: "n = node_or l (node_not b)" by (auto simp: is_bin_iff is_un_iff)
    with 3 show ?thesis by (intro right [of l b]) (simp_all add: or_to_impl_root_def or_impl_shape_def)
  qed
qed

interpretation or_impl: bottom_up or_to_impl or_to_impl_root or_impl_shape
proof unfold_locales
  fix n
  show "or_to_impl n = or_to_impl_root (map_children or_to_impl n)" by (rule or_to_impl.simps)
  show "\<not> or_impl_shape n \<Longrightarrow> or_to_impl_root n = n"
    by (rule or_to_impl_root_cases [of n]) auto
  show "ground n \<Longrightarrow> refines True n (or_to_impl_root n)"
    by (rule or_to_impl_root_cases [of n]) (auto simp: refines_def sem_eq_def)
  show "ground n \<Longrightarrow> \<forall>s\<in>subformulas n - {n}. \<not> or_impl_shape s \<Longrightarrow>
        \<forall>s\<in>subformulas (or_to_impl_root n). \<not> or_impl_shape s"
  proof (rule or_to_impl_root_cases [of n])
    fix a b
    assume "\<forall>s\<in>subformulas n - {n}. \<not> or_impl_shape s" "n = node_or b (node_not a)"
      "or_to_impl_root n = node_impl a b"
    moreover have "node_or b (node_not a) \<notin> subformulas a" by (auto dest: subformulas_size)
    ultimately show ?thesis by (auto simp: or_impl_shape_def [of "node_impl a b"])
  next
    fix a b
    assume "\<forall>s\<in>subformulas n - {n}. \<not> or_impl_shape s" "n = node_or (node_not a) b"
      "or_to_impl_root n = node_impl a b"
    moreover have "node_or (node_not a) b \<notin> subformulas a" by (auto dest: subformulas_size)
    ultimately show ?thesis by (auto simp: or_impl_shape_def [of "node_impl a b"])
  qed auto
qed

lemma mutex_demorgan_root_cases:
  obtains (same) "\<not> mutex_shape n" "mutex_demorgan_root n = n"
  | (mutex) p q where "n = node_or (node_not (NodeAp p)) (node_not (NodeAp q))"
      "mutex_shape n" "mutex_demorgan_root n = node_not (node_and (NodeAp p) (NodeAp q))"
proof (cases "mutex_shape n")
  case True
  then show ?thesis by (auto simp: mutex_demorgan_root_def mutex_shape_def intro: mutex)
next
  case False
  then show ?thesis
    by (intro same) (auto simp: mutex_demorgan_root_def mutex_shape_def is_bin_iff is_un_iff is_ap_iff)
qed

interpretation mutex: bottom_up mutex_demorgan mutex_demorgan_root mutex_shape
proof unfold_locales
  fix n
  show "mutex_demorgan n = mutex_demorgan_root (map_children mutex_demorgan n)"
    by (rule mutex_demorgan.simps)
  show "\<not> mutex_shape n \<Longrightarrow> mutex_demorgan_root n = n"
    by (rule mutex_demorgan_root_cases [of n]) auto
  show "ground n \<Longrightarrow> refines True n (mutex_demorgan_root n)"
    by (rule mutex_demorgan_root_cases [of n]) (auto simp: refines_def sem_eq_def)
  show "ground n \<Longrightarrow> \<forall>s\<in>subformulas n - {n}. \<not> mutex_shape s \<Longrightarrow>
        \<forall>s\<in>subformulas (mutex_demorgan_root n). \<not> mutex_shape s"
    by (rule mutex_demorgan_root_cases [of n]) (auto simp: mutex_shape_def)
qed

lemma equiv_output_side_root_cases:
  obtains (same) "\<not> equiv_shape n" "equiv_output_side_root n = n"
  | (swap) a b where "n = node_equiv a b" "equiv_shape n" "\<not> equiv_shape (node_equiv b a)"
      "equiv_output_side_root n = node_equiv b a"
  by (cases "equiv_shape n") (auto simp: equiv_output_side_root_def equiv_shape_def is_bin_iff)

interpretation equiv_side: bottom_up equiv_output_side equiv_output_side_root equiv_shape
proof unfold_locales
  fix n
  show "equiv_output_side n = equiv_output_side_root (map_children equiv_output_side n)"
    by (rule equiv_output_side.simps)
  show "\<not> equiv_shape n \<Longrightarrow> equiv_output_side_root n = n"
    by (rule equiv_output_side_root_cases [of n]) auto
  show "ground n \<Longrightarrow> refines True n (equiv_output_side_root n)"
    by (rule equiv_output_side_root_cases [of n]) (auto simp: refines_def sem_eq_def)
  show "ground n \<Longrightarrow> \<forall>s\<in>subformulas n - {n}. \<not> equiv_shape s \<Longrightarrow>
        \<forall>s\<in>subformulas (equiv_output_side_root n). \<not> equiv_shape s"
    by (rule equiv_output_side_root_cases [of n]) auto
qed

subsection \<open>Properties\<close>

text \<open>
  The three match-safe pattern passes \<open>or_to_impl\<close>, \<open>mutex_demorgan\<close> and
  \<open>equiv_output_side\<close> preserve the meaning on every finite and infinite word.
\<close>

theorem match_passes_correct:
  assumes "ground n"
  shows "refines fin n (or_to_impl n) \<and> refines fin n (mutex_demorgan n) \<and>
         refines fin n (equiv_output_side n)"
  using assms or_impl.f_refines mutex.f_refines equiv_side.f_refines by blast

theorem match_passes_correct_witness:
  "refines True (node_g (node_or (node_f (NodeAp ''g'')) (node_not (NodeAp ''r''))))
     (node_g (node_impl (NodeAp ''r'') (node_f (NodeAp ''g'')))) \<and>
   refines True (node_g (node_or (node_not (NodeAp ''a'')) (node_not (NodeAp ''b''))))
     (node_g (node_not (node_and (NodeAp ''a'') (NodeAp ''b'')))) \<and>
   refines True (node_equiv (node_f (NodeAp ''a'')) (node_x (NodeAp ''o'')))
     (node_equiv (node_x (NodeAp ''o'')) (node_f (NodeAp ''a'')))"
proof -
  have "or_to_impl (node_g (node_or (node_f (NodeAp ''g'')) (node_not (NodeAp ''r'')))) =
          node_g (node_impl (NodeAp ''r'') (node_f (NodeAp ''g'')))"
    and "mutex_demorgan (node_g (node_or (node_not (NodeAp ''a'')) (node_not (NodeAp ''b'')))) =
          node_g (node_not (node_and (NodeAp ''a'') (NodeAp ''b'')))"
    and "equiv_output_side (node_equiv (node_f (NodeAp ''a'')) (node_x (NodeAp ''o''))) =
          node_equiv (node_x (NodeAp ''o'')) (node_f (NodeAp ''a''))"
    by code_simp+
  then show ?thesis
    using match_passes_correct [of "node_g (node_or (node_f (NodeAp ''g'')) (node_not (NodeAp ''r'')))" True]
      match_passes_correct [of "node_g (node_or (node_not (NodeAp ''a'')) (node_not (NodeAp ''b'')))" True]
      match_passes_correct [of "node_equiv (node_f (NodeAp ''a'')) (node_x (NodeAp ''o''))" True]
    by simp
qed

text \<open>
  The three passes expose every template shape in one traversal: no subformula of
  the result is a disjunction the recognisers want as a guarded response, a disjunction of two
  negated atoms, or an equivalence whose only output side is on the right; so running a pass
  again changes nothing.
\<close>

theorem match_passes_complete:
  assumes "ground n"
  shows "(\<forall>s\<in>subformulas (or_to_impl n). \<not> or_impl_shape s) \<and>
         (\<forall>s\<in>subformulas (mutex_demorgan n). \<not> mutex_shape s) \<and>
         (\<forall>s\<in>subformulas (equiv_output_side n). \<not> equiv_shape s) \<and>
         or_to_impl (or_to_impl n) = or_to_impl n \<and>
         mutex_demorgan (mutex_demorgan n) = mutex_demorgan n \<and>
         equiv_output_side (equiv_output_side n) = equiv_output_side n"
  using assms or_impl.f_clean mutex.f_clean equiv_side.f_clean or_impl.f_idem mutex.f_idem
    equiv_side.f_idem by simp

theorem match_passes_complete_witness:
  "mutex_demorgan (mutex_demorgan (node_or (node_not (NodeAp ''a'')) (node_not (NodeAp ''b'')))) =
   node_not (node_and (NodeAp ''a'') (NodeAp ''b''))"
proof -
  have "mutex_demorgan (node_or (node_not (NodeAp ''a'')) (node_not (NodeAp ''b''))) =
        node_not (node_and (NodeAp ''a'') (NodeAp ''b''))"
    by code_simp
  then show ?thesis
    using match_passes_complete [of "node_or (node_not (NodeAp ''a'')) (node_not (NodeAp ''b''))"]
    by simp
qed

end
