(* ===== verification/Bool_Canon.thy ===== *)
theory Bool_Canon
  imports Pass_Contract
begin

text \<open>
  Boolean canonicalisation of \<^verbatim>\<open>src/lib/normalize.c\<close>: the stable structural order
  \<^verbatim>\<open>struct_cmp\<close>, the collection of the operands of an \<open>&&\<close>/\<open>||\<close> chain, its insertion sort and
  adjacent de-duplication, and the pass \<^verbatim>\<open>bool_canon\<close>.  \<open>comparator\<close> is the interface
  the sort relies on; it is interpreted on \<open>struct_cmp\<close>.  The growing array \<^verbatim>\<open>NodeVec\<close> is a list
  (\<^verbatim>\<open>nv_push\<close> appends).
\<close>

subsection \<open>The structural order\<close>

text \<open>\<^verbatim>\<open>strcmp\<close> on C strings: bytes compare as \<^verbatim>\<open>unsigned char\<close>; only the sign is used.\<close>

fun strcmp :: "string \<Rightarrow> string \<Rightarrow> int" where
  "strcmp [] [] = 0"
| "strcmp [] (_ # _) = -1"
| "strcmp (_ # _) [] = 1"
| "strcmp (a # x) (b # y) =
     (if a = b then strcmp x y
      else if (of_char a :: nat) < of_char b then -1 else 1)"

text \<open>
  On high-level nodes that are not of \<^verbatim>\<open>lhs/rhs\<close> shape the C \<open>default\<close> branch compares union
  members that were never written; that is left unspecified.
\<close>

primrec struct_cmp :: "node \<Rightarrow> node \<Rightarrow> int" where
  "struct_cmp NodeTrue y = (if 0 \<noteq> node_kind y then -1 else 0)"
| "struct_cmp NodeFalse y =
     (if 1 \<noteq> node_kind y then (if 1 < node_kind y then -1 else 1) else 0)"
| "struct_cmp (NodeAp p) y =
     (case y of NodeAp q \<Rightarrow> strcmp p q | _ \<Rightarrow> if 2 < node_kind y then -1 else 1)"
| "struct_cmp (NodeInt v) y =
     (case y of NodeInt u \<Rightarrow> if v < u then -1 else if v > u then 1 else 0
      | _ \<Rightarrow> if 3 < node_kind y then -1 else 1)"
| "struct_cmp (Unary k a) y =
     (if un_kind_code k \<noteq> node_kind y then (if un_kind_code k < node_kind y then -1 else 1)
      else case y of Unary k' b \<Rightarrow> struct_cmp a b | _ \<Rightarrow> undefined)"
| "struct_cmp (Binary k a b) y =
     (if bin_kind_code k \<noteq> node_kind y then (if bin_kind_code k < node_kind y then -1 else 1)
      else case y of Binary k' c d \<Rightarrow>
             (let v = struct_cmp a c in if v \<noteq> 0 then v else struct_cmp b d)
           | _ \<Rightarrow> undefined)"
| "struct_cmp (HlBinary k a b) y =
     (if hl_bin_kind_code k \<noteq> node_kind y
      then (if hl_bin_kind_code k < node_kind y then -1 else 1)
      else case y of HlBinary k' c d \<Rightarrow>
             (let v = struct_cmp a c in if v \<noteq> 0 then v else struct_cmp b d)
           | _ \<Rightarrow> undefined)"
| "struct_cmp (HlUnary k a) y =
     (if hl_un_kind_code k \<noteq> node_kind y
      then (if hl_un_kind_code k < node_kind y then -1 else 1) else undefined)"
| "struct_cmp (IntVar s) y =
     (if 26 \<noteq> node_kind y then (if 26 < node_kind y then -1 else 1) else undefined)"
| "struct_cmp (SizeOf s) y =
     (if 27 \<noteq> node_kind y then (if 27 < node_kind y then -1 else 1) else undefined)"
| "struct_cmp (Call k s as) y =
     (if node_kind (Call k s as) \<noteq> node_kind y
      then (if node_kind (Call k s as) < node_kind y then -1 else 1) else undefined)"
| "struct_cmp (BusIndex s a) y =
     (if 18 \<noteq> node_kind y then (if 18 < node_kind y then -1 else 1) else undefined)"
| "struct_cmp (Ite a b c) y =
     (if 34 \<noteq> node_kind y then (if 34 < node_kind y then -1 else 1) else undefined)"
| "struct_cmp (NextN s a b) y =
     (if 35 \<noteq> node_kind y then (if 35 < node_kind y then -1 else 1)
      else case y of NextN t c d \<Rightarrow>
             (let v = struct_cmp a c in if v \<noteq> 0 then v else struct_cmp b d)
           | _ \<Rightarrow> undefined)"
| "struct_cmp (BoundedOp k s a b c) y =
     (if node_kind (BoundedOp k s a b c) \<noteq> node_kind y
      then (if node_kind (BoundedOp k s a b c) < node_kind y then -1 else 1) else undefined)"
| "struct_cmp (Quant k v b body) y =
     (if quant_kind_code k \<noteq> node_kind y
      then (if quant_kind_code k < node_kind y then -1 else 1) else undefined)"
| "struct_cmp (SetLit k as) y =
     (if node_kind (SetLit k as) \<noteq> node_kind y
      then (if node_kind (SetLit k as) < node_kind y then -1 else 1) else undefined)"

subsection \<open>Sorting and de-duplicating the operands\<close>

text \<open>
  The inner \<open>while\<close> walks the sorted prefix from its end; the prefix is held in reverse here,
  so that the walk is a recursion on the list.
\<close>

fun insert_key :: "('a \<Rightarrow> 'a \<Rightarrow> int) \<Rightarrow> 'a \<Rightarrow> 'a list \<Rightarrow> 'a list" where
  "insert_key cmp key [] = [key]"
| "insert_key cmp key (y # ys) =
     (if cmp y key > 0 then y # insert_key cmp key ys else key # y # ys)"

definition insertion_sort :: "('a \<Rightarrow> 'a \<Rightarrow> int) \<Rightarrow> 'a list \<Rightarrow> 'a list" where
  "insertion_sort cmp xs = rev (fold (insert_key cmp) xs [])"

text \<open>\<open>kept\<close> is \<^verbatim>\<open>ops.v[0..m-1]\<close> in reverse: its head is \<^verbatim>\<open>ops.v[m - 1]\<close>.\<close>

fun dedup_adjacent :: "('a \<Rightarrow> 'a \<Rightarrow> int) \<Rightarrow> 'a list \<Rightarrow> 'a list \<Rightarrow> 'a list" where
  "dedup_adjacent cmp [] kept = rev kept"
| "dedup_adjacent cmp (x # xs) [] = dedup_adjacent cmp xs [x]"
| "dedup_adjacent cmp (x # xs) (y # kept) =
     (if cmp x y \<noteq> 0 then dedup_adjacent cmp xs (x # y # kept)
      else dedup_adjacent cmp xs (y # kept))"

definition sort_dedup :: "('a \<Rightarrow> 'a \<Rightarrow> int) \<Rightarrow> 'a list \<Rightarrow> 'a list" where
  "sort_dedup cmp xs = dedup_adjacent cmp (insertion_sort cmp xs) []"

definition rebuild_chain :: "bin_kind \<Rightarrow> node list \<Rightarrow> node" where
  "rebuild_chain k ops =
     (case ops of [] \<Rightarrow> undefined
      | x # xs \<Rightarrow> foldl (\<lambda>acc y. if k = NODE_AND then node_and acc y else node_or acc y) x xs)"

subsection \<open>The pass\<close>

function (sequential)
  bool_canon :: "node \<Rightarrow> node"
and collect_operands :: "node \<Rightarrow> bin_kind \<Rightarrow> node list" where
  "bool_canon (Binary NODE_AND a b) =
     rebuild_chain NODE_AND
       (sort_dedup struct_cmp (collect_operands (Binary NODE_AND a b) NODE_AND))"
| "bool_canon (Binary NODE_OR a b) =
     rebuild_chain NODE_OR
       (sort_dedup struct_cmp (collect_operands (Binary NODE_OR a b) NODE_OR))"
| "bool_canon (Unary k a) = Unary k (bool_canon a)"
| "bool_canon (Binary k a b) = Binary k (bool_canon a) (bool_canon b)"
| "bool_canon n = n"
| "collect_operands (Binary k' a b) k =
     (if k' = k then collect_operands a k @ collect_operands b k
      else [bool_canon (Binary k' a b)])"
| "collect_operands n k = [bool_canon n]"
  by pat_completeness auto
termination
  by (relation "measure (\<lambda>s. case s of
        Inl n \<Rightarrow> 3 * size n + 1
      | Inr (n, k) \<Rightarrow> (case n of Binary k' _ _ \<Rightarrow> if k' = k then 3 * size n else 3 * size n + 2
                      | _ \<Rightarrow> 3 * size n + 2))")
    (auto split: node.splits)

subsection \<open>What the sort promises\<close>

text \<open>
  The interface: on the nodes \<open>good\<close> the comparison decides equality, is antisymmetric and
  transitive.
\<close>

locale comparator =
  fixes good :: "'a \<Rightarrow> bool"
    and cmp :: "'a \<Rightarrow> 'a \<Rightarrow> int"
  assumes cmp_eq: "good x \<Longrightarrow> good y \<Longrightarrow> cmp x y = 0 \<longleftrightarrow> x = y"
    and cmp_flip: "good x \<Longrightarrow> good y \<Longrightarrow> cmp x y > 0 \<longleftrightarrow> cmp y x < 0"
    and cmp_trans: "good x \<Longrightarrow> good y \<Longrightarrow> good z \<Longrightarrow> cmp x y < 0 \<Longrightarrow> cmp y z < 0 \<Longrightarrow> cmp x z < 0"
begin

text \<open>The prefix is held in reverse: greatest first.\<close>

abbreviation down :: "'a list \<Rightarrow> bool" where
  "down \<equiv> sorted_wrt (\<lambda>x y. \<not> cmp x y < 0)"

lemma set_insert_key [simp]: "set (insert_key cmp key ys) = insert key (set ys)"
  by (induction ys) auto

lemma le_trans:
  assumes "good x" "good y" "good z" "\<not> cmp x y < 0" "\<not> cmp y z < 0"
  shows "\<not> cmp x z < 0"
proof
  assume xz: "cmp x z < 0"
  have "cmp y x < 0 \<or> x = y" and "cmp z y < 0 \<or> y = z"
    using assms cmp_eq [of x y] cmp_flip [of x y] cmp_eq [of y z] cmp_flip [of y z] by fastforce+
  moreover have "cmp z x < 0 \<Longrightarrow> False" using xz assms cmp_flip [of z x] cmp_flip [of x z] by simp
  moreover have "x \<noteq> z" using xz assms cmp_eq [of x x] by auto
  ultimately show False using xz assms cmp_trans cmp_flip by (metis less_asym')
qed

lemma down_insert_key:
  "down ys \<Longrightarrow> good key \<Longrightarrow> Ball (set ys) good \<Longrightarrow> down (insert_key cmp key ys)"
proof (induction ys)
  case (Cons y ys)
  have flip: "cmp y key > 0 \<Longrightarrow> \<not> cmp y key < 0" by simp
  show ?case
  proof (cases "cmp y key > 0")
    case True
    with Cons show ?thesis by auto
  next
    case False
    have ky: "\<not> cmp key y < 0" using False Cons.prems cmp_flip [of y key] by auto
    have "\<not> cmp key z < 0" if "z \<in> set ys" for z
      using le_trans [of key y z] ky that Cons.prems by auto
    with False ky Cons.prems show ?thesis by auto
  qed
qed simp

lemma fold_insert_key:
  "down acc \<Longrightarrow> Ball (set acc) good \<Longrightarrow> Ball (set xs) good \<Longrightarrow>
   down (fold (insert_key cmp) xs acc) \<and> set (fold (insert_key cmp) xs acc) = set xs \<union> set acc"
  by (induction xs arbitrary: acc) (auto simp: down_insert_key)

lemma insertion_sort_sorted:
  "Ball (set xs) good \<Longrightarrow> sorted_wrt (\<lambda>x y. \<not> cmp y x < 0) (insertion_sort cmp xs)"
  using fold_insert_key [of "[]" xs] by (simp add: insertion_sort_def sorted_wrt_rev)

lemma set_insertion_sort: "Ball (set xs) good \<Longrightarrow> set (insertion_sort cmp xs) = set xs"
  using fold_insert_key [of "[]" xs] by (simp add: insertion_sort_def)

lemma dedup_adjacent_strict:
  assumes "sorted_wrt (\<lambda>x y. \<not> cmp y x < 0) (rev kept @ xs)"
    and "sorted_wrt (\<lambda>x y. cmp x y < 0) (rev kept)" and "Ball (set (kept @ xs)) good"
  shows "sorted_wrt (\<lambda>x y. cmp x y < 0) (dedup_adjacent cmp xs kept) \<and>
         set (dedup_adjacent cmp xs kept) = set kept \<union> set xs"
  using assms
proof (induction xs arbitrary: kept)
  case (Cons x xs)
  show ?case
  proof (cases kept)
    case Nil
    with Cons.IH [of "[x]"] Cons.prems show ?thesis by simp
  next
    case (Cons y ks)
    note k = this
    have good: "good x" "good y" using Cons.prems k by auto
    have le: "\<not> cmp x y < 0" using Cons.prems(1) k by (simp add: sorted_wrt_append)
    show ?thesis
    proof (cases "cmp x y = 0")
      case True
      then have "x = y" using cmp_eq good by blast
      with Cons.IH [of kept] Cons.prems k True show ?thesis
        by (auto simp: sorted_wrt_append)
    next
      case False
      with le cmp_flip [OF good] have yx: "cmp y x < 0" by simp
      have "cmp z x < 0" if z: "z \<in> set ks" for z
      proof -
        have "cmp z y < 0" using Cons.prems(2) k z by (simp add: sorted_wrt_append)
        moreover have "good z" using Cons.prems(3) k z by simp
        ultimately show ?thesis using cmp_trans [of z y x] good yx by blast
      qed
      with yx have "sorted_wrt (\<lambda>x y. cmp x y < 0) (rev (x # kept))"
        using Cons.prems(2) k by (auto simp: sorted_wrt_append)
      with Cons.IH [of "x # kept"] Cons.prems k False show ?thesis by simp
    qed
  qed
qed simp

lemma sort_dedup_strict:
  assumes "Ball (set xs) good"
  shows "sorted_wrt (\<lambda>x y. cmp x y < 0) (sort_dedup cmp xs)" "set (sort_dedup cmp xs) = set xs"
  using dedup_adjacent_strict [of "[]" "insertion_sort cmp xs"] insertion_sort_sorted [OF assms]
    set_insertion_sort [OF assms] assms
  by (simp_all add: sort_dedup_def)

text \<open>The result depends on the set of operands alone.\<close>

lemma strict_unique:
  assumes "sorted_wrt (\<lambda>x y. cmp x y < 0) xs" "sorted_wrt (\<lambda>x y. cmp x y < 0) ys"
    and "set xs = set ys" "Ball (set xs) good"
  shows "xs = ys"
  using assms
proof (induction xs arbitrary: ys)
  case (Cons x xs)
  obtain y zs where ys: "ys = y # zs" using Cons.prems(3) by (cases ys) auto
  have irr: "\<not> cmp z z < 0" if "good z" for z using cmp_eq [OF that that] by simp
  have asym: "\<not> (cmp u v < 0 \<and> cmp v u < 0)" if "good u" "good v" for u v
    using cmp_flip [OF that] by auto
  have gy: "good y" and gx: "good x" using Cons.prems ys by auto
  have "x = y"
  proof (rule ccontr)
    assume "x \<noteq> y"
    then have "x \<in> set zs" "y \<in> set xs" using Cons.prems(3) ys by auto
    then show False using Cons.prems(1,2) ys asym [OF gx gy] by auto
  qed
  moreover have "x \<notin> set xs" "y \<notin> set zs"
    using Cons.prems ys irr gx gy by auto
  then have "set xs = set zs" using Cons.prems(3) ys \<open>x = y\<close> by auto
  then have "xs = zs" using Cons.IH [of zs] Cons.prems ys by auto
  ultimately show ?case using ys by simp
qed simp

lemma sort_dedup_cong:
  assumes "Ball (set xs) good" and "set xs = set ys"
  shows "sort_dedup cmp xs = sort_dedup cmp ys"
  using assms by (intro strict_unique) (simp_all add: sort_dedup_strict)

end

subsection \<open>The structural order is one\<close>

lemma strcmp_eq_0 [simp]: "strcmp x y = 0 \<longleftrightarrow> x = y"
  by (induction x y rule: strcmp.induct) auto

lemma strcmp_flip: "strcmp y x = - strcmp x y"
  by (induction x y rule: strcmp.induct) (auto simp: not_less_iff_gr_or_eq)

lemma strcmp_trans: "strcmp x y < 0 \<Longrightarrow> strcmp y z < 0 \<Longrightarrow> strcmp x z < 0"
proof (induction x y arbitrary: z rule: strcmp.induct)
  case (2 b y)
  then show ?case by (cases z) auto
next
  case (4 a x b y)
  obtain c zs where z: "z = c # zs" using 4(3) by (cases z) auto
  have ab: "a = b \<and> strcmp x y < 0 \<or> (of_char a :: nat) < of_char b"
    using 4(2) by (auto split: if_splits)
  have bc: "b = c \<and> strcmp y zs < 0 \<or> (of_char b :: nat) < of_char c"
    using 4(3) z by (auto split: if_splits)
  have "a = c \<and> strcmp x zs < 0 \<or> a \<noteq> c \<and> (of_char a :: nat) < of_char c"
    using ab bc 4(1) by (auto dest: less_trans)
  then show ?case using z by auto
qed auto

lemma un_kind_code_inject [simp]: "un_kind_code k = un_kind_code k' \<longleftrightarrow> k = k'"
  by (cases k; cases k') simp_all

lemma bin_kind_code_inject [simp]: "bin_kind_code k = bin_kind_code k' \<longleftrightarrow> k = k'"
  by (cases k; cases k') simp_all

lemma kind_codes_disjoint [simp]:
  "un_kind_code k \<noteq> bin_kind_code k'" "bin_kind_code k' \<noteq> un_kind_code k"
  by (cases k; cases k'; simp)+

lemma kind_codes_large [simp]:
  "un_kind_code k \<noteq> 0" "0 \<noteq> un_kind_code k" "un_kind_code k \<noteq> Suc 0" "Suc 0 \<noteq> un_kind_code k"
  "un_kind_code k \<noteq> 2" "2 \<noteq> un_kind_code k"
  by (cases k; simp)+

lemma bin_kind_codes_large [simp]:
  "bin_kind_code k2 \<noteq> 0" "0 \<noteq> bin_kind_code k2" "bin_kind_code k2 \<noteq> Suc 0"
  "Suc 0 \<noteq> bin_kind_code k2" "bin_kind_code k2 \<noteq> 2" "2 \<noteq> bin_kind_code k2"
  by (cases k2; simp)+

text \<open>The comparison by kind alone, where the kinds differ.\<close>

lemma struct_cmp_kind:
  "ground x \<Longrightarrow> node_kind x \<noteq> node_kind y \<Longrightarrow>
   struct_cmp x y = (if node_kind x < node_kind y then -1 else 1)"
  by (cases x) (auto split: node.splits)

lemma struct_cmp_kind_neg:
  "ground x \<Longrightarrow> struct_cmp x y < 0 \<Longrightarrow> node_kind x \<le> node_kind y"
  using struct_cmp_kind [of x y] by (cases "node_kind x = node_kind y") (simp_all split: if_splits)

lemma ground_kind_cases:
  assumes "ground x" "ground y" "node_kind x = node_kind y"
  obtains "x = NodeTrue" "y = NodeTrue" | "x = NodeFalse" "y = NodeFalse"
  | p q where "x = NodeAp p" "y = NodeAp q"
  | k a b where "x = Unary k a" "y = Unary k b" "ground a" "ground b"
  | k a b c d where "x = Binary k a b" "y = Binary k c d" "ground a" "ground b" "ground c" "ground d"
  using assms by (cases x; cases y) (simp_all add: that)

lemma struct_cmp_eq_0: "ground x \<Longrightarrow> ground y \<Longrightarrow> struct_cmp x y = 0 \<longleftrightarrow> x = y"
proof (induction x arbitrary: y rule: measure_induct_rule [of size])
  case (less x)
  show ?case
  proof (cases "node_kind x = node_kind y")
    case False
    then show ?thesis using struct_cmp_kind [of x y] less.prems by auto
  next
    case True
    from less.prems True show ?thesis
      by (rule ground_kind_cases) (auto simp: less.IH Let_def)
  qed
qed

lemma struct_cmp_flip: "ground x \<Longrightarrow> ground y \<Longrightarrow> struct_cmp y x = - struct_cmp x y"
proof (induction x arbitrary: y rule: measure_induct_rule [of size])
  case (less x)
  show ?case
  proof (cases "node_kind x = node_kind y")
    case False
    then show ?thesis using struct_cmp_kind [of x y] struct_cmp_kind [of y x] less.prems by auto
  next
    case True
    from less.prems True show ?thesis
    proof (cases rule: ground_kind_cases)
      case (3 p q)
      then show ?thesis by (simp add: strcmp_flip [of q p])
    next
      case (4 k a b)
      with less.IH [of a b] show ?thesis by simp
    next
      case (5 k a b c d)
      with less.IH [of a c] less.IH [of b d] show ?thesis by (simp add: Let_def)
    qed simp_all
  qed
qed

lemma struct_cmp_trans:
  "ground x \<Longrightarrow> ground y \<Longrightarrow> ground z \<Longrightarrow> struct_cmp x y < 0 \<Longrightarrow> struct_cmp y z < 0 \<Longrightarrow>
   struct_cmp x z < 0"
proof (induction x arbitrary: y z rule: measure_induct_rule [of size])
  case (less x)
  have xy: "node_kind x \<le> node_kind y" and yz: "node_kind y \<le> node_kind z"
    using struct_cmp_kind_neg less.prems by blast+
  show ?case
  proof (cases "node_kind x = node_kind z")
    case False
    then show ?thesis using struct_cmp_kind [of x z] less.prems xy yz by simp
  next
    case True
    then have k: "node_kind x = node_kind y" "node_kind y = node_kind z" using xy yz by simp_all
    from less.prems(1,2) k(1) show ?thesis
    proof (cases rule: ground_kind_cases)
      case (3 p q)
      then obtain r where "z = NodeAp r" using less.prems(3) k(2) by (cases z) auto
      with 3 less.prems show ?thesis using strcmp_trans by simp
    next
      case (4 k' a b)
      then obtain c where "z = Unary k' c" "ground c" using less.prems(3) k(2) by (cases z) auto
      with 4 less.prems less.IH [of a b c] show ?thesis by simp
    next
      case (5 k' a b c d)
      then obtain e f where z: "z = Binary k' e f" "ground e" "ground f"
        using less.prems(3) k(2) by (cases z) auto
      have "struct_cmp a c < 0 \<or> a = c \<and> struct_cmp b d < 0"
        using less.prems(4) 5 by (auto simp: Let_def struct_cmp_eq_0 split: if_splits)
      moreover have "struct_cmp c e < 0 \<or> c = e \<and> struct_cmp d f < 0"
        using less.prems(5) 5 z by (auto simp: Let_def struct_cmp_eq_0 split: if_splits)
      ultimately have "struct_cmp a e < 0 \<or> a = e \<and> struct_cmp b f < 0"
        using less.IH [of a c e] less.IH [of b d f] 5 z by auto
      moreover have "struct_cmp e e = 0" using z struct_cmp_eq_0 [of e e] by simp
      ultimately show ?thesis using 5 z by (auto simp: Let_def)
    qed (use less.prems in simp_all)
  qed
qed

interpretation struct_order: comparator ground struct_cmp
  proof unfold_locales
  fix x y assume "ground x" "ground y"
  then show "struct_cmp x y = 0 \<longleftrightarrow> x = y" and "struct_cmp x y > 0 \<longleftrightarrow> struct_cmp y x < 0"
    using struct_cmp_eq_0 [of x y] struct_cmp_flip [of x y] by simp_all
qed (rule struct_cmp_trans)

subsection \<open>The pass is an equivalence\<close>

lemma foldl_chain_sat:
  "k = NODE_AND \<or> k = NODE_OR \<Longrightarrow>
   sat L w (foldl (\<lambda>acc y. if k = NODE_AND then node_and acc y else node_or acc y) x xs) i =
     (if k = NODE_AND then sat L w x i \<and> (\<forall>y\<in>set xs. sat L w y i)
      else sat L w x i \<or> (\<exists>y\<in>set xs. sat L w y i))"
  by (induction xs arbitrary: x) auto

lemma foldl_chain_ground:
  "ground (foldl (\<lambda>acc y. if k = NODE_AND then node_and acc y else node_or acc y) x xs) \<longleftrightarrow>
   ground x \<and> Ball (set xs) ground"
  by (induction xs arbitrary: x) auto

lemma rebuild_chain_sat:
  "ops \<noteq> [] \<Longrightarrow> sat L w (rebuild_chain NODE_AND ops) i = (\<forall>y\<in>set ops. sat L w y i)"
  "ops \<noteq> [] \<Longrightarrow> sat L w (rebuild_chain NODE_OR ops) i = (\<exists>y\<in>set ops. sat L w y i)"
  using foldl_chain_sat [of NODE_AND L w] foldl_chain_sat [of NODE_OR L w]
  by (cases ops; simp add: rebuild_chain_def)+

lemma rebuild_chain_ground:
  "ops \<noteq> [] \<Longrightarrow> Ball (set ops) ground \<Longrightarrow> ground (rebuild_chain k ops)"
  by (cases ops) (simp_all add: rebuild_chain_def foldl_chain_ground)

text \<open>What \<open>collect_operands\<close> promises: the operands of the maximal chain, each equivalent.\<close>

definition operands_of :: "enat \<Rightarrow> bin_kind \<Rightarrow> node \<Rightarrow> node list \<Rightarrow> bool" where
  "operands_of L k n xs \<longleftrightarrow> xs \<noteq> [] \<and> Ball (set xs) ground \<and>
     (\<forall>w i. enat i < L \<longrightarrow>
        (k = NODE_AND \<longrightarrow> sat L w n i = (\<forall>x\<in>set xs. sat L w x i)) \<and>
        (k = NODE_OR \<longrightarrow> sat L w n i = (\<exists>x\<in>set xs. sat L w x i)))"

lemma operands_of_single: "ground m \<Longrightarrow> sem_eq L m n \<Longrightarrow> operands_of L k n [m]"
  by (simp add: operands_of_def sem_eq_def)

lemma operands_of_append:
  "operands_of L k a xs \<Longrightarrow> operands_of L k b ys \<Longrightarrow> operands_of L k (Binary k a b) (xs @ ys)"
  by (auto simp: operands_of_def ball_Un)

lemma rebuild_sorted:
  assumes "operands_of L k n xs" and "k = NODE_AND \<or> k = NODE_OR"
  shows "ground (rebuild_chain k (sort_dedup struct_cmp xs)) \<and>
         sem_eq L (rebuild_chain k (sort_dedup struct_cmp xs)) n"
proof -
  have xs: "Ball (set xs) ground" "xs \<noteq> []" using assms by (auto simp: operands_of_def)
  have set: "set (sort_dedup struct_cmp xs) = set xs"
    using struct_order.sort_dedup_strict(2) [OF xs(1)] .
  then have ne: "sort_dedup struct_cmp xs \<noteq> []" using xs(2) by (metis set_empty)
  have "ground (rebuild_chain k (sort_dedup struct_cmp xs))"
    using rebuild_chain_ground ne set xs(1) by simp
  moreover have "sem_eq L (rebuild_chain k (sort_dedup struct_cmp xs)) n"
    using assms(2)
  proof
    assume "k = NODE_AND"
    then show ?thesis
      using assms(1) by (simp add: sem_eq_def rebuild_chain_sat [OF ne] set operands_of_def)
  next
    assume "k = NODE_OR"
    then show ?thesis
      using assms(1) by (simp add: sem_eq_def rebuild_chain_sat [OF ne] set operands_of_def)
  qed
  ultimately show ?thesis by blast
qed

lemma bool_canon_sound:
  "ground n \<Longrightarrow> ground (bool_canon n) \<and> sem_eq L (bool_canon n) n"
  "ground n \<Longrightarrow> operands_of L k n (collect_operands n k)"
proof (induction n and n k rule: bool_canon_collect_operands.induct)
  case (1 a b)
  show ?case using rebuild_sorted [OF 1(1) [OF 1(2)]] by (simp del: collect_operands.simps)
next
  case (2 a b)
  show ?case using rebuild_sorted [OF 2(1) [OF 2(2)]] by (simp del: collect_operands.simps)
next
  case (6 k' a b k)
  show ?case
  proof (cases "k' = k")
    case True
    have "operands_of L k a (collect_operands a k)" "operands_of L k b (collect_operands b k)"
      using 6(1) [OF True] 6(2) [OF True] 6(4) by simp_all
    then show ?thesis using True by (simp add: operands_of_append)
  next
    case False
    then show ?thesis using 6(3) [OF False 6(4)] by (simp add: operands_of_single)
  qed
qed (auto simp: operands_of_single)

interpretation canon: total_pass fin bool_canon for fin
  by unfold_locales (auto simp: refines_def bool_canon_sound)

text \<open>
  The operands of a chain before they are canonicalised, for the statement that the order,
  the grouping and the repetition of operands do not matter.
\<close>

fun chain_operands :: "bin_kind \<Rightarrow> node \<Rightarrow> node list" where
  "chain_operands k (Binary k' a b) =
     (if k' = k then chain_operands k a @ chain_operands k b else [Binary k' a b])"
| "chain_operands k n = [n]"

lemma collect_operands_chain: "collect_operands n k = map bool_canon (chain_operands k n)"
  by (induction k n rule: chain_operands.induct) auto

lemma chain_operands_ground: "ground n \<Longrightarrow> Ball (set (chain_operands k n)) ground"
  by (induction k n rule: chain_operands.induct) auto

lemma sort_dedup_chain:
  assumes "ground n" and "set (chain_operands k n) = set (chain_operands k m)"
  shows "sort_dedup struct_cmp (collect_operands n k) = sort_dedup struct_cmp (collect_operands m k)"
  using assms chain_operands_ground [of n k]
  by (intro struct_order.sort_dedup_cong) (auto simp: collect_operands_chain bool_canon_sound)

subsection \<open>Properties\<close>

text \<open>
  C37. \<open>bool_canon\<close>: flattening, sorting and de-duplicating the operands of every
  \<open>&&\<close>/\<open>||\<close> chain preserves the meaning at every position of every finite and infinite word.
\<close>

theorem bool_canon_correct:
  assumes "ground n"
  shows "refines fin n (bool_canon n)"
  using assms by (rule canon.f_refines)

theorem bool_canon_correct_witness:
  "refines True (node_and (NodeAp ''b'') (node_and (NodeAp ''a'') (NodeAp ''b'')))
     (node_and (NodeAp ''a'') (NodeAp ''b''))"
proof -
  have "bool_canon (node_and (NodeAp ''b'') (node_and (NodeAp ''a'') (NodeAp ''b''))) =
        node_and (NodeAp ''a'') (NodeAp ''b'')"
    by code_simp
  moreover have "ground (node_and (NodeAp ''b'') (node_and (NodeAp ''a'') (NodeAp ''b'')))"
    by simp
  ultimately show ?thesis using bool_canon_correct by metis
qed

text \<open>
  \<open>bool_canon\<close> is canonical for a conjunction or disjunction chain: two chains with the
  same set of operands, whatever their order, grouping and repetitions, get the same result.
\<close>

theorem bool_canon_order_insensitive:
  assumes "k = NODE_AND \<or> k = NODE_OR" and "ground (Binary k a b)"
    and "set (chain_operands k (Binary k a b)) = set (chain_operands k (Binary k c d))"
  shows "bool_canon (Binary k a b) = bool_canon (Binary k c d)"
  using assms(1) sort_dedup_chain [OF assms(2,3)] by auto

theorem bool_canon_order_insensitive_witness:
  "bool_canon (node_or (NodeAp ''p'') (node_or (NodeAp ''q'') (NodeAp ''r''))) =
   bool_canon (node_or (node_or (NodeAp ''r'') (NodeAp ''p'')) (node_or (NodeAp ''q'') (NodeAp ''p'')))"
  by (rule bool_canon_order_insensitive) auto

end
