(* ===== verification/Sickert.thy ===== *)
theory Sickert
  imports Nnf Rewrite_Correct
begin

text \<open>
  The bounded Sickert stages of \<^verbatim>\<open>src/lib/normalize.c\<close>: the obstacle counters, the lift of a
  GF/FG limit node out of its nearest temporal context (stage 2) and the removal of a weak
  until below GF or an until below FG (stage 3).  Both run on infinite words only, on the
  negation normal form.  \<^verbatim>\<open>to_nnf\<close> allocates every node afresh, so a node pointer of its result
  is a position in the tree; \<open>subst_by_ptr\<close> takes the path to it.
\<close>

subsection \<open>Limit nodes and obstacles\<close>

fun is_gf :: "node \<Rightarrow> bool" where
  "is_gf (Unary NODE_G (Unary NODE_F _)) = True"
| "is_gf _ = False"

fun is_fg :: "node \<Rightarrow> bool" where
  "is_fg (Unary NODE_F (Unary NODE_G _)) = True"
| "is_fg _ = False"

record obstacles =
  u_under_w :: u64
  limit_under_temporal :: u64
  w_under_gf :: u64
  u_under_fg :: u64

definition no_obstacles :: obstacles where
  "no_obstacles = \<lparr>u_under_w = 0, limit_under_temporal = 0, w_under_gf = 0, u_under_fg = 0\<rparr>"

definition count_node ::
    "node \<Rightarrow> bool \<Rightarrow> bool \<Rightarrow> bool \<Rightarrow> bool \<Rightarrow> obstacles \<Rightarrow> obstacles" where
  "count_node n under_temporal under_w under_gf under_fg o0 =
     (let o1 = (if is_bin NODE_U n \<and> under_w then o0\<lparr>u_under_w := u_under_w o0 + 1\<rparr> else o0);
          o2 = (if is_bin NODE_W n \<and> under_gf then o1\<lparr>w_under_gf := w_under_gf o1 + 1\<rparr> else o1);
          o3 = (if is_bin NODE_U n \<and> under_fg then o2\<lparr>u_under_fg := u_under_fg o2 + 1\<rparr> else o2)
      in if (is_gf n \<or> is_fg n) \<and> under_temporal
         then o3\<lparr>limit_under_temporal := limit_under_temporal o3 + 1\<rparr> else o3)"

fun obst_walk :: "node \<Rightarrow> bool \<Rightarrow> bool \<Rightarrow> bool \<Rightarrow> bool \<Rightarrow> obstacles \<Rightarrow> obstacles" where
  "obst_walk n under_temporal under_w under_gf under_fg o0 =
     (let o1 = count_node n under_temporal under_w under_gf under_fg o0;
          ct = under_temporal \<or> node_kind_is_temporal n;
          cw = under_w \<or> is_bin NODE_W n;
          cgf = under_gf \<or> is_gf n;
          cfg = under_fg \<or> is_fg n
      in case n of
           Unary k a \<Rightarrow> obst_walk a ct cw cgf cfg o1
         | Binary k l r \<Rightarrow> obst_walk r ct cw cgf cfg (obst_walk l ct cw cgf cfg o1)
         | _ \<Rightarrow> o1)"

declare obst_walk.simps [simp del]

definition tlsf_norm_count_obstacles :: "node \<Rightarrow> obstacles \<Rightarrow> obstacles" where
  "tlsf_norm_count_obstacles n out = obst_walk n False False False False out"

subsection \<open>Positions in a tree\<close>

type_synonym path = "bool list"

text \<open>\<open>False\<close> is \<^verbatim>\<open>arg\<close> or \<^verbatim>\<open>lhs\<close>, \<open>True\<close> is \<^verbatim>\<open>rhs\<close>.\<close>

fun node_at :: "node \<Rightarrow> path \<Rightarrow> node" where
  "node_at n [] = n"
| "node_at (Unary k a) (d # p) = node_at a p"
| "node_at (Binary k l r) (d # p) = node_at (if d then r else l) p"
| "node_at n (d # p) = n"

fun subst_by_ptr :: "node \<Rightarrow> path \<Rightarrow> node \<Rightarrow> node" where
  "subst_by_ptr n [] repl = repl"
| "subst_by_ptr (Unary k a) (d # p) repl = Unary k (subst_by_ptr a p repl)"
| "subst_by_ptr (Binary k l r) (d # p) repl =
     (if d then Binary k l (subst_by_ptr r p repl) else Binary k (subst_by_ptr l p repl) r)"
| "subst_by_ptr n (d # p) repl = n"

subsection \<open>Stage 2\<close>

definition is_limit :: "node \<Rightarrow> bool" where
  "is_limit n = (is_gf n \<or> is_fg n)"

definition or_else :: "path option \<Rightarrow> path option \<Rightarrow> path option" where
  "or_else l r = (case l of Some p \<Rightarrow> Some (False # p) | None \<Rightarrow> map_option ((#) True) r)"

fun limit_under_bool :: "node \<Rightarrow> path option" where
  "limit_under_bool (Binary k l r) =
     (if k = NODE_AND \<or> k = NODE_OR then or_else (limit_under_bool l) (limit_under_bool r)
      else None)"
| "limit_under_bool n = (if is_limit n then Some [] else None)"

text \<open>The limit a temporal node lifts, as a path from that node.\<close>

fun limit_of :: "node \<Rightarrow> path option" where
  "limit_of (Unary k a) = map_option ((#) False) (limit_under_bool a)"
| "limit_of (Binary k l r) = or_else (limit_under_bool l) (limit_under_bool r)"
| "limit_of n = None"

definition lift_limit :: "node \<Rightarrow> path \<Rightarrow> node" where
  "lift_limit n limit =
     (let c_true = subst_by_ptr n limit NodeTrue;
          c_false = subst_by_ptr n limit NodeFalse
      in node_or (node_and (node_at n limit) c_true) c_false)"

text \<open>
  One lift step; the boolean is \<^verbatim>\<open>*done\<close>.  The C code compares the returned pointer with the
  child: it differs exactly when the call set \<^verbatim>\<open>*done\<close>.
\<close>

fun sickert2_step :: "node \<Rightarrow> bool \<Rightarrow> node \<times> bool" where
  "sickert2_step n done =
     (if done then (n, done)
      else case (if node_kind_is_temporal n then limit_of n else None) of
        Some limit \<Rightarrow> (lift_limit n limit, True)
      | None \<Rightarrow> (case n of
          Unary k a \<Rightarrow> (let (x, d) = sickert2_step a done in (Unary k x, d))
        | Binary k l r \<Rightarrow>
            (let (l', d) = sickert2_step l done;
                 (r', d') = (if d then (r, d) else sickert2_step r d)
             in (Binary k l' r', d'))
        | _ \<Rightarrow> (n, done)))"

declare sickert2_step.simps [simp del]

definition sickert_stage2 :: "node \<Rightarrow> node option" where
  "sickert_stage2 n = do {
     nnf \<leftarrow> to_nnf n True False;
     let ob = tlsf_norm_count_obstacles nnf no_obstacles;
     if limit_under_temporal ob = 0 then Some n
     else case sickert2_step nnf False of
            (r, True) \<Rightarrow> apply_rewrites r RW_SIMPLIFY_WEAK
          | (r, False) \<Rightarrow> Some n }"

subsection \<open>Stage 3\<close>

text \<open>The first node of kind \<open>k\<close> in pre-order.\<close>

fun find_kind :: "node \<Rightarrow> bin_kind \<Rightarrow> path option" where
  "find_kind (Unary k' a) k = map_option ((#) False) (find_kind a k)"
| "find_kind (Binary k' l r) k =
     (if k' = k then Some [] else or_else (find_kind l k) (find_kind r k))"
| "find_kind n k = None"

definition split_gf :: "node \<Rightarrow> path \<Rightarrow> node" where
  "split_gf body w =
     (let aL = bin_lhs (node_at body w); bR = bin_rhs (node_at body w);
          c_u = subst_by_ptr body w (node_u aL bR);
          c_true = subst_by_ptr body w NodeTrue
      in node_or (node_g (node_f c_u))
           (node_and (node_f (node_g aL)) (node_g (node_f c_true))))"

definition split_fg :: "node \<Rightarrow> path \<Rightarrow> node" where
  "split_fg body u =
     (let aL = bin_lhs (node_at body u); bR = bin_rhs (node_at body u);
          c_w = subst_by_ptr body u (node_w aL bR);
          c_false = subst_by_ptr body u NodeFalse
      in node_or (node_and (node_g (node_f bR)) (node_f (node_g c_w)))
           (node_f (node_g c_false)))"

definition split_root :: "node \<Rightarrow> node option" where
  "split_root n =
     (if is_gf n then map_option (split_gf (un_arg (un_arg n))) (find_kind (un_arg (un_arg n)) NODE_W)
      else if is_fg n
      then map_option (split_fg (un_arg (un_arg n))) (find_kind (un_arg (un_arg n)) NODE_U)
      else None)"

fun sickert3_step :: "node \<Rightarrow> bool \<Rightarrow> node \<times> bool" where
  "sickert3_step n done =
     (if done then (n, done)
      else case split_root n of
        Some r \<Rightarrow> (r, True)
      | None \<Rightarrow> (case n of
          Unary k a \<Rightarrow> (let (x, d) = sickert3_step a done in (Unary k x, d))
        | Binary k l r \<Rightarrow>
            (let (l', d) = sickert3_step l done;
                 (r', d') = (if d then (r, d) else sickert3_step r d)
             in (Binary k l' r', d'))
        | _ \<Rightarrow> (n, done)))"

declare sickert3_step.simps [simp del]

definition sickert_stage3 :: "node \<Rightarrow> node option" where
  "sickert_stage3 n = do {
     nnf \<leftarrow> to_nnf n True False;
     let ob = tlsf_norm_count_obstacles nnf no_obstacles;
     if w_under_gf ob = 0 \<and> u_under_fg ob = 0 then Some n
     else case sickert3_step nnf False of
            (r, True) \<Rightarrow> apply_rewrites r RW_SIMPLIFY_WEAK
          | (r, False) \<Rightarrow> Some n }"

subsection \<open>Contexts\<close>

lemma node_at_ground: "ground n \<Longrightarrow> ground (node_at n p)"
  by (induction n p rule: node_at.induct) auto

lemma subst_by_ptr_ground: "ground n \<Longrightarrow> ground r \<Longrightarrow> ground (subst_by_ptr n p r)"
  by (induction n p r rule: subst_by_ptr.induct) auto

lemma subst_by_ptr_self [simp]: "subst_by_ptr n p (node_at n p) = n"
  by (induction n p rule: node_at.induct) auto

text \<open>A context sees its hole at the present and later positions only.\<close>

lemma subst_cong:
  "(\<And>j. i \<le> j \<Longrightarrow> enat j < L \<Longrightarrow> sat L w s j = sat L w t j) \<Longrightarrow> enat i < L \<Longrightarrow>
   sat L w (subst_by_ptr n p s) i = sat L w (subst_by_ptr n p t) i"
proof (induction n p s arbitrary: i rule: subst_by_ptr.induct)
  case (2 k a d p repl)
  show ?case using 2 by (auto intro!: un_sem_cong)
next
  case (3 k l r d p repl)
  have *: "sat L w (subst_by_ptr (if d then r else l) p repl) j =
           sat L w (subst_by_ptr (if d then r else l) p t) j" if "i \<le> j" "enat j < L" for j
    using 3(1,2) [of j] 3(3) that by (cases d) auto
  show ?case
  proof (cases d)
    case True
    with * 3(4) show ?thesis by (simp, intro bin_sem_cong) simp_all
  next
    case False
    with * 3(4) show ?thesis by (simp, intro bin_sem_cong) simp_all
  qed
qed simp_all

fun mono_path :: "node \<Rightarrow> path \<Rightarrow> bool" where
  "mono_path n [] = True"
| "mono_path (Unary k a) (d # p) = (un_mono k \<and> mono_path a p)"
| "mono_path (Binary k l r) (d # p) = (bin_mono k \<and> mono_path (if d then r else l) p)"
| "mono_path n (d # p) = True"

lemma subst_mono:
  "mono_path n p \<Longrightarrow> (\<And>j. i \<le> j \<Longrightarrow> enat j < L \<Longrightarrow> sat L w s j \<Longrightarrow> sat L w t j) \<Longrightarrow>
   enat i < L \<Longrightarrow> sat L w (subst_by_ptr n p s) i \<Longrightarrow> sat L w (subst_by_ptr n p t) i"
proof (induction n p s arbitrary: i rule: subst_by_ptr.induct)
  case (2 k a d p repl)
  have "sat L w (subst_by_ptr a p t) j"
    if "i \<le> j" "enat j < L" "sat L w (subst_by_ptr a p repl) j" for j
    using 2(1) [of j] 2(2,3) that by auto
  with 2 show ?case by (auto intro: un_sem_mono)
next
  case (3 k l r d p repl)
  have *: "sat L w (subst_by_ptr (if d then r else l) p t) j"
    if "i \<le> j" "enat j < L" "sat L w (subst_by_ptr (if d then r else l) p repl) j" for j
    using 3(1,2) [of j] 3(3,4) that by (cases d) auto
  show ?case
  proof (cases d)
    case True
    then show ?thesis
      using 3(3,5,6) * by (auto intro: bin_sem_mono [where P = "sat L w l"])
  next
    case False
    then show ?thesis
      using 3(3,5,6) * by (auto intro: bin_sem_mono [where Q = "sat L w r"])
  qed
qed simp_all

text \<open>In a negation normal form every path to a non-atom is monotone.\<close>

lemma nnf_mono_path: "is_nnf n \<Longrightarrow> \<forall>q. node_at n p \<noteq> NodeAp q \<Longrightarrow> mono_path n p"
proof (induction n p rule: mono_path.induct)
  case (2 k a d p)
  then show ?case by (cases k; cases p) (auto simp: is_nnf_Unary)
qed auto

subsection \<open>Limits do not depend on the position\<close>

lemma gf_iff: "alw \<infinity> (ev \<infinity> P) i \<longleftrightarrow> (\<forall>N. \<exists>k\<ge>N. P k)"
  by (auto simp: alw_def ev_def) (meson le_trans nle_le)

lemma fg_iff: "ev \<infinity> (alw \<infinity> P) i \<longleftrightarrow> (\<exists>N. \<forall>k\<ge>N. P k)"
  by (auto simp: alw_def ev_def) (meson le_trans nle_le)

lemma limit_cases:
  assumes "is_limit n"
  obtains a where "n = node_g (node_f a)" | a where "n = node_f (node_g a)"
  using assms by (auto simp: is_limit_def elim!: is_gf.elims is_fg.elims)

lemma limit_constant: "is_limit n \<Longrightarrow> sat \<infinity> w n i = sat \<infinity> w n j"
  by (erule limit_cases) (simp_all add: gf_iff fg_iff)

lemma gf_cong: "(\<And>j. N \<le> j \<Longrightarrow> P j = Q j) \<Longrightarrow> alw \<infinity> (ev \<infinity> P) i = alw \<infinity> (ev \<infinity> Q) i"
  unfolding gf_iff by (metis le_trans nle_le)

lemma fg_cong: "(\<And>j. N \<le> j \<Longrightarrow> P j = Q j) \<Longrightarrow> ev \<infinity> (alw \<infinity> P) i = ev \<infinity> (alw \<infinity> Q) i"
  unfolding fg_iff by (metis le_trans nle_le)

lemma gf_mono: "(\<And>j. P j \<Longrightarrow> Q j) \<Longrightarrow> alw \<infinity> (ev \<infinity> P) i \<Longrightarrow> alw \<infinity> (ev \<infinity> Q) i"
  unfolding gf_iff by blast

lemma fg_mono: "(\<And>j. P j \<Longrightarrow> Q j) \<Longrightarrow> ev \<infinity> (alw \<infinity> P) i \<Longrightarrow> ev \<infinity> (alw \<infinity> Q) i"
  unfolding fg_iff by blast

lemma refines_infI:
  "ground m \<Longrightarrow> (\<And>w i. sat \<infinity> w m i = sat \<infinity> w n i) \<Longrightarrow> refines False n m"
  by (simp add: refines_def sem_eq_def)

subsection \<open>The identities\<close>

lemma lift_limit_refines:
  assumes n: "is_nnf n" and l: "is_limit (node_at n p)"
  shows "refines False n (lift_limit n p)"
proof (rule refines_infI)
  show "ground (lift_limit n p)"
    using is_nnf_ground [OF n] by (simp add: lift_limit_def subst_by_ptr_ground node_at_ground)
next
  fix w i
  let ?l = "node_at n p"
  have mono: "mono_path n p" using nnf_mono_path [OF n] l by (auto elim: limit_cases)
  have const: "sat \<infinity> w ?l j = sat \<infinity> w ?l i" for j using limit_constant [OF l] .
  have ft: "sat \<infinity> w (subst_by_ptr n p NodeFalse) i \<Longrightarrow> sat \<infinity> w (subst_by_ptr n p NodeTrue) i"
    by (rule subst_mono [OF mono]) simp_all
  have "sat \<infinity> w n i = sat \<infinity> w (subst_by_ptr n p (if sat \<infinity> w ?l i then NodeTrue else NodeFalse)) i"
    using subst_cong [of i \<infinity> w ?l "if sat \<infinity> w ?l i then NodeTrue else NodeFalse" n p] const
    by auto
  then show "sat \<infinity> w (lift_limit n p) i = sat \<infinity> w n i"
    using ft by (auto simp: lift_limit_def split: if_splits)
qed

lemma split_gf_refines:
  assumes n: "is_nnf body" and u: "node_at body p = node_w a b"
  shows "refines False (node_g (node_f body)) (split_gf body p)"
proof (rule refines_infI)
  have g: "ground (node_w a b)" using node_at_ground [OF is_nnf_ground [OF n], of p] u by simp
  show "ground (split_gf body p)"
    using is_nnf_ground [OF n] g u by (simp add: split_gf_def Let_def subst_by_ptr_ground)
next
  fix w i
  let ?C = "\<lambda>s j. sat \<infinity> w (subst_by_ptr body p s) j"
  have mono: "mono_path body p" using nnf_mono_path [OF n] u by simp
  have body: "sat \<infinity> w body = ?C (node_w a b)" using subst_by_ptr_self [of body p] u by metis
  have u_true: "?C (node_u a b) j \<Longrightarrow> ?C NodeTrue j" for j by (rule subst_mono [OF mono]) simp_all
  have "alw \<infinity> (ev \<infinity> (?C (node_w a b))) i \<longleftrightarrow>
        alw \<infinity> (ev \<infinity> (?C (node_u a b))) i \<or>
        ev \<infinity> (alw \<infinity> (sat \<infinity> w a)) i \<and> alw \<infinity> (ev \<infinity> (?C NodeTrue)) i"
  proof (cases "ev \<infinity> (alw \<infinity> (sat \<infinity> w a)) i")
    case True
    then obtain N where N: "\<forall>k\<ge>N. sat \<infinity> w a k" by (auto simp: fg_iff)
    have eq: "?C (node_w a b) j = ?C NodeTrue j" if "N \<le> j" for j
      using N that by (intro subst_cong) (auto simp: weak_until_def alw_def)
    have "alw \<infinity> (ev \<infinity> (?C (node_w a b))) i = alw \<infinity> (ev \<infinity> (?C NodeTrue)) i"
      by (rule gf_cong [of N, OF eq])
    moreover have "alw \<infinity> (ev \<infinity> (?C (node_u a b))) i \<Longrightarrow> alw \<infinity> (ev \<infinity> (?C NodeTrue)) i"
      by (rule gf_mono [OF u_true])
    ultimately show ?thesis using True by blast
  next
    case False
    have "\<not> alw \<infinity> (sat \<infinity> w a) j" for j using False unfolding fg_iff by (auto simp: alw_def)
    then have eq: "?C (node_w a b) j = ?C (node_u a b) j" for j
      by (intro subst_cong) (auto simp: weak_until_def)
    have "alw \<infinity> (ev \<infinity> (?C (node_w a b))) i = alw \<infinity> (ev \<infinity> (?C (node_u a b))) i"
      by (rule gf_cong [of 0, OF eq])
    then show ?thesis using False by blast
  qed
  then show "sat \<infinity> w (split_gf body p) i = sat \<infinity> w (node_g (node_f body)) i"
    using u by (simp add: split_gf_def Let_def body)
qed

lemma split_fg_refines:
  assumes n: "is_nnf body" and u: "node_at body p = node_u a b"
  shows "refines False (node_f (node_g body)) (split_fg body p)"
proof (rule refines_infI)
  have g: "ground (node_u a b)" using node_at_ground [OF is_nnf_ground [OF n], of p] u by simp
  show "ground (split_fg body p)"
    using is_nnf_ground [OF n] g u by (simp add: split_fg_def Let_def subst_by_ptr_ground)
next
  fix w i
  let ?C = "\<lambda>s j. sat \<infinity> w (subst_by_ptr body p s) j"
  have mono: "mono_path body p" using nnf_mono_path [OF n] u by simp
  have body: "sat \<infinity> w body = ?C (node_u a b)" using subst_by_ptr_self [of body p] u by metis
  have false_u: "?C NodeFalse j \<Longrightarrow> ?C (node_u a b) j" for j
    by (rule subst_mono [OF mono]) simp_all
  have "ev \<infinity> (alw \<infinity> (?C (node_u a b))) i \<longleftrightarrow>
        alw \<infinity> (ev \<infinity> (sat \<infinity> w b)) i \<and> ev \<infinity> (alw \<infinity> (?C (node_w a b))) i \<or>
        ev \<infinity> (alw \<infinity> (?C NodeFalse)) i"
  proof (cases "alw \<infinity> (ev \<infinity> (sat \<infinity> w b)) i")
    case True
    have "weak_until \<infinity> (sat \<infinity> w a) (sat \<infinity> w b) j = until \<infinity> (sat \<infinity> w a) (sat \<infinity> w b) j" for j
    proof -
      obtain k where "j \<le> k" "sat \<infinity> w b k" using True by (auto simp: gf_iff)
      then have "alw \<infinity> (sat \<infinity> w a) j \<Longrightarrow> until \<infinity> (sat \<infinity> w a) (sat \<infinity> w b) j"
        unfolding alw_def until_def by (intro exI [of _ k]) simp
      then show ?thesis by (auto simp: weak_until_def)
    qed
    then have eq: "?C (node_u a b) j = ?C (node_w a b) j" for j by (intro subst_cong) auto
    have "ev \<infinity> (alw \<infinity> (?C (node_u a b))) i = ev \<infinity> (alw \<infinity> (?C (node_w a b))) i"
      by (rule fg_cong [of 0, OF eq])
    moreover have "ev \<infinity> (alw \<infinity> (?C NodeFalse)) i \<Longrightarrow> ev \<infinity> (alw \<infinity> (?C (node_u a b))) i"
      by (rule fg_mono [OF false_u])
    ultimately show ?thesis using True by blast
  next
    case False
    then obtain N where N: "\<forall>k\<ge>N. \<not> sat \<infinity> w b k" by (auto simp: gf_iff)
    have eq: "?C (node_u a b) j = ?C NodeFalse j" if "N \<le> j" for j
      using N that by (intro subst_cong) (auto simp: until_def)
    have "ev \<infinity> (alw \<infinity> (?C (node_u a b))) i = ev \<infinity> (alw \<infinity> (?C NodeFalse)) i"
      by (rule fg_cong [of N, OF eq])
    then show ?thesis using False by blast
  qed
  then show "sat \<infinity> w (split_fg body p) i = sat \<infinity> w (node_f (node_g body)) i"
    using u by (simp add: split_fg_def Let_def body)
qed

subsection \<open>The steps\<close>

lemma or_else_Some:
  "or_else l r = Some p \<longleftrightarrow>
   (\<exists>q. l = Some q \<and> p = False # q) \<or> (\<exists>q. l = None \<and> r = Some q \<and> p = True # q)"
  by (auto simp: or_else_def split: option.splits)

lemma or_else_None: "or_else l r = None \<longleftrightarrow> l = None \<and> r = None"
  by (auto simp: or_else_def split: option.splits)

lemma limit_under_bool_limit: "limit_under_bool n = Some p \<Longrightarrow> is_limit (node_at n p)"
proof (induction n arbitrary: p)
  case (Binary k l r)
  then show ?case by (auto simp: or_else_Some split: if_splits)
qed (auto split: if_splits)

lemma limit_of_limit: "limit_of n = Some p \<Longrightarrow> is_limit (node_at n p)"
  by (cases n) (auto simp: or_else_Some dest: limit_under_bool_limit)

lemma find_kind_at: "find_kind n k = Some p \<Longrightarrow> \<exists>a b. node_at n p = Binary k a b"
proof (induction n arbitrary: p)
  case (Binary k' l r)
  then show ?case by (auto simp: or_else_Some split: if_splits)
qed auto

lemma split_root_refines:
  assumes "is_nnf n" and "split_root n = Some r"
  shows "refines False n r"
proof -
  consider b p where "n = node_g (node_f b)" "find_kind b NODE_W = Some p" "r = split_gf b p"
    | b p where "n = node_f (node_g b)" "find_kind b NODE_U = Some p" "r = split_fg b p"
    using assms(2) by (auto simp: split_root_def elim!: is_gf.elims is_fg.elims split: if_splits)
  then show ?thesis
  proof cases
    case 1
    with assms(1) show ?thesis using find_kind_at [of b NODE_W p] split_gf_refines [of b p] by auto
  next
    case 2
    with assms(1) show ?thesis using find_kind_at [of b NODE_U p] split_fg_refines [of b p] by auto
  qed
qed

lemma is_nnf_args:
  "is_nnf (Unary k a) \<Longrightarrow> is_nnf a"
  "is_nnf (Binary k2 a b) \<Longrightarrow> is_nnf a \<and> is_nnf b"
  by (auto simp: is_nnf_Unary split: if_splits)

lemma sickert2_step_refines: "is_nnf n \<Longrightarrow> refines False n (fst (sickert2_step n d))"
proof (induction n arbitrary: d)
  case (Unary k a)
  note IH = Unary.IH [OF is_nnf_args(1) [OF Unary.prems]]
  show ?case
    using IH [of d] Unary.prems lift_limit_refines [OF Unary.prems limit_of_limit]
      is_nnf_ground [OF Unary.prems]
    by (subst sickert2_step.simps) (auto simp: refines_Unary split: prod.splits option.splits if_splits)
next
  case (Binary k l r)
  note nnf = is_nnf_args(2) [OF Binary.prems]
  note IH = Binary.IH(1) [OF conjunct1 [OF nnf]] Binary.IH(2) [OF conjunct2 [OF nnf]]
  show ?case
  proof (cases "\<not> d \<and> (if node_kind_is_temporal (Binary k l r) then limit_of (Binary k l r) else None) = None")
    case True
    obtain l' dl where l: "sickert2_step l d = (l', dl)" by force
    obtain r' dr where r: "sickert2_step r dl = (r', dr)" by force
    have "refines False l l'" "refines False r r'" "refines False r r"
      using IH(1) [of d] IH(2) [of dl] l r nnf by (auto dest: is_nnf_ground)
    with True l r show ?thesis
      by (subst sickert2_step.simps) (auto simp: refines_Binary split: option.splits)
  next
    case False
    then show ?thesis
      using lift_limit_refines [OF Binary.prems limit_of_limit] is_nnf_ground [OF Binary.prems]
      by (subst sickert2_step.simps) (auto split: option.splits if_splits)
  qed
qed (subst sickert2_step.simps; auto dest: is_nnf_ground)+

lemma sickert3_step_refines: "is_nnf n \<Longrightarrow> refines False n (fst (sickert3_step n d))"
proof (induction n arbitrary: d)
  case (Unary k a)
  note IH = Unary.IH [OF is_nnf_args(1) [OF Unary.prems]]
  show ?case
    using IH [of d] split_root_refines [OF Unary.prems] is_nnf_ground [OF Unary.prems]
    by (subst sickert3_step.simps) (auto simp: refines_Unary split: prod.splits option.splits if_splits)
next
  case (Binary k l r)
  note nnf = is_nnf_args(2) [OF Binary.prems]
  note IH = Binary.IH(1) [OF conjunct1 [OF nnf]] Binary.IH(2) [OF conjunct2 [OF nnf]]
  show ?case
  proof (cases "\<not> d \<and> split_root (Binary k l r) = None")
    case True
    obtain l' dl where l: "sickert3_step l d = (l', dl)" by force
    obtain r' dr where r: "sickert3_step r dl = (r', dr)" by force
    have "refines False l l'" "refines False r r'" "refines False r r"
      using IH(1) [of d] IH(2) [of dl] l r nnf by (auto dest: is_nnf_ground)
    with True l r show ?thesis
      by (subst sickert3_step.simps) (auto simp: refines_Binary split: option.splits)
  next
    case False
    then show ?thesis
      using split_root_refines [OF Binary.prems] is_nnf_ground [OF Binary.prems]
      by (subst sickert3_step.simps) (auto split: option.splits if_splits)
  qed
qed (subst sickert3_step.simps; auto simp: split_root_def dest: is_nnf_ground)+

subsection \<open>The stages\<close>

lemma nnf_refines:
  assumes "ground n"
  obtains m where "to_nnf n True False = Some m" "is_nnf m" "refines False n m"
proof -
  obtain m where "to_nnf n True False = Some m" "refines False n m"
    by (rule nnf_pass.pass_obtain [OF assms])
  with that show ?thesis using to_nnf_is_nnf by blast
qed

lemma apply_weak_refines:
  assumes "ground n"
  shows "\<exists>m. apply_rewrites n RW_SIMPLIFY_WEAK = Some m \<and> refines False n m"
proof -
  have "has_flag RW_SIMPLIFY_WEAK RW_FINITE = False"
    by (simp add: has_flag_def RW_SIMPLIFY_WEAK_def RW_FINITE_def)
  then show ?thesis using apply_rewrites_refines [OF assms, of RW_SIMPLIFY_WEAK] by simp
qed

lemma sickert_stage2_refines:
  assumes "ground n"
  shows "\<exists>m. sickert_stage2 n = Some m \<and> refines False n m"
proof -
  obtain f where f: "to_nnf n True False = Some f" "is_nnf f" "refines False n f"
    using nnf_refines [OF assms] .
  obtain r d where r: "sickert2_step f False = (r, d)" by force
  have nr: "refines False n r"
    using refines_trans [OF f(3) sickert2_step_refines [OF f(2), of False]] r by simp
  from apply_weak_refines [OF refines_ground [OF nr]] nr
  have "\<exists>m. apply_rewrites r RW_SIMPLIFY_WEAK = Some m \<and> refines False n m"
    by (blast intro: refines_trans)
  with assms f(1) r show ?thesis by (cases d) (auto simp: sickert_stage2_def Let_def)
qed

lemma sickert_stage3_refines:
  assumes "ground n"
  shows "\<exists>m. sickert_stage3 n = Some m \<and> refines False n m"
proof -
  obtain f where f: "to_nnf n True False = Some f" "is_nnf f" "refines False n f"
    using nnf_refines [OF assms] .
  obtain r d where r: "sickert3_step f False = (r, d)" by force
  have nr: "refines False n r"
    using refines_trans [OF f(3) sickert3_step_refines [OF f(2), of False]] r by simp
  from apply_weak_refines [OF refines_ground [OF nr]] nr
  have "\<exists>m. apply_rewrites r RW_SIMPLIFY_WEAK = Some m \<and> refines False n m"
    by (blast intro: refines_trans)
  with assms f(1) r show ?thesis by (cases d) (auto simp: sickert_stage3_def Let_def)
qed

interpretation stage2: formula_pass False sickert_stage2
  by unfold_locales (use sickert_stage2_refines in \<open>force+\<close>)

interpretation stage3: formula_pass False sickert_stage3
  by unfold_locales (use sickert_stage3_refines in \<open>force+\<close>)

subsection \<open>A counted obstacle makes the step fire\<close>

lemma limit_under_bool_self: "is_limit n \<Longrightarrow> limit_under_bool n \<noteq> None"
  by (erule limit_cases) (simp_all add: is_limit_def)

lemma count_node_limit:
  "limit_under_temporal (count_node n ut uw ug uf ob) =
     (if is_limit n \<and> ut then limit_under_temporal ob + 1 else limit_under_temporal ob)"
  by (simp add: count_node_def is_limit_def Let_def)

lemma step2_idle:
  assumes "\<not> snd (sickert2_step n False)"
  shows "node_kind_is_temporal n \<Longrightarrow> limit_of n = None"
    and "n = Unary k a \<Longrightarrow> \<not> snd (sickert2_step a False)"
    and "n = Binary k2 l r \<Longrightarrow> \<not> snd (sickert2_step l False) \<and> \<not> snd (sickert2_step r False)"
  using assms
  by (subst (asm) sickert2_step.simps;
      force split: option.splits prod.splits if_splits)+

lemma obst_walk_no_limit:
  "is_nnf n \<Longrightarrow> \<not> snd (sickert2_step n False) \<Longrightarrow> (ut \<Longrightarrow> limit_under_bool n = None) \<Longrightarrow>
   limit_under_temporal (obst_walk n ut uw ug uf ob) = limit_under_temporal ob"
proof (induction n arbitrary: ut uw ug uf ob)
  case (Unary k a)
  have nl: "\<not> (is_limit (Unary k a) \<and> ut)" using Unary.prems(3) limit_under_bool_self by blast
  have "limit_under_bool a = None" if "ut \<or> un_is_temporal k"
  proof (cases "k = NODE_NOT")
    case True
    then show ?thesis using Unary.prems(1) by (auto simp: is_limit_def)
  next
    case False
    then have "un_is_temporal k" by (cases k) simp_all
    then show ?thesis using step2_idle(1) [OF Unary.prems(2)] by simp
  qed
  then show ?case
    using nl Unary.IH [OF is_nnf_args(1) [OF Unary.prems(1)] step2_idle(2) [OF Unary.prems(2) refl]]
    by (subst obst_walk.simps) (simp add: count_node_limit)
next
  case (Binary k l r)
  have nnf: "is_nnf l" "is_nnf r" using is_nnf_args(2) [OF Binary.prems(1)] by auto
  have idle: "\<not> snd (sickert2_step l False)" "\<not> snd (sickert2_step r False)"
    using step2_idle(3) [OF Binary.prems(2) refl] by auto
  have none: "limit_under_bool l = None \<and> limit_under_bool r = None" if "ut \<or> bin_is_temporal k"
  proof (cases "bin_is_temporal k")
    case True
    then show ?thesis using step2_idle(1) [OF Binary.prems(2)] by (simp add: or_else_None)
  next
    case False
    then have "k = NODE_AND \<or> k = NODE_OR" using Binary.prems(1) by (cases k) auto
    then show ?thesis using Binary.prems(3) that False by (auto simp: or_else_None)
  qed
  have "\<not> is_limit (Binary k l r)" by (simp add: is_limit_def)
  then show ?case
    using Binary.IH(1) [OF nnf(1) idle(1), of "ut \<or> bin_is_temporal k"]
      Binary.IH(2) [OF nnf(2) idle(2), of "ut \<or> bin_is_temporal k"] none
    by (subst obst_walk.simps) (simp add: count_node_limit Let_def)
qed (subst obst_walk.simps; simp add: count_node_limit is_limit_def)+

lemma step2_fires:
  assumes "is_nnf n" and "limit_under_temporal (tlsf_norm_count_obstacles n no_obstacles) \<noteq> 0"
  shows "snd (sickert2_step n False)"
  using obst_walk_no_limit [OF assms(1), of False False False False no_obstacles] assms(2)
  by (auto simp: tlsf_norm_count_obstacles_def no_obstacles_def)

lemma count_node_split:
  "w_under_gf (count_node n ut uw ug uf ob) =
     (if is_bin NODE_W n \<and> ug then w_under_gf ob + 1 else w_under_gf ob)"
  "u_under_fg (count_node n ut uw ug uf ob) =
     (if is_bin NODE_U n \<and> uf then u_under_fg ob + 1 else u_under_fg ob)"
  by (simp_all add: count_node_def Let_def)

lemma step3_idle:
  assumes "\<not> snd (sickert3_step n False)"
  shows "split_root n = None"
    and "n = Unary k a \<Longrightarrow> \<not> snd (sickert3_step a False)"
    and "n = Binary k2 l r \<Longrightarrow> \<not> snd (sickert3_step l False) \<and> \<not> snd (sickert3_step r False)"
  using assms
  by (subst (asm) sickert3_step.simps;
      force split: option.splits prod.splits if_splits)+

lemma split_root_None:
  assumes "split_root (Unary k a) = None"
  shows "is_gf (Unary k a) \<Longrightarrow> find_kind a NODE_W = None"
    and "is_fg (Unary k a) \<Longrightarrow> find_kind a NODE_U = None"
  using assms by (auto simp: split_root_def elim!: is_gf.elims is_fg.elims)

lemma obst_walk_no_split:
  "\<not> snd (sickert3_step n False) \<Longrightarrow> (ug \<Longrightarrow> find_kind n NODE_W = None) \<Longrightarrow>
   (uf \<Longrightarrow> find_kind n NODE_U = None) \<Longrightarrow>
   w_under_gf (obst_walk n ut uw ug uf ob) = w_under_gf ob \<and>
   u_under_fg (obst_walk n ut uw ug uf ob) = u_under_fg ob"
proof (induction n arbitrary: ut uw ug uf ob)
  case (Unary k a)
  have "find_kind a NODE_W = None" if "ug \<or> is_gf (Unary k a)"
    using Unary.prems(2) split_root_None(1) [OF step3_idle(1) [OF Unary.prems(1)]] that by auto
  moreover have "find_kind a NODE_U = None" if "uf \<or> is_fg (Unary k a)"
    using Unary.prems(3) split_root_None(2) [OF step3_idle(1) [OF Unary.prems(1)]] that by auto
  ultimately show ?case
    using Unary.IH [OF step3_idle(2) [OF Unary.prems(1) refl],
        of "ug \<or> is_gf (Unary k a)" "uf \<or> is_fg (Unary k a)"]
    by (subst (1 2) obst_walk.simps) (simp add: count_node_split Let_def)
next
  case (Binary k l r)
  have "k \<noteq> NODE_W \<and> find_kind l NODE_W = None \<and> find_kind r NODE_W = None" if ug
    using Binary.prems(2) [OF that] by (auto simp: or_else_None split: if_splits)
  moreover have "k \<noteq> NODE_U \<and> find_kind l NODE_U = None \<and> find_kind r NODE_U = None" if uf
    using Binary.prems(3) [OF that] by (auto simp: or_else_None split: if_splits)
  ultimately show ?case
    using step3_idle(3) [OF Binary.prems(1) refl] Binary.IH(1) [of ug uf] Binary.IH(2) [of ug uf]
    by (subst (1 2) obst_walk.simps) (auto simp: count_node_split Let_def)
qed (subst (1 2) obst_walk.simps; simp add: count_node_split is_bin_iff)+

lemma step3_fires:
  assumes "w_under_gf (tlsf_norm_count_obstacles n no_obstacles) \<noteq> 0 \<or>
           u_under_fg (tlsf_norm_count_obstacles n no_obstacles) \<noteq> 0"
  shows "snd (sickert3_step n False)"
  using obst_walk_no_split [of n False False False False no_obstacles] assms
  by (auto simp: tlsf_norm_count_obstacles_def no_obstacles_def)

subsection \<open>Properties\<close>

text \<open>
  C26. Sickert stage 2 returns for every expanded formula, and its result is equivalent on all
  infinite words: lifting a GF/FG limit out of its nearest temporal context by
  \<open>C[l] = (l && C[true]) || C[false]\<close> is sound in the negation normal form.
\<close>

theorem sickert_stage2_correct:
  assumes "ground n"
  shows "\<exists>m. sickert_stage2 n = Some m \<and> refines False n m"
  using assms by (rule sickert_stage2_refines)

theorem sickert_stage2_correct_witness:
  "\<exists>m. sickert_stage2 (node_u (NodeAp ''p'') (node_and (NodeAp ''q'') (node_g (node_f (NodeAp ''r''))))) =
         Some m \<and>
       refines False (node_u (NodeAp ''p'') (node_and (NodeAp ''q'') (node_g (node_f (NodeAp ''r''))))) m"
  by (rule sickert_stage2_correct) simp

text \<open>
  C27. Sickert stage 3 returns for every expanded formula, and its result is equivalent on all
  infinite words: the identities that remove the first weak until below a GF and the first
  until below an FG are sound in the negation normal form.
\<close>

theorem sickert_stage3_correct:
  assumes "ground n"
  shows "\<exists>m. sickert_stage3 n = Some m \<and> refines False n m"
  using assms by (rule sickert_stage3_refines)

theorem sickert_stage3_correct_witness:
  "\<exists>m. sickert_stage3 (node_g (node_f (node_or (NodeAp ''p'') (node_w (NodeAp ''q'') (NodeAp ''r''))))) =
         Some m \<and>
       refines False (node_g (node_f (node_or (NodeAp ''p'') (node_w (NodeAp ''q'') (NodeAp ''r''))))) m"
  by (rule sickert_stage3_correct) simp

text \<open>
  C40. The obstacle counters and the steps agree: when the counters report a limit under a
  temporal node of a negation normal form, the stage 2 step finds one to lift, and when they
  report a weak until under GF or an until under FG, the stage 3 step finds one to split.
\<close>

theorem sickert_steps_fire:
  assumes "is_nnf n"
  shows "(limit_under_temporal (tlsf_norm_count_obstacles n no_obstacles) \<noteq> 0 \<longrightarrow>
            snd (sickert2_step n False)) \<and>
         (w_under_gf (tlsf_norm_count_obstacles n no_obstacles) \<noteq> 0 \<or>
          u_under_fg (tlsf_norm_count_obstacles n no_obstacles) \<noteq> 0 \<longrightarrow>
            snd (sickert3_step n False))"
  using step2_fires [OF assms] step3_fires by blast

theorem sickert_steps_fire_witness:
  "snd (sickert2_step (node_x (node_or (NodeAp ''p'') (node_f (node_g (NodeAp ''q''))))) False) \<and>
   snd (sickert3_step (node_f (node_g (node_u (NodeAp ''p'') (NodeAp ''q'')))) False)"
proof -
  have "limit_under_temporal (tlsf_norm_count_obstacles
          (node_x (node_or (NodeAp ''p'') (node_f (node_g (NodeAp ''q''))))) no_obstacles) = 1"
    and "u_under_fg (tlsf_norm_count_obstacles
          (node_f (node_g (node_u (NodeAp ''p'') (NodeAp ''q'')))) no_obstacles) = 1"
    by code_simp+
  then show ?thesis
    using sickert_steps_fire [of "node_x (node_or (NodeAp ''p'') (node_f (node_g (NodeAp ''q''))))"]
      sickert_steps_fire [of "node_f (node_g (node_u (NodeAp ''p'') (NodeAp ''q'')))"]
    by simp
qed

end
