(* ===== verification/Pre_Norm.thy ===== *)
theory Pre_Norm
  imports Rewrite Norm_Match
begin

text \<open>
  The pre-expansion passes of \<^verbatim>\<open>src/lib/normalize.c\<close>: \<^verbatim>\<open>pre_indexed_x\<close>, \<^verbatim>\<open>pre_bounded_bool\<close>,
  \<^verbatim>\<open>pre_weak\<close> and the list-level \<^verbatim>\<open>prenorm_spine\<close>.  They run on formulas that still hold
  \<^verbatim>\<open>X[n]\<close>, ranges and reductions, so they are measured against \<open>hsat\<close>, the meaning of such a
  formula under an integer environment.  \<^verbatim>\<open>int64_t\<close> sums that overflow are undefined in C and
  unspecified here.
\<close>

subsection \<open>The passes\<close>

definition int64_add :: "int \<Rightarrow> int \<Rightarrow> int" where
  "int64_add c d = (if - (2 ^ 63) \<le> c + d \<and> c + d < 2 ^ 63 then c + d else undefined)"

fun is_int_lit :: "node \<Rightarrow> int option" where
  "is_int_lit (NodeInt v) = Some v"
| "is_int_lit _ = None"

text \<open>The connectives below which the pre passes look for more work.\<close>

definition bool_bin :: "bin_kind \<Rightarrow> bool" where
  "bool_bin k \<longleftrightarrow> k = NODE_AND \<or> k = NODE_OR \<or> k = NODE_IMPL \<or> k = NODE_EQUIV"

text \<open>The \<open>NODE_NEXT_N\<close> case of \<^verbatim>\<open>pre_indexed_x\<close>, after its body was simplified.\<close>

definition merge_next_n :: "bool \<Rightarrow> node \<Rightarrow> node \<Rightarrow> node \<Rightarrow> node" where
  "merge_next_n strong count old_body body =
     (let keep = (if body = old_body then NextN strong count old_body else node_next_n count body)
      in case is_int_lit count of
           None \<Rightarrow> keep
         | Some c \<Rightarrow>
             if c = 0 then body
             else (case body of
                     Unary NODE_X a \<Rightarrow> node_next_n (NodeInt (int64_add c 1)) a
                   | NextN _ count' a \<Rightarrow>
                       (case is_int_lit count' of
                          Some d \<Rightarrow> node_next_n (NodeInt (int64_add c d)) a
                        | None \<Rightarrow> keep)
                   | _ \<Rightarrow> keep))"

fun pre_indexed_x :: "node \<Rightarrow> node" where
  "pre_indexed_x (NextN strong count n) = merge_next_n strong count n (pre_indexed_x n)"
| "pre_indexed_x (Unary k n) =
     (let arg = pre_indexed_x n in
      if k = NODE_X
      then (case arg of
              NextN _ count a \<Rightarrow>
                (case is_int_lit count of
                   Some d \<Rightarrow> node_next_n (NodeInt (int64_add d 1)) a
                 | None \<Rightarrow> node_x arg)
            | _ \<Rightarrow> node_x arg)
      else Unary k arg)"
| "pre_indexed_x (Binary k l r) =
     (if bool_bin k then Binary k (pre_indexed_x l) (pre_indexed_x r) else Binary k l r)"
| "pre_indexed_x n = n"

fun pre_bounded_bool :: "node \<Rightarrow> node" where
  "pre_bounded_bool (Quant k v b body) =
     (if k = NODE_FORALL \<or> k = NODE_EXISTS
      then if k = NODE_FORALL \<and> is_true body then NodeTrue
           else if k = NODE_EXISTS \<and> is_false body then NodeFalse
           else (case b of
                   RangeBinder lo_expr lo_strict hi_expr hi_strict \<Rightarrow>
                     (case (is_int_lit lo_expr, is_int_lit hi_expr) of
                        (Some lo, Some hi) \<Rightarrow>
                          if int64_add lo (if lo_strict then 1 else 0) >
                             int64_add hi (if hi_strict then - 1 else 0)
                          then if k = NODE_FORALL then NodeTrue else NodeFalse
                          else Quant k v b body
                      | _ \<Rightarrow> Quant k v b body)
                 | SetBinder _ \<Rightarrow> Quant k v b body)
      else Quant k v b body)"
| "pre_bounded_bool (Unary k n) =
     (if k = NODE_X_STRONG then Unary k n else Unary k (pre_bounded_bool n))"
| "pre_bounded_bool (Binary k l r) =
     (if bool_bin k then Binary k (pre_bounded_bool l) (pre_bounded_bool r) else Binary k l r)"
| "pre_bounded_bool n = n"

definition pre_weak_un :: "un_kind \<Rightarrow> bool \<Rightarrow> node \<Rightarrow> node" where
  "pre_weak_un k fin x = (case k of
     NODE_NOT \<Rightarrow>
       if is_true x then NodeFalse else if is_false x then NodeTrue
       else if is_un NODE_NOT x then un_arg x else node_not x
   | NODE_X \<Rightarrow> if \<not> fin \<and> is_false x then NodeFalse else node_x x
   | NODE_X_STRONG \<Rightarrow> node_x_strong x
   | _ \<Rightarrow> if is_true x then NodeTrue else if is_false x then NodeFalse else Unary k x)"

definition pre_weak_bin :: "bin_kind \<Rightarrow> node \<Rightarrow> node \<Rightarrow> node" where
  "pre_weak_bin k l r = (case k of
     NODE_AND \<Rightarrow>
       if is_false l \<or> is_false r then NodeFalse else if is_true l then r
       else if is_true r then l else if node_equal l r then l else node_and l r
   | NODE_OR \<Rightarrow>
       if is_true l \<or> is_true r then NodeTrue else if is_false l then r
       else if is_false r then l else if node_equal l r then l else node_or l r
   | NODE_IMPL \<Rightarrow>
       if is_false l \<or> is_true r then NodeTrue else if is_true l then r else node_impl l r
   | _ \<Rightarrow> Binary k l r)"

text \<open>\<open>NODE_X_STRONG\<close> has no case: the \<open>default\<close> returns it as it is.\<close>

fun pre_weak :: "node \<Rightarrow> bool \<Rightarrow> node" where
  "pre_weak (Unary k n) fin =
     (if k = NODE_X_STRONG then Unary k n else pre_weak_un k fin (pre_weak n fin))"
| "pre_weak (Binary k l r) fin = pre_weak_bin k (pre_weak l fin) (pre_weak r fin)"
| "pre_weak (NextN strong count n) fin =
     (let b = pre_weak n fin in
      if b = n then NextN strong count n else node_next_n count b)"
| "pre_weak n fin = n"

fun prenorm_spine :: "node \<Rightarrow> node list" where
  "prenorm_spine (Binary k l r) =
     (if k = NODE_AND then prenorm_spine l @ prenorm_spine r else [Binary k l r])"
| "prenorm_spine (Unary k n) =
     (if k = NODE_G \<or> k = NODE_X \<or> k = NODE_X_STRONG then map (Unary k) (prenorm_spine n)
      else [Unary k n])"
| "prenorm_spine (NextN strong count n) = map (node_next_n count) (prenorm_spine n)"
| "prenorm_spine n = [n]"

subsection \<open>The meaning of an unexpanded formula\<close>

text \<open>
  \<open>meaning\<close> gives what the passes never look into: integer and set expressions, and the
  formulas behind atoms, definition calls, bus elements and the like.  The reductions and the
  counted operators mean what \<^verbatim>\<open>expand_node\<close> of \<^verbatim>\<open>src/lib/expand.c\<close> turns them into; where
  their bounds do not evaluate or are negative, expansion fails and nothing is satisfied.
\<close>

type_synonym int_env = "string \<Rightarrow> int option"

record meaning =
  int_meaning :: "int_env \<Rightarrow> node \<Rightarrow> int option"
  set_meaning :: "int_env \<Rightarrow> node \<Rightarrow> int set"
  atom_meaning :: "int_env \<Rightarrow> node \<Rightarrow> nat \<Rightarrow> bool"

definition int_of :: "meaning \<Rightarrow> int_env \<Rightarrow> node \<Rightarrow> int option" where
  "int_of M env n = (case is_int_lit n of Some v \<Rightarrow> Some v | None \<Rightarrow> int_meaning M env n)"

definition next_step :: "enat \<Rightarrow> bool \<Rightarrow> (nat \<Rightarrow> bool) \<Rightarrow> nat \<Rightarrow> bool" where
  "next_step L strong = (if strong then next_strong L else next_weak L)"

definition quant_sem :: "quant_kind \<Rightarrow> int set \<Rightarrow> (int \<Rightarrow> nat \<Rightarrow> bool) \<Rightarrow> nat \<Rightarrow> bool" where
  "quant_sem k D P i = (if k = NODE_FORALL then \<forall>x\<in>D. P x i else \<exists>x\<in>D. P x i)"

fun hsat :: "meaning \<Rightarrow> enat \<Rightarrow> int_env \<Rightarrow> node \<Rightarrow> nat \<Rightarrow> bool" where
  "hsat M L env NodeTrue = (\<lambda>i. True)"
| "hsat M L env NodeFalse = (\<lambda>i. False)"
| "hsat M L env (Unary k a) = un_sem L k (hsat M L env a)"
| "hsat M L env (Binary k a b) = bin_sem L k (hsat M L env a) (hsat M L env b)"
| "hsat M L env (NextN strong count n) =
     (case int_of M env count of
        Some c \<Rightarrow> if c < 0 then (\<lambda>i. False)
                  else (next_step L strong ^^ nat c) (hsat M L env n)
      | None \<Rightarrow> (\<lambda>i. False))"
| "hsat M L env (BoundedOp k strong lo hi n) =
     (case (int_of M env lo, int_of M env hi) of
        (Some l, Some h) \<Rightarrow>
          if l < 0 \<or> h < 0 then (\<lambda>i. False)
          else quant_sem (if k = NODE_G_RANGE then NODE_FORALL else NODE_EXISTS) {l..h}
                 (\<lambda>c. (next_step L strong ^^ nat c) (hsat M L env n))
      | _ \<Rightarrow> (\<lambda>i. False))"
| "hsat M L env (Quant k v (RangeBinder lo lo_strict hi hi_strict) n) =
     (if k = NODE_FORALL \<or> k = NODE_EXISTS
      then case (int_of M env lo, int_of M env hi) of
             (Some l, Some h) \<Rightarrow>
               quant_sem k {l + (if lo_strict then 1 else 0)..h + (if hi_strict then - 1 else 0)}
                 (\<lambda>x. hsat M L (env(v \<mapsto> x)) n)
           | _ \<Rightarrow> (\<lambda>i. False)
      else atom_meaning M env (Quant k v (RangeBinder lo lo_strict hi hi_strict) n))"
| "hsat M L env (Quant k v (SetBinder s) n) =
     (if k = NODE_FORALL \<or> k = NODE_EXISTS
      then quant_sem k (set_meaning M env s) (\<lambda>x. hsat M L (env(v \<mapsto> x)) n)
      else atom_meaning M env (Quant k v (SetBinder s) n))"
| "hsat M L env n = atom_meaning M env n"

lemma int_of_lit [simp]: "is_int_lit n = Some v \<Longrightarrow> int_of M env n = Some v"
  by (simp add: int_of_def)

lemma is_int_lit_Some [simp]: "is_int_lit n = Some v \<longleftrightarrow> n = NodeInt v"
  by (cases n) auto

lemma int_of_NodeInt [simp]: "int_of M env (NodeInt v) = Some v"
  by (simp add: int_of_def)

text \<open>\<open>\<equiv>\<close> of unexpanded formulas at length \<open>L\<close>.\<close>

definition hsat_eq :: "enat \<Rightarrow> node \<Rightarrow> node \<Rightarrow> bool" where
  "hsat_eq L m n \<longleftrightarrow> (\<forall>M env. hsat M L env m = hsat M L env n)"

lemma hsat_eq_refl [simp]: "hsat_eq L n n"
  by (simp add: hsat_eq_def)

lemma hsat_eq_sym: "hsat_eq L m n \<Longrightarrow> hsat_eq L n m"
  by (simp add: hsat_eq_def)

lemma hsat_eq_trans [trans]: "hsat_eq L m n \<Longrightarrow> hsat_eq L n k \<Longrightarrow> hsat_eq L m k"
  by (simp add: hsat_eq_def)

lemma hsat_eq_Unary: "hsat_eq L a b \<Longrightarrow> hsat_eq L (Unary k a) (Unary k b)"
  by (simp add: hsat_eq_def)

lemma hsat_eq_Binary: "hsat_eq L a c \<Longrightarrow> hsat_eq L b d \<Longrightarrow> hsat_eq L (Binary k a b) (Binary k c d)"
  by (simp add: hsat_eq_def)

subsection \<open>Strong counted next\<close>

text \<open>The formulas the passes visit without a strong \<open>X[!n]\<close>.\<close>

fun strong_next_n :: "node \<Rightarrow> bool" where
  "strong_next_n (NextN strong count n) = (strong \<or> strong_next_n n)"
| "strong_next_n (Unary k n) = strong_next_n n"
| "strong_next_n (Binary k l r) = (strong_next_n l \<or> strong_next_n r)"
| "strong_next_n n = False"

definition next_ok :: "enat \<Rightarrow> node \<Rightarrow> bool" where
  "next_ok L n \<longleftrightarrow> L = \<infinity> \<or> \<not> strong_next_n n"

lemma next_step_inf [simp]: "next_step \<infinity> strong = next_weak \<infinity>"
  by (auto simp: next_step_def next_strong_inf fun_eq_iff)

lemma next_ok_NextN: "next_ok L (NextN strong count n) \<Longrightarrow> next_step L strong = next_weak L \<and> next_ok L n"
  by (auto simp: next_ok_def next_step_def next_strong_inf fun_eq_iff)

lemma next_ok_args:
  "next_ok L (Unary k n) = next_ok L n"
  "next_ok L (Binary k2 l r) = (next_ok L l \<and> next_ok L r)"
  by (auto simp: next_ok_def)

lemma hsat_eq_NextN:
  "next_ok L (NextN strong count n) \<Longrightarrow> hsat_eq L m n \<Longrightarrow>
   hsat_eq L (node_next_n count m) (NextN strong count n)"
  using next_ok_NextN [of L strong count n]
  by (auto simp: hsat_eq_def next_step_def split: option.splits)

lemma hsat_eq_NextN_same: "hsat_eq L m n \<Longrightarrow> hsat_eq L (NextN strong count m) (NextN strong count n)"
  by (auto simp: hsat_eq_def split: option.splits)

text \<open>Adding up two counted nexts.\<close>

lemma hsat_add_next:
  assumes "0 \<le> c" "0 \<le> d" "c + d < 2 ^ 63" and "next_ok L (NextN s (NodeInt d) a)"
  shows "hsat M L env (node_next_n (NodeInt (int64_add c d)) a) =
         hsat M L env (node_next_n (NodeInt c) (NextN s (NodeInt d) a))"
proof -
  have "nat (c + d) = nat c + nat d" using assms by (simp add: nat_add_distrib)
  then show ?thesis
    using assms next_ok_NextN [OF assms(4)] by (simp add: int64_add_def next_step_def funpow_add)
qed

subsection \<open>\<open>pre_indexed_x\<close>\<close>

text \<open>
  Literal counts are not negative (the scanner produces none) and add up to less than
  \<open>2 ^ 63\<close>: no sum the pass computes overflows.
\<close>

fun counts_nonneg :: "node \<Rightarrow> bool" where
  "counts_nonneg (NextN strong count n) =
     ((case is_int_lit count of Some c \<Rightarrow> 0 \<le> c | None \<Rightarrow> True) \<and> counts_nonneg n)"
| "counts_nonneg (Unary k n) = counts_nonneg n"
| "counts_nonneg (Binary k l r) = (counts_nonneg l \<and> counts_nonneg r)"
| "counts_nonneg n = True"

fun count_total :: "node \<Rightarrow> int" where
  "count_total (NextN strong count n) =
     (case is_int_lit count of Some c \<Rightarrow> c | None \<Rightarrow> 0) + count_total n"
| "count_total (Unary k n) = 1 + count_total n"
| "count_total (Binary k l r) = count_total l + count_total r"
| "count_total n = 0"

definition counts_ok :: "node \<Rightarrow> bool" where
  "counts_ok n \<longleftrightarrow> counts_nonneg n \<and> count_total n < 2 ^ 63"

lemma count_total_nonneg: "counts_nonneg n \<Longrightarrow> 0 \<le> count_total n"
  by (induction n rule: counts_nonneg.induct) (auto split: option.splits)

text \<open>What the pass promises of its result, besides the meaning.\<close>

definition x_result :: "enat \<Rightarrow> node \<Rightarrow> node \<Rightarrow> bool" where
  "x_result L n m \<longleftrightarrow> hsat_eq L m n \<and> next_ok L m \<and> counts_nonneg m \<and> count_total m \<le> count_total n"

lemma merge_next_n_cases:
  "(\<exists>a. b = node_x a) \<or> (\<exists>s d a. b = NextN s (NodeInt d) a) \<or> is_int_lit count = Some 0 \<or>
   merge_next_n strong count n b = (if b = n then NextN strong count n else node_next_n count b)"
proof (cases b)
  case (Unary k a)
  then show ?thesis by (cases k) (auto simp: merge_next_n_def Let_def split: option.splits)
next
  case (NextN s m a)
  then show ?thesis by (cases m) (auto simp: merge_next_n_def Let_def split: option.splits)
qed (auto simp: merge_next_n_def Let_def split: option.splits)

lemma merge_next_n_result:
  assumes n: "next_ok L (NextN strong count n)" "counts_ok (NextN strong count n)"
    and b: "x_result L n b"
  shows "x_result L (NextN strong count n) (merge_next_n strong count n b)"
proof -
  have w: "next_step L strong = next_weak L" using next_ok_NextN [OF n(1)] by simp
  have keep: "x_result L (NextN strong count n)
      (if b = n then NextN strong count n else node_next_n count b)"
    using n b hsat_eq_NextN [OF n(1), of b]
    by (auto simp: x_result_def counts_ok_def next_ok_def)
  have "next_ok L b" "counts_nonneg b" "count_total b \<le> count_total n" "hsat_eq L b n"
    using b by (simp_all add: x_result_def)
  note b = this
  show ?thesis
  proof (cases "is_int_lit count")
    case None
    with keep show ?thesis by (simp add: merge_next_n_def Let_def)
  next
    case (Some c)
    then have c: "count = NodeInt c" "0 \<le> c" "c + count_total n < 2 ^ 63" "0 \<le> count_total n"
      using n(2) count_total_nonneg [of n] by (auto simp: counts_ok_def)
    have nb: "hsat_eq L (node_next_n count b) (NextN strong count n)"
      by (rule hsat_eq_NextN [OF n(1) b(4)])
    show ?thesis
    proof (cases "c = 0")
      case True
      with c b n show ?thesis
        by (auto simp: merge_next_n_def x_result_def hsat_eq_def)
    next
      case False
      consider a where "b = node_x a" | s d a where "b = NextN s (NodeInt d) a"
        | "merge_next_n strong count n b = (if b = n then NextN strong count n else node_next_n count b)"
        using merge_next_n_cases [of b count strong n] False c(1) by auto
      then show ?thesis
      proof cases
        case 1
        then have "count_total a + 1 \<le> count_total n" "counts_nonneg a" "0 \<le> count_total a" "next_ok L a"
          using b count_total_nonneg [of a] by (auto simp: next_ok_args)
        note a = this
        have "hsat_eq L (node_next_n (NodeInt (int64_add c 1)) a) (node_next_n count b)"
          using hsat_add_next [of c 1 L False a] a(4) 1 c a
          by (auto simp: hsat_eq_def next_step_def next_ok_def)
        then have "hsat_eq L (node_next_n (NodeInt (int64_add c 1)) a) (NextN strong count n)"
          using nb hsat_eq_trans by blast
        moreover have "int64_add c 1 = c + 1" using c a by (simp add: int64_add_def)
        ultimately show ?thesis
          using 1 False c a n
          by (auto simp: merge_next_n_def x_result_def next_ok_def)
      next
        case 2
        then have "d + count_total a \<le> count_total n" "counts_nonneg a" "0 \<le> d" "0 \<le> count_total a"
          using b count_total_nonneg [of a] by auto
        note a = this
        have "hsat_eq L (node_next_n (NodeInt (int64_add c d)) a) (node_next_n count b)"
          using hsat_add_next [of c d L s a] b(1) 2 c a by (simp add: hsat_eq_def)
        then have "hsat_eq L (node_next_n (NodeInt (int64_add c d)) a) (NextN strong count n)"
          using nb hsat_eq_trans by blast
        moreover have "int64_add c d = c + d" using c a by (simp add: int64_add_def)
        ultimately show ?thesis
          using 2 False c a b
          by (auto simp: merge_next_n_def x_result_def next_ok_def)
      next
        case 3
        with keep show ?thesis by simp
      qed
    qed
  qed
qed

lemma counts_ok_args:
  "counts_ok (Unary k n) \<Longrightarrow> counts_ok n"
  "counts_ok (NextN strong count n) \<Longrightarrow> counts_ok n"
  "counts_ok (Binary k2 l r) \<Longrightarrow> counts_ok l \<and> counts_ok r"
  using count_total_nonneg [of n] count_total_nonneg [of l] count_total_nonneg [of r]
  by (auto simp: counts_ok_def split: option.splits)

lemma x_result_Unary: "x_result L n m \<Longrightarrow> x_result L (Unary k n) (Unary k m)"
  by (auto simp: x_result_def next_ok_args hsat_eq_Unary)

lemma x_result_next:
  assumes "counts_ok (node_x n)" and b: "x_result L n (NextN s (NodeInt d) a)"
  shows "x_result L (node_x n) (node_next_n (NodeInt (int64_add d 1)) a)"
proof -
  have a: "0 \<le> d" "counts_nonneg a" "d + count_total a \<le> count_total n" "next_ok L a"
    and s: "next_step L s = next_weak L"
    using b next_ok_NextN [of L s "NodeInt d" a] by (auto simp: x_result_def)
  have sum: "int64_add d 1 = d + 1"
    using assms(1) a count_total_nonneg [of a] by (simp add: int64_add_def counts_ok_def)
  have "hsat M L env (node_next_n (NodeInt (d + 1)) a) =
        hsat M L env (node_x (NextN s (NodeInt d) a))" for M env
    using a s by (simp add: next_step_def nat_add_distrib)
  then have "hsat_eq L (node_next_n (NodeInt (d + 1)) a) (node_x n)"
    using hsat_eq_Unary [of L _ n NODE_X] b by (auto simp: x_result_def hsat_eq_def)
  then show ?thesis using a sum by (auto simp: x_result_def next_ok_def)
qed

lemma pre_indexed_x_result:
  "next_ok L n \<Longrightarrow> counts_ok n \<Longrightarrow> x_result L n (pre_indexed_x n)"
proof (induction n rule: pre_indexed_x.induct)
  case (1 strong count n)
  then have "x_result L n (pre_indexed_x n)"
    using next_ok_NextN counts_ok_args(2) by blast
  then show ?case using merge_next_n_result 1 by simp
next
  case (2 k n)
  then have IH: "x_result L n (pre_indexed_x n)" using counts_ok_args(1) next_ok_args(1) by blast
  show ?case
  proof (cases "k = NODE_X \<and> (\<exists>s d a. pre_indexed_x n = NextN s (NodeInt d) a)")
    case True
    then obtain s d a where "k = NODE_X" "pre_indexed_x n = NextN s (NodeInt d) a" by blast
    with IH 2 show ?thesis using x_result_next [of n L s d a] by simp
  next
    case False
    then have "pre_indexed_x (Unary k n) = Unary k (pre_indexed_x n)"
      by (auto simp: Let_def split: node.splits option.splits)
    then show ?thesis using x_result_Unary [OF IH] by simp
  qed
next
  case (3 k l r)
  have "x_result L l (pre_indexed_x l)" "x_result L r (pre_indexed_x r)" if "bool_bin k"
    using 3 that counts_ok_args(3) next_ok_args(2) by blast+
  then show ?case
    using 3 by (auto simp: x_result_def next_ok_args hsat_eq_Binary counts_ok_def)
qed (auto simp: x_result_def counts_ok_def)

subsection \<open>\<open>pre_bounded_bool\<close>\<close>

text \<open>The literal bounds of a reduction stay inside \<^verbatim>\<open>int64_t\<close> when made inclusive.\<close>

fun bounds_ok :: "node \<Rightarrow> bool" where
  "bounds_ok (Quant k v (RangeBinder lo ls hi hs) body) =
     ((case is_int_lit lo of Some l \<Rightarrow> - (2 ^ 63) \<le> l \<and> l < 2 ^ 63 - 1 | None \<Rightarrow> True) \<and>
      (case is_int_lit hi of Some h \<Rightarrow> - (2 ^ 63) < h \<and> h < 2 ^ 63 | None \<Rightarrow> True))"
| "bounds_ok (Unary k n) = bounds_ok n"
| "bounds_ok (Binary k l r) = (bounds_ok l \<and> bounds_ok r)"
| "bounds_ok n = True"

text \<open>
  Folding a reduction with a constant body is the one place where a formula that would not
  expand gets a meaning; a reduction expands when its range evaluates.
\<close>

fun ranges_evaluate :: "meaning \<Rightarrow> int_env \<Rightarrow> node \<Rightarrow> bool" where
  "ranges_evaluate M env (Quant k v (RangeBinder lo ls hi hs) body) =
     (int_of M env lo \<noteq> None \<and> int_of M env hi \<noteq> None)"
| "ranges_evaluate M env (Unary k n) = ranges_evaluate M env n"
| "ranges_evaluate M env (Binary k l r) = (ranges_evaluate M env l \<and> ranges_evaluate M env r)"
| "ranges_evaluate M env n = True"

lemma pre_bounded_quant:
  assumes "bounds_ok (Quant k v b body)" and "ranges_evaluate M env (Quant k v b body)"
  shows "hsat M L env (pre_bounded_bool (Quant k v b body)) = hsat M L env (Quant k v b body)"
proof (cases b)
  case (RangeBinder lo ls hi hs)
  obtain l h where lh: "int_of M env lo = Some l" "int_of M env hi = Some h"
    using assms(2) RangeBinder by auto
  show ?thesis
  proof (cases "(k = NODE_FORALL \<or> k = NODE_EXISTS) \<and> is_int_lit lo \<noteq> None \<and> is_int_lit hi \<noteq> None")
    case True
    then have "lo = NodeInt l" "hi = NodeInt h" using lh by auto
    then have "int64_add l (if ls then 1 else 0) = l + (if ls then 1 else 0)"
      "int64_add h (if hs then - 1 else 0) = h + (if hs then - 1 else 0)"
      using assms(1) RangeBinder by (auto simp: int64_add_def)
    with True \<open>lo = _\<close> \<open>hi = _\<close> RangeBinder show ?thesis
      by (auto simp: quant_sem_def fun_eq_iff)
  next
    case False
    with lh RangeBinder show ?thesis
      by (cases "is_int_lit lo"; cases "is_int_lit hi") (auto simp: quant_sem_def fun_eq_iff)
  qed
next
  case (SetBinder s)
  then show ?thesis by (auto simp: quant_sem_def fun_eq_iff)
qed

lemma pre_bounded_bool_hsat:
  "bounds_ok n \<Longrightarrow> ranges_evaluate M env n \<Longrightarrow>
   hsat M L env (pre_bounded_bool n) = hsat M L env n"
proof (induction n rule: pre_bounded_bool.induct)
  case (1 k v b body)
  then show ?case by (rule pre_bounded_quant)
qed auto

subsection \<open>Equivalence at the positions of a word\<close>

definition hequiv :: "enat \<Rightarrow> node \<Rightarrow> node \<Rightarrow> bool" where
  "hequiv L m n \<longleftrightarrow> (\<forall>M env i. enat i < L \<longrightarrow> hsat M L env m i = hsat M L env n i)"

lemma hequiv_refl [simp]: "hequiv L n n"
  by (simp add: hequiv_def)

lemma hequiv_trans [trans]: "hequiv L m n \<Longrightarrow> hequiv L n k \<Longrightarrow> hequiv L m k"
  by (simp add: hequiv_def)

lemma hsat_eq_hequiv: "hsat_eq L m n \<Longrightarrow> hequiv L m n"
  by (simp add: hequiv_def hsat_eq_def)

lemma next_step_pow_cong:
  "(\<And>j. i \<le> j \<Longrightarrow> enat j < L \<Longrightarrow> P j = Q j) \<Longrightarrow> enat i < L \<Longrightarrow>
   (next_step L s ^^ k) P i = (next_step L s ^^ k) Q i"
proof (induction k arbitrary: i)
  case (Suc k)
  have "(next_step L s ^^ k) P (Suc i) = (next_step L s ^^ k) Q (Suc i)" if "enat (Suc i) < L"
    using Suc.IH [of "Suc i"] Suc.prems(1) that by simp
  then show ?case
    by (auto simp: next_step_def next_weak_def next_strong_def)
qed simp

lemma hequiv_Unary: "hequiv L a b \<Longrightarrow> hequiv L (Unary k a) (Unary k b)"
  unfolding hequiv_def hsat.simps by (intro allI impI un_sem_cong) auto

lemma hequiv_Binary: "hequiv L a c \<Longrightarrow> hequiv L b d \<Longrightarrow> hequiv L (Binary k a b) (Binary k c d)"
  unfolding hequiv_def hsat.simps by (intro allI impI bin_sem_cong) auto

lemma hequiv_NextN: "hequiv L a b \<Longrightarrow> hequiv L (NextN s c a) (NextN s c b)"
  unfolding hequiv_def hsat.simps
  by (auto intro!: next_step_pow_cong split: option.splits)

subsection \<open>\<open>pre_weak\<close>\<close>

text \<open>
  The formulas on which \<open>node_equal\<close> decides equality: no reduction, range, guard, call or
  name whose union layout it misreads, and no strong \<open>X[!n]\<close>, which it does not tell from
  \<open>X[n]\<close>.
\<close>

fun comparable :: "node \<Rightarrow> bool" where
  "comparable NodeTrue = True"
| "comparable NodeFalse = True"
| "comparable (NodeAp p) = True"
| "comparable (NodeInt v) = True"
| "comparable (Unary k a) = comparable a"
| "comparable (Binary k a b) = (comparable a \<and> comparable b)"
| "comparable (HlUnary k a) = comparable a"
| "comparable (HlBinary k a b) = (comparable a \<and> comparable b)"
| "comparable (NextN strong a b) = (\<not> strong \<and> comparable a \<and> comparable b)"
| "comparable n = False"

lemma node_equal_comparable: "comparable x \<Longrightarrow> comparable y \<Longrightarrow> node_equal x y \<longleftrightarrow> x = y"
  by (induction x arbitrary: y rule: comparable.induct) (auto split: node.splits)

lemma hsat_X_false: "hsat M \<infinity> env (node_x NodeFalse) i = False"
  by (simp add: next_weak_def)

lemma pre_weak_un_sound:
  assumes "comparable x" and "word_length fin L"
  shows "comparable (pre_weak_un k fin x) \<and> hequiv L (pre_weak_un k fin x) (Unary k x)"
proof (cases k)
  case NODE_NOT
  with assms show ?thesis
    by (auto simp: pre_weak_un_def hequiv_def is_un_iff)
next
  case NODE_X
  have "L = \<infinity>" if "\<not> fin" using assms(2) that by (simp add: word_length_def)
  with NODE_X assms(1) show ?thesis
    by (auto simp: pre_weak_un_def hequiv_def next_weak_def)
qed (use assms in \<open>auto simp: pre_weak_un_def hequiv_def alw_def ev_def\<close>)

lemma pre_weak_bin_sound:
  assumes "comparable l" "comparable r"
  shows "comparable (pre_weak_bin k l r) \<and> hequiv L (pre_weak_bin k l r) (Binary k l r)"
  using assms node_equal_comparable [OF assms]
  by (cases k) (auto simp: pre_weak_bin_def hequiv_def)

lemma pre_weak_sound:
  "comparable n \<Longrightarrow> word_length fin L \<Longrightarrow>
   comparable (pre_weak n fin) \<and> hequiv L (pre_weak n fin) n"
proof (induction n fin rule: pre_weak.induct)
  case (1 k n fin)
  show ?case
  proof (cases "k = NODE_X_STRONG")
    case False
    with 1 have "comparable (pre_weak n fin)" "hequiv L (pre_weak n fin) n" by auto
    with False 1 show ?thesis
      using pre_weak_un_sound [of "pre_weak n fin" fin L k] hequiv_Unary hequiv_trans by auto
  qed (use 1 in simp)
next
  case (2 k l r fin)
  then have "comparable (pre_weak l fin)" "hequiv L (pre_weak l fin) l"
    "comparable (pre_weak r fin)" "hequiv L (pre_weak r fin) r" by auto
  then show ?case
    using pre_weak_bin_sound [of "pre_weak l fin" "pre_weak r fin" k L] hequiv_Binary hequiv_trans
    by (metis pre_weak.simps(2))
next
  case (3 strong count n fin)
  then show ?case by (auto simp: Let_def hequiv_NextN)
qed auto

subsection \<open>\<open>prenorm_spine\<close>\<close>

lemma un_sem_list:
  "k = NODE_G \<or> k = NODE_X \<or> k = NODE_X_STRONG \<Longrightarrow> xs \<noteq> [] \<Longrightarrow>
   un_sem L k (\<lambda>i. \<forall>x\<in>set xs. P x i) i \<longleftrightarrow> (\<forall>x\<in>set xs. un_sem L k (P x) i)"
  by (cases xs) (auto simp: alw_def next_weak_def next_strong_def)

lemma next_pow_list:
  "xs \<noteq> [] \<Longrightarrow>
   (next_step L s ^^ k) (\<lambda>i. \<forall>x\<in>set xs. P x i) i \<longleftrightarrow> (\<forall>x\<in>set xs. (next_step L s ^^ k) (P x) i)"
proof (induction k arbitrary: i)
  case (Suc k)
  then have "(next_step L s ^^ k) (\<lambda>i. \<forall>x\<in>set xs. P x i) =
             (\<lambda>i. \<forall>x\<in>set xs. (next_step L s ^^ k) (P x) i)"
    by (intro ext) simp
  then show ?case
    using Suc.prems by (cases xs) (auto simp: next_step_def next_weak_def next_strong_def)
qed simp

lemma prenorm_spine_nonempty [simp]: "prenorm_spine n \<noteq> []"
  by (induction n rule: prenorm_spine.induct) auto

lemma prenorm_spine_sound:
  "next_ok L n \<Longrightarrow> hsat M L env n i \<longleftrightarrow> (\<forall>m\<in>set (prenorm_spine n). hsat M L env m i)"
proof (induction n arbitrary: i rule: prenorm_spine.induct)
  case (1 k l r)
  then show ?case by (auto simp: next_ok_args)
next
  case (2 k n)
  show ?case
  proof (cases "k = NODE_G \<or> k = NODE_X \<or> k = NODE_X_STRONG")
    case True
    have "hsat M L env n = (\<lambda>i. \<forall>m\<in>set (prenorm_spine n). hsat M L env m i)"
    proof
      fix i
      have "next_ok L n" using 2(2) by (simp add: next_ok_args)
      then show "hsat M L env n i = (\<forall>m\<in>set (prenorm_spine n). hsat M L env m i)"
        by (rule 2(1) [OF True])
    qed
    with True show ?thesis using un_sem_list [OF True, of "prenorm_spine n"] by simp
  qed simp
next
  case (3 strong count n)
  have "hsat M L env n = (\<lambda>i. \<forall>m\<in>set (prenorm_spine n). hsat M L env m i)"
  proof
    fix i
    have "next_ok L n" using next_ok_NextN [OF 3(2)] by simp
    then show "hsat M L env n i = (\<forall>m\<in>set (prenorm_spine n). hsat M L env m i)" by (rule 3(1))
  qed
  moreover have "next_step L strong = next_step L False"
    using next_ok_NextN [OF 3(2)] by (simp add: next_step_def)
  ultimately show ?case
    using next_pow_list [where xs = "prenorm_spine n" and L = L and s = False]
    by (auto split: option.splits)
qed auto

subsection \<open>Where the passes change the meaning\<close>

text \<open>
  Rebuilding \<open>X[!n]\<close> with \<^verbatim>\<open>node_next_n\<close> loses the strong flag: on a word of one letter, where the
  strong next fails and the weak next holds, all three passes turn a false formula into a true
  one.
\<close>

theorem pre_passes_drop_strong_next:
  "\<not> hsat M (enat 1) env (NextN True (NodeInt 1) (NextN True (NodeInt 1) p)) 0 \<and>
   hsat M (enat 1) env (pre_indexed_x (NextN True (NodeInt 1) (NextN True (NodeInt 1) (NodeAp a)))) 0 \<and>
   \<not> hsat M (enat 1) env (NextN True (NodeInt 1) (node_and NodeTrue p)) 0 \<and>
   hsat M (enat 1) env (pre_weak (NextN True (NodeInt 1) (node_and NodeTrue (NodeAp a))) True) 0 \<and>
   \<not> hsat M (enat 1) env (NextN True (NodeInt 1) (node_and p q)) 0 \<and>
   list_all (\<lambda>m. hsat M (enat 1) env m 0)
     (prenorm_spine (NextN True (NodeInt 1) (node_and (NodeAp a) (NodeAp b))))"
  by (simp add: merge_next_n_def int64_add_def pre_weak_bin_def next_step_def next_weak_def
      next_strong_def numeral_2_eq_2)

text \<open>
  \<^verbatim>\<open>pre_weak\<close> compares the two sides of \<open>&&\<close> with \<^verbatim>\<open>node_eq\<close>, which takes two ranges with the same
  lower bound, and two reductions with the same variable and lower bound, for equal: the
  second conjunct is dropped.
\<close>

theorem pre_weak_drops_conjunct:
  "pre_weak (node_and (BoundedOp NODE_G_RANGE False (NodeInt 0) (NodeInt 2) p)
                      (BoundedOp NODE_G_RANGE False (NodeInt 0) (NodeInt 9) q)) fin =
     BoundedOp NODE_G_RANGE False (NodeInt 0) (NodeInt 2) p \<and>
   pre_weak (node_and (Quant NODE_FORALL i (RangeBinder (NodeInt 0) False hi False) p)
                      (Quant NODE_FORALL i (RangeBinder (NodeInt 0) False hi' False) q)) fin =
     Quant NODE_FORALL i (RangeBinder (NodeInt 0) False hi False) p \<and>
   hsat M \<infinity> env (BoundedOp NODE_G_RANGE False (NodeInt 0) (NodeInt 2) NodeTrue) 0 \<and>
   \<not> hsat M \<infinity> env (node_and (BoundedOp NODE_G_RANGE False (NodeInt 0) (NodeInt 2) NodeTrue)
                             (BoundedOp NODE_G_RANGE False (NodeInt 0) (NodeInt 9) NodeFalse)) 0"
proof -
  have "(next_step \<infinity> False ^^ k) (\<lambda>i. True) = (\<lambda>i. True)" for k
    by (induction k) (auto simp: next_step_def next_weak_def)
  moreover have "(0 :: int) \<in> {0..9}" by simp
  ultimately show ?thesis
    by (auto simp: pre_weak_bin_def quant_sem_def simp del: atLeastAtMost_iff intro!: bexI [of _ "0 :: int"])
qed

subsection \<open>Properties\<close>

text \<open>
  The \<open>pre-safe\<close> profile preserves the meaning of an unexpanded formula at every
  position of every word: merging counted nexts, folding constant or empty reductions and
  splitting the conjunctive spine, as long as literal counts and bounds stay inside \<open>int64_t\<close>
  and no strong \<open>X[!n]\<close> is rebuilt on a finite word.
\<close>

theorem pre_safe_passes_correct:
  assumes "next_ok L n" and "counts_ok n" and "bounds_ok n" and "ranges_evaluate M env n"
    and "enat i < L"
  shows "hsat M L env (pre_indexed_x n) i = hsat M L env n i \<and>
         hsat M L env (pre_bounded_bool n) i = hsat M L env n i \<and>
         list_all (\<lambda>m. hsat M L env m i) (prenorm_spine n) = hsat M L env n i"
  using assms pre_indexed_x_result [OF assms(1,2)] pre_bounded_bool_hsat [OF assms(3,4)]
    prenorm_spine_sound [OF assms(1)]
  by (simp add: x_result_def hsat_eq_def list_all_iff)

definition constant_meaning :: meaning where
  "constant_meaning = \<lparr>int_meaning = \<lambda>_ _. None, set_meaning = \<lambda>_ _. {}, atom_meaning = \<lambda>_ _ _. True\<rparr>"

theorem pre_safe_passes_correct_witness:
  "hsat constant_meaning (enat 9) Map.empty (NextN False (NodeInt 5) (NodeAp ''p'')) 0 =
     hsat constant_meaning (enat 9) Map.empty (NextN False (NodeInt 2) (node_x (NextN False (NodeInt 2) (NodeAp ''p'')))) 0"
proof -
  let ?n = "NextN False (NodeInt 2) (node_x (NextN False (NodeInt 2) (NodeAp ''p'')))"
  have "pre_indexed_x ?n = NextN False (NodeInt 5) (NodeAp ''p'')"
    by (simp add: merge_next_n_def int64_add_def)
  moreover have "next_ok (enat 9) ?n" "counts_ok ?n" "bounds_ok ?n" "ranges_evaluate constant_meaning Map.empty ?n"
    "enat 0 < enat 9"
    by (simp_all add: next_ok_def counts_ok_def)
  ultimately show ?thesis using pre_safe_passes_correct [of "enat 9" ?n constant_meaning Map.empty 0] by simp
qed

text \<open>
  \<open>pre_weak\<close> preserves the meaning of a formula on whose parts the structural equality
  test is exact, on every infinite word and, with \<open>finite\<close> set, on every finite word.
\<close>

theorem pre_weak_correct:
  assumes "comparable n" and "word_length fin L"
  shows "hequiv L (pre_weak n fin) n"
  using pre_weak_sound [OF assms] by blast

theorem pre_weak_correct_witness:
  "hequiv \<infinity> NodeFalse (node_and (NodeAp ''p'') (node_x (node_g (node_not NodeTrue))))"
proof -
  let ?n = "node_and (NodeAp ''p'') (node_x (node_g (node_not NodeTrue)))"
  have "pre_weak ?n False = NodeFalse" by code_simp
  then show ?thesis using pre_weak_correct [of ?n False \<infinity>] by simp
qed

end
