(* ===== verification/Norm_Driver.thy ===== *)
theory Norm_Driver
  imports Norm_Schedule Norm_Match Bool_Canon Sickert Pre_Norm
begin

text \<open>
  The driver of the normaliser, \<^verbatim>\<open>tlsf_normalize_formula\<close> of \<^verbatim>\<open>src/lib/normalize.c\<close>: each scheduled
  pass runs until it is stable, at most its capped number of iterations, and a candidate over
  the node or growth cap abandons the pass.  \<^const>\<open>None\<close> is a failed assertion of a pass.  The
  statistics are the optional out-parameter; the clock (\<^verbatim>\<open>time_ns\<close>) and the trace stream are
  left out.
\<close>

subsection \<open>Options and statistics\<close>

record norm_options =
  schedule :: norm_schedule
  phase :: norm_phase
  max_iter_default :: u32
  max_growth_percent :: u32
  max_nodes :: u32
  finite_word :: bool

definition tlsf_norm_options_default :: "norm_phase \<Rightarrow> norm_options" where
  "tlsf_norm_options_default ph =
     \<lparr>schedule = [], phase = ph, max_iter_default = 32, max_growth_percent = 200,
      max_nodes = 20000, finite_word = False\<rparr>"

record rule_stats =
  attempts :: u64
  fired :: u64
  noops :: u64
  rejected_growth :: u64
  rejected_nodes :: u64
  nodes_before_sum :: u64
  nodes_after_sum :: u64

record norm_stats =
  formulas_seen :: u32
  formulas_changed :: u32
  formulas_rejected :: u32
  iterations_total :: u32
  nodes_before :: u64
  nodes_after :: u64
  nodes_max_before :: u64
  nodes_max_after :: u64
  obst_before :: obstacles
  obst_after :: obstacles
  rule_table :: "norm_rule \<Rightarrow> rule_stats"

definition zero_rule_stats :: rule_stats where
  "zero_rule_stats = \<lparr>attempts = 0, fired = 0, noops = 0, rejected_growth = 0, rejected_nodes = 0,
     nodes_before_sum = 0, nodes_after_sum = 0\<rparr>"

definition tlsf_norm_stats_init :: norm_stats where
  "tlsf_norm_stats_init =
     \<lparr>formulas_seen = 0, formulas_changed = 0, formulas_rejected = 0, iterations_total = 0,
      nodes_before = 0, nodes_after = 0, nodes_max_before = 0, nodes_max_after = 0,
      obst_before = no_obstacles, obst_after = no_obstacles, rule_table = (\<lambda>_. zero_rule_stats)\<rparr>"

subsection \<open>One pass\<close>

definition apply_pass_once :: "norm_pass \<Rightarrow> node \<Rightarrow> bool \<Rightarrow> node option" where
  "apply_pass_once p n fin =
     (let fin_flag = (if fin then RW_FINITE else 0) in
      case p of
        TLSF_NORM_PASS_NNF \<Rightarrow> to_nnf n True fin
      | TLSF_NORM_PASS_WEAK \<Rightarrow> apply_rewrites n (RW_SIMPLIFY_WEAK OR fin_flag)
      | TLSF_NORM_PASS_BOOL_CANON \<Rightarrow> Some (bool_canon n)
      | TLSF_NORM_PASS_OR_TO_IMPL_PATTERN \<Rightarrow> Some (or_to_impl n)
      | TLSF_NORM_PASS_EQUIV_OUTPUT_SIDE \<Rightarrow> Some (equiv_output_side n)
      | TLSF_NORM_PASS_MUTEX_DEMORGAN \<Rightarrow> Some (mutex_demorgan n)
      | TLSF_NORM_PASS_PRE_INDEXED_X \<Rightarrow> Some (pre_indexed_x n)
      | TLSF_NORM_PASS_PRE_BOUNDED_BOOL \<Rightarrow> Some (pre_bounded_bool n)
      | TLSF_NORM_PASS_PRE_WEAK \<Rightarrow> Some (pre_weak n fin)
      | TLSF_NORM_PASS_ROUTE_SAFE \<Rightarrow>
          apply_rewrites n (RW_NNF OR RW_PUSH_G_IN OR RW_PUSH_X_IN OR RW_SIMPLIFY_WEAK OR fin_flag)
      | TLSF_NORM_PASS_SICKERT_STAGE2 \<Rightarrow> sickert_stage2 n
      | TLSF_NORM_PASS_SICKERT_STAGE3 \<Rightarrow> sickert_stage3 n
      | _ \<Rightarrow> Some n)"

subsection \<open>The loop of one pass\<close>

record driver_state =
  cur :: node
  any_changed :: bool
  was_rejected :: bool
  stats :: "norm_stats option"

definition reject_candidate :: "norm_options \<Rightarrow> u32 \<Rightarrow> u32 \<Rightarrow> norm_reject" where
  "reject_candidate opts n0 na =
     (if max_nodes opts \<noteq> 0 \<and> na > max_nodes opts then TLSF_NORM_REJECT_NODES
      else if max_growth_percent opts \<noteq> 0 \<and>
              (ucast na :: u64) > ucast n0 + ucast n0 * ucast (max_growth_percent opts) div 100
      then TLSF_NORM_REJECT_GROWTH else TLSF_NORM_REJECT_NONE)"

definition update_rule :: "norm_rule option \<Rightarrow> (rule_stats \<Rightarrow> rule_stats) \<Rightarrow> norm_stats \<Rightarrow> norm_stats" where
  "update_rule prim f s = (case prim of
     None \<Rightarrow> s
   | Some r \<Rightarrow> s\<lparr>rule_table := (rule_table s)(r := f (rule_table s r))\<rparr>)"

definition count_reject :: "norm_reject \<Rightarrow> rule_stats \<Rightarrow> rule_stats" where
  "count_reject rej r =
     (if rej = TLSF_NORM_REJECT_NODES then r\<lparr>rejected_nodes := rejected_nodes r + 1\<rparr>
      else r\<lparr>rejected_growth := rejected_growth r + 1\<rparr>)"

definition count_attempt :: "u32 \<Rightarrow> u32 \<Rightarrow> bool \<Rightarrow> rule_stats \<Rightarrow> rule_stats" where
  "count_attempt nb na changed r =
     (let r' = r\<lparr>attempts := attempts r + 1, nodes_before_sum := nodes_before_sum r + ucast nb,
                 nodes_after_sum := nodes_after_sum r + ucast na\<rparr>
      in if changed then r'\<lparr>fired := fired r + 1\<rparr> else r'\<lparr>noops := noops r + 1\<rparr>)"

definition count_iteration :: "norm_rule option \<Rightarrow> norm_stats \<Rightarrow> norm_stats" where
  "count_iteration prim s =
     (case prim of None \<Rightarrow> s | Some _ \<Rightarrow> s\<lparr>iterations_total := iterations_total s + 1\<rparr>)"

fun pass_loop :: "norm_options \<Rightarrow> u32 \<Rightarrow> norm_pass \<Rightarrow> nat \<Rightarrow> driver_state \<Rightarrow> driver_state option" where
  "pass_loop opts n0 pass 0 st = Some st"
| "pass_loop opts n0 pass (Suc iters) st =
     do { cand \<leftarrow> apply_pass_once pass (cur st) (finite_word opts);
          let nb = ast_node_count (cur st);
          let na = ast_node_count cand;
          let prim = pass_primary_rule pass;
          let rej = reject_candidate opts n0 na;
          if rej \<noteq> TLSF_NORM_REJECT_NONE
          then Some (st\<lparr>stats := map_option (update_rule prim (count_reject rej)) (stats st),
                        was_rejected := True\<rparr>)
          else
            let changed = \<not> node_equal cand (cur st);
                st' = st\<lparr>cur := cand, any_changed := any_changed st \<or> changed,
                         stats := map_option (\<lambda>s. count_iteration prim
                           (update_rule prim (count_attempt nb na changed) s)) (stats st)\<rparr>
            in if changed then pass_loop opts n0 pass iters st' else Some st' }"

definition pass_iters :: "norm_options \<Rightarrow> u32 \<Rightarrow> u32" where
  "pass_iters opts max_iter =
     (let iters = (if max_iter = 0 then 1 else max_iter)
      in if iters > max_iter_default opts \<and> max_iter_default opts \<noteq> 0
         then max_iter_default opts else iters)"

fun schedule_loop :: "norm_options \<Rightarrow> u32 \<Rightarrow> norm_schedule \<Rightarrow> driver_state \<Rightarrow> driver_state option" where
  "schedule_loop opts n0 [] st = Some st"
| "schedule_loop opts n0 (s # ss) st =
     (if fst s = TLSF_NORM_PASS_SPLIT \<or> fst s = TLSF_NORM_PASS_PRE_SPINE_SPLIT
      then schedule_loop opts n0 ss st
      else do { st' \<leftarrow> pass_loop opts n0 (fst s) (unat (pass_iters opts (snd s))) st;
                schedule_loop opts n0 ss st' })"

subsection \<open>The driver\<close>

definition add_obstacles :: "obstacles \<Rightarrow> obstacles \<Rightarrow> obstacles" where
  "add_obstacles a b =
     \<lparr>u_under_w = u_under_w a + u_under_w b,
      limit_under_temporal = limit_under_temporal a + limit_under_temporal b,
      w_under_gf = w_under_gf a + w_under_gf b, u_under_fg = u_under_fg a + u_under_fg b\<rparr>"

definition stats_before :: "node \<Rightarrow> norm_stats \<Rightarrow> norm_stats" where
  "stats_before inp s =
     (let n0 = ast_node_count inp in
      s\<lparr>formulas_seen := formulas_seen s + 1,
        nodes_max_before := (if (ucast n0 :: u64) > nodes_max_before s then ucast n0 else nodes_max_before s),
        nodes_before := nodes_before s + ucast n0,
        obst_before := add_obstacles (obst_before s) (tlsf_norm_count_obstacles inp no_obstacles)\<rparr>)"

definition stats_after :: "driver_state \<Rightarrow> norm_stats \<Rightarrow> norm_stats" where
  "stats_after st s =
     (let nf = ast_node_count (cur st) in
      s\<lparr>nodes_after := nodes_after s + ucast nf,
        nodes_max_after := (if (ucast nf :: u64) > nodes_max_after s then ucast nf else nodes_max_after s),
        formulas_changed := (if any_changed st then formulas_changed s + 1 else formulas_changed s),
        formulas_rejected := (if was_rejected st then formulas_rejected s + 1 else formulas_rejected s),
        obst_after := add_obstacles (obst_after s) (tlsf_norm_count_obstacles (cur st) no_obstacles)\<rparr>)"

definition tlsf_normalize_formula ::
    "node \<Rightarrow> norm_options \<Rightarrow> norm_stats option \<Rightarrow> (node \<times> norm_stats option) option" where
  "tlsf_normalize_formula inp opts sts =
     (if schedule opts = [] then Some (inp, sts)
      else do {
        st \<leftarrow> schedule_loop opts (ast_node_count inp) (schedule opts)
          \<lparr>cur = inp, any_changed = False, was_rejected = False,
           stats = map_option (stats_before inp) sts\<rparr>;
        Some (cur st, map_option (stats_after st) (stats st)) })"

subsection \<open>The pre-expansion passes on an expanded formula\<close>

lemma pre_indexed_x_ground: "ground n \<Longrightarrow> pre_indexed_x n = n"
proof (induction n rule: ground_induct)
  case (Un k a)
  then show ?case by (cases a) (auto simp: Let_def)
qed auto

lemma pre_bounded_bool_ground: "ground n \<Longrightarrow> pre_bounded_bool n = n"
  by (induction n rule: ground_induct) auto

definition trace_meaning :: "trace \<Rightarrow> meaning" where
  "trace_meaning w = \<lparr>int_meaning = \<lambda>_ _. None, set_meaning = \<lambda>_ _. {},
     atom_meaning = \<lambda>_ n i. (case n of NodeAp p \<Rightarrow> p \<in> w i | _ \<Rightarrow> False)\<rparr>"

lemma hsat_ground: "ground n \<Longrightarrow> hsat (trace_meaning w) L env n = sat L w n"
  by (induction n rule: ground_induct) (auto simp: trace_meaning_def)

lemma ground_comparable: "ground n \<Longrightarrow> comparable n"
  by (induction n rule: ground_induct) auto

lemma pre_weak_ground: "ground n \<Longrightarrow> ground (pre_weak n fin)"
proof (induction n rule: ground_induct)
  case (Un k a)
  then show ?case
    by (cases k) (auto simp: pre_weak_un_def is_un_iff)
next
  case (Bin k a b)
  then show ?case by (cases k) (auto simp: pre_weak_bin_def)
qed auto

lemma pre_weak_refines: "ground n \<Longrightarrow> refines fin n (pre_weak n fin)"
proof (rule refinesI)
  fix L assume n: "ground n" and L: "word_length fin L"
  show "sem_eq L (pre_weak n fin) n"
  proof (rule sem_eqI)
    fix w i assume "enat i < L"
    then have "hsat (trace_meaning w) L Map.empty (pre_weak n fin) i =
               hsat (trace_meaning w) L Map.empty n i"
      using pre_weak_sound [OF ground_comparable [OF n] L] by (simp add: hequiv_def)
    then show "sat L w (pre_weak n fin) i = sat L w n i"
      using hsat_ground [OF n] hsat_ground [OF pre_weak_ground [OF n]] by simp
  qed
qed (rule pre_weak_ground)

subsection \<open>Every pass keeps the contract\<close>

text \<open>The passes that are an equivalence on the words of the specification.\<close>

definition pass_sound :: "bool \<Rightarrow> norm_pass \<Rightarrow> bool" where
  "pass_sound fin p \<longleftrightarrow>
     \<not> (fin \<and> (p = TLSF_NORM_PASS_SICKERT_STAGE2 \<or> p = TLSF_NORM_PASS_SICKERT_STAGE3))"

lemma weak_flags:
  "has_flag (RW_SIMPLIFY_WEAK OR (if fin then RW_FINITE else 0)) RW_FINITE = fin"
  "has_flag (RW_NNF OR RW_PUSH_G_IN OR RW_PUSH_X_IN OR RW_SIMPLIFY_WEAK OR
     (if fin then RW_FINITE else 0)) RW_FINITE = fin"
  by (simp_all add: has_flag_def rw_flag_defs)

lemma apply_pass_once_refines:
  assumes n: "ground n" and p: "pass_sound fin p"
  shows "\<exists>m. apply_pass_once p n fin = Some m \<and> refines fin n m"
proof -
  have rw: "\<exists>m. apply_rewrites n (RW_SIMPLIFY_WEAK OR (if fin then RW_FINITE else 0)) = Some m \<and> refines fin n m"
    "\<exists>m. apply_rewrites n (RW_NNF OR RW_PUSH_G_IN OR RW_PUSH_X_IN OR RW_SIMPLIFY_WEAK OR
       (if fin then RW_FINITE else 0)) = Some m \<and> refines fin n m"
    using apply_rewrites_refines [OF n, of "RW_SIMPLIFY_WEAK OR (if fin then RW_FINITE else 0)"]
      apply_rewrites_refines [OF n, of "RW_NNF OR RW_PUSH_G_IN OR RW_PUSH_X_IN OR RW_SIMPLIFY_WEAK OR
        (if fin then RW_FINITE else 0)"]
    unfolding weak_flags by blast+
  have nnf: "\<exists>m. to_nnf n True fin = Some m \<and> refines fin n m"
    using nnf_pass.pass_total [OF n, of fin] nnf_pass.pass_refines [OF n, of fin] by blast
  have st: "\<exists>m. sickert_stage2 n = Some m \<and> refines fin n m" "\<exists>m. sickert_stage3 n = Some m \<and> refines fin n m"
    if "\<not> fin"
    using stage2.pass_total [OF n] stage2.pass_refines [OF n] stage3.pass_total [OF n]
      stage3.pass_refines [OF n] that by auto
  show ?thesis
    using rw nnf st n p
    by (cases p) (simp_all add: apply_pass_once_def Let_def pass_sound_def canon.f_refines
        or_impl.f_refines mutex.f_refines equiv_side.f_refines pre_indexed_x_ground
        pre_bounded_bool_ground pre_weak_refines)
qed

interpretation driver_pass: formula_pass fin
  "\<lambda>n. apply_pass_once (if pass_sound fin p then p else TLSF_NORM_PASS_NNF) n fin" for fin p
proof unfold_locales
  fix n assume n: "ground n"
  let ?p = "if pass_sound fin p then p else TLSF_NORM_PASS_NNF"
  have "pass_sound fin ?p" by (simp add: pass_sound_def)
  from apply_pass_once_refines [OF n this] obtain m
    where m: "apply_pass_once ?p n fin = Some m" "refines fin n m" by blast
  then show "\<exists>m. apply_pass_once ?p n fin = Some m" by blast
  fix k assume "apply_pass_once ?p n fin = Some k"
  with m show "refines fin n k" by simp
qed

subsection \<open>The loops keep it\<close>

lemma pass_loop_refines:
  "ground (cur st) \<Longrightarrow> pass_sound (finite_word opts) p \<Longrightarrow>
   \<exists>st'. pass_loop opts n0 p k st = Some st' \<and> refines (finite_word opts) (cur st) (cur st')"
proof (induction k arbitrary: st)
  case 0
  then show ?case by simp
next
  case (Suc k)
  obtain c where c: "apply_pass_once p (cur st) (finite_word opts) = Some c"
    "refines (finite_word opts) (cur st) c"
    using apply_pass_once_refines [OF Suc.prems] by blast
  have IH: "\<exists>st'. pass_loop opts n0 p k t = Some st' \<and> refines (finite_word opts) (cur st) (cur st')"
    if "cur t = c" for t
    using Suc.IH [of t] refines_ground [OF c(2)] Suc.prems(2) refines_trans [OF c(2)] that by auto
  show ?case using c IH Suc.prems(1) by (simp add: Let_def)
qed

lemma schedule_loop_refines:
  "ground (cur st) \<Longrightarrow> list_all (\<lambda>s. pass_sound (finite_word opts) (fst s)) ss \<Longrightarrow>
   \<exists>st'. schedule_loop opts n0 ss st = Some st' \<and> refines (finite_word opts) (cur st) (cur st')"
proof (induction ss arbitrary: st)
  case (Cons s ss)
  obtain t where t: "pass_loop opts n0 (fst s) (unat (pass_iters opts (snd s))) st = Some t"
    "refines (finite_word opts) (cur st) (cur t)"
    using pass_loop_refines [OF Cons.prems(1), of opts "fst s"] Cons.prems(2) by auto
  from Cons.IH [of t] Cons.IH [of st] Cons.prems t refines_ground [OF t(2)] refines_trans [OF t(2)]
  show ?case by auto
qed simp

lemma check_pass_sound:
  assumes "fst (tlsf_norm_schedule_check ss fin ph)"
  shows "list_all (\<lambda>s. pass_sound fin (fst s)) ss"
  using schedule_check_no_sickert [OF assms] by (auto simp: pass_sound_def list_all_iff list_ex_iff)

subsection \<open>The caps\<close>

definition within_caps :: "norm_options \<Rightarrow> node \<Rightarrow> node \<Rightarrow> bool" where
  "within_caps opts inp m \<longleftrightarrow>
     (max_nodes opts = 0 \<or> ast_node_count m \<le> max_nodes opts) \<and>
     (max_growth_percent opts = 0 \<or>
      unat (ast_node_count m) \<le> unat (ast_node_count inp) +
        unat (ast_node_count inp) * unat (max_growth_percent opts) div 100)"

text \<open>The 64-bit arithmetic of the growth test does not wrap.\<close>

lemma unat_ucast_64: "unat (ucast (x :: u32) :: u64) = unat x"
proof -
  have "unat x < 2 ^ LENGTH(32)" by (rule unsigned_less)
  then have "unat x < 2 ^ 64" by simp
  then show ?thesis by (simp only: unsigned_ucast_eq) (simp add: take_bit_nat_eq_self)
qed

lemma growth_limit_unat:
  fixes n0 pct :: u32
  shows "unat (ucast n0 + ucast n0 * ucast pct div 100 :: u64) =
         unat n0 + unat n0 * unat pct div 100"
proof -
  have n: "unat n0 < 2 ^ 32" and p: "unat pct < 2 ^ 32"
    using unsigned_less [of n0] unsigned_less [of pct] by simp_all
  then have m: "unat n0 * unat pct \<le> (2 ^ 32 - 1) * (2 ^ 32 - 1)"
    by (intro mult_le_mono) simp_all
  have u: "unat (ucast n0 :: u64) = unat n0" "unat (ucast pct :: u64) = unat pct"
    by (rule unat_ucast_64)+
  have mult: "unat (ucast n0 * ucast pct :: u64) = unat n0 * unat pct"
    using m by (simp add: unat_word_ariths u)
  have dv: "unat (ucast n0 * ucast pct div 100 :: u64) = unat n0 * unat pct div 100"
    by (simp add: unat_div mult)
  have "unat n0 * unat pct div 100 \<le> (2 ^ 32 - 1) * (2 ^ 32 - 1) div 100" using m by (rule div_le_mono)
  then have "unat n0 + unat n0 * unat pct div 100 < 2 ^ 64" using n by simp
  then show ?thesis by (simp only: unat_word_ariths(1) u dv) simp
qed

lemma reject_none_within:
  assumes "reject_candidate opts (ast_node_count inp) (ast_node_count m) = TLSF_NORM_REJECT_NONE"
  shows "within_caps opts inp m"
proof -
  have u: "unat (ucast (ast_node_count m) :: u64) = unat (ast_node_count m)"
    by (rule unat_ucast_64)
  show ?thesis
    using assms growth_limit_unat [of "ast_node_count inp" "max_growth_percent opts"] u
    by (auto simp: reject_candidate_def within_caps_def not_less word_le_nat_alt split: if_splits)
qed

lemma pass_loop_caps:
  "pass_loop opts (ast_node_count inp) p k st = Some st' \<Longrightarrow>
   cur st' = cur st \<or> within_caps opts inp (cur st')"
proof (induction k arbitrary: st)
  case (Suc k)
  obtain c where c: "apply_pass_once p (cur st) (finite_word opts) = Some c"
    using Suc.prems by (auto simp: Let_def)
  show ?case
  proof (cases "reject_candidate opts (ast_node_count inp) (ast_node_count c) = TLSF_NORM_REJECT_NONE")
    case True
    then have w: "within_caps opts inp c" by (rule reject_none_within)
    from Suc.prems c True show ?thesis
      using w by (auto simp: Let_def split: if_splits dest: Suc.IH)
  next
    case False
    with Suc.prems c show ?thesis by (auto simp: Let_def)
  qed
qed simp

lemma schedule_loop_caps:
  "schedule_loop opts (ast_node_count inp) ss st = Some st' \<Longrightarrow>
   cur st' = cur st \<or> within_caps opts inp (cur st')"
proof (induction ss arbitrary: st)
  case (Cons s ss)
  show ?case
  proof (cases "fst s = TLSF_NORM_PASS_SPLIT \<or> fst s = TLSF_NORM_PASS_PRE_SPINE_SPLIT")
    case True
    with Cons show ?thesis by simp
  next
    case False
    with Cons.prems obtain t where t: "pass_loop opts (ast_node_count inp) (fst s)
        (unat (pass_iters opts (snd s))) st = Some t"
      "schedule_loop opts (ast_node_count inp) ss t = Some st'" by auto
    from pass_loop_caps [OF t(1)] Cons.IH [OF t(2)] show ?thesis by auto
  qed
qed simp

subsection \<open>The statistics\<close>

definition balanced :: "norm_stats option \<Rightarrow> bool" where
  "balanced sts \<longleftrightarrow> (case sts of None \<Rightarrow> True
     | Some s \<Rightarrow> \<forall>r. attempts (rule_table s r) = fired (rule_table s r) + noops (rule_table s r))"

lemma balanced_updates:
  "balanced (map_option (update_rule prim (count_reject rej)) sts) = balanced sts"
  "balanced sts \<Longrightarrow> balanced (map_option (\<lambda>s. count_iteration prim
      (update_rule prim (count_attempt nb na changed) s)) sts)"
  by (cases sts; cases prim; auto simp: balanced_def update_rule_def count_reject_def
        count_iteration_def count_attempt_def Let_def)+

lemma pass_loop_balanced:
  "pass_loop opts n0 p k st = Some st' \<Longrightarrow> balanced (stats st) \<Longrightarrow> balanced (stats st')"
proof (induction k arbitrary: st)
  case (Suc k)
  then obtain c where c: "apply_pass_once p (cur st) (finite_word opts) = Some c"
    by (auto simp: Let_def)
  with Suc.prems show ?case
    by (auto simp: Let_def balanced_updates split: if_splits dest!: Suc.IH)
qed simp

lemma schedule_loop_balanced:
  "schedule_loop opts n0 ss st = Some st' \<Longrightarrow> balanced (stats st) \<Longrightarrow> balanced (stats st')"
proof (induction ss arbitrary: st)
  case (Cons s ss)
  then show ?case by (auto split: if_splits dest: pass_loop_balanced)
qed simp

text \<open>The statistics never steer the rewriting.\<close>

lemma pass_loop_no_stats:
  "map_option (\<lambda>t. t\<lparr>stats := None\<rparr>) (pass_loop opts n0 p k st) =
   pass_loop opts n0 p k (st\<lparr>stats := None\<rparr>)"
proof (induction k arbitrary: st)
  case (Suc k)
  show ?case
    by (cases "apply_pass_once p (cur st) (finite_word opts)") (simp_all add: Let_def Suc.IH)
qed simp

lemma schedule_loop_no_stats:
  "map_option (\<lambda>t. t\<lparr>stats := None\<rparr>) (schedule_loop opts n0 ss st) =
   schedule_loop opts n0 ss (st\<lparr>stats := None\<rparr>)"
proof (induction ss arbitrary: st)
  case (Cons s ss)
  show ?case
    by (cases "pass_loop opts n0 (fst s) (unat (pass_iters opts (snd s))) st")
       (simp_all add: Cons.IH flip: pass_loop_no_stats)
qed simp

subsection \<open>Properties\<close>

text \<open>
  C24. The driver never fails on an expanded formula under a schedule that the schedule check
  accepts, and its result means the same on every word of the specification: all
  infinite words, and with \<open>finite_word\<close> set all finite ones.
\<close>

theorem normalize_formula_correct:
  assumes "ground inp" and "fst (tlsf_norm_schedule_check (schedule opts) (finite_word opts) (phase opts))"
  shows "\<exists>m sts'. tlsf_normalize_formula inp opts sts = Some (m, sts') \<and>
                  refines (finite_word opts) inp m"
proof (cases "schedule opts = []")
  case True
  with assms show ?thesis by (simp add: tlsf_normalize_formula_def)
next
  case False
  let ?st = "\<lparr>cur = inp, any_changed = False, was_rejected = False,
              stats = map_option (stats_before inp) sts\<rparr>"
  have "ground (cur ?st)" using assms(1) by simp
  from schedule_loop_refines [OF this check_pass_sound [OF assms(2)]]
  obtain st' where "schedule_loop opts (ast_node_count inp) (schedule opts) ?st = Some st'"
    "refines (finite_word opts) inp (cur st')" by auto
  with False show ?thesis by (simp add: tlsf_normalize_formula_def)
qed

definition sample_options :: norm_options where
  "sample_options = (tlsf_norm_options_default TLSF_NORM_PHASE_MATCH)
     \<lparr>schedule := [(TLSF_NORM_PASS_NNF, 1), (TLSF_NORM_PASS_BOOL_CANON, 3)]\<rparr>"

theorem normalize_formula_correct_witness:
  "\<exists>m sts'. tlsf_normalize_formula (node_not (node_or (NodeAp ''q'') (NodeAp ''p''))) sample_options
       (Some tlsf_norm_stats_init) = Some (m, sts') \<and>
     refines False (node_not (node_or (NodeAp ''q'') (NodeAp ''p''))) m"
proof -
  have "fst (tlsf_norm_schedule_check (schedule sample_options) (finite_word sample_options)
          (phase sample_options))"
    by code_simp
  moreover have "finite_word sample_options = False"
    by (simp add: sample_options_def tlsf_norm_options_default_def)
  ultimately show ?thesis
    using normalize_formula_correct [of "node_not (node_or (NodeAp ''q'') (NodeAp ''p''))" sample_options
        "Some tlsf_norm_stats_init"] by simp
qed

text \<open>
  C38. The driver respects its caps: the formula it returns is the input itself or has at
  most \<open>max_nodes\<close> nodes and has grown by at most \<open>max_growth_percent\<close> percent of the
  input (a cap of zero is no cap); the 64-bit product of the growth test never wraps.
\<close>

theorem normalize_formula_caps:
  assumes "tlsf_normalize_formula inp opts sts = Some (m, sts')"
  shows "m = inp \<or> within_caps opts inp m"
proof (cases "schedule opts = []")
  case False
  with assms show ?thesis
    by (auto simp: tlsf_normalize_formula_def dest: schedule_loop_caps)
qed (use assms in \<open>simp add: tlsf_normalize_formula_def\<close>)

theorem normalize_formula_caps_witness:
  "within_caps sample_options (node_not (node_or (NodeAp ''q'') (NodeAp ''p'')))
     (node_and (node_not (NodeAp ''p'')) (node_not (NodeAp ''q'')))"
proof -
  have "map_option fst (tlsf_normalize_formula (node_not (node_or (NodeAp ''q'') (NodeAp ''p''))) sample_options
      None) = Some (node_and (node_not (NodeAp ''p'')) (node_not (NodeAp ''q'')))"
    by code_simp
  then obtain sts' where "tlsf_normalize_formula (node_not (node_or (NodeAp ''q'') (NodeAp ''p'')))
      sample_options None = Some (node_and (node_not (NodeAp ''p'')) (node_not (NodeAp ''q'')), sts')"
    by auto
  from normalize_formula_caps [OF this] show ?thesis by simp
qed

text \<open>
  The statistics are an accurate by-product: a balanced table stays balanced (for every
  rule the attempts are the firings plus the no-ops, even when the 64-bit counters wrap), and
  the formula returned with a statistics buffer is the one returned without.
\<close>

theorem normalize_formula_stats:
  assumes "tlsf_normalize_formula inp opts (Some s) = Some (m, sts')" and "balanced (Some s)"
  shows "balanced sts' \<and> map_option fst (tlsf_normalize_formula inp opts None) = Some m"
proof (cases "schedule opts = []")
  case True
  with assms show ?thesis by (simp add: tlsf_normalize_formula_def)
next
  case False
  let ?st = "\<lparr>cur = inp, any_changed = False, was_rejected = False, stats = Some (stats_before inp s)\<rparr>"
  obtain t where t: "schedule_loop opts (ast_node_count inp) (schedule opts) ?st = Some t"
    "m = cur t" "sts' = map_option (stats_after t) (stats t)"
    using assms(1) False by (auto simp: tlsf_normalize_formula_def)
  have "balanced (stats ?st)"
    using assms(2) by (simp add: balanced_def stats_before_def Let_def)
  from schedule_loop_balanced [OF t(1) this] have "balanced sts'"
    by (cases "stats t") (simp_all add: t(3) balanced_def stats_after_def Let_def)
  moreover have "schedule_loop opts (ast_node_count inp) (schedule opts)
      \<lparr>cur = inp, any_changed = False, was_rejected = False, stats = None\<rparr> = Some (t\<lparr>stats := None\<rparr>)"
    using schedule_loop_no_stats [of opts "ast_node_count inp" "schedule opts" ?st] t(1) by simp
  ultimately show ?thesis using False t(2) by (simp add: tlsf_normalize_formula_def)
qed

theorem normalize_formula_stats_witness:
  "\<exists>m sts'. tlsf_normalize_formula (NodeAp ''p'') sample_options (Some tlsf_norm_stats_init) = Some (m, sts') \<and>
     balanced sts' \<and> m = NodeAp ''p''"
proof -
  have c: "map_option fst (tlsf_normalize_formula (NodeAp ''p'') sample_options (Some tlsf_norm_stats_init)) =
        Some (NodeAp ''p'')"
    by code_simp
  then obtain sts' where "tlsf_normalize_formula (NodeAp ''p'') sample_options (Some tlsf_norm_stats_init) =
        Some (NodeAp ''p'', sts')" by auto
  moreover have "balanced (Some tlsf_norm_stats_init)"
    by (simp add: balanced_def tlsf_norm_stats_init_def zero_rule_stats_def)
  ultimately show ?thesis using normalize_formula_stats by blast
qed

end
