(* ===== verification/Expand_Value.thy ===== *)
theory Expand_Value
  imports Spec "HOL-Library.Signed_Division" "HOL-Library.FSet"
begin

text \<open>
  The values that \<^verbatim>\<open>src/lib/expand.c\<close> computes while it expands a specification, and the pure
  parts of the expander: 64-bit integer arithmetic, lookup of definitions and bus widths,
  substitution, structural equality of nodes, equality of values and the set operations, and
  pattern matching.  Failures are values of the sum type: every message of the C code has its
  constructor, and a signed overflow, undefined in C, is the error \<open>Signed_Overflow\<close>.
  Allocation failure and the provenance mode (\<^verbatim>\<open>capture_provenance\<close>) are left out.
\<close>

subsection \<open>Errors\<close>

datatype expand_error =
    Recursion_Too_Deep
  | Undefined_Variable string
  | Sizeof_Unknown string
  | Empty_Extremum hl_un_kind
  | Not_A_Set_Of_Integers hl_un_kind
  | No_Definition string nat
  | Division_By_Zero
  | Non_Integer_Expression
  | Non_Boolean_Guard
  | Malformed_Set_Range
  | Zero_Step
  | Non_Set_Expression
  | Empty_Intersection
  | Binding_Conflict string
  | Label_Against_Non_Signal
  | Negative_Count
  | Negative_Bound
  | Pattern_Not_Supported string
  | Unexpected_Kind nat
  | Unknown_Parameter string
  | Parameter_Without_Value string
  | Empty_Bus_Range string int int
  | Bus_Range_Too_Wide string int int
  | Signed_Overflow
  | Out_Of_Memory

type_synonym 'a result = "expand_error + 'a"

definition bind_res :: "'e + 'a \<Rightarrow> ('a \<Rightarrow> 'e + 'b) \<Rightarrow> 'e + 'b" where
  "bind_res m f = (case m of Inl e \<Rightarrow> Inl e | Inr x \<Rightarrow> f x)"

lemma bind_res_simps [simp]:
  "bind_res (Inl e) f = Inl e"
  "bind_res (Inr x) f = f x"
  by (simp_all add: bind_res_def)

lemma bind_res_cong [fundef_cong]:
  "m = m' \<Longrightarrow> (\<And>x. m' = Inr x \<Longrightarrow> f x = f' x) \<Longrightarrow> bind_res m f = bind_res m' f'"
  by (cases m') simp_all

lemma bind_res_Inr [simp]: "bind_res m f = Inr y \<longleftrightarrow> (\<exists>x. m = Inr x \<and> f x = Inr y)"
  by (cases m) simp_all

lemma Inr_bind_res [simp]: "Inr y = bind_res m f \<longleftrightarrow> (\<exists>x. m = Inr x \<and> f x = Inr y)"
  by (cases m) auto

text \<open>A loop over a list that returns at the first failure.\<close>

primrec fold_res :: "('b \<Rightarrow> 'a \<Rightarrow> 'e + 'b) \<Rightarrow> 'b \<Rightarrow> 'a list \<Rightarrow> 'e + 'b" where
  "fold_res f acc [] = Inr acc"
| "fold_res f acc (x # xs) = bind_res (f acc x) (\<lambda>acc'. fold_res f acc' xs)"

lemma fold_res_cong [fundef_cong]:
  assumes "acc = acc'" "xs = ys" "\<And>x b. x \<in> set ys \<Longrightarrow> f b x = g b x"
  shows "fold_res f acc xs = fold_res g acc' ys"
  unfolding assms(1,2) using assms(3)
proof (induction ys arbitrary: acc')
  case (Cons y ys)
  then have "f acc' y = g acc' y" by simp
  with Cons show ?case by (cases "g acc' y") auto
qed simp

lemma fold_res_append:
  "fold_res f acc (xs @ ys) = bind_res (fold_res f acc xs) (\<lambda>acc'. fold_res f acc' ys)"
proof (induction xs arbitrary: acc)
  case (Cons x xs)
  then show ?case by (cases "f acc x") simp_all
qed simp

text \<open>An invariant of such a loop.\<close>

lemma fold_res_inv:
  assumes "fold_res f acc xs = Inr r" and "P acc"
    and "\<And>b x b'. x \<in> set xs \<Longrightarrow> P b \<Longrightarrow> f b x = Inr b' \<Longrightarrow> P b'"
  shows "P r"
  using assms
proof (induction xs arbitrary: acc)
  case (Cons x xs)
  from Cons.prems(1) obtain b where b: "f acc x = Inr b" "fold_res f b xs = Inr r" by auto
  show ?case
    using Cons.IH [OF b(2)] Cons.prems(2,3) b(1) by (meson list.set_intros)
qed simp

text \<open>Two loops that agree wherever the first one returns.\<close>

lemma fold_res_mono:
  assumes "fold_res f acc xs = Inr r"
    and "\<And>b x b'. x \<in> set xs \<Longrightarrow> f b x = Inr b' \<Longrightarrow> g b x = Inr b'"
  shows "fold_res g acc xs = Inr r"
  using assms
proof (induction xs arbitrary: acc)
  case (Cons x xs)
  from Cons.prems(1) obtain b where b: "f acc x = Inr b" "fold_res f b xs = Inr r" by auto
  have "g acc x = Inr b" using Cons.prems(2) b(1) by simp
  moreover have "fold_res g b xs = Inr r"
    using b(2) Cons.prems(2) by (intro Cons.IH) auto
  ultimately show ?case by simp
qed simp

subsection \<open>Integers\<close>

definition INT64_MIN :: int where "INT64_MIN = - (2 ^ 63)"
definition INT64_MAX :: int where "INT64_MAX = 2 ^ 63 - 1"

definition int64 :: "int \<Rightarrow> int result" where
  "int64 v = (if INT64_MIN \<le> v \<and> v \<le> INT64_MAX then Inr v else Inl Signed_Overflow)"

definition in_int64 :: "int \<Rightarrow> bool" where
  "in_int64 v \<longleftrightarrow> INT64_MIN \<le> v \<and> v \<le> INT64_MAX"

lemma int64_Inr [simp]: "int64 v = Inr r \<longleftrightarrow> r = v \<and> in_int64 v"
  by (auto simp: int64_def in_int64_def)

text \<open>The binary operators on two evaluated operands; \<^verbatim>\<open>/\<close> and \<^verbatim>\<open>%\<close> truncate.\<close>

definition int_arith :: "hl_bin_kind \<Rightarrow> int \<Rightarrow> int \<Rightarrow> int result" where
  "int_arith k a b =
     (if (k = NODE_INT_DIV \<or> k = NODE_INT_MOD) \<and> b = 0 then Inl Division_By_Zero
      else case k of
        NODE_INT_ADD \<Rightarrow> int64 (a + b)
      | NODE_INT_SUB \<Rightarrow> int64 (a - b)
      | NODE_INT_MUL \<Rightarrow> int64 (a * b)
      | NODE_INT_DIV \<Rightarrow> int64 (a sdiv b)
      | _ \<Rightarrow> bind_res (int64 (a sdiv b)) (\<lambda>_. int64 (a smod b)))"

definition arith_kind :: "hl_bin_kind \<Rightarrow> bool" where
  "arith_kind k \<longleftrightarrow> k = NODE_INT_ADD \<or> k = NODE_INT_SUB \<or> k = NODE_INT_MUL \<or>
     k = NODE_INT_DIV \<or> k = NODE_INT_MOD"

definition int_compare :: "hl_bin_kind \<Rightarrow> int \<Rightarrow> int \<Rightarrow> bool" where
  "int_compare k a b = (case k of
     NODE_CMP_LT \<Rightarrow> a < b
   | NODE_CMP_LE \<Rightarrow> a \<le> b
   | NODE_CMP_GT \<Rightarrow> a > b
   | _ \<Rightarrow> a \<ge> b)"

definition order_kind :: "hl_bin_kind \<Rightarrow> bool" where
  "order_kind k \<longleftrightarrow> k = NODE_CMP_LT \<or> k = NODE_CMP_LE \<or> k = NODE_CMP_GT \<or> k = NODE_CMP_GE"

definition equality_kind :: "hl_bin_kind \<Rightarrow> bool" where
  "equality_kind k \<longleftrightarrow> k = NODE_CMP_EQ \<or> k = NODE_CMP_NE"

definition set_op_kind :: "hl_bin_kind \<Rightarrow> bool" where
  "set_op_kind k \<longleftrightarrow> k = NODE_SET_UNION \<or> k = NODE_SET_INTER \<or> k = NODE_SET_DIFF"

lemma int_arith_in_range: "int_arith k a b = Inr r \<Longrightarrow> in_int64 r"
  by (cases k) (auto simp: int_arith_def split: if_splits)

subsection \<open>Lookups\<close>

text \<open>
  The scope chain of \<^verbatim>\<open>Binding\<close>s is read by \<^verbatim>\<open>env_lookup\<close> only, the innermost binding first: it
  is a map, and a new binding an update.
\<close>

type_synonym env = "string \<Rightarrow> int option"

definition env_lookup :: "env \<Rightarrow> string \<Rightarrow> int option" where
  "env_lookup env name = env name"

definition find_def :: "tlsf_spec \<Rightarrow> string \<Rightarrow> nat \<Rightarrow> def_decl option" where
  "find_def s name argc =
     find (\<lambda>d. dd_name d = name \<and> length (dd_params d) = argc) (items (spec_defs s))"

definition bus_width :: "tlsf_spec \<Rightarrow> string \<Rightarrow> int option" where
  "bus_width s name =
     map_option (\<lambda>d. if is_bus d then uint (bus_hi d) - uint (bus_lo d) + 1 else 1)
       (find (\<lambda>d. sd_name d = name) (items (inputs s) @ items (outputs s)))"

definition name_is_declared :: "tlsf_spec \<Rightarrow> string \<Rightarrow> bool" where
  "name_is_declared s name \<longleftrightarrow>
     list_ex (\<lambda>p. pd_name p = name) (items (spec_params s)) \<or>
     list_ex (\<lambda>d. dd_name d = name) (items (spec_defs s)) \<or>
     list_ex (\<lambda>d. sd_name d = name) (items (inputs s)) \<or>
     list_ex (\<lambda>d. sd_name d = name) (items (outputs s))"

subsection \<open>Substitution\<close>

text \<open>
  \<open>bs\<close> pairs each formal with its actual; the first pair of a formal counts.  Binders are not
  inspected: an occurrence of a formal below a quantifier over the same name is replaced too,
  and a variable of an actual can be captured.
\<close>

type_synonym bindings = "(string \<times> node) list"

definition subst_name :: "bindings \<Rightarrow> string \<Rightarrow> string" where
  "subst_name bs name = (case map_of bs name of Some (NodeAp a) \<Rightarrow> a | _ \<Rightarrow> name)"

fun subst_node :: "bindings \<Rightarrow> node \<Rightarrow> node" where
  "subst_node bs NodeTrue = NodeTrue"
| "subst_node bs NodeFalse = NodeFalse"
| "subst_node bs (NodeInt v) = NodeInt v"
| "subst_node bs (NodeAp x) = (case map_of bs x of Some m \<Rightarrow> m | None \<Rightarrow> NodeAp x)"
| "subst_node bs (IntVar x) = (case map_of bs x of Some m \<Rightarrow> m | None \<Rightarrow> IntVar x)"
| "subst_node bs (SizeOf x) = SizeOf (subst_name bs x)"
| "subst_node bs (BusIndex b i) = BusIndex (subst_name bs b) (subst_node bs i)"
| "subst_node bs (Call k f args) = Call k f (map (subst_node bs) args)"
| "subst_node bs (Ite c t e) = Ite (subst_node bs c) (subst_node bs t) (subst_node bs e)"
| "subst_node bs (Quant k v (RangeBinder lo ls hi hs) body) =
     Quant k v (RangeBinder (subst_node bs lo) ls (subst_node bs hi) hs) (subst_node bs body)"
| "subst_node bs (Quant k v (SetBinder dm) body) =
     Quant k v (SetBinder (subst_node bs dm)) (subst_node bs body)"
| "subst_node bs (BoundedOp k strong lo hi body) =
     BoundedOp k strong (subst_node bs lo) (subst_node bs hi) (subst_node bs body)"
| "subst_node bs (SetLit k elems) = SetLit k (map (subst_node bs) elems)"
| "subst_node bs (Unary k a) = Unary k (subst_node bs a)"
| "subst_node bs (HlUnary k a) = HlUnary k (subst_node bs a)"
| "subst_node bs (NextN strong c a) = NextN strong (subst_node bs c) (subst_node bs a)"
| "subst_node bs (Binary k l r) = Binary k (subst_node bs l) (subst_node bs r)"
| "subst_node bs (HlBinary k l r) = HlBinary k (subst_node bs l) (subst_node bs r)"

text \<open>A definition applied to its actuals.\<close>

definition instantiate :: "def_decl \<Rightarrow> node list \<Rightarrow> node" where
  "instantiate d args = subst_node (zip (dd_params d) args) (dd_body d)"

subsection \<open>Structural equality\<close>

fun node_structural_equal :: "node \<Rightarrow> node \<Rightarrow> bool" where
  "node_structural_equal NodeTrue n = (n = NodeTrue)"
| "node_structural_equal NodeFalse n = (n = NodeFalse)"
| "node_structural_equal (NodeInt v) n = (case n of NodeInt w \<Rightarrow> v = w | _ \<Rightarrow> False)"
| "node_structural_equal (NodeAp x) n = (case n of NodeAp y \<Rightarrow> x = y | _ \<Rightarrow> False)"
| "node_structural_equal (IntVar x) n = (case n of IntVar y \<Rightarrow> x = y | _ \<Rightarrow> False)"
| "node_structural_equal (SizeOf x) n = (case n of SizeOf y \<Rightarrow> x = y | _ \<Rightarrow> False)"
| "node_structural_equal (Unary k a) n =
     (case n of Unary k' a' \<Rightarrow> k = k' \<and> node_structural_equal a a' | _ \<Rightarrow> False)"
| "node_structural_equal (HlUnary k a) n =
     (case n of HlUnary k' a' \<Rightarrow> k = k' \<and> node_structural_equal a a' | _ \<Rightarrow> False)"
| "node_structural_equal (BusIndex b i) n =
     (case n of BusIndex b' i' \<Rightarrow> b = b' \<and> node_structural_equal i i' | _ \<Rightarrow> False)"
| "node_structural_equal (Call k f args) n =
     (case n of Call k' f' args' \<Rightarrow>
        k = k' \<and> f = f' \<and> length args = length args' \<and> list_all2 node_structural_equal args args'
      | _ \<Rightarrow> False)"
| "node_structural_equal (Ite c t e) n =
     (case n of Ite c' t' e' \<Rightarrow>
        node_structural_equal c c' \<and> node_structural_equal t t' \<and> node_structural_equal e e'
      | _ \<Rightarrow> False)"
| "node_structural_equal (Quant k v (RangeBinder lo ls hi hs) b) n =
     (case n of Quant k' v' (RangeBinder lo' ls' hi' hs') b' \<Rightarrow>
        k = k' \<and> v = v' \<and> node_structural_equal lo lo' \<and> node_structural_equal hi hi' \<and>
        node_structural_equal b b' \<and> ls = ls' \<and> hs = hs'
      | _ \<Rightarrow> False)"
| "node_structural_equal (Quant k v (SetBinder d) b) n =
     (case n of Quant k' v' (SetBinder d') b' \<Rightarrow>
        k = k' \<and> v = v' \<and> node_structural_equal d d' \<and> node_structural_equal b b'
      | _ \<Rightarrow> False)"
| "node_structural_equal (BoundedOp k s lo hi b) n =
     (case n of BoundedOp k' s' lo' hi' b' \<Rightarrow>
        k = k' \<and> node_structural_equal lo lo' \<and> node_structural_equal hi hi' \<and>
        node_structural_equal b b' \<and> s = s'
      | _ \<Rightarrow> False)"
| "node_structural_equal (SetLit k es) n =
     (case n of SetLit k' es' \<Rightarrow>
        k = k' \<and> length es = length es' \<and> list_all2 node_structural_equal es es'
      | _ \<Rightarrow> False)"
| "node_structural_equal (NextN s c a) n =
     (case n of NextN s' c' a' \<Rightarrow>
        s = s' \<and> node_structural_equal c c' \<and> node_structural_equal a a'
      | _ \<Rightarrow> False)"
| "node_structural_equal (Binary k l r) n =
     (case n of Binary k' l' r' \<Rightarrow>
        k = k' \<and> node_structural_equal l l' \<and> node_structural_equal r r'
      | _ \<Rightarrow> False)"
| "node_structural_equal (HlBinary k l r) n =
     (case n of HlBinary k' l' r' \<Rightarrow>
        k = k' \<and> node_structural_equal l l' \<and> node_structural_equal r r'
      | _ \<Rightarrow> False)"

lemma list_all2_eq_iff:
  assumes "\<And>x y. x \<in> set xs \<Longrightarrow> y \<in> set ys \<Longrightarrow> P x y \<longleftrightarrow> x = y"
  shows "list_all2 P xs ys \<longleftrightarrow> xs = ys"
proof -
  have "list_all2 P xs ys \<longleftrightarrow> list_all2 (=) xs ys"
    using assms by (intro list.rel_cong_simp) (simp_all add: simp_implies_def)
  then show ?thesis by (simp add: list_all2_eq)
qed


lemma node_structural_equal_iff: "node_structural_equal m n \<longleftrightarrow> m = n"
proof (induction m n rule: node_structural_equal.induct)
  case (10 k f args n)
  then show ?case by (auto split: node.splits simp: list_all2_eq_iff)
next
  case (15 k es n)
  then show ?case by (auto split: node.splits simp: list_all2_eq_iff)
qed (auto split: node.splits qbinder.splits)

subsection \<open>Values\<close>

text \<open>
  \<^verbatim>\<open>EvalValue\<close> with the fields each kind uses.  \<^verbatim>\<open>source\<close> is the expression the value was read
  from; the code uses it for nodes, where it is the node itself, and for sets.  An \<^verbatim>\<open>EvalSet\<close> is
  the list of its items.
\<close>

datatype eval_value =
    EvalInt int
  | EvalNode node
  | EvalSet node "eval_value list"

function (sequential) value_equal :: "eval_value \<Rightarrow> eval_value \<Rightarrow> bool" where
  "value_equal (EvalInt a) (EvalInt b) = (a = b)"
| "value_equal (EvalNode m) (EvalNode n) = node_structural_equal m n"
| "value_equal (EvalSet src xs) (EvalSet src' ys) =
     (length xs = length ys \<and> list_all (\<lambda>x. list_ex (\<lambda>y. value_equal x y) ys) xs)"
| "value_equal _ _ = False"
  by pat_completeness auto
termination
  by (relation "measure (\<lambda>(a, b). size a)")
     (auto simp: less_Suc_eq_le intro: size_list_estimation' trans_le_add2)

definition value_in :: "eval_value \<Rightarrow> eval_value list \<Rightarrow> bool" where
  "value_in v xs \<longleftrightarrow> list_ex (value_equal v) xs"

definition set_add :: "eval_value list \<Rightarrow> eval_value \<Rightarrow> eval_value list" where
  "set_add xs v = (if list_ex (\<lambda>x. value_equal x v) xs then xs else xs @ [v])"

text \<open>The values a set range visits; the guard before the addition keeps it in range.\<close>

function range_enum :: "int \<Rightarrow> int \<Rightarrow> int \<Rightarrow> int list" where
  "range_enum v step lst =
     (if (step > 0 \<and> v \<le> lst) \<or> (step < 0 \<and> v \<ge> lst)
      then v # (if (step > 0 \<and> v > INT64_MAX - step) \<or> (step < 0 \<and> v < INT64_MIN - step)
                then [] else range_enum (v + step) step lst)
      else [])"
  by pat_completeness auto
termination
  by (relation "measure (\<lambda>(v, step, lst). nat (if step > 0 then lst - v + 1 else v - lst + 1))")
     auto

function range_domain :: "int \<Rightarrow> int \<Rightarrow> int list" where
  "range_domain v lst =
     (if v \<le> lst then v # (if v = INT64_MAX then [] else range_domain (v + 1) lst) else [])"
  by pat_completeness auto
termination
  by (relation "measure (\<lambda>(v, lst). nat (lst - v + 1))") auto

declare range_enum.simps [simp del] range_domain.simps [simp del]

definition int_set :: "int list \<Rightarrow> eval_value list" where
  "int_set vs = foldl set_add [] (map EvalInt vs)"

definition set_combine ::
  "hl_bin_kind \<Rightarrow> eval_value list \<Rightarrow> eval_value list \<Rightarrow> eval_value list" where
  "set_combine k xs ys =
     (let acc = foldl (\<lambda>acc x.
            if (k = NODE_SET_INTER \<and> value_in x ys) \<or> (k = NODE_SET_DIFF \<and> \<not> value_in x ys) \<or>
               k = NODE_SET_UNION
            then set_add acc x else acc) [] xs
      in if k = NODE_SET_UNION then foldl set_add acc ys else acc)"

text \<open>One step of a big union or intersection; \<open>fst\<close> is the first term.\<close>

definition set_reduce ::
  "quant_kind \<Rightarrow> bool \<Rightarrow> eval_value list \<Rightarrow> eval_value list \<Rightarrow> eval_value list" where
  "set_reduce k first acc term =
     (if k = NODE_SET_BIG_UNION \<or> first then foldl set_add acc term
      else foldl (\<lambda>nxt x. if value_in x term then set_add nxt x else nxt) [] acc)"

fun extremum_loop :: "hl_un_kind \<Rightarrow> int \<Rightarrow> eval_value list \<Rightarrow> int result" where
  "extremum_loop k v [] = Inr v"
| "extremum_loop k v (EvalInt x # xs) =
     extremum_loop k (if (k = NODE_SET_MIN \<and> x < v) \<or> (k = NODE_SET_MAX \<and> x > v) then x else v) xs"
| "extremum_loop k v (_ # xs) = Inl (Not_A_Set_Of_Integers k)"

fun set_measure :: "hl_un_kind \<Rightarrow> eval_value list \<Rightarrow> int result" where
  "set_measure NODE_SET_SIZE xs = Inr (int (length xs))"
| "set_measure k [] = Inl (Empty_Extremum k)"
| "set_measure k (EvalInt v # xs) = extremum_loop k v xs"
| "set_measure k (_ # xs) = Inl (Not_A_Set_Of_Integers k)"

subsection \<open>Structural patterns\<close>

text \<open>
  \<^const>\<open>None\<close> is a mismatch, which is not a failure; the bindings are the newest first.
\<close>

fun match_pattern :: "tlsf_spec \<Rightarrow> node \<Rightarrow> node \<Rightarrow> bindings \<Rightarrow> (bindings option) result" where
  "match_pattern s subject (NodeAp x) bs =
     (if x = ''_'' then Inr (Some bs)
      else if name_is_declared s x then Inl (Binding_Conflict x)
      else case map_of bs x of
             Some v \<Rightarrow> Inr (if node_structural_equal v subject then Some bs else None)
           | None \<Rightarrow> Inr (Some ((x, subject) # bs)))"
| "match_pattern s subject NodeTrue bs = Inr (if subject = NodeTrue then Some bs else None)"
| "match_pattern s subject NodeFalse bs = Inr (if subject = NodeFalse then Some bs else None)"
| "match_pattern s subject (Unary k p) bs =
     (case subject of
        Unary k' a \<Rightarrow> if k' = k then match_pattern s a p bs else Inr None
      | _ \<Rightarrow> Inr None)"
| "match_pattern s subject (Binary k p q) bs =
     (case subject of
        Binary k' a b \<Rightarrow>
          if k' = k
          then bind_res (match_pattern s a p bs) (\<lambda>r.
                 case r of Some bs' \<Rightarrow> match_pattern s b q bs' | None \<Rightarrow> Inr None)
          else Inr None
      | _ \<Rightarrow> Inr None)"
| "match_pattern s subject (Call k f args) bs =
     (case subject of
        Call k' g args' \<Rightarrow>
          if k' = k \<and> k = NODE_DEF_CALL then Inl (Binding_Conflict f) else Inr None
      | _ \<Rightarrow> Inr None)"
| "match_pattern s subject _ bs = Inr None"

end
