(* ===== verification/Expand.thy ===== *)
theory Expand
  imports Expand_Value
begin

text \<open>
  The evaluators and the formula expansion of \<^verbatim>\<open>src/lib/expand.c\<close>.  The C functions call each
  other through \<^verbatim>\<open>select_ite_branch\<close>, so they are one mutual recursion: \<^verbatim>\<open>eval_int\<close>,
  \<^verbatim>\<open>eval_bool\<close>, \<^verbatim>\<open>eval_value\<close>, \<^verbatim>\<open>eval_set\<close>, \<^verbatim>\<open>eval_domain\<close>, the two reductions,
  \<^verbatim>\<open>select_ite_branch\<close>, \<^verbatim>\<open>expand_quantifier\<close> and \<^verbatim>\<open>expand_node\<close> (with its
  \<^verbatim>\<open>expand_node_impl\<close>).  \<open>depth\<close> is the C argument; a recursion into a child keeps it, a
  recursion into a definition, a branch or a set raises it, and beyond \<open>MAX_DEPTH\<close> the guarded
  functions fail.  The termination proof is the statement that this guard is enough.
\<close>

definition MAX_DEPTH :: nat where "MAX_DEPTH = 2000"

subsection \<open>Bus elements and enum labels\<close>

fun decimal_nat :: "nat \<Rightarrow> string" where
  "decimal_nat n =
     (if n < 10 then [char_of (48 + n)] else decimal_nat (n div 10) @ [char_of (48 + n mod 10)])"

declare decimal_nat.simps [simp del]

definition decimal :: "int \<Rightarrow> string" where
  "decimal v = (if v < 0 then CHR ''-'' # decimal_nat (nat (- v)) else decimal_nat (nat v))"

text \<open>\<^verbatim>\<open>snprintf\<close> into 256 bytes: at most 255 characters are kept.\<close>

definition bus_elem_name :: "string \<Rightarrow> int \<Rightarrow> string" where
  "bus_elem_name bus idx = take 255 (bus @ ''_'' @ decimal idx)"

definition bus_elem_node :: "string \<Rightarrow> int \<Rightarrow> node" where
  "bus_elem_node bus idx = NodeAp (bus_elem_name bus idx)"

text \<open>The \<^verbatim>\<open>while (*valuation)\<close> loop: an empty rest ends it, an empty valuation before a comma
  is visited.\<close>

function label_valuations :: "string \<Rightarrow> string list" where
  "label_valuations bits =
     (if bits = [] then []
      else takeWhile (\<lambda>c. c \<noteq> CHR '','') bits #
           label_valuations (drop 1 (dropWhile (\<lambda>c. c \<noteq> CHR '','') bits)))"
  by pat_completeness auto
termination
proof (relation "measure length", goal_cases)
  case (2 bits)
  then have "length (drop 1 (dropWhile (\<lambda>c. c \<noteq> CHR '','') bits)) < length bits"
    using length_dropWhile_le [of "\<lambda>c. c \<noteq> CHR '',''" bits] by (cases bits) auto
  then show ?case by simp
qed simp

declare label_valuations.simps [simp del]

fun match_bits :: "string \<Rightarrow> int \<Rightarrow> node option \<Rightarrow> string \<Rightarrow> node option" where
  "match_bits bus i acc [] = acc"
| "match_bits bus i acc (c # cs) =
     (if c = CHR ''*'' then match_bits bus (i + 1) acc cs
      else let elem = bus_elem_node bus i;
               term = (if c = CHR ''1'' then elem else node_not elem)
           in match_bits bus (i + 1)
                (Some (case acc of None \<Rightarrow> term | Some m \<Rightarrow> node_and m term)) cs)"

definition match_valuation :: "string \<Rightarrow> string \<Rightarrow> node" where
  "match_valuation bus bits = (case match_bits bus 0 None bits of Some m \<Rightarrow> m | None \<Rightarrow> NodeTrue)"

definition match_label :: "string \<Rightarrow> string \<Rightarrow> node" where
  "match_label bus bits =
     (case foldl (\<lambda>acc v. Some (case acc of None \<Rightarrow> match_valuation bus v
                               | Some a \<Rightarrow> node_or a (match_valuation bus v)))
             None (label_valuations bits) of
        Some a \<Rightarrow> a | None \<Rightarrow> NodeFalse)"

text \<open>
  The enum label of a comparison, if a side names one, with the other side; the right side is
  asked first.
\<close>

definition ap_label :: "tlsf_spec \<Rightarrow> node \<Rightarrow> string option" where
  "ap_label s n = (case n of NodeAp x \<Rightarrow> spec_find_enum_label s x | _ \<Rightarrow> None)"

definition label_comparison :: "tlsf_spec \<Rightarrow> node \<Rightarrow> node \<Rightarrow> (string \<times> node) option" where
  "label_comparison s l r =
     (case ap_label s r of
        Some bits \<Rightarrow> Some (bits, l)
      | None \<Rightarrow> map_option (\<lambda>bits. (bits, r)) (ap_label s l))"

subsection \<open>Kinds by context\<close>

definition is_int_expr :: "node \<Rightarrow> bool" where
  "is_int_expr n = (case n of
     NodeInt _ \<Rightarrow> True | SizeOf _ \<Rightarrow> True | HlUnary _ _ \<Rightarrow> True
   | HlBinary k _ _ \<Rightarrow> arith_kind k
   | Quant k _ _ _ \<Rightarrow> k = NODE_SUM \<or> k = NODE_PRODUCT
   | _ \<Rightarrow> False)"

definition is_set_expr :: "node \<Rightarrow> bool" where
  "is_set_expr n = (case n of
     SetLit _ _ \<Rightarrow> True
   | HlBinary k _ _ \<Rightarrow> set_op_kind k
   | Quant k _ _ _ \<Rightarrow> k = NODE_SET_BIG_UNION \<or> k = NODE_SET_BIG_INTER
   | _ \<Rightarrow> False)"

definition bool_op :: "bin_kind \<Rightarrow> bool \<Rightarrow> bool \<Rightarrow> bool" where
  "bool_op k a b = (case k of
     NODE_AND \<Rightarrow> a \<and> b | NODE_OR \<Rightarrow> a \<or> b | NODE_IMPL \<Rightarrow> \<not> a \<or> b | _ \<Rightarrow> a = b)"

text \<open>\<^verbatim>\<open>bind_reduction_body\<close>: an integer is bound in the environment, any other value is
  substituted by its source expression.\<close>

definition bind_reduction_body ::
  "string \<Rightarrow> node \<Rightarrow> env \<Rightarrow> eval_value \<Rightarrow> env \<times> node" where
  "bind_reduction_body v body env val = (case val of
     EvalInt x \<Rightarrow> (env(v \<mapsto> x), body)
   | EvalNode src \<Rightarrow> (env, subst_node [(v, src)] body)
   | EvalSet src _ \<Rightarrow> (env, subst_node [(v, src)] body))"

definition next_n :: "bool \<Rightarrow> nat \<Rightarrow> node \<Rightarrow> node" where
  "next_n strong k n = ((if strong then node_x_strong else node_x) ^^ k) n"

definition accumulate :: "(node \<Rightarrow> node \<Rightarrow> node) \<Rightarrow> node option \<Rightarrow> node \<Rightarrow> node option" where
  "accumulate conn acc n = Some (case acc of None \<Rightarrow> n | Some a \<Rightarrow> conn a n)"

subsection \<open>The evaluators and the expansion\<close>

text \<open>
  The measure of the recursion: the distance to the depth guard, then the size of the node (a recursion that keeps the depth
  is on a child), then the caller before the evaluator it hands its own node to.  An unguarded
  function at the same depth stands between the guarded ones.
\<close>

definition guarded :: "nat \<Rightarrow> nat" where
  "guarded depth = (if depth > MAX_DEPTH then 0 else 10 * (MAX_DEPTH + 1 - depth) + 3)"

definition unguarded :: "nat \<Rightarrow> nat \<Rightarrow> nat" where
  "unguarded c depth = 10 * (MAX_DEPTH + 1 - depth) + c"

lemma guarded_less [simp]: "d \<le> MAX_DEPTH \<Longrightarrow> guarded (Suc d) < guarded d"
  by (auto simp: guarded_def)

lemma guarded_unguarded [simp]:
  "d \<le> MAX_DEPTH \<Longrightarrow> c \<le> 2 \<Longrightarrow> unguarded c (Suc d) < guarded d"
  "d \<le> MAX_DEPTH \<Longrightarrow> c \<le> 2 \<Longrightarrow> unguarded c d < guarded d"
  "1 \<le> c \<Longrightarrow> guarded (Suc d) < unguarded c d"
  by (auto simp: guarded_def unguarded_def)

lemma unguarded_less [simp]: "c < c' \<Longrightarrow> unguarded c (Suc d) < unguarded c' d"
  by (simp add: unguarded_def)

function eval_int :: "tlsf_spec \<Rightarrow> node \<Rightarrow> env \<Rightarrow> nat \<Rightarrow> int result"
  and eval_bool :: "tlsf_spec \<Rightarrow> node \<Rightarrow> env \<Rightarrow> nat \<Rightarrow> bool result"
  and eval_value :: "tlsf_spec \<Rightarrow> node \<Rightarrow> env \<Rightarrow> nat \<Rightarrow> eval_value result"
  and eval_set :: "tlsf_spec \<Rightarrow> node \<Rightarrow> env \<Rightarrow> nat \<Rightarrow> eval_value list result"
  and eval_domain :: "tlsf_spec \<Rightarrow> node qbinder \<Rightarrow> env \<Rightarrow> nat \<Rightarrow> eval_value list result"
  and eval_int_reduction ::
    "tlsf_spec \<Rightarrow> quant_kind \<Rightarrow> string \<Rightarrow> node qbinder \<Rightarrow> node \<Rightarrow> env \<Rightarrow> nat \<Rightarrow> int result"
  and eval_set_reduction ::
    "tlsf_spec \<Rightarrow> quant_kind \<Rightarrow> string \<Rightarrow> node qbinder \<Rightarrow> node \<Rightarrow> env \<Rightarrow> nat \<Rightarrow> eval_value list result"
  and select_ite_branch ::
    "tlsf_spec \<Rightarrow> node \<Rightarrow> node \<Rightarrow> node \<Rightarrow> env \<Rightarrow> nat \<Rightarrow> node result"
  and expand_quantifier ::
    "tlsf_spec \<Rightarrow> quant_kind \<Rightarrow> string \<Rightarrow> node qbinder \<Rightarrow> node \<Rightarrow> env \<Rightarrow> nat \<Rightarrow> node result"
  and expand_node :: "tlsf_spec \<Rightarrow> node \<Rightarrow> env \<Rightarrow> nat \<Rightarrow> node result"
where
  "eval_int s n env depth =
     (if depth > MAX_DEPTH then Inl Recursion_Too_Deep
      else case n of
        NodeInt v \<Rightarrow> Inr v
      | IntVar x \<Rightarrow>
          (case env_lookup env x of
             Some v \<Rightarrow> Inr v
           | None \<Rightarrow>
               (case find_def s x 0 of
                  Some d \<Rightarrow> eval_int s (dd_body d) env (depth + 1)
                | None \<Rightarrow> Inl (Undefined_Variable x)))
      | NodeAp x \<Rightarrow>
          (case env_lookup env x of
             Some v \<Rightarrow> Inr v
           | None \<Rightarrow>
               (case find_def s x 0 of
                  Some d \<Rightarrow> eval_int s (dd_body d) env (depth + 1)
                | None \<Rightarrow> Inl (Undefined_Variable x)))
      | SizeOf x \<Rightarrow>
          (case bus_width s x of Some w \<Rightarrow> Inr w | None \<Rightarrow> Inl (Sizeof_Unknown x))
      | HlUnary k a \<Rightarrow>
          if k = NODE_INT_NEG
          then bind_res (eval_int s a env depth) (\<lambda>v. int64 (- v))
          else bind_res (eval_set s a env (depth + 1)) (\<lambda>xs. set_measure k xs)
      | Call k f args \<Rightarrow>
          if k = NODE_DEF_CALL
          then (case find_def s f (length args) of
                  Some d \<Rightarrow> eval_int s (instantiate d args) env (depth + 1)
                | None \<Rightarrow> Inl (No_Definition f (length args)))
          else Inl Non_Integer_Expression
      | Ite c t e \<Rightarrow>
          bind_res (select_ite_branch s c t e env (depth + 1)) (\<lambda>branch.
            eval_int s branch env (depth + 1))
      | Quant k v b body \<Rightarrow>
          if k = NODE_SUM \<or> k = NODE_PRODUCT
          then eval_int_reduction s k v b body env (depth + 1)
          else Inl Non_Integer_Expression
      | HlBinary k l r \<Rightarrow>
          if arith_kind k
          then bind_res (eval_int s l env depth) (\<lambda>a.
                 bind_res (eval_int s r env depth) (\<lambda>b. int_arith k a b))
          else Inl Non_Integer_Expression
      | _ \<Rightarrow> Inl Non_Integer_Expression)"
| "eval_bool s n env depth =
     (if depth > MAX_DEPTH then Inl Recursion_Too_Deep
      else case n of
        NodeTrue \<Rightarrow> Inr True
      | NodeFalse \<Rightarrow> Inr False
      | HlBinary k l r \<Rightarrow>
          if equality_kind k
          then bind_res (eval_value s l env (depth + 1)) (\<lambda>a.
                 bind_res (eval_value s r env (depth + 1)) (\<lambda>b.
                   Inr (if k = NODE_CMP_EQ then value_equal a b else \<not> value_equal a b)))
          else if order_kind k
          then bind_res (eval_int s l env depth) (\<lambda>a.
                 bind_res (eval_int s r env depth) (\<lambda>b. Inr (int_compare k a b)))
          else if k = NODE_IN
          then bind_res (eval_value s l env (depth + 1)) (\<lambda>v.
                 bind_res (eval_set s r env (depth + 1)) (\<lambda>xs. Inr (value_in v xs)))
          else Inl Non_Boolean_Guard
      | Unary k a \<Rightarrow>
          if k = NODE_NOT then bind_res (eval_bool s a env depth) (\<lambda>x. Inr (\<not> x))
          else Inl Non_Boolean_Guard
      | Binary k l r \<Rightarrow>
          if k = NODE_AND \<or> k = NODE_OR \<or> k = NODE_IMPL \<or> k = NODE_EQUIV
          then bind_res (eval_bool s l env depth) (\<lambda>a.
                 bind_res (eval_bool s r env depth) (\<lambda>b. Inr (bool_op k a b)))
          else Inl Non_Boolean_Guard
      | Ite c t e \<Rightarrow>
          bind_res (select_ite_branch s c t e env (depth + 1)) (\<lambda>branch.
            eval_bool s branch env (depth + 1))
      | Call k f args \<Rightarrow>
          if k = NODE_DEF_CALL
          then (case find_def s f (length args) of
                  Some d \<Rightarrow> eval_bool s (instantiate d args) env (depth + 1)
                | None \<Rightarrow> Inl (No_Definition f (length args)))
          else Inl Non_Boolean_Guard
      | _ \<Rightarrow> Inl Non_Boolean_Guard)"
| "eval_value s n env depth =
     (if depth > MAX_DEPTH then Inl Recursion_Too_Deep
      else if is_int_expr n
      then bind_res (eval_int s n env (depth + 1)) (\<lambda>v. Inr (EvalInt v))
      else if is_set_expr n
      then bind_res (eval_set s n env (depth + 1)) (\<lambda>xs. Inr (EvalSet n xs))
      else case n of
        NodeAp x \<Rightarrow>
          (case env_lookup env x of
             Some v \<Rightarrow> Inr (EvalInt v)
           | None \<Rightarrow>
               (case find_def s x 0 of
                  Some d \<Rightarrow> eval_value s (dd_body d) env (depth + 1)
                | None \<Rightarrow> Inr (EvalNode n)))
      | IntVar x \<Rightarrow>
          (case env_lookup env x of
             Some v \<Rightarrow> Inr (EvalInt v)
           | None \<Rightarrow>
               (case find_def s x 0 of
                  Some d \<Rightarrow> eval_value s (dd_body d) env (depth + 1)
                | None \<Rightarrow> Inr (EvalNode n)))
      | Call k f args \<Rightarrow>
          if k = NODE_DEF_CALL
          then (case find_def s f (length args) of
                  Some d \<Rightarrow> eval_value s (instantiate d args) env (depth + 1)
                | None \<Rightarrow> Inl (No_Definition f (length args)))
          else Inr (EvalNode n)
      | Ite c t e \<Rightarrow>
          bind_res (select_ite_branch s c t e env (depth + 1)) (\<lambda>branch.
            eval_value s branch env (depth + 1))
      | _ \<Rightarrow> Inr (EvalNode n))"
| "eval_set s n env depth =
     (if depth > MAX_DEPTH then Inl Recursion_Too_Deep
      else case n of
        SetLit k elems \<Rightarrow>
          if k = NODE_SET
          then fold_res (\<lambda>acc e. bind_res (eval_value s e env (depth + 1)) (\<lambda>v.
                 Inr (set_add acc v))) [] elems
          else (case elems of
                  [e1, e2, e3] \<Rightarrow>
                    bind_res (eval_int s e1 env (depth + 1)) (\<lambda>first.
                      bind_res (eval_int s e2 env (depth + 1)) (\<lambda>second.
                        bind_res (eval_int s e3 env (depth + 1)) (\<lambda>lst.
                          bind_res (int64 (second - first)) (\<lambda>step.
                            if step = 0 then Inl Zero_Step
                            else Inr (int_set (range_enum first step lst))))))
                | _ \<Rightarrow> Inl Malformed_Set_Range)
      | HlBinary k l r \<Rightarrow>
          if set_op_kind k
          then bind_res (eval_set s l env (depth + 1)) (\<lambda>xs.
                 bind_res (eval_set s r env (depth + 1)) (\<lambda>ys. Inr (set_combine k xs ys)))
          else Inl Non_Set_Expression
      | NodeAp x \<Rightarrow>
          (case find_def s x 0 of
             Some d \<Rightarrow> eval_set s (dd_body d) env (depth + 1)
           | None \<Rightarrow> Inl Non_Set_Expression)
      | IntVar x \<Rightarrow>
          (case find_def s x 0 of
             Some d \<Rightarrow> eval_set s (dd_body d) env (depth + 1)
           | None \<Rightarrow> Inl Non_Set_Expression)
      | Call k f args \<Rightarrow>
          if k = NODE_DEF_CALL
          then (case find_def s f (length args) of
                  Some d \<Rightarrow> eval_set s (instantiate d args) env (depth + 1)
                | None \<Rightarrow> Inl (No_Definition f (length args)))
          else Inl Non_Set_Expression
      | Ite c t e \<Rightarrow>
          bind_res (select_ite_branch s c t e env (depth + 1)) (\<lambda>branch.
            eval_set s branch env (depth + 1))
      | Quant k v b body \<Rightarrow>
          if k = NODE_SET_BIG_UNION \<or> k = NODE_SET_BIG_INTER
          then eval_set_reduction s k v b body env (depth + 1)
          else Inl Non_Set_Expression
      | _ \<Rightarrow> Inl Non_Set_Expression)"
| "eval_domain s b env depth =
     (case b of
        SetBinder e \<Rightarrow> eval_set s e env (depth + 1)
      | RangeBinder lo_expr lo_strict hi_expr hi_strict \<Rightarrow>
          bind_res (eval_int s lo_expr env (depth + 1)) (\<lambda>lo.
            bind_res (eval_int s hi_expr env (depth + 1)) (\<lambda>hi.
              bind_res (int64 (if lo_strict then lo + 1 else lo)) (\<lambda>first.
                bind_res (int64 (if hi_strict then hi - 1 else hi)) (\<lambda>lst.
                  Inr (int_set (range_domain first lst)))))))"
| "eval_int_reduction s k v b body env depth =
     bind_res (eval_domain s b env (depth + 1)) (\<lambda>domain.
       fold_res (\<lambda>acc val.
           bind_res (eval_int s (snd (bind_reduction_body v body env val))
                       (fst (bind_reduction_body v body env val)) (depth + 1)) (\<lambda>x.
             int64 (if k = NODE_PRODUCT then acc * x else acc + x)))
         (if k = NODE_PRODUCT then 1 else 0) domain)"
| "eval_set_reduction s k v b body env depth =
     bind_res (eval_domain s b env (depth + 1)) (\<lambda>domain.
       if k = NODE_SET_BIG_INTER \<and> domain = [] then Inl Empty_Intersection
       else bind_res (fold_res (\<lambda>st val.
                bind_res (eval_set s (snd (bind_reduction_body v body env val))
                            (fst (bind_reduction_body v body env val)) (depth + 1)) (\<lambda>term.
                  Inr (set_reduce k (snd st) (fst st) term, False)))
              ([], True) domain) (\<lambda>st. Inr (fst st)))"
| "select_ite_branch s c t e env depth =
     (case c of
        HlBinary NODE_MATCH subject pattern \<Rightarrow>
          bind_res (expand_node s subject env (depth + 1)) (\<lambda>m.
            bind_res (match_pattern s m pattern []) (\<lambda>r.
              case r of
                None \<Rightarrow> Inr e
              | Some bs \<Rightarrow> Inr (if bs = [] then t else subst_node bs t)))
      | _ \<Rightarrow> bind_res (eval_bool s c env (depth + 1)) (\<lambda>x. Inr (if x then t else e)))"
| "expand_quantifier s k v b body env depth =
     bind_res (eval_domain s b env (depth + 1)) (\<lambda>domain.
       bind_res (fold_res (\<lambda>acc val.
           bind_res (expand_node s (snd (bind_reduction_body v body env val))
                       (fst (bind_reduction_body v body env val)) (depth + 1)) (\<lambda>term.
             Inr (accumulate (if k = NODE_FORALL then node_and else node_or) acc term)))
           None domain) (\<lambda>acc.
         Inr (case acc of Some a \<Rightarrow> a
              | None \<Rightarrow> if k = NODE_FORALL then NodeTrue else NodeFalse)))"
| "expand_node s n env depth =
     (if depth > MAX_DEPTH then Inl Recursion_Too_Deep
      else case n of
        NodeTrue \<Rightarrow> Inr NodeTrue
      | NodeFalse \<Rightarrow> Inr NodeFalse
      | NodeAp x \<Rightarrow>
          (case find_def s x 0 of
             Some d \<Rightarrow> expand_node s (dd_body d) env (depth + 1)
           | None \<Rightarrow> Inr (NodeAp x))
      | Unary k a \<Rightarrow> bind_res (expand_node s a env depth) (\<lambda>x. Inr (Unary k x))
      | Binary k l r \<Rightarrow>
          bind_res (expand_node s l env depth) (\<lambda>x.
            bind_res (expand_node s r env depth) (\<lambda>y. Inr (Binary k x y)))
      | HlBinary k l r \<Rightarrow>
          if equality_kind k
          then (case label_comparison s l r of
                  Some (bits, bus) \<Rightarrow>
                    (case bus of
                       NodeAp x \<Rightarrow>
                         Inr (if k = NODE_CMP_NE then node_not (match_label x bits)
                              else match_label x bits)
                     | _ \<Rightarrow> Inl Label_Against_Non_Signal)
                | None \<Rightarrow>
                    bind_res (eval_bool s n env depth) (\<lambda>x.
                      Inr (if x then NodeTrue else NodeFalse)))
          else if order_kind k \<or> k = NODE_IN
          then bind_res (eval_bool s n env (depth + 1)) (\<lambda>x.
                 Inr (if x then NodeTrue else NodeFalse))
          else Inl (Unexpected_Kind (node_kind n))
      | BusIndex b i \<Rightarrow>
          bind_res (eval_int s i env depth) (\<lambda>idx. Inr (bus_elem_node b idx))
      | Quant k v b body \<Rightarrow>
          if k = NODE_FORALL \<or> k = NODE_EXISTS
          then expand_quantifier s k v b body env depth
          else Inl (Unexpected_Kind (node_kind n))
      | NextN strong c a \<Rightarrow>
          bind_res (eval_int s c env depth) (\<lambda>count.
            if count < 0 then Inl Negative_Count
            else bind_res (expand_node s a env depth) (\<lambda>x.
                   Inr (next_n strong (nat count) x)))
      | BoundedOp k strong lo_expr hi_expr a \<Rightarrow>
          bind_res (eval_int s lo_expr env depth) (\<lambda>lo.
            bind_res (eval_int s hi_expr env depth) (\<lambda>hi.
              if lo < 0 \<or> hi < 0 then Inl Negative_Bound
              else bind_res (fold_res (\<lambda>acc i.
                       bind_res (expand_node s a env depth) (\<lambda>x.
                         Inr (accumulate (if k = NODE_G_RANGE then node_and else node_or) acc
                                (next_n strong (nat i) x))))
                       None [lo..hi]) (\<lambda>acc.
                     Inr (case acc of Some m \<Rightarrow> m
                          | None \<Rightarrow> if k = NODE_G_RANGE then NodeTrue else NodeFalse))))
      | Ite c t e \<Rightarrow>
          bind_res (select_ite_branch s c t e env (depth + 1)) (\<lambda>branch.
            expand_node s branch env (depth + 1))
      | Call k f args \<Rightarrow>
          if k = NODE_DEF_CALL
          then (case find_def s f (length args) of
                  Some d \<Rightarrow> expand_node s (instantiate d args) env (depth + 1)
                | None \<Rightarrow> Inl (No_Definition f (length args)))
          else Inl (Pattern_Not_Supported f)
      | _ \<Rightarrow> Inl (Unexpected_Kind (node_kind n)))"
  by pat_completeness auto
termination
  by (relation "measures
    [\<lambda>x. case x of
        Inl (Inl (Inl (s, n, env, d))) \<Rightarrow> guarded d
      | Inl (Inl (Inr (s, n, env, d))) \<Rightarrow> guarded d
      | Inl (Inr (Inl (s, n, env, d))) \<Rightarrow> guarded d
      | Inl (Inr (Inr (Inl (s, n, env, d)))) \<Rightarrow> guarded d
      | Inl (Inr (Inr (Inr (s, b, env, d)))) \<Rightarrow> unguarded 1 d
      | Inr (Inl (Inl (s, k, v, b, body, env, d))) \<Rightarrow> unguarded 2 d
      | Inr (Inl (Inr (s, k, v, b, body, env, d))) \<Rightarrow> unguarded 2 d
      | Inr (Inr (Inl (s, c, t, e, env, d))) \<Rightarrow> unguarded 1 d
      | Inr (Inr (Inr (Inl (s, k, v, b, body, env, d)))) \<Rightarrow> unguarded 2 d
      | Inr (Inr (Inr (Inr (s, n, env, d)))) \<Rightarrow> guarded d,
     \<lambda>x. case x of
        Inl (Inl (Inl (s, n, env, d))) \<Rightarrow> size n
      | Inl (Inl (Inr (s, n, env, d))) \<Rightarrow> size n
      | Inr (Inr (Inr (Inr (s, n, env, d)))) \<Rightarrow> size n + 1
      | _ \<Rightarrow> 0]")
     (simp_all add: not_less)

declare eval_int.simps [simp del] eval_bool.simps [simp del] eval_value.simps [simp del]
  eval_set.simps [simp del] eval_domain.simps [simp del] eval_int_reduction.simps [simp del]
  eval_set_reduction.simps [simp del] select_ite_branch.simps [simp del]
  expand_quantifier.simps [simp del] expand_node.simps [simp del]

end
