(* ===== verification/Expand_Depth.thy ===== *)
theory Expand_Depth
  imports Expand
begin

text \<open>
  The equations of the expander by node constructor, and the role of the depth argument: a
  result at some depth is the result at every smaller depth, so the guard only turns results
  into failures.
\<close>

subsection \<open>Equations\<close>

text \<open>The equations of the guarded functions, one per node constructor.\<close>

lemmas eval_int_simps =
  eval_int.simps [where n = NodeTrue, unfolded node.case]
  eval_int.simps [where n = NodeFalse, unfolded node.case]
  eval_int.simps [where n = "NodeAp x" for x, unfolded node.case]
  eval_int.simps [where n = "NodeInt i" for i, unfolded node.case]
  eval_int.simps [where n = "Unary k a" for k a, unfolded node.case]
  eval_int.simps [where n = "Binary k l r" for k l r, unfolded node.case]
  eval_int.simps [where n = "IntVar x" for x, unfolded node.case]
  eval_int.simps [where n = "SizeOf x" for x, unfolded node.case]
  eval_int.simps [where n = "HlUnary k a" for k a, unfolded node.case]
  eval_int.simps [where n = "HlBinary k l r" for k l r, unfolded node.case]
  eval_int.simps [where n = "NextN strong c a" for strong c a, unfolded node.case]
  eval_int.simps [where n = "Call k f args" for k f args, unfolded node.case]
  eval_int.simps [where n = "BusIndex b i" for b i, unfolded node.case]
  eval_int.simps [where n = "Ite c t e" for c t e, unfolded node.case]
  eval_int.simps [where n = "BoundedOp k strong lo hi a" for k strong lo hi a, unfolded node.case]
  eval_int.simps [where n = "Quant k v b body" for k v b body, unfolded node.case]
  eval_int.simps [where n = "SetLit k elems" for k elems, unfolded node.case]

lemmas eval_bool_simps =
  eval_bool.simps [where n = NodeTrue, unfolded node.case]
  eval_bool.simps [where n = NodeFalse, unfolded node.case]
  eval_bool.simps [where n = "NodeAp x" for x, unfolded node.case]
  eval_bool.simps [where n = "NodeInt i" for i, unfolded node.case]
  eval_bool.simps [where n = "Unary k a" for k a, unfolded node.case]
  eval_bool.simps [where n = "Binary k l r" for k l r, unfolded node.case]
  eval_bool.simps [where n = "IntVar x" for x, unfolded node.case]
  eval_bool.simps [where n = "SizeOf x" for x, unfolded node.case]
  eval_bool.simps [where n = "HlUnary k a" for k a, unfolded node.case]
  eval_bool.simps [where n = "HlBinary k l r" for k l r, unfolded node.case]
  eval_bool.simps [where n = "NextN strong c a" for strong c a, unfolded node.case]
  eval_bool.simps [where n = "Call k f args" for k f args, unfolded node.case]
  eval_bool.simps [where n = "BusIndex b i" for b i, unfolded node.case]
  eval_bool.simps [where n = "Ite c t e" for c t e, unfolded node.case]
  eval_bool.simps [where n = "BoundedOp k strong lo hi a" for k strong lo hi a, unfolded node.case]
  eval_bool.simps [where n = "Quant k v b body" for k v b body, unfolded node.case]
  eval_bool.simps [where n = "SetLit k elems" for k elems, unfolded node.case]

lemmas eval_value_simps =
  eval_value.simps [where n = NodeTrue, unfolded node.case]
  eval_value.simps [where n = NodeFalse, unfolded node.case]
  eval_value.simps [where n = "NodeAp x" for x, unfolded node.case]
  eval_value.simps [where n = "NodeInt i" for i, unfolded node.case]
  eval_value.simps [where n = "Unary k a" for k a, unfolded node.case]
  eval_value.simps [where n = "Binary k l r" for k l r, unfolded node.case]
  eval_value.simps [where n = "IntVar x" for x, unfolded node.case]
  eval_value.simps [where n = "SizeOf x" for x, unfolded node.case]
  eval_value.simps [where n = "HlUnary k a" for k a, unfolded node.case]
  eval_value.simps [where n = "HlBinary k l r" for k l r, unfolded node.case]
  eval_value.simps [where n = "NextN strong c a" for strong c a, unfolded node.case]
  eval_value.simps [where n = "Call k f args" for k f args, unfolded node.case]
  eval_value.simps [where n = "BusIndex b i" for b i, unfolded node.case]
  eval_value.simps [where n = "Ite c t e" for c t e, unfolded node.case]
  eval_value.simps [where n = "BoundedOp k strong lo hi a" for k strong lo hi a, unfolded node.case]
  eval_value.simps [where n = "Quant k v b body" for k v b body, unfolded node.case]
  eval_value.simps [where n = "SetLit k elems" for k elems, unfolded node.case]

lemmas eval_set_simps =
  eval_set.simps [where n = NodeTrue, unfolded node.case]
  eval_set.simps [where n = NodeFalse, unfolded node.case]
  eval_set.simps [where n = "NodeAp x" for x, unfolded node.case]
  eval_set.simps [where n = "NodeInt i" for i, unfolded node.case]
  eval_set.simps [where n = "Unary k a" for k a, unfolded node.case]
  eval_set.simps [where n = "Binary k l r" for k l r, unfolded node.case]
  eval_set.simps [where n = "IntVar x" for x, unfolded node.case]
  eval_set.simps [where n = "SizeOf x" for x, unfolded node.case]
  eval_set.simps [where n = "HlUnary k a" for k a, unfolded node.case]
  eval_set.simps [where n = "HlBinary k l r" for k l r, unfolded node.case]
  eval_set.simps [where n = "NextN strong c a" for strong c a, unfolded node.case]
  eval_set.simps [where n = "Call k f args" for k f args, unfolded node.case]
  eval_set.simps [where n = "BusIndex b i" for b i, unfolded node.case]
  eval_set.simps [where n = "Ite c t e" for c t e, unfolded node.case]
  eval_set.simps [where n = "BoundedOp k strong lo hi a" for k strong lo hi a, unfolded node.case]
  eval_set.simps [where n = "Quant k v b body" for k v b body, unfolded node.case]
  eval_set.simps [where n = "SetLit k elems" for k elems, unfolded node.case]

lemmas expand_node_simps =
  expand_node.simps [where n = NodeTrue, unfolded node.case]
  expand_node.simps [where n = NodeFalse, unfolded node.case]
  expand_node.simps [where n = "NodeAp x" for x, unfolded node.case]
  expand_node.simps [where n = "NodeInt i" for i, unfolded node.case]
  expand_node.simps [where n = "Unary k a" for k a, unfolded node.case]
  expand_node.simps [where n = "Binary k l r" for k l r, unfolded node.case]
  expand_node.simps [where n = "IntVar x" for x, unfolded node.case]
  expand_node.simps [where n = "SizeOf x" for x, unfolded node.case]
  expand_node.simps [where n = "HlUnary k a" for k a, unfolded node.case]
  expand_node.simps [where n = "HlBinary k l r" for k l r, unfolded node.case]
  expand_node.simps [where n = "NextN strong c a" for strong c a, unfolded node.case]
  expand_node.simps [where n = "Call k f args" for k f args, unfolded node.case]
  expand_node.simps [where n = "BusIndex b i" for b i, unfolded node.case]
  expand_node.simps [where n = "Ite c t e" for c t e, unfolded node.case]
  expand_node.simps [where n = "BoundedOp k strong lo hi a" for k strong lo hi a, unfolded node.case]
  expand_node.simps [where n = "Quant k v b body" for k v b body, unfolded node.case]
  expand_node.simps [where n = "SetLit k elems" for k elems, unfolded node.case]

subsection \<open>Smaller depths\<close>

text \<open>\<open>le_res m m'\<close>: whenever \<open>m\<close> returns, \<open>m'\<close> returns the same.\<close>

definition le_res :: "'e + 'a \<Rightarrow> 'e + 'a \<Rightarrow> bool" where
  "le_res m m' \<longleftrightarrow> (\<forall>r. m = Inr r \<longrightarrow> m' = Inr r)"

lemma le_res_simps [simp]: "le_res m m" "le_res (Inl e) m"
  by (simp_all add: le_res_def)

lemma le_res_bind:
  "le_res m m' \<Longrightarrow> (\<And>x. m = Inr x \<Longrightarrow> le_res (f x) (f' x)) \<Longrightarrow> le_res (bind_res m f) (bind_res m' f')"
  by (cases m) (auto simp: le_res_def)

lemma le_res_fold:
  "(\<And>x b. x \<in> set xs \<Longrightarrow> le_res (f b x) (f' b x)) \<Longrightarrow> le_res (fold_res f acc xs) (fold_res f' acc xs)"
  by (auto simp: le_res_def elim: fold_res_mono)

lemma le_res_guard:
  "d' \<le> d \<Longrightarrow> (\<not> MAX_DEPTH < d \<Longrightarrow> le_res m m') \<Longrightarrow>
   le_res (if MAX_DEPTH < d then Inl e else m) (if MAX_DEPTH < d' then Inl e else m')"
  by auto

lemma depth_le_res:
  "\<And>d'. d' \<le> d \<Longrightarrow> le_res (eval_int s n env d) (eval_int s n env d')"
  "\<And>d'. d' \<le> d \<Longrightarrow> le_res (eval_bool s n env d) (eval_bool s n env d')"
  "\<And>d'. d' \<le> d \<Longrightarrow> le_res (eval_value s n env d) (eval_value s n env d')"
  "\<And>d'. d' \<le> d \<Longrightarrow> le_res (eval_set s n env d) (eval_set s n env d')"
  "\<And>d'. d' \<le> d \<Longrightarrow> le_res (eval_domain s b env d) (eval_domain s b env d')"
  "\<And>d'. d' \<le> d \<Longrightarrow> le_res (eval_int_reduction s q v b body env d) (eval_int_reduction s q v b body env d')"
  "\<And>d'. d' \<le> d \<Longrightarrow> le_res (eval_set_reduction s q v b body env d) (eval_set_reduction s q v b body env d')"
  "\<And>d'. d' \<le> d \<Longrightarrow> le_res (select_ite_branch s c t e env d) (select_ite_branch s c t e env d')"
  "\<And>d'. d' \<le> d \<Longrightarrow> le_res (expand_quantifier s q v b body env d) (expand_quantifier s q v b body env d')"
  "\<And>d'. d' \<le> d \<Longrightarrow> le_res (expand_node s n env d) (expand_node s n env d')"
proof (induction s n env d and s n env d and s n env d and s n env d and s b env d
    and s q v b body env d and s q v b body env d and s c t e env d and s q v b body env d
    and s n env d
    rule: eval_int_eval_bool_eval_value_eval_set_eval_domain_eval_int_reduction_eval_set_reduction_select_ite_branch_expand_quantifier_expand_node.induct)
  case (1 s n env depth)
  show ?case
    by (cases n; use 1 in \<open>auto simp: eval_int_simps le_res_guard intro!: le_res_bind le_res_fold split: option.split\<close>)
next
  case (2 s n env depth)
  show ?case
    by (cases n; use 2 in \<open>auto simp: eval_bool_simps le_res_guard intro!: le_res_bind le_res_fold split: option.split\<close>)
next
  case (3 s n env depth)
  show ?case
    by (cases n; use 3 in \<open>auto simp: eval_value_simps le_res_guard intro!: le_res_bind le_res_fold split: option.split\<close>)
next
  case (4 s n env depth)
  show ?case
    by (cases n; use 4 in \<open>auto simp: eval_set_simps le_res_guard intro!: le_res_bind le_res_fold split: option.split list.split\<close>)
next
  case (5 s b env depth)
  show ?case
    by (cases b; use 5 in \<open>auto simp: eval_domain.simps le_res_guard intro!: le_res_bind le_res_fold split: option.split\<close>)
next
  case (6 s k v b body env depth)
  show ?case
    by (use 6 in \<open>auto simp: eval_int_reduction.simps le_res_guard intro!: le_res_bind le_res_fold split: option.split\<close>)
next
  case (7 s k v b body env depth)
  show ?case
    by (use 7 in \<open>auto simp: eval_set_reduction.simps le_res_guard intro!: le_res_bind le_res_fold split: option.split\<close>)
next
  case (8 s c t e env depth)
  show ?case
    by (use 8 in \<open>auto simp: select_ite_branch.simps le_res_guard intro!: le_res_bind le_res_fold split: option.split node.split hl_bin_kind.split\<close>)
next
  case (9 s k v b body env depth)
  show ?case
    by (use 9 in \<open>auto simp: expand_quantifier.simps le_res_guard intro!: le_res_bind le_res_fold split: option.split\<close>)
next
  case (10 s n env depth)
  show ?case
    by (cases n; use 10 in \<open>auto simp: expand_node_simps le_res_guard intro!: le_res_bind le_res_fold split: option.split prod.split node.split\<close>)
qed

lemmas depth_mono = depth_le_res [unfolded le_res_def, rule_format]

end
