(* ===== verification/Expand_Sets.thy ===== *)
theory Expand_Sets
  imports Expand_Value
begin

text \<open>
  What the values of the expander stand for.  \<open>abs_value\<close> maps a value to a hereditarily finite
  set over integers and formulas.  \<^verbatim>\<open>value_equal\<close> compares two sets only by their counts and one
  inclusion; it is equality of the abstract values because the items of a set are pairwise
  different, which every operation preserves.  On such values \<^verbatim>\<open>set_add\<close>, the set operators and
  the reductions are insertion, union, intersection and difference.
\<close>

datatype hf_value = AbsInt int | AbsNode node | AbsSet "hf_value fset"

primrec abs_value :: "eval_value \<Rightarrow> hf_value" where
  "abs_value (EvalInt v) = AbsInt v"
| "abs_value (EvalNode n) = AbsNode n"
| "abs_value (EvalSet src xs) = AbsSet (fset_of_list (map abs_value xs))"

definition abs_items :: "eval_value list \<Rightarrow> hf_value fset" where
  "abs_items xs = fset_of_list (map abs_value xs)"

primrec wf_value :: "eval_value \<Rightarrow> bool" where
  "wf_value (EvalInt v) = True"
| "wf_value (EvalNode n) = True"
| "wf_value (EvalSet src xs) = (list_all (\<lambda>b. b) (map wf_value xs) \<and> distinct (map abs_value xs))"

definition wf_items :: "eval_value list \<Rightarrow> bool" where
  "wf_items xs \<longleftrightarrow> list_all wf_value xs \<and> distinct (map abs_value xs)"

lemma wf_value_EvalSet [simp]: "wf_value (EvalSet src xs) = wf_items xs"
  by (simp add: wf_items_def list_all_iff)

declare wf_value.simps(3) [simp del]

lemma abs_value_EvalSet [simp]: "abs_value (EvalSet src xs) = AbsSet (abs_items xs)"
  by (simp add: abs_items_def)

declare abs_value.simps(3) [simp del]

lemma abs_items_simps [simp]:
  "abs_items [] = {||}"
  "abs_items (x # xs) = finsert (abs_value x) (abs_items xs)"
  "abs_items (xs @ ys) = abs_items xs |\<union>| abs_items ys"
  by (simp_all add: abs_items_def)

lemma abs_items_iff: "a |\<in>| abs_items xs \<longleftrightarrow> (\<exists>x\<in>set xs. a = abs_value x)"
  by (auto simp: abs_items_def fset_of_list_elem)

lemma fset_abs_items: "fset (abs_items xs) = abs_value ` set xs"
  by (simp add: abs_items_def fset_of_list.rep_eq)

subsection \<open>Equality of values\<close>

lemma list_image_subset_eq:
  assumes "distinct (map f xs)" "distinct (map f ys)" "length xs = length ys"
    and "f ` set xs \<subseteq> f ` set ys"
  shows "f ` set xs = f ` set ys"
proof -
  have "card (f ` set xs) = length xs" "card (f ` set ys) = length ys"
    using assms(1,2) by (metis distinct_card length_map list.set_map)+
  then show ?thesis using assms(3,4) by (metis List.finite_set card_subset_eq finite_imageI)
qed

lemma image_eq_length:
  assumes "distinct (map f xs)" "distinct (map f ys)" "f ` set xs = f ` set ys"
  shows "length xs = length ys"
  using assms by (metis distinct_card length_map list.set_map)

lemma value_equal_abs:
  "wf_value a \<Longrightarrow> wf_value b \<Longrightarrow> value_equal a b \<longleftrightarrow> abs_value a = abs_value b"
proof (induction a b rule: value_equal.induct)
  case (3 src xs src' ys)
  from "3.prems" have wf: "distinct (map abs_value xs)" "distinct (map abs_value ys)"
    "\<And>x. x \<in> set xs \<Longrightarrow> wf_value x" "\<And>y. y \<in> set ys \<Longrightarrow> wf_value y"
    by (auto simp: wf_items_def list_all_iff)
  have "list_all (\<lambda>x. list_ex (value_equal x) ys) xs \<longleftrightarrow> abs_value ` set xs \<subseteq> abs_value ` set ys"
    using "3.IH" wf by (auto simp: list_all_iff list_ex_iff image_iff subset_iff)
  moreover have "abs_value ` set xs = abs_value ` set ys \<longleftrightarrow>
      length xs = length ys \<and> abs_value ` set xs \<subseteq> abs_value ` set ys"
    using list_image_subset_eq [OF wf(1,2)] image_eq_length [OF wf(1,2)] by blast
  ultimately show ?case by (simp add: fset_inject [symmetric] fset_abs_items)
qed (simp_all add: node_structural_equal_iff)

lemma wf_items_simps [simp]:
  "wf_items []"
  "wf_items (x # xs) \<longleftrightarrow> wf_value x \<and> wf_items xs \<and> abs_value x |\<notin>| abs_items xs"
  by (auto simp: wf_items_def abs_items_iff)

lemma wf_items_member: "wf_items xs \<Longrightarrow> x \<in> set xs \<Longrightarrow> wf_value x"
  by (simp add: wf_items_def list_all_iff)

lemma length_wf_items: "wf_items xs \<Longrightarrow> length xs = fcard (abs_items xs)"
  by (induction xs) (simp_all add: fcard_finsert_disjoint)

lemma value_in_abs:
  "wf_value v \<Longrightarrow> wf_items xs \<Longrightarrow> value_in v xs \<longleftrightarrow> abs_value v |\<in>| abs_items xs"
  by (auto simp: value_in_def list_ex_iff abs_items_iff value_equal_abs wf_items_member)

subsection \<open>The operations\<close>

lemma set_add_refines:
  assumes "wf_items xs" "wf_value v"
  shows "wf_items (set_add xs v)" and "abs_items (set_add xs v) = finsert (abs_value v) (abs_items xs)"
proof -
  have ex: "list_ex (\<lambda>x. value_equal x v) xs \<longleftrightarrow> abs_value v |\<in>| abs_items xs"
    using assms by (auto simp: list_ex_iff abs_items_iff value_equal_abs wf_items_member
        intro: bexI dest: sym)
  show "wf_items (set_add xs v)"
    using assms ex by (auto simp: set_add_def wf_items_def abs_items_iff)
  show "abs_items (set_add xs v) = finsert (abs_value v) (abs_items xs)"
    using ex by (auto simp: set_add_def finsert_absorb)
qed

lemma add_all_refines:
  assumes "wf_items acc" "list_all wf_value xs"
  shows "wf_items (foldl set_add acc xs) \<and>
    abs_items (foldl set_add acc xs) = abs_items acc |\<union>| abs_items xs"
  using assms
proof (induction xs arbitrary: acc)
  case (Cons x xs)
  then have "wf_items (set_add acc x)" by (simp add: set_add_refines)
  from Cons.IH [OF this] Cons.prems show ?case by (simp add: set_add_refines)
qed simp

lemma add_some_refines:
  assumes "wf_items acc" "list_all wf_value xs"
  shows "wf_items (foldl (\<lambda>acc x. if P x then set_add acc x else acc) acc xs) \<and>
    abs_items (foldl (\<lambda>acc x. if P x then set_add acc x else acc) acc xs) =
      abs_items acc |\<union>| abs_items (filter P xs)"
  using assms
proof (induction xs arbitrary: acc)
  case (Cons x xs)
  then have "wf_items (if P x then set_add acc x else acc)" by (simp add: set_add_refines)
  from Cons.IH [OF this] Cons.prems show ?case by (simp add: set_add_refines)
qed simp

lemma wf_items_all: "wf_items xs \<Longrightarrow> list_all wf_value xs"
  by (simp add: wf_items_def)

lemma abs_items_filter_in:
  assumes "wf_items xs" "wf_items ys"
  shows "abs_items (filter (\<lambda>x. value_in x ys) xs) = abs_items xs |\<inter>| abs_items ys"
    and "abs_items (filter (\<lambda>x. \<not> value_in x ys) xs) = abs_items xs |-| abs_items ys"
  using assms(1) by (induction xs) (auto simp: value_in_abs assms(2))

definition abs_combine :: "hl_bin_kind \<Rightarrow> hf_value fset \<Rightarrow> hf_value fset \<Rightarrow> hf_value fset" where
  "abs_combine k A B =
     (if k = NODE_SET_UNION then A |\<union>| B else if k = NODE_SET_INTER then A |\<inter>| B else A |-| B)"

lemma set_combine_refines:
  assumes "set_op_kind k" "wf_items xs" "wf_items ys"
  shows "wf_items (set_combine k xs ys)"
    and "abs_items (set_combine k xs ys) = abs_combine k (abs_items xs) (abs_items ys)"
  using assms(1) add_some_refines [OF _ wf_items_all [OF assms(2)], of "[]"]
    add_all_refines [OF _ wf_items_all [OF assms(3)]]
    add_all_refines [OF _ wf_items_all [OF assms(2)], of "[]"] assms(2,3)
  by (auto simp: set_op_kind_def set_combine_def Let_def abs_items_filter_in abs_combine_def)

definition abs_reduce ::
  "quant_kind \<Rightarrow> bool \<Rightarrow> hf_value fset \<Rightarrow> hf_value fset \<Rightarrow> hf_value fset" where
  "abs_reduce k first A B = (if k = NODE_SET_BIG_UNION \<or> first then A |\<union>| B else A |\<inter>| B)"

lemma set_reduce_refines:
  assumes "wf_items acc" "wf_items term"
  shows "wf_items (set_reduce k first acc term)"
    and "abs_items (set_reduce k first acc term) = abs_reduce k first (abs_items acc) (abs_items term)"
  using add_some_refines [OF _ wf_items_all [OF assms(1)], of "[]"]
    add_all_refines [OF assms(1) wf_items_all [OF assms(2)]]
  by (auto simp: set_reduce_def abs_reduce_def abs_items_filter_in assms)

lemma int_set_refines:
  "wf_items (int_set vs)" "abs_items (int_set vs) = fset_of_list (map AbsInt vs)"
  using add_all_refines [of "[]" "map EvalInt vs"]
  by (simp_all add: int_set_def abs_items_def list_all_iff comp_def)

text \<open>On integers that are pairwise different nothing is dropped or reordered.\<close>

lemma int_set_distinct: "distinct vs \<Longrightarrow> int_set vs = map EvalInt vs"
proof -
  have "distinct (us @ vs) \<Longrightarrow> foldl set_add (map EvalInt us) (map EvalInt vs) = map EvalInt (us @ vs)" for us
  proof (induction vs arbitrary: us)
    case (Cons v vs)
    have "set_add (map EvalInt us) (EvalInt v) = map EvalInt (us @ [v])"
      using Cons.prems by (auto simp: set_add_def list_ex_iff)
    then show ?case using Cons.IH [of "us @ [v]"] Cons.prems by simp
  qed simp
  from this [of "[]"] show "distinct vs \<Longrightarrow> int_set vs = map EvalInt vs" by (simp add: int_set_def)
qed

subsection \<open>Ranges\<close>

lemma range_domain_upto: "in_int64 lst \<Longrightarrow> range_domain v lst = [v..lst]"
proof (induction v lst rule: range_domain.induct)
  case (1 v lst)
  show ?case
  proof (cases "v \<le> lst")
    case True
    show ?thesis
    proof (cases "v = INT64_MAX")
      case True
      with \<open>v \<le> lst\<close> "1.prems" have "lst = v" by (simp add: in_int64_def)
      with True show ?thesis by (simp add: range_domain.simps [of INT64_MAX INT64_MAX])
    next
      case False
      then have "range_domain v lst = v # [v + 1..lst]"
        using \<open>v \<le> lst\<close> 1 by (simp add: range_domain.simps [of v])
      then show ?thesis using \<open>v \<le> lst\<close> by (simp add: upto.simps [of v])
    qed
  next
    case False
    then show ?thesis by (simp add: range_domain.simps [of v])
  qed
qed

text \<open>
  The arithmetic progression from \<open>v\<close> by \<open>step\<close> up to (or down to) \<open>lst\<close>.
\<close>

definition progression :: "int \<Rightarrow> int \<Rightarrow> int \<Rightarrow> int set" where
  "progression v step lst =
     {x. \<exists>j. x = v + int j * step \<and> (if step > 0 then x \<le> lst else x \<ge> lst)}"

lemma range_enum_progression:
  assumes "step \<noteq> 0" "in_int64 lst"
  shows "set (range_enum v step lst) = progression v step lst"
  using assms
proof (induction v step lst rule: range_enum.induct)
  case (1 v step lst)
  let ?in = "\<lambda>v. (step > 0 \<and> v \<le> lst) \<or> (step < 0 \<and> v \<ge> lst)"
  have in_prog: "x \<in> progression v step lst \<longleftrightarrow> (\<exists>j. x = v + int j * step) \<and> ?in x" for x v
    using "1.prems"(1) by (auto simp: progression_def)
  show ?case
  proof (cases "?in v")
    case False
    have "\<not> ?in (v + int j * step)" for j
      using False by (auto simp: not_le zero_less_mult_iff mult_nonneg_nonpos
          intro: add_strict_increasing2 dest: less_le_trans order_trans)
        (smt (verit) mult_nonneg_nonneg mult_nonneg_nonpos of_nat_0_le_iff)+
    then have "progression v step lst = {}" by (auto simp: in_prog)
    then show ?thesis using False by (auto simp: range_enum.simps [of v])
  next
    case True
    have split: "progression v step lst = insert v (progression (v + step) step lst)"
    proof -
      have "(\<exists>j. x = v + int j * step) \<longleftrightarrow> x = v \<or> (\<exists>j. x = v + step + int j * step)" for x
      proof
        assume "\<exists>j. x = v + int j * step"
        then obtain j where j: "x = v + int j * step" by blast
        show "x = v \<or> (\<exists>j. x = v + step + int j * step)"
        proof (cases j)
          case (Suc i)
          then have "x = v + step + int i * step" using j by (simp add: algebra_simps)
          then show ?thesis by blast
        qed (simp add: j)
      next
        assume "x = v \<or> (\<exists>j. x = v + step + int j * step)"
        then show "\<exists>j. x = v + int j * step"
        proof (elim disjE exE)
          fix j assume "x = v + step + int j * step"
          then have "x = v + int (Suc j) * step" by (simp add: algebra_simps)
          then show ?thesis by blast
        qed (auto intro: exI [of _ 0])
      qed
      then show ?thesis using True by (auto simp: in_prog)
    qed
    show ?thesis
    proof (cases "(step > 0 \<and> v > INT64_MAX - step) \<or> (step < 0 \<and> v < INT64_MIN - step)")
      case stop: True
      have "\<not> ?in (v + step + int j * step)" for j
        using stop "1.prems"(2)
        by (smt (verit) in_int64_def mult_nonneg_nonneg mult_nonneg_nonpos of_nat_0_le_iff)
      then have "progression (v + step) step lst = {}" by (auto simp: in_prog)
      with True stop split show ?thesis by (auto simp: range_enum.simps [of v])
    next
      case False
      from "1.IH" [OF True False "1.prems"] True False split show ?thesis
        by (auto simp: range_enum.simps [of v])
    qed
  qed
qed

end
