(* ===== verification/Expand_Correct.thy ===== *)
theory Expand_Correct
  imports Expand_Depth Expand_Sets Pre_Norm
begin

text \<open>
  What the expansion guarantees: the values it computes are well formed and an expanded formula is
  ground; and the meaning of the formulas its loops build.
\<close>

subsection \<open>Well-formed values and ground results\<close>

text \<open>\<open>ok_res P m\<close>: a result of \<open>m\<close>, if there is one, satisfies \<open>P\<close>.\<close>

definition ok_res :: "('a \<Rightarrow> bool) \<Rightarrow> 'e + 'a \<Rightarrow> bool" where
  "ok_res P m \<longleftrightarrow> (\<forall>r. m = Inr r \<longrightarrow> P r)"

lemma ok_res_simps [simp]: "ok_res P (Inl e)" "ok_res P (Inr x) \<longleftrightarrow> P x"
  by (simp_all add: ok_res_def)

lemma ok_res_bind:
  "(\<And>x. m = Inr x \<Longrightarrow> ok_res P (f x)) \<Longrightarrow> ok_res P (bind_res m f)"
  by (cases m) simp_all

lemma ok_res_bind_IH:
  "ok_res Q m \<Longrightarrow> (\<And>x. m = Inr x \<Longrightarrow> Q x \<Longrightarrow> ok_res P (f x)) \<Longrightarrow> ok_res P (bind_res m f)"
  by (cases m) simp_all

lemma ok_res_fold:
  assumes "P acc" "\<And>x b. x \<in> set xs \<Longrightarrow> P b \<Longrightarrow> ok_res P (f b x)"
  shows "ok_res P (fold_res f acc xs)"
  unfolding ok_res_def
proof (intro allI impI)
  fix r assume "fold_res f acc xs = Inr r"
  then show "P r"
    by (rule fold_res_inv [where P = P]) (use assms in \<open>auto simp: ok_res_def\<close>)
qed

lemma ok_resD: "ok_res P m \<Longrightarrow> m = Inr r \<Longrightarrow> P r"
  by (simp add: ok_res_def)

definition ground_acc :: "node option \<Rightarrow> bool" where
  "ground_acc acc = pred_option ground acc"

lemma ground_acc_None [simp]: "ground_acc None"
  by (simp add: ground_acc_def)

lemma ground_accumulate [simp]:
  "ground_acc acc \<Longrightarrow> ground n \<Longrightarrow> ground_acc (accumulate node_and acc n)"
  "ground_acc acc \<Longrightarrow> ground n \<Longrightarrow> ground_acc (accumulate node_or acc n)"
  by (cases acc; simp add: ground_acc_def accumulate_def)+

lemma ground_result [simp]:
  "ground_acc acc \<Longrightarrow> ground (case acc of Some a \<Rightarrow> a | None \<Rightarrow> NodeTrue)"
  "ground_acc acc \<Longrightarrow> ground (case acc of Some a \<Rightarrow> a | None \<Rightarrow> NodeFalse)"
  by (cases acc; simp add: ground_acc_def)+

lemma ground_next_n [simp]: "ground (next_n strong k n) = ground n"
  by (induction k) (auto simp: next_n_def)

lemma ground_match_bits:
  "ground_acc acc \<Longrightarrow> ground_acc (match_bits bus i acc bits)"
  by (induction bus i acc bits rule: match_bits.induct)
     (auto simp: ground_acc_def bus_elem_node_def Let_def split: option.splits)

lemma ground_match_valuation: "ground (match_valuation bus bits)"
  using ground_match_bits [of None bus 0 bits]
  by (auto simp: match_valuation_def ground_acc_def split: option.split)

lemma ground_match_label [simp]: "ground (match_label bus bits)"
proof -
  have "ground_acc acc \<Longrightarrow> ground_acc (foldl (\<lambda>acc v. Some (case acc of None \<Rightarrow> match_valuation bus v
      | Some a \<Rightarrow> node_or a (match_valuation bus v))) acc vs)" for acc vs
    by (induction vs arbitrary: acc)
       (auto simp: ground_acc_def ground_match_valuation split: option.split)
  from this [of None "label_valuations bits"] show ?thesis
    by (auto simp: match_label_def ground_acc_def split: option.split)
qed

lemma expand_results:
  fixes s :: tlsf_spec and n body c t e :: node and b :: "node qbinder" and env :: env
    and q :: quant_kind and v :: string and d :: nat
  shows "True" "True"
  "ok_res wf_value (eval_value s n env d)"
  "ok_res wf_items (eval_set s n env d)"
  "ok_res wf_items (eval_domain s b env d)"
  "True"
  "ok_res wf_items (eval_set_reduction s q v b body env d)"
  "True"
  "ok_res ground (expand_quantifier s q v b body env d)"
  "ok_res ground (expand_node s n env d)"
proof (induction s n env d and s n env d and s n env d and s n env d and s b env d
    and s q v b body env d and s q v b body env d and s c t e env d and s q v b body env d
    and s n env d
    rule: eval_int_eval_bool_eval_value_eval_set_eval_domain_eval_int_reduction_eval_set_reduction_select_ite_branch_expand_quantifier_expand_node.induct)
  case (3 s n env depth)
  show ?case
    by (cases n; use 3 in \<open>auto simp: eval_value_simps is_int_expr_def is_set_expr_def
          intro!: ok_res_bind elim!: ok_resD split: option.split\<close>)
next
  case (4 s n env depth)
  show ?case
  proof (cases n)
    case (SetLit k elems)
    show ?thesis
    proof (cases "k = NODE_SET")
      case True
      with SetLit 4 show ?thesis
        by (auto simp: eval_set_simps set_add_refines
            intro!: ok_res_fold ok_res_bind_IH [where Q = wf_value])
    next
      case False
      with SetLit show ?thesis
        by (auto simp: eval_set_simps int_set_refines intro!: ok_res_bind split: list.split)
    qed
  next
    case (HlBinary k l r)
    with 4 show ?thesis
      by (auto simp: eval_set_simps set_combine_refines intro!: ok_res_bind_IH [where Q = wf_items])
  qed (use 4 in \<open>auto simp: eval_set_simps intro!: ok_res_bind split: option.split\<close>)
next
  case (5 s b env depth)
  show ?case
    by (cases b; use 5 in \<open>auto simp: eval_domain.simps int_set_refines intro!: ok_res_bind\<close>)
next
  case (7 s k v b body env depth)
  have "ok_res (\<lambda>st. wf_items (fst st)) (fold_res (\<lambda>st val.
      bind_res (eval_set s (snd (bind_reduction_body v body env val))
                  (fst (bind_reduction_body v body env val)) (depth + 1)) (\<lambda>term.
        Inr (set_reduce k (snd st) (fst st) term, False))) ([], True) domain)"
    if "eval_domain s b env (depth + 1) = Inr domain" "\<not> (k = NODE_SET_BIG_INTER \<and> domain = [])"
    for domain
    using 7(2) [OF that] by (intro ok_res_fold ok_res_bind_IH [where Q = wf_items])
      (auto simp: set_reduce_refines)
  then show ?case
    by (auto simp: eval_set_reduction.simps intro!: ok_res_bind dest: ok_resD)
next
  case (9 s k v b body env depth)
  have "ok_res ground_acc (fold_res (\<lambda>acc val.
      bind_res (expand_node s (snd (bind_reduction_body v body env val))
                  (fst (bind_reduction_body v body env val)) (depth + 1)) (\<lambda>term.
        Inr (accumulate (if k = NODE_FORALL then node_and else node_or) acc term))) None domain)"
    if "eval_domain s b env (depth + 1) = Inr domain" for domain
    using 9(2) [OF that] by (intro ok_res_fold ok_res_bind_IH [where Q = ground])
      auto
  then show ?case
    by (auto simp: expand_quantifier.simps intro!: ok_res_bind dest: ok_resD)
next
  case (10 s n env depth)
  show ?case
  proof (cases n)
    case (BoundedOp k strong lo_expr hi_expr a)
    have acc: "ground_acc r"
      if "\<not> MAX_DEPTH < depth" "eval_int s lo_expr env depth = Inr lo"
        "eval_int s hi_expr env depth = Inr hi" "\<not> (lo < 0 \<or> hi < 0)"
        "fold_res (\<lambda>acc i. bind_res (expand_node s a env depth) (\<lambda>x.
          Inr (accumulate (if k = NODE_G_RANGE then node_and else node_or) acc
                 (next_n strong (nat i) x)))) None [lo..hi] = Inr r" for lo hi r
      by (rule ok_resD [OF _ that(5)], intro ok_res_fold ok_res_bind_IH [where Q = ground])
        (use 10 BoundedOp that in auto)
    show ?thesis
      unfolding BoundedOp using acc
      by (cases k) (auto simp: expand_node_simps intro!: ok_res_bind ground_result)
  next
    case (HlBinary k l r)
    then show ?thesis
      by (auto simp: expand_node_simps intro!: ok_res_bind split: option.split prod.split node.split)
  qed (use 10 in \<open>auto simp: expand_node_simps bus_elem_node_def
          intro!: ok_res_bind dest: ok_resD split: option.split\<close>)
qed simp_all

lemmas expand_node_ground = expand_results(10) [THEN ok_resD]
  and eval_set_wf = expand_results(4) [THEN ok_resD]
  and eval_value_wf = expand_results(3) [THEN ok_resD]

subsection \<open>Loops that conjoin or disjoin\<close>

definition conn_sem :: "bool \<Rightarrow> 'a set \<Rightarrow> ('a \<Rightarrow> bool) \<Rightarrow> bool" where
  "conn_sem all D P = (if all then \<forall>x\<in>D. P x else \<exists>x\<in>D. P x)"

definition acc_sat :: "enat \<Rightarrow> trace \<Rightarrow> bool \<Rightarrow> node option \<Rightarrow> nat \<Rightarrow> bool" where
  "acc_sat L w all acc = sat L w (case acc of Some a \<Rightarrow> a | None \<Rightarrow> if all then NodeTrue else NodeFalse)"

lemma acc_sat_accumulate:
  "acc_sat L w all (accumulate (if all then node_and else node_or) acc n) =
   (\<lambda>i. if all then acc_sat L w all acc i \<and> sat L w n i else acc_sat L w all acc i \<or> sat L w n i)"
  by (cases acc) (auto simp: acc_sat_def accumulate_def)

text \<open>A loop that conjoins (or disjoins) one term per element.\<close>

lemma fold_accumulate_sat:
  assumes "fold_res (\<lambda>acc x. bind_res (g x) (\<lambda>t.
      Inr (accumulate (if all then node_and else node_or) acc (h x t)))) acc xs = Inr r"
    and "\<And>x t. x \<in> set xs \<Longrightarrow> g x = Inr t \<Longrightarrow> sat L w (h x t) = Q x"
  shows "acc_sat L w all r i =
    (if all then acc_sat L w all acc i \<and> conn_sem all (set xs) (\<lambda>x. Q x i)
     else acc_sat L w all acc i \<or> conn_sem all (set xs) (\<lambda>x. Q x i))"
  using assms
proof (induction xs arbitrary: acc)
  case (Cons x xs)
  from Cons.prems(1) obtain t where t: "g x = Inr t"
    and r: "fold_res (\<lambda>acc x. bind_res (g x) (\<lambda>t.
      Inr (accumulate (if all then node_and else node_or) acc (h x t))))
      (accumulate (if all then node_and else node_or) acc (h x t)) xs = Inr r" by auto
  have Q: "sat L w (h x t) = Q x" using Cons.prems(2) [of x] t by simp
  have "acc_sat L w all r i =
    (if all then acc_sat L w all (accumulate (if all then node_and else node_or) acc (h x t)) i \<and>
        conn_sem all (set xs) (\<lambda>x. Q x i)
     else acc_sat L w all (accumulate (if all then node_and else node_or) acc (h x t)) i \<or>
        conn_sem all (set xs) (\<lambda>x. Q x i))"
    using Cons.prems(2) by (intro Cons.IH [OF r]) auto
  then show ?case unfolding acc_sat_accumulate by (auto simp: conn_sem_def Q)
qed (simp add: conn_sem_def)

lemma fold_accumulate_None:
  assumes "fold_res (\<lambda>acc x. bind_res (g x) (\<lambda>t.
      Inr (accumulate (if all then node_and else node_or) acc (h x t)))) None xs = Inr r"
    and "\<And>x t. x \<in> set xs \<Longrightarrow> g x = Inr t \<Longrightarrow> sat L w (h x t) = Q x"
  shows "sat L w (case r of Some a \<Rightarrow> a | None \<Rightarrow> if all then NodeTrue else NodeFalse) =
    (\<lambda>i. conn_sem all (set xs) (\<lambda>x. Q x i))"
  using fold_accumulate_sat [OF assms] by (simp add: acc_sat_def fun_eq_iff)

lemma sat_next_n: "sat L w (next_n strong k n) = (next_step L strong ^^ k) (sat L w n)"
  by (induction k) (auto simp: next_n_def next_step_def)

lemma range_domain_values:
  "eval_domain s (RangeBinder lo_expr ls hi_expr hs) env d = Inr domain \<Longrightarrow>
   \<exists>lo hi. eval_int s lo_expr env (d + 1) = Inr lo \<and> eval_int s hi_expr env (d + 1) = Inr hi \<and>
     domain = map EvalInt [lo + (if ls then 1 else 0)..hi + (if hs then - 1 else 0)]"
  by (auto simp: eval_domain.simps range_domain_upto int_set_distinct)

end
