(* ===== verification/Expand_Spec.thy ===== *)
theory Expand_Spec
  imports Expand_Correct
begin

text \<open>
  The driver of \<^verbatim>\<open>src/lib/expand.c\<close>: \<^verbatim>\<open>expand_impl\<close> resolves the parameters and the bus bounds,
  expands the six sections and turns every bus into scalar signals.  \<^verbatim>\<open>expand\<close> stages a copy and
  publishes it only on success, so a failure is an error value and no specification.  The
  provenance mode, which numbers the source nodes first, is not modelled.
\<close>

subsection \<open>Parameters\<close>

type_synonym param_override = "string \<times> 64 word"

text \<open>The first parameter of that name.\<close>

fun override_param :: "param_decl list \<Rightarrow> param_override \<Rightarrow> param_decl list option" where
  "override_param [] ov = None"
| "override_param (p # ps) ov =
     (if pd_name p = fst ov then Some (p\<lparr>pd_value := snd ov, has_default := True\<rparr> # ps)
      else map_option ((#) p) (override_param ps ov))"

definition apply_overrides :: "param_decl list \<Rightarrow> param_override list \<Rightarrow> param_decl list result" where
  "apply_overrides ps ovs =
     fold_res (\<lambda>ps ov. case override_param ps ov of
         Some ps' \<Rightarrow> Inr ps' | None \<Rightarrow> Inl (Unknown_Parameter (fst ov))) ps ovs"

definition check_params :: "param_decl list \<Rightarrow> unit result" where
  "check_params ps = (case find (\<lambda>p. \<not> has_default p) ps of
     Some p \<Rightarrow> Inl (Parameter_Without_Value (pd_name p)) | None \<Rightarrow> Inr ())"

text \<open>A later parameter is nearer in the scope chain.\<close>

definition build_param_env :: "param_decl list \<Rightarrow> env" where
  "build_param_env ps = foldl (\<lambda>env p. env(pd_name p \<mapsto> sint (pd_value p))) Map.empty ps"

subsection \<open>Bus bounds\<close>

definition UINT16_MAX :: int where "UINT16_MAX = 65535"

definition eval_bound :: "tlsf_spec \<Rightarrow> env \<Rightarrow> u16 \<Rightarrow> node option \<Rightarrow> int result" where
  "eval_bound s env bound e = (case e of None \<Rightarrow> Inr (uint bound) | Some n \<Rightarrow> eval_int s n env 0)"

definition resolve_bus :: "tlsf_spec \<Rightarrow> env \<Rightarrow> signal_decl \<Rightarrow> signal_decl result" where
  "resolve_bus s env d =
     (if \<not> is_bus d then Inr d
      else bind_res (eval_bound s env (bus_lo d) (bus_lo_expr d)) (\<lambda>lo.
        bind_res (eval_bound s env (bus_hi d) (bus_hi_expr d)) (\<lambda>hi.
          if lo > hi then Inl (Empty_Bus_Range (sd_name d) lo hi)
          else if lo < 0 \<or> hi > UINT16_MAX then Inl (Bus_Range_Too_Wide (sd_name d) lo hi)
          else Inr (d\<lparr>bus_lo := word_of_int lo, bus_hi := word_of_int hi,
                      origin_bus_lo := word_of_int lo, origin_bus_hi := word_of_int hi\<rparr>))))"

text \<open>
  The declarations are resolved in place, inputs first, so that a bound can ask for the width of
  a bus resolved before it.
\<close>

definition signals_of :: "bool \<Rightarrow> tlsf_spec \<Rightarrow> signal_decl list" where
  "signals_of is_output s = items (if is_output then outputs s else inputs s)"

definition set_signals :: "bool \<Rightarrow> signal_decl list \<Rightarrow> tlsf_spec \<Rightarrow> tlsf_spec" where
  "set_signals is_output ds s =
     (if is_output then s\<lparr>outputs := (outputs s)\<lparr>items := ds\<rparr>\<rparr>
      else s\<lparr>inputs := (inputs s)\<lparr>items := ds\<rparr>\<rparr>)"

definition resolve_signal :: "bool \<Rightarrow> env \<Rightarrow> tlsf_spec \<Rightarrow> nat \<Rightarrow> tlsf_spec result" where
  "resolve_signal is_output env s i =
     bind_res (resolve_bus s env (signals_of is_output s ! i)) (\<lambda>d.
       Inr (set_signals is_output ((signals_of is_output s)[i := d]) s))"

definition resolve_signals :: "bool \<Rightarrow> env \<Rightarrow> tlsf_spec \<Rightarrow> tlsf_spec result" where
  "resolve_signals is_output env s =
     fold_res (resolve_signal is_output env) s [0..<length (signals_of is_output s)]"

subsection \<open>Sections and signals\<close>

definition map_res :: "('a \<Rightarrow> 'e + 'b) \<Rightarrow> 'a list \<Rightarrow> 'e + 'b list" where
  "map_res f xs = fold_res (\<lambda>acc x. bind_res (f x) (\<lambda>y. Inr (acc @ [y]))) [] xs"

definition expand_list :: "tlsf_spec \<Rightarrow> env \<Rightarrow> node growable \<Rightarrow> node growable result" where
  "expand_list s env g =
     bind_res (map_res (\<lambda>n. expand_node s n env 0) (items g)) (\<lambda>ns. Inr (g\<lparr>items := ns\<rparr>))"

text \<open>
  One call of \<^verbatim>\<open>spec_add_signal\<close> of \<^verbatim>\<open>explode_signals\<close> and the fields it sets on the new entry.
  A signal that does not fit reports as the C code reports a failed allocation.
\<close>

definition add_exploded ::
  "bool \<Rightarrow> (signal_decl \<Rightarrow> signal_decl) \<Rightarrow> tlsf_spec \<Rightarrow> string \<Rightarrow> tlsf_spec result" where
  "add_exploded is_output upd s name =
     (case spec_add_signal s is_output name False None None of
        None \<Rightarrow> Inl Out_Of_Memory
      | Some s' \<Rightarrow>
          let ds = signals_of is_output s'
          in Inr (set_signals is_output (butlast ds @ [upd (last ds)]) s'))"

definition explode_signal :: "bool \<Rightarrow> tlsf_spec \<Rightarrow> signal_decl \<Rightarrow> tlsf_spec result" where
  "explode_signal is_output s d =
     (if \<not> is_bus d then add_exploded is_output (\<lambda>e. e\<lparr>origin_id := origin_id d\<rparr>) s (sd_name d)
      else fold_res (\<lambda>s v. add_exploded is_output (\<lambda>e. e\<lparr>
               origin_name := sd_name d, origin_id := origin_id d, origin_index := word_of_int v,
               origin_bus_lo := bus_lo d, origin_bus_hi := bus_hi d, origin_is_bus := True,
               origin_is_enum := origin_is_enum d, origin_width_expr := origin_width_expr d,
               bus_lo_expr := bus_lo_expr d, origin_is_encoded_bit := origin_is_encoded_bit d\<rparr>)
             s (bus_elem_name (sd_name d) v)) s [uint (bus_lo d)..uint (bus_hi d)])"

definition explode_signals :: "bool \<Rightarrow> tlsf_spec \<Rightarrow> tlsf_spec result" where
  "explode_signals is_output s =
     (let old = signals_of is_output s;
          s0 = (if is_output then s\<lparr>outputs := empty_growable\<rparr> else s\<lparr>inputs := empty_growable\<rparr>)
      in fold_res (explode_signal is_output) s0 old)"

definition expand_sections :: "tlsf_spec \<Rightarrow> env \<Rightarrow> tlsf_spec result" where
  "expand_sections s env =
     bind_res (expand_list s env (initially s)) (\<lambda>l1.
     bind_res (expand_list s env (require s)) (\<lambda>l2.
     bind_res (expand_list s env (assume_list s)) (\<lambda>l3.
     bind_res (expand_list s env (preset s)) (\<lambda>l4.
     bind_res (expand_list s env (assert_list s)) (\<lambda>l5.
     bind_res (expand_list s env (guarantee s)) (\<lambda>l6.
       Inr (s\<lparr>initially := l1, require := l2, assume_list := l3, preset := l4,
              assert_list := l5, guarantee := l6\<rparr>)))))))"

definition resolve_spec :: "tlsf_spec \<Rightarrow> param_override list \<Rightarrow> (env \<times> tlsf_spec) result" where
  "resolve_spec s ovs =
     bind_res (apply_overrides (items (spec_params s)) ovs) (\<lambda>ps.
     bind_res (check_params ps) (\<lambda>_.
       let env = build_param_env ps; s1 = s\<lparr>spec_params := (spec_params s)\<lparr>items := ps\<rparr>\<rparr>
       in bind_res (resolve_signals False env s1) (\<lambda>s2.
          bind_res (resolve_signals True env s2) (\<lambda>s3. Inr (env, s3)))))"

definition expand :: "tlsf_spec \<Rightarrow> param_override list \<Rightarrow> tlsf_spec result" where
  "expand s ovs =
     bind_res (resolve_spec s ovs) (\<lambda>r.
     bind_res (expand_sections (snd r) (fst r)) (\<lambda>s4.
     bind_res (explode_signals False s4) (\<lambda>s5.
     bind_res (explode_signals True s5) (\<lambda>s6.
       Inr (s6\<lparr>spec_params := (spec_params s6)\<lparr>items := []\<rparr>,
               spec_defs := (spec_defs s6)\<lparr>items := []\<rparr>\<rparr>)))))"

subsection \<open>What the driver leaves in place\<close>

text \<open>The specification without its signals.\<close>

definition core :: "tlsf_spec \<Rightarrow> tlsf_spec" where
  "core s = s\<lparr>inputs := empty_growable, outputs := empty_growable\<rparr>"

lemma core_fields:
  "core s = core s' \<Longrightarrow> sections s = sections s' \<and> spec_params s = spec_params s' \<and>
     spec_defs s = spec_defs s' \<and> enum_labels s = enum_labels s' \<and>
     spec_semantics s = spec_semantics s' \<and> spec_target s = spec_target s'"
  by (cases s; cases s') (simp add: core_def sections_def)

lemma core_set_signals [simp]: "core (set_signals is_output ds s) = core s"
  by (cases s) (simp add: core_def set_signals_def)

lemma signals_of_set_signals [simp]:
  "signals_of is_output (set_signals is_output ds s) = ds"
  "signals_of (\<not> is_output) (set_signals is_output ds s) = signals_of (\<not> is_output) s"
  by (cases is_output; simp add: signals_of_def set_signals_def)+

lemma resolve_signal_result:
  assumes "resolve_signal is_output env s i = Inr s'"
  shows "core s' = core s" and "signals_of (\<not> is_output) s' = signals_of (\<not> is_output) s"
    and "\<exists>d. resolve_bus s env (signals_of is_output s ! i) = Inr d \<and>
          signals_of is_output s' = (signals_of is_output s)[i := d]"
  using assms by (auto simp: resolve_signal_def)

definition bus_resolved :: "signal_decl \<Rightarrow> bool" where
  "bus_resolved d \<longleftrightarrow> (if is_bus d then bus_lo d \<le> bus_hi d else True)"

lemma resolve_bus_result:
  assumes "resolve_bus s env d = Inr d'"
  shows "bus_resolved d' \<and> sd_name d' = sd_name d \<and> is_bus d' = is_bus d"
proof (cases "is_bus d")
  case True
  have le: "(word_of_int lo :: u16) \<le> word_of_int hi" if "0 \<le> lo" "lo \<le> hi" "hi \<le> 65535" for lo hi :: int
    using that by (simp add: word_le_def uint_word_of_int)
  from True assms show ?thesis
    by (auto simp: resolve_bus_def UINT16_MAX_def bus_resolved_def not_less intro: le split: if_splits)
qed (use assms in \<open>auto simp: resolve_bus_def bus_resolved_def\<close>)

lemma resolve_prefix:
  assumes "fold_res (resolve_signal is_output env) s [0..<k] = Inr s'"
    and "k \<le> length (signals_of is_output s)"
  shows "core s' = core s \<and> signals_of (\<not> is_output) s' = signals_of (\<not> is_output) s \<and>
    map sd_name (signals_of is_output s') = map sd_name (signals_of is_output s) \<and>
    (\<forall>j<k. bus_resolved (signals_of is_output s' ! j))"
  using assms
proof (induction k arbitrary: s')
  case (Suc k)
  from Suc.prems(1) obtain s1 where 1: "fold_res (resolve_signal is_output env) s [0..<k] = Inr s1"
    and 2: "resolve_signal is_output env s1 k = Inr s'"
    by (auto simp: fold_res_append)
  have IH: "core s1 = core s" "signals_of (\<not> is_output) s1 = signals_of (\<not> is_output) s"
    "map sd_name (signals_of is_output s1) = map sd_name (signals_of is_output s)"
    "\<And>j. j < k \<Longrightarrow> bus_resolved (signals_of is_output s1 ! j)"
    using Suc.IH [OF 1] Suc.prems(2) by auto
  from resolve_signal_result(3) [OF 2] obtain d where
    d: "resolve_bus s1 env (signals_of is_output s1 ! k) = Inr d"
    and s': "signals_of is_output s' = (signals_of is_output s1)[k := d]" by blast
  have len: "k < length (signals_of is_output s1)"
    using Suc.prems(2) arg_cong [OF IH(3), of length] by simp
  have "map sd_name (signals_of is_output s') = map sd_name (signals_of is_output s1)"
    using resolve_bus_result [OF d] len by (simp add: s' map_update list_update_same_conv)
  moreover have "bus_resolved (signals_of is_output s' ! j)" if "j < Suc k" for j
    using that IH(4) [of j] resolve_bus_result [OF d] len
    by (cases "j = k") (auto simp: s' nth_list_update)
  ultimately show ?case
    using resolve_signal_result(1,2) [OF 2] IH(1-3) by simp
qed simp

lemma resolve_signals_result:
  assumes "resolve_signals is_output env s = Inr s'"
  shows "core s' = core s" and "signals_of (\<not> is_output) s' = signals_of (\<not> is_output) s"
    and "map sd_name (signals_of is_output s') = map sd_name (signals_of is_output s)"
    and "list_all bus_resolved (signals_of is_output s')"
proof -
  note r = resolve_prefix [OF assms [unfolded resolve_signals_def] order_refl]
  then have "length (signals_of is_output s') = length (signals_of is_output s)"
    by (metis length_map)
  with r show "core s' = core s" "signals_of (\<not> is_output) s' = signals_of (\<not> is_output) s"
    "map sd_name (signals_of is_output s') = map sd_name (signals_of is_output s)"
    "list_all bus_resolved (signals_of is_output s')"
    by (auto simp: list_all_length)
qed

subsection \<open>Scalar signals\<close>

definition exploded_names :: "signal_decl \<Rightarrow> string list" where
  "exploded_names d =
     (if is_bus d then map (bus_elem_name (sd_name d)) [uint (bus_lo d)..uint (bus_hi d)]
      else [sd_name d])"

text \<open>\<open>s'\<close> is \<open>s\<close> with scalar signals of the given names appended on one side.\<close>

definition grows :: "bool \<Rightarrow> tlsf_spec \<Rightarrow> string list \<Rightarrow> tlsf_spec \<Rightarrow> bool" where
  "grows is_output s nms s' \<longleftrightarrow>
     core s' = core s \<and> signals_of (\<not> is_output) s' = signals_of (\<not> is_output) s \<and>
     (\<exists>ds. signals_of is_output s' = signals_of is_output s @ ds \<and> map sd_name ds = nms \<and>
           list_all (\<lambda>d. \<not> is_bus d) ds)"

lemma grows_refl [simp]: "grows is_output s [] s"
  by (simp add: grows_def)

lemma grows_trans:
  assumes "grows is_output s ns s1" "grows is_output s1 ns' s2"
  shows "grows is_output s (ns @ ns') s2"
proof -
  from assms obtain ds ds' where "signals_of is_output s1 = signals_of is_output s @ ds"
    "signals_of is_output s2 = signals_of is_output s1 @ ds'" "map sd_name ds = ns" "map sd_name ds' = ns'"
    "list_all (\<lambda>d. \<not> is_bus d) ds" "list_all (\<lambda>d. \<not> is_bus d) ds'"
    by (auto simp: grows_def)
  with assms show ?thesis
    by (auto simp: grows_def intro!: exI [of _ "ds @ ds'"])
qed

lemma add_exploded_grows:
  assumes "add_exploded is_output upd s name = Inr s'"
    and "\<And>d. sd_name (upd d) = sd_name d \<and> is_bus (upd d) = is_bus d"
  shows "grows is_output s [name] s'"
proof -
  from assms(1) obtain s1 where 1: "spec_add_signal s is_output name False None None = Some s1"
    and s': "s' = set_signals is_output
      (butlast (signals_of is_output s1) @ [upd (last (signals_of is_output s1))]) s1"
    by (auto simp: add_exploded_def Let_def split: option.splits)
  from 1 obtain d where "core s1 = core s" "signals_of (\<not> is_output) s1 = signals_of (\<not> is_output) s"
    "signals_of is_output s1 = signals_of is_output s @ [d]" "sd_name d = name" "\<not> is_bus d"
    by (cases is_output)
       (auto simp: spec_add_signal_def grow_push_def Let_def core_def signals_of_def split: if_splits)
  then show ?thesis
    by (auto simp: s' grows_def assms(2))
qed

lemma fold_grows:
  assumes "fold_res f s xs = Inr s'"
    and "\<And>s x s'. x \<in> set xs \<Longrightarrow> f s x = Inr s' \<Longrightarrow> grows is_output s (nm x) s'"
  shows "grows is_output s (concat (map nm xs)) s'"
  using assms
proof (induction xs arbitrary: s)
  case (Cons x xs)
  from Cons.prems(1) obtain s1 where 1: "f s x = Inr s1" "fold_res f s1 xs = Inr s'" by auto
  have "grows is_output s (nm x) s1" using Cons.prems(2) 1(1) by simp
  moreover have "grows is_output s1 (concat (map nm xs)) s'"
    using Cons.prems(2) by (intro Cons.IH [OF 1(2)]) simp
  ultimately show ?case using grows_trans by fastforce
qed simp

lemma explode_signal_grows:
  assumes "explode_signal is_output s d = Inr s'"
  shows "grows is_output s (exploded_names d) s'"
proof (cases "is_bus d")
  case True
  have "grows is_output s
      (concat (map (\<lambda>v. [bus_elem_name (sd_name d) v]) [uint (bus_lo d)..uint (bus_hi d)])) s'"
    by (rule fold_grows) (use assms True in \<open>auto simp: explode_signal_def intro: add_exploded_grows\<close>)
  then show ?thesis by (simp add: exploded_names_def True)
next
  case False
  with assms show ?thesis
    by (auto simp: explode_signal_def exploded_names_def intro: add_exploded_grows)
qed

lemma explode_signals_result:
  assumes "explode_signals is_output s = Inr s'"
  shows "core s' = core s" and "signals_of (\<not> is_output) s' = signals_of (\<not> is_output) s"
    and "map sd_name (signals_of is_output s') =
         concat (map exploded_names (signals_of is_output s))"
    and "list_all (\<lambda>d. \<not> is_bus d) (signals_of is_output s')"
proof -
  let ?s0 = "if is_output then s\<lparr>outputs := empty_growable\<rparr> else s\<lparr>inputs := empty_growable\<rparr>"
  have "grows is_output ?s0 (concat (map exploded_names (signals_of is_output s))) s'"
    by (rule fold_grows [where f = "explode_signal is_output"])
      (use assms in \<open>auto simp: explode_signals_def Let_def intro: explode_signal_grows\<close>)
  moreover have "core ?s0 = core s" "signals_of (\<not> is_output) ?s0 = signals_of (\<not> is_output) s"
    "signals_of is_output ?s0 = []"
    by (auto simp: core_def signals_of_def empty_growable_def)
  ultimately show "core s' = core s" "signals_of (\<not> is_output) s' = signals_of (\<not> is_output) s"
    "map sd_name (signals_of is_output s') = concat (map exploded_names (signals_of is_output s))"
    "list_all (\<lambda>d. \<not> is_bus d) (signals_of is_output s')"
    by (auto simp: grows_def)
qed

subsection \<open>The expanded specification\<close>

lemma map_res_list_all2:
  assumes "map_res f xs = Inr ys"
  shows "list_all2 (\<lambda>x y. f x = Inr y) xs ys"
proof -
  have "fold_res (\<lambda>acc x. bind_res (f x) (\<lambda>y. Inr (acc @ [y]))) us xs = Inr ys \<Longrightarrow>
      \<exists>vs. ys = us @ vs \<and> list_all2 (\<lambda>x y. f x = Inr y) xs vs" for us
  proof (induction xs arbitrary: us)
    case (Cons x xs)
    then obtain y where y: "f x = Inr y"
      "fold_res (\<lambda>acc x. bind_res (f x) (\<lambda>y. Inr (acc @ [y]))) (us @ [y]) xs = Inr ys" by auto
    from Cons.IH [OF y(2)] y(1) show ?case by auto
  qed simp
  from this [of "[]"] assms show ?thesis by (simp add: map_res_def)
qed

lemma expand_list_result:
  "expand_list s env g = Inr g' \<Longrightarrow> list_all2 (\<lambda>n m. expand_node s n env 0 = Inr m) (items g) (items g')"
  by (auto simp: expand_list_def dest: map_res_list_all2)

lemma expand_sections_result:
  assumes "expand_sections s env = Inr s'"
  shows "list_all2 (list_all2 (\<lambda>n m. expand_node s n env 0 = Inr m)) (sections s) (sections s')"
    and "inputs s' = inputs s" "outputs s' = outputs s"
  using assms by (auto simp: expand_sections_def sections_def dest!: expand_list_result)

lemma resolve_spec_result:
  assumes "resolve_spec s ovs = Inr (env, s')"
  shows "sections s' = sections s" and "spec_defs s' = spec_defs s"
    and "map sd_name (items (inputs s')) = map sd_name (items (inputs s))"
    and "map sd_name (items (outputs s')) = map sd_name (items (outputs s))"
    and "list_all bus_resolved (items (inputs s') @ items (outputs s'))"
proof -
  from assms obtain ps s2 where
    1: "resolve_signals False env (s\<lparr>spec_params := (spec_params s)\<lparr>items := ps\<rparr>\<rparr>) = Inr s2"
    and 2: "resolve_signals True env s2 = Inr s'"
    by (auto simp: resolve_spec_def Let_def)
  let ?s1 = "s\<lparr>spec_params := (spec_params s)\<lparr>items := ps\<rparr>\<rparr>"
  note r1 = resolve_signals_result [OF 1] and r2 = resolve_signals_result [OF 2]
  have "core s' = core ?s1" using r1(1) r2(1) by simp
  from core_fields [OF this] show "sections s' = sections s" "spec_defs s' = spec_defs s"
    by (simp_all add: sections_def)
  from r1(2-4) r2(2-4)
  show "map sd_name (items (inputs s')) = map sd_name (items (inputs s))"
    "map sd_name (items (outputs s')) = map sd_name (items (outputs s))"
    "list_all bus_resolved (items (inputs s') @ items (outputs s'))"
    by (simp_all add: signals_of_def)
qed

lemma expand_result:
  assumes "expand s ovs = Inr s'"
  obtains env s3 where "resolve_spec s ovs = Inr (env, s3)"
    and "list_all2 (list_all2 (\<lambda>n m. expand_node s3 n env 0 = Inr m)) (sections s) (sections s')"
    and "map sd_name (items (inputs s')) = concat (map exploded_names (items (inputs s3)))"
    and "map sd_name (items (outputs s')) = concat (map exploded_names (items (outputs s3)))"
    and "list_all (\<lambda>d. \<not> is_bus d) (items (inputs s') @ items (outputs s'))"
    and "items (spec_defs s') = []" and "items (spec_params s') = []"
proof -
  from assms obtain env s3 s4 s5 s6 where
    3: "resolve_spec s ovs = Inr (env, s3)" and 4: "expand_sections s3 env = Inr s4"
    and 5: "explode_signals False s4 = Inr s5" and 6: "explode_signals True s5 = Inr s6"
    and s': "s' = s6\<lparr>spec_params := (spec_params s6)\<lparr>items := []\<rparr>,
               spec_defs := (spec_defs s6)\<lparr>items := []\<rparr>\<rparr>"
    by (auto simp: expand_def)
  note e4 = expand_sections_result [OF 4]
  note e5 = explode_signals_result [OF 5] and e6 = explode_signals_result [OF 6]
  have "sections s6 = sections s4"
    using core_fields [of s6 s4] e5(1) e6(1) by simp
  moreover have "sections s' = sections s6" by (simp add: s' sections_def)
  ultimately have "list_all2 (list_all2 (\<lambda>n m. expand_node s3 n env 0 = Inr m)) (sections s) (sections s')"
    using e4(1) resolve_spec_result(1) [OF 3] by simp
  moreover have "map sd_name (items (inputs s')) = concat (map exploded_names (items (inputs s3)))"
    "map sd_name (items (outputs s')) = concat (map exploded_names (items (outputs s3)))"
    "list_all (\<lambda>d. \<not> is_bus d) (items (inputs s') @ items (outputs s'))"
    using e4(2,3) e5(2-4) e6(2-4) by (simp_all add: signals_of_def s')
  ultimately show ?thesis using that 3 by (simp add: s')
qed

lemma list_all2_list_all:
  "list_all2 P xs ys \<Longrightarrow> (\<And>x y. P x y \<Longrightarrow> Q y) \<Longrightarrow> list_all Q ys"
  by (induction rule: list_all2_induct) auto

text \<open>
  C7. The expansion of a specification lies in the basic fragment: every formula of the six
  sections is ground, every signal is scalar, the names of the signals are those of the resolved
  buses' elements in order, and the parameters and definitions are gone.
\<close>

theorem expand_basic_fragment:
  assumes "expand s ovs = Inr s'"
  shows "spec_ground s' \<and> list_all (\<lambda>d. \<not> is_bus d) (items (inputs s') @ items (outputs s')) \<and>
    items (spec_params s') = [] \<and> items (spec_defs s') = [] \<and>
    (\<exists>env s3. resolve_spec s ovs = Inr (env, s3) \<and>
       map sd_name (items (inputs s')) = concat (map exploded_names (items (inputs s3))) \<and>
       map sd_name (items (outputs s')) = concat (map exploded_names (items (outputs s3))) \<and>
       list_all bus_resolved (items (inputs s3) @ items (outputs s3)))"
proof -
  obtain env s3 where r: "resolve_spec s ovs = Inr (env, s3)"
    and sec: "list_all2 (list_all2 (\<lambda>n m. expand_node s3 n env 0 = Inr m)) (sections s) (sections s')"
    and rest: "map sd_name (items (inputs s')) = concat (map exploded_names (items (inputs s3)))"
      "map sd_name (items (outputs s')) = concat (map exploded_names (items (outputs s3)))"
      "list_all (\<lambda>d. \<not> is_bus d) (items (inputs s') @ items (outputs s'))"
      "items (spec_defs s') = []" "items (spec_params s') = []"
    using expand_result [OF assms] by metis
  have "spec_ground s'"
    unfolding spec_ground_def
    by (rule list_all2_list_all [OF sec]) (blast intro: list_all2_list_all dest: expand_node_ground)
  with r rest resolve_spec_result(5) [OF r] show ?thesis by blast
qed

definition demo_spec :: tlsf_spec where
  "demo_spec = spec_new
     \<lparr>spec_params := \<lparr>items = [\<lparr>pd_name = ''n'', pd_value = 2, default_val = 2, has_default = True\<rparr>],
        capacity = 8\<rparr>,
      inputs := \<lparr>items = [\<lparr>sd_name = ''r'', bus_lo = 0, bus_hi = 0, is_bus = True, origin_name = ''r'',
         origin_id = 1, origin_index = 0, origin_bus_lo = 0, origin_bus_hi = 0, origin_is_bus = True,
         origin_is_enum = False, origin_width_expr = None, origin_is_encoded_bit = False,
         bus_lo_expr = Some (NodeInt 0),
         bus_hi_expr = Some (HlBinary NODE_INT_SUB (NodeAp ''n'') (NodeInt 1))\<rparr>], capacity = 8\<rparr>,
      guarantee := \<lparr>items = [Quant NODE_FORALL ''i''
         (RangeBinder (NodeInt 0) False (NodeAp ''n'') True)
         (node_g (node_f (BusIndex ''r'' (IntVar ''i''))))], capacity = 8\<rparr>\<rparr>"

lemma demo_expand:
  "\<exists>s'. expand demo_spec [(''n'', 3)] = Inr s' \<and>
     map sd_name (items (inputs s')) = [''r_0'', ''r_1'', ''r_2''] \<and>
     items (guarantee s') = [node_and (node_and (node_g (node_f (NodeAp ''r_0''))) (node_g (node_f (NodeAp ''r_1''))))
       (node_g (node_f (NodeAp ''r_2'')))]"
proof -
  have "case expand demo_spec [(''n'', 3)] of Inr s' \<Rightarrow>
      map sd_name (items (inputs s')) = [''r_0'', ''r_1'', ''r_2''] \<and>
      items (guarantee s') = [node_and (node_and (node_g (node_f (NodeAp ''r_0''))) (node_g (node_f (NodeAp ''r_1''))))
        (node_g (node_f (NodeAp ''r_2'')))]
    | Inl _ \<Rightarrow> False"
    by code_simp
  then show ?thesis by (auto split: sum.splits)
qed

theorem expand_basic_fragment_witness:
  "\<exists>s'. expand demo_spec [(''n'', 3)] = Inr s' \<and> spec_ground s'"
  using demo_expand expand_basic_fragment [of demo_spec "[(''n'', 3)]"] by blast

end
