(* ===== verification/Expand_Meaning.thy ===== *)
theory Expand_Meaning
  imports Expand_Correct
begin

text \<open>
  What a full-format formula means, by rules that do not mention the expander: integers and truth
  values of guards are computed, a conditional means the branch its guard selects, a quantifier all
  or some of its instances, a bus element the signal of its index, a label the bits of its
  valuations, and a call the body of its definition with the arguments written in.  Sets are read
  by \<open>eval_set\<close>, whose operations have their own specification, and a pattern is compared with
  the expanded subject, because it speaks of its form.

  The rules have two side conditions as parameters: \<open>call_ok env bs body\<close> for writing arguments
  into a body that is read in the scope \<open>env\<close>, and \<open>subst_ok bs body\<close> for other replacements.
\<close>

subsection \<open>Names\<close>

fun names_of :: "node \<Rightarrow> string set" where
  "names_of (NodeAp x) = {x}"
| "names_of (IntVar x) = {x}"
| "names_of (SizeOf x) = {x}"
| "names_of (BusIndex b i) = insert b (names_of i)"
| "names_of (Call k f args) = insert f (\<Union>a\<in>set args. names_of a)"
| "names_of (Ite c t e) = names_of c \<union> names_of t \<union> names_of e"
| "names_of (Quant k v (RangeBinder lo ls hi hs) body) = names_of lo \<union> names_of hi \<union> names_of body"
| "names_of (Quant k v (SetBinder dm) body) = names_of dm \<union> names_of body"
| "names_of (BoundedOp k strong lo hi body) = names_of lo \<union> names_of hi \<union> names_of body"
| "names_of (SetLit k elems) = (\<Union>a\<in>set elems. names_of a)"
| "names_of (Unary k a) = names_of a"
| "names_of (HlUnary k a) = names_of a"
| "names_of (NextN strong c a) = names_of c \<union> names_of a"
| "names_of (Binary k l r) = names_of l \<union> names_of r"
| "names_of (HlBinary k l r) = names_of l \<union> names_of r"
| "names_of _ = {}"

text \<open>The names a formula binds: quantified variables, and the names of its patterns.\<close>

fun binders_of :: "node \<Rightarrow> string set" where
  "binders_of (BusIndex b i) = binders_of i"
| "binders_of (Call k f args) = (\<Union>a\<in>set args. binders_of a)"
| "binders_of (Ite c t e) = binders_of c \<union> binders_of t \<union> binders_of e"
| "binders_of (Quant k v (RangeBinder lo ls hi hs) body) =
     insert v (binders_of lo \<union> binders_of hi \<union> binders_of body)"
| "binders_of (Quant k v (SetBinder dm) body) = insert v (binders_of dm \<union> binders_of body)"
| "binders_of (BoundedOp k strong lo hi body) = binders_of lo \<union> binders_of hi \<union> binders_of body"
| "binders_of (SetLit k elems) = (\<Union>a\<in>set elems. binders_of a)"
| "binders_of (Unary k a) = binders_of a"
| "binders_of (HlUnary k a) = binders_of a"
| "binders_of (NextN strong c a) = binders_of c \<union> binders_of a"
| "binders_of (Binary k l r) = binders_of l \<union> binders_of r"
| "binders_of (HlBinary k l r) = (if k = NODE_MATCH then names_of r else {}) \<union> binders_of l \<union> binders_of r"
| "binders_of _ = {}"

text \<open>
  \<open>unmixed bs body\<close>: nothing that is written into \<open>body\<close> is captured there, and nothing bound there is
  overwritten.  \<open>unmixed_call\<close> asks besides that the free names of the body mean in the scope \<open>env\<close> of
  the call what they mean in the scope \<open>global\<close> of the parameters.
\<close>

definition unmixed :: "bindings \<Rightarrow> node \<Rightarrow> bool" where
  "unmixed bs body \<longleftrightarrow> (\<forall>(x, m)\<in>set bs. x \<notin> binders_of body \<and> names_of m \<inter> binders_of body = {})"

definition unmixed_call :: "env \<Rightarrow> env \<Rightarrow> bindings \<Rightarrow> node \<Rightarrow> bool" where
  "unmixed_call global env bs body \<longleftrightarrow> unmixed bs body \<and>
     (\<forall>x\<in>names_of body - binders_of body - fst ` set bs. env x = global x)"

subsection \<open>Elements of a domain\<close>

definition scope_with :: "string \<Rightarrow> env \<Rightarrow> eval_value \<Rightarrow> env" where
  "scope_with v env x = (case x of EvalInt i \<Rightarrow> env(v \<mapsto> i) | _ \<Rightarrow> env)"

definition element_source :: "string \<Rightarrow> eval_value \<Rightarrow> bindings" where
  "element_source v x = (case x of EvalInt i \<Rightarrow> [] | EvalNode m \<Rightarrow> [(v, m)] | EvalSet m _ \<Rightarrow> [(v, m)])"

definition body_with :: "string \<Rightarrow> node \<Rightarrow> eval_value \<Rightarrow> node" where
  "body_with v body x = (case element_source v x of [] \<Rightarrow> body | bs \<Rightarrow> subst_node bs body)"

lemma bind_reduction_body_eq: "bind_reduction_body v body env x = (scope_with v env x, body_with v body x)"
  by (cases x) (simp_all add: bind_reduction_body_def scope_with_def body_with_def element_source_def)

subsection \<open>Integers, guards and branches\<close>

definition named :: "node \<Rightarrow> string option" where
  "named n = (case n of NodeAp x \<Rightarrow> Some x | IntVar x \<Rightarrow> Some x | _ \<Rightarrow> None)"

definition deferred :: "node \<Rightarrow> bool" where
  "deferred n \<longleftrightarrow> (case n of NodeAp _ \<Rightarrow> True | IntVar _ \<Rightarrow> True | Ite _ _ _ \<Rightarrow> True
     | Call k _ _ \<Rightarrow> k = NODE_DEF_CALL | _ \<Rightarrow> False)"

inductive int_denotes :: "tlsf_spec \<Rightarrow> (env \<Rightarrow> bindings \<Rightarrow> node \<Rightarrow> bool) \<Rightarrow> (bindings \<Rightarrow> node \<Rightarrow> bool) \<Rightarrow>
      env \<Rightarrow> node \<Rightarrow> int \<Rightarrow> bool"
  and truth :: "tlsf_spec \<Rightarrow> (env \<Rightarrow> bindings \<Rightarrow> node \<Rightarrow> bool) \<Rightarrow> (bindings \<Rightarrow> node \<Rightarrow> bool) \<Rightarrow>
      env \<Rightarrow> node \<Rightarrow> bool \<Rightarrow> bool"
  and val_denotes :: "tlsf_spec \<Rightarrow> (env \<Rightarrow> bindings \<Rightarrow> node \<Rightarrow> bool) \<Rightarrow> (bindings \<Rightarrow> node \<Rightarrow> bool) \<Rightarrow>
      env \<Rightarrow> node \<Rightarrow> hf_value \<Rightarrow> bool"
  and picks :: "tlsf_spec \<Rightarrow> (env \<Rightarrow> bindings \<Rightarrow> node \<Rightarrow> bool) \<Rightarrow> (bindings \<Rightarrow> node \<Rightarrow> bool) \<Rightarrow>
      env \<Rightarrow> node \<Rightarrow> node \<Rightarrow> node \<Rightarrow> node \<Rightarrow> bool"
  and ranges :: "tlsf_spec \<Rightarrow> (env \<Rightarrow> bindings \<Rightarrow> node \<Rightarrow> bool) \<Rightarrow> (bindings \<Rightarrow> node \<Rightarrow> bool) \<Rightarrow>
      env \<Rightarrow> node qbinder \<Rightarrow> eval_value list \<Rightarrow> bool"
  for s :: tlsf_spec and call_ok :: "env \<Rightarrow> bindings \<Rightarrow> node \<Rightarrow> bool" and subst_ok :: "bindings \<Rightarrow> node \<Rightarrow> bool"
where
  Int_Literal: "int_denotes s call_ok subst_ok env (NodeInt v) v"
| Int_Bound: "named n = Some x \<Longrightarrow> env x = Some v \<Longrightarrow> int_denotes s call_ok subst_ok env n v"
| Int_Defined: "named n = Some x \<Longrightarrow> env x = None \<Longrightarrow> find_def s x 0 = Some d \<Longrightarrow> call_ok env [] (dd_body d) \<Longrightarrow>
    int_denotes s call_ok subst_ok env (dd_body d) v \<Longrightarrow> int_denotes s call_ok subst_ok env n v"
| Int_Sizeof: "bus_width s x = Some v \<Longrightarrow> int_denotes s call_ok subst_ok env (SizeOf x) v"
| Int_Neg: "int_denotes s call_ok subst_ok env a v \<Longrightarrow> int_denotes s call_ok subst_ok env (HlUnary NODE_INT_NEG a) (- v)"
| Int_Size: "eval_set s a env 0 = Inr xs \<Longrightarrow>
    int_denotes s call_ok subst_ok env (HlUnary NODE_SET_SIZE a) (int (fcard (abs_items xs)))"
| Int_Min: "eval_set s a env 0 = Inr xs \<Longrightarrow> abs_value ` set xs = AbsInt ` A \<Longrightarrow> A \<noteq> {} \<Longrightarrow>
    int_denotes s call_ok subst_ok env (HlUnary NODE_SET_MIN a) (Min A)"
| Int_Max: "eval_set s a env 0 = Inr xs \<Longrightarrow> abs_value ` set xs = AbsInt ` A \<Longrightarrow> A \<noteq> {} \<Longrightarrow>
    int_denotes s call_ok subst_ok env (HlUnary NODE_SET_MAX a) (Max A)"
| Int_Add: "int_denotes s call_ok subst_ok env l a \<Longrightarrow> int_denotes s call_ok subst_ok env r b \<Longrightarrow>
    int_denotes s call_ok subst_ok env (HlBinary NODE_INT_ADD l r) (a + b)"
| Int_Sub: "int_denotes s call_ok subst_ok env l a \<Longrightarrow> int_denotes s call_ok subst_ok env r b \<Longrightarrow>
    int_denotes s call_ok subst_ok env (HlBinary NODE_INT_SUB l r) (a - b)"
| Int_Mul: "int_denotes s call_ok subst_ok env l a \<Longrightarrow> int_denotes s call_ok subst_ok env r b \<Longrightarrow>
    int_denotes s call_ok subst_ok env (HlBinary NODE_INT_MUL l r) (a * b)"
| Int_Div: "int_denotes s call_ok subst_ok env l a \<Longrightarrow> int_denotes s call_ok subst_ok env r b \<Longrightarrow> b \<noteq> 0 \<Longrightarrow>
    int_denotes s call_ok subst_ok env (HlBinary NODE_INT_DIV l r) (a sdiv b)"
| Int_Mod: "int_denotes s call_ok subst_ok env l a \<Longrightarrow> int_denotes s call_ok subst_ok env r b \<Longrightarrow> b \<noteq> 0 \<Longrightarrow>
    int_denotes s call_ok subst_ok env (HlBinary NODE_INT_MOD l r) (a smod b)"
| Int_Call: "find_def s f (length args) = Some d \<Longrightarrow> call_ok env (zip (dd_params d) args) (dd_body d) \<Longrightarrow>
    int_denotes s call_ok subst_ok env (instantiate d args) v \<Longrightarrow>
    int_denotes s call_ok subst_ok env (Call NODE_DEF_CALL f args) v"
| Int_Ite: "picks s call_ok subst_ok env c t e b \<Longrightarrow> int_denotes s call_ok subst_ok env b v \<Longrightarrow>
    int_denotes s call_ok subst_ok env (Ite c t e) v"
| Int_Sum: "ranges s call_ok subst_ok env dm xs \<Longrightarrow> \<forall>x\<in>set xs. subst_ok (element_source v x) body \<Longrightarrow>
    list_all2 (\<lambda>x i. int_denotes s call_ok subst_ok (scope_with v env x) (body_with v body x) i) xs vs \<Longrightarrow>
    int_denotes s call_ok subst_ok env (Quant NODE_SUM v dm body) (sum_list vs)"
| Int_Product: "ranges s call_ok subst_ok env dm xs \<Longrightarrow> \<forall>x\<in>set xs. subst_ok (element_source v x) body \<Longrightarrow>
    list_all2 (\<lambda>x i. int_denotes s call_ok subst_ok (scope_with v env x) (body_with v body x) i) xs vs \<Longrightarrow>
    int_denotes s call_ok subst_ok env (Quant NODE_PRODUCT v dm body) (prod_list vs)"
| Truth_True: "truth s call_ok subst_ok env NodeTrue True"
| Truth_False: "truth s call_ok subst_ok env NodeFalse False"
| Truth_Eq: "val_denotes s call_ok subst_ok env l a \<Longrightarrow> val_denotes s call_ok subst_ok env r b \<Longrightarrow>
    truth s call_ok subst_ok env (HlBinary NODE_CMP_EQ l r) (a = b)"
| Truth_Ne: "val_denotes s call_ok subst_ok env l a \<Longrightarrow> val_denotes s call_ok subst_ok env r b \<Longrightarrow>
    truth s call_ok subst_ok env (HlBinary NODE_CMP_NE l r) (a \<noteq> b)"
| Truth_Lt: "int_denotes s call_ok subst_ok env l a \<Longrightarrow> int_denotes s call_ok subst_ok env r b \<Longrightarrow>
    truth s call_ok subst_ok env (HlBinary NODE_CMP_LT l r) (a < b)"
| Truth_Le: "int_denotes s call_ok subst_ok env l a \<Longrightarrow> int_denotes s call_ok subst_ok env r b \<Longrightarrow>
    truth s call_ok subst_ok env (HlBinary NODE_CMP_LE l r) (a \<le> b)"
| Truth_Gt: "int_denotes s call_ok subst_ok env l a \<Longrightarrow> int_denotes s call_ok subst_ok env r b \<Longrightarrow>
    truth s call_ok subst_ok env (HlBinary NODE_CMP_GT l r) (b < a)"
| Truth_Ge: "int_denotes s call_ok subst_ok env l a \<Longrightarrow> int_denotes s call_ok subst_ok env r b \<Longrightarrow>
    truth s call_ok subst_ok env (HlBinary NODE_CMP_GE l r) (b \<le> a)"
| Truth_In: "val_denotes s call_ok subst_ok env l a \<Longrightarrow> eval_set s r env 0 = Inr xs \<Longrightarrow>
    truth s call_ok subst_ok env (HlBinary NODE_IN l r) (a |\<in>| abs_items xs)"
| Truth_Not: "truth s call_ok subst_ok env a x \<Longrightarrow> truth s call_ok subst_ok env (Unary NODE_NOT a) (\<not> x)"
| Truth_And: "truth s call_ok subst_ok env l a \<Longrightarrow> truth s call_ok subst_ok env r b \<Longrightarrow>
    truth s call_ok subst_ok env (Binary NODE_AND l r) (a \<and> b)"
| Truth_Or: "truth s call_ok subst_ok env l a \<Longrightarrow> truth s call_ok subst_ok env r b \<Longrightarrow>
    truth s call_ok subst_ok env (Binary NODE_OR l r) (a \<or> b)"
| Truth_Impl: "truth s call_ok subst_ok env l a \<Longrightarrow> truth s call_ok subst_ok env r b \<Longrightarrow>
    truth s call_ok subst_ok env (Binary NODE_IMPL l r) (a \<longrightarrow> b)"
| Truth_Equiv: "truth s call_ok subst_ok env l a \<Longrightarrow> truth s call_ok subst_ok env r b \<Longrightarrow>
    truth s call_ok subst_ok env (Binary NODE_EQUIV l r) (a = b)"
| Truth_Ite: "picks s call_ok subst_ok env c t e b \<Longrightarrow> truth s call_ok subst_ok env b x \<Longrightarrow>
    truth s call_ok subst_ok env (Ite c t e) x"
| Truth_Call: "find_def s f (length args) = Some d \<Longrightarrow> call_ok env (zip (dd_params d) args) (dd_body d) \<Longrightarrow>
    truth s call_ok subst_ok env (instantiate d args) x \<Longrightarrow> truth s call_ok subst_ok env (Call NODE_DEF_CALL f args) x"
| Val_Int: "is_int_expr n \<Longrightarrow> int_denotes s call_ok subst_ok env n v \<Longrightarrow> val_denotes s call_ok subst_ok env n (AbsInt v)"
| Val_Set: "is_set_expr n \<Longrightarrow> eval_set s n env 0 = Inr xs \<Longrightarrow> val_denotes s call_ok subst_ok env n (AbsSet (abs_items xs))"
| Val_Bound: "named n = Some x \<Longrightarrow> env x = Some v \<Longrightarrow> val_denotes s call_ok subst_ok env n (AbsInt v)"
| Val_Defined: "named n = Some x \<Longrightarrow> env x = None \<Longrightarrow> find_def s x 0 = Some d \<Longrightarrow> call_ok env [] (dd_body d) \<Longrightarrow>
    val_denotes s call_ok subst_ok env (dd_body d) a \<Longrightarrow> val_denotes s call_ok subst_ok env n a"
| Val_Name: "named n = Some x \<Longrightarrow> env x = None \<Longrightarrow> find_def s x 0 = None \<Longrightarrow> val_denotes s call_ok subst_ok env n (AbsNode n)"
| Val_Call: "find_def s f (length args) = Some d \<Longrightarrow> call_ok env (zip (dd_params d) args) (dd_body d) \<Longrightarrow>
    val_denotes s call_ok subst_ok env (instantiate d args) a \<Longrightarrow>
    val_denotes s call_ok subst_ok env (Call NODE_DEF_CALL f args) a"
| Val_Ite: "picks s call_ok subst_ok env c t e b \<Longrightarrow> val_denotes s call_ok subst_ok env b a \<Longrightarrow>
    val_denotes s call_ok subst_ok env (Ite c t e) a"
| Val_Formula: "\<not> is_int_expr n \<Longrightarrow> \<not> is_set_expr n \<Longrightarrow> \<not> deferred n \<Longrightarrow> val_denotes s call_ok subst_ok env n (AbsNode n)"
| Picks_Then: "truth s call_ok subst_ok env c True \<Longrightarrow> picks s call_ok subst_ok env c t e t"
| Picks_Else: "truth s call_ok subst_ok env c False \<Longrightarrow> picks s call_ok subst_ok env c t e e"
| Picks_Match: "expand_node s subject env 0 = Inr m \<Longrightarrow> match_pattern s m pat [] = Inr (Some bs) \<Longrightarrow> subst_ok bs t \<Longrightarrow>
    picks s call_ok subst_ok env (HlBinary NODE_MATCH subject pat) t e (subst_node bs t)"
| Picks_No_Match: "expand_node s subject env 0 = Inr m \<Longrightarrow> match_pattern s m pat [] = Inr None \<Longrightarrow>
    picks s call_ok subst_ok env (HlBinary NODE_MATCH subject pat) t e e"
| Ranges_Integers: "int_denotes s call_ok subst_ok env lo l \<Longrightarrow> int_denotes s call_ok subst_ok env hi h \<Longrightarrow>
    ranges s call_ok subst_ok env (RangeBinder lo ls hi hs)
      (map EvalInt [if ls then l + 1 else l..if hs then h - 1 else h])"
| Ranges_Set: "eval_set s e env 0 = Inr xs \<Longrightarrow> ranges s call_ok subst_ok env (SetBinder e) xs"

subsection \<open>Formulas\<close>

text \<open>A label is a comma-separated list of valuations of the bits of a bus, \<open>*\<close> leaving a bit open.\<close>

definition has_label :: "trace \<Rightarrow> string \<Rightarrow> string \<Rightarrow> nat \<Rightarrow> bool" where
  "has_label w bus bits i \<longleftrightarrow> (\<exists>val\<in>set (label_valuations bits). \<forall>j<length val.
     val ! j \<noteq> CHR ''*'' \<longrightarrow> (val ! j = CHR ''1'') = (bus_elem_name bus (int j) \<in> w i))"

inductive means :: "tlsf_spec \<Rightarrow> (env \<Rightarrow> bindings \<Rightarrow> node \<Rightarrow> bool) \<Rightarrow> (bindings \<Rightarrow> node \<Rightarrow> bool) \<Rightarrow>
    enat \<Rightarrow> trace \<Rightarrow> env \<Rightarrow> node \<Rightarrow> (nat \<Rightarrow> bool) \<Rightarrow> bool"
  for s :: tlsf_spec and call_ok :: "env \<Rightarrow> bindings \<Rightarrow> node \<Rightarrow> bool" and subst_ok :: "bindings \<Rightarrow> node \<Rightarrow> bool"
    and L :: enat and w :: trace
where
  M_True: "means s call_ok subst_ok L w env NodeTrue (\<lambda>i. True)"
| M_False: "means s call_ok subst_ok L w env NodeFalse (\<lambda>i. False)"
| M_Signal: "find_def s x 0 = None \<Longrightarrow> means s call_ok subst_ok L w env (NodeAp x) (\<lambda>i. x \<in> w i)"
| M_Defined: "find_def s x 0 = Some d \<Longrightarrow> call_ok env [] (dd_body d) \<Longrightarrow>
    means s call_ok subst_ok L w env (dd_body d) P \<Longrightarrow> means s call_ok subst_ok L w env (NodeAp x) P"
| M_Unary: "means s call_ok subst_ok L w env a P \<Longrightarrow> means s call_ok subst_ok L w env (Unary k a) (un_sem L k P)"
| M_Binary: "means s call_ok subst_ok L w env a P \<Longrightarrow> means s call_ok subst_ok L w env b Q \<Longrightarrow>
    means s call_ok subst_ok L w env (Binary k a b) (bin_sem L k P Q)"
| M_Label: "label_comparison s l r = Some (bits, NodeAp bus) \<Longrightarrow>
    means s call_ok subst_ok L w env (HlBinary NODE_CMP_EQ l r) (has_label w bus bits)"
| M_Not_Label: "label_comparison s l r = Some (bits, NodeAp bus) \<Longrightarrow>
    means s call_ok subst_ok L w env (HlBinary NODE_CMP_NE l r) (\<lambda>i. \<not> has_label w bus bits i)"
| M_Equality: "equality_kind k \<Longrightarrow> label_comparison s l r = None \<Longrightarrow> truth s call_ok subst_ok env (HlBinary k l r) x \<Longrightarrow>
    means s call_ok subst_ok L w env (HlBinary k l r) (\<lambda>i. x)"
| M_Comparison: "order_kind k \<or> k = NODE_IN \<Longrightarrow> truth s call_ok subst_ok env (HlBinary k l r) x \<Longrightarrow>
    means s call_ok subst_ok L w env (HlBinary k l r) (\<lambda>i. x)"
| M_Bus: "int_denotes s call_ok subst_ok env i v \<Longrightarrow>
    means s call_ok subst_ok L w env (BusIndex bus i) (\<lambda>i. bus_elem_name bus v \<in> w i)"
| M_Next: "int_denotes s call_ok subst_ok env c v \<Longrightarrow> 0 \<le> v \<Longrightarrow> means s call_ok subst_ok L w env a P \<Longrightarrow>
    means s call_ok subst_ok L w env (NextN strong c a) ((next_step L strong ^^ nat v) P)"
| M_Globally: "int_denotes s call_ok subst_ok env lo l \<Longrightarrow> int_denotes s call_ok subst_ok env hi h \<Longrightarrow> 0 \<le> l \<Longrightarrow> 0 \<le> h \<Longrightarrow>
    l \<le> h \<longrightarrow> means s call_ok subst_ok L w env a P \<Longrightarrow>
    means s call_ok subst_ok L w env (BoundedOp NODE_G_RANGE strong lo hi a)
      (\<lambda>i. \<forall>j\<in>{l..h}. (next_step L strong ^^ nat j) P i)"
| M_Finally: "int_denotes s call_ok subst_ok env lo l \<Longrightarrow> int_denotes s call_ok subst_ok env hi h \<Longrightarrow> 0 \<le> l \<Longrightarrow> 0 \<le> h \<Longrightarrow>
    l \<le> h \<longrightarrow> means s call_ok subst_ok L w env a P \<Longrightarrow>
    means s call_ok subst_ok L w env (BoundedOp NODE_F_RANGE strong lo hi a)
      (\<lambda>i. \<exists>j\<in>{l..h}. (next_step L strong ^^ nat j) P i)"
| M_Forall: "ranges s call_ok subst_ok env dm xs \<Longrightarrow> \<forall>x\<in>set xs. subst_ok (element_source v x) body \<Longrightarrow>
    list_all2 (\<lambda>x P. means s call_ok subst_ok L w (scope_with v env x) (body_with v body x) P) xs Ps \<Longrightarrow>
    means s call_ok subst_ok L w env (Quant NODE_FORALL v dm body) (\<lambda>i. \<forall>P\<in>set Ps. P i)"
| M_Exists: "ranges s call_ok subst_ok env dm xs \<Longrightarrow> \<forall>x\<in>set xs. subst_ok (element_source v x) body \<Longrightarrow>
    list_all2 (\<lambda>x P. means s call_ok subst_ok L w (scope_with v env x) (body_with v body x) P) xs Ps \<Longrightarrow>
    means s call_ok subst_ok L w env (Quant NODE_EXISTS v dm body) (\<lambda>i. \<exists>P\<in>set Ps. P i)"
| M_Ite: "picks s call_ok subst_ok env c t e b \<Longrightarrow> means s call_ok subst_ok L w env b P \<Longrightarrow>
    means s call_ok subst_ok L w env (Ite c t e) P"
| M_Call: "find_def s f (length args) = Some d \<Longrightarrow> call_ok env (zip (dd_params d) args) (dd_body d) \<Longrightarrow>
    means s call_ok subst_ok L w env (instantiate d args) P \<Longrightarrow>
    means s call_ok subst_ok L w env (Call NODE_DEF_CALL f args) P"

subsection \<open>Loops\<close>

lemma fold_res_collect:
  "fold_res (\<lambda>acc x. bind_res (g x) (h acc)) acc xs = Inr r \<Longrightarrow>
   \<exists>ts. list_all2 (\<lambda>x t. g x = Inr t) xs ts \<and> fold_res h acc ts = Inr r"
proof (induction xs arbitrary: acc)
  case (Cons x xs)
  then obtain t a where t: "g x = Inr t" "h acc t = Inr a"
    "fold_res (\<lambda>acc x. bind_res (g x) (h acc)) a xs = Inr r" by auto
  from Cons.IH [OF t(3)] obtain ts where "list_all2 (\<lambda>x t. g x = Inr t) xs ts" "fold_res h a ts = Inr r" by blast
  with t(1,2) show ?case by (intro exI [of _ "t # ts"]) simp
qed simp

lemma fold_res_sum: "fold_res (\<lambda>acc t. int64 (acc + t)) a ts = Inr r \<Longrightarrow> r = a + sum_list ts"
  by (induction ts arbitrary: a) (simp, fastforce)

lemma fold_res_product: "fold_res (\<lambda>acc t. int64 (acc * t)) a ts = Inr r \<Longrightarrow> r = a * prod_list ts"
  by (induction ts arbitrary: a) (simp, fastforce simp: mult.assoc)

lemma fold_res_accumulate:
  "fold_res (\<lambda>acc t. Inr (accumulate (if all then node_and else node_or) acc t)) acc ts = Inr r \<Longrightarrow>
   acc_sat L w all r = (\<lambda>i. if all then acc_sat L w all acc i \<and> (\<forall>t\<in>set ts. sat L w t i)
     else acc_sat L w all acc i \<or> (\<exists>t\<in>set ts. sat L w t i))"
proof (induction ts arbitrary: acc)
  case (Cons t ts)
  then have "acc_sat L w all r = (\<lambda>i. if all then acc_sat L w all (accumulate (if all then node_and else node_or) acc t) i \<and> (\<forall>t\<in>set ts. sat L w t i)
     else acc_sat L w all (accumulate (if all then node_and else node_or) acc t) i \<or> (\<exists>t\<in>set ts. sat L w t i))"
    by simp
  then show ?case unfolding acc_sat_accumulate by auto
qed (cases all; simp add: fun_eq_iff)

subsection \<open>Measures of sets\<close>

lemma extremum_loop_value:
  "extremum_loop k v xs = Inr r \<Longrightarrow> \<exists>A. finite A \<and> abs_value ` set xs = AbsInt ` A \<and>
     (k = NODE_SET_MIN \<longrightarrow> r = Min (insert v A)) \<and> (k = NODE_SET_MAX \<longrightarrow> r = Max (insert v A))"
proof (induction k v xs rule: extremum_loop.induct)
  case (1 k v)
  show ?case by (intro exI [of _ "{}"]) (use 1 in simp)
next
  case (2 k v x xs)
  let ?v = "if (k = NODE_SET_MIN \<and> x < v) \<or> (k = NODE_SET_MAX \<and> x > v) then x else v"
  from 2 obtain A where A: "finite A" "abs_value ` set xs = AbsInt ` A"
    "k = NODE_SET_MIN \<longrightarrow> r = Min (insert ?v A)" "k = NODE_SET_MAX \<longrightarrow> r = Max (insert ?v A)" by auto
  show ?case
  proof (intro exI conjI impI)
    show "finite (insert x A)" "abs_value ` set (EvalInt x # xs) = AbsInt ` insert x A" using A(1,2) by simp_all
    show "r = Min (insert v (insert x A))" if "k = NODE_SET_MIN"
      using A(1,3) that by (cases "A = {}") (auto simp: min_def)
    show "r = Max (insert v (insert x A))" if "k = NODE_SET_MAX"
      using A(1,4) that by (cases "A = {}") (auto simp: max_def)
  qed
qed simp_all

lemma set_measure_value:
  assumes "set_measure k xs = Inr v" and "k = NODE_SET_MIN \<or> k = NODE_SET_MAX"
  shows "\<exists>A. abs_value ` set xs = AbsInt ` A \<and> A \<noteq> {} \<and> v = (if k = NODE_SET_MIN then Min A else Max A)"
proof -
  from assms obtain y ys where xs: "xs = EvalInt y # ys" "extremum_loop k y ys = Inr v"
    by (cases "(k, xs)" rule: set_measure.cases) auto
  from extremum_loop_value [OF xs(2)] obtain A where "abs_value ` set ys = AbsInt ` A"
    "k = NODE_SET_MIN \<longrightarrow> v = Min (insert y A)" "k = NODE_SET_MAX \<longrightarrow> v = Max (insert y A)" by blast
  then show ?thesis using assms(2) xs(1) by (intro exI [of _ "insert y A"]) auto
qed

subsection \<open>Labels\<close>

lemma match_bits_sat:
  "acc_sat L w True (match_bits bus k acc bits) i \<longleftrightarrow> acc_sat L w True acc i \<and>
     (\<forall>j<length bits. bits ! j \<noteq> CHR ''*'' \<longrightarrow> (bits ! j = CHR ''1'') = (bus_elem_name bus (k + int j) \<in> w i))"
proof (induction bus k acc bits rule: match_bits.induct)
  case (2 bus k acc c cs)
  let ?B = "\<lambda>k cs. \<forall>j<length cs. cs ! j \<noteq> CHR ''*'' \<longrightarrow> (cs ! j = CHR ''1'') = (bus_elem_name bus (k + int j) \<in> w i)"
  have split: "?B k (c # cs) \<longleftrightarrow> (c \<noteq> CHR ''*'' \<longrightarrow> (c = CHR ''1'') = (bus_elem_name bus k \<in> w i)) \<and> ?B (k + 1) cs"
    by (auto simp: nth_Cons algebra_simps split: nat.splits)
  show ?case
  proof (cases "c = CHR ''*''")
    case True
    then show ?thesis using 2(1) [OF True] split by simp
  next
    case False
    let ?t = "if c = CHR ''1'' then bus_elem_node bus k else node_not (bus_elem_node bus k)"
    have "acc_sat L w True (Some (case acc of None \<Rightarrow> ?t | Some m \<Rightarrow> node_and m ?t)) i \<longleftrightarrow>
        acc_sat L w True acc i \<and> (c = CHR ''1'') = (bus_elem_name bus k \<in> w i)"
      by (cases acc) (auto simp: acc_sat_def bus_elem_node_def)
    then show ?thesis using 2(2) [OF False refl refl] split False by (simp add: Let_def)
  qed
qed simp

lemma match_label_sat: "sat L w (match_label bus bits) = has_label w bus bits"
proof
  fix i
  have v: "sat L w (match_valuation bus v) i \<longleftrightarrow> (\<forall>j<length v. v ! j \<noteq> CHR ''*'' \<longrightarrow>
      (v ! j = CHR ''1'') = (bus_elem_name bus (int j) \<in> w i))" for v
    using match_bits_sat [of L w bus 0 None v i] by (simp add: match_valuation_def acc_sat_def split: option.splits)
  have "acc_sat L w False (foldl (\<lambda>acc v. Some (case acc of None \<Rightarrow> match_valuation bus v
      | Some a \<Rightarrow> node_or a (match_valuation bus v))) acc vs) i \<longleftrightarrow>
      acc_sat L w False acc i \<or> (\<exists>v\<in>set vs. sat L w (match_valuation bus v) i)" for acc vs
    by (induction vs arbitrary: acc) (auto simp: acc_sat_def split: option.splits)
  from this [of None "label_valuations bits"]
  show "sat L w (match_label bus bits) i = has_label w bus bits i"
    by (simp add: match_label_def has_label_def v acc_sat_def split: option.splits)
qed

subsection \<open>Every result is a meaning\<close>

abbreviation any_call :: "env \<Rightarrow> bindings \<Rightarrow> node \<Rightarrow> bool" where
  "any_call \<equiv> \<lambda>_ _ _. True"

abbreviation any_subst :: "bindings \<Rightarrow> node \<Rightarrow> bool" where
  "any_subst \<equiv> \<lambda>_ _. True"

lemma eval_set_start: "eval_set s n env d = Inr xs \<Longrightarrow> eval_set s n env 0 = Inr xs"
  by (rule depth_mono(4) [OF le0])

lemma expand_node_start: "expand_node s n env d = Inr m \<Longrightarrow> expand_node s n env 0 = Inr m"
  by (rule depth_mono(10) [OF le0])

lemma int_arith_denotes:
  assumes "int_denotes s c u env l a" and "int_denotes s c u env r b" and "arith_kind k" and "int_arith k a b = Inr v"
  shows "int_denotes s c u env (HlBinary k l r) v"
  using assms by (cases k) (auto simp: int_arith_def arith_kind_def intro: int_denotes_truth_val_denotes_picks_ranges.intros split: if_splits)

lemma int_compare_truth:
  assumes "int_denotes s c u env l a" and "int_denotes s c u env r b" and "order_kind k"
  shows "truth s c u env (HlBinary k l r) (int_compare k a b)"
  using assms by (cases k) (auto simp: int_compare_def order_kind_def intro: int_denotes_truth_val_denotes_picks_ranges.intros)

lemma bool_op_truth:
  assumes "truth s c u env l a" and "truth s c u env r b" and "k \<in> {NODE_AND, NODE_OR, NODE_IMPL, NODE_EQUIV}"
  shows "truth s c u env (Binary k l r) (bool_op k a b)"
  using assms Truth_Impl [OF assms(1,2)] by (cases k) (auto simp: bool_op_def intro: int_denotes_truth_val_denotes_picks_ranges.intros)

lemma set_measure_denotes:
  assumes "eval_set s a env d = Inr xs" and "set_measure k xs = Inr v" and "k \<noteq> NODE_INT_NEG"
  shows "int_denotes s c u env (HlUnary k a) v"
proof -
  note e = eval_set_start [OF assms(1)]
  consider "k = NODE_SET_SIZE" | "k = NODE_SET_MIN" | "k = NODE_SET_MAX" using assms(3) by (cases k) auto
  then show ?thesis
  proof cases
    case 1
    have "v = int (fcard (abs_items xs))" using assms(2) 1 length_wf_items [OF eval_set_wf [OF e]] by simp
    then show ?thesis using Int_Size [OF e] 1 by simp
  next
    case 2
    then show ?thesis using set_measure_value [OF assms(2)] Int_Min [OF e] by auto
  next
    case 3
    then show ?thesis using set_measure_value [OF assms(2)] Int_Max [OF e] by auto
  qed
qed

lemmas meaning_rules = int_denotes_truth_val_denotes_picks_ranges.intros

lemma subst_node_Nil: "subst_node [] n = n"
  by (induction "[] :: bindings" n rule: subst_node.induct) (auto simp: subst_name_def intro: map_idI)

lemma named_simps [simp]: "named (NodeAp x) = Some x" "named (IntVar x) = Some x"
  by (simp_all add: named_def)

lemma bind_res_InrE: "bind_res m f = Inr y \<Longrightarrow> (\<And>x. m = Inr x \<Longrightarrow> f x = Inr y \<Longrightarrow> thesis) \<Longrightarrow> thesis"
  by auto

lemma reduction_terms:
  assumes "fold_res (\<lambda>acc val. bind_res (f (snd (bind_reduction_body v body env val))
        (fst (bind_reduction_body v body env val))) (h acc)) acc xs = Inr r"
    and "\<And>x t. x \<in> set xs \<Longrightarrow> f (snd (bind_reduction_body v body env x)) (fst (bind_reduction_body v body env x)) = Inr t \<Longrightarrow>
      Q (scope_with v env x) (body_with v body x) (g t)"
  obtains ts where "list_all2 (\<lambda>x t. Q (scope_with v env x) (body_with v body x) t) xs (map g ts)" "fold_res h acc ts = Inr r"
proof -
  from fold_res_collect [OF assms(1)] obtain ts where
    ts: "list_all2 (\<lambda>x t. f (snd (bind_reduction_body v body env x)) (fst (bind_reduction_body v body env x)) = Inr t) xs ts"
      "fold_res h acc ts = Inr r" by blast
  from ts(1) have "list_all2 (\<lambda>x t. Q (scope_with v env x) (body_with v body x) (g t)) xs ts"
    by (rule list.rel_mono_strong) (use assms(2) in blast)
  with ts(2) that show thesis by (simp add: list_all2_map2)
qed

lemma evaluators_denote:
  fixes s :: tlsf_spec and n body c t e :: node and b :: "node qbinder" and env :: env
    and q :: quant_kind and v :: string and d :: nat
  shows "\<And>i. eval_int s n env d = Inr i \<Longrightarrow> int_denotes s any_call any_subst env n i"
    and "\<And>x. eval_bool s n env d = Inr x \<Longrightarrow> truth s any_call any_subst env n x"
    and "\<And>a. eval_value s n env d = Inr a \<Longrightarrow> val_denotes s any_call any_subst env n (abs_value a)"
    and "True"
    and "\<And>xs. eval_domain s b env d = Inr xs \<Longrightarrow> ranges s any_call any_subst env b xs"
    and "\<And>i. eval_int_reduction s q v b body env d = Inr i \<Longrightarrow> q = NODE_SUM \<or> q = NODE_PRODUCT \<Longrightarrow>
      int_denotes s any_call any_subst env (Quant q v b body) i"
    and "True"
    and "\<And>m. select_ite_branch s c t e env d = Inr m \<Longrightarrow> picks s any_call any_subst env c t e m"
    and "\<And>m. expand_quantifier s q v b body env d = Inr m \<Longrightarrow> q = NODE_FORALL \<or> q = NODE_EXISTS \<Longrightarrow>
      means s any_call any_subst L w env (Quant q v b body) (sat L w m)"
    and "\<And>m. expand_node s n env d = Inr m \<Longrightarrow> means s any_call any_subst L w env n (sat L w m)"
proof (induction s n env d and s n env d and s n env d and s n env d and s b env d
    and s q v b body env d and s q v b body env d and s c t e env d and s q v b body env d
    and s n env d
    rule: eval_int_eval_bool_eval_value_eval_set_eval_domain_eval_int_reduction_eval_set_reduction_select_ite_branch_expand_quantifier_expand_node.induct)
  case (1 s n env depth)
  show ?case
  proof (cases n)
    case (HlUnary k a)
    show ?thesis
    proof (cases "k = NODE_INT_NEG")
      case True
      with 1 HlUnary show ?thesis by (auto simp: eval_int_simps intro: meaning_rules split: if_splits)
    next
      case False
      with 1 HlUnary show ?thesis by (auto simp: eval_int_simps intro: set_measure_denotes split: if_splits)
    qed
  next
    case (HlBinary k l r)
    with "1.prems" obtain x y where k: "\<not> MAX_DEPTH < depth" "arith_kind k" and x: "eval_int s l env depth = Inr x"
      and y: "eval_int s r env depth = Inr y" and i: "int_arith k x y = Inr i" by (auto simp: eval_int_simps split: if_splits)
    have "int_denotes s any_call any_subst env l x" "int_denotes s any_call any_subst env r y"
      using 1 HlBinary k x y by blast+
    from int_arith_denotes [OF this k(2) i] show ?thesis unfolding HlBinary .
  next
    case (Ite c t e)
    with "1.prems" obtain b where k: "\<not> MAX_DEPTH < depth" and b: "select_ite_branch s c t e env (depth + 1) = Inr b"
      and i: "eval_int s b env (depth + 1) = Inr i" by (auto simp: eval_int_simps split: if_splits)
    have "picks s any_call any_subst env c t e b" "int_denotes s any_call any_subst env b i"
      by (rule "1.IH"(8) [OF k Ite b], rule "1.IH"(9) [OF k Ite b i])
    then show ?thesis unfolding Ite by (rule Int_Ite)
  qed (use 1 in \<open>auto simp: eval_int_simps env_lookup_def intro: meaning_rules split: if_splits option.splits\<close>)
next
  case (2 s n env depth)
  show ?case
  proof (cases n)
    case (HlBinary k l r)
    from "2.prems" HlBinary have d: "\<not> MAX_DEPTH < depth" by (auto simp: eval_bool_simps split: if_splits)
    consider "equality_kind k" | "order_kind k" "\<not> equality_kind k" | "k = NODE_IN"
      using "2.prems" HlBinary by (auto simp: eval_bool_simps split: if_splits)
    then show ?thesis
    proof cases
      case 1
      have "bind_res (eval_value s l env (depth + 1)) (\<lambda>a. bind_res (eval_value s r env (depth + 1)) (\<lambda>b.
          Inr (if k = NODE_CMP_EQ then value_equal a b else \<not> value_equal a b))) = Inr x"
        using "2.prems" HlBinary d 1 by (simp add: eval_bool_simps)
      then obtain a b where a: "eval_value s l env (depth + 1) = Inr a" and b: "eval_value s r env (depth + 1) = Inr b"
        and "Inr (if k = NODE_CMP_EQ then value_equal a b else \<not> value_equal a b) = (Inr x :: bool result)"
        by (elim bind_res_InrE)
      then have x: "x = (if k = NODE_CMP_EQ then value_equal a b else \<not> value_equal a b)" by (simp only: sum.inject)
      have v: "val_denotes s any_call any_subst env l (abs_value a)" "val_denotes s any_call any_subst env r (abs_value b)"
        by (rule "2.IH"(4) [OF d HlBinary 1 a], rule "2.IH"(5) [OF d HlBinary 1 a b])
      have "value_equal a b \<longleftrightarrow> abs_value a = abs_value b" by (rule value_equal_abs [OF eval_value_wf [OF a] eval_value_wf [OF b]])
      then show ?thesis using Truth_Eq [OF v] Truth_Ne [OF v] 1 x HlBinary by (auto simp: equality_kind_def)
    next
      case 2
      with "2.prems" HlBinary obtain a b where a: "eval_int s l env depth = Inr a" and b: "eval_int s r env depth = Inr b"
        and x: "x = int_compare k a b" by (auto simp: eval_bool_simps split: if_splits)
      have "int_denotes s any_call any_subst env l a" "int_denotes s any_call any_subst env r b"
        by (rule "2.IH"(6) [OF d HlBinary 2(2,1) a], rule "2.IH"(7) [OF d HlBinary 2(2,1) a b])
      from int_compare_truth [OF this 2(1)] show ?thesis unfolding HlBinary x .
    next
      case 3
      have k: "\<not> equality_kind k" "\<not> order_kind k" using 3 by (simp_all add: equality_kind_def order_kind_def)
      with 3 "2.prems" HlBinary obtain a xs where a: "eval_value s l env (depth + 1) = Inr a" and b: "eval_set s r env (depth + 1) = Inr xs"
        and x: "x = value_in a xs" by (auto simp: eval_bool_simps split: if_splits)
      have v: "val_denotes s any_call any_subst env l (abs_value a)"
        by (rule "2.IH"(8) [OF d HlBinary k 3 a])
      have "value_in a xs \<longleftrightarrow> abs_value a |\<in>| abs_items xs" by (rule value_in_abs [OF eval_value_wf [OF a] eval_set_wf [OF b]])
      then show ?thesis using Truth_In [OF v eval_set_start [OF b]] 3 x HlBinary by simp
    qed
  next
    case (Binary k l r)
    with "2.prems" obtain a b where k: "\<not> MAX_DEPTH < depth" "k = NODE_AND \<or> k = NODE_OR \<or> k = NODE_IMPL \<or> k = NODE_EQUIV"
      and a: "eval_bool s l env depth = Inr a" and b: "eval_bool s r env depth = Inr b" and x: "x = bool_op k a b"
      by (auto simp: eval_bool_simps split: if_splits)
    have "truth s any_call any_subst env l a" "truth s any_call any_subst env r b"
      by (rule "2.IH"(2) [OF k(1) Binary k(2) a], rule "2.IH"(3) [OF k(1) Binary k(2) a b])
    from bool_op_truth [OF this] show ?thesis unfolding Binary x using k(2) by blast
  next
    case (Ite c t e)
    with "2.prems" obtain b where k: "\<not> MAX_DEPTH < depth" and b: "select_ite_branch s c t e env (depth + 1) = Inr b"
      and i: "eval_bool s b env (depth + 1) = Inr x" by (auto simp: eval_bool_simps split: if_splits)
    have "picks s any_call any_subst env c t e b" "truth s any_call any_subst env b x"
      by (rule "2.IH"(11) [OF k Ite b], rule "2.IH"(12) [OF k Ite b i])
    then show ?thesis unfolding Ite by (rule Truth_Ite)
  qed (use 2 in \<open>auto simp: eval_bool_simps intro: meaning_rules split: if_splits option.splits\<close>)
next
  case (3 s n env depth)
  from "3.prems" have d: "\<not> MAX_DEPTH < depth" by (auto simp: eval_value.simps split: if_splits)
  show ?case
  proof (cases "is_int_expr n")
    case True
    with "3.prems" d obtain v where v: "eval_int s n env (depth + 1) = Inr v" "a = EvalInt v" by (auto simp: eval_value.simps)
    show ?thesis using Val_Int [OF True "3.IH"(1) [OF d True v(1)]] v(2) by simp
  next
    case i: False
    show ?thesis
    proof (cases "is_set_expr n")
      case True
      with "3.prems" d i obtain xs where "eval_set s n env (depth + 1) = Inr xs" "a = EvalSet n xs" by (auto simp: eval_value.simps)
      then show ?thesis using Val_Set [OF True eval_set_start] by simp
    next
      case False
      show ?thesis
      proof (cases "deferred n")
        case True
        then show ?thesis
        proof (cases n)
          case (Ite c t e)
          with "3.prems" d obtain b where b: "select_ite_branch s c t e env (depth + 1) = Inr b"
            and v: "eval_value s b env (depth + 1) = Inr a" by (auto simp: eval_value_simps is_int_expr_def is_set_expr_def)
          have "picks s any_call any_subst env c t e b" "val_denotes s any_call any_subst env b (abs_value a)"
            by (rule "3.IH"(6) [OF d i False Ite b], rule "3.IH"(7) [OF d i False Ite b v])
          then show ?thesis unfolding Ite by (rule Val_Ite)
        qed (use 3 i False True in \<open>auto simp: eval_value_simps env_lookup_def deferred_def
            intro: Val_Bound [OF named_simps(1)] Val_Bound [OF named_simps(2)] Val_Name [OF named_simps(1)] Val_Name [OF named_simps(2)]
              Val_Defined [OF named_simps(1)] Val_Defined [OF named_simps(2)] Val_Call split: if_splits option.splits\<close>)
      next
        case deferred: False
        have "a = EvalNode n"
          using "3.prems" d i False deferred by (cases n) (auto simp: eval_value_simps deferred_def split: if_splits)
        then show ?thesis using Val_Formula [OF i False deferred] by simp
      qed
    qed
  qed
next
  case (5 s b env depth)
  show ?case
  proof (cases b)
    case (RangeBinder lo ls hi hs)
    from range_domain_values [OF "5.prems" [unfolded RangeBinder]] obtain l h where l: "eval_int s lo env (depth + 1) = Inr l"
      and h: "eval_int s hi env (depth + 1) = Inr h"
      and xs: "xs = map EvalInt [l + (if ls then 1 else 0)..h + (if hs then - 1 else 0)]" by blast
    have "int_denotes s any_call any_subst env lo l" "int_denotes s any_call any_subst env hi h"
      by (rule "5.IH"(1) [OF RangeBinder l], rule "5.IH"(2) [OF RangeBinder l h])
    from Ranges_Integers [OF this, of ls hs] show ?thesis unfolding RangeBinder xs by (cases ls; cases hs) simp_all
  next
    case (SetBinder e)
    with "5.prems" show ?thesis by (auto simp: eval_domain.simps intro: Ranges_Set eval_set_start)
  qed
next
  case (6 s k v b body env depth)
  from "6.prems"(1) obtain domain where dom: "eval_domain s b env (depth + 1) = Inr domain"
    and fold: "fold_res (\<lambda>acc val. bind_res (eval_int s (snd (bind_reduction_body v body env val))
        (fst (bind_reduction_body v body env val)) (depth + 1)) (\<lambda>x.
          int64 (if k = NODE_PRODUCT then acc * x else acc + x))) (if k = NODE_PRODUCT then 1 else 0) domain = Inr i"
    by (auto simp: eval_int_reduction.simps)
  have r: "ranges s any_call any_subst env b domain" by (rule "6.IH"(1) [OF dom])
  obtain ts where ts: "list_all2 (\<lambda>x t. int_denotes s any_call any_subst (scope_with v env x) (body_with v body x) t) domain (map (\<lambda>t. t) ts)"
    "fold_res (\<lambda>acc x. int64 (if k = NODE_PRODUCT then acc * x else acc + x)) (if k = NODE_PRODUCT then 1 else 0) ts = Inr i"
  proof (rule reduction_terms [OF fold, where g = "\<lambda>t. t" and Q = "int_denotes s any_call any_subst"])
    fix x t assume "x \<in> set domain" "eval_int s (snd (bind_reduction_body v body env x)) (fst (bind_reduction_body v body env x)) (depth + 1) = Inr t"
    from "6.IH"(2) [OF dom this] show "int_denotes s any_call any_subst (scope_with v env x) (body_with v body x) t"
      by (simp add: bind_reduction_body_eq)
  qed
  from "6.prems"(2) show ?case
  proof
    assume k: "k = NODE_SUM"
    have "i = sum_list ts" using fold_res_sum [of 0 ts i] ts(2) k by simp
    with Int_Sum [OF r _ ts(1)] k show ?thesis by simp
  next
    assume k: "k = NODE_PRODUCT"
    have "i = prod_list ts" using fold_res_product [of 1 ts i] ts(2) k by simp
    with Int_Product [OF r _ ts(1)] k show ?thesis by simp
  qed
next
  case (8 s c t e env depth)
  show ?case
  proof (cases "\<exists>subject pat. c = HlBinary NODE_MATCH subject pat")
    case True
    then obtain subject pat where c: "c = HlBinary NODE_MATCH subject pat" by blast
    with "8.prems" obtain x r where x: "expand_node s subject env (depth + 1) = Inr x" and r: "match_pattern s x pat [] = Inr r"
      and m: "m = (case r of None \<Rightarrow> e | Some bs \<Rightarrow> if bs = [] then t else subst_node bs t)"
      by (auto simp: select_ite_branch.simps split: option.splits)
    show ?thesis
    proof (cases r)
      case None
      show ?thesis using Picks_No_Match [OF expand_node_start [OF x] r [unfolded None]] m None c by simp
    next
      case (Some bs)
      show ?thesis using Picks_Match [OF expand_node_start [OF x] r [unfolded Some], where subst_ok = any_subst] m Some c
        by (simp add: subst_node_Nil split: if_splits)
    qed
  next
    case False
    have b: "truth s any_call any_subst env c x" if x: "eval_bool s c env (depth + 1) = Inr x" for x
    proof (cases c)
      case (HlBinary k l r)
      show ?thesis
        by (cases k) ((rule "8.IH"(10-24) [OF HlBinary _ x], assumption) | (use False HlBinary in simp))+
    qed (rule "8.IH"(1-9,26-32) [OF _ x], assumption)+
    from "8.prems" False obtain x where x: "eval_bool s c env (depth + 1) = Inr x" and m: "m = (if x then t else e)"
      by (cases c) (auto simp: select_ite_branch.simps split: hl_bin_kind.splits)
    show ?thesis using b [OF x] m by (cases x) (auto intro: Picks_Then Picks_Else)
  qed
next
  case (9 s k v b body env depth)
  from "9.prems"(1) obtain domain r where dom: "eval_domain s b env (depth + 1) = Inr domain"
    and fold: "fold_res (\<lambda>acc val. bind_res (expand_node s (snd (bind_reduction_body v body env val))
        (fst (bind_reduction_body v body env val)) (depth + 1)) (\<lambda>term.
          Inr (accumulate (if k = NODE_FORALL then node_and else node_or) acc term))) None domain = Inr r"
    and m: "m = (case r of Some a \<Rightarrow> a | None \<Rightarrow> if k = NODE_FORALL then NodeTrue else NodeFalse)"
    by (auto simp: expand_quantifier.simps)
  have rg: "ranges s any_call any_subst env b domain" by (rule "9.IH"(1) [OF dom])
  obtain ts where ts: "list_all2 (\<lambda>x P. means s any_call any_subst L w (scope_with v env x) (body_with v body x) P) domain (map (sat L w) ts)"
    "fold_res (\<lambda>acc t. Inr (accumulate (if k = NODE_FORALL then node_and else node_or) acc t)) None ts = (Inr r :: node option result)"
  proof (rule reduction_terms [OF fold, where g = "sat L w" and Q = "means s any_call any_subst L w"])
    fix x t assume "x \<in> set domain" "expand_node s (snd (bind_reduction_body v body env x)) (fst (bind_reduction_body v body env x)) (depth + 1) = Inr t"
    from "9.IH"(2) [OF dom this] show "means s any_call any_subst L w (scope_with v env x) (body_with v body x) (sat L w t)"
      by (simp add: bind_reduction_body_eq)
  qed
  have "sat L w m = acc_sat L w (k = NODE_FORALL) r" by (simp add: m acc_sat_def)
  also have "\<dots> = (\<lambda>i. if k = NODE_FORALL then \<forall>P\<in>set (map (sat L w) ts). P i else \<exists>P\<in>set (map (sat L w) ts). P i)"
    using fold_res_accumulate [OF ts(2), of L w] by (auto simp: fun_eq_iff acc_sat_def)
  finally have e: "sat L w m = \<dots>" .
  from "9.prems"(2) show ?case
  proof
    assume k: "k = NODE_FORALL"
    show ?thesis using M_Forall [OF rg _ ts(1)] e k by simp
  next
    assume k: "k = NODE_EXISTS"
    show ?thesis using M_Exists [OF rg _ ts(1)] e k by simp
  qed
next
  case (10 s n env depth)
  from "10.prems" have d: "\<not> MAX_DEPTH < depth" by (auto simp: expand_node.simps split: if_splits)
  show ?case
  proof (cases n)
    case (HlBinary k l r)
    consider bits bus where "equality_kind k" "label_comparison s l r = Some (bits, NodeAp bus)"
        "m = (if k = NODE_CMP_NE then node_not (match_label bus bits) else match_label bus bits)"
      | x where "equality_kind k" "label_comparison s l r = None" "eval_bool s n env depth = Inr x" "m = (if x then NodeTrue else NodeFalse)"
      | x where "\<not> equality_kind k" "order_kind k \<or> k = NODE_IN" "eval_bool s n env (depth + 1) = Inr x" "m = (if x then NodeTrue else NodeFalse)"
      using "10.prems" d HlBinary by (auto simp: expand_node_simps split: if_splits option.splits prod.splits node.splits)
    then show ?thesis
    proof cases
      case 1
      then show ?thesis using M_Label [OF 1(2)] M_Not_Label [OF 1(2)]
        by (auto simp: HlBinary equality_kind_def match_label_sat)
    next
      case 2
      from M_Equality [OF 2(1,2)] "10.IH"(5) [OF d HlBinary 2(1-3)] 2(4) show ?thesis by (cases x) (auto simp: HlBinary)
    next
      case 3
      from M_Comparison [OF 3(2)] "10.IH"(6) [OF d HlBinary 3(1-3)] 3(4) show ?thesis by (cases x) (auto simp: HlBinary)
    qed
  next
    case (NextN strong c a)
    with "10.prems" d obtain count x where c: "eval_int s c env depth = Inr count" "\<not> count < 0"
      and x: "expand_node s a env depth = Inr x" "m = next_n strong (nat count) x"
      by (auto simp: expand_node_simps split: if_splits)
    show ?thesis unfolding NextN x(2) sat_next_n
      by (rule M_Next [OF "10.IH"(7) [OF d NextN c(1)] _ "10.IH"(8) [OF d NextN c x(1)]]) (use c(2) in simp)
  next
    case (BoundedOp k strong lo_expr hi_expr a)
    with "10.prems" d obtain lo hi r where lo: "eval_int s lo_expr env depth = Inr lo"
      and hi: "eval_int s hi_expr env depth = Inr hi" and pos: "\<not> (lo < 0 \<or> hi < 0)"
      and fold: "fold_res (\<lambda>acc i. bind_res (expand_node s a env depth) (\<lambda>x.
          Inr (accumulate (if k = NODE_G_RANGE then node_and else node_or) acc
                 (next_n strong (nat i) x)))) None [lo..hi] = Inr r"
      and m: "m = (case r of Some a \<Rightarrow> a | None \<Rightarrow> if k = NODE_G_RANGE then NodeTrue else NodeFalse)"
      by (auto simp: expand_node_simps split: if_splits)
    note int = "10.IH"(13) [OF d BoundedOp lo] "10.IH"(14) [OF d BoundedOp lo hi]
    define P where "P = (case expand_node s a env depth of Inr x \<Rightarrow> sat L w x | Inl _ \<Rightarrow> (\<lambda>i. False))"
    have body: "lo \<le> hi \<longrightarrow> means s any_call any_subst L w env a P"
    proof
      assume "lo \<le> hi"
      then have mem: "lo \<in> set [lo..hi]" and "[lo..hi] = lo # [lo + 1..hi]" by (simp_all add: upto_rec1)
      with fold obtain x where x: "expand_node s a env depth = Inr x" by auto
      show "means s any_call any_subst L w env a P"
        using "10.IH"(15) [OF d BoundedOp lo hi pos mem x] by (simp add: P_def x)
    qed
    have e: "sat L w m = (\<lambda>j. conn_sem (k = NODE_G_RANGE) (set [lo..hi]) (\<lambda>i. (next_step L strong ^^ nat i) P j))"
      unfolding m by (rule fold_accumulate_None [OF fold]) (simp add: sat_next_n P_def)
    show ?thesis
    proof (cases k)
      case NODE_G_RANGE
      with M_Globally [OF int _ _ body] pos e show ?thesis by (simp add: BoundedOp conn_sem_def)
    next
      case NODE_F_RANGE
      with M_Finally [OF int _ _ body] pos e show ?thesis by (simp add: BoundedOp conn_sem_def)
    qed
  next
    case (Ite c t e)
    with "10.prems" d obtain b where b: "select_ite_branch s c t e env (depth + 1) = Inr b"
      and i: "expand_node s b env (depth + 1) = Inr m" by (auto simp: expand_node_simps)
    show ?thesis unfolding Ite by (rule M_Ite [OF "10.IH"(11) [OF d Ite b] "10.IH"(12) [OF d Ite b i]])
  next
    case (Quant k v b body)
    with "10.prems" d have k: "k = NODE_FORALL \<or> k = NODE_EXISTS" and m: "expand_quantifier s k v b body env depth = Inr m"
      by (auto simp: expand_node_simps split: if_splits)
    show ?thesis unfolding Quant by (rule "10.IH"(16) [OF d Quant k m k])
  next
    case (BusIndex b i)
    with "10.prems" d obtain v where v: "eval_int s i env depth = Inr v" "m = bus_elem_node b v" by (auto simp: expand_node_simps)
    show ?thesis using M_Bus [OF "10.IH"(10) [OF d BusIndex v(1)]] by (simp add: BusIndex v(2) bus_elem_node_def)
  next
    case (Binary k l r)
    with "10.prems" d obtain x y where x: "expand_node s l env depth = Inr x" and y: "expand_node s r env depth = Inr y"
      and m: "m = Binary k x y" by (auto simp: expand_node_simps)
    show ?thesis using M_Binary [OF "10.IH"(3) [OF d Binary x] "10.IH"(4) [OF d Binary x y]] by (simp add: Binary m)
  next
    case (Unary k a)
    with "10.prems" d obtain x where x: "expand_node s a env depth = Inr x" "m = Unary k x" by (auto simp: expand_node_simps)
    show ?thesis using M_Unary [OF "10.IH"(2) [OF d Unary x(1)]] by (simp add: Unary x(2))
  next
    case (NodeAp x)
    show ?thesis
    proof (cases "find_def s x 0")
      case None
      with "10.prems" d NodeAp have "m = NodeAp x" by (auto simp: expand_node_simps)
      then show ?thesis using M_Signal [OF None] NodeAp by simp
    next
      case (Some f)
      with "10.prems" d NodeAp have "expand_node s (dd_body f) env (depth + 1) = Inr m" by (auto simp: expand_node_simps)
      from M_Defined [OF Some _ "10.IH"(1) [OF d NodeAp Some this]] show ?thesis by (simp add: NodeAp)
    qed
  next
    case (Call k f args)
    with "10.prems" d obtain g where k: "k = NODE_DEF_CALL" and g: "find_def s f (length args) = Some g"
      and m: "expand_node s (instantiate g args) env (depth + 1) = Inr m" by (auto simp: expand_node_simps split: if_splits option.splits)
    from M_Call [OF g _ "10.IH"(9) [OF d Call k g m]] show ?thesis by (simp add: Call k)
  next
    case NodeTrue
    with "10.prems" d show ?thesis by (auto simp: expand_node_simps intro: M_True)
  next
    case NodeFalse
    with "10.prems" d show ?thesis by (auto simp: expand_node_simps intro: M_False)
  qed (use "10.prems" d in \<open>auto simp: expand_node_simps\<close>)
qed simp_all

end
