(* ===== verification/Expand_Sound.thy ===== *)
theory Expand_Sound
  imports Expand_Spec Expand_Meaning
begin

text \<open>
  A formula has at most one meaning under the rules of \<open>Expand_Meaning\<close>, whatever their side
  conditions, and expansion preserves it.
\<close>

subsection \<open>Meanings are unique\<close>

lemma list_all2_unique:
  "list_all2 (\<lambda>x y. P x y \<and> (\<forall>z. Q x z \<longrightarrow> z = y)) xs ys \<Longrightarrow> list_all2 Q xs zs \<Longrightarrow> zs = ys"
proof (induction xs arbitrary: ys zs)
  case (Cons x xs)
  then show ?case by (auto simp: list_all2_Cons1)
qed simp

lemma absint_image: "AbsInt ` A = AbsInt ` B \<longleftrightarrow> A = B"
  by (rule inj_image_eq_iff) (simp add: inj_def)

lemma not_int_set: "is_int_expr n \<Longrightarrow> is_set_expr n \<Longrightarrow> False"
  by (cases n) (auto simp: is_int_expr_def is_set_expr_def set_op_kind_def arith_kind_def)

lemma named_not: "named n = Some x \<Longrightarrow> \<not> is_int_expr n \<and> \<not> is_set_expr n \<and> deferred n"
  by (cases n) (auto simp: named_def is_int_expr_def is_set_expr_def deferred_def)

lemma expr_simps [simp]: "\<not> is_int_expr (Ite c t e)" "\<not> is_set_expr (Ite c t e)" "deferred (Ite c t e)"
  "\<not> is_int_expr (Call k f args)" "\<not> is_set_expr (Call k f args)" "deferred (Call NODE_DEF_CALL f args)"
  by (simp_all add: is_int_expr_def is_set_expr_def deferred_def)

lemma unnamed [simp]: "named (Ite c t e) = None" "named (Call k f args) = None"
  by (simp_all add: named_def)

lemma truth_not_match: "\<not> truth s c u env (HlBinary NODE_MATCH l r) x"
  by (auto elim: truth.cases)

lemma denotes_unique:
  "int_denotes s c u env n v \<Longrightarrow> int_denotes s c' u' env n v' \<Longrightarrow> v' = v"
  "truth s c u env n x \<Longrightarrow> truth s c' u' env n x' \<Longrightarrow> x' = x"
  "val_denotes s c u env n a \<Longrightarrow> val_denotes s c' u' env n a' \<Longrightarrow> a' = a"
  "picks s c u env cond t e b \<Longrightarrow> picks s c' u' env cond t e b' \<Longrightarrow> b' = b"
  "ranges s c u env q xs \<Longrightarrow> ranges s c' u' env q xs' \<Longrightarrow> xs' = xs"
proof (induction arbitrary: v' and x' and a' and b' and xs' rule: int_denotes_truth_val_denotes_picks_ranges.inducts)
  case Int_Literal
  from Int_Literal.prems show ?case by cases (use Int_Literal in \<open>auto simp: named_def\<close>)
next
  case Int_Bound
  from Int_Bound.prems show ?case by cases (use Int_Bound in \<open>auto simp: named_def\<close>)
next
  case Int_Defined
  from Int_Defined.prems show ?case by cases (use Int_Defined in \<open>auto simp: named_def\<close>)
next
  case Int_Sizeof
  from Int_Sizeof.prems show ?case by cases (use Int_Sizeof in \<open>auto simp: named_def\<close>)
next
  case Int_Neg
  from Int_Neg.prems show ?case by cases (use Int_Neg in \<open>auto simp: named_def\<close>)
next
  case Int_Size
  from Int_Size.prems show ?case by cases (use Int_Size in \<open>auto simp: named_def\<close>)
next
  case Int_Min
  from Int_Min.prems show ?case by cases (use Int_Min in \<open>auto simp: named_def absint_image\<close>)
next
  case Int_Max
  from Int_Max.prems show ?case by cases (use Int_Max in \<open>auto simp: named_def absint_image\<close>)
next
  case Int_Add
  from Int_Add.prems show ?case by cases (use Int_Add in \<open>auto simp: named_def\<close>)
next
  case Int_Sub
  from Int_Sub.prems show ?case by cases (use Int_Sub in \<open>auto simp: named_def\<close>)
next
  case Int_Mul
  from Int_Mul.prems show ?case by cases (use Int_Mul in \<open>auto simp: named_def\<close>)
next
  case Int_Div
  from Int_Div.prems show ?case by cases (use Int_Div in \<open>auto simp: named_def\<close>)
next
  case Int_Mod
  from Int_Mod.prems show ?case by cases (use Int_Mod in \<open>auto simp: named_def\<close>)
next
  case Int_Call
  from Int_Call.prems show ?case by cases (use Int_Call in \<open>auto simp: named_def\<close>)
next
  case Int_Ite
  from Int_Ite.prems show ?case by cases (use Int_Ite in \<open>auto simp: named_def\<close>)
next
  case (Int_Sum env dm xs v body vs)
  from Int_Sum.prems obtain ys us where ys: "ranges s c' u' env dm ys" and v': "v' = sum_list us"
    and us: "list_all2 (\<lambda>x. int_denotes s c' u' (scope_with v env x) (body_with v body x)) ys us"
    by cases (auto simp: named_def)
  have "ys = xs" by (rule Int_Sum.IH(2) [OF ys])
  with us list_all2_unique [OF Int_Sum.IH(4)] have "us = vs" by blast
  then show ?case unfolding v' by simp
next
  case (Int_Product env dm xs v body vs)
  from Int_Product.prems obtain ys us where ys: "ranges s c' u' env dm ys" and v': "v' = prod_list us"
    and us: "list_all2 (\<lambda>x. int_denotes s c' u' (scope_with v env x) (body_with v body x)) ys us"
    by cases (auto simp: named_def)
  have "ys = xs" by (rule Int_Product.IH(2) [OF ys])
  with us list_all2_unique [OF Int_Product.IH(4)] have "us = vs" by blast
  then show ?case unfolding v' by simp
next
  case Truth_True
  from Truth_True.prems show ?case by cases (use Truth_True in \<open>auto simp: named_def\<close>)
next
  case Truth_False
  from Truth_False.prems show ?case by cases (use Truth_False in \<open>auto simp: named_def\<close>)
next
  case Truth_Eq
  from Truth_Eq.prems show ?case by cases (use Truth_Eq in \<open>auto simp: named_def\<close>)
next
  case Truth_Ne
  from Truth_Ne.prems show ?case by cases (use Truth_Ne in \<open>auto simp: named_def\<close>)
next
  case Truth_Lt
  from Truth_Lt.prems show ?case by cases (use Truth_Lt in \<open>auto simp: named_def\<close>)
next
  case Truth_Le
  from Truth_Le.prems show ?case by cases (use Truth_Le in \<open>auto simp: named_def\<close>)
next
  case Truth_Gt
  from Truth_Gt.prems show ?case by cases (use Truth_Gt in \<open>auto simp: named_def\<close>)
next
  case Truth_Ge
  from Truth_Ge.prems show ?case by cases (use Truth_Ge in \<open>auto simp: named_def\<close>)
next
  case Truth_In
  from Truth_In.prems show ?case by cases (use Truth_In in \<open>auto simp: named_def\<close>)
next
  case Truth_Not
  from Truth_Not.prems show ?case by cases (use Truth_Not in \<open>auto simp: named_def\<close>)
next
  case Truth_And
  from Truth_And.prems show ?case by cases (use Truth_And in \<open>auto simp: named_def\<close>)
next
  case Truth_Or
  from Truth_Or.prems show ?case by cases (use Truth_Or in \<open>auto simp: named_def\<close>)
next
  case Truth_Impl
  from Truth_Impl.prems show ?case by cases (use Truth_Impl in \<open>auto simp: named_def\<close>)
next
  case Truth_Equiv
  from Truth_Equiv.prems show ?case by cases (use Truth_Equiv in \<open>auto simp: named_def\<close>)
next
  case Truth_Ite
  from Truth_Ite.prems show ?case by cases (use Truth_Ite in \<open>auto simp: named_def\<close>)
next
  case Truth_Call
  from Truth_Call.prems show ?case by cases (use Truth_Call in \<open>auto simp: named_def\<close>)
next
  case Val_Int
  from Val_Int.prems show ?case by cases (use Val_Int in \<open>auto dest: named_not not_int_set\<close>)
next
  case Val_Set
  from Val_Set.prems show ?case by cases (use Val_Set in \<open>auto dest: named_not not_int_set\<close>)
next
  case Val_Bound
  from Val_Bound.prems show ?case by cases (use Val_Bound in \<open>auto dest: named_not not_int_set\<close>)
next
  case Val_Defined
  from Val_Defined.prems show ?case by cases (use Val_Defined in \<open>auto dest: named_not not_int_set\<close>)
next
  case Val_Name
  from Val_Name.prems show ?case by cases (use Val_Name in \<open>auto dest: named_not not_int_set\<close>)
next
  case Val_Call
  from Val_Call.prems show ?case by cases (use Val_Call in \<open>auto dest: named_not not_int_set\<close>)
next
  case Val_Ite
  from Val_Ite.prems show ?case by cases (use Val_Ite in \<open>auto dest: named_not not_int_set\<close>)
next
  case Val_Formula
  from Val_Formula.prems show ?case by cases (use Val_Formula in \<open>auto dest: named_not not_int_set\<close>)
next
  case Picks_Then
  from Picks_Then.prems show ?case by cases (use Picks_Then in \<open>auto simp: truth_not_match\<close>)
next
  case Picks_Else
  from Picks_Else.prems show ?case by cases (use Picks_Else in \<open>auto simp: truth_not_match\<close>)
next
  case Picks_Match
  from Picks_Match.prems show ?case by cases (use Picks_Match in \<open>auto simp: truth_not_match\<close>)
next
  case Picks_No_Match
  from Picks_No_Match.prems show ?case by cases (use Picks_No_Match in \<open>auto simp: truth_not_match\<close>)
next
  case Ranges_Integers
  from Ranges_Integers.prems show ?case by cases (use Ranges_Integers in \<open>auto simp: truth_not_match\<close>)
next
  case Ranges_Set
  from Ranges_Set.prems show ?case by cases (use Ranges_Set in \<open>auto simp: truth_not_match\<close>)
qed

lemma truth_unique: "truth s c u env n x \<Longrightarrow> truth s c' u' env n x' \<Longrightarrow> x' = x"
  by (rule denotes_unique(2))

lemma means_unique:
  "means s c u L w env n P \<Longrightarrow> means s c' u' L w env n P' \<Longrightarrow> P' = P"
proof (induction arbitrary: P' rule: means.induct)
  case M_True
  from M_True.prems show ?case by cases (use M_True in \<open>auto dest: denotes_unique simp: equality_kind_def order_kind_def\<close>)
next
  case M_False
  from M_False.prems show ?case by cases (use M_False in \<open>auto dest: denotes_unique simp: equality_kind_def order_kind_def\<close>)
next
  case M_Signal
  from M_Signal.prems show ?case by cases (use M_Signal in \<open>auto dest: denotes_unique simp: equality_kind_def order_kind_def\<close>)
next
  case M_Defined
  from M_Defined.prems show ?case by cases (use M_Defined in \<open>auto dest: denotes_unique simp: equality_kind_def order_kind_def\<close>)
next
  case M_Unary
  from M_Unary.prems show ?case by cases (use M_Unary in \<open>auto dest: denotes_unique simp: equality_kind_def order_kind_def\<close>)
next
  case M_Binary
  from M_Binary.prems show ?case by cases (use M_Binary in \<open>auto dest: denotes_unique simp: equality_kind_def order_kind_def\<close>)
next
  case M_Label
  from M_Label.prems show ?case by cases (use M_Label in \<open>auto dest: denotes_unique simp: equality_kind_def order_kind_def\<close>)
next
  case M_Not_Label
  from M_Not_Label.prems show ?case by cases (use M_Not_Label in \<open>auto dest: denotes_unique simp: equality_kind_def order_kind_def\<close>)
next
  case M_Equality
  from M_Equality.prems show ?case by cases (use M_Equality in \<open>auto dest: denotes_unique simp: equality_kind_def order_kind_def\<close>)
next
  case M_Comparison
  from M_Comparison.prems show ?case by cases (use M_Comparison in \<open>auto dest: denotes_unique simp: equality_kind_def order_kind_def\<close>)
next
  case M_Bus
  from M_Bus.prems show ?case by cases (use M_Bus in \<open>auto dest: denotes_unique simp: equality_kind_def order_kind_def\<close>)
next
  case M_Next
  from M_Next.prems show ?case by cases (use M_Next in \<open>auto dest: denotes_unique simp: equality_kind_def order_kind_def\<close>)
next
  case (M_Globally env lo l hi h a P strong)
  from M_Globally.prems obtain l' h' Q where l: "int_denotes s c' u' env lo l'" "int_denotes s c' u' env hi h'"
    and Q: "l' \<le> h' \<longrightarrow> means s c' u' L w env a Q" and P': "P' = (\<lambda>i. \<forall> j\<in>{l'..h'}. (next_step L strong ^^ nat j) Q i)"
    by cases simp_all
  have e: "l' = l" "h' = h" by (rule denotes_unique(1) [OF M_Globally.hyps(1) l(1)], rule denotes_unique(1) [OF M_Globally.hyps(2) l(2)])
  show ?case
  proof (cases "l \<le> h")
    case True
    with Q e M_Globally.IH have "Q = P" by blast
    then show ?thesis unfolding P' e by simp
  qed (simp add: P' e)
next
  case (M_Finally env lo l hi h a P strong)
  from M_Finally.prems obtain l' h' Q where l: "int_denotes s c' u' env lo l'" "int_denotes s c' u' env hi h'"
    and Q: "l' \<le> h' \<longrightarrow> means s c' u' L w env a Q" and P': "P' = (\<lambda>i. \<exists> j\<in>{l'..h'}. (next_step L strong ^^ nat j) Q i)"
    by cases simp_all
  have e: "l' = l" "h' = h" by (rule denotes_unique(1) [OF M_Finally.hyps(1) l(1)], rule denotes_unique(1) [OF M_Finally.hyps(2) l(2)])
  show ?case
  proof (cases "l \<le> h")
    case True
    with Q e M_Finally.IH have "Q = P" by blast
    then show ?thesis unfolding P' e by simp
  qed (simp add: P' e)
next
  case (M_Forall env dm xs v body Ps)
  from M_Forall.prems obtain ys Qs where ys: "ranges s c' u' env dm ys" and P': "P' = (\<lambda>i. \<forall> Q\<in>set Qs. Q i)"
    and Qs: "list_all2 (\<lambda>x. means s c' u' L w (scope_with v env x) (body_with v body x)) ys Qs"
    by cases simp_all
  have "ys = xs" by (rule denotes_unique(5) [OF M_Forall.hyps(1) ys])
  with Qs list_all2_unique [OF M_Forall.IH(1)] have "Qs = Ps" by blast
  then show ?case unfolding P' by simp
next
  case (M_Exists env dm xs v body Ps)
  from M_Exists.prems obtain ys Qs where ys: "ranges s c' u' env dm ys" and P': "P' = (\<lambda>i. \<exists> Q\<in>set Qs. Q i)"
    and Qs: "list_all2 (\<lambda>x. means s c' u' L w (scope_with v env x) (body_with v body x)) ys Qs"
    by cases simp_all
  have "ys = xs" by (rule denotes_unique(5) [OF M_Exists.hyps(1) ys])
  with Qs list_all2_unique [OF M_Exists.IH(1)] have "Qs = Ps" by blast
  then show ?case unfolding P' by simp
next
  case M_Ite
  from M_Ite.prems show ?case by cases (use M_Ite in \<open>auto dest: denotes_unique simp: equality_kind_def order_kind_def\<close>)
next
  case M_Call
  from M_Call.prems show ?case by cases (use M_Call in \<open>auto dest: denotes_unique simp: equality_kind_def order_kind_def\<close>)
qed

subsection \<open>Expansion preserves the meaning\<close>

text \<open>
  C6. Expansion preserves meaning.  Under the resolved parameters each formula of the six sections
  has exactly one meaning by the rules of \<open>Expand_Meaning\<close>, and it is the meaning of its expansion,
  on every word, finite or infinite.  The rules read a call as the body of the definition with the
  arguments written in; a meaning that needs no name to be captured there is the same one.
\<close>

theorem expand_meaning_preserved:
  assumes "expand s ovs = Inr s'"
  shows "\<exists>env s3. resolve_spec s ovs = Inr (env, s3) \<and>
    list_all2 (list_all2 (\<lambda>n m. (\<forall>P. means s3 any_call any_subst L w env n P \<longleftrightarrow> P = sat L w m) \<and>
        (\<forall>P. means s3 (unmixed_call env) unmixed L w env n P \<longrightarrow> P = sat L w m))) (sections s) (sections s')"
proof -
  obtain env s3 where r: "resolve_spec s ovs = Inr (env, s3)"
    and sec: "list_all2 (list_all2 (\<lambda>n m. expand_node s3 n env 0 = Inr m)) (sections s) (sections s')"
    using expand_result [OF assms] by metis
  have "list_all2 (list_all2 (\<lambda>n m. (\<forall>P. means s3 any_call any_subst L w env n P \<longleftrightarrow> P = sat L w m) \<and>
      (\<forall>P. means s3 (unmixed_call env) unmixed L w env n P \<longrightarrow> P = sat L w m))) (sections s) (sections s')"
  proof (rule list_all2_mono [OF sec], erule list_all2_mono)
    fix n m assume "expand_node s3 n env 0 = Inr m"
    note m = evaluators_denote(10) [OF this, of L w]
    from m means_unique [OF m]
    show "(\<forall>P. means s3 any_call any_subst L w env n P \<longleftrightarrow> P = sat L w m) \<and>
      (\<forall>P. means s3 (unmixed_call env) unmixed L w env n P \<longrightarrow> P = sat L w m)" by blast
  qed
  with r show ?thesis by blast
qed

text \<open>A definition called with a bus element under a quantifier, and a guard on a parameter.\<close>

definition guarded_body :: node where
  "guarded_body = Ite (HlBinary NODE_CMP_EQ (NodeAp ''n'') (NodeInt 3)) (node_g (node_f (NodeAp ''x''))) (node_f (NodeAp ''x''))"

definition guarded_call :: node where
  "guarded_call = Quant NODE_FORALL ''i'' (RangeBinder (NodeInt 0) False (NodeAp ''n'') True)
     (Call NODE_DEF_CALL ''f'' [BusIndex ''r'' (IntVar ''i'')])"

definition guarded_spec :: tlsf_spec where
  "guarded_spec = demo_spec\<lparr>guarantee := \<lparr>items = [guarded_call], capacity = 8\<rparr>,
     spec_defs := \<lparr>items = [\<lparr>dd_name = ''f'', dd_params = [''x''], dd_body = guarded_body\<rparr>], capacity = 8\<rparr>\<rparr>"

lemma guarded_expand:
  "case expand guarded_spec [(''n'', 3)] of Inr s' \<Rightarrow>
     items (guarantee s') = [node_and (node_and (node_g (node_f (NodeAp ''r_0''))) (node_g (node_f (NodeAp ''r_1''))))
       (node_g (node_f (NodeAp ''r_2'')))] | Inl _ \<Rightarrow> False"
  by code_simp

lemma guarded_resolve:
  "case resolve_spec guarded_spec [(''n'', 3)] of Inr (env, s3) \<Rightarrow> env ''n'' = Some 3 \<and> env ''x'' = None \<and>
     find_def s3 ''f'' 1 = Some \<lparr>dd_name = ''f'', dd_params = [''x''], dd_body = guarded_body\<rparr> \<and> find_def s3 ''r'' 0 = None
   | Inl _ \<Rightarrow> False"
  by code_simp

lemma guarded_unmixed:
  assumes "resolve_spec guarded_spec [(''n'', 3)] = Inr (env, s3)"
  shows "\<exists>P. means s3 (unmixed_call env) unmixed L w env guarded_call P"
proof -
  let ?m = "means s3 (unmixed_call env) unmixed L w"
  let ?d = "\<lparr>dd_name = ''f'', dd_params = [''x''], dd_body = guarded_body\<rparr>"
  let ?P = "\<lambda>v. un_sem L NODE_G (un_sem L NODE_F (\<lambda>i. bus_elem_name ''r'' v \<in> w i))"
  from guarded_resolve assms have r: "env ''n'' = Some 3" "find_def s3 ''f'' 1 = Some ?d" by simp_all
  have call: "?m (env(''i'' \<mapsto> v)) (Call NODE_DEF_CALL ''f'' [BusIndex ''r'' (IntVar ''i'')]) (?P v)" for v
  proof (rule M_Call)
    show "find_def s3 ''f'' (length [BusIndex ''r'' (IntVar ''i'')]) = Some ?d" using r(2) by simp
    show "unmixed_call env (env(''i'' \<mapsto> v)) (zip (dd_params ?d) [BusIndex ''r'' (IntVar ''i'')]) (dd_body ?d)"
      by (simp add: unmixed_call_def unmixed_def guarded_body_def)
    let ?g = "HlBinary NODE_CMP_EQ (NodeAp ''n'') (NodeInt 3)" and ?b = "BusIndex ''r'' (IntVar ''i'')"
    have n: "val_denotes s3 (unmixed_call env) unmixed (env(''i'' \<mapsto> v)) (NodeAp ''n'') (AbsInt 3)"
      by (rule Val_Bound [of _ "''n''"]) (simp_all add: r(1))
    have "val_denotes s3 (unmixed_call env) unmixed (env(''i'' \<mapsto> v)) (NodeInt 3) (AbsInt 3)"
      by (rule Val_Int [OF _ Int_Literal]) (simp add: is_int_expr_def)
    from Truth_Eq [OF n this] have "truth s3 (unmixed_call env) unmixed (env(''i'' \<mapsto> v)) ?g True" by simp
    note guard = Picks_Then [OF this]
    have "?m (env(''i'' \<mapsto> v)) ?b (\<lambda>i. bus_elem_name ''r'' v \<in> w i)"
      by (rule M_Bus, rule Int_Bound [of _ "''i''"]) simp_all
    from M_Ite [OF guard M_Unary [OF M_Unary [OF this]]]
    have "?m (env(''i'' \<mapsto> v)) (Ite ?g (node_g (node_f ?b)) (node_f ?b)) (?P v)" .
    moreover have "instantiate ?d [?b] = Ite ?g (node_g (node_f ?b)) (node_f ?b)"
      by (simp add: guarded_body_def instantiate_def subst_name_def)
    ultimately show "?m (env(''i'' \<mapsto> v)) (instantiate ?d [?b]) (?P v)" by (simp only:)
  qed
  have "ranges s3 (unmixed_call env) unmixed env (RangeBinder (NodeInt 0) False (NodeAp ''n'') True)
      (map EvalInt [if False then 0 + 1 else 0..if True then 3 - 1 else 3])"
    by (rule Ranges_Integers [OF Int_Literal Int_Bound [of _ "''n''"]]) (simp_all add: r(1))
  from M_Forall [OF this, of "''i''" "Call NODE_DEF_CALL ''f'' [BusIndex ''r'' (IntVar ''i'')]" L w "map ?P [0..2]"] call
  show ?thesis unfolding guarded_call_def
    by (auto simp: unmixed_def element_source_def scope_with_def body_with_def list_all2_map1 list_all2_map2 list.rel_refl)
qed

theorem expand_meaning_preserved_witness:
  "\<exists>s' env s3 m. expand guarded_spec [(''n'', 3)] = Inr s' \<and> resolve_spec guarded_spec [(''n'', 3)] = Inr (env, s3) \<and>
     items (guarantee s') = [m] \<and> means s3 (unmixed_call env) unmixed \<infinity> (\<lambda>i. {''r_1''}) env guarded_call (sat \<infinity> (\<lambda>i. {''r_1''}) m)"
proof -
  from guarded_expand obtain s' m where e: "expand guarded_spec [(''n'', 3)] = Inr s'" "items (guarantee s') = [m]"
    by (auto split: sum.splits)
  from expand_meaning_preserved [OF e(1), of \<infinity> "\<lambda>i. {''r_1''}"] obtain env s3 where
    r: "resolve_spec guarded_spec [(''n'', 3)] = Inr (env, s3)"
    and P: "\<forall>P. means s3 (unmixed_call env) unmixed \<infinity> (\<lambda>i. {''r_1''}) env guarded_call P \<longrightarrow> P = sat \<infinity> (\<lambda>i. {''r_1''}) m"
    using e(2) by (auto simp: sections_def guarded_spec_def)
  from guarded_unmixed [OF r] P have "means s3 (unmixed_call env) unmixed \<infinity> (\<lambda>i. {''r_1''}) env guarded_call (sat \<infinity> (\<lambda>i. {''r_1''}) m)"
    by blast
  with e r show ?thesis by blast
qed

end
