(* ===== verification/Expand_Claims.thy ===== *)
theory Expand_Claims
  imports Expand_Sound
begin

text \<open>
  Properties of the expander on top of its component lemmas: the names of the bus elements, sets
  and their sizes, runaway definitions, the fair environment after expansion, and two inputs on
  which expansion by substitution departs from the scopes of the source.
\<close>

subsection \<open>Names of bus elements\<close>

definition decimal_value :: "string \<Rightarrow> nat" where
  "decimal_value cs = foldl (\<lambda>a c. 10 * a + (of_char c - 48)) 0 cs"

lemma decimal_value_nat [simp]: "decimal_value (decimal_nat n) = n"
proof (induction n rule: decimal_nat.induct)
  case (1 n)
  show ?case
  proof (cases "n < 10")
    case True
    then show ?thesis by (simp add: decimal_nat.simps [of n] decimal_value_def)
  next
    case False
    then have "decimal_value (decimal_nat n) = 10 * decimal_value (decimal_nat (n div 10)) + n mod 10"
      by (simp add: decimal_nat.simps [of n] decimal_value_def)
    with 1 False show ?thesis by simp
  qed
qed

lemma length_decimal_nat: "n < 10 ^ Suc k \<Longrightarrow> length (decimal_nat n) \<le> Suc k"
proof (induction k arbitrary: n)
  case 0
  then show ?case by (simp add: decimal_nat.simps [of n])
next
  case (Suc k)
  show ?case
  proof (cases "n < 10")
    case True
    then show ?thesis by (simp add: decimal_nat.simps [of n])
  next
    case False
    have "n div 10 < 10 ^ Suc k" using Suc.prems by (simp add: less_mult_imp_div_less)
    from Suc.IH [OF this] False show ?thesis by (simp add: decimal_nat.simps [of n])
  qed
qed

lemma bus_elem_name_inject:
  assumes "length bus \<le> 249" "0 \<le> v" "v \<le> 65535" "0 \<le> v'" "v' \<le> 65535"
    and "bus_elem_name bus v = bus_elem_name bus v'"
  shows "v = v'"
proof -
  have len: "length (bus @ ''_'' @ decimal u) \<le> 255" if "0 \<le> u" "u \<le> 65535" for u
  proof -
    from that have "nat u < 10 ^ Suc 4" by simp
    from length_decimal_nat [OF this] show ?thesis using assms(1) that by (simp add: decimal_def)
  qed
  from assms(6) have "decimal v = decimal v'"
    using len [OF assms(2,3)] len [OF assms(4,5)] by (simp add: bus_elem_name_def)
  then have "decimal_value (decimal v) = decimal_value (decimal v')" by simp
  then have "nat v = nat v'" using assms(2,4) by (simp add: decimal_def)
  then show ?thesis using assms(2,4) by simp
qed

text \<open>
  The scalar signals of one bus have pairwise different names, as long as the name of the bus
  leaves room for the index in the 256 bytes of the formatting buffer.
\<close>

theorem exploded_names_distinct:
  assumes "length (sd_name d) \<le> 249"
  shows "distinct (exploded_names d)"
proof -
  have b: "0 \<le> uint (x :: u16) \<and> uint x \<le> 65535" for x
    using uint_lt2p [of x] by simp
  have "inj_on (bus_elem_name (sd_name d)) {uint (bus_lo d)..uint (bus_hi d)}"
    using b [of "bus_lo d"] b [of "bus_hi d"]
    by (intro inj_onI bus_elem_name_inject [OF assms]) (auto intro: order_trans)
  then show ?thesis by (simp add: exploded_names_def distinct_map)
qed

theorem exploded_names_distinct_witness:
  "distinct (exploded_names (items (inputs demo_spec) ! 0))"
  using exploded_names_distinct [of "items (inputs demo_spec) ! 0"] by (simp add: demo_spec_def)

text \<open>Beyond that length the names of all elements are cut to the same 255 characters.\<close>

lemma long_bus_name_collides:
  "255 \<le> length bus \<Longrightarrow> bus_elem_name bus v = bus_elem_name bus v'"
  by (simp add: bus_elem_name_def)

subsection \<open>Sets\<close>

text \<open>
  C34. The set operators evaluate to the union, intersection and difference of the sets their
  operands evaluate to, and the size of a set expression is the number of different values.
\<close>

theorem set_expressions_refine:
  assumes "set_op_kind k"
    and "eval_set s (HlBinary k l r) env d = Inr xs"
    and "eval_int s (HlUnary NODE_SET_SIZE (HlBinary k l r)) env d' = Inr cnt"
  shows "\<exists>ys zs. eval_set s l env (d + 1) = Inr ys \<and> eval_set s r env (d + 1) = Inr zs \<and>
    abs_items xs = abs_combine k (abs_items ys) (abs_items zs) \<and> cnt = int (fcard (abs_items xs))"
proof -
  from assms(1,2) obtain ys zs where 1: "eval_set s l env (d + 1) = Inr ys"
    "eval_set s r env (d + 1) = Inr zs" and xs: "xs = set_combine k ys zs"
    by (auto simp: eval_set_simps split: if_splits)
  have wf: "wf_items ys" "wf_items zs" using 1 eval_set_wf by auto
  from assms(3) obtain xs' where 2: "eval_set s (HlBinary k l r) env (d' + 1) = Inr xs'"
    and size: "cnt = int (length xs')"
    by (auto simp: eval_int_simps split: if_splits)
  have "xs' = xs"
    using depth_mono(4) [OF le0 2] depth_mono(4) [OF le0 assms(2)] by simp
  then have "cnt = int (fcard (abs_items xs))"
    using size eval_set_wf [OF assms(2)] by (simp add: length_wf_items)
  with 1 set_combine_refines(2) [OF assms(1) wf] xs show ?thesis by blast
qed

text \<open>
  A set range \<open>{a, b .. c}\<close> evaluates to the arithmetic progression from \<open>a\<close> in steps of
  \<open>b - a\<close>, upwards or downwards, cut off at \<open>c\<close>; stopping before the next addition leaves
  \<^verbatim>\<open>int64_t\<close> loses nothing.
\<close>

theorem set_range_progression:
  assumes "eval_set s (SetLit NODE_SET_ENUM [e1, e2, e3]) env d = Inr xs"
    and "eval_int s e1 env d1 = Inr a" "eval_int s e2 env d2 = Inr b" "eval_int s e3 env d3 = Inr c"
    and "in_int64 c"
  shows "a \<noteq> b \<and> fset (abs_items xs) = AbsInt ` progression a (b - a) c"
proof -
  from assms(1) obtain a' b' c' where e: "eval_int s e1 env (d + 1) = Inr a'"
    "eval_int s e2 env (d + 1) = Inr b'" "eval_int s e3 env (d + 1) = Inr c'"
    and ne: "b' - a' \<noteq> 0" and xs: "xs = int_set (range_enum a' (b' - a') c')"
    by (auto simp: eval_set_simps split: if_splits)
  have eq: "a' = a" "b' = b" "c' = c"
    using depth_mono(1) [OF le0 assms(2)] depth_mono(1) [OF le0 e(1)]
      depth_mono(1) [OF le0 assms(3)] depth_mono(1) [OF le0 e(2)]
      depth_mono(1) [OF le0 assms(4)] depth_mono(1) [OF le0 e(3)] by simp_all
  have "fset (abs_items xs) = AbsInt ` set (range_enum a (b - a) c)"
    by (simp add: xs eq int_set_refines fset_of_list.rep_eq)
  then show ?thesis using range_enum_progression [OF _ assms(5)] ne eq by simp
qed

definition two_sets :: "node \<times> node" where
  "two_sets = (SetLit NODE_SET_ENUM [NodeInt 1, NodeInt 3, NodeInt 6],
     SetLit NODE_SET [NodeInt 5, NodeAp ''a'', NodeInt 5])"

theorem set_expressions_refine_witness:
  "\<exists>ys zs. eval_set spec_new (fst two_sets) Map.empty 1 = Inr ys \<and>
     eval_set spec_new (snd two_sets) Map.empty 1 = Inr zs \<and>
     {|AbsInt 1, AbsInt 3, AbsInt 5, AbsNode (NodeAp ''a'')|} =
       abs_combine NODE_SET_UNION (abs_items ys) (abs_items zs)"
proof -
  have "eval_set spec_new (HlBinary NODE_SET_UNION (fst two_sets) (snd two_sets)) Map.empty 0 =
      Inr [EvalInt 1, EvalInt 3, EvalInt 5, EvalNode (NodeAp ''a'')]"
    and "eval_int spec_new (HlUnary NODE_SET_SIZE (HlBinary NODE_SET_UNION (fst two_sets) (snd two_sets)))
      Map.empty 0 = Inr 4"
    by code_simp+
  from set_expressions_refine [OF _ this] show ?thesis
    by (auto simp: set_op_kind_def numeral_eq_Suc)
qed

theorem set_range_progression_witness:
  "AbsInt ` progression 7 (- 3) 0 = {AbsInt 7, AbsInt 4, AbsInt 1}"
proof -
  have e: "eval_set spec_new (SetLit NODE_SET_ENUM [NodeInt 7, NodeInt 4, NodeInt 0]) Map.empty 0 =
      Inr [EvalInt 7, EvalInt 4, EvalInt 1]"
    "eval_int spec_new (NodeInt 7) Map.empty 0 = Inr 7" "eval_int spec_new (NodeInt 4) Map.empty 0 = Inr 4"
    "eval_int spec_new (NodeInt 0) Map.empty 0 = Inr 0"
    by code_simp+
  have "in_int64 0" by (simp add: in_int64_def INT64_MIN_def INT64_MAX_def)
  from set_range_progression [OF e this] show ?thesis by simp
qed

subsection \<open>Runaway definitions\<close>

text \<open>
  The definition \<open>f\<close> with \<open>k\<close> parameters is expanded on the way to every result for the formula: it is
  called (or, without parameters, named) outside guards, quantifiers and arguments.
\<close>

fun needs :: "string \<Rightarrow> nat \<Rightarrow> node \<Rightarrow> bool" where
  "needs f k (NodeAp x) = (x = f \<and> k = 0)"
| "needs f k (Call c g args) = (c = NODE_DEF_CALL \<and> g = f \<and> length args = k)"
| "needs f k (Unary q a) = needs f k a"
| "needs f k (Binary q a b) = (needs f k a \<or> needs f k b)"
| "needs f k (NextN strong c a) = needs f k a"
| "needs f k _ = False"

lemma needs_subst: "needs f k n \<Longrightarrow> k = 0 \<longrightarrow> bs = [] \<Longrightarrow> needs f k (subst_node bs n)"
  by (induction n) auto

lemma find_def_params: "find_def s f k = Some d \<Longrightarrow> length (dd_params d) = k"
  by (auto simp: find_def_def find_Some_iff)

lemma needs_instantiate:
  assumes "find_def s f (length args) = Some d" and "needs f (length args) (dd_body d)"
  shows "needs f (length args) (instantiate d args)"
  unfolding instantiate_def by (rule needs_subst [OF assms(2)]) simp

text \<open>
  C36. A definition whose body refers directly to itself, with as many arguments, under unary, binary
  and \<^verbatim>\<open>X[n]\<close> operators never yields a formula: wherever such a reference stands in a formula, with
  whatever arguments, the depth guard ends the expansion with an error.
\<close>

theorem runaway_definition_fails:
  assumes "find_def s f k = Some d" and "needs f k (dd_body d)" and "needs f k n"
  shows "expand_node s n env depth \<noteq> Inr m"
  using assms(3)
proof (induction "MAX_DEPTH + 1 - depth" arbitrary: depth n m rule: less_induct)
  case less
  show ?case
  proof (cases "MAX_DEPTH < depth")
    case True
    then show ?thesis by (simp add: expand_node.simps)
  next
    case False
    have body: "needs f k b \<Longrightarrow> expand_node s b env (depth + 1) \<noteq> Inr m" for b m
      using False by (intro less.hyps) simp_all
    have "needs f k n \<Longrightarrow> expand_node s n env depth \<noteq> Inr m" for m
    proof (induction n arbitrary: m)
      case (NodeAp x)
      then show ?case using assms(1) body [OF assms(2)] False by (auto simp: expand_node_simps)
    next
      case (Call c g args)
      then have k: "c = NODE_DEF_CALL" "g = f" "length args = k" by simp_all
      have "needs f k (instantiate d args)" using needs_instantiate [of s f args d] assms(1,2) k(3) by simp
      from body [OF this] show ?case using assms(1) k False by (simp add: expand_node_simps)
    qed (auto simp: expand_node_simps split: if_splits)
    with less.prems show ?thesis by blast
  qed
qed

text \<open>\<open>f(x) = x \<or> X f(X x)\<close>.\<close>

definition runaway_spec :: tlsf_spec where
  "runaway_spec = spec_new\<lparr>spec_defs := \<lparr>items = [\<lparr>dd_name = ''f'', dd_params = [''x''],
     dd_body = node_or (NodeAp ''x'') (node_x (Call NODE_DEF_CALL ''f'' [node_x (NodeAp ''x'')]))\<rparr>], capacity = 8\<rparr>\<rparr>"

theorem runaway_definition_fails_witness:
  "expand_node runaway_spec (node_g (Call NODE_DEF_CALL ''f'' [NodeAp ''b''])) Map.empty 0 \<noteq> Inr (NodeAp ''a'')"
  by (rule runaway_definition_fails [where f = "''f''" and k = 1 and d = "\<lparr>dd_name = ''f'', dd_params = [''x''],
     dd_body = node_or (NodeAp ''x'') (node_x (Call NODE_DEF_CALL ''f'' [node_x (NodeAp ''x'')]))\<rparr>"])
    (simp_all add: runaway_spec_def find_def_def)

subsection \<open>The fair environment after expansion\<close>

text \<open>
  The fairness assumption generated for a bus input is, once expanded, that every bit of the
  bus is infinitely often set (or, negated, infinitely often clear).
\<close>

theorem fair_bus_expansion:
  assumes "expand_node s (fair_input_formula d FAIR_INDEX negated) env depth = Inr m"
    and "is_bus d" and "eval_bound s env (bus_lo d) (bus_lo_expr d) = Inr lo"
    and "eval_bound s env (bus_hi d) (bus_hi_expr d) = Inr hi"
  shows "sat L w m i \<longleftrightarrow> (\<forall>v\<in>{lo..hi}.
    alw L (ev L (\<lambda>j. (bus_elem_name (sd_name d) v \<in> w j) \<noteq> negated)) i)"
proof -
  let ?e = "\<lambda>b e. case e of Some n \<Rightarrow> n | None \<Rightarrow> NodeInt (uint (b :: u16))"
  let ?m = "means s any_call any_subst L w"
  let ?a = "\<lambda>v i. (bus_elem_name (sd_name d) v \<in> w i) \<noteq> negated"
  let ?bit = "if negated then node_not (BusIndex (sd_name d) (IntVar FAIR_INDEX)) else BusIndex (sd_name d) (IntVar FAIR_INDEX)"
  have bound: "int_denotes s any_call any_subst env (?e b e) v" if "eval_bound s env b e = Inr v" for b e v
    using that evaluators_denote(1) [of s _ env 0 v] by (auto simp: eval_bound_def intro: Int_Literal split: option.splits)
  have bit: "?m (env(FAIR_INDEX \<mapsto> v)) (node_g (node_f ?bit)) (alw L (ev L (?a v)))" for v
  proof -
    have "?m (env(FAIR_INDEX \<mapsto> v)) (BusIndex (sd_name d) (IntVar FAIR_INDEX)) (\<lambda>i. bus_elem_name (sd_name d) v \<in> w i)"
      by (rule M_Bus, rule Int_Bound [of _ FAIR_INDEX]) simp_all
    then have "?m (env(FAIR_INDEX \<mapsto> v)) ?bit (?a v)" using M_Unary [of s _ _ L w _ _ _ NODE_NOT] by fastforce
    from M_Unary [OF M_Unary [OF this], of NODE_G NODE_F] show ?thesis by simp
  qed
  have f: "fair_input_formula d FAIR_INDEX negated = Quant NODE_FORALL FAIR_INDEX
      (RangeBinder (?e (bus_lo d) (bus_lo_expr d)) False (?e (bus_hi d) (bus_hi_expr d)) False) (node_g (node_f ?bit))"
    using assms(2) by (simp add: fair_input_formula_def Let_def)
  have "ranges s any_call any_subst env (RangeBinder (?e (bus_lo d) (bus_lo_expr d)) False (?e (bus_hi d) (bus_hi_expr d)) False)
      (map EvalInt [if False then lo + 1 else lo..if False then hi - 1 else hi])"
    by (rule Ranges_Integers [OF bound [OF assms(3)] bound [OF assms(4)]])
  from M_Forall [OF this, where v = FAIR_INDEX and body = "node_g (node_f ?bit)" and Ps = "map (\<lambda>v. alw L (ev L (?a v))) [lo..hi]"] bit
  have "?m env (fair_input_formula d FAIR_INDEX negated) (\<lambda>i. \<forall>v\<in>{lo..hi}. alw L (ev L (?a v)) i)"
    unfolding f by (simp add: element_source_def scope_with_def body_with_def list_all2_map1 list_all2_map2 list.rel_refl)
  from means_unique [OF evaluators_denote(10) [OF assms(1)] this] show ?thesis by (simp add: fun_eq_iff)
qed

definition fair_demo_signal :: signal_decl where
  "fair_demo_signal = (items (inputs demo_spec) ! 0)\<lparr>bus_lo_expr := None, bus_hi := 1, bus_hi_expr := None\<rparr>"

theorem fair_bus_expansion_witness:
  "alw \<infinity> (ev \<infinity> (\<lambda>j. (bus_elem_name ''r'' 1 \<in> {''r_0'', ''r_1''}) \<noteq> False)) 0"
proof -
  let ?m = "node_and (node_g (node_f (NodeAp ''r_0''))) (node_g (node_f (NodeAp ''r_1'')))"
  have e: "expand_node spec_new (fair_input_formula fair_demo_signal FAIR_INDEX False) Map.empty 0 = Inr ?m"
    by code_simp
  have d: "is_bus fair_demo_signal" "sd_name fair_demo_signal = ''r''"
    "eval_bound spec_new Map.empty (bus_lo fair_demo_signal) (bus_lo_expr fair_demo_signal) = Inr 0"
    "eval_bound spec_new Map.empty (bus_hi fair_demo_signal) (bus_hi_expr fair_demo_signal) = Inr 1"
    by (simp_all add: fair_demo_signal_def demo_spec_def eval_bound_def)
  have "sat \<infinity> (\<lambda>i. {''r_0'', ''r_1''}) ?m 0" by (auto simp: temporal_defs)
  with fair_bus_expansion [OF e d(1,3,4), of \<infinity> "\<lambda>i. {''r_0'', ''r_1''}" 0] show ?thesis
    unfolding d(2) by simp
qed

subsection \<open>Where expansion departs from the scopes of the source\<close>

text \<open>\<open>f(x) = ||[0 <= v <= 1] (x && c[v])\<close>, with the bound variable as a parameter.\<close>

definition capture_spec :: "string \<Rightarrow> tlsf_spec" where
  "capture_spec v = spec_new\<lparr>spec_defs := \<lparr>items = [\<lparr>dd_name = ''f'', dd_params = [''x''],
     dd_body = Quant NODE_EXISTS v (RangeBinder (NodeInt 0) False (NodeInt 1) False)
       (node_and (NodeAp ''x'') (BusIndex ''c'' (IntVar v)))\<rparr>], capacity = 8\<rparr>\<rparr>"

definition capture_call :: node where
  "capture_call = Quant NODE_FORALL ''i'' (RangeBinder (NodeInt 0) False (NodeInt 1) False)
     (Call NODE_DEF_CALL ''f'' [BusIndex ''b'' (IntVar ''i'')])"

text \<open>
  Substitution into a definition captures: renaming the bound variable of a definition from
  \<open>j\<close> to the variable \<open>i\<close> of the calling quantifier changes the meaning of the call, because
  the argument \<open>b[i]\<close> is read under the definition's own quantifier.
\<close>

theorem definition_call_captures:
  "\<exists>m m'. expand_node (capture_spec ''j'') capture_call Map.empty 0 = Inr m \<and>
     expand_node (capture_spec ''i'') capture_call Map.empty 0 = Inr m' \<and> \<not> sem_eq \<infinity> m m'"
proof -
  let ?b0 = "NodeAp ''b_0''" and ?b1 = "NodeAp ''b_1''" and ?c0 = "NodeAp ''c_0''" and ?c1 = "NodeAp ''c_1''"
  let ?m = "node_and (node_or (node_and ?b0 ?c0) (node_and ?b0 ?c1)) (node_or (node_and ?b1 ?c0) (node_and ?b1 ?c1))"
  let ?m' = "node_and (node_or (node_and ?b0 ?c0) (node_and ?b1 ?c1)) (node_or (node_and ?b0 ?c0) (node_and ?b1 ?c1))"
  have "expand_node (capture_spec ''j'') capture_call Map.empty 0 = Inr ?m"
    "expand_node (capture_spec ''i'') capture_call Map.empty 0 = Inr ?m'"
    by code_simp+
  moreover have "sat \<infinity> (\<lambda>i. {''b_0'', ''c_0''}) ?m' 0 \<noteq> sat \<infinity> (\<lambda>i. {''b_0'', ''c_0''}) ?m 0" by simp
  then have "\<not> sem_eq \<infinity> ?m ?m'"
    using sem_eqD [of \<infinity> ?m ?m' 0 "\<lambda>i. {''b_0'', ''c_0''}"] by auto
  ultimately show ?thesis by blast
qed

text \<open>
  Formulas are put into sets unexpanded, without the environment they were found in: the union
  over \<open>i\<close> of the sets \<open>{b[i]}\<close> has one element instead of two, and using that element outside the
  union fails.
\<close>

theorem set_of_formulas_forgets_scope:
  "eval_int spec_new (HlUnary NODE_SET_SIZE (Quant NODE_SET_BIG_UNION ''i''
      (RangeBinder (NodeInt 0) False (NodeInt 1) False)
      (SetLit NODE_SET [BusIndex ''b'' (IntVar ''i'')]))) Map.empty 0 = Inr 1 \<and>
   expand_node spec_new (Quant NODE_FORALL ''p'' (SetBinder (Quant NODE_SET_BIG_UNION ''i''
      (RangeBinder (NodeInt 0) False (NodeInt 1) False)
      (SetLit NODE_SET [BusIndex ''b'' (IntVar ''i'')]))) (NodeAp ''p'')) Map.empty 0 =
     Inl (Undefined_Variable ''i'')"
  by code_simp

end
