(* ===== verification/Expand_Pattern.thy ===== *)
theory Expand_Pattern
  imports Expand Ltl_Semantics
begin

text \<open>
  The two matchers of the expander.  \<^verbatim>\<open>match_pattern\<close> against the declarative notion of an
  instance: a match returns bindings under which the pattern is the subject, a mismatch means
  that no bindings make it so.  The formula for \<^verbatim>\<open>bus == LABEL\<close> against the valuations the label
  lists.
\<close>

subsection \<open>Patterns\<close>

text \<open>\<open>n\<close> is the pattern with its identifiers read by \<open>bs\<close>; \<^verbatim>\<open>_\<close> stands for anything.\<close>

fun instance_of :: "bindings \<Rightarrow> node \<Rightarrow> node \<Rightarrow> bool" where
  "instance_of bs (NodeAp x) n = (x = ''_'' \<or> map_of bs x = Some n)"
| "instance_of bs NodeTrue n = (n = NodeTrue)"
| "instance_of bs NodeFalse n = (n = NodeFalse)"
| "instance_of bs (Unary k p) n = (case n of Unary k' a \<Rightarrow> k' = k \<and> instance_of bs p a | _ \<Rightarrow> False)"
| "instance_of bs (Binary k p q) n =
     (case n of Binary k' a b \<Rightarrow> k' = k \<and> instance_of bs p a \<and> instance_of bs q b | _ \<Rightarrow> False)"
| "instance_of bs _ n = False"

lemma instance_of_mono:
  "instance_of bs p n \<Longrightarrow> map_of bs \<subseteq>\<^sub>m map_of bs' \<Longrightarrow> instance_of bs' p n"
  by (induction bs p n rule: instance_of.induct) (auto simp: map_le_def dom_def split: node.splits)

text \<open>Without wildcards the substitution that expands the branch rebuilds the subject.\<close>

lemma instance_of_subst: "instance_of bs p n \<Longrightarrow> ''_'' \<notin> atoms p \<Longrightarrow> subst_node bs p = n"
  by (induction bs p n rule: instance_of.induct) (auto split: node.splits)

lemma match_pattern_sound:
  "match_pattern s n p bs = Inr (Some bs') \<Longrightarrow> instance_of bs' p n \<and> map_of bs \<subseteq>\<^sub>m map_of bs'"
proof (induction s n p bs arbitrary: bs' rule: match_pattern.induct)
  case (5 s subject k p q bs)
  from "5.prems" obtain a b bs1 where n: "subject = Binary k a b"
    and 1: "match_pattern s a p bs = Inr (Some bs1)" and 2: "match_pattern s b q bs1 = Inr (Some bs')"
    by (auto split: node.splits if_splits option.splits)
  have "instance_of bs1 p a" "map_of bs \<subseteq>\<^sub>m map_of bs1"
    using "5.IH"(1) [OF n refl 1] by simp_all
  moreover have "instance_of bs' q b" "map_of bs1 \<subseteq>\<^sub>m map_of bs'"
    using "5.IH"(2) [OF n refl 1 refl 2] by simp_all
  ultimately show ?case
    by (auto simp: n intro: instance_of_mono map_le_trans)
qed (auto simp: node_structural_equal_iff map_le_def split: if_splits option.splits node.splits)

lemma match_pattern_complete:
  "match_pattern s n p bs = Inr r \<Longrightarrow> instance_of \<sigma> p n \<Longrightarrow> map_of bs \<subseteq>\<^sub>m map_of \<sigma> \<Longrightarrow>
   \<exists>bs'. r = Some bs' \<and> map_of bs' \<subseteq>\<^sub>m map_of \<sigma>"
proof (induction s n p bs arbitrary: r rule: match_pattern.induct)
  case (1 s subject x bs)
  have "map_of bs x = Some v \<Longrightarrow> map_of \<sigma> x = Some v" for v
    using "1.prems"(3) by (metis domI map_le_def)
  with 1 show ?case
    by (auto simp: node_structural_equal_iff map_le_def split: if_splits option.splits)
next
  case (5 s subject k p q bs)
  from "5.prems"(2) obtain a b where n: "subject = Binary k a b"
    and p: "instance_of \<sigma> p a" and q: "instance_of \<sigma> q b" by (auto split: node.splits)
  from "5.prems"(1) obtain r1 where 1: "match_pattern s a p bs = Inr r1"
    and 2: "(case r1 of Some bs1 \<Rightarrow> match_pattern s b q bs1 | None \<Rightarrow> Inr None) = Inr r"
    by (auto simp: n)
  from "5.IH"(1) [OF n refl 1 p "5.prems"(3)] obtain bs1 where
    r1: "r1 = Some bs1" "map_of bs1 \<subseteq>\<^sub>m map_of \<sigma>" by blast
  with 2 have "match_pattern s b q bs1 = Inr r" by simp
  from "5.IH"(2) [OF n refl 1 r1(1) this q r1(2)] show ?case .
qed (auto split: if_splits node.splits)

text \<open>
  C35. Pattern matching decides instances.  A match binds the identifiers of the pattern so that
  the pattern is the subject, literally so after substitution when it has no wildcard; a
  mismatch means that no binding of the identifiers makes the pattern the subject.
\<close>

theorem match_pattern_decides:
  assumes "match_pattern s subject pattern [] = Inr r"
  shows "case r of
      Some bs \<Rightarrow> instance_of bs pattern subject \<and>
        (if ''_'' \<in> atoms pattern then True else subst_node bs pattern = subject)
    | None \<Rightarrow> \<not> (\<exists>bs. instance_of bs pattern subject)"
proof (cases r)
  case None
  have "\<not> instance_of bs pattern subject" for bs
    using match_pattern_complete [OF assms, of bs] None by auto
  then show ?thesis by (simp add: None)
next
  case (Some bs)
  then have "instance_of bs pattern subject" using match_pattern_sound assms by blast
  then show ?thesis by (simp add: Some instance_of_subst)
qed

theorem match_pattern_decides_witness:
  "instance_of [(''p'', node_x (NodeAp ''a''))] (node_u (NodeAp ''p'') (NodeAp ''p''))
     (node_u (node_x (NodeAp ''a'')) (node_x (NodeAp ''a'')))"
  using match_pattern_decides [of spec_new "node_u (node_x (NodeAp ''a'')) (node_x (NodeAp ''a''))"
      "node_u (NodeAp ''p'') (NodeAp ''p'')" "Some [(''p'', node_x (NodeAp ''a''))]"]
  by (simp add: name_is_declared_def spec_new_def empty_growable_def)

subsection \<open>Enum labels\<close>

text \<open>The bits of one valuation, from index \<open>i\<close> on, as a letter gives them.\<close>

fun bits_hold :: "string \<Rightarrow> int \<Rightarrow> letter \<Rightarrow> string \<Rightarrow> bool" where
  "bits_hold bus i letter [] = True"
| "bits_hold bus i letter (c # cs) =
     ((c = CHR ''*'' \<or> (bus_elem_name bus i \<in> letter) = (c = CHR ''1'')) \<and>
      bits_hold bus (i + 1) letter cs)"

lemma sat_match_bits:
  "sat L w (case match_bits bus i acc bits of Some m \<Rightarrow> m | None \<Rightarrow> NodeTrue) j =
   (sat L w (case acc of Some m \<Rightarrow> m | None \<Rightarrow> NodeTrue) j \<and> bits_hold bus i (w j) bits)"
  by (induction bus i acc bits rule: match_bits.induct)
     (auto simp: Let_def bus_elem_node_def split: option.split)

lemma sat_match_valuation: "sat L w (match_valuation bus bits) j = bits_hold bus 0 (w j) bits"
  using sat_match_bits [of L w bus 0 None bits j] by (simp add: match_valuation_def)

text \<open>
  The formula for a comparison with an enum label holds in a letter iff one of the label's
  comma-separated valuations agrees with the bus bit by bit, a star agreeing with both values.
\<close>

theorem match_label_correct:
  "sat L w (match_label bus bits) j = list_ex (bits_hold bus 0 (w j)) (label_valuations bits)"
proof -
  have "sat L w (case foldl (\<lambda>acc v. Some (case acc of None \<Rightarrow> match_valuation bus v
          | Some a \<Rightarrow> node_or a (match_valuation bus v))) acc vs of Some a \<Rightarrow> a | None \<Rightarrow> NodeFalse) j =
      (sat L w (case acc of Some a \<Rightarrow> a | None \<Rightarrow> NodeFalse) j \<or> list_ex (bits_hold bus 0 (w j)) vs)" for acc vs
    by (induction vs arbitrary: acc) (auto simp: sat_match_valuation split: option.split)
  from this [of None "label_valuations bits"] show ?thesis by (simp add: match_label_def)
qed

end
