(* ===== verification/Expand_Width.thy ===== *)
theory Expand_Width
  imports Expand_Spec
begin

text \<open>
  The recogniser of computed bit widths in \<^verbatim>\<open>src/lib/expand.c\<close>: \<^verbatim>\<open>proves_floor_log2\<close> and
  \<^verbatim>\<open>proves_bit_width\<close> look at the shape of two definitions of the specification and claim that
  they compute a logarithm and the width of a binary encoding.  Here is the proof that
  every definition they accept does, for the evaluator of the expander.
\<close>

subsection \<open>The recogniser\<close>

definition is_formal :: "node \<Rightarrow> string \<Rightarrow> bool" where
  "is_formal n formal = (case n of NodeAp x \<Rightarrow> x = formal | IntVar x \<Rightarrow> x = formal | _ \<Rightarrow> False)"

definition is_integer :: "node \<Rightarrow> int \<Rightarrow> bool" where
  "is_integer n v = (case n of NodeInt i \<Rightarrow> i = v | _ \<Rightarrow> False)"

definition is_formal_comparison :: "node \<Rightarrow> hl_bin_kind \<Rightarrow> string \<Rightarrow> int \<Rightarrow> bool" where
  "is_formal_comparison n k formal v =
     (case n of HlBinary k' l r \<Rightarrow> k' = k \<and> is_formal l formal \<and> is_integer r v | _ \<Rightarrow> False)"

definition otherwise_value :: "node \<Rightarrow> node option" where
  "otherwise_value n = (case n of Ite NodeTrue t e \<Rightarrow> Some t | _ \<Rightarrow> None)"

definition one_plus :: "node \<Rightarrow> node option" where
  "one_plus n = (case n of
     HlBinary k l r \<Rightarrow>
       if k \<noteq> NODE_INT_ADD then None
       else if is_integer l 1 then Some r
       else if is_integer r 1 then Some l else None
   | _ \<Rightarrow> None)"

text \<open>The step of a recursive definition: \<open>1 + \<dots>\<close> in the \<^verbatim>\<open>otherwise\<close> branch.\<close>

definition otherwise_step :: "node \<Rightarrow> node option" where
  "otherwise_step n = (case otherwise_value n of None \<Rightarrow> None | Some t \<Rightarrow> one_plus t)"

text \<open>A call with one argument.\<close>

definition unary_call :: "node \<Rightarrow> (string \<times> node) option" where
  "unary_call n = (case n of
     Call k f args \<Rightarrow>
       if k = NODE_DEF_CALL then (case args of [a] \<Rightarrow> Some (f, a) | _ \<Rightarrow> None) else None
   | _ \<Rightarrow> None)"

definition step_call :: "node \<Rightarrow> (string \<times> node) option" where
  "step_call n = (case otherwise_step n of None \<Rightarrow> None | Some step \<Rightarrow> unary_call step)"

text \<open>
  The common shape of the two definitions, \<open>if x cmp v then 0 otherwise 1 + callee(arg)\<close>: the
  formal parameter, the callee and its argument.
\<close>

definition guarded_step :: "def_decl \<Rightarrow> hl_bin_kind \<Rightarrow> int \<Rightarrow> (string \<times> string \<times> node) option" where
  "guarded_step d cmp v = (case dd_params d of
     [formal] \<Rightarrow>
       (case dd_body d of
          Ite c t e \<Rightarrow>
            if is_formal_comparison c cmp formal v \<and> is_integer t 0
            then map_option (Pair formal) (step_call e) else None
        | _ \<Rightarrow> None)
   | _ \<Rightarrow> None)"

definition proves_floor_log2 :: "def_decl option \<Rightarrow> bool" where
  "proves_floor_log2 def = (case def of
     None \<Rightarrow> False
   | Some d \<Rightarrow>
       (case guarded_step d NODE_CMP_LE 1 of
          Some (formal, callee, arg) \<Rightarrow>
            callee = dd_name d \<and> is_formal_comparison arg NODE_INT_DIV formal 2
        | None \<Rightarrow> False))"

definition proves_bit_width :: "tlsf_spec \<Rightarrow> node \<Rightarrow> bool" where
  "proves_bit_width s width = (case width of
     HlBinary k lhs rhs \<Rightarrow>
       k = NODE_INT_SUB \<and> is_integer rhs 1 \<and>
       (case unary_call lhs of
          None \<Rightarrow> False
        | Some (callee, _) \<Rightarrow>
            (case find_def s callee 1 of
               None \<Rightarrow> False
             | Some d \<Rightarrow>
                 (case guarded_step d NODE_CMP_EQ 0 of
                    Some (formal, callee', arg) \<Rightarrow>
                      is_formal_comparison arg NODE_INT_SUB formal 1 \<and>
                      proves_floor_log2 (find_def s callee' 1)
                  | None \<Rightarrow> False)))
   | _ \<Rightarrow> False)"

subsection \<open>Shapes\<close>

lemma is_integer_iff [simp]: "is_integer n v \<longleftrightarrow> n = NodeInt v"
  by (auto simp: is_integer_def split: node.splits)

lemma is_formal_subst: "is_formal n formal \<Longrightarrow> subst_node [(formal, a)] n = a"
  by (auto simp: is_formal_def split: node.splits)

lemma is_formal_comparison_subst:
  "is_formal_comparison n k formal v \<Longrightarrow>
   subst_node [(formal, a)] n = HlBinary k a (NodeInt v)"
  by (auto simp: is_formal_comparison_def is_formal_subst split: node.splits)

text \<open>The branch and the sum around the step, after substitution.\<close>

definition is_one_plus :: "node \<Rightarrow> node \<Rightarrow> bool" where
  "is_one_plus n step \<longleftrightarrow>
     n = HlBinary NODE_INT_ADD (NodeInt 1) step \<or> n = HlBinary NODE_INT_ADD step (NodeInt 1)"

lemma unary_call_iff [simp]: "unary_call n = Some (f, a) \<longleftrightarrow> n = Call NODE_DEF_CALL f [a]"
  by (auto simp: unary_call_def split: node.splits list.splits)

lemma step_call_subst:
  assumes "step_call n = Some (f, arg)"
  shows "\<exists>m e. subst_node bs n = Ite NodeTrue m e \<and>
    is_one_plus m (Call NODE_DEF_CALL f [subst_node bs arg])"
  using assms
  by (auto simp: step_call_def otherwise_step_def otherwise_value_def one_plus_def is_one_plus_def
      split: node.splits if_splits option.splits)

lemma find_def_name: "find_def s f k = Some d \<Longrightarrow> dd_name d = f \<and> length (dd_params d) = k"
  unfolding find_def_def by (drule find_Some_iff [THEN iffD1]) auto

lemma guarded_step_shape:
  assumes "guarded_step d cmp v = Some (formal, f, arg)" and "is_formal_comparison arg k formal i"
  shows "\<exists>m e. instantiate d [a] = Ite (HlBinary cmp a (NodeInt v)) (NodeInt 0) (Ite NodeTrue m e) \<and>
    is_one_plus m (Call NODE_DEF_CALL f [HlBinary k a (NodeInt i)])"
proof -
  from assms(1) obtain c e where p: "dd_params d = [formal]" and body: "dd_body d = Ite c (NodeInt 0) e"
    and c: "is_formal_comparison c cmp formal v" and e: "step_call e = Some (f, arg)"
    by (auto simp: guarded_step_def split: list.splits node.splits if_splits)
  from step_call_subst [OF e, of "[(formal, a)]"] show ?thesis
    by (auto simp: instantiate_def p body is_formal_comparison_subst [OF c]
        is_formal_comparison_subst [OF assms(2)])
qed

lemma floor_log2_shape:
  assumes "find_def s f 1 = Some d" "proves_floor_log2 (Some d)"
  shows "\<exists>m e. instantiate d [a] = Ite (HlBinary NODE_CMP_LE a (NodeInt 1)) (NodeInt 0) (Ite NodeTrue m e) \<and>
    is_one_plus m (Call NODE_DEF_CALL f [HlBinary NODE_INT_DIV a (NodeInt 2)])"
  using assms(2) guarded_step_shape find_def_name [OF assms(1)]
  by (fastforce simp: proves_floor_log2_def split: option.splits)

lemma bit_width_shape:
  assumes "proves_bit_width s width"
  obtains f a d f' d' m e where "width = HlBinary NODE_INT_SUB (Call NODE_DEF_CALL f [a]) (NodeInt 1)"
    and "find_def s f 1 = Some d" and "find_def s f' 1 = Some d'" and "proves_floor_log2 (Some d')"
    and "instantiate d [a] = Ite (HlBinary NODE_CMP_EQ a (NodeInt 0)) (NodeInt 0) (Ite NodeTrue m e)"
    and "is_one_plus m (Call NODE_DEF_CALL f' [HlBinary NODE_INT_SUB a (NodeInt 1)])"
proof -
  from assms obtain f a d formal f' arg where
    w: "width = HlBinary NODE_INT_SUB (Call NODE_DEF_CALL f [a]) (NodeInt 1)"
    and d: "find_def s f 1 = Some d" and g: "guarded_step d NODE_CMP_EQ 0 = Some (formal, f', arg)"
    and arg: "is_formal_comparison arg NODE_INT_SUB formal 1"
    and f': "proves_floor_log2 (find_def s f' 1)"
    by (auto simp: proves_bit_width_def split: node.splits option.splits)
  from f' obtain d' where d': "find_def s f' 1 = Some d'" "proves_floor_log2 (Some d')"
    by (cases "find_def s f' 1") (auto simp: proves_floor_log2_def)
  from guarded_step_shape [OF g arg, of a] show ?thesis using that [OF w d d'] by blast
qed

subsection \<open>Evaluation\<close>

text \<open>What evaluates as an integer evaluates to that integer as a value.\<close>

lemma eval_value_of_int:
  "eval_int s n env (Suc d) = Inr v \<Longrightarrow> eval_value s n env d = Inr (EvalInt v)"
proof (induction "MAX_DEPTH + 1 - d" arbitrary: d n rule: less_induct)
  case less
  have guard: "\<not> MAX_DEPTH < d" "\<not> MAX_DEPTH < Suc d"
    using less.prems by (auto simp: eval_int.simps split: if_splits)
  have IH: "eval_value s m env (Suc d) = Inr (EvalInt v)" if "eval_int s m env (Suc (Suc d)) = Inr v" for m
    using less.hyps [OF _ that] guard by simp
  show ?case
  proof (cases "is_int_expr n")
    case True
    then show ?thesis using less.prems guard by (simp add: eval_value.simps [of s n env d])
  next
    case False
    show ?thesis
    proof (cases n)
      case (Ite c t e)
      with less.prems guard obtain br where br: "select_ite_branch s c t e env (Suc (Suc d)) = Inr br"
        "eval_int s br env (Suc (Suc d)) = Inr v" by (auto simp: eval_int_simps)
      have "select_ite_branch s c t e env (Suc d) = Inr br"
        using depth_mono(8) [OF _ br(1)] by simp
      with IH [OF br(2)] guard show ?thesis
        by (simp add: Ite eval_value_simps is_int_expr_def is_set_expr_def)
    next
      case (NodeAp x)
      with less.prems guard IH show ?thesis
        by (auto simp: eval_int_simps eval_value_simps is_int_expr_def is_set_expr_def split: option.splits)
    next
      case (IntVar x)
      with less.prems guard IH show ?thesis
        by (auto simp: eval_int_simps eval_value_simps is_int_expr_def is_set_expr_def split: option.splits)
    next
      case (Call k f args)
      with less.prems guard IH show ?thesis
        by (auto simp: eval_int_simps eval_value_simps is_int_expr_def is_set_expr_def
            split: option.splits if_splits)
    qed (insert less.prems guard False, simp_all add: eval_int_simps is_int_expr_def)
  qed
qed

lemma eval_call:
  "find_def s f 1 = Some d \<Longrightarrow> D \<le> MAX_DEPTH \<Longrightarrow>
   eval_int s (Call NODE_DEF_CALL f [a]) env D = eval_int s (instantiate d [a]) env (Suc D)"
  by (simp add: eval_int_simps)

text \<open>A two-way guard with an \<^verbatim>\<open>otherwise\<close> branch.\<close>

lemma eval_guarded:
  assumes "eval_bool s (HlBinary k p q) env (D + 2) = Inr x" "D + 3 \<le> MAX_DEPTH" "k \<noteq> NODE_MATCH"
  shows "eval_int s (Ite (HlBinary k p q) (NodeInt i) (Ite NodeTrue m e)) env D =
    (if x then Inr i else eval_int s m env (D + 2))"
proof -
  have "select_ite_branch s (HlBinary k p q) t e' env (Suc D) = Inr (if x then t else e')" for t e'
    using assms(1,3) by (cases k) (simp_all add: select_ite_branch.simps)
  moreover have "select_ite_branch s NodeTrue t e' env (Suc (Suc D)) = Inr t" for t e'
    using assms(2) by (simp add: select_ite_branch.simps eval_bool_simps)
  ultimately show ?thesis using assms(2) by (simp add: eval_int_simps)
qed

lemma eval_one_plus:
  assumes "is_one_plus m step" "eval_int s step env D = Inr v" "in_int64 (v + 1)"
  shows "eval_int s m env D = Inr (v + 1)"
proof -
  have "\<not> MAX_DEPTH < D" using assms(2) by (auto simp: eval_int.simps split: if_splits)
  with assms show ?thesis
    by (auto simp: is_one_plus_def eval_int_simps arith_kind_def int_arith_def algebra_simps)
qed

lemma eval_depth: "eval_int s n env D = Inr v \<Longrightarrow> D \<le> MAX_DEPTH"
  by (auto simp: eval_int.simps split: if_splits)

lemma in_int64_small: "0 \<le> v \<Longrightarrow> v \<le> 3000 \<Longrightarrow> in_int64 v"
  by (simp add: in_int64_def INT64_MIN_def INT64_MAX_def)

lemma floor_log2_eval:
  assumes f: "find_def s f 1 = Some d" "proves_floor_log2 (Some d)"
  shows "eval_int s a env (D + 3 * k + 4) = Inr x \<Longrightarrow> x < 2 ^ Suc k \<Longrightarrow> 2 ^ k \<le> x \<or> k = 0 \<Longrightarrow> in_int64 x \<Longrightarrow>
    eval_int s (Call NODE_DEF_CALL f [a]) env D = Inr (int k)"
proof (induction k arbitrary: a D x)
  case 0
  obtain m e where shape:
    "instantiate d [a] = Ite (HlBinary NODE_CMP_LE a (NodeInt 1)) (NodeInt 0) (Ite NodeTrue m e)"
    using floor_log2_shape [OF f] by blast
  have D: "D + 4 \<le> MAX_DEPTH" using eval_depth [OF 0(1)] by simp
  have "eval_int s a env (Suc (Suc (Suc D))) = Inr x" by (rule depth_mono(1) [OF _ 0(1)]) simp
  then have "eval_bool s (HlBinary NODE_CMP_LE a (NodeInt 1)) env (Suc D + 2) = Inr True"
    using D 0(2) by (simp add: eval_bool_simps eval_int_simps equality_kind_def order_kind_def int_compare_def)
  with D f(1) show ?case by (simp add: eval_call shape eval_guarded)
next
  case (Suc k)
  obtain m e where shape:
    "instantiate d [a] = Ite (HlBinary NODE_CMP_LE a (NodeInt 1)) (NodeInt 0) (Ite NodeTrue m e)"
    and m: "is_one_plus m (Call NODE_DEF_CALL f [HlBinary NODE_INT_DIV a (NodeInt 2)])"
    using floor_log2_shape [OF f] by blast
  have D: "D + 3 * Suc k + 4 \<le> MAX_DEPTH" using eval_depth [OF Suc.prems(1)] .
  have x: "2 ^ Suc k \<le> x" "0 < x" using Suc.prems(3) by (auto intro: less_le_trans [of _ "2 ^ Suc k"])
  then have x1: "1 < x" by (smt (verit) one_less_power zero_less_Suc)
  have "eval_int s a env (Suc (Suc (Suc D))) = Inr x" by (rule depth_mono(1) [OF _ Suc.prems(1)]) simp
  then have b: "eval_bool s (HlBinary NODE_CMP_LE a (NodeInt 1)) env (Suc D + 2) = Inr False"
    using D x1 by (simp add: eval_bool_simps eval_int_simps equality_kind_def order_kind_def int_compare_def)
  have "in_int64 (x div 2)"
    using Suc.prems(4) x by (auto simp: in_int64_def INT64_MIN_def)
  moreover have "x sdiv 2 = x div 2" using x by (simp add: signed_divide_int_def)
  ultimately have half: "eval_int s (HlBinary NODE_INT_DIV a (NodeInt 2)) env (D + 3 + 3 * k + 4) = Inr (x div 2)"
    using Suc.prems(1) D by (simp add: eval_int_simps arith_kind_def int_arith_def algebra_simps)
  have "eval_int s (Call NODE_DEF_CALL f [HlBinary NODE_INT_DIV a (NodeInt 2)]) env (D + 3) = Inr (int k)"
    using x Suc.prems(2) \<open>in_int64 (x div 2)\<close> by (intro Suc.IH [OF half]) auto
  from eval_one_plus [OF m this] have "eval_int s m env (D + 3) = Inr (int (Suc k))"
    using D in_int64_small [of "int k + 1"] by (simp add: MAX_DEPTH_def algebra_simps)
  with eval_guarded [OF b, of 0 m e] D show ?case
    using f(1) by (simp add: eval_call shape numeral_eq_Suc)
qed

subsection \<open>Encoded buses\<close>

lemma ex_log2: "1 \<le> (x :: int) \<Longrightarrow> x < 2 ^ 63 \<Longrightarrow> \<exists>k\<le>62. 2 ^ k \<le> x \<and> x < 2 ^ Suc k"
proof -
  assume x: "1 \<le> x" "x < 2 ^ 63"
  define k where "k = (LEAST k. x < 2 ^ Suc k)"
  have ex: "x < 2 ^ Suc 62" using x by simp
  have le: "k \<le> 62" unfolding k_def by (rule Least_le [of "\<lambda>k. x < 2 ^ Suc k", OF ex])
  have up: "x < 2 ^ Suc k" unfolding k_def by (rule LeastI [of "\<lambda>k. x < 2 ^ Suc k", OF ex])
  have "2 ^ k \<le> x"
  proof (cases k)
    case 0
    then show ?thesis using x by simp
  next
    case (Suc j)
    have "\<not> x < 2 ^ Suc j" unfolding k_def [symmetric] using Suc not_less_Least [of j "\<lambda>k. x < 2 ^ Suc k"]
      by (simp add: k_def)
    then show ?thesis using Suc by simp
  qed
  with le up show ?thesis by blast
qed

text \<open>
  The shape test for computed widths is sound: if the upper bound of a bus has the tested
  shape \<open>w(n) - 1\<close> and \<open>n\<close> evaluates, with some depth left, to a number of at least 2, then the
  bound evaluates and the bus \<open>[0..hi]\<close> has exactly as many bits as it takes to number \<open>n\<close>
  values: \<open>n \<le> 2 ^ (hi + 1)\<close>, and one bit fewer would not do.
\<close>

theorem proves_bit_width_sound:
  assumes "proves_bit_width s (HlBinary NODE_INT_SUB (Call NODE_DEF_CALL f [a]) (NodeInt 1))"
    and "eval_int s a env (D + 200) = Inr n" and "2 \<le> n" and "in_int64 n"
  shows "\<exists>hi. eval_int s (HlBinary NODE_INT_SUB (Call NODE_DEF_CALL f [a]) (NodeInt 1)) env D = Inr hi \<and>
    0 \<le> hi \<and> n \<le> 2 ^ nat (hi + 1) \<and> 2 ^ nat hi < n"
proof -
  obtain d f' d' m e where d: "find_def s f 1 = Some d" "find_def s f' 1 = Some d'"
    and log: "proves_floor_log2 (Some d')"
    and shape: "instantiate d [a] = Ite (HlBinary NODE_CMP_EQ a (NodeInt 0)) (NodeInt 0) (Ite NodeTrue m e)"
    and m: "is_one_plus m (Call NODE_DEF_CALL f' [HlBinary NODE_INT_SUB a (NodeInt 1)])"
    by (rule bit_width_shape [OF assms(1)]) (use that in auto)
  have D: "D + 200 \<le> MAX_DEPTH" using eval_depth [OF assms(2)] .
  have "1 \<le> n - 1" "n - 1 < 2 ^ 63" using assms(3,4) by (auto simp: in_int64_def INT64_MAX_def)
  from ex_log2 [OF this] obtain k where k: "k \<le> 62" "2 ^ k \<le> n - 1" "n - 1 < 2 ^ Suc k" by blast
  have in64: "in_int64 (n - 1)" using assms(3,4) by (auto simp: in_int64_def INT64_MIN_def)
  have a: "eval_int s a env (Suc D + 2 + 3 * k + 4) = Inr n" "eval_int s a env (Suc (Suc D + 2 + 1)) = Inr n"
    using k(1) by (auto intro!: depth_mono(1) [OF _ assms(2)])
  have "eval_int s (HlBinary NODE_INT_SUB a (NodeInt 1)) env (Suc D + 2 + 3 * k + 4) = Inr (n - 1)"
    using a(1) D k(1) in64 by (simp add: eval_int_simps arith_kind_def int_arith_def)
  from floor_log2_eval [OF d(2) log this k(3) _ in64] k(2)
  have "eval_int s (Call NODE_DEF_CALL f' [HlBinary NODE_INT_SUB a (NodeInt 1)]) env (Suc D + 2) = Inr (int k)"
    by simp
  from eval_one_plus [OF m this] have sum: "eval_int s m env (Suc D + 2) = Inr (int k + 1)"
    using k(1) in_int64_small [of "int k + 1"] by simp
  have "eval_value s a env (Suc D + 2 + 1) = Inr (EvalInt n)"
    by (rule eval_value_of_int [OF a(2)])
  then have "eval_bool s (HlBinary NODE_CMP_EQ a (NodeInt 0)) env (Suc D + 2) = Inr False"
    using D assms(3) by (simp add: eval_bool_simps equality_kind_def eval_value_simps eval_int_simps is_int_expr_def)
  from eval_guarded [OF this, of 0 m e] sum D
  have "eval_int s (Call NODE_DEF_CALL f [a]) env D = Inr (int k + 1)"
    using d(1) by (simp add: eval_call shape)
  then have "eval_int s (HlBinary NODE_INT_SUB (Call NODE_DEF_CALL f [a]) (NodeInt 1)) env D = Inr (int k)"
    using D k(1) in_int64_small [of "int k"]
    by (simp add: eval_int_simps arith_kind_def int_arith_def)
  moreover have "n \<le> 2 ^ nat (int k + 1)" "2 ^ nat (int k) < n"
    using k(2,3) by (simp_all add: nat_add_distrib)
  ultimately show ?thesis by auto
qed

definition width_spec :: tlsf_spec where
  "width_spec = spec_new\<lparr>spec_defs := \<lparr>items =
     [\<lparr>dd_name = ''log2'', dd_params = [''x''],
       dd_body = Ite (HlBinary NODE_CMP_LE (NodeAp ''x'') (NodeInt 1)) (NodeInt 0)
         (Ite NodeTrue (HlBinary NODE_INT_ADD (NodeInt 1)
            (Call NODE_DEF_CALL ''log2'' [HlBinary NODE_INT_DIV (NodeAp ''x'') (NodeInt 2)])) NodeFalse)\<rparr>,
      \<lparr>dd_name = ''bits'', dd_params = [''x''],
       dd_body = Ite (HlBinary NODE_CMP_EQ (NodeAp ''x'') (NodeInt 0)) (NodeInt 0)
         (Ite NodeTrue (HlBinary NODE_INT_ADD (NodeInt 1)
            (Call NODE_DEF_CALL ''log2'' [HlBinary NODE_INT_SUB (NodeAp ''x'') (NodeInt 1)])) NodeFalse)\<rparr>],
     capacity = 8\<rparr>\<rparr>"

theorem proves_bit_width_sound_witness:
  "\<exists>hi. eval_int width_spec (HlBinary NODE_INT_SUB (Call NODE_DEF_CALL ''bits'' [NodeInt 1000]) (NodeInt 1))
     Map.empty 0 = Inr hi \<and> 0 \<le> hi \<and> 1000 \<le> (2 :: int) ^ nat (hi + 1) \<and> 2 ^ nat hi < (1000 :: int)"
proof -
  have "proves_bit_width width_spec
      (HlBinary NODE_INT_SUB (Call NODE_DEF_CALL ''bits'' [NodeInt 1000]) (NodeInt 1))"
    and "eval_int width_spec (NodeInt 1000) Map.empty (0 + 200) = Inr 1000"
    by code_simp+
  moreover have "in_int64 1000" by (simp add: in_int64_def INT64_MIN_def INT64_MAX_def)
  ultimately show ?thesis
    using proves_bit_width_sound [of width_spec "''bits''" "NodeInt 1000" Map.empty 0 1000] by simp
qed

end
