(* ===== verification/Gr.thy ===== *)
theory Gr
  imports Section_Pattern
begin

text \<open>
  Recognition of the generalised reactivity fragment GR(k), \<^verbatim>\<open>src/lib/gr.c\<close>, and
  \<^verbatim>\<open>section_pattern_gr_level\<close> of \<^verbatim>\<open>src/lib/section_pattern.c\<close>.  Every conjunct of a section is
  classified as initial condition, safety or liveness; the liveness implication is put in
  conjunctive normal form over a table of at most 64 literals \<open>GF b\<close>, with clauses as pairs of
  64-bit masks, and the level is the number of distinct antecedent masks.
\<close>

subsection \<open>Structural tests\<close>

fun node_eq :: "node \<Rightarrow> node \<Rightarrow> bool" where
  "node_eq NodeTrue n = (case n of NodeTrue \<Rightarrow> True | _ \<Rightarrow> False)"
| "node_eq NodeFalse n = (case n of NodeFalse \<Rightarrow> True | _ \<Rightarrow> False)"
| "node_eq (NodeAp p) n = (case n of NodeAp q \<Rightarrow> p = q | _ \<Rightarrow> False)"
| "node_eq (NodeInt i) n = (case n of NodeInt j \<Rightarrow> i = j | _ \<Rightarrow> False)"
| "node_eq (Unary k a) n = (case n of Unary l b \<Rightarrow> k = l \<and> node_eq a b | _ \<Rightarrow> False)"
| "node_eq (Binary k a b) n =
     (case n of Binary l c d \<Rightarrow> k = l \<and> node_eq a c \<and> node_eq b d | _ \<Rightarrow> False)"
| "node_eq _ n = False"

fun is_prop :: "node \<Rightarrow> bool" where
  "is_prop NodeTrue = True"
| "is_prop NodeFalse = True"
| "is_prop (NodeAp _) = True"
| "is_prop (Unary k a) = (k = NODE_NOT \<and> is_prop a)"
| "is_prop (Binary k a b) = (\<not> bin_is_temporal k \<and> is_prop a \<and> is_prop b)"
| "is_prop _ = False"

fun is_trans :: "node \<Rightarrow> bool" where
  "is_trans NodeTrue = True"
| "is_trans NodeFalse = True"
| "is_trans (NodeAp _) = True"
| "is_trans (Unary k a) =
     (if k = NODE_NOT then is_trans a else if k = NODE_X \<or> k = NODE_X_STRONG then is_prop a else False)"
| "is_trans (Binary k a b) = (\<not> bin_is_temporal k \<and> is_trans a \<and> is_trans b)"
| "is_trans _ = False"

fun is_livelit_shape :: "node \<Rightarrow> bool" where
  "is_livelit_shape (Unary NODE_G (Unary NODE_F m)) = is_trans m"
| "is_livelit_shape (Unary NODE_F (Unary NODE_G m)) = is_trans m"
| "is_livelit_shape _ = False"

fun is_live_combo :: "node \<Rightarrow> bool" where
  "is_live_combo NodeTrue = True"
| "is_live_combo NodeFalse = True"
| "is_live_combo (Unary k a) = (is_livelit_shape (Unary k a) \<or> (k = NODE_NOT \<and> is_live_combo a))"
| "is_live_combo (Binary k a b) = (\<not> bin_is_temporal k \<and> is_live_combo a \<and> is_live_combo b)"
| "is_live_combo _ = False"

subsection \<open>The atom table\<close>

record gr_atom =
  at_base :: node
  ineg :: bool

record atom_tab =
  tab_atoms :: "gr_atom list"
  tab_overflow :: bool

definition GR_ATOMS :: nat where "GR_ATOMS = 64"
definition GR_CLAUSES :: nat where "GR_CLAUSES = 256"

fun atom_find :: "gr_atom list \<Rightarrow> node \<Rightarrow> bool \<Rightarrow> nat \<Rightarrow> nat option" where
  "atom_find [] b ng i = None"
| "atom_find (a # as) b ng i =
     (if ineg a = ng \<and> node_eq (at_base a) b then Some i else atom_find as b ng (Suc i))"

text \<open>The index -1 of a full table is \<open>None\<close>.\<close>

definition atom_index :: "atom_tab \<Rightarrow> node \<Rightarrow> bool \<Rightarrow> nat option \<times> atom_tab" where
  "atom_index t b ng =
     (case atom_find (tab_atoms t) b ng 0 of
        Some i \<Rightarrow> (Some i, t)
      | None \<Rightarrow>
          if length (tab_atoms t) \<ge> GR_ATOMS then (None, t\<lparr>tab_overflow := True\<rparr>)
          else (Some (length (tab_atoms t)),
                t\<lparr>tab_atoms := tab_atoms t @ [\<lparr>at_base = b, ineg = ng\<rparr>]\<rparr>))"

text \<open>A literal: its atom, whether it occurs negated, and the table after the lookup.\<close>

fun literal :: "node \<Rightarrow> atom_tab \<Rightarrow> (nat option \<times> bool \<times> atom_tab) option" where
  "literal (Unary NODE_G (Unary NODE_F m)) t =
     (if \<not> is_trans m then None
      else case (case m of Unary NODE_NOT a \<Rightarrow> atom_index t a True | _ \<Rightarrow> atom_index t m False) of
        (idx, t') \<Rightarrow> Some (idx, False, t'))"
| "literal (Unary NODE_F (Unary NODE_G m)) t =
     (if \<not> is_trans m then None
      else case (case m of Unary NODE_NOT a \<Rightarrow> atom_index t a False | _ \<Rightarrow> atom_index t m True) of
        (idx, t') \<Rightarrow> Some (idx, True, t'))"
| "literal _ t = None"

subsection \<open>Clause sets\<close>

record clause =
  cl_pos :: u64
  cl_neg :: u64

record cnf =
  clauses :: "clause list"
  cnf_overflow :: bool

definition cnf_true :: cnf where
  "cnf_true = \<lparr>clauses = [], cnf_overflow = False\<rparr>"

unbundle bit_operations_syntax

definition cnf_add :: "cnf \<Rightarrow> clause \<Rightarrow> cnf" where
  "cnf_add c k =
     (if cl_pos k AND cl_neg k \<noteq> 0 then c
      else if list_ex (\<lambda>d. cl_pos d = cl_pos k \<and> cl_neg d = cl_neg k) (clauses c) then c
      else if length (clauses c) \<ge> GR_CLAUSES then c\<lparr>cnf_overflow := True\<rparr>
      else c\<lparr>clauses := clauses c @ [k]\<rparr>)"

definition cnf_false :: cnf where
  "cnf_false = cnf_add cnf_true \<lparr>cl_pos = 0, cl_neg = 0\<rparr>"

definition cnf_flag :: "cnf \<Rightarrow> cnf \<Rightarrow> cnf \<Rightarrow> cnf" where
  "cnf_flag a b d = (if cnf_overflow a \<or> cnf_overflow b then d\<lparr>cnf_overflow := True\<rparr> else d)"

definition cnf_and :: "cnf \<Rightarrow> cnf \<Rightarrow> cnf" where
  "cnf_and a b = cnf_flag a b (foldl cnf_add (foldl cnf_add cnf_true (clauses a)) (clauses b))"

definition clause_join :: "clause \<Rightarrow> clause \<Rightarrow> clause" where
  "clause_join k l = \<lparr>cl_pos = cl_pos k OR cl_pos l, cl_neg = cl_neg k OR cl_neg l\<rparr>"

definition cnf_or :: "cnf \<Rightarrow> cnf \<Rightarrow> cnf" where
  "cnf_or a b = cnf_flag a b
     (foldl (\<lambda>d k. foldl (\<lambda>d l. cnf_add d (clause_join k l)) d (clauses b)) cnf_true (clauses a))"

definition cnf_literal :: "nat option \<Rightarrow> bool \<Rightarrow> cnf" where
  "cnf_literal idx ng =
     (case idx of None \<Rightarrow> cnf_true\<lparr>cnf_overflow := True\<rparr>
      | Some i \<Rightarrow> cnf_add cnf_true
          (if ng then \<lparr>cl_pos = 0, cl_neg = push_bit i 1\<rparr> else \<lparr>cl_pos = push_bit i 1, cl_neg = 0\<rparr>))"

definition cnf_fail :: cnf where
  "cnf_fail = cnf_true\<lparr>cnf_overflow := True\<rparr>"

text \<open>
  The normal form of a formula under a polarity.  The table is threaded through in the order
  of the calls, so the indices are those of the C code.
\<close>

fun cnf_of :: "node \<Rightarrow> bool \<Rightarrow> atom_tab \<Rightarrow> cnf \<times> atom_tab" where
  "cnf_of NodeTrue pos t = (if pos then cnf_true else cnf_false, t)"
| "cnf_of NodeFalse pos t = (if pos then cnf_false else cnf_true, t)"
| "cnf_of (Unary k a) pos t =
     (case literal (Unary k a) t of
        Some (idx, lneg, t') \<Rightarrow> (cnf_literal idx (lneg \<noteq> (\<not> pos)), t')
      | None \<Rightarrow> if k = NODE_NOT then cnf_of a (\<not> pos) t else (cnf_fail, t))"
| "cnf_of (Binary NODE_AND a b) pos t =
     (let (l, t) = cnf_of a pos t; (r, t) = cnf_of b pos t
      in (if pos then cnf_and l r else cnf_or l r, t))"
| "cnf_of (Binary NODE_OR a b) pos t =
     (let (l, t) = cnf_of a pos t; (r, t) = cnf_of b pos t
      in (if pos then cnf_or l r else cnf_and l r, t))"
| "cnf_of (Binary NODE_IMPL a b) pos t =
     (let (l, t) = cnf_of a (\<not> pos) t; (r, t) = cnf_of b pos t
      in (if pos then cnf_or l r else cnf_and l r, t))"
| "cnf_of (Binary NODE_EQUIV a b) pos t =
     (if pos
      then (let (a0, t) = cnf_of a False t; (b1, t) = cnf_of b True t;
                (b0, t) = cnf_of b False t; (a1, t) = cnf_of a True t
            in (cnf_and (cnf_or a0 b1) (cnf_or b0 a1), t))
      else (let (a1, t) = cnf_of a True t; (b0, t) = cnf_of b False t;
                (a0, t) = cnf_of a False t; (b1, t) = cnf_of b True t
            in (cnf_or (cnf_and a1 b0) (cnf_and a0 b1), t)))"
| "cnf_of _ pos t = (cnf_fail, t)"

subsection \<open>Classification of conjuncts\<close>

text \<open>
  The results -1, 0 and 1 of the C functions are \<open>None\<close>, \<open>Some None\<close> and \<open>Some (Some live)\<close>.
\<close>

definition classify_init :: "node \<Rightarrow> node option option" where
  "classify_init n = (if is_prop n then Some None else None)"

definition classify_general :: "node \<Rightarrow> node option option" where
  "classify_general n =
     (if is_prop n then Some None
      else if is_live_combo n then Some (Some n)
      else case n of Unary NODE_G m \<Rightarrow> if is_trans m then Some None else None | _ \<Rightarrow> None)"

fun classify_invariant :: "node \<Rightarrow> node option option" where
  "classify_invariant (Unary NODE_F a) =
     (if is_live_combo (Unary NODE_F a) then Some (Some (Unary NODE_F a))
      else if is_trans a then Some (Some (node_g (Unary NODE_F a))) else None)"
| "classify_invariant (Unary NODE_G a) =
     (if is_live_combo (Unary NODE_G a) then Some (Some (Unary NODE_G a)) else classify_invariant a)"
| "classify_invariant n =
     (if is_trans n then Some None else if is_live_combo n then Some (Some n) else None)"

subsection \<open>Pushing G through conjunctions\<close>

fun node_depth :: "node \<Rightarrow> nat" where
  "node_depth (Unary _ a) = Suc (node_depth a)"
| "node_depth (Binary _ a b) = Suc (max (node_depth a) (node_depth b))"
| "node_depth _ = 0"

function gnorm :: "node \<Rightarrow> node" where
  "gnorm (Unary k a) =
     (if k = NODE_G
      then (let m = gnorm a in
            case m of
              Binary NODE_AND l r \<Rightarrow> node_and (gnorm (node_g l)) (gnorm (node_g r))
            | Unary NODE_G _ \<Rightarrow> m
            | _ \<Rightarrow> node_g m)
      else Unary k (gnorm a))"
| "gnorm (Binary k a b) = Binary k (gnorm a) (gnorm b)"
| "gnorm NodeTrue = NodeTrue"
| "gnorm NodeFalse = NodeFalse"
| "gnorm (NodeAp p) = NodeAp p"
| "gnorm (NodeInt i) = NodeInt i"
| "gnorm (IntVar v) = IntVar v"
| "gnorm (SizeOf v) = SizeOf v"
| "gnorm (HlUnary hu a) = HlUnary hu a"
| "gnorm (HlBinary hb a b) = HlBinary hb a b"
| "gnorm (NextN st a b) = NextN st a b"
| "gnorm (Call ck f as) = Call ck f as"
| "gnorm (BusIndex v a) = BusIndex v a"
| "gnorm (Ite a b c) = Ite a b c"
| "gnorm (BoundedOp rk st a b c) = BoundedOp rk st a b c"
| "gnorm (Quant qk v qb a) = Quant qk v qb a"
| "gnorm (SetLit sk as) = SetLit sk as"
  by pat_completeness auto
termination
proof (relation "measure node_depth")
  have d: "node_depth (gnorm n) \<le> node_depth n" if "gnorm_dom n" for n
    using that
  proof (induction n rule: gnorm.pinduct)
    case (1 k a)
    then show ?case
      by (simp add: gnorm.psimps Let_def split: node.split bin_kind.split un_kind.split) force
  next
    case (2 k a b)
    then show ?case by (simp add: gnorm.psimps) linarith
  qed (simp_all add: gnorm.psimps)
  show "(a, Unary k a) \<in> measure node_depth" if "k = NODE_G" for k a by simp
  show "(node_g l, Unary k a) \<in> measure node_depth"
    if "k = NODE_G" "m = gnorm a" "gnorm_dom a" "m = Binary bk l r" "bk = NODE_AND" for k a m bk l r
    using d [OF that(3)] that(1,4,5) unfolding that(2) by simp
  show "(node_g r, Unary k a) \<in> measure node_depth"
    if "k = NODE_G" "m = gnorm a" "gnorm_dom a" "m = Binary bk l r" "bk = NODE_AND" for k a m bk l r
    using d [OF that(3)] that(1,4,5) unfolding that(2) by simp
qed simp_all

subsection \<open>The level\<close>

text \<open>A section formula is flattened with a stack of 64 entries; the top is the head.\<close>

fun and_parts :: "node \<Rightarrow> (node \<times> node) option" where
  "and_parts (Binary NODE_AND l r) = Some (l, r)"
| "and_parts _ = None"

function gr_walk :: "(node \<Rightarrow> node option option) \<Rightarrow> node list \<Rightarrow> node list \<Rightarrow> node list option" where
  "gr_walk classify live [] = Some live"
| "gr_walk classify live (n # stack) =
     (case and_parts n of
        Some (l, r) \<Rightarrow>
          if length stack + 2 > 64 then None else gr_walk classify live (r # l # stack)
      | None \<Rightarrow>
          (case classify n of
             None \<Rightarrow> None
           | Some None \<Rightarrow> gr_walk classify live stack
           | Some (Some x) \<Rightarrow>
               if length live \<ge> GR_CLAUSES then None else gr_walk classify (live @ [x]) stack))"
  by pat_completeness auto
termination
  by (relation "measure (\<lambda>(_, _, st). sum_list (map tree_size st))")
     (auto elim!: and_parts.elims)

fun gr_walk_list ::
  "(node \<Rightarrow> node option option) \<Rightarrow> node list \<Rightarrow> node list \<Rightarrow> node list option" where
  "gr_walk_list classify live [] = Some live"
| "gr_walk_list classify live (f # fs) =
     do { live' \<leftarrow> gr_walk classify live [gnorm f]; gr_walk_list classify live' fs }"

text \<open>The liveness conjuncts of the environment and of the system.\<close>

definition gr_collect :: "tlsf_spec \<Rightarrow> (node list \<times> node list) option" where
  "gr_collect s =
     do { env \<leftarrow> gr_walk_list classify_init [] (items (initially s));
          sys \<leftarrow> gr_walk_list classify_init [] (items (preset s));
          env \<leftarrow> gr_walk_list classify_invariant env (items (require s));
          sys \<leftarrow> gr_walk_list classify_invariant sys (items (assert_list s));
          env \<leftarrow> gr_walk_list classify_general env (items (assume_list s));
          sys \<leftarrow> gr_walk_list classify_general sys (items (guarantee s));
          Some (env, sys) }"

fun cnf_conj :: "node list \<Rightarrow> cnf \<Rightarrow> atom_tab \<Rightarrow> cnf \<times> atom_tab" where
  "cnf_conj [] acc t = (acc, t)"
| "cnf_conj (n # ns) acc t = (let (tmp, t) = cnf_of n True t in cnf_conj ns (cnf_and acc tmp) t)"

fun cnf_disj_not :: "node list \<Rightarrow> cnf \<Rightarrow> atom_tab \<Rightarrow> cnf \<times> atom_tab" where
  "cnf_disj_not [] acc t = (acc, t)"
| "cnf_disj_not (n # ns) acc t =
     (let (tmp, t) = cnf_of n False t in cnf_disj_not ns (cnf_or acc tmp) t)"

definition empty_tab :: atom_tab where
  "empty_tab = \<lparr>tab_atoms = [], tab_overflow = False\<rparr>"

text \<open>The normal form of the liveness implication, or nothing when a limit was exceeded.\<close>

definition gr_cnf :: "node list \<Rightarrow> node list \<Rightarrow> (cnf \<times> atom_tab) option" where
  "gr_cnf env sys =
     (let (cnf_b, t) = cnf_conj sys cnf_true empty_tab;
          (cnf_not_a, t) = cnf_disj_not env cnf_false t;
          result = cnf_or cnf_not_a cnf_b
      in if tab_overflow t \<or> cnf_overflow cnf_b \<or> cnf_overflow cnf_not_a \<or> cnf_overflow result
         then None else Some (result, t))"

definition distinct_negs :: "clause list \<Rightarrow> u64 list" where
  "distinct_negs cs = foldl (\<lambda>seen c. if list_ex (\<lambda>a. a = cl_neg c) seen then seen else seen @ [cl_neg c]) [] cs"

definition gr_level :: "tlsf_spec \<Rightarrow> int" where
  "gr_level s =
     (case do { (env, sys) \<leftarrow> gr_collect s; (result, t) \<leftarrow> gr_cnf env sys;
                Some (int (length (distinct_negs (clauses result)))) } of
        None \<Rightarrow> -1 | Some k \<Rightarrow> k)"

subsection \<open>The level of a section view\<close>

definition tmp_role_list :: "role \<Rightarrow> node growable \<Rightarrow> tlsf_spec \<Rightarrow> tlsf_spec" where
  "tmp_role_list r fl s =
     (case r of
        TLSF_ROLE_INITIALLY \<Rightarrow> s\<lparr>initially := fl\<rparr>
      | TLSF_ROLE_PRESET \<Rightarrow> s\<lparr>preset := fl\<rparr>
      | TLSF_ROLE_REQUIRE \<Rightarrow> s\<lparr>require := fl\<rparr>
      | TLSF_ROLE_ASSERT \<Rightarrow> s\<lparr>assert_list := fl\<rparr>
      | TLSF_ROLE_ASSUME \<Rightarrow> s\<lparr>assume_list := fl\<rparr>
      | TLSF_ROLE_GUARANTEE \<Rightarrow> s\<lparr>guarantee := fl\<rparr>)"

definition section_pattern_gr_level :: "tlsf_spec \<Rightarrow> section_view \<Rightarrow> int" where
  "section_pattern_gr_level s v =
     gr_level (foldl (\<lambda>t r. let fs = map entry_formula (filter (\<lambda>e. entry_role e = r) (entries v))
                            in tmp_role_list r \<lparr>items = fs, capacity = length fs\<rparr> t) s
       [TLSF_ROLE_INITIALLY, TLSF_ROLE_PRESET, TLSF_ROLE_REQUIRE, TLSF_ROLE_ASSERT,
        TLSF_ROLE_ASSUME, TLSF_ROLE_GUARANTEE])"

end
