(* ===== verification/Gr_Correct.thy ===== *)
theory Gr_Correct
  imports Gr "HOL-Library.Sublist"
begin

text \<open>
  Correctness of the GR(k) recogniser: \<open>gnorm\<close> keeps the meaning, the collected conjuncts
  split every section into a safety and a liveness part, and the normal form over the atom
  table is equivalent to the liveness implication whenever no limit was exceeded.
\<close>

subsection \<open>Structural tests\<close>

lemma node_eqD: "node_eq a b \<Longrightarrow> a = b"
  by (induction a b rule: node_eq.induct) (auto split: node.splits)

lemma node_eq_refl: "ground a \<Longrightarrow> node_eq a a"
  by (induction a) simp_all

lemma is_prop_ground: "is_prop n \<Longrightarrow> ground n"
  by (induction n rule: is_prop.induct) simp_all

lemma is_trans_ground: "is_trans n \<Longrightarrow> ground n"
  by (induction n rule: is_trans.induct) (auto simp: is_prop_ground split: if_splits)

text \<open>A formula \<open>GF b\<close> has the same value at all positions of a word.\<close>

lemma alw_ev_stable:
  assumes "enat i < L" and "enat j < L"
  shows "alw L (ev L P) i = alw L (ev L P) j"
proof -
  have "alw L (ev L P) i" if a: "alw L (ev L P) j" and i: "enat i < L" and j: "enat j < L" for i j
    unfolding alw_def
  proof (intro allI impI)
    fix k assume k: "i \<le> k" "enat k < L"
    have "enat (max j k) < L" using j k by (simp add: max_def)
    moreover have "j \<le> max j k" by simp
    ultimately have "ev L P (max j k)" using a unfolding alw_def by blast
    then obtain m where "max j k \<le> m" "enat m < L" "P m" unfolding ev_def by blast
    then show "ev L P k" unfolding ev_def by (intro exI [of _ m]) simp
  qed
  then show ?thesis using assms by blast
qed

lemma ev_alw_stable:
  assumes "enat i < L" and "enat j < L"
  shows "ev L (alw L P) i = ev L (alw L P) j"
  using alw_ev_stable [OF assms, of "\<lambda>k. \<not> P k"]
  unfolding not_alw [symmetric] not_ev [symmetric] by (metis alw_def ev_def not_alw)

lemma livelit_cases:
  assumes "is_livelit_shape n"
  obtains m where "n = node_g (node_f m)" "is_trans m" | m where "n = node_f (node_g m)" "is_trans m"
  using assms by (cases n rule: is_livelit_shape.cases) auto

lemma live_combo_stable:
  assumes "is_live_combo n" and "enat i < L" and "enat j < L"
  shows "sat L w n i = sat L w n j"
  using assms(1)
proof (induction n)
  case (Unary k a)
  then consider "is_livelit_shape (Unary k a)" | "k = NODE_NOT" "is_live_combo a" by auto
  then show ?case
  proof cases
    case 1
    then show ?thesis
      by (rule livelit_cases) (simp_all add: alw_ev_stable [OF assms(2,3)] ev_alw_stable [OF assms(2,3)])
  qed (use Unary.IH in simp)
next
  case (Binary k a b)
  then show ?case by (cases k) simp_all
qed simp_all

lemma alw_stable:
  assumes "\<And>j. i \<le> j \<Longrightarrow> enat j < L \<Longrightarrow> P j = P i" and "enat i < L"
  shows "alw L P i = P i"
  using assms unfolding alw_def by blast

subsection \<open>Pushing G inwards\<close>

lemma alw_idem: "enat i < L \<Longrightarrow> alw L (alw L P) i = alw L P i"
  unfolding alw_def by (meson le_trans order_refl)

lemma alw_cong: "(\<And>j. enat j < L \<Longrightarrow> P j = Q j) \<Longrightarrow> alw L P i = alw L Q i"
  by (simp add: alw_def)

lemma gnorm_sat: "enat i < L \<Longrightarrow> sat L w (gnorm n) i = sat L w n i"
proof (induction n arbitrary: i rule: gnorm.induct)
  case (1 k a)
  show ?case
  proof (cases "k = NODE_G")
    case False
    with 1 show ?thesis by (auto intro!: un_sem_cong)
  next
    case True
    define m where "m = gnorm a"
    have m: "alw L (sat L w m) i = alw L (sat L w a) i"
      using 1(1) [OF True] unfolding m_def by (intro alw_cong) simp
    consider (conj) l r where "m = node_and l r" | (g) x where "m = node_g x"
      | (other) "gnorm (Unary k a) = node_g m"
    proof (cases m)
      case (Unary k' x)
      then show ?thesis
        using g other by (cases k') (simp_all add: True m_def)
    next
      case (Binary k' x y)
      then show ?thesis
        using conj other by (cases k') (simp_all add: True m_def)
    qed (use other in \<open>simp_all add: True m_def\<close>)
    then show ?thesis
    proof cases
      case conj
      have "sat L w (gnorm (node_g l)) i = alw L (sat L w l) i"
        "sat L w (gnorm (node_g r)) i = alw L (sat L w r) i"
        using 1(2,3) [OF True m_def conj refl] 1(5) by auto
      then show ?thesis
        using m by (auto simp: True m_def [symmetric] conj alw_def)
    next
      case g
      then show ?thesis using m alw_idem [OF 1(5)] by (simp add: True m_def [symmetric])
    next
      case other
      then show ?thesis using m by (simp add: True)
    qed
  qed
next
  case (2 k a b)
  have "bin_sem L k (sat L w (gnorm a)) (sat L w (gnorm b)) i = bin_sem L k (sat L w a) (sat L w b) i"
    by (rule bin_sem_cong) (use 2 in simp_all)
  then show ?case by simp
qed simp_all

lemma alw_gnorm: "alw L (sat L w (gnorm n)) i = alw L (sat L w n) i"
  by (rule alw_cong) (rule gnorm_sat)

subsection \<open>Collecting the conjuncts\<close>

text \<open>What counts as initial condition or safety.\<close>

fun gr_safety :: "node \<Rightarrow> bool" where
  "gr_safety (Unary k a) = (is_prop (Unary k a) \<or> k = NODE_G \<and> is_trans a)"
| "gr_safety n = is_prop n"

lemma gr_safety_prop: "is_prop n \<Longrightarrow> gr_safety n"
  by (cases n) simp_all

definition holds_at :: "enat \<Rightarrow> trace \<Rightarrow> nat \<Rightarrow> bool \<Rightarrow> node \<Rightarrow> bool" where
  "holds_at L w i always n = (if always then alw L (sat L w n) i else sat L w n i)"

text \<open>
  The contract of a classifier: a conjunct it accepts is, under its reading (as it stands, or
  under an implicit \<open>G\<close>), a safety formula or the liveness combination it returns.
\<close>

lemma walk_and:
  "and_parts n = Some (l, r) \<Longrightarrow>
   gr_walk c live (n # st) = (if length st + 2 > 64 then None else gr_walk c live (r # l # st))"
  by simp

locale classifier =
  fixes classify :: "node \<Rightarrow> node option option" and always :: bool
  assumes safety: "classify n = Some None \<Longrightarrow>
      \<exists>c. gr_safety c \<and> (\<forall>L w i. enat i < L \<longrightarrow> sat L w c i = holds_at L w i always n)"
    and live: "classify n = Some (Some x) \<Longrightarrow>
      is_live_combo x \<and> (\<forall>L w i. enat i < L \<longrightarrow> sat L w x i = holds_at L w i always n)"
begin

lemma and_parts_holds:
  "and_parts n = Some (l, r) \<Longrightarrow>
   holds_at L w i always n = (holds_at L w i always l \<and> holds_at L w i always r)"
  by (cases n rule: and_parts.cases) (auto simp: holds_at_def alw_def)

lemma walk_split:
  assumes "gr_walk c live stack = Some live'" and "c = classify"
  shows "\<exists>new safe. live' = live @ new \<and> list_all is_live_combo new \<and> list_all gr_safety safe \<and>
    (\<forall>L w i. enat i < L \<longrightarrow>
      list_all (holds_at L w i always) stack = (all_hold L w i safe \<and> all_hold L w i new))"
  using assms
proof (induction c live stack rule: gr_walk.induct)
  case (1 c live)
  then show ?case by (intro exI [of _ "[]"]) (simp add: all_hold_def)
next
  case (2 c live n stack)
  show ?case
  proof (cases "and_parts n")
    case (Some lr)
    then obtain l r where lr: "and_parts n = Some (l, r)" by (cases lr) simp
    with "2.prems"(1) have w: "\<not> length stack + 2 > 64" "gr_walk c live (r # l # stack) = Some live'"
      by (simp_all add: walk_and [OF lr] split: if_splits)
    from "2.IH"(3) [OF lr refl w "2.prems"(2)] show ?thesis
      by (simp add: and_parts_holds [OF lr] conj_ac)
  next
    case None
    with "2.prems" consider (safe) "classify n = Some None" "gr_walk c live stack = Some live'"
      | (lv) x where "classify n = Some (Some x)" "gr_walk c (live @ [x]) stack = Some live'"
        "\<not> length live \<ge> GR_CLAUSES"
      by (auto split: option.splits if_splits)
    then show ?thesis
    proof cases
      case safe
      have cn: "c n = Some None" using safe(1) "2.prems"(2) by simp
      from "2.IH"(1) [OF None cn refl safe(2) "2.prems"(2)]
      obtain new sf where IH: "live' = live @ new" "list_all is_live_combo new"
        "list_all gr_safety sf"
        "\<forall>L w i. enat i < L \<longrightarrow> list_all (holds_at L w i always) stack = (all_hold L w i sf \<and> all_hold L w i new)"
        by blast
      from safety [OF safe(1)] obtain c where c: "gr_safety c"
        "\<forall>L w i. enat i < L \<longrightarrow> sat L w c i = holds_at L w i always n" by blast
      from IH c show ?thesis
        by (intro exI [of _ new] exI [of _ "c # sf"]) (auto simp: all_hold_def)
    next
      case lv
      have cn: "c n = Some (Some x)" using lv(1) "2.prems"(2) by simp
      from "2.IH"(2) [OF None cn refl lv(3,2) "2.prems"(2)] obtain new sf where IH: "live' = (live @ [x]) @ new" "list_all is_live_combo new"
        "list_all gr_safety sf"
        "\<forall>L w i. enat i < L \<longrightarrow> list_all (holds_at L w i always) stack = (all_hold L w i sf \<and> all_hold L w i new)"
        by blast
      from IH live [OF lv(1)] show ?thesis
        by (intro exI [of _ "x # new"] exI [of _ sf]) (auto simp: all_hold_def)
    qed
  qed
qed

lemma walk_list_split:
  assumes "gr_walk_list classify live fs = Some live'"
  shows "\<exists>new safe. live' = live @ new \<and> list_all is_live_combo new \<and> list_all gr_safety safe \<and>
    (\<forall>L w i. enat i < L \<longrightarrow>
      list_all (holds_at L w i always) fs = (all_hold L w i safe \<and> all_hold L w i new))"
  using assms
proof (induction fs arbitrary: live)
  case Nil
  then show ?case by (intro exI [of _ "[]"]) (simp add: all_hold_def)
next
  case (Cons f fs)
  then obtain live1 where l1: "gr_walk classify live [gnorm f] = Some live1"
    "gr_walk_list classify live1 fs = Some live'" by auto
  have g: "holds_at L w i always (gnorm f) = holds_at L w i always f" if "enat i < L" for L w i
    using that by (simp add: holds_at_def gnorm_sat alw_gnorm)
  from walk_split [OF l1(1) refl] Cons.IH [OF l1(2)] obtain n1 s1 n2 s2 where
    n: "live1 = live @ n1" "list_all is_live_combo n1" "list_all gr_safety s1"
      "\<forall>L w i. enat i < L \<longrightarrow> holds_at L w i always (gnorm f) = (all_hold L w i s1 \<and> all_hold L w i n1)"
      "live' = live1 @ n2" "list_all is_live_combo n2" "list_all gr_safety s2"
      "\<forall>L w i. enat i < L \<longrightarrow> list_all (holds_at L w i always) fs = (all_hold L w i s2 \<and> all_hold L w i n2)"
    by auto
  then show ?case
    by (intro exI [of _ "n1 @ n2"] exI [of _ "s1 @ s2"]) (auto simp: all_hold_def g)
qed

end

lemma classify_general_live: "classify_general n = Some (Some x) \<Longrightarrow> x = n \<and> is_live_combo n"
  by (auto simp: classify_general_def split: if_splits node.splits un_kind.splits)

lemma classify_general_safe: "classify_general n = Some None \<Longrightarrow> gr_safety n"
  by (auto simp: classify_general_def gr_safety_prop split: if_splits node.splits un_kind.splits)

lemma classify_invariant_safe_cases:
  "classify_invariant n = Some None \<Longrightarrow>
   is_trans n \<or> (\<exists>a. n = node_g a \<and> classify_invariant a = Some None)"
  by (cases n rule: classify_invariant.cases) (simp_all split: if_splits)

lemma classify_invariant_safe:
  "classify_invariant n = Some None \<Longrightarrow>
   \<exists>c. gr_safety c \<and> (\<forall>L w i. enat i < L \<longrightarrow> sat L w c i = alw L (sat L w n) i)"
proof (induction n rule: measure_induct_rule [of tree_size])
  case (less n)
  from classify_invariant_safe_cases [OF less.prems] show ?case
  proof
    assume "is_trans n"
    then show ?thesis by (intro exI [of _ "node_g n"]) simp
  next
    assume "\<exists>a. n = node_g a \<and> classify_invariant a = Some None"
    then obtain a where a: "n = node_g a" "classify_invariant a = Some None" by blast
    with less.IH [of a] show ?thesis by (auto simp: alw_idem)
  qed
qed

lemma classify_invariant_live_cases:
  "classify_invariant n = Some (Some x) \<Longrightarrow>
   x = n \<and> is_live_combo n \<or> (\<exists>a. n = node_f a \<and> x = node_g n \<and> is_trans a) \<or>
   (\<exists>a. n = node_g a \<and> classify_invariant a = Some (Some x))"
  by (cases n rule: classify_invariant.cases) (simp_all split: if_splits)

lemma live_combo_alw: "is_live_combo n \<Longrightarrow> enat i < L \<Longrightarrow> alw L (sat L w n) i = sat L w n i"
  by (intro alw_stable live_combo_stable) auto

lemma classify_invariant_live:
  "classify_invariant n = Some (Some x) \<Longrightarrow>
   is_live_combo x \<and> (\<forall>L w i. enat i < L \<longrightarrow> sat L w x i = alw L (sat L w n) i)"
proof (induction n rule: measure_induct_rule [of tree_size])
  case (less n)
  from classify_invariant_live_cases [OF less.prems] show ?case
  proof (elim disjE conjE exE)
    assume "x = n" "is_live_combo n"
    then show ?thesis by (simp add: live_combo_alw)
  next
    fix a assume "n = node_f a" "x = node_g n" "is_trans a"
    then show ?thesis by simp
  next
    fix a assume "n = node_g a" "classify_invariant a = Some (Some x)"
    with less.IH [of a] show ?thesis by (auto simp: alw_idem)
  qed
qed

interpretation cinit: classifier classify_init False
  by unfold_locales (auto simp: classify_init_def holds_at_def intro: gr_safety_prop split: if_splits)

interpretation cgen: classifier classify_general False
  by unfold_locales (auto simp: holds_at_def dest: classify_general_live classify_general_safe)

interpretation cinv: classifier classify_invariant True
  by unfold_locales (auto simp: holds_at_def dest: classify_invariant_live classify_invariant_safe)

text \<open>The assumption and the guarantee side of a specification, split.\<close>

definition env_side :: "enat \<Rightarrow> trace \<Rightarrow> nat \<Rightarrow> tlsf_spec \<Rightarrow> bool" where
  "env_side L w i s \<longleftrightarrow> all_hold L w i (items (initially s)) \<and>
     alw L (\<lambda>j. all_hold L w j (items (require s))) i \<and> all_hold L w i (items (assume_list s))"

definition sys_side :: "enat \<Rightarrow> trace \<Rightarrow> nat \<Rightarrow> tlsf_spec \<Rightarrow> bool" where
  "sys_side L w i s \<longleftrightarrow> all_hold L w i (items (preset s)) \<and>
     alw L (\<lambda>j. all_hold L w j (items (assert_list s))) i \<and> all_hold L w i (items (guarantee s))"

lemma holds_at_all:
  "list_all (holds_at L w i False) fs = all_hold L w i fs"
  "list_all (holds_at L w i True) fs = alw L (\<lambda>j. all_hold L w j fs) i"
  by (auto simp: holds_at_def all_hold_def list_all_iff alw_def)

lemma split_side:
  assumes "gr_walk_list classify_init [] is = Some l1"
    and "gr_walk_list classify_invariant l1 vs = Some l2"
    and "gr_walk_list classify_general l2 gs = Some l3"
  shows "\<exists>safe. list_all is_live_combo l3 \<and> list_all gr_safety safe \<and>
    (\<forall>L w i. enat i < L \<longrightarrow>
      (all_hold L w i is \<and> alw L (\<lambda>j. all_hold L w j vs) i \<and> all_hold L w i gs) =
      (all_hold L w i safe \<and> all_hold L w i l3))"
proof -
  from cinit.walk_list_split [OF assms(1)] cinv.walk_list_split [OF assms(2)]
    cgen.walk_list_split [OF assms(3)]
  obtain n1 s1 n2 s2 n3 s3 where n: "l1 = n1" "l2 = n1 @ n2" "l3 = n1 @ n2 @ n3"
    "list_all is_live_combo n1" "list_all is_live_combo n2" "list_all is_live_combo n3"
    "list_all gr_safety s1" "list_all gr_safety s2" "list_all gr_safety s3"
    "\<forall>L w i. enat i < L \<longrightarrow> all_hold L w i is = (all_hold L w i s1 \<and> all_hold L w i n1)"
    "\<forall>L w i. enat i < L \<longrightarrow> alw L (\<lambda>j. all_hold L w j vs) i = (all_hold L w i s2 \<and> all_hold L w i n2)"
    "\<forall>L w i. enat i < L \<longrightarrow> all_hold L w i gs = (all_hold L w i s3 \<and> all_hold L w i n3)"
    unfolding holds_at_all by auto
  have app: "all_hold L w i (xs @ ys) = (all_hold L w i xs \<and> all_hold L w i ys)" for L w i xs ys
    by (auto simp: all_hold_def)
  from n show ?thesis
    by (intro exI [of _ "s1 @ s2 @ s3"]) (simp add: app conj_ac)
qed

lemma gr_collect_split:
  assumes "gr_collect s = Some (env, sys)"
  shows "list_all is_live_combo env" and "list_all is_live_combo sys"
    and "\<exists>es ss. list_all gr_safety es \<and> list_all gr_safety ss \<and>
      (\<forall>L w i. enat i < L \<longrightarrow>
        env_side L w i s = (all_hold L w i es \<and> all_hold L w i env) \<and>
        sys_side L w i s = (all_hold L w i ss \<and> all_hold L w i sys))"
  using assms split_side [of "items (initially s)" _ "items (require s)" _ "items (assume_list s)" env]
    split_side [of "items (preset s)" _ "items (assert_list s)" _ "items (guarantee s)" sys]
  by (auto simp: gr_collect_def env_side_def sys_side_def) metis+

subsection \<open>Clause sets\<close>

definition clause_sat :: "(nat \<Rightarrow> bool) \<Rightarrow> clause \<Rightarrow> bool" where
  "clause_sat v k \<longleftrightarrow> (\<exists>i. bit (cl_pos k) i \<and> v i) \<or> (\<exists>i. bit (cl_neg k) i \<and> \<not> v i)"

definition cnf_sat :: "(nat \<Rightarrow> bool) \<Rightarrow> cnf \<Rightarrow> bool" where
  "cnf_sat v c \<longleftrightarrow> (\<forall>k\<in>set (clauses c). clause_sat v k)"

text \<open>All atoms of a clause set are among the first \<open>m\<close>, and it respects its limit.\<close>

definition clause_within :: "nat \<Rightarrow> clause \<Rightarrow> bool" where
  "clause_within m k \<longleftrightarrow> (\<forall>i. bit (cl_pos k) i \<or> bit (cl_neg k) i \<longrightarrow> i < m)"

definition cnf_within :: "nat \<Rightarrow> cnf \<Rightarrow> bool" where
  "cnf_within m c \<longleftrightarrow> (\<forall>k\<in>set (clauses c). clause_within m k) \<and> length (clauses c) \<le> GR_CLAUSES"

lemma cnf_within_mono: "cnf_within m c \<Longrightarrow> m \<le> m' \<Longrightarrow> cnf_within m' c"
  by (fastforce simp: cnf_within_def clause_within_def)

lemma clause_taut: "cl_pos k AND cl_neg k \<noteq> 0 \<Longrightarrow> clause_sat v k"
  by (auto simp: clause_sat_def bit_eq_iff bit_simps)

lemma clause_join_sat: "clause_sat v (clause_join k l) = (clause_sat v k \<or> clause_sat v l)"
  by (auto simp: clause_sat_def clause_join_def bit_simps)

lemma clause_join_within:
  "clause_within m k \<Longrightarrow> clause_within m l \<Longrightarrow> clause_within m (clause_join k l)"
  by (auto simp: clause_within_def clause_join_def bit_simps)

lemma cnf_add_overflow: "\<not> cnf_overflow (cnf_add c k) \<Longrightarrow> \<not> cnf_overflow c"
  by (auto simp: cnf_add_def split: if_splits)

lemma cnf_add_sat:
  "\<not> cnf_overflow (cnf_add c k) \<Longrightarrow> cnf_sat v (cnf_add c k) = (cnf_sat v c \<and> clause_sat v k)"
  using clause_taut [of k v]
  by (auto simp: cnf_add_def cnf_sat_def list_ex_iff split: if_splits) (metis clause_sat_def)+

lemma cnf_add_within: "cnf_within m c \<Longrightarrow> clause_within m k \<Longrightarrow> cnf_within m (cnf_add c k)"
  by (auto simp: cnf_add_def cnf_within_def)

text \<open>Adding a list of clauses.\<close>

lemma cnf_adds:
  "\<not> cnf_overflow (foldl cnf_add c ks) \<Longrightarrow> \<not> cnf_overflow c \<and>
     cnf_sat v (foldl cnf_add c ks) = (cnf_sat v c \<and> (\<forall>k\<in>set ks. clause_sat v k))"
  by (induction ks arbitrary: c) (auto simp: cnf_add_sat dest: cnf_add_overflow)

lemma cnf_adds_within:
  "cnf_within m c \<Longrightarrow> \<forall>k\<in>set ks. clause_within m k \<Longrightarrow> cnf_within m (foldl cnf_add c ks)"
  by (induction ks arbitrary: c) (auto simp: cnf_add_within)

lemma foldl_concat_map: "foldl f d (map g xs) = foldl (\<lambda>d x. f d (g x)) d xs"
  by (induction xs arbitrary: d) simp_all

lemma cnf_or_adds:
  "cnf_or a b = cnf_flag a b
     (foldl cnf_add cnf_true (concat (map (\<lambda>k. map (clause_join k) (clauses b)) (clauses a))))"
proof -
  have "foldl (\<lambda>d k. foldl (\<lambda>d l. cnf_add d (clause_join k l)) d bs) c as =
      foldl cnf_add c (concat (map (\<lambda>k. map (clause_join k) bs) as))" for as bs c
    by (induction as arbitrary: c) (simp_all add: foldl_concat_map)
  then show ?thesis by (simp add: cnf_or_def)
qed

lemma cnf_flag_simps [simp]:
  "clauses (cnf_flag a b d) = clauses d"
  "cnf_overflow (cnf_flag a b d) = (cnf_overflow a \<or> cnf_overflow b \<or> cnf_overflow d)"
  by (simp_all add: cnf_flag_def)

lemma cnf_sat_flag [simp]: "cnf_sat v (cnf_flag a b d) = cnf_sat v d"
  by (simp add: cnf_sat_def)

lemma cnf_within_flag [simp]: "cnf_within m (cnf_flag a b d) = cnf_within m d"
  by (simp add: cnf_within_def)

lemma cnf_true_simps [simp]:
  "clauses cnf_true = []" "cnf_overflow cnf_true = False" "cnf_sat v cnf_true" "cnf_within m cnf_true"
  by (simp_all add: cnf_true_def cnf_sat_def cnf_within_def)

lemma cnf_false_simps [simp]:
  "cnf_overflow cnf_false = False" "cnf_sat v cnf_false = False" "cnf_within m cnf_false"
  by (simp_all add: cnf_false_def cnf_add_def cnf_true_def cnf_sat_def clause_sat_def GR_CLAUSES_def
      cnf_within_def clause_within_def)

lemma cnf_fail_simps [simp]: "cnf_overflow cnf_fail" "cnf_within m cnf_fail"
  by (simp_all add: cnf_fail_def cnf_true_def cnf_within_def)

lemma cnf_and_ok:
  assumes "\<not> cnf_overflow (cnf_and a b)"
  shows "\<not> cnf_overflow a" "\<not> cnf_overflow b" "cnf_sat v (cnf_and a b) = (cnf_sat v a \<and> cnf_sat v b)"
  using assms cnf_adds [of "foldl cnf_add cnf_true (clauses a)" "clauses b" v]
    cnf_adds [of cnf_true "clauses a" v]
  by (auto simp: cnf_and_def) (simp_all add: cnf_sat_def)

lemma cnf_or_ok:
  assumes "\<not> cnf_overflow (cnf_or a b)"
  shows "\<not> cnf_overflow a" "\<not> cnf_overflow b" "cnf_sat v (cnf_or a b) = (cnf_sat v a \<or> cnf_sat v b)"
  using assms cnf_adds [of cnf_true "concat (map (\<lambda>k. map (clause_join k) (clauses b)) (clauses a))" v]
  by (auto simp: cnf_or_adds clause_join_sat) (auto simp: cnf_sat_def)

lemma cnf_and_within: "cnf_within m a \<Longrightarrow> cnf_within m b \<Longrightarrow> cnf_within m (cnf_and a b)"
  by (auto simp: cnf_and_def intro!: cnf_adds_within) (auto simp: cnf_within_def)

lemma cnf_or_within: "cnf_within m a \<Longrightarrow> cnf_within m b \<Longrightarrow> cnf_within m (cnf_or a b)"
  unfolding cnf_or_adds cnf_within_flag
  by (rule cnf_adds_within) (auto simp: cnf_within_def intro: clause_join_within)

subsection \<open>The atom table\<close>

definition gr_literal :: "gr_atom \<Rightarrow> node" where
  "gr_literal a = node_g (node_f (if ineg a then node_not (at_base a) else at_base a))"

definition tab_ok :: "atom_tab \<Rightarrow> bool" where
  "tab_ok t \<longleftrightarrow> length (tab_atoms t) \<le> GR_ATOMS \<and> distinct (tab_atoms t) \<and>
     list_all (\<lambda>a. is_trans (at_base a)) (tab_atoms t)"

lemma atom_find_Some:
  "atom_find as b ng i = Some j \<Longrightarrow>
   i \<le> j \<and> j - i < length as \<and> at_base (as ! (j - i)) = b \<and> ineg (as ! (j - i)) = ng"
proof (induction as b ng i rule: atom_find.induct)
  case (2 a as b ng i)
  show ?case
  proof (cases "ineg a = ng \<and> node_eq (at_base a) b")
    case True
    with "2.prems" show ?thesis by (auto dest: node_eqD)
  next
    case False
    with 2 have "Suc i \<le> j \<and> j - Suc i < length as \<and> at_base (as ! (j - Suc i)) = b \<and> ineg (as ! (j - Suc i)) = ng"
      by (metis atom_find.simps(2))
    then have "j - i = Suc (j - Suc i)" using Suc_diff_Suc [of i j] by simp
    with \<open>Suc i \<le> j \<and> _\<close> show ?thesis by simp
  qed
qed simp

lemma atom_find_None:
  "atom_find as b ng i = None \<Longrightarrow> ground b \<Longrightarrow> \<lparr>at_base = b, ineg = ng\<rparr> \<notin> set as"
  by (induction as b ng i rule: atom_find.induct) (auto split: if_splits simp: node_eq_refl)

lemma atom_index_spec:
  assumes "atom_index t b ng = (idx, t')" and "tab_ok t" and "is_trans b"
  shows "tab_ok t'" "prefix (tab_atoms t) (tab_atoms t')"
    "\<And>i. idx = Some i \<Longrightarrow> i < length (tab_atoms t') \<and> tab_atoms t' ! i = \<lparr>at_base = b, ineg = ng\<rparr>"
proof -
  have nth: "as ! j = \<lparr>at_base = b, ineg = ng\<rparr>" if "atom_find as b ng 0 = Some j" for as j
    using atom_find_Some [OF that] by (cases "as ! j") simp
  note f = atom_find_None [of "tab_atoms t" b ng 0] is_trans_ground [OF assms(3)]
  show "tab_ok t'" "prefix (tab_atoms t) (tab_atoms t')"
    using assms f by (auto simp: atom_index_def tab_ok_def split: option.splits if_splits)
  show "\<And>i. idx = Some i \<Longrightarrow> i < length (tab_atoms t') \<and> tab_atoms t' ! i = \<lparr>at_base = b, ineg = ng\<rparr>"
    using assms nth [of "tab_atoms t"] atom_find_Some [of "tab_atoms t" b ng 0]
    by (auto simp: atom_index_def split: option.splits if_splits)
qed

text \<open>The value of the atoms of a table at a position of a word.\<close>

definition atom_val :: "enat \<Rightarrow> trace \<Rightarrow> nat \<Rightarrow> gr_atom list \<Rightarrow> nat \<Rightarrow> bool" where
  "atom_val L w i T j = sat L w (gr_literal (T ! j)) i"

lemma prefix_nth: "prefix xs ys \<Longrightarrow> j < length xs \<Longrightarrow> ys ! j = xs ! j"
  by (auto simp: prefix_def nth_append)

lemma not_cases:
  obtains a where "m = node_not a" | "\<forall>a. m \<noteq> node_not a"
  by blast

lemma case_not_other:
  "\<forall>a. m \<noteq> node_not a \<Longrightarrow> (case m of Unary NODE_NOT a \<Rightarrow> f a | _ \<Rightarrow> g) = g"
  by (auto split: node.split un_kind.split)

lemma literal_spec:
  assumes "literal n t = Some (idx, lneg, t')" and "tab_ok t"
  shows "tab_ok t'" "prefix (tab_atoms t) (tab_atoms t')"
    "\<And>j. idx = Some j \<Longrightarrow> j < length (tab_atoms t') \<and>
       (\<forall>T L w i. prefix (tab_atoms t') T \<longrightarrow> sat L w n i = (atom_val L w i T j \<noteq> lneg))"
proof -
  have "\<exists>b ng. atom_index t b ng = (idx, t') \<and> is_trans b \<and>
      (\<forall>L w i. sat L w n i = (sat L w (gr_literal \<lparr>at_base = b, ineg = ng\<rparr>) i \<noteq> lneg))"
  proof (cases n rule: is_livelit_shape.cases)
    case n: (1 m)
    from assms(1) n have tr: "is_trans m" by (simp split: if_splits)
    show ?thesis
    proof (cases m rule: not_cases)
      case (1 a)
      have "atom_index t a True = (idx, t')" "lneg = False"
        using assms(1) tr unfolding n 1 by (simp_all split: prod.splits)
      then show ?thesis
        using tr by (intro exI [of _ a] exI [of _ True]) (simp add: n 1 gr_literal_def)
    next
      case 2
      have "atom_index t m False = (idx, t')" "lneg = False"
        using assms(1) tr unfolding n by (simp_all add: case_not_other [OF 2] split: prod.splits)
      then show ?thesis
        using tr by (intro exI [of _ m] exI [of _ False]) (simp add: n gr_literal_def)
    qed
  next
    case n: (2 m)
    have fg: "ev L (alw L P) i = (\<not> alw L (ev L (\<lambda>j. \<not> P j)) i)" for L P i
      by (auto simp: ev_def alw_def)
    from assms(1) n have tr: "is_trans m" by (simp split: if_splits)
    show ?thesis
    proof (cases m rule: not_cases)
      case (1 a)
      have "atom_index t a False = (idx, t')" "lneg = True"
        using assms(1) tr unfolding n 1 by (simp_all split: prod.splits)
      then show ?thesis
        using tr by (intro exI [of _ a] exI [of _ False]) (simp add: n 1 gr_literal_def fg)
    next
      case 2
      have "atom_index t m True = (idx, t')" "lneg = True"
        using assms(1) tr unfolding n by (simp_all add: case_not_other [OF 2] split: prod.splits)
      then show ?thesis
        using tr by (intro exI [of _ m] exI [of _ True]) (simp add: n gr_literal_def fg)
    qed
  qed (use assms(1) in simp_all)
  then obtain b ng where b: "atom_index t b ng = (idx, t')" "is_trans b"
    "\<forall>L w i. sat L w n i = (sat L w (gr_literal \<lparr>at_base = b, ineg = ng\<rparr>) i \<noteq> lneg)" by blast
  note a = atom_index_spec [OF b(1) assms(2) b(2)]
  show "tab_ok t'" "prefix (tab_atoms t) (tab_atoms t')" by (rule a(1), rule a(2))
  show "\<And>j. idx = Some j \<Longrightarrow> j < length (tab_atoms t') \<and>
       (\<forall>T L w i. prefix (tab_atoms t') T \<longrightarrow> sat L w n i = (atom_val L w i T j \<noteq> lneg))"
    using a(3) b(3) by (auto simp: atom_val_def prefix_nth)
qed

end
