(* ===== verification/Gr_Level.thy ===== *)
theory Gr_Level
  imports Gr_Correct
begin

text \<open>
  The normal form of the liveness implication: every operation on clause sets means what it
  should over the atom table and its extensions, so the level counts the antecedents of a
  clause set that is equivalent to the implication.
\<close>

lemma literal_None: "literal n t = None \<Longrightarrow> \<not> is_livelit_shape n"
  by (cases n rule: is_livelit_shape.cases) (simp_all split: prod.splits if_splits)

subsection \<open>The normal form\<close>

text \<open>
  A clause set over the atoms of a table means the predicate \<open>Q\<close> of words and positions, for
  the table and all that extend it, unless its overflow flag is set.
\<close>

definition cnf_means :: "(enat \<Rightarrow> trace \<Rightarrow> nat \<Rightarrow> bool) \<Rightarrow> atom_tab \<Rightarrow> cnf \<Rightarrow> bool" where
  "cnf_means Q t c \<longleftrightarrow> cnf_within (length (tab_atoms t)) c \<and>
     (\<not> cnf_overflow c \<longrightarrow> (\<forall>T L w i. prefix (tab_atoms t) T \<longrightarrow>
        cnf_sat (atom_val L w i T) c = Q L w i))"

definition tab_grows :: "atom_tab \<Rightarrow> atom_tab \<Rightarrow> bool" where
  "tab_grows t t' \<longleftrightarrow> prefix (tab_atoms t) (tab_atoms t')"

lemma tab_grows_refl [simp]: "tab_grows t t"
  by (simp add: tab_grows_def)

lemma tab_grows_trans: "tab_grows t t' \<Longrightarrow> tab_grows t' t'' \<Longrightarrow> tab_grows t t''"
  by (auto simp: tab_grows_def)

lemma cnf_means_grows: "cnf_means Q t c \<Longrightarrow> tab_grows t t' \<Longrightarrow> cnf_means Q t' c"
  unfolding cnf_means_def tab_grows_def
  by (metis cnf_within_mono prefix_length_le prefix_order.trans)

lemma cnf_means_and:
  "cnf_means Q t a \<Longrightarrow> cnf_means R t b \<Longrightarrow> cnf_means (\<lambda>L w i. Q L w i \<and> R L w i) t (cnf_and a b)"
  unfolding cnf_means_def
  by (intro conjI impI allI) (metis cnf_and_within, metis cnf_and_ok)

lemma cnf_means_or:
  "cnf_means Q t a \<Longrightarrow> cnf_means R t b \<Longrightarrow> cnf_means (\<lambda>L w i. Q L w i \<or> R L w i) t (cnf_or a b)"
  unfolding cnf_means_def
  by (intro conjI impI allI) (metis cnf_or_within, metis cnf_or_ok)

lemma cnf_means_cong: "cnf_means Q t c \<Longrightarrow> (\<And>L w i. Q L w i = R L w i) \<Longrightarrow> cnf_means R t c"
  by (simp add: cnf_means_def)

lemma cnf_literal_means:
  assumes "tab_ok t" and "\<And>j. idx = Some j \<Longrightarrow> j < length (tab_atoms t) \<and>
       (\<forall>T L w i. prefix (tab_atoms t) T \<longrightarrow> Q L w i = (atom_val L w i T j \<noteq> lneg))"
  shows "cnf_means (\<lambda>L w i. Q L w i = pos) t (cnf_literal idx (lneg \<noteq> (\<not> pos)))"
proof (cases idx)
  case None
  then show ?thesis by (simp add: cnf_literal_def cnf_means_def cnf_within_def)
next
  case (Some j)
  with assms have j: "j < length (tab_atoms t)" "j < 64"
    "\<forall>T L w i. prefix (tab_atoms t) T \<longrightarrow> Q L w i = (atom_val L w i T j \<noteq> lneg)"
    by (auto simp: tab_ok_def GR_ATOMS_def)
  have bit: "bit (2 ^ j :: u64) m \<longleftrightarrow> m = j" for m
    using j(2) by (auto simp: bit_simps)
  from j show ?thesis
    by (auto simp: Some cnf_literal_def cnf_means_def cnf_add_def cnf_true_def GR_CLAUSES_def
        cnf_within_def clause_within_def cnf_sat_def clause_sat_def bit)
qed

definition cnf_step :: "node \<Rightarrow> bool \<Rightarrow> atom_tab \<Rightarrow> cnf \<times> atom_tab \<Rightarrow> bool" where
  "cnf_step n pos t r \<longleftrightarrow> tab_ok (snd r) \<and> tab_grows t (snd r) \<and>
     cnf_means (\<lambda>L w i. sat L w n i = pos) (snd r) (fst r)"

lemma cnf_stepD:
  "cnf_step n pos t (c, t') \<Longrightarrow> tab_ok t'"
  "cnf_step n pos t (c, t') \<Longrightarrow> tab_grows t t'"
  "cnf_step n pos t (c, t') \<Longrightarrow> tab_grows t' t'' \<Longrightarrow> cnf_means (\<lambda>L w i. sat L w n i = pos) t'' c"
  by (auto simp: cnf_step_def intro: cnf_means_grows)

lemma cnf_stepI:
  "tab_ok t' \<Longrightarrow> tab_grows t t' \<Longrightarrow> cnf_means Q t' c \<Longrightarrow> (\<And>L w i. Q L w i = (sat L w n i = pos)) \<Longrightarrow>
   cnf_step n pos t (c, t')"
  by (auto simp: cnf_step_def elim: cnf_means_cong)

lemma cnf_of_unary:
  assumes "is_live_combo (Unary k a)" and "tab_ok t"
    and "\<And>pos t. is_live_combo a \<Longrightarrow> tab_ok t \<Longrightarrow> cnf_step a pos t (cnf_of a pos t)"
  shows "cnf_step (Unary k a) pos t (cnf_of (Unary k a) pos t)"
proof (cases "literal (Unary k a) t")
  case None
  with assms(1) literal_None [OF None] have k: "k = NODE_NOT" "is_live_combo a" by auto
  obtain c t' where c: "cnf_of a (\<not> pos) t = (c, t')" by fastforce
  with assms(3) [OF k(2) assms(2), of "\<not> pos"] have st: "cnf_step a (\<not> pos) t (c, t')" by simp
  have "cnf_of (Unary k a) pos t = (c, t')" using None c k(1) by simp
  moreover have "cnf_step (Unary k a) pos t (c, t')"
    by (rule cnf_stepI [OF cnf_stepD(1,2) [OF st] cnf_stepD(3) [OF st tab_grows_refl]]) (auto simp: k(1))
  ultimately show ?thesis by simp
next
  case (Some r)
  then obtain idx lneg t1 where r: "literal (Unary k a) t = Some (idx, lneg, t1)" by (cases r) auto
  note l = literal_spec [OF r assms(2)]
  from l(1,2) cnf_literal_means [OF l(1), of idx "\<lambda>L w i. sat L w (Unary k a) i" lneg pos] l(3)
  show ?thesis by (simp add: r cnf_step_def tab_grows_def del: sat.simps)
qed

text \<open>Two calls in sequence.\<close>

lemma cnf_step_two:
  assumes "cnf_step a p t (l, t1)" and "cnf_step b q t1 (r, t2)"
  shows "tab_ok t2" "tab_grows t t2"
    "cnf_means (\<lambda>L w i. sat L w a i = p \<and> sat L w b i = q) t2 (cnf_and l r)"
    "cnf_means (\<lambda>L w i. sat L w a i = p \<or> sat L w b i = q) t2 (cnf_or l r)"
  using cnf_stepD [OF assms(1)] cnf_stepD [OF assms(2)]
  by (auto intro: tab_grows_trans cnf_means_and cnf_means_or)

lemma cnf_of_two:
  assumes t: "tab_ok t"
    and A: "\<And>pos t. tab_ok t \<Longrightarrow> cnf_step a pos t (cnf_of a pos t)"
    and B: "\<And>pos t. tab_ok t \<Longrightarrow> cnf_step b pos t (cnf_of b pos t)"
  obtains l t1 r t2 where "cnf_of a p t = (l, t1)" "cnf_of b q t1 = (r, t2)" "tab_ok t2" "tab_grows t t2"
    "cnf_means (\<lambda>L w i. sat L w a i = p \<and> sat L w b i = q) t2 (cnf_and l r)"
    "cnf_means (\<lambda>L w i. sat L w a i = p \<or> sat L w b i = q) t2 (cnf_or l r)"
proof -
  obtain l t1 where l: "cnf_of a p t = (l, t1)" by fastforce
  with A [OF t, of p] have a: "cnf_step a p t (l, t1)" by simp
  obtain r t2 where r: "cnf_of b q t1 = (r, t2)" by fastforce
  with B [OF cnf_stepD(1) [OF a], of q] have b: "cnf_step b q t1 (r, t2)" by simp
  show ?thesis using cnf_step_two [OF a b] by (intro that [OF l r])
qed

lemma cnf_of_binary:
  assumes n: "is_live_combo (Binary k a b)" and t: "tab_ok t"
    and A: "\<And>pos t. tab_ok t \<Longrightarrow> cnf_step a pos t (cnf_of a pos t)"
    and B: "\<And>pos t. tab_ok t \<Longrightarrow> cnf_step b pos t (cnf_of b pos t)"
  shows "cnf_step (Binary k a b) pos t (cnf_of (Binary k a b) pos t)"
proof -
  show ?thesis
  proof (cases k)
    case NODE_AND
    show ?thesis
      by (rule cnf_of_two [OF t A B, of pos pos], cases pos)
        (simp_all add: NODE_AND, auto intro: cnf_stepI)
  next
    case NODE_OR
    show ?thesis
      by (rule cnf_of_two [OF t A B, of pos pos], cases pos)
        (simp_all add: NODE_OR, auto intro: cnf_stepI)
  next
    case NODE_IMPL
    show ?thesis
      by (rule cnf_of_two [OF t A B, of "\<not> pos" pos], cases pos)
        (simp_all add: NODE_IMPL, auto intro: cnf_stepI)
  next
    case NODE_EQUIV
    show ?thesis
    proof (cases pos)
      case True
      obtain l t1 r t2 where 1: "cnf_of a False t = (l, t1)" "cnf_of b True t1 = (r, t2)" "tab_ok t2"
        "tab_grows t t2" "cnf_means (\<lambda>L w i. sat L w a i = False \<or> sat L w b i = True) t2 (cnf_or l r)"
        by (rule cnf_of_two [OF t A B, of False True])
      obtain l' t3 r' t4 where 2: "cnf_of b False t2 = (l', t3)" "cnf_of a True t3 = (r', t4)" "tab_ok t4"
        "tab_grows t2 t4" "cnf_means (\<lambda>L w i. sat L w b i = False \<or> sat L w a i = True) t4 (cnf_or l' r')"
        by (rule cnf_of_two [OF 1(3) B A, of False True])
      from cnf_means_and [OF cnf_means_grows [OF 1(5) 2(4)] 2(5)] 1 2 show ?thesis
        by (auto simp: NODE_EQUIV True intro: cnf_stepI tab_grows_trans)
    next
      case False
      obtain l t1 r t2 where 1: "cnf_of a True t = (l, t1)" "cnf_of b False t1 = (r, t2)" "tab_ok t2"
        "tab_grows t t2" "cnf_means (\<lambda>L w i. sat L w a i = True \<and> sat L w b i = False) t2 (cnf_and l r)"
        by (rule cnf_of_two [OF t A B, of True False])
      obtain l' t3 r' t4 where 2: "cnf_of a False t2 = (l', t3)" "cnf_of b True t3 = (r', t4)" "tab_ok t4"
        "tab_grows t2 t4" "cnf_means (\<lambda>L w i. sat L w a i = False \<and> sat L w b i = True) t4 (cnf_and l' r')"
        by (rule cnf_of_two [OF 1(3) A B, of False True])
      from cnf_means_or [OF cnf_means_grows [OF 1(5) 2(4)] 2(5)] 1 2 show ?thesis
        by (auto simp: NODE_EQUIV False intro: cnf_stepI tab_grows_trans)
    qed
  qed (use n in simp_all)
qed

lemma cnf_of_spec: "is_live_combo n \<Longrightarrow> tab_ok t \<Longrightarrow> cnf_step n pos t (cnf_of n pos t)"
proof (induction n arbitrary: pos t)
  case (Unary k a)
  then show ?case by (intro cnf_of_unary)
next
  case (Binary k a b)
  then show ?case by (intro cnf_of_binary) auto
qed (auto simp: cnf_step_def cnf_means_def)

lemma cnf_conj_spec:
  assumes "list_all is_live_combo ns" and "tab_ok t" and "cnf_means Q t acc"
    and "cnf_conj ns acc t = (c, t')"
  shows "tab_ok t' \<and> tab_grows t t' \<and> cnf_means (\<lambda>L w i. Q L w i \<and> all_hold L w i ns) t' c"
  using assms
proof (induction ns arbitrary: Q acc t)
  case Nil
  then show ?case by (simp add: all_hold_def)
next
  case (Cons n ns)
  obtain tmp t1 where n: "cnf_of n True t = (tmp, t1)" by fastforce
  with cnf_of_spec [of n t True] Cons.prems have st: "cnf_step n True t (tmp, t1)" by simp
  have "cnf_means (\<lambda>L w i. Q L w i \<and> sat L w n i = True) t1 (cnf_and acc tmp)"
    by (intro cnf_means_and cnf_means_grows [OF Cons.prems(3) cnf_stepD(2) [OF st]]
        cnf_stepD(3) [OF st tab_grows_refl])
  from Cons.IH [OF _ cnf_stepD(1) [OF st] this] Cons.prems n cnf_stepD(2) [OF st]
  show ?case by (auto simp: all_hold_def intro: tab_grows_trans cnf_means_cong)
qed

lemma cnf_disj_not_spec:
  assumes "list_all is_live_combo ns" and "tab_ok t" and "cnf_means Q t acc"
    and "cnf_disj_not ns acc t = (c, t')"
  shows "tab_ok t' \<and> tab_grows t t' \<and> cnf_means (\<lambda>L w i. Q L w i \<or> \<not> all_hold L w i ns) t' c"
  using assms
proof (induction ns arbitrary: Q acc t)
  case Nil
  then show ?case by (simp add: all_hold_def)
next
  case (Cons n ns)
  obtain tmp t1 where n: "cnf_of n False t = (tmp, t1)" by fastforce
  with cnf_of_spec [of n t False] Cons.prems have st: "cnf_step n False t (tmp, t1)" by simp
  have "cnf_means (\<lambda>L w i. Q L w i \<or> sat L w n i = False) t1 (cnf_or acc tmp)"
    by (intro cnf_means_or cnf_means_grows [OF Cons.prems(3) cnf_stepD(2) [OF st]]
        cnf_stepD(3) [OF st tab_grows_refl])
  from Cons.IH [OF _ cnf_stepD(1) [OF st] this] Cons.prems n cnf_stepD(2) [OF st]
  show ?case by (auto simp: all_hold_def intro: tab_grows_trans cnf_means_cong)
qed

lemma gr_cnf_spec:
  assumes "gr_cnf env sys = Some (c, t)" and "list_all is_live_combo env" and "list_all is_live_combo sys"
  shows "tab_ok t" and "cnf_within (length (tab_atoms t)) c"
    and "cnf_sat (atom_val L w i (tab_atoms t)) c = (all_hold L w i env \<longrightarrow> all_hold L w i sys)"
proof -
  obtain b t1 where b: "cnf_conj sys cnf_true empty_tab = (b, t1)" by fastforce
  obtain a t2 where a: "cnf_disj_not env cnf_false t1 = (a, t2)" by fastforce
  have e: "tab_ok empty_tab" by (simp add: tab_ok_def empty_tab_def)
  have t: "cnf_means (\<lambda>L w i. True) empty_tab cnf_true" "cnf_means (\<lambda>L w i. False) t1 cnf_false"
    by (simp_all add: cnf_means_def)
  from cnf_conj_spec [OF assms(3) e t(1) b] have B: "tab_ok t1" "cnf_means (\<lambda>L w i. all_hold L w i sys) t1 b"
    by simp_all
  from cnf_disj_not_spec [OF assms(2) B(1) t(2) a] have A: "tab_ok t2" "tab_grows t1 t2"
    "cnf_means (\<lambda>L w i. \<not> all_hold L w i env) t2 a" by simp_all
  have eq: "t = t2" "c = cnf_or a b" "\<not> cnf_overflow c"
    using assms(1) by (auto simp: gr_cnf_def a b Let_def split: if_splits)
  have "cnf_means (\<lambda>L w i. \<not> all_hold L w i env \<or> all_hold L w i sys) t2 c"
    unfolding eq by (rule cnf_means_or [OF A(3) cnf_means_grows [OF B(2) A(2)]])
  with A(1) eq show "tab_ok t" "cnf_within (length (tab_atoms t)) c"
    "cnf_sat (atom_val L w i (tab_atoms t)) c = (all_hold L w i env \<longrightarrow> all_hold L w i sys)"
    by (auto simp: cnf_means_def)
qed

lemma distinct_negs_set: "distinct (distinct_negs cs) \<and> set (distinct_negs cs) = cl_neg ` set cs"
proof -
  have "distinct (foldl (\<lambda>seen c. if list_ex (\<lambda>a. a = cl_neg c) seen then seen else seen @ [cl_neg c]) seen cs) \<and>
      set (foldl (\<lambda>seen c. if list_ex (\<lambda>a. a = cl_neg c) seen then seen else seen @ [cl_neg c]) seen cs)
        = set seen \<union> cl_neg ` set cs" if "distinct seen" for seen
    using that by (induction cs arbitrary: seen) (auto simp: list_ex_iff)
  from this [of "[]"] show ?thesis by (simp add: distinct_negs_def)
qed

lemma distinct_negs_card: "length (distinct_negs cs) = card (cl_neg ` set cs)"
  using distinct_negs_set [of cs] distinct_card by metis

subsection \<open>The generalised reactivity normal form\<close>

text \<open>
  A reactivity implication over the literals \<open>GF b\<close> of a table, as pairs of consequent and
  antecedent index sets.
\<close>

definition reactivity :: "enat \<Rightarrow> trace \<Rightarrow> nat \<Rightarrow> gr_atom list \<Rightarrow> (nat set \<times> nat set) set \<Rightarrow> bool" where
  "reactivity L w i T C \<longleftrightarrow>
     (\<forall>(P, N)\<in>C. (\<forall>j\<in>N. sat L w (gr_literal (T ! j)) i) \<longrightarrow> (\<exists>j\<in>P. sat L w (gr_literal (T ! j)) i))"

definition clause_sets :: "clause \<Rightarrow> nat set \<times> nat set" where
  "clause_sets k = ({j. bit (cl_pos k) j}, {j. bit (cl_neg k) j})"

lemma reactivity_cnf:
  "reactivity L w i T (clause_sets ` set (clauses c)) = cnf_sat (atom_val L w i T) c"
  unfolding reactivity_def cnf_sat_def clause_sat_def clause_sets_def atom_val_def by auto

lemma card_antecedents: "card (snd ` clause_sets ` ks) = card (cl_neg ` ks)"
proof -
  have "inj (\<lambda>m :: u64. {j. bit m j})" by (auto simp: inj_def bit_eq_iff set_eq_iff)
  moreover have "snd ` clause_sets ` ks = (\<lambda>m. {j. bit m j}) ` cl_neg ` ks"
    by (auto simp: clause_sets_def image_iff)
  ultimately show ?thesis by (simp add: card_image inj_on_subset)
qed

lemma gr_level_ge:
  assumes "gr_level s = int k"
  obtains env sys c t where "gr_collect s = Some (env, sys)" "gr_cnf env sys = Some (c, t)"
    "k = card (cl_neg ` set (clauses c))"
  using assms by (auto simp: gr_level_def distinct_negs_card split: option.splits prod.splits)

text \<open>
  C20. Soundness of the GR(k) recogniser: when it returns \<open>k \<ge> 0\<close>, the assumption side and the
  guarantee side of the specification each split into safety formulas and liveness
  combinations, and the liveness implication between the two is equivalent, on every word of
  any length, to a reactivity condition over at most 64 distinct literals \<open>GF b\<close> that has
  exactly \<open>k\<close> distinct antecedents.
\<close>

theorem gr_level_sound:
  assumes "gr_level s = int k"
  shows "\<exists>es ss el sl T C. list_all gr_safety es \<and> list_all gr_safety ss \<and>
    list_all is_live_combo el \<and> list_all is_live_combo sl \<and>
    length T \<le> 64 \<and> distinct T \<and> list_all (\<lambda>a. is_trans (at_base a)) T \<and>
    (\<forall>(P, N)\<in>C. P \<union> N \<subseteq> {..<length T}) \<and> card (snd ` C) = k \<and>
    (\<forall>L w i. enat i < L \<longrightarrow>
       env_side L w i s = (all_hold L w i es \<and> all_hold L w i el) \<and>
       sys_side L w i s = (all_hold L w i ss \<and> all_hold L w i sl) \<and>
       (all_hold L w i el \<longrightarrow> all_hold L w i sl) = reactivity L w i T C)"
proof -
  obtain el sl c t where g: "gr_collect s = Some (el, sl)" "gr_cnf el sl = Some (c, t)"
    "k = card (cl_neg ` set (clauses c))"
    by (rule gr_level_ge [OF assms])
  note sp = gr_collect_split [OF g(1)]
  note cn = gr_cnf_spec [OF g(2) sp(1,2)]
  from sp(3) obtain es ss where e: "list_all gr_safety es" "list_all gr_safety ss"
    "\<forall>L w i. enat i < L \<longrightarrow> env_side L w i s = (all_hold L w i es \<and> all_hold L w i el) \<and>
        sys_side L w i s = (all_hold L w i ss \<and> all_hold L w i sl)" by blast
  have w: "\<forall>(P, N)\<in>clause_sets ` set (clauses c). P \<union> N \<subseteq> {..<length (tab_atoms t)}"
    using cn(2) by (auto simp: cnf_within_def clause_within_def clause_sets_def)
  show ?thesis
    by (rule exI [of _ es], rule exI [of _ ss], rule exI [of _ el], rule exI [of _ sl],
        rule exI [of _ "tab_atoms t"], rule exI [of _ "clause_sets ` set (clauses c)"])
      (use e w sp(1,2) cn(1) g(3) in \<open>simp add: tab_ok_def GR_ATOMS_def card_antecedents reactivity_cnf cn(3)\<close>)
qed

definition gr1_demo :: tlsf_spec where
  "gr1_demo = spec_new\<lparr>
     assert_list := \<lparr>items = [node_impl (NodeAp ''r'') (node_x (NodeAp ''g''))], capacity = 8\<rparr>,
     assume_list := \<lparr>items = [node_g (node_f (NodeAp ''r''))], capacity = 8\<rparr>,
     guarantee := \<lparr>items = [node_g (node_and (node_f (NodeAp ''g'')) (node_f (node_not (NodeAp ''g''))))],
       capacity = 8\<rparr>\<rparr>"

theorem gr_level_sound_witness:
  "gr_level gr1_demo = 1 \<and>
   (\<exists>T C. length T \<le> 64 \<and> card (snd ` C) = 1 \<and>
      reactivity \<infinity> (\<lambda>i. if even i then {''g''} else {}) 0 T C)"
proof
  let ?w = "\<lambda>i :: nat. if even i then {''g''} else {}"
  show g: "gr_level gr1_demo = 1" by code_simp
  have ev: "\<exists>j\<ge>i. even j" "\<exists>j\<ge>i. odd j" for i :: nat
    by (metis even_Suc le_Suc_eq order_refl)+
  have "all_hold \<infinity> ?w 0 (items (guarantee gr1_demo))"
    using ev by (auto simp: gr1_demo_def all_hold_def temporal_defs)
  moreover have "sat \<infinity> ?w (node_impl (NodeAp ''r'') (node_x (NodeAp ''g''))) j" for j by simp
  ultimately have sys: "sys_side \<infinity> ?w 0 gr1_demo"
    by (auto simp: sys_side_def gr1_demo_def all_hold_def alw_def spec_new_def empty_growable_def)
  have "gr_level gr1_demo = int 1" unfolding g by simp
  from gr_level_sound [OF this] sys
  show "\<exists>T C. length T \<le> 64 \<and> card (snd ` C) = 1 \<and> reactivity \<infinity> ?w 0 T C"
    by (metis enat_ord_code(4))
qed

text \<open>
  Level 0: the liveness implication is valid, so under the assumptions only the safety part
  of the guarantees is left to satisfy.
\<close>

lemma gr_level_zero:
  assumes "gr_level s = 0"
  shows "\<exists>ss. list_all gr_safety ss \<and> (\<forall>L w i. enat i < L \<longrightarrow> env_side L w i s \<longrightarrow>
    sys_side L w i s = all_hold L w i ss)"
proof -
  from assms have z: "gr_level s = int 0" by simp
  obtain el sl c t where g: "gr_collect s = Some (el, sl)" "gr_cnf el sl = Some (c, t)"
    "0 = card (cl_neg ` set (clauses c))"
    by (rule gr_level_ge [OF z])
  from g(3) have "clauses c = []" by simp
  with gr_cnf_spec(3) [OF g(2) gr_collect_split(1,2) [OF g(1)]]
  have v: "all_hold L w i el \<longrightarrow> all_hold L w i sl" for L w i by (simp add: cnf_sat_def)
  from gr_collect_split(3) [OF g(1)] v show ?thesis by blast
qed

lemma gr_level_bounds: "-1 \<le> gr_level s \<and> gr_level s \<le> 256"
proof (cases "gr_level s = -1")
  case False
  then obtain k where k: "gr_level s = int k"
    by (auto simp: gr_level_def split: option.splits prod.splits)
  obtain el sl c t where g: "gr_collect s = Some (el, sl)" "gr_cnf el sl = Some (c, t)"
    "k = card (cl_neg ` set (clauses c))"
    by (rule gr_level_ge [OF k])
  have "length (clauses c) \<le> 256"
    using gr_cnf_spec(2) [OF g(2) gr_collect_split(1,2) [OF g(1)]]
    by (simp add: cnf_within_def GR_CLAUSES_def)
  moreover have "k \<le> length (clauses c)"
    unfolding g(3) by (metis card_image_le card_length finite_set le_trans)
  ultimately show ?thesis using k by simp
qed simp

text \<open>Level 0 is also returned for specifications that do have liveness formulas.\<close>

lemma gr_level_zero_with_liveness:
  "gr_level (spec_new\<lparr>
     assume_list := \<lparr>items = [node_g (node_f (NodeAp ''r''))], capacity = 8\<rparr>,
     guarantee := \<lparr>items = [node_g (node_f (NodeAp ''r''))], capacity = 8\<rparr>\<rparr>) = 0"
  by code_simp

subsection \<open>The level of a section view\<close>

text \<open>The level read off the classified section view is the level of the specification.\<close>

lemma gr_level_cong:
  assumes "items (initially s) = items (initially s')" "items (preset s) = items (preset s')"
    "items (require s) = items (require s')" "items (assert_list s) = items (assert_list s')"
    "items (assume_list s) = items (assume_list s')" "items (guarantee s) = items (guarantee s')"
  shows "gr_level s = gr_level s'"
  by (simp add: gr_level_def gr_collect_def assms)

lemma section_pattern_gr_level_spec:
  assumes "spec_ground s" and "spec_size s \<le> 2 ^ 31"
  shows "\<exists>cs v. classify_spec s = Some cs \<and> section_pattern_from_classified s cs = Some v \<and>
    section_pattern_gr_level s v = gr_level s"
proof -
  obtain cs v where v: "classify_spec s = Some cs" "section_pattern_from_classified s cs = Some v"
     "role_formulas v TLSF_ROLE_INITIALLY = items (initially s)"
     "role_formulas v TLSF_ROLE_REQUIRE = items (require s)"
     "role_formulas v TLSF_ROLE_ASSUME = items (assume_list s)"
     "role_formulas v TLSF_ROLE_PRESET = items (preset s)"
     "role_formulas v TLSF_ROLE_ASSERT = items (assert_list s)"
     "role_formulas v TLSF_ROLE_GUARANTEE = items (guarantee s)"
    using lower_spec_view [OF assms] by blast
  have "section_pattern_gr_level s v = gr_level s"
    unfolding section_pattern_gr_level_def
    by (rule gr_level_cong) (simp_all add: tmp_role_list_def v(3-) [symmetric] role_formulas_def)
  with v(1,2) show ?thesis by blast
qed

end
