(* ===== verification/Dpa_Colours.thy ===== *)
theory Dpa_Colours
  imports Prelude
begin

text \<open>
  Colour sets and the BDD interface of the deterministic parity automata,
  \<^verbatim>\<open>src/lib/dpa_internal.h\<close> and \<^verbatim>\<open>src/lib/dpa_zielonka.c\<close>.  A set of acceptance colours is an
  array of 64-bit words; its meaning is the set \<open>cset\<close> of its bits.  The decision diagrams
  are those of the external library OxiDD: its operations are the parameters \<open>bdd_ops\<close> of the
  model, and the locale \<open>bdd\<close> states what its documentation promises of them.
\<close>

unbundle bit_operations_syntax

subsection \<open>Colour sets\<close>

definition dpa_colour :: "u64 list \<Rightarrow> nat \<Rightarrow> bool" where
  "dpa_colour s i = bit (s ! (i div 64)) (i mod 64)"

definition dpa_set_colour :: "u64 list \<Rightarrow> nat \<Rightarrow> u64 list" where
  "dpa_set_colour s i = s[i div 64 := s ! (i div 64) OR push_bit (i mod 64) 1]"

definition zero_colours :: "nat \<Rightarrow> u64 list" where
  "zero_colours words = replicate words 0"

fun contains :: "u64 list \<Rightarrow> u64 list \<Rightarrow> bool" where
  "contains (a # as) (b # bs) = (if b AND NOT a \<noteq> 0 then False else contains as bs)"
| "contains _ _ = True"

definition cset :: "u64 list \<Rightarrow> nat set" where
  "cset s = {i. i < 64 * length s \<and> dpa_colour s i}"

lemma finite_cset [simp]: "finite (cset s)"
  by (simp add: cset_def)

lemma dpa_colour_cset: "i < 64 * length s \<Longrightarrow> dpa_colour s i \<longleftrightarrow> i \<in> cset s"
  by (simp add: cset_def)

lemma length_set_colour [simp]: "length (dpa_set_colour s i) = length s"
  by (simp add: dpa_set_colour_def)

lemma length_zero_colours [simp]: "length (zero_colours n) = n"
  by (simp add: zero_colours_def)

lemma div64_less: "(i :: nat) < 64 * n \<Longrightarrow> i div 64 < n"
  by (simp add: less_mult_imp_div_less mult.commute)

lemma cset_zero [simp]: "cset (zero_colours n) = {}"
  by (auto simp: cset_def dpa_colour_def zero_colours_def div64_less)

lemma cset_set_colour:
  assumes "i < 64 * length s"
  shows "cset (dpa_set_colour s i) = insert i (cset s)"
proof -
  have "bit (dpa_set_colour s i ! (j div 64)) (j mod 64) \<longleftrightarrow> j = i \<or> bit (s ! (j div 64)) (j mod 64)"
    if "j < 64 * length s" for j
  proof (cases "j div 64 = i div 64")
    case True
    then have "j mod 64 = i mod 64 \<longleftrightarrow> j = i" by (metis div_mult_mod_eq)
    with True show ?thesis
      using div64_less [OF assms]
      by (auto simp: dpa_set_colour_def bit_simps)
  next
    case False
    then show ?thesis by (auto simp: dpa_set_colour_def)
  qed
  then show ?thesis using assms by (auto simp: cset_def dpa_colour_def)
qed

lemma contains_iff: "length a = length b \<Longrightarrow> contains a b \<longleftrightarrow> cset b \<subseteq> cset a"
proof (induction a b rule: contains.induct)
  case (1 a as b bs)
  have shift: "i \<in> cset (x # xs) \<longleftrightarrow> (if i < 64 then bit x i else i - 64 \<in> cset xs)" for i x xs
  proof (cases "i < 64")
    case False
    then have "i div 64 = Suc ((i - 64) div 64)" "(i - 64) mod 64 = i mod 64"
      by (simp_all add: le_div_geq le_mod_geq [symmetric])
    with False show ?thesis by (auto simp: cset_def dpa_colour_def)
  qed (simp add: cset_def dpa_colour_def)
  have zero: "b AND NOT a = 0 \<longleftrightarrow> (\<forall>i<64. bit b i \<longrightarrow> bit a i)"
    by (auto simp: bit_eq_iff bit_simps)
  have "cset (b # bs) \<subseteq> cset (a # as) \<longleftrightarrow> (\<forall>i<64. bit b i \<longrightarrow> bit a i) \<and> cset bs \<subseteq> cset as"
    (is "?l = (?m \<and> ?r)")
  proof
    assume l: ?l
    have ?m
    proof (intro allI impI)
      fix i assume i: "i < 64" "bit b i"
      then have "i \<in> cset (b # bs)" by (simp add: shift)
      with l have "i \<in> cset (a # as)" by blast
      with i show "bit a i" by (simp add: shift)
    qed
    moreover have ?r
    proof
      fix i assume "i \<in> cset bs"
      then have "i + 64 \<in> cset (b # bs)" by (simp add: shift)
      with l have "i + 64 \<in> cset (a # as)" by blast
      then show "i \<in> cset as" by (simp add: shift)
    qed
    ultimately show "?m \<and> ?r" by simp
  qed (auto simp: shift split: if_splits)
  with 1 zero show ?case by simp
qed (simp_all add: cset_def)

text \<open>Two arrays of one length with the same bits are the same array.\<close>

lemma cset_inject: "length a = length b \<Longrightarrow> cset a = cset b \<Longrightarrow> a = b"
proof (rule nth_equalityI)
  fix i assume l: "length a = length b" "cset a = cset b" "i < length a"
  show "a ! i = b ! i"
  proof (rule bit_word_eqI)
    fix n :: nat assume "n < LENGTH(64)"
    then have n: "n < 64" by simp
    then have d: "(64 * i + n) div 64 = i" "(64 * i + n) mod 64 = n" "64 * i + n < 64 * length a"
      using l(3) by auto
    have "64 * i + n \<in> cset a \<longleftrightarrow> 64 * i + n \<in> cset b" using l(2) by simp
    then show "bit (a ! i) n = bit (b ! i) n"
      using d l(1) by (simp add: cset_def dpa_colour_def)
  qed
qed simp

subsection \<open>Decision diagrams\<close>

text \<open>
  Classes 0 and 1 of the C code are the two constants; equal classes are equal diagrams.
  \<open>bdd_atom i\<close> is the colour variable \<open>i\<close> and \<open>bdd_node_var\<close> gives the colour of the top
  variable.
\<close>

record 'b bdd_ops =
  bdd_false :: 'b
  bdd_true :: 'b
  bdd_not :: "'b \<Rightarrow> 'b"
  bdd_and :: "'b \<Rightarrow> 'b \<Rightarrow> 'b"
  bdd_or :: "'b \<Rightarrow> 'b \<Rightarrow> 'b"
  bdd_atom :: "nat \<Rightarrow> 'b"
  bdd_node_var :: "'b \<Rightarrow> nat"
  bdd_cofactor_false :: "'b \<Rightarrow> 'b"
  bdd_cofactor_true :: "'b \<Rightarrow> 'b"

definition bdd_const :: "'b bdd_ops \<Rightarrow> 'b \<Rightarrow> bool" where
  "bdd_const B f \<longleftrightarrow> f = bdd_false B \<or> f = bdd_true B"

text \<open>
  The promises, for the first \<open>vars\<close> variables: the operations compute the boolean functions
  they name, the representation is
  canonical for the constants, an inner node splits on a variable of its support, and its
  cofactors do not depend on that variable.
\<close>

locale bdd =
  fixes B :: "'b bdd_ops" and den :: "'b \<Rightarrow> nat set \<Rightarrow> bool"
    and supp :: "'b \<Rightarrow> nat set" and ok :: "'b \<Rightarrow> bool" and vars :: nat
  assumes ok_const: "ok (bdd_false B)" "ok (bdd_true B)"
    and ok_ops: "ok f \<Longrightarrow> ok (bdd_not B f)" "ok f \<Longrightarrow> ok g \<Longrightarrow> ok (bdd_and B f g)"
      "ok f \<Longrightarrow> ok g \<Longrightarrow> ok (bdd_or B f g)" "i < vars \<Longrightarrow> ok (bdd_atom B i)"
    and den_const: "\<not> den (bdd_false B) S" "den (bdd_true B) S"
    and den_ops: "ok f \<Longrightarrow> den (bdd_not B f) S = (\<not> den f S)"
      "ok f \<Longrightarrow> ok g \<Longrightarrow> den (bdd_and B f g) S = (den f S \<and> den g S)"
      "ok f \<Longrightarrow> ok g \<Longrightarrow> den (bdd_or B f g) S = (den f S \<or> den g S)"
      "i < vars \<Longrightarrow> den (bdd_atom B i) S = (i \<in> S)"
    and supp_finite: "ok f \<Longrightarrow> finite (supp f)"
    and supp_ops: "ok f \<Longrightarrow> supp (bdd_not B f) \<subseteq> supp f"
      "ok f \<Longrightarrow> ok g \<Longrightarrow> supp (bdd_and B f g) \<subseteq> supp f \<union> supp g"
      "ok f \<Longrightarrow> ok g \<Longrightarrow> supp (bdd_or B f g) \<subseteq> supp f \<union> supp g"
      "i < vars \<Longrightarrow> supp (bdd_atom B i) \<subseteq> {i}" "supp (bdd_false B) = {}"
    and supp_den: "ok f \<Longrightarrow> S \<inter> supp f = T \<inter> supp f \<Longrightarrow> den f S = den f T"
    and canonical: "ok f \<Longrightarrow> (\<And>S. \<not> den f S) \<Longrightarrow> f = bdd_false B"
    and node: "ok f \<Longrightarrow> \<not> bdd_const B f \<Longrightarrow>
        bdd_node_var B f \<in> supp f \<and> ok (bdd_cofactor_false B f) \<and> ok (bdd_cofactor_true B f) \<and>
        supp (bdd_cofactor_false B f) \<subseteq> supp f - {bdd_node_var B f} \<and>
        supp (bdd_cofactor_true B f) \<subseteq> supp f - {bdd_node_var B f}"
    and node_den: "ok f \<Longrightarrow> \<not> bdd_const B f \<Longrightarrow>
        den f S = (if bdd_node_var B f \<in> S then den (bdd_cofactor_true B f) S
                   else den (bdd_cofactor_false B f) S)"

subsection \<open>Evaluation and models\<close>

text \<open>The loops of \<open>accepts\<close> and \<open>model\<close> along one branch of a diagram.\<close>

partial_function (option) accepts_from :: "'b bdd_ops \<Rightarrow> u64 list \<Rightarrow> 'b \<Rightarrow> bool option" where
  "accepts_from B s f =
     (if bdd_const B f then Some (f = bdd_true B)
      else accepts_from B s (if dpa_colour s (bdd_node_var B f) then bdd_cofactor_true B f
                             else bdd_cofactor_false B f))"

partial_function (option) model_from :: "'b bdd_ops \<Rightarrow> 'b \<Rightarrow> u64 list \<Rightarrow> u64 list option" where
  "model_from B f s =
     (if bdd_const B f then Some s
      else if bdd_cofactor_true B f \<noteq> bdd_false B
      then model_from B (bdd_cofactor_true B f) (dpa_set_colour s (bdd_node_var B f))
      else model_from B (bdd_cofactor_false B f) s)"

end
