(* ===== verification/Zielonka_Tree.thy ===== *)
theory Zielonka_Tree
  imports Dpa_Colours
begin

text \<open>
  The Zielonka tree of an acceptance condition, \<^verbatim>\<open>src/lib/dpa_zielonka.c\<close>: \<open>tree\<close> with its
  search for maximal opposite subsets, the paths into the tree and the step of the
  latest-appearance automaton.  The hash tables for trees and paths only share equal records; a
  tree is determined by its colour set and a path by its entries, so the model builds them
  directly.  Running over a budget is reported by every operation and left out.
\<close>

record 'b dpa_ctx =
  dpa_bdd :: "'b bdd_ops"
  dpa_acc :: 'b
  components_n :: nat

definition colour_words :: "'b dpa_ctx \<Rightarrow> nat" where
  "colour_words c = (components_n c + 63) div 64"

definition accepts :: "'b dpa_ctx \<Rightarrow> u64 list \<Rightarrow> bool option" where
  "accepts c s = accepts_from (dpa_bdd c) s (dpa_acc c)"

definition model :: "'b dpa_ctx \<Rightarrow> 'b \<Rightarrow> u64 list option" where
  "model c f = model_from (dpa_bdd c) f (zero_colours (colour_words c))"

definition outside :: "'b dpa_ctx \<Rightarrow> u64 list \<Rightarrow> u64 list \<Rightarrow> 'b" where
  "outside c s sub =
     foldl (\<lambda>f i. if dpa_colour s i \<and> \<not> dpa_colour sub i
                  then bdd_or (dpa_bdd c) f (bdd_atom (dpa_bdd c) i) else f)
       (bdd_false (dpa_bdd c)) [0..<components_n c]"

text \<open>The lexicographic order of the sorted colour lists.\<close>

function skip_from :: "nat \<Rightarrow> u64 list \<Rightarrow> nat \<Rightarrow> nat" where
  "skip_from n s i = (if i < n \<and> \<not> dpa_colour s i then skip_from n s (Suc i) else i)"
  by pat_completeness auto
termination
  by (relation "measure (\<lambda>(n, s, i). n - i)") auto

declare skip_from.simps [simp del]

lemma skip_from_ge: "i \<le> skip_from n s i"
proof (induction n s i rule: skip_from.induct)
  case (1 n s i)
  then show ?case by (subst skip_from.simps) auto
qed

function before_from :: "nat \<Rightarrow> u64 list \<Rightarrow> u64 list \<Rightarrow> nat \<Rightarrow> nat \<Rightarrow> bool" where
  "before_from n a b i j =
     (let i' = skip_from n a i; j' = skip_from n b j in
      if i' \<noteq> j' \<or> i' \<ge> n then j' \<noteq> n \<and> (i' = n \<or> i' < j')
      else before_from n a b (Suc i') (Suc j'))"
  by pat_completeness auto
termination
proof (relation "measure (\<lambda>(n, a, b, i, j). n - i)")
  fix n a b i j x xa
  assume "x = skip_from n a i" "xa = skip_from n b j" "\<not> (x \<noteq> xa \<or> x \<ge> n)"
  then show "((n, a, b, Suc x, Suc xa), n, a, b, i, j) \<in> measure (\<lambda>(n, a, b, i, j). n - i)"
    using skip_from_ge [of i n a] by auto
qed simp

declare before_from.simps [simp del]

definition before :: "'b dpa_ctx \<Rightarrow> u64 list \<Rightarrow> u64 list \<Rightarrow> bool" where
  "before c a b = before_from (components_n c) a b 0 0"

datatype ztree = ZNode (zcolours: "u64 list") (zchildren: "ztree list")

text \<open>A new child goes before the first one with a larger colour list.\<close>

fun insert_child :: "'b dpa_ctx \<Rightarrow> ztree \<Rightarrow> ztree list \<Rightarrow> ztree list" where
  "insert_child c t [] = [t]"
| "insert_child c t (u # us) =
     (if before c (zcolours t) (zcolours u) then t # u # us else u # insert_child c t us)"

text \<open>The strict supersets of \<open>m\<close> that still satisfy \<open>remaining\<close>.\<close>

definition larger_than :: "'b dpa_ctx \<Rightarrow> u64 list \<Rightarrow> 'b \<Rightarrow> u64 list \<Rightarrow> 'b" where
  "larger_than c s remaining m =
     foldl (\<lambda>f i. if dpa_colour m i then bdd_and (dpa_bdd c) f (bdd_atom (dpa_bdd c) i) else f)
       (bdd_and (dpa_bdd c) remaining (outside c s m)) [0..<components_n c]"

partial_function (option) grow_model ::
  "'b dpa_ctx \<Rightarrow> u64 list \<Rightarrow> 'b \<Rightarrow> u64 list \<Rightarrow> u64 list option" where
  "grow_model c s remaining m =
     (if larger_than c s remaining m = bdd_false (dpa_bdd c) then Some m
      else Option.bind (model c (larger_than c s remaining m)) (grow_model c s remaining))"

text \<open>The subsets of a colour set with the opposite acceptance.\<close>

definition opposite_start :: "'b dpa_ctx \<Rightarrow> u64 list \<Rightarrow> 'b option" where
  "opposite_start c s =
     Option.bind (accepts c s) (\<lambda>a. Some
       (foldl (\<lambda>f i. if \<not> dpa_colour s i
                     then bdd_and (dpa_bdd c) f (bdd_not (dpa_bdd c) (bdd_atom (dpa_bdd c) i)) else f)
          (if a then bdd_not (dpa_bdd c) (dpa_acc c) else dpa_acc c) [0..<components_n c]))"

partial_function (option) tree_fill ::
  "'b dpa_ctx \<Rightarrow> u64 list \<Rightarrow> 'b \<Rightarrow> ztree list \<Rightarrow> ztree option" where
  "tree_fill c s remaining children =
     (if remaining = bdd_false (dpa_bdd c) then Some (ZNode s children)
      else Option.bind (model c remaining) (\<lambda>m0.
           Option.bind (grow_model c s remaining m0) (\<lambda>m.
           Option.bind (opposite_start c m) (\<lambda>r.
           Option.bind (tree_fill c m r []) (\<lambda>child.
             tree_fill c s (bdd_and (dpa_bdd c) remaining (outside c s m))
               (insert_child c child children))))))"

definition tree_of :: "'b dpa_ctx \<Rightarrow> u64 list \<Rightarrow> ztree option" where
  "tree_of c s = Option.bind (opposite_start c s) (\<lambda>r. tree_fill c s r [])"

subsection \<open>Paths and steps\<close>

text \<open>
  A path is the list of its entries from the inner end: the node and its position among its
  siblings.  The parent of a path is its tail, and its depth one less than its length.
\<close>

type_synonym dpa_path = "(ztree \<times> nat) list"

fun leftmost_from :: "ztree \<Rightarrow> nat \<Rightarrow> dpa_path \<Rightarrow> dpa_path" where
  "leftmost_from (ZNode s []) k p = (ZNode s [], k) # p"
| "leftmost_from (ZNode s (t # ts)) k p = leftmost_from t 0 ((ZNode s (t # ts), k) # p)"

definition full_colours :: "'b dpa_ctx \<Rightarrow> u64 list" where
  "full_colours c = foldl dpa_set_colour (zero_colours (colour_words c)) [0..<components_n c]"

text \<open>The results of \<open>dpa_tree_init\<close>: whether the root accepts, and the leftmost leaf.\<close>

definition dpa_tree_init :: "'b dpa_ctx \<Rightarrow> (bool \<times> dpa_path) option" where
  "dpa_tree_init c =
     Option.bind (accepts c (full_colours c)) (\<lambda>a.
     Option.bind (tree_of c (full_colours c)) (\<lambda>t. Some (a, leftmost_from t 0 [])))"

text \<open>
  The anchor of a step is the deepest entry that contains the colours; \<open>child\<close> is the path one
  entry below it.  Beyond the root the C code would read a missing parent.
\<close>

fun find_anchor :: "u64 list \<Rightarrow> dpa_path \<Rightarrow> dpa_path \<Rightarrow> (dpa_path \<times> dpa_path) option" where
  "find_anchor cs child [] = None"
| "find_anchor cs child (e # p) =
     (if contains (zcolours (fst e)) cs then Some (e # p, child) else find_anchor cs (e # p) p)"

definition max_priority :: "nat \<Rightarrow> u32" where
  "max_priority n = (of_nat n + 2) OR 1"

definition dpa_tree_step ::
  "u32 \<Rightarrow> bool \<Rightarrow> dpa_path \<Rightarrow> u64 list \<Rightarrow> (u32 \<times> dpa_path) option" where
  "dpa_tree_step maxp root_accepts leaf cs =
     (case find_anchor cs leaf leaf of
        None \<Rightarrow> None
      | Some (anchor, child) \<Rightarrow>
          let priority = of_nat (length anchor - 1) + (if root_accepts then 0 else 1);
              ts = zchildren (fst (hd anchor));
              position = (snd (hd child) + 1) mod length ts
          in Some (maxp - priority,
               if ts = [] then leaf else leftmost_from (ts ! position) position anchor))"

end
