(* ===== verification/Zielonka_Spec.thy ===== *)
theory Zielonka_Spec
  imports Zielonka_Tree
begin

text \<open>
  The specification of the Zielonka tree and the proof that \<open>tree_of\<close> builds it: the
  children of a node are exactly the maximal subsets of its colours with the opposite
  acceptance.
\<close>

subsection \<open>Specification\<close>

definition max_opposite :: "(nat set \<Rightarrow> bool) \<Rightarrow> nat set \<Rightarrow> nat set \<Rightarrow> bool" where
  "max_opposite A S M \<longleftrightarrow>
     M \<subseteq> S \<and> A M \<noteq> A S \<and> (\<forall>T. M \<subset> T \<and> T \<subseteq> S \<longrightarrow> A T = A S)"

text \<open>Colour sets in the lexicographic order of their sorted lists.\<close>

definition colour_less :: "u64 list \<Rightarrow> u64 list \<Rightarrow> bool" where
  "colour_less a b \<longleftrightarrow>
     (sorted_list_of_set (cset a), sorted_list_of_set (cset b)) \<in> lexord {(x, y). x < y}"

text \<open>
  The specification: the children are the maximal opposite subsets, one for each and in
  increasing order.
\<close>

fun zielonka :: "(nat set \<Rightarrow> bool) \<Rightarrow> nat \<Rightarrow> ztree \<Rightarrow> bool" where
  "zielonka A words (ZNode s ts) \<longleftrightarrow> length s = words \<and>
     (\<lambda>t. cset (zcolours t)) ` set ts = {M. max_opposite A (cset s) M} \<and>
     sorted_wrt (\<lambda>t u. colour_less (zcolours t) (zcolours u)) ts \<and> (\<forall>t\<in>set ts. zielonka A words t)"

text \<open>Every opposite subset is contained in a maximal one.\<close>

lemma max_opposite_above:
  assumes "finite S" and "M \<subseteq> S" and "A M \<noteq> A S"
  shows "\<exists>N. max_opposite A S N \<and> M \<subseteq> N"
proof -
  let ?F = "{N. M \<subseteq> N \<and> N \<subseteq> S \<and> A N \<noteq> A S}"
  have "finite ?F" using assms(1) by (auto intro: finite_subset [of _ "Pow S"])
  moreover have "M \<in> ?F" using assms by simp
  ultimately obtain N where N: "N \<in> ?F" "\<forall>T\<in>?F. N \<subseteq> T \<longrightarrow> N = T"
    by (metis (no_types, lifting) finite_has_maximal2)
  then have "max_opposite A S N" unfolding max_opposite_def by blast
  with N(1) show ?thesis by blast
qed

lemma max_opposite_psubset: "max_opposite A S M \<Longrightarrow> M \<subset> S"
  by (auto simp: max_opposite_def)

subsection \<open>The order of the children\<close>

lemma skip_from_spec:
  assumes "i \<le> n"
  shows "skip_from n s i \<le> n \<and>
    (skip_from n s i < n \<longrightarrow>
       filter (dpa_colour s) [i..<n] = skip_from n s i # filter (dpa_colour s) [Suc (skip_from n s i)..<n]) \<and>
    (skip_from n s i = n \<longrightarrow> filter (dpa_colour s) [i..<n] = [])"
  using assms
proof (induction n s i rule: skip_from.induct)
  case (1 n s i)
  show ?case
  proof (cases "i < n \<and> \<not> dpa_colour s i")
    case True
    moreover have "[i..<n] = i # [Suc i..<n]" using True by (simp add: upt_rec)
    ultimately show ?thesis using "1.IH" [OF True] by (subst (1 2 3 4 5) skip_from.simps) simp
  next
    case False
    then have "skip_from n s i = i" by (subst skip_from.simps) auto
    moreover have "[i..<n] = (if i < n then i # [Suc i..<n] else [])" by (simp add: upt_rec)
    ultimately show ?thesis using False "1.prems" by auto
  qed
qed

lemma before_from_lexord:
  "i \<le> n \<Longrightarrow> before_from n a b i i \<longleftrightarrow>
     (filter (dpa_colour a) [i..<n], filter (dpa_colour b) [i..<n]) \<in> lexord {(x, y). x < y}"
proof (induction "n - i" arbitrary: i rule: less_induct)
  case less
  define x y where "x = skip_from n a i" and "y = skip_from n b i"
  note sx = skip_from_spec [OF less.prems, of a, folded x_def]
  note sy = skip_from_spec [OF less.prems, of b, folded y_def]
  have step: "before_from n a b i i \<longleftrightarrow>
      (if x \<noteq> y \<or> x \<ge> n then y \<noteq> n \<and> (x = n \<or> x < y) else before_from n a b (Suc x) (Suc y))"
    by (subst before_from.simps) (simp add: x_def y_def Let_def)
  show ?case
  proof (cases "x \<noteq> y \<or> x \<ge> n")
    case True
    then consider "x = n" "y = n" | "x = n" "y < n" | "x < n" "y = n" | "x < n" "y < n" "x \<noteq> y"
      using sx sy by linarith
    then show ?thesis using step sx sy by cases auto
  next
    case False
    then have "x < n" "y = x" by auto
    moreover have "i \<le> x" unfolding x_def by (rule skip_from_ge)
    ultimately have "before_from n a b i i \<longleftrightarrow>
        (filter (dpa_colour a) [Suc x..<n], filter (dpa_colour b) [Suc x..<n]) \<in> lexord {(x, y). x < y}"
      using step less.hyps [of "Suc x"] by simp
    then show ?thesis using sx sy \<open>x < n\<close> \<open>y = x\<close> by simp
  qed
qed

lemma colour_less_trans: "colour_less a b \<Longrightarrow> colour_less b d \<Longrightarrow> colour_less a d"
  unfolding colour_less_def by (rule lexord_trans) (auto simp: trans_def)

lemma colour_less_total: "cset a \<noteq> cset b \<Longrightarrow> colour_less a b \<or> colour_less b a"
proof -
  assume ne: "cset a \<noteq> cset b"
  have "sorted_list_of_set (cset a) \<noteq> sorted_list_of_set (cset b)"
    using ne by (metis finite_cset sorted_list_of_set.set_sorted_key_list_of_set)
  moreover have "\<forall>x y :: nat. (x, y) \<in> {(x, y). x < y} \<or> x = y \<or> (y, x) \<in> {(x, y). x < y}" by auto
  ultimately show ?thesis unfolding colour_less_def using lexord_linear by blast
qed

subsection \<open>The operations on diagrams\<close>

lemma foldl_if_filter:
  "foldl (\<lambda>f i. if P i then g f i else f) f xs = foldl g f (filter P xs)"
  by (induction xs arbitrary: f) auto

locale colour_ctx = bdd B den supp ok vars
  for B :: "'b bdd_ops" and den :: "'b \<Rightarrow> nat set \<Rightarrow> bool" and supp :: "'b \<Rightarrow> nat set"
    and ok :: "'b \<Rightarrow> bool" and vars :: nat +
  fixes c :: "'b dpa_ctx"
  assumes ctx_bdd: "dpa_bdd c = B" and ctx_ok: "ok (dpa_acc c)"
    and ctx_vars: "components_n c \<le> vars"
    and ctx_supp: "supp (dpa_acc c) \<subseteq> {..<components_n c}"
begin

definition A :: "nat set \<Rightarrow> bool" where "A S = den (dpa_acc c) S"

definition good :: "'b \<Rightarrow> bool" where
  "good f \<longleftrightarrow> ok f \<and> supp f \<subseteq> {..<components_n c}"

lemma words_bound: "components_n c \<le> 64 * colour_words c"
  by (simp add: colour_words_def)

lemma good_acc: "good (dpa_acc c)"
  using ctx_ok ctx_supp by (simp add: good_def)

lemma good_not: "good f \<Longrightarrow> good (bdd_not B f)"
  using supp_ops(1) [of f] by (auto simp: good_def ok_ops)

lemma good_and: "good f \<Longrightarrow> good g \<Longrightarrow> good (bdd_and B f g)"
  using supp_ops(2) [of f g] by (auto simp: good_def ok_ops)

lemma good_or: "good f \<Longrightarrow> good g \<Longrightarrow> good (bdd_or B f g)"
  using supp_ops(3) [of f g] by (auto simp: good_def ok_ops)

lemma good_atom: "i < components_n c \<Longrightarrow> good (bdd_atom B i)"
  using supp_ops(4) [of i] ctx_vars by (auto simp: good_def ok_ops)

lemma good_false: "good (bdd_false B)"
  using supp_ops(5) by (auto simp: good_def ok_const)

lemmas good_ops = good_not good_and good_or good_atom good_false

lemma den_good:
  "good f \<Longrightarrow> den (bdd_not B f) S = (\<not> den f S)"
  "good f \<Longrightarrow> good g \<Longrightarrow> den (bdd_and B f g) S = (den f S \<and> den g S)"
  "good f \<Longrightarrow> good g \<Longrightarrow> den (bdd_or B f g) S = (den f S \<or> den g S)"
  "i < components_n c \<Longrightarrow> den (bdd_atom B i) S = (i \<in> S)"
  using ctx_vars by (simp_all add: good_def den_ops)

text \<open>A diagram other than the constant false has a model.\<close>

lemma not_false: "ok f \<Longrightarrow> f \<noteq> bdd_false B \<longleftrightarrow> (\<exists>S. den f S)"
  using canonical den_const(1) by blast

lemma model_subset: "good f \<Longrightarrow> den f S \<Longrightarrow> den f (S \<inter> {..<components_n c})"
  using supp_den [of f S "S \<inter> {..<components_n c}"] by (auto simp: good_def)

lemma accepts_from_spec:
  assumes "good f" and "length s = colour_words c"
  shows "accepts_from B s f = Some (den f (cset s))"
  using assms
proof (induction "card (supp f)" arbitrary: f rule: less_induct)
  case less
  show ?case
  proof (cases "bdd_const B f")
    case True
    then show ?thesis
      by (subst accepts_from.simps) (use den_const in \<open>auto simp: bdd_const_def\<close>)
  next
    case False
    let ?g = "if dpa_colour s (bdd_node_var B f) then bdd_cofactor_true B f else bdd_cofactor_false B f"
    have ok: "ok f" using less.prems by (simp add: good_def)
    note nd = node [OF ok False]
    have sub: "supp ?g \<subseteq> supp f - {bdd_node_var B f}" "ok ?g" using nd by auto
    then have "good ?g" using less.prems by (auto simp: good_def)
    have "card (supp ?g) < card (supp f)"
      using sub(1) nd supp_finite [OF ok] by (intro psubset_card_mono) auto
    from less.hyps [OF this \<open>good ?g\<close> less.prems(2)]
    have "accepts_from B s ?g = Some (den ?g (cset s))" .
    moreover have "bdd_node_var B f < 64 * length s"
      using nd less.prems words_bound by (auto simp: good_def)
    then have "den f (cset s) = den ?g (cset s)"
      using node_den [OF ok False, of "cset s"] by (simp add: dpa_colour_cset)
    ultimately show ?thesis using False by (subst accepts_from.simps) simp
  qed
qed

lemma accepts_spec: "length s = colour_words c \<Longrightarrow> accepts c s = Some (A (cset s))"
  by (simp add: accepts_def ctx_bdd accepts_from_spec [OF good_acc] A_def)

lemma model_from_spec:
  assumes "good f" and "f \<noteq> bdd_false B" and "length s = colour_words c" and "cset s \<inter> supp f = {}"
  shows "\<exists>m M. model_from B f s = Some m \<and> length m = colour_words c \<and> cset m = cset s \<union> M \<and>
    M \<subseteq> supp f \<and> den f (cset m)"
  using assms
proof (induction "card (supp f)" arbitrary: f s rule: less_induct)
  case less
  show ?case
  proof (cases "bdd_const B f")
    case True
    with less.prems show ?thesis
      by (intro exI [of _ s] exI [of _ "{}"], subst model_from.simps)
        (use den_const in \<open>auto simp: bdd_const_def\<close>)
  next
    case False
    let ?v = "bdd_node_var B f" and ?hi = "bdd_cofactor_true B f" and ?lo = "bdd_cofactor_false B f"
    have ok: "ok f" using less.prems by (simp add: good_def)
    note nd = node [OF ok False]
    have v: "?v < 64 * length s" "?v \<notin> cset s"
      using nd less.prems words_bound by (auto simp: good_def)
    have gd: "good ?hi" "good ?lo" using nd less.prems(1) by (auto simp: good_def)
    have card: "card (supp ?hi) < card (supp f)" "card (supp ?lo) < card (supp f)"
      using nd supp_finite [OF ok] by (auto intro!: psubset_card_mono)
    show ?thesis
    proof (cases "?hi = bdd_false B")
      case True
      have "?lo \<noteq> bdd_false B"
      proof
        assume "?lo = bdd_false B"
        with True have "\<not> den f S" for S using node_den [OF ok False, of S] den_const(1) by simp
        with less.prems(2) canonical [OF ok] show False by blast
      qed
      moreover have "cset s \<inter> supp ?lo = {}" using less.prems(4) nd by blast
      ultimately obtain m M where m: "model_from B ?lo s = Some m" "length m = colour_words c"
        "cset m = cset s \<union> M" "M \<subseteq> supp ?lo" "den ?lo (cset m)"
        using less.hyps [OF card(2) gd(2) _ less.prems(3)] by blast
      have "?v \<notin> cset m" using m(3,4) v(2) nd by blast
      then have "den f (cset m)" using node_den [OF ok False] m(5) by simp
      with m nd show ?thesis
        by (intro exI [of _ m] exI [of _ M], subst model_from.simps) (auto simp: False True)
    next
      case hi: False
      have c1: "cset (dpa_set_colour s ?v) = insert ?v (cset s)" by (rule cset_set_colour [OF v(1)])
      then have "cset (dpa_set_colour s ?v) \<inter> supp ?hi = {}" using less.prems(4) nd by auto
      then obtain m M where m: "model_from B ?hi (dpa_set_colour s ?v) = Some m"
        "length m = colour_words c" "cset m = insert ?v (cset s) \<union> M" "M \<subseteq> supp ?hi" "den ?hi (cset m)"
        using less.hyps [OF card(1) gd(1) hi, of "dpa_set_colour s ?v"] less.prems(3) c1 by auto
      have "den f (cset m)" using node_den [OF ok False] m(3,5) by simp
      with m nd hi show ?thesis
        by (intro exI [of _ m] exI [of _ "insert ?v M"], subst model_from.simps) (auto simp: False)
    qed
  qed
qed

lemma model_spec:
  assumes "good f" and "f \<noteq> bdd_false B"
  shows "\<exists>m. model c f = Some m \<and> length m = colour_words c \<and> cset m \<subseteq> {..<components_n c} \<and>
    den f (cset m)"
  using model_from_spec [OF assms, of "zero_colours (colour_words c)"] assms(1)
  by (auto simp: model_def ctx_bdd good_def)

text \<open>The folds over the colours, and what they mean.\<close>

lemma good_foldl:
  assumes "good f" and "\<And>f i. good f \<Longrightarrow> i \<in> set xs \<Longrightarrow> good (g f i)"
  shows "good (foldl g f xs)"
  using assms by (induction xs arbitrary: f) auto

lemma or_atoms:
  assumes "good f" and "set xs \<subseteq> {..<components_n c}"
  shows "good (foldl (\<lambda>f i. bdd_or B f (bdd_atom B i)) f xs) \<and>
    den (foldl (\<lambda>f i. bdd_or B f (bdd_atom B i)) f xs) S = (den f S \<or> (\<exists>i\<in>set xs. i \<in> S))"
  using assms by (induction xs arbitrary: f) (auto simp: good_ops den_good)

lemma and_atoms:
  assumes "good f" and "set xs \<subseteq> {..<components_n c}"
  shows "good (foldl (\<lambda>f i. bdd_and B f (bdd_atom B i)) f xs) \<and>
    den (foldl (\<lambda>f i. bdd_and B f (bdd_atom B i)) f xs) S = (den f S \<and> (\<forall>i\<in>set xs. i \<in> S))"
  using assms by (induction xs arbitrary: f) (auto simp: good_ops den_good)

lemma and_not_atoms:
  assumes "good f" and "set xs \<subseteq> {..<components_n c}"
  shows "good (foldl (\<lambda>f i. bdd_and B f (bdd_not B (bdd_atom B i))) f xs) \<and>
    den (foldl (\<lambda>f i. bdd_and B f (bdd_not B (bdd_atom B i))) f xs) S =
      (den f S \<and> (\<forall>i\<in>set xs. i \<notin> S))"
  using assms by (induction xs arbitrary: f) (auto simp: good_ops den_good)

definition colour_set :: "u64 list \<Rightarrow> bool" where
  "colour_set s \<longleftrightarrow> length s = colour_words c \<and> cset s \<subseteq> {..<components_n c}"

lemma colour_iff: "colour_set s \<Longrightarrow> i < components_n c \<Longrightarrow> dpa_colour s i \<longleftrightarrow> i \<in> cset s"
  using words_bound by (auto simp: colour_set_def cset_def)

lemma outside_spec:
  assumes "colour_set s" and "colour_set m"
  shows "good (outside c s m)" "den (outside c s m) S = (\<exists>i. i \<in> cset s - cset m \<and> i \<in> S)"
proof -
  let ?xs = "filter (\<lambda>i. dpa_colour s i \<and> \<not> dpa_colour m i) [0..<components_n c]"
  have eq: "set ?xs = cset s - cset m"
    using colour_iff [OF assms(1)] colour_iff [OF assms(2)] assms(1) by (auto simp: colour_set_def)
  have df: "outside c s m = foldl (\<lambda>f i. bdd_or B f (bdd_atom B i)) (bdd_false B) ?xs"
    by (simp add: outside_def ctx_bdd foldl_if_filter)
  have "set ?xs \<subseteq> {..<components_n c}" by auto
  note o = or_atoms [OF good_false this, unfolded eq, folded df]
  show "good (outside c s m)" using o by blast
  show "den (outside c s m) S = (\<exists>i. i \<in> cset s - cset m \<and> i \<in> S)"
    using o [of S] den_const(1) [of S] by blast
qed

lemma larger_spec:
  assumes "colour_set s" and "colour_set m" and "good f"
  shows "good (larger_than c s f m)"
    "den (larger_than c s f m) S = (den f S \<and> (\<exists>i. i \<in> cset s - cset m \<and> i \<in> S) \<and> cset m \<subseteq> S)"
proof -
  let ?xs = "filter (dpa_colour m) [0..<components_n c]"
  have eq: "set ?xs = cset m"
    using colour_iff [OF assms(2)] assms(2) by (auto simp: colour_set_def)
  have "set ?xs \<subseteq> {..<components_n c}" by auto
  note a = and_atoms [OF good_and [OF assms(3) outside_spec(1) [OF assms(1,2)]] this, unfolded eq]
  have df: "larger_than c s f m =
      foldl (\<lambda>f i. bdd_and B f (bdd_atom B i)) (bdd_and B f (outside c s m)) ?xs"
    by (simp add: larger_than_def ctx_bdd foldl_if_filter)
  show "good (larger_than c s f m)" unfolding df using a by blast
  show "den (larger_than c s f m) S = (den f S \<and> (\<exists>i. i \<in> cset s - cset m \<and> i \<in> S) \<and> cset m \<subseteq> S)"
    unfolding df using a [of S] den_good(2) [OF assms(3) outside_spec(1) [OF assms(1,2)], of S]
      outside_spec(2) [OF assms(1,2), of S] by blast
qed

lemma opposite_start_spec:
  assumes "colour_set s"
  shows "\<exists>r. opposite_start c s = Some r \<and> good r \<and>
    (\<forall>S\<subseteq>{..<components_n c}. den r S = (S \<subseteq> cset s \<and> A S \<noteq> A (cset s)))"
proof -
  let ?xs = "filter (\<lambda>i. \<not> dpa_colour s i) [0..<components_n c]"
  let ?f = "if A (cset s) then bdd_not B (dpa_acc c) else dpa_acc c"
  let ?r = "foldl (\<lambda>f i. bdd_and B f (bdd_not B (bdd_atom B i))) ?f ?xs"
  have eq: "set ?xs = {..<components_n c} - cset s"
    using colour_iff [OF assms] by auto
  have g: "good ?f" using good_acc good_not by simp
  have d: "den ?f S = (A S \<noteq> A (cset s))" for S by (simp add: A_def den_good good_acc)
  have "opposite_start c s = Some ?r"
    using assms by (simp add: opposite_start_def accepts_spec colour_set_def ctx_bdd foldl_if_filter)
  moreover have "set ?xs \<subseteq> {..<components_n c}" by auto
  ultimately show ?thesis
    using and_not_atoms [OF g, of ?xs] unfolding d eq by (intro exI [of _ ?r]) auto
qed

lemma model_colour:
  "good f \<Longrightarrow> f \<noteq> bdd_false B \<Longrightarrow> \<exists>m. model c f = Some m \<and> colour_set m \<and> den f (cset m)"
  using model_spec [of f] by (auto simp: colour_set_def)

text \<open>The inner loop ends with a maximal model inside \<open>s\<close>.\<close>

lemma grow_spec:
  assumes "colour_set s" and "colour_set m" and "good f" and "den f (cset m)"
    and f: "\<And>S. S \<subseteq> {..<components_n c} \<Longrightarrow> den f S \<Longrightarrow> S \<subseteq> cset s"
  shows "\<exists>m'. grow_model c s f m = Some m' \<and> colour_set m' \<and> den f (cset m') \<and>
    (\<forall>T. cset m' \<subset> T \<and> T \<subseteq> {..<components_n c} \<longrightarrow> \<not> den f T)"
  using assms(2,4)
proof (induction "card ({..<components_n c} - cset m)" arbitrary: m rule: less_induct)
  case less
  note la = larger_spec [OF assms(1) less.prems(1) assms(3)]
  show ?case
  proof (cases "larger_than c s f m = bdd_false B")
    case True
    have "\<not> den f T" if T: "cset m \<subset> T" "T \<subseteq> {..<components_n c}" for T
    proof
      assume d: "den f T"
      obtain x where x: "x \<in> T" "x \<notin> cset m" using T(1) by blast
      with f [OF T(2) d] d T(1) have "den (larger_than c s f m) T" unfolding la(2) by blast
      with True den_const(1) show False by simp
    qed
    with True less.prems show ?thesis
      by (intro exI [of _ m], subst grow_model.simps) (auto simp: ctx_bdd)
  next
    case False
    from model_colour [OF la(1) False] obtain n where n: "model c (larger_than c s f m) = Some n"
      "colour_set n" "den (larger_than c s f m) (cset n)" by blast
    from n(3) have d: "den f (cset n)" "cset m \<subseteq> cset n" "\<exists>i. i \<in> cset n \<and> i \<notin> cset m"
      unfolding la(2) by blast+
    have "card ({..<components_n c} - cset n) < card ({..<components_n c} - cset m)"
      using d n(2) by (intro psubset_card_mono) (auto simp: colour_set_def)
    from less.hyps [OF this n(2) d(1)] False n(1) show ?thesis
      by (subst grow_model.simps) (auto simp: ctx_bdd)
  qed
qed

lemma insert_child_set: "set (insert_child c t ts) = insert t (set ts)"
  by (induction ts) auto

lemma before_spec:
  assumes "colour_set a" and "colour_set b"
  shows "before c a b = colour_less a b"
proof -
  have "filter (dpa_colour s) [0..<components_n c] = sorted_list_of_set (cset s)" if "colour_set s" for s
  proof (rule sorted_distinct_set_unique)
    show "set (filter (dpa_colour s) [0..<components_n c]) = set (sorted_list_of_set (cset s))"
      using colour_iff [OF that] that by (auto simp: colour_set_def)
  qed (simp_all add: sorted_wrt_filter)
  with assms show ?thesis
    by (simp add: before_def before_from_lexord colour_less_def)
qed

lemma insert_child_sorted:
  assumes "sorted_wrt (\<lambda>t u. colour_less (zcolours t) (zcolours u)) ts" and "colour_set (zcolours t)"
    and "\<forall>u\<in>set ts. colour_set (zcolours u) \<and> cset (zcolours u) \<noteq> cset (zcolours t)"
  shows "sorted_wrt (\<lambda>t u. colour_less (zcolours t) (zcolours u)) (insert_child c t ts)"
  using assms
proof (induction ts)
  case (Cons u us)
  show ?case
  proof (cases "colour_less (zcolours t) (zcolours u)")
    case True
    with Cons.prems show ?thesis by (auto simp: before_spec intro: colour_less_trans)
  next
    case False
    with Cons.prems(3) colour_less_total [of "zcolours t" "zcolours u"]
    have "colour_less (zcolours u) (zcolours t)" by auto
    with Cons False show ?thesis by (auto simp: before_spec insert_child_set)
  qed
qed simp

text \<open>
  The outer loop: \<open>f\<close> describes the opposite subsets not yet inside a child, and the children
  found so far are maximal.
\<close>

definition fill_inv :: "u64 list \<Rightarrow> 'b \<Rightarrow> ztree list \<Rightarrow> bool" where
  "fill_inv s f ts \<longleftrightarrow> good f \<and>
     (\<forall>S\<subseteq>{..<components_n c}. den f S = (S \<subseteq> cset s \<and> A S \<noteq> A (cset s) \<and>
        (\<forall>t\<in>set ts. \<not> S \<subseteq> cset (zcolours t)))) \<and>
     sorted_wrt (\<lambda>t u. colour_less (zcolours t) (zcolours u)) ts \<and>
     (\<forall>t\<in>set ts. max_opposite A (cset s) (cset (zcolours t)) \<and> zielonka A (colour_words c) t)"

lemma fill_inv_D:
  assumes "fill_inv s f ts"
  shows "good f" "\<And>S. S \<subseteq> {..<components_n c} \<Longrightarrow> den f S = (S \<subseteq> cset s \<and> A S \<noteq> A (cset s) \<and>
      (\<forall>t\<in>set ts. \<not> S \<subseteq> cset (zcolours t)))"
    "\<And>t. t \<in> set ts \<Longrightarrow> max_opposite A (cset s) (cset (zcolours t))"
    "\<And>t. t \<in> set ts \<Longrightarrow> zielonka A (colour_words c) t"
    "sorted_wrt (\<lambda>t u. colour_less (zcolours t) (zcolours u)) ts"
  using assms by (auto simp: fill_inv_def)

lemma fill_inv_step:
  assumes "fill_inv s f ts" and s: "colour_set s" and m: "colour_set m" "den f (cset m)"
    and max: "\<And>T. cset m \<subset> T \<Longrightarrow> T \<subseteq> {..<components_n c} \<Longrightarrow> \<not> den f T"
    and t: "zcolours t = m" "zielonka A (colour_words c) t"
  shows "fill_inv s (bdd_and B f (outside c s m)) (insert_child c t ts)"
    and "max_opposite A (cset s) (cset m)"
proof -
  note inv = fill_inv_D [OF assms(1)]
  have mn: "cset m \<subseteq> {..<components_n c}" "cset s \<subseteq> {..<components_n c}"
    using m s by (auto simp: colour_set_def)
  note dm = m(2) [unfolded inv(2) [OF mn(1)]]
  show mo: "max_opposite A (cset s) (cset m)"
    unfolding max_opposite_def
  proof (intro conjI allI impI)
    fix T assume T: "cset m \<subset> T \<and> T \<subseteq> cset s"
    show "A T = A (cset s)"
    proof (rule ccontr)
      assume "A T \<noteq> A (cset s)"
      moreover have "\<forall>t\<in>set ts. \<not> T \<subseteq> cset (zcolours t)" using dm T by blast
      ultimately have "den f T" using inv(2) [of T] T mn(2) by blast
      with max [of T] T mn(2) show False by blast
    qed
  qed (use dm in auto)
  note o = outside_spec [OF s m(1)]
  have "den (bdd_and B f (outside c s m)) S = (S \<subseteq> cset s \<and> A S \<noteq> A (cset s) \<and>
      (\<forall>t\<in>set (insert_child c t ts). \<not> S \<subseteq> cset (zcolours t)))" if "S \<subseteq> {..<components_n c}" for S
    unfolding den_good(2) [OF inv(1) o(1)] o(2) inv(2) [OF that] insert_child_set
    using t(1) by blast
  moreover have "sorted_wrt (\<lambda>t u. colour_less (zcolours t) (zcolours u)) (insert_child c t ts)"
  proof (rule insert_child_sorted [OF inv(5)])
    show "colour_set (zcolours t)" using m(1) t(1) by simp
    show "\<forall>u\<in>set ts. colour_set (zcolours u) \<and> cset (zcolours u) \<noteq> cset (zcolours t)"
    proof
      fix u assume u: "u \<in> set ts"
      have "cset (zcolours u) \<noteq> cset m" using dm u by auto
      moreover have "length (zcolours u) = colour_words c"
        using inv(4) [OF u] by (cases u) simp
      moreover have "cset (zcolours u) \<subseteq> {..<components_n c}"
        using inv(3) [OF u] mn(2) by (auto simp: max_opposite_def)
      ultimately show "colour_set (zcolours u) \<and> cset (zcolours u) \<noteq> cset (zcolours t)"
        using t(1) by (simp add: colour_set_def)
    qed
  qed
  ultimately show "fill_inv s (bdd_and B f (outside c s m)) (insert_child c t ts)"
    unfolding fill_inv_def using good_and [OF inv(1) o(1)] mo inv(3,4) t by (simp add: insert_child_set)
qed

text \<open>The opposite subsets left to find, as a measure.\<close>

definition todo :: "'b \<Rightarrow> nat" where
  "todo f = card {S. S \<subseteq> {..<components_n c} \<and> den f S}"

lemma todo_less:
  assumes "colour_set s" and "colour_set m" and "good f" and "den f (cset m)"
  shows "todo (bdd_and B f (outside c s m)) < todo f"
proof -
  note o = outside_spec [OF assms(1,2)]
  have "cset m \<subseteq> {..<components_n c}" using assms(2) by (simp add: colour_set_def)
  then show ?thesis
    unfolding todo_def den_good(2) [OF assms(3) o(1)] o(2)
    by (intro psubset_card_mono) (use assms(4) in \<open>auto intro: finite_subset [of _ "Pow {..<components_n c}"]\<close>)
qed

lemma fill_inv_done:
  assumes "fill_inv s (bdd_false B) ts" and s: "colour_set s"
  shows "zielonka A (colour_words c) (ZNode s ts)"
proof -
  note inv = fill_inv_D [OF assms(1)]
  have "M \<in> (\<lambda>t. cset (zcolours t)) ` set ts" if M: "max_opposite A (cset s) M" for M
  proof -
    have sub: "M \<subseteq> {..<components_n c}" using M s by (auto simp: max_opposite_def colour_set_def)
    obtain t where t: "t \<in> set ts" "M \<subseteq> cset (zcolours t)"
      using inv(2) [OF sub] den_const(1) M by (auto simp: max_opposite_def)
    moreover have "M = cset (zcolours t)"
      using inv(3) [OF t(1)] M t(2) unfolding max_opposite_def by (metis psubsetI)
    ultimately show ?thesis by blast
  qed
  with inv(3,4,5) s show ?thesis by (auto simp: colour_set_def)
qed

lemma tree_fill_spec:
  assumes "fill_inv s f ts" and "colour_set s"
  shows "\<exists>t. tree_fill c s f ts = Some t \<and> zcolours t = s \<and> zielonka A (colour_words c) t"
  using assms
proof (induction "(card (cset s), todo f)" arbitrary: s f ts
    rule: wf_induct [OF wf_lex_prod [OF wf_less_than wf_less_than]])
  case 1
  note IH = "1.hyps" [rule_format]
  show ?case
  proof (cases "f = bdd_false B")
    case True
    with fill_inv_done "1.prems" show ?thesis
      by (subst tree_fill.simps) (auto simp: ctx_bdd)
  next
    case False
    note inv = fill_inv_D [OF "1.prems"(1)]
    from model_colour [OF inv(1) False] obtain m0 where m0: "model c f = Some m0" "colour_set m0"
      "den f (cset m0)" by blast
    have "S \<subseteq> cset s" if "S \<subseteq> {..<components_n c}" "den f S" for S using inv(2) that by blast
    from grow_spec [OF "1.prems"(2) m0(2) inv(1) m0(3) this] obtain m where
      m: "grow_model c s f m0 = Some m" "colour_set m" "den f (cset m)"
        "\<And>T. cset m \<subset> T \<Longrightarrow> T \<subseteq> {..<components_n c} \<Longrightarrow> \<not> den f T" by blast
    from opposite_start_spec [OF m(2)] obtain r where r: "opposite_start c m = Some r" "fill_inv m r []"
      by (auto simp: fill_inv_def)
    have ms: "cset m \<subset> cset s"
      using inv(2) [of "cset m"] m(2,3) by (auto simp: colour_set_def)
    have "card (cset m) < card (cset s)" using ms by (intro psubset_card_mono) simp_all
    then have "((card (cset m), todo r), card (cset s), todo f) \<in> less_than <*lex*> less_than" by simp
    from IH [OF this refl r(2) m(2)] obtain child where
      ch: "tree_fill c m r [] = Some child" "zcolours child = m" "zielonka A (colour_words c) child" by blast
    let ?f' = "bdd_and B f (outside c s m)"
    note st = fill_inv_step [OF "1.prems" m(2,3,4) ch(2,3)]
    have "((card (cset s), todo ?f'), card (cset s), todo f) \<in> less_than <*lex*> less_than"
      using todo_less [OF "1.prems"(2) m(2) inv(1) m(3)] by simp
    from IH [OF this refl st(1) "1.prems"(2)] False m0(1) m(1) r(1) ch(1) show ?thesis
      by (subst tree_fill.simps) (simp add: ctx_bdd)
  qed
qed

lemma tree_of_spec:
  assumes "colour_set s"
  shows "\<exists>t. tree_of c s = Some t \<and> zcolours t = s \<and> zielonka A (colour_words c) t"
proof -
  from opposite_start_spec [OF assms] obtain r where r: "opposite_start c s = Some r" "fill_inv s r []"
    by (auto simp: fill_inv_def)
  from tree_fill_spec [OF r(2) assms] r(1) show ?thesis by (simp add: tree_of_def)
qed

end

end
