(* ===== verification/Zielonka.thy ===== *)
theory Zielonka
  imports Zielonka_Spec
begin

text \<open>
  The automaton that walks in a Zielonka tree: along every infinite sequence of colour sets
  the largest priority that recurs is odd exactly when the set of recurring colours is
  accepted, as the argument in \<^verbatim>\<open>dpa_tree_step\<close> claims.
\<close>

subsection \<open>Paths\<close>

fun path_ok :: "ztree \<Rightarrow> dpa_path \<Rightarrow> bool" where
  "path_ok r [] = False"
| "path_ok r [e] = (e = (r, 0))"
| "path_ok r (e # f # p) =
     (snd e < length (zchildren (fst f)) \<and> fst e = zchildren (fst f) ! snd e \<and> path_ok r (f # p))"

definition leaf :: "dpa_path \<Rightarrow> bool" where
  "leaf p \<longleftrightarrow> p \<noteq> [] \<and> zchildren (fst (List.hd p)) = []"

text \<open>The ancestor of a path at a depth.\<close>

definition anc :: "nat \<Rightarrow> dpa_path \<Rightarrow> dpa_path" where
  "anc d p = drop (length p - Suc d) p"

lemma anc_append: "length p = Suc d \<Longrightarrow> anc d (q @ p) = p"
  by (simp add: anc_def)

lemma anc_self: "length p = Suc d \<Longrightarrow> anc d p = p"
  by (simp add: anc_def)

lemma length_anc: "d < length p \<Longrightarrow> length (anc d p) = Suc d"
  by (simp add: anc_def)

lemma anc_anc: "k \<le> d \<Longrightarrow> d < length p \<Longrightarrow> anc k (anc d p) = anc k p"
  by (simp add: anc_def)

lemma leftmost_from_append: "\<exists>q. leftmost_from t k p = q @ (t, k) # p"
proof (induction t k p rule: leftmost_from.induct)
  case (2 s t ts k p)
  then obtain q where "leftmost_from t 0 ((ZNode s (t # ts), k) # p) = q @ (t, 0) # (ZNode s (t # ts), k) # p"
    by blast
  then show ?case by (intro exI [of _ "q @ [(t, 0)]"]) simp
qed auto

lemma leftmost_from_ok:
  "path_ok r ((t, k) # p) \<Longrightarrow> path_ok r (leftmost_from t k p) \<and> leaf (leftmost_from t k p)"
  by (induction t k p rule: leftmost_from.induct) (auto simp: leaf_def)

lemma path_ok_suffix: "path_ok r (q @ p) \<Longrightarrow> p \<noteq> [] \<Longrightarrow> path_ok r p"
proof (induction q)
  case (Cons e q)
  then show ?case by (cases "q @ p") auto
qed simp

lemma path_ok_anc: "path_ok r p \<Longrightarrow> d < length p \<Longrightarrow> path_ok r (anc d p)"
  using path_ok_suffix [of r "take (length p - Suc d) p" "anc d p"]
  by (auto simp: anc_def)

lemma path_ok_root: "path_ok r p \<Longrightarrow> anc 0 p = [(r, 0)]"
proof (induction r p rule: path_ok.induct)
  case (3 r e f p)
  then show ?case by (simp add: anc_def)
qed (simp_all add: anc_def)

text \<open>A node with its children is above a longer path, and nothing is below a leaf.\<close>

lemma path_ok_child:
  assumes "path_ok r p" and "Suc d < length p"
  shows "\<exists>k < length (zchildren (fst (List.hd (anc d p)))).
    anc (Suc d) p = (zchildren (fst (List.hd (anc d p))) ! k, k) # anc d p"
proof -
  have ok: "path_ok r (anc (Suc d) p)" using assms by (rule path_ok_anc)
  have len: "length (anc (Suc d) p) = Suc (Suc d)" using assms(2) by (rule length_anc)
  then obtain e f q where q: "anc (Suc d) p = e # f # q" by (metis Suc_length_conv length_0_conv neq_Nil_conv)
  have "anc d p = anc d (e # f # q)" using assms(2) anc_anc [of d "Suc d" p] by (simp add: q)
  moreover have "length q = d" using len unfolding q by simp
  ultimately have a: "anc d p = f # q" by (simp add: anc_def [of d "e # f # q"])
  from ok show ?thesis unfolding q a by (cases e) auto
qed

lemma leaf_anc: "path_ok r p \<Longrightarrow> d < length p \<Longrightarrow> leaf (anc d p) \<Longrightarrow> anc d p = p"
proof (rule ccontr)
  assume a: "path_ok r p" "d < length p" "leaf (anc d p)" "anc d p \<noteq> p"
  then have "Suc d < length p" by (cases "Suc d = length p") (auto simp: anc_def)
  from path_ok_child [OF a(1) this] a(3) show False by (auto simp: leaf_def)
qed

subsection \<open>Nodes along a path\<close>

lemma zielonka_child:
  assumes "zielonka A w t" and "u \<in> set (zchildren t)"
  shows "zielonka A w u" "max_opposite A (cset (zcolours t)) (cset (zcolours u))"
  using assms by (cases t; auto)+

lemma zielonka_length: "zielonka A w t \<Longrightarrow> length (zcolours t) = w"
  by (cases t) simp

text \<open>Depth and acceptance along a path: every step down shrinks the set and flips the answer.\<close>

lemma path_ok_zielonka:
  assumes "path_ok r p" and "zielonka A w r"
  shows "zielonka A w (fst (List.hd p)) \<and> cset (zcolours (fst (List.hd p))) \<subseteq> cset (zcolours r) \<and>
    length p - 1 + card (cset (zcolours (fst (List.hd p)))) \<le> card (cset (zcolours r)) \<and>
    A (cset (zcolours (fst (List.hd p)))) = (A (cset (zcolours r)) = even (length p - 1))"
  using assms
proof (induction r p rule: path_ok.induct)
  case (3 r e f p)
  then have IH: "zielonka A w (fst f)" "cset (zcolours (fst f)) \<subseteq> cset (zcolours r)"
    "length p + card (cset (zcolours (fst f))) \<le> card (cset (zcolours r))"
    "A (cset (zcolours (fst f))) = (A (cset (zcolours r)) = even (length p))" by simp_all
  have "fst e \<in> set (zchildren (fst f))" using "3.prems"(1) by simp
  note ch = zielonka_child [OF IH(1) this]
  have "cset (zcolours (fst e)) \<subset> cset (zcolours (fst f))" by (rule max_opposite_psubset [OF ch(2)])
  moreover from this have "card (cset (zcolours (fst e))) < card (cset (zcolours (fst f)))"
    by (intro psubset_card_mono) simp_all
  ultimately show ?case using ch IH by (auto simp: max_opposite_def)
qed simp_all

text \<open>Colours shrink along the path.\<close>

lemma path_ok_colours:
  assumes "path_ok r p" and "zielonka A w r" and "d \<le> length p - 1"
  shows "cset (zcolours (fst (List.hd p))) \<subseteq> cset (zcolours (fst (List.hd (anc d p))))"
  using assms
proof (induction r p rule: path_ok.induct)
  case (3 r e f p)
  show ?case
  proof (cases "d = Suc (length p)")
    case True
    then show ?thesis by (simp add: anc_def)
  next
    case False
    with "3.prems"(3) have d: "d \<le> length p" by simp
    then have "anc d (e # f # p) = anc d (f # p)" by (simp add: anc_def Suc_diff_le)
    moreover have "cset (zcolours (fst e)) \<subseteq> cset (zcolours (fst f))"
      using "3.prems"(1) path_ok_zielonka [of r "f # p" A w] "3.prems"(2)
        zielonka_child(2) [of A w "fst f" "fst e"] by (auto simp: max_opposite_def)
    ultimately show ?thesis using 3 d by auto
  qed
qed (simp_all add: anc_def)

subsection \<open>One step\<close>

lemma find_anchor_spec:
  assumes "p \<noteq> []" and "contains (zcolours (fst (List.last p))) cs"
    and "child = (if pre = [] then p else List.last pre # p)"
    and "\<forall>e\<in>set pre. \<not> contains (zcolours (fst e)) cs"
  shows "\<exists>q anchor child'. find_anchor cs child p = Some (anchor, child') \<and> pre @ p = q @ anchor \<and>
    anchor \<noteq> [] \<and> contains (zcolours (fst (List.hd anchor))) cs \<and>
    (\<forall>e\<in>set q. \<not> contains (zcolours (fst e)) cs) \<and>
    child' = (if q = [] then anchor else List.last q # anchor)"
  using assms
proof (induction p arbitrary: pre child)
  case (Cons e p)
  show ?case
  proof (cases "contains (zcolours (fst e)) cs")
    case True
    then have "find_anchor cs child (e # p) = Some (e # p, child)" by simp
    with Cons.prems True show ?thesis
      by (intro exI [of _ pre] exI [of _ "e # p"] exI [of _ child] conjI) simp_all
  next
    case False
    with Cons.prems(2) have "p \<noteq> []" by auto
    moreover have "e # p = (if pre @ [e] = [] then p else List.last (pre @ [e]) # p)" by simp
    ultimately show ?thesis
      using Cons.IH [of "e # p" "pre @ [e]"] Cons.prems False by simp
  qed
qed simp

lemma path_ok_last: "path_ok r p \<Longrightarrow> fst (List.last p) = r"
  by (induction r p rule: path_ok.induct) auto

text \<open>
  What a step does: with the anchor at depth \<open>d\<close> the path keeps its ancestors up to \<open>d\<close>, and below
  the anchor it moves on to the next sibling.
\<close>

lemma dpa_tree_step_spec:
  assumes ok: "path_ok r p" "leaf p" and root: "contains (zcolours r) cs"
  shows "\<exists>d p'. dpa_tree_step maxp a p cs = Some (maxp - (of_nat d + (if a then 0 else 1)), p') \<and>
    d < length p \<and> d < length p' \<and> path_ok r p' \<and> leaf p' \<and> anc d p' = anc d p \<and>
    contains (zcolours (fst (List.hd (anc d p)))) cs \<and>
    (\<not> leaf (anc d p) \<longrightarrow> Suc d < length p \<and> Suc d < length p' \<and>
       \<not> contains (zcolours (fst (List.hd (anc (Suc d) p)))) cs \<and>
       snd (List.hd (anc (Suc d) p')) =
         Suc (snd (List.hd (anc (Suc d) p))) mod length (zchildren (fst (List.hd (anc d p)))))"
proof -
  have "p \<noteq> []" using ok(2) by (simp add: leaf_def)
  then obtain q anchor child where f: "find_anchor cs p p = Some (anchor, child)" "p = q @ anchor"
    "anchor \<noteq> []" "contains (zcolours (fst (List.hd anchor))) cs"
    "\<forall>e\<in>set q. \<not> contains (zcolours (fst e)) cs"
    "child = (if q = [] then anchor else List.last q # anchor)"
    using find_anchor_spec [of p cs p "[]"] root path_ok_last [OF ok(1)] by auto
  define d where "d = length anchor - 1"
  have len: "length anchor = Suc d" using f(3) by (simp add: d_def)
  have anchor: "anc d p = anchor" "d < length p" using len f(2) by (simp_all add: anc_append)
  let ?ts = "zchildren (fst (List.hd anchor))"
  show ?thesis
  proof (cases "?ts = []")
    case True
    then have lf: "leaf anchor" using f(3) by (simp add: leaf_def)
    show ?thesis
      by (rule exI [of _ d], rule exI [of _ p])
        (use f(4) len ok anchor lf True in \<open>simp add: dpa_tree_step_def f(1)\<close>)
  next
    case False
    then have nl: "\<not> leaf anchor" by (simp add: leaf_def)
    have "q \<noteq> []" using ok(2) nl f(2) by auto
    then obtain q0 e where q: "q = q0 @ [e]" by (metis append_butlast_last_id)
    have pe: "p = q0 @ (e # anchor)" and child: "child = e # anchor" using f(2,6) q by auto
    have e: "anc (Suc d) p = e # anchor" unfolding pe using len by (intro anc_append) simp
    let ?k = "Suc (snd e) mod length ?ts"
    have k: "?k < length ?ts" using False by simp
    let ?p' = "leftmost_from (?ts ! ?k) ?k anchor"
    have "path_ok r anchor" using path_ok_suffix [of r q anchor] ok(1) f(2,3) by simp
    then have "path_ok r ((?ts ! ?k, ?k) # anchor)" using k f(3) by (cases anchor) auto
    note lm = leftmost_from_ok [OF this]
    obtain q' where q': "?p' = q' @ (?ts ! ?k, ?k) # anchor"
      using leftmost_from_append by blast
    have a': "anc (Suc d) ?p' = (?ts ! ?k, ?k) # anchor" "anc d ?p' = anchor" "Suc d < length ?p'"
      unfolding q' using len anc_append [of anchor d "q' @ [(?ts ! ?k, ?k)]"]
      by (simp_all add: anc_append)
    have ne: "\<not> contains (zcolours (fst e)) cs" using f(5) q by simp
    have st: "dpa_tree_step maxp a p cs = Some (maxp - (of_nat d + (if a then 0 else 1)), ?p')"
      using False by (simp add: dpa_tree_step_def f(1) child len Let_def)
    have "Suc d < length p" unfolding pe using len by simp
    then show ?thesis
      by (intro exI [of _ d] exI [of _ ?p'] conjI impI) (simp_all add: st anchor a' lm e ne f(4) Suc_lessD)
  qed
qed

subsection \<open>Recurrence\<close>

definition recurs :: "(nat \<Rightarrow> bool) \<Rightarrow> bool" where
  "recurs P \<longleftrightarrow> (\<forall>k. \<exists>i\<ge>k. P i)"

lemma recurs_mono: "recurs P \<Longrightarrow> (\<And>i. i \<ge> K \<Longrightarrow> P i \<Longrightarrow> Q i) \<Longrightarrow> recurs Q"
  unfolding recurs_def by (metis le_trans nat_le_linear)

text \<open>Finitely many predicates: if one of them holds again and again, a single one recurs.\<close>

lemma recurs_finite:
  assumes "finite X" and "recurs (\<lambda>i. \<exists>x\<in>X. P x i)"
  shows "\<exists>x\<in>X. recurs (P x)"
proof (rule ccontr)
  assume "\<not> ?thesis"
  then have "\<forall>x\<in>X. \<exists>K. \<forall>i\<ge>K. \<not> P x i" unfolding recurs_def by blast
  then obtain K where K: "\<forall>x\<in>X. \<forall>i\<ge>K x. \<not> P x i" by metis
  let ?M = "Max (insert 0 (K ` X))"
  have "\<not> P x i" if "x \<in> X" "i \<ge> ?M" for x i
  proof -
    have "K x \<le> ?M" using assms(1) that(1) by (intro Max_ge) auto
    with K that show ?thesis by (meson le_trans)
  qed
  with assms(2) show False unfolding recurs_def by blast
qed

text \<open>A bounded sequence has a least recurring value.\<close>

lemma least_recurring:
  fixes d :: "nat \<Rightarrow> nat"
  assumes "\<And>i. d i \<le> n"
  obtains m K where "recurs (\<lambda>i. d i = m)" and "\<And>i. i \<ge> K \<Longrightarrow> d i \<ge> m"
proof -
  have "recurs (\<lambda>i. \<exists>x\<in>{..n}. d i = x)" using assms by (auto simp: recurs_def)
  from recurs_finite [OF _ this] obtain x where "recurs (\<lambda>i. d i = x)" by auto
  from ex_first_nat [of "\<lambda>x. recurs (\<lambda>i. d i = x)", OF this] obtain m where
    m: "recurs (\<lambda>i. d i = m)" "\<forall>k<m. \<not> recurs (\<lambda>i. d i = k)" by blast
  have "\<not> recurs (\<lambda>i. d i < m)"
  proof
    assume "recurs (\<lambda>i. d i < m)"
    then have "recurs (\<lambda>i. \<exists>x\<in>{..<m}. d i = x)" by (auto simp: recurs_def)
    from recurs_finite [OF _ this] m(2) show False by auto
  qed
  then obtain K where "\<forall>i\<ge>K. \<not> d i < m" unfolding recurs_def by blast
  with m(1) show ?thesis by (intro that) (auto simp: not_less)
qed

text \<open>
  A counter that moves to the next value modulo \<open>n\<close> at the ticks, which recur, and rests
  otherwise, is at every value at infinitely many ticks.
\<close>

lemma rotation:
  fixes q :: "nat \<Rightarrow> nat"
  assumes tick: "recurs T" and n: "\<And>i. i \<ge> K \<Longrightarrow> q i < n"
    and move: "\<And>i. i \<ge> K \<Longrightarrow> q (Suc i) = (if T i then Suc (q i) mod n else q i)"
    and j: "j < n"
  shows "recurs (\<lambda>i. T i \<and> q i = j)"
proof -
  have next_tick: "\<exists>i'\<ge>i. T i' \<and> q i' = q i" if "i \<ge> K" for i
  proof -
    from tick obtain t where t: "t \<ge> i" "T t" by (auto simp: recurs_def)
    obtain m where m: "i \<le> m" "T m" "\<forall>k. i \<le> k \<and> k < m \<longrightarrow> \<not> T k"
      using ex_first_from [of T t i] t by blast
    have "q k = q i" if "i \<le> k" "k \<le> m" for k
      using that
    proof (induction k rule: dec_induct)
      case (step k)
      with move [of k] m(3) \<open>i \<ge> K\<close> show ?case by simp
    qed simp
    from this [OF m(1) order_refl] m(1,2) show ?thesis by blast
  qed
  have reach: "\<exists>i'\<ge>i. T i' \<and> q i' = (q i + r) mod n" if "i \<ge> K" for i r
  proof (induction r)
    case 0
    then show ?case using next_tick [OF that] n [OF that] by simp
  next
    case (Suc r)
    then obtain i' where i': "i' \<ge> i" "T i'" "q i' = (q i + r) mod n" by blast
    with that have "q (Suc i') = (q i + Suc r) mod n" by (simp add: move mod_Suc_eq)
    with next_tick [of "Suc i'"] i'(1) that show ?case by (metis le_Suc_eq le_trans)
  qed
  show ?thesis
    unfolding recurs_def
  proof
    fix k
    let ?i = "max k K"
    have "(q ?i + (n - q ?i + j)) mod n = j" using n [of ?i] j by simp
    with reach [of ?i "n - q ?i + j"] show "\<exists>i\<ge>k. T i \<and> q i = j" by (metis max.bounded_iff max.cobounded1 max.cobounded2)
  qed
qed

end
