(* ===== verification/Dpa_Parity.thy ===== *)
theory Dpa_Parity
  imports Zielonka
begin

text \<open>
  The parity condition of \<^verbatim>\<open>dpa_tree_step\<close> decides the acceptance of the recurring colours.
  The diagrams are the parameters of \<open>Dpa_Colours\<close>; at the end their interface is shown to hold
  of truth tables.
\<close>

subsection \<open>The least recurring anchor\<close>

lemma anchor_decides:
  assumes zr: "zielonka A w r" and cw: "\<And>i. length (cs i) = w"
    and ok: "\<And>i. path_ok r (p i)" "\<And>i. leaf (p i)"
    and d: "\<And>i. d i < length (p i)" "\<And>i. d i < length (p (Suc i))"
    and keep: "\<And>i. anc (d i) (p (Suc i)) = anc (d i) (p i)"
    and inside: "\<And>i. contains (zcolours (fst (List.hd (anc (d i) (p i))))) (cs i)"
    and below: "\<And>i. \<not> leaf (anc (d i) (p i)) \<Longrightarrow>
        \<not> contains (zcolours (fst (List.hd (anc (Suc (d i)) (p i))))) (cs i) \<and>
        snd (List.hd (anc (Suc (d i)) (p (Suc i)))) =
          Suc (snd (List.hd (anc (Suc (d i)) (p i)))) mod length (zchildren (fst (List.hd (anc (d i) (p i)))))"
    and m: "recurs (\<lambda>i. d i = m)" and K: "\<And>i. i \<ge> K \<Longrightarrow> d i \<ge> m"
  shows "A {x. recurs (\<lambda>i. x \<in> cset (cs i))} = (A (cset (zcolours r)) = even m)"
proof -
  define P where "P = anc m (p K)"
  define N where "N = fst (List.hd P)"
  let ?I = "{x. recurs (\<lambda>i. x \<in> cset (cs i))}"
  have len: "m < length (p i)" if "i \<ge> K" for i using K [OF that] d(1) [of i] by simp
  have P: "anc m (p i) = P" if "i \<ge> K" for i
    using that
  proof (induction i rule: dec_induct)
    case base
    then show ?case by (simp add: P_def)
  next
    case (step i)
    have "anc m (p (Suc i)) = anc m (anc (d i) (p (Suc i)))"
      using K [OF step.hyps(1)] d(2) by (simp add: anc_anc)
    also have "\<dots> = P" using K [OF step.hyps(1)] d(1) step.IH by (simp add: keep anc_anc)
    finally show ?case .
  qed
  have okP: "path_ok r P" "length P = Suc m"
    using path_ok_anc [OF ok(1) len [OF order_refl]] length_anc [OF len [OF order_refl]]
    by (simp_all add: P_def)
  from path_ok_zielonka [OF okP(1) zr] okP(2)
  have z: "zielonka A w N" "A (cset (zcolours N)) = (A (cset (zcolours r)) = even m)"
    by (simp_all add: N_def)
  have wl: "length (zcolours u) = w" if "zielonka A w u" for u by (rule zielonka_length [OF that])
  have IN: "?I \<subseteq> cset (zcolours N)"
  proof
    fix x assume "x \<in> ?I"
    then obtain i where i: "i \<ge> K" "x \<in> cset (cs i)" by (auto simp: recurs_def)
    let ?a = "anc (d i) (p i)"
    have a: "path_ok r ?a" "length ?a = Suc (d i)"
      using path_ok_anc [OF ok(1) d(1)] length_anc [OF d(1)] .
    have "length (zcolours (fst (List.hd ?a))) = length (cs i)"
      using path_ok_zielonka [OF a(1) zr] wl cw by simp
    then have "x \<in> cset (zcolours (fst (List.hd ?a)))"
      using inside [of i] i(2) contains_iff by blast
    moreover have "anc m ?a = P" using P [OF i(1)] K [OF i(1)] d(1) by (simp add: anc_anc)
    ultimately show "x \<in> cset (zcolours N)"
      using path_ok_colours [OF a(1) zr, of m] K [OF i(1)] a(2) by (auto simp: N_def)
  qed
  have out: "\<not> ?I \<subseteq> cset (zcolours u)" if u: "u \<in> set (zchildren N)" for u
  proof -
    from u obtain j where j: "j < length (zchildren N)" "zchildren N ! j = u"
      by (auto simp: in_set_conv_nth)
    have nl: "\<not> leaf P" using u by (auto simp: leaf_def N_def)
    have long: "Suc m < length (p i)" if "i \<ge> K" for i
    proof (rule ccontr)
      assume "\<not> Suc m < length (p i)"
      with len [OF that] have "length (p i) = Suc m" by simp
      then have "p i = P" using P [OF that] by (simp add: anc_self)
      with nl ok(2) show False by metis
    qed
    define q where "q i = snd (List.hd (anc (Suc m) (p i)))" for i
    have q: "q i < length (zchildren N)" "anc (Suc m) (p i) = (zchildren N ! q i, q i) # P" if "i \<ge> K" for i
      using path_ok_child [OF ok(1) long [OF that]] P [OF that] by (auto simp: q_def N_def)
    have move: "q (Suc i) = (if d i = m then Suc (q i) mod length (zchildren N) else q i)" if "i \<ge> K" for i
    proof (cases "d i = m")
      case True
      with below [of i] P [OF that] nl show ?thesis by (simp add: q_def N_def)
    next
      case False
      with K [OF that] have "Suc m \<le> d i" by simp
      then have "anc (Suc m) (p (Suc i)) = anc (Suc m) (p i)"
        using anc_anc [of "Suc m" "d i" "p (Suc i)"] anc_anc [of "Suc m" "d i" "p i"] d keep by simp
      with False show ?thesis by (simp add: q_def)
    qed
    have "recurs (\<lambda>i. d i = m \<and> q i = j)" by (rule rotation [OF m q(1) move j(1)])
    then have "recurs (\<lambda>i. \<exists>x\<in>cset (zcolours N) - cset (zcolours u). x \<in> cset (cs i))"
    proof (rule recurs_mono [where K = K])
      fix i assume i: "K \<le> i" "d i = m \<and> q i = j"
      have "\<not> contains (zcolours u) (cs i)"
        using below [of i] P [OF i(1)] q(2) [OF i(1)] nl i(2) j(2) by simp
      moreover have zu: "zielonka A w u" using zielonka_child [OF z(1) u] by simp
      ultimately have "\<not> cset (cs i) \<subseteq> cset (zcolours u)"
        using contains_iff [of "zcolours u" "cs i"] wl [OF zu] cw by simp
      moreover have "cset (cs i) \<subseteq> cset (zcolours N)"
        using inside [of i] P [OF i(1)] i(2) contains_iff [of "zcolours N" "cs i"] wl [OF z(1)] cw
        by (simp add: N_def)
      ultimately show "\<exists>x\<in>cset (zcolours N) - cset (zcolours u). x \<in> cset (cs i)" by blast
    qed
    from recurs_finite [OF _ this] show ?thesis by auto
  qed
  have "A ?I = A (cset (zcolours N))"
  proof (rule ccontr)
    assume ne: "A ?I \<noteq> A (cset (zcolours N))"
    obtain M where M: "max_opposite A (cset (zcolours N)) M" "?I \<subseteq> M"
      using max_opposite_above [OF finite_cset IN, of A] ne by blast
    obtain s ts where N: "N = ZNode s ts" by (cases N)
    have "M \<in> (\<lambda>t. cset (zcolours t)) ` set ts" using M(1) z(1) by (simp add: N)
    then obtain u where "u \<in> set ts" "cset (zcolours u) = M" by blast
    with out [of u] M(2) show False by (simp add: N)
  qed
  with z(2) show ?thesis by simp
qed

subsection \<open>Runs\<close>

text \<open>The leaf before each step, and the priority of each step.\<close>

primrec leaf_at :: "u32 \<Rightarrow> bool \<Rightarrow> dpa_path \<Rightarrow> (nat \<Rightarrow> u64 list) \<Rightarrow> nat \<Rightarrow> dpa_path option" where
  "leaf_at maxp a l cs 0 = Some l"
| "leaf_at maxp a l cs (Suc i) =
     Option.bind (leaf_at maxp a l cs i) (\<lambda>p. map_option snd (dpa_tree_step maxp a p (cs i)))"

definition priority_at :: "u32 \<Rightarrow> bool \<Rightarrow> dpa_path \<Rightarrow> (nat \<Rightarrow> u64 list) \<Rightarrow> nat \<Rightarrow> u32 option" where
  "priority_at maxp a l cs i =
     Option.bind (leaf_at maxp a l cs i) (\<lambda>p. map_option fst (dpa_tree_step maxp a p (cs i)))"

text \<open>The largest priority is odd, and above every depth.\<close>

lemma max_priority_unat:
  assumes "n \<le> 2 ^ 32 - 4"
  shows "odd (unat (max_priority n))" "n + 2 \<le> unat (max_priority n)"
proof -
  have u: "unat (of_nat n + 2 :: u32) = n + 2"
    using assms by (simp add: unat_word_ariths unat_of_nat)
  have ev: "even (of_nat n + 2 :: u32) = even n" by simp
  have "unat (max_priority n) = (if even n then n + 3 else n + 2)"
  proof (cases "even n")
    case True
    then have "max_priority n = of_nat (n + 3)" by (simp add: max_priority_def or_one_eq ev)
    then show ?thesis using assms True by (simp add: unat_of_nat del: of_nat_add)
  next
    case False
    then show ?thesis using u by (simp add: max_priority_def or_one_eq ev)
  qed
  then show "odd (unat (max_priority n))" "n + 2 \<le> unat (max_priority n)" by auto
qed

lemma priority_unat:
  assumes "n \<le> 2 ^ 32 - 4" and "d \<le> n"
  shows "unat (max_priority n - (of_nat d + (if a then 0 else 1))) =
    unat (max_priority n) - (d + (if a then 0 else 1))"
proof -
  define k where "k = d + (if a then 0 else 1)"
  have "of_nat d + (if a then 0 else 1) = (of_nat k :: u32)" by (simp add: k_def)
  moreover have k: "k \<le> n + 1" using assms(2) by (simp add: k_def)
  then have "unat (of_nat k :: u32) = k" using assms(1) by (simp add: unat_of_nat)
  moreover have "k \<le> unat (max_priority n)" using max_priority_unat(2) [OF assms(1)] k by simp
  ultimately show ?thesis unfolding k_def [symmetric] by (metis unat_sub word_le_nat_alt)
qed

context colour_ctx
begin

lemma full_colours_spec: "colour_set (full_colours c)" "cset (full_colours c) = {..<components_n c}"
proof -
  have "length (foldl dpa_set_colour s xs) = length s \<and>
      cset (foldl dpa_set_colour s xs) = cset s \<union> set xs" if "set xs \<subseteq> {..<64 * length s}" for s xs
    using that
  proof (induction xs arbitrary: s)
    case (Cons x xs)
    then show ?case using cset_set_colour [of x s] by auto
  qed simp
  from this [of "[0..<components_n c]" "zero_colours (colour_words c)"] words_bound
  have "length (full_colours c) = colour_words c \<and> cset (full_colours c) = {..<components_n c}"
    by (simp add: full_colours_def atLeast0LessThan)
  then show "colour_set (full_colours c)" "cset (full_colours c) = {..<components_n c}"
    by (auto simp: colour_set_def)
qed

lemma tree_init_spec:
  "\<exists>t. dpa_tree_init c = Some (A {..<components_n c}, leftmost_from t 0 []) \<and>
     cset (zcolours t) = {..<components_n c} \<and> zielonka A (colour_words c) t"
  using tree_of_spec [OF full_colours_spec(1)] full_colours_spec accepts_spec [of "full_colours c"]
  by (auto simp: dpa_tree_init_def colour_set_def)

text \<open>Every step of a run is defined, and what it does.\<close>

lemma run_spec:
  assumes zr: "zielonka A (colour_words c) r" "cset (zcolours r) = {..<components_n c}"
    and cs: "\<And>i. colour_set (cs i)" and l: "path_ok r l" "leaf l"
  shows "\<exists>p d. (\<forall>i. leaf_at maxp a l cs i = Some (p i)) \<and> (\<forall>i. path_ok r (p i) \<and> leaf (p i)) \<and>
    (\<forall>i. dpa_tree_step maxp a (p i) (cs i) =
        Some (maxp - (of_nat (d i) + (if a then 0 else 1)), p (Suc i)) \<and>
      d i < length (p i) \<and> d i < length (p (Suc i)) \<and> anc (d i) (p (Suc i)) = anc (d i) (p i) \<and>
      contains (zcolours (fst (List.hd (anc (d i) (p i))))) (cs i) \<and>
      (\<not> leaf (anc (d i) (p i)) \<longrightarrow>
        \<not> contains (zcolours (fst (List.hd (anc (Suc (d i)) (p i))))) (cs i) \<and>
        snd (List.hd (anc (Suc (d i)) (p (Suc i)))) =
          Suc (snd (List.hd (anc (Suc (d i)) (p i)))) mod length (zchildren (fst (List.hd (anc (d i) (p i)))))))"
proof -
  have root: "contains (zcolours r) (cs i)" for i
    using cs [of i] zr contains_iff [of "zcolours r" "cs i"] zielonka_length [OF zr(1)]
    by (auto simp: colour_set_def)
  have "\<exists>p. leaf_at maxp a l cs i = Some p \<and> path_ok r p \<and> leaf p" for i
  proof (induction i)
    case (Suc i)
    then show ?case using dpa_tree_step_spec [OF _ _ root, of _ maxp a i] by fastforce
  qed (use l in simp)
  then obtain p where p: "\<And>i. leaf_at maxp a l cs i = Some (p i)" "\<And>i. path_ok r (p i)" "\<And>i. leaf (p i)"
    by metis
  have "p (Suc i) = p'" if "dpa_tree_step maxp a (p i) (cs i) = Some (x, p')" for i x p'
    using p(1) [of "Suc i"] p(1) [of i] that by simp
  then have "\<forall>i. \<exists>d. dpa_tree_step maxp a (p i) (cs i) =
        Some (maxp - (of_nat d + (if a then 0 else 1)), p (Suc i)) \<and>
      d < length (p i) \<and> d < length (p (Suc i)) \<and> anc d (p (Suc i)) = anc d (p i) \<and>
      contains (zcolours (fst (List.hd (anc d (p i))))) (cs i) \<and>
      (\<not> leaf (anc d (p i)) \<longrightarrow>
        \<not> contains (zcolours (fst (List.hd (anc (Suc d) (p i))))) (cs i) \<and>
        snd (List.hd (anc (Suc d) (p (Suc i)))) =
          Suc (snd (List.hd (anc (Suc d) (p i)))) mod length (zchildren (fst (List.hd (anc d (p i))))))"
    using dpa_tree_step_spec [OF p(2,3) root, of maxp a] by (metis (no_types, lifting))
  then obtain d where "\<forall>i. dpa_tree_step maxp a (p i) (cs i) =
        Some (maxp - (of_nat (d i) + (if a then 0 else 1)), p (Suc i)) \<and>
      d i < length (p i) \<and> d i < length (p (Suc i)) \<and> anc (d i) (p (Suc i)) = anc (d i) (p i) \<and>
      contains (zcolours (fst (List.hd (anc (d i) (p i))))) (cs i) \<and>
      (\<not> leaf (anc (d i) (p i)) \<longrightarrow>
        \<not> contains (zcolours (fst (List.hd (anc (Suc (d i)) (p i))))) (cs i) \<and>
        snd (List.hd (anc (Suc (d i)) (p (Suc i)))) =
          Suc (snd (List.hd (anc (Suc (d i)) (p i)))) mod length (zchildren (fst (List.hd (anc (d i) (p i))))))"
    by metis
  with p show ?thesis by blast
qed

lemma run_parity:
  assumes n: "components_n c \<le> 2 ^ 32 - 4" and cs: "\<And>i. colour_set (cs i)"
  shows "\<exists>a l prio. dpa_tree_init c = Some (a, l) \<and>
    (\<forall>i. priority_at (max_priority (components_n c)) a l cs i = Some (prio i) \<and> 0 < prio i \<and>
         prio i \<le> max_priority (components_n c)) \<and>
    (\<exists>q. recurs (\<lambda>i. prio i = q) \<and> (\<forall>q'>q. \<not> recurs (\<lambda>i. prio i = q')) \<and>
         odd (unat q) = A {x. recurs (\<lambda>i. x \<in> cset (cs i))})"
proof -
  let ?M = "max_priority (components_n c)"
  obtain t where t: "dpa_tree_init c = Some (A {..<components_n c}, leftmost_from t 0 [])"
    "cset (zcolours t) = {..<components_n c}" "zielonka A (colour_words c) t"
    using tree_init_spec by blast
  define a where "a = A {..<components_n c}"
  define e :: nat where "e = (if a then 0 else 1)"
  have l: "path_ok t (leftmost_from t 0 [])" "leaf (leftmost_from t 0 [])"
    using leftmost_from_ok [of t t 0 "[]"] by simp_all
  obtain p d where R: "\<forall>i. leaf_at ?M a (leftmost_from t 0 []) cs i = Some (p i)"
    "\<forall>i. path_ok t (p i) \<and> leaf (p i)"
    and S: "\<forall>i. dpa_tree_step ?M a (p i) (cs i) =
        Some (?M - (of_nat (d i) + (if a then 0 else 1)), p (Suc i)) \<and>
      d i < length (p i) \<and> d i < length (p (Suc i)) \<and> anc (d i) (p (Suc i)) = anc (d i) (p i) \<and>
      contains (zcolours (fst (List.hd (anc (d i) (p i))))) (cs i) \<and>
      (\<not> leaf (anc (d i) (p i)) \<longrightarrow>
        \<not> contains (zcolours (fst (List.hd (anc (Suc (d i)) (p i))))) (cs i) \<and>
        snd (List.hd (anc (Suc (d i)) (p (Suc i)))) =
          Suc (snd (List.hd (anc (Suc (d i)) (p i)))) mod length (zchildren (fst (List.hd (anc (d i) (p i))))))"
    using run_spec [where cs = cs, OF t(3,2) cs l, of ?M a] by (elim exE conjE)
  have p: "leaf_at ?M a (leftmost_from t 0 []) cs i = Some (p i)" "path_ok t (p i)" "leaf (p i)" for i
    using R by simp_all
  have st: "dpa_tree_step ?M a (p i) (cs i) = Some (?M - (of_nat (d i) + (if a then 0 else 1)), p (Suc i))"
      "d i < length (p i)" "d i < length (p (Suc i))" "anc (d i) (p (Suc i)) = anc (d i) (p i)"
      "contains (zcolours (fst (List.hd (anc (d i) (p i))))) (cs i)"
      "\<not> leaf (anc (d i) (p i)) \<Longrightarrow>
        \<not> contains (zcolours (fst (List.hd (anc (Suc (d i)) (p i))))) (cs i) \<and>
        snd (List.hd (anc (Suc (d i)) (p (Suc i)))) =
          Suc (snd (List.hd (anc (Suc (d i)) (p i)))) mod length (zchildren (fst (List.hd (anc (d i) (p i)))))" for i
    by (rule S [rule_format, THEN conjunct1], insert S [rule_format, of i], (elim conjE, assumption)+, (elim conjE, erule mp, assumption))
  define prio where "prio i = ?M - (of_nat (d i) + (if a then 0 else 1))" for i
  have dn: "d i \<le> components_n c" for i
  proof -
    have "length (p i) - 1 \<le> card (cset (zcolours t))"
      using path_ok_zielonka [OF p(2) t(3), of i] by linarith
    moreover have "card (cset (zcolours t)) = components_n c" by (simp add: t(2))
    ultimately show ?thesis using st(2) [of i] by linarith
  qed
  have up: "unat (prio i) = unat ?M - (d i + e)" for i
    unfolding prio_def e_def by (rule priority_unat [OF n dn])
  note M = max_priority_unat [OF n]
  have pa: "priority_at ?M a (leftmost_from t 0 []) cs i = Some (prio i)" for i
    by (simp add: priority_at_def p(1) st(1) prio_def)
  have "e \<le> 1" by (simp add: e_def)
  then have bounds: "0 < prio i \<and> prio i \<le> ?M" for i
    using up [of i] dn [of i] M(2) by (simp add: word_less_nat_alt word_le_nat_alt)
  obtain m K where m: "recurs (\<lambda>i. d i = m)" "\<And>i. i \<ge> K \<Longrightarrow> d i \<ge> m"
    using least_recurring [of d "components_n c"] dn by blast
  have mn: "m \<le> components_n c" using m(1) dn unfolding recurs_def by metis
  define q where "q = ?M - (of_nat m + (if a then 0 else 1))"
  have uq: "unat q = unat ?M - (m + e)" unfolding q_def e_def by (rule priority_unat [OF n mn])
  have rq: "recurs (\<lambda>i. prio i = q)" by (rule recurs_mono [OF m(1)]) (simp add: prio_def q_def)
  have top: "\<not> recurs (\<lambda>i. prio i = q')" if "q < q'" for q'
  proof
    assume "recurs (\<lambda>i. prio i = q')"
    then obtain i where i: "i \<ge> K" "prio i = q'" unfolding recurs_def by blast
    have "unat (prio i) \<le> unat q" unfolding up uq using m(2) [OF i(1)] by simp
    with i(2) that show False by (simp add: word_less_nat_alt)
  qed
  have "A {x. recurs (\<lambda>i. x \<in> cset (cs i))} = (A (cset (zcolours t)) = even m)"
    by (rule anchor_decides [OF t(3) _ p(2,3) st(2-6) m]) (use cs in \<open>simp_all add: colour_set_def\<close>)
  moreover have "odd (unat q) = even (m + e)"
    using uq M mn \<open>e \<le> 1\<close> by simp
  ultimately have "odd (unat q) = A {x. recurs (\<lambda>i. x \<in> cset (cs i))}"
    unfolding t(2) by (auto simp: e_def a_def)
  with t(1) pa bounds rq top show ?thesis unfolding a_def by blast
qed

end

end
