(* ===== verification/Dpa_Tables.thy ===== *)
theory Dpa_Tables
  imports Dpa_Parity
begin

text \<open>
  A concrete instance of the diagram interface, truth tables, and the correctness of the parity
  automaton of an acceptance condition.
\<close>

subsection \<open>Truth tables\<close>

text \<open>
  Truth tables over \<open>n\<close> variables, as sets of the satisfying sets, fulfil the interface.
\<close>

definition depends :: "nat \<Rightarrow> nat set set \<Rightarrow> nat \<Rightarrow> bool" where
  "depends n f v \<longleftrightarrow> (\<exists>S\<in>Pow {..<n}. (insert v S \<in> f) \<noteq> (S - {v} \<in> f))"

definition tt_ops :: "nat \<Rightarrow> nat set set bdd_ops" where
  "tt_ops n = \<lparr>bdd_false = {}, bdd_true = Pow {..<n}, bdd_not = (\<lambda>f. Pow {..<n} - f),
     bdd_and = (\<inter>), bdd_or = (\<union>), bdd_atom = (\<lambda>i. {S \<in> Pow {..<n}. i \<in> S}),
     bdd_node_var = (\<lambda>f. List.hd (filter (depends n f) [0..<n])),
     bdd_cofactor_false = (\<lambda>f. {S \<in> Pow {..<n}. S - {List.hd (filter (depends n f) [0..<n])} \<in> f}),
     bdd_cofactor_true = (\<lambda>f. {S \<in> Pow {..<n}. insert (List.hd (filter (depends n f) [0..<n])) S \<in> f})\<rparr>"

definition tt_den :: "nat \<Rightarrow> nat set set \<Rightarrow> nat set \<Rightarrow> bool" where
  "tt_den n f S \<longleftrightarrow> S \<inter> {..<n} \<in> f"

definition tt_supp :: "nat \<Rightarrow> nat set set \<Rightarrow> nat set" where
  "tt_supp n f = {v. v < n \<and> depends n f v}"

definition tt_ok :: "nat \<Rightarrow> nat set set \<Rightarrow> bool" where
  "tt_ok n f \<longleftrightarrow> f \<subseteq> Pow {..<n}"

lemma tt_irrelevant:
  assumes "S \<subseteq> {..<n}" and "v < n" and "\<not> depends n f v"
  shows "(insert v S \<in> f) = (S - {v} \<in> f)"
  using assms by (auto simp: depends_def)

text \<open>Membership only depends on the support.\<close>

lemma tt_relevant:
  assumes "S \<subseteq> {..<n}"
  shows "(S \<in> f) = (S \<inter> tt_supp n f \<in> f)"
proof -
  have "(S \<in> f) = (S - X \<in> f)" if "finite X" "X \<subseteq> S - tt_supp n f" for X
    using that
  proof (induction X)
    case (insert x X)
    then have x: "x \<in> S - X" "x < n" "\<not> depends n f x" using assms by (auto simp: tt_supp_def)
    have "(S \<in> f) = (S - X \<in> f)" using insert by blast
    also have "S - X = insert x (S - insert x X)" using x(1) by blast
    also have "(insert x (S - insert x X) \<in> f) = (S - insert x X - {x} \<in> f)"
      using tt_irrelevant [of "S - insert x X" n x f] assms x(2,3) by blast
    also have "S - insert x X - {x} = S - insert x X" by blast
    finally show ?case .
  qed simp
  from this [of "S - tt_supp n f"] assms show ?thesis
    by (simp add: Diff_Diff_Int finite_subset [OF _ finite_lessThan [of n]] subset_iff)
qed

lemma tt_node:
  assumes "tt_ok n f" and "\<not> bdd_const (tt_ops n) f"
  shows "List.hd (filter (depends n f) [0..<n]) \<in> tt_supp n f"
proof -
  have "tt_supp n f \<noteq> {}"
  proof
    assume e: "tt_supp n f = {}"
    have eq: "(S \<in> f) = ({} \<in> f)" if "S \<subseteq> {..<n}" for S using tt_relevant [OF that, of f] e by simp
    have "f = {} \<or> f = Pow {..<n}"
    proof (cases "{} \<in> f")
      case True
      with eq have "Pow {..<n} \<subseteq> f" by blast
      with assms(1) show ?thesis by (auto simp: tt_ok_def)
    next
      case False
      with eq assms(1) show ?thesis unfolding tt_ok_def by blast
    qed
    with assms(2) show False by (simp add: bdd_const_def tt_ops_def)
  qed
  then have "filter (depends n f) [0..<n] \<noteq> []" by (auto simp: tt_supp_def filter_empty_conv)
  then have "List.hd (filter (depends n f) [0..<n]) \<in> set (filter (depends n f) [0..<n])" by (rule list.set_sel(1))
  then show ?thesis by (simp add: tt_supp_def)
qed

lemma depends_ops:
  "depends n (Pow {..<n} - f) v \<Longrightarrow> v < n \<Longrightarrow> depends n f v"
  "depends n (f \<inter> g) v \<Longrightarrow> depends n f v \<or> depends n g v"
  "depends n (f \<union> g) v \<Longrightarrow> depends n f v \<or> depends n g v"
  "depends n {S \<in> Pow {..<n}. i \<in> S} v \<Longrightarrow> v = i \<or> n \<le> v"
  "\<not> depends n {} v"
  by (auto simp: depends_def)

text \<open>A cofactor does not depend on its variable, nor on others than the function does.\<close>

lemma depends_cofactor:
  assumes "x < n"
  shows "depends n {S \<in> Pow {..<n}. S - {x} \<in> f} v \<Longrightarrow> v < n \<Longrightarrow> depends n f v \<and> v \<noteq> x"
    and "depends n {S \<in> Pow {..<n}. insert x S \<in> f} v \<Longrightarrow> v < n \<Longrightarrow> depends n f v \<and> v \<noteq> x"
proof -
  assume v: "v < n"
  {
    assume "depends n {S \<in> Pow {..<n}. S - {x} \<in> f} v"
    then obtain S where S: "S \<subseteq> {..<n}" "(insert v S - {x} \<in> f) \<noteq> (S - {v} - {x} \<in> f)"
      using v by (auto simp: depends_def)
    then have vx: "v \<noteq> x" by auto
    then have e: "insert v S - {x} = insert v (S - {x})" "S - {v} - {x} = S - {x} - {v}" by auto
    have "S - {x} \<in> Pow {..<n}" using S(1) by auto
    with S(2) [unfolded e] have "depends n f v" unfolding depends_def by (rule bexI)
    with vx show "depends n f v \<and> v \<noteq> x" by simp
  next
    assume "depends n {S \<in> Pow {..<n}. insert x S \<in> f} v"
    then obtain S where S: "S \<subseteq> {..<n}" "(insert x (insert v S) \<in> f) \<noteq> (insert x (S - {v}) \<in> f)"
      using v by (auto simp: depends_def)
    then have vx: "v \<noteq> x" by (auto simp: insert_absorb)
    then have e: "insert x (insert v S) = insert v (insert x S)" "insert x (S - {v}) = insert x S - {v}" by auto
    have "insert x S \<in> Pow {..<n}" using S(1) assms by simp
    with S(2) [unfolded e] have "depends n f v" unfolding depends_def by (rule bexI)
    with vx show "depends n f v \<and> v \<noteq> x" by simp
  }
qed

lemma tt_bdd: "bdd (tt_ops n) (tt_den n) (tt_supp n) (tt_ok n) n"
proof (unfold_locales, goal_cases)
  case (19 f S T)
  have "(S \<inter> {..<n} \<in> f) = (S \<inter> {..<n} \<inter> tt_supp n f \<in> f)" "(T \<inter> {..<n} \<in> f) = (T \<inter> {..<n} \<inter> tt_supp n f \<in> f)"
    by (rule tt_relevant, simp)+
  moreover have "S \<inter> {..<n} \<inter> tt_supp n f = T \<inter> {..<n} \<inter> tt_supp n f" using 19(2) by auto
  ultimately show ?case by (simp add: tt_den_def)
next
  case (17 i)
  have "x = i" if "x < n" "depends n {S \<in> Pow {..<n}. i \<in> S} x" for x
    using depends_ops(4) [OF that(2)] that(1) by simp
  then show ?case unfolding tt_ops_def bdd_ops.simps tt_supp_def by blast
next
  case (20 f)
  have "x \<notin> f" for x
  proof
    assume "x \<in> f"
    then have "x \<inter> {..<n} = x" using 20(1) by (auto simp: tt_ok_def)
    with 20(2) [of x] \<open>x \<in> f\<close> show False by (simp add: tt_den_def)
  qed
  then show ?case by (simp add: tt_ops_def) blast
next
  case (21 f)
  let ?v = "List.hd (filter (depends n f) [0..<n])"
  have v: "?v \<in> tt_supp n f" by (rule tt_node [OF 21])
  then have "?v < n" by (simp add: tt_supp_def)
  note c = depends_cofactor [OF this, of f]
  let ?lo = "{S \<in> Pow {..<n}. S - {?v} \<in> f}" and ?hi = "{S \<in> Pow {..<n}. insert ?v S \<in> f}"
  have "tt_supp n ?lo \<subseteq> tt_supp n f - {?v}" "tt_supp n ?hi \<subseteq> tt_supp n f - {?v}"
    unfolding tt_supp_def using c by blast+
  moreover have "tt_ok n ?lo" "tt_ok n ?hi" unfolding tt_ok_def by blast+
  ultimately show ?case using v unfolding tt_ops_def bdd_ops.simps by blast
next
  case (22 f S)
  let ?v = "List.hd (filter (depends n f) [0..<n])"
  have "?v \<in> tt_supp n f" by (rule tt_node [OF 22])
  then have v: "?v < n" by (simp add: tt_supp_def)
  show ?case
  proof (cases "?v \<in> S")
    case True
    then have "insert ?v (S \<inter> {..<n}) = S \<inter> {..<n}" using v by auto
    with True show ?thesis by (simp add: tt_ops_def tt_den_def)
  next
    case False
    then have "S \<inter> {..<n} - {?v} = S \<inter> {..<n}" by auto
    with False show ?thesis by (simp add: tt_ops_def tt_den_def)
  qed
qed (auto simp: tt_ops_def tt_den_def tt_supp_def tt_ok_def depends_ops(5) dest: depends_ops(1-4))

definition tt_ctx :: "nat \<Rightarrow> (nat set \<Rightarrow> bool) \<Rightarrow> nat set set dpa_ctx" where
  "tt_ctx n F = \<lparr>dpa_bdd = tt_ops n, dpa_acc = {S \<in> Pow {..<n}. F S}, components_n = n\<rparr>"

interpretation tt: bdd "tt_ops n" "tt_den n" "tt_supp n" "tt_ok n" n for n
  by (rule tt_bdd)

interpretation ttc: colour_ctx "tt_ops n" "tt_den n" "tt_supp n" "tt_ok n" n "tt_ctx n F" for n F
  by unfold_locales (auto simp: tt_ctx_def tt_ok_def tt_supp_def)

subsection \<open>The parity automaton\<close>

text \<open>
  C21. The tree construction terminates and is correct: with any diagrams that keep their
  promises, \<open>tree\<close> on a colour set returns the Zielonka tree of the acceptance condition below
  it, whose nodes have as children exactly the maximal subsets with the opposite acceptance, in
  increasing lexicographic order.
\<close>

theorem tree_of_correct:
  assumes "colour_ctx B den supp ok vars c"
    and "length s = colour_words c" and "cset s \<subseteq> {..<components_n c}"
  shows "\<exists>t. tree_of c s = Some t \<and> zcolours t = s \<and> zielonka (den (dpa_acc c)) (colour_words c) t"
proof -
  have "colour_ctx.A den c = den (dpa_acc c)" by (rule ext) (rule colour_ctx.A_def [OF assms(1)])
  with colour_ctx.tree_of_spec [OF assms(1), of s] assms(2,3) show ?thesis
    by (simp add: colour_ctx.colour_set_def [OF assms(1)])
qed

theorem tree_of_correct_witness:
  "\<exists>t. tree_of (tt_ctx 2 (\<lambda>S. 0 \<in> S)) [1] = Some t \<and> zcolours t = [1] \<and>
     (\<lambda>t. cset (zcolours t)) ` set (zchildren t) = {{}}"
proof -
  let ?c = "tt_ctx 2 (\<lambda>S. 0 \<in> S)"
  have one: "cset [1] = {0}"
    by (auto simp: cset_def dpa_colour_def bit_1_iff)
  have c: "length [1 :: u64] = colour_words ?c" "cset [1] \<subseteq> {..<components_n ?c}"
    unfolding one by (simp_all add: tt_ctx_def colour_words_def)
  obtain t where t: "tree_of ?c [1] = Some t" "zcolours t = [1]"
    "zielonka (tt_den 2 (dpa_acc ?c)) (colour_words ?c) t"
    using tree_of_correct [OF ttc.colour_ctx_axioms c] by blast
  have "{M. max_opposite (tt_den 2 (dpa_acc ?c)) {0} M} = {{}}"
    by (auto simp: max_opposite_def tt_den_def tt_ctx_def)
  with t one show ?thesis by (cases t) auto
qed

text \<open>
  C5. The parity automaton of an acceptance condition is correct.  For any decision diagrams
  that keep the promises of the interface and any acceptance diagram over fewer than 2 to the 32
  minus 4 colours, building the Zielonka tree terminates, every step along any infinite sequence
  of colour sets is defined and yields a positive priority of at most the odd maximum, and the
  largest priority that recurs is odd exactly when the set of recurring colours is accepted.
\<close>

theorem tree_automaton_correct:
  assumes "colour_ctx B den supp ok vars c" and "components_n c \<le> 2 ^ 32 - 4"
    and "\<And>i. length (cs i) = colour_words c" and "\<And>i. cset (cs i) \<subseteq> {..<components_n c}"
  shows "\<exists>a l prio. dpa_tree_init c = Some (a, l) \<and>
    (\<forall>i. priority_at (max_priority (components_n c)) a l cs i = Some (prio i) \<and> 0 < prio i \<and>
         prio i \<le> max_priority (components_n c)) \<and>
    (\<exists>q. recurs (\<lambda>i. prio i = q) \<and> (\<forall>q'>q. \<not> recurs (\<lambda>i. prio i = q')) \<and>
         odd (unat q) = den (dpa_acc c) {x. recurs (\<lambda>i. x \<in> cset (cs i))})"
  using colour_ctx.run_parity [OF assms(1,2), of cs] assms(3,4)
  by (simp add: colour_ctx.A_def [OF assms(1)] colour_ctx.colour_set_def [OF assms(1)])

theorem tree_automaton_correct_witness:
  "\<exists>a l prio q. dpa_tree_init (tt_ctx 2 (\<lambda>S. 0 \<in> S \<and> 1 \<notin> S)) = Some (a, l) \<and>
     priority_at (max_priority 2) a l (\<lambda>_. [1]) 5 = Some (prio (5 :: nat)) \<and>
     recurs (\<lambda>i. prio i = q) \<and> odd (unat q)"
proof -
  let ?c = "tt_ctx 2 (\<lambda>S. 0 \<in> S \<and> 1 \<notin> S)"
  have one: "cset [1] = {0}"
    by (auto simp: cset_def dpa_colour_def bit_1_iff)
  have c: "components_n ?c \<le> 2 ^ 32 - 4" "length [1 :: u64] = colour_words ?c"
    "cset [1] \<subseteq> {..<components_n ?c}"
    unfolding one by (simp_all add: tt_ctx_def colour_words_def)
  have "{x. recurs (\<lambda>i. x \<in> cset [1])} = {0}" unfolding one recurs_def by auto
  moreover have "tt_den 2 (dpa_acc ?c) {0}" by (simp add: tt_den_def tt_ctx_def)
  moreover have "components_n ?c = 2" by (simp add: tt_ctx_def)
  moreover obtain a l prio q where "dpa_tree_init ?c = Some (a, l)"
    "\<forall>i. priority_at (max_priority (components_n ?c)) a l (\<lambda>_. [1]) i = Some (prio i) \<and> 0 < prio i \<and>
       prio i \<le> max_priority (components_n ?c)"
    "recurs (\<lambda>i. prio i = q)" "odd (unat q) = tt_den 2 (dpa_acc ?c) {x. recurs (\<lambda>i. x \<in> cset [1])}"
    using tree_automaton_correct [OF ttc.colour_ctx_axioms c(1), of "\<lambda>_. [1]", OF c(2,3)]
    by (elim exE conjE) (rule that)
  ultimately show ?thesis by (intro exI [of _ a] exI [of _ l] exI [of _ prio] exI [of _ q]) simp
qed

end
