(* ===== verification/Cover.thy ===== *)
theory Cover
  imports Section_Pattern Spec_Correct Norm_Driver Rewrite_Correct
begin

text \<open>
  The constraint cover, \<^verbatim>\<open>include/tlsf/cover.h\<close> and \<^verbatim>\<open>src/lib/cover.c\<close>: one constraint per section
  formula (or per conjunct), with its role, side, class, normal form and the support sets of its
  atoms.  The candidate annotations of the recognisers are not part of the records here.
\<close>

subsection \<open>Constraints\<close>

record constraint =
  con_id :: nat
  con_role :: role
  assumption_side :: bool
  guarantee_side :: bool
  invariant_wrapped :: bool
  is_safety :: bool
  con_formula :: node
  con_nnf :: node
  match_formula :: node
  route_formula :: "node option"
  in_set :: apset
  out_set :: apset
  pos_outputs :: apset
  neg_outputs :: apset
  cur_outputs :: apset
  next_outputs :: apset

record cover =
  cov_spec :: tlsf_spec
  cov_aps :: ap_table
  cov_items :: "constraint list"
  cov_cap :: nat

record section_desc =
  sec_role :: role
  sec_assumption :: bool
  sec_invariant :: bool
  sec_list :: "node list"

definition constraint_match_formula :: "constraint \<Rightarrow> node" where
  "constraint_match_formula c = match_formula c"

subsection \<open>Support sets\<close>

text \<open>\<open>neg\<close> is the polarity of the occurrence, \<open>nxt\<close> whether it is under a next.\<close>

definition collect_ap :: "ap_table \<Rightarrow> nat \<Rightarrow> bool \<Rightarrow> bool \<Rightarrow> constraint \<Rightarrow> constraint" where
  "collect_ap t idx neg nxt c =
     (let f = flags t ! idx;
          c = (if f AND AP_FLAG_INPUT \<noteq> 0 \<or> f = 0 then c\<lparr>in_set := apset_set (in_set c) idx\<rparr> else c)
      in if f AND AP_FLAG_OUTPUT \<noteq> 0
         then (let c = c\<lparr>out_set := apset_set (out_set c) idx\<rparr>;
                   c = (if neg then c\<lparr>neg_outputs := apset_set (neg_outputs c) idx\<rparr>
                        else c\<lparr>pos_outputs := apset_set (pos_outputs c) idx\<rparr>)
               in if nxt then c\<lparr>next_outputs := apset_set (next_outputs c) idx\<rparr>
                  else c\<lparr>cur_outputs := apset_set (cur_outputs c) idx\<rparr>)
         else c)"

primrec un_under_next :: "un_kind \<Rightarrow> bool" where
  "un_under_next NODE_NOT = False"
| "un_under_next NODE_X = True"
| "un_under_next NODE_X_STRONG = True"
| "un_under_next NODE_F = False"
| "un_under_next NODE_G = False"

fun collect :: "(ap \<Rightarrow> u64) \<Rightarrow> ap_table \<Rightarrow> node \<Rightarrow> bool \<Rightarrow> bool \<Rightarrow> constraint \<Rightarrow> constraint option" where
  "collect addr t (NodeAp p) neg nxt c =
     do { idx \<leftarrow> ap_table_find addr t p;
          Some (case idx of None \<Rightarrow> c | Some i \<Rightarrow> collect_ap t i neg nxt c) }"
| "collect addr t (Unary k a) neg nxt c =
     collect addr t a (if k = NODE_NOT then \<not> neg else neg) (nxt \<or> un_under_next k) c"
| "collect addr t (Binary k a b) neg nxt c =
     do { c' \<leftarrow> collect addr t a neg nxt c; collect addr t b neg nxt c' }"
| "collect addr t _ neg nxt c = Some c"

subsection \<open>Construction\<close>

definition no_words :: apset where
  "no_words = \<lparr>words = [], nbits = 0\<rparr>"

definition empty_sets :: "nat \<Rightarrow> constraint \<Rightarrow> constraint" where
  "empty_sets n c = c\<lparr>in_set := apset_init n, out_set := apset_init n, pos_outputs := apset_init n,
     neg_outputs := apset_init n, cur_outputs := apset_init n, next_outputs := apset_init n\<rparr>"

text \<open>The item array doubles in \<^verbatim>\<open>uint32_t\<close>; a store beyond it is \<^const>\<open>None\<close>.\<close>

definition cover_grow :: "nat \<Rightarrow> nat \<Rightarrow> nat" where
  "cover_grow count c = (if count = c then if c \<noteq> 0 then c * 2 mod 2 ^ 32 else 16 else c)"

definition new_constraint :: "nat \<Rightarrow> section_desc \<Rightarrow> node \<Rightarrow> node \<Rightarrow> formula_class \<Rightarrow> constraint" where
  "new_constraint i d f nnf cl = \<lparr>con_id = i, con_role = sec_role d,
     assumption_side = sec_assumption d, guarantee_side = (\<not> sec_assumption d),
     invariant_wrapped = sec_invariant d, is_safety = (cl = FCLASS_SAFETY),
     con_formula = f, con_nnf = nnf, match_formula = f, route_formula = None,
     in_set = no_words, out_set = no_words, pos_outputs = no_words, neg_outputs = no_words,
     cur_outputs = no_words, next_outputs = no_words\<rparr>"

definition add_constraint :: "(ap \<Rightarrow> u64) \<Rightarrow> section_desc \<Rightarrow> cover \<Rightarrow> node \<Rightarrow> cover option" where
  "add_constraint addr d cov f =
     (let n = length (cov_items cov); c = cover_grow n (cov_cap cov) in
      if n < c
      then do { nnf \<leftarrow> to_nnf f True (semantics_is_finite (spec_semantics (cov_spec cov)));
                cl \<leftarrow> classify_formula nnf;
                t \<leftarrow> conversion_intern_aps addr (cov_aps cov) nnf;
                Some (cov\<lparr>cov_cap := c, cov_aps := t,
                          cov_items := cov_items cov @ [new_constraint n d f nnf cl]\<rparr>) }
      else None)"

fun add_constraints :: "(ap \<Rightarrow> u64) \<Rightarrow> section_desc \<Rightarrow> cover \<Rightarrow> node list \<Rightarrow> cover option" where
  "add_constraints addr d cov [] = Some cov"
| "add_constraints addr d cov (f # fs) =
     do { cov' \<leftarrow> add_constraint addr d cov f; add_constraints addr d cov' fs }"

fun add_section :: "(ap \<Rightarrow> u64) \<Rightarrow> bool \<Rightarrow> cover \<Rightarrow> section_desc list \<Rightarrow> cover option" where
  "add_section addr split cov [] = Some cov"
| "add_section addr split cov (d # ds) =
     do { cov' \<leftarrow> add_constraints addr d cov
            (if split then concat (map rewrite_decompose (sec_list d)) else sec_list d);
          add_section addr split cov' ds }"

definition cover_sections :: "tlsf_spec \<Rightarrow> section_desc list" where
  "cover_sections s =
     [\<lparr>sec_role = TLSF_ROLE_INITIALLY, sec_assumption = True, sec_invariant = False, sec_list = items (initially s)\<rparr>,
      \<lparr>sec_role = TLSF_ROLE_REQUIRE, sec_assumption = True, sec_invariant = True, sec_list = items (require s)\<rparr>,
      \<lparr>sec_role = TLSF_ROLE_ASSUME, sec_assumption = True, sec_invariant = False, sec_list = items (assume_list s)\<rparr>,
      \<lparr>sec_role = TLSF_ROLE_PRESET, sec_assumption = False, sec_invariant = False, sec_list = items (preset s)\<rparr>,
      \<lparr>sec_role = TLSF_ROLE_ASSERT, sec_assumption = False, sec_invariant = True, sec_list = items (assert_list s)\<rparr>,
      \<lparr>sec_role = TLSF_ROLE_GUARANTEE, sec_assumption = False, sec_invariant = False, sec_list = items (guarantee s)\<rparr>]"

text \<open>The second sweep sizes and fills the support sets, the table being final.\<close>

fun fill_supports :: "(ap \<Rightarrow> u64) \<Rightarrow> ap_table \<Rightarrow> constraint list \<Rightarrow> constraint list option" where
  "fill_supports addr t [] = Some []"
| "fill_supports addr t (c # cs) =
     do { c' \<leftarrow> collect addr t (con_nnf c) False False (empty_sets (length (names t)) c);
          cs' \<leftarrow> fill_supports addr t cs;
          Some (c' # cs') }"

definition cover_build :: "(ap \<Rightarrow> u64) \<Rightarrow> tlsf_spec \<Rightarrow> bool \<Rightarrow> cover option" where
  "cover_build addr s split =
     do { t \<leftarrow> conversion_seed_signals addr ap_table_init s;
          cov \<leftarrow> add_section addr split \<lparr>cov_spec = s, cov_aps = t, cov_items = [], cov_cap = 0\<rparr> (cover_sections s);
          cs \<leftarrow> fill_supports addr (cov_aps cov) (cov_items cov);
          Some (cov\<lparr>cov_items := cs\<rparr>) }"

text \<open>Match normalisation only touches the formula the recognisers read.\<close>

fun normalize_items ::
  "norm_options \<Rightarrow> constraint list \<Rightarrow> norm_stats option \<Rightarrow> constraint list \<times> norm_stats option" where
  "normalize_items opts [] sts = ([], sts)"
| "normalize_items opts (c # cs) sts =
     (let (m, sts') = (case tlsf_normalize_formula (con_formula c) opts sts of
                         Some r \<Rightarrow> r | None \<Rightarrow> (con_formula c, sts));
          (cs', sts'') = normalize_items opts cs sts'
      in (c\<lparr>match_formula := m\<rparr> # cs', sts''))"

definition cover_apply_match_normalization ::
  "cover \<Rightarrow> norm_options option \<Rightarrow> norm_stats option \<Rightarrow> cover \<times> norm_stats option" where
  "cover_apply_match_normalization cov opts sts =
     (case opts of None \<Rightarrow> (cov, sts)
      | Some os \<Rightarrow> if schedule os = [] then (cov, sts)
                   else (case normalize_items os (cov_items cov) sts of
                           (cs, sts') \<Rightarrow> (cov\<lparr>cov_items := cs\<rparr>, sts')))"

end
