(* ===== verification/Union_Find.thy ===== *)
theory Union_Find
  imports Prelude
begin

text \<open>
  The disjoint sets of \<^verbatim>\<open>src/lib/residual.c\<close>: an array of parent indices with path halving.  The
  loop of \<^verbatim>\<open>uf_find\<close> has no bound of its own; it is a partial function here, and ends on every
  array whose parent chains all reach a root.
\<close>

subsection \<open>Operations\<close>

partial_function (option) uf_find :: "nat list \<Rightarrow> nat \<Rightarrow> (nat list \<times> nat) option" where
  "uf_find p x =
     (if p ! x \<noteq> x
      then let p' = p[x := p ! (p ! x)] in uf_find p' (p' ! x)
      else Some (p, x))"

text \<open>The three lines that join the sets of two elements; the second root survives.\<close>

definition uf_union :: "nat list \<Rightarrow> nat \<Rightarrow> nat \<Rightarrow> nat list option" where
  "uf_union p a b =
     do { (p1, ra) \<leftarrow> uf_find p a;
          (p2, rb) \<leftarrow> uf_find p1 b;
          Some (if ra \<noteq> rb then p2[ra := rb] else p2) }"

subsection \<open>Chains of parents\<close>

inductive chain :: "nat list \<Rightarrow> nat \<Rightarrow> nat \<Rightarrow> nat \<Rightarrow> bool" for p where
  here: "p ! x = x \<Longrightarrow> chain p x 0 x"
| up: "p ! x \<noteq> x \<Longrightarrow> chain p (p ! x) k r \<Longrightarrow> chain p x (Suc k) r"

inductive_cases chainE: "chain p x k r"
inductive_simps chain_0 [simp]: "chain p x 0 r"
inductive_simps chain_Suc [simp]: "chain p x (Suc k) r"

lemma chain_root: "chain p x k r \<Longrightarrow> p ! r = r"
  by (induction rule: chain.induct) simp_all

lemma chain_unique: "chain p x k r \<Longrightarrow> chain p x k' r' \<Longrightarrow> r' = r \<and> k' = k"
proof (induction arbitrary: k' r' rule: chain.induct)
  case (here x)
  from here.prems here.hyps show ?case by (auto elim: chainE)
next
  case (up x k r)
  from up.prems up.hyps(1) obtain k1 where "k' = Suc k1" "chain p (p ! x) k1 r'"
    by (auto elim: chainE)
  with up.IH show ?case by simp
qed

definition uf_ok :: "nat list \<Rightarrow> bool" where
  "uf_ok p \<longleftrightarrow> (\<forall>x<length p. p ! x < length p \<and> (\<exists>k r. chain p x k r))"

definition root_of :: "nat list \<Rightarrow> nat \<Rightarrow> nat \<Rightarrow> bool" where
  "root_of p x r \<longleftrightarrow> (\<exists>k. chain p x k r)"

lemma root_of_unique: "root_of p x r \<Longrightarrow> root_of p x r' \<Longrightarrow> r' = r"
  using chain_unique unfolding root_of_def by blast

lemma root_of_fix: "root_of p x r \<Longrightarrow> p ! r = r"
  using chain_root unfolding root_of_def by blast

lemma root_of_self: "p ! x = x \<Longrightarrow> root_of p x x"
  unfolding root_of_def by (rule exI [of _ 0]) simp

lemma root_of_ex: "uf_ok p \<Longrightarrow> x < length p \<Longrightarrow> \<exists>r. root_of p x r"
  unfolding uf_ok_def root_of_def by blast

lemma chain_less: "chain p x k r \<Longrightarrow> uf_ok p \<Longrightarrow> x < length p \<Longrightarrow> r < length p"
  by (induction rule: chain.induct) (auto simp: uf_ok_def)

lemma root_of_less: "root_of p x r \<Longrightarrow> uf_ok p \<Longrightarrow> x < length p \<Longrightarrow> r < length p"
  unfolding root_of_def using chain_less by blast

text \<open>Two arrays describe the same sets with the same representatives.\<close>

definition same_roots :: "nat list \<Rightarrow> nat list \<Rightarrow> bool" where
  "same_roots p p' \<longleftrightarrow> length p' = length p \<and> (\<forall>x<length p. \<forall>r. root_of p' x r \<longleftrightarrow> root_of p x r)"

lemma same_roots_refl [simp]: "same_roots p p"
  by (simp add: same_roots_def)

lemma same_roots_trans: "same_roots p q \<Longrightarrow> same_roots q r \<Longrightarrow> same_roots p r"
  by (simp add: same_roots_def)

subsection \<open>Path halving\<close>

lemma chain_halve:
  assumes y: "y < length p" "p ! y \<noteq> y"
  shows "chain p x k r \<Longrightarrow> \<exists>m\<le>k. chain (p[y := p ! (p ! y)]) x m r"
proof (induction rule: chain.induct)
  case (here x)
  with y have "p[y := p ! (p ! y)] ! x = x" by (cases "x = y") auto
  then show ?case by auto
next
  case (up x k r)
  let ?p = "p[y := p ! (p ! y)]"
  from up.IH obtain m where m: "m \<le> k" "chain ?p (p ! x) m r" by blast
  show ?case
  proof (cases "x = y")
    case False
    then have "chain ?p x (Suc m) r" using up.hyps(1) m(2) by simp
    then show ?thesis using m(1) by (meson Suc_le_mono)
  next
    case xy: True
    have px: "?p ! x = p ! (p ! x)" using xy y(1) by simp
    have pp: "?p ! (p ! x) = p ! (p ! x)" using xy y(2) by simp
    show ?thesis
    proof (cases "p ! (p ! x) = p ! x")
      case True
      with pp m(2) have "m = 0" "r = p ! x" by (auto elim: chainE)
      then have "chain ?p x (Suc 0) r" using px pp True up.hyps(1) by simp
      then show ?thesis by auto
    next
      case False
      with pp m(2) obtain m1 where m1: "m = Suc m1" "chain ?p (p ! (p ! x)) m1 r"
        by (auto elim: chainE)
      show ?thesis
      proof (cases "p ! (p ! x) = x")
        case True
        with px have "?p ! x = x" by simp
        with m1(2) True have "m1 = 0 \<and> r = x" by (auto elim: chainE)
        with px True show ?thesis by (intro exI [of _ 0]) simp
      next
        case False
        then have "chain ?p x (Suc m1) r" using px m1(2) by simp
        then show ?thesis using m1(1) m(1) by (intro exI [of _ "Suc m1"]) simp
      qed
    qed
  qed
qed

lemma halve_ok:
  assumes ok: "uf_ok p" and y: "y < length p" "p ! y \<noteq> y"
  shows "uf_ok (p[y := p ! (p ! y)]) \<and> same_roots p (p[y := p ! (p ! y)])"
proof -
  let ?p = "p[y := p ! (p ! y)]"
  have fwd: "root_of ?p x r" if "root_of p x r" for x r
    using chain_halve [OF y] that unfolding root_of_def by blast
  have bwd: "root_of p x r" if "root_of ?p x r" "x < length p" for x r
    using root_of_ex [OF ok that(2)] fwd root_of_unique that(1) by metis
  have "uf_ok ?p" unfolding uf_ok_def
  proof (intro allI impI conjI)
    fix x assume x: "x < length ?p"
    then show "?p ! x < length ?p" using ok y(1) by (cases "x = y") (auto simp: uf_ok_def)
    from x root_of_ex [OF ok, of x] obtain r where "root_of p x r" by auto
    from fwd [OF this] show "\<exists>k r. chain ?p x k r" unfolding root_of_def by blast
  qed
  then show ?thesis using fwd bwd by (auto simp: same_roots_def)
qed

text \<open>\<^verbatim>\<open>uf_find\<close> returns the root and changes no set.\<close>

lemma uf_find_chain:
  "chain p x k r \<Longrightarrow> uf_ok p \<Longrightarrow> x < length p \<Longrightarrow>
   \<exists>p'. uf_find p x = Some (p', r) \<and> uf_ok p' \<and> same_roots p p'"
proof (induction k arbitrary: p x rule: less_induct)
  case (less k)
  show ?case
  proof (cases "p ! x = x")
    case True
    with less.prems(1) have "r = x" by (auto elim: chainE)
    then show ?thesis using True less.prems by (subst uf_find.simps) simp
  next
    case False
    let ?p = "p[x := p ! (p ! x)]"
    have ok: "uf_ok ?p" "same_roots p ?p"
      using halve_ok [OF less.prems(2,3) False] by simp_all
    from less.prems(1) False obtain k1 where k: "k = Suc k1" "chain p (p ! x) k1 r"
      by (auto elim: chainE)
    have "\<exists>m<k. chain ?p (p ! (p ! x)) m r"
    proof (cases k1)
      case 0
      with k have "p ! (p ! x) = p ! x" "r = p ! x" by auto
      with chain_halve [OF less.prems(3) False k(2)] 0 k(1) show ?thesis by auto
    next
      case (Suc k2)
      with k(2) have "chain p (p ! (p ! x)) k2 r" by simp
      from chain_halve [OF less.prems(3) False this] obtain m
        where "m \<le> k2" "chain ?p (p ! (p ! x)) m r" by blast
      with Suc k(1) show ?thesis by (intro exI [of _ m]) simp
    qed
    then obtain m where m: "m < k" "chain ?p (p ! (p ! x)) m r" by blast
    have "p ! (p ! x) < length ?p" using less.prems(2,3) by (simp add: uf_ok_def)
    from less.IH [OF m ok(1) this] obtain p' where
      "uf_find ?p (p ! (p ! x)) = Some (p', r)" "uf_ok p'" "same_roots ?p p'" by blast
    then show ?thesis using ok(2) False less.prems(3)
      by (subst uf_find.simps) (auto simp: Let_def intro: same_roots_trans)
  qed
qed

lemma uf_find_ok:
  assumes "uf_ok p" and "x < length p"
  shows "\<exists>p' r. uf_find p x = Some (p', r) \<and> root_of p x r \<and> r < length p \<and> uf_ok p' \<and> same_roots p p'"
proof -
  from root_of_ex [OF assms] obtain k r where c: "chain p x k r" unfolding root_of_def by blast
  with uf_find_chain [OF c assms] chain_less [OF c assms] show ?thesis
    unfolding root_of_def by blast
qed

subsection \<open>Joining two sets\<close>

lemma chain_join:
  assumes roots: "p ! ra = ra" "p ! rb = rb" "ra \<noteq> rb" and len: "ra < length p"
  shows "chain p x k r \<Longrightarrow> root_of (p[ra := rb]) x (if r = ra then rb else r)"
proof (induction rule: chain.induct)
  case (here x)
  have "chain (p[ra := rb]) ra (Suc 0) rb" by (rule chain.up) (use roots len in simp_all)
  then have "root_of (p[ra := rb]) ra rb" unfolding root_of_def by blast
  then show ?case using here by (cases "x = ra") (simp_all add: root_of_self)
next
  case (up x k r)
  from up.hyps(1) roots(1) have x: "x \<noteq> ra" by auto
  with up.IH up.hyps(1) show ?case unfolding root_of_def
    by (auto simp del: chain_Suc intro!: exI chain.up)
qed

lemma uf_union_ok:
  assumes ok: "uf_ok p" and ab: "a < length p" "b < length p"
  shows "\<exists>p' ra rb. uf_union p a b = Some p' \<and> uf_ok p' \<and> length p' = length p \<and>
    root_of p a ra \<and> root_of p b rb \<and>
    (\<forall>x<length p. \<forall>r. root_of p x r \<longrightarrow> root_of p' x (if r = ra then rb else r))"
proof -
  from uf_find_ok [OF ok ab(1)] obtain p1 ra where 1: "uf_find p a = Some (p1, ra)"
    "root_of p a ra" "ra < length p" "uf_ok p1" "same_roots p p1" by blast
  have l1: "length p1 = length p" using 1(5) by (simp add: same_roots_def)
  from uf_find_ok [OF 1(4), of b] ab l1 obtain p2 rb where 2: "uf_find p1 b = Some (p2, rb)"
    "root_of p1 b rb" "rb < length p1" "uf_ok p2" "same_roots p1 p2" by auto
  have s: "same_roots p p2" using 1(5) 2(5) by (rule same_roots_trans)
  have l2: "length p2 = length p" using s by (simp add: same_roots_def)
  have rb: "root_of p b rb" using 2(2) 1(5) ab by (simp add: same_roots_def)
  let ?p = "if ra \<noteq> rb then p2[ra := rb] else p2"
  have rts: "p2 ! ra = ra" "p2 ! rb = rb"
    using s 1(2) rb ab root_of_fix unfolding same_roots_def by blast+
  have moved: "root_of ?p x (if r = ra then rb else r)" if "x < length p" "root_of p x r" for x r
  proof -
    from that s have "root_of p2 x r" by (simp add: same_roots_def)
    then obtain k where c: "chain p2 x k r" unfolding root_of_def by blast
    show ?thesis
    proof (cases "ra = rb")
      case True
      with \<open>root_of p2 x r\<close> show ?thesis by simp
    next
      case False
      from chain_join [OF rts False _ c] 1(3) l2 False show ?thesis by simp
    qed
  qed
  have "uf_ok ?p" unfolding uf_ok_def
  proof (intro allI impI conjI)
    fix x assume "x < length ?p"
    then have x: "x < length p" using l2 by (simp split: if_splits)
    from root_of_ex [OF ok x] moved [OF x] show "\<exists>k r. chain ?p x k r"
      unfolding root_of_def by blast
    show "?p ! x < length ?p" using 2(3,4) l1 l2 x 
      by (cases "x = ra") (auto simp: uf_ok_def)
  qed
  then show ?thesis using 1(1,2) 2(1) rb moved l2
    by (intro exI [of _ ?p] exI [of _ ra] exI [of _ rb]) (simp add: uf_union_def)
qed

subsection \<open>Disjoint sets as an interface\<close>

text \<open>
  What a client relies on: joining two elements closes the relation of being together under the
  new pair.  The relation after a list of joins is the equivalence the pairs generate.
\<close>

locale disjoint_sets =
  fixes inv :: "'t \<Rightarrow> bool"
    and card :: "'t \<Rightarrow> nat"
    and together :: "'t \<Rightarrow> (nat \<times> nat) set"
    and join :: "'t \<Rightarrow> nat \<Rightarrow> nat \<Rightarrow> 't option"
  assumes join_ok: "inv t \<Longrightarrow> a < card t \<Longrightarrow> b < card t \<Longrightarrow>
      \<exists>t'. join t a b = Some t' \<and> inv t' \<and> card t' = card t \<and>
        (together t')\<^sup>* = (together t \<union> {(a, b), (b, a)})\<^sup>*"
begin

primrec join_pairs :: "(nat \<times> nat) list \<Rightarrow> 't \<Rightarrow> 't option" where
  "join_pairs [] t = Some t"
| "join_pairs (e # es) t = do { t' \<leftarrow> join t (fst e) (snd e); join_pairs es t' }"

lemma join_pairs_ok:
  "inv t \<Longrightarrow> set es \<subseteq> {..<card t} \<times> {..<card t} \<Longrightarrow>
   \<exists>t'. join_pairs es t = Some t' \<and> inv t' \<and> card t' = card t \<and>
     (together t')\<^sup>* = (together t \<union> set es \<union> (set es)\<inverse>)\<^sup>*"
proof (induction es arbitrary: t)
  case (Cons e es)
  obtain a b where e: "e = (a, b)" by (cases e)
  from Cons.prems e have ab: "a < card t" "b < card t" by auto
  from join_ok [OF Cons.prems(1) ab] obtain t1 where t1: "join t a b = Some t1" "inv t1"
    "card t1 = card t" "(together t1)\<^sup>* = (together t \<union> {(a, b), (b, a)})\<^sup>*" by blast
  have "set es \<subseteq> {..<card t1} \<times> {..<card t1}" using Cons.prems(2) t1(3) by simp
  from Cons.IH [OF t1(2) this] obtain t2 where t2: "join_pairs es t1 = Some t2" "inv t2"
    "card t2 = card t1" "(together t2)\<^sup>* = (together t1 \<union> set es \<union> (set es)\<inverse>)\<^sup>*" by blast
  have "(together t1 \<union> set es \<union> (set es)\<inverse>)\<^sup>* = ((together t1)\<^sup>* \<union> (set es \<union> (set es)\<inverse>)\<^sup>*)\<^sup>*"
    by (simp only: rtrancl_Un_rtrancl Un_assoc)
  also have "\<dots> = (together t \<union> {(a, b), (b, a)} \<union> (set es \<union> (set es)\<inverse>))\<^sup>*"
    unfolding t1(4) by (rule rtrancl_Un_rtrancl)
  also have "together t \<union> {(a, b), (b, a)} \<union> (set es \<union> (set es)\<inverse>) =
      together t \<union> set (e # es) \<union> (set (e # es))\<inverse>"
    using e by auto
  finally show ?case using t1 t2 e by simp
qed simp

lemma join_pairs_append:
  "join_pairs (xs @ ys) t = do { t' \<leftarrow> join_pairs xs t; join_pairs ys t' }"
proof (induction xs arbitrary: t)
  case (Cons x xs)
  then show ?case by (cases "join t (fst x) (snd x)") auto
qed simp

end

definition uf_rel :: "nat list \<Rightarrow> (nat \<times> nat) set" where
  "uf_rel p = {(x, y). x < length p \<and> y < length p \<and> (\<exists>r. root_of p x r \<and> root_of p y r)}"

lemma uf_rel_iff:
  "root_of p x r \<Longrightarrow> root_of p y s \<Longrightarrow> x < length p \<Longrightarrow> y < length p \<Longrightarrow> (x, y) \<in> uf_rel p \<longleftrightarrow> r = s"
  unfolding uf_rel_def by (auto dest: root_of_unique)

lemma uf_rel_rtrancl: "(x, y) \<in> (uf_rel p)\<^sup>* \<Longrightarrow> x = y \<or> (x, y) \<in> uf_rel p"
proof (induction rule: rtrancl_induct)
  case (step y z)
  then show ?case unfolding uf_rel_def using root_of_unique by blast
qed simp

interpretation uf: disjoint_sets uf_ok length uf_rel uf_union
proof
  fix p a b assume ok: "uf_ok p" and ab: "a < length p" "b < length p"
  from uf_union_ok [OF ok ab] obtain p' ra rb where u: "uf_union p a b = Some p'" "uf_ok p'"
    "length p' = length p" "root_of p a ra" "root_of p b rb"
    "\<And>x r. x < length p \<Longrightarrow> root_of p x r \<Longrightarrow> root_of p' x (if r = ra then rb else r)" by blast
  let ?R = "uf_rel p \<union> {(a, b), (b, a)}"
  have ra: "root_of p' x rb" if "x < length p" "root_of p x ra" for x using u(6) [OF that] by simp
  have "(x, y) \<in> ?R\<^sup>*" if xy: "(x, y) \<in> uf_rel p'" for x y
  proof -
    from xy u(3) have l: "x < length p" "y < length p" by (simp_all add: uf_rel_def)
    from root_of_ex [OF ok l(1)] root_of_ex [OF ok l(2)]
    obtain r s where rs: "root_of p x r" "root_of p y s" by blast
    from xy u(6) [OF l(1) rs(1)] u(6) [OF l(2) rs(2)] have
      eq: "(if r = ra then rb else r) = (if s = ra then rb else s)"
      unfolding uf_rel_def using root_of_unique by blast
    have step: "(x, z) \<in> ?R" if "root_of p x q" "root_of p z q" "x < length p" "z < length p" for x z q
      using that unfolding uf_rel_def by blast
    show ?thesis
    proof (cases "r = s")
      case True
      with step [OF rs(1) _ l(1) l(2)] rs(2) show ?thesis by blast
    next
      case False
      with eq consider "r = ra" "s = rb" | "r = rb" "s = ra" by (auto split: if_splits)
      then show ?thesis
      proof cases
        case 1
        with step rs u(4,5) l ab have "(x, a) \<in> ?R" "(b, y) \<in> ?R" by blast+
        then show ?thesis by (meson UnI2 insertI1 r_into_rtrancl rtrancl_trans)
      next
        case 2
        with step rs u(4,5) l ab have "(x, b) \<in> ?R" "(a, y) \<in> ?R" by blast+
        then show ?thesis by (meson UnI2 insertI1 insertI2 r_into_rtrancl rtrancl_trans)
      qed
    qed
  qed
  moreover have "(x, y) \<in> uf_rel p'" if "(x, y) \<in> ?R" for x y
    using that
  proof
    assume "(x, y) \<in> uf_rel p"
    then show ?thesis using u(3,6) unfolding uf_rel_def by fastforce
  next
    have "root_of p' b rb" using u(6) [OF ab(2) u(5)] by (simp split: if_splits)
    moreover assume "(x, y) \<in> {(a, b), (b, a)}"
    ultimately show ?thesis using ra [OF ab(1) u(4)] ab u(3) unfolding uf_rel_def by auto
  qed
  ultimately have "uf_rel p' \<subseteq> ?R\<^sup>*" "?R \<subseteq> (uf_rel p')\<^sup>*" by auto
  then have "(uf_rel p')\<^sup>* = ?R\<^sup>*" by (simp add: rtrancl_subset_rtrancl subset_antisym)
  then show "\<exists>t'. uf_union p a b = Some t' \<and> uf_ok t' \<and> length t' = length p \<and>
      (uf_rel t')\<^sup>* = ?R\<^sup>*"
    using u by blast
qed

text \<open>The initial array: everyone alone.\<close>

lemma uf_init: "uf_ok [0..<n]" "(uf_rel [0..<n])\<^sup>* = Id"
proof -
  have c: "root_of [0..<n] x r \<longleftrightarrow> r = x" if "x < n" for x r
    using that root_of_self [of "[0..<n]" x] root_of_unique by auto
  then show "uf_ok [0..<n]" unfolding uf_ok_def root_of_def by (metis nth_upt add_0 length_upt minus_nat.diff_0)
  have "uf_rel [0..<n] \<subseteq> Id" using c unfolding uf_rel_def by auto
  then have "(uf_rel [0..<n])\<^sup>* \<subseteq> Id\<^sup>*" by (rule rtrancl_mono)
  then show "(uf_rel [0..<n])\<^sup>* = Id" by auto
qed

end
