(* ===== verification/Residual.thy ===== *)
theory Residual
  imports Cover Env_Witness Union_Find
begin

text \<open>
  The residual clusters, \<^verbatim>\<open>src/lib/residual.c\<close>: elimination of solved outputs by substitution,
  the partition of the constraints by shared outputs, the choice of the environment entries a
  cluster has to keep, and the assembly of a cluster.

  The formulas \<open>rf\<close> of the residual run parallel to the constraints of the cover (a null pointer
  is \<^const>\<open>None\<close>).  Arrays of booleans over the atoms are lists.
\<close>

subsection \<open>Substitution\<close>

text \<open>\<^verbatim>\<open>node_subst\<close> of \<^verbatim>\<open>src/lib/templates.c\<close>.\<close>

fun node_subst :: "node \<Rightarrow> ap \<Rightarrow> node \<Rightarrow> node" where
  "node_subst (NodeAp p) name v = (if p = name then v else NodeAp p)"
| "node_subst (Unary k a) name v = Unary k (node_subst a name v)"
| "node_subst (Binary k a b) name v = Binary k (node_subst a name v) (node_subst b name v)"
| "node_subst n name v = n"

record elimination =
  elim_output :: nat
  elim_value :: node

definition elim_pass :: "ap_table \<Rightarrow> elimination list \<Rightarrow> node \<Rightarrow> node" where
  "elim_pass t es n = foldl (\<lambda>n e. node_subst n (names t ! elim_output e) (elim_value e)) n es"

definition residual_apply_elims :: "ap_table \<Rightarrow> elimination list \<Rightarrow> node \<Rightarrow> node" where
  "residual_apply_elims t es n = (elim_pass t es ^^ Suc (length es)) n"

subsection \<open>Atoms of a formula\<close>

fun residual_collect_aps :: "(ap \<Rightarrow> u64) \<Rightarrow> ap_table \<Rightarrow> node \<Rightarrow> bool list \<Rightarrow> bool list option" where
  "residual_collect_aps addr t (NodeAp p) seen =
     do { idx \<leftarrow> ap_table_find addr t p;
          Some (case idx of None \<Rightarrow> seen | Some i \<Rightarrow> seen[i := True]) }"
| "residual_collect_aps addr t (Unary k a) seen = residual_collect_aps addr t a seen"
| "residual_collect_aps addr t (Binary k a b) seen =
     do { seen' \<leftarrow> residual_collect_aps addr t a seen; residual_collect_aps addr t b seen' }"
| "residual_collect_aps addr t _ seen = Some seen"

definition residual_signal_matches :: "ap_table \<Rightarrow> nat \<Rightarrow> u8 \<Rightarrow> bool" where
  "residual_signal_matches t idx flag =
     (let f = flags t ! idx in
      if f AND flag \<noteq> 0 then True else flag = AP_FLAG_INPUT \<and> f = 0)"

fun residual_aps_hit :: "(ap \<Rightarrow> u64) \<Rightarrow> ap_table \<Rightarrow> bool list \<Rightarrow> node \<Rightarrow> bool option" where
  "residual_aps_hit addr t st (NodeAp p) =
     do { idx \<leftarrow> ap_table_find addr t p;
          Some (case idx of None \<Rightarrow> False | Some i \<Rightarrow> st ! i) }"
| "residual_aps_hit addr t st (Unary k a) = residual_aps_hit addr t st a"
| "residual_aps_hit addr t st (Binary k a b) =
     do { l \<leftarrow> residual_aps_hit addr t st a;
          if l then Some True else residual_aps_hit addr t st b }"
| "residual_aps_hit addr t st _ = Some False"

abbreviation ap_count :: "cover \<Rightarrow> nat" where
  "ap_count cov \<equiv> length (names (cov_aps cov))"

abbreviation no_aps :: "cover \<Rightarrow> bool list" where
  "no_aps cov \<equiv> replicate (ap_count cov) False"

definition is_output :: "cover \<Rightarrow> nat \<Rightarrow> bool" where
  "is_output cov a \<longleftrightarrow> flags (cov_aps cov) ! a AND AP_FLAG_OUTPUT \<noteq> 0"

subsection \<open>Cluster keys\<close>

definition NO_KEY :: nat where "NO_KEY = 2 ^ 32 - 1"

text \<open>Both union loops join each selected index to the first one.\<close>

fun union_selected :: "(nat \<Rightarrow> bool) \<Rightarrow> nat list \<Rightarrow> nat option \<Rightarrow> nat list \<Rightarrow> (nat option \<times> nat list) option" where
  "union_selected sel [] first par = Some (first, par)"
| "union_selected sel (a # as) first par =
     (if \<not> sel a then union_selected sel as first par
      else case first of
        None \<Rightarrow> union_selected sel as (Some a) par
      | Some b \<Rightarrow> do { par' \<leftarrow> uf_union par a b; union_selected sel as first par' })"

text \<open>The flag is \<^verbatim>\<open>output_dependent_assumption\<close>.\<close>

fun union_constraints :: "(ap \<Rightarrow> u64) \<Rightarrow> cover \<Rightarrow> (constraint \<times> node option) list \<Rightarrow> bool \<Rightarrow> nat list \<Rightarrow>
  (bool \<times> nat list) option" where
  "union_constraints addr cov [] dep par = Some (dep, par)"
| "union_constraints addr cov ((c, None) # cs) dep par = union_constraints addr cov cs dep par"
| "union_constraints addr cov ((c, Some f) # cs) dep par =
     do { seen \<leftarrow> residual_collect_aps addr (cov_aps cov) f (no_aps cov);
          (first, par') \<leftarrow> union_selected (\<lambda>a. seen ! a \<and> is_output cov a) [0..<ap_count cov] None par;
          union_constraints addr cov cs (dep \<or> (first \<noteq> None \<and> assumption_side c)) par' }"

fun constraint_keys :: "(ap \<Rightarrow> u64) \<Rightarrow> cover \<Rightarrow> nat option \<Rightarrow> (constraint \<times> node option) list \<Rightarrow> nat list \<Rightarrow>
  nat list option" where
  "constraint_keys addr cov collapse [] par = Some []"
| "constraint_keys addr cov collapse ((c, r) # cs) par =
     (case r of
        None \<Rightarrow> map_option ((#) NO_KEY) (constraint_keys addr cov collapse cs par)
      | Some f \<Rightarrow>
          if assumption_side c then map_option ((#) NO_KEY) (constraint_keys addr cov collapse cs par)
          else do { seen \<leftarrow> residual_collect_aps addr (cov_aps cov) f (no_aps cov);
                    (k, par') \<leftarrow>
                      (case find (\<lambda>a. seen ! a \<and> is_output cov a) [0..<ap_count cov] of
                         Some first \<Rightarrow> do { (par', k) \<leftarrow> uf_find par first; Some (k, par') }
                       | None \<Rightarrow> (case collapse of
                           Some c0 \<Rightarrow> do { (par', k) \<leftarrow> uf_find par c0; Some (k, par') }
                         | None \<Rightarrow> Some (ap_count cov, par)));
                    map_option ((#) k) (constraint_keys addr cov collapse cs par') })"

definition distinct_keys :: "nat list \<Rightarrow> nat list" where
  "distinct_keys ks =
     foldl (\<lambda>acc k. if k = NO_KEY \<or> k \<in> set acc then acc else acc @ [k]) [] ks"

definition residual_cluster_keys ::
  "(ap \<Rightarrow> u64) \<Rightarrow> cover \<Rightarrow> node option list \<Rightarrow> (nat list \<times> nat list) option" where
  "residual_cluster_keys addr cov rf =
     do { let cs = zip (cov_items cov) rf;
          (dep, par) \<leftarrow> union_constraints addr cov cs False [0..<ap_count cov];
          (collapse, par) \<leftarrow>
            (if dep \<or> semantics_is_finite (spec_semantics (cov_spec cov))
             then union_selected (is_output cov) [0..<ap_count cov] None par
             else Some (None, par));
          ks \<leftarrow> constraint_keys addr cov collapse cs par;
          Some (ks, distinct_keys ks) }"

subsection \<open>The environment of a cluster\<close>

definition ENV_WITNESS_WORK_BUDGET :: nat where "ENV_WITNESS_WORK_BUDGET = 200000"

text \<open>All set atoms satisfy a test (the loops over \<^verbatim>\<open>atoms[a]\<close>).\<close>

definition atoms_all :: "cover \<Rightarrow> (nat \<Rightarrow> bool) \<Rightarrow> bool list \<Rightarrow> bool" where
  "atoms_all cov ok st = list_all (\<lambda>a. st ! a \<longrightarrow> ok a) [0..<ap_count cov]"

text \<open>
  The entries, as tuples of constraint, residual formula, key and the current \<^verbatim>\<open>include\<close> flag.
  The core: everything of the cluster itself, and every environment entry with an output.
\<close>

record mask_entry =
  me_con :: constraint
  me_rf :: "node option"
  me_key :: nat
  included :: bool

fun mask_core :: "(ap \<Rightarrow> u64) \<Rightarrow> cover \<Rightarrow> nat \<Rightarrow> mask_entry list \<Rightarrow> bool list \<Rightarrow>
  (mask_entry list \<times> bool list) option" where
  "mask_core addr cov kk [] kept = Some ([], kept)"
| "mask_core addr cov kk (e # es) kept =
     (let e = e\<lparr>included := False\<rparr> in
      case me_rf e of
        None \<Rightarrow> map_option (apfst ((#) e)) (mask_core addr cov kk es kept)
      | Some f \<Rightarrow>
          if me_key e \<noteq> kk \<and> me_key e \<noteq> NO_KEY
          then map_option (apfst ((#) e)) (mask_core addr cov kk es kept)
          else do { st \<leftarrow> residual_collect_aps addr (cov_aps cov) f (no_aps cov);
                    if me_key e = kk \<or> \<not> assumption_side (me_con e) \<or>
                       \<not> atoms_all cov (\<lambda>a. residual_signal_matches (cov_aps cov) a AP_FLAG_INPUT) st
                    then do { kept' \<leftarrow> residual_collect_aps addr (cov_aps cov) f kept;
                              map_option (apfst ((#) (e\<lparr>included := True\<rparr>))) (mask_core addr cov kk es kept') }
                    else map_option (apfst ((#) e)) (mask_core addr cov kk es kept) })"

text \<open>One sweep of the closure, and the loop until no sweep changes anything.\<close>

fun mask_sweep :: "(ap \<Rightarrow> u64) \<Rightarrow> cover \<Rightarrow> mask_entry list \<Rightarrow> bool list \<Rightarrow> bool \<Rightarrow>
  (mask_entry list \<times> bool list \<times> bool) option" where
  "mask_sweep addr cov [] kept changed = Some ([], kept, changed)"
| "mask_sweep addr cov (e # es) kept changed =
     (let skip = map_option (apfst ((#) e)) (mask_sweep addr cov es kept changed) in
      case me_rf e of
        None \<Rightarrow> skip
      | Some f \<Rightarrow>
          if included e \<or> me_key e \<noteq> NO_KEY then skip
          else do { hit \<leftarrow> residual_aps_hit addr (cov_aps cov) kept f;
                    if \<not> hit then skip
                    else do { kept' \<leftarrow> residual_collect_aps addr (cov_aps cov) f kept;
                              map_option (apfst ((#) (e\<lparr>included := True\<rparr>)))
                                (mask_sweep addr cov es kept' True) } })"

partial_function (option) mask_close ::
  "(ap \<Rightarrow> u64) \<Rightarrow> cover \<Rightarrow> mask_entry list \<Rightarrow> bool list \<Rightarrow> (mask_entry list \<times> bool list) option" where
  "mask_close addr cov es kept =
     do { (es', kept', changed) \<leftarrow> mask_sweep addr cov es kept False;
          if changed then mask_close addr cov es' kept' else Some (es', kept') }"

text \<open>
  The entries left out, collected for the satisfiability check: \<^const>\<open>None\<close> is a failed
  assertion, an inner \<^const>\<open>None\<close> the exit with failure.
\<close>

fun mask_dropped :: "(ap \<Rightarrow> u64) \<Rightarrow> cover \<Rightarrow> mask_entry list \<Rightarrow> bool list \<Rightarrow> section_view \<Rightarrow>
  section_view option option" where
  "mask_dropped addr cov [] kept d = Some (Some d)"
| "mask_dropped addr cov (e # es) kept d =
     (case me_rf e of
        None \<Rightarrow> mask_dropped addr cov es kept d
      | Some f \<Rightarrow>
          if included e \<or> me_key e \<noteq> NO_KEY then mask_dropped addr cov es kept d
          else let r = con_role (me_con e);
                   environment = (r = TLSF_ROLE_INITIALLY \<or> r = TLSF_ROLE_REQUIRE \<or> r = TLSF_ROLE_ASSUME)
               in if \<not> (environment \<and> assumption_side (me_con e)) then None
                  else do { st \<leftarrow> residual_collect_aps addr (cov_aps cov) f (no_aps cov);
                            if \<not> atoms_all cov (\<lambda>a. residual_signal_matches (cov_aps cov) a AP_FLAG_INPUT \<and>
                                                     \<not> kept ! a) st
                            then None
                            else (case section_pattern_add d r f FCLASS_SAFETY of
                                    None \<Rightarrow> Some None
                                  | Some d' \<Rightarrow> mask_dropped addr cov es kept d') })"

definition mask_entries :: "cover \<Rightarrow> node option list \<Rightarrow> nat list \<Rightarrow> mask_entry list" where
  "mask_entries cov rf key =
     map (\<lambda>(c, r, k). \<lparr>me_con = c, me_rf = r, me_key = k, included = False\<rparr>)
       (zip (cov_items cov) (zip rf key))"

definition cluster_assumption_mask ::
  "(ap \<Rightarrow> u64) \<Rightarrow> tlsf_spec \<Rightarrow> cover \<Rightarrow> node option list \<Rightarrow> nat list \<Rightarrow> nat \<Rightarrow> (bool \<times> mask_entry list) option" where
  "cluster_assumption_mask addr s cov rf key kk =
     do { (es, kept) \<leftarrow> mask_core addr cov kk (mask_entries cov rf key) (no_aps cov);
          (es, kept) \<leftarrow> mask_close addr cov es kept;
          dropped \<leftarrow> mask_dropped addr cov es kept (section_pattern_init (spec_semantics s));
          Some (case dropped of
                  None \<Rightarrow> False
                | Some d \<Rightarrow> entries d = [] \<or>
                    env_witness_search d ENV_WITNESS_WORK_BUDGET = ENV_WITNESS_SATISFIABLE, es) }"

subsection \<open>The cluster\<close>

text \<open>The choice of the entries: \<open>every\<close> is the parameter \<^verbatim>\<open>all\<close>.\<close>

definition cluster_selected :: "bool \<Rightarrow> bool \<Rightarrow> bool \<Rightarrow> nat \<Rightarrow> mask_entry \<Rightarrow> bool" where
  "cluster_selected every masked prune kk e =
     (if every then True
      else if masked then included e
      else if \<not> prune then me_key e = kk \<or> assumption_side (me_con e)
      else me_key e = kk \<or> me_key e = NO_KEY)"

fun fill_cluster :: "(ap \<Rightarrow> u64) \<Rightarrow> cover \<Rightarrow> (mask_entry \<Rightarrow> bool) \<Rightarrow> mask_entry list \<Rightarrow> bool list \<Rightarrow> section_view \<Rightarrow>
  (bool list \<times> section_view) option" where
  "fill_cluster addr cov sel [] seen v = Some (seen, v)"
| "fill_cluster addr cov sel (e # es) seen v =
     (case me_rf e of
        None \<Rightarrow> fill_cluster addr cov sel es seen v
      | Some f \<Rightarrow>
          if \<not> sel e then fill_cluster addr cov sel es seen v
          else do { seen' \<leftarrow> residual_collect_aps addr (cov_aps cov) f seen;
                    v' \<leftarrow> section_pattern_add_classified v (con_role (me_con e)) f;
                    fill_cluster addr cov sel es seen' v' })"

definition residual_build_cluster_view ::
  "(ap \<Rightarrow> u64) \<Rightarrow> tlsf_spec \<Rightarrow> cover \<Rightarrow> node option list \<Rightarrow> nat list \<Rightarrow> nat \<Rightarrow> bool \<Rightarrow> bool \<Rightarrow>
   (bool list \<times> section_view) option" where
  "residual_build_cluster_view addr s cov rf key kk every prune =
     do { (masked, es) \<leftarrow>
            (if \<not> every \<and> prune \<and> \<not> semantics_is_finite (spec_semantics s) \<and>
                \<not> semantics_is_moore (spec_semantics s) \<and> spec_target s = TARGET_MEALY
             then cluster_assumption_mask addr s cov rf key kk
             else Some (False, mask_entries cov rf key));
          fill_cluster addr cov (cluster_selected every masked prune kk) es (no_aps cov)
            (section_pattern_init (spec_semantics s)) }"

definition residual_build_cluster ::
  "(ap \<Rightarrow> u64) \<Rightarrow> tlsf_spec \<Rightarrow> cover \<Rightarrow> node option list \<Rightarrow> nat list \<Rightarrow> nat \<Rightarrow> bool \<Rightarrow> bool \<Rightarrow>
   (bool list \<times> node) option" where
  "residual_build_cluster addr s cov rf key kk every prune =
     do { (seen, v) \<leftarrow> residual_build_cluster_view addr s cov rf key kk every prune;
          let n = section_pattern_to_ltl v True True;
          n \<leftarrow> (if semantics_is_finite (spec_semantics s)
                then apply_rewrites n (RW_NO_WEAK_UNTIL OR RW_NO_STRONG_RELEASE) else Some n);
          Some (seen, n) }"

end
