(* ===== verification/Cover_Correct.thy ===== *)
theory Cover_Correct
  imports Cover
begin

text \<open>
  The cover is faithful: its constraints are the section formulas in order, and the support
  sets bound how a formula can depend on the outputs.
\<close>

subsection \<open>Occurrences\<close>

text \<open>The occurrences of atoms: name, negative polarity, under a next.\<close>

fun occs :: "node \<Rightarrow> bool \<Rightarrow> bool \<Rightarrow> (ap \<times> bool \<times> bool) set" where
  "occs (NodeAp p) neg nxt = {(p, neg, nxt)}"
| "occs (Unary k a) neg nxt = occs a (if k = NODE_NOT then \<not> neg else neg) (nxt \<or> un_under_next k)"
| "occs (Binary k a b) neg nxt = occs a neg nxt \<union> occs b neg nxt"
| "occs _ neg nxt = {}"



text \<open>Only the present and the future of a word matter.\<close>

lemma sat_future:
  "(\<And>j. i \<le> j \<Longrightarrow> w j = w' j) \<Longrightarrow> enat i < L \<Longrightarrow> sat L w n i = sat L w' n i"
proof (induction n arbitrary: i)
  case (Unary k a)
  have "sat L w a j = sat L w' a j" if "i \<le> j" "enat j < L" for j
    by (rule Unary.IH) (use Unary.prems that in auto)
  with Unary.prems(2) show ?case unfolding sat.simps by (intro un_sem_cong)
next
  case (Binary k a b)
  have "sat L w a j = sat L w' a j" "sat L w b j = sat L w' b j" if "i \<le> j" "enat j < L" for j
    by (rule Binary.IH; use Binary.prems that in auto)+
  with Binary.prems(2) show ?case unfolding sat.simps by (intro bin_sem_cong)
qed simp_all

text \<open>An atom that occurs only positively acts monotonically.\<close>

lemma sat_mono_positive:
  assumes "\<And>j. w j \<subseteq> w' j" and "\<And>j. w' j - {p} \<subseteq> w j"
  shows "is_nnf n \<Longrightarrow> (\<And>d. (p, True, d) \<notin> occs n False nxt) \<Longrightarrow> enat i < L \<Longrightarrow>
    sat L w n i \<Longrightarrow> sat L w' n i"
proof (induction n arbitrary: i nxt)
  case (NodeAp q)
  then show ?case using assms(1) by auto
next
  case (Unary k a)
  show ?case
  proof (cases "k = NODE_NOT")
    case True
    with Unary.prems(1) obtain q where a: "a = NodeAp q" by (auto simp: is_nnf_Unary)
    with Unary.prems(2) True have "q \<noteq> p" by auto
    with Unary.prems(4) a True assms(2) [of i] show ?thesis by auto
  next
    case False
    with Unary.prems(1) have nn: "is_nnf a" by (simp add: is_nnf_Unary)
    have no: "(p, True, d) \<notin> occs a False (nxt \<or> un_under_next k)" for d
      using Unary.prems(2) [of d] False by simp
    have m: "enat j < L \<Longrightarrow> sat L w a j \<Longrightarrow> sat L w' a j" for j by (rule Unary.IH [OF nn no])
    have "un_mono k" using False by (cases k) simp_all
    with Unary.prems(3,4) m show ?thesis by (auto intro: un_sem_mono)
  qed
next
  case (Binary k a b)
  have nn: "is_nnf a" "is_nnf b" "bin_mono k" using Binary.prems(1) by (cases k; simp)+
  have no: "(p, True, d) \<notin> occs a False nxt" "(p, True, d) \<notin> occs b False nxt" for d
    using Binary.prems(2) [of d] by simp_all
  have m: "enat j < L \<Longrightarrow> sat L w a j \<Longrightarrow> sat L w' a j"
    "enat j < L \<Longrightarrow> sat L w b j \<Longrightarrow> sat L w' b j" for j
    using Binary.IH(1) [OF nn(1) no(1)] Binary.IH(2) [OF nn(2) no(2)] by blast+
  with nn(3) Binary.prems(3,4) show ?case by (auto intro: bin_sem_mono)
qed simp_all

text \<open>An atom that occurs only under next does not matter at the present position.\<close>

lemma sat_not_current:
  assumes later: "\<And>j. i < j \<Longrightarrow> w j = w' j" and now: "w i - {p} = w' i - {p}" and i: "enat i < L"
  shows "ground n \<Longrightarrow> (\<And>b. (p, b, False) \<notin> occs n neg False) \<Longrightarrow> sat L w n i = sat L w' n i"
proof (induction n arbitrary: neg rule: ground_induct)
  case (Ap q)
  then have "q \<noteq> p" by auto
  then show ?case using now by auto
next
  case (Un k a)
  have fut: "sat L w a j = sat L w' a j" if "i < j" "enat j < L" for j
    by (rule sat_future) (use later that in auto)
  show ?case
  proof (cases "un_under_next k")
    case True
    then show ?thesis using fut [of "Suc i"]
      by (cases k) (auto simp: next_weak_def next_strong_def)
  next
    case False
    with Un.prems have "sat L w a i = sat L w' a i"
      using Un.IH [of "if k = NODE_NOT then \<not> neg else neg"] by simp
    with fut have "sat L w a j = sat L w' a j" if "i \<le> j" "enat j < L" for j
      using that by (cases "i = j") simp_all
    with i show ?thesis unfolding sat.simps by (intro un_sem_cong)
  qed
next
  case (Bin k a b)
  have now': "sat L w a i = sat L w' a i" "sat L w b i = sat L w' b i"
    using Bin.IH(1) [of neg] Bin.IH(2) [of neg] Bin.prems by simp_all
  have "sat L w c j = sat L w' c j" if "i < j" "enat j < L" for j c
    by (rule sat_future) (use later that in auto)
  with now' have "sat L w a j = sat L w' a j" "sat L w b j = sat L w' b j" if "i \<le> j" "enat j < L" for j
    using that by (cases "i = j"; simp)+
  with i show ?case unfolding sat.simps by (intro bin_sem_cong)
qed simp_all

subsection \<open>The table\<close>

text \<open>The bound on the table only concerns the distinct names.\<close>

context name_index
begin

lemma length_le_card: "inv t \<Longrightarrow> card (set (nm t) \<union> fst ` set (x # xs)) < bound \<Longrightarrow> length (nm t) < bound"
proof -
  assume "inv t" and c: "card (set (nm t) \<union> fst ` set (x # xs)) < bound"
  then have "length (nm t) = card (set (nm t))"
    using inv_distinct by (simp add: distinct_card)
  also have "\<dots> \<le> card (set (nm t) \<union> fst ` set (x # xs))" by (intro card_mono) auto
  finally show ?thesis using c by simp
qed

lemma add_list_card:
  "inv t \<Longrightarrow> card (set (nm t) \<union> fst ` set xs) < bound \<Longrightarrow>
   \<exists>t'. add_list t xs = Some t' \<and> inv t' \<and> nm t' = foldl snoc_new (nm t) (map fst xs)"
proof (induction xs arbitrary: t)
  case (Cons x xs)
  from length_le_card [OF Cons.prems] Cons.prems add_ok [of t "fst x" "snd x"]
  obtain t' i where t': "add t (fst x) (snd x) = Some (t', i)" "inv t'" "nm t' = snoc_new (nm t) (fst x)"
    by auto
  have "card (set (nm t') \<union> fst ` set xs) < bound" using Cons.prems(2) t'(3) by simp
  from Cons.IH [OF t'(2) this] t' show ?case by auto
qed simp

end

subsection \<open>The flags of the table\<close>

definition flag_of :: "ap_table \<Rightarrow> ap \<Rightarrow> u8" where
  "flag_of t q = (case index_of (names t) q of Some i \<Rightarrow> flags t ! i | None \<Rightarrow> 0)"

lemma flag_of_nth: "distinct (names t) \<Longrightarrow> i < length (names t) \<Longrightarrow> flag_of t (names t ! i) = flags t ! i"
  by (simp add: flag_of_def index_of_nth)

lemma index_of_append:
  "index_of (xs @ ys) q = (case index_of xs q of Some i \<Rightarrow> Some i
     | None \<Rightarrow> map_option ((+) (length xs)) (index_of ys q))"
  by (induction xs; cases "index_of ys q") (auto split: option.splits)

lemma flag_of_intern:
  assumes t: "ap_table_ok addr t" "length (names t) < 2 ^ 30"
    and t': "ap_table_intern addr t q fl = Some (t', i)"
  shows "flag_of t' r = (if r = q then flag_of t r OR fl else flag_of t r)"
proof (cases "index_of (names t) q")
  case (Some k)
  then have k: "k < length (flags t)" "names t ! k = q" "q \<in> set (names t)"
    using t(1) index_of_SomeD [OF Some] by (auto simp: ap_table_ok_def)
  have ne: "j \<noteq> k" if "index_of (names t) r = Some j" "r \<noteq> q" for j
    using that k(2) index_of_SomeD by metis
  from ap_table_intern_ok [OF t, of q fl] t' Some k
  have n: "names t' = names t" "flags t' = (flags t)[k := flags t ! k OR fl]" by auto
  show ?thesis using Some k(1) ne
    by (cases "r = q") (auto simp: flag_of_def n split: option.splits)
next
  case None
  then have q: "q \<notin> set (names t)" by (simp add: index_of_None)
  from ap_table_intern_ok [OF t, of q fl] t' None q
  have n: "names t' = names t @ [q]" "flags t' = flags t @ [fl]" by auto
  have l: "length (flags t) = length (names t)" using t(1) by (simp add: ap_table_ok_def)
  have lt: "j < length (flags t)" if "index_of (names t) r = Some j" for j
    using index_of_SomeD [OF that] l by simp
  show ?thesis using None lt l
    by (cases "r = q")
       (auto simp: flag_of_def n index_of_append nth_append split: option.splits)
qed

definition or_flags :: "u8 \<Rightarrow> (ap \<times> u8) list \<Rightarrow> ap \<Rightarrow> u8" where
  "or_flags z ps r = foldl (\<lambda>acc e. if fst e = r then acc OR snd e else acc) z ps"

lemma or_flags_Cons: "or_flags z (e # es) r = or_flags (if fst e = r then z OR snd e else z) es r"
  by (simp add: or_flags_def)

lemma flag_of_add_list:
  "ap_table_ok addr t \<Longrightarrow> card (set (names t) \<union> fst ` set ps) < 2 ^ 30 \<Longrightarrow>
   ap_index.add_list addr t ps = Some t' \<Longrightarrow> flag_of t' r = or_flags (flag_of t r) ps r"
proof (induction ps arbitrary: t)
  case (Cons e ps)
  have l: "length (names t) < 2 ^ 30" by (rule ap_index.length_le_card [OF Cons.prems(1,2)])
  from ap_index.add_ok [OF Cons.prems(1) l, of "fst e" "snd e"]
  obtain t1 i where t1: "ap_table_intern addr t (fst e) (snd e) = Some (t1, i)" "ap_table_ok addr t1"
    "names t1 = snoc_new (names t) (fst e)" by blast
  have "card (set (names t1) \<union> fst ` set ps) < 2 ^ 30" using Cons.prems(2) t1(3) by simp
  from Cons.IH [OF t1(2) this] Cons.prems(3) t1(1)
  have "flag_of t' r = or_flags (flag_of t1 r) ps r" by simp
  with flag_of_intern [OF Cons.prems(1) l t1(1), of r] show ?case by (auto simp: or_flags_Cons)
qed (simp add: or_flags_def)

lemma bit_or_flags:
  "bit (or_flags z ps r) k \<longleftrightarrow> bit z k \<or> (\<exists>e\<in>set ps. fst e = r \<and> bit (snd e) k)"
proof (induction ps arbitrary: z)
  case Nil
  then show ?case by (simp add: or_flags_def)
next
  case (Cons e es)
  show ?case unfolding or_flags_Cons Cons.IH by (auto simp: bit_or_iff)
qed

subsection \<open>Collecting the supports\<close>

definition hits :: "ap_table \<Rightarrow> (u8 \<Rightarrow> bool) \<Rightarrow> (bool \<Rightarrow> bool \<Rightarrow> bool) \<Rightarrow> (ap \<times> bool \<times> bool) set \<Rightarrow> nat set" where
  "hits t P Q S = {i. i < length (names t) \<and> P (flags t ! i) \<and> (\<exists>b d. Q b d \<and> (names t ! i, b, d) \<in> S)}"

definition inp :: "u8 \<Rightarrow> bool" where
  "inp f \<longleftrightarrow> f AND AP_FLAG_INPUT \<noteq> 0 \<or> f = 0"

definition outp :: "u8 \<Rightarrow> bool" where
  "outp f \<longleftrightarrow> f AND AP_FLAG_OUTPUT \<noteq> 0"

lemma hits_Un: "hits t P Q (S \<union> S') = hits t P Q S \<union> hits t P Q S'"
  unfolding hits_def by blast

lemma hits_empty [simp]: "hits t P Q {} = {}"
  by (simp add: hits_def)

lemma hits_insert:
  assumes "distinct (names t)" and "i < length (names t)"
  shows "hits t P Q (insert (names t ! i, b, d) S) =
    (if P (flags t ! i) \<and> Q b d then insert i (hits t P Q S) else hits t P Q S)"
  using assms nth_eq_iff_index_eq [of "names t"] unfolding hits_def by auto

definition set_for :: "nat \<Rightarrow> apset \<Rightarrow> nat set \<Rightarrow> bool" where
  "set_for n a I \<longleftrightarrow> apset_ok a \<and> nbits a = n \<and> apset_elems a = I"

lemma set_for_init: "set_for n (apset_init n) {}"
proof -
  have "apset_elems (apset_init n) = {}"
    using apset_init_ok [of n]
    by (auto simp: apset_elems_def apset_test_bit apset_init_def nwords_def less_mult_imp_div_less)
  then show ?thesis by (simp add: set_for_def apset_init_ok, simp add: apset_init_def)
qed

lemma set_for_set: "set_for n a I \<Longrightarrow> i < n \<Longrightarrow> set_for n (apset_set a i) (insert i I)"
  by (auto simp: set_for_def apset_set_ok apset_elems_set) (simp add: apset_set_def)

text \<open>\<open>c'\<close> is \<open>c\<close> with the occurrences \<open>S\<close> entered.\<close>

definition entered :: "ap_table \<Rightarrow> (ap \<times> bool \<times> bool) set \<Rightarrow> constraint \<Rightarrow> bool" where
  "entered t S c \<longleftrightarrow>
     (let n = length (names t) in
      set_for n (in_set c) (hits t inp (\<lambda>_ _. True) S) \<and>
      set_for n (out_set c) (hits t outp (\<lambda>_ _. True) S) \<and>
      set_for n (pos_outputs c) (hits t outp (\<lambda>b _. \<not> b) S) \<and>
      set_for n (neg_outputs c) (hits t outp (\<lambda>b _. b) S) \<and>
      set_for n (cur_outputs c) (hits t outp (\<lambda>_ d. \<not> d) S) \<and>
      set_for n (next_outputs c) (hits t outp (\<lambda>_ d. d) S))"

definition same_fields :: "constraint \<Rightarrow> constraint \<Rightarrow> bool" where
  "same_fields c c' \<longleftrightarrow> empty_sets 0 c = empty_sets 0 c'"

lemma entered_ap:
  assumes "distinct (names t)" and "i < length (names t)" and "entered t S c"
  shows "entered t (insert (names t ! i, neg, nxt) S) (collect_ap t i neg nxt c)"
  using assms(3) set_for_set [OF _ assms(2)]
  unfolding entered_def collect_ap_def Let_def hits_insert [OF assms(1,2)]
  by (simp add: inp_def outp_def)

lemma entered_neg:
  "entered t S c \<Longrightarrow> i \<in> apset_elems (neg_outputs c) \<longleftrightarrow>
     i < length (names t) \<and> outp (flags t ! i) \<and> (\<exists>d. (names t ! i, True, d) \<in> S)"
  by (auto simp: entered_def set_for_def hits_def Let_def)

lemma entered_cur:
  "entered t S c \<Longrightarrow> i \<in> apset_elems (cur_outputs c) \<longleftrightarrow>
     i < length (names t) \<and> outp (flags t ! i) \<and> (\<exists>b. (names t ! i, b, False) \<in> S)"
  by (auto simp: entered_def set_for_def hits_def Let_def)

lemma same_fields_ap: "same_fields c (collect_ap t i neg nxt c)"
  by (simp add: same_fields_def empty_sets_def collect_ap_def Let_def)

lemma entered_absent:
  "p \<notin> set (names t) \<Longrightarrow> entered t S c \<Longrightarrow> entered t (insert (p, b, d) S) c"
proof -
  assume p: "p \<notin> set (names t)"
  have "hits t P Q (insert (p, b, d) S) = hits t P Q S" for P Q
    using p unfolding hits_def by auto
  then show "entered t S c \<Longrightarrow> entered t (insert (p, b, d) S) c" by (simp add: entered_def)
qed

lemma collect_ok:
  assumes "ap_table_ok addr t"
  shows "entered t S c \<Longrightarrow> \<exists>c'. collect addr t n neg nxt c = Some c' \<and>
    entered t (occs n neg nxt \<union> S) c' \<and> same_fields c c'"
proof (induction n arbitrary: S c neg nxt)
  case (NodeAp p)
  have d: "distinct (names t)" using assms by (simp add: ap_table_ok_def)
  show ?case
  proof (cases "index_of (names t) p")
    case None
    then have "p \<notin> set (names t)" by (simp add: index_of_None)
    with NodeAp None show ?thesis
      by (simp add: ap_table_find_ok [OF assms] entered_absent same_fields_def)
  next
    case (Some i)
    from index_of_SomeD [OF this] entered_ap [OF d _ NodeAp, of i neg nxt] Some show ?thesis
      by (auto simp: ap_table_find_ok [OF assms] same_fields_ap)
  qed
next
  case (Binary k a b)
  from Binary.IH(1) [OF Binary.prems, of neg nxt] obtain c1 where
    1: "collect addr t a neg nxt c = Some c1" "entered t (occs a neg nxt \<union> S) c1" "same_fields c c1" by blast
  from Binary.IH(2) [OF 1(2), of neg nxt] 1 show ?case
    by (auto simp: same_fields_def Un_assoc Un_left_commute)
qed (auto simp: same_fields_def)

subsection \<open>The sweep over the sections\<close>

definition cover_parts :: "bool \<Rightarrow> tlsf_spec \<Rightarrow> (section_desc \<times> node) list" where
  "cover_parts split s = concat (map (\<lambda>d. map (Pair d)
     (if split then concat (map rewrite_decompose (sec_list d)) else sec_list d)) (cover_sections s))"

primrec add_all :: "(ap \<Rightarrow> u64) \<Rightarrow> (section_desc \<times> node) list \<Rightarrow> cover \<Rightarrow> cover option" where
  "add_all addr [] cov = Some cov"
| "add_all addr (x # xs) cov = do { cov' \<leftarrow> add_constraint addr (fst x) cov (snd x); add_all addr xs cov' }"

lemma add_all_append: "add_all addr (xs @ ys) cov = do { c \<leftarrow> add_all addr xs cov; add_all addr ys c }"
proof (induction xs arbitrary: cov)
  case (Cons x xs)
  then show ?case by (cases "add_constraint addr (fst x) cov (snd x)") auto
qed simp

lemma add_constraints_all: "add_constraints addr d cov fs = add_all addr (map (Pair d) fs) cov"
  by (induction fs arbitrary: cov) auto

lemma add_section_all:
  "add_section addr split cov ds = add_all addr (concat (map (\<lambda>d. map (Pair d)
     (if split then concat (map rewrite_decompose (sec_list d)) else sec_list d)) ds)) cov"
proof (induction ds arbitrary: cov)
  case (Cons d ds)
  let ?l = "map (Pair d) (if split then concat (map rewrite_decompose (sec_list d)) else sec_list d)"
  show ?case using Cons
    by (cases "add_all addr ?l cov") (simp_all add: add_constraints_all add_all_append)
qed simp

text \<open>The constraint the sweep stores for a formula, before its supports are filled.\<close>

definition stored :: "bool \<Rightarrow> nat \<Rightarrow> section_desc \<times> node \<Rightarrow> constraint \<Rightarrow> bool" where
  "stored fin i x c \<longleftrightarrow>
     (\<exists>nnf cl. to_nnf (snd x) True fin = Some nnf \<and> classify_formula nnf = Some cl \<and>
        same_fields (new_constraint i (fst x) (snd x) nnf cl) c)"

definition cap_ok :: "nat \<Rightarrow> nat \<Rightarrow> bool" where
  "cap_ok n c \<longleftrightarrow> n \<le> c \<and> c \<le> 2 ^ 31 \<and> (c = 0 \<or> (\<exists>k. c = 16 * 2 ^ k))"

lemma cover_grow_ok:
  assumes "cap_ok n c" and "n < 2 ^ 31"
  shows "n < cover_grow n c \<and> cap_ok (Suc n) (cover_grow n c)"
proof (cases "n = c \<and> c \<noteq> 0")
  case False
  with assms show ?thesis by (auto simp: cap_ok_def cover_grow_def intro: exI [of _ 0])
next
  case True
  then obtain k where k: "c = 16 * 2 ^ k" using assms(1) by (auto simp: cap_ok_def)
  have "(2::nat) ^ (k + 4) < 2 ^ 31" using assms(2) True k by (simp add: power_add)
  then have "k + 4 < 31" by (simp only: power_strict_increasing_iff)
  then have "(2::nat) ^ (k + 5) \<le> 2 ^ 31" by (intro power_increasing) simp_all
  then have le: "c * 2 \<le> 2 ^ 31" using k by (simp add: power_add)
  then have "c * 2 mod 2 ^ 32 = c * 2" by simp
  moreover have "c * 2 = 16 * 2 ^ Suc k" using k by simp
  ultimately show ?thesis using True le unfolding cap_ok_def cover_grow_def by (auto intro: exI [of _ "Suc k"])
qed

definition fin_of :: "cover \<Rightarrow> bool" where
  "fin_of cov = semantics_is_finite (spec_semantics (cov_spec cov))"

lemma finite_atoms: "finite (atoms n)"
  using set_atom_list [of n] by (metis List.finite_set)

lemma add_all_ok:
  assumes "ap_table_ok addr (cov_aps cov)" and "cap_ok (length (cov_items cov)) (cov_cap cov)"
    and "\<forall>x\<in>set xs. ground (snd x)" and "length (cov_items cov) + length xs \<le> 2 ^ 31"
    and "card (set (names (cov_aps cov)) \<union> (\<Union>x\<in>set xs. atoms (snd x))) < 2 ^ 30"
  shows "\<exists>cov' cs ps. add_all addr xs cov = Some cov' \<and> cov_spec cov' = cov_spec cov \<and>
    cov_items cov' = cov_items cov @ cs \<and> length cs = length xs \<and>
    (\<forall>j<length xs. stored (fin_of cov) (length (cov_items cov) + j) (xs ! j) (cs ! j)) \<and>
    ap_table_ok addr (cov_aps cov') \<and> fst ` set ps = (\<Union>x\<in>set xs. atoms (snd x)) \<and>
    snd ` set ps \<subseteq> {0} \<and> ap_index.add_list addr (cov_aps cov) ps = Some (cov_aps cov')"
  using assms
proof (induction xs arbitrary: cov)
  case Nil
  then show ?case
    by (intro exI [of _ cov] exI [of _ "[]"]) simp
next
  case (Cons x xs)
  obtain d f where x: "x = (d, f)" by (cases x)
  have gf: "ground f" using Cons.prems(3) x by force
  from to_nnf_total [OF gf] obtain nnf where nnf: "to_nnf f True (fin_of cov) = Some nnf" by blast
  have at: "atoms nnf = atoms f" by (rule to_nnf_atoms [OF nnf])
  from classify_formula_total [OF is_nnf_ground [OF to_nnf_is_nnf [OF nnf]]] obtain cl
    where cl: "classify_formula nnf = Some cl" by blast
  let ?q = "map (\<lambda>p. (p, 0 :: u8)) (atom_list nnf)"
  have im: "fst ` set ?q = atoms f" using at by (simp add: image_image)
  let ?all = "set (names (cov_aps cov)) \<union> (\<Union>x\<in>set (x # xs). atoms (snd x))"
  have fin: "finite ?all" using finite_atoms by auto
  have "card (set (names (cov_aps cov)) \<union> fst ` set ?q) \<le> card ?all"
    unfolding im by (intro card_mono fin) (use x in auto)
  with Cons.prems(5) have "card (set (names (cov_aps cov)) \<union> fst ` set ?q) < 2 ^ 30" by simp
  from ap_index.add_list_card [OF Cons.prems(1) this] obtain t where
    t: "ap_index.add_list addr (cov_aps cov) ?q = Some t" "ap_table_ok addr t"
      "names t = foldl snoc_new (names (cov_aps cov)) (map fst ?q)" by blast
  have st: "set (names t) = set (names (cov_aps cov)) \<union> atoms f" using t(3) im by (simp add: image_image)
  let ?n = "length (cov_items cov)"
  have grow: "?n < cover_grow ?n (cov_cap cov)" "cap_ok (Suc ?n) (cover_grow ?n (cov_cap cov))"
    using cover_grow_ok [OF Cons.prems(2)] Cons.prems(4) by simp_all
  define cov1 where "cov1 = cov\<lparr>cov_cap := cover_grow ?n (cov_cap cov), cov_aps := t,
     cov_items := cov_items cov @ [new_constraint ?n d f nnf cl]\<rparr>"
  have step: "add_constraint addr d cov f = Some cov1"
    using nnf cl t(1) grow(1)
    by (simp add: add_constraint_def Let_def fin_of_def conversion_intern_aps_list cov1_def)
  have c1: "ap_table_ok addr (cov_aps cov1)" "cap_ok (length (cov_items cov1)) (cov_cap cov1)"
    "length (cov_items cov1) + length xs \<le> 2 ^ 31" "fin_of cov1 = fin_of cov"
    using t(2) grow(2) Cons.prems(4) by (simp_all add: cov1_def fin_of_def)
  have "set (names (cov_aps cov1)) \<union> (\<Union>x\<in>set xs. atoms (snd x)) = ?all"
    using st x by (auto simp: cov1_def)
  then have c2: "card (set (names (cov_aps cov1)) \<union> (\<Union>x\<in>set xs. atoms (snd x))) < 2 ^ 30"
    using Cons.prems(5) by simp
  have c3: "\<forall>y\<in>set xs. ground (snd y)" using Cons.prems(3) by simp
  from Cons.IH [OF c1(1,2) c3 c1(3) c2] obtain cov' cs ps where
    r: "add_all addr xs cov1 = Some cov'" "cov_spec cov' = cov_spec cov1"
    "cov_items cov' = cov_items cov1 @ cs" "length cs = length xs"
    "\<forall>j<length xs. stored (fin_of cov) (length (cov_items cov1) + j) (xs ! j) (cs ! j)"
    "ap_table_ok addr (cov_aps cov')" "fst ` set ps = (\<Union>x\<in>set xs. atoms (snd x))"
    "snd ` set ps \<subseteq> {0}" "ap_index.add_list addr (cov_aps cov1) ps = Some (cov_aps cov')"
    unfolding c1(4) by (elim exE conjE)
  let ?c = "new_constraint ?n d f nnf cl"
  have "same_fields ?c ?c" by (simp add: same_fields_def)
  then have s0: "stored (fin_of cov) ?n x ?c" unfolding stored_def x fst_conv snd_conv
    using nnf cl by blast
  have E: "\<forall>j<length (x # xs). stored (fin_of cov) (?n + j) ((x # xs) ! j) ((?c # cs) ! j)"
  proof (intro allI impI)
    fix j assume "j < length (x # xs)"
    then show "stored (fin_of cov) (?n + j) ((x # xs) ! j) ((?c # cs) ! j)"
      using s0 r(5) [rule_format, of "j - 1"] by (cases j) (simp_all add: cov1_def)
  qed
  have A: "add_all addr (x # xs) cov = Some cov'" using step r(1) x by simp
  have B: "cov_spec cov' = cov_spec cov" "cov_items cov' = cov_items cov @ ?c # cs"
    "length (?c # cs) = length (x # xs)"
    using r(2,3,4) by (simp_all add: cov1_def)
  have G: "fst ` set (?q @ ps) = (\<Union>x\<in>set (x # xs). atoms (snd x))"
    unfolding set_append image_Un im r(7) using x by simp
  have "snd ` set ?q \<subseteq> {0}" by auto
  then have H: "snd ` set (?q @ ps) \<subseteq> {0}" using r(8) unfolding set_append image_Un by blast
  have I: "ap_index.add_list addr (cov_aps cov) (?q @ ps) = Some (cov_aps cov')"
    using t(1) r(9) unfolding ap_index.add_list_append by (simp add: cov1_def)
  from A B E r(6) G H I show ?case by (intro exI conjI)
qed

subsection \<open>The whole construction\<close>

lemma atoms_decomp: "(\<Union>g\<in>set (decomp_append f). atoms g) = atoms f"
  by (induction f rule: decomp_append.induct) auto

lemma cover_parts_formulas:
  "snd ` set (cover_parts split s) =
     (\<Union>f\<in>set (concat (sections s)). if split then set (rewrite_decompose f) else {f})"
  by (simp add: cover_parts_def cover_sections_def sections_def image_Un image_image UN_Un Un_assoc
      del: set_map) (simp add: image_image)

lemma cover_parts_ground: "spec_ground s \<Longrightarrow> x \<in> set (cover_parts split s) \<Longrightarrow> ground (snd x)"
proof -
  assume g: "spec_ground s" and x: "x \<in> set (cover_parts split s)"
  then have "snd x \<in> snd ` set (cover_parts split s)" by simp
  then obtain f where f: "f \<in> set (concat (sections s))"
    "snd x \<in> (if split then set (rewrite_decompose f) else {f})"
    unfolding cover_parts_formulas by blast
  have "ground f" using g f(1) by (auto simp: spec_ground_def list_all_iff)
  with f(2) show "ground (snd x)"
    using decomp_append_ground by (auto simp: rewrite_decompose_def split: if_splits)
qed

lemma cover_parts_atoms:
  "(\<Union>x\<in>set (cover_parts split s). atoms (snd x)) = (\<Union>f\<in>set (concat (sections s)). atoms f)"
proof -
  have "(\<Union>x\<in>set (cover_parts split s). atoms (snd x)) = (\<Union>g\<in>snd ` set (cover_parts split s). atoms g)"
    by simp
  also have "\<dots> = (\<Union>f\<in>set (concat (sections s)). atoms f)"
    unfolding cover_parts_formulas using atoms_decomp
    by (simp add: rewrite_decompose_def)
  finally show ?thesis .
qed

definition signals :: "signal_decl list \<Rightarrow> ap set" where
  "signals ds = {sd_name d | d. d \<in> set ds \<and> \<not> is_bus d}"

definition input_names :: "tlsf_spec \<Rightarrow> ap set" where
  "input_names s = signals (items (inputs s))"

definition output_names :: "tlsf_spec \<Rightarrow> ap set" where
  "output_names s = signals (items (outputs s))"

definition seed_list :: "tlsf_spec \<Rightarrow> (ap \<times> u8) list" where
  "seed_list s = map (\<lambda>d. (sd_name d, AP_FLAG_INPUT)) (filter (\<lambda>d. \<not> is_bus d) (items (inputs s))) @
     map (\<lambda>d. (sd_name d, AP_FLAG_OUTPUT)) (filter (\<lambda>d. \<not> is_bus d) (items (outputs s)))"

lemma fst_seed_list: "fst ` set (seed_list s) = input_names s \<union> output_names s"
  by (simp add: seed_list_def input_names_def output_names_def signals_def image_Un image_image)
     (auto simp: image_iff)

lemma set_alphabet_list:
  "set (alphabet_list s) = input_names s \<union> output_names s \<union> (\<Union>f\<in>set (concat (sections s)). atoms f)"
  by (auto simp: alphabet_list_def input_names_def output_names_def signals_def)

lemma flag_powers: "AP_FLAG_INPUT = 2 ^ 0" "AP_FLAG_OUTPUT = 2 ^ 1"
  by (simp_all add: AP_FLAG_INPUT_def AP_FLAG_OUTPUT_def)

lemma bit_flags: "bit AP_FLAG_INPUT k \<longleftrightarrow> k = 0" "bit AP_FLAG_OUTPUT k \<longleftrightarrow> k = 1"
  unfolding flag_powers bit_exp_iff by (auto simp: possible_bit_def)

lemma and_flag: "(f AND AP_FLAG_INPUT \<noteq> 0) = bit f 0" "(f AND AP_FLAG_OUTPUT \<noteq> 0) = bit f 1"
  unfolding flag_powers and_exp_eq_0_iff_not_bit by simp_all

lemma bit_seed:
  assumes "snd ` set ps \<subseteq> {0}"
  shows "bit (or_flags 0 (seed_list s @ ps) r) k \<longleftrightarrow>
     (k = 0 \<and> r \<in> input_names s) \<or> (k = 1 \<and> r \<in> output_names s)"
proof -
  have z: "\<not> bit (snd e) k" if "e \<in> set ps" for e
    using assms that by (metis bit_0_eq bot_apply imageI singletonD subsetD bot_boolE)
  show ?thesis unfolding bit_or_flags using z bit_flags [of k]
    by (simp add: seed_list_def input_names_def output_names_def signals_def bex_Un) auto
qed

text \<open>What holds of a built cover.\<close>

definition table_for :: "(ap \<Rightarrow> u64) \<Rightarrow> tlsf_spec \<Rightarrow> ap_table \<Rightarrow> bool" where
  "table_for addr s t \<longleftrightarrow> ap_table_ok addr t \<and> set (names t) = set (alphabet_list s) \<and>
     (\<forall>i<length (names t). (inp (flags t ! i) \<longleftrightarrow> names t ! i \<in> input_names s \<or> names t ! i \<notin> output_names s) \<and>
        (outp (flags t ! i) \<longleftrightarrow> names t ! i \<in> output_names s) \<and>
        (flags t ! i AND AP_FLAG_INPUT \<noteq> 0 \<longleftrightarrow> names t ! i \<in> input_names s))"

lemma table_for_build:
  assumes "ap_index.add_list addr ap_table_init (seed_list s @ ps) = Some t"
    and "snd ` set ps \<subseteq> {0}" and "fst ` set (seed_list s @ ps) = set (alphabet_list s)"
    and "card (set (alphabet_list s)) < 2 ^ 30"
  shows "table_for addr s t"
proof -
  have c: "card (set (names ap_table_init) \<union> fst ` set (seed_list s @ ps)) < 2 ^ 30"
    using assms(3,4) by (simp add: ap_table_init_def)
  from ap_index.add_list_card [OF ap_table_init_ok c, of addr] assms(1)
  have t: "ap_table_ok addr t" "names t = foldl snoc_new [] (map fst (seed_list s @ ps))"
    by (auto simp: ap_table_init_def)
  have n: "set (names t) = set (alphabet_list s)"
    unfolding t(2) set_foldl_snoc_new set_map assms(3) by simp
  have "inp (flags t ! i) \<longleftrightarrow> names t ! i \<in> input_names s \<or> names t ! i \<notin> output_names s"
    "outp (flags t ! i) \<longleftrightarrow> names t ! i \<in> output_names s"
    "flags t ! i AND AP_FLAG_INPUT \<noteq> 0 \<longleftrightarrow> names t ! i \<in> input_names s" if i: "i < length (names t)" for i
  proof -
    let ?f = "or_flags 0 (seed_list s @ ps) (names t ! i)"
    have "distinct (names t)" using t(1) by (simp add: ap_table_ok_def)
    from flag_of_nth [OF this i] flag_of_add_list [OF ap_table_init_ok c assms(1)]
    have f: "flags t ! i = ?f" by (simp add: flag_of_def ap_table_init_def)
    have b: "bit ?f k \<longleftrightarrow> k = 0 \<and> names t ! i \<in> input_names s \<or> k = 1 \<and> names t ! i \<in> output_names s" for k
      by (rule bit_seed [OF assms(2)])
    have "?f = 0 \<longleftrightarrow> names t ! i \<notin> input_names s \<and> names t ! i \<notin> output_names s"
    proof
      assume "?f = 0"
      with b [of 0] b [of 1] show "names t ! i \<notin> input_names s \<and> names t ! i \<notin> output_names s" by simp
    next
      assume "names t ! i \<notin> input_names s \<and> names t ! i \<notin> output_names s"
      then show "?f = 0" by (intro bit_eqI) (simp add: b)
    qed
    with b show "inp (flags t ! i) \<longleftrightarrow> names t ! i \<in> input_names s \<or> names t ! i \<notin> output_names s"
      "outp (flags t ! i) \<longleftrightarrow> names t ! i \<in> output_names s"
      "flags t ! i AND AP_FLAG_INPUT \<noteq> 0 \<longleftrightarrow> names t ! i \<in> input_names s"
      unfolding inp_def outp_def and_flag f by auto
  qed
  with t(1) n show ?thesis by (simp add: table_for_def)
qed

definition cover_for :: "(ap \<Rightarrow> u64) \<Rightarrow> tlsf_spec \<Rightarrow> bool \<Rightarrow> cover \<Rightarrow> bool" where
  "cover_for addr s split cov \<longleftrightarrow> cov_spec cov = s \<and> table_for addr s (cov_aps cov) \<and>
     length (cov_items cov) = length (cover_parts split s) \<and>
     (\<forall>j<length (cov_items cov).
        stored (semantics_is_finite (spec_semantics s)) j (cover_parts split s ! j) (cov_items cov ! j) \<and>
        entered (cov_aps cov) (occs (con_nnf (cov_items cov ! j)) False False) (cov_items cov ! j))"

lemma entered_empty: "entered t {} (empty_sets (length (names t)) c)"
  using set_for_init by (simp add: entered_def empty_sets_def)

lemma fill_supports_ok:
  "ap_table_ok addr t \<Longrightarrow> \<exists>cs'. fill_supports addr t cs = Some cs' \<and> length cs' = length cs \<and>
     (\<forall>j<length cs. same_fields (cs ! j) (cs' ! j) \<and>
        entered t (occs (con_nnf (cs ! j)) False False) (cs' ! j))"
proof (induction cs)
  case (Cons c cs)
  from Cons obtain cs' where cs': "fill_supports addr t cs = Some cs'" "length cs' = length cs"
    "\<forall>j<length cs. same_fields (cs ! j) (cs' ! j) \<and>
        entered t (occs (con_nnf (cs ! j)) False False) (cs' ! j)" by blast
  from collect_ok [OF Cons.prems entered_empty, of "con_nnf c" False False c] obtain c' where
    c': "collect addr t (con_nnf c) False False (empty_sets (length (names t)) c) = Some c'"
    "entered t (occs (con_nnf c) False False) c'" "same_fields (empty_sets (length (names t)) c) c'"
    by auto
  have "same_fields c c'" using c'(3) by (simp add: same_fields_def empty_sets_def)
  with c' cs' show ?case by (intro exI [of _ "c' # cs'"]) (auto simp: nth_Cons split: nat.split)
qed simp

lemma same_fields_nnf: "same_fields c c' \<Longrightarrow> con_nnf c' = con_nnf c"
  by (cases c; cases c') (simp add: same_fields_def empty_sets_def)

lemma cover_build_ok:
  assumes g: "spec_ground s" and n: "length (cover_parts split s) \<le> 2 ^ 31"
    and c: "card (set (alphabet_list s)) < 2 ^ 30"
  shows "\<exists>cov. cover_build addr s split = Some cov \<and> cover_for addr s split cov"
proof -
  let ?xs = "cover_parts split s"
  have al: "set (alphabet_list s) = fst ` set (seed_list s) \<union> (\<Union>x\<in>set ?xs. atoms (snd x))"
    unfolding set_alphabet_list fst_seed_list cover_parts_atoms ..
  have c0: "card (set (names ap_table_init) \<union> fst ` set (seed_list s)) < 2 ^ 30"
  proof -
    have "card (set (names ap_table_init) \<union> fst ` set (seed_list s)) \<le> card (set (alphabet_list s))"
      by (intro card_mono) (auto simp: al ap_table_init_def finite_atoms)
    with c show ?thesis by simp
  qed
  from ap_index.add_list_card [OF ap_table_init_ok c0, of addr] obtain t0 where
    t0: "ap_index.add_list addr ap_table_init (seed_list s) = Some t0" "ap_table_ok addr t0"
      "names t0 = foldl snoc_new [] (map fst (seed_list s))" by (auto simp: ap_table_init_def)
  have seeded: "conversion_seed_signals addr ap_table_init s = Some t0"
    using t0(1) unfolding conversion_seed_signals_def seed_signals_list seed_list_def
      ap_index.add_list_append .
  let ?cov = "\<lparr>cov_spec = s, cov_aps = t0, cov_items = [], cov_cap = 0\<rparr>"
  have sn: "set (names (cov_aps ?cov)) = fst ` set (seed_list s)"
    by (simp add: t0(3) del: set_map) simp
  have "card (set (names (cov_aps ?cov)) \<union> (\<Union>x\<in>set ?xs. atoms (snd x))) < 2 ^ 30"
    using c unfolding sn al .
  moreover have "\<forall>x\<in>set ?xs. ground (snd x)" using cover_parts_ground [OF g] by blast
  ultimately obtain cov1 cs ps where a: "add_all addr ?xs ?cov = Some cov1"
    "cov_spec cov1 = s" "cov_items cov1 = cs" "length cs = length ?xs"
    "\<forall>j<length ?xs. stored (semantics_is_finite (spec_semantics s)) j (?xs ! j) (cs ! j)"
    "ap_table_ok addr (cov_aps cov1)" "fst ` set ps = (\<Union>x\<in>set ?xs. atoms (snd x))"
    "snd ` set ps \<subseteq> {0}" "ap_index.add_list addr t0 ps = Some (cov_aps cov1)"
    using add_all_ok [of addr ?cov ?xs] t0(2) n by (auto simp: cap_ok_def fin_of_def)
  have "ap_index.add_list addr ap_table_init (seed_list s @ ps) = Some (cov_aps cov1)"
    using t0(1) a(9) by (simp add: ap_index.add_list_append)
  moreover have "fst ` set (seed_list s @ ps) = set (alphabet_list s)"
    unfolding al set_append image_Un a(7) ..
  ultimately have tab: "table_for addr s (cov_aps cov1)" using table_for_build a(8) c by blast
  from fill_supports_ok [OF a(6), of cs] obtain cs' where f: "fill_supports addr (cov_aps cov1) cs = Some cs'"
    "length cs' = length cs" "\<forall>j<length cs. same_fields (cs ! j) (cs' ! j) \<and>
        entered (cov_aps cov1) (occs (con_nnf (cs ! j)) False False) (cs' ! j)" by blast
  have "add_section addr split ?cov (cover_sections s) = Some cov1"
    using a(1) unfolding add_section_all cover_parts_def by simp
  with seeded f(1) a(3) have "cover_build addr s split = Some (cov1\<lparr>cov_items := cs'\<rparr>)"
    by (simp add: cover_build_def)
  moreover have "cover_for addr s split (cov1\<lparr>cov_items := cs'\<rparr>)"
    unfolding cover_for_def
  proof (intro conjI allI impI)
    fix j assume "j < length (cov_items (cov1\<lparr>cov_items := cs'\<rparr>))"
    then have j: "j < length cs" "j < length ?xs" using f(2) a(4) by simp_all
    from f(3) j(1) have sf: "same_fields (cs ! j) (cs' ! j)"
      and en: "entered (cov_aps cov1) (occs (con_nnf (cs ! j)) False False) (cs' ! j)" by blast+
    from a(5) j(2) sf
    show "stored (semantics_is_finite (spec_semantics s)) j (?xs ! j) (cov_items (cov1\<lparr>cov_items := cs'\<rparr>) ! j)"
      by (auto simp: stored_def same_fields_def)
    from en show "entered (cov_aps (cov1\<lparr>cov_items := cs'\<rparr>))
      (occs (con_nnf (cov_items (cov1\<lparr>cov_items := cs'\<rparr>) ! j)) False False)
      (cov_items (cov1\<lparr>cov_items := cs'\<rparr>) ! j)"
      by (simp add: same_fields_nnf [OF sf])
  qed (use a(2,4) tab f(2) in simp_all)
  ultimately show ?thesis by blast
qed

lemma cover_for_build:
  assumes "spec_ground s" and "length (cover_parts split s) \<le> 2 ^ 31"
    and "card (set (alphabet_list s)) < 2 ^ 30" and "cover_build addr s split = Some cov"
  shows "cover_for addr s split cov"
  using cover_build_ok [OF assms(1-3), of addr] assms(4) by auto

lemma stored_fields:
  assumes "stored fin j x c"
  shows "con_id c = j \<and> con_formula c = snd x \<and> con_role c = sec_role (fst x) \<and>
    assumption_side c = sec_assumption (fst x) \<and> guarantee_side c = (\<not> sec_assumption (fst x)) \<and>
    invariant_wrapped c = sec_invariant (fst x) \<and> to_nnf (snd x) True fin = Some (con_nnf c) \<and>
    classify_formula (con_nnf c) = Some (if is_safety c then FCLASS_SAFETY else FCLASS_LIVENESS)"
proof -
  from assms obtain nnf cl where n: "to_nnf (snd x) True fin = Some nnf" "classify_formula nnf = Some cl"
    "same_fields (new_constraint j (fst x) (snd x) nnf cl) c" unfolding stored_def by blast
  then show ?thesis
    by (cases c; cases cl) (auto simp: same_fields_def empty_sets_def new_constraint_def)
qed

definition env_side :: "role \<Rightarrow> bool" where
  "env_side r \<longleftrightarrow> r = TLSF_ROLE_INITIALLY \<or> r = TLSF_ROLE_REQUIRE \<or> r = TLSF_ROLE_ASSUME"

definition inv_role :: "role \<Rightarrow> bool" where
  "inv_role r \<longleftrightarrow> r = TLSF_ROLE_REQUIRE \<or> r = TLSF_ROLE_ASSERT"

lemma cover_parts_role:
  "x \<in> set (cover_parts split s) \<Longrightarrow> sec_assumption (fst x) = env_side (sec_role (fst x)) \<and>
     sec_invariant (fst x) = inv_role (sec_role (fst x))"
  by (auto simp: cover_parts_def cover_sections_def env_side_def inv_role_def)

lemma cover_parts_snd:
  "map snd (cover_parts split s) =
     (if split then concat (map rewrite_decompose (concat (sections s))) else concat (sections s))"
  by (simp add: cover_parts_def cover_sections_def sections_def comp_def)


lemma cover_item:
  assumes "cover_for addr s split cov" and "spec_ground s" and "c \<in> set (cov_items cov)"
  shows "assumption_side c = env_side (con_role c)" and "guarantee_side c = (\<not> env_side (con_role c))"
    and "invariant_wrapped c = inv_role (con_role c)" and "ground (con_formula c)"
    and "to_nnf (con_formula c) True (semantics_is_finite (spec_semantics s)) = Some (con_nnf c)"
    and "classify_formula (con_nnf c) = Some (if is_safety c then FCLASS_SAFETY else FCLASS_LIVENESS)"
    and "entered (cov_aps cov) (occs (con_nnf c) False False) c"
proof -
  from assms(3) obtain j where j: "j < length (cov_items cov)" "c = cov_items cov ! j"
    by (metis in_set_conv_nth)
  let ?x = "cover_parts split s ! j"
  from assms(1) j have st: "stored (semantics_is_finite (spec_semantics s)) j ?x c"
    and en: "entered (cov_aps cov) (occs (con_nnf c) False False) c"
    and len: "j < length (cover_parts split s)" by (auto simp: cover_for_def)
  from len have x: "?x \<in> set (cover_parts split s)" by simp
  show "entered (cov_aps cov) (occs (con_nnf c) False False) c" by (rule en)
  from stored_fields [OF st] cover_parts_role [OF x] cover_parts_ground [OF assms(2) x]
  show "assumption_side c = env_side (con_role c)" "guarantee_side c = (\<not> env_side (con_role c))"
    "invariant_wrapped c = inv_role (con_role c)" "ground (con_formula c)"
    "to_nnf (con_formula c) True (semantics_is_finite (spec_semantics s)) = Some (con_nnf c)"
    "classify_formula (con_nnf c) = Some (if is_safety c then FCLASS_SAFETY else FCLASS_LIVENESS)"
    by simp_all
qed

subsection \<open>Properties\<close>


definition sample_signal :: "string \<Rightarrow> signal_decl" where
  "sample_signal n = \<lparr>sd_name = n, bus_lo = 0, bus_hi = 0, is_bus = False, origin_name = n,
     origin_id = 0, origin_index = 0, origin_bus_lo = 0, origin_bus_hi = 0, origin_is_bus = False,
     origin_is_enum = False, origin_width_expr = None, origin_is_encoded_bit = False,
     bus_lo_expr = None, bus_hi_expr = None\<rparr>"

text \<open>One input, one output and the given guarantees.\<close>

definition sample_spec :: "node list \<Rightarrow> tlsf_spec" where
  "sample_spec gs = spec_new\<lparr>
     inputs := \<lparr>items = [sample_signal ''r''], capacity = 8\<rparr>,
     outputs := \<lparr>items = [sample_signal ''g''], capacity = 8\<rparr>,
     guarantee := \<lparr>items = gs, capacity = 8\<rparr>\<rparr>"

lemma sample_spec_simps:
  "concat (sections (sample_spec gs)) = gs" "output_names (sample_spec gs) = {''g''}"
  "input_names (sample_spec gs) = {''r''}" "spec_ground (sample_spec gs) = list_all ground gs"
  "spec_semantics (sample_spec gs) = SEM_MEALY"
  by (simp_all add: sample_spec_def spec_ground_def sections_def spec_new_def empty_growable_def
      sample_signal_def output_names_def input_names_def signals_def)

lemma sample_spec_cover:
  assumes "list_all ground gs" and "length gs \<le> 16" and "(\<Union>f\<in>set gs. atoms f) \<subseteq> {''r'', ''g'', ''h''}"
  shows "spec_ground (sample_spec gs)" and "length (cover_parts False (sample_spec gs)) \<le> 2 ^ 31"
    and "card (set (alphabet_list (sample_spec gs))) < 2 ^ 30"
proof -
  have "length (cover_parts False (sample_spec gs)) = length (map snd (cover_parts False (sample_spec gs)))"
    by simp
  also have "\<dots> \<le> 16" unfolding cover_parts_snd using assms(2) by (simp add: sample_spec_simps)
  finally show "length (cover_parts False (sample_spec gs)) \<le> 2 ^ 31" by simp
  have "set (alphabet_list (sample_spec gs)) \<subseteq> {''r'', ''g'', ''h''}"
    using assms(3) by (auto simp: set_alphabet_list sample_spec_simps)
  then have "card (set (alphabet_list (sample_spec gs))) \<le> card {''r'', ''g'', ''h''}"
    by (intro card_mono) simp_all
  then show "card (set (alphabet_list (sample_spec gs))) < 2 ^ 30" by (simp add: card_insert_if)
qed (use assms(1) in \<open>simp add: sample_spec_simps\<close>)

lemma sample_cover_single:
  assumes "ground f" and "atoms f \<subseteq> {''r'', ''g'', ''h''}" and "''g'' \<in> atoms f"
  obtains cov c i where "cover_build (\<lambda>_. 3) (sample_spec [f]) False = Some cov"
    "cov_items cov = [c]" "con_formula c = f" "i < length (names (cov_aps cov))" "names (cov_aps cov) ! i = ''g''"
    "entered (cov_aps cov) (occs (con_nnf c) False False) c" "to_nnf f True False = Some (con_nnf c)"
proof -
  let ?s = "sample_spec [f]"
  have ok: "spec_ground ?s" "length (cover_parts False ?s) \<le> 2 ^ 31" "card (set (alphabet_list ?s)) < 2 ^ 30"
    using sample_spec_cover [of "[f]"] assms by simp_all
  from cover_build_ok [OF ok, of "\<lambda>_. 3"] obtain cov where
    cov: "cover_build (\<lambda>_. 3) ?s False = Some cov" "cover_for (\<lambda>_. 3) ?s False cov" by blast
  have parts: "map snd (cover_parts False ?s) = [f]" unfolding cover_parts_snd by (simp add: sample_spec_simps)
  have "length (cover_parts False ?s) = length [f]" using arg_cong [OF parts, of length] by (simp only: length_map)
  with cov(2) obtain c where c: "cov_items cov = [c]" "stored False 0 (cover_parts False ?s ! 0) c"
    by (auto simp: cover_for_def sample_spec_simps semantics_is_finite_def length_Suc_conv)
  from parts have "snd (cover_parts False ?s ! 0) = f" by auto
  with stored_fields [OF c(2)] have cf: "con_formula c = f" "to_nnf f True False = Some (con_nnf c)" by auto
  have "''g'' \<in> set (names (cov_aps cov))"
    using cov(2) by (simp add: cover_for_def table_for_def set_alphabet_list sample_spec_simps)
  then obtain i where "i < length (names (cov_aps cov))" "names (cov_aps cov) ! i = ''g''"
    by (auto simp: in_set_conv_nth)
  with that cov(1) c(1) cf cover_item(7) [OF cov(2) ok(1), of c] show ?thesis by simp
qed



text \<open>
  C11. What the polarity sets of the cover promise: an output of a constraint that is not
  among its negative outputs may be raised at any positions of a word without falsifying the
  constraint.
\<close>

theorem positive_outputs_monotone:
  assumes "spec_ground s" and "length (cover_parts split s) \<le> 2 ^ 31"
    and "card (set (alphabet_list s)) < 2 ^ 30" and "cover_build addr s split = Some cov"
    and "c \<in> set (cov_items cov)" and "i < length (names (cov_aps cov))"
    and "names (cov_aps cov) ! i \<in> output_names s" and "i \<notin> apset_elems (neg_outputs c)"
    and "word_length (semantics_is_finite (spec_semantics s)) L" and "enat k < L"
    and "sat L w (con_formula c) k" and "\<And>j. w j \<subseteq> w' j \<and> w' j - {names (cov_aps cov) ! i} \<subseteq> w j"
  shows "sat L w' (con_formula c) k"
proof -
  note cov = cover_for_build [OF assms(1-4)]
  note it = cover_item [OF cov assms(1,5)]
  have tab: "table_for addr s (cov_aps cov)" using cov by (simp add: cover_for_def)
  have no: "(names (cov_aps cov) ! i, True, d) \<notin> occs (con_nnf c) False False" for d
    using assms(6-8) tab entered_neg [OF it(7), of i] by (auto simp: table_for_def)
  have eq: "sem_eq L (con_nnf c) (con_formula c)"
    by (rule to_nnf_sem_eq [OF it(5) assms(9)])
  have "sat L w' (con_nnf c) k"
    by (rule sat_mono_positive [of w w' "names (cov_aps cov) ! i" _ False])
       (use assms(10-12) no to_nnf_is_nnf [OF it(5)] sem_eqD [OF eq] in auto)
  with sem_eqD [OF eq assms(10)] show ?thesis by simp
qed

theorem positive_outputs_monotone_witness:
  "\<exists>cov c. cover_build (\<lambda>_. 3) (sample_spec [node_g (node_impl (NodeAp ''r'') (NodeAp ''g''))]) False = Some cov \<and>
     cov_items cov = [c] \<and> sat \<infinity> (\<lambda>_. {''g''}) (con_formula c) 0"
proof -
  let ?f = "node_g (node_impl (NodeAp ''r'') (NodeAp ''g''))"
  let ?s = "sample_spec [?f]"
  obtain cov c i where c: "cover_build (\<lambda>_. 3) ?s False = Some cov" "cov_items cov = [c]"
    "con_formula c = ?f" "i < length (names (cov_aps cov))" "names (cov_aps cov) ! i = ''g''"
    "entered (cov_aps cov) (occs (con_nnf c) False False) c" "to_nnf ?f True False = Some (con_nnf c)"
    by (rule sample_cover_single [of ?f]) auto
  have ok: "spec_ground ?s" "length (cover_parts False ?s) \<le> 2 ^ 31" "card (set (alphabet_list ?s)) < 2 ^ 30"
    by (rule sample_spec_cover; simp)+
  have "con_nnf c = node_g (node_or (node_not (NodeAp ''r'')) (NodeAp ''g''))" using c(7) by simp
  then have "(''g'', True, d) \<notin> occs (con_nnf c) False False" for d by simp
  then have "i \<notin> apset_elems (neg_outputs c)"
    using c(5) entered_neg [OF c(6), of i] by simp
  then have "sat \<infinity> (\<lambda>_. {''g''}) (con_formula c) 0"
    using positive_outputs_monotone [OF ok c(1) _ c(4), of c \<infinity> 0 "\<lambda>_. {}" "\<lambda>_. {''g''}"] c(2,3,5)
    by (simp add: sample_spec_simps semantics_is_finite_def alw_def)
  with c(1,2) show ?thesis by blast
qed

text \<open>
  What the current and next sets of the cover promise: an output that a constraint
  reads only under a next operator has no say at the present position; whatever its value
  there, the constraint keeps its truth value.
\<close>

theorem next_outputs_not_current:
  assumes "spec_ground s" and "length (cover_parts split s) \<le> 2 ^ 31"
    and "card (set (alphabet_list s)) < 2 ^ 30" and "cover_build addr s split = Some cov"
    and "c \<in> set (cov_items cov)" and "i < length (names (cov_aps cov))"
    and "names (cov_aps cov) ! i \<in> output_names s" and "i \<notin> apset_elems (cur_outputs c)"
    and "word_length (semantics_is_finite (spec_semantics s)) L" and "enat k < L"
  shows "sat L (w(k := insert (names (cov_aps cov) ! i) (w k))) (con_formula c) k =
    sat L (w(k := w k - {names (cov_aps cov) ! i})) (con_formula c) k"
proof -
  note cov = cover_for_build [OF assms(1-4)]
  note it = cover_item [OF cov assms(1,5)]
  have tab: "table_for addr s (cov_aps cov)" using cov by (simp add: cover_for_def)
  have no: "(names (cov_aps cov) ! i, b, False) \<notin> occs (con_nnf c) False False" for b
    using assms(6-8) tab entered_cur [OF it(7), of i] by (auto simp: table_for_def)
  have eq: "sem_eq L (con_nnf c) (con_formula c)"
    by (rule to_nnf_sem_eq [OF it(5) assms(9)])
  let ?w1 = "w(k := insert (names (cov_aps cov) ! i) (w k))" and ?w2 = "w(k := w k - {names (cov_aps cov) ! i})"
  have "sat L ?w1 (con_nnf c) k = sat L ?w2 (con_nnf c) k"
    by (rule sat_not_current [where p = "names (cov_aps cov) ! i" and neg = False])
       (use assms(10) no is_nnf_ground [OF to_nnf_is_nnf [OF it(5)]] in auto)
  then show ?thesis using sem_eqD [OF eq assms(10)] by simp
qed

theorem next_outputs_not_current_witness:
  "\<exists>cov c. cover_build (\<lambda>_. 3) (sample_spec [node_x (NodeAp ''g'')]) False = Some cov \<and>
     cov_items cov = [c] \<and>
     sat \<infinity> ((\<lambda>_. {})(5 := {''g''})) (con_formula c) 5 = sat \<infinity> ((\<lambda>_. {})(5 := {})) (con_formula c) 5"
proof -
  let ?s = "sample_spec [node_x (NodeAp ''g'')]"
  obtain cov c i where c: "cover_build (\<lambda>_. 3) ?s False = Some cov" "cov_items cov = [c]"
    "con_formula c = node_x (NodeAp ''g'')" "i < length (names (cov_aps cov))" "names (cov_aps cov) ! i = ''g''"
    "entered (cov_aps cov) (occs (con_nnf c) False False) c"
    "to_nnf (node_x (NodeAp ''g'')) True False = Some (con_nnf c)"
    by (rule sample_cover_single [of "node_x (NodeAp ''g'')"]) auto
  have ok: "spec_ground ?s" "length (cover_parts False ?s) \<le> 2 ^ 31" "card (set (alphabet_list ?s)) < 2 ^ 30"
    by (rule sample_spec_cover; simp)+
  have "con_nnf c = node_x (NodeAp ''g'')" using c(7) by simp
  then have "(''g'', b, False) \<notin> occs (con_nnf c) False False" for b by simp
  then have "i \<notin> apset_elems (cur_outputs c)"
    using c(5) entered_cur [OF c(6), of i] by simp
  then have "sat \<infinity> ((\<lambda>_. {})(5 := {''g''})) (con_formula c) 5 = sat \<infinity> ((\<lambda>_. {})(5 := {})) (con_formula c) 5"
    using next_outputs_not_current [OF ok c(1) _ c(4), of c \<infinity> 5 "\<lambda>_. {}"] c(2,5)
    by (simp add: sample_spec_simps semantics_is_finite_def)
  with c(1,2) show ?thesis by blast
qed

end
