(* ===== verification/Residual_Keys.thy ===== *)
theory Residual_Keys
  imports Residual Cover_Correct
begin

text \<open>
  The cluster keys are right: two guarantees get the same key exactly when a chain of shared
  outputs connects them (or when everything is collapsed into one cluster).
\<close>

subsection \<open>Substitution\<close>

text \<open>Substituting a value for an atom that it equals on the word keeps the truth value.\<close>

lemma node_subst_sat:
  assumes "\<And>j. enat j < L \<Longrightarrow> (p \<in> w j) = sat L w v j"
  shows "enat i < L \<Longrightarrow> sat L w (node_subst n p v) i = sat L w n i"
proof (induction n arbitrary: i)
  case (Unary k a)
  then show ?case unfolding node_subst.simps sat.simps by (intro un_sem_cong) auto
next
  case (Binary k a b)
  then show ?case unfolding node_subst.simps sat.simps by (intro bin_sem_cong) auto
qed (use assms in auto)

lemma node_subst_atoms:
  "atoms (node_subst n p v) = (if p \<in> atoms n then atoms n - {p} \<union> atoms v else atoms n)"
  by (induction n) auto

lemma node_subst_ground: "ground n \<Longrightarrow> ground v \<Longrightarrow> ground (node_subst n p v)"
  by (induction n) auto

subsection \<open>Atoms\<close>

definition aps_of :: "ap_table \<Rightarrow> node \<Rightarrow> nat set" where
  "aps_of t n = {i. i < length (names t) \<and> names t ! i \<in> atoms n}"

lemma aps_of_simps [simp]:
  "aps_of t (Unary k a) = aps_of t a" "aps_of t (Binary l a b) = aps_of t a \<union> aps_of t b"
  by (auto simp: aps_of_def)

lemma aps_of_ap:
  assumes "ap_table_ok addr t"
  shows "aps_of t (NodeAp p) = (case index_of (names t) p of None \<Rightarrow> {} | Some i \<Rightarrow> {i})"
proof -
  have d: "distinct (names t)" using assms by (simp add: ap_table_ok_def)
  show ?thesis
    by (cases "index_of (names t) p")
       (auto simp: aps_of_def index_of_None dest: index_of_SomeD index_of_nth [OF d])
qed

definition marks :: "ap_table \<Rightarrow> bool list \<Rightarrow> nat set \<Rightarrow> bool" where
  "marks t seen S \<longleftrightarrow> length seen = length (names t) \<and> S = {i. i < length (names t) \<and> seen ! i}"

lemma marks_none: "marks t (replicate (length (names t)) False) {}"
  by (auto simp: marks_def)

lemma residual_collect_aps_ok:
  assumes t: "ap_table_ok addr t"
  shows "marks t seen S \<Longrightarrow> \<exists>seen'. residual_collect_aps addr t n seen = Some seen' \<and> marks t seen' (S \<union> aps_of t n)"
proof (induction n arbitrary: seen S)
  case (NodeAp p)
  then show ?case
    by (cases "index_of (names t) p")
       (auto simp: ap_table_find_ok [OF t] aps_of_ap [OF t] marks_def nth_list_update dest: index_of_SomeD)
next
  case (Binary k a b)
  from Binary.IH(1) [OF Binary.prems] obtain s1 where 1: "residual_collect_aps addr t a seen = Some s1"
    "marks t s1 (S \<union> aps_of t a)" by blast
  from Binary.IH(2) [OF 1(2)] 1(1) show ?case by (auto simp: Un_assoc)
qed (auto simp: aps_of_def)

lemma residual_aps_hit_ok:
  assumes t: "ap_table_ok addr t" and "marks t st S"
  shows "residual_aps_hit addr t st n = Some (S \<inter> aps_of t n \<noteq> {})"
proof (induction n)
  case (NodeAp p)
  then show ?case using assms(2)
    by (cases "index_of (names t) p")
       (auto simp: ap_table_find_ok [OF t] aps_of_ap [OF t] marks_def dest: index_of_SomeD)
qed (auto simp: aps_of_def)

subsection \<open>Shared outputs\<close>

definition outs :: "cover \<Rightarrow> node \<Rightarrow> nat set" where
  "outs cov f = {a \<in> aps_of (cov_aps cov) f. is_output cov a}"

definition all_outs :: "cover \<Rightarrow> nat set" where
  "all_outs cov = {a. a < ap_count cov \<and> is_output cov a}"

lemma outs_subset: "outs cov f \<subseteq> all_outs cov" "all_outs cov \<subseteq> {..<ap_count cov}"
  by (auto simp: outs_def all_outs_def aps_of_def)

lemma rtrancl_star:
  assumes "b \<in> S"
  shows "(R \<union> ((\<lambda>a. (a, b)) ` S \<union> ((\<lambda>a. (a, b)) ` S)\<inverse>))\<^sup>* = (R \<union> S \<times> S)\<^sup>*"
proof (rule subset_antisym)
  show "(R \<union> ((\<lambda>a. (a, b)) ` S \<union> ((\<lambda>a. (a, b)) ` S)\<inverse>))\<^sup>* \<subseteq> (R \<union> S \<times> S)\<^sup>*"
    by (rule rtrancl_mono) (use assms in auto)
  let ?T = "R \<union> ((\<lambda>a. (a, b)) ` S \<union> ((\<lambda>a. (a, b)) ` S)\<inverse>)"
  have "(x, y) \<in> ?T\<^sup>*" if "x \<in> S" "y \<in> S" for x y
  proof -
    have "(x, b) \<in> ?T" "(b, y) \<in> ?T" using that by auto
    then show ?thesis by (meson r_into_rtrancl rtrancl_trans)
  qed
  then show "(R \<union> S \<times> S)\<^sup>* \<subseteq> ?T\<^sup>*" by (intro rtrancl_subset_rtrancl) auto
qed

lemma union_selected_Some:
  "union_selected sel as (Some b) par =
     map_option (Pair (Some b)) (uf.join_pairs (map (\<lambda>a. (a, b)) (filter sel as)) par)"
proof (induction as arbitrary: par)
  case (Cons a as)
  then show ?case by (cases "uf_union par a b") auto
qed simp

lemma union_selected_None:
  "union_selected sel as None par =
     (case filter sel as of [] \<Rightarrow> Some (None, par)
      | b # bs \<Rightarrow> map_option (Pair (Some b)) (uf.join_pairs (map (\<lambda>a. (a, b)) bs) par))"
  by (induction as) (auto simp: union_selected_Some)

text \<open>One union loop puts all selected indices into one set.\<close>

lemma union_selected_ok:
  assumes ok: "uf_ok par" and S: "{a \<in> {..<length par}. sel a} = S"
  shows "\<exists>first par'. union_selected sel [0..<length par] None par = Some (first, par') \<and>
    (first = None \<longleftrightarrow> S = {}) \<and> (\<forall>b. first = Some b \<longrightarrow> b \<in> S) \<and>
    uf_ok par' \<and> length par' = length par \<and> (uf_rel par')\<^sup>* = (uf_rel par \<union> S \<times> S)\<^sup>*"
proof (cases "filter sel [0..<length par]")
  case Nil
  then have "S = {}" using S by (auto simp: filter_empty_conv)
  with Nil ok show ?thesis by (simp add: union_selected_None)
next
  case (Cons b bs)
  have set: "set (b # bs) = S" using S unfolding Cons [symmetric] by auto
  then have lt: "b < length par" "set bs \<subseteq> {..<length par}" using S by auto
  from uf.join_pairs_ok [OF ok, of "map (\<lambda>a. (a, b)) bs"] lt obtain par' where
    p: "uf.join_pairs (map (\<lambda>a. (a, b)) bs) par = Some par'" "uf_ok par'" "length par' = length par"
    "(uf_rel par')\<^sup>* = (uf_rel par \<union> set (map (\<lambda>a. (a, b)) bs) \<union> (set (map (\<lambda>a. (a, b)) bs))\<inverse>)\<^sup>*"
    by (auto simp: lessThan_def)
  have "(uf_rel par')\<^sup>* = (uf_rel par \<union> S \<times> S)\<^sup>*"
  proof -
    let ?P = "(\<lambda>a. (a, b)) ` set bs" and ?Q = "(\<lambda>a. (a, b)) ` S"
    have q: "?Q = insert (b, b) ?P" using set by auto
    then have sub: "(uf_rel par \<union> (?Q \<union> ?Q\<inverse>)) \<subseteq> (uf_rel par \<union> ?P \<union> ?P\<inverse>)\<^sup>*" by auto
    have "uf_rel par \<union> ?P \<union> ?P\<inverse> \<subseteq> uf_rel par \<union> (?Q \<union> ?Q\<inverse>)" unfolding q by auto
    with rtrancl_subset_rtrancl [OF sub] rtrancl_mono
    have "(uf_rel par \<union> (?Q \<union> ?Q\<inverse>))\<^sup>* = (uf_rel par \<union> ?P \<union> ?P\<inverse>)\<^sup>*" by blast
    with rtrancl_star [of b S "uf_rel par"] set p(4) show ?thesis by auto
  qed
  with p Cons set show ?thesis by (auto simp: union_selected_None)
qed

subsection \<open>The union of co-occurring outputs\<close>

definition co_occur :: "cover \<Rightarrow> (constraint \<times> node option) list \<Rightarrow> (nat \<times> nat) set" where
  "co_occur cov cs = (\<Union>f\<in>{f. \<exists>c. (c, Some f) \<in> set cs}. outs cov f \<times> outs cov f)"

lemma co_occur_Cons [simp]:
  "co_occur cov [] = {}"
  "co_occur cov ((c, None) # cs) = co_occur cov cs"
  "co_occur cov ((c, Some f) # cs) = outs cov f \<times> outs cov f \<union> co_occur cov cs"
  by (auto simp: co_occur_def)

lemma co_occur_sym: "(x, y) \<in> co_occur cov cs \<Longrightarrow> (y, x) \<in> co_occur cov cs"
  by (auto simp: co_occur_def)

lemma union_constraints_ok:
  assumes t: "ap_table_ok addr (cov_aps cov)"
  shows "uf_ok par \<Longrightarrow> length par = ap_count cov \<Longrightarrow>
    \<exists>par'. union_constraints addr cov cs dep par =
        Some (dep \<or> (\<exists>c f. (c, Some f) \<in> set cs \<and> assumption_side c \<and> outs cov f \<noteq> {}), par') \<and>
      uf_ok par' \<and> length par' = ap_count cov \<and>
      (uf_rel par')\<^sup>* = (uf_rel par \<union> co_occur cov cs)\<^sup>*"
proof (induction cs arbitrary: dep par)
  case (Cons x cs)
  obtain c r where x: "x = (c, r)" by (cases x)
  show ?case
  proof (cases r)
    case None
    then show ?thesis using Cons x by simp
  next
    case (Some f)
    from residual_collect_aps_ok [OF t marks_none, of f] obtain seen where
      seen: "residual_collect_aps addr (cov_aps cov) f (no_aps cov) = Some seen"
      "marks (cov_aps cov) seen (aps_of (cov_aps cov) f)" by auto
    let ?sel = "\<lambda>a. seen ! a \<and> is_output cov a"
    have S: "{a \<in> {..<length par}. ?sel a} = outs cov f"
      using seen(2) Cons.prems(2) by (auto simp: marks_def outs_def)
    from union_selected_ok [OF Cons.prems(1) S] Cons.prems(2) obtain first par1 where
      u: "union_selected ?sel [0..<ap_count cov] None par = Some (first, par1)"
      "first = None \<longleftrightarrow> outs cov f = {}" "uf_ok par1" "length par1 = ap_count cov"
      "(uf_rel par1)\<^sup>* = (uf_rel par \<union> outs cov f \<times> outs cov f)\<^sup>*" by auto
    from Cons.IH [OF u(3,4), of "dep \<or> (first \<noteq> None \<and> assumption_side c)"] obtain par' where
      r: "union_constraints addr cov cs (dep \<or> (first \<noteq> None \<and> assumption_side c)) par1 =
        Some ((dep \<or> (first \<noteq> None \<and> assumption_side c)) \<or>
          (\<exists>c f. (c, Some f) \<in> set cs \<and> assumption_side c \<and> outs cov f \<noteq> {}), par')"
      "uf_ok par'" "length par' = ap_count cov"
      "(uf_rel par')\<^sup>* = (uf_rel par1 \<union> co_occur cov cs)\<^sup>*" by blast
    have "(uf_rel par1 \<union> co_occur cov cs)\<^sup>* = ((uf_rel par1)\<^sup>* \<union> (co_occur cov cs)\<^sup>*)\<^sup>*"
      by (simp only: rtrancl_Un_rtrancl)
    also have "\<dots> = (uf_rel par \<union> outs cov f \<times> outs cov f \<union> co_occur cov cs)\<^sup>*"
      unfolding u(5) by (rule rtrancl_Un_rtrancl)
    finally have rel: "(uf_rel par')\<^sup>* = (uf_rel par \<union> co_occur cov (x # cs))\<^sup>*"
      unfolding r(4) x Some by (simp add: Un_assoc)
    have dep: "(dep \<or> (first \<noteq> None \<and> assumption_side c)) \<or>
          (\<exists>c f. (c, Some f) \<in> set cs \<and> assumption_side c \<and> outs cov f \<noteq> {}) \<longleftrightarrow>
        dep \<or> (\<exists>c f. (c, Some f) \<in> set (x # cs) \<and> assumption_side c \<and> outs cov f \<noteq> {})"
      unfolding u(2) x Some by auto
    have "union_constraints addr cov (x # cs) dep par = Some ((dep \<or> (first \<noteq> None \<and> assumption_side c)) \<or>
          (\<exists>c f. (c, Some f) \<in> set cs \<and> assumption_side c \<and> outs cov f \<noteq> {}), par')"
      unfolding x Some using seen(1) u(1) r(1) by simp
    note this [unfolded dep]
    with r(2,3) rel show ?thesis by blast
  qed
qed simp

text \<open>The representative of an element.\<close>

definition rep_in :: "nat list \<Rightarrow> nat \<Rightarrow> nat" where
  "rep_in par x = (case uf_find par x of Some (_, r) \<Rightarrow> r | None \<Rightarrow> x)"

lemma rep_in_root: "uf_ok par \<Longrightarrow> x < length par \<Longrightarrow> root_of par x (rep_in par x)"
  using uf_find_ok [of par x] by (auto simp: rep_in_def)

lemma rep_in_eq_iff:
  assumes "uf_ok par" and "x < length par" and "y < length par"
  shows "rep_in par x = rep_in par y \<longleftrightarrow> (x, y) \<in> (uf_rel par)\<^sup>*"
proof -
  note r = rep_in_root [OF assms(1,2)] rep_in_root [OF assms(1,3)]
  have "(x, y) \<in> uf_rel par \<longleftrightarrow> rep_in par x = rep_in par y"
    by (rule uf_rel_iff [OF r assms(2,3)])
  then show ?thesis using uf_rel_rtrancl [of x y par] by auto
qed

lemma uf_find_same:
  assumes "uf_ok par" and "same_roots par0 par" and "uf_ok par0" and "x < length par0"
  shows "\<exists>par'. uf_find par x = Some (par', rep_in par0 x) \<and> uf_ok par' \<and> same_roots par0 par'"
proof -
  have x: "x < length par" using assms(2,4) by (simp add: same_roots_def)
  from uf_find_ok [OF assms(1) x] obtain par' r where f: "uf_find par x = Some (par', r)"
    "root_of par x r" "uf_ok par'" "same_roots par par'" by blast
  from f(2) assms(2,4) have "root_of par0 x r" by (simp add: same_roots_def)
  with rep_in_root [OF assms(3,4)] root_of_unique have "r = rep_in par0 x" by blast
  with f same_roots_trans [OF assms(2) f(4)] show ?thesis by blast
qed

text \<open>The key of a constraint over a fixed partition.\<close>

definition key_for :: "cover \<Rightarrow> nat list \<Rightarrow> nat option \<Rightarrow> constraint \<Rightarrow> node option \<Rightarrow> nat \<Rightarrow> bool" where
  "key_for cov par collapse c r k \<longleftrightarrow>
     (case r of None \<Rightarrow> k = NO_KEY
      | Some f \<Rightarrow> if assumption_side c then k = NO_KEY
                  else if outs cov f \<noteq> {} then \<exists>a\<in>outs cov f. k = rep_in par a
                  else k = (case collapse of Some b \<Rightarrow> rep_in par b | None \<Rightarrow> ap_count cov))"

lemma constraint_keys_ok:
  assumes t: "ap_table_ok addr (cov_aps cov)" and ok: "uf_ok par0" and l: "length par0 = ap_count cov"
    and co: "\<And>b. collapse = Some b \<Longrightarrow> b < ap_count cov"
  shows "uf_ok par \<Longrightarrow> same_roots par0 par \<Longrightarrow>
    \<exists>ks. constraint_keys addr cov collapse cs par = Some ks \<and>
      list_all2 (\<lambda>x k. key_for cov par0 collapse (fst x) (snd x) k) cs ks"
proof (induction cs arbitrary: par)
  case (Cons x cs)
  obtain c r where x: "x = (c, r)" by (cases x)
  note IH = Cons.IH [OF Cons.prems]
  consider "r = None" | f where "r = Some f" "assumption_side c" | f where "r = Some f" "\<not> assumption_side c"
    by (cases r) auto
  then show ?case
  proof cases
    case 3
    from residual_collect_aps_ok [OF t marks_none, of f] obtain seen where
      seen: "residual_collect_aps addr (cov_aps cov) f (no_aps cov) = Some seen"
      "marks (cov_aps cov) seen (aps_of (cov_aps cov) f)" by auto
    let ?find = "find (\<lambda>a. seen ! a \<and> is_output cov a) [0..<ap_count cov]"
    have none: "?find = None \<longleftrightarrow> outs cov f = {}"
      using seen(2) by (auto simp: find_None_iff marks_def outs_def)
    have some: "a \<in> outs cov f" if "?find = Some a" for a
      using that seen(2) by (auto simp: find_Some_iff marks_def outs_def)
    have lt: "a < length par0" if "a \<in> outs cov f" for a
      using that outs_subset(2) [of cov] outs_subset(1) [of cov f] l by auto
    have "\<exists>k par'. (case ?find of
          Some first \<Rightarrow> do { (par', k) \<leftarrow> uf_find par first; Some (k, par') }
        | None \<Rightarrow> (case collapse of
            Some c0 \<Rightarrow> do { (par', k) \<leftarrow> uf_find par c0; Some (k, par') }
          | None \<Rightarrow> Some (ap_count cov, par))) = Some (k, par') \<and>
        key_for cov par0 collapse c r k \<and> uf_ok par' \<and> same_roots par0 par'"
    proof (cases ?find)
      case (Some a)
      from uf_find_same [OF Cons.prems ok lt [OF some [OF Some]]] some [OF Some] Some 3
      show ?thesis by (auto simp: key_for_def)
    next
      case None
      show ?thesis
      proof (cases collapse)
        case (Some b)
        from uf_find_same [OF Cons.prems ok, of b] co [OF Some] l none None Some 3
        show ?thesis by (auto simp: key_for_def)
      qed (use none None 3 Cons.prems in \<open>auto simp: key_for_def\<close>)
    qed
    then obtain k par' where k: "(case ?find of
          Some first \<Rightarrow> do { (par', k) \<leftarrow> uf_find par first; Some (k, par') }
        | None \<Rightarrow> (case collapse of
            Some c0 \<Rightarrow> do { (par', k) \<leftarrow> uf_find par c0; Some (k, par') }
          | None \<Rightarrow> Some (ap_count cov, par))) = Some (k, par')"
      "key_for cov par0 collapse c r k" "uf_ok par'" "same_roots par0 par'" by blast
    from Cons.IH [OF k(3,4)] obtain ks where ks: "constraint_keys addr cov collapse cs par' = Some ks"
      "list_all2 (\<lambda>x k. key_for cov par0 collapse (fst x) (snd x) k) cs ks" by blast
    have "constraint_keys addr cov collapse (x # cs) par = Some (k # ks)"
      unfolding x 3 constraint_keys.simps option.case seen(1) bind.bind_lunit k(1)
      using 3(2) ks(1) by simp
    with k(2) ks(2) x show ?thesis by auto
  next
    case 1
    then have "key_for cov par0 collapse c r NO_KEY" by (simp add: key_for_def)
    with IH x 1 show ?thesis by auto
  next
    case 2
    then have "key_for cov par0 collapse c r NO_KEY" by (simp add: key_for_def)
    with IH x 2 show ?thesis by auto
  qed
qed simp

lemma distinct_keys_ok:
  "distinct (distinct_keys ks) \<and> set (distinct_keys ks) = set ks - {NO_KEY}"
proof -
  have "distinct acc \<Longrightarrow> distinct (foldl (\<lambda>acc k. if k = NO_KEY \<or> k \<in> set acc then acc else acc @ [k]) acc ks) \<and>
      set (foldl (\<lambda>acc k. if k = NO_KEY \<or> k \<in> set acc then acc else acc @ [k]) acc ks) =
        set acc \<union> (set ks - {NO_KEY})" for acc
    by (induction ks arbitrary: acc) auto
  from this [of "[]"] show ?thesis by (simp add: distinct_keys_def)
qed

definition collapsed :: "cover \<Rightarrow> (constraint \<times> node option) list \<Rightarrow> bool" where
  "collapsed cov cs \<longleftrightarrow> semantics_is_finite (spec_semantics (cov_spec cov)) \<or>
     (\<exists>c f. (c, Some f) \<in> set cs \<and> assumption_side c \<and> outs cov f \<noteq> {})"

definition linked :: "cover \<Rightarrow> (constraint \<times> node option) list \<Rightarrow> node \<Rightarrow> node \<Rightarrow> bool" where
  "linked cov cs f g \<longleftrightarrow> collapsed cov cs \<or>
     (if outs cov f = {} \<or> outs cov g = {} then outs cov f = outs cov g
      else \<exists>a\<in>outs cov f. \<exists>b\<in>outs cov g. (a, b) \<in> (co_occur cov cs)\<^sup>*)"

definition is_guarantee :: "constraint \<times> node option \<Rightarrow> bool" where
  "is_guarantee x \<longleftrightarrow> \<not> assumption_side (fst x) \<and> snd x \<noteq> None"

lemma cluster_keys_ok:
  fixes rf :: "node option list"
  assumes t: "ap_table_ok addr (cov_aps cov)" and small: "ap_count cov < NO_KEY"
  defines "cs \<equiv> zip (cov_items cov) rf"
  shows "\<exists>ks. residual_cluster_keys addr cov rf = Some (ks, distinct_keys ks) \<and> length ks = length cs \<and>
    (\<forall>i<length cs. (ks ! i = NO_KEY \<longleftrightarrow> \<not> is_guarantee (cs ! i))) \<and>
    (\<forall>i<length cs. \<forall>j<length cs. is_guarantee (cs ! i) \<longrightarrow> is_guarantee (cs ! j) \<longrightarrow>
       (ks ! i = ks ! j \<longleftrightarrow> linked cov cs (the (snd (cs ! i))) (the (snd (cs ! j)))))"
proof -
  let ?A = "ap_count cov" and ?O = "all_outs cov"
  have len0: "length [0..<?A] = ?A" by simp
  from union_constraints_ok [OF t uf_init(1) len0, of cs False] obtain par1 where
    u: "union_constraints addr cov cs False [0..<?A] = Some
      (\<exists>c f. (c, Some f) \<in> set cs \<and> assumption_side c \<and> outs cov f \<noteq> {}, par1)"
    "uf_ok par1" "length par1 = ?A" "(uf_rel par1)\<^sup>* = (uf_rel [0..<?A] \<union> co_occur cov cs)\<^sup>*"
    by auto
  have "(uf_rel [0..<?A] \<union> co_occur cov cs)\<^sup>* = ((uf_rel [0..<?A])\<^sup>* \<union> (co_occur cov cs)\<^sup>*)\<^sup>*"
    by (simp only: rtrancl_Un_rtrancl)
  then have rel1: "(uf_rel par1)\<^sup>* = (co_occur cov cs)\<^sup>*"
    unfolding u(4) uf_init(2) by (metis (no_types) Un_absorb1 Un_commute rtrancl_idemp rtrancl_reflcl rtrancl_Un_rtrancl)
  have S: "{a \<in> {..<length par1}. is_output cov a} = ?O" using u(3) by (auto simp: all_outs_def)
  from union_selected_ok [OF u(2) S] u(3) obtain c2 par2 where
    v: "union_selected (is_output cov) [0..<?A] None par1 = Some (c2, par2)"
    "c2 = None \<longleftrightarrow> ?O = {}" "\<And>b. c2 = Some b \<Longrightarrow> b \<in> ?O" "uf_ok par2" "length par2 = ?A"
    "(uf_rel par2)\<^sup>* = (uf_rel par1 \<union> ?O \<times> ?O)\<^sup>*" by auto
  define co where "co = (if collapsed cov cs then c2 else None)"
  define par where "par = (if collapsed cov cs then par2 else par1)"
  have p: "uf_ok par" "length par = ?A" "\<And>b. co = Some b \<Longrightarrow> b < ?A"
    using u(2,3) v(3,4,5) outs_subset(2) [of cov] by (auto simp: par_def co_def split: if_splits)
  from constraint_keys_ok [OF t p p(1) same_roots_refl, where cs = cs] obtain ks where
    k: "constraint_keys addr cov co cs par = Some ks"
      "list_all2 (\<lambda>x k. key_for cov par co (fst x) (snd x) k) cs ks" by blast
  have run: "residual_cluster_keys addr cov rf = Some (ks, distinct_keys ks)"
  proof -
    define dep where "dep \<longleftrightarrow> (\<exists>c f. (c, Some f) \<in> set cs \<and> assumption_side c \<and> outs cov f \<noteq> {})"
    have d: "collapsed cov cs \<longleftrightarrow> dep \<or> semantics_is_finite (spec_semantics (cov_spec cov))"
      by (auto simp: collapsed_def dep_def)
    show ?thesis
      using u(1) [folded dep_def] v(1) k(1)
      unfolding residual_cluster_keys_def cs_def [symmetric] Let_def co_def par_def d
      by (cases "dep \<or> semantics_is_finite (spec_semantics (cov_spec cov))") simp_all
  qed
  have len: "length ks = length cs" using k(2) by (simp add: list_all2_lengthD)
  have key: "key_for cov par co (fst (cs ! i)) (snd (cs ! i)) (ks ! i)" if "i < length cs" for i
    using k(2) that by (simp add: list_all2_conv_all_nth)
  have oA: "a < ?A" if "a \<in> outs cov f" for a f
    using that outs_subset(2) [of cov] outs_subset(1) [of cov f] by auto
  have rA: "rep_in par a < ?A" if "a < ?A" for a
    using rep_in_root [OF p(1)] root_of_less p(1,2) that by metis
  have no: "ks ! i = NO_KEY \<longleftrightarrow> \<not> is_guarantee (cs ! i)" if i: "i < length cs" for i
  proof (cases "is_guarantee (cs ! i)")
    case True
    then obtain f where f: "snd (cs ! i) = Some f" "\<not> assumption_side (fst (cs ! i))"
      by (auto simp: is_guarantee_def)
    have "ks ! i \<le> ?A"
      using key [OF i] f rA oA p(3) unfolding key_for_def
      by (auto split: if_splits option.splits simp: less_imp_le)
    with small True show ?thesis by simp
  qed (use key [OF i] in \<open>auto simp: key_for_def is_guarantee_def split: option.splits\<close>)
  have same: "ks ! i = ks ! j \<longleftrightarrow> linked cov cs f g"
    if ij: "i < length cs" "j < length cs" and f: "snd (cs ! i) = Some f" "\<not> assumption_side (fst (cs ! i))"
      and g: "snd (cs ! j) = Some g" "\<not> assumption_side (fst (cs ! j))" for i j f g
  proof (cases "collapsed cov cs")
    case True
    have all: "rep_in par a = rep_in par b" if "a \<in> ?O" "b \<in> ?O" for a b
    proof -
      have "(a, b) \<in> (uf_rel par)\<^sup>*" unfolding par_def using True v(6) that by (auto intro: r_into_rtrancl)
      with rep_in_eq_iff [OF p(1)] p(2) outs_subset(2) [of cov] that show ?thesis by auto
    qed
    have "ks ! l = (case c2 of Some b \<Rightarrow> rep_in par b | None \<Rightarrow> ?A)"
      if "l < length cs" "snd (cs ! l) = Some h" "\<not> assumption_side (fst (cs ! l))" for l h
    proof (cases "outs cov h = {}")
      case False
      with key [OF that(1)] that obtain a where a: "a \<in> outs cov h" "ks ! l = rep_in par a"
        by (auto simp: key_for_def)
      then have aO: "a \<in> ?O" using outs_subset(1) by blast
      with v(2) obtain b where b: "c2 = Some b" by (cases c2) auto
      from all [OF aO v(3) [OF b]] a(2) b show ?thesis by simp
    qed (use key [OF that(1)] that True in \<open>simp add: key_for_def co_def\<close>)
    with ij f g True show ?thesis by (simp add: linked_def)
  next
    case False
    then have co: "co = None" "par = par1" by (simp_all add: co_def par_def)
    have rep: "rep_in par a = rep_in par b \<longleftrightarrow> (a, b) \<in> (co_occur cov cs)\<^sup>*" if "a < ?A" "b < ?A" for a b
      using rep_in_eq_iff [OF p(1)] p(2) that rel1 co(2) by simp
    have inner: "(a, b) \<in> co_occur cov cs" if "a \<in> outs cov h" "b \<in> outs cov h" "l < length cs" "snd (cs ! l) = Some h"
      for a b h l
    proof -
      have "(fst (cs ! l), Some h) \<in> set cs" using that(3,4) by (metis nth_mem prod.collapse)
      then show ?thesis using that(1,2) unfolding co_occur_def by blast
    qed
    show ?thesis
    proof (cases "outs cov f = {} \<or> outs cov g = {}")
      case True
      have kA: "ks ! l = ?A \<longleftrightarrow> outs cov h = {}"
        if "l < length cs" "snd (cs ! l) = Some h" "\<not> assumption_side (fst (cs ! l))" for l h
      proof (cases "outs cov h = {}")
        case False
        with key [OF that(1)] that obtain a where "a \<in> outs cov h" "ks ! l = rep_in par a"
          by (auto simp: key_for_def)
        with rA [OF oA] False show ?thesis by fastforce
      qed (use key [OF that(1)] that co in \<open>simp add: key_for_def\<close>)
      have "linked cov cs f g \<longleftrightarrow> outs cov f = {} \<and> outs cov g = {}"
        using True False by (auto simp: linked_def)
      moreover have "ks ! i = ks ! j \<longleftrightarrow> ks ! i = ?A \<and> ks ! j = ?A"
        using True kA [OF ij(1) f] kA [OF ij(2) g] by auto
      ultimately show ?thesis using kA [OF ij(1) f] kA [OF ij(2) g] by simp
    next
      case ne: False
      with key [OF ij(1)] key [OF ij(2)] f g obtain a b where
        ab: "a \<in> outs cov f" "ks ! i = rep_in par a" "b \<in> outs cov g" "ks ! j = rep_in par b"
        by (auto simp: key_for_def)
      have "(\<exists>a\<in>outs cov f. \<exists>b\<in>outs cov g. (a, b) \<in> (co_occur cov cs)\<^sup>*) \<longleftrightarrow> (a, b) \<in> (co_occur cov cs)\<^sup>*"
        using ab(1,3) inner [OF _ _ ij(1) f(1)] inner [OF _ _ ij(2) g(1)]
        by (meson r_into_rtrancl rtrancl_trans)
      then show ?thesis using ne False ab rep oA by (simp add: linked_def)
    qed
  qed
  have "\<forall>i<length cs. \<forall>j<length cs. is_guarantee (cs ! i) \<longrightarrow> is_guarantee (cs ! j) \<longrightarrow>
       (ks ! i = ks ! j \<longleftrightarrow> linked cov cs (the (snd (cs ! i))) (the (snd (cs ! j))))"
    using same by (auto simp: is_guarantee_def)
  with run len no show ?thesis by blast
qed

end
