(* ===== verification/Games.thy ===== *)
theory Games
  imports Ltl_Semantics
begin

text \<open>
  The synthesis game over infinite words, as the abstract specification of the residual
  clusters: a system with the outputs \<open>Out\<close> answers the inputs it has seen, the present one
  included (Mealy timing) or not (Moore timing).
\<close>

subsection \<open>Plays\<close>

type_synonym strategy = "letter list \<Rightarrow> letter"

definition seen_inputs :: "bool \<Rightarrow> ap set \<Rightarrow> trace \<Rightarrow> nat \<Rightarrow> letter list" where
  "seen_inputs moore Out x n = map (\<lambda>k. x k - Out) [0..<(if moore then n else Suc n)]"

definition play :: "bool \<Rightarrow> ap set \<Rightarrow> strategy \<Rightarrow> trace \<Rightarrow> trace" where
  "play moore Out \<sigma> x n = (x n - Out) \<union> (\<sigma> (seen_inputs moore Out x n) \<inter> Out)"

definition realizable :: "bool \<Rightarrow> ap set \<Rightarrow> (trace \<Rightarrow> bool) \<Rightarrow> bool" where
  "realizable moore Out \<phi> \<longleftrightarrow> (\<exists>\<sigma>. \<forall>x. \<phi> (play moore Out \<sigma> x))"

text \<open>The objective only looks at the signals \<open>V\<close>.\<close>

definition looks_at :: "ap set \<Rightarrow> (trace \<Rightarrow> bool) \<Rightarrow> bool" where
  "looks_at V \<phi> \<longleftrightarrow> (\<forall>w w'. (\<forall>n. w n \<inter> V = w' n \<inter> V) \<longrightarrow> \<phi> w = \<phi> w')"

lemma looks_atD: "looks_at V \<phi> \<Longrightarrow> (\<And>n. w n \<inter> V = w' n \<inter> V) \<Longrightarrow> \<phi> w \<Longrightarrow> \<phi> w'"
  by (auto simp: looks_at_def)

lemma looks_at_mono: "looks_at V \<phi> \<Longrightarrow> V \<subseteq> V' \<Longrightarrow> looks_at V' \<phi>"
  unfolding looks_at_def by blast

lemma realizable_weaken: "realizable moore Out \<phi> \<Longrightarrow> (\<And>w. \<phi> w \<Longrightarrow> \<psi> w) \<Longrightarrow> realizable moore Out \<psi>"
  unfolding realizable_def by blast

lemma realizable_cong: "(\<And>w. \<phi> w = \<psi> w) \<Longrightarrow> realizable moore Out \<phi> = realizable moore Out \<psi>"
  unfolding realizable_def by simp

subsection \<open>Splitting a game\<close>

text \<open>
  Objectives that own disjoint outputs can be played apart: each strategy is restricted to its
  own outputs and the union plays them all.
\<close>

lemma realizable_split:
  assumes own: "\<And>k k'. k \<in> K \<Longrightarrow> k' \<in> K \<Longrightarrow> k \<noteq> k' \<Longrightarrow> own k \<inter> own k' = {}"
    and looks: "\<And>k. k \<in> K \<Longrightarrow> looks_at (own k \<union> - Out) (\<phi> k)"
  shows "realizable moore Out (\<lambda>w. \<forall>k\<in>K. \<phi> k w) \<longleftrightarrow> (\<forall>k\<in>K. realizable moore Out (\<phi> k))"
proof
  assume "realizable moore Out (\<lambda>w. \<forall>k\<in>K. \<phi> k w)"
  then show "\<forall>k\<in>K. realizable moore Out (\<phi> k)" unfolding realizable_def by blast
next
  assume "\<forall>k\<in>K. realizable moore Out (\<phi> k)"
  then obtain \<sigma> where s: "\<And>k x. k \<in> K \<Longrightarrow> \<phi> k (play moore Out (\<sigma> k) x)"
    unfolding realizable_def by metis
  define \<tau> where "\<tau> = (\<lambda>h. \<Union>k\<in>K. \<sigma> k h \<inter> own k)"
  have "\<phi> k (play moore Out \<tau> x)" if k: "k \<in> K" for k x
  proof (rule looks_atD [OF looks [OF k] _ s [OF k, of x]])
    fix n
    have "\<tau> h \<inter> own k = \<sigma> k h \<inter> own k" for h using own [OF k] k unfolding \<tau>_def by blast
    then show "play moore Out (\<sigma> k) x n \<inter> (own k \<union> - Out) = play moore Out \<tau> x n \<inter> (own k \<union> - Out)"
      unfolding play_def by blast
  qed
  then show "realizable moore Out (\<lambda>w. \<forall>k\<in>K. \<phi> k w)" unfolding realizable_def by blast
qed

text \<open>Signals the objective does not look at do not matter, whoever owns them.\<close>

lemma realizable_restrict:
  assumes looks: "looks_at V \<phi>"
  shows "realizable moore (Out \<inter> V) \<phi> \<longleftrightarrow> realizable moore Out \<phi>"
proof
  assume "realizable moore (Out \<inter> V) \<phi>"
  then obtain \<sigma> where s: "\<And>x. \<phi> (play moore (Out \<inter> V) \<sigma> x)" unfolding realizable_def by blast
  have "\<phi> (play moore Out \<sigma> x)" for x
  proof (rule looks_atD [OF looks _ s [of "\<lambda>n. x n - Out"]])
    fix n
    have "seen_inputs moore (Out \<inter> V) (\<lambda>n. x n - Out) n = seen_inputs moore Out x n"
      unfolding seen_inputs_def by (rule map_cong) auto
    then show "play moore (Out \<inter> V) \<sigma> (\<lambda>n. x n - Out) n \<inter> V = play moore Out \<sigma> x n \<inter> V"
      unfolding play_def by auto
  qed
  then show "realizable moore Out \<phi>" unfolding realizable_def by blast
next
  assume "realizable moore Out \<phi>"
  then obtain \<sigma> where s: "\<And>x. \<phi> (play moore Out \<sigma> x)" unfolding realizable_def by blast
  let ?\<tau> = "\<lambda>h. \<sigma> (map (\<lambda>l. l - Out) h)"
  have "\<phi> (play moore (Out \<inter> V) ?\<tau> x)" for x
  proof (rule looks_atD [OF looks _ s [of x]])
    fix n
    have "map (\<lambda>l. l - Out) (seen_inputs moore (Out \<inter> V) x n) = seen_inputs moore Out x n"
      unfolding seen_inputs_def map_map by (rule map_cong) auto
    then show "play moore Out \<sigma> x n \<inter> V = play moore (Out \<inter> V) ?\<tau> x n \<inter> V"
      unfolding play_def by auto
  qed
  then show "realizable moore (Out \<inter> V) \<phi>" unfolding realizable_def by blast
qed

subsection \<open>Dropping an assumption\<close>

definition overlay :: "ap set \<Rightarrow> trace \<Rightarrow> trace \<Rightarrow> trace" where
  "overlay V t x n = (x n - V) \<union> (t n \<inter> V)"

text \<open>
  An assumption \<open>\<delta>\<close> over inputs \<open>V\<close> that the rest \<open>\<psi>\<close> of the objective does not look at, and that
  some word \<open>t\<close> satisfies, gives the system no power: it can pretend that the environment plays \<open>t\<close>.
\<close>

lemma realizable_prune:
  assumes weaker: "\<And>w. \<psi> w \<Longrightarrow> \<chi> w" and under: "\<And>w. \<delta> w \<Longrightarrow> \<chi> w \<Longrightarrow> \<psi> w"
    and d: "looks_at V \<delta>" and p: "looks_at (- V) \<psi>" and inputs: "V \<inter> Out = {}" and t: "\<delta> t"
  shows "realizable moore Out \<chi> \<longleftrightarrow> realizable moore Out \<psi>"
proof
  assume "realizable moore Out \<chi>"
  then obtain \<sigma> where s: "\<And>x. \<chi> (play moore Out \<sigma> x)" unfolding realizable_def by blast
  define \<tau> where "\<tau> = (\<lambda>h. \<sigma> (map (\<lambda>k. (h ! k - V) \<union> (t k \<inter> V)) [0..<length h]))"
  have hist: "map (\<lambda>k. (seen_inputs moore Out x n ! k - V) \<union> (t k \<inter> V)) [0..<length (seen_inputs moore Out x n)] =
      seen_inputs moore Out (overlay V t x) n" for x n
    using inputs unfolding seen_inputs_def overlay_def by (auto simp: nth_append)
  have "\<psi> (play moore Out \<tau> x)" for x
  proof -
    let ?w = "play moore Out \<sigma> (overlay V t x)"
    have "\<delta> ?w"
      by (rule looks_atD [OF d _ t]) (use inputs in \<open>auto simp: play_def overlay_def\<close>)
    then have "\<psi> ?w" using s under by blast
    moreover have "?w n \<inter> - V = play moore Out \<tau> x n \<inter> - V" for n
      unfolding play_def \<tau>_def hist by (auto simp: overlay_def)
    ultimately show ?thesis by (rule looks_atD [OF p, rotated])
  qed
  then show "realizable moore Out \<psi>" unfolding realizable_def by blast
qed (rule realizable_weaken [OF _ weaker])

end
