(* ===== verification/Cluster_Meaning.thy ===== *)
theory Cluster_Meaning
  imports Games Section_Pattern Env_Witness_Correct Cover_Correct
begin

text \<open>
  The meaning of a set of section entries as a conjunction of one obligation per guarantee
  entry, each under the whole environment.  This is what lets the residual be split by its
  guarantees and its environment be pruned.
\<close>

subsection \<open>Obligations\<close>

type_synonym entry = "role \<times> node"

definition holds_role :: "enat \<Rightarrow> trace \<Rightarrow> nat \<Rightarrow> entry set \<Rightarrow> role \<Rightarrow> bool" where
  "holds_role L w i A r \<longleftrightarrow> (\<forall>f. (r, f) \<in> A \<longrightarrow> sat L w f i)"

definition env_holds :: "enat \<Rightarrow> trace \<Rightarrow> entry set \<Rightarrow> bool" where
  "env_holds L w A \<longleftrightarrow> alw L (\<lambda>j. holds_role L w j A TLSF_ROLE_REQUIRE) 0 \<and>
     holds_role L w 0 A TLSF_ROLE_ASSUME"

definition obligation :: "bool \<Rightarrow> enat \<Rightarrow> trace \<Rightarrow> entry set \<Rightarrow> entry \<Rightarrow> bool" where
  "obligation strict L w A x \<longleftrightarrow>
     (holds_role L w 0 A TLSF_ROLE_INITIALLY \<longrightarrow>
       (case fst x of
          TLSF_ROLE_PRESET \<Rightarrow> sat L w (snd x) 0
        | TLSF_ROLE_ASSERT \<Rightarrow>
            if strict then weak_until L (sat L w (snd x)) (\<lambda>j. \<not> holds_role L w j A TLSF_ROLE_REQUIRE) 0
            else env_holds L w A \<longrightarrow> alw L (sat L w (snd x)) 0
        | TLSF_ROLE_GUARANTEE \<Rightarrow> env_holds L w A \<longrightarrow> sat L w (snd x) 0
        | _ \<Rightarrow> True))"

definition meets :: "bool \<Rightarrow> enat \<Rightarrow> entry set \<Rightarrow> trace \<Rightarrow> bool" where
  "meets strict L A w \<longleftrightarrow> (\<forall>x\<in>A. obligation strict L w A x)"

lemma weak_until_all:
  assumes "enat i < L"
  shows "weak_until L (\<lambda>j. \<forall>x\<in>S. P x j) Q i \<longleftrightarrow> (\<forall>x\<in>S. weak_until L (P x) Q i)"
proof (cases "\<exists>j\<ge>i. enat j < L \<and> Q j")
  case False
  then have "weak_until L R Q i = alw L R i" for R
    by (auto simp: weak_until_def until_def)
  then show ?thesis by (auto simp: alw_def)
next
  case True
  then obtain j where j: "i \<le> j" "enat j < L \<and> Q j" by blast
  from ex_first_from [of "\<lambda>j. enat j < L \<and> Q j", OF j(2,1)] obtain m where
    m: "i \<le> m" "enat m < L" "Q m" "\<forall>k. i \<le> k \<and> k < m \<longrightarrow> \<not> (enat k < L \<and> Q k)" by blast
  have E: "weak_until L R Q i \<longleftrightarrow> (\<forall>k. i \<le> k \<and> k < m \<longrightarrow> R k)" for R
  proof
    assume "weak_until L R Q i"
    then show "\<forall>k. i \<le> k \<and> k < m \<longrightarrow> R k"
    proof (unfold weak_until_def, elim disjE)
      assume "alw L R i"
      then show ?thesis using enat_less_trans_less [OF _ m(2)] by (auto simp: alw_def)
    next
      assume "until L R Q i"
      then obtain n where n: "i \<le> n" "enat n < L" "Q n" "\<forall>k. i \<le> k \<and> k < n \<longrightarrow> R k"
        by (auto simp: until_def)
      then have "m \<le> n" using m(4) by (meson not_le_imp_less)
      with n(4) show ?thesis by auto
    qed
  next
    assume r: "\<forall>k. i \<le> k \<and> k < m \<longrightarrow> R k"
    have "until L R Q i" unfolding until_def
      by (intro exI [of _ m] conjI m(1-3) r)
    then show "weak_until L R Q i" by (simp add: weak_until_def)
  qed
  show ?thesis unfolding E by blast
qed

definition entry_set :: "section_view \<Rightarrow> entry set" where
  "entry_set v = (\<lambda>e. (entry_role e, entry_formula e)) ` set (entries v)"

lemma all_hold_role: "all_hold L w i (role_formulas v r) \<longleftrightarrow> holds_role L w i (entry_set v) r"
  by (auto simp: all_hold_def role_formulas_def holds_role_def entry_set_def)

lemma class_formulas_both: "class_formulas v r True True = role_formulas v r"
proof -
  have "entry_cls e = FCLASS_SAFETY \<or> entry_cls e = FCLASS_LIVENESS" for e :: section_entry
    by (rule cls_cases)
  then show ?thesis
    by (auto simp: class_formulas_def role_formulas_def entry_selected_def
        intro!: arg_cong [where f = "map entry_formula"] filter_cong)
qed

lemma alw_all: "alw L (\<lambda>j. \<forall>x\<in>S. P x j) i \<longleftrightarrow> (\<forall>x\<in>S. alw L (P x) i)"
  by (auto simp: alw_def)

definition of_role :: "entry set \<Rightarrow> role \<Rightarrow> node set" where
  "of_role A r = {f. (r, f) \<in> A}"

lemma holds_role_ball: "holds_role L w i A r \<longleftrightarrow> (\<forall>f\<in>of_role A r. sat L w f i)"
  by (simp add: holds_role_def of_role_def)

lemma meets_roles:
  "meets strict L A w \<longleftrightarrow>
     (\<forall>f\<in>of_role A TLSF_ROLE_PRESET. obligation strict L w A (TLSF_ROLE_PRESET, f)) \<and>
     (\<forall>f\<in>of_role A TLSF_ROLE_ASSERT. obligation strict L w A (TLSF_ROLE_ASSERT, f)) \<and>
     (\<forall>f\<in>of_role A TLSF_ROLE_GUARANTEE. obligation strict L w A (TLSF_ROLE_GUARANTEE, f))"
proof -
  have "obligation strict L w A (r, f)" if "env_side r" for r f
    using that by (auto simp: obligation_def env_side_def)
  then have "meets strict L A w \<longleftrightarrow> (\<forall>x\<in>A. \<not> env_side (fst x) \<longrightarrow> obligation strict L w A x)"
    unfolding meets_def by (metis prod.collapse)
  also have "\<dots> \<longleftrightarrow> (\<forall>f\<in>of_role A TLSF_ROLE_PRESET. obligation strict L w A (TLSF_ROLE_PRESET, f)) \<and>
     (\<forall>f\<in>of_role A TLSF_ROLE_ASSERT. obligation strict L w A (TLSF_ROLE_ASSERT, f)) \<and>
     (\<forall>f\<in>of_role A TLSF_ROLE_GUARANTEE. obligation strict L w A (TLSF_ROLE_GUARANTEE, f))"
    (is "?l \<longleftrightarrow> ?r")
  proof
    assume ?l
    then show ?r by (auto simp: of_role_def env_side_def)
  next
    assume r: ?r
    show ?l
    proof (intro ballI impI)
      fix x assume x: "x \<in> A" "\<not> env_side (fst x)"
      obtain ro f where e: "x = (ro, f)" by (cases x)
      with x r show "obligation strict L w A x"
        by (cases ro) (auto simp: of_role_def env_side_def)
    qed
  qed
  finally show ?thesis .
qed

lemma tlsf_meaning_meets:
  assumes L: "enat 0 < L"
  shows "tlsf_meaning strict L w 0 (role_formulas v TLSF_ROLE_INITIALLY) (role_formulas v TLSF_ROLE_REQUIRE)
      (role_formulas v TLSF_ROLE_ASSUME) (role_formulas v TLSF_ROLE_PRESET)
      (role_formulas v TLSF_ROLE_ASSERT) (role_formulas v TLSF_ROLE_GUARANTEE) \<longleftrightarrow>
    meets strict L (entry_set v) w"
proof (cases strict)
  case True
  then show ?thesis
    unfolding tlsf_meaning_def meets_roles obligation_def all_hold_role Let_def env_holds_def
      holds_role_ball [of L w _ "entry_set v" TLSF_ROLE_PRESET]
      holds_role_ball [of L w _ "entry_set v" TLSF_ROLE_ASSERT]
      holds_role_ball [of L w _ "entry_set v" TLSF_ROLE_GUARANTEE]
      weak_until_all [OF L]
    by auto
next
  case False
  then show ?thesis
    unfolding tlsf_meaning_def meets_roles obligation_def all_hold_role Let_def env_holds_def
      holds_role_ball [of L w _ "entry_set v" TLSF_ROLE_PRESET]
      holds_role_ball [of L w _ "entry_set v" TLSF_ROLE_ASSERT]
      holds_role_ball [of L w _ "entry_set v" TLSF_ROLE_GUARANTEE]
      alw_all
    by auto
qed

text \<open>The formula of a view states that its entries are met.\<close>

lemma to_ltl_meets:
  assumes "enat 0 < L"
  shows "sat L w (section_pattern_to_ltl v True True) 0 \<longleftrightarrow>
    meets (semantics_is_strict (view_semantics v)) L (entry_set v) w"
  using section_pattern_to_ltl_sat [OF assms, of w v True True] tlsf_meaning_meets [OF assms]
  by (simp add: class_formulas_both)

subsection \<open>Splitting and pruning\<close>

lemma holds_role_cong:
  "(\<And>f. (r, f) \<in> A \<longleftrightarrow> (r, f) \<in> B) \<Longrightarrow> holds_role L w i A r = holds_role L w i B r"
  by (simp add: holds_role_def)

text \<open>The obligation of an entry depends on the environment entries only.\<close>

lemma obligation_env:
  assumes "\<And>x. env_side (fst x) \<Longrightarrow> x \<in> A \<longleftrightarrow> x \<in> B"
  shows "obligation strict L w A x = obligation strict L w B x"
proof -
  have e: "holds_role L w i A r = holds_role L w i B r" if "env_side r" for r i
    by (rule holds_role_cong) (use assms that in auto)
  have r: "env_side TLSF_ROLE_INITIALLY" "env_side TLSF_ROLE_REQUIRE" "env_side TLSF_ROLE_ASSUME"
    by (simp_all add: env_side_def)
  show ?thesis unfolding obligation_def env_holds_def e [OF r(1)] e [OF r(2)] e [OF r(3)] ..
qed

lemma obligation_env_side: "env_side (fst x) \<Longrightarrow> obligation strict L w A x"
  by (cases x) (auto simp: obligation_def env_side_def)

lemma meets_split:
  assumes cover: "\<And>x. x \<in> A \<Longrightarrow> \<not> env_side (fst x) \<Longrightarrow> \<exists>k\<in>K. x \<in> B k"
    and sub: "\<And>k. k \<in> K \<Longrightarrow> B k \<subseteq> A" and env: "\<And>k x. k \<in> K \<Longrightarrow> x \<in> A \<Longrightarrow> env_side (fst x) \<Longrightarrow> x \<in> B k"
  shows "meets strict L A w \<longleftrightarrow> (\<forall>k\<in>K. meets strict L (B k) w)"
proof -
  have same: "obligation strict L w (B k) x = obligation strict L w A x" if "k \<in> K" for k x
    by (rule obligation_env) (use sub env that in blast)
  show ?thesis
  proof
    assume "meets strict L A w"
    then show "\<forall>k\<in>K. meets strict L (B k) w" using sub same unfolding meets_def by blast
  next
    assume m: "\<forall>k\<in>K. meets strict L (B k) w"
    show "meets strict L A w" unfolding meets_def
    proof
      fix x assume "x \<in> A"
      then show "obligation strict L w A x"
        using m cover same obligation_env_side unfolding meets_def by (cases "env_side (fst x)") blast+
    qed
  qed
qed

text \<open>The dropped entries, as an assumption on the word.\<close>

definition env_entries_hold :: "entry set \<Rightarrow> trace \<Rightarrow> bool" where
  "env_entries_hold D w \<longleftrightarrow> (\<forall>(r, f)\<in>D. if r = TLSF_ROLE_REQUIRE then \<forall>i. sat \<infinity> w f i else sat \<infinity> w f 0)"

lemma weak_until_mono_right:
  "weak_until L P Q i \<Longrightarrow> (\<And>j. Q j \<Longrightarrow> Q' j) \<Longrightarrow> weak_until L P Q' i"
  unfolding weak_until_def until_def by blast

lemma obligation_weaken:
  assumes "obligation strict L w B x" and "B \<subseteq> A"
  shows "obligation strict L w A x"
proof -
  have h: "holds_role L w i A r \<Longrightarrow> holds_role L w i B r" for i r
    using assms(2) unfolding holds_role_def by blast
  have e: "env_holds L w A \<Longrightarrow> env_holds L w B"
    using h unfolding env_holds_def alw_def by blast
  show ?thesis
    using assms(1) h e unfolding obligation_def
    by (cases "fst x") (auto intro: weak_until_mono_right split: if_splits)
qed

lemma meets_more:
  assumes sub: "B \<subseteq> A" and rest: "A - B \<subseteq> {x. env_side (fst x)}" and m: "meets strict L B w"
  shows "meets strict L A w"
  using m obligation_weaken [OF _ sub] obligation_env_side rest unfolding meets_def by blast

lemma meets_fewer:
  assumes sub: "B \<subseteq> A" and d: "env_entries_hold (A - B) w" and m: "meets strict \<infinity> A w"
  shows "meets strict \<infinity> B w"
proof -
  have dropped: "if r = TLSF_ROLE_REQUIRE then \<forall>i. sat \<infinity> w f i else sat \<infinity> w f 0"
    if "(r, f) \<in> A" "(r, f) \<notin> B" for r f
    using d that unfolding env_entries_hold_def by blast
  have h: "holds_role \<infinity> w 0 A r = holds_role \<infinity> w 0 B r" if "r \<noteq> TLSF_ROLE_REQUIRE" for r
    using dropped [of r] sub that unfolding holds_role_def by auto
  have req: "holds_role \<infinity> w i A TLSF_ROLE_REQUIRE = holds_role \<infinity> w i B TLSF_ROLE_REQUIRE" for i
    using dropped [of TLSF_ROLE_REQUIRE] sub unfolding holds_role_def by auto
  have hs: "holds_role \<infinity> w 0 A TLSF_ROLE_INITIALLY = holds_role \<infinity> w 0 B TLSF_ROLE_INITIALLY"
    "holds_role \<infinity> w 0 A TLSF_ROLE_ASSUME = holds_role \<infinity> w 0 B TLSF_ROLE_ASSUME"
    by (rule h, simp)+
  have "obligation strict \<infinity> w B x = obligation strict \<infinity> w A x" for x
    unfolding obligation_def env_holds_def req hs ..
  then show ?thesis using m sub unfolding meets_def by blast
qed

text \<open>What a set of entries looks at.\<close>

definition entry_atoms :: "entry set \<Rightarrow> ap set" where
  "entry_atoms A = (\<Union>x\<in>A. atoms (snd x))"

lemma sat_looks_at: "(\<And>n. w n \<inter> V = w' n \<inter> V) \<Longrightarrow> atoms f \<subseteq> V \<Longrightarrow> sat L w f = sat L w' f"
proof (induction f)
  case (NodeAp p)
  then have "p \<in> w i \<longleftrightarrow> p \<in> w' i" for i by (metis IntI IntD1 atoms.simps(3) singletonI subsetD)
  then show ?case by auto
qed auto

lemma meets_looks_at: "entry_atoms A \<subseteq> V \<Longrightarrow> looks_at V (meets strict L A)"
proof -
  assume V: "entry_atoms A \<subseteq> V"
  have "meets strict L A w = meets strict L A w'" if w: "\<And>n. w n \<inter> V = w' n \<inter> V" for w w'
  proof -
    have s: "sat L w (snd x) = sat L w' (snd x)" if "x \<in> A" for x
      by (rule sat_looks_at [OF w]) (use V that in \<open>auto simp: entry_atoms_def\<close>)
    have h: "holds_role L w i A r = holds_role L w' i A r" for i r
      using s unfolding holds_role_def by (metis snd_conv)
    have "obligation strict L w A x = obligation strict L w' A x" if "x \<in> A" for x
      unfolding obligation_def env_holds_def h s [OF that] ..
    then show ?thesis unfolding meets_def by blast
  qed
  then show ?thesis unfolding looks_at_def by blast
qed

lemma env_entries_looks_at: "entry_atoms D \<subseteq> V \<Longrightarrow> looks_at V (env_entries_hold D)"
proof -
  assume V: "entry_atoms D \<subseteq> V"
  have "env_entries_hold D w = env_entries_hold D w'" if w: "\<And>n. w n \<inter> V = w' n \<inter> V" for w w'
  proof -
    have "sat \<infinity> w (snd x) = sat \<infinity> w' (snd x)" if "x \<in> D" for x
      by (rule sat_looks_at [OF w]) (use V that in \<open>auto simp: entry_atoms_def\<close>)
    then show ?thesis unfolding env_entries_hold_def by (auto simp: split_beta)
  qed
  then show ?thesis unfolding looks_at_def by blast
qed

end
