(* ===== verification/Residual_View.thy ===== *)
theory Residual_View
  imports Residual_Keys Cluster_Meaning
begin

text \<open>
  Which entries a cluster view holds: the sweep that keeps every environment entry connected
  with the cluster ends and cannot trip its assertions, and what it leaves out is input-only,
  disjoint from the rest and satisfiable.
\<close>

subsection \<open>Keeping entries\<close>

definition frame :: "mask_entry \<Rightarrow> constraint \<times> node option \<times> nat" where
  "frame e = (me_con e, me_rf e, me_key e)"

lemma frame_simps [simp]: "frame (e\<lparr>included := b\<rparr>) = frame e"
  by (simp add: frame_def)

definition inc_aps :: "cover \<Rightarrow> mask_entry list \<Rightarrow> nat set" where
  "inc_aps cov es = \<Union>{aps_of (cov_aps cov) f | e f. e \<in> set es \<and> included e \<and> me_rf e = Some f}"

lemma inc_aps_simps:
  "inc_aps cov [] = {}"
  "inc_aps cov (e # es) =
     (if included e then (case me_rf e of Some f \<Rightarrow> aps_of (cov_aps cov) f | None \<Rightarrow> {}) else {}) \<union> inc_aps cov es"
  by (auto simp: inc_aps_def split: option.splits)

definition input_only :: "cover \<Rightarrow> node \<Rightarrow> bool" where
  "input_only cov f \<longleftrightarrow> (\<forall>a\<in>aps_of (cov_aps cov) f. residual_signal_matches (cov_aps cov) a AP_FLAG_INPUT)"

definition core :: "cover \<Rightarrow> nat \<Rightarrow> mask_entry \<Rightarrow> bool" where
  "core cov kk e \<longleftrightarrow> (\<exists>f. me_rf e = Some f \<and> (me_key e = kk \<or> me_key e = NO_KEY) \<and>
     (me_key e = kk \<or> \<not> assumption_side (me_con e) \<or> \<not> input_only cov f))"

lemma atoms_all_iff:
  "marks (cov_aps cov) st S \<Longrightarrow> atoms_all cov ok st \<longleftrightarrow> (\<forall>a\<in>S. ok a)"
  by (auto simp: atoms_all_def marks_def list_all_iff)

lemma mask_core_ok:
  assumes t: "ap_table_ok addr (cov_aps cov)"
  shows "marks (cov_aps cov) kept K \<Longrightarrow>
    \<exists>es' kept'. mask_core addr cov kk es kept = Some (es', kept') \<and> map frame es' = map frame es \<and>
      marks (cov_aps cov) kept' (K \<union> inc_aps cov es') \<and> (\<forall>e\<in>set es'. included e = core cov kk e)"
proof (induction es arbitrary: kept K)
  case (Cons e es)
  let ?e = "e\<lparr>included := False\<rparr>"
  have skip: ?case if "mask_core addr cov kk (e # es) kept = map_option (apfst ((#) ?e)) (mask_core addr cov kk es kept)"
    and "\<not> core cov kk e"
  proof -
    from Cons.IH [OF Cons.prems] obtain es' kept' where
      r: "mask_core addr cov kk es kept = Some (es', kept')" "map frame es' = map frame es"
      "marks (cov_aps cov) kept' (K \<union> inc_aps cov es')" "\<forall>e\<in>set es'. included e = core cov kk e" by blast
    have "\<not> core cov kk ?e" using that(2) by (simp add: core_def)
    with r that(1) show ?thesis
      by (intro exI [of _ "?e # es'"] exI [of _ kept']) (simp add: inc_aps_simps)
  qed
  show ?case
  proof (cases "me_rf e")
    case None
    then show ?thesis by (intro skip) (simp_all add: core_def Let_def)
  next
    case f: (Some f)
    show ?thesis
    proof (cases "me_key e = kk \<or> me_key e = NO_KEY")
      case False
      then show ?thesis using f by (intro skip) (simp_all add: core_def Let_def)
    next
      case key: True
      from residual_collect_aps_ok [OF t marks_none, of f] obtain st where
        st: "residual_collect_aps addr (cov_aps cov) f (no_aps cov) = Some st"
        "marks (cov_aps cov) st (aps_of (cov_aps cov) f)" by auto
      have io: "atoms_all cov (\<lambda>a. residual_signal_matches (cov_aps cov) a AP_FLAG_INPUT) st = input_only cov f"
        by (simp add: atoms_all_iff [OF st(2)] input_only_def)
      show ?thesis
      proof (cases "me_key e = kk \<or> \<not> assumption_side (me_con e) \<or> \<not> input_only cov f")
        case False
        then show ?thesis using f key st(1) io by (intro skip) (auto simp: core_def Let_def)
      next
        case True
        from residual_collect_aps_ok [OF t Cons.prems, of f] obtain kept1 where
          k1: "residual_collect_aps addr (cov_aps cov) f kept = Some kept1"
          "marks (cov_aps cov) kept1 (K \<union> aps_of (cov_aps cov) f)" by blast
        from Cons.IH [OF k1(2)] obtain es' kept' where
          r: "mask_core addr cov kk es kept1 = Some (es', kept')" "map frame es' = map frame es"
          "marks (cov_aps cov) kept' (K \<union> aps_of (cov_aps cov) f \<union> inc_aps cov es')"
          "\<forall>e\<in>set es'. included e = core cov kk e" by blast
        have "core cov kk (e\<lparr>included := True\<rparr>)" using True key f by (auto simp: core_def)
        moreover have "mask_core addr cov kk (e # es) kept = Some (e\<lparr>included := True\<rparr> # es', kept')"
          using f key True st(1) io k1(1) r(1) by (auto simp: Let_def)
        ultimately show ?thesis using r(2-4) f
          by (intro exI [of _ "e\<lparr>included := True\<rparr> # es'"] exI [of _ kept']) (simp add: inc_aps_simps Un_assoc)
      qed
    qed
  qed
qed (simp add: inc_aps_simps)

text \<open>One sweep.  It keeps what is included, adds global entries only, and reports a change exactly
  when it added one.\<close>

definition n_in :: "mask_entry list \<Rightarrow> nat" where
  "n_in es = length (filter included es)"

definition pending :: "mask_entry \<Rightarrow> bool" where
  "pending e \<longleftrightarrow> \<not> included e \<and> me_key e = NO_KEY \<and> me_rf e \<noteq> None"

definition grown :: "mask_entry \<Rightarrow> mask_entry \<Rightarrow> bool" where
  "grown e e' \<longleftrightarrow> frame e' = frame e \<and> (included e \<longrightarrow> included e') \<and>
     (included e' \<longrightarrow> included e \<or> me_key e = NO_KEY \<and> me_rf e \<noteq> None)"

lemma grown_refl: "grown e e"
  by (simp add: grown_def)

lemma grown_trans: "grown e e' \<Longrightarrow> grown e' e'' \<Longrightarrow> grown e e''"
  by (auto simp: grown_def frame_def)

definition away :: "cover \<Rightarrow> nat set \<Rightarrow> mask_entry \<Rightarrow> bool" where
  "away cov K e \<longleftrightarrow> (\<forall>f. pending e \<longrightarrow> me_rf e = Some f \<longrightarrow> aps_of (cov_aps cov) f \<inter> K = {})"

lemma mask_sweep_ok:
  assumes t: "ap_table_ok addr (cov_aps cov)"
  shows "marks (cov_aps cov) kept K \<Longrightarrow> inc_aps cov es \<subseteq> K \<Longrightarrow>
    \<exists>es' kept' ch'. mask_sweep addr cov es kept ch = Some (es', kept', ch') \<and> list_all2 grown es es' \<and>
      marks (cov_aps cov) kept' (K \<union> inc_aps cov es') \<and> n_in es \<le> n_in es' \<and>
      (ch \<longrightarrow> ch') \<and> (ch' \<longrightarrow> ch \<or> n_in es < n_in es') \<and>
      (\<not> ch' \<longrightarrow> es' = es \<and> (\<forall>e\<in>set es. away cov K e))"
proof (induction es arbitrary: kept K ch)
  case (Cons e es)
  have inc: "inc_aps cov es \<subseteq> K" using Cons.prems(2) by (simp add: inc_aps_simps)
  from Cons.IH [OF Cons.prems(1) inc, of ch] obtain es' kept' ch' where
    r: "mask_sweep addr cov es kept ch = Some (es', kept', ch')" "list_all2 grown es es'"
    "marks (cov_aps cov) kept' (K \<union> inc_aps cov es')" "n_in es \<le> n_in es'"
    "ch \<longrightarrow> ch'" "ch' \<longrightarrow> ch \<or> n_in es < n_in es'" "\<not> ch' \<longrightarrow> es' = es \<and> (\<forall>e\<in>set es. away cov K e)" by blast
  have inc_e: "K \<union> inc_aps cov (e # es') = K \<union> inc_aps cov es'"
    using Cons.prems(2) by (auto simp: inc_aps_simps split: if_splits option.splits)
  have skip: ?case if "mask_sweep addr cov (e # es) kept ch =
      map_option (apfst ((#) e)) (mask_sweep addr cov es kept ch)" and "away cov K e"
    using that r inc_e by (intro exI [of _ "e # es'"] exI [of _ kept'] exI [of _ ch'])
      (simp add: grown_refl n_in_def)
  show ?case
  proof (cases "pending e")
    case False
    then show ?thesis
      by (intro skip) (auto simp: pending_def away_def Let_def split: option.splits)
  next
    case True
    then obtain f where f: "me_rf e = Some f" "\<not> included e" "me_key e = NO_KEY"
      by (auto simp: pending_def)
    have hit: "residual_aps_hit addr (cov_aps cov) kept f = Some (K \<inter> aps_of (cov_aps cov) f \<noteq> {})"
      by (rule residual_aps_hit_ok [OF t Cons.prems(1)])
    show ?thesis
    proof (cases "K \<inter> aps_of (cov_aps cov) f = {}")
      case True
      then show ?thesis using f hit by (intro skip) (auto simp: away_def Let_def)
    next
      case False
      from residual_collect_aps_ok [OF t Cons.prems(1), of f] obtain kept1 where
        k1: "residual_collect_aps addr (cov_aps cov) f kept = Some kept1"
        "marks (cov_aps cov) kept1 (K \<union> aps_of (cov_aps cov) f)" by blast
      have "inc_aps cov es \<subseteq> K \<union> aps_of (cov_aps cov) f" using inc by blast
      from Cons.IH [OF k1(2) this, of True] obtain es2 kept2 ch2 where
        q: "mask_sweep addr cov es kept1 True = Some (es2, kept2, ch2)" "list_all2 grown es es2"
        "marks (cov_aps cov) kept2 (K \<union> aps_of (cov_aps cov) f \<union> inc_aps cov es2)" "n_in es \<le> n_in es2"
        "True \<longrightarrow> ch2" by blast
      have "mask_sweep addr cov (e # es) kept ch = Some (e\<lparr>included := True\<rparr> # es2, kept2, ch2)"
        using f hit False k1(1) q(1) by (simp add: Let_def)
      moreover have "grown e (e\<lparr>included := True\<rparr>)" using f by (simp add: grown_def)
      ultimately show ?thesis using q(2-5) f
        by (intro exI [of _ "e\<lparr>included := True\<rparr> # es2"] exI [of _ kept2] exI [of _ ch2])
           (simp add: inc_aps_simps n_in_def Un_assoc)
    qed
  qed
qed (simp add: inc_aps_simps n_in_def)

lemma n_in_le: "n_in es \<le> length es"
  by (simp add: n_in_def)

lemma list_all2_grown_trans:
  "list_all2 grown xs ys \<Longrightarrow> list_all2 grown ys zs \<Longrightarrow> list_all2 grown xs zs"
  by (rule list_all2_trans [of grown grown grown]) (auto intro: grown_trans)

lemma list_all2_grown_refl: "list_all2 grown xs xs"
  by (simp add: list_all2_refl grown_refl)

text \<open>The loop ends: every sweep but the last includes one more entry.\<close>

lemma mask_close_ok:
  assumes t: "ap_table_ok addr (cov_aps cov)"
  shows "marks (cov_aps cov) kept (inc_aps cov es) \<Longrightarrow>
    \<exists>es' kept'. mask_close addr cov es kept = Some (es', kept') \<and> list_all2 grown es es' \<and>
      marks (cov_aps cov) kept' (inc_aps cov es') \<and> (\<forall>e\<in>set es'. away cov (inc_aps cov es') e)"
proof (induction "length es - n_in es" arbitrary: es kept rule: less_induct)
  case less
  from mask_sweep_ok [OF t less.prems order_refl, of False] obtain es1 kept1 ch where
    s: "mask_sweep addr cov es kept False = Some (es1, kept1, ch)" "list_all2 grown es es1"
    "marks (cov_aps cov) kept1 (inc_aps cov es \<union> inc_aps cov es1)"
    "ch \<longrightarrow> n_in es < n_in es1" "\<not> ch \<longrightarrow> es1 = es \<and> (\<forall>e\<in>set es. away cov (inc_aps cov es) e)" by auto
  have len: "length es1 = length es" using s(2) by (simp add: list_all2_lengthD)
  show ?case
  proof (cases ch)
    case False
    then have "mask_close addr cov es kept = Some (es1, kept1)"
      using s(1) by (subst mask_close.simps) simp
    moreover have "es1 = es" "\<forall>e\<in>set es. away cov (inc_aps cov es) e" using s(5) False by simp_all
    ultimately show ?thesis using s(3) by (simp add: list_all2_grown_refl)
  next
    case True
    have sub: "inc_aps cov es \<subseteq> inc_aps cov es1"
    proof
      fix a assume "a \<in> inc_aps cov es"
      then obtain e f where e: "e \<in> set es" "included e" "me_rf e = Some f" "a \<in> aps_of (cov_aps cov) f"
        by (auto simp: inc_aps_def)
      from e(1) obtain i where i: "i < length es" "e = es ! i" by (metis in_set_conv_nth)
      with s(2) have "grown e (es1 ! i)" by (simp add: list_all2_conv_all_nth)
      with e have "included (es1 ! i)" "me_rf (es1 ! i) = Some f" by (auto simp: grown_def frame_def)
      moreover have "es1 ! i \<in> set es1" using i(1) len by simp
      ultimately show "a \<in> inc_aps cov es1" using e(4) unfolding inc_aps_def by blast
    qed
    then have m: "marks (cov_aps cov) kept1 (inc_aps cov es1)" using s(3) by (simp add: Un_absorb1)
    have "length es1 - n_in es1 < length es - n_in es"
      using s(4) True len n_in_le [of es1] by linarith
    from less.hyps [OF this m] obtain es' kept' where
      r: "mask_close addr cov es1 kept1 = Some (es', kept')" "list_all2 grown es1 es'"
      "marks (cov_aps cov) kept' (inc_aps cov es')" "\<forall>e\<in>set es'. away cov (inc_aps cov es') e" by blast
    have "mask_close addr cov es kept = Some (es', kept')"
      using s(1) True r(1) by (subst mask_close.simps) simp
    with r(2-4) list_all2_grown_trans [OF s(2)] show ?thesis by blast
  qed
qed

subsection \<open>What is left out\<close>

definition entry_of :: "mask_entry \<Rightarrow> entry" where
  "entry_of e = (con_role (me_con e), the (me_rf e))"

definition sides_ok :: "mask_entry \<Rightarrow> bool" where
  "sides_ok e \<longleftrightarrow> assumption_side (me_con e) = env_side (con_role (me_con e))"

definition droppable :: "cover \<Rightarrow> nat set \<Rightarrow> mask_entry \<Rightarrow> bool" where
  "droppable cov K e \<longleftrightarrow> (\<forall>f. pending e \<longrightarrow> me_rf e = Some f \<longrightarrow>
     assumption_side (me_con e) \<and> input_only cov f \<and> aps_of (cov_aps cov) f \<inter> K = {})"

lemma mask_dropped_ok:
  assumes t: "ap_table_ok addr (cov_aps cov)" and kept: "marks (cov_aps cov) kept K"
  shows "\<forall>e\<in>set es. droppable cov K e \<and> sides_ok e \<Longrightarrow>
    \<exists>r. mask_dropped addr cov es kept d = Some r \<and>
      (\<forall>d'. r = Some d' \<longrightarrow> entry_set d' = entry_set d \<union> entry_of ` {e \<in> set es. pending e})"
proof (induction es arbitrary: d)
  case (Cons e es)
  have skip: ?case if "mask_dropped addr cov (e # es) kept d = mask_dropped addr cov es kept d" "\<not> pending e"
  proof -
    have "{x \<in> set (e # es). pending x} = {x \<in> set es. pending x}" using that(2) by auto
    moreover have "\<forall>e\<in>set es. droppable cov K e \<and> sides_ok e" using Cons.prems by simp
    ultimately show ?thesis using Cons.IH [of d] that(1) by simp
  qed
  show ?case
  proof (cases "pending e")
    case False
    then show ?thesis
      by (intro skip) (auto simp: pending_def split: option.splits)
  next
    case True
    then obtain f where f: "me_rf e = Some f" "\<not> included e" "me_key e = NO_KEY"
      by (auto simp: pending_def)
    have e: "assumption_side (me_con e)" "input_only cov f" "aps_of (cov_aps cov) f \<inter> K = {}" "sides_ok e"
      using Cons.prems True f(1) by (auto simp: droppable_def)
    from residual_collect_aps_ok [OF t marks_none, of f] obtain st where
      st: "residual_collect_aps addr (cov_aps cov) f (no_aps cov) = Some st"
      "marks (cov_aps cov) st (aps_of (cov_aps cov) f)" by auto
    have "atoms_all cov (\<lambda>a. residual_signal_matches (cov_aps cov) a AP_FLAG_INPUT \<and> \<not> kept ! a) st"
      using e(2,3) kept unfolding atoms_all_iff [OF st(2)]
      by (auto simp: input_only_def marks_def aps_of_def)
    moreover have role: "con_role (me_con e) = TLSF_ROLE_INITIALLY \<or> con_role (me_con e) = TLSF_ROLE_REQUIRE \<or>
        con_role (me_con e) = TLSF_ROLE_ASSUME"
      using e(1,4) by (simp add: sides_ok_def env_side_def)
    ultimately have step: "mask_dropped addr cov (e # es) kept d =
        (case section_pattern_add d (con_role (me_con e)) f FCLASS_SAFETY of
           None \<Rightarrow> Some None | Some d' \<Rightarrow> mask_dropped addr cov es kept d')"
      using f st(1) e(1) by (elim disjE) (simp_all add: Let_def)
    have eo: "entry_of e = (con_role (me_con e), f)" using f(1) by (simp add: entry_of_def)
    show ?thesis
    proof (cases "section_pattern_add d (con_role (me_con e)) f FCLASS_SAFETY")
      case None
      with step show ?thesis by simp
    next
      case (Some d1)
      then have d1: "entry_set d1 = insert (entry_of e) (entry_set d)"
        unfolding eo by (auto simp: section_pattern_add_def entry_set_def split: if_splits)
      have "\<forall>e\<in>set es. droppable cov K e \<and> sides_ok e" using Cons.prems by simp
      from Cons.IH [OF this, of d1] obtain r where
        r: "mask_dropped addr cov es kept d1 = Some r"
        "\<forall>d'. r = Some d' \<longrightarrow> entry_set d' = entry_set d1 \<union> entry_of ` {e \<in> set es. pending e}" by blast
      have "{x \<in> set (e # es). pending x} = insert e {e \<in> set es. pending e}" using True by auto
      with r d1 step Some show ?thesis by (intro exI [of _ r]) auto
    qed
  qed
qed simp

lemma env_satisfied_entries: "env_satisfied d w \<Longrightarrow> env_entries_hold (entry_set d) w"
  unfolding env_satisfied_def env_entries_hold_def entry_set_def by auto

lemma cluster_assumption_mask_ok:
  assumes t: "ap_table_ok addr (cov_aps cov)"
    and sides: "\<forall>e\<in>set (mask_entries cov rf key). sides_ok e"
  shows "\<exists>ok es. cluster_assumption_mask addr s cov rf key kk = Some (ok, es) \<and>
    map frame es = map frame (mask_entries cov rf key) \<and>
    (\<forall>e\<in>set es. included e \<longrightarrow> me_rf e \<noteq> None \<and> (me_key e = kk \<or> me_key e = NO_KEY)) \<and>
    (\<forall>e\<in>set es. me_rf e \<noteq> None \<and> me_key e = kk \<longrightarrow> included e) \<and>
    (\<forall>e\<in>set es. droppable cov (inc_aps cov es) e) \<and>
    (ok \<longrightarrow> (\<exists>w. env_entries_hold (entry_of ` {e \<in> set es. pending e}) w))"
proof -
  let ?es0 = "mask_entries cov rf key"
  from mask_core_ok [OF t marks_none, of kk ?es0] obtain es1 kept1 where
    c: "mask_core addr cov kk ?es0 (no_aps cov) = Some (es1, kept1)" "map frame es1 = map frame ?es0"
    "marks (cov_aps cov) kept1 (inc_aps cov es1)" "\<forall>e\<in>set es1. included e = core cov kk e" by auto
  from mask_close_ok [OF t c(3)] obtain es kept where
    l: "mask_close addr cov es1 kept1 = Some (es, kept)" "list_all2 grown es1 es"
    "marks (cov_aps cov) kept (inc_aps cov es)" "\<forall>e\<in>set es. away cov (inc_aps cov es) e" by blast
  have fr: "map frame es = map frame ?es0"
    using l(2) c(2) by (metis (no_types, lifting) grown_def list_all2_conv_all_nth nth_equalityI length_map nth_map)
  have old: "\<exists>e1\<in>set es1. grown e1 e" if "e \<in> set es" for e
    using that l(2) by (metis in_set_conv_nth list_all2_conv_all_nth)
  have core_frame: "core cov kk e = core cov kk e1" if "grown e1 e" for e e1
    using that by (auto simp: core_def grown_def frame_def)
  have inc: "included e \<longrightarrow> me_rf e \<noteq> None \<and> (me_key e = kk \<or> me_key e = NO_KEY)" if "e \<in> set es" for e
  proof
    assume i: "included e"
    from old [OF that] obtain e1 where e1: "e1 \<in> set es1" "grown e1 e" by blast
    show "me_rf e \<noteq> None \<and> (me_key e = kk \<or> me_key e = NO_KEY)"
    proof (cases "included e1")
      case True
      with c(4) e1 core_frame have "core cov kk e" by blast
      then show ?thesis by (auto simp: core_def)
    next
      case False
      with e1(2) i show ?thesis by (auto simp: grown_def frame_def)
    qed
  qed
  have coreI: "core cov kk e \<longrightarrow> included e" if "e \<in> set es" for e
  proof -
    from old [OF that] obtain e1 where e1: "e1 \<in> set es1" "grown e1 e" by blast
    with c(4) core_frame [OF e1(2)] have "core cov kk e = included e1" by blast
    with e1(2) show ?thesis by (simp add: grown_def)
  qed
  have drop: "droppable cov (inc_aps cov es) e" if e: "e \<in> set es" for e
    unfolding droppable_def
  proof (intro allI impI)
    fix f assume p: "pending e" and f: "me_rf e = Some f"
    from p coreI [OF e] have "\<not> core cov kk e" by (auto simp: pending_def)
    with p f have "assumption_side (me_con e) \<and> input_only cov f" by (auto simp: core_def pending_def)
    moreover from l(4) e have "away cov (inc_aps cov es) e" by blast
    ultimately show "assumption_side (me_con e) \<and> input_only cov f \<and>
        aps_of (cov_aps cov) f \<inter> inc_aps cov es = {}"
      using p f by (simp add: away_def)
  qed
  have sides': "\<forall>e\<in>set es. sides_ok e"
  proof
    fix e assume "e \<in> set es"
    then have "frame e \<in> set (map frame ?es0)" unfolding fr [symmetric] by simp
    then obtain e0 where "e0 \<in> set ?es0" "frame e0 = frame e" by auto
    with sides show "sides_ok e" by (auto simp: sides_ok_def frame_def)
  qed
  let ?d0 = "section_pattern_init (spec_semantics s)"
  have "\<forall>e\<in>set es. droppable cov (inc_aps cov es) e \<and> sides_ok e" using drop sides' by blast
  from mask_dropped_ok [OF t l(3) this, of ?d0] obtain r where
    r: "mask_dropped addr cov es kept ?d0 = Some r"
      "\<forall>d. r = Some d \<longrightarrow> entry_set d = entry_set ?d0 \<union> entry_of ` {e \<in> set es. pending e}" by blast
  have d0: "entry_set ?d0 = {}" by (simp add: entry_set_def section_pattern_init_def)
  define ok where "ok = (case r of None \<Rightarrow> False
     | Some d \<Rightarrow> entries d = [] \<or> env_witness_search d ENV_WITNESS_WORK_BUDGET = ENV_WITNESS_SATISFIABLE)"
  have run: "cluster_assumption_mask addr s cov rf key kk = Some (ok, es)"
    using c(1) l(1) r(1) by (simp add: cluster_assumption_mask_def ok_def)
  have "\<exists>w. env_entries_hold (entry_of ` {e \<in> set es. pending e}) w" if ok
  proof -
    from that obtain d where d: "r = Some d" and
      o: "entries d = [] \<or> env_witness_search d ENV_WITNESS_WORK_BUDGET = ENV_WITNESS_SATISFIABLE"
      by (auto simp: ok_def split: option.splits)
    from o have "\<exists>w. env_entries_hold (entry_set d) w"
    proof
      assume "entries d = []"
      then show ?thesis by (simp add: entry_set_def env_entries_hold_def)
    next
      assume "env_witness_search d ENV_WITNESS_WORK_BUDGET = ENV_WITNESS_SATISFIABLE"
      from env_witness_search_model [OF this] show ?thesis using env_satisfied_entries by blast
    qed
    with r(2) d d0 show ?thesis by simp
  qed
  moreover have "\<forall>e\<in>set es. me_rf e \<noteq> None \<and> me_key e = kk \<longrightarrow> included e"
    using coreI by (auto simp: core_def)
  ultimately show ?thesis using run fr inc drop by blast
qed

end
