(* ===== verification/Residual_Correct.thy ===== *)
theory Residual_Correct
  imports Residual_View
begin

text \<open>
  The residual clusters decide the synthesis problem: the residual specification is realizable
  exactly when every cluster is, over its own outputs and with its pruned environment.
\<close>

subsection \<open>Filling a view\<close>

lemma section_pattern_add_classified_ok:
  assumes "ground f" and "length (entries v) \<le> view_cap v" and "length (entries v) < 2 ^ 31"
  shows "\<exists>v'. section_pattern_add_classified v r f = Some v' \<and> length (entries v') \<le> view_cap v' \<and>
    length (entries v') = Suc (length (entries v)) \<and> view_semantics v' = view_semantics v \<and>
    entry_set v' = insert (r, f) (entry_set v)"
proof -
  obtain nnf where nnf: "to_nnf f True (semantics_is_finite (view_semantics v)) = Some nnf"
    using to_nnf_total [OF assms(1)] by blast
  obtain c where c: "classify_formula nnf = Some c"
    using classify_formula_total [OF is_nnf_ground [OF to_nnf_is_nnf [OF nnf]]] by blast
  have "\<exists>c'. section_pattern_add_classified v r f = section_pattern_add v r f c'"
    using nnf c by (auto simp: section_pattern_add_classified_def)
  then obtain c' where c': "section_pattern_add_classified v r f = section_pattern_add v r f c'" by blast
  from section_pattern_add_ok [OF assms(2,3), of r f c'] obtain v' where
    v': "section_pattern_add v r f c' = Some v'" "length (entries v') \<le> view_cap v'"
    "view_semantics v' = view_semantics v"
    "entries v' = entries v @ [\<lparr>entry_role = r, entry_formula = f, entry_cls = c'\<rparr>]" by blast
  have "entry_set v' = insert (r, f) (entry_set v)" by (simp add: entry_set_def v'(4))
  with v' c' show ?thesis by simp
qed

definition chosen :: "(mask_entry \<Rightarrow> bool) \<Rightarrow> mask_entry list \<Rightarrow> entry set" where
  "chosen sel es = entry_of ` {e \<in> set es. me_rf e \<noteq> None \<and> sel e}"

lemma chosen_Cons:
  "chosen sel (e # es) = (if me_rf e \<noteq> None \<and> sel e then insert (entry_of e) (chosen sel es) else chosen sel es)"
proof -
  have "{x \<in> set (e # es). me_rf x \<noteq> None \<and> sel x} =
      (if me_rf e \<noteq> None \<and> sel e then insert e {x \<in> set es. me_rf x \<noteq> None \<and> sel x}
       else {x \<in> set es. me_rf x \<noteq> None \<and> sel x})" by auto
  then show ?thesis unfolding chosen_def by simp
qed

definition aps_in :: "cover \<Rightarrow> entry set \<Rightarrow> nat set" where
  "aps_in cov A = {i. i < ap_count cov \<and> names (cov_aps cov) ! i \<in> entry_atoms A}"

lemma aps_in_insert: "aps_in cov (insert x A) = aps_of (cov_aps cov) (snd x) \<union> aps_in cov A"
  by (auto simp: aps_in_def aps_of_def entry_atoms_def)

lemma fill_cluster_ok:
  assumes t: "ap_table_ok addr (cov_aps cov)"
  shows "marks (cov_aps cov) seen S \<Longrightarrow> length (entries v) \<le> view_cap v \<Longrightarrow>
    length (entries v) + length es \<le> 2 ^ 31 \<Longrightarrow> \<forall>e\<in>set es. \<forall>f. me_rf e = Some f \<longrightarrow> ground f \<Longrightarrow>
    \<exists>seen' v'. fill_cluster addr cov sel es seen v = Some (seen', v') \<and>
      marks (cov_aps cov) seen' (S \<union> aps_in cov (chosen sel es)) \<and> view_semantics v' = view_semantics v \<and>
      entry_set v' = entry_set v \<union> chosen sel es"
proof (induction es arbitrary: seen S v)
  case (Cons e es)
  show ?case
  proof (cases "me_rf e \<noteq> None \<and> sel e")
    case False
    have c: "chosen sel (e # es) = chosen sel es" using False by (simp only: chosen_Cons if_False)
    have "length (entries v) + length es \<le> 2 ^ 31" "\<forall>e\<in>set es. \<forall>f. me_rf e = Some f \<longrightarrow> ground f"
      using Cons.prems(3,4) by simp_all
    moreover have "fill_cluster addr cov sel (e # es) seen v = fill_cluster addr cov sel es seen v"
      using False by (cases "me_rf e") auto
    ultimately show ?thesis using Cons.IH [OF Cons.prems(1,2)] unfolding c by simp
  next
    case True
    then obtain f where f: "me_rf e = Some f" by blast
    from residual_collect_aps_ok [OF t Cons.prems(1), of f] obtain seen1 where
      1: "residual_collect_aps addr (cov_aps cov) f seen = Some seen1"
      "marks (cov_aps cov) seen1 (S \<union> aps_of (cov_aps cov) f)" by blast
    have g: "ground f" and l: "length (entries v) < 2 ^ 31" using Cons.prems(3,4) f by simp_all
    from section_pattern_add_classified_ok [OF g Cons.prems(2) l, of "con_role (me_con e)"] obtain v1 where
      v1: "section_pattern_add_classified v (con_role (me_con e)) f = Some v1"
      "length (entries v1) \<le> view_cap v1" "length (entries v1) = Suc (length (entries v))"
      "view_semantics v1 = view_semantics v" "entry_set v1 = insert (con_role (me_con e), f) (entry_set v)" by blast
    have "length (entries v1) + length es \<le> 2 ^ 31" "\<forall>e\<in>set es. \<forall>f. me_rf e = Some f \<longrightarrow> ground f"
      using Cons.prems(3,4) v1(3) by simp_all
    from Cons.IH [OF 1(2) v1(2) this] obtain seen' v' where
      r: "fill_cluster addr cov sel es seen1 v1 = Some (seen', v')"
      "marks (cov_aps cov) seen' (S \<union> aps_of (cov_aps cov) f \<union> aps_in cov (chosen sel es))"
      "view_semantics v' = view_semantics v1" "entry_set v' = entry_set v1 \<union> chosen sel es" by blast
    have c: "chosen sel (e # es) = insert (entry_of e) (chosen sel es)"
      using True by (simp only: chosen_Cons simp_thms if_True)
    have eo: "entry_of e = (con_role (me_con e), f)" using f by (simp add: entry_of_def)
    have "fill_cluster addr cov sel (e # es) seen v = Some (seen', v')"
      using f True 1(1) v1(1) r(1) by simp
    moreover have "S \<union> aps_in cov (chosen sel (e # es)) = S \<union> aps_of (cov_aps cov) f \<union> aps_in cov (chosen sel es)"
      unfolding c aps_in_insert eo by auto
    ultimately show ?thesis using r(2-4) v1(4,5) unfolding c eo by auto
  qed
qed (simp add: chosen_def aps_in_def entry_atoms_def)

subsection \<open>The residual\<close>

text \<open>
  What the callers of the residual provide: the formulas of a cover, expanded and over its
  table, and no signal declared on both sides.
\<close>

definition residual_input :: "(ap \<Rightarrow> u64) \<Rightarrow> tlsf_spec \<Rightarrow> cover \<Rightarrow> node option list \<Rightarrow> bool" where
  "residual_input addr s cov rf \<longleftrightarrow>
     cov_spec cov = s \<and> ap_table_ok addr (cov_aps cov) \<and> ap_count cov < NO_KEY \<and>
     length rf = length (cov_items cov) \<and> length rf \<le> 2 ^ 31 \<and>
     (\<forall>c\<in>set (cov_items cov). assumption_side c = env_side (con_role c)) \<and>
     (\<forall>f. Some f \<in> set rf \<longrightarrow> ground f \<and> atoms f \<subseteq> set (names (cov_aps cov))) \<and>
     (\<forall>a<ap_count cov. is_output cov a \<longrightarrow> \<not> residual_signal_matches (cov_aps cov) a AP_FLAG_INPUT)"

lemma mask_entries_in:
  assumes "e \<in> set (mask_entries cov rf key)"
  shows "me_con e \<in> set (cov_items cov)" and "me_rf e \<in> set rf" and "me_key e \<in> set key"
proof -
  from assms obtain c r k where z: "(c, r, k) \<in> set (zip (cov_items cov) (zip rf key))"
    "e = \<lparr>me_con = c, me_rf = r, me_key = k, included = False\<rparr>" by (auto simp: mask_entries_def)
  from set_zip_leftD [OF z(1)] set_zip_rightD [OF z(1)] have "c \<in> set (cov_items cov)"
    "(r, k) \<in> set (zip rf key)" .
  with z(2) set_zip_leftD set_zip_rightD show "me_con e \<in> set (cov_items cov)" "me_rf e \<in> set rf"
    "me_key e \<in> set key" by fastforce+
qed

lemma mask_entries_nth:
  assumes "i < length (cov_items cov)" and "i < length rf" and "i < length key"
  shows "mask_entries cov rf key ! i =
    \<lparr>me_con = cov_items cov ! i, me_rf = rf ! i, me_key = key ! i, included = False\<rparr>"
  using assms by (simp add: mask_entries_def)

lemma length_mask_entries:
  "length (mask_entries cov rf key) = min (length (cov_items cov)) (min (length rf) (length key))"
  by (simp add: mask_entries_def)

text \<open>The outputs a cluster is handed over with: the marked atoms flagged as outputs.\<close>

definition cluster_outputs :: "cover \<Rightarrow> bool list \<Rightarrow> ap set" where
  "cluster_outputs cov seen =
     (\<lambda>a. names (cov_aps cov) ! a) ` {a. a < ap_count cov \<and> seen ! a \<and> is_output cov a}"

definition cluster_realizable ::
  "(ap \<Rightarrow> u64) \<Rightarrow> tlsf_spec \<Rightarrow> cover \<Rightarrow> node option list \<Rightarrow> nat list \<Rightarrow> nat \<Rightarrow> bool \<Rightarrow> bool \<Rightarrow> bool \<Rightarrow> bool" where
  "cluster_realizable addr s cov rf key kk every prune moore \<longleftrightarrow>
     (\<exists>seen n. residual_build_cluster addr s cov rf key kk every prune = Some (seen, n) \<and>
        realizable moore (cluster_outputs cov seen) (\<lambda>w. sat \<infinity> w n 0))"

definition out_names :: "cover \<Rightarrow> ap set" where
  "out_names cov = (\<lambda>a. names (cov_aps cov) ! a) ` all_outs cov"

lemma cluster_outputs_marks:
  assumes "marks (cov_aps cov) seen (aps_in cov A)"
  shows "cluster_outputs cov seen = out_names cov \<inter> entry_atoms A"
  using assms by (auto simp: cluster_outputs_def out_names_def all_outs_def marks_def aps_in_def)

text \<open>A cluster with the entries \<open>A\<close> is the game for meeting \<open>A\<close>, whoever owns the other outputs.\<close>

lemma cluster_game:
  assumes inf: "\<not> semantics_is_finite (spec_semantics s)"
    and view: "residual_build_cluster_view addr s cov rf key kk every prune = Some (seen, v)"
    and A: "entry_set v = A" "view_semantics v = spec_semantics s" "marks (cov_aps cov) seen (aps_in cov A)"
  shows "cluster_realizable addr s cov rf key kk every prune moore \<longleftrightarrow>
    realizable moore (out_names cov) (meets (semantics_is_strict (spec_semantics s)) \<infinity> A)"
proof -
  have "residual_build_cluster addr s cov rf key kk every prune =
      Some (seen, section_pattern_to_ltl v True True)"
    using view inf by (simp add: residual_build_cluster_def Let_def)
  moreover have "sat \<infinity> w (section_pattern_to_ltl v True True) 0 =
      meets (semantics_is_strict (spec_semantics s)) \<infinity> A w" for w
    using to_ltl_meets [of \<infinity> w v] A by simp
  ultimately have "cluster_realizable addr s cov rf key kk every prune moore \<longleftrightarrow>
      realizable moore (cluster_outputs cov seen) (meets (semantics_is_strict (spec_semantics s)) \<infinity> A)"
    by (simp add: cluster_realizable_def)
  then show ?thesis
    unfolding cluster_outputs_marks [OF A(3)] using realizable_restrict [OF meets_looks_at [OF order_refl]] by simp
qed

lemma view_ground:
  assumes "residual_input addr s cov rf" and "map frame es = map frame (mask_entries cov rf key)"
  shows "\<forall>e\<in>set es. \<forall>f. me_rf e = Some f \<longrightarrow> ground f \<and> atoms f \<subseteq> set (names (cov_aps cov))"
    and "\<forall>e\<in>set es. sides_ok e" and "length es \<le> 2 ^ 31"
proof -
  have in_es: "\<exists>e0\<in>set (mask_entries cov rf key). frame e0 = frame e" if "e \<in> set es" for e
  proof -
    have "frame e \<in> set (map frame (mask_entries cov rf key))" unfolding assms(2) [symmetric] using that by simp
    then show ?thesis by auto
  qed
  show "\<forall>e\<in>set es. \<forall>f. me_rf e = Some f \<longrightarrow> ground f \<and> atoms f \<subseteq> set (names (cov_aps cov))"
  proof (intro ballI allI impI)
    fix e f assume e: "e \<in> set es" "me_rf e = Some f"
    from in_es [OF e(1)] obtain e0 where e0: "e0 \<in> set (mask_entries cov rf key)" "frame e0 = frame e" by blast
    then have "Some f \<in> set rf" using mask_entries_in(2) [OF e0(1)] e(2) by (simp add: frame_def)
    with assms(1) show "ground f \<and> atoms f \<subseteq> set (names (cov_aps cov))" by (simp add: residual_input_def)
  qed
  show "\<forall>e\<in>set es. sides_ok e"
  proof
    fix e assume "e \<in> set es"
    from in_es [OF this] obtain e0 where e0: "e0 \<in> set (mask_entries cov rf key)" "frame e0 = frame e" by blast
    then have "me_con e \<in> set (cov_items cov)" using mask_entries_in(1) [OF e0(1)] by (simp add: frame_def)
    with assms(1) show "sides_ok e" by (simp add: residual_input_def sides_ok_def)
  qed
  have "length es = length (mask_entries cov rf key)" using assms(2) by (metis length_map)
  then have "length es \<le> length (cov_items cov)" by (simp add: length_mask_entries)
  with assms(1) show "length es \<le> 2 ^ 31" unfolding residual_input_def by linarith
qed

text \<open>Filling from any frame of the entries.\<close>

lemma fill_from:
  assumes inp: "residual_input addr s cov rf" and fr: "map frame es = map frame (mask_entries cov rf key)"
  obtains seen v where
    "fill_cluster addr cov sel es (no_aps cov) (section_pattern_init (spec_semantics s)) = Some (seen, v)"
    "entry_set v = chosen sel es" "view_semantics v = spec_semantics s"
    "marks (cov_aps cov) seen (aps_in cov (chosen sel es))"
proof -
  note vg = view_ground [OF inp fr]
  have t: "ap_table_ok addr (cov_aps cov)" using inp by (simp add: residual_input_def)
  let ?v0 = "section_pattern_init (spec_semantics s)"
  have v0: "length (entries ?v0) \<le> view_cap ?v0" "length (entries ?v0) + length es \<le> 2 ^ 31"
    "entry_set ?v0 = {}" "view_semantics ?v0 = spec_semantics s"
    using vg(3) by (simp_all add: section_pattern_init_def entry_set_def)
  have "\<forall>e\<in>set es. \<forall>f. me_rf e = Some f \<longrightarrow> ground f" using vg(1) by blast
  from fill_cluster_ok [OF t marks_none v0(1,2) this, of sel] obtain seen v where
    "fill_cluster addr cov sel es (no_aps cov) ?v0 = Some (seen, v)"
    "marks (cov_aps cov) seen ({} \<union> aps_in cov (chosen sel es))" "view_semantics v = view_semantics ?v0"
    "entry_set v = entry_set ?v0 \<union> chosen sel es" by blast
  with that v0(3,4) show ?thesis by simp
qed

definition whole :: "mask_entry list \<Rightarrow> entry set" where
  "whole es = chosen (\<lambda>_. True) es"

definition part :: "nat \<Rightarrow> mask_entry list \<Rightarrow> entry set" where
  "part kk es = chosen (\<lambda>e. me_key e = kk \<or> me_key e = NO_KEY) es"

lemma chosen_cong: "(\<And>e. e \<in> set es \<Longrightarrow> me_rf e \<noteq> None \<Longrightarrow> sel e = sel' e) \<Longrightarrow> chosen sel es = chosen sel' es"
  unfolding chosen_def by (intro arg_cong [where f = "image entry_of"]) auto

text \<open>Entries with a formula have a key exactly on the guarantee side.\<close>

definition keys_ok :: "cover \<Rightarrow> node option list \<Rightarrow> nat list \<Rightarrow> bool" where
  "keys_ok cov rf key \<longleftrightarrow> length key = length rf \<and>
     (\<forall>e\<in>set (mask_entries cov rf key). me_rf e \<noteq> None \<longrightarrow> (me_key e = NO_KEY \<longleftrightarrow> assumption_side (me_con e)))"

lemma whole_game:
  assumes inp: "residual_input addr s cov rf" and inf: "\<not> semantics_is_finite (spec_semantics s)"
  shows "cluster_realizable addr s cov rf key kk True prune moore \<longleftrightarrow>
    realizable moore (out_names cov)
      (meets (semantics_is_strict (spec_semantics s)) \<infinity> (whole (mask_entries cov rf key)))"
proof -
  let ?es = "mask_entries cov rf key"
  from fill_from [OF inp refl] obtain seen v where
    v: "fill_cluster addr cov (cluster_selected True False prune kk) ?es (no_aps cov)
        (section_pattern_init (spec_semantics s)) = Some (seen, v)"
    "entry_set v = chosen (cluster_selected True False prune kk) ?es" "view_semantics v = spec_semantics s"
    "marks (cov_aps cov) seen (aps_in cov (chosen (cluster_selected True False prune kk) ?es))" by blast
  have e: "chosen (cluster_selected True False prune kk) ?es = whole ?es"
    unfolding whole_def by (rule chosen_cong) (simp add: cluster_selected_def)
  have "residual_build_cluster_view addr s cov rf key kk True prune = Some (seen, v)"
    using v(1) by (simp add: residual_build_cluster_view_def)
  from cluster_game [OF inf this v(2-4)] show ?thesis unfolding e .
qed

lemma part_game:
  assumes inp: "residual_input addr s cov rf" and inf: "\<not> semantics_is_finite (spec_semantics s)"
    and keys: "keys_ok cov rf key" and kk: "kk \<noteq> NO_KEY"
  shows "cluster_realizable addr s cov rf key kk False prune moore \<longleftrightarrow>
    realizable moore (out_names cov)
      (meets (semantics_is_strict (spec_semantics s)) \<infinity> (part kk (mask_entries cov rf key)))"
proof -
  let ?es0 = "mask_entries cov rf key" and ?st = "semantics_is_strict (spec_semantics s)"
  have t: "ap_table_ok addr (cov_aps cov)" using inp by (simp add: residual_input_def)
  let ?mask = "prune \<and> \<not> semantics_is_moore (spec_semantics s) \<and> spec_target s = TARGET_MEALY"
  obtain ok es where m: "(if ?mask then cluster_assumption_mask addr s cov rf key kk else Some (False, ?es0)) = Some (ok, es)"
    and fr: "map frame es = map frame ?es0"
    and inc: "ok \<longrightarrow> (\<forall>e\<in>set es. included e \<longrightarrow> me_rf e \<noteq> None \<and> (me_key e = kk \<or> me_key e = NO_KEY))"
    and own: "ok \<longrightarrow> (\<forall>e\<in>set es. me_rf e \<noteq> None \<and> me_key e = kk \<longrightarrow> included e)"
    and drop: "ok \<longrightarrow> (\<forall>e\<in>set es. droppable cov (inc_aps cov es) e)"
    and env: "ok \<longrightarrow> (\<exists>w. env_entries_hold (entry_of ` {e \<in> set es. pending e}) w)"
  proof (cases ?mask)
    case False
    with that [of False ?es0] show ?thesis by simp
  next
    case True
    from cluster_assumption_mask_ok [OF t view_ground(2) [OF inp refl], where s = s and kk = kk and key = key]
    obtain ok es where c: "cluster_assumption_mask addr s cov rf key kk = Some (ok, es)"
      "map frame es = map frame ?es0"
      "\<forall>e\<in>set es. included e \<longrightarrow> me_rf e \<noteq> None \<and> (me_key e = kk \<or> me_key e = NO_KEY)"
      "\<forall>e\<in>set es. me_rf e \<noteq> None \<and> me_key e = kk \<longrightarrow> included e"
      "\<forall>e\<in>set es. droppable cov (inc_aps cov es) e"
      "ok \<longrightarrow> (\<exists>w. env_entries_hold (entry_of ` {e \<in> set es. pending e}) w)" by (elim exE conjE)
    from True c(1) have "(if ?mask then cluster_assumption_mask addr s cov rf key kk else Some (False, ?es0)) = Some (ok, es)"
      by simp
    from that [OF this c(2)] c(3-6) show ?thesis by blast
  qed
  let ?sel = "cluster_selected False ok prune kk"
  from fill_from [OF inp fr] obtain seen v where
    v: "fill_cluster addr cov ?sel es (no_aps cov) (section_pattern_init (spec_semantics s)) = Some (seen, v)"
    "entry_set v = chosen ?sel es" "view_semantics v = spec_semantics s"
    "marks (cov_aps cov) seen (aps_in cov (chosen ?sel es))" by blast
  have view: "residual_build_cluster_view addr s cov rf key kk False prune = Some (seen, v)"
    using m v(1) inf by (auto simp: residual_build_cluster_view_def split: if_splits)
  note game = cluster_game [OF inf view v(2-4)]
  have frames: "\<exists>e0\<in>set ?es0. frame e0 = frame e" if "e \<in> set es" for e
  proof -
    have "frame e \<in> set (map frame ?es0)" unfolding fr [symmetric] using that by simp
    then show ?thesis by auto
  qed
  have part_es: "part kk es = part kk ?es0"
  proof -
    have P: "part kk es = (\<lambda>(c, r, k). (con_role c, the r)) `
        {x \<in> set (map frame es). fst (snd x) \<noteq> None \<and> (snd (snd x) = kk \<or> snd (snd x) = NO_KEY)}" for es
      unfolding part_def chosen_def by (force simp: frame_def entry_of_def)
    show ?thesis unfolding P fr ..
  qed
  show ?thesis
  proof (cases ok)
    case False
    have "chosen ?sel es = part kk es" unfolding part_def
    proof (rule chosen_cong)
      fix e assume e: "e \<in> set es" "me_rf e \<noteq> None"
      from frames [OF e(1)] obtain e0 where e0: "e0 \<in> set ?es0" "frame e0 = frame e" by blast
      with keys e(2) have "me_key e = NO_KEY \<longleftrightarrow> assumption_side (me_con e)"
        by (auto simp: keys_ok_def frame_def)
      then show "?sel e = (me_key e = kk \<or> me_key e = NO_KEY)"
        using False by (simp add: cluster_selected_def)
    qed
    with game part_es show ?thesis by simp
  next
    case True
    let ?B = "chosen ?sel es" and ?A = "part kk es"
    have sel: "?sel e = included e" for e using True by (simp add: cluster_selected_def)
    have sub: "?B \<subseteq> ?A"
      using inc True unfolding part_def chosen_def sel by blast
    have D: "?A - ?B \<subseteq> entry_of ` {e \<in> set es. pending e}"
    proof
      fix x assume x: "x \<in> ?A - ?B"
      then obtain e where e: "e \<in> set es" "me_rf e \<noteq> None" "me_key e = kk \<or> me_key e = NO_KEY" "x = entry_of e"
        by (auto simp: part_def chosen_def)
      with x have "\<not> included e" by (auto simp: chosen_def sel)
      with e own True have "pending e" by (auto simp: pending_def)
      with e show "x \<in> entry_of ` {e \<in> set es. pending e}" by blast
    qed
    have env_side: "env_side (fst x)" "atoms (snd x) \<inter> out_names cov = {}" "atoms (snd x) \<inter> entry_atoms ?B = {}"
      if x: "x \<in> ?A - ?B" for x
    proof -
      from D x obtain e where e: "e \<in> set es" "pending e" "x = entry_of e" by blast
      then obtain f where f: "me_rf e = Some f" by (auto simp: pending_def)
      with drop True e have d: "assumption_side (me_con e)" "input_only cov f"
        "aps_of (cov_aps cov) f \<inter> inc_aps cov es = {}" by (auto simp: droppable_def)
      have at: "atoms f \<subseteq> set (names (cov_aps cov))" using view_ground(1) [OF inp fr] e(1) f by blast
      have xf: "snd x = f" using e(3) f by (simp add: entry_of_def)
      have "sides_ok e" using view_ground(2) [OF inp fr] e(1) by blast
      with d(1) e(3) show "env_side (fst x)" by (simp add: sides_ok_def entry_of_def)
      have dist: "distinct (names (cov_aps cov))" using t by (simp add: ap_table_ok_def)
      show "atoms (snd x) \<inter> out_names cov = {}"
      proof -
        have "a \<in> aps_of (cov_aps cov) f \<Longrightarrow> a \<notin> all_outs cov" for a
          using d(2) inp by (auto simp: input_only_def all_outs_def residual_input_def)
        then show ?thesis unfolding xf out_names_def using outs_subset(2) [of cov]
          by (auto simp: aps_of_def all_outs_def)
      qed
      show "atoms (snd x) \<inter> entry_atoms ?B = {}"
      proof (rule ccontr)
        assume "atoms (snd x) \<inter> entry_atoms ?B \<noteq> {}"
        then obtain p y where p: "p \<in> atoms f" "y \<in> ?B" "p \<in> atoms (snd y)"
          unfolding xf by (auto simp: entry_atoms_def)
        then obtain e' where e': "e' \<in> set es" "me_rf e' \<noteq> None" "included e'" "y = entry_of e'"
          by (auto simp: chosen_def sel)
        then obtain g where g: "me_rf e' = Some g" by blast
        from at p(1) obtain a where a: "a < ap_count cov" "names (cov_aps cov) ! a = p"
          by (metis in_set_conv_nth subsetD)
        have "a \<in> aps_of (cov_aps cov) f" "a \<in> aps_of (cov_aps cov) g"
          using a p e'(4) g by (auto simp: aps_of_def entry_of_def)
        with e' g d(3) show False by (auto simp: inc_aps_def)
      qed
    qed
    let ?D = "?A - ?B"
    from env True obtain w where "env_entries_hold (entry_of ` {e \<in> set es. pending e}) w" by blast
    with D have w: "env_entries_hold ?D w" unfolding env_entries_hold_def by blast
    have "realizable moore (out_names cov) (meets ?st \<infinity> ?A) \<longleftrightarrow> realizable moore (out_names cov) (meets ?st \<infinity> ?B)"
    proof (rule realizable_prune [where \<delta> = "env_entries_hold ?D" and V = "entry_atoms ?D" and t = w])
      show "meets ?st \<infinity> ?B u \<Longrightarrow> meets ?st \<infinity> ?A u" for u
        by (rule meets_more [OF sub]) (use env_side(1) in auto)
      show "env_entries_hold ?D u \<Longrightarrow> meets ?st \<infinity> ?A u \<Longrightarrow> meets ?st \<infinity> ?B u" for u
        by (rule meets_fewer [OF sub])
      show "looks_at (entry_atoms ?D) (env_entries_hold ?D)" by (rule env_entries_looks_at) simp
      show "looks_at (- entry_atoms ?D) (meets ?st \<infinity> ?B)"
        by (rule meets_looks_at) (use env_side(3) in \<open>auto simp: entry_atoms_def\<close>)
      show "entry_atoms ?D \<inter> out_names cov = {}"
        using env_side(2) unfolding entry_atoms_def by blast
    qed (rule w)
    with game part_es show ?thesis by simp
  qed
qed

subsection \<open>The keys\<close>

lemma cluster_keys_entries:
  assumes inp: "residual_input addr s cov rf" and k: "residual_cluster_keys addr cov rf = Some (key, keys)"
  defines "es \<equiv> mask_entries cov rf key"
  shows "keys_ok cov rf key" and "set keys = set key - {NO_KEY}" and "distinct keys"
    and "length es = length rf" and "\<And>i. i < length rf \<Longrightarrow> me_key (es ! i) = key ! i"
    and "\<And>i j. i < length es \<Longrightarrow> j < length es \<Longrightarrow> me_key (es ! i) \<noteq> NO_KEY \<Longrightarrow> me_key (es ! j) \<noteq> NO_KEY \<Longrightarrow>
      me_rf (es ! i) = Some f \<Longrightarrow> me_rf (es ! j) = Some g \<Longrightarrow>
      me_key (es ! i) = me_key (es ! j) \<longleftrightarrow> linked cov (zip (cov_items cov) rf) f g"
    and "\<And>i. i < length es \<Longrightarrow> me_key (es ! i) \<noteq> NO_KEY \<Longrightarrow> me_rf (es ! i) \<noteq> None"
proof -
  have t: "ap_table_ok addr (cov_aps cov)" "ap_count cov < NO_KEY" "length rf = length (cov_items cov)"
    using inp by (simp_all add: residual_input_def)
  let ?cs = "zip (cov_items cov) rf"
  from cluster_keys_ok [OF t(1,2), of rf] k t(3) have
    c: "keys = distinct_keys key" "length key = length rf"
    "\<forall>i<length rf. key ! i = NO_KEY \<longleftrightarrow> \<not> is_guarantee (?cs ! i)"
    "\<forall>i<length rf. \<forall>j<length rf. is_guarantee (?cs ! i) \<longrightarrow> is_guarantee (?cs ! j) \<longrightarrow>
       (key ! i = key ! j \<longleftrightarrow> linked cov ?cs (the (snd (?cs ! i))) (the (snd (?cs ! j))))" by auto
  show len: "length es = length rf" using t(3) c(2) by (simp add: es_def length_mask_entries)
  have nth: "es ! i = \<lparr>me_con = cov_items cov ! i, me_rf = rf ! i, me_key = key ! i, included = False\<rparr>"
    if "i < length rf" for i
    unfolding es_def by (rule mask_entries_nth) (use that t(3) c(2) in simp_all)
  have cs: "?cs ! i = (cov_items cov ! i, rf ! i)" if "i < length rf" for i using that t(3) by simp
  show "me_key (es ! i) = key ! i" if "i < length rf" for i using nth [OF that] by simp
  show "set keys = set key - {NO_KEY}" "distinct keys" using c(1) distinct_keys_ok [of key] by simp_all
  show "keys_ok cov rf key" unfolding keys_ok_def
  proof (intro conjI ballI impI)
    fix e assume e: "e \<in> set (mask_entries cov rf key)" "me_rf e \<noteq> None"
    then obtain i where i: "i < length rf" "e = es ! i" using len by (metis es_def in_set_conv_nth)
    with e(2) c(3) nth [OF i(1)] cs [OF i(1)]
    show "me_key e = NO_KEY \<longleftrightarrow> assumption_side (me_con e)" by (auto simp: is_guarantee_def)
  qed (rule c(2))
  show "me_key (es ! i) = me_key (es ! j) \<longleftrightarrow> linked cov ?cs f g"
    if "i < length es" "j < length es" "me_key (es ! i) \<noteq> NO_KEY" "me_key (es ! j) \<noteq> NO_KEY"
      "me_rf (es ! i) = Some f" "me_rf (es ! j) = Some g" for i j
  proof -
    from that(1,2) len have l: "i < length rf" "j < length rf" by simp_all
    from that(3,4) nth [OF l(1)] nth [OF l(2)] c(3) l have
      g: "is_guarantee (?cs ! i)" "is_guarantee (?cs ! j)" by simp_all
    from c(4) l g have "key ! i = key ! j \<longleftrightarrow> linked cov ?cs (the (snd (?cs ! i))) (the (snd (?cs ! j)))" by blast
    with that(5,6) nth [OF l(1)] nth [OF l(2)] cs [OF l(1)] cs [OF l(2)] show ?thesis by simp
  qed
  show "me_rf (es ! i) \<noteq> None" if "i < length es" "me_key (es ! i) \<noteq> NO_KEY" for i
  proof -
    from that(1) len have l: "i < length rf" by simp
    with that(2) nth [OF l] c(3) have "is_guarantee (?cs ! i)" by simp
    with nth [OF l] cs [OF l] show ?thesis by (simp add: is_guarantee_def)
  qed
qed

lemma in_part:
  assumes "x \<in> part kk es"
  obtains i f where "i < length es" "me_rf (es ! i) = Some f" "me_key (es ! i) = kk \<or> me_key (es ! i) = NO_KEY"
    "x = (con_role (me_con (es ! i)), f)"
proof -
  from assms obtain e where e: "e \<in> set es" "me_rf e \<noteq> None" "me_key e = kk \<or> me_key e = NO_KEY" "x = entry_of e"
    by (auto simp: part_def chosen_def)
  then obtain i where "i < length es" "e = es ! i" by (metis in_set_conv_nth)
  with e that show ?thesis by (auto simp: entry_of_def)
qed

lemma cluster_split_ok:
  assumes inp: "residual_input addr s cov rf" and k: "residual_cluster_keys addr cov rf = Some (key, keys)"
    and inf: "\<not> semantics_is_finite (spec_semantics s)"
  defines "es \<equiv> mask_entries cov rf key"
  shows "meets strict L (whole es) w \<longleftrightarrow> (\<forall>kk\<in>set keys. meets strict L (part kk es) w)"
    and "\<And>kk kk'. kk \<in> set keys \<Longrightarrow> kk' \<in> set keys \<Longrightarrow> kk \<noteq> kk' \<Longrightarrow>
      (entry_atoms (part kk es) \<inter> out_names cov) \<inter> (entry_atoms (part kk' es) \<inter> out_names cov) = {}"
proof -
  note K = cluster_keys_entries [OF inp k, folded es_def]
  have sides: "\<forall>e\<in>set es. sides_ok e" using view_ground(2) [OF inp refl] by (simp add: es_def)
  have side: "env_side (fst (entry_of e)) \<longleftrightarrow> me_key e = NO_KEY" if "e \<in> set es" "me_rf e \<noteq> None" for e
    using that sides K(1) by (auto simp: keys_ok_def sides_ok_def entry_of_def es_def)
  show "meets strict L (whole es) w \<longleftrightarrow> (\<forall>kk\<in>set keys. meets strict L (part kk es) w)"
  proof (rule meets_split)
    fix x assume x: "x \<in> whole es" "\<not> env_side (fst x)"
    then obtain e where e: "e \<in> set es" "me_rf e \<noteq> None" "x = entry_of e" by (auto simp: whole_def chosen_def)
    with side x(2) have n: "me_key e \<noteq> NO_KEY" by blast
    have "me_key e \<in> set key" using mask_entries_in(3) e(1) by (simp add: es_def)
    with K(2) n have "me_key e \<in> set keys" by simp
    with e show "\<exists>kk\<in>set keys. x \<in> part kk es" by (auto simp: part_def chosen_def)
  next
    fix kk x assume x: "x \<in> whole es" "env_side (fst x)"
    then obtain e where e: "e \<in> set es" "me_rf e \<noteq> None" "x = entry_of e" by (auto simp: whole_def chosen_def)
    with side x(2) have "me_key e = NO_KEY" by blast
    with e show "x \<in> part kk es" by (auto simp: part_def chosen_def)
  qed (auto simp: part_def whole_def chosen_def)
  show "(entry_atoms (part kk es) \<inter> out_names cov) \<inter> (entry_atoms (part kk' es) \<inter> out_names cov) = {}"
    if kk: "kk \<in> set keys" "kk' \<in> set keys" "kk \<noteq> kk'" for kk kk'
  proof (rule ccontr)
    let ?cs = "zip (cov_items cov) rf"
    have pick: "\<exists>i f. i < length es \<and> me_key (es ! i) = kk \<and> me_rf (es ! i) = Some f" if "kk \<in> set keys" for kk
    proof -
      from that K(2) obtain i where i: "i < length key" "key ! i = kk" by (auto simp: in_set_conv_nth)
      have lr: "i < length rf" using i(1) K(1) by (simp add: keys_ok_def)
      with K(5) i have "me_key (es ! i) = kk" "i < length es" using K(4) by simp_all
      moreover from this that K(2) have "me_rf (es ! i) \<noteq> None" using K(7) by auto
      ultimately show ?thesis by blast
    qed
    have nk: "kk \<noteq> NO_KEY" "kk' \<noteq> NO_KEY" using kk K(2) by auto
    have nc: "\<not> collapsed cov ?cs"
    proof
      assume c: "collapsed cov ?cs"
      from pick [OF kk(1)] pick [OF kk(2)] obtain i f j g where
        "i < length es" "me_key (es ! i) = kk" "me_rf (es ! i) = Some f"
        "j < length es" "me_key (es ! j) = kk'" "me_rf (es ! j) = Some g" by blast
      with K(6) [of i j f g] nk kk(3) c show False by (simp add: linked_def)
    qed
    assume "(entry_atoms (part kk es) \<inter> out_names cov) \<inter> (entry_atoms (part kk' es) \<inter> out_names cov) \<noteq> {}"
    then obtain p x y where p: "p \<in> out_names cov" "x \<in> part kk es" "p \<in> atoms (snd x)"
      "y \<in> part kk' es" "p \<in> atoms (snd y)" by (auto simp: entry_atoms_def)
    from p(1) obtain a where a: "a \<in> all_outs cov" "names (cov_aps cov) ! a = p" by (auto simp: out_names_def)
    have hit: "me_key (es ! i) \<noteq> NO_KEY \<and> a \<in> outs cov f"
      if i: "i < length es" "me_rf (es ! i) = Some f" "p \<in> atoms f" for i f
    proof -
      have af: "a \<in> outs cov f" using a i(3) by (auto simp: outs_def aps_of_def all_outs_def)
      have lr: "i < length rf" "i < length (cov_items cov)" "i < length key"
        using i(1) K(1,4) inp by (simp_all add: keys_ok_def residual_input_def)
      have n: "es ! i = \<lparr>me_con = cov_items cov ! i, me_rf = rf ! i, me_key = key ! i, included = False\<rparr>"
        unfolding es_def by (rule mask_entries_nth) (use lr in simp_all)
      have "?cs ! i = (cov_items cov ! i, Some f)" using lr i(2) n by simp
      then have mem: "(cov_items cov ! i, Some f) \<in> set ?cs" using lr by (metis length_zip min_less_iff_conj nth_mem)
      have "\<not> assumption_side (cov_items cov ! i)" using nc mem af unfolding collapsed_def by blast
      moreover have "es ! i \<in> set es" using i(1) by simp
      ultimately have "me_key (es ! i) \<noteq> NO_KEY" using K(1) i(2) n by (auto simp: keys_ok_def es_def)
      with af show ?thesis by blast
    qed
    from p(2) obtain i f where i: "i < length es" "me_rf (es ! i) = Some f"
      "me_key (es ! i) = kk \<or> me_key (es ! i) = NO_KEY" "x = (con_role (me_con (es ! i)), f)" by (rule in_part)
    from p(4) obtain j g where j: "j < length es" "me_rf (es ! j) = Some g"
      "me_key (es ! j) = kk' \<or> me_key (es ! j) = NO_KEY" "y = (con_role (me_con (es ! j)), g)" by (rule in_part)
    have hi: "me_key (es ! i) \<noteq> NO_KEY \<and> a \<in> outs cov f" by (rule hit [OF i(1,2)]) (use p(3) i(4) in simp)
    have hj: "me_key (es ! j) \<noteq> NO_KEY \<and> a \<in> outs cov g" by (rule hit [OF j(1,2)]) (use p(5) j(4) in simp)
    have "linked cov ?cs f g" using hi hj unfolding linked_def by (auto intro: bexI [of _ a])
    with K(6) [OF i(1) j(1) _ _ i(2) j(2)] hi hj have "me_key (es ! i) = me_key (es ! j)" by simp
    with i(3) j(3) hi hj kk(3) show False by simp
  qed
qed

lemma residual_clusters:
  assumes inp: "residual_input addr s cov rf" and inf: "\<not> semantics_is_finite (spec_semantics s)"
    and k: "residual_cluster_keys addr cov rf = Some (key, keys)"
  shows "cluster_realizable addr s cov rf key k0 True prune0 moore \<longleftrightarrow>
    list_all (\<lambda>kk. cluster_realizable addr s cov rf key kk False prune moore) keys"
proof -
  let ?es = "mask_entries cov rf key" and ?st = "semantics_is_strict (spec_semantics s)"
  note K = cluster_keys_entries [OF inp k] and S = cluster_split_ok [OF inp k inf]
  have "cluster_realizable addr s cov rf key k0 True prune0 moore \<longleftrightarrow>
      realizable moore (out_names cov) (meets ?st \<infinity> (whole ?es))"
    by (rule whole_game [OF inp inf])
  also have "\<dots> \<longleftrightarrow> realizable moore (out_names cov) (\<lambda>w. \<forall>kk\<in>set keys. meets ?st \<infinity> (part kk ?es) w)"
    by (rule realizable_cong) (rule S(1))
  also have "\<dots> \<longleftrightarrow> (\<forall>kk\<in>set keys. realizable moore (out_names cov) (meets ?st \<infinity> (part kk ?es)))"
  proof (rule realizable_split [where own = "\<lambda>kk. entry_atoms (part kk ?es) \<inter> out_names cov"])
    show "looks_at (entry_atoms (part kk ?es) \<inter> out_names cov \<union> - out_names cov) (meets ?st \<infinity> (part kk ?es))" for kk
      by (rule meets_looks_at) blast
  qed (rule S(2))
  also have "\<dots> \<longleftrightarrow> (\<forall>kk\<in>set keys. cluster_realizable addr s cov rf key kk False prune moore)"
    using part_game [OF inp inf K(1)] K(2) by auto
  finally show ?thesis by (simp add: list_all_iff)
qed

end
