(* ===== verification/Residual_Claims.thy ===== *)
theory Residual_Claims
  imports Residual_Correct
begin

text \<open>
  The properties of the residual: elimination, keys, environment masks, and the exactness of
  the whole decomposition.
\<close>

subsection \<open>Elimination\<close>

definition elim_name :: "ap_table \<Rightarrow> elimination \<Rightarrow> ap" where
  "elim_name t e = names t ! elim_output e"

lemma elim_pass_sat:
  assumes "enat i < L"
  shows "\<forall>e\<in>set es. \<forall>j. enat j < L \<longrightarrow> (elim_name t e \<in> w j) = sat L w (elim_value e) j \<Longrightarrow>
    sat L w (elim_pass t es n) i = sat L w n i"
proof (induction es arbitrary: n)
  case (Cons e es)
  have "sat L w (node_subst n (elim_name t e) (elim_value e)) i = sat L w n i"
    by (rule node_subst_sat [OF _ assms]) (use Cons.prems in simp)
  with Cons show ?case by (simp add: elim_pass_def elim_name_def)
qed (simp add: elim_pass_def)

lemma elim_pass_ground:
  "ground n \<Longrightarrow> \<forall>e\<in>set es. ground (elim_value e) \<Longrightarrow> ground (elim_pass t es n)"
  by (induction es arbitrary: n) (simp_all add: elim_pass_def node_subst_ground)

lemma elim_pass_rank:
  "\<forall>p\<in>atoms n \<inter> E. R p < Suc m \<and> (R p = m \<longrightarrow> p \<in> elim_name t ` set es) \<Longrightarrow>
   \<forall>e\<in>set es. \<forall>p\<in>atoms (elim_value e) \<inter> E. R p < R (elim_name t e) \<Longrightarrow>
   elim_name t ` set es \<subseteq> E \<Longrightarrow> \<forall>p\<in>atoms (elim_pass t es n) \<inter> E. R p < m"
proof (induction es arbitrary: n)
  case Nil
  then show ?case by (auto simp: elim_pass_def less_Suc_eq)
next
  case (Cons e es)
  let ?n = "node_subst n (elim_name t e) (elim_value e)"
  have "\<forall>p\<in>atoms ?n \<inter> E. R p < Suc m \<and> (R p = m \<longrightarrow> p \<in> elim_name t ` set es)"
  proof
    fix p assume p: "p \<in> atoms ?n \<inter> E"
    show "R p < Suc m \<and> (R p = m \<longrightarrow> p \<in> elim_name t ` set es)"
    proof (cases "p \<in> atoms n \<and> p \<noteq> elim_name t e")
      case True
      with p Cons.prems(1) show ?thesis by auto
    next
      case False
      with p have v: "p \<in> atoms (elim_value e)" "elim_name t e \<in> atoms n"
        by (auto simp: node_subst_atoms split: if_splits)
      with p Cons.prems(2) have "R p < R (elim_name t e)" by simp
      moreover have "R (elim_name t e) < Suc m" using v(2) Cons.prems(1,3) by simp
      ultimately show ?thesis by simp
    qed
  qed
  from Cons.IH [OF this] Cons.prems(2,3) show ?case by (simp add: elim_pass_def elim_name_def)
qed

lemma elim_passes_rank:
  assumes "\<forall>e\<in>set es. \<forall>p\<in>atoms (elim_value e) \<inter> elim_name t ` set es. R p < R (elim_name t e)"
  shows "\<forall>p\<in>atoms n \<inter> elim_name t ` set es. R p < k + m \<Longrightarrow>
    \<forall>p\<in>atoms ((elim_pass t es ^^ k) n) \<inter> elim_name t ` set es. R p < m"
proof (induction k arbitrary: m)
  case (Suc k)
  from Suc.IH [of "Suc m"] Suc.prems
  have "\<forall>p\<in>atoms ((elim_pass t es ^^ k) n) \<inter> elim_name t ` set es. R p < Suc m" by simp
  then have "\<forall>p\<in>atoms ((elim_pass t es ^^ k) n) \<inter> elim_name t ` set es.
      R p < Suc m \<and> (R p = m \<longrightarrow> p \<in> elim_name t ` set es)" by blast
  from elim_pass_rank [OF this assms order_refl] show ?case by simp
qed simp

subsection \<open>Properties\<close>

text \<open>
  C14. Eliminating solved outputs is an equivalence on every word on which the outputs have
  their values, keeps expanded formulas expanded, and, when the definitions do not depend on
  each other in a cycle (each reads outputs of smaller rank only), leaves none of the eliminated
  outputs: the number of passes is enough.
\<close>

theorem residual_apply_elims_correct:
  assumes "\<forall>e\<in>set es. \<forall>p\<in>atoms (elim_value e) \<inter> elim_name t ` set es. R p < R (elim_name t e)"
    and "\<forall>e\<in>set es. R (elim_name t e) < length es"
    and "ground n" and "\<forall>e\<in>set es. ground (elim_value e)"
    and "\<forall>e\<in>set es. \<forall>j. enat j < L \<longrightarrow> (elim_name t e \<in> w j) = sat L w (elim_value e) j" and "enat i < L"
  shows "sat L w (residual_apply_elims t es n) i = sat L w n i \<and> ground (residual_apply_elims t es n) \<and>
    atoms (residual_apply_elims t es n) \<inter> elim_name t ` set es = {}"
proof -
  have keep: "sat L w ((elim_pass t es ^^ k) n) i = sat L w n i \<and> ground ((elim_pass t es ^^ k) n)" for k
    by (induction k) (use elim_pass_sat [OF assms(6,5)] elim_pass_ground [OF _ assms(4)] assms(3) in simp_all)
  have "\<forall>p\<in>atoms ((elim_pass t es ^^ Suc (length es)) n) \<inter> elim_name t ` set es. R p < 0"
    by (rule elim_passes_rank [OF assms(1)]) (use assms(2) in auto)
  then show ?thesis unfolding residual_apply_elims_def using keep [of "Suc (length es)"] by blast
qed

theorem residual_apply_elims_correct_witness:
  "residual_apply_elims \<lparr>names = [''b'', ''a'', ''r''], flags = [2, 2, 1], cap = 16, hash = [], hcap = 0\<rparr>
     [\<lparr>elim_output = 0, elim_value = node_x (NodeAp ''r'')\<rparr>,
      \<lparr>elim_output = 1, elim_value = node_not (NodeAp ''b'')\<rparr>] (node_g (NodeAp ''a'')) =
     node_g (node_not (node_x (NodeAp ''r''))) \<and>
   atoms (residual_apply_elims \<lparr>names = [''b'', ''a'', ''r''], flags = [2, 2, 1], cap = 16, hash = [], hcap = 0\<rparr>
     [\<lparr>elim_output = 0, elim_value = node_x (NodeAp ''r'')\<rparr>,
      \<lparr>elim_output = 1, elim_value = node_not (NodeAp ''b'')\<rparr>] (node_g (NodeAp ''a''))) \<inter> {''a'', ''b''} = {}"
proof -
  let ?t = "\<lparr>names = [''b'', ''a'', ''r''], flags = [2, 2, 1], cap = 16, hash = [], hcap = 0\<rparr>"
  let ?es = "[\<lparr>elim_output = 0, elim_value = node_x (NodeAp ''r'')\<rparr>,
      \<lparr>elim_output = 1, elim_value = node_not (NodeAp ''b'')\<rparr>]"
  have e: "residual_apply_elims ?t ?es (node_g (NodeAp ''a'')) = node_g (node_not (node_x (NodeAp ''r'')))"
    by (simp add: residual_apply_elims_def elim_pass_def)
  from residual_apply_elims_correct [of ?es ?t "\<lambda>p. if p = ''a'' then 1 else 0" "node_g (NodeAp ''a'')"
      \<infinity> "\<lambda>_. {''r'', ''b''}" 0]
  have "atoms (residual_apply_elims ?t ?es (node_g (NodeAp ''a''))) \<inter> elim_name ?t ` set ?es = {}"
    by (simp add: elim_name_def next_weak_def)
  then have "atoms (residual_apply_elims ?t ?es (node_g (NodeAp ''a''))) \<inter> {''b'', ''a''} = {}"
    by (simp add: elim_name_def)
  with e show ?thesis by (simp add: insert_commute)
qed

text \<open>
  C12. The cluster keys partition the guarantees: the clustering always succeeds, the keys it
  lists are distinct and are those of the guarantees, and two guarantees are in the same cluster
  exactly when a chain of constraints with common outputs links them, or the clusters have been
  collapsed because an assumption mentions an output.
\<close>

theorem residual_cluster_keys_correct:
  assumes "residual_input addr s cov rf"
  shows "\<exists>key keys. residual_cluster_keys addr cov rf = Some (key, keys) \<and> length key = length rf \<and>
    distinct keys \<and> set keys = set key - {NO_KEY} \<and>
    (\<forall>i<length rf. key ! i = NO_KEY \<longleftrightarrow> rf ! i = None \<or> assumption_side (cov_items cov ! i)) \<and>
    (\<forall>i<length rf. \<forall>j<length rf. \<forall>f g. key ! i \<noteq> NO_KEY \<and> key ! j \<noteq> NO_KEY \<and>
       rf ! i = Some f \<and> rf ! j = Some g \<longrightarrow>
         (key ! i = key ! j \<longleftrightarrow> linked cov (zip (cov_items cov) rf) f g))"
proof -
  have t: "ap_table_ok addr (cov_aps cov)" "ap_count cov < NO_KEY" "length rf = length (cov_items cov)"
    using assms by (simp_all add: residual_input_def)
  let ?cs = "zip (cov_items cov) rf"
  have len: "length ?cs = length rf" using t(3) by simp
  from cluster_keys_ok [OF t(1,2), of rf] obtain key where
    k: "residual_cluster_keys addr cov rf = Some (key, distinct_keys key)" "length key = length rf"
    "\<forall>i<length rf. key ! i = NO_KEY \<longleftrightarrow> \<not> is_guarantee (?cs ! i)"
    "\<forall>i<length rf. \<forall>j<length rf. is_guarantee (?cs ! i) \<longrightarrow> is_guarantee (?cs ! j) \<longrightarrow>
       (key ! i = key ! j \<longleftrightarrow> linked cov ?cs (the (snd (?cs ! i))) (the (snd (?cs ! j))))"
    unfolding len by (elim exE conjE)
  have cs: "?cs ! i = (cov_items cov ! i, rf ! i)" if "i < length rf" for i using that t(3) by simp
  have "\<forall>i<length rf. key ! i = NO_KEY \<longleftrightarrow> rf ! i = None \<or> assumption_side (cov_items cov ! i)"
    using k(3) cs by (auto simp: is_guarantee_def)
  moreover have same: "key ! i = key ! j \<longleftrightarrow> linked cov ?cs f g"
    if "i < length rf" "j < length rf" "key ! i \<noteq> NO_KEY" "key ! j \<noteq> NO_KEY" "rf ! i = Some f" "rf ! j = Some g"
    for i j f g
  proof -
    have "is_guarantee (?cs ! i)" "is_guarantee (?cs ! j)"
      using k(3) [rule_format, OF that(1)] k(3) [rule_format, OF that(2)] that(3,4) by simp_all
    note k(4) [rule_format, OF that(1,2) this]
    then show ?thesis using cs [OF that(1)] cs [OF that(2)] that(5,6) by simp
  qed
  moreover from same have "\<forall>i<length rf. \<forall>j<length rf. \<forall>f g. key ! i \<noteq> NO_KEY \<and> key ! j \<noteq> NO_KEY \<and>
       rf ! i = Some f \<and> rf ! j = Some g \<longrightarrow> (key ! i = key ! j \<longleftrightarrow> linked cov ?cs f g)"
    by (intro allI impI) (elim conjE)
  ultimately show ?thesis using k(1,2) distinct_keys_ok [of key]
    by (intro exI [of _ key] exI [of _ "distinct_keys key"]) (intro conjI; simp only:)
qed

text \<open>The covers of expanded specifications provide what the residual asks for.\<close>

lemma residual_input_cover:
  assumes g: "spec_ground s" and n: "length (cover_parts split s) \<le> 2 ^ 31"
    and c: "card (set (alphabet_list s)) < 2 ^ 30" and disj: "input_names s \<inter> output_names s = {}"
    and b: "cover_build addr s split = Some cov" and len: "length rf = length (cov_items cov)"
    and rf: "\<And>f. Some f \<in> set rf \<Longrightarrow> ground f \<and> atoms f \<subseteq> set (alphabet_list s)"
  shows "residual_input addr s cov rf"
proof -
  note cov = cover_for_build [OF g n c b]
  have tab: "table_for addr s (cov_aps cov)" and items: "length (cov_items cov) = length (cover_parts split s)"
    and sp: "cov_spec cov = s" using cov by (simp_all add: cover_for_def)
  have t: "ap_table_ok addr (cov_aps cov)" and nm: "set (names (cov_aps cov)) = set (alphabet_list s)"
    using tab by (simp_all add: table_for_def)
  have "distinct (names (cov_aps cov))" using t by (simp add: ap_table_ok_def)
  then have "ap_count cov = card (set (alphabet_list s))" using nm by (metis distinct_card)
  then have small: "ap_count cov < NO_KEY" using c by (simp add: NO_KEY_def)
  have sides: "\<forall>c\<in>set (cov_items cov). assumption_side c = env_side (con_role c)"
    using cover_item(1) [OF cov g] by blast
  have one: "\<not> residual_signal_matches (cov_aps cov) a AP_FLAG_INPUT"
    if "a < ap_count cov" "is_output cov a" for a
  proof -
    have "residual_signal_matches (cov_aps cov) a AP_FLAG_INPUT = inp (flags (cov_aps cov) ! a)"
      by (simp add: residual_signal_matches_def inp_def Let_def)
    moreover have "is_output cov a = outp (flags (cov_aps cov) ! a)" by (simp add: is_output_def outp_def)
    ultimately show ?thesis using tab that disj by (auto simp: table_for_def)
  qed
  show ?thesis unfolding residual_input_def
    using sp t small len items n sides rf one nm by auto
qed

lemma sample_residual:
  assumes "list_all ground gs" and "length gs \<le> 16" and "(\<Union>f\<in>set gs. atoms f) \<subseteq> {''r'', ''g''}"
  obtains cov where "cover_build (\<lambda>_. 3) (sample_spec gs) False = Some cov"
    "residual_input (\<lambda>_. 3) (sample_spec gs) cov (map Some gs)" "map con_formula (cov_items cov) = gs"
    "\<forall>c\<in>set (cov_items cov). con_role c = TLSF_ROLE_GUARANTEE" "out_names cov = {''g''}"
proof -
  let ?s = "sample_spec gs"
  have ok: "spec_ground ?s" "length (cover_parts False ?s) \<le> 2 ^ 31" "card (set (alphabet_list ?s)) < 2 ^ 30"
    using sample_spec_cover [of gs] assms by auto
  from cover_build_ok [OF ok, of "\<lambda>_. 3"] obtain cov where
    cov: "cover_build (\<lambda>_. 3) ?s False = Some cov" "cover_for (\<lambda>_. 3) ?s False cov" by blast
  have snd: "map snd (cover_parts False ?s) = gs" unfolding cover_parts_snd by (simp add: sample_spec_simps)
  have st: "stored False j (cover_parts False ?s ! j) (cov_items cov ! j)" "j < length (cover_parts False ?s)"
    if "j < length (cov_items cov)" for j
    using cov(2) that by (simp_all add: cover_for_def sample_spec_simps semantics_is_finite_def)
  have len: "length (cov_items cov) = length (cover_parts False ?s)" using cov(2) by (simp add: cover_for_def)
  have "map con_formula (cov_items cov) = map snd (cover_parts False ?s)"
  proof (rule nth_equalityI)
    fix i assume "i < length (map con_formula (cov_items cov))"
    then have i: "i < length (cov_items cov)" by simp
    from stored_fields [OF st(1) [OF i]] st(2) [OF i] i
    show "map con_formula (cov_items cov) ! i = map snd (cover_parts False ?s) ! i" by simp
  qed (simp add: len)
  then have fs: "map con_formula (cov_items cov) = gs" by (rule trans) (rule snd)
  have role: "con_role c = TLSF_ROLE_GUARANTEE" if c: "c \<in> set (cov_items cov)" for c
  proof -
    from c obtain j where j: "j < length (cov_items cov)" "c = cov_items cov ! j" by (metis in_set_conv_nth)
    have "fst x = \<lparr>sec_role = TLSF_ROLE_GUARANTEE, sec_assumption = False, sec_invariant = False, sec_list = gs\<rparr>"
      if "x \<in> set (cover_parts False ?s)" for x
      using that by (auto simp: cover_parts_def cover_sections_def sample_spec_def spec_new_def empty_growable_def)
    with st [OF j(1)] stored_fields [OF st(1) [OF j(1)]] j(2) show ?thesis by simp
  qed
  have tab: "table_for (\<lambda>_. 3) ?s (cov_aps cov)" using cov(2) by (simp add: cover_for_def)
  have "is_output cov a = outp (flags (cov_aps cov) ! a)" for a by (simp add: is_output_def outp_def)
  then have "all_outs cov = {a. a < ap_count cov \<and> names (cov_aps cov) ! a \<in> output_names ?s}"
    using tab by (auto simp: all_outs_def table_for_def)
  then have "out_names cov = {p \<in> set (names (cov_aps cov)). p \<in> output_names ?s}"
    unfolding out_names_def set_conv_nth [of "names (cov_aps cov)"] by auto
  also have "\<dots> = {''g''}"
    using tab by (auto simp: table_for_def set_alphabet_list sample_spec_simps)
  finally have out: "out_names cov = {''g''}" .
  have "residual_input (\<lambda>_. 3) ?s cov (map Some gs)"
  proof (rule residual_input_cover [OF ok _ cov(1)])
    show "length (map Some gs) = length (cov_items cov)" using fs by auto
    show "ground f \<and> atoms f \<subseteq> set (alphabet_list ?s)" if "Some f \<in> set (map Some gs)" for f
      using that assms(1,3) by (auto simp: list_all_iff set_alphabet_list sample_spec_simps)
  qed (simp add: sample_spec_simps)
  with that cov(1) fs role out show ?thesis by blast
qed

theorem residual_cluster_keys_correct_witness:
  "\<exists>cov key keys. residual_cluster_keys (\<lambda>_. 3) cov [Some (node_g (NodeAp ''g'')), Some (node_f (NodeAp ''r''))] =
     Some (key, keys) \<and> length keys = 2"
proof -
  let ?gs = "[node_g (NodeAp ''g''), node_f (NodeAp ''r'')]"
  obtain cov where cov: "residual_input (\<lambda>_. 3) (sample_spec ?gs) cov (map Some ?gs)"
    "\<forall>c\<in>set (cov_items cov). con_role c = TLSF_ROLE_GUARANTEE" "out_names cov = {''g''}"
    "map con_formula (cov_items cov) = ?gs"
    by (rule sample_residual [of ?gs]) auto
  from residual_cluster_keys_correct [OF cov(1)] obtain key keys where
    k: "residual_cluster_keys (\<lambda>_. 3) cov (map Some ?gs) = Some (key, keys)"
    "length key = length (map Some ?gs)" "distinct keys"
    "set keys = set key - {NO_KEY}"
    "\<forall>i<length (map Some ?gs). key ! i = NO_KEY \<longleftrightarrow> map Some ?gs ! i = None \<or> assumption_side (cov_items cov ! i)"
    "\<forall>i<length (map Some ?gs). \<forall>j<length (map Some ?gs). \<forall>f g. key ! i \<noteq> NO_KEY \<and> key ! j \<noteq> NO_KEY \<and>
       map Some ?gs ! i = Some f \<and> map Some ?gs ! j = Some g \<longrightarrow>
         (key ! i = key ! j \<longleftrightarrow> linked cov (zip (cov_items cov) (map Some ?gs)) f g)"
    by (elim exE conjE)
  have len: "length (cov_items cov) = 2" using arg_cong [OF cov(4), of length] by simp
  have ns: "\<not> assumption_side c" if "c \<in> set (cov_items cov)" for c
    using cov(1,2) that by (simp add: residual_input_def env_side_def)
  have n: "key ! 0 \<noteq> NO_KEY" "key ! 1 \<noteq> NO_KEY"
    using k(5) ns len by (simp_all add: All_less_Suc numeral_2_eq_2)
  have nc: "\<not> collapsed cov (zip (cov_items cov) (map Some ?gs))"
    using cov(1) ns by (auto simp: collapsed_def residual_input_def sample_spec_simps semantics_is_finite_def
        dest: set_zip_leftD)
  have o: "outs cov f = {} \<longleftrightarrow> ''g'' \<notin> atoms f" for f
  proof
    assume "outs cov f = {}"
    moreover have "''g'' \<in> out_names cov" using cov(3) by simp
    then obtain a where "a \<in> all_outs cov" "names (cov_aps cov) ! a = ''g''"
      unfolding out_names_def by (rule imageE) simp
    ultimately show "''g'' \<notin> atoms f" by (auto simp: outs_def aps_of_def all_outs_def)
  next
    assume g: "''g'' \<notin> atoms f"
    have "names (cov_aps cov) ! a = ''g''" if "a \<in> all_outs cov" for a
    proof -
      have "names (cov_aps cov) ! a \<in> out_names cov" unfolding out_names_def by (rule imageI [OF that])
      then show ?thesis using cov(3) by simp
    qed
    with g show "outs cov f = {}" by (auto simp: outs_def aps_of_def all_outs_def)
  qed
  have oo: "outs cov (node_g (NodeAp ''g'')) \<noteq> {}" "outs cov (node_f (NodeAp ''r'')) = {}"
    using o by simp_all
  have "\<not> linked cov (zip (cov_items cov) (map Some ?gs)) (node_g (NodeAp ''g'')) (node_f (NodeAp ''r''))"
    unfolding linked_def using nc oo by (simp only: if_True simp_thms)
  then have "key ! 0 \<noteq> key ! 1"
    using k(6) [rule_format, of 0 1 "node_g (NodeAp ''g'')" "node_f (NodeAp ''r'')"] n by simp
  moreover obtain x y where xy: "key = [x, y]" using k(2) by (auto simp: length_Suc_conv)
  ultimately have "set keys = {x, y}" "x \<noteq> y" using k(4) n by auto
  then have "length keys = 2" using distinct_card [OF k(3)] by simp
  with k(1) show ?thesis by auto
qed

text \<open>
  C13. The environment of a cluster: choosing the assumptions ends, with none of the
  assertions of the code failing; every formula of the cluster is kept; and when the answer
  allows pruning, the entries left out are assumptions over inputs only, share no atom with
  what is kept, and hold together on some word.
\<close>

theorem cluster_assumption_mask_correct:
  assumes "residual_input addr s cov rf"
  shows "\<exists>ok es. cluster_assumption_mask addr s cov rf key kk = Some (ok, es) \<and>
    map frame es = map frame (mask_entries cov rf key) \<and>
    list_all (\<lambda>e. me_rf e = None \<or> me_key e \<noteq> kk \<or> included e) es \<and>
    list_all (\<lambda>e. \<not> pending e \<or> (assumption_side (me_con e) \<and> input_only cov (the (me_rf e)) \<and>
       aps_of (cov_aps cov) (the (me_rf e)) \<inter> inc_aps cov es = {})) es \<and>
    (ok \<longrightarrow> (\<exists>w. env_entries_hold (entry_of ` {e \<in> set es. pending e}) w))"
proof -
  have t: "ap_table_ok addr (cov_aps cov)" using assms by (simp add: residual_input_def)
  from cluster_assumption_mask_ok [OF t view_ground(2) [OF assms refl], where s = s and kk = kk and key = key]
  obtain ok es where c: "cluster_assumption_mask addr s cov rf key kk = Some (ok, es)"
    "map frame es = map frame (mask_entries cov rf key)"
    "\<forall>e\<in>set es. me_rf e \<noteq> None \<and> me_key e = kk \<longrightarrow> included e"
    "\<forall>e\<in>set es. droppable cov (inc_aps cov es) e"
    "ok \<longrightarrow> (\<exists>w. env_entries_hold (entry_of ` {e \<in> set es. pending e}) w)" by (elim exE conjE)
  have "list_all (\<lambda>e. \<not> pending e \<or> (assumption_side (me_con e) \<and> input_only cov (the (me_rf e)) \<and>
       aps_of (cov_aps cov) (the (me_rf e)) \<inter> inc_aps cov es = {})) es"
    unfolding list_all_iff
  proof
    fix e assume "e \<in> set es"
    with c(4) have "droppable cov (inc_aps cov es) e" by blast
    then show "\<not> pending e \<or> (assumption_side (me_con e) \<and> input_only cov (the (me_rf e)) \<and>
       aps_of (cov_aps cov) (the (me_rf e)) \<inter> inc_aps cov es = {})"
      by (cases "me_rf e") (auto simp: droppable_def pending_def)
  qed
  moreover have "list_all (\<lambda>e. me_rf e = None \<or> me_key e \<noteq> kk \<or> included e) es"
    using c(3) by (auto simp: list_all_iff)
  ultimately show ?thesis using c(1,2,5) by blast
qed

theorem cluster_assumption_mask_correct_witness:
  "\<exists>cov ok es. cluster_assumption_mask (\<lambda>_. 3) (sample_spec [node_g (NodeAp ''g'')]) cov
      [Some (node_g (NodeAp ''g''))] [0] 0 = Some (ok, es) \<and> map included es = [True]"
proof -
  let ?gs = "[node_g (NodeAp ''g'')]"
  obtain cov where cov: "residual_input (\<lambda>_. 3) (sample_spec ?gs) cov (map Some ?gs)"
    "map con_formula (cov_items cov) = ?gs" by (rule sample_residual [of ?gs]) auto
  from cluster_assumption_mask_correct [OF cov(1), of "[0]" 0] obtain ok es where
    c: "cluster_assumption_mask (\<lambda>_. 3) (sample_spec ?gs) cov (map Some ?gs) [0] 0 = Some (ok, es)"
    "map frame es = map frame (mask_entries cov (map Some ?gs) [0])"
    "list_all (\<lambda>e. me_rf e = None \<or> me_key e \<noteq> 0 \<or> included e) es" by (elim exE conjE)
  from cov(2) obtain c0 where "cov_items cov = [c0]" by (auto simp: map_eq_Cons_conv)
  with c(2) obtain e where "es = [e]" "me_rf e = Some (node_g (NodeAp ''g''))" "me_key e = 0"
    by (auto simp: mask_entries_def frame_def map_eq_Cons_conv)
  with c(1,3) show ?thesis by (intro exI [of _ cov] exI [of _ ok] exI [of _ es]) simp
qed

text \<open>
  C8. The decomposition is exact.  Over infinite words, for Mealy and for Moore timing, the
  residual specification is realizable if and only if every cluster is: each cluster formula
  as it is assembled, from its own guarantees and the environment entries the pruning keeps,
  played with the outputs it is handed over with.
\<close>

theorem residual_clusters_exact:
  assumes "residual_input addr s cov rf" and "\<not> semantics_is_finite (spec_semantics s)"
    and "residual_cluster_keys addr cov rf = Some (key, keys)"
  shows "cluster_realizable addr s cov rf key k0 True prune0 moore \<longleftrightarrow>
    list_all (\<lambda>kk. cluster_realizable addr s cov rf key kk False prune moore) keys"
  by (rule residual_clusters [OF assms])

lemma meets_unconditional:
  assumes "W \<subseteq> {TLSF_ROLE_GUARANTEE} \<times> UNIV" and "meets strict L W u" and "(TLSF_ROLE_GUARANTEE, f) \<in> W"
  shows "sat L u f 0"
proof -
  have h: "holds_role L u i W r" if "r \<noteq> TLSF_ROLE_GUARANTEE" for i r
    using assms(1) that unfolding holds_role_def by blast
  have "obligation strict L u W (TLSF_ROLE_GUARANTEE, f)" using assms(2,3) unfolding meets_def by blast
  then show ?thesis by (simp add: obligation_def h env_holds_def alw_def)
qed

theorem residual_clusters_exact_witness:
  "\<exists>cov key keys. residual_cluster_keys (\<lambda>_. 3) cov [Some (node_g (NodeAp ''g'')), Some (node_f (NodeAp ''r''))] =
     Some (key, keys) \<and>
     \<not> list_all (\<lambda>kk. cluster_realizable (\<lambda>_. 3) (sample_spec [node_g (NodeAp ''g''), node_f (NodeAp ''r'')]) cov
       [Some (node_g (NodeAp ''g'')), Some (node_f (NodeAp ''r''))] key kk False True False) keys"
proof -
  let ?gs = "[node_g (NodeAp ''g''), node_f (NodeAp ''r'')]" and ?s = "sample_spec [node_g (NodeAp ''g''), node_f (NodeAp ''r'')]"
  obtain cov where cov: "residual_input (\<lambda>_. 3) ?s cov (map Some ?gs)" "map con_formula (cov_items cov) = ?gs"
    "\<forall>c\<in>set (cov_items cov). con_role c = TLSF_ROLE_GUARANTEE" "out_names cov = {''g''}"
    by (rule sample_residual [of ?gs]) auto
  have inf: "\<not> semantics_is_finite (spec_semantics ?s)" "\<not> semantics_is_strict (spec_semantics ?s)"
    by (simp_all add: sample_spec_simps semantics_is_finite_def semantics_is_strict_def)
  from residual_cluster_keys_correct [OF cov(1)] obtain key keys where
    k: "residual_cluster_keys (\<lambda>_. 3) cov (map Some ?gs) = Some (key, keys)" "length key = length (map Some ?gs)"
    by (elim exE conjE)
  from cov(2,3) obtain c0 c1 where items: "cov_items cov = [c0, c1]" "con_role c0 = TLSF_ROLE_GUARANTEE"
    "con_role c1 = TLSF_ROLE_GUARANTEE" by (auto simp: map_eq_Cons_conv)
  from k(2) obtain x y where "key = [x, y]" by (auto simp: length_Suc_conv)
  with items have es: "mask_entries cov (map Some ?gs) key =
      [\<lparr>me_con = c0, me_rf = Some (node_g (NodeAp ''g'')), me_key = x, included = False\<rparr>,
       \<lparr>me_con = c1, me_rf = Some (node_f (NodeAp ''r'')), me_key = y, included = False\<rparr>]"
    by (simp add: mask_entries_def)
  have "whole (mask_entries cov (map Some ?gs) key) =
      {(TLSF_ROLE_GUARANTEE, node_g (NodeAp ''g'')), (TLSF_ROLE_GUARANTEE, node_f (NodeAp ''r''))}"
    unfolding es whole_def chosen_Cons using items(2,3) by (simp add: chosen_def entry_of_def)
  then have w: "(TLSF_ROLE_GUARANTEE, node_f (NodeAp ''r'')) \<in> whole (mask_entries cov (map Some ?gs) key)"
    "whole (mask_entries cov (map Some ?gs) key) \<subseteq> {TLSF_ROLE_GUARANTEE} \<times> UNIV" by simp_all
  have "\<not> realizable False {''g''} (meets False \<infinity> (whole (mask_entries cov (map Some ?gs) key)))"
  proof
    assume "realizable False {''g''} (meets False \<infinity> (whole (mask_entries cov (map Some ?gs) key)))"
    then obtain \<sigma> where m: "meets False \<infinity> (whole (mask_entries cov (map Some ?gs) key)) (play False {''g''} \<sigma> (\<lambda>_. {}))"
      unfolding realizable_def by blast
    let ?u = "play False {''g''} \<sigma> (\<lambda>_. {})" and ?W = "whole (mask_entries cov (map Some ?gs) key)"
    from meets_unconditional [OF w(2) m w(1)] have "sat \<infinity> ?u (node_f (NodeAp ''r'')) 0" .
    then show False by (auto simp: ev_def play_def)
  qed
  then have "\<not> cluster_realizable (\<lambda>_. 3) ?s cov (map Some ?gs) key 0 True False False"
    using whole_game [OF cov(1) inf(1)] cov(4) inf(2) by simp
  with residual_clusters_exact [OF cov(1) inf(1) k(1), of 0 False False True] k(1) show ?thesis by auto
qed

end
