(* ===== verification/Oxidd.thy ===== *)
theory Oxidd
  imports Prelude "HOL-Library.State_Monad"
begin

text \<open>
  The interface of the external library of decision diagrams, as the GR(1) checker uses it, and the
  helpers of \<^verbatim>\<open>src/lib/oxidd_common.c\<close> and \<^verbatim>\<open>src/lib/gr1_check.c\<close> on top of it.  The operations of the
  library are parameters: they read and change a state of their own (the node store of the manager),
  and may fail, which is a null handle, here \<^const>\<open>None\<close>.  The locale \<open>oxidd_laws\<close> states what the
  library promises of a handle that is not null.
\<close>

subsection \<open>The library\<close>

type_synonym assignment = "nat \<Rightarrow> bool"

record ('w, 'b) oxidd =
  ox_false :: "'w \<Rightarrow> 'b option \<times> 'w"
  ox_true :: "'w \<Rightarrow> 'b option \<times> 'w"
  ox_var :: "nat \<Rightarrow> 'w \<Rightarrow> 'b option \<times> 'w"
  ox_not :: "'b option \<Rightarrow> 'w \<Rightarrow> 'b option \<times> 'w"
  ox_and :: "'b option \<Rightarrow> 'b option \<Rightarrow> 'w \<Rightarrow> 'b option \<times> 'w"
  ox_or :: "'b option \<Rightarrow> 'b option \<Rightarrow> 'w \<Rightarrow> 'b option \<times> 'w"
  ox_imp :: "'b option \<Rightarrow> 'b option \<Rightarrow> 'w \<Rightarrow> 'b option \<times> 'w"
  ox_equiv :: "'b option \<Rightarrow> 'b option \<Rightarrow> 'w \<Rightarrow> 'b option \<times> 'w"
  ox_xor :: "'b option \<Rightarrow> 'b option \<Rightarrow> 'w \<Rightarrow> 'b option \<times> 'w"
  ox_forall :: "'b option \<Rightarrow> 'b option \<Rightarrow> 'w \<Rightarrow> 'b option \<times> 'w"
  ox_exists :: "'b option \<Rightarrow> 'b option \<Rightarrow> 'w \<Rightarrow> 'b option \<times> 'w"
  ox_restrict :: "'b option \<Rightarrow> 'b option \<Rightarrow> 'w \<Rightarrow> 'b option \<times> 'w"
  ox_substitute :: "'b option \<Rightarrow> (nat \<times> 'b option) list \<Rightarrow> 'w \<Rightarrow> 'b option \<times> 'w"
  ox_satisfiable :: "'b option \<Rightarrow> 'w \<Rightarrow> bool \<times> 'w"
  ox_eval :: "'b option \<Rightarrow> (nat \<times> bool) list \<Rightarrow> 'w \<Rightarrow> bool \<times> 'w"
  ox_gc :: "'w \<Rightarrow> unit \<times> 'w"

text \<open>The clock and the cancellation callback, asked by \<^verbatim>\<open>oxidd_run_stopped\<close> and \<^verbatim>\<open>timed_out\<close>.\<close>

record 'w limits =
  run_stopped :: "'w \<Rightarrow> bool \<times> 'w"
  timed_out :: "'w \<Rightarrow> bool \<times> 'w"

text \<open>
  The mutable part of a run: the outside world, the flag \<^verbatim>\<open>bdd_failed\<close> of the checker, whether
  \<^verbatim>\<open>failed_operation\<close> of the run is set, and the number of gates built.
\<close>

record 'w run =
  world :: 'w
  bdd_failed :: bool
  run_failed :: bool
  built_gates :: nat

definition ext :: "('w \<Rightarrow> 'a \<times> 'w) \<Rightarrow> (('w, 'z) run_scheme, 'a) state" where
  "ext f = State (\<lambda>s. case f (world s) of (r, w) \<Rightarrow> (r, s\<lparr>world := w\<rparr>))"

definition fail_bdd :: "(('w, 'z) run_scheme, unit) state" where
  "fail_bdd = State (\<lambda>s. ((), s\<lparr>bdd_failed := True\<rparr>))"

definition fail_run :: "(('w, 'z) run_scheme, unit) state" where
  "fail_run = State (\<lambda>s. ((), s\<lparr>run_failed := True\<rparr>))"

definition get_failed :: "(('w, 'z) run_scheme, bool) state" where
  "get_failed = State (\<lambda>s. (bdd_failed s, s))"

definition get_run_failed :: "(('w, 'z) run_scheme, bool) state" where
  "get_run_failed = State (\<lambda>s. (run_failed s, s))"

definition count_gate :: "(('w, 'z) run_scheme, unit) state" where
  "count_gate = State (\<lambda>s. ((), s\<lparr>built_gates := built_gates s + 1\<rparr>))"

definition get_built :: "(('w, 'z) run_scheme, nat) state" where
  "get_built = State (\<lambda>s. (built_gates s, s))"

subsection \<open>Guarded operations\<close>

text \<open>
  \<^verbatim>\<open>RUN_OPERATION\<close>: an operation of a run gives up once the run has failed or has to stop, and is
  tried once more after a garbage collection.
\<close>

definition run_operation :: "('w, 'b) oxidd \<Rightarrow> 'w limits \<Rightarrow> bool \<Rightarrow> ('w \<Rightarrow> 'b option \<times> 'w) \<Rightarrow>
    (('w, 'z) run_scheme, 'b option) state" where
  "run_operation B L valid op =
     do { failed \<leftarrow> get_run_failed;
          if failed then State_Monad.return None
          else do { stop \<leftarrow> ext (run_stopped L);
            if stop then do { _ \<leftarrow> fail_run; State_Monad.return None }
            else if \<not> valid then do { _ \<leftarrow> fail_run; State_Monad.return None }
            else do { r \<leftarrow> ext op;
              if r \<noteq> None then State_Monad.return r
              else do { _ \<leftarrow> ext (ox_gc B);
                r \<leftarrow> ext op;
                if r \<noteq> None then State_Monad.return r
                else do { _ \<leftarrow> fail_run; State_Monad.return None } } } } }"

definition oxidd_run_not :: "('w, 'b) oxidd \<Rightarrow> 'w limits \<Rightarrow> 'b option \<Rightarrow> (('w, 'z) run_scheme, 'b option) state" where
  "oxidd_run_not B L a = run_operation B L (a \<noteq> None) (ox_not B a)"

definition oxidd_run_and :: "('w, 'b) oxidd \<Rightarrow> 'w limits \<Rightarrow> 'b option \<Rightarrow> 'b option \<Rightarrow>
    (('w, 'z) run_scheme, 'b option) state" where
  "oxidd_run_and B L a b = run_operation B L (a \<noteq> None \<and> b \<noteq> None) (ox_and B a b)"

definition bdd_same_identity :: "'b option \<Rightarrow> 'b option \<Rightarrow> bool" where
  "bdd_same_identity a b \<longleftrightarrow> a \<noteq> None \<and> b \<noteq> None \<and> a = b"

text \<open>The conjunction of variables.\<close>

fun cube_from :: "('w, 'b) oxidd \<Rightarrow> 'b option \<Rightarrow> nat list \<Rightarrow> (('w, 'z) run_scheme, 'b option) state" where
  "cube_from B cube [] = State_Monad.return cube"
| "cube_from B cube (v # vs) =
     do { x \<leftarrow> ext (ox_var B v); c \<leftarrow> ext (ox_and B cube x); cube_from B c vs }"

definition cube_of :: "('w, 'b) oxidd \<Rightarrow> nat list \<Rightarrow> (('w, 'z) run_scheme, 'b option) state" where
  "cube_of B vs = do { t \<leftarrow> ext (ox_true B); cube_from B t vs }"

subsection \<open>Helpers of the checker\<close>

definition bdd_or_into :: "('w, 'b) oxidd \<Rightarrow> 'b option \<Rightarrow> 'b option \<Rightarrow> (('w, 'z) run_scheme, 'b option) state" where
  "bdd_or_into B slot value =
     do { r \<leftarrow> ext (ox_or B slot value);
          if r = None then do { _ \<leftarrow> fail_bdd; State_Monad.return r } else State_Monad.return r }"

definition bdd_and_into :: "('w, 'b) oxidd \<Rightarrow> 'b option \<Rightarrow> 'b option \<Rightarrow> (('w, 'z) run_scheme, 'b option) state" where
  "bdd_and_into B slot value =
     do { r \<leftarrow> ext (ox_and B slot value);
          if r = None then do { _ \<leftarrow> fail_bdd; State_Monad.return r } else State_Monad.return r }"

definition checked_satisfiable :: "('w, 'b) oxidd \<Rightarrow> 'b option \<Rightarrow> (('w, 'z) run_scheme, bool) state" where
  "checked_satisfiable B value =
     (if value = None then do { _ \<leftarrow> fail_bdd; State_Monad.return False } else ext (ox_satisfiable B value))"

subsection \<open>Reasoning about runs\<close>

definition post :: "('s, 'a) state \<Rightarrow> ('a \<Rightarrow> 's \<Rightarrow> bool) \<Rightarrow> 's \<Rightarrow> bool" where
  "post c Q s = (case run_state c s of (r, s') \<Rightarrow> Q r s')"

named_theorems post_intros \<open>what a step of a run establishes\<close>

lemma post_return [post_intros]: "Q x s \<Longrightarrow> post (State_Monad.return x) Q s"
  by (simp add: post_def)

lemma post_bind [post_intros]: "post c (\<lambda>r. post (f r) Q) s \<Longrightarrow> post (c \<bind> f) Q s"
  by (simp add: post_def split_beta)

lemma post_if [post_intros]:
  "(b \<Longrightarrow> post c Q s) \<Longrightarrow> (\<not> b \<Longrightarrow> post d Q s) \<Longrightarrow> post (if b then c else d) Q s"
  by simp

lemma post_mono: "post c P s \<Longrightarrow> (\<And>r s'. P r s' \<Longrightarrow> Q r s') \<Longrightarrow> post c Q s"
  by (simp add: post_def split_beta)

lemma post_option [post_intros]:
  "(x = None \<Longrightarrow> post c Q s) \<Longrightarrow> (\<And>y. x = Some y \<Longrightarrow> post (d y) Q s) \<Longrightarrow>
   post (case x of None \<Rightarrow> c | Some y \<Rightarrow> d y) Q s"
  by (cases x) simp_all

text \<open>A later state of the same run: the failure flags stay set, the rest is untouched.\<close>

definition later :: "('w, 'z) run_scheme \<Rightarrow> ('w, 'z) run_scheme \<Rightarrow> bool" where
  "later s s' \<longleftrightarrow> (bdd_failed s \<longrightarrow> bdd_failed s') \<and> (run_failed s \<longrightarrow> run_failed s') \<and> run.more s' = run.more s"

lemma later_refl [simp, intro]: "later s s"
  by (simp add: later_def)

lemma later_trans [trans]: "later r s \<Longrightarrow> later s t \<Longrightarrow> later r t"
  by (simp add: later_def)

lemma later_trans3: "later a b \<Longrightarrow> later b c \<Longrightarrow> later c d \<Longrightarrow> later a d"
  by (simp add: later_def)

lemma later_trans4: "later a b \<Longrightarrow> later b c \<Longrightarrow> later c d \<Longrightarrow> later d e \<Longrightarrow> later a e"
  by (simp add: later_def)

lemma later_trans6: "later a b \<Longrightarrow> later b c \<Longrightarrow> later c d \<Longrightarrow> later d e \<Longrightarrow> later e f \<Longrightarrow> later f g \<Longrightarrow> later a g"
  by (simp add: later_def)

lemma later_failed: "later s t \<Longrightarrow> \<not> bdd_failed t \<Longrightarrow> \<not> bdd_failed s"
  by (auto simp: later_def)

lemma later_simps [simp]: "later (s\<lparr>world := w\<rparr>) t \<longleftrightarrow> later s t" "later s (s\<lparr>built_gates := n\<rparr>)"
  "later (s\<lparr>built_gates := n\<rparr>) t \<longleftrightarrow> later s t" "later s (s\<lparr>world := w\<rparr>)" "later s (s\<lparr>bdd_failed := True\<rparr>)" "later s (s\<lparr>run_failed := True\<rparr>)"
  by (simp_all add: later_def)

lemma later_step [simp, intro]: "later s t \<Longrightarrow> later s (t\<lparr>world := w\<rparr>)" "later s t \<Longrightarrow> later s (t\<lparr>bdd_failed := True\<rparr>)"
  "later s t \<Longrightarrow> later s (t\<lparr>run_failed := True\<rparr>)" "later s t \<Longrightarrow> later s (t\<lparr>built_gates := n\<rparr>)"
  by (simp_all add: later_def)

lemma post_ext: "(\<And>r w. f (world s) = (r, w) \<Longrightarrow> Q r (s\<lparr>world := w\<rparr>)) \<Longrightarrow> post (ext f) Q s"
  by (simp add: post_def ext_def split: prod.splits)

lemma post_fail [post_intros]:
  "Q () (s\<lparr>bdd_failed := True\<rparr>) \<Longrightarrow> post fail_bdd Q s" "Q () (s\<lparr>run_failed := True\<rparr>) \<Longrightarrow> post fail_run Q s"
  by (simp_all add: post_def fail_bdd_def fail_run_def)

lemma post_count [post_intros]:
  "Q () (s\<lparr>built_gates := built_gates s + 1\<rparr>) \<Longrightarrow> post count_gate Q s" "R (built_gates s) s \<Longrightarrow> post get_built R s"
  by (simp_all add: post_def count_gate_def get_built_def)

lemma post_get [post_intros]:
  "R (bdd_failed s) s \<Longrightarrow> post get_failed R s" "R (run_failed s) s \<Longrightarrow> post get_run_failed R s"
  by (simp_all add: post_def get_failed_def get_run_failed_def)

text \<open>A handle denotes a predicate, if it is not null.\<close>

definition means :: "('b \<Rightarrow> assignment \<Rightarrow> bool) \<Rightarrow> 'b option \<Rightarrow> (assignment \<Rightarrow> bool) \<Rightarrow> bool" where
  "means den f P \<longleftrightarrow> (\<forall>b. f = Some b \<longrightarrow> den b = P)"

lemma means_None [simp]: "means den None P"
  by (simp add: means_def)

lemma means_cong: "means den f P \<Longrightarrow> (\<And>\<rho>. P \<rho> = Q \<rho>) \<Longrightarrow> means den f Q"
  by (simp add: means_def fun_eq_iff)

definition all_mean :: "('b \<Rightarrow> assignment \<Rightarrow> bool) \<Rightarrow> 'b option list \<Rightarrow> (assignment \<Rightarrow> bool) list \<Rightarrow> bool" where
  "all_mean den = list_all2 (means den)"

text \<open>The change an assignment undergoes when predicates are substituted for variables.\<close>

definition updated :: "(nat \<times> (assignment \<Rightarrow> bool)) list \<Rightarrow> assignment \<Rightarrow> assignment" where
  "updated sub \<rho> v = (case map_of sub v of Some P \<Rightarrow> P \<rho> | None \<Rightarrow> \<rho> v)"

locale oxidd_laws =
  fixes B :: "('w, 'b) oxidd" and den :: "'b \<Rightarrow> assignment \<Rightarrow> bool" and vars :: nat
  assumes false_law: "fst (ox_false B w) = Some r \<Longrightarrow> den r = (\<lambda>_. False)"
    and true_law: "fst (ox_true B w) = Some r \<Longrightarrow> den r = (\<lambda>_. True)"
    and var_law: "v < vars \<Longrightarrow> fst (ox_var B v w) = Some r \<Longrightarrow> den r = (\<lambda>\<rho>. \<rho> v)"
    and not_law: "fst (ox_not B f w) = Some r \<Longrightarrow> \<exists>a. f = Some a \<and> den r = (\<lambda>\<rho>. \<not> den a \<rho>)"
    and and_law: "fst (ox_and B f g w) = Some r \<Longrightarrow>
      \<exists>a b. f = Some a \<and> g = Some b \<and> den r = (\<lambda>\<rho>. den a \<rho> \<and> den b \<rho>)"
    and or_law: "fst (ox_or B f g w) = Some r \<Longrightarrow>
      \<exists>a b. f = Some a \<and> g = Some b \<and> den r = (\<lambda>\<rho>. den a \<rho> \<or> den b \<rho>)"
    and imp_law: "fst (ox_imp B f g w) = Some r \<Longrightarrow>
      \<exists>a b. f = Some a \<and> g = Some b \<and> den r = (\<lambda>\<rho>. den a \<rho> \<longrightarrow> den b \<rho>)"
    and equiv_law: "fst (ox_equiv B f g w) = Some r \<Longrightarrow>
      \<exists>a b. f = Some a \<and> g = Some b \<and> den r = (\<lambda>\<rho>. den a \<rho> = den b \<rho>)"
    and xor_law: "fst (ox_xor B f g w) = Some r \<Longrightarrow>
      \<exists>a b. f = Some a \<and> g = Some b \<and> den r = (\<lambda>\<rho>. den a \<rho> \<noteq> den b \<rho>)"
    and forall_law: "fst (ox_forall B f g w) = Some r \<Longrightarrow> \<exists>a b. f = Some a \<and> g = Some b \<and>
      (\<forall>V. finite V \<longrightarrow> den b = (\<lambda>\<rho>. \<forall>v\<in>V. \<rho> v) \<longrightarrow>
        den r = (\<lambda>\<rho>. \<forall>\<sigma>. (\<forall>v. v \<notin> V \<longrightarrow> \<sigma> v = \<rho> v) \<longrightarrow> den a \<sigma>))"
    and exists_law: "fst (ox_exists B f g w) = Some r \<Longrightarrow> \<exists>a b. f = Some a \<and> g = Some b \<and>
      (\<forall>V. finite V \<longrightarrow> den b = (\<lambda>\<rho>. \<forall>v\<in>V. \<rho> v) \<longrightarrow>
        den r = (\<lambda>\<rho>. \<exists>\<sigma>. (\<forall>v. v \<notin> V \<longrightarrow> \<sigma> v = \<rho> v) \<and> den a \<sigma>))"
    and restrict_law: "fst (ox_restrict B f g w) = Some r \<Longrightarrow> \<exists>a b. f = Some a \<and> g = Some b \<and>
      (\<forall>V \<tau>. finite V \<longrightarrow> den b = (\<lambda>\<rho>. \<forall>v\<in>V. \<rho> v = \<tau> v) \<longrightarrow>
        den r = (\<lambda>\<rho>. den a (\<lambda>v. if v \<in> V then \<tau> v else \<rho> v)))"
    and substitute_law: "fst (ox_substitute B f sub w) = Some r \<Longrightarrow> \<exists>a cs. f = Some a \<and>
      map snd sub = map Some cs \<and> (distinct (map fst sub) \<longrightarrow> den r = (\<lambda>\<rho>. den a (updated (zip (map fst sub) (map den cs)) \<rho>)))"
    and satisfiable_law: "fst (ox_satisfiable B (Some a) w) \<longleftrightarrow> (\<exists>\<rho>. den a \<rho>)"
    and eval_law: "distinct (map fst args) \<Longrightarrow> (\<And>\<rho>. (\<forall>(v, x)\<in>set args. \<rho> v = x) \<Longrightarrow> den a \<rho> = c) \<Longrightarrow> fst (ox_eval B (Some a) args w) = c"
begin

lemma post_op:
  assumes "\<And>w r. fst (f w) = Some r \<Longrightarrow> den r = P"
    and "\<And>r s'. later s s' \<Longrightarrow> means den r P \<Longrightarrow> Q r s'"
  shows "post (ext f) Q s"
proof (rule post_ext, rule assms(2))
  fix r w assume "f (world s) = (r, w)"
  then show "means den r P" using assms(1) [of "world s"] by (simp add: means_def)
qed simp

lemma post_false [post_intros]:
  "(\<And>r s'. later s s' \<Longrightarrow> means den r (\<lambda>_. False) \<Longrightarrow> Q r s') \<Longrightarrow> post (ext (ox_false B)) Q s"
  by (rule post_op [OF false_law])

lemma post_true [post_intros]:
  "(\<And>r s'. later s s' \<Longrightarrow> means den r (\<lambda>_. True) \<Longrightarrow> Q r s') \<Longrightarrow> post (ext (ox_true B)) Q s"
  by (rule post_op [OF true_law])

lemma post_var:
  "v < vars \<Longrightarrow> (\<And>r s'. later s s' \<Longrightarrow> means den r (\<lambda>\<rho>. \<rho> v) \<Longrightarrow> Q r s') \<Longrightarrow> post (ext (ox_var B v)) Q s"
  by (rule post_op [OF var_law])

lemma post_not [post_intros]:
  assumes "means den f P" and "\<And>r s'. later s s' \<Longrightarrow> means den r (\<lambda>\<rho>. \<not> P \<rho>) \<Longrightarrow> Q r s'"
  shows "post (ext (ox_not B f)) Q s"
  by (rule post_op [OF _ assms(2)]) (use assms(1) in \<open>auto simp: means_def dest: not_law\<close>)

lemma post_and [post_intros]:
  assumes "means den f P" and "means den g R" and "\<And>r s'. later s s' \<Longrightarrow> means den r (\<lambda>\<rho>. P \<rho> \<and> R \<rho>) \<Longrightarrow> Q r s'"
  shows "post (ext (ox_and B f g)) Q s"
  by (rule post_op [OF _ assms(3)]) (use assms(1,2) in \<open>auto simp: means_def dest: and_law\<close>)

lemma post_or [post_intros]:
  assumes "means den f P" and "means den g R" and "\<And>r s'. later s s' \<Longrightarrow> means den r (\<lambda>\<rho>. P \<rho> \<or> R \<rho>) \<Longrightarrow> Q r s'"
  shows "post (ext (ox_or B f g)) Q s"
  by (rule post_op [OF _ assms(3)]) (use assms(1,2) in \<open>auto simp: means_def dest: or_law\<close>)

lemma post_xor [post_intros]:
  assumes "means den f P" and "means den g R" and "\<And>r s'. later s s' \<Longrightarrow> means den r (\<lambda>\<rho>. P \<rho> \<noteq> R \<rho>) \<Longrightarrow> Q r s'"
  shows "post (ext (ox_xor B f g)) Q s"
  by (rule post_op [OF _ assms(3)]) (use assms(1,2) in \<open>auto simp: means_def dest: xor_law\<close>)

lemma post_forall:
  assumes "means den f P" and "means den g (\<lambda>\<rho>. \<forall>v\<in>V. \<rho> v)" and "finite V"
    and "\<And>r s'. later s s' \<Longrightarrow> means den r (\<lambda>\<rho>. \<forall>\<sigma>. (\<forall>v. v \<notin> V \<longrightarrow> \<sigma> v = \<rho> v) \<longrightarrow> P \<sigma>) \<Longrightarrow> (r \<noteq> None \<longrightarrow> f \<noteq> None) \<Longrightarrow> Q r s'"
  shows "post (ext (ox_forall B f g)) Q s"
proof (rule post_ext, rule assms(4))
  fix r w assume r: "ox_forall B f g (world s) = (r, w)"
  show "means den r (\<lambda>\<rho>. \<forall>\<sigma>. (\<forall>v. v \<notin> V \<longrightarrow> \<sigma> v = \<rho> v) \<longrightarrow> P \<sigma>)"
    using forall_law [of f g "world s"] assms(1-3) r by (fastforce simp: means_def)
  show "r \<noteq> None \<longrightarrow> f \<noteq> None" using forall_law [of f g "world s"] r by fastforce
qed simp

lemma post_exists:
  assumes "means den f P" and "means den g (\<lambda>\<rho>. \<forall>v\<in>V. \<rho> v)" and "finite V"
    and "\<And>r s'. later s s' \<Longrightarrow> means den r (\<lambda>\<rho>. \<exists>\<sigma>. (\<forall>v. v \<notin> V \<longrightarrow> \<sigma> v = \<rho> v) \<and> P \<sigma>) \<Longrightarrow> Q r s'"
  shows "post (ext (ox_exists B f g)) Q s"
proof (rule post_ext, rule assms(4))
  fix r w assume r: "ox_exists B f g (world s) = (r, w)"
  show "means den r (\<lambda>\<rho>. \<exists>\<sigma>. (\<forall>v. v \<notin> V \<longrightarrow> \<sigma> v = \<rho> v) \<and> P \<sigma>)"
    using exists_law [of f g "world s"] assms(1-3) r by (fastforce simp: means_def)
qed simp

lemma post_restrict:
  assumes "means den f P" and "means den g (\<lambda>\<rho>. \<forall>v\<in>V. \<rho> v = \<tau> v)" and "finite V"
    and "\<And>r s'. later s s' \<Longrightarrow> means den r (\<lambda>\<rho>. P (\<lambda>v. if v \<in> V then \<tau> v else \<rho> v)) \<Longrightarrow> Q r s'"
  shows "post (ext (ox_restrict B f g)) Q s"
proof (rule post_op [OF _ assms(4)])
  fix w r assume "fst (ox_restrict B f g w) = Some r"
  from restrict_law [OF this] assms(1-3) show "den r = (\<lambda>\<rho>. P (\<lambda>v. if v \<in> V then \<tau> v else \<rho> v))"
    by (fastforce simp: means_def)
qed

lemma post_substitute:
  assumes "means den f P" and "all_mean den (map snd sub) Ps" and "distinct (map fst sub)"
    and "\<And>r s'. later s s' \<Longrightarrow> means den r (\<lambda>\<rho>. P (updated (zip (map fst sub) Ps) \<rho>)) \<Longrightarrow> Q r s'"
  shows "post (ext (ox_substitute B f sub)) Q s"
proof (rule post_op [OF _ assms(4)])
  fix w r assume "fst (ox_substitute B f sub w) = Some r"
  from substitute_law [OF this] assms(3) obtain a cs where a: "f = Some a" "map snd sub = map Some cs"
    "den r = (\<lambda>\<rho>. den a (updated (zip (map fst sub) (map den cs)) \<rho>))" by blast
  have "map den cs = Ps" using assms(2) unfolding a(2) all_mean_def
    by (auto simp: list_all2_map1 means_def list_all2_conv_all_nth intro: nth_equalityI)
  with a assms(1) show "den r = (\<lambda>\<rho>. P (updated (zip (map fst sub) Ps) \<rho>))" by (simp add: means_def)
qed

lemma post_or_into [post_intros]:
  assumes "means den f P" and "means den g R"
    and "\<And>r s'. later s s' \<Longrightarrow> means den r (\<lambda>\<rho>. P \<rho> \<or> R \<rho>) \<Longrightarrow> r = None \<longrightarrow> bdd_failed s' \<Longrightarrow> Q r s'"
  shows "post (bdd_or_into B f g) Q s"
  unfolding bdd_or_into_def
  using assms(1,2) by (intro post_intros) (auto intro!: assms(3))

lemma post_and_into [post_intros]:
  assumes "means den f P" and "means den g R"
    and "\<And>r s'. later s s' \<Longrightarrow> means den r (\<lambda>\<rho>. P \<rho> \<and> R \<rho>) \<Longrightarrow> r = None \<longrightarrow> bdd_failed s' \<Longrightarrow> Q r s'"
  shows "post (bdd_and_into B f g) Q s"
  unfolding bdd_and_into_def
  using assms(1,2) by (intro post_intros) (auto intro!: assms(3))

lemma post_satisfiable [post_intros]:
  assumes "means den f P"
    and "\<And>r s'. later s s' \<Longrightarrow> r \<or> bdd_failed s' \<or> f \<noteq> None \<and> (\<forall>\<rho>. \<not> P \<rho>) \<Longrightarrow> Q r s'"
  shows "post (checked_satisfiable B f) Q s"
  unfolding checked_satisfiable_def
proof (intro post_intros)
  assume "f = None"
  show "Q False (s\<lparr>bdd_failed := True\<rparr>)" by (rule assms(2)) simp_all
next
  assume "f \<noteq> None"
  then obtain a where a: "f = Some a" by blast
  show "post (ext (ox_satisfiable B f)) Q s"
  proof (rule post_ext, rule assms(2))
    fix r w assume "ox_satisfiable B f (world s) = (r, w)"
    then show "r \<or> bdd_failed (s\<lparr>world := w\<rparr>) \<or> f \<noteq> None \<and> (\<forall>\<rho>. \<not> P \<rho>)"
      using satisfiable_law [of a "world s"] assms(1) a by (auto simp: means_def)
  qed simp
qed

lemma post_run_operation:
  assumes "\<And>w r. fst (f w) = Some r \<Longrightarrow> den r = P"
    and "\<And>r s'. later s s' \<Longrightarrow> means den r P \<Longrightarrow> Q r s'"
  shows "post (run_operation B L valid f) Q s"
proof -
  have op: "post (ext f) R t" if "\<And>r s'. later t s' \<Longrightarrow> means den r P \<Longrightarrow> R r s'" for R t
    by (rule post_op [OF assms(1)]) (use that in auto)
  have none: "Q None t" if "later s t" for t using assms(2) [of t None] that by simp
  show ?thesis unfolding run_operation_def
    by (intro post_intros post_ext [where f = "run_stopped L"] post_ext [where f = "ox_gc B"] op)
      (auto intro!: none assms(2) intro: later_trans)
qed

lemma post_run_not [post_intros]:
  assumes "means den f P" and "\<And>r s'. later s s' \<Longrightarrow> means den r (\<lambda>\<rho>. \<not> P \<rho>) \<Longrightarrow> Q r s'"
  shows "post (oxidd_run_not B L f) Q s"
  unfolding oxidd_run_not_def
  by (rule post_run_operation [OF _ assms(2)]) (use assms(1) in \<open>auto simp: means_def dest: not_law\<close>)

lemma post_run_and [post_intros]:
  assumes "means den f P" and "means den g R" and "\<And>r s'. later s s' \<Longrightarrow> means den r (\<lambda>\<rho>. P \<rho> \<and> R \<rho>) \<Longrightarrow> Q r s'"
  shows "post (oxidd_run_and B L f g) Q s"
  unfolding oxidd_run_and_def
  by (rule post_run_operation [OF _ assms(3)]) (use assms(1,2) in \<open>auto simp: means_def dest: and_law\<close>)

lemma post_cube_from:
  "set vs \<subseteq> {..<vars} \<Longrightarrow> means den c (\<lambda>\<rho>. \<forall>v\<in>U. \<rho> v) \<Longrightarrow>
   (\<And>r s'. later s s' \<Longrightarrow> means den r (\<lambda>\<rho>. \<forall>v\<in>U \<union> set vs. \<rho> v) \<Longrightarrow> Q r s') \<Longrightarrow> post (cube_from B c vs) Q s"
proof (induction vs arbitrary: c U s)
  case Nil
  then show ?case by (simp add: post_return)
next
  case (Cons v vs)
  show ?case unfolding cube_from.simps
  proof (intro post_bind post_var post_and)
    show "v < vars" using Cons.prems(1) by simp
    show "means den c (\<lambda>\<rho>. \<forall>v\<in>U. \<rho> v)" by (rule Cons.prems(2))
    fix x s1 d s2
    assume l: "later s s1" "later s1 s2" and "means den x (\<lambda>\<rho>. \<rho> v)" and d: "means den d (\<lambda>\<rho>. (\<forall>v\<in>U. \<rho> v) \<and> \<rho> v)"
    show "post (cube_from B d vs) Q s2"
    proof (rule Cons.IH [of d "insert v U"])
      show "means den d (\<lambda>\<rho>. \<forall>v\<in>insert v U. \<rho> v)" by (rule means_cong [OF d]) auto
      fix r s' assume r: "later s2 s'" "means den r (\<lambda>\<rho>. \<forall>v\<in>insert v U \<union> set vs. \<rho> v)"
      show "Q r s'"
      proof (rule Cons.prems(3))
        show "later s s'" using l r(1) by (blast intro: later_trans)
        show "means den r (\<lambda>\<rho>. \<forall>v\<in>U \<union> set (v # vs). \<rho> v)" by (rule means_cong [OF r(2)]) auto
      qed
    qed (use Cons.prems(1) in simp)
  qed
qed

lemma post_cube_of:
  assumes "set vs \<subseteq> {..<vars}" and "\<And>r s'. later s s' \<Longrightarrow> means den r (\<lambda>\<rho>. \<forall>v\<in>set vs. \<rho> v) \<Longrightarrow> Q r s'"
  shows "post (cube_of B vs) Q s"
  unfolding cube_of_def
proof (intro post_bind post_true)
  fix t s1 assume l: "later s s1" and "means den t (\<lambda>_. True)"
  then have "means den t (\<lambda>\<rho>. \<forall>v\<in>{}. \<rho> v)" by simp
  then show "post (cube_from B t vs) Q s1"
    by (rule post_cube_from [OF assms(1)]) (use assms(2) l in \<open>auto intro: later_trans\<close>)
qed

end

subsection \<open>Loops\<close>

datatype check_result = CHECK_VERIFIED | CHECK_REFUTED | CHECK_UNKNOWN | CHECK_INVALID | CHECK_CERT_FAILED | CHECK_SKIPPED

text \<open>A loop that returns at the first result other than verified.\<close>

fun all_verified :: "('a \<Rightarrow> ('s, check_result) state) \<Rightarrow> 'a list \<Rightarrow> ('s, check_result) state" where
  "all_verified f [] = State_Monad.return CHECK_VERIFIED"
| "all_verified f (x # xs) =
     do { r \<leftarrow> f x; if r = CHECK_VERIFIED then all_verified f xs else State_Monad.return r }"

fun fold_state :: "('a \<Rightarrow> 'b \<Rightarrow> ('s, 'b) state) \<Rightarrow> 'a list \<Rightarrow> 'b \<Rightarrow> ('s, 'b) state" where
  "fold_state f [] b = State_Monad.return b"
| "fold_state f (x # xs) b = do { c \<leftarrow> f x b; fold_state f xs c }"

lemma post_all_verified:
  assumes "\<And>x s. x \<in> set xs \<Longrightarrow> post (f x) (\<lambda>r s'. later s s' \<and> (r = CHECK_VERIFIED \<longrightarrow> F x)) s"
    and "\<And>r s'. later s s' \<Longrightarrow> (r = CHECK_VERIFIED \<Longrightarrow> \<forall>x\<in>set xs. F x) \<Longrightarrow> Q r s'"
  shows "post (all_verified f xs) Q s"
  using assms
proof (induction xs arbitrary: s Q)
  case Nil
  then show ?case by (simp add: post_return)
next
  case (Cons x xs)
  show ?case unfolding all_verified.simps
  proof (rule post_bind, rule post_mono [OF Cons.prems(1)])
    fix r s1 assume r: "later s s1 \<and> (r = CHECK_VERIFIED \<longrightarrow> F x)"
    show "post (if r = CHECK_VERIFIED then all_verified f xs else State_Monad.return r) Q s1"
    proof (intro post_if post_return)
      assume v: "r = CHECK_VERIFIED"
      show "post (all_verified f xs) Q s1"
      proof (rule Cons.IH)
        fix r' s' assume "later s1 s'" and "r' = CHECK_VERIFIED \<Longrightarrow> \<forall>x\<in>set xs. F x"
        then show "Q r' s'" using Cons.prems(2) [of s' r'] r v by (auto intro: later_trans)
      qed (use Cons.prems(1) in auto)
    next
      assume "r \<noteq> CHECK_VERIFIED"
      then show "Q r s1" using Cons.prems(2) [of s1 r] r by simp
    qed
  qed simp
qed

lemma post_fold_state:
  assumes "I [] b" and "\<And>ys x zs b s. xs = ys @ x # zs \<Longrightarrow> I ys b \<Longrightarrow> post (f x b) (\<lambda>c s'. later s s' \<and> I (ys @ [x]) c) s"
    and "\<And>c s'. later s s' \<Longrightarrow> I xs c \<Longrightarrow> Q c s'"
  shows "post (fold_state f xs b) Q s"
proof -
  have "post (fold_state f zs b) Q t" if "xs = ys @ zs" "I ys b" "later s t" for ys zs b t
    using that
  proof (induction zs arbitrary: ys b t)
    case Nil
    then show ?case using assms(3) by (simp add: post_return)
  next
    case (Cons z zs)
    show ?case unfolding fold_state.simps
    proof (rule post_bind, rule post_mono [OF assms(2) [OF Cons.prems(1,2)]])
      fix c s' assume "later t s' \<and> I (ys @ [z]) c"
      then show "post (fold_state f zs c) Q s'"
        using Cons.IH [of "ys @ [z]" c s'] Cons.prems by (auto intro: later_trans)
    qed
  qed
  from this [of "[]" xs b s] assms(1) show ?thesis by simp
qed

end
