(* ===== verification/Precheck.thy ===== *)
theory Precheck
  imports Cover Oxidd
begin

text \<open>
  The two early verdicts of \<^verbatim>\<open>src/lib/precheck_unreal.c\<close> on a constraint cover, and the verdict of
  \<^verbatim>\<open>src/lib/decompose.c\<close> built from them.  Every atom of the table is a variable of the library, and the
  propositional parts of the constraints are compared by quantifying the outputs.  A fresh manager
  of the library is a parameter that may fail.
\<close>

subsection \<open>Propositional parts\<close>

fun propositional :: "node \<Rightarrow> bool" where
  "propositional NodeTrue = True"
| "propositional NodeFalse = True"
| "propositional (NodeAp p) = True"
| "propositional (Unary k a) = (k = NODE_NOT \<and> propositional a)"
| "propositional (Binary k a b) = (k \<in> {NODE_AND, NODE_OR, NODE_IMPL, NODE_EQUIV} \<and> propositional a \<and> propositional b)"
| "propositional _ = False"

definition step0_bool_body :: "constraint \<Rightarrow> node option" where
  "step0_bool_body c =
     (let f = con_formula c in
      if propositional f then Some f
      else if invariant_wrapped c then None
      else (case f of Unary k a \<Rightarrow> if k = NODE_G \<and> propositional a then Some a else None | _ \<Rightarrow> None))"

subsection \<open>Diagrams of formulas\<close>

text \<open>The flag is \<^verbatim>\<open>bail\<close>: an atom that is not in the table, or an operator that is not propositional.\<close>

definition binary_op :: "('w, 'b) oxidd \<Rightarrow> bin_kind \<Rightarrow> 'b option \<Rightarrow> 'b option \<Rightarrow> 'w \<Rightarrow> 'b option \<times> 'w" where
  "binary_op B k = (case k of NODE_AND \<Rightarrow> ox_and B | NODE_OR \<Rightarrow> ox_or B | NODE_IMPL \<Rightarrow> ox_imp B | _ \<Rightarrow> ox_equiv B)"

fun node_to_bdd :: "('w, 'b) oxidd \<Rightarrow> (ap \<Rightarrow> u64) \<Rightarrow> ap_table \<Rightarrow> node \<Rightarrow> bool \<Rightarrow>
    (('w, 'z) run_scheme, 'b option \<times> bool) state" where
  "node_to_bdd B addr t NodeTrue bail = do { r \<leftarrow> ext (ox_true B); State_Monad.return (r, bail) }"
| "node_to_bdd B addr t NodeFalse bail = do { r \<leftarrow> ext (ox_false B); State_Monad.return (r, bail) }"
| "node_to_bdd B addr t (NodeAp p) bail =
     (case ap_table_find addr t p of
        Some (Some i) \<Rightarrow> do { r \<leftarrow> ext (ox_var B i); State_Monad.return (r, bail) }
      | _ \<Rightarrow> do { r \<leftarrow> ext (ox_true B); State_Monad.return (r, True) })"
| "node_to_bdd B addr t (Unary k a) bail =
     (if k = NODE_NOT
      then do { (x, bail) \<leftarrow> node_to_bdd B addr t a bail; r \<leftarrow> ext (ox_not B x); State_Monad.return (r, bail) }
      else do { r \<leftarrow> ext (ox_true B); State_Monad.return (r, True) })"
| "node_to_bdd B addr t (Binary k a b) bail =
     (if k \<in> {NODE_AND, NODE_OR, NODE_IMPL, NODE_EQUIV}
      then do { (x, bail) \<leftarrow> node_to_bdd B addr t a bail;
                (y, bail) \<leftarrow> node_to_bdd B addr t b bail;
                r \<leftarrow> ext (binary_op B k x y);
                State_Monad.return (r, bail) }
      else do { r \<leftarrow> ext (ox_true B); State_Monad.return (r, True) })"
| "node_to_bdd B addr t _ bail = do { r \<leftarrow> ext (ox_true B); State_Monad.return (r, True) }"

text \<open>The conjunctions of the guarantees and of the assumptions, until an atom is missing.\<close>

fun conjoin_bodies :: "('w, 'b) oxidd \<Rightarrow> (ap \<Rightarrow> u64) \<Rightarrow> ap_table \<Rightarrow> constraint list \<Rightarrow> 'b option \<times> 'b option \<times> bool \<Rightarrow>
    (('w, 'z) run_scheme, 'b option \<times> 'b option \<times> bool) state" where
  "conjoin_bodies B addr t [] acc = State_Monad.return acc"
| "conjoin_bodies B addr t (c # cs) (g, a, bail) =
     (if bail then State_Monad.return (g, a, bail)
      else case step0_bool_body c of
        None \<Rightarrow> conjoin_bodies B addr t cs (g, a, bail)
      | Some f \<Rightarrow>
          do { (x, bail) \<leftarrow> node_to_bdd B addr t f bail;
               if guarantee_side c then do { g' \<leftarrow> ext (ox_and B g x); conjoin_bodies B addr t cs (g', a, bail) }
               else if assumption_side c then do { a' \<leftarrow> ext (ox_and B a x); conjoin_bodies B addr t cs (g, a', bail) }
               else conjoin_bodies B addr t cs (g, a, bail) })"

definition output_aps :: "ap_table \<Rightarrow> nat list" where
  "output_aps t = filter (\<lambda>i. flags t ! i AND AP_FLAG_OUTPUT \<noteq> 0) [0..<length (names t)]"

subsection \<open>The verdicts\<close>

definition partitioned :: "ap_table \<Rightarrow> bool" where
  "partitioned t \<longleftrightarrow> list_all (\<lambda>f. (f AND AP_FLAG_INPUT \<noteq> 0) \<noteq> (f AND AP_FLAG_OUTPUT \<noteq> 0)) (take (length (names t)) (flags t))"

definition manager_cap :: "nat \<Rightarrow> nat" where
  "manager_cap n = (let cap = 2 ^ (if n + 6 < 22 then n + 6 else 22) in if cap < 2 ^ 10 then 2 ^ 10 else cap)"

definition fresh_manager :: "(nat \<Rightarrow> 'w option) \<Rightarrow> nat \<Rightarrow> 'w run option" where
  "fresh_manager new n =
     map_option (\<lambda>w. \<lparr>world = w, bdd_failed = False, run_failed = False, built_gates = 0\<rparr>) (new (manager_cap n))"

definition environment_wins :: "('w, 'b) oxidd \<Rightarrow> ap_table \<Rightarrow> 'b option \<Rightarrow> 'b option \<Rightarrow> (('w, 'z) run_scheme, bool) state" where
  "environment_wins B t g a =
     do { not_g \<leftarrow> ext (ox_not B g);
          h \<leftarrow> ext (ox_and B a not_g);
          not_h \<leftarrow> ext (ox_not B h);
          cube \<leftarrow> cube_of B (output_aps t);
          if not_h = None \<or> cube = None then State_Monad.return False
          else do { ex \<leftarrow> ext (ox_exists B not_h cube);
            if ex = None then State_Monad.return False
            else do { win \<leftarrow> ext (ox_not B ex);
              if win = None then State_Monad.return False else ext (ox_satisfiable B win) } } }"

definition precheck_trivially_unreal :: "('w, 'b) oxidd \<Rightarrow> (nat \<Rightarrow> 'w option) \<Rightarrow> (ap \<Rightarrow> u64) \<Rightarrow> cover \<Rightarrow> bool" where
  "precheck_trivially_unreal B new addr cov =
     (let t = cov_aps cov; cs = cov_items cov in
      if cs = [] \<or> semantics_is_finite (spec_semantics (cov_spec cov)) \<or> names t = [] \<or> \<not> partitioned t \<or>
         list_ex (\<lambda>c. assumption_side c \<and> step0_bool_body c = None) cs \<or>
         \<not> list_ex (\<lambda>c. \<not> assumption_side c \<and> guarantee_side c \<and> step0_bool_body c \<noteq> None) cs
      then False
      else case fresh_manager new (length (names t)) of
        None \<Rightarrow> False
      | Some s \<Rightarrow> fst (run_state (do {
          g \<leftarrow> ext (ox_true B);
          a \<leftarrow> ext (ox_true B);
          (g, a, bail) \<leftarrow> conjoin_bodies B addr t cs (g, a, False);
          if bail \<or> g = None \<or> a = None then State_Monad.return False else environment_wins B t g a }) s))"

definition controller_exists :: "('w, 'b) oxidd \<Rightarrow> ap_table \<Rightarrow> 'b option \<Rightarrow> (('w, 'z) run_scheme, bool) state" where
  "controller_exists B t g =
     do { cube \<leftarrow> cube_of B (output_aps t);
          if cube = None then State_Monad.return False
          else do { proj \<leftarrow> ext (ox_exists B g cube);
            if proj = None then State_Monad.return False
            else do { nproj \<leftarrow> ext (ox_not B proj);
              if nproj = None then State_Monad.return False
              else do { sat \<leftarrow> ext (ox_satisfiable B nproj); State_Monad.return (\<not> sat) } } } }"

definition precheck_trivially_real :: "('w, 'b) oxidd \<Rightarrow> (nat \<Rightarrow> 'w option) \<Rightarrow> (ap \<Rightarrow> u64) \<Rightarrow> cover \<Rightarrow> bool" where
  "precheck_trivially_real B new addr cov =
     (let t = cov_aps cov; cs = cov_items cov; sem = spec_semantics (cov_spec cov); gs = filter guarantee_side cs in
      if cs = [] \<or> semantics_is_finite sem \<or> semantics_is_moore sem \<or> names t = [] \<or> \<not> partitioned t \<or>
         list_ex (\<lambda>c. step0_bool_body c = None) gs \<or> gs = []
      then False
      else case fresh_manager new (length (names t)) of
        None \<Rightarrow> False
      | Some s \<Rightarrow> fst (run_state (do {
          g \<leftarrow> ext (ox_true B);
          (g, a, bail) \<leftarrow> conjoin_bodies B addr t gs (g, None, False);
          if bail \<or> g = None then State_Monad.return False else controller_exists B t g }) s))"

datatype verdict = VERDICT_UNKNOWN | VERDICT_REALIZABLE | VERDICT_UNREALIZABLE
datatype trust = TRUST_NONE | TRUST_EXACT | TRUST_UNDER | TRUST_OVER

definition fill_verdict :: "('w, 'b) oxidd \<Rightarrow> (nat \<Rightarrow> 'w option) \<Rightarrow> (ap \<Rightarrow> u64) \<Rightarrow> cover \<Rightarrow> verdict \<times> trust" where
  "fill_verdict B new addr cov =
     (if precheck_trivially_unreal B new addr cov then (VERDICT_UNREALIZABLE, TRUST_OVER)
      else if precheck_trivially_real B new addr cov then (VERDICT_REALIZABLE, TRUST_UNDER)
      else (VERDICT_UNKNOWN, TRUST_NONE))"

end
