(* ===== verification/Decision_Trees.thy ===== *)
theory Decision_Trees
  imports Oxidd
begin

text \<open>
  A library of decision diagrams that keeps the promises of \<open>oxidd_laws\<close>: reduced decision trees
  without sharing, with Shannon expansion for every connective.  It has no state, never runs out of
  memory, and refuses, with a null handle, only a cube that is not a chain of variables.
\<close>

datatype tree = Leaf bool | Node nat tree tree

fun tree_den :: "tree \<Rightarrow> assignment \<Rightarrow> bool" where
  "tree_den (Leaf b) \<rho> = b"
| "tree_den (Node v l h) \<rho> = (if \<rho> v then tree_den h \<rho> else tree_den l \<rho>)"

definition mk_node :: "nat \<Rightarrow> tree \<Rightarrow> tree \<Rightarrow> tree" where
  "mk_node v l h = (if l = h then l else Node v l h)"

fun tree_apply :: "(bool \<Rightarrow> bool \<Rightarrow> bool) \<Rightarrow> tree \<Rightarrow> tree \<Rightarrow> tree" where
  "tree_apply f (Leaf a) (Leaf b) = Leaf (f a b)"
| "tree_apply f (Leaf a) (Node v l h) = mk_node v (tree_apply f (Leaf a) l) (tree_apply f (Leaf a) h)"
| "tree_apply f (Node v l h) (Leaf b) = mk_node v (tree_apply f l (Leaf b)) (tree_apply f h (Leaf b))"
| "tree_apply f (Node v l h) (Node w l' h') =
     (if v = w then mk_node v (tree_apply f l l') (tree_apply f h h')
      else if v < w then mk_node v (tree_apply f l (Node w l' h')) (tree_apply f h (Node w l' h'))
      else mk_node w (tree_apply f (Node v l h) l') (tree_apply f (Node v l h) h'))"

definition tree_not :: "tree \<Rightarrow> tree" where
  "tree_not t = tree_apply (\<lambda>a b. a \<noteq> b) (Leaf True) t"

definition tree_and :: "tree \<Rightarrow> tree \<Rightarrow> tree" where "tree_and = tree_apply (\<lambda>a b. a \<and> b)"
definition tree_or :: "tree \<Rightarrow> tree \<Rightarrow> tree" where "tree_or = tree_apply (\<lambda>a b. a \<or> b)"
definition tree_imp :: "tree \<Rightarrow> tree \<Rightarrow> tree" where "tree_imp = tree_apply (\<lambda>a b. a \<longrightarrow> b)"
definition tree_equiv :: "tree \<Rightarrow> tree \<Rightarrow> tree" where "tree_equiv = tree_apply (\<lambda>a b. a = b)"
definition tree_xor :: "tree \<Rightarrow> tree \<Rightarrow> tree" where "tree_xor = tree_apply (\<lambda>a b. a \<noteq> b)"

fun cofactor :: "nat \<Rightarrow> bool \<Rightarrow> tree \<Rightarrow> tree" where
  "cofactor v x (Leaf b) = Leaf b"
| "cofactor v x (Node w l h) =
     (if w = v then if x then cofactor v x h else cofactor v x l
      else mk_node w (cofactor v x l) (cofactor v x h))"

text \<open>The literals of a cube.\<close>

fun cube_pairs :: "tree \<Rightarrow> (nat \<times> bool) list option" where
  "cube_pairs (Leaf b) = (if b then Some [] else None)"
| "cube_pairs (Node v l h) =
     (if l = Leaf False then map_option (\<lambda>ps. (v, True) # ps) (cube_pairs h)
      else if h = Leaf False then map_option (\<lambda>ps. (v, False) # ps) (cube_pairs l)
      else None)"

fun tree_forall :: "nat list \<Rightarrow> tree \<Rightarrow> tree" where
  "tree_forall [] t = t"
| "tree_forall (v # vs) t = tree_forall vs (tree_and (cofactor v False t) (cofactor v True t))"

fun tree_exists :: "nat list \<Rightarrow> tree \<Rightarrow> tree" where
  "tree_exists [] t = t"
| "tree_exists (v # vs) t = tree_exists vs (tree_or (cofactor v False t) (cofactor v True t))"

fun tree_restrict :: "(nat \<times> bool) list \<Rightarrow> tree \<Rightarrow> tree" where
  "tree_restrict [] t = t"
| "tree_restrict ((v, x) # ps) t = tree_restrict ps (cofactor v x t)"

definition tree_ite :: "tree \<Rightarrow> tree \<Rightarrow> tree \<Rightarrow> tree" where
  "tree_ite c t e = tree_or (tree_and c t) (tree_and (tree_not c) e)"

fun tree_substitute :: "(nat \<times> tree) list \<Rightarrow> tree \<Rightarrow> tree" where
  "tree_substitute sub (Leaf b) = Leaf b"
| "tree_substitute sub (Node v l h) =
     tree_ite (case map_of sub v of None \<Rightarrow> Node v (Leaf False) (Leaf True) | Some t \<Rightarrow> t)
       (tree_substitute sub h) (tree_substitute sub l)"

fun tree_sat :: "(nat \<times> bool) list \<Rightarrow> tree \<Rightarrow> bool" where
  "tree_sat ps (Leaf b) = b"
| "tree_sat ps (Node v l h) =
     (case map_of ps v of Some x \<Rightarrow> tree_sat ps (if x then h else l)
      | None \<Rightarrow> tree_sat ((v, False) # ps) l \<or> tree_sat ((v, True) # ps) h)"

definition lift1 :: "(tree \<Rightarrow> tree) \<Rightarrow> tree option \<Rightarrow> unit \<Rightarrow> tree option \<times> unit" where
  "lift1 f a w = (map_option f a, w)"

definition lift2 :: "(tree \<Rightarrow> tree \<Rightarrow> tree) \<Rightarrow> tree option \<Rightarrow> tree option \<Rightarrow> unit \<Rightarrow> tree option \<times> unit" where
  "lift2 f a b w = ((case a of None \<Rightarrow> None | Some x \<Rightarrow> map_option (f x) b), w)"

definition with_cube :: "((nat \<times> bool) list \<Rightarrow> tree \<Rightarrow> tree) \<Rightarrow> tree option \<Rightarrow> tree option \<Rightarrow> unit \<Rightarrow> tree option \<times> unit" where
  "with_cube f a b w =
     ((case a of None \<Rightarrow> None
       | Some x \<Rightarrow> case b of None \<Rightarrow> None
         | Some c \<Rightarrow> map_option (\<lambda>ps. f ps x) (cube_pairs c)), w)"

definition forall_cube :: "(nat \<times> bool) list \<Rightarrow> tree \<Rightarrow> tree" where
  "forall_cube ps = tree_forall (map fst ps)"

definition exists_cube :: "(nat \<times> bool) list \<Rightarrow> tree \<Rightarrow> tree" where
  "exists_cube ps = tree_exists (map fst ps)"

definition substitute_all :: "tree option \<Rightarrow> (nat \<times> tree option) list \<Rightarrow> unit \<Rightarrow> tree option \<times> unit" where
  "substitute_all a sub w =
     ((case a of None \<Rightarrow> None
       | Some x \<Rightarrow> if None \<in> set (map snd sub) then None
         else Some (tree_substitute (map (\<lambda>(v, t). (v, the t)) sub) x)), w)"

definition tree_sat_handle :: "tree option \<Rightarrow> unit \<Rightarrow> bool \<times> unit" where
  "tree_sat_handle a w = ((case a of None \<Rightarrow> False | Some t \<Rightarrow> tree_sat [] t), w)"

definition tree_eval :: "tree option \<Rightarrow> (nat \<times> bool) list \<Rightarrow> unit \<Rightarrow> bool \<times> unit" where
  "tree_eval a args w =
     ((case a of None \<Rightarrow> False | Some t \<Rightarrow> tree_den t (\<lambda>v. map_of args v = Some True)), w)"

definition tree_library :: "(unit, tree) oxidd" where
  "tree_library =
     \<lparr>ox_false = (\<lambda>w. (Some (Leaf False), w)), ox_true = (\<lambda>w. (Some (Leaf True), w)),
      ox_var = (\<lambda>v w. (Some (Node v (Leaf False) (Leaf True)), w)),
      ox_not = lift1 tree_not, ox_and = lift2 tree_and, ox_or = lift2 tree_or, ox_imp = lift2 tree_imp, ox_equiv = lift2 tree_equiv, ox_xor = lift2 tree_xor,
      ox_forall = with_cube forall_cube, ox_exists = with_cube exists_cube, ox_restrict = with_cube tree_restrict,
      ox_substitute = substitute_all, ox_satisfiable = tree_sat_handle, ox_eval = tree_eval,
      ox_gc = (\<lambda>w. ((), w))\<rparr>"

subsection \<open>It keeps the laws\<close>

lemma mk_node_den [simp]: "tree_den (mk_node v l h) \<rho> = tree_den (Node v l h) \<rho>"
  by (simp add: mk_node_def)

lemma tree_apply_den: "tree_den (tree_apply f a b) \<rho> = f (tree_den a \<rho>) (tree_den b \<rho>)"
  by (induction f a b rule: tree_apply.induct) auto

lemma tree_ops_den [simp]:
  "tree_den (tree_not a) \<rho> = (\<not> tree_den a \<rho>)"
  "tree_den (tree_and a b) \<rho> = (tree_den a \<rho> \<and> tree_den b \<rho>)"
  "tree_den (tree_or a b) \<rho> = (tree_den a \<rho> \<or> tree_den b \<rho>)"
  "tree_den (tree_imp a b) \<rho> = (tree_den a \<rho> \<longrightarrow> tree_den b \<rho>)"
  "tree_den (tree_equiv a b) \<rho> = (tree_den a \<rho> = tree_den b \<rho>)"
  "tree_den (tree_xor a b) \<rho> = (tree_den a \<rho> \<noteq> tree_den b \<rho>)"
  "tree_den (tree_ite c a b) \<rho> = (if tree_den c \<rho> then tree_den a \<rho> else tree_den b \<rho>)"
  by (simp_all add: tree_not_def tree_and_def tree_or_def tree_imp_def tree_equiv_def tree_xor_def tree_ite_def tree_apply_den)

lemma cofactor_den [simp]: "tree_den (cofactor v x t) \<rho> = tree_den t (\<rho>(v := x))"
  by (cases x; induction t) simp_all

lemma tree_restrict_den: "tree_den (tree_restrict ps t) \<rho> = tree_den t (\<lambda>v. case map_of ps v of Some x \<Rightarrow> x | None \<Rightarrow> \<rho> v)"
proof (induction ps t rule: tree_restrict.induct)
  case (2 v x ps t)
  have "(\<lambda>w. case map_of ps w of Some x \<Rightarrow> x | None \<Rightarrow> \<rho> w)(v := x) =
      (\<lambda>w. case map_of ((v, x) # ps) w of Some x \<Rightarrow> x | None \<Rightarrow> \<rho> w)" by (auto simp: fun_eq_iff)
  with 2 show ?case by simp
qed simp

lemma tree_forall_den: "tree_den (tree_forall vs t) \<rho> \<longleftrightarrow> (\<forall>\<sigma>. (\<forall>v. v \<notin> set vs \<longrightarrow> \<sigma> v = \<rho> v) \<longrightarrow> tree_den t \<sigma>)"
proof (induction vs t rule: tree_forall.induct)
  case (1 t)
  have "\<sigma> = \<rho>" if "\<forall>v. \<sigma> v = \<rho> v" for \<sigma> using that by (simp add: fun_eq_iff)
  then show ?case by auto
next
  case (2 v vs t)
  have "(\<forall>\<sigma>. (\<forall>w. w \<notin> set vs \<longrightarrow> \<sigma> w = \<rho> w) \<longrightarrow> tree_den t (\<sigma>(v := False)) \<and> tree_den t (\<sigma>(v := True))) \<longleftrightarrow>
      (\<forall>\<sigma>. (\<forall>w. w \<notin> set (v # vs) \<longrightarrow> \<sigma> w = \<rho> w) \<longrightarrow> tree_den t \<sigma>)" (is "?l \<longleftrightarrow> ?r")
  proof (intro iffI allI impI)
    fix \<sigma> assume l: ?l and s: "\<forall>w. w \<notin> set (v # vs) \<longrightarrow> \<sigma> w = \<rho> w"
    have "tree_den t (\<sigma>(v := \<rho> v, v := x))" for x
      using spec [OF l, of "\<sigma>(v := \<rho> v)"] s by (cases x) auto
    from this [of "\<sigma> v"] show "tree_den t \<sigma>" by simp
  next
    fix \<sigma> assume r: ?r and s: "\<forall>w. w \<notin> set vs \<longrightarrow> \<sigma> w = \<rho> w"
    then show "tree_den t (\<sigma>(v := False)) \<and> tree_den t (\<sigma>(v := True))" by simp
  qed
  with 2 show ?case by simp
qed

lemma tree_exists_den: "tree_den (tree_exists vs t) \<rho> \<longleftrightarrow> (\<exists>\<sigma>. (\<forall>v. v \<notin> set vs \<longrightarrow> \<sigma> v = \<rho> v) \<and> tree_den t \<sigma>)"
proof -
  have "tree_den (tree_forall vs u) \<rho> \<longleftrightarrow> \<not> tree_den (tree_exists vs t) \<rho>" if "\<And>\<rho>. tree_den u \<rho> \<longleftrightarrow> \<not> tree_den t \<rho>" for u
    using that
  proof (induction vs arbitrary: u t)
    case (Cons v vs)
    show ?case unfolding tree_forall.simps tree_exists.simps by (rule Cons.IH) (simp only: tree_ops_den cofactor_den Cons.prems de_Morgan_disj)
  qed simp
  from this [of "tree_not t"] show ?thesis by (auto simp: tree_forall_den)
qed

lemma cube_pairs_den: "cube_pairs c = Some ps \<Longrightarrow> tree_den c \<rho> \<longleftrightarrow> (\<forall>(v, x)\<in>set ps. \<rho> v = x)"
  by (induction c arbitrary: ps) (auto split: if_splits)

lemma cube_pairs_unique:
  assumes c: "cube_pairs c = Some ps" and d: "tree_den c = (\<lambda>\<rho>. \<forall>v\<in>V. \<rho> v = \<tau> v)"
  shows "map_of ps v = (if v \<in> V then Some (\<tau> v) else None)"
proof -
  have iff: "(\<forall>(v, x)\<in>set ps. \<rho> v = x) \<longleftrightarrow> (\<forall>v\<in>V. \<rho> v = \<tau> v)" for \<rho>
    using cube_pairs_den [OF c, of \<rho>] by (simp add: d)
  have \<tau>: "\<forall>(v, x)\<in>set ps. \<tau> v = x" using iff [of \<tau>] by simp
  have "v \<in> V \<longleftrightarrow> v \<in> fst ` set ps"
  proof -
    have "(\<forall>(w, x)\<in>set ps. (\<tau>(v := \<not> \<tau> v)) w = x) \<longleftrightarrow> v \<notin> fst ` set ps" using \<tau> by (force simp: split_beta)
    moreover have "(\<forall>w\<in>V. (\<tau>(v := \<not> \<tau> v)) w = \<tau> w) \<longleftrightarrow> v \<notin> V" by auto
    ultimately show ?thesis using iff [of "\<tau>(v := \<not> \<tau> v)"] by blast
  qed
  moreover have "map_of ps v = Some (\<tau> v)" if v: "v \<in> fst ` set ps"
  proof -
    obtain x where x: "map_of ps v = Some x" using v map_of_eq_None_iff [of ps v] by blast
    with \<tau> map_of_SomeD [OF x] show ?thesis by auto
  qed
  ultimately show ?thesis by (auto simp: map_of_eq_None_iff)
qed

lemma tree_substitute_den:
  "tree_den (tree_substitute sub t) \<rho> = tree_den t (updated (map (\<lambda>(v, s). (v, tree_den s)) sub) \<rho>)"
  by (induction t) (auto simp: updated_def map_of_map split: option.splits)

lemma tree_sat_den: "tree_sat ps t \<longleftrightarrow> (\<exists>\<rho>. (\<forall>v x. map_of ps v = Some x \<longrightarrow> \<rho> v = x) \<and> tree_den t \<rho>)"
proof (induction ps t rule: tree_sat.induct)
  case (1 ps b)
  have "\<exists>\<rho>. \<forall>v x. map_of ps v = Some x \<longrightarrow> \<rho> v = x" by (rule exI [of _ "\<lambda>v. the (map_of ps v)"]) simp
  then show ?case by simp
next
  case (2 ps v l h)
  show ?case
  proof (cases "map_of ps v")
    case None
    have pin: "(\<exists>\<rho>. (\<forall>w y. map_of ((v, x) # ps) w = Some y \<longrightarrow> \<rho> w = y) \<and> P \<rho>) \<longleftrightarrow>
        (\<exists>\<rho>. (\<forall>w y. map_of ps w = Some y \<longrightarrow> \<rho> w = y) \<and> \<rho> v = x \<and> P \<rho>)" for x and P :: "assignment \<Rightarrow> bool"
      using None by (intro arg_cong [of _ _ Ex]) (auto simp: fun_eq_iff)
    show ?thesis unfolding tree_sat.simps None option.case(1) 2(1) [OF None] 2(2) [OF None] pin ex_disj_distrib [symmetric]
      by (intro arg_cong [of _ _ Ex]) (simp add: fun_eq_iff)
  next
    case (Some x)
    have "(\<forall>w y. map_of ps w = Some y \<longrightarrow> \<rho> w = y) \<and> tree_den (if x then h else l) \<rho> \<longleftrightarrow>
        (\<forall>w y. map_of ps w = Some y \<longrightarrow> \<rho> w = y) \<and> tree_den (Node v l h) \<rho>" for \<rho>
      using Some by (cases x) auto
    then show ?thesis unfolding tree_sat.simps Some option.case(2) 2(3) [OF Some] by simp
  qed
qed

interpretation trees: oxidd_laws tree_library tree_den vars
proof
  fix f g :: "tree option" and w r
  show "\<exists>a b. f = Some a \<and> g = Some b \<and> (\<forall>V. finite V \<longrightarrow> tree_den b = (\<lambda>\<rho>. \<forall>v\<in>V. \<rho> v) \<longrightarrow>
      tree_den r = (\<lambda>\<rho>. \<forall>\<sigma>. (\<forall>v. v \<notin> V \<longrightarrow> \<sigma> v = \<rho> v) \<longrightarrow> tree_den a \<sigma>))"
    if run: "fst (ox_forall tree_library f g w) = Some r"
  proof -
    obtain a b ps where ab: "f = Some a" "g = Some b" "cube_pairs b = Some ps" "r = forall_cube ps a"
      using run by (auto simp: tree_library_def with_cube_def split: option.splits)
    have "tree_den r = (\<lambda>\<rho>. \<forall>\<sigma>. (\<forall>v. v \<notin> V \<longrightarrow> \<sigma> v = \<rho> v) \<longrightarrow> tree_den a \<sigma>)"
      if "tree_den b = (\<lambda>\<rho>. \<forall>v\<in>V. \<rho> v)" for V
    proof -
      have "map_of ps v = None \<longleftrightarrow> v \<notin> V" for v
        using cube_pairs_unique [OF ab(3), of V "\<lambda>_. True"] that by simp
      then have "fst ` set ps = V" unfolding map_of_eq_None_iff by blast
      then show ?thesis by (simp add: ab(4) forall_cube_def tree_forall_den fun_eq_iff)
    qed
    with ab show ?thesis by blast
  qed
  show "\<exists>a b. f = Some a \<and> g = Some b \<and> (\<forall>V. finite V \<longrightarrow> tree_den b = (\<lambda>\<rho>. \<forall>v\<in>V. \<rho> v) \<longrightarrow>
      tree_den r = (\<lambda>\<rho>. \<exists>\<sigma>. (\<forall>v. v \<notin> V \<longrightarrow> \<sigma> v = \<rho> v) \<and> tree_den a \<sigma>))"
    if run: "fst (ox_exists tree_library f g w) = Some r"
  proof -
    obtain a b ps where ab: "f = Some a" "g = Some b" "cube_pairs b = Some ps" "r = exists_cube ps a"
      using run by (auto simp: tree_library_def with_cube_def split: option.splits)
    have "tree_den r = (\<lambda>\<rho>. \<exists>\<sigma>. (\<forall>v. v \<notin> V \<longrightarrow> \<sigma> v = \<rho> v) \<and> tree_den a \<sigma>)"
      if "tree_den b = (\<lambda>\<rho>. \<forall>v\<in>V. \<rho> v)" for V
    proof -
      have "map_of ps v = None \<longleftrightarrow> v \<notin> V" for v
        using cube_pairs_unique [OF ab(3), of V "\<lambda>_. True"] that by simp
      then have "fst ` set ps = V" unfolding map_of_eq_None_iff by blast
      then show ?thesis by (simp add: ab(4) exists_cube_def tree_exists_den fun_eq_iff)
    qed
    with ab show ?thesis by blast
  qed
  show "\<exists>a b. f = Some a \<and> g = Some b \<and> (\<forall>V \<tau>. finite V \<longrightarrow> tree_den b = (\<lambda>\<rho>. \<forall>v\<in>V. \<rho> v = \<tau> v) \<longrightarrow>
      tree_den r = (\<lambda>\<rho>. tree_den a (\<lambda>v. if v \<in> V then \<tau> v else \<rho> v)))"
    if run: "fst (ox_restrict tree_library f g w) = Some r"
  proof -
    obtain a b ps where ab: "f = Some a" "g = Some b" "cube_pairs b = Some ps" "r = tree_restrict ps a"
      using run by (auto simp: tree_library_def with_cube_def split: option.splits)
    have "tree_den r = (\<lambda>\<rho>. tree_den a (\<lambda>v. if v \<in> V then \<tau> v else \<rho> v))"
      if "tree_den b = (\<lambda>\<rho>. \<forall>v\<in>V. \<rho> v = \<tau> v)" for V \<tau>
    proof -
      have "(\<lambda>v. case map_of ps v of None \<Rightarrow> \<rho> v | Some x \<Rightarrow> x) = (\<lambda>v. if v \<in> V then \<tau> v else \<rho> v)" for \<rho>
        by (auto simp: cube_pairs_unique [OF ab(3) that])
      then show ?thesis by (simp add: ab(4) tree_restrict_den fun_eq_iff)
    qed
    with ab show ?thesis by blast
  qed
  fix sub
  show "\<exists>a cs. f = Some a \<and> map snd sub = map Some cs \<and> (distinct (map fst sub) \<longrightarrow>
      tree_den r = (\<lambda>\<rho>. tree_den a (updated (zip (map fst sub) (map tree_den cs)) \<rho>)))"
    if run: "fst (ox_substitute tree_library f sub w) = Some r"
  proof -
    obtain a where a: "f = Some a" "None \<notin> set (map snd sub)" "r = tree_substitute (map (\<lambda>(v, t). (v, the t)) sub) a"
      using run by (auto simp: tree_library_def substitute_all_def split: option.splits if_splits)
    let ?cs = "map (the \<circ> snd) sub"
    have "map snd sub = map Some ?cs" using a(2) by (induction sub) auto
    moreover have "map (\<lambda>(v, s). (v, tree_den s)) (map (\<lambda>(v, t). (v, the t)) sub) = zip (map fst sub) (map tree_den ?cs)"
      by (induction sub) auto
    ultimately show ?thesis using a by (intro exI [of _ a] exI [of _ ?cs]) (simp add: tree_substitute_den fun_eq_iff)
  qed
next
  fix args :: "(nat \<times> bool) list" and a c w
  assume d: "distinct (map fst args)" and c: "\<And>\<rho>. \<forall>(v, x)\<in>set args. \<rho> v = x \<Longrightarrow> tree_den a \<rho> = c"
  have "\<forall>(v, x)\<in>set args. (map_of args v = Some True) = x" 
    using d by (auto simp: map_of_eq_Some_iff) (use d eq_key_imp_eq_value in fastforce)
  then show "fst (ox_eval tree_library (Some a) args w) = c" using c by (simp add: tree_library_def tree_eval_def)
qed (auto simp: tree_library_def lift1_def lift2_def tree_sat_handle_def tree_sat_den fun_eq_iff split: option.splits if_splits)

end
