(* ===== verification/Precheck_Claims.thy ===== *)
theory Precheck_Claims
  imports Precheck Games Cover_Correct Section_Pattern Decision_Trees
begin

text \<open>
  The early verdicts are sound for the synthesis game: an unrealizable verdict gives the environment
  one constant input that defeats every controller, a realizable one gives a controller that only
  looks at the present input.
\<close>

subsection \<open>Propositional formulas\<close>

definition letter_of :: "ap_table \<Rightarrow> assignment \<Rightarrow> letter" where
  "letter_of t \<rho> = {names t ! i | i. i < length (names t) \<and> \<rho> i}"

definition holds_in :: "node \<Rightarrow> letter \<Rightarrow> bool" where
  "holds_in f l \<longleftrightarrow> sat \<infinity> (\<lambda>_. l) f 0"

lemma propositional_sat:
  "propositional f \<Longrightarrow> atoms f \<subseteq> V \<Longrightarrow> w i \<inter> V = l \<inter> V \<Longrightarrow> sat \<infinity> w f i \<longleftrightarrow> holds_in f l"
proof (induction f)
  case (Binary k a b)
  then show ?case by (cases k) (auto simp: holds_in_def)
qed (auto simp: holds_in_def)

text \<open>The body of a constraint is what it requires at the first position, and enough at all.\<close>

lemma step0_body:
  assumes "step0_bool_body c = Some f"
  shows "propositional f" and "atoms f = atoms (con_formula c)"
    and "sat \<infinity> w (con_formula c) 0 \<Longrightarrow> sat \<infinity> w f 0"
    and "\<forall>n. sat \<infinity> w f n \<Longrightarrow> sat \<infinity> w (con_formula c) m"
  using assms by (auto simp: step0_bool_body_def Let_def alw_def split: if_splits node.splits)

text \<open>The bodies of the guarantees, and those of the other constraints on the assumption side.\<close>

definition bodies :: "bool \<Rightarrow> constraint list \<Rightarrow> node set" where
  "bodies guar cs = {f. \<exists>c\<in>set cs. step0_bool_body c = Some f \<and>
     (if guar then guarantee_side c else \<not> guarantee_side c \<and> assumption_side c)}"

lemma bodies_simps [simp]: "bodies guar [] = {}"
  "step0_bool_body c = None \<Longrightarrow> bodies guar (c # cs) = bodies guar cs"
  "step0_bool_body c = Some f \<Longrightarrow> bodies guar (c # cs) =
     (if (if guar then guarantee_side c else \<not> guarantee_side c \<and> assumption_side c) then insert f (bodies guar cs) else bodies guar cs)"
  by (auto simp: bodies_def)

definition all_in :: "node set \<Rightarrow> letter \<Rightarrow> bool" where
  "all_in F l \<longleftrightarrow> (\<forall>f\<in>F. holds_in f l)"

context oxidd_laws
begin

lemma post_binary_op:
  assumes "k \<in> {NODE_AND, NODE_OR, NODE_IMPL, NODE_EQUIV}" and "means den x (\<lambda>\<rho>. holds_in a (L \<rho>))"
    and "means den y (\<lambda>\<rho>. holds_in b (L \<rho>))"
    and "\<And>r s'. later s s' \<Longrightarrow> means den r (\<lambda>\<rho>. holds_in (Binary k a b) (L \<rho>)) \<Longrightarrow> Q r s'"
  shows "post (ext (binary_op B k x y)) Q s"
proof (rule post_op [OF _ assms(4)])
  fix w r assume r: "fst (binary_op B k x y w) = Some r"
  show "den r = (\<lambda>\<rho>. holds_in (Binary k a b) (L \<rho>))"
    using r assms(1-3) and_law [of x y w] or_law [of x y w] imp_law [of x y w] equiv_law [of x y w]
    by (fastforce simp: binary_op_def means_def holds_in_def)
qed

lemma post_bail:
  assumes "\<And>r b s'. later s s' \<Longrightarrow> (\<not> b \<Longrightarrow> A r) \<Longrightarrow> Q (r, b) s'"
  shows "post (do { r \<leftarrow> ext (ox_true B); State_Monad.return (r, True) }) Q s"
  by (rule post_bind, rule post_true, rule post_return, rule assms) simp_all

lemma post_node_to_bdd:
  assumes t: "ap_table_ok addr t" and v: "length (names t) \<le> vars"
  shows "(\<And>r b s'. later s s' \<Longrightarrow> (\<not> b \<Longrightarrow> \<not> bail \<and> propositional f \<and> atoms f \<subseteq> set (names t) \<and>
      means den r (\<lambda>\<rho>. holds_in f (letter_of t \<rho>))) \<Longrightarrow> Q (r, b) s') \<Longrightarrow>
    post (node_to_bdd B addr t f bail) Q s"
proof (induction f arbitrary: bail Q s)
  case (NodeAp p)
  have find: "ap_table_find addr t p = Some (index_of (names t) p)" by (rule ap_table_find_ok [OF t])
  show ?case
  proof (cases "index_of (names t) p")
    case None
    show ?thesis unfolding node_to_bdd.simps find option.case None
      by (intro post_bind post_true post_return NodeAp.prems) simp_all
  next
    case (Some i)
    then have i: "i < length (names t)" "names t ! i = p" using index_of_SomeD [OF Some] by simp_all
    have d: "distinct (names t)" using t by (simp add: ap_table_ok_def)
    have h: "holds_in (NodeAp p) (letter_of t \<rho>) = \<rho> i" for \<rho>
      using i d by (auto simp: holds_in_def letter_of_def nth_eq_iff_index_eq)
    show ?thesis unfolding node_to_bdd.simps find Some option.case
      by (intro post_bind post_var post_return NodeAp.prems) (use i v h in \<open>auto simp: means_def fun_eq_iff\<close>)
  qed
next
  case (Unary k a)
  show ?case
  proof (cases "k = NODE_NOT")
    case True
    show ?thesis unfolding node_to_bdd.simps if_P [OF True]
    proof (rule post_bind, rule Unary.IH, unfold prod.case, rule post_bind)
      fix x b s1 assume l: "later s s1" and x: "\<not> b \<Longrightarrow> \<not> bail \<and> propositional a \<and> atoms a \<subseteq> set (names t) \<and>
        means den x (\<lambda>\<rho>. holds_in a (letter_of t \<rho>))"
      show "post (ext (ox_not B x)) (\<lambda>r. post (State_Monad.return (r, b)) Q) s1"
      proof (rule post_ext, rule post_return, rule Unary.prems)
        fix r w assume r: "ox_not B x (world s1) = (r, w)" and b: "\<not> b"
        have "means den r (\<lambda>\<rho>. \<not> holds_in a (letter_of t \<rho>))"
          using x [OF b] not_law [of x "world s1"] r by (fastforce simp: means_def)
        then show "\<not> bail \<and> propositional (Unary k a) \<and> atoms (Unary k a) \<subseteq> set (names t) \<and>
            means den r (\<lambda>\<rho>. holds_in (Unary k a) (letter_of t \<rho>))"
          using x [OF b] True by (simp add: holds_in_def)
      qed (use l in auto)
    qed
  next
    case False
    show ?thesis unfolding node_to_bdd.simps if_not_P [OF False]
      by (intro post_bind post_true post_return Unary.prems) simp_all
  qed
next
  case (Binary k a b)
  show ?case
  proof (cases "k \<in> {NODE_AND, NODE_OR, NODE_IMPL, NODE_EQUIV}")
    case True
    show ?thesis unfolding node_to_bdd.simps if_P [OF True]
    proof (rule post_bind, rule Binary.IH(1), unfold prod.case, rule post_bind, rule Binary.IH(2), unfold prod.case, rule post_bind)
      fix x ba s1 y bb s2 assume l: "later s s1" "later s1 s2"
        and x: "\<not> ba \<Longrightarrow> \<not> bail \<and> propositional a \<and> atoms a \<subseteq> set (names t) \<and> means den x (\<lambda>\<rho>. holds_in a (letter_of t \<rho>))"
        and y: "\<not> bb \<Longrightarrow> \<not> ba \<and> propositional b \<and> atoms b \<subseteq> set (names t) \<and> means den y (\<lambda>\<rho>. holds_in b (letter_of t \<rho>))"
      show "post (ext (binary_op B k x y)) (\<lambda>r. post (State_Monad.return (r, bb)) Q) s2"
      proof (cases bb)
        case True
        show ?thesis by (rule post_ext, rule post_return, rule Binary.prems) (use l True in \<open>auto intro: later_trans\<close>)
      next
        case False
        show ?thesis
        proof (rule post_binary_op [OF True])
          show "means den x (\<lambda>\<rho>. holds_in a (letter_of t \<rho>))" "means den y (\<lambda>\<rho>. holds_in b (letter_of t \<rho>))"
            using x y False by blast+
          fix r s' assume "later s2 s'" "means den r (\<lambda>\<rho>. holds_in (Binary k a b) (letter_of t \<rho>))"
          then show "post (State_Monad.return (r, bb)) Q s'"
            by (intro post_return Binary.prems) (use l x y True False in \<open>auto intro: later_trans\<close>)
        qed
      qed
    qed
  next
    case False
    show ?thesis unfolding node_to_bdd.simps if_not_P [OF False]
      by (intro post_bind post_true post_return Binary.prems) simp_all
  qed
next
  case NodeTrue
  show ?case unfolding node_to_bdd.simps
    by (rule post_bind, rule post_true, rule post_return, rule NodeTrue) (auto simp: holds_in_def)
next
  case NodeFalse
  show ?case unfolding node_to_bdd.simps
    by (rule post_bind, rule post_false, rule post_return, rule NodeFalse) (auto simp: holds_in_def)
qed (unfold node_to_bdd.simps, (erule post_bail)+)

lemma means_all_in:
  assumes "fst (ox_and B g x w) = r" and "means den g (\<lambda>\<rho>. all_in F (L \<rho>))" and "means den x (\<lambda>\<rho>. holds_in f (L \<rho>))"
  shows "means den r (\<lambda>\<rho>. all_in (insert f F) (L \<rho>))"
  using assms and_law [of g x w] by (fastforce simp: means_def all_in_def)

lemma post_conjoin:
  assumes t: "ap_table_ok addr t" and v: "length (names t) \<le> vars"
  shows "(\<not> bail \<Longrightarrow> means den g (\<lambda>\<rho>. all_in F (letter_of t \<rho>)) \<and> means den a (\<lambda>\<rho>. all_in E (letter_of t \<rho>))) \<Longrightarrow>
    (\<And>g' a' b s'. (\<not> b \<Longrightarrow> \<not> bail \<and> (\<forall>f\<in>bodies True cs \<union> bodies False cs. atoms f \<subseteq> set (names t)) \<and>
       means den g' (\<lambda>\<rho>. all_in (F \<union> bodies True cs) (letter_of t \<rho>)) \<and>
       means den a' (\<lambda>\<rho>. all_in (E \<union> bodies False cs) (letter_of t \<rho>))) \<Longrightarrow> Q (g', a', b) s') \<Longrightarrow>
    post (conjoin_bodies B addr t cs (g, a, bail)) Q s"
proof (induction cs arbitrary: g a bail F E s)
  case Nil
  show ?case unfolding conjoin_bodies.simps
    by (rule post_return, rule Nil.prems(2)) (use Nil.prems(1) in simp)
next
  case (Cons c cs)
  show ?case
  proof (cases bail)
    case True
    then show ?thesis unfolding conjoin_bodies.simps by (intro post_if post_return Cons.prems(2)) simp_all
  next
    case False
    note ga = Cons.prems(1) [OF False]
    show ?thesis
    proof (cases "step0_bool_body c")
      case None
      show ?thesis unfolding conjoin_bodies.simps if_not_P [OF False] None option.case
        by (rule Cons.IH [OF ga], rule Cons.prems(2)) (simp add: None)
    next
      case (Some f)
      show ?thesis unfolding conjoin_bodies.simps if_not_P [OF False] Some option.case
      proof (rule post_bind, rule post_node_to_bdd [OF t v], unfold prod.case)
        fix x b s1 assume x: "\<not> b \<Longrightarrow> \<not> bail \<and> propositional f \<and> atoms f \<subseteq> set (names t) \<and> means den x (\<lambda>\<rho>. holds_in f (letter_of t \<rho>))"
        have g: "means den (fst (ox_and B g x w)) (\<lambda>\<rho>. all_in (insert f F) (letter_of t \<rho>))" if nb: "\<not> b" for w
          by (rule means_all_in [OF refl]) (use ga x [OF nb] in blast)+
        have a: "means den (fst (ox_and B a x w)) (\<lambda>\<rho>. all_in (insert f E) (letter_of t \<rho>))" if nb: "\<not> b" for w
          by (rule means_all_in [OF refl]) (use ga x [OF nb] in blast)+
        show "post (if guarantee_side c then do { g' \<leftarrow> ext (ox_and B g x); conjoin_bodies B addr t cs (g', a, b) }
            else if assumption_side c then do { a' \<leftarrow> ext (ox_and B a x); conjoin_bodies B addr t cs (g, a', b) }
            else conjoin_bodies B addr t cs (g, a, b)) Q s1"
        proof (intro post_if post_bind)
          assume gs: "guarantee_side c"
          show "post (ext (ox_and B g x)) (\<lambda>g'. post (conjoin_bodies B addr t cs (g', a, b)) Q) s1"
          proof (rule post_ext, rule Cons.IH [where F = "insert f F" and E = E])
            fix r w assume r: "ox_and B g x (world s1) = (r, w)"
            show "means den r (\<lambda>\<rho>. all_in (insert f F) (letter_of t \<rho>)) \<and> means den a (\<lambda>\<rho>. all_in E (letter_of t \<rho>))" if "\<not> b"
              using g [OF that, of "world s1"] r ga by simp
          qed (rule Cons.prems(2), use gs Some x False in simp)
        next
          assume gs: "\<not> guarantee_side c" "assumption_side c"
          show "post (ext (ox_and B a x)) (\<lambda>a'. post (conjoin_bodies B addr t cs (g, a', b)) Q) s1"
          proof (rule post_ext, rule Cons.IH [where F = F and E = "insert f E"])
            fix r w assume r: "ox_and B a x (world s1) = (r, w)"
            show "means den g (\<lambda>\<rho>. all_in F (letter_of t \<rho>)) \<and> means den r (\<lambda>\<rho>. all_in (insert f E) (letter_of t \<rho>))" if "\<not> b"
              using a [OF that, of "world s1"] r ga by simp
          qed (rule Cons.prems(2), use gs Some x False in simp)
        next
          assume gs: "\<not> guarantee_side c" "\<not> assumption_side c"
          show "post (conjoin_bodies B addr t cs (g, a, b)) Q s1"
            by (rule Cons.IH [OF ga], rule Cons.prems(2)) (use gs Some x False in simp)
        qed
      qed
    qed
  qed
qed

subsection \<open>The two quantifications\<close>

lemma output_aps_vars: "length (names t) \<le> vars \<Longrightarrow> set (output_aps t) \<subseteq> {..<vars}"
  by (auto simp: output_aps_def)

lemma post_environment_wins:
  assumes v: "length (names t) \<le> vars" and g: "means den g P" and a: "means den a R"
    and Q: "\<And>r s'. (r \<Longrightarrow> \<exists>\<rho>. \<forall>\<sigma>. (\<forall>i. i \<notin> set (output_aps t) \<longrightarrow> \<sigma> i = \<rho> i) \<longrightarrow> R \<sigma> \<and> \<not> P \<sigma>) \<Longrightarrow> Q r s'"
  shows "post (environment_wins B t g a) Q s"
  unfolding environment_wins_def
proof (rule post_bind, rule post_not [OF g], rule post_bind, rule post_and [OF a], assumption, rule post_bind, rule post_not,
    assumption, rule post_bind, rule post_cube_of [OF output_aps_vars [OF v]], intro post_if post_return Q, simp,
    rule post_bind, rule post_exists [OF _ _ finite_set], assumption, assumption, intro post_if post_return Q, simp,
    rule post_bind, rule post_not, assumption, intro post_if post_return Q, simp, rule post_ext, rule Q)
  fix win s1 r w
  assume win: "means den win (\<lambda>\<rho>. \<not> (\<exists>\<sigma>. (\<forall>i. i \<notin> set (output_aps t) \<longrightarrow> \<sigma> i = \<rho> i) \<and> \<not> (R \<sigma> \<and> \<not> P \<sigma>)))"
    and sat: "win \<noteq> None" "ox_satisfiable B win (world s1) = (r, w)" r
  obtain b where b: "win = Some b" using sat(1) by blast
  have "\<exists>\<rho>. den b \<rho>" using satisfiable_law [of b "world s1"] sat b by simp
  then obtain \<rho> where "den b \<rho>" by blast
  then have "\<not> (\<exists>\<sigma>. (\<forall>i. i \<notin> set (output_aps t) \<longrightarrow> \<sigma> i = \<rho> i) \<and> \<not> (R \<sigma> \<and> \<not> P \<sigma>))"
    using win by (simp add: b means_def)
  then show "\<exists>\<rho>. \<forall>\<sigma>. (\<forall>i. i \<notin> set (output_aps t) \<longrightarrow> \<sigma> i = \<rho> i) \<longrightarrow> R \<sigma> \<and> \<not> P \<sigma>" by blast
qed

lemma post_controller_exists:
  assumes v: "length (names t) \<le> vars" and g: "means den g P"
    and Q: "\<And>r s'. (r \<Longrightarrow> \<forall>\<rho>. \<exists>\<sigma>. (\<forall>i. i \<notin> set (output_aps t) \<longrightarrow> \<sigma> i = \<rho> i) \<and> P \<sigma>) \<Longrightarrow> Q r s'"
  shows "post (controller_exists B t g) Q s"
  unfolding controller_exists_def
proof (rule post_bind, rule post_cube_of [OF output_aps_vars [OF v]], intro post_if post_return Q, simp,
    rule post_bind, rule post_exists [OF g _ finite_set], assumption, intro post_if post_return Q, simp,
    rule post_bind, rule post_not, assumption, intro post_if post_return Q, simp, rule post_bind, rule post_ext, rule post_return, rule Q)
  fix n s1 r w
  assume n: "means den n (\<lambda>\<rho>. \<not> (\<exists>\<sigma>. (\<forall>i. i \<notin> set (output_aps t) \<longrightarrow> \<sigma> i = \<rho> i) \<and> P \<sigma>))"
    and sat: "n \<noteq> None" "ox_satisfiable B n (world s1) = (r, w)" "\<not> r"
  obtain b where b: "n = Some b" using sat(1) by blast
  have "\<not> (\<exists>\<rho>. den b \<rho>)" using satisfiable_law [of b "world s1"] sat b by simp
  then have "\<exists>\<sigma>. (\<forall>i. i \<notin> set (output_aps t) \<longrightarrow> \<sigma> i = \<rho> i) \<and> P \<sigma>" for \<rho>
    using n by (simp only: b means_def option.case) metis
  then show "\<forall>\<rho>. \<exists>\<sigma>. (\<forall>i. i \<notin> set (output_aps t) \<longrightarrow> \<sigma> i = \<rho> i) \<and> P \<sigma>" by blast
qed

end

subsection \<open>The objective of a specification\<close>

definition spec_objective :: "tlsf_spec \<Rightarrow> trace \<Rightarrow> bool" where
  "spec_objective s w = tlsf_meaning (semantics_is_strict (spec_semantics s)) \<infinity> w 0
     (items (initially s)) (items (require s)) (items (assume_list s))
     (items (preset s)) (items (assert_list s)) (items (guarantee s))"

text \<open>A section holds when the constraints of its role do, split or not.\<close>

lemma part_of_section:
  assumes "d \<in> set (cover_sections s)"
  shows "all_hold L w i (sec_list d) \<longleftrightarrow>
    (\<forall>x\<in>set (cover_parts split s). sec_role (fst x) = sec_role d \<longrightarrow> sat L w (snd x) i)"
proof -
  have "distinct (map sec_role (cover_sections s))" by (simp add: cover_sections_def)
  then have d: "d' = d" if "d' \<in> set (cover_sections s)" "sec_role d' = sec_role d" for d'
    using that assms by (meson distinct_map inj_onD)
  have mem: "x \<in> set (cover_parts split s) \<longleftrightarrow> fst x \<in> set (cover_sections s) \<and>
      snd x \<in> set (if split then concat (map rewrite_decompose (sec_list (fst x))) else sec_list (fst x))" for x
    by (cases x) (auto simp: cover_parts_def)
  have "(\<forall>x\<in>set (cover_parts split s). sec_role (fst x) = sec_role d \<longrightarrow> sat L w (snd x) i) \<longleftrightarrow>
      (\<forall>f\<in>set (if split then concat (map rewrite_decompose (sec_list d)) else sec_list d). sat L w f i)"
    (is "?l = ?r")
  proof
    assume l: ?l
    show ?r
    proof
      fix f assume "f \<in> set (if split then concat (map rewrite_decompose (sec_list d)) else sec_list d)"
      then have "(d, f) \<in> set (cover_parts split s)" unfolding mem fst_conv snd_conv using assms by blast
      from bspec [OF l this] show "sat L w f i" by simp
    qed
  next
    assume ?r
    then show ?l using d mem by metis
  qed
  also have "\<dots> \<longleftrightarrow> (\<forall>f\<in>set (sec_list d). sat L w f i)"
    by (simp add: rewrite_decompose_def decomp_append_sat [symmetric])
  finally show ?thesis by (simp add: all_hold_def)
qed

lemma section_constraints:
  assumes "cover_for addr s split cov" and "d \<in> set (cover_sections s)"
  shows "all_hold L w i (sec_list d) \<longleftrightarrow>
    (\<forall>c\<in>set (cov_items cov). con_role c = sec_role d \<longrightarrow> sat L w (con_formula c) i)"
proof -
  have len: "length (cov_items cov) = length (cover_parts split s)" using assms(1) by (simp add: cover_for_def)
  have f: "con_formula (cov_items cov ! j) = snd (cover_parts split s ! j)"
    "con_role (cov_items cov ! j) = sec_role (fst (cover_parts split s ! j))" if "j < length (cov_items cov)" for j
    using assms(1) that stored_fields unfolding cover_for_def by blast+
  show ?thesis unfolding part_of_section [OF assms(2), of L w i split] all_set_conv_all_nth len using f len by auto
qed

lemma section_lists:
  assumes "cover_for addr s split cov"
  shows "all_hold L w i (items (initially s)) \<longleftrightarrow> (\<forall>c\<in>set (cov_items cov). con_role c = TLSF_ROLE_INITIALLY \<longrightarrow> sat L w (con_formula c) i)" (is ?A)
    and "all_hold L w i (items (require s)) \<longleftrightarrow> (\<forall>c\<in>set (cov_items cov). con_role c = TLSF_ROLE_REQUIRE \<longrightarrow> sat L w (con_formula c) i)" (is ?B)
    and "all_hold L w i (items (assume_list s)) \<longleftrightarrow> (\<forall>c\<in>set (cov_items cov). con_role c = TLSF_ROLE_ASSUME \<longrightarrow> sat L w (con_formula c) i)" (is ?C)
    and "all_hold L w i (items (preset s)) \<longleftrightarrow> (\<forall>c\<in>set (cov_items cov). con_role c = TLSF_ROLE_PRESET \<longrightarrow> sat L w (con_formula c) i)" (is ?D)
    and "all_hold L w i (items (assert_list s)) \<longleftrightarrow> (\<forall>c\<in>set (cov_items cov). con_role c = TLSF_ROLE_ASSERT \<longrightarrow> sat L w (con_formula c) i)" (is ?E)
    and "all_hold L w i (items (guarantee s)) \<longleftrightarrow> (\<forall>c\<in>set (cov_items cov). con_role c = TLSF_ROLE_GUARANTEE \<longrightarrow> sat L w (con_formula c) i)" (is ?F)
proof -
  have "\<forall>d\<in>set (cover_sections s). all_hold L w i (sec_list d) \<longleftrightarrow>
      (\<forall>c\<in>set (cov_items cov). con_role c = sec_role d \<longrightarrow> sat L w (con_formula c) i)"
    using section_constraints [OF assms] by blast
  then show ?A ?B ?C ?D ?E ?F unfolding cover_sections_def list.set by simp_all
qed

lemma objective_lost:
  assumes c: "cover_for addr s split cov" "spec_ground s"
    and env: "\<forall>c\<in>set (cov_items cov). assumption_side c \<longrightarrow> (\<forall>n. sat \<infinity> w (con_formula c) n)"
    and sys: "c \<in> set (cov_items cov)" "guarantee_side c" "\<not> sat \<infinity> w (con_formula c) 0"
  shows "\<not> spec_objective s w"
proof -
  have e: "sat \<infinity> w (con_formula c) n" if "c \<in> set (cov_items cov)" "env_side (con_role c)" for c n
    using env cover_item(1) [OF c that(1)] that by blast
  have "\<not> env_side (con_role c)" using cover_item(2) [OF c sys(1)] sys(2) by simp
  then have "con_role c \<in> {TLSF_ROLE_PRESET, TLSF_ROLE_ASSERT, TLSF_ROLE_GUARANTEE}"
    by (cases "con_role c") (simp_all add: env_side_def)
  with sys(1,3) e show ?thesis
    unfolding spec_objective_def tlsf_meaning_def section_lists [OF c(1)] Let_def
    by (auto simp: env_side_def weak_until_def until_def alw_def)
qed

lemma objective_met:
  assumes c: "cover_for addr s split cov" "spec_ground s"
    and sys: "\<forall>c\<in>set (cov_items cov). guarantee_side c \<longrightarrow> (\<forall>n. sat \<infinity> w (con_formula c) n)"
  shows "spec_objective s w"
proof -
  have e: "sat \<infinity> w (con_formula c) n" if "c \<in> set (cov_items cov)" "\<not> env_side (con_role c)" for c n
    using sys cover_item(2) [OF c that(1)] that by blast
  then show ?thesis
    unfolding spec_objective_def tlsf_meaning_def section_lists [OF c(1)] Let_def
    by (auto simp: env_side_def weak_until_def alw_def)
qed

subsection \<open>Letters of a play\<close>

lemma letter_of_eq:
  assumes "distinct (names t)" and "\<And>i. i < length (names t) \<Longrightarrow> names t ! i \<in> l \<longleftrightarrow> \<rho> i"
  shows "l \<inter> set (names t) = letter_of t \<rho>"
  by (auto simp: letter_of_def in_set_conv_nth assms(2)) blast

lemma letter_of_names: "letter_of t \<rho> \<subseteq> set (names t)"
  by (auto simp: letter_of_def)

lemma in_letter_of: "distinct (names t) \<Longrightarrow> i < length (names t) \<Longrightarrow> names t ! i \<in> letter_of t \<rho> \<longleftrightarrow> \<rho> i"
  by (auto simp: letter_of_def nth_eq_iff_index_eq)

lemma output_aps_names:
  assumes "table_for addr s t" and "i < length (names t)"
  shows "i \<in> set (output_aps t) \<longleftrightarrow> names t ! i \<in> output_names s"
  using assms by (simp add: output_aps_def table_for_def outp_def)

lemma body_sat:
  assumes "step0_bool_body c = Some f" and "atoms f \<subseteq> set (names t)" and "w n \<inter> set (names t) = letter_of t \<rho>"
  shows "sat \<infinity> w f n \<longleftrightarrow> holds_in f (letter_of t \<rho>)"
  by (rule propositional_sat [OF step0_body(1) [OF assms(1)] assms(2)]) (use assms(3) letter_of_names in blast)

subsection \<open>The two verdicts\<close>

context oxidd_laws
begin

lemma trivially_unreal_letter:
  assumes v: "length (names (cov_aps cov)) \<le> vars"
    and t: "ap_table_ok addr (cov_aps cov)" and run: "precheck_trivially_unreal B new addr cov"
  shows "(\<forall>c\<in>set (cov_items cov). assumption_side c \<longrightarrow> step0_bool_body c \<noteq> None) \<and>
    (\<forall>f\<in>bodies True (cov_items cov) \<union> bodies False (cov_items cov). atoms f \<subseteq> set (names (cov_aps cov))) \<and>
    (\<exists>\<rho>. \<forall>\<sigma>. (\<forall>i. i \<notin> set (output_aps (cov_aps cov)) \<longrightarrow> \<sigma> i = \<rho> i) \<longrightarrow>
       all_in (bodies False (cov_items cov)) (letter_of (cov_aps cov) \<sigma>) \<and>
       \<not> all_in (bodies True (cov_items cov)) (letter_of (cov_aps cov) \<sigma>))"
proof -
  let ?t = "cov_aps cov" and ?cs = "cov_items cov"
  let ?N = "\<forall>f\<in>bodies True ?cs \<union> bodies False ?cs. atoms f \<subseteq> set (names ?t)"
  let ?W = "\<exists>\<rho>. \<forall>\<sigma>. (\<forall>i. i \<notin> set (output_aps ?t) \<longrightarrow> \<sigma> i = \<rho> i) \<longrightarrow>
       all_in (bodies False ?cs) (letter_of ?t \<sigma>) \<and> \<not> all_in (bodies True ?cs) (letter_of ?t \<sigma>)"
  have "post (do {
      g \<leftarrow> ext (ox_true B);
      a \<leftarrow> ext (ox_true B);
      (g, a, bail) \<leftarrow> conjoin_bodies B addr ?t ?cs (g, a, False);
      if bail \<or> g = None \<or> a = None then State_Monad.return False else environment_wins B ?t g a })
    (\<lambda>r _. r \<longrightarrow> ?N \<and> ?W) s" for s
  proof (rule post_bind, rule post_true, rule post_bind, rule post_true, rule post_bind,
      rule post_conjoin [OF t v, where F = "{}" and E = "{}"], unfold prod.case)
    fix g a and b s' assume j: "\<not> b \<Longrightarrow> \<not> False \<and> ?N \<and> means den g (\<lambda>\<rho>. all_in ({} \<union> bodies True ?cs) (letter_of ?t \<rho>)) \<and>
      means den a (\<lambda>\<rho>. all_in ({} \<union> bodies False ?cs) (letter_of ?t \<rho>))"
    show "post (if b \<or> g = None \<or> a = None then State_Monad.return False else environment_wins B ?t g a) (\<lambda>r _. r \<longrightarrow> ?N \<and> ?W) s'"
    proof (cases "b \<or> g = None \<or> a = None")
      case False
      then have m: "?N" "means den g (\<lambda>\<rho>. all_in (bodies True ?cs) (letter_of ?t \<rho>))"
        "means den a (\<lambda>\<rho>. all_in (bodies False ?cs) (letter_of ?t \<rho>))" using j by auto
      show ?thesis unfolding if_not_P [OF False]
        by (rule post_environment_wins [OF v m(2,3)]) (use m(1) in blast)
    qed (auto intro: post_return)
  qed (simp add: all_in_def)
  then have p: "fst (run_state (do {
      g \<leftarrow> ext (ox_true B);
      a \<leftarrow> ext (ox_true B);
      (g, a, bail) \<leftarrow> conjoin_bodies B addr ?t ?cs (g, a, False);
      if bail \<or> g = None \<or> a = None then State_Monad.return False else environment_wins B ?t g a }) s) \<Longrightarrow> ?N \<and> ?W" for s
    by (simp only: post_def split_beta) blast
  from run obtain s where s: "fresh_manager new (length (names ?t)) = Some s"
    by (auto simp: precheck_trivially_unreal_def Let_def split: if_splits option.splits)
  have b: "\<forall>c\<in>set ?cs. assumption_side c \<longrightarrow> step0_bool_body c \<noteq> None"
    using run by (auto simp: precheck_trivially_unreal_def Let_def list_ex_iff split: if_splits)
  from run have "?N \<and> ?W"
    unfolding precheck_trivially_unreal_def Let_def s option.case by (intro p) (simp only: if_False split: if_splits)
  with b show ?thesis by blast
qed

lemma trivially_real_letter:
  assumes v: "length (names (cov_aps cov)) \<le> vars"
    and t: "ap_table_ok addr (cov_aps cov)" and run: "precheck_trivially_real B new addr cov"
  shows "(\<forall>c\<in>set (cov_items cov). guarantee_side c \<longrightarrow> step0_bool_body c \<noteq> None) \<and>
    (\<forall>f\<in>bodies True (cov_items cov). atoms f \<subseteq> set (names (cov_aps cov))) \<and>
    (\<forall>\<rho>. \<exists>\<sigma>. (\<forall>i. i \<notin> set (output_aps (cov_aps cov)) \<longrightarrow> \<sigma> i = \<rho> i) \<and>
       all_in (bodies True (cov_items cov)) (letter_of (cov_aps cov) \<sigma>))"
proof -
  let ?t = "cov_aps cov" and ?cs = "cov_items cov" and ?gs = "filter guarantee_side (cov_items cov)"
  let ?N = "\<forall>f\<in>bodies True ?cs. atoms f \<subseteq> set (names ?t)"
  let ?W = "\<forall>\<rho>. \<exists>\<sigma>. (\<forall>i. i \<notin> set (output_aps ?t) \<longrightarrow> \<sigma> i = \<rho> i) \<and> all_in (bodies True ?cs) (letter_of ?t \<sigma>)"
  have gs: "bodies True ?gs = bodies True ?cs" by (auto simp: bodies_def)
  have "post (do {
      g \<leftarrow> ext (ox_true B);
      (g, a, bail) \<leftarrow> conjoin_bodies B addr ?t ?gs (g, None, False);
      if bail \<or> g = None then State_Monad.return False else controller_exists B ?t g })
    (\<lambda>r _. r \<longrightarrow> ?N \<and> ?W) s" for s
  proof (rule post_bind, rule post_true, rule post_bind,
      rule post_conjoin [OF t v, where F = "{}" and E = "{}"], unfold prod.case)
    fix g a and b s' assume j: "\<not> b \<Longrightarrow> \<not> False \<and> (\<forall>f\<in>bodies True ?gs \<union> bodies False ?gs. atoms f \<subseteq> set (names ?t)) \<and>
      means den g (\<lambda>\<rho>. all_in ({} \<union> bodies True ?gs) (letter_of ?t \<rho>)) \<and>
      means den a (\<lambda>\<rho>. all_in ({} \<union> bodies False ?gs) (letter_of ?t \<rho>))"
    show "post (if b \<or> g = None then State_Monad.return False else controller_exists B ?t g) (\<lambda>r _. r \<longrightarrow> ?N \<and> ?W) s'"
    proof (cases "b \<or> g = None")
      case False
      then have m: "?N" "means den g (\<lambda>\<rho>. all_in (bodies True ?cs) (letter_of ?t \<rho>))" using j gs by auto
      show ?thesis unfolding if_not_P [OF False]
        by (rule post_controller_exists [OF v m(2)]) (use m(1) in blast)
    qed (auto intro: post_return)
  qed (simp add: all_in_def)
  then have p: "fst (run_state (do {
      g \<leftarrow> ext (ox_true B);
      (g, a, bail) \<leftarrow> conjoin_bodies B addr ?t ?gs (g, None, False);
      if bail \<or> g = None then State_Monad.return False else controller_exists B ?t g }) s) \<Longrightarrow> ?N \<and> ?W" for s
    by (simp only: post_def split_beta) blast
  from run obtain s where s: "fresh_manager new (length (names ?t)) = Some s"
    by (auto simp: precheck_trivially_real_def Let_def split: if_splits option.splits)
  have b: "\<forall>c\<in>set ?cs. guarantee_side c \<longrightarrow> step0_bool_body c \<noteq> None"
    using run by (auto simp: precheck_trivially_real_def Let_def list_ex_iff split: if_splits)
  from run have "?N \<and> ?W"
    unfolding precheck_trivially_real_def Let_def s option.case by (intro p) (simp only: if_False split: if_splits)
  with b show ?thesis by blast
qed

end

lemma unreal_play:
  assumes B: "oxidd_laws B den vars" and v: "length (names (cov_aps cov)) \<le> vars"
    and c: "cover_for addr s split cov" "spec_ground s" and run: "precheck_trivially_unreal B new addr cov"
  shows "\<exists>x. \<forall>\<sigma>. \<not> spec_objective s (play moore (output_names s) \<sigma> x)"
proof -
  let ?t = "cov_aps cov" and ?cs = "cov_items cov" and ?O = "output_names s"
  have tab: "table_for addr s ?t" using c(1) by (simp add: cover_for_def)
  then have ok: "ap_table_ok addr ?t" and d: "distinct (names ?t)" by (simp_all add: table_for_def ap_table_ok_def)
  note u = oxidd_laws.trivially_unreal_letter [OF B v ok run]
  note u1 = conjunct1 [OF u] and u2 = conjunct1 [OF conjunct2 [OF u]]
  obtain \<rho> where "\<forall>\<sigma>. (\<forall>i. i \<notin> set (output_aps ?t) \<longrightarrow> \<sigma> i = \<rho> i) \<longrightarrow>
      all_in (bodies False ?cs) (letter_of ?t \<sigma>) \<and> \<not> all_in (bodies True ?cs) (letter_of ?t \<sigma>)"
    by (rule exE [OF conjunct2 [OF conjunct2 [OF u]]])
  note \<rho> = this [rule_format]
  have "\<not> spec_objective s (play moore ?O \<sigma> (\<lambda>_. letter_of ?t \<rho>))" for \<sigma>
  proof -
    let ?w = "play moore ?O \<sigma> (\<lambda>_. letter_of ?t \<rho>)"
    define \<tau> where "\<tau> n i = (if i \<in> set (output_aps ?t) then names ?t ! i \<in> ?w n else \<rho> i)" for n i
    have letter: "?w n \<inter> set (names ?t) = letter_of ?t (\<tau> n)" for n
    proof (rule letter_of_eq [OF d])
      fix i assume i: "i < length (names ?t)"
      show "names ?t ! i \<in> ?w n \<longleftrightarrow> \<tau> n i"
        using output_aps_names [OF tab i] in_letter_of [OF d i, of \<rho>] by (simp add: \<tau>_def play_def)
    qed
    have win: "all_in (bodies False ?cs) (letter_of ?t (\<tau> n))" "\<not> all_in (bodies True ?cs) (letter_of ?t (\<tau> n))" for n
      using \<rho> [of "\<tau> n"] by (simp_all add: \<tau>_def)
    have at: "atoms f \<subseteq> set (names ?t)" if "f \<in> bodies True ?cs \<union> bodies False ?cs" for f using u2 that by blast
    have env: "\<forall>c\<in>set ?cs. assumption_side c \<longrightarrow> (\<forall>n. sat \<infinity> ?w (con_formula c) n)"
    proof (intro ballI impI allI)
      fix e n assume e: "e \<in> set ?cs" "assumption_side e"
      then obtain f where f: "step0_bool_body e = Some f" using u1 by blast
      have "f \<in> bodies False ?cs"
        using e f cover_item(1,2) [OF c e(1)] by (auto simp: bodies_def)
      then have "sat \<infinity> ?w f m" for m
        using body_sat [OF f at letter] win(1) by (simp add: all_in_def)
      then show "sat \<infinity> ?w (con_formula e) n" using step0_body(4) [OF f] by blast
    qed
    from win(2) [of 0] obtain f where f: "f \<in> bodies True ?cs" "\<not> holds_in f (letter_of ?t (\<tau> 0))" by (auto simp: all_in_def)
    then obtain g where g: "g \<in> set ?cs" "step0_bool_body g = Some f" "guarantee_side g" by (auto simp: bodies_def)
    have "\<not> sat \<infinity> ?w f 0" using body_sat [OF g(2) at letter] f by simp
    then have "\<not> sat \<infinity> ?w (con_formula g) 0" using step0_body(3) [OF g(2)] by blast
    then show ?thesis by (rule objective_lost [OF c env g(1,3)])
  qed
  then show ?thesis by blast
qed

lemma real_play:
  assumes B: "oxidd_laws B den vars" and v: "length (names (cov_aps cov)) \<le> vars"
    and c: "cover_for addr s split cov" "spec_ground s" and run: "precheck_trivially_real B new addr cov"
  shows "realizable False (output_names s) (spec_objective s)"
proof -
  let ?t = "cov_aps cov" and ?cs = "cov_items cov" and ?O = "output_names s"
  have tab: "table_for addr s ?t" using c(1) by (simp add: cover_for_def)
  then have ok: "ap_table_ok addr ?t" and d: "distinct (names ?t)" by (simp_all add: table_for_def ap_table_ok_def)
  note u = oxidd_laws.trivially_real_letter [OF B v ok run]
  note u1 = conjunct1 [OF u] and u2 = conjunct1 [OF conjunct2 [OF u]]
  obtain ctrl where "\<forall>\<rho>. (\<forall>i. i \<notin> set (output_aps ?t) \<longrightarrow> ctrl \<rho> i = \<rho> i) \<and>
      all_in (bodies True ?cs) (letter_of ?t (ctrl \<rho>))"
    by (rule exE [OF choice [OF conjunct2 [OF conjunct2 [OF u]]]])
  then have ctrl: "\<And>\<rho> i. i \<notin> set (output_aps ?t) \<Longrightarrow> ctrl \<rho> i = \<rho> i"
    "\<And>\<rho>. all_in (bodies True ?cs) (letter_of ?t (ctrl \<rho>))" by simp_all
  define \<sigma> where "\<sigma> h = letter_of ?t (ctrl (\<lambda>i. names ?t ! i \<in> last h))" for h
  have "spec_objective s (play False ?O \<sigma> x)" for x
  proof (rule objective_met [OF c], intro ballI impI allI)
    let ?w = "play False ?O \<sigma> x"
    fix g n assume g: "g \<in> set ?cs" "guarantee_side g"
    then obtain f where f: "step0_bool_body g = Some f" using u1 by blast
    have fb: "f \<in> bodies True ?cs" using g f by (auto simp: bodies_def)
    then have at: "atoms f \<subseteq> set (names ?t)" using u2 by blast
    have letter: "?w m \<inter> set (names ?t) = letter_of ?t (ctrl (\<lambda>i. names ?t ! i \<in> x m - ?O))" for m
    proof (rule letter_of_eq [OF d])
      fix i assume i: "i < length (names ?t)"
      let ?\<rho> = "\<lambda>i. names ?t ! i \<in> x m - ?O"
      have "last (seen_inputs False ?O x m) = x m - ?O" by (simp add: seen_inputs_def)
      then have "\<sigma> (seen_inputs False ?O x m) = letter_of ?t (ctrl ?\<rho>)" by (simp add: \<sigma>_def)
      then have w: "names ?t ! i \<in> ?w m \<longleftrightarrow> (if names ?t ! i \<in> ?O then ctrl ?\<rho> i else names ?t ! i \<in> x m)"
        by (simp add: play_def in_letter_of [OF d i])
      show "names ?t ! i \<in> ?w m \<longleftrightarrow> ctrl ?\<rho> i"
        unfolding w using output_aps_names [OF tab i] ctrl(1) [of i ?\<rho>] by (cases "names ?t ! i \<in> ?O") simp_all
    qed
    have "sat \<infinity> ?w f m" for m using body_sat [OF f at letter] ctrl(2) fb by (simp add: all_in_def)
    then show "sat \<infinity> ?w (con_formula g) n" using step0_body(4) [OF f] by blast
  qed
  then show ?thesis unfolding realizable_def by blast
qed

subsection \<open>An example\<close>

text \<open>No controller keeps an input low.\<close>

lemma lone_filter: "distinct xs \<Longrightarrow> set (filter P xs) = {x} \<Longrightarrow> filter P xs = [x]"
proof -
  assume d: "distinct xs" and e: "set (filter P xs) = {x}"
  then have "length (filter P xs) = 1" using distinct_card [of "filter P xs"] by simp
  then obtain y where "filter P xs = [y]" by (auto simp: length_Suc_conv)
  with e show ?thesis by auto
qed

lemma run_simps: "run_state (State_Monad.return x) s = (x, s)"
  "run_state (c \<bind> f) s = (case run_state c s of (r, t) \<Rightarrow> run_state (f r) t)"
  "run_state (ext g) s = (case g (world s) of (r, w) \<Rightarrow> (r, s\<lparr>world := w\<rparr>))"
  by (simp_all add: State_Monad.return_def ext_def)

lemmas tree_simps = tree_library_def lift1_def lift2_def with_cube_def tree_sat_handle_def tree_not_def tree_and_def tree_or_def
  mk_node_def exists_cube_def

lemma low_input_verdict:
  assumes "cover_for (\<lambda>_. 3) (sample_spec [node_g (node_not (NodeAp ''r''))]) False cov"
  shows "fst (fill_verdict tree_library (\<lambda>_. Some ()) (\<lambda>_. 3) cov) = VERDICT_UNREALIZABLE" and "length (names (cov_aps cov)) = 2"
proof -
  let ?f = "node_not (NodeAp ''r'')"
  let ?s = "sample_spec [node_g ?f]" and ?t = "cov_aps cov"
  have tab: "table_for (\<lambda>_. 3) ?s ?t" using assms by (simp add: cover_for_def)
  then have t: "ap_table_ok (\<lambda>_. 3) ?t" "set (names ?t) = {''r'', ''g''}" "distinct (names ?t)"
    by (auto simp: table_for_def ap_table_ok_def set_alphabet_list sample_spec_simps)
  from distinct_card [OF t(3)] t(2) show len: "length (names ?t) = 2" by simp
  from t(2) obtain i j where i: "i < length (names ?t)" "names ?t ! i = ''g''" and j: "j < length (names ?t)" "names ?t ! j = ''r''"
    by (metis in_set_conv_nth insertCI)
  have find: "ap_table_find (\<lambda>_. 3) ?t ''r'' = Some (Some j)"
    using ap_table_find_ok [OF t(1)] index_of_nth [OF t(3) j(1)] j(2) by simp
  have "set (output_aps ?t) = {i}"
    using output_aps_names [OF tab] i nth_eq_iff_index_eq [OF t(3) _ i(1)] by (auto simp: output_aps_def sample_spec_simps)
  then have out: "output_aps ?t = [i]" unfolding output_aps_def by (intro lone_filter) simp_all
  have part: "partitioned ?t"
    unfolding partitioned_def list_all_length
  proof (intro allI impI)
    fix n assume n: "n < length (take (length (names ?t)) (flags ?t))"
    then have "names ?t ! n \<in> {''r'', ''g''}" using t(2) nth_mem [of n "names ?t"] by simp
    with tab n show "(take (length (names ?t)) (flags ?t) ! n AND AP_FLAG_INPUT \<noteq> 0) \<noteq>
        (take (length (names ?t)) (flags ?t) ! n AND AP_FLAG_OUTPUT \<noteq> 0)"
      by (auto simp: table_for_def outp_def sample_spec_simps)
  qed
  have parts: "cover_parts False ?s = [(\<lparr>sec_role = TLSF_ROLE_GUARANTEE, sec_assumption = False, sec_invariant = False,
      sec_list = [node_g ?f]\<rparr>, node_g ?f)]"
    by (simp add: cover_parts_def cover_sections_def sample_spec_def spec_new_def empty_growable_def)
  from assms parts obtain c where c: "cov_items cov = [c]" "stored False 0 (cover_parts False ?s ! 0) c"
    by (auto simp: cover_for_def sample_spec_simps semantics_is_finite_def length_Suc_conv)
  then have con: "con_formula c = node_g ?f" "\<not> assumption_side c" "guarantee_side c" "\<not> invariant_wrapped c"
    using stored_fields [of False 0 "cover_parts False ?s ! 0" c] by (simp_all add: parts)
  have body: "step0_bool_body c = Some ?f" by (simp add: step0_bool_body_def con Let_def)
  have ij: "i \<noteq> j" using i(2) j(2) by auto
  have ne: "names ?t \<noteq> []" using len by auto
  have sp: "cov_spec cov = ?s" using assms by (simp add: cover_for_def)
  show "fst (fill_verdict tree_library (\<lambda>_. Some ()) (\<lambda>_. 3) cov) = VERDICT_UNREALIZABLE"
    using ij by (simp add: fill_verdict_def precheck_trivially_unreal_def Let_def c(1) con body part ne sp fresh_manager_def
        find out environment_wins_def cube_of_def run_simps tree_simps semantics_is_finite_def sample_spec_simps
        split del: if_split)
qed

subsection \<open>Properties\<close>

text \<open>C10. The early verdicts are right.  When \<open>fill_verdict\<close> calls a cover unrealizable, no controller
  of the specification's game meets its objective, when it calls it realizable, some controller
  does, whatever the library of diagrams, as long as it follows its documentation and takes
  a variable for each signal.\<close>

theorem fill_verdict_sound:
  assumes "oxidd_laws B den vars" and "spec_ground s"
    and "length (cover_parts split s) \<le> 2 ^ 31" and "card (set (alphabet_list s)) < 2 ^ 30"
    and "cover_build addr s split = Some cov" and "length (names (cov_aps cov)) \<le> vars"
  shows "case fst (fill_verdict B new addr cov) of
      VERDICT_UNKNOWN \<Rightarrow> True
    | VERDICT_REALIZABLE \<Rightarrow> realizable (semantics_is_moore (spec_semantics s)) (output_names s) (spec_objective s)
    | VERDICT_UNREALIZABLE \<Rightarrow> \<not> realizable (semantics_is_moore (spec_semantics s)) (output_names s) (spec_objective s)"
proof -
  have c: "cover_for addr s split cov" by (rule cover_for_build [OF assms(2-5)])
  then have s: "cov_spec cov = s" by (simp add: cover_for_def)
  have "\<not> realizable moore (output_names s) (spec_objective s)" if "precheck_trivially_unreal B new addr cov" for moore
    using unreal_play [OF assms(1,6) c assms(2) that, of moore] unfolding realizable_def by blast
  moreover have "realizable (semantics_is_moore (spec_semantics s)) (output_names s) (spec_objective s)"
    if r: "precheck_trivially_real B new addr cov"
  proof -
    have "\<not> semantics_is_moore (spec_semantics s)" using r s by (auto simp: precheck_trivially_real_def Let_def split: if_splits)
    then show ?thesis using real_play [OF assms(1,6) c assms(2) r] by simp
  qed
  ultimately show ?thesis by (simp add: fill_verdict_def)
qed

theorem fill_verdict_sound_witness:
  "\<exists>cov. cover_build (\<lambda>_. 3) (sample_spec [node_g (node_not (NodeAp ''r''))]) False = Some cov \<and>
     fst (fill_verdict tree_library (\<lambda>_. Some ()) (\<lambda>_. 3) cov) = VERDICT_UNREALIZABLE \<and>
     \<not> realizable False {''g''} (spec_objective (sample_spec [node_g (node_not (NodeAp ''r''))]))"
proof -
  let ?s = "sample_spec [node_g (node_not (NodeAp ''r''))]"
  have ok: "spec_ground ?s" "length (cover_parts False ?s) \<le> 2 ^ 31" "card (set (alphabet_list ?s)) < 2 ^ 30"
    by (rule sample_spec_cover; simp)+
  from cover_build_ok [OF ok, of "\<lambda>_. 3"] obtain cov where
    cov: "cover_build (\<lambda>_. 3) ?s False = Some cov" "cover_for (\<lambda>_. 3) ?s False cov" by blast
  from fill_verdict_sound [OF trees.oxidd_laws_axioms ok cov(1), of 2 "\<lambda>_. Some ()"] low_input_verdict [OF cov(2)]
  have "\<not> realizable False {''g''} (spec_objective ?s)" by (simp add: sample_spec_simps semantics_is_moore_def)
  with cov(1) low_input_verdict(1) [OF cov(2)] show ?thesis by blast
qed

end
