(* ===== verification/Aiger.thy ===== *)
theory Aiger
  imports Ast Decimal
begin

text \<open>
  And-inverter graphs, \<^verbatim>\<open>include/tlsf/aiger.h\<close> and \<^verbatim>\<open>src/lib/aiger.c\<close>: the graph with its inputs,
  latches, gates, outputs and typed properties, the builders, the compilation of Boolean formulas,
  the merge of two graphs by signal names, and the sampling of acceptance literals.  Literals and
  variables are 32-bit words with their wrap-around.  Allocation failure aborts the program; the
  arrays are lists.  An access outside an array is \<^const>\<open>None\<close>.
\<close>

unbundle bit_operations_syntax

subsection \<open>The graph\<close>

record aig_in =
  in_name :: "string option"
  in_var :: u32

record latch =
  lat_var :: u32
  lat_next :: u32
  lat_reset :: u32
  lat_name :: "string option"

record gate =
  g_var :: u32
  g_r0 :: u32
  g_r1 :: u32

record named =
  n_name :: "string option"
  n_lit :: u32

record justice =
  j_name :: "string option"
  j_lits :: "u32 list"

record aig =
  nextvar :: u32
  aig_ins :: "aig_in list"
  aig_lats :: "latch list"
  aig_ands :: "gate list"
  aig_outs :: "named list"
  aig_bads :: "named list"
  aig_cons :: "named list"
  aig_sigs :: "named list"
  aig_justs :: "justice list"
  aig_fairs :: "named list"

definition AIG_FALSE :: u32 where "AIG_FALSE = 0"
definition AIG_TRUE :: u32 where "AIG_TRUE = 1"
definition NO_LIT :: u32 where "NO_LIT = - 1"

definition aig_new :: aig where
  "aig_new = \<lparr>nextvar = 0, aig_ins = [], aig_lats = [], aig_ands = [], aig_outs = [], aig_bads = [],
     aig_cons = [], aig_sigs = [], aig_justs = [], aig_fairs = []\<rparr>"

subsection \<open>Signals\<close>

definition reg_sig :: "aig \<Rightarrow> string option \<Rightarrow> u32 \<Rightarrow> aig" where
  "reg_sig g name lit =
     (if name = None then g else g\<lparr>aig_sigs := aig_sigs g @ [\<lparr>n_name = name, n_lit = lit\<rparr>]\<rparr>)"

definition aig_lookup :: "aig \<Rightarrow> string option \<Rightarrow> u32" where
  "aig_lookup g name =
     (if name = None then NO_LIT
      else case find (\<lambda>s. n_name s = name) (aig_sigs g) of Some s \<Rightarrow> n_lit s | None \<Rightarrow> NO_LIT)"

definition aig_has_output :: "aig \<Rightarrow> string option \<Rightarrow> bool" where
  "aig_has_output g name = (name \<noteq> None \<and> list_ex (\<lambda>s. n_name s = name) (aig_outs g))"

definition aig_output_lit :: "aig \<Rightarrow> string option \<Rightarrow> u32" where
  "aig_output_lit g name =
     (if name = None then NO_LIT
      else case find (\<lambda>s. n_name s = name) (aig_outs g) of Some s \<Rightarrow> n_lit s | None \<Rightarrow> NO_LIT)"

subsection \<open>Builders\<close>

definition aig_input :: "aig \<Rightarrow> string \<Rightarrow> aig \<times> u32" where
  "aig_input g name =
     (let v = nextvar g + 1; lit = v * 2;
          g = g\<lparr>nextvar := v, aig_ins := aig_ins g @ [\<lparr>in_name = Some name, in_var = v\<rparr>]\<rparr>
      in (reg_sig g (Some name) lit, lit))"

definition aig_latch_named :: "aig \<Rightarrow> u32 \<Rightarrow> u32 \<Rightarrow> string option \<Rightarrow> aig \<times> u32" where
  "aig_latch_named g nxt reset name =
     (let v = nextvar g + 1 in
      (g\<lparr>nextvar := v, aig_lats := aig_lats g @
           [\<lparr>lat_var = v, lat_next = nxt, lat_reset = reset, lat_name = name\<rparr>]\<rparr>, v * 2))"

definition aig_latch :: "aig \<Rightarrow> u32 \<Rightarrow> u32 \<Rightarrow> aig \<times> u32" where
  "aig_latch g nxt reset = aig_latch_named g nxt reset None"

fun update_first :: "('a \<Rightarrow> bool) \<Rightarrow> ('a \<Rightarrow> 'a) \<Rightarrow> 'a list \<Rightarrow> 'a list option" where
  "update_first P f [] = None"
| "update_first P f (x # xs) = (if P x then Some (f x # xs) else map_option ((#) x) (update_first P f xs))"

definition aig_set_latch_next :: "aig \<Rightarrow> u32 \<Rightarrow> u32 \<Rightarrow> aig \<times> bool" where
  "aig_set_latch_next g lit nxt =
     (if lit < 2 \<or> lit AND 1 \<noteq> 0 then (g, False)
      else case update_first (\<lambda>l. lat_var l = lit div 2) (\<lambda>l. l\<lparr>lat_next := nxt\<rparr>) (aig_lats g) of
             Some ls \<Rightarrow> (g\<lparr>aig_lats := ls\<rparr>, True)
           | None \<Rightarrow> (g, False))"

definition aig_not :: "u32 \<Rightarrow> u32" where
  "aig_not lit = lit XOR 1"

definition aig_and :: "aig \<Rightarrow> u32 \<Rightarrow> u32 \<Rightarrow> aig \<times> u32" where
  "aig_and g a b =
     (if a = AIG_FALSE \<or> b = AIG_FALSE then (g, AIG_FALSE)
      else if a = AIG_TRUE then (g, b)
      else if b = AIG_TRUE then (g, a)
      else if a = b then (g, a)
      else if a = b XOR 1 then (g, AIG_FALSE)
      else let v = nextvar g + 1 in
           (g\<lparr>nextvar := v, aig_ands := aig_ands g @ [\<lparr>g_var = v, g_r0 = a, g_r1 = b\<rparr>]\<rparr>, v * 2))"

definition aig_or :: "aig \<Rightarrow> u32 \<Rightarrow> u32 \<Rightarrow> aig \<times> u32" where
  "aig_or g a b = (case aig_and g (aig_not a) (aig_not b) of (g', l) \<Rightarrow> (g', aig_not l))"

definition aig_set_output :: "aig \<Rightarrow> string option \<Rightarrow> u32 \<Rightarrow> aig" where
  "aig_set_output g name lit =
     reg_sig (g\<lparr>aig_outs := aig_outs g @ [\<lparr>n_name = name, n_lit = lit\<rparr>]\<rparr>) name lit"

definition aig_add_bad :: "aig \<Rightarrow> u32 \<Rightarrow> string option \<Rightarrow> aig" where
  "aig_add_bad g lit name = g\<lparr>aig_bads := aig_bads g @ [\<lparr>n_name = name, n_lit = lit\<rparr>]\<rparr>"

definition aig_add_constraint :: "aig \<Rightarrow> u32 \<Rightarrow> string option \<Rightarrow> aig" where
  "aig_add_constraint g lit name = g\<lparr>aig_cons := aig_cons g @ [\<lparr>n_name = name, n_lit = lit\<rparr>]\<rparr>"

definition aig_add_justice :: "aig \<Rightarrow> u32 list \<Rightarrow> string option \<Rightarrow> aig" where
  "aig_add_justice g lits name = g\<lparr>aig_justs := aig_justs g @ [\<lparr>j_name = name, j_lits = lits\<rparr>]\<rparr>"

definition aig_add_fairness :: "aig \<Rightarrow> u32 \<Rightarrow> string option \<Rightarrow> aig" where
  "aig_add_fairness g lit name = g\<lparr>aig_fairs := aig_fairs g @ [\<lparr>n_name = name, n_lit = lit\<rparr>]\<rparr>"

definition aig_remove_output :: "aig \<Rightarrow> string option \<Rightarrow> aig" where
  "aig_remove_output g name =
     (if name = None then g else g\<lparr>aig_outs := filter (\<lambda>s. n_name s \<noteq> name) (aig_outs g)\<rparr>)"

definition starts_with :: "string \<Rightarrow> string \<Rightarrow> bool" where
  "starts_with p s \<longleftrightarrow> take (length p) s = p"

fun strip_outputs :: "string \<Rightarrow> named list \<Rightarrow> aig \<Rightarrow> named list \<times> aig" where
  "strip_outputs p [] g = ([], g)"
| "strip_outputs p (s # ss) g =
     (case n_name s of
        None \<Rightarrow> apfst ((#) s) (strip_outputs p ss g)
      | Some n \<Rightarrow> if \<not> starts_with p n then apfst ((#) s) (strip_outputs p ss g)
                 else (let s' = s\<lparr>n_name := Some (drop (length p) n)\<rparr> in
                       apfst ((#) s') (strip_outputs p ss (reg_sig g (n_name s') (n_lit s)))))"

definition aig_strip_output_prefix :: "aig \<Rightarrow> string \<Rightarrow> aig" where
  "aig_strip_output_prefix g p =
     (case strip_outputs p (aig_outs g) g of (os, g') \<Rightarrow> g'\<lparr>aig_outs := os\<rparr>)"

definition rename_in :: "string \<Rightarrow> string \<Rightarrow> string option \<Rightarrow> string option" where
  "rename_in src dst slot = (if slot = Some src then Some dst else slot)"

definition aig_rename_signal :: "aig \<Rightarrow> string \<Rightarrow> string \<Rightarrow> aig" where
  "aig_rename_signal g src dst =
     (if src = dst then g
      else g\<lparr>aig_ins := map (\<lambda>i. i\<lparr>in_name := rename_in src dst (in_name i)\<rparr>) (aig_ins g),
             aig_outs := map (\<lambda>s. s\<lparr>n_name := rename_in src dst (n_name s)\<rparr>) (aig_outs g),
             aig_sigs := map (\<lambda>s. s\<lparr>n_name := rename_in src dst (n_name s)\<rparr>) (aig_sigs g)\<rparr>)"

subsection \<open>Compiling a Boolean formula\<close>

text \<open>Both sides are compiled before either failure is looked at.\<close>

definition aig_join :: "bin_kind \<Rightarrow> aig \<Rightarrow> u32 \<Rightarrow> u32 \<Rightarrow> aig \<times> u32" where
  "aig_join k g a b =
     (case k of
        NODE_AND \<Rightarrow> aig_and g a b
      | NODE_OR \<Rightarrow> aig_or g a b
      | NODE_IMPL \<Rightarrow> aig_or g (aig_not a) b
      | _ \<Rightarrow> (case aig_or g (aig_not a) b of (g, e0) \<Rightarrow>
               case aig_or g a (aig_not b) of (g, e1) \<Rightarrow> aig_and g e0 e1))"

fun aig_compile :: "aig \<Rightarrow> node \<Rightarrow> aig \<times> u32" where
  "aig_compile g NodeTrue = (g, AIG_TRUE)"
| "aig_compile g NodeFalse = (g, AIG_FALSE)"
| "aig_compile g (NodeAp p) = (g, aig_lookup g (Some p))"
| "aig_compile g (Unary k n) =
     (if k = NODE_NOT
      then case aig_compile g n of (g', a) \<Rightarrow> (g', if a = NO_LIT then a else aig_not a)
      else (g, NO_LIT))"
| "aig_compile g (Binary k l r) =
     (if k \<in> {NODE_AND, NODE_OR, NODE_IMPL, NODE_EQUIV}
      then case aig_compile g l of (g1, a) \<Rightarrow>
           case aig_compile g1 r of (g2, b) \<Rightarrow>
             if a = NO_LIT \<or> b = NO_LIT then (g2, NO_LIT) else aig_join k g2 a b
      else (g, NO_LIT))"
| "aig_compile g n = (g, NO_LIT)"

subsection \<open>Merging\<close>

text \<open>The variable map is an array of \<^verbatim>\<open>src->nextvar + 1\<close> entries, all zero at first.\<close>

definition array_set :: "'a list \<Rightarrow> u32 \<Rightarrow> 'a \<Rightarrow> 'a list option" where
  "array_set xs v x = (if unat v < length xs then Some (xs[unat v := x]) else None)"

definition array_get :: "'a list \<Rightarrow> u32 \<Rightarrow> 'a option" where
  "array_get xs v = (if unat v < length xs then Some (xs ! unat v) else None)"

definition remap :: "u32 list \<Rightarrow> u32 \<Rightarrow> u32 option" where
  "remap vmap lit =
     (if lit < 2 then Some lit
      else do { v \<leftarrow> array_get vmap (lit div 2); Some (v * 2 OR (lit AND 1)) })"

fun map_inputs :: "aig \<Rightarrow> aig_in list \<Rightarrow> u32 list \<Rightarrow> u32 list option option" where
  "map_inputs dst [] vmap = Some (Some vmap)"
| "map_inputs dst (i # is) vmap =
     (let dl = aig_lookup dst (in_name i) in
      if dl = NO_LIT then Some None
      else do { vmap' \<leftarrow> array_set vmap (in_var i) (dl div 2); map_inputs dst is vmap' })"

fun fresh_vars :: "u32 list \<Rightarrow> u32 \<Rightarrow> u32 list \<Rightarrow> (u32 list \<times> u32) option" where
  "fresh_vars [] n vmap = Some (vmap, n)"
| "fresh_vars (v # vs) n vmap =
     do { vmap' \<leftarrow> array_set vmap v (n + 1); fresh_vars vs (n + 1) vmap' }"

fun traverse :: "('a \<Rightarrow> 'b option) \<Rightarrow> 'a list \<Rightarrow> 'b list option" where
  "traverse f [] = Some []"
| "traverse f (x # xs) = do { y \<leftarrow> f x; ys \<leftarrow> traverse f xs; Some (y # ys) }"

definition remap_latch :: "u32 list \<Rightarrow> latch \<Rightarrow> latch option" where
  "remap_latch vmap l =
     do { v \<leftarrow> array_get vmap (lat_var l); n \<leftarrow> remap vmap (lat_next l);
          Some (l\<lparr>lat_var := v, lat_next := n\<rparr>) }"

definition remap_gate :: "u32 list \<Rightarrow> gate \<Rightarrow> gate option" where
  "remap_gate vmap a =
     do { v \<leftarrow> array_get vmap (g_var a); r0 \<leftarrow> remap vmap (g_r0 a); r1 \<leftarrow> remap vmap (g_r1 a);
          Some \<lparr>g_var = v, g_r0 = r0, g_r1 = r1\<rparr> }"

fun merge_outputs :: "u32 list \<Rightarrow> named list \<Rightarrow> aig \<Rightarrow> aig option" where
  "merge_outputs vmap [] dst = Some dst"
| "merge_outputs vmap (s # ss) dst =
     do { lit \<leftarrow> remap vmap (n_lit s);
          merge_outputs vmap ss (aig_set_output (aig_remove_output dst (n_name s)) (n_name s) lit) }"

text \<open>The array size wraps in 32 bits like the addition of the code.\<close>

definition aig_merge :: "aig \<Rightarrow> aig \<Rightarrow> (aig \<times> bool) option" where
  "aig_merge dst src =
     do { vm \<leftarrow> map_inputs dst (aig_ins src) (replicate (unat (nextvar src + 1)) 0);
          case vm of
            None \<Rightarrow> Some (dst, False)
          | Some vmap \<Rightarrow>
              do { (vmap, n) \<leftarrow> fresh_vars (map lat_var (aig_lats src)) (nextvar dst) vmap;
                   (vmap, n) \<leftarrow> fresh_vars (map g_var (aig_ands src)) n vmap;
                   ls \<leftarrow> traverse (remap_latch vmap) (aig_lats src);
                   as \<leftarrow> traverse (remap_gate vmap) (aig_ands src);
                   dst' \<leftarrow> merge_outputs vmap (aig_outs src)
                     (dst\<lparr>nextvar := n, aig_lats := aig_lats dst @ ls, aig_ands := aig_ands dst @ as\<rparr>);
                   Some (dst', True) } }"

subsection \<open>Sampling of acceptance literals\<close>

definition lit_depends_on_input :: "bool list \<Rightarrow> u32 \<Rightarrow> bool" where
  "lit_depends_on_input dep lit \<longleftrightarrow>
     lit \<ge> 2 \<and> unat (lit div 2) < length dep \<and> dep ! unat (lit div 2)"

fun mark_inputs :: "aig_in list \<Rightarrow> bool list \<Rightarrow> bool list option" where
  "mark_inputs [] dep = Some dep"
| "mark_inputs (i # is) dep = do { dep' \<leftarrow> array_set dep (in_var i) True; mark_inputs is dep' }"

fun mark_gates :: "gate list \<Rightarrow> bool list \<Rightarrow> bool list option" where
  "mark_gates [] dep = Some dep"
| "mark_gates (a # as) dep =
     do { dep' \<leftarrow> array_set dep (g_var a)
            (lit_depends_on_input dep (g_r0 a) \<or> lit_depends_on_input dep (g_r1 a));
          mark_gates as dep' }"

text \<open>The names of the new latches are a prefix and the indices in decimal.\<close>

definition sample_lit :: "bool list \<Rightarrow> string \<Rightarrow> aig \<Rightarrow> u32 \<Rightarrow> aig \<times> u32" where
  "sample_lit dep name g lit =
     (if lit_depends_on_input dep lit then aig_latch_named g lit AIG_FALSE (Some name) else (g, lit))"

fun sample_lits :: "bool list \<Rightarrow> (nat \<Rightarrow> string) \<Rightarrow> nat \<Rightarrow> aig \<Rightarrow> u32 list \<Rightarrow> aig \<times> u32 list" where
  "sample_lits dep name k g [] = (g, [])"
| "sample_lits dep name k g (l # ls) =
     (case sample_lit dep (name k) g l of (g1, l') \<Rightarrow>
      case sample_lits dep name (Suc k) g1 ls of (g2, ls') \<Rightarrow> (g2, l' # ls'))"

definition sample_name :: "string \<Rightarrow> nat list \<Rightarrow> string" where
  "sample_name pre is = pre @ concat (map (\<lambda>i. CHR ''_'' # show_nat i) is)"

fun sample_justices :: "bool list \<Rightarrow> nat \<Rightarrow> aig \<Rightarrow> justice list \<Rightarrow> aig \<times> justice list" where
  "sample_justices dep j g [] = (g, [])"
| "sample_justices dep j g (x # xs) =
     (case sample_lits dep (\<lambda>k. sample_name ''__tlsf_gr1_sample_justice'' [j, k]) 0 g (j_lits x) of (g1, ls) \<Rightarrow>
      case sample_justices dep (Suc j) g1 xs of (g2, ys) \<Rightarrow> (g2, x\<lparr>j_lits := ls\<rparr> # ys))"

fun sample_fairs :: "bool list \<Rightarrow> nat \<Rightarrow> aig \<Rightarrow> named list \<Rightarrow> aig \<times> named list" where
  "sample_fairs dep i g [] = (g, [])"
| "sample_fairs dep i g (x # xs) =
     (case sample_lit dep (sample_name ''__tlsf_gr1_sample_fairness'' [i]) g (n_lit x) of (g1, l) \<Rightarrow>
      case sample_fairs dep (Suc i) g1 xs of (g2, ys) \<Rightarrow> (g2, x\<lparr>n_lit := l\<rparr> # ys))"

definition aig_sample_input_dependent_acceptance :: "aig \<Rightarrow> aig option" where
  "aig_sample_input_dependent_acceptance g =
     do { dep \<leftarrow> mark_inputs (aig_ins g) (replicate (unat (nextvar g + 1)) False);
          dep \<leftarrow> mark_gates (aig_ands g) dep;
          Some (case sample_justices dep 0 g (aig_justs g) of (g1, js) \<Rightarrow>
                case sample_fairs dep 0 (g1\<lparr>aig_justs := js\<rparr>) (aig_fairs g) of (g2, fs) \<Rightarrow>
                  g2\<lparr>aig_fairs := fs\<rparr>) }"

end
