(* ===== verification/Aiger_Semantics.thy ===== *)
theory Aiger_Semantics
  imports Aiger Ltl_Semantics
begin

text \<open>
  What an and-inverter graph means: the value of a literal under a valuation of the inputs and
  latches, the well-formed graphs, and the extension of a graph by new gates.
\<close>

subsection \<open>Values\<close>

type_synonym valuation = "nat \<Rightarrow> bool"

abbreviation var_of :: "u32 \<Rightarrow> nat" where
  "var_of l \<equiv> unat l div 2"

definition lit_val :: "valuation \<Rightarrow> u32 \<Rightarrow> bool" where
  "lit_val \<rho> l \<longleftrightarrow> (var_of l \<noteq> 0 \<and> \<rho> (var_of l)) \<noteq> odd (unat l)"

fun run_gates :: "gate list \<Rightarrow> valuation \<Rightarrow> valuation" where
  "run_gates [] \<rho> = \<rho>"
| "run_gates (a # as) \<rho> = run_gates as (\<rho>(unat (g_var a) := lit_val \<rho> (g_r0 a) \<and> lit_val \<rho> (g_r1 a)))"

definition aig_val :: "aig \<Rightarrow> valuation \<Rightarrow> u32 \<Rightarrow> bool" where
  "aig_val g \<rho> l = lit_val (run_gates (aig_ands g) \<rho>) l"

subsection \<open>Well-formed graphs\<close>

definition lit_in :: "nat set \<Rightarrow> u32 \<Rightarrow> bool" where
  "lit_in V l \<longleftrightarrow> var_of l = 0 \<or> var_of l \<in> V"

fun gates_ok :: "nat set \<Rightarrow> gate list \<Rightarrow> bool" where
  "gates_ok V [] = True"
| "gates_ok V (a # as) \<longleftrightarrow> unat (g_var a) \<notin> insert 0 V \<and> lit_in V (g_r0 a) \<and> lit_in V (g_r1 a) \<and>
     gates_ok (insert (unat (g_var a)) V) as"

definition leaf_vars :: "aig \<Rightarrow> nat list" where
  "leaf_vars g = map (unat \<circ> in_var) (aig_ins g) @ map (unat \<circ> lat_var) (aig_lats g)"

definition gate_vars :: "aig \<Rightarrow> nat set" where
  "gate_vars g = (unat \<circ> g_var) ` set (aig_ands g)"

definition aig_vars :: "aig \<Rightarrow> nat set" where
  "aig_vars g = set (leaf_vars g) \<union> gate_vars g"

text \<open>Variables stay below \<open>2 ^ 31 - 1\<close>, so no literal wraps or equals the error literal.\<close>

definition MAX_VAR :: nat where "MAX_VAR = 2 ^ 31 - 2"

definition graph_ok :: "aig \<Rightarrow> bool" where
  "graph_ok g \<longleftrightarrow> distinct (leaf_vars g) \<and> 0 \<notin> set (leaf_vars g) \<and>
     gates_ok (set (leaf_vars g)) (aig_ands g) \<and>
     aig_vars g \<subseteq> {..unat (nextvar g)} \<and> unat (nextvar g) \<le> MAX_VAR"

definition lits_ok :: "aig \<Rightarrow> bool" where
  "lits_ok g \<longleftrightarrow> (\<forall>l\<in>set (aig_lats g). lit_in (aig_vars g) (lat_next l)) \<and>
     (\<forall>s\<in>set (aig_outs g @ aig_bads g @ aig_cons g @ aig_sigs g @ aig_fairs g). lit_in (aig_vars g) (n_lit s)) \<and>
     (\<forall>j\<in>set (aig_justs g). list_all (lit_in (aig_vars g)) (j_lits j))"

definition aig_ok :: "aig \<Rightarrow> bool" where
  "aig_ok g \<longleftrightarrow> graph_ok g \<and> lits_ok g"

subsection \<open>Literals\<close>

lemma lit_val_const [simp]: "lit_val \<rho> 0 = False" "lit_val \<rho> 1 = True"
  by (simp_all add: lit_val_def)

lemma unat_xor_1: "unat (l XOR 1 :: u32) = (if even (unat l) then unat l + 1 else unat l - 1)"
proof -
  have "unat (l XOR 1) = unat l XOR (1 :: nat)" by (simp add: unsigned_xor_eq)
  also have "\<dots> = (if even (unat l) then unat l + 1 else unat l - 1)" by (simp only: xor_one_eq) simp
  finally show ?thesis .
qed

lemma var_of_not [simp]: "var_of (aig_not l) = var_of l"
  unfolding aig_not_def unat_xor_1 by (auto elim: oddE)

lemma odd_not [simp]: "odd (unat (aig_not l)) = even (unat l)"
  unfolding aig_not_def unat_xor_1 by (auto elim: oddE)

lemma lit_val_not [simp]: "lit_val \<rho> (aig_not l) = (\<not> lit_val \<rho> l)"
  by (auto simp: lit_val_def)

lemma lit_in_not [simp]: "lit_in V (aig_not l) = lit_in V l"
  by (simp add: lit_in_def)

lemma lit_in_const [simp]: "lit_in V 0" "lit_in V 1"
  by (simp_all add: lit_in_def)

lemma lit_in_mono: "lit_in V l \<Longrightarrow> V \<subseteq> W \<Longrightarrow> lit_in W l"
  by (auto simp: lit_in_def)

lemma lit_val_cong: "lit_in V l \<Longrightarrow> (\<And>v. v \<in> V \<Longrightarrow> \<rho> v = \<sigma> v) \<Longrightarrow> lit_val \<rho> l = lit_val \<sigma> l"
  by (auto simp: lit_val_def lit_in_def)

text \<open>The literal of a variable.\<close>

lemma unat_var_lit: "unat v \<le> MAX_VAR \<Longrightarrow> unat (v * 2 :: u32) = 2 * unat v"
  by (simp add: MAX_VAR_def unat_mult_lem [THEN iffD1] unat_word_ariths)

lemma var_of_lit [simp]: "unat v \<le> MAX_VAR \<Longrightarrow> var_of (v * 2) = unat v"
  by (simp add: unat_var_lit)

lemma lit_val_var: "unat v \<le> MAX_VAR \<Longrightarrow> 0 < unat v \<Longrightarrow> lit_val \<rho> (v * 2) = \<rho> (unat v)"
  by (simp add: lit_val_def unat_var_lit)

lemma unat_var_Suc: "unat v < MAX_VAR \<Longrightarrow> unat (v + 1 :: u32) = Suc (unat v)"
  by (simp add: MAX_VAR_def unat_word_ariths)

subsection \<open>Running the gates\<close>

lemma run_gates_append [simp]: "run_gates (as @ bs) \<rho> = run_gates bs (run_gates as \<rho>)"
  by (induction as arbitrary: \<rho>) simp_all

lemma run_gates_other: "v \<notin> (unat \<circ> g_var) ` set as \<Longrightarrow> run_gates as \<rho> v = \<rho> v"
  by (induction as arbitrary: \<rho>) auto

lemma gates_ok_append: "gates_ok V (as @ bs) \<longleftrightarrow> gates_ok V as \<and> gates_ok (V \<union> (unat \<circ> g_var) ` set as) bs"
  by (induction as arbitrary: V) (auto simp: insert_commute)

lemma gates_ok_fresh: "gates_ok V as \<Longrightarrow> a \<in> set as \<Longrightarrow> unat (g_var a) \<notin> insert 0 V"
  by (induction as arbitrary: V) auto

lemma gates_ok_mono: "gates_ok V as \<Longrightarrow> V \<subseteq> W \<Longrightarrow> W \<inter> (unat \<circ> g_var) ` set as = {} \<Longrightarrow> gates_ok W as"
proof (induction as arbitrary: V W)
  case (Cons a as)
  have f: "unat (g_var b) \<notin> insert (unat (g_var a)) V" if "b \<in> set as" for b
    using gates_ok_fresh [of "insert (unat (g_var a)) V" as b] Cons.prems(1) that by simp
  then have "unat (g_var a) \<notin> (unat \<circ> g_var) ` set as" by fastforce
  with Cons.prems have "gates_ok (insert (unat (g_var a)) V) as"
    "insert (unat (g_var a)) V \<subseteq> insert (unat (g_var a)) W"
    "insert (unat (g_var a)) W \<inter> (unat \<circ> g_var) ` set as = {}"
    by (simp, blast, simp)
  from Cons.IH [OF this] have "gates_ok (insert (unat (g_var a)) W) as" .
  with Cons.prems show ?case by (auto intro: lit_in_mono)
qed simp

lemma run_gates_cong:
  "gates_ok V as \<Longrightarrow> \<forall>v\<in>V. \<rho> v = \<sigma> v \<Longrightarrow> v \<in> V \<union> (unat \<circ> g_var) ` set as \<Longrightarrow>
   run_gates as \<rho> v = run_gates as \<sigma> v"
proof (induction as arbitrary: V \<rho> \<sigma>)
  case (Cons a as)
  have "lit_val \<rho> l = lit_val \<sigma> l" if "lit_in V l" for l
    by (rule lit_val_cong [OF that]) (use Cons.prems(2) in blast)
  then have eq: "(lit_val \<rho> (g_r0 a) \<and> lit_val \<rho> (g_r1 a)) = (lit_val \<sigma> (g_r0 a) \<and> lit_val \<sigma> (g_r1 a))"
    using Cons.prems(1) by simp
  show ?case unfolding run_gates.simps
    by (rule Cons.IH [of "insert (unat (g_var a)) V"]) (use Cons.prems eq in auto)
qed auto

text \<open>Values depend on the leaves only.\<close>

lemma aig_val_cong:
  assumes "graph_ok g" and "lit_in (aig_vars g) l" and "\<And>v. v \<in> set (leaf_vars g) \<Longrightarrow> \<rho> v = \<sigma> v"
  shows "aig_val g \<rho> l = aig_val g \<sigma> l"
  unfolding aig_val_def
proof (rule lit_val_cong [OF assms(2)])
  show "run_gates (aig_ands g) \<rho> v = run_gates (aig_ands g) \<sigma> v" if "v \<in> aig_vars g" for v
    by (rule run_gates_cong [of "set (leaf_vars g)"])
       (use assms that in \<open>auto simp: graph_ok_def aig_vars_def gate_vars_def\<close>)
qed

lemma aig_val_leaf:
  assumes "graph_ok g" and "v \<in> set (leaf_vars g)"
  shows "run_gates (aig_ands g) \<rho> v = \<rho> v"
proof (rule run_gates_other)
  show "v \<notin> (unat \<circ> g_var) ` set (aig_ands g)"
    using gates_ok_fresh [of "set (leaf_vars g)" "aig_ands g"] assms by (auto simp: graph_ok_def)
qed

lemma aig_val_const [simp]: "aig_val g \<rho> 0 = False" "aig_val g \<rho> 1 = True"
  by (simp_all add: aig_val_def)

lemma aig_val_not [simp]: "aig_val g \<rho> (aig_not l) = (\<not> aig_val g \<rho> l)"
  by (simp add: aig_val_def)

subsection \<open>Extension by gates\<close>

text \<open>The graph \<open>h\<close> is \<open>g\<close> with more gates at the end.\<close>

definition extends :: "aig \<Rightarrow> aig \<Rightarrow> bool" where
  "extends g h \<longleftrightarrow> graph_ok h \<and> nextvar g \<le> nextvar h \<and>
     (\<exists>as. h = g\<lparr>nextvar := nextvar h, aig_ands := aig_ands g @ as\<rparr>)"

lemma graph_extends_refl: "graph_ok g \<Longrightarrow> extends g g"
  by (auto simp: extends_def intro: exI [of _ "[]"])

lemma graph_extends_trans: "extends f g \<Longrightarrow> extends g h \<Longrightarrow> extends f h"
  unfolding extends_def
proof (elim conjE exE, intro conjI)
  fix as bs
  assume a: "g = f\<lparr>nextvar := nextvar g, aig_ands := aig_ands f @ as\<rparr>"
    and b: "h = g\<lparr>nextvar := nextvar h, aig_ands := aig_ands g @ bs\<rparr>"
  have "h = (f\<lparr>nextvar := nextvar g, aig_ands := aig_ands f @ as\<rparr>)
      \<lparr>nextvar := nextvar h, aig_ands := aig_ands (f\<lparr>nextvar := nextvar g, aig_ands := aig_ands f @ as\<rparr>) @ bs\<rparr>"
    using b unfolding a [symmetric] .
  then show "\<exists>as. h = f\<lparr>nextvar := nextvar h, aig_ands := aig_ands f @ as\<rparr>"
    by (intro exI [of _ "as @ bs"]) simp
qed auto

lemma extends_fields:
  assumes "extends g h"
  shows "aig_ins h = aig_ins g" "aig_lats h = aig_lats g" "aig_outs h = aig_outs g" "aig_bads h = aig_bads g"
    "aig_cons h = aig_cons g" "aig_sigs h = aig_sigs g" "aig_justs h = aig_justs g" "aig_fairs h = aig_fairs g"
    "leaf_vars h = leaf_vars g" "graph_ok h" "aig_lookup h = aig_lookup g"
proof -
  from assms obtain as where h: "h = g\<lparr>nextvar := nextvar h, aig_ands := aig_ands g @ as\<rparr>" "graph_ok h"
    by (auto simp: extends_def)
  show "aig_ins h = aig_ins g" "aig_lats h = aig_lats g" "aig_outs h = aig_outs g" "aig_bads h = aig_bads g"
    "aig_cons h = aig_cons g" "aig_sigs h = aig_sigs g" "aig_justs h = aig_justs g" "aig_fairs h = aig_fairs g"
    by (subst h(1); simp)+
  then show "leaf_vars h = leaf_vars g" "aig_lookup h = aig_lookup g"
    by (simp_all add: leaf_vars_def aig_lookup_def fun_eq_iff)
  show "graph_ok h" by (rule h(2))
qed

lemma extends_ands: "extends g h \<Longrightarrow> \<exists>as. aig_ands h = aig_ands g @ as"
  unfolding extends_def by (metis aig.select_convs(4) aig.surjective aig.update_convs(4))

lemma extends_vars: "extends g h \<Longrightarrow> aig_vars g \<subseteq> aig_vars h"
  using extends_ands [of g h] extends_fields(9) [of g h] by (auto simp: aig_vars_def gate_vars_def)

lemma extends_lit: "extends g h \<Longrightarrow> lit_in (aig_vars g) l \<Longrightarrow> lit_in (aig_vars h) l"
  using lit_in_mono extends_vars by blast

lemma extends_val:
  assumes "extends g h" and "lit_in (aig_vars g) l"
  shows "aig_val h \<rho> l = aig_val g \<rho> l"
proof -
  from extends_ands [OF assms(1)] obtain as where as: "aig_ands h = aig_ands g @ as" by blast
  have "gates_ok (set (leaf_vars g) \<union> (unat \<circ> g_var) ` set (aig_ands g)) as"
    using extends_fields(9,10) [OF assms(1)] as by (simp add: graph_ok_def gates_ok_append)
  then have "v \<notin> (unat \<circ> g_var) ` set as" if "v \<in> aig_vars g" for v
    using gates_ok_fresh that by (fastforce simp: aig_vars_def gate_vars_def)
  then show ?thesis unfolding aig_val_def as run_gates_append
    by (intro lit_val_cong [OF assms(2)] run_gates_other)
qed

subsection \<open>Runs\<close>

text \<open>
  A state is the list of the latch values; a reset value other than 0 counts as 1.  The inputs of
  a step are a list parallel to the input declarations.
\<close>

definition leaf_val :: "aig \<Rightarrow> bool list \<Rightarrow> bool list \<Rightarrow> valuation" where
  "leaf_val g is st v = (map_of (zip (leaf_vars g) (is @ st)) v = Some True)"

definition next_state :: "aig \<Rightarrow> bool list \<Rightarrow> bool list \<Rightarrow> bool list" where
  "next_state g is st = map (\<lambda>l. aig_val g (leaf_val g is st) (lat_next l)) (aig_lats g)"

text \<open>
  The state after the reset.  A latch whose reset is neither 0 nor 1 is uninitialised; it is given
  the value 1 here, and what is said of whole runs under merging and writing asks for graphs without
  such latches, \<open>initialised\<close>.
\<close>

definition initialised :: "aig \<Rightarrow> bool" where
  "initialised g \<longleftrightarrow> (\<forall>l\<in>set (aig_lats g). lat_reset l \<le> 1)"

definition reset_state :: "aig \<Rightarrow> bool list" where
  "reset_state g = map (\<lambda>l. lat_reset l \<noteq> 0) (aig_lats g)"

primrec aig_run :: "aig \<Rightarrow> (nat \<Rightarrow> bool list) \<Rightarrow> nat \<Rightarrow> bool list" where
  "aig_run g is 0 = reset_state g"
| "aig_run g is (Suc t) = next_state g (is t) (aig_run g is t)"

definition aig_at :: "aig \<Rightarrow> (nat \<Rightarrow> bool list) \<Rightarrow> nat \<Rightarrow> u32 \<Rightarrow> bool" where
  "aig_at g is t l = aig_val g (leaf_val g (is t) (aig_run g is t)) l"

lemma length_next_state [simp]: "length (next_state g is st) = length (aig_lats g)"
  by (simp add: next_state_def)

lemma length_aig_run [simp]: "length (aig_run g is t) = length (aig_lats g)"
  by (cases t) (simp_all add: reset_state_def)

lemma nth_aig_run:
  "k < length (aig_lats g) \<Longrightarrow> aig_run g is 0 ! k = (lat_reset (aig_lats g ! k) \<noteq> 0)"
  "k < length (aig_lats g) \<Longrightarrow> aig_run g is (Suc t) ! k = aig_at g is t (lat_next (aig_lats g ! k))"
  by (simp_all add: reset_state_def next_state_def aig_at_def)

lemma leaf_val_input:
  assumes "distinct (leaf_vars g)" and "k < length (aig_ins g)" and "length is = length (aig_ins g)"
    and "length st = length (aig_lats g)"
  shows "leaf_val g is st (unat (in_var (aig_ins g ! k))) = is ! k"
proof -
  let ?vs = "leaf_vars g" and ?bs = "is @ st"
  have l: "length ?vs = length ?bs" "k < length ?vs" using assms(2-4) by (simp_all add: leaf_vars_def)
  have k: "?vs ! k = unat (in_var (aig_ins g ! k))" "?bs ! k = is ! k"
    using assms(2,3) by (simp_all add: leaf_vars_def nth_append)
  show ?thesis unfolding leaf_val_def k(1) [symmetric]
    using l k(2) by (subst map_of_zip_nth) (simp_all add: assms(1))
qed

lemma leaf_val_latch:
  assumes "distinct (leaf_vars g)" and "k < length (aig_lats g)" and "length is = length (aig_ins g)"
    and "length st = length (aig_lats g)"
  shows "leaf_val g is st (unat (lat_var (aig_lats g ! k))) = st ! k"
proof -
  let ?vs = "leaf_vars g" and ?bs = "is @ st" and ?k = "length (aig_ins g) + k"
  have l: "length ?vs = length ?bs" "?k < length ?vs" using assms(2-4) by (simp_all add: leaf_vars_def)
  have k: "?vs ! ?k = unat (lat_var (aig_lats g ! k))" "?bs ! ?k = st ! k"
    using assms(2,3) by (simp_all add: leaf_vars_def nth_append)
  show ?thesis unfolding leaf_val_def k(1) [symmetric]
    using l k(2) by (subst map_of_zip_nth) (simp_all add: assms(1))
qed

end
