(* ===== verification/Aiger_Correct.thy ===== *)
theory Aiger_Correct
  imports Aiger_Semantics
begin

text \<open>
  The builders of and-inverter graphs are correct: gates compute their connective and leave every
  other literal alone, compilation yields the truth value of the formula.
\<close>

subsection \<open>Adding gates\<close>

text \<open>
  The contract of an operation that adds at most \<open>cost\<close> gates to compute a connective of two
  literals.
\<close>

definition computes :: "(aig \<Rightarrow> u32 \<Rightarrow> u32 \<Rightarrow> aig \<times> u32) \<Rightarrow> (bool \<Rightarrow> bool \<Rightarrow> bool) \<Rightarrow> nat \<Rightarrow> bool" where
  "computes oper f cost \<longleftrightarrow> (\<forall>g a b h l. graph_ok g \<and> lit_in (aig_vars g) a \<and> lit_in (aig_vars g) b \<and>
      unat (nextvar g) + cost \<le> MAX_VAR \<and> oper g a b = (h, l) \<longrightarrow>
      extends g h \<and> lit_in (aig_vars h) l \<and> unat (nextvar h) \<le> unat (nextvar g) + cost \<and>
      (\<forall>\<rho>. aig_val h \<rho> l = f (aig_val g \<rho> a) (aig_val g \<rho> b)))"

locale gate_operation =
  fixes oper :: "aig \<Rightarrow> u32 \<Rightarrow> u32 \<Rightarrow> aig \<times> u32" and f :: "bool \<Rightarrow> bool \<Rightarrow> bool" and cost :: nat
  assumes law: "computes oper f cost"
begin

lemma result:
  assumes "graph_ok g" and "lit_in (aig_vars g) a" and "lit_in (aig_vars g) b"
    and "unat (nextvar g) + cost \<le> MAX_VAR" and "oper g a b = (h, l)"
  shows "extends g h" "lit_in (aig_vars h) l" "unat (nextvar h) \<le> unat (nextvar g) + cost"
    "aig_val h \<rho> l = f (aig_val g \<rho> a) (aig_val g \<rho> b)"
  using law assms unfolding computes_def by blast+

end

lemma nextvar_fresh:
  assumes "graph_ok g" and "unat (nextvar g) < MAX_VAR"
  shows "unat (nextvar g + 1) = Suc (unat (nextvar g))" "unat (nextvar g + 1) \<notin> insert 0 (aig_vars g)"
    "nextvar g \<le> nextvar g + 1"
proof -
  show s: "unat (nextvar g + 1) = Suc (unat (nextvar g))" by (rule unat_var_Suc [OF assms(2)])
  then show "unat (nextvar g + 1) \<notin> insert 0 (aig_vars g)"
    using assms(1) by (auto simp: graph_ok_def)
  show "nextvar g \<le> nextvar g + 1" using s by (simp add: word_le_nat_alt)
qed

lemma var_of_same: "var_of a = var_of b \<Longrightarrow> odd (unat a) = odd (unat b) \<Longrightarrow> a = b"
proof -
  assume "var_of a = var_of b" "odd (unat a) = odd (unat b)"
  then have "unat a = unat b" by (metis bit_eq_rec)
  then show "a = b" by (simp only: word_unat_eq_iff)
qed

lemma add_gate:
  assumes g: "graph_ok g" and a: "lit_in (aig_vars g) a" and b: "lit_in (aig_vars g) b"
    and n: "unat (nextvar g) < MAX_VAR"
    and h: "h = g\<lparr>nextvar := nextvar g + 1,
      aig_ands := aig_ands g @ [\<lparr>g_var = nextvar g + 1, g_r0 = a, g_r1 = b\<rparr>]\<rparr>"
  shows "extends g h" "lit_in (aig_vars h) ((nextvar g + 1) * 2)" "unat (nextvar h) = Suc (unat (nextvar g))"
    "aig_val h \<rho> ((nextvar g + 1) * 2) = (aig_val g \<rho> a \<and> aig_val g \<rho> b)"
proof -
  note f = nextvar_fresh [OF g n]
  have m: "unat (nextvar g + 1) \<le> MAX_VAR" using f(1) n by simp
  have leaf: "leaf_vars h = leaf_vars g" by (simp add: h leaf_vars_def)
  have vars: "aig_vars h = insert (unat (nextvar g + 1)) (aig_vars g)"
    unfolding aig_vars_def gate_vars_def leaf by (simp add: h)
  have "gates_ok (set (leaf_vars h)) (aig_ands h)"
    using g a b f(2) unfolding leaf by (simp add: h gates_ok_append graph_ok_def aig_vars_def gate_vars_def)
  moreover have "aig_vars h \<subseteq> {..unat (nextvar h)}"
    using g f(1) unfolding vars by (auto simp: h graph_ok_def)
  ultimately have ok: "graph_ok h" using g m unfolding graph_ok_def leaf by (simp add: h)
  then show "extends g h" unfolding extends_def using f(3) h by auto
  show "unat (nextvar h) = Suc (unat (nextvar g))" using f(1) by (simp add: h)
  show "lit_in (aig_vars h) ((nextvar g + 1) * 2)" unfolding lit_in_def vars var_of_lit [OF m] by simp
  show "aig_val h \<rho> ((nextvar g + 1) * 2) = (aig_val g \<rho> a \<and> aig_val g \<rho> b)"
    unfolding aig_val_def
    by (subst lit_val_var [OF m]) (simp_all add: f(1) h)
qed

lemma aig_and_computes: "computes aig_and (\<and>) 1"
  unfolding computes_def
proof (intro allI impI, elim conjE)
  fix g a b h l
  assume g: "graph_ok g" and ab: "lit_in (aig_vars g) a" "lit_in (aig_vars g) b"
    and n: "unat (nextvar g) + 1 \<le> MAX_VAR" and e: "aig_and g a b = (h, l)"
  have c: "a = AIG_FALSE \<Longrightarrow> \<not> aig_val g \<rho> a" "b = AIG_FALSE \<Longrightarrow> \<not> aig_val g \<rho> b"
    "a = AIG_TRUE \<Longrightarrow> aig_val g \<rho> a" "b = AIG_TRUE \<Longrightarrow> aig_val g \<rho> b"
    "a = b XOR 1 \<Longrightarrow> aig_val g \<rho> a = (\<not> aig_val g \<rho> b)" for \<rho>
    by (simp_all add: AIG_FALSE_def AIG_TRUE_def aig_not_def [symmetric])
  let ?v = "nextvar g + 1"
  let ?h = "g\<lparr>nextvar := ?v, aig_ands := aig_ands g @ [\<lparr>g_var = ?v, g_r0 = a, g_r1 = b\<rparr>]\<rparr>"
  have "unat (nextvar g) < MAX_VAR" using n by simp
  note new = add_gate [OF g ab this refl]
  consider "h = g" "l = AIG_FALSE" "\<And>\<rho>. \<not> (aig_val g \<rho> a \<and> aig_val g \<rho> b)"
    | "h = g" "lit_in (aig_vars g) l" "\<And>\<rho>. aig_val g \<rho> l = (aig_val g \<rho> a \<and> aig_val g \<rho> b)"
    | "h = ?h" "l = ?v * 2"
    using e ab c unfolding aig_and_def Let_def by (simp split: if_splits) blast+
  then show "extends g h \<and> lit_in (aig_vars h) l \<and> unat (nextvar h) \<le> unat (nextvar g) + 1 \<and>
      (\<forall>\<rho>. aig_val h \<rho> l = (aig_val g \<rho> a \<and> aig_val g \<rho> b))"
  proof cases
    case 1
    then show ?thesis using graph_extends_refl [OF g] by (simp add: AIG_FALSE_def)
  next
    case 2
    then show ?thesis using graph_extends_refl [OF g] by simp
  next
    case 3
    then show ?thesis using new by simp
  qed
qed

interpretation and_gate: gate_operation aig_and "(\<and>)" 1
  by unfold_locales (rule aig_and_computes)

lemma aig_or_computes: "computes aig_or (\<or>) 1"
  unfolding computes_def
proof (intro allI impI, elim conjE)
  fix g a b h l
  assume g: "graph_ok g" and ab: "lit_in (aig_vars g) a" "lit_in (aig_vars g) b"
    and n: "unat (nextvar g) + 1 \<le> MAX_VAR" and e: "aig_or g a b = (h, l)"
  obtain l' where l: "aig_and g (aig_not a) (aig_not b) = (h, l')" "l = aig_not l'"
    using e by (auto simp: aig_or_def split: prod.splits)
  note r = and_gate.result [OF g _ _ n l(1)]
  show "extends g h \<and> lit_in (aig_vars h) l \<and> unat (nextvar h) \<le> unat (nextvar g) + 1 \<and>
      (\<forall>\<rho>. aig_val h \<rho> l = (aig_val g \<rho> a \<or> aig_val g \<rho> b))"
    using r ab l(2) by simp
qed

interpretation or_gate: gate_operation aig_or "(\<or>)" 1
  by unfold_locales (rule aig_or_computes)

definition bin_bool :: "bin_kind \<Rightarrow> bool \<Rightarrow> bool \<Rightarrow> bool" where
  "bin_bool k a b =
     (case k of NODE_AND \<Rightarrow> a \<and> b | NODE_OR \<Rightarrow> a \<or> b | NODE_IMPL \<Rightarrow> a \<longrightarrow> b | _ \<Rightarrow> a = b)"

lemma aig_join_computes: "computes (aig_join k) (bin_bool k) 3"
  unfolding computes_def
proof (intro allI impI, elim conjE)
  fix g a b h l
  assume g: "graph_ok g" and ab: "lit_in (aig_vars g) a" "lit_in (aig_vars g) b"
    and n: "unat (nextvar g) + 3 \<le> MAX_VAR" and e: "aig_join k g a b = (h, l)"
  have n1: "unat (nextvar g) + 1 \<le> MAX_VAR" using n by simp
  show "extends g h \<and> lit_in (aig_vars h) l \<and> unat (nextvar h) \<le> unat (nextvar g) + 3 \<and>
      (\<forall>\<rho>. aig_val h \<rho> l = bin_bool k (aig_val g \<rho> a) (aig_val g \<rho> b))"
  proof (cases "k \<in> {NODE_AND, NODE_OR, NODE_IMPL}")
    case True
    consider "aig_and g a b = (h, l)" "k = NODE_AND" | "aig_or g a b = (h, l)" "k = NODE_OR"
      | "aig_or g (aig_not a) b = (h, l)" "k = NODE_IMPL"
      using e True by (auto simp: aig_join_def)
    then show ?thesis
    proof cases
      case 1
      from and_gate.result [OF g ab n1 this(1)] this(2) show ?thesis by (simp add: bin_bool_def)
    next
      case 2
      from or_gate.result [OF g ab n1 this(1)] this(2) show ?thesis by (simp add: bin_bool_def)
    next
      case 3
      from or_gate.result [OF g _ ab(2) n1 this(1)] this(2) ab(1) show ?thesis by (simp add: bin_bool_def)
    qed
  next
    case False
    obtain g1 e0 g2 e1 where s: "aig_or g (aig_not a) b = (g1, e0)" "aig_or g1 a (aig_not b) = (g2, e1)"
      "aig_and g2 e0 e1 = (h, l)"
      using e False by (cases k) (auto simp: aig_join_def split: prod.splits)
    have na: "lit_in (aig_vars g) (aig_not a)" using ab(1) by simp
    note r0 = or_gate.result [OF g na ab(2) n1 s(1)]
    have g1: "graph_ok g1" by (rule extends_fields(10) [OF r0(1)])
    have ab1: "lit_in (aig_vars g1) a" "lit_in (aig_vars g1) (aig_not b)"
      using extends_lit [OF r0(1)] ab by simp_all
    have n2: "unat (nextvar g1) + 1 \<le> MAX_VAR" using n r0(3) by simp
    note r1 = or_gate.result [OF g1 ab1 n2 s(2)]
    have g2: "graph_ok g2" by (rule extends_fields(10) [OF r1(1)])
    have n3: "unat (nextvar g2) + 1 \<le> MAX_VAR" using n r0(3) r1(3) by simp
    have e0: "lit_in (aig_vars g2) e0" by (rule extends_lit [OF r1(1) r0(2)])
    note r2 = and_gate.result [OF g2 e0 r1(2) n3 s(3)]
    have ext: "extends g h" by (rule graph_extends_trans [OF r0(1) graph_extends_trans [OF r1(1) r2(1)]])
    have "aig_val h \<rho> l = (aig_val g \<rho> a = aig_val g \<rho> b)" for \<rho>
      using r2(4) [of \<rho>] r1(4) [of \<rho>] r0(4) [of \<rho>] extends_val [OF r1(1) r0(2), of \<rho>]
        extends_val [OF r0(1), of _ \<rho>] ab by auto
    moreover have "bin_bool k x y = (x = y)" for x y using False by (cases k) (simp_all add: bin_bool_def)
    ultimately show ?thesis using ext r2(2,3) r0(3) r1(3) by simp
  qed
qed

interpretation join: gate_operation "aig_join k" "bin_bool k" 3
  for k by unfold_locales (rule aig_join_computes)

subsection \<open>Compilation\<close>

fun propositional :: "node \<Rightarrow> bool" where
  "propositional NodeTrue = True"
| "propositional NodeFalse = True"
| "propositional (NodeAp p) = True"
| "propositional (Unary k n) \<longleftrightarrow> k = NODE_NOT \<and> propositional n"
| "propositional (Binary k l r) \<longleftrightarrow> k \<in> {NODE_AND, NODE_OR, NODE_IMPL, NODE_EQUIV} \<and>
     propositional l \<and> propositional r"
| "propositional n = False"

definition registered :: "aig \<Rightarrow> ap set" where
  "registered g = {p. \<exists>s\<in>set (aig_sigs g). n_name s = Some p}"

text \<open>The letter that the signals of a graph show.\<close>

definition signal_letter :: "aig \<Rightarrow> valuation \<Rightarrow> letter" where
  "signal_letter g \<rho> = {p. aig_val g \<rho> (aig_lookup g (Some p))}"

definition well_registered :: "aig \<Rightarrow> bool" where
  "well_registered g \<longleftrightarrow> graph_ok g \<and> (\<forall>s\<in>set (aig_sigs g). lit_in (aig_vars g) (n_lit s))"

lemma lit_in_not_NO_LIT:
  assumes "graph_ok g" and "lit_in (aig_vars g) l"
  shows "l \<noteq> NO_LIT"
proof
  assume "l = NO_LIT"
  then have "var_of l = 2 ^ 31 - 1" by (simp add: NO_LIT_def unsigned_minus_1_eq_mask mask_eq_exp_minus_1)
  with assms show False by (auto simp: lit_in_def graph_ok_def MAX_VAR_def)
qed

lemma aig_lookup_Some:
  assumes "well_registered g"
  shows "aig_lookup g (Some p) = NO_LIT \<longleftrightarrow> p \<notin> registered g"
    and "p \<in> registered g \<Longrightarrow> lit_in (aig_vars g) (aig_lookup g (Some p))"
proof -
  have ex: "p \<in> registered g \<longleftrightarrow> find (\<lambda>s. n_name s = Some p) (aig_sigs g) \<noteq> None"
    by (auto simp: registered_def find_None_iff)
  have mem: "find P xs = Some x \<Longrightarrow> x \<in> set xs" for P x and xs :: "named list"
    by (auto simp: find_Some_iff)
  show l: "p \<in> registered g \<Longrightarrow> lit_in (aig_vars g) (aig_lookup g (Some p))"
    using assms ex mem by (auto simp: aig_lookup_def well_registered_def split: option.splits)
  show "aig_lookup g (Some p) = NO_LIT \<longleftrightarrow> p \<notin> registered g"
  proof (cases "p \<in> registered g")
    case True
    then show ?thesis using lit_in_not_NO_LIT [OF _ l [OF True]] assms by (simp add: well_registered_def)
  next
    case False
    then show ?thesis using ex by (simp add: aig_lookup_def)
  qed
qed

lemma extends_registered:
  assumes "extends g h" and "well_registered g"
  shows "well_registered h" "registered h = registered g"
    "\<And>p \<rho>. p \<in> registered g \<Longrightarrow> p \<in> signal_letter h \<rho> \<longleftrightarrow> p \<in> signal_letter g \<rho>"
proof -
  show "well_registered h" using assms extends_fields(6,10) [OF assms(1)] extends_lit [OF assms(1)]
    by (simp add: well_registered_def)
  show "registered h = registered g" using extends_fields(6) [OF assms(1)] by (simp add: registered_def)
  show "p \<in> signal_letter h \<rho> \<longleftrightarrow> p \<in> signal_letter g \<rho>" if "p \<in> registered g" for p \<rho>
    using extends_val [OF assms(1) aig_lookup_Some(2) [OF assms(2) that], of \<rho>] extends_fields(11) [OF assms(1)]
    by (simp add: signal_letter_def)
qed

lemma sat_propositional_cong:
  "propositional n \<Longrightarrow> (\<And>p. p \<in> atoms n \<Longrightarrow> p \<in> w i \<longleftrightarrow> p \<in> w' i) \<Longrightarrow> sat L w n i = sat L w' n i"
  by (induction n rule: propositional.induct) auto

lemma sat_bin_bool:
  "k \<in> {NODE_AND, NODE_OR, NODE_IMPL, NODE_EQUIV} \<Longrightarrow>
   sat L w (Binary k a b) i = bin_bool k (sat L w a i) (sat L w b i)"
  by (auto simp: bin_bool_def)

definition compiles :: "node \<Rightarrow> bool" where
  "compiles n \<longleftrightarrow> (\<forall>g h l. well_registered g \<and> unat (nextvar g) + 3 * tree_size n \<le> MAX_VAR \<and>
      aig_compile g n = (h, l) \<longrightarrow>
      extends g h \<and> unat (nextvar h) \<le> unat (nextvar g) + 3 * tree_size n \<and>
      (if propositional n \<and> atoms n \<subseteq> registered g
       then lit_in (aig_vars h) l \<and> (\<forall>\<rho>. aig_val h \<rho> l = sat \<infinity> (\<lambda>_. signal_letter g \<rho>) n 0)
       else l = NO_LIT))"

lemma aig_compile_compiles: "compiles n"
proof (induction n rule: propositional.induct)
  case (3 p)
  show ?case unfolding compiles_def
    using aig_lookup_Some graph_extends_refl by (auto simp: well_registered_def signal_letter_def)
next
  case (4 k n)
  show ?case unfolding compiles_def
  proof (intro allI impI, elim conjE)
    fix g h l
    assume g: "well_registered g" "unat (nextvar g) + 3 * tree_size (Unary k n) \<le> MAX_VAR"
      "aig_compile g (Unary k n) = (h, l)"
    show "extends g h \<and> unat (nextvar h) \<le> unat (nextvar g) + 3 * tree_size (Unary k n) \<and>
      (if propositional (Unary k n) \<and> atoms (Unary k n) \<subseteq> registered g
       then lit_in (aig_vars h) l \<and> (\<forall>\<rho>. aig_val h \<rho> l = sat \<infinity> (\<lambda>_. signal_letter g \<rho>) (Unary k n) 0)
       else l = NO_LIT)"
    proof (cases "k = NODE_NOT")
      case True
      then obtain a where a: "aig_compile g n = (h, a)" "l = (if a = NO_LIT then a else aig_not a)"
        using g(3) by (auto split: prod.splits)
      have "unat (nextvar g) + 3 * tree_size n \<le> MAX_VAR" using g(2) by simp
      with 4 True g(1) a(1) have r: "extends g h" "unat (nextvar h) \<le> unat (nextvar g) + 3 * tree_size n"
        "if propositional n \<and> atoms n \<subseteq> registered g
         then lit_in (aig_vars h) a \<and> (\<forall>\<rho>. aig_val h \<rho> a = sat \<infinity> (\<lambda>_. signal_letter g \<rho>) n 0)
         else a = NO_LIT"
        unfolding compiles_def by blast+
      then show ?thesis
        using True a(2) lit_in_not_NO_LIT [OF extends_fields(10) [OF r(1)], of a] by (auto split: if_splits)
    next
      case False
      then show ?thesis using g graph_extends_refl by (auto simp: well_registered_def)
    qed
  qed
next
  case (5 k a b)
  show ?case unfolding compiles_def
  proof (intro allI impI, elim conjE)
    fix g h l
    assume g: "well_registered g" "unat (nextvar g) + 3 * tree_size (Binary k a b) \<le> MAX_VAR"
      "aig_compile g (Binary k a b) = (h, l)"
    let ?ok = "\<lambda>n. propositional n \<and> atoms n \<subseteq> registered g"
    show "extends g h \<and> unat (nextvar h) \<le> unat (nextvar g) + 3 * tree_size (Binary k a b) \<and>
      (if ?ok (Binary k a b)
       then lit_in (aig_vars h) l \<and> (\<forall>\<rho>. aig_val h \<rho> l = sat \<infinity> (\<lambda>_. signal_letter g \<rho>) (Binary k a b) 0)
       else l = NO_LIT)"
    proof (cases "k \<in> {NODE_AND, NODE_OR, NODE_IMPL, NODE_EQUIV}")
      case True
      then obtain g1 x g2 y where s: "aig_compile g a = (g1, x)" "aig_compile g1 b = (g2, y)"
        "(if x = NO_LIT \<or> y = NO_LIT then (g2, NO_LIT) else aig_join k g2 x y) = (h, l)"
        using g(3) by (auto split: prod.splits)
      have "unat (nextvar g) + 3 * tree_size a \<le> MAX_VAR" using g(2) by simp
      with 5 True g(1) s(1) have ra: "extends g g1" "unat (nextvar g1) \<le> unat (nextvar g) + 3 * tree_size a"
        "if ?ok a then lit_in (aig_vars g1) x \<and> (\<forall>\<rho>. aig_val g1 \<rho> x = sat \<infinity> (\<lambda>_. signal_letter g \<rho>) a 0)
         else x = NO_LIT"
        unfolding compiles_def by blast+
      note g1 = extends_registered [OF ra(1) g(1)]
      have "unat (nextvar g1) + 3 * tree_size b \<le> MAX_VAR" using g(2) ra(2) by simp
      with 5 True g1(1) s(2) have rb: "extends g1 g2" "unat (nextvar g2) \<le> unat (nextvar g1) + 3 * tree_size b"
        "if propositional b \<and> atoms b \<subseteq> registered g1
         then lit_in (aig_vars g2) y \<and> (\<forall>\<rho>. aig_val g2 \<rho> y = sat \<infinity> (\<lambda>_. signal_letter g1 \<rho>) b 0)
         else y = NO_LIT"
        unfolding compiles_def by blast+
      have ext2: "extends g g2" by (rule graph_extends_trans [OF ra(1) rb(1)])
      have g2: "graph_ok g2" by (rule extends_fields(10) [OF ext2])
      have nx: "x = NO_LIT \<longleftrightarrow> \<not> ?ok a"
        using ra(3) lit_in_not_NO_LIT [OF extends_fields(10) [OF ra(1)], of x] by (auto split: if_splits)
      have ny: "y = NO_LIT \<longleftrightarrow> \<not> ?ok b"
        using rb(3) lit_in_not_NO_LIT [OF g2, of y] g1(2) by (auto split: if_splits)
      show ?thesis
      proof (cases "?ok a \<and> ?ok b")
        case False
        then have "h = g2" "l = NO_LIT" using s(3) nx ny by auto
        with False True ext2 ra(2) rb(2) show ?thesis by auto
      next
        case ok: True
        then have j: "aig_join k g2 x y = (h, l)" using s(3) nx ny by simp
        have x: "lit_in (aig_vars g2) x" and y: "lit_in (aig_vars g2) y"
          using extends_lit [OF rb(1)] ra(3) rb(3) ok g1(2) by (auto split: if_splits)
        have n: "unat (nextvar g2) + 3 \<le> MAX_VAR" using g(2) ra(2) rb(2) by simp
        note r = join.result [OF g2 x y n j]
        have v: "aig_val g2 \<rho> x = sat \<infinity> (\<lambda>_. signal_letter g \<rho>) a 0"
          "aig_val g2 \<rho> y = sat \<infinity> (\<lambda>_. signal_letter g \<rho>) b 0" for \<rho>
        proof -
          show "aig_val g2 \<rho> x = sat \<infinity> (\<lambda>_. signal_letter g \<rho>) a 0"
            using ra(3) ok extends_val [OF rb(1), of x \<rho>] by (auto split: if_splits)
          have "sat \<infinity> (\<lambda>_. signal_letter g1 \<rho>) b 0 = sat \<infinity> (\<lambda>_. signal_letter g \<rho>) b 0"
            by (rule sat_propositional_cong) (use ok g1(3) in auto)
          then show "aig_val g2 \<rho> y = sat \<infinity> (\<lambda>_. signal_letter g \<rho>) b 0"
            using rb(3) ok g1(2) by (auto split: if_splits)
        qed
        have "aig_val h \<rho> l = sat \<infinity> (\<lambda>_. signal_letter g \<rho>) (Binary k a b) 0" for \<rho>
          unfolding sat_bin_bool [OF True] r(4) v ..
        with graph_extends_trans [OF ext2 r(1)] r(2,3) ra(2) rb(2) ok True show ?thesis by simp
      qed
    next
      case False
      then show ?thesis using g graph_extends_refl by (auto simp: well_registered_def)
    qed
  qed
qed (auto simp: compiles_def AIG_TRUE_def AIG_FALSE_def well_registered_def graph_extends_refl)

text \<open>
  C18. Compiling a formula into a graph only adds gates.  It fails exactly when the formula is not
  Boolean or names an unknown signal; otherwise the literal has, under every valuation of inputs
  and latches, the truth value of the formula over the registered signals.
\<close>

theorem aig_compile_correct:
  assumes "well_registered g" and "unat (nextvar g) + 3 * tree_size n \<le> MAX_VAR"
    and "aig_compile g n = (h, l)"
  shows "extends g h \<and> (l = NO_LIT \<longleftrightarrow> \<not> (propositional n \<and> atoms n \<subseteq> registered g)) \<and>
    (\<forall>\<rho>. l = NO_LIT \<or> aig_val h \<rho> l = sat \<infinity> (\<lambda>_. signal_letter g \<rho>) n 0)"
proof -
  have r: "extends g h" "if propositional n \<and> atoms n \<subseteq> registered g
       then lit_in (aig_vars h) l \<and> (\<forall>\<rho>. aig_val h \<rho> l = sat \<infinity> (\<lambda>_. signal_letter g \<rho>) n 0)
       else l = NO_LIT"
    using aig_compile_compiles [of n] assms unfolding compiles_def by blast+
  from r(2) lit_in_not_NO_LIT [OF extends_fields(10) [OF r(1)], of l] r(1) show ?thesis
    by (auto split: if_splits)
qed

theorem aig_compile_correct_witness:
  "\<exists>h l. aig_compile (fst (aig_input aig_new ''r'')) (node_equiv (NodeAp ''r'') (node_not (NodeAp ''r''))) = (h, l) \<and>
     (\<forall>\<rho>. \<not> aig_val h \<rho> l)"
proof -
  let ?g = "fst (aig_input aig_new ''r'')" and ?n = "node_equiv (NodeAp ''r'') (node_not (NodeAp ''r''))"
  have g: "?g = \<lparr>nextvar = 1, aig_ins = [\<lparr>in_name = Some ''r'', in_var = 1\<rparr>], aig_lats = [], aig_ands = [],
     aig_outs = [], aig_bads = [], aig_cons = [], aig_sigs = [\<lparr>n_name = Some ''r'', n_lit = 2\<rparr>],
     aig_justs = [], aig_fairs = []\<rparr>"
    by (simp add: aig_new_def aig_input_def reg_sig_def)
  have w: "well_registered ?g"
    unfolding g by (simp add: well_registered_def graph_ok_def leaf_vars_def aig_vars_def gate_vars_def lit_in_def MAX_VAR_def)
  have b: "unat (nextvar ?g) + 3 * tree_size ?n \<le> MAX_VAR" unfolding g by (simp add: MAX_VAR_def)
  obtain h l where c: "aig_compile ?g ?n = (h, l)" by (rule prod.exhaust)
  from aig_compile_correct [OF w b c]
  have "l \<noteq> NO_LIT" "\<forall>\<rho>. l = NO_LIT \<or> aig_val h \<rho> l = sat \<infinity> (\<lambda>_. signal_letter ?g \<rho>) ?n 0"
    by (auto simp: g registered_def)
  with c show ?thesis by auto
qed

end
