(* ===== verification/Aiger_Merge.thy ===== *)
theory Aiger_Merge
  imports Aiger_Correct
begin

text \<open>
  Merging two graphs: the copy of the source graph in the destination computes what the source
  computes on the destination's signals, as long as none of these signals is a negated literal.
\<close>

subsection \<open>The variable map\<close>

lemma traverse_Some: "traverse f xs = Some ys \<longleftrightarrow> list_all2 (\<lambda>x y. f x = Some y) xs ys"
  by (induction xs arbitrary: ys) (auto simp: list_all2_Cons1)

lemma traverse_ex: "\<forall>x\<in>set xs. \<exists>y. f x = Some y \<Longrightarrow> \<exists>ys. traverse f xs = Some ys"
  by (induction xs) auto

lemma unat_join: "unat v \<le> MAX_VAR \<Longrightarrow> unat (v * 2 OR (l AND 1) :: u32) = 2 * unat v + unat l mod 2"
proof -
  assume v: "unat v \<le> MAX_VAR"
  have "v * 2 OR (l AND 1) = v * 2 + (l AND 1)"
  proof (rule disjunctive_add_eq_or [symmetric])
    have "\<not> bit (v * 2) (0 :: nat)" unfolding mult.commute [of v] bit_double_iff by simp
    then show "v * 2 AND (l AND 1) = 0" by (intro bit_eqI) (auto simp: bit_simps intro: gr0I)
  qed
  moreover have "unat (l AND 1) = unat l mod 2" by (simp add: and_one_eq unat_mod)
  moreover have "unat (v * 2) + unat (l AND 1) < 2 ^ 32"
    using v unat_var_lit [OF v] \<open>unat (l AND 1) = unat l mod 2\<close> by (simp add: MAX_VAR_def)
  ultimately show ?thesis using unat_var_lit [OF v] by (simp add: unat_add_lem [THEN iffD1])
qed

text \<open>The array \<open>vmap\<close> sends the variables of \<open>V\<close> to the values they have under \<open>\<rho>\<close>.\<close>

definition mirrors :: "u32 list \<Rightarrow> nat set \<Rightarrow> nat \<Rightarrow> valuation \<Rightarrow> valuation \<Rightarrow> bool" where
  "mirrors vmap V n \<sigma> \<rho> \<longleftrightarrow> (\<forall>v\<in>V. v < length vmap \<and> unat (vmap ! v) \<le> n \<and>
     \<sigma> v = (unat (vmap ! v) \<noteq> 0 \<and> \<rho> (unat (vmap ! v))))"

definition image_ok :: "u32 list \<Rightarrow> nat set \<Rightarrow> nat set \<Rightarrow> bool" where
  "image_ok vmap V W \<longleftrightarrow> (\<forall>v\<in>V. v < length vmap \<and> (unat (vmap ! v) = 0 \<or> unat (vmap ! v) \<in> W))"

lemma remap_ok:
  assumes "lit_in V l" and "\<forall>v\<in>V. v < length vmap \<and> unat (vmap ! v) \<le> MAX_VAR"
  obtains l' where "remap vmap l = Some l'" "odd (unat l') = odd (unat l)"
    "var_of l' = (if var_of l = 0 then 0 else unat (vmap ! var_of l))"
proof (cases "l < 2")
  case True
  then have "var_of l = 0" by (simp add: word_less_nat_alt)
  with True show ?thesis using that [of l] by (simp add: remap_def)
next
  case False
  then have l: "var_of l \<noteq> 0" "unat (l div 2) = var_of l"
    by (simp_all add: word_less_nat_alt unat_div)
  with assms have v: "var_of l < length vmap" "unat (vmap ! var_of l) \<le> MAX_VAR" by (auto simp: lit_in_def)
  let ?l = "vmap ! var_of l * 2 OR (l AND 1)"
  have "unat ?l = 2 * unat (vmap ! var_of l) + unat l mod 2" by (rule unat_join [OF v(2)])
  then have "odd (unat ?l) = odd (unat l)" "var_of ?l = unat (vmap ! var_of l)" by presburger+
  with that [of ?l] False l v(1) show ?thesis by (simp add: remap_def array_get_def)
qed

lemma remap_val:
  assumes "lit_in V l" and "mirrors vmap V n \<sigma> \<rho>" and "n \<le> MAX_VAR" and "remap vmap l = Some l'"
  shows "lit_val \<rho> l' = lit_val \<sigma> l"
proof -
  have "\<forall>v\<in>V. v < length vmap \<and> unat (vmap ! v) \<le> MAX_VAR" using assms(2,3) by (auto simp: mirrors_def)
  from remap_ok [OF assms(1) this] obtain l'' where
    "remap vmap l = Some l''" "odd (unat l'') = odd (unat l)"
    "var_of l'' = (if var_of l = 0 then 0 else unat (vmap ! var_of l))" .
  with assms(1,2,4) show ?thesis by (auto simp: lit_val_def lit_in_def mirrors_def)
qed

lemma remap_in:
  assumes "lit_in V l" and "image_ok vmap V W" and "\<forall>v\<in>V. unat (vmap ! v) \<le> MAX_VAR"
    and "remap vmap l = Some l'"
  shows "lit_in W l'"
proof -
  have "\<forall>v\<in>V. v < length vmap \<and> unat (vmap ! v) \<le> MAX_VAR" using assms(2,3) by (auto simp: image_ok_def)
  from remap_ok [OF assms(1) this] obtain l'' where
    "remap vmap l = Some l''" "var_of l'' = (if var_of l = 0 then 0 else unat (vmap ! var_of l))" .
  with assms(1,2,4) show ?thesis by (auto simp: lit_in_def image_ok_def)
qed

subsection \<open>Copying the gates\<close>

text \<open>The variables of the copies are numbered from \<open>n + 1\<close> on.\<close>

definition numbered :: "u32 list \<Rightarrow> nat list \<Rightarrow> nat \<Rightarrow> bool" where
  "numbered vmap vs n \<longleftrightarrow> (\<forall>k<length vs. vs ! k < length vmap \<and> unat (vmap ! (vs ! k)) = Suc (n + k))"

lemma numbered_Cons [simp]:
  "numbered vmap (v # vs) n \<longleftrightarrow> v < length vmap \<and> unat (vmap ! v) = Suc n \<and> numbered vmap vs (Suc n)"
  by (auto simp: numbered_def nth_Cons less_Suc_eq_0_disj split: nat.splits)

lemma remap_gate_Some:
  "remap_gate vmap a = Some b \<longleftrightarrow> unat (g_var a) < length vmap \<and> g_var b = vmap ! unat (g_var a) \<and>
     remap vmap (g_r0 a) = Some (g_r0 b) \<and> remap vmap (g_r1 a) = Some (g_r1 b)"
  by (cases b) (auto simp: remap_gate_def array_get_def split: if_splits)

abbreviation gvars :: "gate list \<Rightarrow> nat list" where
  "gvars as \<equiv> map (unat \<circ> g_var) as"

lemma copied_gates_ok:
  assumes "gates_ok V as" and "image_ok vmap V W" and "numbered vmap (gvars as) n" and "W \<subseteq> {..n}"
    and "\<forall>v\<in>V. unat (vmap ! v) \<le> n" and "n + length as \<le> MAX_VAR"
  shows "\<exists>bs. traverse (remap_gate vmap) as = Some bs \<and> gates_ok W bs \<and> gvars bs = map (\<lambda>k. Suc (n + k)) [0..<length as]"
  using assms
proof (induction as arbitrary: V W n)
  case (Cons a as)
  let ?v = "unat (g_var a)"
  have v: "?v < length vmap" "unat (vmap ! ?v) = Suc n" using Cons.prems(3) by simp_all
  have V: "\<forall>v\<in>V. v < length vmap \<and> unat (vmap ! v) \<le> MAX_VAR"
    using Cons.prems(2,5,6) by (auto simp: image_ok_def)
  obtain r0 r1 where r: "remap vmap (g_r0 a) = Some r0" "remap vmap (g_r1 a) = Some r1"
    using remap_ok [OF _ V] Cons.prems(1) by (metis gates_ok.simps(2))
  let ?b = "\<lparr>g_var = vmap ! ?v, g_r0 = r0, g_r1 = r1\<rparr>"
  have b: "remap_gate vmap a = Some ?b" using v r by (simp add: remap_gate_Some)
  have in_W: "lit_in W r0" "lit_in W r1"
    using remap_in [OF _ Cons.prems(2) _ r(1)] remap_in [OF _ Cons.prems(2) _ r(2)] V Cons.prems(1) by auto
  have "\<exists>bs. traverse (remap_gate vmap) as = Some bs \<and> gates_ok (insert (Suc n) W) bs \<and>
      gvars bs = map (\<lambda>k. Suc (Suc n + k)) [0..<length as]"
  proof (rule Cons.IH [of "insert ?v V"])
    show "image_ok vmap (insert ?v V) (insert (Suc n) W)" using Cons.prems(2) v by (auto simp: image_ok_def)
  qed (use Cons.prems v in auto)
  then obtain bs where bs: "traverse (remap_gate vmap) as = Some bs" "gates_ok (insert (Suc n) W) bs"
    "gvars bs = map (\<lambda>k. Suc (Suc n + k)) [0..<length as]" by blast
  have "map (\<lambda>k. Suc (n + k)) [0..<Suc (length as)] = Suc n # map (\<lambda>k. Suc (Suc n + k)) [0..<length as]"
    by (subst upt_conv_Cons) (simp_all add: map_Suc_upt [symmetric] del: upt_Suc map_Suc_upt)
  with b bs in_W v Cons.prems(4) show ?case by (auto simp: comp_def)
qed simp

lemma copied_gates_run:
  assumes "gates_ok V as" and "numbered vmap (gvars as) n" and "mirrors vmap V n \<sigma> \<rho>"
    and "n + length as \<le> MAX_VAR" and "traverse (remap_gate vmap) as = Some bs"
  shows "mirrors vmap (V \<union> set (gvars as)) (n + length as) (run_gates as \<sigma>) (run_gates bs \<rho>)"
  using assms
proof (induction as arbitrary: V n \<sigma> \<rho> bs)
  case Nil
  then show ?case by simp
next
  case (Cons a as)
  let ?v = "unat (g_var a)"
  obtain b bs' where b: "remap_gate vmap a = Some b" "traverse (remap_gate vmap) as = Some bs'" "bs = b # bs'"
    using Cons.prems(5) by auto
  then have f: "unat (g_var b) = Suc n" "remap vmap (g_r0 a) = Some (g_r0 b)" "remap vmap (g_r1 a) = Some (g_r1 b)"
    using Cons.prems(2) by (simp_all add: remap_gate_Some)
  have n: "n \<le> MAX_VAR" using Cons.prems(4) by simp
  have va: "lit_val \<rho> (g_r0 b) = lit_val \<sigma> (g_r0 a)" "lit_val \<rho> (g_r1 b) = lit_val \<sigma> (g_r1 a)"
    using remap_val [OF _ Cons.prems(3) n f(2)] remap_val [OF _ Cons.prems(3) n f(3)] Cons.prems(1) by simp_all
  let ?x = "lit_val \<sigma> (g_r0 a) \<and> lit_val \<sigma> (g_r1 a)"
  have m: "mirrors vmap (insert ?v V) (Suc n) (\<sigma>(?v := ?x)) (\<rho>(Suc n := ?x))"
    using Cons.prems(1-3) by (fastforce simp: mirrors_def)
  have "mirrors vmap (insert ?v V \<union> set (gvars as)) (Suc n + length as)
      (run_gates as (\<sigma>(?v := ?x))) (run_gates bs' (\<rho>(Suc n := ?x)))"
    by (rule Cons.IH [OF _ _ m _ b(2)]) (use Cons.prems in auto)
  then show ?case using va f(1) by (simp add: b(3))
qed

subsection \<open>Building the map\<close>

lemma array_set_Some: "array_set xs v x = Some ys \<longleftrightarrow> unat v < length xs \<and> ys = xs[unat v := x]"
  by (auto simp: array_set_def)

lemma map_inputs_ok:
  assumes "distinct (map (unat \<circ> in_var) is)" and "\<forall>i\<in>set is. unat (in_var i) < length vmap"
    and "\<forall>i\<in>set is. aig_lookup dst (in_name i) \<noteq> NO_LIT"
  shows "\<exists>vm. map_inputs dst is vmap = Some (Some vm) \<and> length vm = length vmap \<and>
    (\<forall>i\<in>set is. vm ! unat (in_var i) = aig_lookup dst (in_name i) div 2) \<and>
    (\<forall>v. v \<notin> (unat \<circ> in_var) ` set is \<longrightarrow> vm ! v = vmap ! v)"
  using assms
proof (induction "is" arbitrary: vmap)
  case (Cons i js)
  let ?x = "aig_lookup dst (in_name i) div 2"
  let ?vm = "vmap[unat (in_var i) := ?x]"
  have "\<exists>vm. map_inputs dst js ?vm = Some (Some vm) \<and> length vm = length ?vm \<and>
    (\<forall>i\<in>set js. vm ! unat (in_var i) = aig_lookup dst (in_name i) div 2) \<and>
    (\<forall>v. v \<notin> (unat \<circ> in_var) ` set js \<longrightarrow> vm ! v = ?vm ! v)"
    by (rule Cons.IH) (use Cons.prems in auto)
  then obtain vm where vm: "map_inputs dst js ?vm = Some (Some vm)" "length vm = length vmap"
    "\<forall>i\<in>set js. vm ! unat (in_var i) = aig_lookup dst (in_name i) div 2"
    "\<forall>v. v \<notin> (unat \<circ> in_var) ` set js \<longrightarrow> vm ! v = ?vm ! v" by auto
  have "vm ! unat (in_var i) = ?x" using vm(4) Cons.prems(1,2) by simp
  moreover have "array_set vmap (in_var i) ?x = Some ?vm" using Cons.prems(2) by (simp add: array_set_def)
  ultimately show ?case using vm Cons.prems(3)
    by (intro exI [of _ vm]) (auto simp: Let_def)
qed simp

lemma map_inputs_missing:
  assumes "\<forall>i\<in>set is. unat (in_var i) < length vmap" and "\<exists>i\<in>set is. aig_lookup dst (in_name i) = NO_LIT"
  shows "map_inputs dst is vmap = Some None"
  using assms
proof (induction "is" arbitrary: vmap)
  case (Cons i js)
  show ?case
  proof (cases "aig_lookup dst (in_name i) = NO_LIT")
    case False
    have "map_inputs dst js (vmap[unat (in_var i) := aig_lookup dst (in_name i) div 2]) = Some None"
      by (rule Cons.IH) (use Cons.prems False in auto)
    with Cons.prems False show ?thesis by (simp add: array_set_def)
  qed simp
qed simp

lemma fresh_vars_ok:
  assumes "distinct (map unat vs)" and "\<forall>v\<in>set vs. unat v < length vmap" and "unat n + length vs \<le> MAX_VAR"
  shows "\<exists>vm m. fresh_vars vs n vmap = Some (vm, m) \<and> unat m = unat n + length vs \<and> length vm = length vmap \<and>
    numbered vm (map unat vs) (unat n) \<and> (\<forall>v. v \<notin> unat ` set vs \<longrightarrow> vm ! v = vmap ! v)"
  using assms
proof (induction vs arbitrary: n vmap)
  case (Cons v vs)
  let ?vm = "vmap[unat v := n + 1]"
  have n: "unat (n + 1) = Suc (unat n)" using Cons.prems(3) by (intro unat_var_Suc) simp
  have "\<exists>vm m. fresh_vars vs (n + 1) ?vm = Some (vm, m) \<and> unat m = unat (n + 1) + length vs \<and>
      length vm = length ?vm \<and> numbered vm (map unat vs) (unat (n + 1)) \<and>
      (\<forall>v. v \<notin> unat ` set vs \<longrightarrow> vm ! v = ?vm ! v)"
    by (rule Cons.IH) (use Cons.prems n in auto)
  then obtain vm m where vm: "fresh_vars vs (n + 1) ?vm = Some (vm, m)" "unat m = Suc (unat n) + length vs"
    "length vm = length vmap" "numbered vm (map unat vs) (Suc (unat n))"
    "\<forall>v. v \<notin> unat ` set vs \<longrightarrow> vm ! v = ?vm ! v" unfolding n by auto
  have "vm ! unat v = n + 1" using vm(5) Cons.prems(1,2) by simp
  moreover have "array_set vmap v (n + 1) = Some ?vm" using Cons.prems(2) by (simp add: array_set_def)
  ultimately show ?case using vm n Cons.prems(2) by (intro exI [of _ vm] exI [of _ m]) auto
qed (simp add: numbered_def)

subsection \<open>The merged graph\<close>

lemma remap_latch_Some:
  "remap_latch vmap l = Some m \<longleftrightarrow> unat (lat_var l) < length vmap \<and> lat_var m = vmap ! unat (lat_var l) \<and>
     remap vmap (lat_next l) = Some (lat_next m) \<and> lat_reset m = lat_reset l \<and> lat_name m = lat_name l"
  by (cases l; cases m) (auto simp: remap_latch_def array_get_def split: if_splits)

lemma reg_sig_fields [simp]:
  "nextvar (reg_sig g n l) = nextvar g" "aig_ins (reg_sig g n l) = aig_ins g"
  "aig_lats (reg_sig g n l) = aig_lats g" "aig_ands (reg_sig g n l) = aig_ands g"
  "aig_outs (reg_sig g n l) = aig_outs g" "aig_bads (reg_sig g n l) = aig_bads g"
  "aig_cons (reg_sig g n l) = aig_cons g" "aig_justs (reg_sig g n l) = aig_justs g"
  "aig_fairs (reg_sig g n l) = aig_fairs g"
  by (simp_all add: reg_sig_def)

lemma remove_output_fields [simp]:
  "nextvar (aig_remove_output g n) = nextvar g" "aig_ins (aig_remove_output g n) = aig_ins g"
  "aig_lats (aig_remove_output g n) = aig_lats g" "aig_ands (aig_remove_output g n) = aig_ands g"
  "aig_bads (aig_remove_output g n) = aig_bads g" "aig_cons (aig_remove_output g n) = aig_cons g"
  "aig_justs (aig_remove_output g n) = aig_justs g" "aig_fairs (aig_remove_output g n) = aig_fairs g"
  "aig_sigs (aig_remove_output g n) = aig_sigs g"
  by (simp_all add: aig_remove_output_def)

text \<open>The outputs of the source replace those of the same names.\<close>

definition new_outputs :: "u32 list \<Rightarrow> named list \<Rightarrow> named set" where
  "new_outputs vmap ss = {\<lparr>n_name = n_name s, n_lit = l\<rparr> |s l. s \<in> set ss \<and> remap vmap (n_lit s) = Some l}"

definition same_graph :: "aig \<Rightarrow> aig \<Rightarrow> bool" where
  "same_graph g h \<longleftrightarrow> nextvar h = nextvar g \<and> aig_ins h = aig_ins g \<and> aig_lats h = aig_lats g \<and>
     aig_ands h = aig_ands g \<and> aig_bads h = aig_bads g \<and> aig_cons h = aig_cons g \<and>
     aig_justs h = aig_justs g \<and> aig_fairs h = aig_fairs g"

definition outputs_merged :: "u32 list \<Rightarrow> named list \<Rightarrow> aig \<Rightarrow> aig \<Rightarrow> bool" where
  "outputs_merged vmap ss g h \<longleftrightarrow>
     set (aig_sigs h) = set (aig_sigs g) \<union> new_outputs vmap ss \<and>
     set (aig_outs h) \<subseteq> set (aig_outs g) \<union> new_outputs vmap ss \<and>
     (\<forall>n. n \<notin> n_name ` set ss \<longrightarrow> aig_output_lit h n = aig_output_lit g n) \<and>
     (distinct (map n_name ss) \<longrightarrow> (\<forall>s\<in>set ss. remap vmap (n_lit s) = Some (aig_output_lit h (n_name s))))"

lemma new_outputs_Cons:
  "remap vmap (n_lit s) = Some l \<Longrightarrow>
   new_outputs vmap (s # ss) = insert \<lparr>n_name = n_name s, n_lit = l\<rparr> (new_outputs vmap ss)"
  by (auto simp: new_outputs_def)

lemma find_append: "find P (xs @ ys) = (case find P xs of None \<Rightarrow> find P ys | r \<Rightarrow> r)"
  by (induction xs) auto

lemma find_filter: "(\<And>x. P x \<Longrightarrow> Q x) \<Longrightarrow> find P (filter Q xs) = find P xs"
  by (induction xs) auto

lemma find_filter_not: "find P (filter (\<lambda>x. \<not> P x) xs) = None"
  by (induction xs) auto

lemma replace_output:
  fixes g :: aig and l :: u32
  assumes "n \<noteq> None"
  defines "h \<equiv> aig_set_output (aig_remove_output g n) n l"
  shows "aig_sigs h = aig_sigs g @ [\<lparr>n_name = n, n_lit = l\<rparr>]"
    "aig_outs h = filter (\<lambda>x. n_name x \<noteq> n) (aig_outs g) @ [\<lparr>n_name = n, n_lit = l\<rparr>]"
    "aig_output_lit h m = (if m = n then l else aig_output_lit g m)" "same_graph g h"
proof -
  show s: "aig_sigs h = aig_sigs g @ [\<lparr>n_name = n, n_lit = l\<rparr>]"
    and o: "aig_outs h = filter (\<lambda>x. n_name x \<noteq> n) (aig_outs g) @ [\<lparr>n_name = n, n_lit = l\<rparr>]"
    using assms(1) by (auto simp: h_def aig_set_output_def reg_sig_def aig_remove_output_def)
  show "same_graph g h" by (simp add: same_graph_def h_def aig_set_output_def)
  show "aig_output_lit h m = (if m = n then l else aig_output_lit g m)"
  proof (cases "m = n")
    case True
    then show ?thesis using assms(1) find_filter_not [of "\<lambda>x. n_name x = n" "aig_outs g"]
      by (auto simp: aig_output_lit_def o find_append)
  next
    case False
    then have "find (\<lambda>x. n_name x = m) (filter (\<lambda>x. n_name x \<noteq> n) (aig_outs g)) =
        find (\<lambda>x. n_name x = m) (aig_outs g)" by (intro find_filter) auto
    with False show ?thesis by (simp add: aig_output_lit_def o find_append split: option.splits)
  qed
qed

lemma merge_outputs_ok:
  assumes "\<forall>s\<in>set ss. remap vmap (n_lit s) \<noteq> None \<and> n_name s \<noteq> None"
  shows "\<exists>h. merge_outputs vmap ss g = Some h \<and> same_graph g h \<and> outputs_merged vmap ss g h"
  using assms
proof (induction ss arbitrary: g)
  case Nil
  then show ?case by (simp add: same_graph_def outputs_merged_def new_outputs_def)
next
  case (Cons s ss)
  obtain l where l: "remap vmap (n_lit s) = Some l" using Cons.prems by auto
  let ?d = "aig_set_output (aig_remove_output g (n_name s)) (n_name s) l"
  have "n_name s \<noteq> None" using Cons.prems by simp
  note d = replace_output [OF this, of g l]
  from Cons.prems have "\<forall>s\<in>set ss. remap vmap (n_lit s) \<noteq> None \<and> n_name s \<noteq> None" by simp
  from Cons.IH [OF this, of ?d] obtain h where
    h: "merge_outputs vmap ss ?d = Some h" "same_graph ?d h" "outputs_merged vmap ss ?d h" by blast
  have "merge_outputs vmap (s # ss) g = Some h" using l h(1) by simp
  moreover have "same_graph g h" using d(4) h(2) by (simp add: same_graph_def)
  moreover have "outputs_merged vmap (s # ss) g h"
  proof -
    have "aig_output_lit h (n_name s) = l" if "n_name s \<notin> n_name ` set ss"
      using h(3) d(3) [of "n_name s"] that by (simp add: outputs_merged_def)
    then have "distinct (map n_name (s # ss)) \<longrightarrow>
        (\<forall>x\<in>set (s # ss). remap vmap (n_lit x) = Some (aig_output_lit h (n_name x)))"
      using h(3) l by (auto simp: outputs_merged_def)
    moreover have "\<forall>n. n \<notin> n_name ` set (s # ss) \<longrightarrow> aig_output_lit h n = aig_output_lit g n"
      using h(3) d(3) by (auto simp: outputs_merged_def)
    moreover have "set (aig_sigs h) = set (aig_sigs g) \<union> new_outputs vmap (s # ss)"
      using h(3) unfolding new_outputs_Cons [where ss = ss, OF l] outputs_merged_def d(1) by simp
    moreover have "set (aig_outs h) \<subseteq> set (aig_outs g) \<union> new_outputs vmap (s # ss)"
      using h(3) unfolding new_outputs_Cons [where ss = ss, OF l] outputs_merged_def d(2) by auto
    ultimately show ?thesis unfolding outputs_merged_def by (intro conjI)
  qed
  ultimately show ?case by blast
qed

text \<open>
  The facts about a merge: the variable map, the copies of the latches and gates, and the graph
  before its outputs are replaced.
\<close>

definition merge_map :: "aig \<Rightarrow> aig \<Rightarrow> u32 list \<Rightarrow> bool" where
  "merge_map dst src vm \<longleftrightarrow> length vm = Suc (unat (nextvar src)) \<and>
     (\<forall>i\<in>set (aig_ins src). vm ! unat (in_var i) = aig_lookup dst (in_name i) div 2) \<and>
     numbered vm (map (unat \<circ> lat_var) (aig_lats src)) (unat (nextvar dst)) \<and>
     numbered vm (gvars (aig_ands src)) (unat (nextvar dst) + length (aig_lats src))"

definition mergeable :: "aig \<Rightarrow> aig \<Rightarrow> bool" where
  "mergeable dst src \<longleftrightarrow> aig_ok dst \<and> aig_ok src \<and> initialised dst \<and> initialised src \<and>
     (\<forall>i\<in>set (aig_ins src). even (unat (aig_lookup dst (in_name i)))) \<and>
     unat (nextvar dst) + length (aig_lats src) + length (aig_ands src) \<le> MAX_VAR"

lemma distinct_gvars: "gates_ok V as \<Longrightarrow> distinct (gvars as) \<and> set (gvars as) \<inter> insert 0 V = {}"
proof (induction as arbitrary: V)
  case (Cons a as)
  then show ?case using Cons.IH [of "insert (unat (g_var a)) V"] by auto
qed simp

lemma lookup_in:
  assumes "aig_ok g" and "aig_lookup g n \<noteq> NO_LIT"
  shows "lit_in (aig_vars g) (aig_lookup g n)"
proof (cases n)
  case None
  with assms(2) show ?thesis by (simp add: aig_lookup_def)
next
  case (Some p)
  have "well_registered g" using assms(1) by (auto simp: aig_ok_def lits_ok_def well_registered_def)
  from aig_lookup_Some [OF this, of p] assms(2) Some show ?thesis by simp
qed

lemma even_not_NO_LIT: "even (unat l) \<Longrightarrow> l \<noteq> NO_LIT"
  by (auto simp: NO_LIT_def unsigned_minus_1_eq_mask mask_eq_exp_minus_1)

lemma length_vars: "graph_ok g \<Longrightarrow> v \<in> aig_vars g \<Longrightarrow> v < Suc (unat (nextvar g))"
  by (auto simp: graph_ok_def)

lemma merge_map_ex:
  assumes m: "mergeable dst src"
  shows "\<exists>vm1 vm2 n1 vm n. map_inputs dst (aig_ins src) (replicate (unat (nextvar src + 1)) 0) = Some (Some vm1) \<and>
    fresh_vars (map lat_var (aig_lats src)) (nextvar dst) vm1 = Some (vm2, n1) \<and>
    fresh_vars (map g_var (aig_ands src)) n1 vm2 = Some (vm, n) \<and>
    unat n = unat (nextvar dst) + length (aig_lats src) + length (aig_ands src) \<and> merge_map dst src vm"
proof -
  have src: "graph_ok src" using m by (simp add: mergeable_def aig_ok_def)
  have "unat (nextvar src) \<le> MAX_VAR" using src by (simp add: graph_ok_def)
  then have len: "unat (nextvar src + 1) = Suc (unat (nextvar src))" by (simp add: MAX_VAR_def unat_word_ariths)
  let ?z = "replicate (unat (nextvar src + 1)) (0 :: u32)"
  note lv = length_vars [OF src, folded len]
  have dist: "distinct (map (unat \<circ> in_var) (aig_ins src))" "distinct (map unat (map lat_var (aig_lats src)))"
    "distinct (map unat (map g_var (aig_ands src)))"
    "(unat \<circ> in_var) ` set (aig_ins src) \<inter> unat ` set (map lat_var (aig_lats src)) = {}"
    "(unat \<circ> in_var) ` set (aig_ins src) \<inter> unat ` set (map g_var (aig_ands src)) = {}"
    "unat ` set (map lat_var (aig_lats src)) \<inter> unat ` set (map g_var (aig_ands src)) = {}"
    using src distinct_gvars [of "set (leaf_vars src)" "aig_ands src"]
    by (auto simp: graph_ok_def leaf_vars_def comp_def)
  have bnd: "\<forall>i\<in>set (aig_ins src). unat (in_var i) < length ?z" "\<forall>v\<in>set (map lat_var (aig_lats src)). unat v < length ?z"
    "\<forall>v\<in>set (map g_var (aig_ands src)). unat v < length ?z"
    using lv by (auto simp: aig_vars_def leaf_vars_def gate_vars_def)
  have look: "\<forall>i\<in>set (aig_ins src). aig_lookup dst (in_name i) \<noteq> NO_LIT"
    using m even_not_NO_LIT by (auto simp: mergeable_def)
  from map_inputs_ok [OF dist(1) bnd(1) look] obtain vm1 where
    1: "map_inputs dst (aig_ins src) ?z = Some (Some vm1)" "length vm1 = length ?z"
    "\<forall>i\<in>set (aig_ins src). vm1 ! unat (in_var i) = aig_lookup dst (in_name i) div 2" by blast
  have "unat (nextvar dst) + length (map lat_var (aig_lats src)) \<le> MAX_VAR" using m by (simp add: mergeable_def)
  from fresh_vars_ok [OF dist(2) bnd(2) [folded 1(2)] this] obtain vm2 n1 where
    2: "fresh_vars (map lat_var (aig_lats src)) (nextvar dst) vm1 = Some (vm2, n1)"
    "unat n1 = unat (nextvar dst) + length (aig_lats src)" "length vm2 = length ?z"
    "numbered vm2 (map unat (map lat_var (aig_lats src))) (unat (nextvar dst))"
    "\<forall>v. v \<notin> unat ` set (map lat_var (aig_lats src)) \<longrightarrow> vm2 ! v = vm1 ! v" using 1(2) by auto
  have "unat n1 + length (map g_var (aig_ands src)) \<le> MAX_VAR" using m 2(2) by (simp add: mergeable_def)
  from fresh_vars_ok [OF dist(3) bnd(3) [folded 2(3)] this] obtain vm n where
    3: "fresh_vars (map g_var (aig_ands src)) n1 vm2 = Some (vm, n)"
    "unat n = unat n1 + length (aig_ands src)" "length vm = length ?z"
    "numbered vm (map unat (map g_var (aig_ands src))) (unat n1)"
    "\<forall>v. v \<notin> unat ` set (map g_var (aig_ands src)) \<longrightarrow> vm ! v = vm2 ! v" using 2(3) by auto
  have "vm ! unat (in_var i) = aig_lookup dst (in_name i) div 2" if "i \<in> set (aig_ins src)" for i
  proof -
    have i: "unat (in_var i) \<in> (unat \<circ> in_var) ` set (aig_ins src)" using that by simp
    have "unat (in_var i) \<notin> unat ` set (map lat_var (aig_lats src))" using i dist(4) by blast
    moreover have "unat (in_var i) \<notin> unat ` set (map g_var (aig_ands src))" using i dist(5) by blast
    ultimately show ?thesis using 1(3) 2(5) 3(5) that by simp
  qed
  moreover have "numbered vm (map (unat \<circ> lat_var) (aig_lats src)) (unat (nextvar dst))"
  proof -
    have "vm ! (map unat (map lat_var (aig_lats src)) ! k) = vm2 ! (map unat (map lat_var (aig_lats src)) ! k)"
      if "k < length (aig_lats src)" for k
    proof -
      have "map unat (map lat_var (aig_lats src)) ! k \<in> unat ` set (map lat_var (aig_lats src))" using that by simp
      then show ?thesis using 3(5) dist(6) by blast
    qed
    then show ?thesis using 2(3,4) 3(3) by (simp add: numbered_def)
  qed
  ultimately have "merge_map dst src vm"
    using 2(2) 3(3,4) len by (simp add: merge_map_def)
  with 1(1) 2(1,2) 3(1,2) show ?thesis by auto
qed

lemma merge_map_bound:
  assumes "mergeable dst src" and "merge_map dst src vm"
  shows "image_ok vm (set (leaf_vars src))
      (aig_vars dst \<union> {unat (nextvar dst) <.. unat (nextvar dst) + length (aig_lats src)})"
    and "\<forall>v\<in>set (leaf_vars src). unat (vm ! v) \<le> unat (nextvar dst) + length (aig_lats src)"
    and "\<forall>v\<in>aig_vars src. v < length vm \<and> unat (vm ! v) \<le> MAX_VAR"
proof -
  have src: "graph_ok src" and dst: "aig_ok dst" "graph_ok dst"
    using assms(1) by (simp_all add: mergeable_def aig_ok_def)
  have len: "v < length vm" if "v \<in> aig_vars src" for v
    using length_vars [OF src that] assms(2) by (simp add: merge_map_def)
  have ins: "unat (vm ! unat (in_var i)) = 0 \<or> unat (vm ! unat (in_var i)) \<in> aig_vars dst"
    if "i \<in> set (aig_ins src)" for i
  proof -
    have "lit_in (aig_vars dst) (aig_lookup dst (in_name i))"
      using assms(1) that even_not_NO_LIT lookup_in [OF dst(1)] by (auto simp: mergeable_def)
    then show ?thesis using assms(2) that by (simp add: merge_map_def unat_div lit_in_def)
  qed
  have lat: "unat (vm ! unat (lat_var l)) \<in> {unat (nextvar dst) <.. unat (nextvar dst) + length (aig_lats src)}"
    if l: "l \<in> set (aig_lats src)" for l
  proof -
    obtain k where "k < length (aig_lats src)" "l = aig_lats src ! k" using l by (metis in_set_conv_nth)
    then show ?thesis using assms(2) by (simp add: merge_map_def numbered_def)
  qed
  have leaf: "v \<in> set (leaf_vars src) \<Longrightarrow> v \<in> aig_vars src" for v by (simp add: aig_vars_def)
  show 1: "image_ok vm (set (leaf_vars src))
      (aig_vars dst \<union> {unat (nextvar dst) <.. unat (nextvar dst) + length (aig_lats src)})"
    unfolding image_ok_def
  proof (intro ballI conjI)
    fix v assume v: "v \<in> set (leaf_vars src)"
    show "v < length vm" by (rule len [OF leaf [OF v]])
    from v consider i where "i \<in> set (aig_ins src)" "v = unat (in_var i)"
      | l where "l \<in> set (aig_lats src)" "v = unat (lat_var l)" by (auto simp: leaf_vars_def)
    then show "unat (vm ! v) = 0 \<or> unat (vm ! v) \<in>
        aig_vars dst \<union> {unat (nextvar dst) <.. unat (nextvar dst) + length (aig_lats src)}"
    proof cases
      case 1
      with ins [OF 1(1)] show ?thesis by blast
    next
      case 2
      with lat [OF 2(1)] show ?thesis by blast
    qed
  qed
  have dv: "x \<le> unat (nextvar dst)" if "x \<in> aig_vars dst" for x using length_vars [OF dst(2) that] by simp
  show 2: "\<forall>v\<in>set (leaf_vars src). unat (vm ! v) \<le> unat (nextvar dst) + length (aig_lats src)"
    using 1 dv unfolding image_ok_def by fastforce
  have "unat (vm ! v) \<le> unat (nextvar dst) + length (aig_lats src) + length (aig_ands src)"
    if "v \<in> gate_vars src" for v
  proof -
    from that obtain k where "k < length (aig_ands src)" "v = gvars (aig_ands src) ! k"
      by (auto simp: gate_vars_def in_set_conv_nth)
    then show ?thesis using assms(2) by (simp add: merge_map_def numbered_def)
  qed
  with 2 assms(1) len show "\<forall>v\<in>aig_vars src. v < length vm \<and> unat (vm ! v) \<le> MAX_VAR"
    by (fastforce simp: aig_vars_def mergeable_def)
qed

text \<open>The copies of latches and gates, and the graph \<open>h\<close> that holds them.\<close>

definition merged :: "aig \<Rightarrow> aig \<Rightarrow> u32 list \<Rightarrow> latch list \<Rightarrow> gate list \<Rightarrow> aig \<Rightarrow> bool" where
  "merged dst src vm ls bs h \<longleftrightarrow> merge_map dst src vm \<and>
     traverse (remap_latch vm) (aig_lats src) = Some ls \<and> traverse (remap_gate vm) (aig_ands src) = Some bs \<and>
     unat (nextvar h) = unat (nextvar dst) + length (aig_lats src) + length (aig_ands src) \<and>
     aig_ins h = aig_ins dst \<and> aig_lats h = aig_lats dst @ ls \<and> aig_ands h = aig_ands dst @ bs \<and>
     aig_bads h = aig_bads dst \<and> aig_cons h = aig_cons dst \<and> aig_justs h = aig_justs dst \<and>
     aig_fairs h = aig_fairs dst \<and> outputs_merged vm (aig_outs src) dst h"

lemma traverse_nth:
  assumes "traverse f xs = Some ys"
  shows "length ys = length xs" "k < length xs \<Longrightarrow> f (xs ! k) = Some (ys ! k)"
  using assms by (auto simp: traverse_Some list_all2_conv_all_nth)

lemma aig_merge_merged:
  assumes m: "mergeable dst src" and names: "\<forall>s\<in>set (aig_outs src). n_name s \<noteq> None"
  shows "\<exists>vm ls bs h. aig_merge dst src = Some (h, True) \<and> merged dst src vm ls bs h"
proof -
  have src: "graph_ok src" "lits_ok src" using m by (simp_all add: mergeable_def aig_ok_def)
  from merge_map_ex [OF m] obtain vm1 vm2 n1 vm n where
    v: "map_inputs dst (aig_ins src) (replicate (unat (nextvar src + 1)) 0) = Some (Some vm1)"
    "fresh_vars (map lat_var (aig_lats src)) (nextvar dst) vm1 = Some (vm2, n1)"
    "fresh_vars (map g_var (aig_ands src)) n1 vm2 = Some (vm, n)"
    "unat n = unat (nextvar dst) + length (aig_lats src) + length (aig_ands src)" "merge_map dst src vm"
    by (elim exE conjE)
  note b = merge_map_bound [OF m v(5)]
  have rm: "\<exists>l'. remap vm l = Some l'" if l: "lit_in (aig_vars src) l" for l
    using remap_ok [OF l b(3)] by blast
  have "\<exists>y. remap_latch vm l = Some y" if l: "l \<in> set (aig_lats src)" for l
  proof -
    have "unat (lat_var l) < length vm" using b(3) l by (auto simp: aig_vars_def leaf_vars_def)
    moreover obtain l' where "remap vm (lat_next l) = Some l'"
      using rm [of "lat_next l"] src(2) l by (auto simp: lits_ok_def)
    ultimately show ?thesis by (auto simp: remap_latch_def array_get_def)
  qed
  then obtain ls where ls: "traverse (remap_latch vm) (aig_lats src) = Some ls"
    using traverse_ex [of "aig_lats src" "remap_latch vm"] by blast
  have nb: "numbered vm (gvars (aig_ands src)) (unat (nextvar dst) + length (aig_lats src))"
    using v(5) by (simp add: merge_map_def)
  have dv: "aig_vars dst \<subseteq> {..unat (nextvar dst)}" using m by (simp add: mergeable_def aig_ok_def graph_ok_def)
  have "aig_vars dst \<union> {unat (nextvar dst) <.. unat (nextvar dst) + length (aig_lats src)} \<subseteq>
      {..unat (nextvar dst) + length (aig_lats src)}" using dv by auto
  from copied_gates_ok [OF _ b(1) nb this b(2)] src(1) m obtain bs where
    bs: "traverse (remap_gate vm) (aig_ands src) = Some bs" by (auto simp: graph_ok_def mergeable_def)
  let ?d = "dst\<lparr>nextvar := n, aig_lats := aig_lats dst @ ls, aig_ands := aig_ands dst @ bs\<rparr>"
  have "\<forall>s\<in>set (aig_outs src). remap vm (n_lit s) \<noteq> None \<and> n_name s \<noteq> None"
    using rm src(2) names by (fastforce simp: lits_ok_def)
  from merge_outputs_ok [OF this, of ?d] obtain h where
    h: "merge_outputs vm (aig_outs src) ?d = Some h" "same_graph ?d h" "outputs_merged vm (aig_outs src) ?d h" by blast
  have "aig_output_lit ?d x = aig_output_lit dst x" for x by (simp add: aig_output_lit_def)
  then have "outputs_merged vm (aig_outs src) dst h" using h(3) by (simp add: outputs_merged_def)
  with h(2) v(4,5) ls bs have "merged dst src vm ls bs h" by (simp add: merged_def same_graph_def)
  moreover have "aig_merge dst src = Some (h, True)"
    using v(1-3) ls bs h(1) by (simp add: aig_merge_def)
  ultimately show ?thesis by blast
qed

lemma merged_latches:
  assumes "merged dst src vm ls bs h"
  shows "length ls = length (aig_lats src)"
    "map (unat \<circ> lat_var) ls = map (\<lambda>k. Suc (unat (nextvar dst) + k)) [0..<length ls]"
    "\<And>k. k < length ls \<Longrightarrow> lat_reset (ls ! k) = lat_reset (aig_lats src ! k) \<and>
       remap vm (lat_next (aig_lats src ! k)) = Some (lat_next (ls ! k))"
proof -
  have t: "traverse (remap_latch vm) (aig_lats src) = Some ls" using assms by (simp add: merged_def)
  note n = traverse_nth [OF t]
  show l: "length ls = length (aig_lats src)" by (rule n(1))
  have k: "lat_var (ls ! k) = vm ! unat (lat_var (aig_lats src ! k)) \<and> lat_reset (ls ! k) = lat_reset (aig_lats src ! k) \<and>
      remap vm (lat_next (aig_lats src ! k)) = Some (lat_next (ls ! k))" if "k < length ls" for k
    using n(2) [of k] that l by (simp add: remap_latch_Some)
  then show "\<And>k. k < length ls \<Longrightarrow> lat_reset (ls ! k) = lat_reset (aig_lats src ! k) \<and>
       remap vm (lat_next (aig_lats src ! k)) = Some (lat_next (ls ! k))" by blast
  show "map (unat \<circ> lat_var) ls = map (\<lambda>k. Suc (unat (nextvar dst) + k)) [0..<length ls]"
  proof (rule nth_equalityI)
    fix i assume "i < length (map (unat \<circ> lat_var) ls)"
    then show "map (unat \<circ> lat_var) ls ! i = map (\<lambda>k. Suc (unat (nextvar dst) + k)) [0..<length ls] ! i"
      using k [of i] l assms by (simp add: merged_def merge_map_def numbered_def)
  qed simp
qed

lemma Suc_image: "(\<lambda>k. Suc (n + k)) ` {0..<l} = {n<..n + l}"
proof (rule set_eqI, rule iffI)
  fix x assume "x \<in> {n<..n + l}"
  then have "x = Suc (n + (x - Suc n))" "x - Suc n \<in> {0..<l}" by auto
  then show "x \<in> (\<lambda>k. Suc (n + k)) ` {0..<l}" by blast
qed auto

lemma merged_graph_ok:
  assumes m: "mergeable dst src" and h: "merged dst src vm ls bs h"
  shows "graph_ok h" "aig_vars dst \<subseteq> aig_vars h"
    "gates_ok (aig_vars dst \<union> {unat (nextvar dst) <.. unat (nextvar dst) + length (aig_lats src)}) bs"
    "leaf_vars h = leaf_vars dst @ map (\<lambda>k. Suc (unat (nextvar dst) + k)) [0..<length ls]"
    "gvars bs = map (\<lambda>k. Suc (unat (nextvar dst) + length (aig_lats src) + k)) [0..<length (aig_ands src)]"
proof -
  let ?n = "unat (nextvar dst)" and ?l = "length (aig_lats src)"
  have src: "graph_ok src" and dst: "graph_ok dst" using m by (simp_all add: mergeable_def aig_ok_def)
  have mm: "merge_map dst src vm" and bt: "traverse (remap_gate vm) (aig_ands src) = Some bs"
    using h by (simp_all add: merged_def)
  note b = merge_map_bound [OF m mm]
  note lt = merged_latches [OF h]
  have dv: "aig_vars dst \<subseteq> {..?n}" using dst by (simp add: graph_ok_def)
  have nb: "numbered vm (gvars (aig_ands src)) (?n + ?l)" using mm by (simp add: merge_map_def)
  have "aig_vars dst \<union> {?n <.. ?n + ?l} \<subseteq> {..?n + ?l}" using dv by auto
  from copied_gates_ok [OF _ b(1) nb this b(2)] src m bt
  show g: "gates_ok (aig_vars dst \<union> {?n <.. ?n + ?l}) bs"
    and gv: "gvars bs = map (\<lambda>k. Suc (?n + ?l + k)) [0..<length (aig_ands src)]"
    by (auto simp: graph_ok_def mergeable_def)
  show leaf: "leaf_vars h = leaf_vars dst @ map (\<lambda>k. Suc (?n + k)) [0..<length ls]"
    using h lt(2) by (simp add: leaf_vars_def merged_def)
  have new: "set (map (\<lambda>k. Suc (?n + k)) [0..<length ls]) = {?n <.. ?n + ?l}"
    unfolding lt(1) set_map set_upt by (rule Suc_image)
  have dl: "set (leaf_vars dst) \<subseteq> aig_vars dst" by (simp add: aig_vars_def)
  have ands: "aig_ands h = aig_ands dst @ bs" using h by (simp add: merged_def)
  have sl: "set (leaf_vars h) = set (leaf_vars dst) \<union> {?n <.. ?n + ?l}" unfolding leaf new [symmetric] by simp
  have "distinct (leaf_vars h)" "0 \<notin> set (leaf_vars h)"
    using dst dv dl new unfolding leaf by (auto simp: graph_ok_def distinct_map inj_on_def)
  moreover have "gates_ok (set (leaf_vars h)) (aig_ands h)"
  proof -
    have "gates_ok (set (leaf_vars h)) (aig_ands dst)"
      by (rule gates_ok_mono [of "set (leaf_vars dst)"])
         (use dst dv distinct_gvars [of "set (leaf_vars dst)" "aig_ands dst"] in
           \<open>auto simp: graph_ok_def sl aig_vars_def gate_vars_def\<close>)
    moreover have "set (leaf_vars h) \<union> (unat \<circ> g_var) ` set (aig_ands dst) =
        aig_vars dst \<union> {?n <.. ?n + ?l}" by (auto simp: sl aig_vars_def gate_vars_def)
    ultimately show ?thesis using g by (simp add: ands gates_ok_append)
  qed
  moreover have vars: "aig_vars h = aig_vars dst \<union> {?n <.. ?n + ?l} \<union> set (gvars bs)"
    by (auto simp: aig_vars_def gate_vars_def sl ands)
  moreover have "unat (nextvar h) = ?n + ?l + length (aig_ands src)" using h by (simp add: merged_def)
  moreover have "aig_vars h \<subseteq> {..unat (nextvar h)}"
    unfolding vars gv using dv calculation(5) by auto
  ultimately show "graph_ok h" using m by (simp add: graph_ok_def mergeable_def)
  show "aig_vars dst \<subseteq> aig_vars h" unfolding vars by blast
qed

subsection \<open>Values and runs of the merged graph\<close>

lemma merged_val_dst:
  assumes "mergeable dst src" and "merged dst src vm ls bs h" and "lit_in (aig_vars dst) l"
  shows "aig_val h \<rho> l = aig_val dst \<rho> l"
proof -
  have "v \<notin> (unat \<circ> g_var) ` set bs" if "v \<in> aig_vars dst" for v
    using gates_ok_fresh [OF merged_graph_ok(3) [OF assms(1,2)]] that by fastforce
  then have "lit_val (run_gates bs (run_gates (aig_ands dst) \<rho>)) l = lit_val (run_gates (aig_ands dst) \<rho>) l"
    by (intro lit_val_cong [OF assms(3)] run_gates_other)
  moreover have "aig_ands h = aig_ands dst @ bs" using assms(2) by (simp add: merged_def)
  ultimately show ?thesis by (simp add: aig_val_def)
qed

lemma merged_val_src:
  assumes m: "mergeable dst src" and h: "merged dst src vm ls bs h"
    and ins: "\<forall>i\<in>set (aig_ins src). \<sigma> (unat (in_var i)) = aig_val dst \<rho> (aig_lookup dst (in_name i))"
    and lats: "\<forall>k<length ls. \<sigma> (unat (lat_var (aig_lats src ! k))) = \<rho> (Suc (unat (nextvar dst) + k))"
    and l: "lit_in (aig_vars src) l" "remap vm l = Some l'"
  shows "aig_val h \<rho> l' = aig_val src \<sigma> l"
proof -
  let ?n = "unat (nextvar dst)" and ?k = "length (aig_lats src)"
  let ?\<rho> = "run_gates (aig_ands dst) \<rho>"
  have ok: "graph_ok src" "graph_ok dst" "aig_ok dst" using m by (simp_all add: mergeable_def aig_ok_def)
  have mm: "merge_map dst src vm" and bt: "traverse (remap_gate vm) (aig_ands src) = Some bs"
    using h by (simp_all add: merged_def)
  note b = merge_map_bound [OF m mm]
  have "mirrors vm (set (leaf_vars src)) (?n + ?k) \<sigma> ?\<rho>"
    unfolding mirrors_def
  proof (intro ballI conjI)
    fix v assume v: "v \<in> set (leaf_vars src)"
    show "unat (vm ! v) \<le> ?n + ?k" using b(2) v by blast
    show "v < length vm" using b(3) v by (simp add: aig_vars_def)
    from v consider i where "i \<in> set (aig_ins src)" "v = unat (in_var i)"
      | k where "k < ?k" "v = unat (lat_var (aig_lats src ! k))"
      by (auto simp: leaf_vars_def in_set_conv_nth)
    then show "\<sigma> v = (unat (vm ! v) \<noteq> 0 \<and> ?\<rho> (unat (vm ! v)))"
    proof cases
      case 1
      have "even (unat (aig_lookup dst (in_name i)))" using m 1(1) by (simp add: mergeable_def)
      moreover have "unat (vm ! v) = var_of (aig_lookup dst (in_name i))"
        using mm 1 by (simp add: merge_map_def unat_div)
      ultimately show ?thesis using ins 1 by (simp add: aig_val_def lit_val_def)
    next
      case 2
      have "unat (vm ! v) = Suc (?n + k)" using mm 2 by (simp add: merge_map_def numbered_def)
      moreover have "Suc (?n + k) \<notin> (unat \<circ> g_var) ` set (aig_ands dst)"
        using ok(2) by (auto simp: graph_ok_def aig_vars_def gate_vars_def)
      ultimately show ?thesis using lats 2 merged_latches(1) [OF h] by (simp add: run_gates_other)
    qed
  qed
  from copied_gates_run [OF _ _ this _ bt] ok(1) mm m
  have "mirrors vm (set (leaf_vars src) \<union> set (gvars (aig_ands src))) (?n + ?k + length (aig_ands src))
      (run_gates (aig_ands src) \<sigma>) (run_gates bs ?\<rho>)"
    by (simp add: graph_ok_def merge_map_def mergeable_def)
  moreover have "lit_in (set (leaf_vars src) \<union> set (gvars (aig_ands src))) l"
    using l(1) by (simp add: aig_vars_def gate_vars_def image_comp)
  moreover have "run_gates (aig_ands h) \<rho> = run_gates bs ?\<rho>" using h by (simp add: merged_def)
  ultimately show ?thesis unfolding aig_val_def using remap_val [OF _ _ _ l(2)] m
    by (simp add: mergeable_def)
qed

lemma leaf_val_append:
  assumes "leaf_vars h = leaf_vars g @ vs" and "length is + length st = length (leaf_vars g)"
    and "length vs = length su" and "distinct (leaf_vars h)"
  shows "v \<in> set (leaf_vars g) \<Longrightarrow> leaf_val h is (st @ su) v = leaf_val g is st v"
    and "k < length vs \<Longrightarrow> leaf_val h is (st @ su) (vs ! k) = su ! k"
proof -
  have z: "map_of (zip (leaf_vars h) (is @ st @ su)) =
      map_of (zip vs su) ++ map_of (zip (leaf_vars g) (is @ st))"
    using zip_append [of "leaf_vars g" "is @ st" vs su] assms(2) by (simp add: assms(1))
  have d: "distinct vs" "set (leaf_vars g) \<inter> set vs = {}" using assms(4) unfolding assms(1) by auto
  have dom: "v \<in> set (leaf_vars g) \<Longrightarrow> \<exists>x. map_of (zip (leaf_vars g) (is @ st)) v = Some x" for v
    using assms(2) map_of_zip_is_Some [of "leaf_vars g" "is @ st" v] by simp
  show "leaf_val h is (st @ su) v = leaf_val g is st v" if "v \<in> set (leaf_vars g)"
    using dom [OF that] unfolding leaf_val_def z by (auto simp: map_add_def)
  show "leaf_val h is (st @ su) (vs ! k) = su ! k" if k: "k < length vs"
  proof -
    have "vs ! k \<notin> set (leaf_vars g)" using d(2) nth_mem [OF k] by blast
    then have "map_of (zip (leaf_vars g) (is @ st)) (vs ! k) = None"
      by (auto simp: map_of_eq_None_iff dest: set_zip_leftD)
    moreover have "map_of (zip vs su) (vs ! k) = Some (su ! k)"
      by (rule map_of_zip_nth [OF assms(3) d(1)]) (use k assms(3) in simp)
    ultimately show ?thesis unfolding leaf_val_def z by (simp add: map_add_def)
  qed
qed

text \<open>The inputs the source sees: the values of the destination's signals.\<close>

definition fed_inputs :: "aig \<Rightarrow> aig \<Rightarrow> (nat \<Rightarrow> bool list) \<Rightarrow> nat \<Rightarrow> bool list" where
  "fed_inputs dst src is t = map (\<lambda>i. aig_at dst is t (aig_lookup dst (in_name i))) (aig_ins src)"

lemma merged_step:
  assumes m: "mergeable dst src" and h: "merged dst src vm ls bs h"
    and len: "length i = length (aig_ins dst)" "length st = length (aig_lats dst)" "length su = length (aig_lats src)"
    and js: "js = map (\<lambda>x. aig_val dst (leaf_val dst i st) (aig_lookup dst (in_name x))) (aig_ins src)"
  shows "lit_in (aig_vars dst) l \<Longrightarrow> aig_val h (leaf_val h i (st @ su)) l = aig_val dst (leaf_val dst i st) l"
    and "lit_in (aig_vars src) l \<Longrightarrow> remap vm l = Some l' \<Longrightarrow>
      aig_val h (leaf_val h i (st @ su)) l' = aig_val src (leaf_val src js su) l"
proof -
  note ok = merged_graph_ok [OF m h]
  have dst: "graph_ok dst" "aig_ok dst" and src: "graph_ok src" using m by (simp_all add: mergeable_def aig_ok_def)
  have ll: "length ls = length (aig_lats src)" by (rule merged_latches(1) [OF h])
  have hl: "distinct (leaf_vars h)" using ok(1) by (simp add: graph_ok_def)
  have dl: "length i + length st = length (leaf_vars dst)" using len(1,2) by (simp add: leaf_vars_def)
  let ?new = "map (\<lambda>k. Suc (unat (nextvar dst) + k)) [0..<length ls]"
  have nl: "length ?new = length su" using ll len(3) by simp
  note lv = leaf_val_append [OF ok(4) dl nl hl]
  have old: "aig_val dst (leaf_val h i (st @ su)) l = aig_val dst (leaf_val dst i st) l"
    if "lit_in (aig_vars dst) l" for l
    by (rule aig_val_cong [OF dst(1) that]) (rule lv(1))
  show "lit_in (aig_vars dst) l \<Longrightarrow> aig_val h (leaf_val h i (st @ su)) l = aig_val dst (leaf_val dst i st) l"
    using merged_val_dst [OF m h] old by simp
  assume l: "lit_in (aig_vars src) l" "remap vm l = Some l'"
  show "aig_val h (leaf_val h i (st @ su)) l' = aig_val src (leaf_val src js su) l"
  proof (rule merged_val_src [OF m h _ _ l])
    have jl: "length js = length (aig_ins src)" by (simp add: js)
    have sd: "distinct (leaf_vars src)" using src by (simp add: graph_ok_def)
    show "\<forall>x\<in>set (aig_ins src). leaf_val src js su (unat (in_var x)) =
        aig_val dst (leaf_val h i (st @ su)) (aig_lookup dst (in_name x))"
    proof
      fix x assume x: "x \<in> set (aig_ins src)"
      then obtain k where k: "k < length (aig_ins src)" "x = aig_ins src ! k" by (metis in_set_conv_nth)
      have "aig_lookup dst (in_name x) \<noteq> NO_LIT" using m x even_not_NO_LIT by (auto simp: mergeable_def)
      with leaf_val_input [OF sd k(1) jl len(3)] k old [OF lookup_in [OF dst(2)]]
      show "leaf_val src js su (unat (in_var x)) =
        aig_val dst (leaf_val h i (st @ su)) (aig_lookup dst (in_name x))" by (simp add: js)
    qed
    show "\<forall>k<length ls. leaf_val src js su (unat (lat_var (aig_lats src ! k))) =
        leaf_val h i (st @ su) (Suc (unat (nextvar dst) + k))"
      using leaf_val_latch [OF sd _ jl len(3)] lv(2) ll by simp
  qed
qed

lemma merged_run:
  assumes m: "mergeable dst src" and h: "merged dst src vm ls bs h"
    and len: "\<And>t. length (is t) = length (aig_ins dst)"
  shows "aig_run h is t = aig_run dst is t @ aig_run src (fed_inputs dst src is) t"
proof (induction t)
  case 0
  have "map (\<lambda>l. lat_reset l \<noteq> 0) ls = map (\<lambda>l. lat_reset l \<noteq> 0) (aig_lats src)"
    by (rule nth_equalityI) (use merged_latches [OF h] in auto)
  then show ?case using h by (simp add: reset_state_def merged_def)
next
  case (Suc t)
  let ?s = "aig_run dst is t" and ?u = "aig_run src (fed_inputs dst src is) t"
  have dl: "lit_in (aig_vars dst) (lat_next x)" if "x \<in> set (aig_lats dst)" for x
    using m that by (simp add: mergeable_def aig_ok_def lits_ok_def)
  have sl: "lit_in (aig_vars src) (lat_next x)" if "x \<in> set (aig_lats src)" for x
    using m that by (simp add: mergeable_def aig_ok_def lits_ok_def)
  have js: "fed_inputs dst src is t =
      map (\<lambda>x. aig_val dst (leaf_val dst (is t) ?s) (aig_lookup dst (in_name x))) (aig_ins src)"
    by (simp add: fed_inputs_def aig_at_def)
  note st = merged_step [OF m h len [of t] length_aig_run length_aig_run js]
  have "map (\<lambda>l. aig_val h (leaf_val h (is t) (?s @ ?u)) (lat_next l)) (aig_lats dst) =
      map (\<lambda>l. aig_val dst (leaf_val dst (is t) ?s) (lat_next l)) (aig_lats dst)"
    using st(1) dl by simp
  moreover have "map (\<lambda>l. aig_val h (leaf_val h (is t) (?s @ ?u)) (lat_next l)) ls =
      map (\<lambda>l. aig_val src (leaf_val src (fed_inputs dst src is t) ?u) (lat_next l)) (aig_lats src)"
  proof (rule nth_equalityI)
    fix i assume "i < length (map (\<lambda>l. aig_val h (leaf_val h (is t) (?s @ ?u)) (lat_next l)) ls)"
    then have i: "i < length ls" "i < length (aig_lats src)" using merged_latches(1) [OF h] by simp_all
    then show "map (\<lambda>l. aig_val h (leaf_val h (is t) (?s @ ?u)) (lat_next l)) ls ! i =
        map (\<lambda>l. aig_val src (leaf_val src (fed_inputs dst src is t) ?u) (lat_next l)) (aig_lats src) ! i"
      using st(2) [OF sl] merged_latches(3) [OF h i(1)] by simp
  qed (simp add: merged_latches(1) [OF h])
  ultimately show ?case using h Suc by (simp add: next_state_def merged_def)
qed

text \<open>
  C15. Merging runs the source on the destination's signals: when no latch of either graph is
  uninitialised and every input of the source names a signal of the destination that is not a
  negated literal, the merge succeeds, and in
  every run the merged graph keeps all literals and other outputs of the destination and drives
  each output of the source with the value the source computes from the signals it reads.
\<close>

theorem aig_merge_correct:
  assumes "mergeable dst src" and "\<forall>s\<in>set (aig_outs src). n_name s \<noteq> None"
    and "distinct (map n_name (aig_outs src))"
  shows "\<exists>h. aig_merge dst src = Some (h, True) \<and> graph_ok h \<and> aig_ins h = aig_ins dst \<and>
    (\<forall>n. n \<notin> n_name ` set (aig_outs src) \<longrightarrow> aig_output_lit h n = aig_output_lit dst n) \<and>
    (\<forall>is t. (\<forall>t. length (is t) = length (aig_ins dst)) \<longrightarrow>
       (\<forall>l. lit_in (aig_vars dst) l \<longrightarrow> aig_at h is t l = aig_at dst is t l) \<and>
       (\<forall>s\<in>set (aig_outs src). aig_at h is t (aig_output_lit h (n_name s)) =
          aig_at src (fed_inputs dst src is) t (n_lit s)))"
proof -
  from aig_merge_merged [OF assms(1,2)] obtain vm ls bs h where
    h: "aig_merge dst src = Some (h, True)" "merged dst src vm ls bs h" by blast
  have out: "outputs_merged vm (aig_outs src) dst h" "aig_ins h = aig_ins dst"
    using h(2) by (simp_all add: merged_def)
  have vals: "(\<forall>l. lit_in (aig_vars dst) l \<longrightarrow> aig_at h is t l = aig_at dst is t l) \<and>
       (\<forall>s\<in>set (aig_outs src). aig_at h is t (aig_output_lit h (n_name s)) =
          aig_at src (fed_inputs dst src is) t (n_lit s))"
    if len: "\<forall>t. length (is t) = length (aig_ins dst)" for "is" t
  proof -
    have js: "fed_inputs dst src is t =
        map (\<lambda>x. aig_val dst (leaf_val dst (is t) (aig_run dst is t)) (aig_lookup dst (in_name x))) (aig_ins src)"
      by (simp add: fed_inputs_def aig_at_def)
    note st = merged_step [OF assms(1) h(2) len [rule_format, of t] length_aig_run length_aig_run js]
    have r: "aig_run h is t = aig_run dst is t @ aig_run src (fed_inputs dst src is) t"
      by (rule merged_run [OF assms(1) h(2)]) (use len in simp)
    have "lit_in (aig_vars src) (n_lit s)" "remap vm (n_lit s) = Some (aig_output_lit h (n_name s))"
      if "s \<in> set (aig_outs src)" for s
      using assms(1,3) out(1) that by (auto simp: mergeable_def aig_ok_def lits_ok_def outputs_merged_def)
    then show ?thesis using st by (simp add: aig_at_def r)
  qed
  from out(1) have "\<forall>n. n \<notin> n_name ` set (aig_outs src) \<longrightarrow> aig_output_lit h n = aig_output_lit dst n"
    by (simp add: outputs_merged_def)
  with h(1) out(2) merged_graph_ok(1) [OF assms(1) h(2)] vals show ?thesis
    by (intro exI [of _ h] conjI) simp_all
qed

text \<open>Two graphs built with the builders: an inverter with a register, and a gate on its output.\<close>

definition sample_dst :: aig where
  "sample_dst = (case aig_input aig_new ''r'' of (g, r) \<Rightarrow>
     case aig_latch g r 0 of (g, q) \<Rightarrow> aig_set_output g (Some ''q'') q)"

definition sample_src :: aig where
  "sample_src = (case aig_input aig_new ''q'' of (g, q) \<Rightarrow>
     case aig_input g ''r'' of (g, r) \<Rightarrow>
     case aig_and g q (aig_not r) of (g, x) \<Rightarrow> aig_set_output g (Some ''x'') (aig_not x))"

lemma sample_dst_eval: "sample_dst = \<lparr>nextvar = 2, aig_ins = [\<lparr>in_name = Some ''r'', in_var = 1\<rparr>],
   aig_lats = [\<lparr>lat_var = 2, lat_next = 2, lat_reset = 0, lat_name = None\<rparr>], aig_ands = [],
   aig_outs = [\<lparr>n_name = Some ''q'', n_lit = 4\<rparr>], aig_bads = [], aig_cons = [],
   aig_sigs = [\<lparr>n_name = Some ''r'', n_lit = 2\<rparr>, \<lparr>n_name = Some ''q'', n_lit = 4\<rparr>], aig_justs = [], aig_fairs = []\<rparr>"
  by (simp add: sample_dst_def aig_new_def aig_input_def aig_latch_def aig_latch_named_def aig_set_output_def
      reg_sig_def Let_def)

lemma sample_src_eval: "sample_src = \<lparr>nextvar = 3, aig_ins = [\<lparr>in_name = Some ''q'', in_var = 1\<rparr>,
     \<lparr>in_name = Some ''r'', in_var = 2\<rparr>],
   aig_lats = [], aig_ands = [\<lparr>g_var = 3, g_r0 = 2, g_r1 = 5\<rparr>],
   aig_outs = [\<lparr>n_name = Some ''x'', n_lit = 7\<rparr>], aig_bads = [], aig_cons = [],
   aig_sigs = [\<lparr>n_name = Some ''q'', n_lit = 2\<rparr>, \<lparr>n_name = Some ''r'', n_lit = 4\<rparr>, \<lparr>n_name = Some ''x'', n_lit = 7\<rparr>],
   aig_justs = [], aig_fairs = []\<rparr>"
  by (simp add: sample_src_def aig_new_def aig_input_def aig_and_def aig_not_def AIG_FALSE_def AIG_TRUE_def
      aig_set_output_def reg_sig_def Let_def)

lemma sample_mergeable: "mergeable sample_dst sample_src"
  by (simp add: mergeable_def aig_ok_def graph_ok_def lits_ok_def initialised_def sample_dst_eval sample_src_eval leaf_vars_def
      aig_vars_def gate_vars_def lit_in_def MAX_VAR_def aig_lookup_def)

theorem aig_merge_correct_witness:
  "\<exists>h. aig_merge sample_dst sample_src = Some (h, True) \<and>
     aig_at h (\<lambda>t. [t = 0]) 1 (aig_output_lit h (Some ''x'')) = False"
proof -
  from aig_merge_correct [OF sample_mergeable] obtain h where
    h: "aig_merge sample_dst sample_src = Some (h, True)"
    and v: "\<And>is t. (\<forall>t. length (is t) = length (aig_ins sample_dst)) \<Longrightarrow>
       (\<forall>s\<in>set (aig_outs sample_src). aig_at h is t (aig_output_lit h (n_name s)) =
          aig_at sample_src (fed_inputs sample_dst sample_src is) t (n_lit s))"
    by (auto simp: sample_src_eval)
  have "aig_at h (\<lambda>t. [t = 0]) 1 (aig_output_lit h (Some ''x'')) =
      aig_at sample_src (fed_inputs sample_dst sample_src (\<lambda>t. [t = 0])) 1 7"
    using v [of "\<lambda>t. [t = 0]" 1] by (simp add: sample_dst_eval sample_src_eval)
  also have "\<dots> = False"
    by (simp add: aig_at_def aig_val_def sample_dst_eval sample_src_eval fed_inputs_def leaf_val_def leaf_vars_def
        lit_val_def aig_lookup_def next_state_def reset_state_def)
  finally show ?thesis using h by blast
qed

text \<open>
  The restriction on negated literals is needed: when a signal of the destination is the negation
  of a variable, the merge succeeds but its copy of the source reads the variable itself.  Here
  \<open>n\<close> is the negation of \<open>r\<close> and the source copies \<open>n\<close> to \<open>x\<close>; in the merged graph \<open>x\<close> is \<open>r\<close>.
\<close>

definition inverted_dst :: aig where
  "inverted_dst = (case aig_input aig_new ''r'' of (g, r) \<Rightarrow> aig_set_output g (Some ''n'') (aig_not r))"

definition copy_src :: aig where
  "copy_src = (case aig_input aig_new ''n'' of (g, n) \<Rightarrow> aig_set_output g (Some ''x'') n)"

lemma aig_merge_loses_polarity:
  "\<exists>h. aig_merge inverted_dst copy_src = Some (h, True) \<and>
     aig_output_lit h (Some ''n'') = 3 \<and> aig_output_lit h (Some ''x'') = 2"
  by (simp add: inverted_dst_def copy_src_def aig_new_def aig_input_def aig_set_output_def reg_sig_def Let_def
      aig_merge_def aig_not_def aig_lookup_def array_set_def array_get_def remap_def NO_LIT_def
      aig_remove_output_def aig_output_lit_def)

text \<open>
  The restriction on resets is needed as well: the merge copies the reset literal of a latch without
  renaming it.  The latch of \<open>free_src\<close> is uninitialised (its reset is its own literal); in the
  merged graph its reset is the literal of the destination's input \<open>r\<close>.
\<close>

definition free_src :: aig where
  "free_src = (case aig_latch aig_new 2 2 of (g, q) \<Rightarrow> aig_set_output g (Some ''x'') q)"

lemma aig_merge_keeps_reset_literal:
  "\<exists>h. aig_merge inverted_dst free_src = Some (h, True) \<and> aig_lookup h (Some ''r'') = 2 \<and>
     map lat_var (aig_lats free_src) = [1] \<and> map lat_reset (aig_lats free_src) = [2] \<and>
     map lat_var (aig_lats h) = [2] \<and> map lat_reset (aig_lats h) = [2]"
  by (simp add: inverted_dst_def free_src_def aig_new_def aig_input_def aig_latch_def aig_latch_named_def aig_set_output_def
      reg_sig_def Let_def aig_merge_def aig_not_def aig_lookup_def array_set_def array_get_def remap_def remap_latch_def NO_LIT_def
      aig_remove_output_def aig_output_lit_def)

end
