(* ===== verification/Aiger_Sampling.thy ===== *)
theory Aiger_Sampling
  imports Aiger_Merge
begin

text \<open>
  Sampling of acceptance literals: a literal that reads an input is replaced by a latch that
  holds its previous value, which keeps what holds infinitely often and leaves only state
  predicates.
\<close>

definition recurs :: "(nat \<Rightarrow> bool) \<Rightarrow> bool" where
  "recurs P \<longleftrightarrow> (\<forall>n. \<exists>t\<ge>n. P t)"

lemma recurs_Suc: "recurs (\<lambda>t. P (Suc t)) \<longleftrightarrow> recurs P"
proof
  assume s: "recurs (\<lambda>t. P (Suc t))"
  show "recurs P" unfolding recurs_def
  proof
    fix n
    from s obtain t where "t \<ge> n" "P (Suc t)" by (auto simp: recurs_def)
    then show "\<exists>t\<ge>n. P t" by (intro exI [of _ "Suc t"]) simp
  qed
next
  assume r: "recurs P"
  show "recurs (\<lambda>t. P (Suc t))" unfolding recurs_def
  proof
    fix n
    from r obtain t where "t \<ge> Suc n" "P t" by (auto simp: recurs_def)
    then show "\<exists>t\<ge>n. P (Suc t)" by (intro exI [of _ "t - 1"]) simp
  qed
qed

subsection \<open>Dependence on inputs\<close>

definition input_vars :: "aig \<Rightarrow> nat set" where
  "input_vars g = (unat \<circ> in_var) ` set (aig_ins g)"

text \<open>Variables outside the marked ones have the same value whatever the inputs.\<close>

definition input_free :: "nat set \<Rightarrow> bool list \<Rightarrow> valuation \<Rightarrow> valuation \<Rightarrow> bool" where
  "input_free V dep \<rho> \<sigma> \<longleftrightarrow> (\<forall>v\<in>V. v < length dep \<and> (\<not> dep ! v \<longrightarrow> \<rho> v = \<sigma> v))"

lemma lit_depends:
  assumes "input_free V dep \<rho> \<sigma>" and "lit_in V l" and "\<not> lit_depends_on_input dep l"
  shows "lit_val \<rho> l = lit_val \<sigma> l"
proof (cases "var_of l = 0")
  case False
  then have "l \<ge> 2" "unat (l div 2) = var_of l" by (simp_all add: word_le_nat_alt unat_div)
  with assms False show ?thesis
    by (auto simp: lit_depends_on_input_def input_free_def lit_in_def lit_val_def)
qed (simp add: lit_val_def)

lemma mark_inputs_ok:
  assumes "\<forall>i\<in>set is. unat (in_var i) < length dep"
  shows "\<exists>d. mark_inputs is dep = Some d \<and> length d = length dep \<and>
    (\<forall>v<length dep. d ! v \<longleftrightarrow> v \<in> (unat \<circ> in_var) ` set is \<or> dep ! v)"
  using assms
proof (induction "is" arbitrary: dep)
  case (Cons i js)
  let ?d = "dep[unat (in_var i) := True]"
  have "\<exists>d. mark_inputs js ?d = Some d \<and> length d = length ?d \<and>
    (\<forall>v<length ?d. d ! v \<longleftrightarrow> v \<in> (unat \<circ> in_var) ` set js \<or> ?d ! v)"
    by (rule Cons.IH) (use Cons.prems in simp)
  then obtain d where d: "mark_inputs js ?d = Some d" "length d = length dep"
    "\<forall>v<length dep. d ! v \<longleftrightarrow> v \<in> (unat \<circ> in_var) ` set js \<or> ?d ! v" by auto
  moreover have "array_set dep (in_var i) True = Some ?d" using Cons.prems by (simp add: array_set_def)
  moreover have "?d ! v \<longleftrightarrow> v = unat (in_var i) \<or> dep ! v" if "v < length dep" for v
    using that Cons.prems by (auto simp: nth_list_update)
  ultimately show ?case by (intro exI [of _ d]) auto
qed simp

lemma mark_gates_ok:
  assumes "gates_ok V as" and "\<forall>a\<in>set as. unat (g_var a) < length dep" and "input_free V dep \<rho> \<sigma>"
  shows "\<exists>d. mark_gates as dep = Some d \<and> length d = length dep \<and>
    input_free (V \<union> set (gvars as)) d (run_gates as \<rho>) (run_gates as \<sigma>)"
  using assms
proof (induction as arbitrary: V dep \<rho> \<sigma>)
  case (Cons a as)
  let ?v = "unat (g_var a)"
  let ?x = "lit_depends_on_input dep (g_r0 a) \<or> lit_depends_on_input dep (g_r1 a)"
  let ?d = "dep[?v := ?x]"
  let ?\<rho> = "\<rho>(?v := lit_val \<rho> (g_r0 a) \<and> lit_val \<rho> (g_r1 a))"
  let ?\<sigma> = "\<sigma>(?v := lit_val \<sigma> (g_r0 a) \<and> lit_val \<sigma> (g_r1 a))"
  have "lit_val \<rho> (g_r0 a) = lit_val \<sigma> (g_r0 a) \<and> lit_val \<rho> (g_r1 a) = lit_val \<sigma> (g_r1 a)" if "\<not> ?x"
    using lit_depends [OF Cons.prems(3)] Cons.prems(1) that by simp
  then have f: "input_free (insert ?v V) ?d ?\<rho> ?\<sigma>"
    using Cons.prems(1-3) by (auto simp: input_free_def nth_list_update)
  have "\<exists>d. mark_gates as ?d = Some d \<and> length d = length ?d \<and>
    input_free (insert ?v V \<union> set (gvars as)) d (run_gates as ?\<rho>) (run_gates as ?\<sigma>)"
    by (rule Cons.IH [OF _ _ f]) (use Cons.prems in auto)
  moreover have "array_set dep (g_var a) ?x = Some ?d" using Cons.prems(2) by (simp add: array_set_def)
  ultimately show ?case by auto
qed simp

subsection \<open>Adding latches\<close>

text \<open>The graph \<open>h\<close> is \<open>g\<close> with further latches that start at 0.\<close>

definition adds_latches :: "aig \<Rightarrow> latch list \<Rightarrow> aig \<Rightarrow> bool" where
  "adds_latches g ns h \<longleftrightarrow> graph_ok h \<and> unat (nextvar h) = unat (nextvar g) + length ns \<and>
     aig_ins h = aig_ins g \<and> aig_ands h = aig_ands g \<and>
     aig_lats h = aig_lats g @ ns \<and> map (unat \<circ> lat_var) ns = map (\<lambda>k. Suc (unat (nextvar g) + k)) [0..<length ns] \<and>
     (\<forall>l\<in>set ns. lit_in (aig_vars g) (lat_next l) \<and> lat_reset l = 0)"

definition sampled :: "bool list \<Rightarrow> latch list \<Rightarrow> u32 \<Rightarrow> u32 \<Rightarrow> bool" where
  "sampled dep ns l l' \<longleftrightarrow>
     (if lit_depends_on_input dep l
      then \<exists>x\<in>set ns. l' = lat_var x * 2 \<and> lat_next x = l else l' = l)"

lemma adds_latches_refl: "graph_ok g \<Longrightarrow> adds_latches g [] g"
  by (simp add: adds_latches_def)

lemma adds_latches_vars:
  assumes "adds_latches g ns h"
  shows "aig_vars g \<subseteq> aig_vars h" "leaf_vars h = leaf_vars g @ map (\<lambda>k. Suc (unat (nextvar g) + k)) [0..<length ns]"
  using assms by (auto simp: adds_latches_def aig_vars_def leaf_vars_def gate_vars_def)

lemma add_latch:
  assumes h: "adds_latches g ns h" and n: "unat (nextvar h) < MAX_VAR" and l: "lit_in (aig_vars g) l"
    and s: "aig_latch_named h l AIG_FALSE name = (h', l')"
  shows "\<exists>x. adds_latches g (ns @ [x]) h' \<and> l' = lat_var x * 2 \<and> lat_next x = l"
proof -
  let ?v = "nextvar h + 1"
  let ?x = "\<lparr>lat_var = ?v, lat_next = l, lat_reset = AIG_FALSE, lat_name = name\<rparr>"
  have ok: "graph_ok h" using h by (simp add: adds_latches_def)
  note f = nextvar_fresh [OF ok n]
  have h': "h' = h\<lparr>nextvar := ?v, aig_lats := aig_lats h @ [?x]\<rparr>" "l' = ?v * 2"
    using s by (auto simp: aig_latch_named_def Let_def)
  have leaf: "leaf_vars h' = leaf_vars h @ [unat ?v]" by (simp add: h' leaf_vars_def)
  have ands: "aig_ands h' = aig_ands h" by (simp add: h')
  have fresh: "unat ?v \<notin> set (leaf_vars h)" "unat ?v \<notin> set (gvars (aig_ands h))" "unat ?v \<noteq> 0"
    using f(2) by (auto simp: aig_vars_def gate_vars_def)
  have "gates_ok (set (leaf_vars h')) (aig_ands h')"
    unfolding ands
    by (rule gates_ok_mono [of "set (leaf_vars h)"])
       (use ok fresh distinct_gvars [of "set (leaf_vars h)" "aig_ands h"] in \<open>auto simp: graph_ok_def leaf\<close>)
  moreover have "aig_vars h' = insert (unat ?v) (aig_vars h)"
    by (auto simp: aig_vars_def gate_vars_def leaf ands)
  moreover have "nextvar h' = ?v" by (simp add: h')
  ultimately have "graph_ok h'"
    using ok fresh f(1) n unfolding graph_ok_def leaf by auto
  moreover have "map (unat \<circ> lat_var) (ns @ [?x]) = map (\<lambda>k. Suc (unat (nextvar g) + k)) [0..<length (ns @ [?x])]"
    using h f(1) by (simp add: adds_latches_def)
  ultimately have "adds_latches g (ns @ [?x]) h'"
    using h f(1) l by (auto simp: adds_latches_def h' AIG_FALSE_def)
  then show ?thesis using h'(2) by (intro exI [of _ ?x]) simp
qed

lemma sampled_mono: "sampled dep ns l l' \<Longrightarrow> sampled dep (ns @ ms) l l'"
  by (auto simp: sampled_def)

lemma sample_lit_ok:
  assumes "adds_latches g ns h" and "unat (nextvar h) < MAX_VAR" and "lit_in (aig_vars g) l"
    and "sample_lit dep name h l = (h', l')"
  shows "\<exists>ms. adds_latches g (ns @ ms) h' \<and> length ms \<le> 1 \<and> sampled dep (ns @ ms) l l'"
proof (cases "lit_depends_on_input dep l")
  case True
  then have "aig_latch_named h l AIG_FALSE (Some name) = (h', l')" using assms(4) by (simp add: sample_lit_def)
  from add_latch [OF assms(1-3) this] obtain x where
    "adds_latches g (ns @ [x]) h'" "l' = lat_var x * 2" "lat_next x = l" by blast
  with True show ?thesis by (intro exI [of _ "[x]"]) (auto simp: sampled_def)
next
  case False
  then show ?thesis using assms(1,4) by (intro exI [of _ "[]"]) (auto simp: sample_lit_def sampled_def)
qed

lemma sample_lits_ok:
  assumes "adds_latches g ns h" and "unat (nextvar h) + length ls \<le> MAX_VAR"
    and "list_all (lit_in (aig_vars g)) ls" and "sample_lits dep name k h ls = (h', ls')"
  shows "\<exists>ms. adds_latches g (ns @ ms) h' \<and> length ms \<le> length ls \<and>
    list_all2 (sampled dep (ns @ ms)) ls ls'"
  using assms
proof (induction ls arbitrary: ns h k h' ls')
  case Nil
  then show ?case by (intro exI [of _ "[]"]) simp
next
  case (Cons l ls)
  obtain h1 l1 ls1 where s: "sample_lit dep (name k) h l = (h1, l1)"
    "sample_lits dep name (Suc k) h1 ls = (h', ls1)" "ls' = l1 # ls1"
    using Cons.prems(4) by (auto split: prod.splits)
  from sample_lit_ok [OF Cons.prems(1) _ _ s(1)] Cons.prems(2,3) obtain ms where
    ms: "adds_latches g (ns @ ms) h1" "length ms \<le> 1" "sampled dep (ns @ ms) l l1" by auto
  have "unat (nextvar h1) + length ls \<le> MAX_VAR"
    using ms(1,2) Cons.prems(1,2) by (simp add: adds_latches_def)
  from Cons.IH [OF ms(1) this _ s(2)] Cons.prems(3) obtain ks where
    "adds_latches g ((ns @ ms) @ ks) h'" "length ks \<le> length ls"
    "list_all2 (sampled dep ((ns @ ms) @ ks)) ls ls1" by auto
  with ms(2) sampled_mono [OF ms(3), of ks] s(3) show ?case
    by (intro exI [of _ "ms @ ks"]) simp
qed

subsection \<open>Runs with further latches\<close>

lemma adds_latches_step:
  assumes g: "graph_ok g" and h: "adds_latches g ns h" and len: "length i = length (aig_ins g)"
    "length st = length (aig_lats g)" "length su = length ns"
  shows "lit_in (aig_vars g) l \<Longrightarrow> aig_val h (leaf_val h i (st @ su)) l = aig_val g (leaf_val g i st) l"
    and "k < length ns \<Longrightarrow> aig_val h (leaf_val h i (st @ su)) (lat_var (ns ! k) * 2) = su ! k"
proof -
  have ok: "graph_ok h" and ands: "aig_ands h = aig_ands g" using h by (simp_all add: adds_latches_def)
  let ?new = "map (\<lambda>k. Suc (unat (nextvar g) + k)) [0..<length ns]"
  have d: "distinct (leaf_vars h)" using ok by (simp add: graph_ok_def)
  have dl: "length i + length st = length (leaf_vars g)" using len by (simp add: leaf_vars_def)
  have nl: "length ?new = length su" using len by simp
  note lv = leaf_val_append [OF adds_latches_vars(2) [OF h] dl nl d]
  show "aig_val h (leaf_val h i (st @ su)) l = aig_val g (leaf_val g i st) l" if l: "lit_in (aig_vars g) l"
  proof -
    have "aig_val g (leaf_val h i (st @ su)) l = aig_val g (leaf_val g i st) l"
      by (rule aig_val_cong [OF g l]) (rule lv(1))
    then show ?thesis by (simp add: aig_val_def ands)
  qed
  show "aig_val h (leaf_val h i (st @ su)) (lat_var (ns ! k) * 2) = su ! k" if k: "k < length ns"
  proof -
    have v: "unat (lat_var (ns ! k)) = Suc (unat (nextvar g) + k)"
    proof -
      have "map (unat \<circ> lat_var) ns ! k = ?new ! k" using h by (simp add: adds_latches_def)
      then show ?thesis using k by simp
    qed
    have leaf: "Suc (unat (nextvar g) + k) \<in> set (leaf_vars h)"
      using k by (simp add: adds_latches_vars(2) [OF h])
    then have "Suc (unat (nextvar g) + k) \<le> MAX_VAR"
      using ok length_vars [OF ok, of "Suc (unat (nextvar g) + k)"] by (auto simp: graph_ok_def aig_vars_def)
    with v have m: "unat (lat_var (ns ! k)) \<le> MAX_VAR" by simp
    have "aig_val h \<rho> (lat_var (ns ! k) * 2) = \<rho> (Suc (unat (nextvar g) + k))" for \<rho>
      unfolding aig_val_def using aig_val_leaf [OF ok leaf, of \<rho>] v by (subst lit_val_var [OF m]) simp_all
    with lv(2) [of k] k show ?thesis by simp
  qed
qed

lemma adds_latches_run:
  assumes g: "graph_ok g" and l: "\<forall>x\<in>set (aig_lats g). lit_in (aig_vars g) (lat_next x)"
    and h: "adds_latches g ns h" and len: "\<And>t. length (is t) = length (aig_ins g)"
  shows "aig_run h is t = aig_run g is t @
    map (\<lambda>x. case t of 0 \<Rightarrow> False | Suc u \<Rightarrow> aig_at g is u (lat_next x)) ns"
proof (induction t)
  case 0
  have "map (\<lambda>l. lat_reset l \<noteq> 0) ns = map (\<lambda>x. False) ns" using h by (simp add: adds_latches_def)
  then show ?case using h by (simp add: reset_state_def adds_latches_def)
next
  case (Suc t)
  let ?su = "map (\<lambda>x. case t of 0 \<Rightarrow> False | Suc u \<Rightarrow> aig_at g is u (lat_next x)) ns"
  have sl: "length ?su = length ns" by simp
  note st = adds_latches_step(1) [OF g h len [of t] length_aig_run sl]
  have n: "\<forall>x\<in>set ns. lit_in (aig_vars g) (lat_next x)" "aig_lats h = aig_lats g @ ns"
    using h by (simp_all add: adds_latches_def)
  show ?case using Suc st l n by (simp add: next_state_def aig_at_def)
qed

lemma adds_latches_at:
  assumes g: "graph_ok g" and l: "\<forall>x\<in>set (aig_lats g). lit_in (aig_vars g) (lat_next x)"
    and h: "adds_latches g ns h" and len: "\<And>t. length (is t) = length (aig_ins g)"
  shows "lit_in (aig_vars g) l \<Longrightarrow> aig_at h is t l = aig_at g is t l"
    and "x \<in> set ns \<Longrightarrow> aig_at h is (Suc t) (lat_var x * 2) = aig_at g is t (lat_next x)"
proof -
  note r = adds_latches_run [OF g l h len]
  show "lit_in (aig_vars g) l \<Longrightarrow> aig_at h is t l = aig_at g is t l"
    unfolding aig_at_def r using adds_latches_step(1) [OF g h len [of t] length_aig_run] by simp
  assume "x \<in> set ns"
  then obtain k where k: "k < length ns" "x = ns ! k" by (metis in_set_conv_nth)
  show "aig_at h is (Suc t) (lat_var x * 2) = aig_at g is t (lat_next x)"
    unfolding aig_at_def [of h] r k(2)
    by (subst adds_latches_step(2) [OF g h len [of "Suc t"] length_aig_run _ k(1)]) (simp_all add: k(1))
qed

text \<open>A sampled literal is a state predicate that recurs exactly when the original does.\<close>

definition state_literal :: "aig \<Rightarrow> u32 \<Rightarrow> bool" where
  "state_literal g l \<longleftrightarrow> (\<forall>is js st. length is = length (aig_ins g) \<and> length js = length (aig_ins g) \<and>
     length st = length (aig_lats g) \<longrightarrow> aig_val g (leaf_val g is st) l = aig_val g (leaf_val g js st) l)"

lemma sampled_ok:
  assumes g: "graph_ok g" and l: "\<forall>x\<in>set (aig_lats g). lit_in (aig_vars g) (lat_next x)"
    and h: "adds_latches g ns h" and lit: "lit_in (aig_vars g) l" and s: "sampled dep ns l l'"
    and dep: "\<And>is js st. length is = length (aig_ins g) \<Longrightarrow> length js = length (aig_ins g) \<Longrightarrow>
      length st = length (aig_lats g) \<Longrightarrow>
      input_free (aig_vars g) dep (run_gates (aig_ands g) (leaf_val g is st)) (run_gates (aig_ands g) (leaf_val g js st))"
  shows "state_literal h l'"
    and "(\<And>t. length (is t) = length (aig_ins g)) \<Longrightarrow>
      recurs (\<lambda>t. aig_at h is t l') \<longleftrightarrow> recurs (\<lambda>t. aig_at g is t l)"
proof -
  have hl: "aig_lats h = aig_lats g @ ns" "aig_ins h = aig_ins g" using h by (simp_all add: adds_latches_def)
  show "state_literal h l'"
    unfolding state_literal_def
  proof (intro allI impI, elim conjE)
    fix xs ys st :: "bool list"
    assume len: "length xs = length (aig_ins h)" "length ys = length (aig_ins h)" "length st = length (aig_lats h)"
    let ?a = "take (length (aig_lats g)) st" and ?b = "drop (length (aig_lats g)) st"
    have st: "st = ?a @ ?b" "length ?a = length (aig_lats g)" "length ?b = length ns"
      using len(3) hl by simp_all
    have x: "length xs = length (aig_ins g)" "length ys = length (aig_ins g)" using len hl by simp_all
    note sx = adds_latches_step [OF g h x(1) st(2,3), unfolded append_take_drop_id]
    note sy = adds_latches_step [OF g h x(2) st(2,3), unfolded append_take_drop_id]
    show "aig_val h (leaf_val h xs st) l' = aig_val h (leaf_val h ys st) l'"
    proof (cases "lit_depends_on_input dep l")
      case True
      then obtain k where "k < length ns" "l' = lat_var (ns ! k) * 2"
        using s by (auto simp: sampled_def in_set_conv_nth)
      with sx(2) sy(2) show ?thesis by simp
    next
      case False
      then have "l' = l" using s by (simp add: sampled_def)
      moreover have "aig_val g (leaf_val g xs ?a) l = aig_val g (leaf_val g ys ?a) l"
        unfolding aig_val_def by (rule lit_depends [OF dep [OF x st(2)] lit False])
      ultimately show ?thesis using sx(1) [OF lit] sy(1) [OF lit] by simp
    qed
  qed
  assume len: "\<And>t. length (is t) = length (aig_ins g)"
  note at = adds_latches_at [OF g l h len]
  show "recurs (\<lambda>t. aig_at h is t l') \<longleftrightarrow> recurs (\<lambda>t. aig_at g is t l)"
  proof (cases "lit_depends_on_input dep l")
    case True
    then obtain x where "x \<in> set ns" "l' = lat_var x * 2" "lat_next x = l" using s by (auto simp: sampled_def)
    with at(2) recurs_Suc [of "\<lambda>t. aig_at h is t l'"] show ?thesis by simp
  next
    case False
    then show ?thesis using at(1) [OF lit] s by (simp add: sampled_def)
  qed
qed

subsection \<open>The whole graph\<close>

lemma graph_ok_update [simp]:
  "graph_ok (h\<lparr>aig_justs := js\<rparr>) = graph_ok h" "graph_ok (h\<lparr>aig_fairs := fs\<rparr>) = graph_ok h"
  by (simp_all add: graph_ok_def leaf_vars_def aig_vars_def gate_vars_def)

lemma adds_latches_update:
  "adds_latches g ns h \<Longrightarrow> adds_latches g ns (h\<lparr>aig_justs := js\<rparr>)"
  "adds_latches g ns h \<Longrightarrow> adds_latches g ns (h\<lparr>aig_fairs := fs\<rparr>)"
  by (simp_all add: adds_latches_def)

lemma sampled_list_mono: "list_all2 (sampled dep ns) ls ls' \<Longrightarrow> list_all2 (sampled dep (ns @ ms)) ls ls'"
  by (erule list_all2_mono) (rule sampled_mono)

lemma sample_justices_ok:
  assumes "adds_latches g ns h" and "unat (nextvar h) + length (concat (map j_lits xs)) \<le> MAX_VAR"
    and "list_all (lit_in (aig_vars g)) (concat (map j_lits xs))" and "sample_justices dep j h xs = (h', ys)"
  shows "\<exists>ms. adds_latches g (ns @ ms) h' \<and> length ms \<le> length (concat (map j_lits xs)) \<and>
    list_all2 (list_all2 (sampled dep (ns @ ms))) (map j_lits xs) (map j_lits ys)"
  using assms
proof (induction xs arbitrary: ns h j h' ys)
  case Nil
  then show ?case by (intro exI [of _ "[]"]) simp
next
  case (Cons x xs)
  let ?name = "\<lambda>k. sample_name ''__tlsf_gr1_sample_justice'' [j, k]"
  obtain h1 ls zs where s: "sample_lits dep ?name 0 h (j_lits x) = (h1, ls)"
    "sample_justices dep (Suc j) h1 xs = (h', zs)" "ys = x\<lparr>j_lits := ls\<rparr> # zs"
    using Cons.prems(4) by (auto split: prod.splits)
  from sample_lits_ok [OF Cons.prems(1) _ _ s(1)] Cons.prems(2,3) obtain ms where
    ms: "adds_latches g (ns @ ms) h1" "length ms \<le> length (j_lits x)" "list_all2 (sampled dep (ns @ ms)) (j_lits x) ls"
    by auto
  have "unat (nextvar h1) + length (concat (map j_lits xs)) \<le> MAX_VAR"
    using ms(1,2) Cons.prems(1,2) by (simp add: adds_latches_def)
  from Cons.IH [OF ms(1) this _ s(2)] Cons.prems(3) obtain ks where
    "adds_latches g ((ns @ ms) @ ks) h'" "length ks \<le> length (concat (map j_lits xs))"
    "list_all2 (list_all2 (sampled dep ((ns @ ms) @ ks))) (map j_lits xs) (map j_lits zs)" by auto
  with ms(2) sampled_list_mono [OF ms(3), of ks] s(3) show ?case
    by (intro exI [of _ "ms @ ks"]) simp
qed

lemma sample_fairs_ok:
  assumes "adds_latches g ns h" and "unat (nextvar h) + length xs \<le> MAX_VAR"
    and "list_all (lit_in (aig_vars g)) (map n_lit xs)" and "sample_fairs dep i h xs = (h', ys)"
  shows "\<exists>ms. adds_latches g (ns @ ms) h' \<and> list_all2 (sampled dep (ns @ ms)) (map n_lit xs) (map n_lit ys)"
  using assms
proof (induction xs arbitrary: ns h i h' ys)
  case Nil
  then show ?case by (intro exI [of _ "[]"]) simp
next
  case (Cons x xs)
  let ?name = "sample_name ''__tlsf_gr1_sample_fairness'' [i]"
  obtain h1 l zs where s: "sample_lit dep ?name h (n_lit x) = (h1, l)"
    "sample_fairs dep (Suc i) h1 xs = (h', zs)" "ys = x\<lparr>n_lit := l\<rparr> # zs"
    using Cons.prems(4) by (auto split: prod.splits)
  from sample_lit_ok [OF Cons.prems(1) _ _ s(1)] Cons.prems(2,3) obtain ms where
    ms: "adds_latches g (ns @ ms) h1" "length ms \<le> 1" "sampled dep (ns @ ms) (n_lit x) l" by auto
  have "unat (nextvar h1) + length xs \<le> MAX_VAR"
    using ms(1,2) Cons.prems(1,2) by (simp add: adds_latches_def)
  from Cons.IH [OF ms(1) this _ s(2)] Cons.prems(3) obtain ks where
    "adds_latches g ((ns @ ms) @ ks) h'" "list_all2 (sampled dep ((ns @ ms) @ ks)) (map n_lit xs) (map n_lit zs)"
    by auto
  with sampled_mono [OF ms(3), of ks] s(3) show ?case by (intro exI [of _ "ms @ ks"]) simp
qed

lemma mark_ok:
  assumes "graph_ok g"
  shows "\<exists>d0 d. mark_inputs (aig_ins g) (replicate (unat (nextvar g + 1)) False) = Some d0 \<and>
    mark_gates (aig_ands g) d0 = Some d \<and>
    (\<forall>is js st. length is = length (aig_ins g) \<and> length js = length (aig_ins g) \<and> length st = length (aig_lats g) \<longrightarrow>
      input_free (aig_vars g) d (run_gates (aig_ands g) (leaf_val g is st)) (run_gates (aig_ands g) (leaf_val g js st)))"
proof -
  have "unat (nextvar g) \<le> MAX_VAR" using assms by (simp add: graph_ok_def)
  then have len: "unat (nextvar g + 1) = Suc (unat (nextvar g))" by (simp add: MAX_VAR_def unat_word_ariths)
  let ?z = "replicate (unat (nextvar g + 1)) False"
  note lv = length_vars [OF assms, folded len]
  have "\<forall>i\<in>set (aig_ins g). unat (in_var i) < length ?z"
    using lv by (auto simp: aig_vars_def leaf_vars_def)
  from mark_inputs_ok [OF this] obtain d0 where
    d0: "mark_inputs (aig_ins g) ?z = Some d0" "length d0 = length ?z"
    "\<forall>v<length ?z. d0 ! v \<longleftrightarrow> v \<in> (unat \<circ> in_var) ` set (aig_ins g) \<or> ?z ! v" by blast
  have gl: "\<forall>a\<in>set (aig_ands g). unat (g_var a) < length d0"
    using lv d0(2) by (auto simp: aig_vars_def gate_vars_def)
  have gk: "gates_ok (set (leaf_vars g)) (aig_ands g)" and dist: "distinct (leaf_vars g)"
    using assms by (simp_all add: graph_ok_def)
  have leaf: "input_free (set (leaf_vars g)) d0 (leaf_val g xs st) (leaf_val g ys st)"
    if len: "length xs = length (aig_ins g)" "length ys = length (aig_ins g)" "length st = length (aig_lats g)"
    for xs ys st
    unfolding input_free_def
  proof (intro ballI conjI impI)
    fix v assume v: "v \<in> set (leaf_vars g)"
    then show vl: "v < length d0" using lv d0(2) by (auto simp: aig_vars_def)
    assume "\<not> d0 ! v"
    then have "v \<notin> (unat \<circ> in_var) ` set (aig_ins g)" using d0(2,3) vl by simp
    with v obtain k where "k < length (aig_lats g)" "v = unat (lat_var (aig_lats g ! k))"
      by (auto simp: leaf_vars_def in_set_conv_nth)
    then show "leaf_val g xs st v = leaf_val g ys st v"
      using leaf_val_latch [OF dist _ len(1) len(3)] leaf_val_latch [OF dist _ len(2) len(3)] by simp
  qed
  obtain d where d: "mark_gates (aig_ands g) d0 = Some d"
  proof -
    have "input_free (set (leaf_vars g)) d0 (\<lambda>_. False) (\<lambda>_. False)"
      using lv d0(2) by (auto simp: input_free_def aig_vars_def)
    from mark_gates_ok [OF gk gl this] that show ?thesis by blast
  qed
  have "aig_vars g = set (leaf_vars g) \<union> set (gvars (aig_ands g))"
    by (simp add: aig_vars_def gate_vars_def image_comp)
  then have "input_free (aig_vars g) d (run_gates (aig_ands g) (leaf_val g xs st)) (run_gates (aig_ands g) (leaf_val g ys st))"
    if "length xs = length (aig_ins g)" "length ys = length (aig_ins g)" "length st = length (aig_lats g)" for xs ys st
    using mark_gates_ok [OF gk gl leaf [OF that]] d by auto
  with d0(1) d show ?thesis by blast
qed

lemma sampled_lists:
  assumes "list_all2 (list_all2 P) xss yss" and "\<forall>xs\<in>set xss. \<forall>x\<in>set xs. R x"
    and "\<And>x y. R x \<Longrightarrow> P x y \<Longrightarrow> Q x y"
  shows "list_all2 (list_all2 Q) xss yss"
  using assms(1,2)
proof (induction rule: list_all2_induct)
  case (Cons xs xss ys yss)
  have "list_all2 Q xs ys"
    using Cons.hyps(1) Cons.prems
  proof (induction rule: list_all2_induct)
    case (Cons x xs y ys)
    then show ?case using assms(3) by simp
  qed simp
  with Cons show ?case by simp
qed simp

definition acceptance :: "aig \<Rightarrow> u32 list list" where
  "acceptance g = map j_lits (aig_justs g) @ [map n_lit (aig_fairs g)]"

text \<open>The graph \<open>h\<close> is \<open>g\<close> with sampled acceptance literals.\<close>

definition samples :: "aig \<Rightarrow> aig \<Rightarrow> bool" where
  "samples g h \<longleftrightarrow> graph_ok h \<and> aig_ins h = aig_ins g \<and>
    list_all2 (list_all2 (\<lambda>l l'. state_literal h l' \<and> (\<forall>is. (\<forall>t. length (is t) = length (aig_ins g)) \<longrightarrow>
       recurs (\<lambda>t. aig_at h is t l') = recurs (\<lambda>t. aig_at g is t l)))) (acceptance g) (acceptance h) \<and>
    (\<forall>is t l. (\<forall>t. length (is t) = length (aig_ins g)) \<and> lit_in (aig_vars g) l \<longrightarrow> aig_at h is t l = aig_at g is t l)"

text \<open>What sampling asks of a graph: the literals of the latches and of the acceptance are defined.\<close>

lemma aig_sampling_defined:
  assumes g: "graph_ok g" and nx: "\<forall>x\<in>set (aig_lats g). lit_in (aig_vars g) (lat_next x)"
    and acc: "list_all (lit_in (aig_vars g)) (concat (map j_lits (aig_justs g)))"
      "list_all (lit_in (aig_vars g)) (map n_lit (aig_fairs g))"
    and "unat (nextvar g) + length (concat (acceptance g)) \<le> MAX_VAR"
  shows "\<exists>h. aig_sample_input_dependent_acceptance g = Some h \<and> samples g h"
proof -
  from mark_ok [OF g] obtain d0 d where
    d: "mark_inputs (aig_ins g) (replicate (unat (nextvar g + 1)) False) = Some d0"
    "mark_gates (aig_ands g) d0 = Some d"
    "\<And>is js st. length is = length (aig_ins g) \<Longrightarrow> length js = length (aig_ins g) \<Longrightarrow> length st = length (aig_lats g) \<Longrightarrow>
      input_free (aig_vars g) d (run_gates (aig_ands g) (leaf_val g is st)) (run_gates (aig_ands g) (leaf_val g js st))"
    by blast
  obtain g1 js where j: "sample_justices d 0 g (aig_justs g) = (g1, js)" by (rule prod.exhaust)
  obtain g2 fs where f: "sample_fairs d 0 (g1\<lparr>aig_justs := js\<rparr>) (aig_fairs g) = (g2, fs)" by (rule prod.exhaust)
  let ?h = "g2\<lparr>aig_fairs := fs\<rparr>"
  from sample_justices_ok [OF adds_latches_refl [OF g] _ acc(1) j] assms(5) obtain ms where
    ms: "adds_latches g ms g1" "length ms \<le> length (concat (map j_lits (aig_justs g)))"
    "list_all2 (list_all2 (sampled d ms)) (map j_lits (aig_justs g)) (map j_lits js)"
    by (auto simp: acceptance_def)
  have "unat (nextvar (g1\<lparr>aig_justs := js\<rparr>)) + length (aig_fairs g) \<le> MAX_VAR"
    using ms(1,2) assms(5) by (simp add: adds_latches_def acceptance_def)
  from sample_fairs_ok [OF adds_latches_update(1) [OF ms(1)] this acc(2) f] obtain ks where
    ks: "adds_latches g (ms @ ks) g2" "list_all2 (sampled d (ms @ ks)) (map n_lit (aig_fairs g)) (map n_lit fs)" by blast
  have h: "adds_latches g (ms @ ks) ?h" by (rule adds_latches_update(2) [OF ks(1)])
  have js: "aig_justs g2 = js"
  proof -
    have "sample_fairs dep i g xs = (h, ys) \<Longrightarrow> aig_justs h = aig_justs g" for dep i g xs h ys
    proof (induction xs arbitrary: i g h ys)
      case (Cons x xs)
      obtain h1 l zs where c: "sample_lit dep (sample_name ''__tlsf_gr1_sample_fairness'' [i]) g (n_lit x) = (h1, l)"
        "sample_fairs dep (Suc i) h1 xs = (h, zs)" using Cons.prems by (auto split: prod.splits)
      have "aig_justs h1 = aig_justs g"
        using c(1) by (auto simp: sample_lit_def aig_latch_named_def Let_def split: if_splits)
      with Cons.IH [OF c(2)] show ?case by simp
    qed simp
    from this [OF f] show ?thesis by simp
  qed
  have "list_all2 (list_all2 (sampled d (ms @ ks))) (map j_lits (aig_justs g)) (map j_lits js)"
    using ms(3) by (rule list_all2_mono) (rule sampled_list_mono)
  then have "list_all2 (list_all2 (sampled d (ms @ ks))) (acceptance g) (acceptance ?h)"
    using ks(2) js by (simp add: acceptance_def list_all2_appendI)
  moreover have "\<forall>ls\<in>set (acceptance g). \<forall>l\<in>set ls. lit_in (aig_vars g) l"
    using acc by (auto simp: acceptance_def list_all_iff)
  ultimately have "list_all2 (list_all2 (\<lambda>l l'. state_literal ?h l' \<and> (\<forall>is. (\<forall>t. length (is t) = length (aig_ins g)) \<longrightarrow>
       recurs (\<lambda>t. aig_at ?h is t l') = recurs (\<lambda>t. aig_at g is t l)))) (acceptance g) (acceptance ?h)"
  proof (rule sampled_lists)
    fix l l' assume l: "lit_in (aig_vars g) l" "sampled d (ms @ ks) l l'"
    note s = sampled_ok [OF g nx h l d(3)]
    show "state_literal ?h l' \<and> (\<forall>is. (\<forall>t. length (is t) = length (aig_ins g)) \<longrightarrow>
       recurs (\<lambda>t. aig_at ?h is t l') = recurs (\<lambda>t. aig_at g is t l))"
    proof (intro conjI allI impI)
      show "state_literal ?h l'" by (rule s(1))
      fix "is" :: "nat \<Rightarrow> bool list"
      assume "\<forall>t. length (is t) = length (aig_ins g)"
      then show "recurs (\<lambda>t. aig_at ?h is t l') = recurs (\<lambda>t. aig_at g is t l)" by (intro s(2)) simp_all
    qed
  qed
  moreover have "\<forall>is t l. (\<forall>t. length (is t) = length (aig_ins g)) \<and> lit_in (aig_vars g) l \<longrightarrow>
      aig_at ?h is t l = aig_at g is t l"
  proof (intro allI impI, elim conjE)
    fix "is" :: "nat \<Rightarrow> bool list" and t l
    assume "\<forall>t. length (is t) = length (aig_ins g)" "lit_in (aig_vars g) l"
    then show "aig_at ?h is t l = aig_at g is t l" by (intro adds_latches_at(1) [OF g nx h]) simp_all
  qed
  moreover have "aig_sample_input_dependent_acceptance g = Some ?h"
    using d(1,2) j f by (simp add: aig_sample_input_dependent_acceptance_def)
  moreover have "graph_ok ?h" "aig_ins ?h = aig_ins g" using h by (simp_all add: adds_latches_def)
  ultimately show ?thesis unfolding samples_def by blast
qed

lemma aig_sampling:
  assumes "aig_ok g" and "unat (nextvar g) + length (concat (acceptance g)) \<le> MAX_VAR"
  shows "\<exists>h. aig_sample_input_dependent_acceptance g = Some h \<and> samples g h"
  by (rule aig_sampling_defined) (use assms in \<open>auto simp: aig_ok_def lits_ok_def list_all_iff\<close>)

text \<open>The safety properties stay, and at most one latch per literal is new.\<close>

lemma sample_lit_fields:
  "sample_lit dep name g l = (h, l') \<Longrightarrow> aig_bads h = aig_bads g \<and> aig_outs h = aig_outs g \<and> length (aig_lats h) \<le> Suc (length (aig_lats g))"
  by (auto simp: sample_lit_def aig_latch_named_def Let_def split: if_splits)

lemma sample_lits_fields:
  "sample_lits dep name k g ls = (h, ls') \<Longrightarrow>
   aig_bads h = aig_bads g \<and> aig_outs h = aig_outs g \<and> length (aig_lats h) \<le> length (aig_lats g) + length ls"
proof (induction ls arbitrary: k g ls')
  case (Cons l ls)
  obtain g1 l1 ls1 where s: "sample_lit dep (name k) g l = (g1, l1)" "sample_lits dep name (Suc k) g1 ls = (h, ls1)"
    using Cons.prems by (auto split: prod.splits)
  from sample_lit_fields [OF s(1)] Cons.IH [OF s(2)] show ?case by simp
qed simp

lemma sample_justices_fields:
  "sample_justices dep j g xs = (h, ys) \<Longrightarrow>
   aig_bads h = aig_bads g \<and> aig_outs h = aig_outs g \<and> length (aig_lats h) \<le> length (aig_lats g) + length (concat (map j_lits xs))"
proof (induction xs arbitrary: j g ys)
  case (Cons x xs)
  obtain g1 ls zs where s: "sample_lits dep (\<lambda>k. sample_name ''__tlsf_gr1_sample_justice'' [j, k]) 0 g (j_lits x) = (g1, ls)"
    "sample_justices dep (Suc j) g1 xs = (h, zs)" using Cons.prems by (auto split: prod.splits)
  from sample_lits_fields [OF s(1)] Cons.IH [OF s(2)] show ?case by simp
qed simp

lemma sample_fairs_fields:
  "sample_fairs dep i g xs = (h, ys) \<Longrightarrow>
   aig_bads h = aig_bads g \<and> aig_outs h = aig_outs g \<and> length (aig_lats h) \<le> length (aig_lats g) + length xs"
proof (induction xs arbitrary: i g ys)
  case (Cons x xs)
  obtain g1 l zs where s: "sample_lit dep (sample_name ''__tlsf_gr1_sample_fairness'' [i]) g (n_lit x) = (g1, l)"
    "sample_fairs dep (Suc i) g1 xs = (h, zs)" using Cons.prems by (auto split: prod.splits)
  from sample_lit_fields [OF s(1)] Cons.IH [OF s(2)] show ?case by simp
qed simp

lemma sample_fields:
  assumes "aig_sample_input_dependent_acceptance g = Some h"
  shows "aig_bads h = aig_bads g" "aig_outs h = aig_outs g"
    "length (aig_lats h) \<le> length (aig_lats g) + length (concat (acceptance g))"
proof -
  obtain dep where d: "h = (case sample_justices dep 0 g (aig_justs g) of (g1, js) \<Rightarrow>
      case sample_fairs dep 0 (g1\<lparr>aig_justs := js\<rparr>) (aig_fairs g) of (g2, fs) \<Rightarrow> g2\<lparr>aig_fairs := fs\<rparr>)"
    using assms unfolding aig_sample_input_dependent_acceptance_def by (auto simp del: split_paired_All split_paired_Ex split: bind_splits)
  obtain g1 js where s1: "sample_justices dep 0 g (aig_justs g) = (g1, js)" by (rule prod.exhaust)
  obtain g2 fs where s2: "sample_fairs dep 0 (g1\<lparr>aig_justs := js\<rparr>) (aig_fairs g) = (g2, fs)" by (rule prod.exhaust)
  have s: "sample_justices dep 0 g (aig_justs g) = (g1, js)" "sample_fairs dep 0 (g1\<lparr>aig_justs := js\<rparr>) (aig_fairs g) = (g2, fs)"
    "h = g2\<lparr>aig_fairs := fs\<rparr>" using d by (simp_all add: s1 s2)
  from sample_justices_fields [OF s(1)] sample_fairs_fields [OF s(2)]
  show "aig_bads h = aig_bads g" "aig_outs h = aig_outs g"
    "length (aig_lats h) \<le> length (aig_lats g) + length (concat (acceptance g))"
    by (simp_all add: s(3) acceptance_def)
qed

text \<open>
  C17. Sampling the acceptance literals always succeeds on a well-formed graph with room for the
  new latches.  Each justice and fairness literal of the result is a predicate of the state alone,
  and it holds infinitely often in exactly the runs in which the original literal does; all other
  literals keep their values.
\<close>

theorem aig_sample_correct:
  assumes "aig_ok g" and "unat (nextvar g) + length (concat (acceptance g)) \<le> MAX_VAR"
  shows "\<exists>h. aig_sample_input_dependent_acceptance g = Some h \<and> graph_ok h \<and> aig_ins h = aig_ins g \<and>
    list_all2 (list_all2 (\<lambda>l l'. state_literal h l' \<and> (\<forall>is. (\<forall>t. length (is t) = length (aig_ins g)) \<longrightarrow>
       recurs (\<lambda>t. aig_at h is t l') = recurs (\<lambda>t. aig_at g is t l)))) (acceptance g) (acceptance h) \<and>
    (\<forall>is t l. (\<forall>t. length (is t) = length (aig_ins g)) \<and> lit_in (aig_vars g) l \<longrightarrow> aig_at h is t l = aig_at g is t l)"
  using aig_sampling [OF assms] unfolding samples_def .

theorem aig_sample_correct_witness:
  "\<exists>h l. aig_sample_input_dependent_acceptance (aig_add_fairness sample_dst 2 None) = Some h \<and>
     acceptance h = [[l]] \<and> state_literal h l \<and>
     recurs (\<lambda>t. aig_at h (\<lambda>t. [even t]) t l) = recurs (\<lambda>t. aig_at (aig_add_fairness sample_dst 2 None) (\<lambda>t. [even t]) t 2)"
proof -
  let ?g = "aig_add_fairness sample_dst 2 None"
  have ok: "aig_ok ?g"
    by (simp add: aig_ok_def graph_ok_def lits_ok_def sample_dst_eval leaf_vars_def aig_add_fairness_def
        aig_vars_def gate_vars_def lit_in_def MAX_VAR_def)
  have acc: "acceptance ?g = [[2]]" by (simp add: acceptance_def aig_add_fairness_def sample_dst_eval)
  have b: "unat (nextvar ?g) + length (concat (acceptance ?g)) \<le> MAX_VAR"
    unfolding acc by (simp add: aig_add_fairness_def sample_dst_eval MAX_VAR_def)
  from aig_sample_correct [OF ok b] obtain h where
    h: "aig_sample_input_dependent_acceptance ?g = Some h"
    "list_all2 (list_all2 (\<lambda>l l'. state_literal h l' \<and> (\<forall>is. (\<forall>t. length (is t) = length (aig_ins ?g)) \<longrightarrow>
       recurs (\<lambda>t. aig_at h is t l') = recurs (\<lambda>t. aig_at ?g is t l)))) [[2]] (acceptance h)"
    unfolding acc by (elim exE conjE)
  from h(2) obtain l where l: "acceptance h = [[l]]" "state_literal h l"
    "\<forall>is. (\<forall>t. length (is t) = length (aig_ins ?g)) \<longrightarrow>
       recurs (\<lambda>t. aig_at h is t l) = recurs (\<lambda>t. aig_at ?g is t 2)"
    by (auto simp: list_all2_Cons1)
  have "\<forall>t. length ((\<lambda>t. [even t]) (t :: nat)) = length (aig_ins ?g)"
    by (simp add: aig_add_fairness_def sample_dst_eval)
  with l h(1) show ?thesis by (intro exI [of _ h] exI [of _ l]) simp
qed

end
