(* ===== verification/Aiger_File.thy ===== *)
theory Aiger_File
  imports Aiger
begin

text \<open>
  The ASCII format of and-inverter graphs, the reader and writer of \<^verbatim>\<open>src/lib/aiger.c\<close>.  A file is
  a string; a null result or an access outside an array is \<^const>\<open>None\<close>.
\<close>

subsection \<open>Lines and numbers\<close>

definition newline :: char where "newline = CHR 0x0A"
definition carriage_return :: char where "carriage_return = CHR 0x0D"
definition tabulator :: char where "tabulator = CHR 0x09"

text \<open>\<^verbatim>\<open>fgets\<close> into a buffer of 8192 bytes; the string functions see the line up to a zero byte.\<close>

fun take_line :: "nat \<Rightarrow> string \<Rightarrow> string \<times> string" where
  "take_line 0 s = ([], s)"
| "take_line (Suc k) [] = ([], [])"
| "take_line (Suc k) (c # s) = (if c = newline then ([c], s) else apfst ((#) c) (take_line k s))"

definition LINE_SIZE :: nat where "LINE_SIZE = 8192"

definition c_string :: "string \<Rightarrow> string" where
  "c_string s = takeWhile (\<lambda>c. c \<noteq> CHR 0x00) s"

definition fgets :: "string \<Rightarrow> (string \<times> string) option" where
  "fgets s = (if s = [] then None else Some (apfst c_string (take_line (LINE_SIZE - 1) s)))"

lemma take_line_shorter: "s \<noteq> [] \<Longrightarrow> length (snd (take_line (Suc k) s)) < length s"
proof -
  have le: "length (snd (take_line k s)) \<le> length s" for k and s :: string
    by (induction k s rule: take_line.induct) auto
  assume "s \<noteq> []"
  then obtain c r where "s = c # r" by (cases s) auto
  then show ?thesis using le [of k r] by simp
qed

function lines_of :: "string \<Rightarrow> string list" where
  "lines_of s = (case fgets s of None \<Rightarrow> [] | Some (l, r) \<Rightarrow> l # lines_of r)"
  by pat_completeness auto
termination
proof (relation "measure length")
  fix s l r and x :: "string \<times> string"
  assume "fgets s = Some x" "(l, r) = x"
  then show "(r, s) \<in> measure length"
    using take_line_shorter [of s "LINE_SIZE - 2"]
    by (auto simp: fgets_def LINE_SIZE_def split: if_splits prod.splits simp del: take_line.simps)
      (metis apfst_conv snd_conv surj_pair)
qed simp

declare lines_of.simps [simp del]

text \<open>\<^verbatim>\<open>strtoul(s, &end, 10)\<close> saturates at the range of \<^verbatim>\<open>unsigned long\<close>; a sign negates in that range.\<close>

definition strtoul10 :: "string \<Rightarrow> nat \<times> string" where
  "strtoul10 s =
     (let t = dropWhile is_space s;
          neg = (case t of c # _ \<Rightarrow> c = CHR ''-'' | [] \<Rightarrow> False);
          u = (case t of c # r \<Rightarrow> if c = CHR ''-'' \<or> c = CHR ''+'' then r else t | [] \<Rightarrow> t);
          ds = takeWhile is_digit u;
          v = digits_value ds
      in if ds = [] then (0, s)
         else (if v \<ge> 2 ^ 64 then 2 ^ 64 - 1 else if neg then (2 ^ 64 - v) mod 2 ^ 64 else v,
               dropWhile is_digit u))"

fun parse_uints :: "nat \<Rightarrow> string \<Rightarrow> u32 list" where
  "parse_uints 0 s = []"
| "parse_uints (Suc n) s =
     (case strtoul10 s of (v, r) \<Rightarrow> if r = s then [] else word_of_nat v # parse_uints n r)"

text \<open>A section: \<open>n\<close> lines with at least \<open>least\<close> and at most \<open>most\<close> numbers read from each.\<close>

fun read_rows :: "nat \<Rightarrow> nat \<Rightarrow> nat \<Rightarrow> string \<Rightarrow> (u32 list list \<times> string) option" where
  "read_rows most least 0 s = Some ([], s)"
| "read_rows most least (Suc n) s =
     do { (line, s1) \<leftarrow> fgets s;
          let us = parse_uints most line;
          if length us < least then None
          else do { (rows, s2) \<leftarrow> read_rows most least n s1; Some (us # rows, s2) } }"

fun read_groups :: "u32 list \<Rightarrow> string \<Rightarrow> (u32 list list \<times> string) option" where
  "read_groups [] s = Some ([], s)"
| "read_groups (n # ns) s =
     do { (rows, s1) \<leftarrow> read_rows 1 1 (unat n) s;
          (groups, s2) \<leftarrow> read_groups ns s1;
          Some (concat rows # groups, s2) }"

subsection \<open>Symbols and comments\<close>

definition is_blank :: "char \<Rightarrow> bool" where
  "is_blank c \<longleftrightarrow> c = CHR '' '' \<or> c = tabulator"

definition is_trailing :: "char \<Rightarrow> bool" where
  "is_trailing c \<longleftrightarrow> c = newline \<or> c = carriage_return \<or> is_blank c"

definition dup_trimmed_symbol :: "string \<Rightarrow> string option" where
  "dup_trimmed_symbol s =
     (let t = rev (dropWhile is_trailing (rev (dropWhile is_blank s))) in if t = [] then None else Some t)"

definition is_comment_delimiter :: "string \<Rightarrow> bool" where
  "is_comment_delimiter l =
     (case l of c # r \<Rightarrow> c = CHR ''c'' \<and> (case r of [] \<Rightarrow> True | d # _ \<Rightarrow> d = newline \<or> d = carriage_return)
      | [] \<Rightarrow> False)"

definition parse_controllable_gate_comment :: "string \<Rightarrow> nat \<Rightarrow> (u32 \<times> string) option" where
  "parse_controllable_gate_comment line name_cap =
     (let l = drop (length ''controllable-gate'') line in
      if \<not> starts_with ''controllable-gate'' line \<or> l = [] \<or> \<not> is_space (hd l) then None
      else let l = dropWhile is_space l in
        case strtoul10 l of (v, r) \<Rightarrow>
          if r = l \<or> v > 2 ^ 32 - 1 \<or> r = [] \<or> \<not> is_space (hd r) then None
          else let nm = takeWhile (\<lambda>c. \<not> is_trailing c) (dropWhile is_space r) in
            if nm = [] \<or> length nm \<ge> name_cap then None else Some (word_of_nat v, nm))"

record symbols =
  sy_graph :: aig
  sy_comments :: bool
  sy_o :: "string option list"
  sy_b :: "string option list"
  sy_c :: "string option list"
  sy_j :: "string option list"
  sy_f :: "string option list"

definition set_name :: "nat \<Rightarrow> string \<Rightarrow> string option list \<Rightarrow> string option list" where
  "set_name i n xs = (if i < length xs then xs[i := Some n] else xs)"

definition name_input :: "nat \<Rightarrow> string \<Rightarrow> aig \<Rightarrow> aig" where
  "name_input i n g = (if i < length (aig_ins g)
     then g\<lparr>aig_ins := (aig_ins g)[i := (aig_ins g ! i)\<lparr>in_name := Some n\<rparr>]\<rparr> else g)"

definition name_latch :: "nat \<Rightarrow> string \<Rightarrow> aig \<Rightarrow> aig" where
  "name_latch i n g = (if i < length (aig_lats g)
     then g\<lparr>aig_lats := (aig_lats g)[i := (aig_lats g ! i)\<lparr>lat_name := Some n\<rparr>]\<rparr> else g)"

definition symbol_line :: "bool \<Rightarrow> symbols \<Rightarrow> string \<Rightarrow> symbols" where
  "symbol_line controller y line =
     (if sy_comments y
      then (if controller
            then case parse_controllable_gate_comment line 4096 of
                   Some (lit, n) \<Rightarrow> y\<lparr>sy_graph := aig_set_output (sy_graph y) (Some n) lit\<rparr>
                 | None \<Rightarrow> y
            else y)
      else if is_comment_delimiter line then y\<lparr>sy_comments := True\<rparr>
      else case line of [] \<Rightarrow> y | kind # rest \<Rightarrow>
        if kind \<notin> set ''iolbcjf'' then y
        else case strtoul10 rest of (idx, r) \<Rightarrow>
          if r = rest then y
          else case dup_trimmed_symbol r of
            None \<Rightarrow> y
          | Some n \<Rightarrow>
              if kind = CHR ''i'' then y\<lparr>sy_graph := name_input idx n (sy_graph y)\<rparr>
              else if kind = CHR ''l'' then y\<lparr>sy_graph := name_latch idx n (sy_graph y)\<rparr>
              else if kind = CHR ''o'' then y\<lparr>sy_o := set_name idx n (sy_o y)\<rparr>
              else if kind = CHR ''b'' then y\<lparr>sy_b := set_name idx n (sy_b y)\<rparr>
              else if kind = CHR ''c'' then y\<lparr>sy_c := set_name idx n (sy_c y)\<rparr>
              else if kind = CHR ''j'' then y\<lparr>sy_j := set_name idx n (sy_j y)\<rparr>
              else y\<lparr>sy_f := set_name idx n (sy_f y)\<rparr>)"

subsection \<open>The reader\<close>

text \<open>A line before the header is skipped when it is a verdict; a stream that cannot seek loses it.\<close>

definition read_header :: "bool \<Rightarrow> string \<Rightarrow> (string \<times> string) option" where
  "read_header seekable s =
     do { (line, r) \<leftarrow> fgets s;
          if starts_with ''aag '' line then Some (line, r)
          else if \<not> starts_with ''REALIZABLE'' line \<and> seekable then fgets s else fgets r }"

definition row_latch :: "u32 list \<Rightarrow> latch" where
  "row_latch t = \<lparr>lat_var = t ! 0 div 2, lat_next = t ! 1,
     lat_reset = (if length t > 2 then t ! 2 else 0), lat_name = None\<rparr>"

definition row_gate :: "u32 list \<Rightarrow> gate" where
  "row_gate t = \<lparr>g_var = t ! 0 div 2, g_r0 = t ! 1, g_r1 = t ! 2\<rparr>"

definition finish_read :: "symbols \<Rightarrow> u32 list \<Rightarrow> u32 list \<Rightarrow> u32 list \<Rightarrow> u32 list list \<Rightarrow> u32 list \<Rightarrow> aig" where
  "finish_read y os bs cs js fs =
     (let g = foldl (\<lambda>g i. reg_sig g (in_name i) (in_var i * 2)) (sy_graph y) (aig_ins (sy_graph y));
          g = foldl (\<lambda>g (n, l). aig_set_output g n l) g (zip (sy_o y) os);
          g = foldl (\<lambda>g (n, l). aig_add_bad g l n) g (zip (sy_b y) bs);
          g = foldl (\<lambda>g (n, l). aig_add_constraint g l n) g (zip (sy_c y) cs);
          g = foldl (\<lambda>g (n, ls). aig_add_justice g ls n) g (zip (sy_j y) js)
      in foldl (\<lambda>g (n, l). aig_add_fairness g l n) g (zip (sy_f y) fs))"

definition no_names :: "'a list \<Rightarrow> string option list" where
  "no_names xs = map (\<lambda>_. None) xs"

definition aig_read_aag_impl :: "bool \<Rightarrow> bool \<Rightarrow> string \<Rightarrow> aig option" where
  "aig_read_aag_impl controller seekable s =
     do { (line, s) \<leftarrow> read_header seekable s;
          if \<not> starts_with ''aag '' line then None
          else let h = parse_uints 9 (drop 4 line) in
            if length h < 5 then None
            else let hdr = (\<lambda>i. if i < length h then h ! i else 0) in
              do { (is, s) \<leftarrow> read_rows 1 1 (unat (hdr 1)) s;
                   (ls, s) \<leftarrow> read_rows 3 2 (unat (hdr 2)) s;
                   (os, s) \<leftarrow> read_rows 1 1 (unat (hdr 3)) s;
                   (bs, s) \<leftarrow> read_rows 1 1 (unat (hdr 5)) s;
                   (cs, s) \<leftarrow> read_rows 1 1 (unat (hdr 6)) s;
                   (ns, s) \<leftarrow> read_rows 1 1 (unat (hdr 7)) s;
                   (js, s) \<leftarrow> read_groups (concat ns) s;
                   (fs, s) \<leftarrow> read_rows 1 1 (unat (hdr 8)) s;
                   (as, s) \<leftarrow> read_rows 3 3 (unat (hdr 4)) s;
                   let g = aig_new\<lparr>nextvar := hdr 0,
                     aig_ins := map (\<lambda>r. \<lparr>in_name = None, in_var = r ! 0 div 2\<rparr>) is,
                     aig_lats := map row_latch ls, aig_ands := map row_gate as\<rparr>;
                   let y = foldl (symbol_line controller)
                     \<lparr>sy_graph = g, sy_comments = False, sy_o = no_names os, sy_b = no_names bs,
                      sy_c = no_names cs, sy_j = no_names js, sy_f = no_names fs\<rparr> (lines_of s);
                   Some (finish_read y (concat os) (concat bs) (concat cs) js (concat fs)) } }"

definition aig_read_aag :: "bool \<Rightarrow> string \<Rightarrow> aig option" where
  "aig_read_aag = aig_read_aag_impl False"

definition aig_read_aag_with_controller_comments :: "bool \<Rightarrow> string \<Rightarrow> aig option" where
  "aig_read_aag_with_controller_comments = aig_read_aag_impl True"

subsection \<open>The writer\<close>

definition show_u32 :: "u32 \<Rightarrow> string" where
  "show_u32 w = show_nat (unat w)"

fun show_row :: "u32 list \<Rightarrow> string" where
  "show_row [] = [newline]"
| "show_row [u] = show_u32 u @ [newline]"
| "show_row (u # us) = show_u32 u @ CHR '' '' # show_row us"

definition u32_of :: "nat \<Rightarrow> u32" where
  "u32_of n = word_of_nat n"

text \<open>The canonical numbers: inputs, latches and gates in order, from 1.\<close>

fun number_vars :: "u32 list \<Rightarrow> u32 \<Rightarrow> u32 list \<Rightarrow> u32 list option" where
  "number_vars [] k canon = Some canon"
| "number_vars (v # vs) k canon = do { canon' \<leftarrow> array_set canon v k; number_vars vs (k + 1) canon' }"

definition canon_map :: "aig \<Rightarrow> u32 list option" where
  "canon_map g =
     do { c \<leftarrow> number_vars (map in_var (aig_ins g)) 1 (replicate (unat (nextvar g + 1)) 0);
          c \<leftarrow> number_vars (map lat_var (aig_lats g)) (u32_of (length (aig_ins g)) + 1) c;
          number_vars (map g_var (aig_ands g)) (u32_of (length (aig_ins g)) + u32_of (length (aig_lats g)) + 1) c }"

definition symbol_lines :: "char \<Rightarrow> string option list \<Rightarrow> string" where
  "symbol_lines kind ns =
     concat (map (\<lambda>(k, n). case n of None \<Rightarrow> []
       | Some s \<Rightarrow> kind # show_u32 (u32_of k) @ CHR '' '' # s @ [newline]) (List.enumerate 0 ns))"

definition latch_row :: "nat \<Rightarrow> nat \<Rightarrow> u32 \<Rightarrow> u32 \<Rightarrow> u32 list" where
  "latch_row nin k nxt reset =
     (let v = (u32_of nin + 1 + u32_of k) * 2 in if reset \<noteq> 0 then [v, nxt, reset] else [v, nxt])"

definition header_row :: "aig \<Rightarrow> u32 list" where
  "header_row g =
     (let i = u32_of (length (aig_ins g)); l = u32_of (length (aig_lats g)); a = u32_of (length (aig_ands g)) in
      [i + l + a, i, l, u32_of (length (aig_outs g)), a] @
      (if aig_bads g \<noteq> [] \<or> aig_cons g \<noteq> [] \<or> aig_justs g \<noteq> [] \<or> aig_fairs g \<noteq> []
       then [u32_of (length (aig_bads g)), u32_of (length (aig_cons g)), u32_of (length (aig_justs g)),
             u32_of (length (aig_fairs g))]
       else []))"

definition show_rows :: "u32 list list \<Rightarrow> string" where
  "show_rows rs = concat (map show_row rs)"

definition aig_write_aag :: "aig \<Rightarrow> string option" where
  "aig_write_aag g =
     do { canon \<leftarrow> canon_map g;
          let wlit = remap canon;
          nexts \<leftarrow> traverse (\<lambda>l. wlit (lat_next l)) (aig_lats g);
          os \<leftarrow> traverse (\<lambda>s. wlit (n_lit s)) (aig_outs g);
          bs \<leftarrow> traverse (\<lambda>s. wlit (n_lit s)) (aig_bads g);
          cs \<leftarrow> traverse (\<lambda>s. wlit (n_lit s)) (aig_cons g);
          js \<leftarrow> traverse (\<lambda>j. traverse wlit (j_lits j)) (aig_justs g);
          fs \<leftarrow> traverse (\<lambda>s. wlit (n_lit s)) (aig_fairs g);
          as \<leftarrow> traverse (\<lambda>a. do { r0 \<leftarrow> wlit (g_r0 a); r1 \<leftarrow> wlit (g_r1 a); Some (r0, r1) }) (aig_ands g);
          let nin = length (aig_ins g);
          let nl = length (aig_lats g);
          Some (''aag '' @ show_row (header_row g) @
            show_rows (map (\<lambda>k. [(u32_of k + 1) * 2]) [0..<nin]) @
            show_rows (map (\<lambda>(k, n, l). latch_row nin k n (lat_reset l)) (List.enumerate 0 (zip nexts (aig_lats g)))) @
            show_rows (map (\<lambda>l. [l]) os) @ show_rows (map (\<lambda>l. [l]) bs) @ show_rows (map (\<lambda>l. [l]) cs) @
            show_rows (map (\<lambda>j. [u32_of (length j)]) js) @ show_rows (map (\<lambda>l. [l]) (concat js)) @
            show_rows (map (\<lambda>l. [l]) fs) @
            show_rows (map (\<lambda>(k, r0, r1). [(u32_of nin + u32_of nl + 1 + u32_of k) * 2, r0, r1]) (List.enumerate 0 as)) @
            symbol_lines CHR ''i'' (map in_name (aig_ins g)) @
            symbol_lines CHR ''l'' (map lat_name (aig_lats g)) @
            symbol_lines CHR ''o'' (map n_name (aig_outs g)) @
            symbol_lines CHR ''b'' (map n_name (aig_bads g)) @
            symbol_lines CHR ''c'' (map n_name (aig_cons g)) @
            symbol_lines CHR ''j'' (map j_name (aig_justs g)) @
            symbol_lines CHR ''f'' (map n_name (aig_fairs g))) }"

end
