(* ===== verification/Aiger_Text.thy ===== *)
theory Aiger_Text
  imports Aiger_File
begin

text \<open>
  Reading back the lines, numbers and symbols that the writer of graphs prints.
\<close>

subsection \<open>Lines\<close>

definition plain :: "string \<Rightarrow> bool" where
  "plain s \<longleftrightarrow> newline \<notin> set s \<and> CHR 0x00 \<notin> set s"

lemma plain_simps [simp]: "plain []" "plain (s @ t) \<longleftrightarrow> plain s \<and> plain t"
  "plain (c # s) \<longleftrightarrow> c \<noteq> newline \<and> c \<noteq> CHR 0x00 \<and> plain s"
  by (auto simp: plain_def)

lemma take_line_plain: "plain l \<Longrightarrow> length l < k \<Longrightarrow> take_line k (l @ newline # r) = (l @ [newline], r)"
proof (induction l arbitrary: k)
  case Nil
  then show ?case by (cases k) simp_all
next
  case (Cons c l)
  then show ?case by (cases k) simp_all
qed

lemma fgets_plain:
  assumes "plain l" and "length l < LINE_SIZE - 1"
  shows "fgets (l @ newline # r) = Some (l @ [newline], r)"
proof -
  have "c_string (l @ [newline]) = l @ [newline]"
    using assms(1) unfolding c_string_def by (subst takeWhile_append2) (auto simp: plain_def newline_def)
  then show ?thesis using take_line_plain [OF assms] by (simp add: fgets_def)
qed

lemma lines_of_plain:
  "\<forall>l\<in>set ls. plain l \<and> length l < LINE_SIZE - 1 \<Longrightarrow>
   lines_of (concat (map (\<lambda>l. l @ [newline]) ls)) = map (\<lambda>l. l @ [newline]) ls"
proof (induction ls)
  case Nil
  then show ?case by (simp add: lines_of.simps fgets_def)
next
  case (Cons l ls)
  then show ?case using fgets_plain [of l "concat (map (\<lambda>l. l @ [newline]) ls)"]
    by (subst lines_of.simps) simp
qed

subsection \<open>Numbers\<close>

lemma digit_facts: "is_digit c \<Longrightarrow> \<not> is_space c \<and> c \<noteq> CHR ''-'' \<and> c \<noteq> CHR ''+'' \<and> c \<noteq> newline \<and> c \<noteq> CHR 0x00"
  by (auto simp: is_digit_def is_space_def newline_def)

lemma show_nat_plain: "plain (show_nat n)"
  using show_nat_digits [of n] digit_facts by (auto simp: plain_def list_all_iff)

lemma length_show_u32: "length (show_u32 w) \<le> 10"
proof -
  have "unat w < 2 ^ 32" using unsigned_less [of w] by simp
  then show ?thesis unfolding show_u32_def using length_show_nat [of "unat w" 9] by simp
qed

lemma strtoul10_show:
  assumes "n < 2 ^ 64" and "r = [] \<or> \<not> is_digit (hd r)"
  shows "strtoul10 (show_nat n @ r) = (n, r)"
proof -
  note d = show_nat_digits [of n]
  then obtain c cs where c: "show_nat n = c # cs" "is_digit c" by (cases "show_nat n") auto
  have all: "\<forall>x\<in>set (show_nat n). is_digit x" using d by (simp add: list_all_iff)
  have tw: "takeWhile is_digit (show_nat n @ r) = show_nat n" "dropWhile is_digit (show_nat n @ r) = r"
    using takeWhile_append2 [of "show_nat n" is_digit r] dropWhile_append2 [of "show_nat n" is_digit r] all assms(2)
    by (cases r; simp)+
  have "dropWhile is_space (show_nat n @ r) = show_nat n @ r" using c digit_facts by simp
  then show ?thesis using tw d assms(1) c digit_facts [OF c(2)] by (simp add: strtoul10_def Let_def)
qed

lemma strtoul10_space:
  assumes "s = c # r" and "is_digit c"
  shows "strtoul10 (CHR '' '' # s) = strtoul10 s"
proof -
  have "is_space CHR '' ''" by (simp add: is_space_def)
  then show ?thesis using assms digit_facts [of c] by (simp add: strtoul10_def Let_def)
qed

lemma strtoul10_space_show:
  assumes "n < 2 ^ 64" and "r = [] \<or> \<not> is_digit (hd r)"
  shows "strtoul10 (CHR '' '' # show_nat n @ r) = (n, r)"
proof -
  from show_nat_digits [of n] obtain c cs where c: "show_nat n = c # cs" "is_digit c"
    by (cases "show_nat n") auto
  have "strtoul10 (CHR '' '' # show_nat n @ r) = strtoul10 (show_nat n @ r)"
    by (rule strtoul10_space [OF _ c(2)]) (simp add: c(1))
  then show ?thesis by (simp add: strtoul10_show [OF assms])
qed

lemma strtoul10_newline: "strtoul10 [newline] = (0, [newline])"
  by (simp add: strtoul10_def newline_def is_space_def is_digit_def Let_def)

lemma unat_less_64: "unat (w :: u32) < 2 ^ 64"
proof -
  have "unat w < 2 ^ 32" using unsigned_less [of w] by simp
  then show ?thesis by simp
qed

lemma show_row_Cons: "show_row (u # us) = show_u32 u @ (if us = [] then [newline] else CHR '' '' # show_row us)"
  by (cases us) simp_all

lemma not_digits: "\<not> is_digit newline" "\<not> is_digit CHR '' ''"
  by (simp_all add: newline_def is_digit_def)

lemma parse_show_row: "length us \<le> m \<Longrightarrow> parse_uints m (show_row us) = us \<and>
   (us \<noteq> [] \<longrightarrow> parse_uints m (CHR '' '' # show_row us) = us)"
proof (induction us arbitrary: m)
  case Nil
  then show ?case by (cases m) (simp_all add: strtoul10_newline)
next
  case (Cons u us)
  then obtain k where k: "m = Suc k" "length us \<le> k" by (cases m) auto
  let ?r = "if us = [] then [newline] else CHR '' '' # show_row us"
  have h: "\<not> is_digit (hd ?r)" using not_digits by simp
  have s: "strtoul10 (show_u32 u @ ?r) = (unat u, ?r)" "strtoul10 (CHR '' '' # show_u32 u @ ?r) = (unat u, ?r)"
    unfolding show_u32_def by (intro strtoul10_show strtoul10_space_show unat_less_64 disjI2 h)+
  have ne: "?r \<noteq> show_u32 u @ ?r" "?r \<noteq> CHR '' '' # show_u32 u @ ?r"
    using show_nat_digits [of "unat u"] by (auto simp: show_u32_def dest: arg_cong [of _ _ length])
  have "parse_uints k ?r = us"
    using Cons.IH [OF k(2)] by (cases "us = []"; cases k) (simp_all add: strtoul10_newline)
  then show ?case using s ne by (simp add: k(1) show_row_Cons)
qed

lemma show_row_line:
  "\<exists>l. show_row us = l @ [newline] \<and> plain l \<and> length l \<le> 11 * length us"
proof (induction us)
  case (Cons u us)
  then obtain l where l: "show_row us = l @ [newline]" "plain l" "length l \<le> 11 * length us" by blast
  have "plain (show_u32 u)" by (simp add: show_u32_def show_nat_plain)
  moreover have "CHR '' '' \<noteq> newline" by (simp add: newline_def)
  ultimately show ?case using l length_show_u32 [of u]
    by (intro exI [of _ "show_u32 u @ (if us = [] then [] else CHR '' '' # l)"]) (simp add: show_row_Cons)
qed simp

lemma read_rows_show:
  assumes "\<forall>us\<in>set rs. least \<le> length us \<and> length us \<le> most" and "most \<le> 9"
  shows "read_rows most least (length rs) (show_rows rs @ s) = Some (rs, s)"
  using assms(1)
proof (induction rs)
  case (Cons us rs)
  from show_row_line [of us] obtain l where l: "show_row us = l @ [newline]" "plain l" "length l \<le> 11 * length us" by blast
  have len: "length us \<le> most" "least \<le> length us" using Cons.prems by simp_all
  have "length l < LINE_SIZE - 1" using l(3) len(1) assms(2) by (simp add: LINE_SIZE_def)
  from fgets_plain [OF l(2) this, of "show_rows rs @ s"]
  have "fgets (show_rows (us # rs) @ s) = Some (show_row us, show_rows rs @ s)"
    by (simp add: show_rows_def l(1))
  with Cons parse_show_row [OF len(1)] len(2) show ?case by simp
qed (simp add: show_rows_def)

lemma show_rows_append: "show_rows (as @ bs) = show_rows as @ show_rows bs"
  by (simp add: show_rows_def)

lemma read_groups_show:
  assumes "\<forall>g\<in>set gs. length g < 2 ^ 32"
  shows "read_groups (map (\<lambda>g. u32_of (length g)) gs) (show_rows (map (\<lambda>l. [l]) (concat gs)) @ s) = Some (gs, s)"
  using assms
proof (induction gs)
  case Nil
  then show ?case by (simp add: show_rows_def)
next
  case (Cons g gs)
  have n: "unat (u32_of (length g)) = length g" using Cons.prems by (simp add: u32_of_def unsigned_of_nat take_bit_nat_eq_self)
  have "read_rows 1 1 (length (map (\<lambda>l. [l]) g)) (show_rows (map (\<lambda>l. [l]) g) @ t) = Some (map (\<lambda>l. [l]) g, t)" for t
    by (rule read_rows_show) auto
  with Cons n show ?case by (simp add: show_rows_append)
qed

subsection \<open>Symbols\<close>

text \<open>The names that survive the trip through a file.\<close>

definition good_name :: "string \<Rightarrow> bool" where
  "good_name s \<longleftrightarrow> s \<noteq> [] \<and> plain s \<and> \<not> is_blank (hd s) \<and> \<not> is_trailing (last s) \<and> length s \<le> 8000"

definition good_names :: "string option list \<Rightarrow> bool" where
  "good_names ns \<longleftrightarrow> (\<forall>n\<in>set ns. case n of None \<Rightarrow> True | Some s \<Rightarrow> good_name s) \<and> length ns < 2 ^ 32"

lemma trim_name:
  assumes "good_name s"
  shows "dup_trimmed_symbol (CHR '' '' # s @ [newline]) = Some s"
proof -
  obtain c r where s: "s = c # r" "\<not> is_blank c" using assms by (cases s) (auto simp: good_name_def)
  obtain d q where q: "rev s = d # q" "\<not> is_trailing d"
  proof (cases "rev s")
    case Nil
    with assms show ?thesis by (simp add: good_name_def)
  next
    case (Cons d q)
    then have "last s = d" by (simp add: hd_rev [symmetric])
    with that [OF Cons] assms show ?thesis by (simp add: good_name_def)
  qed
  have t: "is_blank CHR '' ''" "is_trailing newline" by (simp_all add: is_blank_def is_trailing_def)
  have "dropWhile is_trailing (rev (s @ [newline])) = rev s" using q t by simp
  then show ?thesis using s t by (simp add: dup_trimmed_symbol_def)
qed

text \<open>What a symbol line does outside the comments.\<close>

definition apply_symbol :: "char \<Rightarrow> nat \<Rightarrow> string \<Rightarrow> symbols \<Rightarrow> symbols" where
  "apply_symbol kind idx n y =
     (if kind = CHR ''i'' then y\<lparr>sy_graph := name_input idx n (sy_graph y)\<rparr>
      else if kind = CHR ''l'' then y\<lparr>sy_graph := name_latch idx n (sy_graph y)\<rparr>
      else if kind = CHR ''o'' then y\<lparr>sy_o := set_name idx n (sy_o y)\<rparr>
      else if kind = CHR ''b'' then y\<lparr>sy_b := set_name idx n (sy_b y)\<rparr>
      else if kind = CHR ''c'' then y\<lparr>sy_c := set_name idx n (sy_c y)\<rparr>
      else if kind = CHR ''j'' then y\<lparr>sy_j := set_name idx n (sy_j y)\<rparr>
      else y\<lparr>sy_f := set_name idx n (sy_f y)\<rparr>)"

definition symbol_text :: "char \<Rightarrow> nat \<Rightarrow> string \<Rightarrow> string" where
  "symbol_text kind k s = kind # show_u32 (u32_of k) @ CHR '' '' # s"

lemma symbol_line_ok:
  assumes "\<not> sy_comments y" and "kind \<in> set ''iolbcjf''" and "k < 2 ^ 32" and "good_name s"
  shows "symbol_line controller y (symbol_text kind k s @ [newline]) = apply_symbol kind k s y"
proof -
  let ?r = "show_nat k @ CHR '' '' # s @ [newline]"
  have u: "unat (u32_of k) = k" using assms(3) by (simp add: u32_of_def unsigned_of_nat take_bit_nat_eq_self)
  from show_nat_digits [of k] obtain c cs where c: "show_nat k = c # cs" "is_digit c"
    by (cases "show_nat k") auto
  have "c \<noteq> newline" "c \<noteq> carriage_return"
    using c(2) by (auto simp: is_digit_def newline_def carriage_return_def)
  then have "\<not> is_comment_delimiter (kind # ?r)" by (simp add: is_comment_delimiter_def c(1))
  moreover have "strtoul10 ?r = (k, CHR '' '' # s @ [newline])"
    by (rule strtoul10_show) (use assms(3) not_digits in simp_all)
  moreover have "CHR '' '' # s @ [newline] \<noteq> ?r" using c(1) by (auto dest: arg_cong [of _ _ length])
  ultimately show ?thesis using assms(1,2) trim_name [OF assms(4)]
    by (simp add: symbol_line_def symbol_text_def show_u32_def u apply_symbol_def)
qed

fun symbols_from :: "char \<Rightarrow> nat \<Rightarrow> string option list \<Rightarrow> (char \<times> nat \<times> string) list" where
  "symbols_from kind k [] = []"
| "symbols_from kind k (None # ns) = symbols_from kind (Suc k) ns"
| "symbols_from kind k (Some s # ns) = (kind, k, s) # symbols_from kind (Suc k) ns"

lemma symbol_lines_from:
  "concat (map (\<lambda>(k, n). case n of None \<Rightarrow> []
       | Some s \<Rightarrow> kind # show_u32 (u32_of k) @ CHR '' '' # s @ [newline]) (List.enumerate k ns)) =
   concat (map (\<lambda>l. l @ [newline]) (map (\<lambda>(c, k, s). symbol_text c k s) (symbols_from kind k ns)))"
  by (induction kind k ns rule: symbols_from.induct) (simp_all add: symbol_text_def)

lemma symbols_from_ok:
  "\<forall>n\<in>set ns. case n of None \<Rightarrow> True | Some s \<Rightarrow> good_name s \<Longrightarrow> k + length ns < 2 ^ 32 \<Longrightarrow>
   (c, i, s) \<in> set (symbols_from kind k ns) \<Longrightarrow> c = kind \<and> i < 2 ^ 32 \<and> good_name s"
  by (induction kind k ns rule: symbols_from.induct) auto

lemma symbol_text_plain:
  assumes "kind \<in> set ''iolbcjf''" and "good_name s"
  shows "plain (symbol_text kind k s) \<and> length (symbol_text kind k s) < LINE_SIZE - 1"
proof -
  have "kind \<noteq> newline" "kind \<noteq> CHR 0x00" "CHR '' '' \<noteq> newline" using assms(1) by (auto simp: newline_def)
  then show ?thesis using assms(2) length_show_u32 [of "u32_of k"]
    by (simp add: symbol_text_def good_name_def show_u32_def show_nat_plain LINE_SIZE_def)
qed

lemma apply_symbol_comments [simp]: "sy_comments (apply_symbol kind k s y) = sy_comments y"
  by (simp add: apply_symbol_def)

lemma fold_symbol_lines:
  assumes "\<not> sy_comments y" and "\<forall>(c, k, s)\<in>set xs. c \<in> set ''iolbcjf'' \<and> k < 2 ^ 32 \<and> good_name s"
  shows "foldl (symbol_line controller) y
      (lines_of (concat (map (\<lambda>l. l @ [newline]) (map (\<lambda>(c, k, s). symbol_text c k s) xs)))) =
    foldl (\<lambda>y (c, k, s). apply_symbol c k s y) y xs"
proof -
  have "\<forall>l\<in>set (map (\<lambda>(c, k, s). symbol_text c k s) xs). plain l \<and> length l < LINE_SIZE - 1"
    using assms(2) symbol_text_plain by fastforce
  note l = lines_of_plain [OF this]
  have "foldl (symbol_line controller) y (map (\<lambda>l. l @ [newline]) (map (\<lambda>(c, k, s). symbol_text c k s) xs)) =
      foldl (\<lambda>y (c, k, s). apply_symbol c k s y) y xs"
    using assms
  proof (induction xs arbitrary: y)
    case (Cons x xs)
    obtain c k s where x: "x = (c, k, s)" by (rule prod_cases3)
    with Cons symbol_line_ok [of y c k s controller] show ?case by simp
  qed simp
  then show ?thesis unfolding l .
qed

end
