(* ===== verification/Aiger_Roundtrip.thy ===== *)
theory Aiger_Roundtrip
  imports Aiger_Text Aiger_Merge
begin

text \<open>
  Writing a graph and reading the file back yields a graph with the same names that behaves the
  same in every run; the variables are renumbered.
\<close>

subsection \<open>The canonical numbers\<close>

lemma number_vars_fresh: "number_vars vs (n + 1) c = map_option fst (fresh_vars vs n c)"
proof (induction vs arbitrary: n c)
  case (Cons v vs)
  show ?case
  proof (cases "array_set c v (n + 1)")
    case (Some d)
    then show ?thesis using Cons.IH [of "n + 1" d] by simp
  qed simp
qed simp

lemma numbered_Nil [simp]: "numbered c [] n"
  by (simp add: numbered_def)

lemma numbered_append:
  "numbered c (us @ vs) n \<longleftrightarrow> numbered c us n \<and> numbered c vs (n + length us)"
  by (induction us arbitrary: n) simp_all

lemma numbered_cong: "numbered c vs n \<Longrightarrow> length d = length c \<Longrightarrow> (\<And>v. v \<in> set vs \<Longrightarrow> d ! v = c ! v) \<Longrightarrow> numbered d vs n"
  by (simp add: numbered_def)

definition is_canon :: "aig \<Rightarrow> u32 list \<Rightarrow> bool" where
  "is_canon g c \<longleftrightarrow> length c = Suc (unat (nextvar g)) \<and> numbered c (leaf_vars g) 0 \<and>
     numbered c (gvars (aig_ands g)) (length (leaf_vars g))"

lemma count_vars:
  assumes "graph_ok g"
  shows "length (leaf_vars g) + length (aig_ands g) \<le> unat (nextvar g)"
proof -
  let ?vs = "leaf_vars g @ gvars (aig_ands g)"
  have g: "distinct (leaf_vars g)" "0 \<notin> set (leaf_vars g)" "gates_ok (set (leaf_vars g)) (aig_ands g)"
    "aig_vars g \<subseteq> {..unat (nextvar g)}" using assms by (simp_all add: graph_ok_def)
  note d = distinct_gvars [OF g(3)]
  have "distinct ?vs" using g(1) d by auto
  moreover have "set ?vs \<subseteq> {1..unat (nextvar g)}"
  proof
    fix v assume v: "v \<in> set ?vs"
    then have "v \<noteq> 0" using g(2) d by (metis Un_iff disjoint_iff insertI1 set_append)
    moreover have "v \<in> aig_vars g" using v by (auto simp: aig_vars_def gate_vars_def)
    ultimately show "v \<in> {1..unat (nextvar g)}" using g(4) by auto
  qed
  ultimately have "length ?vs \<le> card {1..unat (nextvar g)}"
    by (metis card_mono distinct_card finite_atLeastAtMost)
  then show ?thesis by simp
qed

lemma unat_u32_of: "n < 2 ^ 32 \<Longrightarrow> unat (u32_of n) = n"
  by (simp add: u32_of_def unsigned_of_nat take_bit_nat_eq_self)

lemma canon_map_ok:
  assumes g: "graph_ok g"
  shows "\<exists>c. canon_map g = Some c \<and> is_canon g c"
proof -
  let ?i = "length (aig_ins g)" and ?l = "length (aig_lats g)"
  have n: "unat (nextvar g) \<le> MAX_VAR" using g by (simp add: graph_ok_def)
  then have len: "unat (nextvar g + 1) = Suc (unat (nextvar g))" by (simp add: MAX_VAR_def unat_word_ariths)
  have cnt: "?i + ?l + length (aig_ands g) \<le> MAX_VAR" using count_vars [OF g] n by (simp add: leaf_vars_def)
  have ui: "unat (u32_of ?i) = ?i" "unat (u32_of ?i + u32_of ?l) = ?i + ?l"
    using cnt unat_u32_of [of ?i] unat_u32_of [of ?l] by (simp_all add: MAX_VAR_def unat_word_ariths)
  let ?z = "replicate (unat (nextvar g + 1)) (0 :: u32)"
  note lv = length_vars [OF g, folded len]
  have d: "distinct (map unat (map in_var (aig_ins g)))" "distinct (map unat (map lat_var (aig_lats g)))"
    "distinct (map unat (map g_var (aig_ands g)))"
    "unat ` set (map in_var (aig_ins g)) \<inter> unat ` set (map lat_var (aig_lats g)) = {}"
    "set (leaf_vars g) \<inter> unat ` set (map g_var (aig_ands g)) = {}"
    using g distinct_gvars [of "set (leaf_vars g)" "aig_ands g"]
    by (auto simp: graph_ok_def leaf_vars_def comp_def)
  have b: "\<forall>v\<in>set (map in_var (aig_ins g)). unat v < length ?z"
    "\<forall>v\<in>set (map lat_var (aig_lats g)). unat v < length ?z" "\<forall>v\<in>set (map g_var (aig_ands g)). unat v < length ?z"
    using lv by (auto simp: aig_vars_def leaf_vars_def gate_vars_def)
  have "unat (0 :: u32) + length (map in_var (aig_ins g)) \<le> MAX_VAR" using cnt by simp
  from fresh_vars_ok [OF d(1) b(1) this] obtain c1 m1 where
    c1: "fresh_vars (map in_var (aig_ins g)) 0 ?z = Some (c1, m1)" "length c1 = length ?z"
    "numbered c1 (map unat (map in_var (aig_ins g))) 0" by auto
  have "unat (u32_of ?i) + length (map lat_var (aig_lats g)) \<le> MAX_VAR" using cnt ui by simp
  from fresh_vars_ok [OF d(2) b(2) [folded c1(2)] this] obtain c2 m2 where
    c2: "fresh_vars (map lat_var (aig_lats g)) (u32_of ?i) c1 = Some (c2, m2)" "length c2 = length ?z"
    "numbered c2 (map unat (map lat_var (aig_lats g))) ?i"
    "\<forall>v. v \<notin> unat ` set (map lat_var (aig_lats g)) \<longrightarrow> c2 ! v = c1 ! v" using c1(2) ui by auto
  have "unat (u32_of ?i + u32_of ?l) + length (map g_var (aig_ands g)) \<le> MAX_VAR" using cnt ui by simp
  from fresh_vars_ok [OF d(3) b(3) [folded c2(2)] this] obtain c m where
    c: "fresh_vars (map g_var (aig_ands g)) (u32_of ?i + u32_of ?l) c2 = Some (c, m)" "length c = length ?z"
    "numbered c (map unat (map g_var (aig_ands g))) (?i + ?l)"
    "\<forall>v. v \<notin> unat ` set (map g_var (aig_ands g)) \<longrightarrow> c ! v = c2 ! v" using c2(2) ui by auto
  have "numbered c2 (map unat (map in_var (aig_ins g))) 0"
  proof (rule numbered_cong [OF c1(3)])
    show "length c2 = length c1" using c1(2) c2(2) by simp
    fix v assume "v \<in> set (map unat (map in_var (aig_ins g)))"
    then have "v \<notin> unat ` set (map lat_var (aig_lats g))" using d(4) by auto
    then show "c2 ! v = c1 ! v" using c2(4) by blast
  qed
  then have "numbered c2 (leaf_vars g) 0" using c2(3) by (simp add: leaf_vars_def numbered_append)
  then have leaves: "numbered c (leaf_vars g) 0"
  proof (rule numbered_cong)
    show "length c = length c2" using c(2) c2(2) by simp
    fix v assume "v \<in> set (leaf_vars g)"
    then have "v \<notin> unat ` set (map g_var (aig_ands g))" using d(5) by blast
    then show "c ! v = c2 ! v" using c(4) by blast
  qed
  have "numbered c (gvars (aig_ands g)) (length (leaf_vars g))" using c(3) by (simp add: leaf_vars_def)
  then have ok: "is_canon g c" using leaves c(2) len by (simp add: is_canon_def)
  have "number_vars (map in_var (aig_ins g)) 1 ?z = Some c1"
    using number_vars_fresh [of "map in_var (aig_ins g)" 0 ?z] c1(1) by simp
  moreover have "number_vars (map lat_var (aig_lats g)) (u32_of ?i + 1) c1 = Some c2"
    unfolding number_vars_fresh c2(1) by simp
  moreover have "number_vars (map g_var (aig_ands g)) (u32_of ?i + u32_of ?l + 1) c2 = Some c"
    unfolding number_vars_fresh c(1) by simp
  ultimately have "canon_map g = Some c" unfolding canon_map_def by simp
  with ok show ?thesis by blast
qed

subsection \<open>Renumbered graphs\<close>

text \<open>The graph \<open>h\<close> is \<open>g\<close> renumbered by \<open>c\<close>, as far as its behaviour goes.\<close>

definition renumbered :: "u32 list \<Rightarrow> aig \<Rightarrow> aig \<Rightarrow> bool" where
  "renumbered c g h \<longleftrightarrow> is_canon g c \<and>
     map (unat \<circ> in_var) (aig_ins h) = map Suc [0..<length (aig_ins g)] \<and>
     map (unat \<circ> lat_var) (aig_lats h) = map (\<lambda>k. Suc (length (aig_ins g) + k)) [0..<length (aig_lats g)] \<and>
     map lat_reset (aig_lats h) = map lat_reset (aig_lats g) \<and>
     traverse (\<lambda>l. remap c (lat_next l)) (aig_lats g) = Some (map lat_next (aig_lats h)) \<and>
     traverse (remap_gate c) (aig_ands g) = Some (aig_ands h)"

lemma renumbered_leaves:
  assumes "renumbered c g h"
  shows "leaf_vars h = map Suc [0..<length (leaf_vars g)]"
proof -
  let ?i = "length (aig_ins g)" and ?l = "length (aig_lats g)"
  have "[0..<?i + ?l] = [0..<?i] @ map (\<lambda>k. ?i + k) [0..<?l]"
    by (rule nth_equalityI) (auto simp: nth_append)
  with assms show ?thesis by (simp add: leaf_vars_def renumbered_def)
qed

lemma leaf_val_nth:
  assumes "distinct (leaf_vars g)" and "length xs = length (leaf_vars g)" and "k < length (leaf_vars g)"
    and "is @ st = xs"
  shows "leaf_val g is st (leaf_vars g ! k) = xs ! k"
  unfolding leaf_val_def assms(4) by (subst map_of_zip_nth) (use assms in simp_all)

lemma renumbered_val:
  assumes g: "graph_ok g" and h: "renumbered c g h"
    and len: "length is = length (aig_ins g)" "length st = length (aig_lats g)"
    and l: "lit_in (aig_vars g) l" "remap c l = Some l'"
  shows "aig_val h (leaf_val h is st) l' = aig_val g (leaf_val g is st) l"
proof -
  let ?n = "length (leaf_vars g)"
  have c: "length c = Suc (unat (nextvar g))" "numbered c (leaf_vars g) 0" "numbered c (gvars (aig_ands g)) ?n"
    using h by (simp_all add: renumbered_def is_canon_def)
  have dist: "distinct (leaf_vars g)" using g by (simp add: graph_ok_def)
  have xs: "length (is @ st) = ?n" using len by (simp add: leaf_vars_def)
  note lh = renumbered_leaves [OF h]
  have dh: "distinct (leaf_vars h)" by (simp add: lh distinct_map)
  have m: "mirrors c (set (leaf_vars g)) ?n (leaf_val g is st) (leaf_val h is st)"
    unfolding mirrors_def
  proof (intro ballI conjI)
    fix v assume "v \<in> set (leaf_vars g)"
    then obtain k where k: "k < ?n" "v = leaf_vars g ! k" by (metis in_set_conv_nth)
    have ck: "v < length c" "unat (c ! v) = Suc k" using c(2) k by (simp_all add: numbered_def)
    then show "v < length c" "unat (c ! v) \<le> ?n" using k by simp_all
    have hk: "leaf_vars h ! k = Suc k" "length (leaf_vars h) = ?n" using k by (simp_all add: lh)
    have "leaf_val h is st (Suc k) = (is @ st) ! k"
      using leaf_val_nth [OF dh _ _ refl, of "is" st k] hk xs k by simp
    then show "leaf_val g is st v = (unat (c ! v) \<noteq> 0 \<and> leaf_val h is st (unat (c ! v)))"
      using leaf_val_nth [OF dist xs k(1) refl] k(2) ck(2) by simp
  qed
  have cnt: "?n + length (aig_ands g) \<le> MAX_VAR"
    using count_vars [OF g] g by (simp add: graph_ok_def)
  have "traverse (remap_gate c) (aig_ands g) = Some (aig_ands h)" using h by (simp add: renumbered_def)
  from copied_gates_run [OF _ c(3) m cnt this] g
  have "mirrors c (set (leaf_vars g) \<union> set (gvars (aig_ands g))) (?n + length (aig_ands g))
      (run_gates (aig_ands g) (leaf_val g is st)) (run_gates (aig_ands h) (leaf_val h is st))"
    by (simp add: graph_ok_def)
  from remap_val [OF _ this cnt l(2)] l(1) show ?thesis
    by (simp add: aig_val_def aig_vars_def gate_vars_def image_comp)
qed

lemma renumbered_run:
  assumes g: "aig_ok g" and h: "renumbered c g h" and len: "\<And>t. length (is t) = length (aig_ins g)"
  shows "aig_run h is t = aig_run g is t"
proof (induction t)
  case 0
  have "map (\<lambda>l. lat_reset l \<noteq> 0) (aig_lats h) = map (\<lambda>r. r \<noteq> 0) (map lat_reset (aig_lats h))" by simp
  also have "\<dots> = map (\<lambda>l. lat_reset l \<noteq> 0) (aig_lats g)" using h by (simp add: renumbered_def)
  finally show ?case by (simp add: reset_state_def)
next
  case (Suc t)
  have ok: "graph_ok g" "\<forall>l\<in>set (aig_lats g). lit_in (aig_vars g) (lat_next l)"
    using g by (simp_all add: aig_ok_def lits_ok_def)
  have tr: "traverse (\<lambda>l. remap c (lat_next l)) (aig_lats g) = Some (map lat_next (aig_lats h))"
    using h by (simp add: renumbered_def)
  have "length (aig_lats h) = length (aig_lats g)" using traverse_nth(1) [OF tr] by simp
  then show ?case unfolding aig_run.simps Suc next_state_def
    using renumbered_val [OF ok(1) h len [of t] length_aig_run] ok(2) traverse_nth(2) [OF tr]
    by (intro nth_equalityI) simp_all
qed

lemma renumbered_at:
  assumes "aig_ok g" and "renumbered c g h" and "\<And>t. length (is t) = length (aig_ins g)"
    and "list_all (lit_in (aig_vars g)) ls" and "traverse (remap c) ls = Some ls'"
  shows "map (aig_at h is t) ls' = map (aig_at g is t) ls"
proof (rule nth_equalityI)
  note n = traverse_nth [OF assms(5)]
  show "length (map (aig_at h is t) ls') = length (map (aig_at g is t) ls)" by (simp add: n(1))
  fix i assume "i < length (map (aig_at h is t) ls')"
  then have i: "i < length ls" "i < length ls'" using n(1) by simp_all
  have "lit_in (aig_vars g) (ls ! i)" using assms(4) i(1) by (simp add: list_all_length)
  from renumbered_val [OF _ assms(2) assms(3) [of t] length_aig_run this n(2) [OF i(1)]] assms(1)
  show "map (aig_at h is t) ls' ! i = map (aig_at g is t) ls ! i"
    using i by (simp add: aig_at_def renumbered_run [OF assms(1-3)] aig_ok_def)
qed

subsection \<open>What is written\<close>

lemma u32_sums: "u32_of a + u32_of b = u32_of (a + b)" "u32_of a + 1 = u32_of (Suc a)"
  by (simp_all add: u32_of_def)

lemma half_double: "unat v \<le> MAX_VAR \<Longrightarrow> (v * 2 :: u32) div 2 = v"
  by (rule word_unat_eq_iff [THEN iffD2]) (simp add: unat_div unat_var_lit)

lemma half_u32: "n \<le> MAX_VAR \<Longrightarrow> (u32_of n * 2) div 2 = u32_of n" and unat_u32: "n \<le> MAX_VAR \<Longrightarrow> unat (u32_of n) = n"
  by (simp_all add: half_double unat_u32_of MAX_VAR_def)

lemma canon_remap:
  assumes "graph_ok g" and "is_canon g c" and "lit_in (aig_vars g) l"
  shows "\<exists>l'. remap c l = Some l'"
proof -
  have c: "length c = Suc (unat (nextvar g))" "numbered c (leaf_vars g) 0"
    "numbered c (gvars (aig_ands g)) (length (leaf_vars g))" using assms(2) by (simp_all add: is_canon_def)
  have n: "length (leaf_vars g) + length (aig_ands g) \<le> MAX_VAR"
    using count_vars [OF assms(1)] assms(1) by (simp add: graph_ok_def)
  have "\<forall>v\<in>aig_vars g. v < length c \<and> unat (c ! v) \<le> MAX_VAR"
  proof
    fix v assume v: "v \<in> aig_vars g"
    then consider (l) k where "k < length (leaf_vars g)" "v = leaf_vars g ! k"
      | (g) k where "k < length (aig_ands g)" "v = gvars (aig_ands g) ! k"
      unfolding aig_vars_def gate_vars_def by (auto simp: in_set_conv_nth)
    then show "v < length c \<and> unat (c ! v) \<le> MAX_VAR"
      using c(2,3) n by cases (auto simp: numbered_def simp del: nth_map)
  qed
  from remap_ok [OF assms(3) this] show ?thesis by blast
qed

lemma gate_lits: "gates_ok V as \<Longrightarrow> a \<in> set as \<Longrightarrow>
  lit_in (V \<union> (unat \<circ> g_var) ` set as) (g_r0 a) \<and> lit_in (V \<union> (unat \<circ> g_var) ` set as) (g_r1 a)"
proof (induction as arbitrary: V)
  case (Cons b as)
  show ?case
  proof (cases "a = b")
    case True
    then show ?thesis using Cons.prems by (auto intro: lit_in_mono)
  next
    case False
    with Cons.prems have "gates_ok (insert (unat (g_var b)) V) as" "a \<in> set as" by simp_all
    from Cons.IH [OF this] show ?thesis by simp
  qed
qed simp

text \<open>The renumbered parts of a graph.\<close>

definition parts :: "aig \<Rightarrow> u32 list \<Rightarrow> u32 list \<Rightarrow> u32 list \<Rightarrow> u32 list \<Rightarrow> u32 list \<Rightarrow> u32 list list \<Rightarrow> u32 list \<Rightarrow>
    (u32 \<times> u32) list \<Rightarrow> bool" where
  "parts g c nexts os bs cs js fs as \<longleftrightarrow> canon_map g = Some c \<and> is_canon g c \<and>
     traverse (\<lambda>l. remap c (lat_next l)) (aig_lats g) = Some nexts \<and>
     traverse (\<lambda>s. remap c (n_lit s)) (aig_outs g) = Some os \<and>
     traverse (\<lambda>s. remap c (n_lit s)) (aig_bads g) = Some bs \<and>
     traverse (\<lambda>s. remap c (n_lit s)) (aig_cons g) = Some cs \<and>
     traverse (\<lambda>j. traverse (remap c) (j_lits j)) (aig_justs g) = Some js \<and>
     traverse (\<lambda>s. remap c (n_lit s)) (aig_fairs g) = Some fs \<and>
     traverse (\<lambda>a. do { r0 \<leftarrow> remap c (g_r0 a); r1 \<leftarrow> remap c (g_r1 a); Some (r0, r1) }) (aig_ands g) = Some as"

lemma parts_ex:
  assumes "aig_ok g"
  shows "\<exists>c nexts os bs cs js fs as. parts g c nexts os bs cs js fs as"
proof -
  have g: "graph_ok g" "lits_ok g" using assms by (simp_all add: aig_ok_def)
  from canon_map_ok [OF g(1)] obtain c where c: "canon_map g = Some c" "is_canon g c" by blast
  note r = canon_remap [OF g(1) c(2)]
  have 1: "\<exists>ys. traverse (\<lambda>l. remap c (lat_next l)) (aig_lats g) = Some ys"
    by (rule traverse_ex) (use g(2) r in \<open>auto simp: lits_ok_def\<close>)
  have 2: "\<exists>ys. traverse (\<lambda>s. remap c (n_lit s)) xs = Some ys"
    if "set xs \<subseteq> set (aig_outs g @ aig_bads g @ aig_cons g @ aig_sigs g @ aig_fairs g)" for xs
    by (rule traverse_ex) (use g(2) r that in \<open>auto simp: lits_ok_def\<close>)
  have 3: "\<exists>ys. traverse (\<lambda>j. traverse (remap c) (j_lits j)) (aig_justs g) = Some ys"
  proof (rule traverse_ex, rule ballI)
    fix j assume "j \<in> set (aig_justs g)"
    then have "list_all (lit_in (aig_vars g)) (j_lits j)" using g(2) by (simp add: lits_ok_def)
    then show "\<exists>y. traverse (remap c) (j_lits j) = Some y" by (intro traverse_ex) (auto simp: list_all_iff r)
  qed
  have 4: "\<exists>ys. traverse (\<lambda>a. do { r0 \<leftarrow> remap c (g_r0 a); r1 \<leftarrow> remap c (g_r1 a); Some (r0, r1) }) (aig_ands g) = Some ys"
  proof (rule traverse_ex, rule ballI)
    fix a assume "a \<in> set (aig_ands g)"
    with gate_lits [of "set (leaf_vars g)" "aig_ands g" a] g(1)
    have "lit_in (aig_vars g) (g_r0 a)" "lit_in (aig_vars g) (g_r1 a)"
      by (simp_all add: graph_ok_def aig_vars_def gate_vars_def)
    from r [OF this(1)] r [OF this(2)]
    show "\<exists>y. (do { r0 \<leftarrow> remap c (g_r0 a); r1 \<leftarrow> remap c (g_r1 a); Some (r0, r1) }) = Some y" by auto
  qed
  show ?thesis unfolding parts_def
    using c 1 3 4 2 [of "aig_outs g"] 2 [of "aig_bads g"] 2 [of "aig_cons g"] 2 [of "aig_fairs g"] by auto
qed

subsection \<open>What is read\<close>

definition entry :: "u32 list \<Rightarrow> nat \<Rightarrow> u32" where
  "entry h i = (if i < length h then h ! i else 0)"

lemma read_header_row:
  assumes "length us \<le> 9"
  shows "read_header seekable (''aag '' @ show_row us @ r) = Some (''aag '' @ show_row us, r)"
proof -
  from show_row_line [of us] obtain l where l: "show_row us = l @ [newline]" "plain l" "length l \<le> 11 * length us" by blast
  have "plain (''aag '' @ l)" using l(2) by (simp add: newline_def)
  moreover have "length (''aag '' @ l) < LINE_SIZE - 1" using l(3) assms by (simp add: LINE_SIZE_def)
  ultimately have "fgets (''aag '' @ show_row us @ r) = Some (''aag '' @ show_row us, r)"
    using fgets_plain [of "''aag '' @ l" r] by (simp add: l(1))
  moreover have "starts_with ''aag '' (''aag '' @ show_row us)" by (simp add: starts_with_def)
  ultimately show ?thesis by (simp add: read_header_def)
qed

lemma read_text:
  assumes h: "length h \<le> 9" "5 \<le> length h"
    and n: "unat (entry h 1) = length ir" "unat (entry h 2) = length lr" "unat (entry h 3) = length os"
      "unat (entry h 4) = length ar" "unat (entry h 5) = length bs" "unat (entry h 6) = length cs"
      "unat (entry h 7) = length js" "unat (entry h 8) = length fs"
    and r: "\<forall>r\<in>set ir. length r = 1" "\<forall>r\<in>set lr. 2 \<le> length r \<and> length r \<le> 3" "\<forall>r\<in>set ar. length r = 3"
      "\<forall>j\<in>set js. length j < 2 ^ 32"
  shows "aig_read_aag_impl controller seekable (''aag '' @ show_row h @ show_rows ir @ show_rows lr @
      show_rows (map (\<lambda>l. [l]) os) @ show_rows (map (\<lambda>l. [l]) bs) @ show_rows (map (\<lambda>l. [l]) cs) @
      show_rows (map (\<lambda>j. [u32_of (length j)]) js) @ show_rows (map (\<lambda>l. [l]) (concat js)) @
      show_rows (map (\<lambda>l. [l]) fs) @ show_rows ar @ t) =
    Some (finish_read (foldl (symbol_line controller)
      \<lparr>sy_graph = aig_new\<lparr>nextvar := entry h 0,
         aig_ins := map (\<lambda>r. \<lparr>in_name = None, in_var = r ! 0 div 2\<rparr>) ir,
         aig_lats := map row_latch lr, aig_ands := map row_gate ar\<rparr>,
       sy_comments = False, sy_o = no_names os, sy_b = no_names bs, sy_c = no_names cs,
       sy_j = no_names js, sy_f = no_names fs\<rparr> (lines_of t)) os bs cs js fs)"
proof -
  have one: "read_rows 1 1 (length xs) (show_rows (map (\<lambda>l. [l]) xs) @ u) = Some (map (\<lambda>l. [l]) xs, u)" for xs u
    using read_rows_show [of "map (\<lambda>l. [l]) xs" 1 1 u] by simp
  have len: "read_rows 1 1 (length js) (show_rows (map (\<lambda>j. [u32_of (length j)]) js) @ u) =
      Some (map (\<lambda>j. [u32_of (length j)]) js, u)" for u
    using read_rows_show [of "map (\<lambda>j. [u32_of (length j)]) js" 1 1 u] by simp
  have ir: "read_rows 1 1 (length ir) (show_rows ir @ u) = Some (ir, u)" for u
    by (rule read_rows_show) (use r(1) in auto)
  have lr: "read_rows 3 2 (length lr) (show_rows lr @ u) = Some (lr, u)" for u
    by (rule read_rows_show) (use r(2) in auto)
  have ar: "read_rows 3 3 (length ar) (show_rows ar @ u) = Some (ar, u)" for u
    by (rule read_rows_show) (use r(3) in auto)
  note gr = read_groups_show [OF r(4)]
  have parse: "parse_uints 9 (show_row h) = h" using parse_show_row [OF h(1)] by simp
  have sw: "starts_with ''aag '' (''aag '' @ show_row h)" by (simp add: starts_with_def)
  have e: "no_names (map (\<lambda>l. [l]) xs) = no_names xs" for xs :: "u32 list" by (simp add: no_names_def)
  show ?thesis unfolding aig_read_aag_impl_def read_header_row [OF h(1)]
    using sw parse h(2)
    by (simp add: Let_def entry_def [symmetric] n ir lr ar one len gr e del: One_nat_def)
qed

subsection \<open>Reading the names back\<close>

lemma set_name_next: "length pre = k \<Longrightarrow> set_name k s (pre @ None # r) = pre @ Some s # r"
  by (auto simp: set_name_def)

lemma fold_kind:
  assumes "\<And>k s xs. length xs = n \<Longrightarrow> apply_symbol kind k s (F xs) = F (set_name k s xs)"
    and "length pre + length ns = n" and "k = length pre"
  shows "foldl (\<lambda>y (c, k, s). apply_symbol c k s y) (F (pre @ map (\<lambda>_. None) ns)) (symbols_from kind k ns) =
    F (pre @ ns)"
  using assms(2,3)
proof (induction ns arbitrary: pre k)
  case (Cons m ns)
  show ?case
  proof (cases m)
    case None
    then show ?thesis using Cons.IH [of "pre @ [None]" "Suc k"] Cons.prems by simp
  next
    case (Some s)
    have "apply_symbol kind k s (F (pre @ None # map (\<lambda>_. None) ns)) = F (pre @ Some s # map (\<lambda>_. None) ns)"
      using assms(1) [of "pre @ None # map (\<lambda>_. None) ns" k s] Cons.prems by (simp add: set_name_next)
    then show ?thesis using Cons.IH [of "pre @ [Some s]" "Suc k"] Cons.prems by (simp add: Some)
  qed
qed simp

definition set_in_names :: "aig \<Rightarrow> string option list \<Rightarrow> aig" where
  "set_in_names g ns = g\<lparr>aig_ins := map2 (\<lambda>i n. i\<lparr>in_name := n\<rparr>) (aig_ins g) ns\<rparr>"

definition set_lat_names :: "aig \<Rightarrow> string option list \<Rightarrow> aig" where
  "set_lat_names g ns = g\<lparr>aig_lats := map2 (\<lambda>l n. l\<lparr>lat_name := n\<rparr>) (aig_lats g) ns\<rparr>"

lemma apply_symbol_kinds:
  "apply_symbol CHR ''o'' k s (y\<lparr>sy_o := xs\<rparr>) = y\<lparr>sy_o := set_name k s xs\<rparr>"
  "apply_symbol CHR ''b'' k s (y\<lparr>sy_b := xs\<rparr>) = y\<lparr>sy_b := set_name k s xs\<rparr>"
  "apply_symbol CHR ''c'' k s (y\<lparr>sy_c := xs\<rparr>) = y\<lparr>sy_c := set_name k s xs\<rparr>"
  "apply_symbol CHR ''j'' k s (y\<lparr>sy_j := xs\<rparr>) = y\<lparr>sy_j := set_name k s xs\<rparr>"
  "apply_symbol CHR ''f'' k s (y\<lparr>sy_f := xs\<rparr>) = y\<lparr>sy_f := set_name k s xs\<rparr>"
  by (simp_all add: apply_symbol_def)

lemma apply_symbol_inputs:
  assumes "length xs = length (aig_ins g)"
  shows "apply_symbol CHR ''i'' k s (y\<lparr>sy_graph := set_in_names g xs\<rparr>) = y\<lparr>sy_graph := set_in_names g (set_name k s xs)\<rparr>"
proof (cases "k < length xs")
  case True
  have "map2 (\<lambda>i n. i\<lparr>in_name := n\<rparr>) (aig_ins g) (xs[k := Some s]) =
      (map2 (\<lambda>i n. i\<lparr>in_name := n\<rparr>) (aig_ins g) xs)[k := (aig_ins g ! k)\<lparr>in_name := Some s\<rparr>]"
    by (rule nth_equalityI) (use assms True in \<open>auto simp: nth_list_update\<close>)
  with True assms show ?thesis by (simp add: apply_symbol_def set_in_names_def name_input_def set_name_def)
qed (use assms in \<open>simp add: apply_symbol_def set_in_names_def name_input_def set_name_def\<close>)

lemma apply_symbol_latches:
  assumes "length xs = length (aig_lats g)"
  shows "apply_symbol CHR ''l'' k s (y\<lparr>sy_graph := set_lat_names g xs\<rparr>) = y\<lparr>sy_graph := set_lat_names g (set_name k s xs)\<rparr>"
proof (cases "k < length xs")
  case True
  have "map2 (\<lambda>i n. i\<lparr>lat_name := n\<rparr>) (aig_lats g) (xs[k := Some s]) =
      (map2 (\<lambda>i n. i\<lparr>lat_name := n\<rparr>) (aig_lats g) xs)[k := (aig_lats g ! k)\<lparr>lat_name := Some s\<rparr>]"
    by (rule nth_equalityI) (use assms True in \<open>auto simp: nth_list_update\<close>)
  with True assms show ?thesis by (simp add: apply_symbol_def set_lat_names_def name_latch_def set_name_def)
qed (use assms in \<open>simp add: apply_symbol_def set_lat_names_def name_latch_def set_name_def\<close>)

lemma nameless:
  "list_all (\<lambda>i. in_name i = None) (aig_ins g) \<Longrightarrow> set_in_names g (map (\<lambda>_. None) (aig_ins g)) = g"
  "list_all (\<lambda>l. lat_name l = None) (aig_lats g) \<Longrightarrow> set_lat_names g (map (\<lambda>_. None) (aig_lats g)) = g"
proof -
  have "map2 (\<lambda>i n. i\<lparr>in_name := n\<rparr>) is (map (\<lambda>_. None) is) = is" if "list_all (\<lambda>i. in_name i = None) is" for "is" :: "aig_in list"
    using that by (induction "is") simp_all
  then show "list_all (\<lambda>i. in_name i = None) (aig_ins g) \<Longrightarrow> set_in_names g (map (\<lambda>_. None) (aig_ins g)) = g"
    by (simp add: set_in_names_def)
  have "map2 (\<lambda>l n. l\<lparr>lat_name := n\<rparr>) ls (map (\<lambda>_. None) ls) = ls" if "list_all (\<lambda>l. lat_name l = None) ls" for ls :: "latch list"
    using that by (induction ls) simp_all
  then show "list_all (\<lambda>l. lat_name l = None) (aig_lats g) \<Longrightarrow> set_lat_names g (map (\<lambda>_. None) (aig_lats g)) = g"
    by (simp add: set_lat_names_def)
qed

text \<open>All the symbol lines of a written file, in the order of the writer.\<close>

definition all_symbols :: "(char \<times> string option list) list \<Rightarrow> (char \<times> nat \<times> string) list" where
  "all_symbols ks = concat (map (\<lambda>(c, ns). symbols_from c 0 ns) ks)"

lemma symbol_text_lines:
  "concat (map (\<lambda>(c, ns). symbol_lines c ns) ks) =
   concat (map (\<lambda>l. l @ [newline]) (map (\<lambda>(c, k, s). symbol_text c k s) (all_symbols ks)))"
  by (induction ks) (auto simp: all_symbols_def symbol_lines_def symbol_lines_from [simplified])

lemma all_symbols_ok:
  assumes "\<forall>(c, ns)\<in>set ks. c \<in> set ''iolbcjf'' \<and> good_names ns"
  shows "\<forall>(c, k, s)\<in>set (all_symbols ks). c \<in> set ''iolbcjf'' \<and> k < 2 ^ 32 \<and> good_name s"
proof (clarify)
  fix c k s assume "(c, k, s) \<in> set (all_symbols ks)"
  then obtain d ns where d: "(d, ns) \<in> set ks" "(c, k, s) \<in> set (symbols_from d 0 ns)" by (auto simp: all_symbols_def)
  with assms have "d \<in> set ''iolbcjf''" "good_names ns" by auto
  with symbols_from_ok [of ns 0 c k s d] d(2)
  show "c \<in> set ''iolbcjf'' \<and> k < 2 ^ 32 \<and> good_name s" by (simp add: good_names_def)
qed

lemma symbols_read:
  assumes g: "list_all (\<lambda>i. in_name i = None) (aig_ins g)" "list_all (\<lambda>l. lat_name l = None) (aig_lats g)"
    and len: "length ins = length (aig_ins g)" "length lns = length (aig_lats g)"
  shows "foldl (\<lambda>y (c, k, s). apply_symbol c k s y)
      \<lparr>sy_graph = g, sy_comments = False, sy_o = map (\<lambda>_. None) on, sy_b = map (\<lambda>_. None) bn,
       sy_c = map (\<lambda>_. None) cn, sy_j = map (\<lambda>_. None) jn, sy_f = map (\<lambda>_. None) fn\<rparr>
      (all_symbols [(CHR ''i'', ins), (CHR ''l'', lns), (CHR ''o'', on), (CHR ''b'', bn), (CHR ''c'', cn),
        (CHR ''j'', jn), (CHR ''f'', fn)]) =
    \<lparr>sy_graph = set_lat_names (set_in_names g ins) lns, sy_comments = False,
     sy_o = on, sy_b = bn, sy_c = cn, sy_j = jn, sy_f = fn\<rparr>"
proof -
  let ?f = "foldl (\<lambda>y (c, k, s). apply_symbol c k s y)"
  have i: "?f y (symbols_from CHR ''i'' 0 ins) = y\<lparr>sy_graph := set_in_names g ins\<rparr>" if "sy_graph y = g" for y :: symbols
  proof -
    have "map (\<lambda>_. None) ins = map (\<lambda>_. None :: string option) (aig_ins g)" by (rule nth_equalityI) (simp_all add: len)
    then have "y = y\<lparr>sy_graph := set_in_names g ([] @ map (\<lambda>_. None) ins)\<rparr>" using nameless(1) [OF g(1)] that by simp
    then show ?thesis
      using fold_kind [where F = "\<lambda>xs. y\<lparr>sy_graph := set_in_names g xs\<rparr>" and pre = "[]" and ns = ins and k = 0,
          OF apply_symbol_inputs] len(1) by simp
  qed
  let ?g = "set_in_names g ins"
  have lats: "aig_lats ?g = aig_lats g" by (simp add: set_in_names_def)
  have l: "?f y (symbols_from CHR ''l'' 0 lns) = y\<lparr>sy_graph := set_lat_names ?g lns\<rparr>" if "sy_graph y = ?g" for y :: symbols
  proof -
    have "map (\<lambda>_. None) lns = map (\<lambda>_. None :: string option) (aig_lats ?g)"
      by (rule nth_equalityI) (simp_all add: len lats)
    then have "y = y\<lparr>sy_graph := set_lat_names ?g ([] @ map (\<lambda>_. None) lns)\<rparr>"
      using nameless(2) [of ?g] g(2) that by (simp add: lats)
    then show ?thesis
      using fold_kind [where F = "\<lambda>xs. y\<lparr>sy_graph := set_lat_names ?g xs\<rparr>" and pre = "[]" and ns = lns and k = 0,
          OF apply_symbol_latches] len(2) by (simp add: lats)
  qed
  have o: "?f (y\<lparr>sy_o := map (\<lambda>_. None) ns\<rparr>) (symbols_from CHR ''o'' 0 ns) = y\<lparr>sy_o := ns\<rparr>"
    and b: "?f (y\<lparr>sy_b := map (\<lambda>_. None) ns\<rparr>) (symbols_from CHR ''b'' 0 ns) = y\<lparr>sy_b := ns\<rparr>"
    and c: "?f (y\<lparr>sy_c := map (\<lambda>_. None) ns\<rparr>) (symbols_from CHR ''c'' 0 ns) = y\<lparr>sy_c := ns\<rparr>"
    and j: "?f (y\<lparr>sy_j := map (\<lambda>_. None) ns\<rparr>) (symbols_from CHR ''j'' 0 ns) = y\<lparr>sy_j := ns\<rparr>"
    and f: "?f (y\<lparr>sy_f := map (\<lambda>_. None) ns\<rparr>) (symbols_from CHR ''f'' 0 ns) = y\<lparr>sy_f := ns\<rparr>" for y :: symbols and ns
    using fold_kind [where F = "\<lambda>xs. y\<lparr>sy_o := xs\<rparr>" and pre = "[]" and k = 0 and ns = ns, OF apply_symbol_kinds(1)]
      fold_kind [where F = "\<lambda>xs. y\<lparr>sy_b := xs\<rparr>" and pre = "[]" and k = 0 and ns = ns, OF apply_symbol_kinds(2)]
      fold_kind [where F = "\<lambda>xs. y\<lparr>sy_c := xs\<rparr>" and pre = "[]" and k = 0 and ns = ns, OF apply_symbol_kinds(3)]
      fold_kind [where F = "\<lambda>xs. y\<lparr>sy_j := xs\<rparr>" and pre = "[]" and k = 0 and ns = ns, OF apply_symbol_kinds(4)]
      fold_kind [where F = "\<lambda>xs. y\<lparr>sy_f := xs\<rparr>" and pre = "[]" and k = 0 and ns = ns, OF apply_symbol_kinds(5)]
    by simp_all
  let ?n = "map (\<lambda>_. None)"
  let ?G = "set_lat_names ?g lns"
  note o = o [of on "\<lparr>sy_graph = ?G, sy_comments = False, sy_o = [], sy_b = ?n bn, sy_c = ?n cn, sy_j = ?n jn, sy_f = ?n fn\<rparr>", simplified]
  note b = b [of bn "\<lparr>sy_graph = ?G, sy_comments = False, sy_o = on, sy_b = [], sy_c = ?n cn, sy_j = ?n jn, sy_f = ?n fn\<rparr>", simplified]
  note c = c [of cn "\<lparr>sy_graph = ?G, sy_comments = False, sy_o = on, sy_b = bn, sy_c = [], sy_j = ?n jn, sy_f = ?n fn\<rparr>", simplified]
  note j = j [of jn "\<lparr>sy_graph = ?G, sy_comments = False, sy_o = on, sy_b = bn, sy_c = cn, sy_j = [], sy_f = ?n fn\<rparr>", simplified]
  note f = f [of fn "\<lparr>sy_graph = ?G, sy_comments = False, sy_o = on, sy_b = bn, sy_c = cn, sy_j = jn, sy_f = []\<rparr>", simplified]
  show ?thesis by (simp add: all_symbols_def i l o b c j f)
qed

lemma fold_reg_sig:
  "\<exists>sg. foldl (\<lambda>g i. reg_sig g (in_name i) (in_var i * 2)) g is = g\<lparr>aig_sigs := sg\<rparr>"
proof (induction "is" arbitrary: g)
  case Nil
  then show ?case by (simp add: exI [of _ "aig_sigs g"])
next
  case (Cons i "is")
  obtain sg where "reg_sig g (in_name i) (in_var i * 2) = g\<lparr>aig_sigs := sg\<rparr>"
    by (metis (no_types) aig.surjective aig.update_convs(8) reg_sig_def)
  with Cons [of "g\<lparr>aig_sigs := sg\<rparr>"] show ?case by simp
qed

lemma fold_outputs:
  "\<exists>sg. foldl (\<lambda>g (n, l). aig_set_output g n l) g xs =
     g\<lparr>aig_outs := aig_outs g @ map (\<lambda>(n, l). \<lparr>n_name = n, n_lit = l\<rparr>) xs, aig_sigs := sg\<rparr>"
proof (induction xs arbitrary: g)
  case Nil
  then show ?case by (simp add: exI [of _ "aig_sigs g"])
next
  case (Cons x xs)
  obtain n l where x: "x = (n, l)" by (cases x)
  obtain sg where "aig_set_output g n l = g\<lparr>aig_outs := aig_outs g @ [\<lparr>n_name = n, n_lit = l\<rparr>], aig_sigs := sg\<rparr>"
    by (rule that [of "aig_sigs (aig_set_output g n l)"]) (simp add: aig_set_output_def reg_sig_def)
  with Cons [of "g\<lparr>aig_outs := aig_outs g @ [\<lparr>n_name = n, n_lit = l\<rparr>], aig_sigs := sg\<rparr>"] show ?case by (simp add: x)
qed

lemma fold_properties:
  "foldl (\<lambda>g (n, l). aig_add_bad g l n) g xs = g\<lparr>aig_bads := aig_bads g @ map (\<lambda>(n, l). \<lparr>n_name = n, n_lit = l\<rparr>) xs\<rparr>"
  "foldl (\<lambda>g (n, l). aig_add_constraint g l n) g xs = g\<lparr>aig_cons := aig_cons g @ map (\<lambda>(n, l). \<lparr>n_name = n, n_lit = l\<rparr>) xs\<rparr>"
  "foldl (\<lambda>g (n, l). aig_add_justice g l n) g ys = g\<lparr>aig_justs := aig_justs g @ map (\<lambda>(n, l). \<lparr>j_name = n, j_lits = l\<rparr>) ys\<rparr>"
  "foldl (\<lambda>g (n, l). aig_add_fairness g l n) g xs = g\<lparr>aig_fairs := aig_fairs g @ map (\<lambda>(n, l). \<lparr>n_name = n, n_lit = l\<rparr>) xs\<rparr>"
proof -
  show "foldl (\<lambda>g (n, l). aig_add_justice g l n) g ys = g\<lparr>aig_justs := aig_justs g @ map (\<lambda>(n, l). \<lparr>j_name = n, j_lits = l\<rparr>) ys\<rparr>"
    by (induction ys arbitrary: g) (simp_all add: aig_add_justice_def split_beta)
qed (induction xs arbitrary: g, simp_all add: aig_add_bad_def aig_add_constraint_def aig_add_fairness_def split_beta)+

lemma finish_read_fields:
  "\<exists>sg. finish_read y os bs cs js fs = (sy_graph y)
     \<lparr>aig_outs := aig_outs (sy_graph y) @ map2 (\<lambda>n l. \<lparr>n_name = n, n_lit = l\<rparr>) (sy_o y) os,
      aig_bads := aig_bads (sy_graph y) @ map2 (\<lambda>n l. \<lparr>n_name = n, n_lit = l\<rparr>) (sy_b y) bs,
      aig_cons := aig_cons (sy_graph y) @ map2 (\<lambda>n l. \<lparr>n_name = n, n_lit = l\<rparr>) (sy_c y) cs,
      aig_sigs := sg,
      aig_justs := aig_justs (sy_graph y) @ map2 (\<lambda>n l. \<lparr>j_name = n, j_lits = l\<rparr>) (sy_j y) js,
      aig_fairs := aig_fairs (sy_graph y) @ map2 (\<lambda>n l. \<lparr>n_name = n, n_lit = l\<rparr>) (sy_f y) fs\<rparr>"
proof -
  obtain s1 where s1: "foldl (\<lambda>g i. reg_sig g (in_name i) (in_var i * 2)) (sy_graph y) (aig_ins (sy_graph y)) =
    (sy_graph y)\<lparr>aig_sigs := s1\<rparr>" using fold_reg_sig by blast
  obtain s2 where s2: "foldl (\<lambda>g (n, l). aig_set_output g n l) ((sy_graph y)\<lparr>aig_sigs := s1\<rparr>) (zip (sy_o y) os) =
     (sy_graph y)\<lparr>aig_sigs := s1,
       aig_outs := aig_outs (sy_graph y) @ map2 (\<lambda>n l. \<lparr>n_name = n, n_lit = l\<rparr>) (sy_o y) os, aig_sigs := s2\<rparr>"
    using fold_outputs [of "(sy_graph y)\<lparr>aig_sigs := s1\<rparr>" "zip (sy_o y) os"] by auto
  show ?thesis unfolding finish_read_def Let_def s1 s2 fold_properties
    by (intro exI [of _ s2]) simp
qed

subsection \<open>The rows of a graph\<close>

definition in_rows :: "aig \<Rightarrow> u32 list list" where
  "in_rows g = map (\<lambda>k. [(u32_of k + 1) * 2]) [0..<length (aig_ins g)]"

definition lat_rows :: "aig \<Rightarrow> u32 list \<Rightarrow> u32 list list" where
  "lat_rows g nexts = map (\<lambda>(k, n, l). latch_row (length (aig_ins g)) k n (lat_reset l)) (List.enumerate 0 (zip nexts (aig_lats g)))"

definition and_rows :: "aig \<Rightarrow> (u32 \<times> u32) list \<Rightarrow> u32 list list" where
  "and_rows g as = map (\<lambda>(k, r0, r1). [(u32_of (length (aig_ins g)) + u32_of (length (aig_lats g)) + 1 + u32_of k) * 2, r0, r1])
     (List.enumerate 0 as)"

definition name_lists :: "aig \<Rightarrow> (char \<times> string option list) list" where
  "name_lists g = [(CHR ''i'', map in_name (aig_ins g)), (CHR ''l'', map lat_name (aig_lats g)),
     (CHR ''o'', map n_name (aig_outs g)), (CHR ''b'', map n_name (aig_bads g)), (CHR ''c'', map n_name (aig_cons g)),
     (CHR ''j'', map j_name (aig_justs g)), (CHR ''f'', map n_name (aig_fairs g))]"

lemma write_parts:
  assumes "parts g c nexts os bs cs js fs as"
  shows "aig_write_aag g = Some (''aag '' @ show_row (header_row g) @ show_rows (in_rows g) @
      show_rows (lat_rows g nexts) @ show_rows (map (\<lambda>l. [l]) os) @ show_rows (map (\<lambda>l. [l]) bs) @
      show_rows (map (\<lambda>l. [l]) cs) @ show_rows (map (\<lambda>j. [u32_of (length j)]) js) @
      show_rows (map (\<lambda>l. [l]) (concat js)) @ show_rows (map (\<lambda>l. [l]) fs) @ show_rows (and_rows g as) @
      concat (map (\<lambda>(c, ns). symbol_lines c ns) (name_lists g)))"
  using assms unfolding parts_def aig_write_aag_def in_rows_def lat_rows_def and_rows_def name_lists_def
  by (simp add: Let_def)

lemma entry_header:
  "entry (header_row g) 0 = u32_of (length (aig_ins g)) + u32_of (length (aig_lats g)) + u32_of (length (aig_ands g))"
  "entry (header_row g) 1 = u32_of (length (aig_ins g))" "entry (header_row g) 2 = u32_of (length (aig_lats g))"
  "entry (header_row g) 3 = u32_of (length (aig_outs g))" "entry (header_row g) 4 = u32_of (length (aig_ands g))"
  "entry (header_row g) 5 = u32_of (length (aig_bads g))" "entry (header_row g) 6 = u32_of (length (aig_cons g))"
  "entry (header_row g) 7 = u32_of (length (aig_justs g))" "entry (header_row g) 8 = u32_of (length (aig_fairs g))"
  by (simp_all add: entry_def header_row_def Let_def) (simp_all add: u32_of_def)

lemma header_length: "length (header_row g) \<le> 9" "5 \<le> length (header_row g)"
  by (simp_all add: header_row_def Let_def)

lemma row_latch_row:
  "nin + Suc k \<le> MAX_VAR \<Longrightarrow>
   row_latch (latch_row nin k n r) = \<lparr>lat_var = u32_of (nin + Suc k), lat_next = n, lat_reset = r, lat_name = None\<rparr>"
proof -
  assume "nin + Suc k \<le> MAX_VAR"
  note h = half_u32 [OF this]
  have "u32_of nin + 1 + u32_of k = u32_of (nin + Suc k)" by (simp add: u32_of_def)
  with h show ?thesis by (simp add: row_latch_def latch_row_def Let_def)
qed

lemma read_rows_back:
  assumes p: "parts g c nexts os bs cs js fs as"
    and n: "length (aig_ins g) + length (aig_lats g) + length (aig_ands g) \<le> MAX_VAR"
  shows "map (\<lambda>r. \<lparr>in_name = None, in_var = r ! 0 div 2\<rparr>) (in_rows g) =
      map (\<lambda>k. \<lparr>in_name = None, in_var = u32_of (Suc k)\<rparr>) [0..<length (aig_ins g)]"
    and "map row_latch (lat_rows g nexts) =
      map (\<lambda>(k, n, l). \<lparr>lat_var = u32_of (length (aig_ins g) + Suc k), lat_next = n, lat_reset = lat_reset l, lat_name = None\<rparr>)
        (List.enumerate 0 (zip nexts (aig_lats g)))"
    and "traverse (remap_gate c) (aig_ands g) = Some (map row_gate (and_rows g as))"
proof -
  let ?i = "length (aig_ins g)" and ?l = "length (aig_lats g)"
  have nx: "length nexts = ?l" using p traverse_nth(1) by (fastforce simp: parts_def)
  have "(u32_of k + 1) * 2 div 2 = u32_of (Suc k)" if "k < ?i" for k
    using half_u32 [of "Suc k"] that n by (simp add: u32_sums)
  then show "map (\<lambda>r. \<lparr>in_name = None, in_var = r ! 0 div 2\<rparr>) (in_rows g) =
      map (\<lambda>k. \<lparr>in_name = None, in_var = u32_of (Suc k)\<rparr>) [0..<?i]" by (simp add: in_rows_def)
  show "map row_latch (lat_rows g nexts) =
      map (\<lambda>(k, n, l). \<lparr>lat_var = u32_of (?i + Suc k), lat_next = n, lat_reset = lat_reset l, lat_name = None\<rparr>)
        (List.enumerate 0 (zip nexts (aig_lats g)))"
    by (rule nth_equalityI) (use n nx in \<open>simp_all add: lat_rows_def nth_enumerate_eq row_latch_row\<close>)
  have tr: "traverse (\<lambda>a. do { r0 \<leftarrow> remap c (g_r0 a); r1 \<leftarrow> remap c (g_r1 a); Some (r0, r1) }) (aig_ands g) = Some as"
    using p by (simp add: parts_def)
  note t = traverse_nth [OF tr]
  have c: "numbered c (gvars (aig_ands g)) (?i + ?l)" using p by (simp add: parts_def is_canon_def leaf_vars_def)
  show "traverse (remap_gate c) (aig_ands g) = Some (map row_gate (and_rows g as))"
    unfolding traverse_Some list_all2_conv_all_nth
  proof (intro conjI allI impI)
    show "length (aig_ands g) = length (map row_gate (and_rows g as))" using t(1) by (simp add: and_rows_def)
    fix k assume k: "k < length (aig_ands g)"
    obtain r0 r1 where a: "as ! k = (r0, r1)" by (cases "as ! k")
    have r: "remap c (g_r0 (aig_ands g ! k)) = Some r0" "remap c (g_r1 (aig_ands g ! k)) = Some r1"
      using t(2) [OF k] a by (auto split: bind_splits)
    have v: "unat (g_var (aig_ands g ! k)) < length c" "unat (c ! unat (g_var (aig_ands g ! k))) = Suc (?i + ?l + k)"
      using c k by (simp_all add: numbered_def)
    have "unat (u32_of (Suc (?i + ?l + k))) = Suc (?i + ?l + k)" using n k by (intro unat_u32) simp
    then have cv: "c ! unat (g_var (aig_ands g ! k)) = u32_of (Suc (?i + ?l + k))"
      using v(2) by (metis word_unat_eq_iff)
    have "u32_of ?i + u32_of ?l + 1 + u32_of k = u32_of (Suc (?i + ?l + k))" by (simp add: u32_of_def)
    moreover have "u32_of (Suc (?i + ?l + k)) * 2 div 2 = u32_of (Suc (?i + ?l + k))" using n k by (intro half_u32) simp
    ultimately show "remap_gate c (aig_ands g ! k) = Some (map row_gate (and_rows g as) ! k)"
      using k t(1) a r v(1) cv by (simp add: remap_gate_Some and_rows_def nth_enumerate_eq row_gate_def del: distrib_right_numeral)
  qed
qed

subsection \<open>The round trip\<close>

text \<open>What a file keeps: the names, the reset values, and the values of every listed literal.\<close>

definition same_names :: "aig \<Rightarrow> aig \<Rightarrow> bool" where
  "same_names g h \<longleftrightarrow> map in_name (aig_ins h) = map in_name (aig_ins g) \<and>
     map lat_name (aig_lats h) = map lat_name (aig_lats g) \<and> map lat_reset (aig_lats h) = map lat_reset (aig_lats g) \<and>
     map n_name (aig_outs h) = map n_name (aig_outs g) \<and> map n_name (aig_bads h) = map n_name (aig_bads g) \<and>
     map n_name (aig_cons h) = map n_name (aig_cons g) \<and> map j_name (aig_justs h) = map j_name (aig_justs g) \<and>
     map n_name (aig_fairs h) = map n_name (aig_fairs g)"

definition same_values :: "aig \<Rightarrow> aig \<Rightarrow> (nat \<Rightarrow> bool list) \<Rightarrow> nat \<Rightarrow> bool" where
  "same_values g h is t \<longleftrightarrow> aig_run h is t = aig_run g is t \<and>
     map (aig_at h is t \<circ> n_lit) (aig_outs h) = map (aig_at g is t \<circ> n_lit) (aig_outs g) \<and>
     map (aig_at h is t \<circ> n_lit) (aig_bads h) = map (aig_at g is t \<circ> n_lit) (aig_bads g) \<and>
     map (aig_at h is t \<circ> n_lit) (aig_cons h) = map (aig_at g is t \<circ> n_lit) (aig_cons g) \<and>
     map (map (aig_at h is t) \<circ> j_lits) (aig_justs h) = map (map (aig_at g is t) \<circ> j_lits) (aig_justs g) \<and>
     map (aig_at h is t \<circ> n_lit) (aig_fairs h) = map (aig_at g is t \<circ> n_lit) (aig_fairs g)"

definition printable :: "aig \<Rightarrow> bool" where
  "printable g \<longleftrightarrow> aig_ok g \<and> (\<forall>(c, ns)\<in>set (name_lists g). good_names ns) \<and>
     (\<forall>j\<in>set (aig_justs g). length (j_lits j) < 2 ^ 32)"

text \<open>The reset of an uninitialised latch is a literal, which the writer does not rename.\<close>

definition writable :: "aig \<Rightarrow> bool" where
  "writable g \<longleftrightarrow> printable g \<and> initialised g"

text \<open>The graph that is read back.\<close>

definition read_graph :: "aig \<Rightarrow> u32 list \<Rightarrow> u32 list \<Rightarrow> u32 list \<Rightarrow> u32 list \<Rightarrow> u32 list list \<Rightarrow> u32 list \<Rightarrow>
    (u32 \<times> u32) list \<Rightarrow> named list \<Rightarrow> aig" where
  "read_graph g nexts os bs cs js fs as sg =
     \<lparr>nextvar = entry (header_row g) 0,
      aig_ins = map (\<lambda>(k, n). \<lparr>in_name = n, in_var = u32_of (Suc k)\<rparr>) (List.enumerate 0 (map in_name (aig_ins g))),
      aig_lats = map (\<lambda>(k, n, l). \<lparr>lat_var = u32_of (length (aig_ins g) + Suc k), lat_next = n,
        lat_reset = lat_reset l, lat_name = lat_name l\<rparr>) (List.enumerate 0 (zip nexts (aig_lats g))),
      aig_ands = map row_gate (and_rows g as),
      aig_outs = map2 (\<lambda>s l. \<lparr>n_name = n_name s, n_lit = l\<rparr>) (aig_outs g) os,
      aig_bads = map2 (\<lambda>s l. \<lparr>n_name = n_name s, n_lit = l\<rparr>) (aig_bads g) bs,
      aig_cons = map2 (\<lambda>s l. \<lparr>n_name = n_name s, n_lit = l\<rparr>) (aig_cons g) cs,
      aig_sigs = sg,
      aig_justs = map2 (\<lambda>j l. \<lparr>j_name = j_name j, j_lits = l\<rparr>) (aig_justs g) js,
      aig_fairs = map2 (\<lambda>s l. \<lparr>n_name = n_name s, n_lit = l\<rparr>) (aig_fairs g) fs\<rparr>"

lemma read_written:
  assumes w: "printable g" and p: "parts g c nexts os bs cs js fs as"
  shows "\<exists>str sg. aig_write_aag g = Some str \<and>
    aig_read_aag_impl controller seekable str = Some (read_graph g nexts os bs cs js fs as sg)"
proof -
  let ?i = "length (aig_ins g)" and ?l = "length (aig_lats g)"
  have g: "graph_ok g" using w by (simp add: printable_def aig_ok_def)
  have n: "?i + ?l + length (aig_ands g) \<le> MAX_VAR"
    using count_vars [OF g] g by (simp add: graph_ok_def leaf_vars_def)
  have lens: "length nexts = ?l" "length os = length (aig_outs g)" "length bs = length (aig_bads g)"
    "length cs = length (aig_cons g)" "length js = length (aig_justs g)" "length fs = length (aig_fairs g)"
    "length as = length (aig_ands g)"
    using p by (auto simp: parts_def dest: traverse_nth(1))
  have names: "\<forall>(c, ns)\<in>set (name_lists g). c \<in> set ''iolbcjf'' \<and> good_names ns"
    using w by (auto simp: printable_def name_lists_def)
  have small: "length (aig_outs g) < 2 ^ 32" "length (aig_bads g) < 2 ^ 32" "length (aig_cons g) < 2 ^ 32"
    "length (aig_justs g) < 2 ^ 32" "length (aig_fairs g) < 2 ^ 32"
    using w by (simp_all add: printable_def name_lists_def good_names_def)
  have mx: "MAX_VAR < 2 ^ 32" by (simp add: MAX_VAR_def)
  have jl: "\<forall>j\<in>set js. length j < 2 ^ 32"
  proof
    fix j assume "j \<in> set js"
    then obtain k where k: "k < length js" "j = js ! k" by (auto simp: in_set_conv_nth)
    have "traverse (\<lambda>j. traverse (remap c) (j_lits j)) (aig_justs g) = Some js" using p by (simp add: parts_def)
    from traverse_nth(2) [OF this, of k] k lens(5)
    have "traverse (remap c) (j_lits (aig_justs g ! k)) = Some j" by simp
    from traverse_nth(1) [OF this] w k lens(5) show "length j < 2 ^ 32" by (simp add: printable_def)
  qed
  note rb = read_rows_back [OF p n]
  let ?g0 = "aig_new\<lparr>nextvar := entry (header_row g) 0,
    aig_ins := map (\<lambda>k. \<lparr>in_name = None, in_var = u32_of (Suc k)\<rparr>) [0..<?i],
    aig_lats := map (\<lambda>(k, n, l). \<lparr>lat_var = u32_of (?i + Suc k), lat_next = n, lat_reset = lat_reset l, lat_name = None\<rparr>)
      (List.enumerate 0 (zip nexts (aig_lats g))), aig_ands := map row_gate (and_rows g as)\<rparr>"
  let ?y = "\<lparr>sy_graph = ?g0, sy_comments = False, sy_o = no_names os, sy_b = no_names bs, sy_c = no_names cs,
    sy_j = no_names js, sy_f = no_names fs\<rparr>"
  let ?t = "concat (map (\<lambda>(c, ns). symbol_lines c ns) (name_lists g))"
  have r: "\<forall>r\<in>set (in_rows g). length r = 1" "\<forall>r\<in>set (lat_rows g nexts). 2 \<le> length r \<and> length r \<le> 3"
    "\<forall>r\<in>set (and_rows g as). length r = 3"
    by (auto simp: in_rows_def lat_rows_def and_rows_def latch_row_def Let_def)
  have e: "unat (entry (header_row g) 1) = length (in_rows g)" "unat (entry (header_row g) 2) = length (lat_rows g nexts)"
    "unat (entry (header_row g) 3) = length os" "unat (entry (header_row g) 4) = length (and_rows g as)"
    "unat (entry (header_row g) 5) = length bs" "unat (entry (header_row g) 6) = length cs"
    "unat (entry (header_row g) 7) = length js" "unat (entry (header_row g) 8) = length fs"
    using lens small n mx by (simp_all add: entry_header unat_u32_of in_rows_def lat_rows_def and_rows_def del: One_nat_def)
  obtain str where str: "aig_write_aag g = Some str"
    "aig_read_aag_impl controller seekable str =
      Some (finish_read (foldl (symbol_line controller) ?y (lines_of ?t)) os bs cs js fs)"
    using write_parts [OF p] read_text [OF header_length e r jl, of controller seekable ?t] unfolding rb(1,2) by blast
  have ok: "\<forall>(c, k, s)\<in>set (all_symbols (name_lists g)). c \<in> set ''iolbcjf'' \<and> k < 2 ^ 32 \<and> good_name s"
    by (rule all_symbols_ok [OF names])
  let ?z = "\<lparr>sy_graph = set_lat_names (set_in_names ?g0 (map in_name (aig_ins g))) (map lat_name (aig_lats g)),
    sy_comments = False, sy_o = map n_name (aig_outs g), sy_b = map n_name (aig_bads g),
    sy_c = map n_name (aig_cons g), sy_j = map j_name (aig_justs g), sy_f = map n_name (aig_fairs g)\<rparr>"
  have nn: "no_names os = map (\<lambda>_. None) (map n_name (aig_outs g))" "no_names bs = map (\<lambda>_. None) (map n_name (aig_bads g))"
    "no_names cs = map (\<lambda>_. None) (map n_name (aig_cons g))" "no_names js = map (\<lambda>_. None) (map j_name (aig_justs g))"
    "no_names fs = map (\<lambda>_. None) (map n_name (aig_fairs g))"
    using lens by (auto simp: no_names_def map_replicate_const)
  have "foldl (symbol_line controller) ?y (lines_of ?t) = foldl (\<lambda>y (c, k, s). apply_symbol c k s y) ?y (all_symbols (name_lists g))"
    unfolding symbol_text_lines by (rule fold_symbol_lines [OF _ ok]) simp
  also have "\<dots> = ?z" unfolding nn name_lists_def
    by (rule symbols_read) (auto simp: list_all_iff lens(1) in_set_enumerate_eq)
  finally have y: "foldl (symbol_line controller) ?y (lines_of ?t) = ?z" .
  have ins: "map2 (\<lambda>i n. i\<lparr>in_name := n\<rparr>) (map (\<lambda>k. \<lparr>in_name = None, in_var = u32_of (Suc k)\<rparr>) [0..<?i]) (map in_name (aig_ins g)) =
      map (\<lambda>(k, n). \<lparr>in_name = n, in_var = u32_of (Suc k)\<rparr>) (List.enumerate 0 (map in_name (aig_ins g)))"
    by (rule nth_equalityI) (simp_all add: nth_enumerate_eq)
  have lats: "map2 (\<lambda>l n. l\<lparr>lat_name := n\<rparr>)
        (map (\<lambda>(k, n, l). \<lparr>lat_var = u32_of (?i + Suc k), lat_next = n, lat_reset = lat_reset l, lat_name = None\<rparr>)
          (List.enumerate 0 (zip nexts (aig_lats g)))) (map lat_name (aig_lats g)) =
      map (\<lambda>(k, n, l). \<lparr>lat_var = u32_of (?i + Suc k), lat_next = n, lat_reset = lat_reset l, lat_name = lat_name l\<rparr>)
        (List.enumerate 0 (zip nexts (aig_lats g)))"
    by (rule nth_equalityI) (simp_all add: nth_enumerate_eq lens(1))
  from finish_read_fields [of ?z os bs cs js fs] obtain sg where
    f: "finish_read ?z os bs cs js fs = (sy_graph ?z)
     \<lparr>aig_outs := aig_outs (sy_graph ?z) @ map2 (\<lambda>n l. \<lparr>n_name = n, n_lit = l\<rparr>) (sy_o ?z) os,
      aig_bads := aig_bads (sy_graph ?z) @ map2 (\<lambda>n l. \<lparr>n_name = n, n_lit = l\<rparr>) (sy_b ?z) bs,
      aig_cons := aig_cons (sy_graph ?z) @ map2 (\<lambda>n l. \<lparr>n_name = n, n_lit = l\<rparr>) (sy_c ?z) cs,
      aig_sigs := sg,
      aig_justs := aig_justs (sy_graph ?z) @ map2 (\<lambda>n l. \<lparr>j_name = n, j_lits = l\<rparr>) (sy_j ?z) js,
      aig_fairs := aig_fairs (sy_graph ?z) @ map2 (\<lambda>n l. \<lparr>n_name = n, n_lit = l\<rparr>) (sy_f ?z) fs\<rparr>" by blast
  have "finish_read ?z os bs cs js fs = read_graph g nexts os bs cs js fs as sg" unfolding f
    using ins lats by (simp add: set_lat_names_def set_in_names_def aig_new_def read_graph_def zip_map1 comp_def split_beta)
  with str y show ?thesis by auto
qed

lemma read_graph_renumbered:
  assumes w: "aig_ok g" and p: "parts g c nexts os bs cs js fs as"
  shows "renumbered c g (read_graph g nexts os bs cs js fs as sg)"
proof -
  let ?i = "length (aig_ins g)" and ?l = "length (aig_lats g)"
  have g: "graph_ok g" using w by (simp add: aig_ok_def)
  have n: "?i + ?l + length (aig_ands g) \<le> MAX_VAR"
    using count_vars [OF g] g by (simp add: graph_ok_def leaf_vars_def)
  have nx: "length nexts = ?l" using p by (auto simp: parts_def dest: traverse_nth(1))
  show ?thesis unfolding renumbered_def
  proof (intro conjI)
    show "is_canon g c" using p by (simp add: parts_def)
    show "map (unat \<circ> in_var) (aig_ins (read_graph g nexts os bs cs js fs as sg)) = map Suc [0..<?i]"
      by (rule nth_equalityI) (use n in \<open>simp_all add: read_graph_def nth_enumerate_eq unat_u32\<close>)
    show "map (unat \<circ> lat_var) (aig_lats (read_graph g nexts os bs cs js fs as sg)) = map (\<lambda>k. Suc (?i + k)) [0..<?l]"
      by (rule nth_equalityI) (use n in \<open>simp_all add: read_graph_def nth_enumerate_eq unat_u32 nx\<close>)
    show "map lat_reset (aig_lats (read_graph g nexts os bs cs js fs as sg)) = map lat_reset (aig_lats g)"
      by (rule nth_equalityI) (simp_all add: read_graph_def nth_enumerate_eq nx)
    have "map lat_next (aig_lats (read_graph g nexts os bs cs js fs as sg)) = nexts"
      by (rule nth_equalityI) (simp_all add: read_graph_def nth_enumerate_eq nx)
    then show "traverse (\<lambda>l. remap c (lat_next l)) (aig_lats g) =
        Some (map lat_next (aig_lats (read_graph g nexts os bs cs js fs as sg)))" using p by (simp add: parts_def)
    show "traverse (remap_gate c) (aig_ands g) = Some (aig_ands (read_graph g nexts os bs cs js fs as sg))"
      using read_rows_back(3) [OF p n] by (simp add: read_graph_def)
  qed
qed

lemma read_graph_names:
  assumes "parts g c nexts os bs cs js fs as"
  shows "same_names g (read_graph g nexts os bs cs js fs as sg)"
proof -
  have lens: "length nexts = length (aig_lats g)" "length os = length (aig_outs g)" "length bs = length (aig_bads g)"
    "length cs = length (aig_cons g)" "length js = length (aig_justs g)" "length fs = length (aig_fairs g)"
    using assms by (auto simp: parts_def dest: traverse_nth(1))
  show ?thesis unfolding same_names_def read_graph_def
    by (intro conjI; rule nth_equalityI) (simp_all add: nth_enumerate_eq lens)
qed

lemma renumbered_lits:
  assumes "aig_ok g" and "renumbered c g h" and "\<And>t. length (is t) = length (aig_ins g)"
    and "traverse (\<lambda>s. remap c (n_lit s)) ss = Some ls" and "\<forall>s\<in>set ss. lit_in (aig_vars g) (n_lit s)"
  shows "map (aig_at h is t \<circ> n_lit) (map2 (\<lambda>s l. \<lparr>n_name = n_name s, n_lit = l\<rparr>) ss ls) = map (aig_at g is t \<circ> n_lit) ss"
proof -
  have l: "length ls = length ss" using traverse_nth(1) [OF assms(4)] .
  have "traverse (remap c) (map n_lit ss) = Some ls" using assms(4) by (simp add: traverse_Some list_all2_map1)
  from renumbered_at [OF assms(1-3) _ this, where t = t] assms(5)
  have m: "map (aig_at h is t) ls = map (aig_at g is t) (map n_lit ss)" by (simp add: list_all_iff)
  have "map n_lit (map2 (\<lambda>s l. \<lparr>n_name = n_name s, n_lit = l\<rparr>) ss ls) = ls"
    by (rule nth_equalityI) (simp_all add: l)
  with m show ?thesis by (metis list.map_comp)
qed

lemma read_graph_values:
  assumes w: "aig_ok g" and p: "parts g c nexts os bs cs js fs as" and len: "\<And>t. length (is t) = length (aig_ins g)"
  shows "same_values g (read_graph g nexts os bs cs js fs as sg) is t"
proof -
  let ?h = "read_graph g nexts os bs cs js fs as sg"
  note r = read_graph_renumbered [OF w p, of sg]
  have lits: "lits_ok g" using w by (simp add: aig_ok_def)
  note n = renumbered_lits [OF w r len]
  have js: "traverse (\<lambda>j. traverse (remap c) (j_lits j)) (aig_justs g) = Some js" using p by (simp add: parts_def)
  have j: "map (map (aig_at ?h is t) \<circ> j_lits) (aig_justs ?h) = map (map (aig_at g is t) \<circ> j_lits) (aig_justs g)"
  proof (rule nth_equalityI)
    show "length (map (map (aig_at ?h is t) \<circ> j_lits) (aig_justs ?h)) = length (map (map (aig_at g is t) \<circ> j_lits) (aig_justs g))"
      using traverse_nth(1) [OF js] by (simp add: read_graph_def)
    fix k assume "k < length (map (map (aig_at ?h is t) \<circ> j_lits) (aig_justs ?h))"
    then have k: "k < length (aig_justs g)" "k < length js" by (simp_all add: read_graph_def)
    have "list_all (lit_in (aig_vars g)) (j_lits (aig_justs g ! k))" using lits k by (simp add: lits_ok_def)
    from renumbered_at [OF w r len this traverse_nth(2) [OF js k(1)]] k
    show "map (map (aig_at ?h is t) \<circ> j_lits) (aig_justs ?h) ! k = map (map (aig_at g is t) \<circ> j_lits) (aig_justs g) ! k"
      by (simp add: read_graph_def)
  qed
  show ?thesis unfolding same_values_def
    using renumbered_run [OF w r len, where t = t] j n [of "aig_outs g" os, where t = t] n [of "aig_bads g" bs, where t = t] n [of "aig_cons g" cs, where t = t]
      n [of "aig_fairs g" fs, where t = t] p lits
    by (simp add: parts_def lits_ok_def read_graph_def)
qed

text \<open>
  C16. Writing a well-formed graph without uninitialised latches succeeds, and reading the file back, with or without the comments
  of a controller, from a pipe or a file, gives a graph with the same names and reset values in
  which every latch, output, bad, constraint, justice and fairness literal has the same value at
  every step of every input sequence.  The names must survive the trimming of the reader and the
  counts the 32-bit header.
\<close>

theorem aig_roundtrip:
  assumes "writable g"
  shows "\<exists>str h. aig_write_aag g = Some str \<and> aig_read_aag_impl controller seekable str = Some h \<and> same_names g h \<and>
    (\<forall>is t. (\<forall>t. length (is t) = length (aig_ins g)) \<longrightarrow> same_values g h is t)"
proof -
  have w: "printable g" and ok: "aig_ok g" using assms by (simp_all add: writable_def printable_def)
  from parts_ex [OF ok] obtain c nexts os bs cs js fs as where p: "parts g c nexts os bs cs js fs as" by blast
  from read_written [OF w p] obtain str sg where
    "aig_write_aag g = Some str" "aig_read_aag_impl controller seekable str = Some (read_graph g nexts os bs cs js fs as sg)"
    by blast
  then show ?thesis using read_graph_names [OF p] read_graph_values [OF ok p] by blast
qed

text \<open>A latch that toggles with an input, with a reset, a justice property and a named output.\<close>

definition toggle_graph :: aig where
  "toggle_graph = \<lparr>nextvar = 4, aig_ins = [\<lparr>in_name = Some ''go'', in_var = 3\<rparr>],
     aig_lats = [\<lparr>lat_var = 2, lat_next = 9, lat_reset = 1, lat_name = Some ''on''\<rparr>],
     aig_ands = [\<lparr>g_var = 4, g_r0 = 4, g_r1 = 7\<rparr>],
     aig_outs = [\<lparr>n_name = Some ''busy'', n_lit = 8\<rparr>], aig_bads = [], aig_cons = [], aig_sigs = [],
     aig_justs = [\<lparr>j_name = Some ''live'', j_lits = [4, 6]\<rparr>], aig_fairs = [\<lparr>n_name = None, n_lit = 6\<rparr>]\<rparr>"

theorem aig_roundtrip_witness:
  "\<exists>str h. aig_write_aag toggle_graph = Some str \<and> aig_read_aag_impl False True str = Some h \<and> same_names toggle_graph h \<and>
    (\<forall>is t. (\<forall>t. length (is t) = length (aig_ins toggle_graph)) \<longrightarrow> same_values toggle_graph h is t)"
proof (rule aig_roundtrip)
  have "aig_ok toggle_graph"
    by (simp add: toggle_graph_def aig_ok_def graph_ok_def lits_ok_def leaf_vars_def aig_vars_def gate_vars_def
      lit_in_def MAX_VAR_def)
  then show "writable toggle_graph"
    by (simp add: toggle_graph_def writable_def printable_def initialised_def name_lists_def good_names_def good_name_def plain_def newline_def
      is_blank_def is_trailing_def carriage_return_def tabulator_def)
qed

text \<open>
  An uninitialised latch does not survive: the writer renumbers its variable and prints its reset as
  it is.  In \<open>free_graph\<close> variable 1 is a latch that has its own literal 2 as reset, and variable 2 the
  input; read back, the input is variable 1 and the latch variable 2, so the reset, still 2, is the
  literal of the input.
\<close>

definition free_graph :: aig where
  "free_graph = \<lparr>nextvar = 2, aig_ins = [\<lparr>in_name = None, in_var = 2\<rparr>],
     aig_lats = [\<lparr>lat_var = 1, lat_next = 2, lat_reset = 2, lat_name = None\<rparr>], aig_ands = [], aig_outs = [],
     aig_bads = [], aig_cons = [], aig_sigs = [], aig_justs = [], aig_fairs = []\<rparr>"

lemma aig_write_keeps_reset_literal:
  "\<exists>str h. aig_write_aag free_graph = Some str \<and> aig_read_aag_impl False True str = Some h \<and>
     map (unat \<circ> in_var) (aig_ins h) = [1] \<and> map (unat \<circ> lat_var) (aig_lats h) = [2] \<and> map lat_reset (aig_lats h) = [2]"
proof -
  have w: "printable free_graph"
    by (simp add: free_graph_def printable_def aig_ok_def graph_ok_def lits_ok_def leaf_vars_def aig_vars_def gate_vars_def
      lit_in_def MAX_VAR_def name_lists_def good_names_def)
  then have ok: "aig_ok free_graph" by (simp add: printable_def)
  from parts_ex [OF ok] obtain c nexts os bs cs js fs as where p: "parts free_graph c nexts os bs cs js fs as" by blast
  from read_written [OF w p, of False True] obtain str sg where
    r: "aig_write_aag free_graph = Some str" "aig_read_aag_impl False True str = Some (read_graph free_graph nexts os bs cs js fs as sg)"
    by blast
  let ?h = "read_graph free_graph nexts os bs cs js fs as sg"
  have f: "map (unat \<circ> in_var) (aig_ins ?h) = [1] \<and> map (unat \<circ> lat_var) (aig_lats ?h) = [2] \<and> map lat_reset (aig_lats ?h) = [2]"
    using read_graph_renumbered [OF ok p, of sg] unfolding renumbered_def by (simp add: free_graph_def)
  show ?thesis by (rule exI [of _ str], rule exI [of _ ?h], rule conjI [OF r(1) conjI [OF r(2) f]])
qed

end
