(* ===== verification/Oxidd_Roots.thy ===== *)
theory Oxidd_Roots
  imports Oxidd Aiger_Semantics
begin

text \<open>
  The construction of diagrams for chosen literals of a graph: \<^verbatim>\<open>oxidd_build_roots\<close> of
  \<^verbatim>\<open>src/lib/oxidd_common.c\<close>, which counts the uses of every variable, builds the gates that are
  used in order, and drops a diagram after its last use, and its callers in
  \<^verbatim>\<open>src/lib/gr1_check.c\<close>.  An array over variables is a function; the variables of a graph are
  halves of literals and stay below \<open>2 ^ 31\<close>.
\<close>

subsection \<open>The scheduler\<close>

definition oxidd_max_aig_var :: "aig \<Rightarrow> nat" where
  "oxidd_max_aig_var g = foldl (\<lambda>m v. if v > m then v else m) 0
     (map (unat \<circ> in_var) (aig_ins g) @ map (unat \<circ> lat_var) (aig_lats g) @ map (unat \<circ> g_var) (aig_ands g))"

type_synonym 'b var_map = "nat \<Rightarrow> 'b option"
type_synonym uses = "nat \<Rightarrow> nat"

definition count_use :: "u32 \<Rightarrow> uses \<Rightarrow> uses" where
  "count_use l u = (if l > 1 then u(var_of l := u (var_of l) + 1) else u)"

text \<open>The gates are counted from the last to the first; a gate whose diagram is given is a leaf.\<close>

fun count_gates :: "nat \<Rightarrow> 'b var_map \<Rightarrow> gate list \<Rightarrow> uses \<Rightarrow> uses option" where
  "count_gates maxvar m [] u = Some u"
| "count_gates maxvar m (a # as) u =
     (if u (unat (g_var a)) = 0 \<or> m (unat (g_var a)) \<noteq> None then count_gates maxvar m as u
      else if var_of (g_r0 a) > maxvar \<or> var_of (g_r1 a) > maxvar then None
      else count_gates maxvar m as (count_use (g_r1 a) (count_use (g_r0 a) u)))"

definition consume_literal :: "u32 \<Rightarrow> 'b var_map \<times> uses \<Rightarrow> 'b var_map \<times> uses" where
  "consume_literal l = (\<lambda>(m, u). let v = var_of l in
     if v = 0 then (m, u)
     else if u v = 1 then (m(v := None), u(v := 0)) else (m, u(v := u v - 1)))"

definition run_literal :: "('w, 'b) oxidd \<Rightarrow> 'w limits \<Rightarrow> 'b var_map \<Rightarrow> u32 \<Rightarrow> (('w, 'z) run_scheme, 'b option) state" where
  "run_literal B L m l =
     (if l < 2 then if l \<noteq> 0 then ext (ox_true B) else ext (ox_false B)
      else case m (var_of l) of
        None \<Rightarrow> State_Monad.return None
      | Some b \<Rightarrow> if odd (unat l) then oxidd_run_not B L (Some b) else State_Monad.return (Some b))"

definition gate_result :: "('w, 'b) oxidd \<Rightarrow> 'w limits \<Rightarrow> 'b option \<Rightarrow> 'b option \<Rightarrow> 'b option \<Rightarrow> 'b option \<Rightarrow>
    (('w, 'z) run_scheme, 'b option) state" where
  "gate_result B L cf ct a b =
     (if bdd_same_identity a cf \<or> bdd_same_identity b cf then State_Monad.return cf
      else if bdd_same_identity a ct then State_Monad.return b
      else if bdd_same_identity b ct then State_Monad.return a
      else oxidd_run_and B L a b)"

fun build_gates :: "('w, 'b) oxidd \<Rightarrow> 'w limits \<Rightarrow> 'b option \<Rightarrow> 'b option \<Rightarrow> gate list \<Rightarrow> 'b var_map \<times> uses \<Rightarrow>
    (('w, 'z) run_scheme, ('b var_map \<times> uses) option) state" where
  "build_gates B L cf ct [] mu = State_Monad.return (Some mu)"
| "build_gates B L cf ct (a # as) mu =
     (let (m, u) = mu; v = unat (g_var a) in
      if u v = 0 \<or> m v \<noteq> None then build_gates B L cf ct as mu
      else do { x \<leftarrow> run_literal B L m (g_r0 a);
                y \<leftarrow> run_literal B L m (g_r1 a);
                r \<leftarrow> gate_result B L cf ct x y;
                _ \<leftarrow> count_gate;
                if r = None then State_Monad.return None
                else build_gates B L cf ct as
                  (consume_literal (g_r1 a) (consume_literal (g_r0 a) (m(v := r), u))) })"

fun build_outputs :: "('w, 'b) oxidd \<Rightarrow> 'w limits \<Rightarrow> u32 list \<Rightarrow> 'b var_map \<times> uses \<Rightarrow>
    (('w, 'z) run_scheme, 'b option list option) state" where
  "build_outputs B L [] mu = State_Monad.return (Some [])"
| "build_outputs B L (l # ls) mu =
     do { r \<leftarrow> run_literal B L (fst mu) l;
          if r = None then State_Monad.return None
          else do { rs \<leftarrow> build_outputs B L ls (consume_literal l mu);
                    State_Monad.return (map_option ((#) r) rs) } }"

definition oxidd_build_roots :: "('w, 'b) oxidd \<Rightarrow> 'w limits \<Rightarrow> aig \<Rightarrow> 'b var_map \<Rightarrow> nat \<Rightarrow> u32 list \<Rightarrow>
    (('w, 'z) run_scheme, 'b option list option) state" where
  "oxidd_build_roots B L g m maxvar lits =
     (if list_ex (\<lambda>l. var_of l > maxvar) lits then State_Monad.return None
      else case count_gates maxvar m (rev (aig_ands g)) (fold count_use lits (\<lambda>_. 0)) of
        None \<Rightarrow> State_Monad.return None
      | Some u \<Rightarrow>
          do { cf \<leftarrow> ext (ox_false B);
               ct \<leftarrow> ext (ox_true B);
               if cf = None \<or> ct = None then State_Monad.return None
               else do { x \<leftarrow> build_gates B L cf ct (aig_ands g) (\<lambda>v. if 1 \<le> v \<and> v \<le> maxvar \<and> u v = 0 then None else m v, u);
                         case x of None \<Rightarrow> State_Monad.return None | Some mu \<Rightarrow> build_outputs B L lits mu } })"

subsection \<open>Roots of the checker\<close>

text \<open>Inputs and latches get their diagrams; then the results of earlier runs are entered.\<close>

definition leaf_map :: "aig \<Rightarrow> 'b option list \<Rightarrow> 'b option list \<Rightarrow> 'b var_map" where
  "leaf_map g inputs latches = foldl (\<lambda>m (v, b). m(v := b)) (\<lambda>_. None) (zip (leaf_vars g) (inputs @ latches))"

fun seed_map :: "nat \<Rightarrow> 'b var_map \<Rightarrow> (nat \<times> 'b option) list \<Rightarrow> 'b var_map option" where
  "seed_map maxvar m [] = Some m"
| "seed_map maxvar m ((v, b) # seeds) =
     (if v > maxvar \<or> m v \<noteq> None then None else seed_map maxvar (m(v := b)) seeds)"

definition compile_aig_roots_seeded :: "('w, 'b) oxidd \<Rightarrow> 'w limits \<Rightarrow> aig \<Rightarrow> 'b option list \<Rightarrow> 'b option list \<Rightarrow>
    (nat \<times> 'b option) list \<Rightarrow> u32 list \<Rightarrow> (('w, 'z) run_scheme, 'b option list option) state" where
  "compile_aig_roots_seeded B L g inputs latches seeds lits =
     (case seed_map (oxidd_max_aig_var g) (leaf_map g inputs latches) seeds of
        None \<Rightarrow> State_Monad.return None
      | Some m \<Rightarrow>
          do { r \<leftarrow> oxidd_build_roots B L g m (oxidd_max_aig_var g) lits;
               if r = None then do { _ \<leftarrow> fail_bdd; State_Monad.return None } else State_Monad.return r })"

definition compile_aig_roots :: "('w, 'b) oxidd \<Rightarrow> 'w limits \<Rightarrow> aig \<Rightarrow> 'b option list \<Rightarrow> 'b option list \<Rightarrow>
    u32 list \<Rightarrow> (('w, 'z) run_scheme, 'b option list option) state" where
  "compile_aig_roots B L g inputs latches lits = compile_aig_roots_seeded B L g inputs latches [] lits"

subsection \<open>What the roots denote\<close>

lemma run_gates_fix:
  "gates_ok V as \<Longrightarrow> a \<in> set as \<Longrightarrow>
   run_gates as \<rho> (unat (g_var a)) = (lit_val (run_gates as \<rho>) (g_r0 a) \<and> lit_val (run_gates as \<rho>) (g_r1 a))"
proof (induction as arbitrary: V \<rho>)
  case (Cons b as)
  let ?v = "unat (g_var b)" and ?x = "lit_val \<rho> (g_r0 b) \<and> lit_val \<rho> (g_r1 b)"
  have ok: "gates_ok (insert ?v V) as" "?v \<notin> V" "lit_in V (g_r0 b)" "lit_in V (g_r1 b)" using Cons.prems(1) by simp_all
  have other: "run_gates as \<sigma> w = \<sigma> w" if "w \<in> insert ?v V" for \<sigma> w
    by (rule run_gates_other) (use gates_ok_fresh [OF ok(1)] that in auto)
  show ?case
  proof (cases "a \<in> set as")
    case True
    then show ?thesis using Cons.IH [OF ok(1)] by simp
  next
    case False
    then have a: "a = b" using Cons.prems(2) by simp
    have "lit_val (run_gates as (\<rho>(?v := ?x))) l = lit_val \<rho> l" if "lit_in V l" for l
      by (rule lit_val_cong [OF that]) (use other ok(2) in auto)
    then show ?thesis using other [of ?v "\<rho>(?v := ?x)"] ok(3,4) by (simp add: a)
  qed
qed simp

text \<open>Every diagram in the map denotes the value of its variable; \<open>L\<close> gives the values of the leaves.\<close>

definition sound_map :: "('b \<Rightarrow> assignment \<Rightarrow> bool) \<Rightarrow> aig \<Rightarrow> (assignment \<Rightarrow> valuation) \<Rightarrow> 'b var_map \<Rightarrow> bool" where
  "sound_map den g L m \<longleftrightarrow> (\<forall>v. v \<noteq> 0 \<longrightarrow> means den (m v) (\<lambda>\<rho>. run_gates (aig_ands g) (L \<rho>) v))"

definition roots_mean :: "('b \<Rightarrow> assignment \<Rightarrow> bool) \<Rightarrow> aig \<Rightarrow> (assignment \<Rightarrow> valuation) \<Rightarrow> 'b option list \<Rightarrow> u32 list \<Rightarrow> bool" where
  "roots_mean den g L rs lits \<longleftrightarrow>
     list_all2 (\<lambda>r l. r \<noteq> None \<and> means den r (\<lambda>\<rho>. aig_val g (L \<rho>) l)) rs lits"

lemma sound_map_consume: "sound_map den g L m \<Longrightarrow> sound_map den g L (fst (consume_literal l (m, u)))"
  by (auto simp: sound_map_def consume_literal_def Let_def)

context oxidd_laws
begin

lemma post_run_literal:
  assumes "sound_map den g L m"
    and "\<And>r s'. later s s' \<Longrightarrow> means den r (\<lambda>\<rho>. aig_val g (L \<rho>) l) \<Longrightarrow> Q r s'"
  shows "post (run_literal B K m l) Q s"
proof (cases "l < 2")
  case True
  then have "unat l = 0 \<or> unat l = 1" by (simp add: word_less_nat_alt) linarith
  then have "l = 0 \<or> l = 1" by (simp add: word_unat_eq_iff)
  then show ?thesis
  proof
    assume l: "l = 0"
    have "post (ext (ox_false B)) Q s" by (rule post_false) (rule assms(2); simp add: l)
    then show ?thesis by (simp add: run_literal_def l)
  next
    assume l: "l = 1"
    have "post (ext (ox_true B)) Q s" by (rule post_true) (rule assms(2); simp add: l)
    then show ?thesis by (simp add: run_literal_def l)
  qed
next
  case False
  then have v: "var_of l \<noteq> 0" by (simp add: word_less_nat_alt)
  then have m: "means den (m (var_of l)) (\<lambda>\<rho>. run_gates (aig_ands g) (L \<rho>) (var_of l))"
    using assms(1) by (simp add: sound_map_def)
  show ?thesis
  proof (cases "m (var_of l)")
    case None
    have "Q None s" by (rule assms(2)) simp_all
    then show ?thesis using False None by (simp add: run_literal_def post_return)
  next
    case (Some b)
    have b: "means den (Some b) (\<lambda>\<rho>. run_gates (aig_ands g) (L \<rho>) (var_of l))" using m by (simp add: Some)
    have "post (if odd (unat l) then oxidd_run_not B K (Some b) else State_Monad.return (Some b)) Q s"
    proof (intro post_if post_run_not [OF b] post_return)
      fix r s' assume "odd (unat l)" "later s s'" "means den r (\<lambda>\<rho>. \<not> run_gates (aig_ands g) (L \<rho>) (var_of l))"
      then show "Q r s'" using assms(2) v by (simp add: aig_val_def lit_val_def)
    next
      assume "\<not> odd (unat l)"
      then show "Q (Some b) s" using assms(2) [of s "Some b"] b v by (simp add: aig_val_def lit_val_def)
    qed
    then show ?thesis using False Some by (simp add: run_literal_def)
  qed
qed

lemma post_gate_result:
  assumes "means den cf (\<lambda>_. False)" and "means den ct (\<lambda>_. True)" and "means den a P" and "means den b R"
    and "\<And>r s'. later s s' \<Longrightarrow> means den r (\<lambda>\<rho>. P \<rho> \<and> R \<rho>) \<Longrightarrow> Q r s'"
  shows "post (gate_result B K cf ct a b) Q s"
  unfolding gate_result_def
  by (intro post_if post_return post_run_and [OF assms(3,4)] assms(5))
    (use assms(1-4) in \<open>auto simp: bdd_same_identity_def means_def fun_eq_iff\<close>)

lemma post_build_gates:
  assumes "gates_ok V (aig_ands g)" and "means den cf (\<lambda>_. False)" and "means den ct (\<lambda>_. True)"
  shows "set as \<subseteq> set (aig_ands g) \<Longrightarrow> sound_map den g L (fst mu) \<Longrightarrow>
    (\<And>r s'. later s s' \<Longrightarrow> (\<And>nu. r = Some nu \<Longrightarrow> sound_map den g L (fst nu)) \<Longrightarrow> Q r s') \<Longrightarrow>
    post (build_gates B K cf ct as mu) Q s"
proof (induction as arbitrary: mu s)
  case Nil
  show ?case unfolding build_gates.simps by (intro post_return Nil.prems(3)) (use Nil.prems(2) in auto)
next
  case (Cons a as)
  obtain m u where mu: "mu = (m, u)" by (cases mu)
  let ?v = "unat (g_var a)"
  have m: "sound_map den g L m" using Cons.prems(2) by (simp add: mu)
  have rest: "set as \<subseteq> set (aig_ands g)" "a \<in> set (aig_ands g)" using Cons.prems(1) by simp_all
  show ?case unfolding build_gates.simps mu Let_def prod.case
  proof (intro post_if post_bind post_run_literal [OF m] post_return)
    show "post (build_gates B K cf ct as (m, u)) Q s"
      by (rule Cons.IH [OF rest(1)]) (use m Cons.prems(3) in auto)
  next
    fix x s1 y s2
    assume l: "later s s1" "later s1 s2" and x: "means den x (\<lambda>\<rho>. aig_val g (L \<rho>) (g_r0 a))"
      and y: "means den y (\<lambda>\<rho>. aig_val g (L \<rho>) (g_r1 a))"
    show "post (gate_result B K cf ct x y) (\<lambda>r. post (do { _ \<leftarrow> count_gate; if r = None then State_Monad.return None
      else build_gates B K cf ct as (consume_literal (g_r1 a) (consume_literal (g_r0 a) (m(?v := r), u))) }) Q) s2"
    proof (rule post_gate_result [OF assms(2,3) x y], intro post_bind post_count post_if post_return)
      fix r t assume l4: "later s2 t" and r: "means den r (\<lambda>\<rho>. aig_val g (L \<rho>) (g_r0 a) \<and> aig_val g (L \<rho>) (g_r1 a))"
      let ?s = "t\<lparr>built_gates := built_gates t + 1\<rparr>"
      have l3: "later s2 ?s" using l4 by simp
      show "Q None ?s" by (rule Cons.prems(3)) (use l l3 in \<open>auto intro: later_trans\<close>)
      have "means den r (\<lambda>\<rho>. run_gates (aig_ands g) (L \<rho>) ?v)"
        by (rule means_cong [OF r]) (simp only: run_gates_fix [OF assms(1) rest(2)] aig_val_def)
      then have "sound_map den g L (m(?v := r))" using m by (simp add: sound_map_def)
      then have s: "sound_map den g L (fst (consume_literal (g_r1 a) (consume_literal (g_r0 a) (m(?v := r), u))))"
        by (metis sound_map_consume prod.collapse)
      show "post (build_gates B K cf ct as (consume_literal (g_r1 a) (consume_literal (g_r0 a) (m(?v := r), u)))) Q ?s"
      proof (rule Cons.IH [OF rest(1) s])
        fix r' :: "('b var_map \<times> uses) option" and s'
        assume r': "later ?s s'" "\<And>nu. r' = Some nu \<Longrightarrow> sound_map den g L (fst nu)"
        have "later s s'" using l l3 r'(1) by (blast intro: later_trans)
        then show "Q r' s'" using r'(2) by (rule Cons.prems(3))
      qed
    qed
  qed
qed

lemma post_build_outputs:
  "sound_map den g L (fst mu) \<Longrightarrow>
   (\<And>r s'. later s s' \<Longrightarrow> (\<And>rs. r = Some rs \<Longrightarrow> roots_mean den g L rs lits) \<Longrightarrow> Q r s') \<Longrightarrow>
   post (build_outputs B K lits mu) Q s"
proof (induction lits arbitrary: mu s Q)
  case Nil
  show ?case unfolding build_outputs.simps by (intro post_return Nil.prems(2)) (auto simp: roots_mean_def)
next
  case (Cons l lits)
  show ?case unfolding build_outputs.simps
  proof (intro post_bind post_run_literal [OF Cons.prems(1)] post_if post_return)
    fix r s1 assume l: "later s s1" and r: "means den r (\<lambda>\<rho>. aig_val g (L \<rho>) l)"
    show "Q None s1" by (rule Cons.prems(2) [OF l]) simp
    assume ne: "r \<noteq> None"
    have "sound_map den g L (fst (consume_literal l mu))" using Cons.prems(1) sound_map_consume by (metis prod.collapse)
    then show "post (build_outputs B K lits (consume_literal l mu))
      (\<lambda>rs. post (State_Monad.return (map_option ((#) r) rs)) Q) s1"
    proof (rule Cons.IH, intro post_return)
      fix rs s' assume "later s1 s'" and rs: "\<And>ts. rs = Some ts \<Longrightarrow> roots_mean den g L ts lits"
      show "Q (map_option ((#) r) rs) s'"
      proof (rule Cons.prems(2))
        show "later s s'" using l \<open>later s1 s'\<close> by (rule later_trans)
        fix ts assume "map_option ((#) r) rs = Some ts"
        then show "roots_mean den g L ts (l # lits)" using rs r ne by (auto simp: roots_mean_def)
      qed
    qed
  qed
qed

lemma post_build_roots:
  assumes "gates_ok V (aig_ands g)" and "sound_map den g L m"
    and "\<And>r s'. later s s' \<Longrightarrow> (\<And>rs. r = Some rs \<Longrightarrow> roots_mean den g L rs lits) \<Longrightarrow> Q r s'"
  shows "post (oxidd_build_roots B K g m maxvar lits) Q s"
proof -
  have none: "Q None t" if "later s t" for t by (rule assms(3) [OF that]) simp
  have dropped: "sound_map den g L (\<lambda>v. if 1 \<le> v \<and> v \<le> maxvar \<and> u v = 0 then None else m v)" for u
    using assms(2) by (auto simp: sound_map_def)
  show ?thesis unfolding oxidd_build_roots_def
  proof (intro post_if post_option post_bind post_false post_true post_return)
    show "Q None s" "Q None s" by (rule none; simp)+
    fix u cf s1 ct s2
    assume l: "later s s1" "later s1 s2" and c: "means den cf (\<lambda>_. False)" "means den ct (\<lambda>_. True)"
    show "Q None s2" using l by (blast intro: none later_trans)
    show "post (build_gates B K cf ct (aig_ands g) (\<lambda>v. if 1 \<le> v \<and> v \<le> maxvar \<and> u v = 0 then None else m v, u))
      (\<lambda>x. post (case x of None \<Rightarrow> State_Monad.return None | Some mu \<Rightarrow> build_outputs B K lits mu) Q) s2"
    proof (rule post_build_gates [OF assms(1) c order_refl], unfold fst_conv, rule dropped, intro post_option post_return)
      fix x :: "('b var_map \<times> uses) option" and s3
      assume l3: "later s2 s3" and x: "\<And>nu. x = Some nu \<Longrightarrow> sound_map den g L (fst nu)"
      show "Q None s3" using l l3 by (blast intro: none later_trans)
      fix nu assume "x = Some nu"
      then show "post (build_outputs B K lits nu) Q s3"
      proof (intro post_build_outputs [OF x])
        fix r s' assume r: "later s3 s'" "\<And>rs. r = Some rs \<Longrightarrow> roots_mean den g L rs lits"
        have "later s s'" using l l3 r(1) by (blast intro: later_trans)
        then show "Q r s'" using r(2) by (rule assms(3))
      qed
    qed
  qed
qed

end

text \<open>What the structural validation of a graph establishes.\<close>

definition structured :: "aig \<Rightarrow> bool" where
  "structured g \<longleftrightarrow> distinct (leaf_vars g) \<and> 0 \<notin> set (leaf_vars g) \<and> gates_ok (set (leaf_vars g)) (aig_ands g)"

text \<open>The leaves as predicates: the inputs \<open>Is\<close> and the latches \<open>Ls\<close> of a graph.\<close>

definition leaves :: "aig \<Rightarrow> (assignment \<Rightarrow> bool) list \<Rightarrow> (assignment \<Rightarrow> bool) list \<Rightarrow> assignment \<Rightarrow> valuation" where
  "leaves g Is Ls \<rho> = leaf_val g (map (\<lambda>P. P \<rho>) Is) (map (\<lambda>P. P \<rho>) Ls)"

lemma foldl_updates:
  "distinct (map fst xs) \<Longrightarrow> foldl (\<lambda>m (v, b). m(v := b)) m0 xs v = (case map_of xs v of Some b \<Rightarrow> b | None \<Rightarrow> m0 v)"
proof (induction xs arbitrary: m0)
  case (Cons x xs)
  obtain w b where x: "x = (w, b)" by (cases x)
  have "v = w \<Longrightarrow> map_of xs v = None" using Cons.prems x by (auto simp: map_of_eq_None_iff)
  then show ?case using Cons by (cases "v = w") (simp_all add: x)
qed simp

lemma structured_leaf: "structured g \<Longrightarrow> v \<in> set (leaf_vars g) \<Longrightarrow> run_gates (aig_ands g) \<sigma> v = \<sigma> v"
  by (rule run_gates_other) (use gates_ok_fresh in \<open>fastforce simp: structured_def\<close>)

lemma leaf_map_sound:
  assumes g: "structured g" and len: "length inputs = length (aig_ins g)" "length latches = length (aig_lats g)"
    and m: "all_mean den inputs Is" "all_mean den latches Ls"
  shows "sound_map den g (leaves g Is Ls) (leaf_map g inputs latches)"
  unfolding sound_map_def
proof (intro allI impI)
  fix v :: nat
  let ?vs = "leaf_vars g" and ?bs = "inputs @ latches" and ?Ps = "Is @ Ls"
  have d: "distinct ?vs" using g by (simp add: structured_def)
  have lv: "length ?bs = length ?vs" using len by (simp add: leaf_vars_def)
  have all: "list_all2 (means den) ?bs ?Ps" using m by (auto simp: all_mean_def intro: list_all2_appendI)
  have lp: "length ?Ps = length ?vs" using list_all2_lengthD [OF all] lv by simp
  have lm: "leaf_map g inputs latches v = (case map_of (zip ?vs ?bs) v of Some b \<Rightarrow> b | None \<Rightarrow> None)"
    unfolding leaf_map_def by (rule foldl_updates) (use d lv in simp)
  show "means den (leaf_map g inputs latches v) (\<lambda>\<rho>. run_gates (aig_ands g) (leaves g Is Ls \<rho>) v)"
  proof (cases "v \<in> set ?vs")
    case False
    then have "map_of (zip ?vs ?bs) v = None" using lv by simp
    then show ?thesis by (simp add: lm)
  next
    case True
    then obtain k where k: "k < length ?vs" "v = ?vs ! k" by (auto simp: in_set_conv_nth)
    have "map_of (zip ?vs ?bs) v = Some (?bs ! k)" unfolding k(2) by (rule map_of_zip_nth) (use lv d k in simp_all)
    then have b: "leaf_map g inputs latches v = ?bs ! k" by (simp add: lm)
    have "leaves g Is Ls \<rho> v = (?Ps ! k) \<rho>" for \<rho>
    proof -
      have "map_of (zip ?vs (map (\<lambda>P. P \<rho>) ?Ps)) v = Some (map (\<lambda>P. P \<rho>) ?Ps ! k)"
        unfolding k(2) by (rule map_of_zip_nth) (use lp d k in simp_all)
      also have "map (\<lambda>P. P \<rho>) ?Ps ! k = (?Ps ! k) \<rho>" by (rule nth_map) (use k lp in simp)
      finally show ?thesis unfolding leaves_def leaf_val_def map_append [symmetric] by simp
    qed
    moreover have "means den (?bs ! k) (?Ps ! k)" using all k lv by (simp add: list_all2_conv_all_nth)
    ultimately show ?thesis unfolding b structured_leaf [OF g True] by presburger
  qed
qed

lemma seed_map_sound:
  "seed_map n m seeds = Some m' \<Longrightarrow> sound_map den g L m \<Longrightarrow>
   \<forall>(v, b)\<in>set seeds. means den b (\<lambda>\<rho>. run_gates (aig_ands g) (L \<rho>) v) \<Longrightarrow> sound_map den g L m'"
proof (induction n m seeds rule: seed_map.induct)
  case (2 n m v b seeds)
  then have c: "\<not> (v > n \<or> m v \<noteq> None)" "seed_map n (m(v := b)) seeds = Some m'" by (auto split: if_splits)
  have "sound_map den g L (m(v := b))" using "2.prems"(2,3) by (simp add: sound_map_def)
  then show ?case by (rule "2.IH" [OF c]) (use "2.prems"(3) in simp)
qed simp

context oxidd_laws
begin

lemma post_compile_roots:
  assumes g: "structured g" and len: "length inputs = length (aig_ins g)" "length latches = length (aig_lats g)"
    and m: "all_mean den inputs Is" "all_mean den latches Ls"
    and seeds: "\<forall>(v, b)\<in>set seeds. means den b (\<lambda>\<rho>. run_gates (aig_ands g) (leaves g Is Ls \<rho>) v)"
    and Q: "\<And>r s'. later s s' \<Longrightarrow> (\<And>rs. r = Some rs \<Longrightarrow> roots_mean den g (leaves g Is Ls) rs lits) \<Longrightarrow> Q r s'"
  shows "post (compile_aig_roots_seeded B K g inputs latches seeds lits) Q s"
proof -
  have ok: "gates_ok (set (leaf_vars g)) (aig_ands g)" using g by (simp add: structured_def)
  note lm = leaf_map_sound [OF g len m]
  show ?thesis unfolding compile_aig_roots_seeded_def
  proof (intro post_option post_return)
    show "Q None s" by (rule Q) simp_all
    fix m' assume "seed_map (oxidd_max_aig_var g) (leaf_map g inputs latches) seeds = Some m'"
    from seed_map_sound [OF this lm seeds] have s: "sound_map den g (leaves g Is Ls) m'" .
    show "post (do { r \<leftarrow> oxidd_build_roots B K g m' (oxidd_max_aig_var g) lits;
      if r = None then do { _ \<leftarrow> fail_bdd; State_Monad.return None } else State_Monad.return r }) Q s"
    proof (intro post_bind post_build_roots [OF ok s] post_if post_fail post_return)
      fix r s' assume r: "later s s'" "\<And>rs. r = Some rs \<Longrightarrow> roots_mean den g (leaves g Is Ls) rs lits"
      show "Q None (s'\<lparr>bdd_failed := True\<rparr>)" by (rule Q) (use r(1) in auto)
      show "Q r s'" using r by (rule Q)
    qed
  qed
qed

end

end
