(* ===== verification/Gr1_Interface.thy ===== *)
theory Gr1_Interface
  imports Oxidd_Roots Decimal
begin

text \<open>
  The checks of \<^verbatim>\<open>src/lib/gr1_check.c\<close> on the graphs it is given: their structure, the names of the
  game, and the interfaces of the policy and of the certificate of the system.  The messages are
  left out.  The variables of a graph are halves of literals and stay below \<open>2 ^ 31\<close>.
\<close>

subsection \<open>Structure\<close>

definition defined_literal :: "(nat \<Rightarrow> bool) \<Rightarrow> nat \<Rightarrow> u32 \<Rightarrow> bool" where
  "defined_literal dfd maxvar l \<longleftrightarrow> l < 2 \<or> (var_of l \<le> maxvar \<and> dfd (var_of l))"

fun define_leaves :: "nat \<Rightarrow> nat list \<Rightarrow> (nat \<Rightarrow> bool) \<Rightarrow> (nat \<Rightarrow> bool) option" where
  "define_leaves maxvar [] dfd = Some dfd"
| "define_leaves maxvar (v # vs) dfd =
     (if v = 0 \<or> v > maxvar \<or> dfd v then None else define_leaves maxvar vs (dfd(v := True)))"

fun define_gates :: "nat \<Rightarrow> gate list \<Rightarrow> (nat \<Rightarrow> bool) \<Rightarrow> (nat \<Rightarrow> bool) option" where
  "define_gates maxvar [] dfd = Some dfd"
| "define_gates maxvar (a # as) dfd =
     (let v = unat (g_var a) in
      if v = 0 \<or> v > maxvar \<or> dfd v \<or> \<not> defined_literal dfd maxvar (g_r0 a) \<or> \<not> defined_literal dfd maxvar (g_r1 a)
      then None else define_gates maxvar as (dfd(v := True)))"

definition validate_aig_structure :: "aig \<Rightarrow> bool" where
  "validate_aig_structure g =
     (let maxvar = oxidd_max_aig_var g in
      case do { dfd \<leftarrow> define_leaves maxvar (leaf_vars g) (\<lambda>_. False); define_gates maxvar (aig_ands g) dfd } of
        None \<Rightarrow> False
      | Some dfd \<Rightarrow>
          (let ok = defined_literal dfd maxvar in
           list_all (\<lambda>l. ok (lat_next l) \<and> lat_reset l \<le> 1) (aig_lats g) \<and>
           list_all (\<lambda>s. ok (n_lit s)) (aig_outs g) \<and> list_all (\<lambda>s. ok (n_lit s)) (aig_bads g) \<and>
           list_all (\<lambda>s. ok (n_lit s)) (aig_cons g) \<and> list_all (\<lambda>j. list_all ok (j_lits j)) (aig_justs g) \<and>
           list_all (\<lambda>s. ok (n_lit s)) (aig_fairs g)))"

subsection \<open>Names\<close>

definition is_controllable :: "string option \<Rightarrow> bool" where
  "is_controllable n = (case n of None \<Rightarrow> False | Some s \<Rightarrow> starts_with ''controllable_'' s)"

definition latch_name :: "aig \<Rightarrow> nat \<Rightarrow> string" where
  "latch_name g i = (case lat_name (aig_lats g ! i) of Some n \<Rightarrow> n | None \<Rightarrow> ''l'' @ show_nat i)"

definition input_name :: "aig \<Rightarrow> nat \<Rightarrow> string option" where
  "input_name g p = in_name (aig_ins g ! p)"

fun unnamed_or_duplicate :: "string option list \<Rightarrow> bool" where
  "unnamed_or_duplicate [] = False"
| "unnamed_or_duplicate (n # ns) \<longleftrightarrow> n = None \<or> n \<in> set ns \<or> unnamed_or_duplicate ns"

definition duplicate_inputs_or_outputs :: "aig \<Rightarrow> bool" where
  "duplicate_inputs_or_outputs g \<longleftrightarrow>
     unnamed_or_duplicate (map in_name (aig_ins g)) \<or> unnamed_or_duplicate (map n_name (aig_outs g))"

definition has_input :: "aig \<Rightarrow> string option \<Rightarrow> bool" where
  "has_input g n \<longleftrightarrow> n \<noteq> None \<and> list_ex (\<lambda>i. in_name i = n) (aig_ins g)"

definition has_output :: "aig \<Rightarrow> string option \<Rightarrow> bool" where
  "has_output g n \<longleftrightarrow> aig_output_lit g n \<noteq> NO_LIT"

definition count_goals :: "aig \<Rightarrow> nat" where
  "count_goals g = foldl (\<lambda>n j. n + (if j_lits j \<noteq> [] then length (j_lits j) else 1)) 0 (aig_justs g)"

text \<open>The indices of the inputs of the two players.\<close>

definition cinputs :: "aig \<Rightarrow> nat list" where
  "cinputs g = filter (\<lambda>p. is_controllable (input_name g p)) [0..<length (aig_ins g)]"

definition uinputs :: "aig \<Rightarrow> nat list" where
  "uinputs g = filter (\<lambda>p. \<not> is_controllable (input_name g p)) [0..<length (aig_ins g)]"

definition curr_name :: "nat \<Rightarrow> string" where
  "curr_name j = ''curr_'' @ show_nat j"

definition curr_next_name :: "nat \<Rightarrow> string" where
  "curr_next_name j = ''curr_next_'' @ show_nat j"

definition indexed :: "string \<Rightarrow> nat list \<Rightarrow> string" where
  "indexed pre is = pre @ concat (map (\<lambda>i. CHR ''_'' # show_nat i) is)"

definition validate_game_names :: "aig \<Rightarrow> bool" where
  "validate_game_names g \<longleftrightarrow>
     (let nin = length (aig_ins g); nstate = length (aig_lats g) in
      list_all (\<lambda>p. input_name g p \<noteq> None) [0..<nin] \<and>
      list_all (\<lambda>p. list_all (\<lambda>q. input_name g p \<noteq> input_name g q) [Suc p..<nin]) [0..<nin] \<and>
      list_all (\<lambda>s. list_all (\<lambda>t. latch_name g s \<noteq> latch_name g t) [Suc s..<nstate] \<and>
        list_all (\<lambda>p. Some (latch_name g s) \<noteq> input_name g p) [0..<nin]) [0..<nstate] \<and>
      list_all (\<lambda>j. list_all (\<lambda>p. Some (curr_name j) \<noteq> input_name g p) [0..<nin] \<and>
        list_all (\<lambda>s. curr_name j \<noteq> latch_name g s) [0..<nstate]) [0..<count_goals g] \<and>
      list_all (\<lambda>p. input_name g p \<noteq> Some ''controllable_'') (cinputs g))"

definition validate_policy_interface :: "bool \<Rightarrow> aig \<Rightarrow> nat \<Rightarrow> aig \<Rightarrow> bool" where
  "validate_policy_interface environment game ncounter policy \<longleftrightarrow>
     (let nstate = length (aig_lats game); nu = length (uinputs game); nc = length (cinputs game) in
      \<not> duplicate_inputs_or_outputs policy \<and>
      aig_lats policy = [] \<and> aig_justs policy = [] \<and> aig_fairs policy = [] \<and>
      length (aig_ins policy) = nstate + ncounter + (if environment then 0 else nu) \<and>
      length (aig_outs policy) = (if environment then nu else nc) + ncounter \<and>
      list_all (\<lambda>j. has_input policy (Some (latch_name game j))) [0..<nstate] \<and>
      list_all (\<lambda>j. has_input policy (Some (curr_name j)) \<and> has_output policy (Some (curr_next_name j))) [0..<ncounter] \<and>
      list_all (\<lambda>p. let n = input_name game p in
        if environment then (is_controllable n \<or> has_output policy n) \<and> \<not> (is_controllable n \<and> has_input policy n)
        else if is_controllable n then has_output policy n
        else has_input policy n) [0..<length (aig_ins game)])"

subsection \<open>The certificate of the system\<close>

text \<open>The levels of a goal: the outputs \<^verbatim>\<open>y_j_k\<close> are counted from \<open>k\<close> as long as they exist.\<close>

fun count_levels :: "nat \<Rightarrow> aig \<Rightarrow> nat \<Rightarrow> nat \<Rightarrow> nat \<Rightarrow> nat option" where
  "count_levels 0 cert nfair_disj j k = None"
| "count_levels (Suc fuel) cert nfair_disj j k =
     (if \<not> has_output cert (Some (indexed ''y'' [j, k])) then Some k
      else if list_ex (\<lambda>i. \<not> has_output cert (Some (indexed ''x'' [j, k, i]))) [0..<nfair_disj] then None
      else count_levels fuel cert nfair_disj j (Suc k))"

definition output_is_expected_certificate :: "nat list \<Rightarrow> nat \<Rightarrow> string \<Rightarrow> bool" where
  "output_is_expected_certificate levels nfair_disj n \<longleftrightarrow> n = ''inv'' \<or>
     list_ex (\<lambda>j. n = indexed ''goal'' [j] \<or> n = indexed ''move'' [j] \<or>
       list_ex (\<lambda>k. n = indexed ''y'' [j, k] \<or> list_ex (\<lambda>i. n = indexed ''x'' [j, k, i]) [0..<nfair_disj])
         [0..<levels ! j]) [0..<length levels]"

definition validate_certificate_interface :: "aig \<Rightarrow> nat \<Rightarrow> aig \<Rightarrow> nat list option" where
  "validate_certificate_interface game nfair_disj cert =
     (let nstate = length (aig_lats game); nin = length (aig_ins game); ngoals = count_goals game in
      if duplicate_inputs_or_outputs cert \<or> aig_lats cert \<noteq> [] \<or> aig_justs cert \<noteq> [] \<or> aig_fairs cert \<noteq> [] \<or>
         length (aig_ins cert) \<noteq> nstate + nin \<or>
         list_ex (\<lambda>j. \<not> has_input cert (Some (latch_name game j))) [0..<nstate] \<or>
         list_ex (\<lambda>p. \<not> has_input cert (input_name game p)) [0..<nin] \<or>
         \<not> has_output cert (Some ''inv'') then None
      else do { levels \<leftarrow> traverse (\<lambda>j.
                  if \<not> has_output cert (Some (indexed ''goal'' [j])) \<or> \<not> has_output cert (Some (indexed ''move'' [j]))
                  then None
                  else do { n \<leftarrow> count_levels (length (aig_outs cert) + 1) cert nfair_disj j 0;
                            if n = 0 then None else Some n }) [0..<ngoals];
                if list_ex (\<lambda>s. case n_name s of None \<Rightarrow> True
                     | Some n \<Rightarrow> \<not> output_is_expected_certificate levels nfair_disj n) (aig_outs cert)
                then None else Some levels })"

subsection \<open>What the structural check establishes\<close>

lemma define_leaves_ok:
  "define_leaves maxvar vs dfd = Some dfd' \<Longrightarrow>
   distinct vs \<and> 0 \<notin> set vs \<and> set vs \<subseteq> {..maxvar} \<and> (\<forall>v\<in>set vs. \<not> dfd v) \<and> dfd' = (\<lambda>v. dfd v \<or> v \<in> set vs)"
proof (induction vs arbitrary: dfd)
  case (Cons v vs)
  then have v: "v \<noteq> 0" "v \<le> maxvar" "\<not> dfd v" "define_leaves maxvar vs (dfd(v := True)) = Some dfd'"
    by (auto split: if_splits)
  from Cons.IH [OF v(4)] v(1-3) show ?case by (auto simp: fun_eq_iff split: if_splits)
qed (simp add: fun_eq_iff)

lemma defined_literal_in: "defined_literal (\<lambda>v. v \<in> V) maxvar l \<Longrightarrow> lit_in V l"
  by (auto simp: defined_literal_def lit_in_def word_less_nat_alt)

lemma define_gates_ok:
  "define_gates maxvar as (\<lambda>v. v \<in> V) = Some dfd' \<Longrightarrow>
   gates_ok V as \<and> dfd' = (\<lambda>v. v \<in> V \<or> v \<in> (unat \<circ> g_var) ` set as) \<and> (unat \<circ> g_var) ` set as \<subseteq> {..maxvar}"
proof (induction as arbitrary: V)
  case (Cons a as)
  let ?v = "unat (g_var a)"
  have v: "?v \<noteq> 0" "?v \<le> maxvar" "?v \<notin> V" "defined_literal (\<lambda>v. v \<in> V) maxvar (g_r0 a)"
    "defined_literal (\<lambda>v. v \<in> V) maxvar (g_r1 a)" "define_gates maxvar as ((\<lambda>v. v \<in> V)(?v := True)) = Some dfd'"
    using Cons.prems by (auto simp: Let_def split: if_splits)
  have "(\<lambda>v. v \<in> V)(?v := True) = (\<lambda>v. v \<in> insert ?v V)" by (auto simp: fun_eq_iff)
  from Cons.IH [of "insert ?v V"] v(6) [unfolded this] v(1-5) defined_literal_in
  show ?case by (auto simp: fun_eq_iff)
qed (simp add: fun_eq_iff)

text \<open>Accepted graphs are well formed, and their listed literals are defined.\<close>

lemma validate_structure_ok:
  assumes "validate_aig_structure g"
  shows "structured g" and "\<forall>l\<in>set (aig_lats g). lit_in (aig_vars g) (lat_next l) \<and> lat_reset l \<le> 1"
    and "\<forall>s\<in>set (aig_outs g @ aig_bads g @ aig_cons g @ aig_fairs g). lit_in (aig_vars g) (n_lit s)"
    and "\<forall>j\<in>set (aig_justs g). list_all (lit_in (aig_vars g)) (j_lits j)"
proof -
  let ?m = "oxidd_max_aig_var g"
  obtain d dfd where d: "define_leaves ?m (leaf_vars g) (\<lambda>_. False) = Some d" "define_gates ?m (aig_ands g) d = Some dfd"
    and ok: "list_all (\<lambda>l. defined_literal dfd ?m (lat_next l) \<and> lat_reset l \<le> 1) (aig_lats g)"
      "list_all (\<lambda>s. defined_literal dfd ?m (n_lit s)) (aig_outs g)" "list_all (\<lambda>s. defined_literal dfd ?m (n_lit s)) (aig_bads g)"
      "list_all (\<lambda>s. defined_literal dfd ?m (n_lit s)) (aig_cons g)" "list_all (\<lambda>j. list_all (defined_literal dfd ?m) (j_lits j)) (aig_justs g)"
      "list_all (\<lambda>s. defined_literal dfd ?m (n_lit s)) (aig_fairs g)"
    using assms by (auto simp: validate_aig_structure_def Let_def split: option.splits)
  note l = define_leaves_ok [OF d(1)]
  then have "d = (\<lambda>v. v \<in> set (leaf_vars g))" by simp
  from define_gates_ok [OF d(2) [unfolded this]] have gt: "gates_ok (set (leaf_vars g)) (aig_ands g)"
    "dfd = (\<lambda>v. v \<in> aig_vars g)" by (auto simp: aig_vars_def gate_vars_def fun_eq_iff)
  show "structured g" using l gt(1) by (simp add: structured_def)
  note in_vars = defined_literal_in [of "aig_vars g" ?m]
  show "\<forall>l\<in>set (aig_lats g). lit_in (aig_vars g) (lat_next l) \<and> lat_reset l \<le> 1"
    using ok(1) in_vars by (auto simp: gt(2) list_all_iff)
  show "\<forall>s\<in>set (aig_outs g @ aig_bads g @ aig_cons g @ aig_fairs g). lit_in (aig_vars g) (n_lit s)"
    using ok(2-4,6) in_vars by (auto simp: gt(2) list_all_iff)
  show "\<forall>j\<in>set (aig_justs g). list_all (lit_in (aig_vars g)) (j_lits j)"
    using ok(5) in_vars by (auto simp: gt(2) list_all_iff)
qed

end
