(* ===== verification/Gr1_Policy.thy ===== *)
theory Gr1_Policy
  imports Gr1_Interface
begin

text \<open>
  The diagrams of the policy, \<^verbatim>\<open>src/lib/gr1_check.c\<close>: its outputs are built once for every counter
  mode, either from scratch with constant counters, seeded with the gates that do not depend on the
  counter, or by restriction of outputs built once over the counter variables.  The caches are a
  record that the operations take and return.  The sum in floating point that chooses between the
  two ways is exact below \<open>2 ^ 53\<close> and a comparison of numbers here.
\<close>

subsection \<open>The alphabet\<close>

text \<open>The diagrams of the current state with the counters, and of the letters of both players.\<close>

record 'b alphabet =
  al_game :: aig
  al_policy :: aig
  al_ncounter :: nat
  al_qvar :: "nat list"
  al_uvar :: "nat list"
  al_cvar :: "nat list"
  al_q :: "'b option list"
  al_u :: "'b option list"
  al_c :: "'b option list"

abbreviation nstate :: "'b alphabet \<Rightarrow> nat" where
  "nstate A \<equiv> length (aig_lats (al_game A))"

record 'b policy_cache =
  pc_independent :: "(nat \<times> 'b option) list option"
  pc_unspecialized :: bool
  pc_modes :: "('b option list \<times> 'b option list) option"
  pc_full :: "('b option list \<times> 'b option list) option"

definition empty_cache :: "'b policy_cache" where
  "empty_cache = \<lparr>pc_independent = None, pc_unspecialized = False, pc_modes = None, pc_full = None\<rparr>"

subsection \<open>Inputs and outputs of the policy\<close>

datatype policy_source = From_State nat | From_Counter nat | From_Input nat

definition policy_source :: "aig \<Rightarrow> nat \<Rightarrow> string option \<Rightarrow> policy_source option" where
  "policy_source game ncounter name =
     (case find (\<lambda>j. name = Some (latch_name game j)) [0..<length (aig_lats game)] of
        Some j \<Rightarrow> Some (From_State j)
      | None \<Rightarrow> (case find (\<lambda>j. name = Some (curr_name j)) [0..<ncounter] of
          Some j \<Rightarrow> Some (From_Counter j)
        | None \<Rightarrow> map_option From_Input
            (find (\<lambda>i. name = input_name game (uinputs game ! i)) [0..<length (uinputs game)])))"

definition source_root :: "('w, 'b) oxidd \<Rightarrow> 'b alphabet \<Rightarrow> int \<Rightarrow> bool \<Rightarrow> policy_source \<Rightarrow>
    (('w, 'z) run_scheme, 'b option) state" where
  "source_root B A mode specialized src = (case src of
     From_State j \<Rightarrow> State_Monad.return (al_q A ! j)
   | From_Counter j \<Rightarrow>
       if specialized then (if mode \<ge> 0 \<and> mode = int j then ext (ox_true B) else ext (ox_false B))
       else State_Monad.return (al_q A ! (nstate A + j))
   | From_Input i \<Rightarrow> State_Monad.return (al_u A ! i))"

fun fill_inputs :: "('w, 'b) oxidd \<Rightarrow> 'b alphabet \<Rightarrow> int \<Rightarrow> bool \<Rightarrow> aig_in list \<Rightarrow>
    (('w, 'z) run_scheme, 'b option list option) state" where
  "fill_inputs B A mode specialized [] = State_Monad.return (Some [])"
| "fill_inputs B A mode specialized (i # is) =
     (case policy_source (al_game A) (al_ncounter A) (in_name i) of
        None \<Rightarrow> State_Monad.return None
      | Some src \<Rightarrow> do { r \<leftarrow> source_root B A mode specialized src;
                       rs \<leftarrow> fill_inputs B A mode specialized is;
                       State_Monad.return (map_option ((#) r) rs) })"

definition fill_policy_inputs :: "('w, 'b) oxidd \<Rightarrow> 'b alphabet \<Rightarrow> int \<Rightarrow> bool \<Rightarrow>
    (('w, 'z) run_scheme, 'b option list option) state" where
  "fill_policy_inputs B A mode specialized = fill_inputs B A mode specialized (aig_ins (al_policy A))"

definition policy_root_literals :: "aig \<Rightarrow> nat \<Rightarrow> aig \<Rightarrow> u32 list option" where
  "policy_root_literals game ncounter policy =
     traverse (\<lambda>n. let l = aig_output_lit policy n in if l = NO_LIT then None else Some l)
       (map (input_name game) (cinputs game) @ map (\<lambda>j. Some (curr_next_name j)) [0..<ncounter])"

subsection \<open>Gates that do not depend on the counter\<close>

definition counter_marks :: "aig \<Rightarrow> nat \<Rightarrow> nat \<Rightarrow> bool" where
  "counter_marks policy ncounter = foldl (\<lambda>d i.
     if list_ex (\<lambda>j. in_name i = Some (curr_name j)) [0..<ncounter] then d(unat (in_var i) := True) else d)
     (\<lambda>_. False) (aig_ins policy)"

fun mark_dependent :: "nat \<Rightarrow> gate list \<Rightarrow> (nat \<Rightarrow> bool) \<Rightarrow> (nat \<Rightarrow> bool) option" where
  "mark_dependent maxvar [] d = Some d"
| "mark_dependent maxvar (a # as) d =
     (if unat (g_var a) > maxvar \<or> var_of (g_r0 a) > maxvar \<or> var_of (g_r1 a) > maxvar then None
      else mark_dependent maxvar as (d(unat (g_var a) := d (var_of (g_r0 a)) \<or> d (var_of (g_r1 a)))))"

definition need_operand :: "(nat \<Rightarrow> bool) \<Rightarrow> (nat \<Rightarrow> bool) \<Rightarrow> u32 \<Rightarrow> (nat \<Rightarrow> bool) \<times> (nat \<Rightarrow> bool) \<Rightarrow> (nat \<Rightarrow> bool) \<times> (nat \<Rightarrow> bool)" where
  "need_operand dep is_gate l = (\<lambda>(needed, cached).
     if l > 1 then (needed(var_of l := True),
       if \<not> dep (var_of l) \<and> is_gate (var_of l) then cached(var_of l := True) else cached)
     else (needed, cached))"

fun mark_needed :: "(nat \<Rightarrow> bool) \<Rightarrow> (nat \<Rightarrow> bool) \<Rightarrow> gate list \<Rightarrow> (nat \<Rightarrow> bool) \<times> (nat \<Rightarrow> bool) \<Rightarrow> (nat \<Rightarrow> bool) \<times> (nat \<Rightarrow> bool)" where
  "mark_needed dep is_gate [] nc = nc"
| "mark_needed dep is_gate (a # as) nc =
     (let v = unat (g_var a) in
      mark_needed dep is_gate as
        (if \<not> fst nc v then nc
         else if \<not> dep v then (fst nc, (snd nc)(v := True))
         else need_operand dep is_gate (g_r1 a) (need_operand dep is_gate (g_r0 a) nc)))"

text \<open>The variables to cache, and the number of needed gates that depend on the counter.\<close>

definition policy_cones :: "aig \<Rightarrow> nat \<Rightarrow> aig \<Rightarrow> (nat list \<times> nat) option" where
  "policy_cones game ncounter policy =
     (let maxvar = oxidd_max_aig_var policy; gates = aig_ands policy in
      do { selected \<leftarrow> policy_root_literals game ncounter policy;
           dep \<leftarrow> mark_dependent maxvar gates (counter_marks policy ncounter);
           if list_ex (\<lambda>l. var_of l > maxvar) selected then None
           else let is_gate = (\<lambda>v. list_ex (\<lambda>a. unat (g_var a) = v) gates);
                    (needed, cached) = mark_needed dep is_gate (rev gates)
                      (\<lambda>v. list_ex (\<lambda>l. l > 1 \<and> var_of l = v) selected, \<lambda>_. False)
                in Some (filter cached [1..<Suc maxvar],
                     length (filter (\<lambda>a. needed (unat (g_var a)) \<and> dep (unat (g_var a))) gates)) })"

text \<open>The roots of the cached variables, and the number of gates built for them.\<close>

definition independent_roots :: "('w, 'b) oxidd \<Rightarrow> 'w limits \<Rightarrow> 'b alphabet \<Rightarrow> nat list \<Rightarrow>
    (('w, 'z) run_scheme, 'b option list option \<times> nat) state" where
  "independent_roots B L A vs =
     do { inputs \<leftarrow> fill_policy_inputs B A (- 1) True;
          built \<leftarrow> get_built;
          roots \<leftarrow> (case inputs of None \<Rightarrow> State_Monad.return None
            | Some ins \<Rightarrow> if vs = [] then State_Monad.return (Some [])
                else compile_aig_roots B L (al_policy A) ins [] (map (\<lambda>v. of_nat (2 * v)) vs));
          after \<leftarrow> get_built;
          State_Monad.return (roots, after - built) }"

definition prepare_policy_independent :: "('w, 'b) oxidd \<Rightarrow> 'w limits \<Rightarrow> 'b alphabet \<Rightarrow> 'b policy_cache \<Rightarrow>
    (('w, 'z) run_scheme, bool \<times> 'b policy_cache) state" where
  "prepare_policy_independent B L A pc =
     (if pc_independent pc \<noteq> None then State_Monad.return (True, pc)
      else case policy_cones (al_game A) (al_ncounter A) (al_policy A) of
        None \<Rightarrow> State_Monad.return (False, pc)
      | Some (vs, ndep) \<Rightarrow>
          do { (roots, built) \<leftarrow> independent_roots B L A vs;
               State_Monad.return (case roots of None \<Rightarrow> (False, pc)
                 | Some rs \<Rightarrow> (True, pc\<lparr>pc_independent := Some (zip vs rs),
                     pc_unspecialized := built + ndep \<noteq> 0 \<and> ndep * (al_ncounter A + 1) > 8 * (built + ndep)\<rparr>)) })"

subsection \<open>Restriction to a mode\<close>

fun cube_literals :: "('w, 'b) oxidd \<Rightarrow> 'b alphabet \<Rightarrow> int \<Rightarrow> nat list \<Rightarrow> 'b option \<Rightarrow>
    (('w, 'z) run_scheme, 'b option) state" where
  "cube_literals B A counter [] cube = State_Monad.return cube"
| "cube_literals B A counter (j # js) cube =
     do { lit \<leftarrow> (if counter \<ge> 0 \<and> counter = int j then State_Monad.return (al_q A ! (nstate A + j))
                else ext (ox_not B (al_q A ! (nstate A + j))));
          c \<leftarrow> ext (ox_and B cube lit);
          cube_literals B A counter js c }"

definition assignment_cube :: "('w, 'b) oxidd \<Rightarrow> 'b alphabet \<Rightarrow> int \<Rightarrow> (('w, 'z) run_scheme, 'b option) state" where
  "assignment_cube B A counter = do { t \<leftarrow> ext (ox_true B); cube_literals B A counter [0..<al_ncounter A] t }"

fun specialize_all :: "('w, 'b) oxidd \<Rightarrow> 'b option \<Rightarrow> 'b option list \<Rightarrow> (('w, 'z) run_scheme, 'b option list option) state" where
  "specialize_all B cube [] = State_Monad.return (Some [])"
| "specialize_all B cube (h # hs) =
     do { r \<leftarrow> ext (ox_restrict B h cube);
          if r = None then State_Monad.return None
          else do { rs \<leftarrow> specialize_all B cube hs; State_Monad.return (map_option ((#) r) rs) } }"

subsection \<open>The outputs of the policy\<close>

definition split_roots :: "'b alphabet \<Rightarrow> 'b option list \<Rightarrow> 'b option list \<times> 'b option list" where
  "split_roots A rs = (take (length (cinputs (al_game A))) rs, drop (length (cinputs (al_game A))) rs)"

definition policy_roots :: "('w, 'b) oxidd \<Rightarrow> 'w limits \<Rightarrow> 'b alphabet \<Rightarrow> int \<Rightarrow> bool \<Rightarrow> (nat \<times> 'b option) list \<Rightarrow>
    (('w, 'z) run_scheme, ('b option list \<times> 'b option list) option) state" where
  "policy_roots B L A mode specialized seeds =
     do { inputs \<leftarrow> fill_policy_inputs B A mode specialized;
          case do { ins \<leftarrow> inputs; lits \<leftarrow> policy_root_literals (al_game A) (al_ncounter A) (al_policy A); Some (ins, lits) } of
            None \<Rightarrow> State_Monad.return None
          | Some (ins, lits) \<Rightarrow>
              do { rs \<leftarrow> compile_aig_roots_seeded B L (al_policy A) ins [] seeds lits;
                   State_Monad.return (map_option (split_roots A) rs) } }"

definition prepare_policy_mode_cache :: "('w, 'b) oxidd \<Rightarrow> 'w limits \<Rightarrow> 'b alphabet \<Rightarrow> 'b policy_cache \<Rightarrow>
    (('w, 'z) run_scheme, bool \<times> 'b policy_cache) state" where
  "prepare_policy_mode_cache B L A pc =
     (if pc_modes pc \<noteq> None then State_Monad.return (True, pc)
      else do { r \<leftarrow> policy_roots B L A (- 1) False (case pc_independent pc of Some seeds \<Rightarrow> seeds | None \<Rightarrow> []);
                State_Monad.return (if r = None then (False, pc) else (True, pc\<lparr>pc_modes := r\<rparr>)) })"

definition restrict_modes :: "('w, 'b) oxidd \<Rightarrow> 'b alphabet \<Rightarrow> int \<Rightarrow> 'b option list \<times> 'b option list \<Rightarrow>
    (('w, 'z) run_scheme, ('b option list \<times> 'b option list) option) state" where
  "restrict_modes B A mode modes =
     do { cube \<leftarrow> assignment_cube B A mode;
          r \<leftarrow> (if cube = None then State_Monad.return None else specialize_all B cube (fst modes @ snd modes));
          if r = None then do { _ \<leftarrow> fail_bdd; State_Monad.return None }
          else State_Monad.return (map_option (split_roots A) r) }"

definition compile_policy_roots :: "('w, 'b) oxidd \<Rightarrow> 'w limits \<Rightarrow> 'b alphabet \<Rightarrow> int \<Rightarrow> bool \<Rightarrow> 'b policy_cache \<Rightarrow>
    (('w, 'z) run_scheme, ('b option list \<times> 'b option list) option \<times> 'b policy_cache) state" where
  "compile_policy_roots B L A mode specialized pc =
     (if specialized then
        do { (ok, pc) \<leftarrow> prepare_policy_independent B L A pc;
             if \<not> ok then State_Monad.return (None, pc)
             else if pc_unspecialized pc then
               do { (ok, pc) \<leftarrow> prepare_policy_mode_cache B L A pc;
                    case pc_modes pc of
                      Some modes \<Rightarrow> (if ok then do { r \<leftarrow> restrict_modes B A mode modes; State_Monad.return (r, pc) }
                        else State_Monad.return (None, pc))
                    | None \<Rightarrow> State_Monad.return (None, pc) }
             else do { r \<leftarrow> policy_roots B L A mode True (case pc_independent pc of Some seeds \<Rightarrow> seeds | None \<Rightarrow> []);
                       State_Monad.return (r, pc) } }
      else do { r \<leftarrow> policy_roots B L A mode False []; State_Monad.return (r, pc) })"

definition ensure_full_policy :: "('w, 'b) oxidd \<Rightarrow> 'w limits \<Rightarrow> 'b alphabet \<Rightarrow> 'b policy_cache \<Rightarrow>
    (('w, 'z) run_scheme, bool \<times> 'b policy_cache) state" where
  "ensure_full_policy B L A pc =
     (if pc_full pc \<noteq> None then State_Monad.return (True, pc)
      else do { (r, pc) \<leftarrow> compile_policy_roots B L A (- 1) False pc;
                State_Monad.return (if r = None then (False, pc) else (True, pc\<lparr>pc_full := r\<rparr>)) })"

end
