(* ===== verification/Gr1_Setup.thy ===== *)
theory Gr1_Setup
  imports Gr1_Policy
begin

text \<open>
  \<^verbatim>\<open>setup_bdds\<close> of \<^verbatim>\<open>src/lib/gr1_check.c\<close> for the certificate of a system: the order of the
  variables, and the diagrams of the game, of the policy if it is asked for, and of the certificate.
  The result is a null setup when a diagram cannot be built.
\<close>

datatype var_order = ORDER_AUTO | ORDER_INPUT_FIRST | ORDER_STATE_FIRST

record check_options =
  opt_order :: var_order
  opt_legacy :: bool
  opt_unspecialized :: bool
  opt_rebuild :: bool

definition use_input_first :: "check_options \<Rightarrow> aig \<Rightarrow> bool" where
  "use_input_first opt policy =
     (if opt_order opt \<noteq> ORDER_AUTO then opt_order opt = ORDER_INPUT_FIRST
      else \<not> opt_legacy opt \<and> length (aig_ands policy) \<ge> 2 ^ 12 \<and> length (aig_ands policy) \<le> 2 ^ 18)"

definition speculative_input_first :: "check_options \<Rightarrow> aig \<Rightarrow> bool" where
  "speculative_input_first opt policy \<longleftrightarrow> opt_order opt = ORDER_AUTO \<and> use_input_first opt policy"

subsection \<open>Variables\<close>

definition state_vars :: "bool \<Rightarrow> nat \<Rightarrow> nat \<Rightarrow> nat list" where
  "state_vars input_first nq nin = map (\<lambda>i. (if input_first then nin else 0) + 2 * i) [0..<nq]"

definition letter_vars :: "bool \<Rightarrow> nat \<Rightarrow> nat \<Rightarrow> nat \<Rightarrow> nat list" where
  "letter_vars input_first nq first n = map (\<lambda>i. (if input_first then 0 else 2 * nq) + first + i) [0..<n]"

fun make_vars :: "('w, 'b) oxidd \<Rightarrow> nat list \<Rightarrow> (('w, 'z) run_scheme, 'b option list) state" where
  "make_vars B [] = State_Monad.return []"
| "make_vars B (v # vs) = do { x \<leftarrow> ext (ox_var B v); xs \<leftarrow> make_vars B vs; State_Monad.return (x # xs) }"

text \<open>The current and the next variable of a state component are created in turn.\<close>

fun make_pairs :: "('w, 'b) oxidd \<Rightarrow> nat list \<Rightarrow> (('w, 'z) run_scheme, ('b option \<times> 'b option) list) state" where
  "make_pairs B [] = State_Monad.return []"
| "make_pairs B (v # vs) =
     do { x \<leftarrow> ext (ox_var B v); y \<leftarrow> ext (ox_var B (v + 1)); xs \<leftarrow> make_pairs B vs; State_Monad.return ((x, y) # xs) }"

definition make_alphabet :: "('w, 'b) oxidd \<Rightarrow> bool \<Rightarrow> aig \<Rightarrow> aig \<Rightarrow> (('w, 'z) run_scheme, 'b alphabet) state" where
  "make_alphabet B input_first game policy =
     (let n = count_goals game; nq = length (aig_lats game) + n;
          nu = length (uinputs game); nc = length (cinputs game);
          qs = state_vars input_first nq (nu + nc);
          us = letter_vars input_first nq 0 nu; cs = letter_vars input_first nq nu nc in
      do { q \<leftarrow> make_pairs B qs;
           u \<leftarrow> make_vars B us;
           c \<leftarrow> make_vars B cs;
           State_Monad.return \<lparr>al_game = game, al_policy = policy, al_ncounter = n, al_qvar = qs, al_uvar = us,
             al_cvar = cs, al_q = map fst q, al_u = u, al_c = c\<rparr> })"

subsection \<open>The game\<close>

text \<open>The letters of both players in the order of the inputs.\<close>

definition game_letters :: "aig \<Rightarrow> 'a list \<Rightarrow> 'a list \<Rightarrow> 'a list" where
  "game_letters game us cs = map (\<lambda>p.
     let prior = filter (\<lambda>q. is_controllable (input_name game q)) [0..<p] in
     if is_controllable (input_name game p) then cs ! length prior else us ! (p - length prior)) [0..<length (aig_ins game)]"

definition goal_literals :: "aig \<Rightarrow> u32 list" where
  "goal_literals g = concat (map (\<lambda>j. if j_lits j = [] then [AIG_TRUE] else j_lits j) (aig_justs g))"

definition bad_literals :: "aig \<Rightarrow> u32 list" where
  "bad_literals g = (if aig_bads g \<noteq> [] then map n_lit (aig_bads g)
     else if length (aig_outs g) = 1 then [n_lit (aig_outs g ! 0)] else [])"

definition game_root_literals :: "aig \<Rightarrow> u32 list" where
  "game_root_literals g = map lat_next (aig_lats g) @ bad_literals g @ goal_literals g @ map n_lit (aig_fairs g)"

record 'b game_roots =
  gm_next :: "'b option list"
  gm_bad :: "'b option"
  gm_goal :: "'b option list"
  gm_fair :: "'b option list"

fun or_all :: "('w, 'b) oxidd \<Rightarrow> 'b option \<Rightarrow> 'b option list \<Rightarrow> (('w, 'z) run_scheme, 'b option) state" where
  "or_all B bad [] = State_Monad.return bad"
| "or_all B bad (h # hs) =
     do { r \<leftarrow> bdd_or_into B bad h; if r = None then State_Monad.return None else or_all B r hs }"

definition setup_game :: "('w, 'b) oxidd \<Rightarrow> 'w limits \<Rightarrow> 'b alphabet \<Rightarrow> (('w, 'z) run_scheme, 'b game_roots option) state" where
  "setup_game B L A =
     (let g = al_game A; ns = length (aig_lats g); nb = length (bad_literals g); ng = length (goal_literals g) in
      do { roots \<leftarrow> compile_aig_roots B L g (game_letters g (al_u A) (al_c A)) (take ns (al_q A)) (game_root_literals g);
           case roots of None \<Rightarrow> State_Monad.return None
           | Some rs \<Rightarrow>
               let bads = take nb (drop ns rs);
                   result = (\<lambda>bad. Some \<lparr>gm_next = take ns rs, gm_bad = bad, gm_goal = take ng (drop (ns + nb) rs),
                     gm_fair = drop (ns + nb + ng) rs\<rparr>) in
               do { f \<leftarrow> ext (ox_false B);
                    if aig_bads g \<noteq> [] \<or> length (aig_outs g) \<noteq> 1 then
                      do { bad \<leftarrow> or_all B f bads;
                           State_Monad.return (if bads \<noteq> [] \<and> bad = None then None else result bad) }
                    else State_Monad.return (result (bads ! 0)) } })"

subsection \<open>The certificate\<close>

definition find_input :: "aig \<Rightarrow> string option \<Rightarrow> nat option" where
  "find_input g name = find (\<lambda>i. name \<noteq> None \<and> input_name g i = name) [0..<length (aig_ins g)]"

definition certificate_input :: "'b alphabet \<Rightarrow> string option \<Rightarrow> 'b option" where
  "certificate_input A name = (case find_input (al_game A) name of
     Some p \<Rightarrow> game_letters (al_game A) (al_u A) (al_c A) ! p
   | None \<Rightarrow> (case find (\<lambda>j. name = Some (latch_name (al_game A) j)) [0..<nstate A] of
       Some j \<Rightarrow> al_q A ! j | None \<Rightarrow> None))"

definition certificate_output_is_selected :: "string option \<Rightarrow> bool" where
  "certificate_output_is_selected name = (case name of None \<Rightarrow> True | Some n \<Rightarrow> \<not> starts_with ''move_'' n)"

definition selected_outputs :: "aig \<Rightarrow> named list" where
  "selected_outputs cert = filter (\<lambda>o'. certificate_output_is_selected (n_name o')) (aig_outs cert)"

definition compile_certificate_outputs :: "('w, 'b) oxidd \<Rightarrow> 'w limits \<Rightarrow> 'b alphabet \<Rightarrow> aig \<Rightarrow>
    (('w, 'z) run_scheme, 'b option list option) state" where
  "compile_certificate_outputs B L A cert =
     compile_aig_roots B L cert (map (\<lambda>i. certificate_input A (in_name i)) (aig_ins cert)) []
       (map n_lit (selected_outputs cert))"

definition named_root :: "aig \<Rightarrow> 'b option list \<Rightarrow> string \<Rightarrow> 'b option" where
  "named_root cert roots name =
     (case find (\<lambda>(o', r). n_name o' = Some name) (zip (selected_outputs cert) roots) of Some (o', r) \<Rightarrow> r | None \<Rightarrow> None)"

record 'b certificate =
  ce_inv :: "'b option"
  ce_goal :: "'b option list"
  ce_levels :: "nat list"
  ce_y :: "'b option list list"
  ce_x :: "'b option list list list"

definition certificate_roots :: "aig \<Rightarrow> nat \<Rightarrow> nat list \<Rightarrow> 'b option list \<Rightarrow> 'b certificate" where
  "certificate_roots cert nfair_disj levels roots =
     \<lparr>ce_inv = named_root cert roots ''inv'',
      ce_goal = map (\<lambda>j. named_root cert roots (indexed ''goal'' [j])) [0..<length levels],
      ce_levels = levels,
      ce_y = map (\<lambda>j. map (\<lambda>k. named_root cert roots (indexed ''y'' [j, k])) [0..<levels ! j]) [0..<length levels],
      ce_x = map (\<lambda>j. map (\<lambda>k. map (\<lambda>i. named_root cert roots (indexed ''x'' [j, k, i])) [0..<nfair_disj])
        [0..<levels ! j]) [0..<length levels]\<rparr>"

subsection \<open>All of it\<close>

record 'b checker =
  ck_alphabet :: "'b alphabet"
  ck_game :: "'b game_roots"
  ck_cert :: "'b certificate"
  ck_cube :: "'b option"

definition nfair_disj :: "aig \<Rightarrow> nat" where
  "nfair_disj g = (if aig_fairs g = [] then 1 else length (aig_fairs g))"

definition setup_bdds :: "('w, 'b) oxidd \<Rightarrow> 'w limits \<Rightarrow> check_options \<Rightarrow> aig \<Rightarrow> aig \<Rightarrow> aig \<Rightarrow> nat list \<Rightarrow>
    (('w, 'z) run_scheme, ('b checker \<times> 'b policy_cache) option) state" where
  "setup_bdds B L opt game policy cert levels =
     do { A \<leftarrow> make_alphabet B (use_input_first opt policy) game policy;
          g \<leftarrow> setup_game B L A;
          case g of None \<Rightarrow> State_Monad.return None
          | Some gm \<Rightarrow>
              do { (ok, pc) \<leftarrow> (if opt_unspecialized opt then ensure_full_policy B L A empty_cache
                               else State_Monad.return (True, empty_cache));
                   if \<not> ok then State_Monad.return None
                   else do { c \<leftarrow> compile_certificate_outputs B L A cert;
                     case c of None \<Rightarrow> State_Monad.return None
                     | Some roots \<Rightarrow>
                         do { cube \<leftarrow> cube_of B (al_uvar A @ al_cvar A);
                              State_Monad.return (Some (\<lparr>ck_alphabet = A, ck_game = gm,
                                ck_cert = certificate_roots cert (nfair_disj game) levels roots, ck_cube = cube\<rparr>, pc)) } } } }"

end
