(* ===== verification/Gr1_Certificate.thy ===== *)
theory Gr1_Certificate
  imports Gr1_Setup
begin

text \<open>
  \<^verbatim>\<open>check_certificate_mode\<close> of \<^verbatim>\<open>src/lib/gr1_check.c\<close> for the certificate of a system, and the run
  around it.  The certificate and the policy are checked by one-step implications: the predicates of
  the certificate are state predicates, its goals are those of the game, the reset state is in the
  invariant, every invariant state has a rank for every goal, and in every counter mode the policy
  stays safe, keeps the invariant, moves the counter as prescribed and makes progress.  The
  counterexamples, the statistics and the release of diagrams are left out; they do not influence
  the verdict.  The substitutions are lists of pairs.
\<close>

fun map_state :: "('a \<Rightarrow> ('s, 'b) state) \<Rightarrow> 'a list \<Rightarrow> ('s, 'b list) state" where
  "map_state f [] = State_Monad.return []"
| "map_state f (x # xs) = do { y \<leftarrow> f x; ys \<leftarrow> map_state f xs; State_Monad.return (y # ys) }"

text \<open>A predicate that must not be satisfiable.\<close>

definition refute :: "('w, 'b) oxidd \<Rightarrow> 'b option \<Rightarrow> (('w, 'z) run_scheme, check_result) state" where
  "refute B h =
     do { sat \<leftarrow> checked_satisfiable B h;
          if sat then State_Monad.return CHECK_CERT_FAILED
          else do { failed \<leftarrow> get_failed;
                    State_Monad.return (if failed then CHECK_UNKNOWN else CHECK_VERIFIED) } }"

subsection \<open>The predicates of the certificate\<close>

definition check_state_only :: "('w, 'b) oxidd \<Rightarrow> 'b option \<Rightarrow> 'b option \<Rightarrow> (('w, 'z) run_scheme, check_result) state" where
  "check_state_only B cube h =
     do { universal \<leftarrow> ext (ox_forall B h cube);
          if universal = None then do { _ \<leftarrow> fail_bdd; State_Monad.return CHECK_UNKNOWN }
          else do { dependence \<leftarrow> ext (ox_xor B h universal); refute B dependence } }"

text \<open>The layers of a level, with their union.\<close>

fun check_layers :: "('w, 'b) oxidd \<Rightarrow> 'b option \<Rightarrow> 'b option list \<Rightarrow> 'b option \<Rightarrow>
    (('w, 'z) run_scheme, check_result \<times> 'b option) state" where
  "check_layers B cube [] union_x = State_Monad.return (CHECK_VERIFIED, union_x)"
| "check_layers B cube (x # xs) union_x =
     do { r \<leftarrow> check_state_only B cube x;
          if r \<noteq> CHECK_VERIFIED then State_Monad.return (r, union_x)
          else do { u \<leftarrow> bdd_or_into B union_x x;
                    if u = None then State_Monad.return (CHECK_UNKNOWN, u) else check_layers B cube xs u } }"

text \<open>The levels of a goal.\<close>

fun check_levels :: "('w, 'b) oxidd \<Rightarrow> 'b option \<Rightarrow> ('b option \<times> 'b option list) list \<Rightarrow> 'b option \<Rightarrow>
    (('w, 'z) run_scheme, check_result) state" where
  "check_levels B cube [] previous = State_Monad.return CHECK_VERIFIED"
| "check_levels B cube ((y, xs) # ls) previous =
     do { f \<leftarrow> ext (ox_false B);
          (r, union_x) \<leftarrow> check_layers B cube xs f;
          if r \<noteq> CHECK_VERIFIED then State_Monad.return r
          else do { r \<leftarrow> check_state_only B cube y;
            if r \<noteq> CHECK_VERIFIED then State_Monad.return r
            else do { mismatch \<leftarrow> ext (ox_xor B union_x y);
              r \<leftarrow> refute B mismatch;
              if r \<noteq> CHECK_VERIFIED then State_Monad.return r
              else do { not_current \<leftarrow> ext (ox_not B y);
                nonmonotone \<leftarrow> ext (ox_and B previous not_current);
                r \<leftarrow> refute B nonmonotone;
                if r \<noteq> CHECK_VERIFIED then State_Monad.return r
                else check_levels B cube ls union_x } } } }"

definition validate_certificate_predicates :: "('w, 'b) oxidd \<Rightarrow> 'b checker \<Rightarrow> (('w, 'z) run_scheme, check_result) state" where
  "validate_certificate_predicates B ck =
     do { r \<leftarrow> check_state_only B (ck_cube ck) (ce_inv (ck_cert ck));
          if r \<noteq> CHECK_VERIFIED then State_Monad.return r
          else all_verified (\<lambda>(ys, xs). do { f \<leftarrow> ext (ox_false B); check_levels B (ck_cube ck) (zip ys xs) f })
            (zip (ce_y (ck_cert ck)) (ce_x (ck_cert ck))) }"

definition check_goals :: "('w, 'b) oxidd \<Rightarrow> 'b checker \<Rightarrow> (('w, 'z) run_scheme, check_result) state" where
  "check_goals B ck =
     all_verified (\<lambda>(c, g). do { mismatch \<leftarrow> ext (ox_xor B c g); refute B mismatch })
       (zip (ce_goal (ck_cert ck)) (gm_goal (ck_game ck)))"

definition reset_in_predicate :: "('w, 'b) oxidd \<Rightarrow> 'b alphabet \<Rightarrow> 'b option \<Rightarrow> (('w, 'z) run_scheme, bool) state" where
  "reset_in_predicate B A h =
     ext (ox_eval B h (zip (al_qvar A) (map (\<lambda>l. lat_reset l \<noteq> 0) (aig_lats (al_game A)))))"

fun cover :: "('w, 'b) oxidd \<Rightarrow> 'b option \<Rightarrow> 'b option list \<Rightarrow> (('w, 'z) run_scheme, 'b option option) state" where
  "cover B covered [] = State_Monad.return (Some covered)"
| "cover B covered (x # xs) =
     do { c \<leftarrow> bdd_or_into B covered x; if c = None then State_Monad.return None else cover B c xs }"

definition check_coverage :: "('w, 'b) oxidd \<Rightarrow> 'b checker \<Rightarrow> (('w, 'z) run_scheme, check_result) state" where
  "check_coverage B ck =
     all_verified (\<lambda>xs. do { f \<leftarrow> ext (ox_false B);
          c \<leftarrow> cover B f (concat xs);
          case c of None \<Rightarrow> State_Monad.return CHECK_UNKNOWN
          | Some covered \<Rightarrow>
              do { not_covered \<leftarrow> ext (ox_not B covered);
                   missing \<leftarrow> ext (ox_and B (ce_inv (ck_cert ck)) not_covered);
                   refute B missing } }) (ce_x (ck_cert ck))"

subsection \<open>A counter mode\<close>

definition substitute_controls :: "('w, 'b) oxidd \<Rightarrow> 'b alphabet \<Rightarrow> 'b option list \<Rightarrow> 'b option \<Rightarrow>
    (('w, 'z) run_scheme, 'b option) state" where
  "substitute_controls B A control h = ext (ox_substitute B h (zip (al_cvar A) control))"

definition successor :: "('w, 'b) oxidd \<Rightarrow> 'b alphabet \<Rightarrow> 'b option list \<Rightarrow> 'b option \<Rightarrow> (('w, 'z) run_scheme, 'b option) state" where
  "successor B A next h =
     do { r \<leftarrow> ext (ox_substitute B h (zip (take (nstate A) (al_qvar A)) next));
          if r = None then do { _ \<leftarrow> fail_bdd; State_Monad.return r } else State_Monad.return r }"

text \<open>The successors of the fairness predicates and of the lower levels are kept when first used.\<close>

definition kept_successor :: "('w, 'b) oxidd \<Rightarrow> bool \<Rightarrow> 'b alphabet \<Rightarrow> 'b option list \<Rightarrow> 'b option list \<Rightarrow> nat \<Rightarrow> 'b option \<Rightarrow>
    (('w, 'z) run_scheme, 'b option \<times> 'b option list) state" where
  "kept_successor B rebuild A next kept i h =
     (if rebuild then do { r \<leftarrow> successor B A next h; State_Monad.return (r, kept) }
      else if kept ! i = None then do { r \<leftarrow> successor B A next h; State_Monad.return (r, kept[i := r]) }
      else State_Monad.return (kept ! i, kept))"

record 'b mode =
  md_next :: "'b option list"
  md_inv :: "'b option"
  md_next_inv :: "'b option"
  md_goal :: "'b option"
  md_goal_and_inv :: "'b option"
  md_y :: "'b option list"
  md_x :: "'b option list list"

record 'b progress_state =
  pg_violation :: "'b option"
  pg_ranked :: "'b option"
  pg_fair :: "'b option list"
  pg_lower :: "'b option list"

text \<open>The three ways out of a layer: staying while a fairness assumption fails, the goal, a lower level.\<close>

definition fair_escape :: "('w, 'b) oxidd \<Rightarrow> bool \<Rightarrow> 'b alphabet \<Rightarrow> 'b option list \<Rightarrow> 'b mode \<Rightarrow> nat \<Rightarrow> 'b option list \<Rightarrow> 'b option \<Rightarrow>
    (('w, 'z) run_scheme, 'b option \<times> 'b option list) state" where
  "fair_escape B rebuild A fair md i kept allowed =
     (if fair \<noteq> [] then
        do { (fair_next, kept) \<leftarrow> kept_successor B rebuild A (md_next md) kept i (fair ! i);
             not_fair_next \<leftarrow> ext (ox_not B fair_next);
             allowed \<leftarrow> bdd_and_into B allowed not_fair_next;
             State_Monad.return (allowed, kept) }
      else do { f \<leftarrow> ext (ox_false B); State_Monad.return (f, kept) })"

definition goal_escape :: "('w, 'b) oxidd \<Rightarrow> bool \<Rightarrow> 'b alphabet \<Rightarrow> 'b mode \<Rightarrow> (('w, 'z) run_scheme, 'b option) state" where
  "goal_escape B rebuild A md =
     (if rebuild then do { g \<leftarrow> successor B A (md_next md) (md_goal md); bdd_and_into B g (md_next_inv md) }
      else State_Monad.return (md_goal_and_inv md))"

definition lower_escape :: "('w, 'b) oxidd \<Rightarrow> bool \<Rightarrow> 'b alphabet \<Rightarrow> 'b mode \<Rightarrow> nat \<Rightarrow> 'b option list \<Rightarrow> 'b option \<Rightarrow>
    (('w, 'z) run_scheme, 'b option \<times> 'b option list) state" where
  "lower_escape B rebuild A md k kept allowed =
     (if k > 0 then
        do { (lower_next, kept) \<leftarrow> kept_successor B rebuild A (md_next md) kept (k - 1) (md_y md ! (k - 1));
             allowed \<leftarrow> bdd_or_into B allowed lower_next;
             State_Monad.return (allowed, kept) }
      else State_Monad.return (allowed, kept))"

definition check_progress :: "('w, 'b) oxidd \<Rightarrow> bool \<Rightarrow> 'b alphabet \<Rightarrow> 'b option list \<Rightarrow> 'b mode \<Rightarrow> nat \<times> nat \<Rightarrow>
    'b progress_state \<Rightarrow> (('w, 'z) run_scheme, 'b progress_state) state" where
  "check_progress B rebuild A fair md = (\<lambda>(k, i) pg. let x = md_x md ! k ! i in
     do { not_ranked \<leftarrow> ext (ox_not B (pg_ranked pg));
          layer0 \<leftarrow> ext (ox_and B x not_ranked);
          layer \<leftarrow> ext (ox_and B (md_inv md) layer0);
          allowed \<leftarrow> successor B A (md_next md) x;
          (allowed, kept_fair) \<leftarrow> fair_escape B rebuild A fair md i (pg_fair pg) allowed;
          goal_and_inv \<leftarrow> goal_escape B rebuild A md;
          allowed \<leftarrow> bdd_or_into B allowed goal_and_inv;
          (allowed, kept_lower) \<leftarrow> lower_escape B rebuild A md k (pg_lower pg) allowed;
          not_allowed \<leftarrow> ext (ox_not B allowed);
          progress_bad \<leftarrow> ext (ox_and B layer not_allowed);
          violation \<leftarrow> bdd_or_into B (pg_violation pg) progress_bad;
          ranked \<leftarrow> bdd_or_into B (pg_ranked pg) x;
          State_Monad.return \<lparr>pg_violation = violation, pg_ranked = ranked, pg_fair = kept_fair, pg_lower = kept_lower\<rparr> })"

text \<open>The counter moves from the current goal to the next one when the current goal holds.\<close>

definition expected_counter :: "('w, 'b) oxidd \<Rightarrow> 'b option \<Rightarrow> nat \<Rightarrow> nat \<Rightarrow> nat \<Rightarrow> (('w, 'z) run_scheme, 'b option) state" where
  "expected_counter B goal_h n goal q =
     (let next_goal = (goal + 1) mod n in
      if q = goal \<and> q = next_goal then ext (ox_true B)
      else if q = goal then ext (ox_not B goal_h)
      else if q = next_goal then State_Monad.return goal_h
      else ext (ox_false B))"

definition check_counter :: "('w, 'b) oxidd \<Rightarrow> 'b mode \<Rightarrow> nat \<Rightarrow> nat \<Rightarrow> 'b option list \<Rightarrow> nat \<Rightarrow> 'b option \<Rightarrow>
    (('w, 'z) run_scheme, 'b option) state" where
  "check_counter B md n goal counter_next q violation =
     do { expected \<leftarrow> expected_counter B (md_goal md) n goal q;
          differs \<leftarrow> ext (ox_xor B (counter_next ! q) expected);
          relevant \<leftarrow> ext (ox_and B (md_inv md) differs);
          bdd_or_into B violation relevant }"

definition mode_policy :: "('w, 'b) oxidd \<Rightarrow> 'w limits \<Rightarrow> check_options \<Rightarrow> 'b alphabet \<Rightarrow> int \<Rightarrow> 'b option \<Rightarrow> 'b policy_cache \<Rightarrow>
    (('w, 'z) run_scheme, ('b option list \<times> 'b option list) option \<times> 'b policy_cache) state" where
  "mode_policy B L opt A mode counter_cube pc =
     (if opt_unspecialized opt then
        (case pc_full pc of None \<Rightarrow> State_Monad.return (None, pc)
         | Some (cs, ns) \<Rightarrow>
             do { control \<leftarrow> map_state (\<lambda>h. ext (ox_restrict B h counter_cube)) cs;
                  counter_next \<leftarrow> map_state (\<lambda>h. ext (ox_restrict B h counter_cube)) ns;
                  State_Monad.return (Some (control, counter_next), pc) })
      else compile_policy_roots B L A mode True pc)"

definition open_mode :: "('w, 'b) oxidd \<Rightarrow> check_options \<Rightarrow> 'b checker \<Rightarrow> nat \<Rightarrow> 'b option list \<Rightarrow>
    (('w, 'z) run_scheme, 'b mode) state" where
  "open_mode B opt ck goal next =
     (let A = ck_alphabet ck; inv_h = ce_inv (ck_cert ck); goal_h = gm_goal (ck_game ck) ! goal in
      do { next_inv \<leftarrow> successor B A next inv_h;
           goal_and_inv \<leftarrow> (if opt_rebuild opt then State_Monad.return None
             else do { g \<leftarrow> successor B A next goal_h; bdd_and_into B g next_inv });
           State_Monad.return \<lparr>md_next = next, md_inv = inv_h, md_next_inv = next_inv, md_goal = goal_h,
             md_goal_and_inv = goal_and_inv, md_y = ce_y (ck_cert ck) ! goal, md_x = ce_x (ck_cert ck) ! goal\<rparr> })"

definition check_inductive :: "('w, 'b) oxidd \<Rightarrow> 'b mode \<Rightarrow> 'b option \<Rightarrow> (('w, 'z) run_scheme, 'b option) state" where
  "check_inductive B md bad =
     do { violation \<leftarrow> ext (ox_and B (md_inv md) bad);
          not_next_inv \<leftarrow> ext (ox_not B (md_next_inv md));
          leaves \<leftarrow> ext (ox_and B (md_inv md) not_next_inv);
          bdd_or_into B violation leaves }"

definition check_ranks :: "('w, 'b) oxidd \<Rightarrow> check_options \<Rightarrow> 'b checker \<Rightarrow> 'b mode \<Rightarrow> nat \<Rightarrow> 'b option \<Rightarrow>
    (('w, 'z) run_scheme, 'b option) state" where
  "check_ranks B opt ck md levels violation =
     (let fair = gm_fair (ck_game ck); nf = nfair_disj (al_game (ck_alphabet ck)) in
      do { at_goal \<leftarrow> ext (ox_and B (md_inv md) (md_goal md));
           pg \<leftarrow> fold_state (check_progress B (opt_rebuild opt) (ck_alphabet ck) fair md)
             (concat (map (\<lambda>k. map (Pair k) [0..<nf]) [0..<levels]))
             \<lparr>pg_violation = violation, pg_ranked = at_goal, pg_fair = replicate nf None, pg_lower = replicate (levels - 1) None\<rparr>;
           State_Monad.return (pg_violation pg) })"

text \<open>Every way to fail in a mode.\<close>

definition mode_violation :: "('w, 'b) oxidd \<Rightarrow> check_options \<Rightarrow> 'b checker \<Rightarrow> nat \<Rightarrow> 'b option list \<Rightarrow> 'b option list \<Rightarrow>
    (('w, 'z) run_scheme, 'b option) state" where
  "mode_violation B opt ck goal control counter_next =
     (let A = ck_alphabet ck; n = al_ncounter A in
      do { bad \<leftarrow> substitute_controls B A control (gm_bad (ck_game ck));
           next \<leftarrow> map_state (substitute_controls B A control) (gm_next (ck_game ck));
           md \<leftarrow> open_mode B opt ck goal next;
           violation \<leftarrow> check_inductive B md bad;
           violation \<leftarrow> fold_state (check_counter B md n goal counter_next) [0..<n] violation;
           check_ranks B opt ck md (ce_levels (ck_cert ck) ! goal) violation })"

definition goal_of :: "int \<Rightarrow> nat" where
  "goal_of mode = (if mode < 0 then 0 else nat mode)"

definition check_mode :: "('w, 'b) oxidd \<Rightarrow> 'w limits \<Rightarrow> check_options \<Rightarrow> 'b checker \<Rightarrow> int \<Rightarrow> 'b policy_cache \<Rightarrow>
    (('w, 'z) run_scheme, check_result \<times> 'b policy_cache) state" where
  "check_mode B L opt ck mode pc =
     do { counter_cube \<leftarrow> assignment_cube B (ck_alphabet ck) mode;
          (policy, pc) \<leftarrow> mode_policy B L opt (ck_alphabet ck) mode counter_cube pc;
          case policy of None \<Rightarrow> State_Monad.return (CHECK_UNKNOWN, pc)
          | Some (control, counter_next) \<Rightarrow>
              do { violation \<leftarrow> mode_violation B opt ck (goal_of mode) control counter_next;
                   failed \<leftarrow> get_failed;
                   if failed \<or> violation = None then State_Monad.return (CHECK_UNKNOWN, pc)
                   else do { r \<leftarrow> refute B violation;
                     if r \<noteq> CHECK_VERIFIED then State_Monad.return (r, pc)
                     else do { t \<leftarrow> ext (timed_out L);
                       State_Monad.return (if t then CHECK_UNKNOWN else CHECK_VERIFIED, pc) } } } }"

fun check_modes :: "('w, 'b) oxidd \<Rightarrow> 'w limits \<Rightarrow> check_options \<Rightarrow> 'b checker \<Rightarrow> int list \<Rightarrow> 'b policy_cache \<Rightarrow>
    (('w, 'z) run_scheme, check_result) state" where
  "check_modes B L opt ck [] pc = State_Monad.return CHECK_VERIFIED"
| "check_modes B L opt ck (m # ms) pc =
     do { (r, pc) \<leftarrow> check_mode B L opt ck m pc;
          if r \<noteq> CHECK_VERIFIED then State_Monad.return r else check_modes B L opt ck ms pc }"

definition check_certificate_mode :: "('w, 'b) oxidd \<Rightarrow> 'w limits \<Rightarrow> check_options \<Rightarrow> 'b checker \<Rightarrow> 'b policy_cache \<Rightarrow>
    (('w, 'z) run_scheme, check_result) state" where
  "check_certificate_mode B L opt ck pc =
     do { r \<leftarrow> validate_certificate_predicates B ck;
          if r \<noteq> CHECK_VERIFIED then State_Monad.return r
          else do { r \<leftarrow> check_goals B ck;
            if r \<noteq> CHECK_VERIFIED then State_Monad.return r
            else do { initial \<leftarrow> reset_in_predicate B (ck_alphabet ck) (ce_inv (ck_cert ck));
              if \<not> initial then do { failed \<leftarrow> get_failed; State_Monad.return (if failed then CHECK_UNKNOWN else CHECK_CERT_FAILED) }
              else do { r \<leftarrow> check_coverage B ck;
                if r \<noteq> CHECK_VERIFIED then State_Monad.return r
                else check_modes B L opt ck (map (\<lambda>m. int m - 1) [0..<al_ncounter (ck_alphabet ck) + 1]) pc } } } }"

subsection \<open>The run\<close>

definition fresh_run :: "(('w, 'z) run_scheme, unit) state" where
  "fresh_run = State (\<lambda>s. ((), s\<lparr>bdd_failed := False, run_failed := False, built_gates := 0\<rparr>))"

text \<open>The stages up to the construction of diagrams, without the sidecar files.\<close>

definition validate_inputs :: "bool \<Rightarrow> aig \<Rightarrow> aig \<Rightarrow> aig \<Rightarrow> (aig \<times> nat list) option" where
  "validate_inputs sidecars game policy cert =
     (if \<not> (validate_aig_structure game \<and> validate_aig_structure policy \<and> validate_aig_structure cert) then None
      else do { g \<leftarrow> aig_sample_input_dependent_acceptance game;
                if count_goals g = 0 \<or> \<not> validate_game_names g \<or> \<not> sidecars \<or>
                   \<not> validate_policy_interface False g (count_goals g) policy then None
                else do { levels \<leftarrow> validate_certificate_interface g (nfair_disj g) cert; Some (g, levels) } })"

fun check_attempt :: "nat \<Rightarrow> ('w, 'b) oxidd \<Rightarrow> 'w limits \<Rightarrow> check_options \<Rightarrow> aig \<Rightarrow> aig \<Rightarrow> aig \<Rightarrow> nat list \<Rightarrow>
    (('w, 'z) run_scheme, check_result) state" where
  "check_attempt 0 B L opt g policy cert levels = State_Monad.return CHECK_UNKNOWN"
| "check_attempt (Suc retries) B L opt g policy cert levels =
     do { _ \<leftarrow> fresh_run;
          setup \<leftarrow> setup_bdds B L opt g policy cert levels;
          r \<leftarrow> (case setup of None \<Rightarrow> State_Monad.return CHECK_UNKNOWN
               | Some (ck, pc) \<Rightarrow> check_certificate_mode B L opt ck pc);
          stop \<leftarrow> (if speculative_input_first opt policy then ext (timed_out L) else State_Monad.return True);
          if stop \<or> r = CHECK_VERIFIED then State_Monad.return r
          else check_attempt retries B L (opt\<lparr>opt_legacy := True\<rparr>) g policy cert levels }"

definition gr1_check_run :: "('w, 'b) oxidd \<Rightarrow> 'w limits \<Rightarrow> check_options \<Rightarrow> bool \<Rightarrow> aig \<Rightarrow> aig \<Rightarrow> aig \<Rightarrow>
    (('w, 'z) run_scheme, check_result) state" where
  "gr1_check_run B L opt sidecars game policy cert =
     (case validate_inputs sidecars game policy cert of
        None \<Rightarrow> State_Monad.return CHECK_INVALID
      | Some (g, levels) \<Rightarrow> check_attempt 2 B L opt g policy cert levels)"

end
