(* ===== verification/Gr1_Policy_Correct.thy ===== *)
theory Gr1_Policy_Correct
  imports Gr1_Policy
begin

text \<open>
  The diagrams of the policy denote what its graph computes: in every mode, with the caches in any
  state an earlier mode left them in.
\<close>

subsection \<open>What the policy computes\<close>

definition source_value :: "bool list \<Rightarrow> bool list \<Rightarrow> bool list \<Rightarrow> policy_source \<Rightarrow> bool" where
  "source_value st cnt us src = (case src of From_State j \<Rightarrow> st ! j | From_Counter j \<Rightarrow> cnt ! j | From_Input i \<Rightarrow> us ! i)"

definition policy_inputs :: "aig \<Rightarrow> nat \<Rightarrow> aig \<Rightarrow> bool list \<Rightarrow> bool list \<Rightarrow> bool list \<Rightarrow> bool list" where
  "policy_inputs game n policy st cnt us =
     map (\<lambda>i. case policy_source game n (in_name i) of Some src \<Rightarrow> source_value st cnt us src | None \<Rightarrow> False) (aig_ins policy)"

definition policy_leaves :: "aig \<Rightarrow> nat \<Rightarrow> aig \<Rightarrow> bool list \<Rightarrow> bool list \<Rightarrow> bool list \<Rightarrow> valuation" where
  "policy_leaves game n policy st cnt us = leaf_val policy (policy_inputs game n policy st cnt us) []"

definition policy_val :: "aig \<Rightarrow> nat \<Rightarrow> aig \<Rightarrow> bool list \<Rightarrow> bool list \<Rightarrow> bool list \<Rightarrow> u32 \<Rightarrow> bool" where
  "policy_val game n policy st cnt us l = aig_val policy (policy_leaves game n policy st cnt us) l"

text \<open>The counters in a mode; none is set in mode \<open>-1\<close>.\<close>

definition one_hot :: "nat \<Rightarrow> int \<Rightarrow> bool list" where
  "one_hot n mode = map (\<lambda>j. mode = int j) [0..<n]"

subsection \<open>The alphabet\<close>

definition st_of :: "'b alphabet \<Rightarrow> assignment \<Rightarrow> bool list" where
  "st_of A \<rho> = map \<rho> (take (nstate A) (al_qvar A))"

definition cnt_of :: "'b alphabet \<Rightarrow> assignment \<Rightarrow> bool list" where
  "cnt_of A \<rho> = map \<rho> (drop (nstate A) (al_qvar A))"

definition us_of :: "'b alphabet \<Rightarrow> assignment \<Rightarrow> bool list" where
  "us_of A \<rho> = map \<rho> (al_uvar A)"

definition cs_of :: "'b alphabet \<Rightarrow> assignment \<Rightarrow> bool list" where
  "cs_of A \<rho> = map \<rho> (al_cvar A)"

definition projections :: "nat list \<Rightarrow> (assignment \<Rightarrow> bool) list" where
  "projections vs = map (\<lambda>v \<rho>. \<rho> v) vs"

definition alphabet_ok :: "('b \<Rightarrow> assignment \<Rightarrow> bool) \<Rightarrow> nat \<Rightarrow> 'b alphabet \<Rightarrow> bool" where
  "alphabet_ok den vars A \<longleftrightarrow>
     all_mean den (al_q A) (projections (al_qvar A)) \<and> all_mean den (al_u A) (projections (al_uvar A)) \<and>
     all_mean den (al_c A) (projections (al_cvar A)) \<and>
     length (al_qvar A) = nstate A + al_ncounter A \<and> length (al_uvar A) = length (uinputs (al_game A)) \<and>
     length (al_cvar A) = length (cinputs (al_game A)) \<and>
     distinct (al_qvar A @ al_uvar A @ al_cvar A) \<and> set (al_qvar A @ al_uvar A @ al_cvar A) \<subseteq> {..<vars} \<and>
     structured (al_policy A) \<and> aig_lats (al_policy A) = [] \<and> oxidd_max_aig_var (al_policy A) < 2 ^ 31"

lemma all_mean_nth: "all_mean den hs (projections vs) \<Longrightarrow> k < length vs \<Longrightarrow> means den (hs ! k) (\<lambda>\<rho>. \<rho> (vs ! k))"
  by (auto simp: all_mean_def projections_def list_all2_conv_all_nth)

subsection \<open>Inputs of the policy\<close>

lemma find_upt: "find P [0..<n] = Some j \<Longrightarrow> j < n \<and> P j"
  by (auto simp: find_Some_iff)

lemma policy_source_bounds:
  assumes "policy_source game n name = Some src"
  shows "case src of From_State j \<Rightarrow> j < length (aig_lats game) \<and> name = Some (latch_name game j)
    | From_Counter j \<Rightarrow> j < n \<and> name = Some (curr_name j)
    | From_Input i \<Rightarrow> i < length (uinputs game) \<and> name = input_name game (uinputs game ! i)"
  using assms by (auto simp: policy_source_def dest: find_upt split: option.splits)

text \<open>The counters seen by the policy: constants in a mode, variables otherwise.\<close>

definition counters :: "'b alphabet \<Rightarrow> int \<Rightarrow> bool \<Rightarrow> assignment \<Rightarrow> bool list" where
  "counters A mode specialized \<rho> = (if specialized then one_hot (al_ncounter A) mode else cnt_of A \<rho>)"

definition input_value :: "'b alphabet \<Rightarrow> (assignment \<Rightarrow> bool list) \<Rightarrow> aig_in \<Rightarrow> assignment \<Rightarrow> bool" where
  "input_value A C i \<rho> = (case policy_source (al_game A) (al_ncounter A) (in_name i) of
     Some src \<Rightarrow> source_value (st_of A \<rho>) (C \<rho>) (us_of A \<rho>) src | None \<Rightarrow> False)"

abbreviation policy_view :: "'b alphabet \<Rightarrow> (assignment \<Rightarrow> bool list) \<Rightarrow> assignment \<Rightarrow> valuation" where
  "policy_view A C \<rho> \<equiv> policy_leaves (al_game A) (al_ncounter A) (al_policy A) (st_of A \<rho>) (C \<rho>) (us_of A \<rho>)"

lemma leaves_policy: "leaves (al_policy A) (map (input_value A C) (aig_ins (al_policy A))) [] = policy_view A C"
  by (rule ext) (simp add: leaves_def policy_leaves_def policy_inputs_def input_value_def comp_def)

context oxidd_laws
begin

lemma post_source_root:
  assumes A: "alphabet_ok den vars A" and src: "policy_source (al_game A) (al_ncounter A) name = Some src"
    and Q: "\<And>r s'. later s s' \<Longrightarrow>
      means den r (\<lambda>\<rho>. source_value (st_of A \<rho>) (counters A mode spec \<rho>) (us_of A \<rho>) src) \<Longrightarrow> Q r s'"
  shows "post (source_root B A mode spec src) Q s"
proof (cases src)
  case (From_State j)
  have j: "j < nstate A" using policy_source_bounds [OF src] by (simp add: From_State)
  then have "means den (al_q A ! j) (\<lambda>\<rho>. st_of A \<rho> ! j)"
    using all_mean_nth [of den "al_q A" "al_qvar A" j] A by (simp add: alphabet_ok_def st_of_def)
  then show ?thesis using Q [of s "al_q A ! j"]
    by (simp add: source_root_def From_State post_return source_value_def)
next
  case (From_Input j)
  have j: "j < length (uinputs (al_game A))" using policy_source_bounds [OF src] by (simp add: From_Input)
  then have "means den (al_u A ! j) (\<lambda>\<rho>. us_of A \<rho> ! j)"
    using all_mean_nth [of den "al_u A" "al_uvar A" j] A by (simp add: alphabet_ok_def us_of_def)
  then show ?thesis using Q [of s "al_u A ! j"]
    by (simp add: source_root_def From_Input post_return source_value_def)
next
  case (From_Counter j)
  have j: "j < al_ncounter A" using policy_source_bounds [OF src] by (simp add: From_Counter)
  show ?thesis
  proof (cases spec)
    case True
    have v: "source_value (st_of A \<rho>) (counters A mode spec \<rho>) (us_of A \<rho>) src \<longleftrightarrow> mode \<ge> 0 \<and> mode = int j" for \<rho>
      using j by (auto simp: source_value_def From_Counter counters_def True one_hot_def)
    have "post (if mode \<ge> 0 \<and> mode = int j then ext (ox_true B) else ext (ox_false B)) Q s"
    proof (intro post_if post_true post_false Q)
      fix r :: "'b option" assume "mode \<ge> 0 \<and> mode = int j" and r: "means den r (\<lambda>_. True)"
      then show "means den r (\<lambda>\<rho>. source_value (st_of A \<rho>) (counters A mode spec \<rho>) (us_of A \<rho>) src)"
        unfolding v by (auto simp: means_def fun_eq_iff)
    next
      fix r :: "'b option" assume "\<not> (mode \<ge> 0 \<and> mode = int j)" and r: "means den r (\<lambda>_. False)"
      then show "means den r (\<lambda>\<rho>. source_value (st_of A \<rho>) (counters A mode spec \<rho>) (us_of A \<rho>) src)"
        unfolding v by (auto simp: means_def fun_eq_iff)
    qed simp_all
    then show ?thesis by (simp add: source_root_def From_Counter True)
  next
    case False
    have "means den (al_q A ! (nstate A + j)) (\<lambda>\<rho>. cnt_of A \<rho> ! j)"
      using all_mean_nth [of den "al_q A" "al_qvar A" "nstate A + j"] A j by (simp add: alphabet_ok_def cnt_of_def)
    then show ?thesis using Q [of s "al_q A ! (nstate A + j)"]
      by (simp add: source_root_def From_Counter False post_return source_value_def counters_def)
  qed
qed

lemma post_fill_inputs:
  assumes A: "alphabet_ok den vars A"
    and "\<And>r s'. later s s' \<Longrightarrow> (\<And>ins. r = Some ins \<Longrightarrow>
      all_mean den ins (map (input_value A (counters A mode spec)) is)) \<Longrightarrow> Q r s'"
  shows "post (fill_inputs B A mode spec is) Q s"
  using assms(2)
proof (induction "is" arbitrary: s Q)
  case Nil
  show ?case unfolding fill_inputs.simps by (intro post_return Nil.prems) (auto simp: all_mean_def)
next
  case (Cons i js)
  show ?case unfolding fill_inputs.simps
  proof (intro post_option post_bind post_source_root [OF A] Cons.IH post_return Cons.prems)
    fix src and r :: "'b option" and t rs u ins
    assume src: "policy_source (al_game A) (al_ncounter A) (in_name i) = Some src" and l: "later s t" "later t u"
      and r: "means den r (\<lambda>\<rho>. source_value (st_of A \<rho>) (counters A mode spec \<rho>) (us_of A \<rho>) src)"
      and rs: "\<And>ins. rs = Some ins \<Longrightarrow> all_mean den ins (map (input_value A (counters A mode spec)) js)"
    show "later s u" using l by (rule later_trans)
    have "input_value A (counters A mode spec) i = (\<lambda>\<rho>. source_value (st_of A \<rho>) (counters A mode spec \<rho>) (us_of A \<rho>) src)"
      by (rule ext) (simp add: input_value_def src)
    then have "means den r (input_value A (counters A mode spec) i)" using r by simp
    moreover assume "map_option ((#) r) rs = Some ins"
    ultimately show "all_mean den ins (map (input_value A (counters A mode spec)) (i # js))"
      using rs by (auto simp: all_mean_def)
  qed simp_all
qed

lemma post_fill_policy:
  assumes "alphabet_ok den vars A"
    and "\<And>r s'. later s s' \<Longrightarrow> (\<And>ins. r = Some ins \<Longrightarrow>
      all_mean den ins (map (input_value A (counters A mode spec)) (aig_ins (al_policy A)))) \<Longrightarrow> Q r s'"
  shows "post (fill_policy_inputs B A mode spec) Q s"
  unfolding fill_policy_inputs_def by (rule post_fill_inputs [OF assms(1)]) (rule assms(2))

end

subsection \<open>Gates that do not depend on the counter\<close>

lemma counter_marks_iff:
  "counter_marks policy n v \<longleftrightarrow> (\<exists>i\<in>set (aig_ins policy). unat (in_var i) = v \<and> (\<exists>j<n. in_name i = Some (curr_name j)))"
proof -
  have f: "foldl (\<lambda>d i. if list_ex (\<lambda>j. in_name i = Some (curr_name j)) [0..<n] then d(unat (in_var i) := True) else d) d is v \<longleftrightarrow>
    d v \<or> (\<exists>i\<in>set is. unat (in_var i) = v \<and> (\<exists>j<n. in_name i = Some (curr_name j)))" for d :: "nat \<Rightarrow> bool" and "is"
    by (induction "is" arbitrary: d) (auto simp: list_ex_iff)
  show ?thesis unfolding counter_marks_def f by simp
qed

lemma mark_dependent_ok:
  "mark_dependent m as d = Some d' \<Longrightarrow> (\<And>v. \<not> d v \<Longrightarrow> \<rho> v = \<sigma> v) \<Longrightarrow> \<not> d' v \<Longrightarrow>
   run_gates as \<rho> v = run_gates as \<sigma> v"
proof (induction as arbitrary: d \<rho> \<sigma>)
  case (Cons a as)
  let ?d = "d(unat (g_var a) := d (var_of (g_r0 a)) \<or> d (var_of (g_r1 a)))"
  have m: "mark_dependent m as ?d = Some d'" using Cons.prems(1) by (auto split: if_splits)
  have l: "\<not> d (var_of l) \<Longrightarrow> lit_val \<rho> l = lit_val \<sigma> l" for l using Cons.prems(2) by (simp add: lit_val_def)
  show ?case unfolding run_gates.simps
    by (rule Cons.IH [OF m _ Cons.prems(3)]) (use Cons.prems(2) l in \<open>auto split: if_splits\<close>)
qed simp

lemma leaf_val_differ:
  assumes "length is = length (leaf_vars g)" and "length js = length (leaf_vars g)"
    and "\<And>k. k < length (leaf_vars g) \<Longrightarrow> leaf_vars g ! k = v \<Longrightarrow> is ! k = js ! k"
  shows "leaf_val g is [] v = leaf_val g js [] v"
proof -
  have "map_of (zip vs xs) v = map_of (zip vs ys) v" if "length xs = length vs" "length ys = length vs"
    "\<And>k. k < length vs \<Longrightarrow> vs ! k = v \<Longrightarrow> xs ! k = ys ! k" for vs and xs ys :: "bool list"
    using that
  proof (induction vs arbitrary: xs ys)
    case (Cons w vs)
    then obtain x xs' y ys' where c: "xs = x # xs'" "ys = y # ys'" by (metis Suc_length_conv length_Cons)
    have "map_of (zip vs xs') v = map_of (zip vs ys') v"
      by (rule Cons.IH) (use Cons.prems(1,2) Cons.prems(3) [of "Suc _"] in \<open>auto simp: c\<close>)
    then show ?case using Cons.prems(3) [of 0] by (simp add: c)
  qed simp
  from this [of "is" "leaf_vars g" js] assms show ?thesis by (simp add: leaf_val_def)
qed

text \<open>The counters only reach the marked inputs.\<close>

lemma policy_leaves_counter:
  assumes "aig_lats policy = []" and "\<not> counter_marks policy n v"
  shows "policy_leaves game n policy st cnt us v = policy_leaves game n policy st cnt' us v"
  unfolding policy_leaves_def
proof (rule leaf_val_differ)
  fix k assume k: "k < length (leaf_vars policy)" "leaf_vars policy ! k = v"
  let ?i = "aig_ins policy ! k"
  have i: "k < length (aig_ins policy)" "unat (in_var ?i) = v" using k assms(1) by (simp_all add: leaf_vars_def)
  have "source_value st cnt us src = source_value st cnt' us src" if "policy_source game n (in_name ?i) = Some src" for src
  proof (cases src)
    case (From_Counter j)
    then have "j < n \<and> in_name ?i = Some (curr_name j)" using policy_source_bounds [OF that] by simp
    moreover have "?i \<in> set (aig_ins policy)" using i(1) by simp
    ultimately have "counter_marks policy n v" unfolding counter_marks_iff using i(2) by blast
    with assms(2) show ?thesis by simp
  qed (simp_all add: source_value_def)
  then show "policy_inputs game n policy st cnt us ! k = policy_inputs game n policy st cnt' us ! k"
    using i(1) by (simp add: policy_inputs_def split: option.splits)
qed (simp_all add: policy_inputs_def leaf_vars_def assms(1))

lemma need_operand_cached:
  "snd (need_operand dep g l nc) v \<Longrightarrow> snd nc v \<or> \<not> dep v"
  by (auto simp: need_operand_def split_beta split: if_splits)

lemma mark_needed_cached: "snd (mark_needed dep g as nc) v \<Longrightarrow> snd nc v \<or> \<not> dep v"
proof (induction as arbitrary: nc)
  case (Cons a as)
  from Cons.IH [OF Cons.prems [unfolded mark_needed.simps Let_def]] show ?case
    using need_operand_cached [of dep g "g_r1 a" "need_operand dep g (g_r0 a) nc" v]
      need_operand_cached [of dep g "g_r0 a" nc v] by (auto split: if_splits)
qed simp

text \<open>A cached variable has the same value whatever the counters.\<close>

lemma policy_cones_ok:
  assumes "policy_cones game n policy = Some (vs, k)" and "aig_lats policy = []" and "v \<in> set vs"
  shows "run_gates (aig_ands policy) (policy_leaves game n policy st cnt us) v =
    run_gates (aig_ands policy) (policy_leaves game n policy st cnt' us) v"
    and "0 < v" "v \<le> oxidd_max_aig_var policy"
proof -
  let ?m = "oxidd_max_aig_var policy" and ?as = "aig_ands policy"
  obtain sel dep where d: "mark_dependent ?m ?as (counter_marks policy n) = Some dep"
    and vs: "vs = filter (snd (mark_needed dep (\<lambda>v. list_ex (\<lambda>a. unat (g_var a) = v) ?as) (rev ?as)
      (\<lambda>v. list_ex (\<lambda>l. l > 1 \<and> var_of l = v) sel, \<lambda>_. False))) [1..<Suc ?m]"
    using assms(1) by (auto simp: policy_cones_def Let_def split_beta simp del: upt_Suc One_nat_def split: if_splits bind_splits)
  have n: "\<not> dep v" using assms(3) unfolding vs by (auto dest: mark_needed_cached)
  show "run_gates ?as (policy_leaves game n policy st cnt us) v = run_gates ?as (policy_leaves game n policy st cnt' us) v"
    by (rule mark_dependent_ok [OF d policy_leaves_counter [OF assms(2)] n])
  show "0 < v" "v \<le> ?m" using assms(3) unfolding vs by auto
qed

subsection \<open>The caches\<close>

definition outputs_mean :: "('b \<Rightarrow> assignment \<Rightarrow> bool) \<Rightarrow> 'b alphabet \<Rightarrow> (assignment \<Rightarrow> bool list) \<Rightarrow>
    'b option list \<times> 'b option list \<Rightarrow> bool" where
  "outputs_mean den A C cn \<longleftrightarrow> length (fst cn) = length (cinputs (al_game A)) \<and>
     (\<exists>lits. policy_root_literals (al_game A) (al_ncounter A) (al_policy A) = Some lits \<and>
       roots_mean den (al_policy A) (policy_view A C) (fst cn @ snd cn) lits)"

definition seeds_ok :: "('b \<Rightarrow> assignment \<Rightarrow> bool) \<Rightarrow> 'b alphabet \<Rightarrow> (assignment \<Rightarrow> bool list) \<Rightarrow> (nat \<times> 'b option) list \<Rightarrow> bool" where
  "seeds_ok den A C seeds \<longleftrightarrow>
     (\<forall>(v, b)\<in>set seeds. means den b (\<lambda>\<rho>. run_gates (aig_ands (al_policy A)) (policy_view A C \<rho>) v))"

definition cache_ok :: "('b \<Rightarrow> assignment \<Rightarrow> bool) \<Rightarrow> 'b alphabet \<Rightarrow> 'b policy_cache \<Rightarrow> bool" where
  "cache_ok den A pc \<longleftrightarrow> (\<forall>seeds C. pc_independent pc = Some seeds \<longrightarrow> seeds_ok den A C seeds) \<and>
     (\<forall>cn. pc_modes pc = Some cn \<longrightarrow> outputs_mean den A (cnt_of A) cn) \<and>
     (\<forall>cn. pc_full pc = Some cn \<longrightarrow> outputs_mean den A (cnt_of A) cn)"

lemma cache_ok_empty [simp]: "cache_ok den A empty_cache"
  by (simp add: cache_ok_def empty_cache_def)

lemma cache_seeds:
  assumes "cache_ok den A pc"
  shows "seeds_ok den A C (case pc_independent pc of None \<Rightarrow> [] | Some seeds \<Rightarrow> seeds)"
proof (cases "pc_independent pc")
  case None
  then show ?thesis by (simp add: seeds_ok_def)
next
  case (Some seeds)
  with assms show ?thesis by (simp add: cache_ok_def)
qed

lemma traverse_length: "traverse f xs = Some ys \<Longrightarrow> length ys = length xs"
  by (induction xs arbitrary: ys) (auto split: bind_splits)

lemma policy_root_literals_length:
  "policy_root_literals game n policy = Some lits \<Longrightarrow> length lits = length (cinputs game) + n"
  unfolding policy_root_literals_def by (drule traverse_length) simp

lemma roots_mean_length: "roots_mean den g L rs lits \<Longrightarrow> length rs = length lits"
  unfolding roots_mean_def by (rule list_all2_lengthD)

lemma outputs_mean_split:
  assumes "policy_root_literals (al_game A) (al_ncounter A) (al_policy A) = Some lits"
    and "roots_mean den (al_policy A) (policy_view A C) rs lits"
  shows "outputs_mean den A C (split_roots A rs)"
  using assms policy_root_literals_length [OF assms(1)] roots_mean_length [OF assms(2)]
  by (auto simp: outputs_mean_def split_roots_def)

context oxidd_laws
begin

lemma post_policy_roots:
  assumes A: "alphabet_ok den vars A" and seeds: "seeds_ok den A (counters A mode spec) seeds"
    and Q: "\<And>r s'. later s s' \<Longrightarrow> (\<And>cn. r = Some cn \<Longrightarrow> outputs_mean den A (counters A mode spec) cn) \<Longrightarrow> Q r s'"
  shows "post (policy_roots B K A mode spec seeds) Q s"
  unfolding policy_roots_def
proof (intro post_bind post_fill_policy [OF A])
  fix inputs t
  assume l: "later s t" and ins: "\<And>ins. inputs = Some ins \<Longrightarrow>
    all_mean den ins (map (input_value A (counters A mode spec)) (aig_ins (al_policy A)))"
  let ?r = "do { ins \<leftarrow> inputs; lits \<leftarrow> policy_root_literals (al_game A) (al_ncounter A) (al_policy A); Some (ins, lits) }"
  show "post (case ?r of None \<Rightarrow> State_Monad.return None
    | Some (ins, lits) \<Rightarrow> do { rs \<leftarrow> compile_aig_roots_seeded B K (al_policy A) ins [] seeds lits;
        State_Monad.return (map_option (split_roots A) rs) }) Q t"
  proof (cases ?r)
    case None
    have "Q None t" by (rule Q [OF l]) simp
    then show ?thesis using None by (simp add: post_return)
  next
    case (Some il)
    then obtain is' lits where il: "il = (is', lits)" "inputs = Some is'"
      "policy_root_literals (al_game A) (al_ncounter A) (al_policy A) = Some lits" by (auto split: bind_splits)
    note m = ins [OF il(2)]
    have len: "length is' = length (aig_ins (al_policy A))" using list_all2_lengthD [OF m [unfolded all_mean_def]] by simp
    have g: "structured (al_policy A)" "length ([] :: 'b option list) = length (aig_lats (al_policy A))"
      using A by (simp_all add: alphabet_ok_def)
    have "post (do { rs \<leftarrow> compile_aig_roots_seeded B K (al_policy A) is' [] seeds lits;
        State_Monad.return (map_option (split_roots A) rs) }) Q t"
    proof (intro post_bind post_compile_roots [OF g(1) len g(2) m, where Ls = "[]"] post_return, unfold leaves_policy)
      show "all_mean den [] []" by (simp add: all_mean_def)
      show "\<forall>(v, b)\<in>set seeds. means den b (\<lambda>\<rho>. run_gates (aig_ands (al_policy A)) (policy_view A (counters A mode spec) \<rho>) v)"
        using seeds by (simp add: seeds_ok_def)
      fix r u assume u: "later t u"
        and r: "\<And>rs. r = Some rs \<Longrightarrow> roots_mean den (al_policy A) (policy_view A (counters A mode spec)) rs lits"
      show "Q (map_option (split_roots A) r) u"
      proof (rule Q [OF later_trans [OF l u]])
        fix cn assume "map_option (split_roots A) r = Some cn"
        then obtain rs where "r = Some rs" "cn = split_roots A rs" by (auto simp del: split_paired_Ex)
        then show "outputs_mean den A (counters A mode spec) cn" using outputs_mean_split [OF il(3) r] by simp
      qed
    qed
    then show ?thesis using Some by (simp add: il(1))
  qed
qed

lemma post_cube_literals:
  assumes A: "alphabet_ok den vars A"
  shows "set js \<subseteq> {..<al_ncounter A} \<Longrightarrow> means den c P \<Longrightarrow>
    (\<And>r s'. later s s' \<Longrightarrow> means den r (\<lambda>\<rho>. P \<rho> \<and> (\<forall>j\<in>set js. \<rho> (al_qvar A ! (nstate A + j)) = (mode = int j))) \<Longrightarrow> Q r s') \<Longrightarrow>
    post (cube_literals B A mode js c) Q s"
proof (induction js arbitrary: c P s)
  case Nil
  then show ?case by (simp add: post_return)
next
  case (Cons j js)
  let ?v = "al_qvar A ! (nstate A + j)"
  have q: "means den (al_q A ! (nstate A + j)) (\<lambda>\<rho>. \<rho> ?v)"
    using all_mean_nth [of den "al_q A" "al_qvar A" "nstate A + j"] A Cons.prems(1) by (simp add: alphabet_ok_def)
  have rest: "post (do { c \<leftarrow> ext (ox_and B c lit); cube_literals B A mode js c }) Q t"
    if "later s t" "means den lit (\<lambda>\<rho>. \<rho> ?v = (mode = int j))" for lit t
  proof (intro post_bind post_and [OF Cons.prems(2) that(2)])
    fix d u assume u: "later t u" "means den d (\<lambda>\<rho>. P \<rho> \<and> \<rho> ?v = (mode = int j))"
    show "post (cube_literals B A mode js d) Q u"
    proof (rule Cons.IH [OF _ u(2)])
      fix r s' assume r: "later u s'"
        "means den r (\<lambda>\<rho>. (P \<rho> \<and> \<rho> ?v = (mode = int j)) \<and> (\<forall>j\<in>set js. \<rho> (al_qvar A ! (nstate A + j)) = (mode = int j)))"
      show "Q r s'"
        by (rule Cons.prems(3)) (use that(1) u(1) r(1) later_trans in blast, rule means_cong [OF r(2)], auto)
    qed (use Cons.prems(1) in simp)
  qed
  show ?case unfolding cube_literals.simps
  proof (rule post_bind, intro post_if post_return post_not [OF q])
    assume "mode \<ge> 0 \<and> mode = int j"
    then show "post (do { c \<leftarrow> ext (ox_and B c (al_q A ! (nstate A + j))); cube_literals B A mode js c }) Q s"
      by (intro rest later_refl means_cong [OF q]) simp
  next
    fix r t assume "\<not> (mode \<ge> 0 \<and> mode = int j)" and t: "later s t" and r: "means den r (\<lambda>\<rho>. \<not> \<rho> ?v)"
    then show "post (do { c \<leftarrow> ext (ox_and B c r); cube_literals B A mode js c }) Q t"
      by (intro rest t means_cong [OF r]) auto
  qed
qed

lemma post_assignment_cube:
  assumes A: "alphabet_ok den vars A"
    and Q: "\<And>r s'. later s s' \<Longrightarrow>
      means den r (\<lambda>\<rho>. \<forall>j<al_ncounter A. \<rho> (al_qvar A ! (nstate A + j)) = (mode = int j)) \<Longrightarrow> Q r s'"
  shows "post (assignment_cube B A mode) Q s"
  unfolding assignment_cube_def
proof (intro post_bind post_true post_cube_literals [OF A])
  fix t u r and c :: "'b option"
  assume l: "later s t" "later t u"
    and r: "means den r (\<lambda>\<rho>. True \<and> (\<forall>j\<in>set [0..<al_ncounter A]. \<rho> (al_qvar A ! (nstate A + j)) = (mode = int j)))"
  show "Q r u" by (rule Q [OF later_trans [OF l]]) (rule means_cong [OF r], auto)
qed auto

text \<open>Restriction to the cube of a mode fixes the counters and nothing else.\<close>

definition in_mode :: "'b alphabet \<Rightarrow> int \<Rightarrow> assignment \<Rightarrow> assignment" where
  "in_mode A mode \<rho> = (\<lambda>v. if v \<in> set (drop (nstate A) (al_qvar A))
     then \<exists>j<al_ncounter A. v = al_qvar A ! (nstate A + j) \<and> mode = int j else \<rho> v)"

lemma in_mode_view:
  assumes A: "alphabet_ok den vars A"
  shows "policy_view A (cnt_of A) (in_mode A mode \<rho>) = policy_view A (\<lambda>_. one_hot (al_ncounter A) mode) \<rho>"
proof -
  let ?n = "al_ncounter A" and ?q = "al_qvar A" and ?s = "nstate A"
  have len: "length ?q = ?s + ?n" and d: "distinct (?q @ al_uvar A @ al_cvar A)" using A by (simp_all add: alphabet_ok_def)
  have dq: "distinct (take ?s ?q @ drop ?s ?q)" using d by simp
  have other: "in_mode A mode \<rho> v = \<rho> v" if "v \<in> set (take ?s ?q) \<union> set (al_uvar A)" for v
    using that dq d in_set_dropD [of v ?s ?q] unfolding distinct_append by (auto simp: in_mode_def)
  have "in_mode A mode \<rho> (?q ! (?s + j)) = (mode = int j)" if j: "j < ?n" for j
  proof -
    have "?q ! (?s + j) = drop ?s ?q ! j" using len by simp
    moreover have "j < length (drop ?s ?q)" using j len by simp
    ultimately have "?q ! (?s + j) \<in> set (drop ?s ?q)" by (simp only: nth_mem)
    moreover have "?q ! (?s + j) = ?q ! (?s + i) \<longleftrightarrow> i = j" if "i < ?n" for i
      using d len j that by (auto simp: nth_eq_iff_index_eq)
    ultimately show ?thesis using j by (auto simp: in_mode_def)
  qed
  then have "cnt_of A (in_mode A mode \<rho>) = one_hot ?n mode"
    using len by (intro nth_equalityI) (simp_all add: cnt_of_def one_hot_def)
  moreover have "st_of A (in_mode A mode \<rho>) = st_of A \<rho>" "us_of A (in_mode A mode \<rho>) = us_of A \<rho>"
    using other by (simp_all add: st_of_def us_of_def)
  ultimately show ?thesis by simp
qed

lemma mode_cube:
  assumes A: "alphabet_ok den vars A"
    and cube: "means den cube (\<lambda>\<rho>. \<forall>j<al_ncounter A. \<rho> (al_qvar A ! (nstate A + j)) = (mode = int j))"
  shows "means den cube (\<lambda>\<rho>. \<forall>v\<in>set (drop (nstate A) (al_qvar A)).
    \<rho> v = (\<exists>j<al_ncounter A. v = al_qvar A ! (nstate A + j) \<and> mode = int j))"
proof (rule means_cong [OF cube])
  fix \<rho>
  have len: "length (al_qvar A) = nstate A + al_ncounter A" and d: "distinct (al_qvar A)"
    using A by (simp_all add: alphabet_ok_def)
  have V: "set (drop (nstate A) (al_qvar A)) = (\<lambda>j. al_qvar A ! (nstate A + j)) ` {..<al_ncounter A}"
    using len by (auto simp: set_conv_nth image_def)
  have inj: "al_qvar A ! (nstate A + j) = al_qvar A ! (nstate A + i) \<longleftrightarrow> i = j"
    if "j < al_ncounter A" "i < al_ncounter A" for i j
    using d len that by (auto simp: nth_eq_iff_index_eq)
  show "(\<forall>j<al_ncounter A. \<rho> (al_qvar A ! (nstate A + j)) = (mode = int j)) =
    (\<forall>v\<in>set (drop (nstate A) (al_qvar A)). \<rho> v = (\<exists>j<al_ncounter A. v = al_qvar A ! (nstate A + j) \<and> mode = int j))"
    using inj by (auto simp: V)
qed

lemma post_specialize_all:
  assumes A: "alphabet_ok den vars A"
    and cube: "means den cube (\<lambda>\<rho>. \<forall>j<al_ncounter A. \<rho> (al_qvar A ! (nstate A + j)) = (mode = int j))"
  shows "roots_mean den g L hs lits \<Longrightarrow>
    (\<And>r s'. later s s' \<Longrightarrow> (\<And>rs. r = Some rs \<Longrightarrow> roots_mean den g (\<lambda>\<rho>. L (in_mode A mode \<rho>)) rs lits) \<Longrightarrow> Q r s') \<Longrightarrow>
    post (specialize_all B cube hs) Q s"
proof (induction hs arbitrary: lits s Q)
  case Nil
  show ?case unfolding specialize_all.simps
    by (intro post_return Nil.prems(2)) (use Nil.prems(1) in \<open>auto simp: roots_mean_def\<close>)
next
  case (Cons h hs)
  let ?V = "set (drop (nstate A) (al_qvar A))"
  let ?\<tau> = "\<lambda>v. \<exists>j<al_ncounter A. v = al_qvar A ! (nstate A + j) \<and> mode = int j"
  obtain l ls where ls: "lits = l # ls" "means den h (\<lambda>\<rho>. aig_val g (L \<rho>) l)" "roots_mean den g L hs ls"
    using Cons.prems(1) by (auto simp: roots_mean_def list_all2_Cons1)
  note c = mode_cube [OF A cube]
  show ?case unfolding specialize_all.simps
  proof (intro post_bind post_restrict [OF ls(2) c] post_if post_return)
    fix r t assume l: "later s t" and r: "means den r (\<lambda>\<rho>. aig_val g (L (\<lambda>v. if v \<in> ?V then ?\<tau> v else \<rho> v)) l)"
    show "Q None t" by (rule Cons.prems(2) [OF l]) simp
    assume ne: "r \<noteq> None"
    show "post (specialize_all B cube hs) (\<lambda>rs. post (State_Monad.return (map_option ((#) r) rs)) Q) t"
    proof (rule Cons.IH [OF ls(3)], intro post_return Cons.prems(2))
      fix rs u ts assume u: "later t u"
        and rs: "\<And>ts. rs = Some ts \<Longrightarrow> roots_mean den g (\<lambda>\<rho>. L (in_mode A mode \<rho>)) ts ls"
      show "later s u" using l u by (rule later_trans)
      have r: "means den r (\<lambda>\<rho>. aig_val g (L (in_mode A mode \<rho>)) l)" using r unfolding in_mode_def .
      assume "map_option ((#) r) rs = Some ts"
      then show "roots_mean den g (\<lambda>\<rho>. L (in_mode A mode \<rho>)) ts lits"
        using rs r ne by (auto simp: roots_mean_def ls(1))
    qed
  qed simp
qed

lemma post_restrict_modes:
  assumes A: "alphabet_ok den vars A" and m: "outputs_mean den A (cnt_of A) modes"
    and Q: "\<And>r s'. later s s' \<Longrightarrow>
      (\<And>cn. r = Some cn \<Longrightarrow> outputs_mean den A (\<lambda>_. one_hot (al_ncounter A) mode) cn) \<Longrightarrow> Q r s'"
  shows "post (restrict_modes B A mode modes) Q s"
proof -
  obtain lits where lits: "policy_root_literals (al_game A) (al_ncounter A) (al_policy A) = Some lits"
    and roots: "roots_mean den (al_policy A) (policy_view A (cnt_of A)) (fst modes @ snd modes) lits"
    using m unfolding outputs_mean_def by blast
  have none: "Q None (t\<lparr>bdd_failed := True\<rparr>)" if "later s t" for t by (rule Q) (use that in auto)
  show ?thesis unfolding restrict_modes_def
  proof (rule post_bind, rule post_assignment_cube [OF A], intro post_bind post_if post_return post_fail)
    fix cube t
    assume l: "later s t" and c: "means den cube (\<lambda>\<rho>. \<forall>j<al_ncounter A. \<rho> (al_qvar A ! (nstate A + j)) = (mode = int j))"
    show "Q None (t\<lparr>bdd_failed := True\<rparr>)" by (rule none [OF l])
    show "Q (map_option (split_roots A) None) t" if "None \<noteq> None" using that by simp
    show "post (specialize_all B cube (fst modes @ snd modes)) (\<lambda>r. post (if r = None then do { _ \<leftarrow> fail_bdd; State_Monad.return None }
      else State_Monad.return (map_option (split_roots A) r)) Q) t"
    proof (rule post_specialize_all [OF A c roots], intro post_if post_bind post_fail post_return)
      fix r u assume u: "later t u"
        and r: "\<And>rs. r = Some rs \<Longrightarrow> roots_mean den (al_policy A) (\<lambda>\<rho>. policy_view A (cnt_of A) (in_mode A mode \<rho>)) rs lits"
      show "Q None (u\<lparr>bdd_failed := True\<rparr>)" by (rule none [OF later_trans [OF l u]])
      show "Q (map_option (split_roots A) r) u"
      proof (rule Q [OF later_trans [OF l u]])
        fix cn assume "map_option (split_roots A) r = Some cn"
        then obtain rs where rs: "r = Some rs" "cn = split_roots A rs" by (auto simp del: split_paired_Ex)
        show "outputs_mean den A (\<lambda>_. one_hot (al_ncounter A) mode) cn"
          unfolding rs(2) by (rule outputs_mean_split [OF lits]) (use r [OF rs(1)] in \<open>simp only: in_mode_view [OF A]\<close>)
      qed
    qed
  qed
qed

lemma independent_seeds:
  assumes A: "alphabet_ok den vars A"
    and cones: "policy_cones (al_game A) (al_ncounter A) (al_policy A) = Some (vs, k)"
    and r: "roots_mean den (al_policy A) (policy_view A C) rs (map (\<lambda>v. of_nat (2 * v)) vs)"
  shows "seeds_ok den A D (zip vs rs)"
  unfolding seeds_ok_def
proof (intro ballI, clarify)
  fix v b assume vb: "(v, b) \<in> set (zip vs rs)"
  then have v: "v \<in> set vs" by (auto dest: set_zip_leftD)
  have lat: "aig_lats (al_policy A) = []" using A by (simp add: alphabet_ok_def)
  note ok = policy_cones_ok [OF cones lat v]
  have "2 * v < 2 ^ 32" using ok(3) A by (simp add: alphabet_ok_def)
  then have u: "unat (of_nat (2 * v) :: u32) = 2 * v" by (simp only: unat_of_nat) simp
  obtain i where i: "i < length vs" "v = vs ! i" "b = rs ! i" using vb by (auto simp: in_set_zip)
  then have "means den b (\<lambda>\<rho>. aig_val (al_policy A) (policy_view A C \<rho>) (of_nat (2 * v)))"
    using r by (auto simp: roots_mean_def list_all2_conv_all_nth)
  then show "means den b (\<lambda>\<rho>. run_gates (aig_ands (al_policy A)) (policy_view A D \<rho>) v)"
  proof (rule means_cong)
    fix \<rho>
    show "aig_val (al_policy A) (policy_view A C \<rho>) (of_nat (2 * v)) = run_gates (aig_ands (al_policy A)) (policy_view A D \<rho>) v"
      unfolding aig_val_def lit_val_def u using ok(2) ok(1) [of "st_of A \<rho>" "C \<rho>" "us_of A \<rho>" "D \<rho>"] by simp
  qed
qed

lemma post_independent_roots:
  assumes A: "alphabet_ok den vars A"
    and Q: "\<And>r s'. later s s' \<Longrightarrow> (\<And>rs. fst r = Some rs \<Longrightarrow>
      roots_mean den (al_policy A) (policy_view A (counters A (- 1) True)) rs (map (\<lambda>v. of_nat (2 * v)) vs)) \<Longrightarrow> Q r s'"
  shows "post (independent_roots B K A vs) Q s"
  unfolding independent_roots_def
proof (intro post_bind post_fill_policy [OF A] post_count post_option post_if post_return)
  have g: "structured (al_policy A)" "length ([] :: 'b option list) = length (aig_lats (al_policy A))"
    using A by (simp_all add: alphabet_ok_def)
  fix inputs t assume l: "later s t" and ins: "\<And>ins. inputs = Some ins \<Longrightarrow>
    all_mean den ins (map (input_value A (counters A (- 1) True)) (aig_ins (al_policy A)))"
  show "Q (None, built_gates t - built_gates t) t" by (rule Q [OF l]) simp
  fix is' assume i: "inputs = Some is'"
  show "Q (Some [], built_gates t - built_gates t) t" if "vs = []"
    by (rule Q [OF l]) (use that in \<open>simp add: roots_mean_def\<close>)
  note m = ins [OF i]
  have len: "length is' = length (aig_ins (al_policy A))" using list_all2_lengthD [OF m [unfolded all_mean_def]] by simp
  show "post (compile_aig_roots B K (al_policy A) is' [] (map (\<lambda>v. of_nat (2 * v)) vs))
    (\<lambda>roots. post (do { after \<leftarrow> get_built; State_Monad.return (roots, after - built_gates t) }) Q) t"
    unfolding compile_aig_roots_def
  proof (intro post_compile_roots [OF g(1) len g(2) m, where Ls = "[]"] post_bind post_count post_return, unfold leaves_policy)
    show "all_mean den [] []" by (simp add: all_mean_def)
    fix r u assume "later t u" and r: "\<And>rs. r = Some rs \<Longrightarrow>
      roots_mean den (al_policy A) (policy_view A (counters A (- 1) True)) rs (map (\<lambda>v. of_nat (2 * v)) vs)"
    show "Q (r, built_gates u - built_gates t) u" by (rule Q [OF later_trans [OF l \<open>later t u\<close>]]) (use r in simp)
  qed simp
qed

lemma post_prepare_independent:
  assumes A: "alphabet_ok den vars A" and pc: "cache_ok den A pc"
    and Q: "\<And>ok pc' s'. later s s' \<Longrightarrow> cache_ok den A pc' \<Longrightarrow> Q (ok, pc') s'"
  shows "post (prepare_policy_independent B K A pc) Q s"
proof (cases "policy_cones (al_game A) (al_ncounter A) (al_policy A)")
  case None
  then show ?thesis using Q [OF later_refl pc] by (simp add: prepare_policy_independent_def post_return)
next
  case (Some vk)
  obtain vs k where cones: "policy_cones (al_game A) (al_ncounter A) (al_policy A) = Some (vs, k)"
    using Some by (cases vk) simp
  show ?thesis unfolding prepare_policy_independent_def cones option.case prod.case
  proof (intro post_if post_return post_bind post_independent_roots [OF A])
    show "Q (True, pc) s" by (rule Q [OF later_refl pc])
    fix r :: "'b option list option \<times> nat" and t
    assume l: "later s t" and r: "\<And>rs. fst r = Some rs \<Longrightarrow>
      roots_mean den (al_policy A) (policy_view A (counters A (- 1) True)) rs (map (\<lambda>v. of_nat (2 * v)) vs)"
    obtain roots built where rb: "r = (roots, built)" by (cases r)
    show "post (case r of (roots, built) \<Rightarrow> State_Monad.return (case roots of None \<Rightarrow> (False, pc)
       | Some rs \<Rightarrow> (True, pc\<lparr>pc_independent := Some (zip vs rs),
           pc_unspecialized := built + k \<noteq> 0 \<and> k * (al_ncounter A + 1) > 8 * (built + k)\<rparr>))) Q t"
    proof (cases roots)
      case None
      then show ?thesis using Q [OF l pc] by (simp add: rb post_return)
    next
      case (Some rs)
      have "cache_ok den A (pc\<lparr>pc_independent := Some (zip vs rs), pc_unspecialized := b\<rparr>)" for b
        using pc independent_seeds [OF A cones r, of rs] Some by (simp add: cache_ok_def rb)
      then show ?thesis using Q [OF l] Some by (simp add: rb post_return)
    qed
  qed
qed

text \<open>The policy in a mode, with every cache left usable for the next one.\<close>

lemma post_prepare_mode_cache:
  assumes A: "alphabet_ok den vars A" and pc: "cache_ok den A pc"
    and Q: "\<And>ok pc' s'. later s s' \<Longrightarrow> cache_ok den A pc' \<Longrightarrow> Q (ok, pc') s'"
  shows "post (prepare_policy_mode_cache B K A pc) Q s"
  unfolding prepare_policy_mode_cache_def
proof (intro post_if post_return post_bind post_policy_roots [OF A])
  show "Q (True, pc) s" by (rule Q [OF later_refl pc])
  show "seeds_ok den A (counters A (- 1) False) (case pc_independent pc of None \<Rightarrow> [] | Some seeds \<Rightarrow> seeds)"
        by (rule cache_seeds) fact
  fix r t assume l: "later s t" and r: "\<And>cn. r = Some cn \<Longrightarrow> outputs_mean den A (counters A (- 1) False) cn"
  have "counters A (- 1) False = cnt_of A" by (rule ext) (simp add: counters_def)
  then have "cache_ok den A (pc\<lparr>pc_modes := r\<rparr>)" using pc r by (simp add: cache_ok_def)
  then show "Q (if r = None then (False, pc) else (True, pc\<lparr>pc_modes := r\<rparr>)) t" using Q [OF l] pc by simp
qed

lemma post_compile_policy:
  assumes A: "alphabet_ok den vars A" and pc: "cache_ok den A pc"
    and Q: "\<And>r pc' s'. later s s' \<Longrightarrow> cache_ok den A pc' \<Longrightarrow>
      (\<And>cn. r = Some cn \<Longrightarrow> outputs_mean den A (counters A mode spec) cn) \<Longrightarrow> Q (r, pc') s'"
  shows "post (compile_policy_roots B K A mode spec pc) Q s"
proof (cases spec)
  case False
  show ?thesis unfolding compile_policy_roots_def if_not_P [OF False]
  proof (intro post_bind post_policy_roots [OF A] post_return Q [OF _ pc])
    show "seeds_ok den A (counters A mode False) []" by (simp add: seeds_ok_def)
  qed (use False in simp_all)
next
  case True
  have C: "counters A mode spec = (\<lambda>_. one_hot (al_ncounter A) mode)" by (rule ext) (simp add: counters_def True)
  show ?thesis unfolding compile_policy_roots_def if_P [OF True]
  proof (rule post_bind, rule post_prepare_independent [OF A pc], unfold prod.case, intro post_if post_return)
    fix ok pc1 t assume l: "later s t" and pc1: "cache_ok den A pc1"
    show "Q (None, pc1) t" by (rule Q [OF l pc1]) simp
    show "post (do { (ok, pc) \<leftarrow> prepare_policy_mode_cache B K A pc1;
        case pc_modes pc of None \<Rightarrow> State_Monad.return (None, pc)
        | Some modes \<Rightarrow> if ok then do { r \<leftarrow> restrict_modes B A mode modes; State_Monad.return (r, pc) }
            else State_Monad.return (None, pc) }) Q t"
    proof (rule post_bind, rule post_prepare_mode_cache [OF A pc1], unfold prod.case, intro post_option post_if post_return post_bind)
      fix ok pc2 u assume u: "later t u" and pc2: "cache_ok den A pc2"
      note lu = later_trans [OF l u]
      show "Q (None, pc2) u" "Q (None, pc2) u" by (rule Q [OF lu pc2]; simp)+
      fix modes assume "pc_modes pc2 = Some modes"
      then have m: "outputs_mean den A (cnt_of A) modes" using pc2 by (simp add: cache_ok_def)
      show "post (restrict_modes B A mode modes) (\<lambda>r. post (State_Monad.return (r, pc2)) Q) u"
        by (rule post_restrict_modes [OF A m], intro post_return, rule Q [OF later_trans [OF lu] pc2]) (simp_all add: C)
    qed
    show "post (do { r \<leftarrow> policy_roots B K A mode True (case pc_independent pc1 of None \<Rightarrow> [] | Some seeds \<Rightarrow> seeds);
        State_Monad.return (r, pc1) }) Q t"
    proof (intro post_bind post_policy_roots [OF A] post_return)
      show "seeds_ok den A (counters A mode True) (case pc_independent pc1 of None \<Rightarrow> [] | Some seeds \<Rightarrow> seeds)"
        by (rule cache_seeds) fact
      fix r u assume "later t u" "\<And>cn. r = Some cn \<Longrightarrow> outputs_mean den A (counters A mode True) cn"
      then show "Q (r, pc1) u" using Q [OF later_trans [OF l] pc1] True by simp
    qed
  qed
qed

lemma post_ensure_full:
  assumes A: "alphabet_ok den vars A" and pc: "cache_ok den A pc"
    and Q: "\<And>ok pc' s'. later s s' \<Longrightarrow> cache_ok den A pc' \<Longrightarrow> (ok \<Longrightarrow> pc_full pc' \<noteq> None) \<Longrightarrow> Q (ok, pc') s'"
  shows "post (ensure_full_policy B K A pc) Q s"
  unfolding ensure_full_policy_def
proof (rule post_if)
  show "post (State_Monad.return (True, pc)) Q s" if "pc_full pc \<noteq> None"
    by (intro post_return Q [OF later_refl pc] that)
  show "post (do { (r, pc) \<leftarrow> compile_policy_roots B K A (- 1) False pc;
      State_Monad.return (if r = None then (False, pc) else (True, pc\<lparr>pc_full := r\<rparr>)) }) Q s"
  proof (rule post_bind, rule post_compile_policy [OF A pc], unfold prod.case, rule post_return)
    fix r pc1 t assume l: "later s t" and pc1: "cache_ok den A pc1"
      and r: "\<And>cn. r = Some cn \<Longrightarrow> outputs_mean den A (counters A (- 1) False) cn"
    have "counters A (- 1) False = cnt_of A" by (rule ext) (simp add: counters_def)
    then have "cache_ok den A (pc1\<lparr>pc_full := r\<rparr>)" using pc1 r by (simp add: cache_ok_def)
    then show "Q (if r = None then (False, pc1) else (True, pc1\<lparr>pc_full := r\<rparr>)) t" using Q [OF l] pc1 by simp
  qed
qed

end

end
