(* ===== verification/Gr1_Setup_Correct.thy ===== *)
theory Gr1_Setup_Correct
  imports Gr1_Setup Gr1_Policy_Correct
begin

text \<open>
  What \<^verbatim>\<open>setup_bdds\<close> builds: distinct variables for the state, the counters and the letters, the
  diagrams of the game, which denote the values of its literals, and those of the certificate, which
  read the state and the letters only.
\<close>

subsection \<open>Variables\<close>

lemma state_vars_ok:
  "distinct (state_vars f nq nin)" "set (state_vars f nq nin) \<subseteq> {(if f then nin else 0)..<(if f then nin else 0) + 2 * nq}"
  "length (state_vars f nq nin) = nq"
  by (auto simp: state_vars_def distinct_map inj_on_def)

lemma letter_vars_ok:
  "distinct (letter_vars f nq first n)"
  "set (letter_vars f nq first n) \<subseteq> {(if f then 0 else 2 * nq) + first..<(if f then 0 else 2 * nq) + first + n}"
  "length (letter_vars f nq first n) = n"
  by (auto simp: letter_vars_def distinct_map inj_on_def)

lemma alphabet_vars_ok:
  "distinct (state_vars f nq (nu + nc) @ letter_vars f nq 0 nu @ letter_vars f nq nu nc)"
  "set (state_vars f nq (nu + nc) @ letter_vars f nq 0 nu @ letter_vars f nq nu nc) \<subseteq> {..<2 * nq + nu + nc}"
proof -
  let ?u = "letter_vars f nq 0 nu" and ?c = "letter_vars f nq nu nc" and ?q = "state_vars f nq (nu + nc)"
  let ?k = "if f then 0 else 2 * nq" and ?o = "if f then nu + nc else 0"
  have u: "set ?u \<subseteq> {?k..<?k + nu}" using letter_vars_ok(2) [of f nq 0 nu] by simp
  have c: "set ?c \<subseteq> {?k + nu..<?k + nu + nc}" by (rule letter_vars_ok(2))
  have q: "set ?q \<subseteq> {?o..<?o + 2 * nq}" by (rule state_vars_ok(2))
  have "set ?u \<inter> set ?c = {}" using u c by fastforce
  moreover have "set ?q \<inter> (set ?u \<union> set ?c) = {}" using u c q by (cases f) fastforce+
  ultimately show "distinct (?q @ ?u @ ?c)" by (simp add: state_vars_ok(1) letter_vars_ok(1))
  show "set (?q @ ?u @ ?c) \<subseteq> {..<2 * nq + nu + nc}" using u c q by (cases f) fastforce+
qed

lemma filter_before:
  assumes "p < n" and "P p"
  shows "length (filter P [0..<p]) < length (filter P [0..<n])"
proof -
  have "[0..<n] = [0..<p] @ p # [Suc p..<n]" using assms(1) upt_add_eq_append [of 0 p "n - p"] by (simp add: upt_conv_Cons)
  then show ?thesis using assms(2) by simp
qed

lemma filter_rest: "p - length (filter P [0..<p]) = length (filter (\<lambda>q. \<not> P q) [0..<p])"
  using sum_length_filter_compl [of P "[0..<p]"] by simp

text \<open>The letters correspond position by position.\<close>

lemma game_letters_all2:
  assumes "list_all2 R us us'" and "list_all2 R cs cs'"
    and "length us = length (uinputs g)" and "length cs = length (cinputs g)"
  shows "list_all2 R (game_letters g us cs) (game_letters g us' cs')"
  unfolding list_all2_conv_all_nth
proof (intro conjI allI impI)
  show "length (game_letters g us cs) = length (game_letters g us' cs')" by (simp add: game_letters_def)
  fix p assume "p < length (game_letters g us cs)"
  then have p: "p < length (aig_ins g)" by (simp add: game_letters_def)
  let ?P = "\<lambda>q. is_controllable (input_name g q)" and ?b = "filter (\<lambda>q. is_controllable (input_name g q)) [0..<p]"
  have c: "length ?b < length cs" if "?P p"
    using filter_before [OF p, of ?P] that assms(4) by (simp add: cinputs_def)
  have u: "p - length ?b < length us" if "\<not> ?P p"
    using filter_before [OF p, of "\<lambda>q. \<not> ?P q"] that assms(3) by (simp add: uinputs_def filter_rest)
  show "R (game_letters g us cs ! p) (game_letters g us' cs' ! p)"
    using p c u assms(1,2) by (auto simp: game_letters_def Let_def list_all2_conv_all_nth)
qed

lemma game_letters_map:
  assumes "length us = length (uinputs g)" and "length cs = length (cinputs g)"
  shows "game_letters g (map f us) (map f cs) = map f (game_letters g us cs)"
proof -
  have "list_all2 (\<lambda>x y. y = f x) (game_letters g us cs) (game_letters g (map f us) (map f cs))"
    by (rule game_letters_all2) (simp_all add: assms list_all2_map2 list.rel_refl)
  then show ?thesis by (auto simp: list_all2_conv_all_nth intro: nth_equalityI)
qed

lemma length_game_letters [simp]: "length (game_letters g us cs) = length (aig_ins g)"
  by (simp add: game_letters_def)

context oxidd_laws
begin

lemma post_make_vars:
  "set vs \<subseteq> {..<vars} \<Longrightarrow> (\<And>r s'. later s s' \<Longrightarrow> all_mean den r (projections vs) \<Longrightarrow> Q r s') \<Longrightarrow> post (make_vars B vs) Q s"
proof (induction vs arbitrary: s Q)
  case Nil
  show ?case unfolding make_vars.simps by (intro post_return Nil.prems(2)) (auto simp: all_mean_def projections_def)
next
  case (Cons v vs)
  show ?case unfolding make_vars.simps
  proof (intro post_bind post_var Cons.IH post_return Cons.prems(2))
    fix x t xs u assume l: "later s t" "later t u" and "means den x (\<lambda>\<rho>. \<rho> v)" "all_mean den xs (projections vs)"
    then show "all_mean den (x # xs) (projections (v # vs))" by (simp add: all_mean_def projections_def)
    show "later s u" using l by (rule later_trans)
  qed (use Cons.prems(1) in auto)
qed

lemma post_make_pairs:
  "set vs \<subseteq> {v. v + 1 < vars} \<Longrightarrow> (\<And>r s'. later s s' \<Longrightarrow> all_mean den (map fst r) (projections vs) \<Longrightarrow> Q r s') \<Longrightarrow>
   post (make_pairs B vs) Q s"
proof (induction vs arbitrary: s Q)
  case Nil
  show ?case unfolding make_pairs.simps by (intro post_return Nil.prems(2)) (auto simp: all_mean_def projections_def)
next
  case (Cons v vs)
  show ?case unfolding make_pairs.simps
  proof (intro post_bind post_var Cons.IH post_return Cons.prems(2))
    fix x t y t' xs u
    assume l: "later s t" "later t t'" "later t' u" and "means den x (\<lambda>\<rho>. \<rho> v)" "all_mean den (map fst xs) (projections vs)"
    then show "all_mean den (map fst ((x, y) # xs)) (projections (v # vs))" by (simp add: all_mean_def projections_def)
    show "later s u" using l by (blast intro: later_trans)
  qed (use Cons.prems(1) in auto)
qed

lemma post_make_alphabet:
  assumes v: "2 * (length (aig_lats game) + count_goals game) + length (aig_ins game) \<le> vars"
    and p: "structured policy" "aig_lats policy = []" "oxidd_max_aig_var policy < 2 ^ 31"
    and Q: "\<And>A s'. later s s' \<Longrightarrow> alphabet_ok den vars A \<Longrightarrow> al_game A = game \<Longrightarrow> al_policy A = policy \<Longrightarrow>
      al_ncounter A = count_goals game \<Longrightarrow> Q A s'"
  shows "post (make_alphabet B f game policy) Q s"
proof -
  let ?nq = "length (aig_lats game) + count_goals game"
  let ?nu = "length (uinputs game)" and ?nc = "length (cinputs game)"
  let ?q = "state_vars f ?nq (?nu + ?nc)" and ?u = "letter_vars f ?nq 0 ?nu" and ?c = "letter_vars f ?nq ?nu ?nc"
  have uc: "?nu + ?nc = length (aig_ins game)"
    using sum_length_filter_compl [of "\<lambda>q. is_controllable (input_name game q)" "[0..<length (aig_ins game)]"]
    by (simp add: uinputs_def cinputs_def)
  note a = alphabet_vars_ok [of f ?nq ?nu ?nc]
  have b: "set (?q @ ?u @ ?c) \<subseteq> {..<vars}" using a(2) v uc by fastforce
  have pairs: "set ?q \<subseteq> {v. v + 1 < vars}" using v uc by (auto simp: state_vars_def)
  show ?thesis unfolding make_alphabet_def Let_def
  proof (intro post_bind post_make_pairs [OF pairs] post_make_vars post_return Q)
    fix q t u t1 c t2
    assume l: "later s t" "later t t1" "later t1 t2"
    show "later s t2" using l by (blast intro: later_trans)
    assume "all_mean den (map fst q) (projections ?q)" "all_mean den u (projections ?u)" "all_mean den c (projections ?c)"
    then show "alphabet_ok den vars \<lparr>al_game = game, al_policy = policy, al_ncounter = count_goals game, al_qvar = ?q,
        al_uvar = ?u, al_cvar = ?c, al_q = map fst q, al_u = u, al_c = c\<rparr>"
      using a(1) b p by (simp add: alphabet_ok_def state_vars_ok(3) letter_vars_ok(3))
  qed (use b in simp_all)
qed

end

subsection \<open>The game\<close>

text \<open>The leaves of the game in an assignment.\<close>

definition game_view :: "'b alphabet \<Rightarrow> assignment \<Rightarrow> valuation" where
  "game_view A \<rho> = leaf_val (al_game A) (game_letters (al_game A) (us_of A \<rho>) (cs_of A \<rho>)) (st_of A \<rho>)"

definition game_lit :: "'b alphabet \<Rightarrow> u32 \<Rightarrow> assignment \<Rightarrow> bool" where
  "game_lit A l \<rho> = aig_val (al_game A) (game_view A \<rho>) l"

definition game_ok :: "('b \<Rightarrow> assignment \<Rightarrow> bool) \<Rightarrow> 'b alphabet \<Rightarrow> 'b game_roots \<Rightarrow> bool" where
  "game_ok den A gm \<longleftrightarrow>
     all_mean den (gm_next gm) (map (game_lit A) (map lat_next (aig_lats (al_game A)))) \<and>
     means den (gm_bad gm) (\<lambda>\<rho>. \<exists>l\<in>set (bad_literals (al_game A)). game_lit A l \<rho>) \<and>
     all_mean den (gm_goal gm) (map (game_lit A) (goal_literals (al_game A))) \<and>
     all_mean den (gm_fair gm) (map (game_lit A) (map n_lit (aig_fairs (al_game A))))"

lemma projections_apply: "map (\<lambda>P. P \<rho>) (projections vs) = map \<rho> vs"
  by (simp add: projections_def comp_def)

lemma length_projections [simp]: "length (projections vs) = length vs"
  by (simp add: projections_def)

lemma game_leaves:
  assumes "alphabet_ok den vars A"
  shows "leaves (al_game A) (game_letters (al_game A) (projections (al_uvar A)) (projections (al_cvar A)))
    (projections (take (nstate A) (al_qvar A))) = game_view A"
proof (rule ext)
  fix \<rho>
  have "map (\<lambda>P. P \<rho>) (game_letters (al_game A) (projections (al_uvar A)) (projections (al_cvar A))) =
    game_letters (al_game A) (us_of A \<rho>) (cs_of A \<rho>)"
    using assms game_letters_map [of "projections (al_uvar A)" "al_game A" "projections (al_cvar A)" "\<lambda>P. P \<rho>"]
    by (simp add: projections_apply us_of_def cs_of_def alphabet_ok_def)
  then show "leaves (al_game A) (game_letters (al_game A) (projections (al_uvar A)) (projections (al_cvar A)))
    (projections (take (nstate A) (al_qvar A))) \<rho> = game_view A \<rho>"
    by (simp add: leaves_def game_view_def st_of_def projections_apply)
qed

lemma all_mean_take: "all_mean den hs Ps \<Longrightarrow> all_mean den (take n hs) (take n Ps)"
  unfolding all_mean_def by (rule list_all2_takeI)

lemma all_mean_drop: "all_mean den hs Ps \<Longrightarrow> all_mean den (drop n hs) (drop n Ps)"
  unfolding all_mean_def by (rule list_all2_dropI)

lemma roots_all_mean: "roots_mean den g L rs lits \<Longrightarrow> all_mean den rs (map (\<lambda>l \<rho>. aig_val g (L \<rho>) l) lits)"
  unfolding roots_mean_def all_mean_def by (auto simp: list_all2_conv_all_nth)

context oxidd_laws
begin

lemma post_or_all:
  "means den bad P \<Longrightarrow> all_mean den hs Ps \<Longrightarrow>
   (\<And>r s'. later s s' \<Longrightarrow> means den r (\<lambda>\<rho>. P \<rho> \<or> (\<exists>R\<in>set Ps. R \<rho>)) \<Longrightarrow> Q r s') \<Longrightarrow> post (or_all B bad hs) Q s"
proof (induction hs arbitrary: bad P Ps s)
  case Nil
  then show ?case by (simp add: post_return all_mean_def)
next
  case (Cons h hs)
  obtain R Rs where Ps: "Ps = R # Rs" "means den h R" "all_mean den hs Rs"
    using Cons.prems(2) by (auto simp: all_mean_def list_all2_Cons1)
  show ?case unfolding or_all.simps
  proof (intro post_bind post_or_into [OF Cons.prems(1) Ps(2)] post_if post_return)
    fix r t assume l: "later s t" and r: "means den r (\<lambda>\<rho>. P \<rho> \<or> R \<rho>)"
    show "Q None t" by (rule Cons.prems(3) [OF l]) simp
    show "post (or_all B r hs) Q t"
    proof (rule Cons.IH [OF r Ps(3)])
      fix r' u assume "later t u" and r': "means den r' (\<lambda>\<rho>. (P \<rho> \<or> R \<rho>) \<or> (\<exists>R\<in>set Rs. R \<rho>))"
      show "Q r' u" by (rule Cons.prems(3) [OF later_trans [OF l \<open>later t u\<close>]], rule means_cong [OF r']) (auto simp: Ps(1))
    qed
  qed
qed

lemma post_setup_game:
  assumes A: "alphabet_ok den vars A" and g: "structured (al_game A)"
    and Q: "\<And>r s'. later s s' \<Longrightarrow> (\<And>gm. r = Some gm \<Longrightarrow> game_ok den A gm) \<Longrightarrow> Q r s'"
  shows "post (setup_game B K A) Q s"
proof -
  let ?g = "al_game A"
  let ?ns = "length (aig_lats ?g)" and ?nb = "length (bad_literals ?g)" and ?ng = "length (goal_literals ?g)"
  have letters: "all_mean den (game_letters ?g (al_u A) (al_c A)) (game_letters ?g (projections (al_uvar A)) (projections (al_cvar A)))"
    using A unfolding all_mean_def alphabet_ok_def
    by (intro game_letters_all2) (auto dest: list_all2_lengthD simp: projections_def)
  have states: "all_mean den (take ?ns (al_q A)) (projections (take ?ns (al_qvar A)))"
    using A all_mean_take [of den "al_q A" "projections (al_qvar A)" ?ns] by (simp add: alphabet_ok_def projections_def take_map)
  have len: "length (game_letters ?g (al_u A) (al_c A)) = length (aig_ins ?g)" "length (take ?ns (al_q A)) = length (aig_lats ?g)"
    using A by (auto simp: alphabet_ok_def all_mean_def projections_def dest: list_all2_lengthD)
  have none: "Q None t" if "later s t" for t by (rule Q [OF that]) simp
  show ?thesis unfolding setup_game_def Let_def compile_aig_roots_def
  proof (rule post_bind, rule post_compile_roots [OF g len letters states], simp, unfold game_leaves [OF A],
      intro post_option post_return post_bind post_false)
    fix r t assume l: "later s t" and r: "\<And>rs. r = Some rs \<Longrightarrow> roots_mean den ?g (game_view A) rs (game_root_literals ?g)"
    show "Q None t" by (rule none [OF l])
    fix rs f u assume rs: "r = Some rs" and u: "later t u" and f: "means den f (\<lambda>_. False)"
    let ?M = "map (game_lit A)"
    have lit: "(\<lambda>l \<rho>. aig_val ?g (game_view A \<rho>) l) = game_lit A" by (simp add: game_lit_def fun_eq_iff)
    have m: "all_mean den rs (?M (map lat_next (aig_lats ?g) @ bad_literals ?g @ goal_literals ?g @ map n_lit (aig_fairs ?g)))"
      using roots_all_mean [OF r [OF rs]] unfolding game_root_literals_def lit .
    have parts: "all_mean den (take ?ns rs) (?M (map lat_next (aig_lats ?g)))"
      "all_mean den (take ?nb (drop ?ns rs)) (?M (bad_literals ?g))"
      "all_mean den (take ?ng (drop (?ns + ?nb) rs)) (?M (goal_literals ?g))"
      "all_mean den (drop (?ns + ?nb + ?ng) rs) (?M (map n_lit (aig_fairs ?g)))"
      using all_mean_take [OF m, of ?ns] all_mean_take [OF all_mean_drop [OF m, of ?ns], of ?nb]
        all_mean_take [OF all_mean_drop [OF m, of "?ns + ?nb"], of ?ng] all_mean_drop [OF m, of "?ns + ?nb + ?ng"]
      by simp_all
    let ?result = "\<lambda>bad. Some \<lparr>gm_next = take ?ns rs, gm_bad = bad, gm_goal = take ?ng (drop (?ns + ?nb) rs),
      gm_fair = drop (?ns + ?nb + ?ng) rs\<rparr>"
    have result: "Q (?result bad) v" if "later u v" "means den bad (\<lambda>\<rho>. \<exists>l\<in>set (bad_literals ?g). game_lit A l \<rho>)" for bad v
    proof (rule Q)
      show "later s v" using l u that(1) by (blast intro: later_trans)
      show "game_ok den A gm" if "?result bad = Some gm" for gm
        using that parts(1,3,4) \<open>means den bad _\<close> by (auto simp: game_ok_def)
    qed
    let ?bads = "take ?nb (drop ?ns rs)"
    show "post (if aig_bads ?g \<noteq> [] \<or> length (aig_outs ?g) \<noteq> 1
      then do { bad \<leftarrow> or_all B f ?bads; State_Monad.return (if ?bads \<noteq> [] \<and> bad = None then None else ?result bad) }
      else State_Monad.return (?result (?bads ! 0))) Q u"
    proof (intro post_if post_bind post_or_all [OF f parts(2)] post_return)
      fix bad v assume v: "later u v" and b: "means den bad (\<lambda>\<rho>. False \<or> (\<exists>R\<in>set (?M (bad_literals ?g)). R \<rho>))"
      have "Q (?result bad) v" by (rule result [OF v], rule means_cong [OF b]) auto
      moreover have "Q None v" using none l u v by (blast intro: later_trans)
      ultimately show "Q (if ?bads \<noteq> [] \<and> bad = None then None else ?result bad) v" by simp
    next
      assume one: "\<not> (aig_bads ?g \<noteq> [] \<or> length (aig_outs ?g) \<noteq> 1)"
      then have "bad_literals ?g = [n_lit (aig_outs ?g ! 0)]" by (simp add: bad_literals_def)
      moreover have "means den (?bads ! 0) (game_lit A (bad_literals ?g ! 0))"
        using parts(2) calculation by (auto simp: all_mean_def list_all2_conv_all_nth)
      ultimately have "means den (?bads ! 0) (\<lambda>\<rho>. \<exists>l\<in>set (bad_literals ?g). game_lit A l \<rho>)"
        by (simp add: means_def fun_eq_iff)
      then show "Q (?result (?bads ! 0)) u" by (rule result [OF later_refl])
    qed
  qed
qed

end

subsection \<open>The certificate\<close>

definition depends_only :: "nat list \<Rightarrow> (assignment \<Rightarrow> bool) \<Rightarrow> bool" where
  "depends_only vs P \<longleftrightarrow> (\<forall>\<rho> \<sigma>. (\<forall>v\<in>set vs. \<rho> v = \<sigma> v) \<longrightarrow> P \<rho> = P \<sigma>)"

text \<open>A predicate of the state and the letters.\<close>

definition visible :: "'b alphabet \<Rightarrow> nat list" where
  "visible A = take (nstate A) (al_qvar A) @ al_uvar A @ al_cvar A"

definition means_visible :: "('b \<Rightarrow> assignment \<Rightarrow> bool) \<Rightarrow> 'b alphabet \<Rightarrow> 'b option \<Rightarrow> bool" where
  "means_visible den A h \<longleftrightarrow> (\<exists>P. means den h P \<and> depends_only (visible A) P)"

lemma means_visible_None [simp]: "means_visible den A None"
  by (auto simp: means_visible_def depends_only_def)

definition certificate_ok :: "('b \<Rightarrow> assignment \<Rightarrow> bool) \<Rightarrow> 'b alphabet \<Rightarrow> 'b certificate \<Rightarrow> bool" where
  "certificate_ok den A ce \<longleftrightarrow> means_visible den A (ce_inv ce) \<and>
     (\<forall>h\<in>set (concat (ce_y ce)) \<union> set (concat (concat (ce_x ce))). means_visible den A h) \<and>
     length (ce_levels ce) = al_ncounter A \<and> length (ce_y ce) = al_ncounter A \<and> length (ce_x ce) = al_ncounter A \<and>
     (\<forall>j<al_ncounter A. length (ce_y ce ! j) = ce_levels ce ! j \<and> length (ce_x ce ! j) = ce_levels ce ! j \<and>
       (\<forall>xs\<in>set (ce_x ce ! j). length xs = nfair_disj (al_game A)))"

lemma means_visible_var:
  assumes "all_mean den hs (projections vs)" and "k < length vs" and "vs ! k \<in> set (visible A)"
  shows "means_visible den A (hs ! k)"
  unfolding means_visible_def
  by (rule exI [of _ "\<lambda>\<rho>. \<rho> (vs ! k)"]) (use all_mean_nth [OF assms(1,2)] assms(3) in \<open>simp add: depends_only_def\<close>)

lemma means_visible_vars:
  assumes "all_mean den hs (projections vs)" and "set vs \<subseteq> set (visible A)"
  shows "\<forall>h\<in>set hs. means_visible den A h"
proof
  fix h assume "h \<in> set hs"
  then obtain k where "k < length hs" "h = hs ! k" by (auto simp: in_set_conv_nth)
  moreover have "length hs = length vs" using assms(1) by (auto simp: all_mean_def dest: list_all2_lengthD)
  ultimately show "means_visible den A h" using means_visible_var [OF assms(1), of k A] assms(2) by (auto simp: subset_iff)
qed

lemma find_input_bound: "find_input g name = Some p \<Longrightarrow> p < length (aig_ins g)"
  unfolding find_input_def by (drule find_upt) simp

lemma certificate_input_visible:
  assumes A: "alphabet_ok den vars A"
  shows "means_visible den A (certificate_input A name)"
proof -
  let ?g = "al_game A"
  have all: "\<forall>h\<in>set (al_u A) \<union> set (al_c A). means_visible den A h"
    using A means_visible_vars [of den "al_u A" "al_uvar A" A] means_visible_vars [of den "al_c A" "al_cvar A" A]
    by (auto simp: alphabet_ok_def visible_def)
  have "list_all2 (\<lambda>h k. means_visible den A h) (game_letters ?g (al_u A) (al_c A)) (game_letters ?g (al_u A) (al_c A))"
    using A all by (intro game_letters_all2)
      (auto simp: list_all2_conv_all_nth alphabet_ok_def all_mean_def dest: list_all2_lengthD)
  then have letters: "means_visible den A (game_letters ?g (al_u A) (al_c A) ! p)" if "p < length (aig_ins ?g)" for p
    using that by (simp add: list_all2_conv_all_nth)
  have state: "means_visible den A (al_q A ! j)" if "j < nstate A" for j
    by (rule means_visible_var [where vs = "al_qvar A"])
      (use A that in \<open>auto simp: alphabet_ok_def visible_def in_set_conv_nth\<close>)
  show ?thesis unfolding certificate_input_def
    by (auto split: option.splits dest: find_upt find_input_bound intro: letters state)
qed

lemma choose_list: "\<forall>h\<in>set hs. \<exists>P. R h P \<Longrightarrow> \<exists>Ps. list_all2 R hs Ps"
  by (induction hs) (auto intro: list_all2_Cons [THEN iffD2])

lemma named_root_in: "named_root cert roots name = None \<or> named_root cert roots name \<in> set roots"
proof (cases "find (\<lambda>(o', r). n_name o' = Some name) (zip (selected_outputs cert) roots)")
  case (Some x)
  then have "x \<in> set (zip (selected_outputs cert) roots)" by (auto simp: find_Some_iff in_set_zip)
  then have "snd x \<in> set roots" by (metis prod.collapse set_zip_rightD)
  then show ?thesis using Some by (auto simp: named_root_def split: prod.splits)
qed (simp add: named_root_def)

context oxidd_laws
begin

lemma post_compile_certificate:
  assumes A: "alphabet_ok den vars A" and c: "structured cert" "aig_lats cert = []"
    and Q: "\<And>r s'. later s s' \<Longrightarrow> (\<And>rs. r = Some rs \<Longrightarrow> \<forall>h\<in>set rs. means_visible den A h) \<Longrightarrow> Q r s'"
  shows "post (compile_certificate_outputs B K A cert) Q s"
proof -
  let ?hs = "map (\<lambda>i. certificate_input A (in_name i)) (aig_ins cert)"
  have "\<forall>h\<in>set ?hs. \<exists>P. means den h P \<and> depends_only (visible A) P"
    using certificate_input_visible [OF A] by (auto simp: means_visible_def)
  from choose_list [OF this] obtain Is where Is: "list_all2 (\<lambda>h P. means den h P \<and> depends_only (visible A) P) ?hs Is" ..
  then have m: "all_mean den ?hs Is" unfolding all_mean_def by (rule list_all2_mono) blast
  have dep: "\<forall>P\<in>set Is. depends_only (visible A) P"
    using Is by (auto simp: list_all2_conv_all_nth in_set_conv_nth)
  show ?thesis unfolding compile_certificate_outputs_def compile_aig_roots_def
  proof (rule post_compile_roots [OF c(1) _ _ m, where Ls = "[]"])
    fix r t assume l: "later s t" and r: "\<And>rs. r = Some rs \<Longrightarrow> roots_mean den cert (leaves cert Is []) rs (map n_lit (selected_outputs cert))"
    show "Q r t"
    proof (rule Q [OF l], rule ballI)
      fix rs h assume "r = Some rs" "h \<in> set rs"
      then obtain k where k: "k < length rs" "h = rs ! k" by (auto simp: in_set_conv_nth)
      let ?P = "\<lambda>\<rho>. aig_val cert (leaves cert Is [] \<rho>) (map n_lit (selected_outputs cert) ! k)"
      have "means den h ?P" using r [OF \<open>r = Some rs\<close>] k by (auto simp: roots_mean_def list_all2_conv_all_nth)
      moreover have "depends_only (visible A) ?P"
        unfolding depends_only_def
      proof (intro allI impI)
        fix \<rho> \<sigma> :: assignment assume "\<forall>v\<in>set (visible A). \<rho> v = \<sigma> v"
        then have "map (\<lambda>P. P \<rho>) Is = map (\<lambda>P. P \<sigma>) Is" using dep by (auto simp: depends_only_def)
        then show "?P \<rho> = ?P \<sigma>" by (simp only: leaves_def list.map)
      qed
      ultimately show "means_visible den A h" unfolding means_visible_def by blast
    qed
  qed (simp_all add: c(2) all_mean_def)
qed

lemma certificate_roots_ok:
  assumes "\<forall>h\<in>set rs. means_visible den A h" and "length levels = al_ncounter A"
  shows "certificate_ok den A (certificate_roots cert (nfair_disj (al_game A)) levels rs)"
proof -
  have v: "means_visible den A (named_root cert rs name)" for name
    using named_root_in [of cert rs name] assms(1) by auto
  show ?thesis using assms(2) v by (auto simp: certificate_ok_def certificate_roots_def)
qed

subsection \<open>All of it\<close>

definition checker_ok :: "'b checker \<Rightarrow> bool" where
  "checker_ok ck \<longleftrightarrow> alphabet_ok den vars (ck_alphabet ck) \<and> game_ok den (ck_alphabet ck) (ck_game ck) \<and>
     certificate_ok den (ck_alphabet ck) (ck_cert ck) \<and>
     means den (ck_cube ck) (\<lambda>\<rho>. \<forall>v\<in>set (al_uvar (ck_alphabet ck) @ al_cvar (ck_alphabet ck)). \<rho> v)"

definition checker_for :: "aig \<Rightarrow> aig \<Rightarrow> nat list \<Rightarrow> 'b checker \<Rightarrow> bool" where
  "checker_for game policy levels ck \<longleftrightarrow> checker_ok ck \<and> al_game (ck_alphabet ck) = game \<and>
     al_policy (ck_alphabet ck) = policy \<and> al_ncounter (ck_alphabet ck) = count_goals game \<and> ce_levels (ck_cert ck) = levels"

lemma post_setup_bdds:
  assumes v: "2 * (length (aig_lats game) + count_goals game) + length (aig_ins game) \<le> vars"
    and p: "structured policy" "aig_lats policy = []" "oxidd_max_aig_var policy < 2 ^ 31"
    and g: "structured game" and c: "structured cert" "aig_lats cert = []" and lv: "length levels = count_goals game"
    and Q: "\<And>r s'. later s s' \<Longrightarrow>
      (\<And>ck pc. r = Some (ck, pc) \<Longrightarrow> checker_for game policy levels ck \<and> cache_ok den (ck_alphabet ck) pc) \<Longrightarrow> Q r s'"
  shows "post (setup_bdds B K opt game policy cert levels) Q s"
  unfolding setup_bdds_def
proof (rule post_bind, rule post_make_alphabet [OF v p])
  fix A s1
  assume l1: "later s s1" and A: "alphabet_ok den vars A" and al: "al_game A = game" "al_policy A = policy" "al_ncounter A = count_goals game"
  have none: "Q None t" if "later s1 t" for t by (rule Q [OF later_trans [OF l1 that]]) simp
  have ga: "structured (al_game A)" using g al by simp
  show "post (do { g \<leftarrow> setup_game B K A;
      case g of None \<Rightarrow> State_Monad.return None
      | Some gm \<Rightarrow>
          do { (ok, pc) \<leftarrow> (if opt_unspecialized opt then ensure_full_policy B K A empty_cache
                           else State_Monad.return (True, empty_cache));
               if \<not> ok then State_Monad.return None
               else do { c \<leftarrow> compile_certificate_outputs B K A cert;
                 case c of None \<Rightarrow> State_Monad.return None
                 | Some roots \<Rightarrow>
                     do { cube \<leftarrow> cube_of B (al_uvar A @ al_cvar A);
                          State_Monad.return (Some (\<lparr>ck_alphabet = A, ck_game = gm,
                            ck_cert = certificate_roots cert (nfair_disj game) levels roots, ck_cube = cube\<rparr>, pc)) } } } }) Q s1"
  proof (rule post_bind, rule post_setup_game [OF A ga], intro post_option post_return)
    fix r s2 assume l2: "later s1 s2" and gm: "\<And>gm. r = Some gm \<Longrightarrow> game_ok den A gm"
    show "Q None s2" by (rule none [OF l2])
    fix gm assume r: "r = Some gm"
    have rest: "post (if \<not> ok then State_Monad.return None
        else do { c \<leftarrow> compile_certificate_outputs B K A cert;
          case c of None \<Rightarrow> State_Monad.return None
          | Some roots \<Rightarrow>
              do { cube \<leftarrow> cube_of B (al_uvar A @ al_cvar A);
                   State_Monad.return (Some (\<lparr>ck_alphabet = A, ck_game = gm,
                     ck_cert = certificate_roots cert (nfair_disj game) levels roots, ck_cube = cube\<rparr>, pc)) } }) Q s3"
      if l3: "later s1 s3" and pc: "cache_ok den A pc" for ok pc s3
    proof (intro post_if post_return post_bind post_compile_certificate [OF A c] post_option post_cube_of)
      show "Q None s3" by (rule none [OF l3])
      fix cr s4 assume l4: "later s3 s4" and cr: "\<And>rs. cr = Some rs \<Longrightarrow> \<forall>h\<in>set rs. means_visible den A h"
      show "Q None s4" by (rule none [OF later_trans [OF l3 l4]])
      show "set (al_uvar A @ al_cvar A) \<subseteq> {..<vars}" using A by (simp add: alphabet_ok_def)
      fix roots cube s5 assume roots: "cr = Some roots" and l5: "later s4 s5"
        and cube: "means den cube (\<lambda>\<rho>. \<forall>v\<in>set (al_uvar A @ al_cvar A). \<rho> v)"
      have ce: "certificate_ok den A (certificate_roots cert (nfair_disj game) levels roots)"
        using certificate_roots_ok [OF cr [OF roots], of levels cert] lv al by simp
      show "Q (Some (\<lparr>ck_alphabet = A, ck_game = gm, ck_cert = certificate_roots cert (nfair_disj game) levels roots,
        ck_cube = cube\<rparr>, pc)) s5"
        by (rule Q) (use l1 l3 l4 l5 A gm [OF r] ce cube pc al in
          \<open>auto simp: checker_for_def checker_ok_def certificate_roots_def intro: later_trans\<close>)
    qed
    show "post (do { (ok, pc) \<leftarrow> (if opt_unspecialized opt then ensure_full_policy B K A empty_cache
                           else State_Monad.return (True, empty_cache));
               if \<not> ok then State_Monad.return None
               else do { c \<leftarrow> compile_certificate_outputs B K A cert;
                 case c of None \<Rightarrow> State_Monad.return None
                 | Some roots \<Rightarrow>
                     do { cube \<leftarrow> cube_of B (al_uvar A @ al_cvar A);
                          State_Monad.return (Some (\<lparr>ck_alphabet = A, ck_game = gm,
                            ck_cert = certificate_roots cert (nfair_disj game) levels roots, ck_cube = cube\<rparr>, pc)) } } }) Q s2"
      by (rule post_bind, intro post_if post_return post_ensure_full [OF A cache_ok_empty]; unfold prod.case)
        (rule rest; auto intro: later_trans l2)+
  qed
qed

end

end
