(* ===== verification/Gr1_Certificate_Correct.thy ===== *)
theory Gr1_Certificate_Correct
  imports Gr1_Certificate Gr1_Setup_Correct
begin

text \<open>
  What each stage of \<^verbatim>\<open>check_certificate_mode\<close> establishes when it verifies, as statements about the
  predicates that the diagrams denote.
\<close>

subsection \<open>Predicates\<close>

text \<open>The predicate of a handle; a null handle has none.\<close>

definition pred_of :: "('b \<Rightarrow> assignment \<Rightarrow> bool) \<Rightarrow> 'b option \<Rightarrow> assignment \<Rightarrow> bool" where
  "pred_of den h = (case h of Some b \<Rightarrow> den b | None \<Rightarrow> (\<lambda>_. False))"

lemma means_pred [simp, intro]: "means den h (pred_of den h)"
  by (simp add: means_def pred_of_def)

lemma pred_of_means: "means den h P \<Longrightarrow> h \<noteq> None \<Longrightarrow> pred_of den h = P"
  by (auto simp: means_def pred_of_def)

definition ignores :: "nat set \<Rightarrow> (assignment \<Rightarrow> bool) \<Rightarrow> bool" where
  "ignores V P \<longleftrightarrow> (\<forall>\<rho> \<sigma>. (\<forall>v. v \<notin> V \<longrightarrow> \<rho> v = \<sigma> v) \<longrightarrow> P \<rho> = P \<sigma>)"

definition state_handle :: "('b \<Rightarrow> assignment \<Rightarrow> bool) \<Rightarrow> nat set \<Rightarrow> 'b option \<Rightarrow> bool" where
  "state_handle den V h \<longleftrightarrow> h \<noteq> None \<and> ignores V (pred_of den h)"

context oxidd_laws
begin

abbreviation pr :: "'b option \<Rightarrow> assignment \<Rightarrow> bool" where
  "pr \<equiv> pred_of den"

lemma post_refute:
  assumes "means den h P"
    and "\<And>r s'. later s s' \<Longrightarrow> (r = CHECK_VERIFIED \<Longrightarrow> h \<noteq> None \<and> (\<forall>\<rho>. \<not> P \<rho>)) \<Longrightarrow> Q r s'"
  shows "post (refute B h) Q s"
  unfolding refute_def
proof (intro post_bind post_satisfiable [OF assms(1)] post_if post_return post_get)
  fix r t assume l: "later s t" and r: "r \<or> bdd_failed t \<or> h \<noteq> None \<and> (\<forall>\<rho>. \<not> P \<rho>)"
  show "Q CHECK_CERT_FAILED t" by (rule assms(2) [OF l]) simp
  assume "\<not> r"
  then show "Q (if bdd_failed t then CHECK_UNKNOWN else CHECK_VERIFIED) t" using r by (intro assms(2) [OF l]) (auto split: if_splits)
qed

lemma post_check_state_only:
  assumes cube: "means den cube (\<lambda>\<rho>. \<forall>v\<in>V. \<rho> v)" and V: "finite V"
    and Q: "\<And>r s'. later s s' \<Longrightarrow> (r = CHECK_VERIFIED \<Longrightarrow> state_handle den V h) \<Longrightarrow> Q r s'"
  shows "post (check_state_only B cube h) Q s"
  unfolding check_state_only_def
proof (intro post_bind post_forall [OF means_pred cube V] post_if post_fail post_return)
  fix u t assume l: "later s t" and u: "means den u (\<lambda>\<rho>. \<forall>\<sigma>. (\<forall>v. v \<notin> V \<longrightarrow> \<sigma> v = \<rho> v) \<longrightarrow> pr h \<sigma>)"
    and n: "u \<noteq> None \<longrightarrow> h \<noteq> None"
  show "Q CHECK_UNKNOWN (t\<lparr>bdd_failed := True\<rparr>)" by (rule Q) (use l in auto)
  assume ne: "u \<noteq> None"
  show "post (ext (ox_xor B h u)) (\<lambda>d. post (refute B d) Q) t"
  proof (rule post_xor [OF means_pred u], rule post_refute, assumption)
    fix d t' r t'' assume l': "later t t'" "later t' t''"
      and r: "r = CHECK_VERIFIED \<Longrightarrow> d \<noteq> None \<and> (\<forall>\<rho>. \<not> (pr h \<rho> \<noteq> (\<forall>\<sigma>. (\<forall>v. v \<notin> V \<longrightarrow> \<sigma> v = \<rho> v) \<longrightarrow> pr h \<sigma>)))"
    show "Q r t''"
    proof (rule Q)
      show "later s t''" using l l' by (blast intro: later_trans)
      assume "r = CHECK_VERIFIED"
      from r [OF this] have e: "pr h \<rho> \<longleftrightarrow> (\<forall>\<sigma>. (\<forall>v. v \<notin> V \<longrightarrow> \<sigma> v = \<rho> v) \<longrightarrow> pr h \<sigma>)" for \<rho> by blast
      have "pr h \<rho> = pr h \<sigma>" if "\<forall>v. v \<notin> V \<longrightarrow> \<rho> v = \<sigma> v" for \<rho> \<sigma>
        using e [of \<rho>] e [of \<sigma>] that by metis
      then show "state_handle den V h" using n ne by (simp add: state_handle_def ignores_def)
    qed
  qed
qed

lemma post_check_layers:
  assumes cube: "means den cube (\<lambda>\<rho>. \<forall>v\<in>V. \<rho> v)" and V: "finite V"
  shows "means den u P \<Longrightarrow>
    (\<And>r w s'. later s s' \<Longrightarrow> (r = CHECK_VERIFIED \<Longrightarrow> \<forall>x\<in>set xs. state_handle den V x) \<Longrightarrow>
      (r = CHECK_VERIFIED \<Longrightarrow> means den w (\<lambda>\<rho>. P \<rho> \<or> (\<exists>x\<in>set xs. pr x \<rho>))) \<Longrightarrow> Q (r, w) s') \<Longrightarrow>
    post (check_layers B cube xs u) Q s"
proof (induction xs arbitrary: u P s)
  case Nil
  show ?case unfolding check_layers.simps by (intro post_return Nil.prems(2)) (use Nil.prems(1) in simp_all)
next
  case (Cons x xs)
  show ?case unfolding check_layers.simps
  proof (intro post_bind post_check_state_only [OF cube V] post_if post_return post_or_into [OF Cons.prems(1) means_pred])
    fix r t assume l: "later s t" and "r \<noteq> CHECK_VERIFIED"
    then show "Q (r, u) t" by (intro Cons.prems(2)) auto
  next
    fix r t u' t' assume l: "later s t" "later t t'"
    have ls: "later s t'" using l by (rule later_trans)
    show "Q (CHECK_UNKNOWN, u') t'" by (rule Cons.prems(2) [OF ls]) simp_all
    assume "r = CHECK_VERIFIED \<Longrightarrow> state_handle den V x" "\<not> r \<noteq> CHECK_VERIFIED"
      and u': "means den u' (\<lambda>\<rho>. P \<rho> \<or> pr x \<rho>)"
    then have x: "state_handle den V x" by simp
    show "post (check_layers B cube xs u') Q t'"
    proof (rule Cons.IH [OF u'])
      fix r w t'' assume l'': "later t' t''" and r: "r = CHECK_VERIFIED \<Longrightarrow> \<forall>x\<in>set xs. state_handle den V x"
        and w: "r = CHECK_VERIFIED \<Longrightarrow> means den w (\<lambda>\<rho>. (P \<rho> \<or> pr x \<rho>) \<or> (\<exists>x\<in>set xs. pr x \<rho>))"
      show "Q (r, w) t''"
      proof (rule Cons.prems(2) [OF later_trans [OF ls l'']])
        assume v: "r = CHECK_VERIFIED"
        show "\<forall>x\<in>set (x # xs). state_handle den V x" using x r [OF v] by simp
        show "means den w (\<lambda>\<rho>. P \<rho> \<or> (\<exists>x\<in>set (x # xs). pr x \<rho>))" by (rule means_cong [OF w [OF v]]) auto
      qed
    qed
  qed
qed

text \<open>A level: its layers and their union.\<close>

definition level_ok :: "nat set \<Rightarrow> 'b option \<times> 'b option list \<Rightarrow> bool" where
  "level_ok V = (\<lambda>(y, xs). state_handle den V y \<and> (\<forall>x\<in>set xs. state_handle den V x) \<and>
     (\<forall>\<rho>. pr y \<rho> \<longleftrightarrow> (\<exists>x\<in>set xs. pr x \<rho>)))"

lemma post_check_levels:
  assumes cube: "means den cube (\<lambda>\<rho>. \<forall>v\<in>V. \<rho> v)" and V: "finite V"
  shows "(\<And>r s'. later s s' \<Longrightarrow> (r = CHECK_VERIFIED \<Longrightarrow> \<forall>l\<in>set ls. level_ok V l) \<Longrightarrow> Q r s') \<Longrightarrow>
    post (check_levels B cube ls previous) Q s"
proof (induction ls arbitrary: previous s)
  case Nil
  show ?case unfolding check_levels.simps by (intro post_return Nil.prems) simp_all
next
  case (Cons l ls)
  obtain y xs where lx: "l = (y, xs)" by (cases l)
  have stop: "Q r t" if "later s t" "r \<noteq> CHECK_VERIFIED" for r t by (rule Cons.prems) (use that in auto)
  show ?case unfolding lx check_levels.simps
  proof (intro post_bind post_false, rule post_check_layers [OF cube V], assumption, unfold prod.case,
      intro post_if post_return post_bind post_check_state_only [OF cube V])
    fix f t1 r u t2
    assume l: "later s t1" "later t1 t2" and xs: "r = CHECK_VERIFIED \<Longrightarrow> \<forall>x\<in>set xs. state_handle den V x"
      and u: "r = CHECK_VERIFIED \<Longrightarrow> means den u (\<lambda>\<rho>. False \<or> (\<exists>x\<in>set xs. pr x \<rho>))"
    have l2: "later s t2" using l by (rule later_trans)
    show "Q r t2" if "r \<noteq> CHECK_VERIFIED" using stop [OF l2 that] .
    assume "\<not> r \<noteq> CHECK_VERIFIED"
    then have rv: "r = CHECK_VERIFIED" by simp
    fix r3 t3 assume l23: "later t2 t3" and y: "r3 = CHECK_VERIFIED \<Longrightarrow> state_handle den V y"
    have l3: "later s t3" using l2 l23 by (rule later_trans)
    show "Q r3 t3" if "r3 \<noteq> CHECK_VERIFIED" using stop [OF l3 that] .
    assume "\<not> r3 \<noteq> CHECK_VERIFIED"
    then have y: "state_handle den V y" using y by simp
    show "post (ext (ox_xor B u y)) (\<lambda>m. post (do { r \<leftarrow> refute B m;
        if r \<noteq> CHECK_VERIFIED then State_Monad.return r
        else do { not_current \<leftarrow> ext (ox_not B y); nonmonotone \<leftarrow> ext (ox_and B previous not_current);
          r \<leftarrow> refute B nonmonotone;
          if r \<noteq> CHECK_VERIFIED then State_Monad.return r else check_levels B cube ls u } }) Q) t3"
    proof (rule post_xor [OF u [OF rv] means_pred], rule post_bind, rule post_refute, assumption, intro post_if post_return)
      fix m t4 r5 t5
      assume l45: "later t3 t4" "later t4 t5"
        and m: "r5 = CHECK_VERIFIED \<Longrightarrow> m \<noteq> None \<and> (\<forall>\<rho>. \<not> ((False \<or> (\<exists>x\<in>set xs. pr x \<rho>)) \<noteq> pr y \<rho>))"
      have l5: "later s t5" using l3 l45 by (blast intro: later_trans)
      show "Q r5 t5" if "r5 \<noteq> CHECK_VERIFIED" using stop [OF l5 that] .
      assume "\<not> r5 \<noteq> CHECK_VERIFIED"
      then have lev: "level_ok V (y, xs)" using m xs [OF rv] y by (auto simp: level_ok_def)
      show "post (do { not_current \<leftarrow> ext (ox_not B y); nonmonotone \<leftarrow> ext (ox_and B previous not_current);
          r \<leftarrow> refute B nonmonotone;
          if r \<noteq> CHECK_VERIFIED then State_Monad.return r else check_levels B cube ls u }) Q t5"
      proof (intro post_bind post_not [OF means_pred], rule post_and [OF means_pred], assumption, rule post_bind,
          rule post_refute, assumption, intro post_if post_return Cons.IH)
        fix n t6 a t7 r t8
        assume l678: "later t5 t6" "later t6 t7" "later t7 t8"
        have l8: "later s t8" using l5 l678 by (blast intro: later_trans)
        show "Q r t8" if "r \<noteq> CHECK_VERIFIED" using stop [OF l8 that] .
        fix r' t9 assume "later t8 t9" and r': "r' = CHECK_VERIFIED \<Longrightarrow> \<forall>l\<in>set ls. level_ok V l"
        show "Q r' t9" by (rule Cons.prems [OF later_trans [OF l8 \<open>later t8 t9\<close>]]) (use r' lev lx in simp)
      qed
    qed
  qed
qed

definition letters :: "'b alphabet \<Rightarrow> nat set" where
  "letters A = set (al_uvar A @ al_cvar A)"

lemma finite_letters [simp]: "finite (letters A)"
  by (simp add: letters_def)

lemma post_validate_predicates:
  assumes ck: "checker_ok ck"
    and Q: "\<And>r s'. later s s' \<Longrightarrow> (r = CHECK_VERIFIED \<Longrightarrow> state_handle den (letters (ck_alphabet ck)) (ce_inv (ck_cert ck)) \<and>
      (\<forall>(ys, xs)\<in>set (zip (ce_y (ck_cert ck)) (ce_x (ck_cert ck))). \<forall>l\<in>set (zip ys xs). level_ok (letters (ck_alphabet ck)) l)) \<Longrightarrow> Q r s'"
  shows "post (validate_certificate_predicates B ck) Q s"
proof -
  have cube: "means den (ck_cube ck) (\<lambda>\<rho>. \<forall>v\<in>letters (ck_alphabet ck). \<rho> v)"
    using ck by (simp add: checker_ok_def letters_def)
  show ?thesis unfolding validate_certificate_predicates_def
  proof (intro post_bind post_check_state_only [OF cube finite_letters] post_if post_return)
    fix r t assume l: "later s t" and i: "r = CHECK_VERIFIED \<Longrightarrow> state_handle den (letters (ck_alphabet ck)) (ce_inv (ck_cert ck))"
    show "Q r t" if "r \<noteq> CHECK_VERIFIED" by (rule Q [OF l]) (use that in simp)
    assume "\<not> r \<noteq> CHECK_VERIFIED"
    then have i: "state_handle den (letters (ck_alphabet ck)) (ce_inv (ck_cert ck))" using i by simp
    show "post (all_verified (\<lambda>(ys, xs). do { f \<leftarrow> ext (ox_false B); check_levels B (ck_cube ck) (zip ys xs) f })
      (zip (ce_y (ck_cert ck)) (ce_x (ck_cert ck)))) Q t"
    proof (rule post_all_verified [where F = "\<lambda>(ys, xs). \<forall>l\<in>set (zip ys xs). level_ok (letters (ck_alphabet ck)) l"])
      fix yx :: "'b option list \<times> 'b option list list" and u
      obtain ys xs where yx: "yx = (ys, xs)" by (cases yx)
      show "post (case yx of (ys, xs) \<Rightarrow> do { f \<leftarrow> ext (ox_false B); check_levels B (ck_cube ck) (zip ys xs) f })
        (\<lambda>r s'. later u s' \<and> (r = CHECK_VERIFIED \<longrightarrow> (case yx of (ys, xs) \<Rightarrow> \<forall>l\<in>set (zip ys xs). level_ok (letters (ck_alphabet ck)) l))) u"
        unfolding yx prod.case
        by (intro post_bind post_false post_check_levels [OF cube finite_letters]) (auto intro: later_trans)
    next
      fix r' u assume "later t u" and r': "r' = CHECK_VERIFIED \<Longrightarrow> \<forall>yx\<in>set (zip (ce_y (ck_cert ck)) (ce_x (ck_cert ck))).
        (case yx of (ys, xs) \<Rightarrow> \<forall>l\<in>set (zip ys xs). level_ok (letters (ck_alphabet ck)) l)"
      show "Q r' u" by (rule Q [OF later_trans [OF l \<open>later t u\<close>]]) (use i r' in blast)
    qed
  qed
qed

lemma post_check_goals:
  assumes "\<And>r s'. later s s' \<Longrightarrow> (r = CHECK_VERIFIED \<Longrightarrow>
    \<forall>(c, g)\<in>set (zip (ce_goal (ck_cert ck)) (gm_goal (ck_game ck))). \<forall>\<rho>. pr c \<rho> = pr g \<rho>) \<Longrightarrow> Q r s'"
  shows "post (check_goals B ck) Q s"
  unfolding check_goals_def
proof (rule post_all_verified [where F = "\<lambda>(c, g). \<forall>\<rho>. pr c \<rho> = pr g \<rho>"])
  fix cg :: "'b option \<times> 'b option" and u
  obtain c g where cg: "cg = (c, g)" by (cases cg)
  show "post (case cg of (c, g) \<Rightarrow> do { mismatch \<leftarrow> ext (ox_xor B c g); refute B mismatch })
    (\<lambda>r s'. later u s' \<and> (r = CHECK_VERIFIED \<longrightarrow> (case cg of (c, g) \<Rightarrow> \<forall>\<rho>. pr c \<rho> = pr g \<rho>))) u"
    unfolding cg prod.case
    by (rule post_bind, rule post_xor [OF means_pred means_pred], rule post_refute, assumption) (auto intro: later_trans)
qed (rule assms)

text \<open>A state predicate has the same value in two assignments with the same state.\<close>

definition state_pred :: "'b alphabet \<Rightarrow> (assignment \<Rightarrow> bool) \<Rightarrow> bool" where
  "state_pred A P \<longleftrightarrow> (\<forall>\<rho> \<sigma>. st_of A \<rho> = st_of A \<sigma> \<longrightarrow> P \<rho> = P \<sigma>)"

lemma state_handle_pred:
  assumes A: "alphabet_ok den vars A" and h: "state_handle den (letters A) h" and v: "means_visible den A h"
  shows "state_pred A (pr h)"
  unfolding state_pred_def
proof (intro allI impI)
  fix \<rho> \<sigma> assume st: "st_of A \<rho> = st_of A \<sigma>"
  let ?\<tau> = "\<lambda>v. if v \<in> letters A then \<sigma> v else \<rho> v"
  obtain P where P: "means den h P" "depends_only (visible A) P" using v unfolding means_visible_def by blast
  have hP: "pr h = P" using h P(1) by (auto simp: state_handle_def means_def pred_of_def)
  have "pr h \<rho> = pr h ?\<tau>" using h by (simp add: state_handle_def ignores_def)
  also have "\<dots> = pr h \<sigma>" unfolding hP using P(2)
    by (rule depends_only_def [THEN iffD1, rule_format]) (use A st in \<open>auto simp: visible_def letters_def alphabet_ok_def st_of_def dest: in_set_takeD\<close>)
  finally show "pr h \<rho> = pr h \<sigma>" .
qed

lemma post_reset:
  assumes A: "alphabet_ok den vars A" and h: "state_handle den (letters A) h" "means_visible den A h"
    and Q: "\<And>r s'. later s s' \<Longrightarrow> (\<And>\<rho>. st_of A \<rho> = reset_state (al_game A) \<Longrightarrow> r = pr h \<rho>) \<Longrightarrow> Q r s'"
  shows "post (reset_in_predicate B A h) Q s"
  unfolding reset_in_predicate_def
proof (rule post_ext, rule Q)
  obtain b where b: "h = Some b" using h(1) by (auto simp: state_handle_def)
  let ?args = "zip (al_qvar A) (map (\<lambda>l. lat_reset l \<noteq> 0) (aig_lats (al_game A)))"
  fix r w \<rho> assume r: "ox_eval B h ?args (world s) = (r, w)" and \<rho>: "st_of A \<rho> = reset_state (al_game A)"
  have "fst (ox_eval B (Some b) ?args (world s)) = pr h \<rho>"
  proof (rule eval_law)
    have "map fst ?args = take (nstate A) (al_qvar A)"
      using A by (simp add: map_fst_zip_take alphabet_ok_def min_def)
    then show "distinct (map fst ?args)" using A by (simp add: alphabet_ok_def)
    fix \<sigma> assume \<sigma>: "\<forall>(v, x)\<in>set ?args. \<sigma> v = x"
    have len: "length (al_qvar A) = nstate A + al_ncounter A" using A by (simp add: alphabet_ok_def)
    have "st_of A \<sigma> = reset_state (al_game A)"
    proof (rule nth_equalityI)
      fix j assume "j < length (st_of A \<sigma>)"
      then have j: "j < nstate A" by (simp add: st_of_def)
      then have "(al_qvar A ! j, lat_reset (aig_lats (al_game A) ! j) \<noteq> 0) \<in> set ?args"
        using len unfolding in_set_zip by (intro exI [of _ j]) simp
      then have "\<sigma> (al_qvar A ! j) = (lat_reset (aig_lats (al_game A) ! j) \<noteq> 0)" using bspec [OF \<sigma>] by fastforce
      then show "st_of A \<sigma> ! j = reset_state (al_game A) ! j" using j len by (simp add: st_of_def reset_state_def)
    qed (simp add: st_of_def reset_state_def len)
    then have "pr h \<sigma> = pr h \<rho>" using state_handle_pred [OF A h] \<rho> by (simp add: state_pred_def)
    then show "den b \<sigma> = pr h \<rho>" by (simp add: pred_of_def b)
  qed
  then show "r = pr h \<rho>" using r by (simp add: b)
qed simp

lemma post_cover:
  "means den c P \<Longrightarrow>
   (\<And>r s'. later s s' \<Longrightarrow> (\<And>d. r = Some d \<Longrightarrow> means den d (\<lambda>\<rho>. P \<rho> \<or> (\<exists>x\<in>set xs. pr x \<rho>))) \<Longrightarrow> Q r s') \<Longrightarrow>
   post (cover B c xs) Q s"
proof (induction xs arbitrary: c P s)
  case Nil
  show ?case unfolding cover.simps by (intro post_return Nil.prems(2)) (use Nil.prems(1) in simp_all)
next
  case (Cons x xs)
  show ?case unfolding cover.simps
  proof (intro post_bind post_or_into [OF Cons.prems(1) means_pred] post_if post_return)
    fix d t assume l: "later s t" and d: "means den d (\<lambda>\<rho>. P \<rho> \<or> pr x \<rho>)"
    show "Q None t" by (rule Cons.prems(2) [OF l]) simp
    show "post (cover B d xs) Q t"
    proof (rule Cons.IH [OF d], rule Cons.prems(2) [OF later_trans [OF l]], assumption)
      fix r u e assume r: "\<And>e. r = Some e \<Longrightarrow> means den e (\<lambda>\<rho>. (P \<rho> \<or> pr x \<rho>) \<or> (\<exists>x\<in>set xs. pr x \<rho>))" and "r = Some e"
      show "means den e (\<lambda>\<rho>. P \<rho> \<or> (\<exists>x\<in>set (x # xs). pr x \<rho>))" by (rule means_cong [OF r [OF \<open>r = Some e\<close>]]) auto
    qed
  qed
qed

lemma post_check_coverage:
  assumes "\<And>r s'. later s s' \<Longrightarrow> (r = CHECK_VERIFIED \<Longrightarrow>
    \<forall>xs\<in>set (ce_x (ck_cert ck)). \<forall>\<rho>. pr (ce_inv (ck_cert ck)) \<rho> \<longrightarrow> (\<exists>x\<in>set (concat xs). pr x \<rho>)) \<Longrightarrow> Q r s'"
  shows "post (check_coverage B ck) Q s"
  unfolding check_coverage_def
proof (rule post_all_verified [where F = "\<lambda>xs. \<forall>\<rho>. pr (ce_inv (ck_cert ck)) \<rho> \<longrightarrow> (\<exists>x\<in>set (concat xs). pr x \<rho>)"])
  fix xs :: "'b option list list" and u
  show "post (do { f \<leftarrow> ext (ox_false B); c \<leftarrow> cover B f (concat xs);
      case c of None \<Rightarrow> State_Monad.return CHECK_UNKNOWN
      | Some covered \<Rightarrow>
          do { not_covered \<leftarrow> ext (ox_not B covered);
               missing \<leftarrow> ext (ox_and B (ce_inv (ck_cert ck)) not_covered);
               refute B missing } })
    (\<lambda>r s'. later u s' \<and> (r = CHECK_VERIFIED \<longrightarrow> (\<forall>\<rho>. pr (ce_inv (ck_cert ck)) \<rho> \<longrightarrow> (\<exists>x\<in>set (concat xs). pr x \<rho>)))) u"
  proof (intro post_bind post_false, rule post_cover, assumption, intro post_option post_return post_bind)
    fix f t c t' assume l: "later u t" "later t t'"
    have l': "later u t'" using l by (rule later_trans)
    then show "later u t' \<and> (CHECK_UNKNOWN = CHECK_VERIFIED \<longrightarrow> (\<forall>\<rho>. pr (ce_inv (ck_cert ck)) \<rho> \<longrightarrow> (\<exists>x\<in>set (concat xs). pr x \<rho>)))" by simp
    fix d assume "\<And>d. c = Some d \<Longrightarrow> means den d (\<lambda>\<rho>. False \<or> (\<exists>x\<in>set (concat xs). pr x \<rho>))" "c = Some d"
    then have d: "means den d (\<lambda>\<rho>. False \<or> (\<exists>x\<in>set (concat xs). pr x \<rho>))" by blast
    show "post (ext (ox_not B d)) (\<lambda>n. post (do { missing \<leftarrow> ext (ox_and B (ce_inv (ck_cert ck)) n); refute B missing })
      (\<lambda>r s'. later u s' \<and> (r = CHECK_VERIFIED \<longrightarrow> (\<forall>\<rho>. pr (ce_inv (ck_cert ck)) \<rho> \<longrightarrow> (\<exists>x\<in>set (concat xs). pr x \<rho>))))) t'"
      by (rule post_not [OF d], rule post_bind, rule post_and [OF means_pred], assumption, rule post_refute, assumption)
        (rule conjI, blast intro: later_trans l', auto)
  qed
qed (rule assms)

end

end
