(* ===== verification/Gr1_Mode_Correct.thy ===== *)
theory Gr1_Mode_Correct
  imports Gr1_Certificate_Correct
begin

text \<open>
  One counter mode of the certificate check.  The step of a mode maps an assignment to the one in
  which the controls follow the policy, and to the one in which the state is the successor; the
  violation that the code collects is false exactly when the one-step obligations hold.
\<close>

subsection \<open>Obligations\<close>

text \<open>The move of the ranks that \<open>check_progress\<close> allows from layer \<open>(k, i)\<close>.\<close>

definition allowed_step :: "nat \<Rightarrow> (nat \<Rightarrow> nat \<Rightarrow> 's \<Rightarrow> bool) \<Rightarrow> (nat \<Rightarrow> 's \<Rightarrow> bool) \<Rightarrow> (nat \<Rightarrow> 's \<Rightarrow> bool) \<Rightarrow> ('s \<Rightarrow> bool) \<Rightarrow>
    ('s \<Rightarrow> bool) \<Rightarrow> nat \<times> nat \<Rightarrow> 's \<Rightarrow> bool" where
  "allowed_step nf X Y F G I = (\<lambda>(k, i) s'.
     0 < nf \<and> X k i s' \<and> \<not> F i s' \<or> G s' \<and> I s' \<or> 0 < k \<and> Y (k - 1) s')"

text \<open>A layer that the earlier layers do not contain, from which the step is not allowed.\<close>

definition rank_violation :: "(nat \<Rightarrow> nat \<Rightarrow> 's \<Rightarrow> bool) \<Rightarrow> ('s \<Rightarrow> bool) \<Rightarrow> ('s \<Rightarrow> bool) \<Rightarrow> (nat \<times> nat \<Rightarrow> 's \<Rightarrow> bool) \<Rightarrow>
    (nat \<times> nat) list \<Rightarrow> 's \<Rightarrow> bool" where
  "rank_violation X I G ok ps s \<longleftrightarrow> (\<exists>before k i rest. ps = before @ (k, i) # rest \<and> I s \<and> X k i s \<and>
     \<not> (I s \<and> G s) \<and> (\<forall>(k', i')\<in>set before. \<not> X k' i' s) \<and> \<not> ok (k, i) s)"

lemma rank_violation_snoc:
  "rank_violation X I G ok (ps @ [(k, i)]) s \<longleftrightarrow> rank_violation X I G ok ps s \<or>
     I s \<and> X k i s \<and> \<not> ((I s \<and> G s) \<or> (\<exists>(k', i')\<in>set ps. X k' i' s)) \<and> \<not> ok (k, i) s"
  (is "?l \<longleftrightarrow> ?a \<or> ?b")
proof
  assume ?l
  then obtain before k' i' rest where v: "ps @ [(k, i)] = before @ (k', i') # rest" "I s" "X k' i' s" "\<not> (I s \<and> G s)"
    "\<forall>(k', i')\<in>set before. \<not> X k' i' s" "\<not> ok (k', i') s" unfolding rank_violation_def by blast
  show "?a \<or> ?b"
  proof (cases rest rule: rev_cases)
    case Nil
    then show ?thesis using v by auto
  next
    case (snoc r z)
    then have "ps = before @ (k', i') # r" using v(1) by simp
    then show ?thesis using v(2-6) unfolding rank_violation_def by blast
  qed
next
  assume "?a \<or> ?b"
  then show ?l
  proof
    assume ?a
    then obtain before k' i' rest where "ps = before @ (k', i') # rest" "I s" "X k' i' s" "\<not> (I s \<and> G s)"
      "\<forall>(k', i')\<in>set before. \<not> X k' i' s" "\<not> ok (k', i') s" unfolding rank_violation_def by blast
    then show ?l unfolding rank_violation_def by (intro exI [of _ before] exI [of _ k'] exI [of _ i'] exI [of _ "rest @ [(k, i)]"]) simp
  next
    assume ?b
    then show ?l unfolding rank_violation_def by (intro exI [of _ ps] exI [of _ k] exI [of _ i] exI [of _ "[]"]) auto
  qed
qed

definition expected :: "nat \<Rightarrow> nat \<Rightarrow> nat \<Rightarrow> bool \<Rightarrow> bool" where
  "expected n goal q at_goal = (let next_goal = (goal + 1) mod n in
     if q = goal \<and> q = next_goal then True else if q = goal then \<not> at_goal else if q = next_goal then at_goal else False)"

context oxidd_laws
begin

text \<open>The assignment after substitution.\<close>

abbreviation upd :: "nat list \<Rightarrow> (assignment \<Rightarrow> bool) list \<Rightarrow> assignment \<Rightarrow> assignment" where
  "upd vs Ps \<equiv> updated (zip vs Ps)"

lemma post_zip_substitute:
  assumes h: "means den h P" and m: "all_mean den hs Ps" and len: "length vs = length Ps" "distinct vs"
    and Q: "\<And>r s'. later s s' \<Longrightarrow> means den r (\<lambda>\<rho>. P (upd vs Ps \<rho>)) \<Longrightarrow> Q r s'"
  shows "post (ext (ox_substitute B h (zip vs hs))) Q s"
proof -
  have l: "length hs = length Ps" using m by (auto simp: all_mean_def dest: list_all2_lengthD)
  then have z: "all_mean den (map snd (zip vs hs)) Ps" "map fst (zip vs hs) = vs" using m len by simp_all
  from post_substitute [OF h z(1), where Q = Q and s = s] z(2) len(2) Q show ?thesis by simp
qed

lemma post_successor:
  assumes h: "means den h P" and m: "all_mean den next Ns" and len: "length (take (nstate A) (al_qvar A)) = length Ns" "distinct (take (nstate A) (al_qvar A))"
    and Q: "\<And>r s'. later s s' \<Longrightarrow> means den r (\<lambda>\<rho>. P (upd (take (nstate A) (al_qvar A)) Ns \<rho>)) \<Longrightarrow> Q r s'"
  shows "post (successor B A next h) Q s"
  unfolding successor_def
  by (intro post_bind post_zip_substitute [OF h m len] post_if post_fail post_return) (auto intro!: Q)

lemma post_kept_successor:
  assumes h: "means den h P" and m: "all_mean den next Ns" and len: "length (take (nstate A) (al_qvar A)) = length Ns" "distinct (take (nstate A) (al_qvar A))"
    and kept: "\<forall>j<length kept. means den (kept ! j) (L j)" and i: "i < length kept"
    and Li: "L i = (\<lambda>\<rho>. P (upd (take (nstate A) (al_qvar A)) Ns \<rho>))"
    and Q: "\<And>r kept' s'. later s s' \<Longrightarrow> means den r (L i) \<Longrightarrow> length kept' = length kept \<Longrightarrow>
      \<forall>j<length kept'. means den (kept' ! j) (L j) \<Longrightarrow> Q (r, kept') s'"
  shows "post (kept_successor B rebuild A next kept i h) Q s"
  unfolding kept_successor_def
proof (intro post_if post_bind post_successor [OF h m len] post_return)
  fix r t assume l: "later s t" and r: "means den r (\<lambda>\<rho>. P (upd (take (nstate A) (al_qvar A)) Ns \<rho>))"
  have r: "means den r (L i)" using r by (simp only: Li)
  show "Q (r, kept) t" by (rule Q [OF l r]) (use kept in simp_all)
  show "Q (r, kept[i := r]) t" by (rule Q [OF l r]) (use kept r i in \<open>auto simp: nth_list_update\<close>)
next
  show "Q (kept ! i, kept) s" by (rule Q [OF later_refl]) (use kept i in simp_all)
qed

text \<open>The diagrams of a mode denote the predicates of the obligations; \<open>S\<close> is the step.\<close>

definition mode_ok :: "'b alphabet \<Rightarrow> 'b mode \<Rightarrow> (assignment \<Rightarrow> bool) list \<Rightarrow> (assignment \<Rightarrow> bool) \<Rightarrow> (assignment \<Rightarrow> bool) \<Rightarrow> bool" where
  "mode_ok A md Ns I G \<longleftrightarrow> all_mean den (md_next md) Ns \<and> length (take (nstate A) (al_qvar A)) = length Ns \<and> distinct (take (nstate A) (al_qvar A)) \<and>
     means den (md_inv md) I \<and> means den (md_goal md) G \<and>
     means den (md_next_inv md) (\<lambda>\<rho>. I (upd (take (nstate A) (al_qvar A)) Ns \<rho>)) \<and>
     means den (md_goal_and_inv md) (\<lambda>\<rho>. G (upd (take (nstate A) (al_qvar A)) Ns \<rho>) \<and> I (upd (take (nstate A) (al_qvar A)) Ns \<rho>))"

definition kept_ok :: "(nat \<Rightarrow> assignment \<Rightarrow> bool) \<Rightarrow> 'b alphabet \<Rightarrow> (assignment \<Rightarrow> bool) list \<Rightarrow> 'b option list \<Rightarrow> bool" where
  "kept_ok F A Ns kept \<longleftrightarrow> (\<forall>j<length kept. means den (kept ! j) (\<lambda>\<rho>. F j (upd (take (nstate A) (al_qvar A)) Ns \<rho>)))"

lemma kept_ok_replicate [simp]: "kept_ok F A Ns (replicate n None)"
  by (simp add: kept_ok_def)

lemma post_kept:
  assumes md: "mode_ok A md Ns I G" and h: "means den h (F i)" and kept: "kept_ok F A Ns kept" "i < length kept"
    and Q: "\<And>r kept' s'. later s s' \<Longrightarrow> means den r (\<lambda>\<rho>. F i (upd (take (nstate A) (al_qvar A)) Ns \<rho>)) \<Longrightarrow>
      length kept' = length kept \<Longrightarrow> kept_ok F A Ns kept' \<Longrightarrow> Q (r, kept') s'"
  shows "post (kept_successor B rebuild A (md_next md) kept i h) Q s"
  by (rule post_kept_successor [OF h, where L = "\<lambda>j \<rho>. F j (upd (take (nstate A) (al_qvar A)) Ns \<rho>)"])
    (use md kept Q in \<open>auto simp: mode_ok_def kept_ok_def\<close>)

lemma post_fair_escape:
  assumes md: "mode_ok A md Ns I G" and a: "means den a P"
    and fair: "fair \<noteq> [] \<Longrightarrow> means den (fair ! i) (F i) \<and> i < length kept" and kept: "kept_ok F A Ns kept"
    and Q: "\<And>r kept' s'. later s s' \<Longrightarrow>
      means den r (\<lambda>\<rho>. 0 < length fair \<and> P \<rho> \<and> \<not> F i (upd (take (nstate A) (al_qvar A)) Ns \<rho>)) \<Longrightarrow>
      length kept' = length kept \<Longrightarrow> kept_ok F A Ns kept' \<Longrightarrow> Q (r, kept') s'"
  shows "post (fair_escape B rebuild A fair md i kept a) Q s"
  unfolding fair_escape_def
proof (rule post_if)
  assume ne: "fair \<noteq> []"
  show "post (do { (fair_next, kept) \<leftarrow> kept_successor B rebuild A (md_next md) kept i (fair ! i);
             not_fair_next \<leftarrow> ext (ox_not B fair_next);
             allowed \<leftarrow> bdd_and_into B a not_fair_next;
             State_Monad.return (allowed, kept) }) Q s"
  proof (rule post_bind, rule post_kept [OF md, where F = F], unfold prod.case, goal_cases)
    case (4 f kept' t)
    show ?case
    proof (intro post_bind post_not [OF 4(2)], rule post_and_into [OF a], assumption, rule post_return)
      fix n t' r u assume l: "later t t'" "later t' u" and r: "means den r (\<lambda>\<rho>. P \<rho> \<and> \<not> F i (upd (take (nstate A) (al_qvar A)) Ns \<rho>))"
      show "Q (r, kept') u"
      proof (rule Q [OF _ _ 4(3,4)])
        show "later s u" using 4(1) l by (blast intro: later_trans)
        show "means den r (\<lambda>\<rho>. 0 < length fair \<and> P \<rho> \<and> \<not> F i (upd (take (nstate A) (al_qvar A)) Ns \<rho>))"
          by (rule means_cong [OF r]) (use ne in simp)
      qed
    qed
  qed (use fair [OF ne] kept in simp_all)
next
  assume e: "\<not> fair \<noteq> []"
  show "post (do { f \<leftarrow> ext (ox_false B); State_Monad.return (f, kept) }) Q s"
  proof (intro post_bind post_false post_return Q)
    fix r :: "'b option" assume r: "means den r (\<lambda>_. False)"
    show "means den r (\<lambda>\<rho>. 0 < length fair \<and> P \<rho> \<and> \<not> F i (upd (take (nstate A) (al_qvar A)) Ns \<rho>))"
      by (rule means_cong [OF r]) (use e in simp)
  qed (simp_all add: kept)
qed

lemma post_goal_escape:
  assumes md: "mode_ok A md Ns I G"
    and Q: "\<And>r s'. later s s' \<Longrightarrow>
      means den r (\<lambda>\<rho>. G (upd (take (nstate A) (al_qvar A)) Ns \<rho>) \<and> I (upd (take (nstate A) (al_qvar A)) Ns \<rho>)) \<Longrightarrow> Q r s'"
  shows "post (goal_escape B rebuild A md) Q s"
  unfolding goal_escape_def
proof (intro post_if post_bind post_return)
  show "Q (md_goal_and_inv md) s" by (rule Q) (use md in \<open>simp_all add: mode_ok_def\<close>)
  show "post (successor B A (md_next md) (md_goal md)) (\<lambda>g. post (bdd_and_into B g (md_next_inv md)) Q) s"
  proof (rule post_successor [where P = G and Ns = Ns], goal_cases)
    case (5 g t)
    show ?case
      by (rule post_and_into [OF 5(2), of "md_next_inv md" "\<lambda>\<rho>. I (upd (take (nstate A) (al_qvar A)) Ns \<rho>)"])
        (use md 5(1) Q in \<open>auto simp: mode_ok_def intro: later_trans\<close>)
  qed (use md in \<open>auto simp: mode_ok_def\<close>)
qed

lemma post_lower_escape:
  assumes md: "mode_ok A md Ns I G" and a: "means den a P"
    and y: "0 < k \<Longrightarrow> means den (md_y md ! (k - 1)) (Y (k - 1)) \<and> k - 1 < length kept" and kept: "kept_ok Y A Ns kept"
    and Q: "\<And>r kept' s'. later s s' \<Longrightarrow>
      means den r (\<lambda>\<rho>. P \<rho> \<or> 0 < k \<and> Y (k - 1) (upd (take (nstate A) (al_qvar A)) Ns \<rho>)) \<Longrightarrow>
      length kept' = length kept \<Longrightarrow> kept_ok Y A Ns kept' \<Longrightarrow> Q (r, kept') s'"
  shows "post (lower_escape B rebuild A md k kept a) Q s"
  unfolding lower_escape_def
proof (rule post_if)
  assume k: "k > 0"
  show "post (do { (lower_next, kept) \<leftarrow> kept_successor B rebuild A (md_next md) kept (k - 1) (md_y md ! (k - 1));
             allowed \<leftarrow> bdd_or_into B a lower_next;
             State_Monad.return (allowed, kept) }) Q s"
  proof (rule post_bind, rule post_kept [OF md, where F = Y], unfold prod.case, goal_cases)
    case (4 f kept' t)
    show ?case
    proof (intro post_bind post_or_into [OF a 4(2)] post_return Q [OF _ _ 4(3,4)])
      fix r u assume "later t u" and r: "means den r (\<lambda>\<rho>. P \<rho> \<or> Y (k - 1) (upd (take (nstate A) (al_qvar A)) Ns \<rho>))"
      show "later s u" using 4(1) \<open>later t u\<close> by (rule later_trans)
      show "means den r (\<lambda>\<rho>. P \<rho> \<or> 0 < k \<and> Y (k - 1) (upd (take (nstate A) (al_qvar A)) Ns \<rho>))"
        by (rule means_cong [OF r]) (use k in simp)
    qed
  qed (use y [OF k] kept in simp_all)
next
  assume "\<not> k > 0"
  then show "post (State_Monad.return (a, kept)) Q s"
    by (intro post_return Q) (use a kept in simp_all)
qed

text \<open>One layer.\<close>

lemma post_check_progress:
  assumes md: "mode_ok A md Ns I G" and x: "means den (md_x md ! k ! i) (X k i)"
    and y: "0 < k \<Longrightarrow> means den (md_y md ! (k - 1)) (Y (k - 1)) \<and> k - 1 < length (pg_lower pg)"
    and fair: "fair \<noteq> [] \<Longrightarrow> means den (fair ! i) (F i) \<and> i < length (pg_fair pg)"
    and kept: "kept_ok F A Ns (pg_fair pg)" "kept_ok Y A Ns (pg_lower pg)"
    and V: "means den (pg_violation pg) V" and R: "means den (pg_ranked pg) R"
    and Q: "\<And>pg' s'. later s s' \<Longrightarrow>
      means den (pg_violation pg') (\<lambda>\<rho>. V \<rho> \<or> I \<rho> \<and> X k i \<rho> \<and> \<not> R \<rho> \<and>
        \<not> allowed_step (length fair) X Y F G I (k, i) (upd (take (nstate A) (al_qvar A)) Ns \<rho>)) \<Longrightarrow>
      means den (pg_ranked pg') (\<lambda>\<rho>. R \<rho> \<or> X k i \<rho>) \<Longrightarrow>
      length (pg_fair pg') = length (pg_fair pg) \<Longrightarrow> length (pg_lower pg') = length (pg_lower pg) \<Longrightarrow>
      kept_ok F A Ns (pg_fair pg') \<Longrightarrow> kept_ok Y A Ns (pg_lower pg') \<Longrightarrow> Q pg' s'"
  shows "post (check_progress B rebuild A fair md (k, i) pg) Q s"
proof -
  let ?S = "upd (take (nstate A) (al_qvar A)) Ns"
  have I: "means den (md_inv md) I" and N: "all_mean den (md_next md) Ns" "length (take (nstate A) (al_qvar A)) = length Ns"
      "distinct (take (nstate A) (al_qvar A))"
    using md by (simp_all add: mode_ok_def)
  show ?thesis unfolding check_progress_def prod.case Let_def
  proof (rule post_bind, rule post_not [OF R], rule post_bind, rule post_and [OF x], assumption,
      rule post_bind, rule post_and [OF I], assumption, rule post_bind, rule post_successor [OF x N])
    fix n s1 l0 s2 layer s3 a s4
    assume l14: "later s s1" "later s1 s2" "later s2 s3" "later s3 s4"
      and layer: "means den layer (\<lambda>\<rho>. I \<rho> \<and> X k i \<rho> \<and> \<not> R \<rho>)" and a: "means den a (\<lambda>\<rho>. X k i (?S \<rho>))"
    have l4: "later s s4" using l14 by (rule later_trans4)
    show "post (do { (allowed, kept_fair) \<leftarrow> fair_escape B rebuild A fair md i (pg_fair pg) a;
          goal_and_inv \<leftarrow> goal_escape B rebuild A md;
          allowed \<leftarrow> bdd_or_into B allowed goal_and_inv;
          (allowed, kept_lower) \<leftarrow> lower_escape B rebuild A md k (pg_lower pg) allowed;
          not_allowed \<leftarrow> ext (ox_not B allowed);
          progress_bad \<leftarrow> ext (ox_and B layer not_allowed);
          violation \<leftarrow> bdd_or_into B (pg_violation pg) progress_bad;
          ranked \<leftarrow> bdd_or_into B (pg_ranked pg) (md_x md ! k ! i);
          State_Monad.return \<lparr>pg_violation = violation, pg_ranked = ranked, pg_fair = kept_fair, pg_lower = kept_lower\<rparr> }) Q s4"
    proof (rule post_bind, rule post_fair_escape [OF md a fair kept(1)], assumption, unfold prod.case, rule post_bind,
        rule post_goal_escape [OF md], rule post_bind, rule post_or_into, assumption, assumption, rule post_bind)
      fix a1 kf s5 g s6 a2 s7
      assume l57: "later s4 s5" "later s5 s6" "later s6 s7" and kf: "length kf = length (pg_fair pg)" "kept_ok F A Ns kf"
        and a2: "means den a2 (\<lambda>\<rho>. (0 < length fair \<and> X k i (?S \<rho>) \<and> \<not> F i (?S \<rho>)) \<or> (G (?S \<rho>) \<and> I (?S \<rho>)))"
      have l7: "later s s7" using l4 l57 by (rule later_trans4)
      show "post (lower_escape B rebuild A md k (pg_lower pg) a2) (\<lambda>r. post (case r of (allowed, kept_lower) \<Rightarrow>
        do { not_allowed \<leftarrow> ext (ox_not B allowed);
          progress_bad \<leftarrow> ext (ox_and B layer not_allowed);
          violation \<leftarrow> bdd_or_into B (pg_violation pg) progress_bad;
          ranked \<leftarrow> bdd_or_into B (pg_ranked pg) (md_x md ! k ! i);
          State_Monad.return \<lparr>pg_violation = violation, pg_ranked = ranked, pg_fair = kf, pg_lower = kept_lower\<rparr> }) Q) s7"
      proof (rule post_lower_escape [OF md a2 y kept(2)], assumption, unfold prod.case, rule post_bind, rule post_not, assumption,
          rule post_bind, rule post_and [OF layer], assumption, rule post_bind, rule post_or_into [OF V], assumption,
          rule post_bind, rule post_or_into [OF R x], rule post_return)
        fix a3 kl s8 na s9 pb s10 v s11 r s12
        assume l812: "later s7 s8" "later s8 s9" "later s9 s10" "later s10 s11" "later s11 s12"
          and kl: "length kl = length (pg_lower pg)" "kept_ok Y A Ns kl" and r: "means den r (\<lambda>\<rho>. R \<rho> \<or> X k i \<rho>)"
          and v: "means den v (\<lambda>\<rho>. V \<rho> \<or> (I \<rho> \<and> X k i \<rho> \<and> \<not> R \<rho>) \<and> \<not> (((0 < length fair \<and> X k i (?S \<rho>) \<and> \<not> F i (?S \<rho>)) \<or>
            (G (?S \<rho>) \<and> I (?S \<rho>))) \<or> 0 < k \<and> Y (k - 1) (?S \<rho>)))"
        show "Q \<lparr>pg_violation = v, pg_ranked = r, pg_fair = kf, pg_lower = kl\<rparr> s12"
        proof (rule Q)
          show "later s s12" using l7 l812 by (rule later_trans6)
          show "means den (pg_violation \<lparr>pg_violation = v, pg_ranked = r, pg_fair = kf, pg_lower = kl\<rparr>)
            (\<lambda>\<rho>. V \<rho> \<or> I \<rho> \<and> X k i \<rho> \<and> \<not> R \<rho> \<and> \<not> allowed_step (length fair) X Y F G I (k, i) (?S \<rho>))"
            unfolding progress_state.simps by (rule means_cong [OF v]) (auto simp: allowed_step_def)
        qed (use kf kl r in simp_all)
      qed
    qed
  qed
qed

text \<open>All layers.\<close>

lemma post_check_ranks:
  assumes md: "mode_ok (ck_alphabet ck) md Ns I G"
    and x: "\<And>k i. k < levels \<Longrightarrow> i < nfair_disj (al_game (ck_alphabet ck)) \<Longrightarrow> means den (md_x md ! k ! i) (X k i)"
    and y: "\<And>k. k < levels \<Longrightarrow> means den (md_y md ! k) (Y k)"
    and fair: "\<And>i. i < length (gm_fair (ck_game ck)) \<Longrightarrow> means den (gm_fair (ck_game ck) ! i) (F i)"
    and nf: "length (gm_fair (ck_game ck)) = length (aig_fairs (al_game (ck_alphabet ck)))"
    and V: "means den v V"
    and Q: "\<And>r s'. later s s' \<Longrightarrow> means den r (\<lambda>\<rho>. V \<rho> \<or> rank_violation X I G
      (\<lambda>ki \<rho>. allowed_step (length (gm_fair (ck_game ck))) X Y F G I ki (upd (take (nstate (ck_alphabet ck)) (al_qvar (ck_alphabet ck))) Ns \<rho>))
      (concat (map (\<lambda>k. map (Pair k) [0..<nfair_disj (al_game (ck_alphabet ck))]) [0..<levels])) \<rho>) \<Longrightarrow> Q r s'"
  shows "post (check_ranks B opt ck md levels v) Q s"
proof -
  let ?A = "ck_alphabet ck" and ?fair = "gm_fair (ck_game ck)"
  let ?nf = "nfair_disj (al_game ?A)"
  let ?ok = "\<lambda>ki \<rho>. allowed_step (length ?fair) X Y F G I ki (upd (take (nstate ?A) (al_qvar ?A)) Ns \<rho>)"
  let ?ps = "concat (map (\<lambda>k. map (Pair k) [0..<?nf]) [0..<levels])"
  let ?R = "\<lambda>ys \<rho>. (I \<rho> \<and> G \<rho>) \<or> (\<exists>(k, i)\<in>set ys. X k i \<rho>)"
  define J where "J ys pg \<longleftrightarrow> means den (pg_violation pg) (\<lambda>\<rho>. V \<rho> \<or> rank_violation X I G ?ok ys \<rho>) \<and>
    means den (pg_ranked pg) (?R ys) \<and> length (pg_fair pg) = ?nf \<and> length (pg_lower pg) = levels - 1 \<and>
    kept_ok F ?A Ns (pg_fair pg) \<and> kept_ok Y ?A Ns (pg_lower pg)" for ys and pg :: "'b progress_state"
  have I: "means den (md_inv md) I" and G: "means den (md_goal md) G" using md by (simp_all add: mode_ok_def)
  show ?thesis unfolding check_ranks_def Let_def
  proof (rule post_bind, rule post_and [OF I G], rule post_bind)
    fix g t assume l: "later s t" and g: "means den g (\<lambda>\<rho>. I \<rho> \<and> G \<rho>)"
    show "post (fold_state (check_progress B (opt_rebuild opt) ?A ?fair md) ?ps
        \<lparr>pg_violation = v, pg_ranked = g, pg_fair = replicate ?nf None, pg_lower = replicate (levels - 1) None\<rparr>)
      (\<lambda>pg. post (State_Monad.return (pg_violation pg)) Q) t"
    proof (rule post_fold_state [where I = J])
      show "J [] \<lparr>pg_violation = v, pg_ranked = g, pg_fair = replicate ?nf None, pg_lower = replicate (levels - 1) None\<rparr>"
        using V g by (simp add: J_def rank_violation_def)
    next
      fix ys ki zs pg u assume split: "?ps = ys @ ki # zs" and J: "J ys pg"
      obtain k i where ki: "ki = (k, i)" by (cases ki)
      have "ki \<in> set ?ps" unfolding split by simp
      then have b: "k < levels" "i < ?nf" by (auto simp: ki)
      show "post (check_progress B (opt_rebuild opt) ?A ?fair md ki pg) (\<lambda>pg' u'. later u u' \<and> J (ys @ [ki]) pg') u"
        unfolding ki
      proof (rule post_check_progress [where I = I and G = G and X = X and Y = Y and F = F, OF md x [OF b]])
        show "0 < k \<Longrightarrow> means den (md_y md ! (k - 1)) (Y (k - 1)) \<and> k - 1 < length (pg_lower pg)"
          using y [of "k - 1"] b J by (auto simp: J_def)
        show "means den (?fair ! i) (F i) \<and> i < length (pg_fair pg)" if "?fair \<noteq> []"
        proof -
          have "?nf = length ?fair" using that nf by (auto simp: nfair_disj_def)
          then show ?thesis using fair [of i] b J by (simp add: J_def)
        qed
        show "means den (pg_violation pg) (\<lambda>\<rho>. V \<rho> \<or> rank_violation X I G ?ok ys \<rho>)" "means den (pg_ranked pg) (?R ys)"
          "kept_ok F ?A Ns (pg_fair pg)" "kept_ok Y ?A Ns (pg_lower pg)" using J by (simp_all add: J_def)
        fix pg' :: "'b progress_state" and u'
        assume "later u u'" and v': "means den (pg_violation pg') (\<lambda>\<rho>. (V \<rho> \<or> rank_violation X I G ?ok ys \<rho>) \<or>
            I \<rho> \<and> X k i \<rho> \<and> \<not> ?R ys \<rho> \<and> \<not> ?ok (k, i) \<rho>)"
          and r': "means den (pg_ranked pg') (\<lambda>\<rho>. ?R ys \<rho> \<or> X k i \<rho>)"
          and k': "length (pg_fair pg') = length (pg_fair pg)" "length (pg_lower pg') = length (pg_lower pg)"
            "kept_ok F ?A Ns (pg_fair pg')" "kept_ok Y ?A Ns (pg_lower pg')"
        have "means den (pg_violation pg') (\<lambda>\<rho>. V \<rho> \<or> rank_violation X I G ?ok (ys @ [(k, i)]) \<rho>)"
          by (rule means_cong [OF v']) (simp add: rank_violation_snoc)
        moreover have "means den (pg_ranked pg') (?R (ys @ [(k, i)]))" by (rule means_cong [OF r']) auto
        ultimately show "later u u' \<and> J (ys @ [(k, i)]) pg'" using \<open>later u u'\<close> k' J by (simp add: J_def)
      qed
    next
      fix pg u assume "later t u" "J ?ps pg"
      then show "post (State_Monad.return (pg_violation pg)) Q u"
        by (intro post_return Q) (use l in \<open>auto simp: J_def intro: later_trans\<close>)
    qed
  qed
qed

text \<open>The counter.\<close>

lemma post_check_counters:
  assumes md: "mode_ok A md Ns I G" and n: "length counter_next = length Cs" "all_mean den counter_next Cs" "n \<le> length Cs"
    and V: "means den v V"
    and Q: "\<And>r s'. later s s' \<Longrightarrow> means den r (\<lambda>\<rho>. V \<rho> \<or> (\<exists>q<n. I \<rho> \<and> (Cs ! q) \<rho> \<noteq> expected n goal q (G \<rho>))) \<Longrightarrow> Q r s'"
  shows "post (fold_state (check_counter B md n goal counter_next) [0..<n] v) Q s"
proof (rule post_fold_state [where I = "\<lambda>ys v. means den v (\<lambda>\<rho>. V \<rho> \<or> (\<exists>q\<in>set ys. I \<rho> \<and> (Cs ! q) \<rho> \<noteq> expected n goal q (G \<rho>)))"])
  show "means den v (\<lambda>\<rho>. V \<rho> \<or> (\<exists>q\<in>set []. I \<rho> \<and> (Cs ! q) \<rho> \<noteq> expected n goal q (G \<rho>)))" using V by simp
next
  fix ys q zs w u
  assume split: "[0..<n] = ys @ q # zs" and w: "means den w (\<lambda>\<rho>. V \<rho> \<or> (\<exists>q\<in>set ys. I \<rho> \<and> (Cs ! q) \<rho> \<noteq> expected n goal q (G \<rho>)))"
  have "q \<in> set [0..<n]" unfolding split by simp
  then have "means den (counter_next ! q) (Cs ! q)" using n by (auto simp: all_mean_def list_all2_conv_all_nth)
  note c = this
  have I: "means den (md_inv md) I" and G: "means den (md_goal md) G" using md by (simp_all add: mode_ok_def)
  have e: "post (expected_counter B (md_goal md) n goal q) R u" if "\<And>r s'. later u s' \<Longrightarrow> means den r (\<lambda>\<rho>. expected n goal q (G \<rho>)) \<Longrightarrow> R r s'" for R
    unfolding expected_counter_def Let_def
    by (intro post_if post_true post_false post_not [OF G] post_return that)
      (use G in \<open>auto simp: expected_def means_def fun_eq_iff\<close>)
  show "post (check_counter B md n goal counter_next q w) (\<lambda>r s'. later u s' \<and>
    means den r (\<lambda>\<rho>. V \<rho> \<or> (\<exists>q\<in>set (ys @ [q]). I \<rho> \<and> (Cs ! q) \<rho> \<noteq> expected n goal q (G \<rho>)))) u"
    unfolding check_counter_def
  proof (rule post_bind, rule e, rule post_bind, rule post_xor [OF c], assumption, rule post_bind, rule post_and [OF I], assumption,
      rule post_or_into [OF w], assumption)
    fix r1 t1 r2 t2 r3 t3 r4 t4
    assume l: "later u t1" "later t1 t2" "later t2 t3" "later t3 t4"
      and r: "means den r4 (\<lambda>\<rho>. (V \<rho> \<or> (\<exists>q\<in>set ys. I \<rho> \<and> (Cs ! q) \<rho> \<noteq> expected n goal q (G \<rho>))) \<or>
        I \<rho> \<and> (Cs ! q) \<rho> \<noteq> expected n goal q (G \<rho>))"
    have "later u t4" using l by (rule later_trans4)
    moreover have "means den r4 (\<lambda>\<rho>. V \<rho> \<or> (\<exists>q\<in>set (ys @ [q]). I \<rho> \<and> (Cs ! q) \<rho> \<noteq> expected n goal q (G \<rho>)))"
      by (rule means_cong [OF r]) auto
    ultimately show "later u t4 \<and> means den r4 (\<lambda>\<rho>. V \<rho> \<or> (\<exists>q\<in>set (ys @ [q]). I \<rho> \<and> (Cs ! q) \<rho> \<noteq> expected n goal q (G \<rho>)))" ..
  qed
next
  fix r u assume "later s u" and r: "means den r (\<lambda>\<rho>. V \<rho> \<or> (\<exists>q\<in>set [0..<n]. I \<rho> \<and> (Cs ! q) \<rho> \<noteq> expected n goal q (G \<rho>)))"
  show "Q r u" by (rule Q [OF \<open>later s u\<close>], rule means_cong [OF r]) auto
qed

lemma post_map_state:
  assumes "\<And>h P s Q. R h P \<Longrightarrow> (\<And>r s'. later s s' \<Longrightarrow> means den r (T P) \<Longrightarrow> Q r s') \<Longrightarrow> post (f h) Q s"
  shows "list_all2 R hs Ps \<Longrightarrow> (\<And>r s'. later s s' \<Longrightarrow> all_mean den r (map T Ps) \<Longrightarrow> Q r s') \<Longrightarrow> post (map_state f hs) Q s"
proof (induction hs arbitrary: Ps s Q)
  case Nil
  show ?case unfolding map_state.simps by (intro post_return Nil.prems(2)) (use Nil.prems(1) in \<open>simp_all add: all_mean_def\<close>)
next
  case (Cons h hs)
  obtain P Ps' where Ps: "Ps = P # Ps'" "R h P" "list_all2 R hs Ps'" using Cons.prems(1) by (auto simp: list_all2_Cons1)
  show ?case unfolding map_state.simps
  proof (rule post_bind, rule assms [OF Ps(2)], rule post_bind, rule Cons.IH [OF Ps(3)], rule post_return, rule Cons.prems(2))
    fix r t rs u assume "later s t" "later t u" "means den r (T P)" "all_mean den rs (map T Ps')"
    then show "later s u" "all_mean den (r # rs) (map T Ps)" by (auto simp: Ps(1) all_mean_def intro: later_trans)
  qed
qed

text \<open>The policy of a mode; its parts may be null only when the outputs were restricted one by one.\<close>

definition mode_outputs :: "'b alphabet \<Rightarrow> int \<Rightarrow> 'b option list \<times> 'b option list \<Rightarrow> bool" where
  "mode_outputs A mode cn \<longleftrightarrow> length (fst cn) = length (cinputs (al_game A)) \<and>
     (\<exists>lits. policy_root_literals (al_game A) (al_ncounter A) (al_policy A) = Some lits \<and>
       all_mean den (fst cn @ snd cn) (map (\<lambda>l \<rho>. aig_val (al_policy A) (policy_view A (\<lambda>_. one_hot (al_ncounter A) mode) \<rho>) l) lits))"

lemma outputs_mean_mode: "outputs_mean den A (counters A mode True) cn \<Longrightarrow> mode_outputs A mode cn"
proof -
  have c: "counters A mode True = (\<lambda>_. one_hot (al_ncounter A) mode)" by (rule ext) (simp add: counters_def)
  show "outputs_mean den A (counters A mode True) cn \<Longrightarrow> mode_outputs A mode cn"
    unfolding c outputs_mean_def mode_outputs_def by (auto dest!: roots_all_mean)
qed

lemma post_restrict_mode:
  assumes A: "alphabet_ok den vars A"
    and cube: "means den cube (\<lambda>\<rho>. \<forall>j<al_ncounter A. \<rho> (al_qvar A ! (nstate A + j)) = (mode = int j))"
    and h: "means den h P" and Q: "\<And>r s'. later s s' \<Longrightarrow> means den r (\<lambda>\<rho>. P (in_mode A mode \<rho>)) \<Longrightarrow> Q r s'"
  shows "post (ext (ox_restrict B h cube)) Q s"
proof -
  have "post (ext (ox_restrict B h cube)) Q s"
    if c: "means den cube (\<lambda>\<rho>. \<forall>v\<in>set (drop (nstate A) (al_qvar A)). \<rho> v = (\<exists>j<al_ncounter A. v = al_qvar A ! (nstate A + j) \<and> mode = int j))"
    by (rule post_restrict [OF h c]) (use Q in \<open>simp_all add: in_mode_def\<close>)
  then show ?thesis using mode_cube [OF A cube] by blast
qed

lemma post_mode_policy:
  assumes A: "alphabet_ok den vars A" and pc: "cache_ok den A pc"
    and cube: "means den cube (\<lambda>\<rho>. \<forall>j<al_ncounter A. \<rho> (al_qvar A ! (nstate A + j)) = (mode = int j))"
    and Q: "\<And>r pc' s'. later s s' \<Longrightarrow> cache_ok den A pc' \<Longrightarrow> (\<And>cn. r = Some cn \<Longrightarrow> mode_outputs A mode cn) \<Longrightarrow> Q (r, pc') s'"
  shows "post (mode_policy B K opt A mode cube pc) Q s"
  unfolding mode_policy_def
proof (rule post_if)
  show "post (compile_policy_roots B K A mode True pc) Q s"
    by (rule post_compile_policy [OF A pc]) (use Q outputs_mean_mode in blast)
  show "post (case pc_full pc of None \<Rightarrow> State_Monad.return (None, pc)
     | Some (cs, ns) \<Rightarrow>
         do { control \<leftarrow> map_state (\<lambda>h. ext (ox_restrict B h cube)) cs;
              counter_next \<leftarrow> map_state (\<lambda>h. ext (ox_restrict B h cube)) ns;
              State_Monad.return (Some (control, counter_next), pc) }) Q s"
  proof (cases "pc_full pc")
    case None
    have "Q (None, pc) s" by (rule Q [OF later_refl pc]) simp
    then show ?thesis by (simp add: None post_return)
  next
    case (Some cn)
    obtain cs ns where cn: "cn = (cs, ns)" by (cases cn)
    let ?nc = "length (cinputs (al_game A))"
    have "outputs_mean den A (cnt_of A) (cs, ns)" using pc Some cn by (simp add: cache_ok_def)
    then obtain lits where lits: "length cs = ?nc" "policy_root_literals (al_game A) (al_ncounter A) (al_policy A) = Some lits"
      "roots_mean den (al_policy A) (policy_view A (cnt_of A)) (cs @ ns) lits" by (auto simp: outputs_mean_def)
    let ?P = "\<lambda>l \<rho>. aig_val (al_policy A) (policy_view A (cnt_of A) \<rho>) l"
    have m: "list_all2 (means den) (cs @ ns) (map ?P lits)" using roots_all_mean [OF lits(3)] by (simp add: all_mean_def)
    have "list_all2 (means den) cs (take ?nc (map ?P lits))" "list_all2 (means den) ns (drop ?nc (map ?P lits))"
      using list_all2_takeI [OF m, of ?nc] list_all2_dropI [OF m, of ?nc] lits(1) by simp_all
    note parts = this
    let ?T = "\<lambda>P \<rho>. P (in_mode A mode \<rho>)"
    have restrict: "post (ext (ox_restrict B h cube)) R t" if "means den h P"
      "\<And>r s'. later t s' \<Longrightarrow> means den r (?T P) \<Longrightarrow> R r s'" for h P t R
      by (rule post_restrict_mode [OF A cube that(1)]) (rule that(2))
    have "post (do { control \<leftarrow> map_state (\<lambda>h. ext (ox_restrict B h cube)) cs;
        counter_next \<leftarrow> map_state (\<lambda>h. ext (ox_restrict B h cube)) ns;
        State_Monad.return (Some (control, counter_next), pc) }) Q s"
    proof (rule post_bind, rule post_map_state [where R = "means den" and T = ?T and hs = cs, OF restrict parts(1)], assumption, assumption,
        rule post_bind, rule post_map_state [where R = "means den" and T = ?T and hs = ns, OF restrict parts(2)], assumption, assumption,
        rule post_return)
      fix control t counter_next u
      assume l: "later s t" "later t u"
        and c: "all_mean den control (map ?T (take ?nc (map ?P lits)))" "all_mean den counter_next (map ?T (drop ?nc (map ?P lits)))"
      have m': "all_mean den (control @ counter_next) (map ?T (map ?P lits))"
        using list_all2_appendI [OF c [unfolded all_mean_def]] unfolding all_mean_def map_append [symmetric] append_take_drop_id .
      have eq: "map ?T (map ?P lits) = map (\<lambda>l \<rho>. aig_val (al_policy A) (policy_view A (\<lambda>_. one_hot (al_ncounter A) mode) \<rho>) l) lits"
        by (simp add: in_mode_view [OF A] comp_def)
      have lc: "length control = ?nc" using c(1) parts(1) lits(1) by (auto simp: all_mean_def dest!: list_all2_lengthD)
      have "mode_outputs A mode (control, counter_next)"
        unfolding mode_outputs_def fst_conv snd_conv using lc lits(2) m' [unfolded eq] by blast
      then show "Q (Some (control, counter_next), pc) u" using Q [OF later_trans [OF l] pc] by blast
    qed
    then show ?thesis by (simp add: Some cn)
  qed
qed

lemma post_open_mode:
  assumes I: "means den (ce_inv (ck_cert ck)) I" and G: "means den (gm_goal (ck_game ck) ! goal) G"
    and N: "all_mean den next Ns" "length (take (nstate (ck_alphabet ck)) (al_qvar (ck_alphabet ck))) = length Ns"
      "distinct (take (nstate (ck_alphabet ck)) (al_qvar (ck_alphabet ck)))"
    and Q: "\<And>md s'. later s s' \<Longrightarrow> mode_ok (ck_alphabet ck) md Ns I G \<Longrightarrow>
      md_y md = ce_y (ck_cert ck) ! goal \<Longrightarrow> md_x md = ce_x (ck_cert ck) ! goal \<Longrightarrow> Q md s'"
  shows "post (open_mode B opt ck goal next) Q s"
  unfolding open_mode_def Let_def
proof (rule post_bind, rule post_successor [OF I N], rule post_bind, rule post_if)
  let ?S = "upd (take (nstate (ck_alphabet ck)) (al_qvar (ck_alphabet ck))) Ns"
  fix ni t assume l: "later s t" and ni: "means den ni (\<lambda>\<rho>. I (?S \<rho>))"
  have fin: "Q \<lparr>md_next = next, md_inv = ce_inv (ck_cert ck), md_next_inv = ni, md_goal = gm_goal (ck_game ck) ! goal,
      md_goal_and_inv = g, md_y = ce_y (ck_cert ck) ! goal, md_x = ce_x (ck_cert ck) ! goal\<rparr> u"
    if "later t u" "means den g (\<lambda>\<rho>. G (?S \<rho>) \<and> I (?S \<rho>))" for g u
    by (rule Q [OF later_trans [OF l that(1)]]) (use I G N ni that(2) in \<open>simp_all add: mode_ok_def\<close>)
  show "post (State_Monad.return None) (\<lambda>g. post (State_Monad.return \<lparr>md_next = next, md_inv = ce_inv (ck_cert ck), md_next_inv = ni,
      md_goal = gm_goal (ck_game ck) ! goal, md_goal_and_inv = g, md_y = ce_y (ck_cert ck) ! goal, md_x = ce_x (ck_cert ck) ! goal\<rparr>) Q) t"
    by (intro post_return fin) simp_all
  show "post (do { g \<leftarrow> successor B (ck_alphabet ck) next (gm_goal (ck_game ck) ! goal); bdd_and_into B g ni })
    (\<lambda>g. post (State_Monad.return \<lparr>md_next = next, md_inv = ce_inv (ck_cert ck), md_next_inv = ni,
      md_goal = gm_goal (ck_game ck) ! goal, md_goal_and_inv = g, md_y = ce_y (ck_cert ck) ! goal, md_x = ce_x (ck_cert ck) ! goal\<rparr>) Q) t"
    by (rule post_bind, rule post_successor [OF G N], rule post_and_into [OF _ ni], assumption, rule post_return, rule fin)
      (auto intro: later_trans)
qed

lemma post_check_inductive:
  assumes md: "mode_ok A md Ns I G" and bad: "means den bad V"
    and Q: "\<And>r s'. later s s' \<Longrightarrow>
      means den r (\<lambda>\<rho>. I \<rho> \<and> V \<rho> \<or> I \<rho> \<and> \<not> I (upd (take (nstate A) (al_qvar A)) Ns \<rho>)) \<Longrightarrow> Q r s'"
  shows "post (check_inductive B md bad) Q s"
proof -
  have I: "means den (md_inv md) I" and NI: "means den (md_next_inv md) (\<lambda>\<rho>. I (upd (take (nstate A) (al_qvar A)) Ns \<rho>))"
    using md by (simp_all add: mode_ok_def)
  show ?thesis unfolding check_inductive_def
  proof (rule post_bind, rule post_and [OF I bad], rule post_bind, rule post_not [OF NI], rule post_bind, rule post_and [OF I], assumption,
      rule post_or_into, assumption, assumption)
    fix r1 t1 r2 t2 r3 t3 r4 t4
    assume l: "later s t1" "later t1 t2" "later t2 t3" "later t3 t4"
      and r: "means den r4 (\<lambda>\<rho>. I \<rho> \<and> V \<rho> \<or> I \<rho> \<and> \<not> I (upd (take (nstate A) (al_qvar A)) Ns \<rho>))"
    have "later s t4" using l by (rule later_trans4)
    then show "Q r4 t4" using r by (rule Q)
  qed
qed

end

end
