(* ===== verification/Gr1_Check_Correct.thy ===== *)
theory Gr1_Check_Correct
  imports Gr1_Mode_Correct
begin

text \<open>
  What the verdict of the certificate check establishes: the one-step obligations of every counter
  mode, the initiality of the invariant, and the coverage of its states by ranks.
\<close>

lemma goal_literals_length: "length (goal_literals g) = count_goals g"
proof -
  have "foldl (\<lambda>n j. n + (if j_lits j \<noteq> [] then length (j_lits j) else 1)) a js =
    a + length (concat (map (\<lambda>j. if j_lits j = [] then [AIG_TRUE] else j_lits j) js))" for a and js :: "justice list"
    by (induction js arbitrary: a) auto
  then show ?thesis by (simp add: goal_literals_def count_goals_def)
qed

context oxidd_laws
begin

subsection \<open>The obligations of a mode\<close>

text \<open>The controls, the counters and the next state that the policy chooses in a mode.\<close>

definition policy_pred :: "'b checker \<Rightarrow> int \<Rightarrow> u32 \<Rightarrow> assignment \<Rightarrow> bool" where
  "policy_pred ck mode l \<rho> = (let A = ck_alphabet ck in
     aig_val (al_policy A) (policy_view A (\<lambda>_. one_hot (al_ncounter A) mode) \<rho>) l)"

definition mode_control :: "'b checker \<Rightarrow> u32 list \<Rightarrow> int \<Rightarrow> assignment \<Rightarrow> assignment" where
  "mode_control ck lits mode = (let A = ck_alphabet ck in
     upd (al_cvar A) (map (policy_pred ck mode) (take (length (cinputs (al_game A))) lits)))"

definition mode_counter :: "'b checker \<Rightarrow> u32 list \<Rightarrow> int \<Rightarrow> nat \<Rightarrow> assignment \<Rightarrow> bool" where
  "mode_counter ck lits mode q = policy_pred ck mode (lits ! (length (cinputs (al_game (ck_alphabet ck))) + q))"

definition mode_step :: "'b checker \<Rightarrow> u32 list \<Rightarrow> int \<Rightarrow> assignment \<Rightarrow> assignment" where
  "mode_step ck lits mode = (let A = ck_alphabet ck in
     upd (take (nstate A) (al_qvar A)) (map (\<lambda>l \<rho>. game_lit A l (mode_control ck lits mode \<rho>)) (map lat_next (aig_lats (al_game A)))))"

abbreviation ck_inv :: "'b checker \<Rightarrow> assignment \<Rightarrow> bool" where
  "ck_inv ck \<equiv> pr (ce_inv (ck_cert ck))"

abbreviation ck_goal :: "'b checker \<Rightarrow> nat \<Rightarrow> assignment \<Rightarrow> bool" where
  "ck_goal ck j \<equiv> game_lit (ck_alphabet ck) (goal_literals (al_game (ck_alphabet ck)) ! j)"

abbreviation ck_fair :: "'b checker \<Rightarrow> nat \<Rightarrow> assignment \<Rightarrow> bool" where
  "ck_fair ck i \<equiv> game_lit (ck_alphabet ck) (n_lit (aig_fairs (al_game (ck_alphabet ck)) ! i))"

abbreviation ck_x :: "'b checker \<Rightarrow> nat \<Rightarrow> nat \<Rightarrow> nat \<Rightarrow> assignment \<Rightarrow> bool" where
  "ck_x ck j k i \<equiv> pr (ce_x (ck_cert ck) ! j ! k ! i)"

abbreviation ck_y :: "'b checker \<Rightarrow> nat \<Rightarrow> nat \<Rightarrow> assignment \<Rightarrow> bool" where
  "ck_y ck j k \<equiv> pr (ce_y (ck_cert ck) ! j ! k)"

definition layers_of :: "'b checker \<Rightarrow> nat \<Rightarrow> (nat \<times> nat) list" where
  "layers_of ck j = concat (map (\<lambda>k. map (Pair k) [0..<nfair_disj (al_game (ck_alphabet ck))]) [0..<ce_levels (ck_cert ck) ! j])"

definition escape :: "'b checker \<Rightarrow> nat \<Rightarrow> nat \<times> nat \<Rightarrow> assignment \<Rightarrow> bool" where
  "escape ck j = allowed_step (length (aig_fairs (al_game (ck_alphabet ck)))) (ck_x ck j) (ck_y ck j) (ck_fair ck) (ck_goal ck j) (ck_inv ck)"

text \<open>An assignment from which the policy misbehaves.\<close>

definition mode_bad :: "'b checker \<Rightarrow> u32 list \<Rightarrow> int \<Rightarrow> assignment \<Rightarrow> bool" where
  "mode_bad ck lits mode \<rho> \<longleftrightarrow> (let A = ck_alphabet ck; j = goal_of mode in
     ck_inv ck \<rho> \<and> (\<exists>l\<in>set (bad_literals (al_game A)). game_lit A l (mode_control ck lits mode \<rho>)) \<or>
     ck_inv ck \<rho> \<and> \<not> ck_inv ck (mode_step ck lits mode \<rho>) \<or>
     (\<exists>q<al_ncounter A. ck_inv ck \<rho> \<and> mode_counter ck lits mode q \<rho> \<noteq> expected (al_ncounter A) j q (ck_goal ck j \<rho>)) \<or>
     rank_violation (ck_x ck j) (ck_inv ck) (ck_goal ck j) (\<lambda>ki \<rho>. escape ck j ki (mode_step ck lits mode \<rho>)) (layers_of ck j) \<rho>)"

lemma post_mode_violation:
  assumes ck: "checker_ok ck" and j: "goal_of mode < al_ncounter (ck_alphabet ck)"
    and n: "al_ncounter (ck_alphabet ck) = count_goals (al_game (ck_alphabet ck))"
    and ll: "length lits = length (cinputs (al_game (ck_alphabet ck))) + al_ncounter (ck_alphabet ck)"
    and c: "all_mean den control (map (policy_pred ck mode) (take (length (cinputs (al_game (ck_alphabet ck)))) lits))"
      "all_mean den counter_next (map (policy_pred ck mode) (drop (length (cinputs (al_game (ck_alphabet ck)))) lits))"
    and Q: "\<And>r s'. later s s' \<Longrightarrow> means den r (mode_bad ck lits mode) \<Longrightarrow> Q r s'"
  shows "post (mode_violation B opt ck (goal_of mode) control counter_next) Q s"
proof -
  let ?A = "ck_alphabet ck" and ?g = "al_game (ck_alphabet ck)" and ?j = "goal_of mode"
  let ?nc = "length (cinputs ?g)" and ?S = "mode_step ck lits mode" and ?C = "mode_control ck lits mode"
  let ?Ns = "map (\<lambda>P \<rho>. P (?C \<rho>)) (map (game_lit ?A) (map lat_next (aig_lats ?g)))"
  let ?Ks = "map (policy_pred ck mode) (drop ?nc lits)"
  have A: "alphabet_ok den vars ?A" and gm: "game_ok den ?A (ck_game ck)" using ck by (simp_all add: checker_ok_def)
  have goals: "all_mean den (gm_goal (ck_game ck)) (map (game_lit ?A) (goal_literals ?g))"
    and fairs: "all_mean den (gm_fair (ck_game ck)) (map (game_lit ?A) (map n_lit (aig_fairs ?g)))"
    and bad: "means den (gm_bad (ck_game ck)) (\<lambda>\<rho>. \<exists>l\<in>set (bad_literals ?g). game_lit ?A l \<rho>)"
    and nexts: "all_mean den (gm_next (ck_game ck)) (map (game_lit ?A) (map lat_next (aig_lats ?g)))"
    using gm by (simp_all add: game_ok_def)
  have G: "means den (gm_goal (ck_game ck) ! ?j) (ck_goal ck ?j)"
    using goals j n by (auto simp: all_mean_def list_all2_conv_all_nth goal_literals_length)
  have nf: "length (gm_fair (ck_game ck)) = length (aig_fairs ?g)" using fairs by (auto simp: all_mean_def dest: list_all2_lengthD)
  have F: "means den (gm_fair (ck_game ck) ! i) (ck_fair ck i)" if "i < length (gm_fair (ck_game ck))" for i
    using fairs that by (auto simp: all_mean_def list_all2_conv_all_nth)
  have cv: "length (al_cvar ?A) = length (map (policy_pred ck mode) (take ?nc lits))" "distinct (al_cvar ?A)" using A ll by (simp_all add: alphabet_ok_def)
  have sub: "post (substitute_controls B ?A control h) R t" if "means den h P"
    "\<And>r s'. later t s' \<Longrightarrow> means den r (\<lambda>\<rho>. P (?C \<rho>)) \<Longrightarrow> R r s'" for h P R t
    unfolding substitute_controls_def
    by (rule post_zip_substitute [OF that(1) c(1) cv]) (use that(2) in \<open>simp_all add: mode_control_def Let_def\<close>)
  have nl: "length (take (nstate ?A) (al_qvar ?A)) = length ?Ns" "distinct (take (nstate ?A) (al_qvar ?A))"
    using A by (simp_all add: alphabet_ok_def)
  have S: "upd (take (nstate ?A) (al_qvar ?A)) ?Ns = ?S" by (simp add: mode_step_def Let_def comp_def)
  have kl: "length counter_next = length ?Ks" "al_ncounter ?A \<le> length ?Ks"
    using c(2) ll by (auto simp: all_mean_def dest: list_all2_lengthD)
  show ?thesis unfolding mode_violation_def Let_def
  proof (rule post_bind, rule sub [OF bad], rule post_bind,
      rule post_map_state [where R = "means den" and T = "\<lambda>P \<rho>. P (?C \<rho>)" and Ps = "map (game_lit ?A) (map lat_next (aig_lats ?g))"],
      rule sub, assumption, assumption, rule nexts [unfolded all_mean_def],
      rule post_bind, rule post_open_mode [OF means_pred G _ nl], assumption,
      rule post_bind, rule post_check_inductive, assumption, assumption,
      rule post_bind, rule post_check_counters [OF _ kl(1) c(2) kl(2)], assumption, assumption)
    fix bad' s1 next' s2 md s3 v1 s4 v2 s5
    assume l: "later s s1" "later s1 s2" "later s2 s3" "later s3 s4" "later s4 s5"
      and md: "mode_ok ?A md ?Ns (ck_inv ck) (ck_goal ck ?j)"
      and my: "md_y md = ce_y (ck_cert ck) ! ?j" and mx: "md_x md = ce_x (ck_cert ck) ! ?j"
    let ?V = "\<lambda>\<rho>. (ck_inv ck \<rho> \<and> (\<exists>l\<in>set (bad_literals ?g). game_lit ?A l (?C \<rho>)) \<or>
      ck_inv ck \<rho> \<and> \<not> ck_inv ck (upd (take (nstate ?A) (al_qvar ?A)) ?Ns \<rho>)) \<or>
      (\<exists>q<al_ncounter ?A. ck_inv ck \<rho> \<and> (?Ks ! q) \<rho> \<noteq> expected (al_ncounter ?A) ?j q (ck_goal ck ?j \<rho>))"
    assume v2: "means den v2 ?V"
    have l5: "later s s5" using later_trans [OF later_trans4 [OF l(1-4)] l(5)] .
    show "post (check_ranks B opt ck md (ce_levels (ck_cert ck) ! ?j) v2) Q s5"
    proof (rule post_check_ranks [where F = "ck_fair ck" and X = "ck_x ck ?j" and Y = "ck_y ck ?j", OF md _ _ F nf v2])
      show "means den (md_x md ! k ! i) (ck_x ck ?j k i)" "means den (md_y md ! k) (ck_y ck ?j k)" for k i
        unfolding mx my by (rule means_pred)+
      fix r s6 assume l6: "later s5 s6" and r: "means den r (\<lambda>\<rho>. ?V \<rho> \<or> rank_violation (ck_x ck ?j) (ck_inv ck) (ck_goal ck ?j)
        (\<lambda>ki \<rho>. allowed_step (length (gm_fair (ck_game ck))) (ck_x ck ?j) (ck_y ck ?j) (ck_fair ck) (ck_goal ck ?j) (ck_inv ck) ki
          (upd (take (nstate ?A) (al_qvar ?A)) ?Ns \<rho>))
        (concat (map (\<lambda>k. map (Pair k) [0..<nfair_disj ?g]) [0..<ce_levels (ck_cert ck) ! ?j])) \<rho>)"
      have K: "?Ks ! q = mode_counter ck lits mode q" if "q < al_ncounter ?A" for q
        using that ll by (simp add: mode_counter_def)
      have "?V \<rho> \<or> rank_violation (ck_x ck ?j) (ck_inv ck) (ck_goal ck ?j)
          (\<lambda>ki \<rho>. allowed_step (length (gm_fair (ck_game ck))) (ck_x ck ?j) (ck_y ck ?j) (ck_fair ck) (ck_goal ck ?j) (ck_inv ck) ki
            (upd (take (nstate ?A) (al_qvar ?A)) ?Ns \<rho>))
          (concat (map (\<lambda>k. map (Pair k) [0..<nfair_disj ?g]) [0..<ce_levels (ck_cert ck) ! ?j])) \<rho> \<longleftrightarrow> mode_bad ck lits mode \<rho>" for \<rho>
        unfolding S nf mode_bad_def Let_def escape_def layers_of_def using K by auto
      then have "means den r (mode_bad ck lits mode)" using r by (simp only:)
      then show "Q r s6" by (rule Q [OF later_trans [OF l5 l6]])
    qed
  qed
qed

lemma post_check_mode:
  assumes ck: "checker_ok ck" and pc: "cache_ok den (ck_alphabet ck) pc" and j: "goal_of mode < al_ncounter (ck_alphabet ck)"
    and n: "al_ncounter (ck_alphabet ck) = count_goals (al_game (ck_alphabet ck))"
    and Q: "\<And>r pc' s'. later s s' \<Longrightarrow> cache_ok den (ck_alphabet ck) pc' \<Longrightarrow> (r = CHECK_VERIFIED \<Longrightarrow>
      \<exists>lits. policy_root_literals (al_game (ck_alphabet ck)) (al_ncounter (ck_alphabet ck)) (al_policy (ck_alphabet ck)) = Some lits \<and>
        (\<forall>\<rho>. \<not> mode_bad ck lits mode \<rho>)) \<Longrightarrow> Q (r, pc') s'"
  shows "post (check_mode B K opt ck mode pc) Q s"
proof -
  let ?A = "ck_alphabet ck"
  have A: "alphabet_ok den vars ?A" using ck by (simp add: checker_ok_def)
  show ?thesis unfolding check_mode_def
  proof (rule post_bind, rule post_assignment_cube [OF A], rule post_bind, rule post_mode_policy [OF A pc], assumption, unfold prod.case,
      intro post_option post_return)
    fix cube s1 policy pc' s2 cn
    assume l: "later s s1" "later s1 s2" and pc': "cache_ok den ?A pc'" and m: "\<And>cn. policy = Some cn \<Longrightarrow> mode_outputs ?A mode cn"
    have l2: "later s s2" using l by (rule later_trans)
    have stop: "Q (r, pc') t" if "later s t" "r \<noteq> CHECK_VERIFIED" for r t by (rule Q [OF that(1) pc']) (use that(2) in simp)
    show "Q (CHECK_UNKNOWN, pc') s2" by (rule stop [OF l2]) simp
    assume "policy = Some cn"
    then have mo: "mode_outputs ?A mode cn" by (rule m)
    obtain control counter_next where cn: "cn = (control, counter_next)" by (cases cn)
    let ?nc = "length (cinputs (al_game ?A))"
    obtain lits where lits: "policy_root_literals (al_game ?A) (al_ncounter ?A) (al_policy ?A) = Some lits" "length control = ?nc"
      and all: "all_mean den (control @ counter_next) (map (policy_pred ck mode) lits)"
    proof -
      have "(\<lambda>l \<rho>. aig_val (al_policy ?A) (policy_view ?A (\<lambda>_. one_hot (al_ncounter ?A) mode) \<rho>) l) = policy_pred ck mode"
        by (simp add: policy_pred_def Let_def fun_eq_iff)
      with mo that show ?thesis by (auto simp: mode_outputs_def cn)
    qed
    have c: "all_mean den control (map (policy_pred ck mode) (take ?nc lits))" "all_mean den counter_next (map (policy_pred ck mode) (drop ?nc lits))"
      using all_mean_take [OF all, of ?nc] all_mean_drop [OF all, of ?nc] lits(2) by (simp_all add: take_map drop_map)
    show "post (case cn of (control, counter_next) \<Rightarrow>
        do { violation \<leftarrow> mode_violation B opt ck (goal_of mode) control counter_next;
             failed \<leftarrow> get_failed;
             if failed \<or> violation = None then State_Monad.return (CHECK_UNKNOWN, pc')
             else do { r \<leftarrow> refute B violation;
               if r \<noteq> CHECK_VERIFIED then State_Monad.return (r, pc')
               else do { t \<leftarrow> ext (timed_out K);
                 State_Monad.return (if t then CHECK_UNKNOWN else CHECK_VERIFIED, pc') } } }) Q s2"
      unfolding cn prod.case
    proof (rule post_bind, rule post_mode_violation [OF ck j n policy_root_literals_length [OF lits(1)] c], intro post_bind post_get post_if post_return)
      fix v s3 assume l3: "later s2 s3" and v: "means den v (mode_bad ck lits mode)"
      have ls: "later s s3" using l2 l3 by (rule later_trans)
      show "Q (CHECK_UNKNOWN, pc') s3" by (rule stop [OF ls]) simp
      show "post (refute B v) (\<lambda>r. post (if r \<noteq> CHECK_VERIFIED then State_Monad.return (r, pc')
          else do { t \<leftarrow> ext (timed_out K); State_Monad.return (if t then CHECK_UNKNOWN else CHECK_VERIFIED, pc') }) Q) s3"
      proof (rule post_refute [OF v], intro post_if post_return post_bind)
        fix r s4 assume l4: "later s3 s4" and r: "r = CHECK_VERIFIED \<Longrightarrow> v \<noteq> None \<and> (\<forall>\<rho>. \<not> mode_bad ck lits mode \<rho>)"
        have ls4: "later s s4" using ls l4 by (rule later_trans)
        show "Q (r, pc') s4" if "r \<noteq> CHECK_VERIFIED" by (rule stop [OF ls4 that])
        assume "\<not> r \<noteq> CHECK_VERIFIED"
        then have ok: "\<forall>\<rho>. \<not> mode_bad ck lits mode \<rho>" using r by simp
        show "post (ext (timed_out K)) (\<lambda>t. post (State_Monad.return (if t then CHECK_UNKNOWN else CHECK_VERIFIED, pc')) Q) s4"
          by (intro post_ext post_return Q) (use ls4 pc' lits(1) ok in auto)
      qed
    qed
  qed
qed

lemma post_check_modes:
  assumes ck: "checker_ok ck" and n: "al_ncounter (ck_alphabet ck) = count_goals (al_game (ck_alphabet ck))"
  shows "cache_ok den (ck_alphabet ck) pc \<Longrightarrow> \<forall>m\<in>set ms. goal_of m < al_ncounter (ck_alphabet ck) \<Longrightarrow>
    (\<And>r s'. later s s' \<Longrightarrow> (r = CHECK_VERIFIED \<Longrightarrow> \<forall>m\<in>set ms.
      \<exists>lits. policy_root_literals (al_game (ck_alphabet ck)) (al_ncounter (ck_alphabet ck)) (al_policy (ck_alphabet ck)) = Some lits \<and>
        (\<forall>\<rho>. \<not> mode_bad ck lits m \<rho>)) \<Longrightarrow> Q r s') \<Longrightarrow>
    post (check_modes B K opt ck ms pc) Q s"
proof (induction ms arbitrary: pc s)
  case Nil
  show ?case unfolding check_modes.simps by (intro post_return Nil.prems(3)) simp_all
next
  case (Cons m ms)
  have j: "goal_of m < al_ncounter (ck_alphabet ck)" using Cons.prems(2) by simp
  show ?case unfolding check_modes.simps
  proof (rule post_bind, rule post_check_mode [OF ck Cons.prems(1) j n], unfold prod.case, intro post_if post_return)
    fix r pc' t assume l: "later s t" and pc': "cache_ok den (ck_alphabet ck) pc'"
      and r: "r = CHECK_VERIFIED \<Longrightarrow> \<exists>lits. policy_root_literals (al_game (ck_alphabet ck)) (al_ncounter (ck_alphabet ck)) (al_policy (ck_alphabet ck)) = Some lits \<and>
        (\<forall>\<rho>. \<not> mode_bad ck lits m \<rho>)"
    show "Q r t" if "r \<noteq> CHECK_VERIFIED" by (rule Cons.prems(3) [OF l]) (use that in simp)
    assume "\<not> r \<noteq> CHECK_VERIFIED"
    note m = r [OF this [unfolded not_not]]
    show "post (check_modes B K opt ck ms pc') Q t"
    proof (rule Cons.IH [OF pc'])
      show "\<forall>m\<in>set ms. goal_of m < al_ncounter (ck_alphabet ck)" using Cons.prems(2) by simp
      fix r' u assume "later t u" and r': "r' = CHECK_VERIFIED \<Longrightarrow> \<forall>m\<in>set ms.
        \<exists>lits. policy_root_literals (al_game (ck_alphabet ck)) (al_ncounter (ck_alphabet ck)) (al_policy (ck_alphabet ck)) = Some lits \<and>
          (\<forall>\<rho>. \<not> mode_bad ck lits m \<rho>)"
      show "Q r' u"
      proof (rule Cons.prems(3) [OF later_trans [OF l \<open>later t u\<close>]])
        assume "r' = CHECK_VERIFIED"
        with r' m show "\<forall>m\<in>set (m # ms). \<exists>lits. policy_root_literals (al_game (ck_alphabet ck)) (al_ncounter (ck_alphabet ck)) (al_policy (ck_alphabet ck)) = Some lits \<and>
          (\<forall>\<rho>. \<not> mode_bad ck lits m \<rho>)" by simp
      qed
    qed
  qed
qed

subsection \<open>The whole check\<close>

definition ranked :: "'b checker \<Rightarrow> nat \<Rightarrow> bool" where
  "ranked ck j \<longleftrightarrow> (let A = ck_alphabet ck; nd = nfair_disj (al_game A); m = ce_levels (ck_cert ck) ! j in
     (\<forall>k<m. \<forall>\<rho>. ck_y ck j k \<rho> \<longleftrightarrow> (\<exists>i<nd. ck_x ck j k i \<rho>)) \<and>
     (\<forall>k<m. \<forall>i<nd. state_pred A (ck_x ck j k i)) \<and>
     (\<forall>\<rho>. ck_inv ck \<rho> \<longrightarrow> (\<exists>k<m. \<exists>i<nd. ck_x ck j k i \<rho>)))"

definition verified :: "'b checker \<Rightarrow> u32 list \<Rightarrow> bool" where
  "verified ck lits \<longleftrightarrow> (let A = ck_alphabet ck; n = al_ncounter A in
     policy_root_literals (al_game A) n (al_policy A) = Some lits \<and> state_pred A (ck_inv ck) \<and>
     (\<forall>\<rho>. st_of A \<rho> = reset_state (al_game A) \<longrightarrow> ck_inv ck \<rho>) \<and>
     (\<forall>j<n. ranked ck j) \<and> (\<forall>mode. - 1 \<le> mode \<and> mode < int n \<longrightarrow> (\<forall>\<rho>. \<not> mode_bad ck lits mode \<rho>)))"

lemma ex_nth: "(\<exists>x\<in>set xs. P x) \<longleftrightarrow> (\<exists>i<length xs. P (xs ! i))"
  by (metis in_set_conv_nth)

lemma levels_ranked:
  assumes ck: "checker_ok ck" and j: "j < al_ncounter (ck_alphabet ck)"
    and lev: "\<forall>(ys, xs)\<in>set (zip (ce_y (ck_cert ck)) (ce_x (ck_cert ck))). \<forall>l\<in>set (zip ys xs). level_ok (letters (ck_alphabet ck)) l"
    and cov: "\<forall>xs\<in>set (ce_x (ck_cert ck)). \<forall>\<rho>. ck_inv ck \<rho> \<longrightarrow> (\<exists>x\<in>set (concat xs). pr x \<rho>)"
  shows "ranked ck j"
proof -
  let ?A = "ck_alphabet ck" and ?c = "ck_cert ck"
  let ?nd = "nfair_disj (al_game ?A)" and ?m = "ce_levels ?c ! j"
  have A: "alphabet_ok den vars ?A" and ce: "certificate_ok den ?A ?c" using ck by (simp_all add: checker_ok_def)
  have len: "length (ce_y ?c) = al_ncounter ?A" "length (ce_x ?c) = al_ncounter ?A" "length (ce_y ?c ! j) = ?m" "length (ce_x ?c ! j) = ?m"
    using ce j by (simp_all add: certificate_ok_def)
  have nd: "length (ce_x ?c ! j ! k) = ?nd" if "k < ?m" for k
    using ce j that by (auto simp: certificate_ok_def)
  have vis: "means_visible den ?A (ce_x ?c ! j ! k ! i)" if "k < ?m" "i < ?nd" for k i
  proof -
    have "ce_x ?c ! j \<in> set (ce_x ?c)" "ce_x ?c ! j ! k \<in> set (ce_x ?c ! j)" "ce_x ?c ! j ! k ! i \<in> set (ce_x ?c ! j ! k)"
      using j len that nd by simp_all
    then have "ce_x ?c ! j ! k ! i \<in> set (concat (concat (ce_x ?c)))" by auto
    then show ?thesis using ce by (auto simp: certificate_ok_def)
  qed
  have ok: "level_ok (letters ?A) (ce_y ?c ! j ! k, ce_x ?c ! j ! k)" if "k < ?m" for k
  proof -
    have "(ce_y ?c ! j, ce_x ?c ! j) \<in> set (zip (ce_y ?c) (ce_x ?c))" unfolding in_set_zip using j len by (intro exI [of _ j]) simp
    then have "\<forall>l\<in>set (zip (ce_y ?c ! j) (ce_x ?c ! j)). level_ok (letters ?A) l" using lev by blast
    moreover have "(ce_y ?c ! j ! k, ce_x ?c ! j ! k) \<in> set (zip (ce_y ?c ! j) (ce_x ?c ! j))"
      unfolding in_set_zip using that len by (intro exI [of _ k]) simp
    ultimately show ?thesis by blast
  qed
  show ?thesis unfolding ranked_def Let_def
  proof (intro conjI allI impI)
    fix k \<rho> assume k: "k < ?m"
    show "ck_y ck j k \<rho> \<longleftrightarrow> (\<exists>i<?nd. ck_x ck j k i \<rho>)" using ok [OF k] nd [OF k] by (simp add: level_ok_def ex_nth)
  next
    fix k i assume ki: "k < ?m" "i < ?nd"
    then have "state_handle den (letters ?A) (ce_x ?c ! j ! k ! i)" using ok [OF ki(1)] nd [OF ki(1)] by (auto simp: level_ok_def)
    from state_handle_pred [OF A this vis [OF ki]] show "state_pred ?A (ck_x ck j k i)" .
  next
    fix \<rho> assume "ck_inv ck \<rho>"
    then have "\<exists>x\<in>set (concat (ce_x ?c ! j)). pr x \<rho>" using cov j len by simp
    then obtain xs x where "xs \<in> set (ce_x ?c ! j)" "x \<in> set xs" "pr x \<rho>" by auto
    then show "\<exists>k<?m. \<exists>i<?nd. ck_x ck j k i \<rho>" using len nd by (metis in_set_conv_nth)
  qed
qed

lemma post_check_certificate:
  assumes ck: "checker_ok ck" and pc: "cache_ok den (ck_alphabet ck) pc"
    and n: "al_ncounter (ck_alphabet ck) = count_goals (al_game (ck_alphabet ck))" "0 < al_ncounter (ck_alphabet ck)"
    and Q: "\<And>r s'. (r = CHECK_VERIFIED \<Longrightarrow> \<exists>lits. verified ck lits) \<Longrightarrow> Q r s'"
  shows "post (check_certificate_mode B K opt ck pc) Q s"
proof -
  let ?A = "ck_alphabet ck"
  have A: "alphabet_ok den vars ?A" and ce: "certificate_ok den ?A (ck_cert ck)" using ck by (simp_all add: checker_ok_def)
  have stop: "Q r t" if "r \<noteq> CHECK_VERIFIED" for r t by (rule Q) (use that in simp)
  show ?thesis unfolding check_certificate_mode_def
  proof (rule post_bind, rule post_validate_predicates [OF ck], intro post_if post_return)
    fix r s1 show "Q r s1" if "r \<noteq> CHECK_VERIFIED" by (rule stop [OF that])
    assume "r = CHECK_VERIFIED \<Longrightarrow> state_handle den (letters ?A) (ce_inv (ck_cert ck)) \<and>
      (\<forall>(ys, xs)\<in>set (zip (ce_y (ck_cert ck)) (ce_x (ck_cert ck))). \<forall>l\<in>set (zip ys xs). level_ok (letters ?A) l)"
      and "\<not> r \<noteq> CHECK_VERIFIED"
    then have inv_h: "state_handle den (letters ?A) (ce_inv (ck_cert ck))"
      and lev: "\<forall>(ys, xs)\<in>set (zip (ce_y (ck_cert ck)) (ce_x (ck_cert ck))). \<forall>l\<in>set (zip ys xs). level_ok (letters ?A) l" by simp_all
    have vis: "means_visible den ?A (ce_inv (ck_cert ck))" using ce by (simp add: certificate_ok_def)
    show "post (do { r \<leftarrow> check_goals B ck;
            if r \<noteq> CHECK_VERIFIED then State_Monad.return r
            else do { initial \<leftarrow> reset_in_predicate B ?A (ce_inv (ck_cert ck));
              if \<not> initial then do { failed \<leftarrow> get_failed; State_Monad.return (if failed then CHECK_UNKNOWN else CHECK_CERT_FAILED) }
              else do { r \<leftarrow> check_coverage B ck;
                if r \<noteq> CHECK_VERIFIED then State_Monad.return r
                else check_modes B K opt ck (map (\<lambda>m. int m - 1) [0..<al_ncounter ?A + 1]) pc } } }) Q s1"
    proof (rule post_bind, rule post_check_goals, intro post_if post_return)
      fix r s2 show "Q r s2" if "r \<noteq> CHECK_VERIFIED" by (rule stop [OF that])
      show "post (do { initial \<leftarrow> reset_in_predicate B ?A (ce_inv (ck_cert ck));
              if \<not> initial then do { failed \<leftarrow> get_failed; State_Monad.return (if failed then CHECK_UNKNOWN else CHECK_CERT_FAILED) }
              else do { r \<leftarrow> check_coverage B ck;
                if r \<noteq> CHECK_VERIFIED then State_Monad.return r
                else check_modes B K opt ck (map (\<lambda>m. int m - 1) [0..<al_ncounter ?A + 1]) pc } }) Q s2"
      proof (rule post_bind, rule post_reset [OF A inv_h vis], intro post_if post_bind post_get post_return)
        fix b s3 show "Q (if bdd_failed s3 then CHECK_UNKNOWN else CHECK_CERT_FAILED) s3" by (rule stop) simp
        assume b: "\<not> \<not> b" and reset: "\<And>\<rho>. st_of ?A \<rho> = reset_state (al_game ?A) \<Longrightarrow> b = ck_inv ck \<rho>"
        show "post (check_coverage B ck) (\<lambda>r. post (if r \<noteq> CHECK_VERIFIED then State_Monad.return r
            else check_modes B K opt ck (map (\<lambda>m. int m - 1) [0..<al_ncounter ?A + 1]) pc) Q) s3"
        proof (rule post_check_coverage, intro post_if post_return)
          fix r s4 show "Q r s4" if "r \<noteq> CHECK_VERIFIED" by (rule stop [OF that])
          assume "r = CHECK_VERIFIED \<Longrightarrow> \<forall>xs\<in>set (ce_x (ck_cert ck)). \<forall>\<rho>. ck_inv ck \<rho> \<longrightarrow> (\<exists>x\<in>set (concat xs). pr x \<rho>)"
            and "\<not> r \<noteq> CHECK_VERIFIED"
          then have cov: "\<forall>xs\<in>set (ce_x (ck_cert ck)). \<forall>\<rho>. ck_inv ck \<rho> \<longrightarrow> (\<exists>x\<in>set (concat xs). pr x \<rho>)" by simp
          show "post (check_modes B K opt ck (map (\<lambda>m. int m - 1) [0..<al_ncounter ?A + 1]) pc) Q s4"
          proof (rule post_check_modes [OF ck n(1) pc])
            show "\<forall>m\<in>set (map (\<lambda>m. int m - 1) [0..<al_ncounter ?A + 1]). goal_of m < al_ncounter ?A"
              using n(2) by (auto simp: goal_of_def)
            fix r s5 assume r: "r = CHECK_VERIFIED \<Longrightarrow> \<forall>m\<in>set (map (\<lambda>m. int m - 1) [0..<al_ncounter ?A + 1]).
              \<exists>lits. policy_root_literals (al_game ?A) (al_ncounter ?A) (al_policy ?A) = Some lits \<and> (\<forall>\<rho>. \<not> mode_bad ck lits m \<rho>)"
            show "Q r s5"
            proof (rule Q)
              assume v: "r = CHECK_VERIFIED"
              have m: "\<exists>lits. policy_root_literals (al_game ?A) (al_ncounter ?A) (al_policy ?A) = Some lits \<and> (\<forall>\<rho>. \<not> mode_bad ck lits mode \<rho>)"
                if "- 1 \<le> mode" "mode < int (al_ncounter ?A)" for mode
              proof -
                have "int (nat (mode + 1)) - 1 = mode" "nat (mode + 1) \<in> set [0..<al_ncounter ?A + 1]" using that by auto
                then have "mode \<in> set (map (\<lambda>m. int m - 1) [0..<al_ncounter ?A + 1])" unfolding set_map by (metis imageI)
                with r [OF v] show ?thesis by blast
              qed
              from m [of "- 1"] obtain lits where lits: "policy_root_literals (al_game ?A) (al_ncounter ?A) (al_policy ?A) = Some lits" by auto
              have "verified ck lits"
                unfolding verified_def Let_def
                using lits m state_handle_pred [OF A inv_h vis] reset b levels_ranked [OF ck _ lev cov] by auto
              then show "\<exists>lits. verified ck lits" ..
            qed
          qed
        qed
      qed
    qed
  qed
qed

end

end
