(* ===== verification/Gr1_Ranks.thy ===== *)
theory Gr1_Ranks
  imports Aiger_Sampling
begin

text \<open>
  The argument of the comment at the top of \<^verbatim>\<open>src/lib/gr1_check.c\<close>, over any sequence of states: a
  play keeps a current goal, moves to the next one when the current goal holds, and otherwise keeps
  or lowers its least rank, where keeping it needs a fairness assumption to fail.  If every
  assumption recurs, then every goal recurs.
\<close>

text \<open>The rank of a state: the least number \<open>k * nd + i\<close> of a pair of \<open>X\<close>.\<close>

definition rank_at :: "nat \<Rightarrow> (nat \<Rightarrow> nat \<Rightarrow> 's \<Rightarrow> bool) \<Rightarrow> 's \<Rightarrow> nat" where
  "rank_at nd X s = (LEAST r. X (r div nd) (r mod nd) s)"

lemma rank_at_le: "i < nd \<Longrightarrow> X k i s \<Longrightarrow> rank_at nd X s \<le> k * nd + i"
  unfolding rank_at_def by (rule Least_le) simp

lemma rank_at_holds:
  assumes "i < nd" and "X k i s"
  shows "X (rank_at nd X s div nd) (rank_at nd X s mod nd) s"
  unfolding rank_at_def by (rule LeastI [of _ "k * nd + i"]) (use assms in simp)

lemma rank_at_least: "r < rank_at nd X s \<Longrightarrow> \<not> X (r div nd) (r mod nd) s"
  unfolding rank_at_def by (rule not_less_Least)

text \<open>What a step does to a state whose current goal does not hold.\<close>

definition progress :: "nat \<Rightarrow> nat \<Rightarrow> (nat \<Rightarrow> nat \<Rightarrow> 's \<Rightarrow> bool) \<Rightarrow> (nat \<Rightarrow> 's \<Rightarrow> bool) \<Rightarrow> ('s \<Rightarrow> bool) \<Rightarrow> 's \<Rightarrow> 's \<Rightarrow> bool" where
  "progress nf nd X fair goal s s' \<longleftrightarrow> (\<forall>k i. i < nd \<longrightarrow> X k i s \<longrightarrow>
     (\<forall>k' i'. i' < nd \<longrightarrow> k' < k \<or> k' = k \<and> i' < i \<longrightarrow> \<not> X k' i' s) \<longrightarrow>
     X k i s' \<and> 0 < nf \<and> \<not> fair i s' \<or> goal s' \<or> (\<exists>k'<k. \<exists>i'<nd. X k' i' s'))"

lemma progress_rank:
  assumes p: "progress nf nd X fair goal s s'" and x: "i < nd" "X k i s" and g: "\<not> goal s'"
  shows "rank_at nd X s' < rank_at nd X s \<or>
    rank_at nd X s' = rank_at nd X s \<and> 0 < nf \<and> \<not> fair (rank_at nd X s mod nd) s'"
proof -
  let ?r = "rank_at nd X s"
  let ?k = "?r div nd" and ?i = "?r mod nd"
  have nd: "0 < nd" using x(1) by simp
  have split: "?k * nd + ?i = ?r" by simp
  have low: "\<not> X k' i' s" if "i' < nd" "k' < ?k \<or> k' = ?k \<and> i' < ?i" for k' i'
  proof -
    have "k' * nd + i' < ?k * nd + ?i"
    proof (cases "k' < ?k")
      case True
      then have "Suc k' * nd \<le> ?k * nd" by (intro mult_le_mono1) simp
      then have "k' * nd + i' < ?k * nd" using that(1) unfolding mult_Suc by linarith
      then show ?thesis by (rule trans_less_add1)
    next
      case False
      then have "k' = ?k" "i' < ?i" using that(2) by auto
      then show ?thesis by (simp only: nat_add_left_cancel_less)
    qed
    then have "k' * nd + i' < ?r" unfolding split .
    from rank_at_least [OF this] that(1) show ?thesis by simp
  qed
  have "X ?k ?i s' \<and> 0 < nf \<and> \<not> fair ?i s' \<or> (\<exists>k'<?k. \<exists>i'<nd. X k' i' s')"
    using p [unfolded progress_def, rule_format, of ?i ?k] rank_at_holds [of i nd X k s, OF x] low nd g by simp
  then show ?thesis
  proof
    assume a: "X ?k ?i s' \<and> 0 < nf \<and> \<not> fair ?i s'"
    then have "rank_at nd X s' \<le> ?k * nd + ?i" using rank_at_le [of ?i nd X ?k s'] nd by simp
    then have "rank_at nd X s' \<le> ?r" by simp
    with a show ?thesis by (auto simp: le_less)
  next
    assume "\<exists>k'<?k. \<exists>i'<nd. X k' i' s'"
    then obtain k' i' where l: "k' < ?k" "i' < nd" "X k' i' s'" by blast
    have "rank_at nd X s' \<le> k' * nd + i'" using rank_at_le [of i' nd X k' s'] l by simp
    also have "\<dots> < Suc k' * nd" using l(2) by simp
    also have "\<dots> \<le> ?k * nd" using l(1) by (intro mult_le_mono1) simp
    also have "\<dots> \<le> ?r" by simp
    finally show ?thesis ..
  qed
qed

lemma nonincreasing_settles:
  fixes f :: "nat \<Rightarrow> nat"
  assumes "\<And>t. f (Suc t) \<le> f t"
  shows "\<exists>T. \<forall>t\<ge>T. f t = f T"
proof -
  obtain T where T: "\<And>t. f T \<le> f t" using ex_has_least_nat [of "\<lambda>_. True" 0 f] by auto
  have "f t \<le> f T" if "T \<le> t" for t using that by (induction t rule: dec_induct) (auto intro: le_trans [OF assms])
  with T show ?thesis by (metis antisym)
qed

text \<open>The current goal is reached.\<close>

lemma goal_reached:
  assumes cov: "\<And>t. \<exists>k. \<exists>i<nd. X k i (s t)"
    and p: "\<And>t. \<not> goal (s t) \<Longrightarrow> progress nf nd X fair goal (s t) (s (Suc t))"
    and fair: "0 < nf \<Longrightarrow> nd = nf" "\<And>i. i < nf \<Longrightarrow> recurs (\<lambda>t. fair i (s t))"
  shows "\<exists>t. goal (s t)"
proof (rule ccontr)
  assume "\<nexists>t. goal (s t)"
  then have n: "\<not> goal (s t)" for t by blast
  let ?r = "\<lambda>t. rank_at nd X (s t)"
  have step: "?r (Suc t) < ?r t \<or> ?r (Suc t) = ?r t \<and> 0 < nf \<and> \<not> fair (?r t mod nd) (s (Suc t))" for t
  proof -
    obtain k i where "i < nd" "X k i (s t)" using cov by blast
    from progress_rank [OF p [OF n] this n] show ?thesis .
  qed
  then have "?r (Suc t) \<le> ?r t" for t by (metis less_or_eq_imp_le)
  then obtain T where T: "\<And>t. T \<le> t \<Longrightarrow> ?r t = ?r T"
    using nonincreasing_settles [of ?r] by blast
  have stuck: "0 < nf \<and> \<not> fair (?r T mod nd) (s (Suc t))" if "T \<le> t" for t
    using step [of t] T [OF that] T [of "Suc t"] that by auto
  then have nf: "0 < nf" by blast
  then have "?r T mod nd < nf" using fair(1) by simp
  from fair(2) [OF this] obtain t where "t \<ge> Suc T" "fair (?r T mod nd) (s t)" unfolding recurs_def by blast
  then show False using stuck [of "t - 1"] by (cases t) auto
qed

text \<open>Every goal recurs when the current goal moves around the ring.\<close>

lemma ring_visits:
  assumes step: "\<And>t. c (Suc t) = (if goal (c t) t then Suc (c t) mod n else c t)"
    and reach: "\<And>t. \<exists>u\<ge>t. goal (c t) u" and n: "c 0 < n" and j: "j < n"
  shows "recurs (goal j)"
proof -
  have cn: "c t < n" for t by (induction t) (use n step in auto)
  have next_c: "\<exists>u\<ge>t. c u = c t \<and> goal (c t) u" for t
  proof -
    obtain u where "u \<ge> t \<and> goal (c t) u" using reach by blast
    then have ex: "\<exists>u. u \<ge> t \<and> goal (c t) u" by blast
    define u where "u = (LEAST u. u \<ge> t \<and> goal (c t) u)"
    have u: "u \<ge> t" "goal (c t) u" using LeastI_ex [OF ex] by (simp_all add: u_def)
    have low: "\<not> goal (c t) v" if "t \<le> v" "v < u" for v using that not_less_Least [of v] by (auto simp: u_def)
    have "c v = c t" if "t \<le> v" "v \<le> u" for v
      using that by (induction v rule: dec_induct) (use step low in auto)
    with u show ?thesis by blast
  qed
  have go: "\<exists>u\<ge>t. c u = (c t + d) mod n" for t d
  proof (induction d)
    case 0
    then show ?case using cn [of t] by (intro exI [of _ t]) simp
  next
    case (Suc d)
    then obtain u where u: "u \<ge> t" "c u = (c t + d) mod n" by blast
    obtain v where v: "v \<ge> u" "c v = c u" "goal (c u) v" using next_c by blast
    then have "c (Suc v) = Suc (c u) mod n" using step by simp
    also have "\<dots> = (c t + Suc d) mod n" by (simp add: u(2) mod_Suc_eq)
    finally show ?case using u(1) v(1) by (intro exI [of _ "Suc v"]) simp
  qed
  show ?thesis unfolding recurs_def
  proof
    fix t
    obtain u where u: "u \<ge> t" "c u = (c t + (j + n - c t)) mod n" using go by blast
    have "c t + (j + n - c t) = j + n" using cn [of t] by simp
    then have "c u = j" using u(2) j by simp
    with next_c [of u] u(1) show "\<exists>v\<ge>t. goal j v" by (metis le_trans)
  qed
qed

text \<open>Both together, for a play of states \<open>s\<close> with current goals \<open>c\<close>.\<close>

lemma ranked_play:
  assumes step: "\<And>t. c (Suc t) = (if goal (c t) (s t) then Suc (c t) mod n else c t)" and n: "c 0 < n"
    and cov: "\<And>t j. j < n \<Longrightarrow> \<exists>k. \<exists>i<nd. X j k i (s t)"
    and p: "\<And>t. \<not> goal (c t) (s t) \<Longrightarrow> progress nf nd (X (c t)) fair (goal (c t)) (s t) (s (Suc t))"
    and fair: "0 < nf \<Longrightarrow> nd = nf" "\<And>i. i < nf \<Longrightarrow> recurs (\<lambda>t. fair i (s t))" and j: "j < n"
  shows "recurs (\<lambda>t. goal j (s t))"
proof (rule ring_visits [of c "\<lambda>j t. goal j (s t)", OF step _ n j])
  fix t
  have cn: "c u < n" for u by (induction u) (use n step in auto)
  show "\<exists>u\<ge>t. goal (c t) (s u)"
  proof (rule ccontr)
    assume "\<not> ?thesis"
    then have no: "\<not> goal (c t) (s u)" if "u \<ge> t" for u using that by blast
    have c: "c u = c t" if "u \<ge> t" for u using that by (induction u rule: dec_induct) (use step no in auto)
    have "\<exists>u. goal (c t) ((\<lambda>u. s (t + u)) u)"
    proof (rule goal_reached [of nd "X (c t)" _ _ nf fair])
      fix u
      show "\<exists>k. \<exists>i<nd. X (c t) k i (s (t + u))" using cov cn by blast
      show "progress nf nd (X (c t)) fair (goal (c t)) (s (t + u)) (s (t + Suc u))"
        using p [of "t + u"] c [of "t + u"] no by simp
    next
      fix i assume "i < nf"
      from fair(2) [OF this] show "recurs (\<lambda>u. fair i (s (t + u)))"
        unfolding recurs_def by (metis le_add1 le_add_diff_inverse nat_add_left_cancel_le le_trans)
    qed (rule fair(1))
    then show False using no by auto
  qed
qed

end
