(* ===== verification/Gr1_Sound.thy ===== *)
theory Gr1_Sound
  imports Gr1_Check_Correct Gr1_Ranks
begin

text \<open>
  Soundness of the certificate check: when it verifies, the game controlled by the policy never
  reaches a bad state, and every justice goal recurs if all fairness assumptions do.
\<close>

subsection \<open>The closed loop\<close>

text \<open>The policy reads the state, its counters and the inputs of the environment.\<close>

definition policy_outputs :: "aig \<Rightarrow> aig \<Rightarrow> u32 list \<Rightarrow> bool list \<Rightarrow> bool list \<Rightarrow> bool list \<Rightarrow> bool list" where
  "policy_outputs g policy lits st cnt u = map (policy_val g (count_goals g) policy st cnt u) lits"

definition loop_input :: "aig \<Rightarrow> aig \<Rightarrow> u32 list \<Rightarrow> bool list \<Rightarrow> bool list \<times> bool list \<Rightarrow> bool list" where
  "loop_input g policy lits u = (\<lambda>(st, cnt).
     game_letters g u (take (length (cinputs g)) (policy_outputs g policy lits st cnt u)))"

primrec closed_loop :: "aig \<Rightarrow> aig \<Rightarrow> u32 list \<Rightarrow> (nat \<Rightarrow> bool list) \<Rightarrow> nat \<Rightarrow> bool list \<times> bool list" where
  "closed_loop g policy lits us 0 = (reset_state g, replicate (count_goals g) False)"
| "closed_loop g policy lits us (Suc t) =
     (let x = closed_loop g policy lits us t in
      (next_state g (loop_input g policy lits (us t) x) (fst x),
       drop (length (cinputs g)) (policy_outputs g policy lits (fst x) (snd x) (us t))))"

definition loop_inputs :: "aig \<Rightarrow> aig \<Rightarrow> u32 list \<Rightarrow> (nat \<Rightarrow> bool list) \<Rightarrow> nat \<Rightarrow> bool list" where
  "loop_inputs g policy lits us t = loop_input g policy lits (us t) (closed_loop g policy lits us t)"

lemma closed_loop_run: "fst (closed_loop g policy lits us t) = aig_run g (loop_inputs g policy lits us) t"
  by (induction t) (simp_all add: loop_inputs_def Let_def)

lemma length_loop_inputs [simp]: "length (loop_inputs g policy lits us t) = length (aig_ins g)"
  by (simp add: loop_inputs_def loop_input_def split_beta)

lemma expected_next:
  "j < n \<Longrightarrow> q < n \<Longrightarrow> expected n j q b \<longleftrightarrow> (if b then Suc j mod n else j) = q"
  by (auto simp: expected_def Let_def)

subsection \<open>Assignments\<close>

definition assign :: "nat list \<Rightarrow> bool list \<Rightarrow> assignment" where
  "assign vs bs v = (map_of (zip vs bs) v = Some True)"

lemma map_assign: "distinct vs \<Longrightarrow> length bs = length vs \<Longrightarrow> map (assign vs bs) vs = bs"
  by (rule nth_equalityI) (simp_all add: assign_def map_of_zip_nth)

lemma updated_nth:
  "distinct vs \<Longrightarrow> length Ps = length vs \<Longrightarrow> map (updated (zip vs Ps) \<rho>) vs = map (\<lambda>P. P \<rho>) Ps"
  by (rule nth_equalityI) (simp_all add: updated_def map_of_zip_nth)

lemma updated_other: "set ws \<inter> set vs = {} \<Longrightarrow> map (updated (zip vs Ps) \<rho>) ws = map \<rho> ws"
proof (rule map_cong [OF refl])
  fix v assume "set ws \<inter> set vs = {}" "v \<in> set ws"
  then have "map_of (zip vs Ps) v = None" by (auto simp: map_of_eq_None_iff dest: set_zip_leftD)
  then show "updated (zip vs Ps) \<rho> v = \<rho> v" by (simp add: updated_def)
qed

text \<open>An assignment for a state and the letters of the environment.\<close>

definition embed_state :: "'b alphabet \<Rightarrow> bool list \<Rightarrow> bool list \<Rightarrow> assignment" where
  "embed_state A st u = assign (take (nstate A) (al_qvar A) @ al_uvar A) (st @ u)"

lemma embed_views:
  assumes A: "alphabet_ok den vars A" and st: "length st = nstate A" and u: "length u = length (al_uvar A)"
  shows "st_of A (embed_state A st u) = st" "us_of A (embed_state A st u) = u"
proof -
  let ?vs = "take (nstate A) (al_qvar A)"
  have d: "distinct (?vs @ al_uvar A)" and l: "length (?vs @ al_uvar A) = length (st @ u)"
    using A st u by (auto simp: alphabet_ok_def dest: in_set_takeD)
  from map_assign [OF d l [symmetric]]
  have "map (embed_state A st u) ?vs @ map (embed_state A st u) (al_uvar A) = st @ u" unfolding embed_state_def by simp
  moreover have "length (map (embed_state A st u) ?vs) = length st" using A st by (simp add: alphabet_ok_def)
  ultimately show "st_of A (embed_state A st u) = st" "us_of A (embed_state A st u) = u"
    unfolding st_of_def us_of_def by (auto simp: append_eq_append_conv)
qed

lemma layers_split:
  assumes "k < m" and "i < nd"
  shows "\<exists>before rest. concat (map (\<lambda>k. map (Pair k) [0..<nd]) [0..<m]) = before @ (k, i) # rest \<and>
    (\<forall>(k', i')\<in>set before. i' < nd \<and> (k' < k \<or> k' = k \<and> i' < i))"
proof -
  have m: "[0..<m] = [0..<k] @ k # [Suc k..<m]"
    using assms(1) upt_add_eq_append [of 0 k "m - k"] by (simp add: upt_conv_Cons)
  have n: "[0..<nd] = [0..<i] @ i # [Suc i..<nd]"
    using assms(2) upt_add_eq_append [of 0 i "nd - i"] by (simp add: upt_conv_Cons)
  let ?l = "\<lambda>k. map (Pair k) [0..<nd]"
  let ?before = "concat (map ?l [0..<k]) @ map (Pair k) [0..<i]"
  let ?rest = "map (Pair k) [Suc i..<nd] @ concat (map ?l [Suc k..<m])"
  have "map (Pair k) [0..<nd] = map (Pair k) [0..<i] @ (k, i) # map (Pair k) [Suc i..<nd]" by (subst n) simp
  then have "concat (map ?l [0..<m]) = ?before @ (k, i) # ?rest" by (subst m) simp
  moreover have "\<forall>(k', i')\<in>set ?before. i' < nd \<and> (k' < k \<or> k' = k \<and> i' < i)" using assms(2) by auto
  ultimately show ?thesis by blast
qed

subsection \<open>A step of the loop in an assignment\<close>

context oxidd_laws
begin

text \<open>In an assignment for the state and the letters, the step of a mode is the step of the loop.\<close>

lemma mode_views:
  fixes m :: int
  assumes A: "alphabet_ok den vars (ck_alphabet ck)" and n: "al_ncounter (ck_alphabet ck) = count_goals (al_game (ck_alphabet ck))"
    and ll: "length (cinputs (al_game (ck_alphabet ck))) \<le> length lits"
    and \<rho>: "st_of (ck_alphabet ck) \<rho> = st" "us_of (ck_alphabet ck) \<rho> = u"
  defines "out \<equiv> policy_outputs (al_game (ck_alphabet ck)) (al_policy (ck_alphabet ck)) lits st (one_hot (al_ncounter (ck_alphabet ck)) m) u"
    and "inp \<equiv> loop_input (al_game (ck_alphabet ck)) (al_policy (ck_alphabet ck)) lits u (st, one_hot (al_ncounter (ck_alphabet ck)) m)"
  shows "game_lit (ck_alphabet ck) l (mode_control ck lits m \<rho>) = aig_val (al_game (ck_alphabet ck)) (leaf_val (al_game (ck_alphabet ck)) inp st) l"
    and "st_of (ck_alphabet ck) (mode_step ck lits m \<rho>) = next_state (al_game (ck_alphabet ck)) inp st"
    and "q < length lits - length (cinputs (al_game (ck_alphabet ck))) \<Longrightarrow>
      mode_counter ck lits m q \<rho> = drop (length (cinputs (al_game (ck_alphabet ck)))) out ! q"
proof -
  let ?A = "ck_alphabet ck" and ?g = "al_game (ck_alphabet ck)" and ?p = "al_policy (ck_alphabet ck)"
  let ?nc = "length (cinputs ?g)" and ?Ps = "map (policy_pred ck m) (take (length (cinputs ?g)) lits)"
  have d: "distinct (al_cvar ?A)" "set (take (nstate ?A) (al_qvar ?A)) \<inter> set (al_cvar ?A) = {}" "set (al_uvar ?A) \<inter> set (al_cvar ?A) = {}"
    "distinct (take (nstate ?A) (al_qvar ?A))" "length (al_cvar ?A) = ?nc" "length (take (nstate ?A) (al_qvar ?A)) = nstate ?A"
    using A by (auto simp: alphabet_ok_def dest: in_set_takeD)
  have pp: "policy_pred ck m l \<rho> = policy_val ?g (count_goals ?g) ?p st (one_hot (al_ncounter ?A) m) u l" for l
    by (simp add: policy_pred_def Let_def policy_val_def \<rho> n)
  have lp: "length ?Ps = length (al_cvar ?A)" using d(5) ll by simp
  have c: "mode_control ck lits m \<rho> = upd (al_cvar ?A) ?Ps \<rho>" by (simp add: mode_control_def Let_def)
  have st: "st_of ?A (mode_control ck lits m \<rho>) = st" unfolding c st_of_def updated_other [OF d(2)] using \<rho>(1) by (simp add: st_of_def)
  have us: "us_of ?A (mode_control ck lits m \<rho>) = u" unfolding c us_of_def updated_other [OF d(3)] using \<rho>(2) by (simp add: us_of_def)
  have cs: "cs_of ?A (mode_control ck lits m \<rho>) = take ?nc out"
    unfolding c cs_of_def updated_nth [OF d(1) lp] by (simp add: comp_def pp out_def policy_outputs_def take_map)
  show g: "game_lit ?A l (mode_control ck lits m \<rho>) = aig_val ?g (leaf_val ?g inp st) l" for l
    unfolding game_lit_def game_view_def st us cs by (simp add: inp_def loop_input_def out_def)
  have "st_of ?A (mode_step ck lits m \<rho>) = map (\<lambda>P. P \<rho>) (map (\<lambda>l \<rho>. game_lit ?A l (mode_control ck lits m \<rho>)) (map lat_next (aig_lats ?g)))"
    unfolding mode_step_def Let_def st_of_def by (rule updated_nth [OF d(4)]) (simp only: length_map d(6))
  then show "st_of ?A (mode_step ck lits m \<rho>) = next_state ?g inp st" by (simp add: next_state_def comp_def g)
  show "mode_counter ck lits m q \<rho> = drop ?nc out ! q" if "q < length lits - ?nc"
    using that ll by (simp add: mode_counter_def pp out_def policy_outputs_def)
qed

text \<open>Predicates of the state, as predicates on lists of latch values.\<close>

definition on_state :: "'b checker \<Rightarrow> (assignment \<Rightarrow> bool) \<Rightarrow> bool list \<Rightarrow> bool" where
  "on_state ck P st = P (embed_state (ck_alphabet ck) st (replicate (length (al_uvar (ck_alphabet ck))) False))"

lemma embed_default:
  assumes "alphabet_ok den vars A" and "length st = nstate A"
  shows "st_of A (embed_state A st (replicate (length (al_uvar A)) False)) = st"
  by (rule embed_views(1) [OF assms]) simp

lemma on_state:
  assumes A: "alphabet_ok den vars (ck_alphabet ck)" and P: "state_pred (ck_alphabet ck) P" and st: "length (st_of (ck_alphabet ck) \<rho>) = nstate (ck_alphabet ck)"
  shows "P \<rho> = on_state ck P (st_of (ck_alphabet ck) \<rho>)"
  unfolding on_state_def by (rule P [unfolded state_pred_def, rule_format]) (simp only: embed_default [OF A st])

lemma length_st_of: "alphabet_ok den vars A \<Longrightarrow> length (st_of A \<rho>) = nstate A"
  by (simp add: alphabet_ok_def st_of_def)

lemma literal_state_pred:
  assumes A: "alphabet_ok den vars A" and l: "state_literal (al_game A) l"
  shows "state_pred A (game_lit A l)"
  unfolding state_pred_def game_lit_def game_view_def
  using l length_st_of [OF A] by (simp add: state_literal_def)

lemma literal_on_state:
  assumes A: "alphabet_ok den vars (ck_alphabet ck)" and l: "state_literal (al_game (ck_alphabet ck)) l"
    and "length st = nstate (ck_alphabet ck)" and "length i = length (aig_ins (al_game (ck_alphabet ck)))"
  shows "on_state ck (game_lit (ck_alphabet ck) l) st = aig_val (al_game (ck_alphabet ck)) (leaf_val (al_game (ck_alphabet ck)) i st) l"
  unfolding on_state_def game_lit_def game_view_def embed_default [OF A assms(3)]
  by (rule l [unfolded state_literal_def, rule_format]) (simp add: assms)

subsection \<open>The play\<close>

text \<open>The current goal along the loop.\<close>

primrec current_goal :: "aig \<Rightarrow> aig \<Rightarrow> u32 list \<Rightarrow> (nat \<Rightarrow> bool list) \<Rightarrow> nat \<Rightarrow> nat" where
  "current_goal g policy lits us 0 = 0"
| "current_goal g policy lits us (Suc t) =
     (let c = current_goal g policy lits us t in
      if aig_at g (loop_inputs g policy lits us) t (goal_literals g ! c) then Suc c mod count_goals g else c)"

definition play_ok :: "'b checker \<Rightarrow> u32 list \<Rightarrow> (nat \<Rightarrow> bool list) \<Rightarrow> nat \<Rightarrow> bool" where
  "play_ok ck lits us t \<longleftrightarrow> (let A = ck_alphabet ck; g = al_game A; c = current_goal g (al_policy A) lits us t in
     on_state ck (ck_inv ck) (fst (closed_loop g (al_policy A) lits us t)) \<and> c < count_goals g \<and>
     (\<exists>m. - 1 \<le> m \<and> m < int (count_goals g) \<and> goal_of m = c \<and>
       snd (closed_loop g (al_policy A) lits us t) = one_hot (count_goals g) m))"

text \<open>What holds of a step from a state of the play.\<close>

lemma play_step:
  assumes ck: "checker_ok ck" and n: "al_ncounter (ck_alphabet ck) = count_goals (al_game (ck_alphabet ck))"
    and v: "verified ck lits" and u: "\<forall>t. length (us t) = length (uinputs (al_game (ck_alphabet ck)))"
    and goals: "\<forall>j<count_goals (al_game (ck_alphabet ck)). state_literal (al_game (ck_alphabet ck)) (goal_literals (al_game (ck_alphabet ck)) ! j)"
    and p: "play_ok ck lits us t"
  shows "\<exists>\<rho> m. st_of (ck_alphabet ck) \<rho> = fst (closed_loop (al_game (ck_alphabet ck)) (al_policy (ck_alphabet ck)) lits us t) \<and>
    st_of (ck_alphabet ck) (mode_step ck lits m \<rho>) = fst (closed_loop (al_game (ck_alphabet ck)) (al_policy (ck_alphabet ck)) lits us (Suc t)) \<and>
    goal_of m = current_goal (al_game (ck_alphabet ck)) (al_policy (ck_alphabet ck)) lits us t \<and>
    ck_inv ck \<rho> \<and> \<not> mode_bad ck lits m \<rho> \<and>
    (\<forall>l. game_lit (ck_alphabet ck) l (mode_control ck lits m \<rho>) =
      aig_at (al_game (ck_alphabet ck)) (loop_inputs (al_game (ck_alphabet ck)) (al_policy (ck_alphabet ck)) lits us) t l) \<and>
    (\<forall>q<count_goals (al_game (ck_alphabet ck)). mode_counter ck lits m q \<rho> =
      snd (closed_loop (al_game (ck_alphabet ck)) (al_policy (ck_alphabet ck)) lits us (Suc t)) ! q)"
proof -
  let ?A = "ck_alphabet ck" and ?g = "al_game (ck_alphabet ck)" and ?p = "al_policy (ck_alphabet ck)"
  let ?x = "closed_loop ?g ?p lits us t"
  have A: "alphabet_ok den vars ?A" using ck by (simp add: checker_ok_def)
  obtain m where m: "- 1 \<le> m" "m < int (count_goals ?g)" "goal_of m = current_goal ?g ?p lits us t" "snd ?x = one_hot (count_goals ?g) m"
    and i: "on_state ck (ck_inv ck) (fst ?x)" using p by (auto simp: play_ok_def Let_def)
  have st: "length (fst ?x) = nstate ?A" by (simp add: closed_loop_run)
  have ul: "length (us t) = length (al_uvar ?A)" using A u by (simp add: alphabet_ok_def)
  define \<rho> where "\<rho> = embed_state ?A (fst ?x) (us t)"
  have \<rho>: "st_of ?A \<rho> = fst ?x" "us_of ?A \<rho> = us t" unfolding \<rho>_def by (rule embed_views [OF A st ul])+
  have lits: "length lits = length (cinputs ?g) + count_goals ?g"
    using v policy_root_literals_length n by (auto simp: verified_def Let_def)
  have x: "?x = (fst ?x, one_hot (al_ncounter ?A) m)" using m(4) n by (simp add: prod_eq_iff)
  note mv = mode_views [OF A n _ \<rho>, where m = m and lits = lits, folded x]
  have inp: "loop_input ?g ?p lits (us t) ?x = loop_inputs ?g ?p lits us t" by (simp add: loop_inputs_def)
  have inv: "ck_inv ck \<rho>" using on_state [OF A, of "ck_inv ck" \<rho>] i v st \<rho>(1) by (simp add: verified_def Let_def)
  have "\<not> mode_bad ck lits m \<rho>" using v m(1,2) n by (simp add: verified_def Let_def)
  moreover have "game_lit ?A l (mode_control ck lits m \<rho>) = aig_at ?g (loop_inputs ?g ?p lits us) t l" for l
    using mv(1) [of l] lits by (simp add: aig_at_def inp closed_loop_run [symmetric])
  moreover have "st_of ?A (mode_step ck lits m \<rho>) = fst (closed_loop ?g ?p lits us (Suc t))"
    using mv(2) lits by (simp add: Let_def)
  moreover have "mode_counter ck lits m q \<rho> = snd (closed_loop ?g ?p lits us (Suc t)) ! q" if "q < count_goals ?g" for q
    using mv(3) [of q] lits that m(4) n by (simp add: Let_def)
  ultimately show ?thesis using \<rho>(1) m(3) inv by blast
qed

lemma play_invariant:
  assumes ck: "checker_ok ck" and n: "al_ncounter (ck_alphabet ck) = count_goals (al_game (ck_alphabet ck))"
    and v: "verified ck lits" and u: "\<forall>t. length (us t) = length (uinputs (al_game (ck_alphabet ck)))"
    and goals: "\<forall>j<count_goals (al_game (ck_alphabet ck)). state_literal (al_game (ck_alphabet ck)) (goal_literals (al_game (ck_alphabet ck)) ! j)"
    and pos: "0 < count_goals (al_game (ck_alphabet ck))"
  shows "play_ok ck lits us t"
proof (induction t)
  let ?A = "ck_alphabet ck" and ?g = "al_game (ck_alphabet ck)" and ?p = "al_policy (ck_alphabet ck)"
  have A: "alphabet_ok den vars ?A" using ck by (simp add: checker_ok_def)
  have sp: "state_pred ?A (ck_inv ck)" using v by (simp add: verified_def Let_def)
  case 0
  have e: "st_of ?A (embed_state ?A (reset_state ?g) (replicate (length (al_uvar ?A)) False)) = reset_state ?g"
    by (rule embed_default [OF A]) (simp add: reset_state_def)
  have "on_state ck (ck_inv ck) (reset_state ?g)" unfolding on_state_def using v e by (simp add: verified_def Let_def)
  moreover have "replicate (count_goals ?g) False = one_hot (count_goals ?g) (- 1)" by (rule nth_equalityI) (simp_all add: one_hot_def)
  ultimately show ?case using pos by (auto simp: play_ok_def Let_def goal_of_def intro!: exI [of _ "- 1"])
next
  let ?A = "ck_alphabet ck" and ?g = "al_game (ck_alphabet ck)" and ?p = "al_policy (ck_alphabet ck)"
  have A: "alphabet_ok den vars ?A" using ck by (simp add: checker_ok_def)
  have sp: "state_pred ?A (ck_inv ck)" using v by (simp add: verified_def Let_def)
  case (Suc t)
  let ?c = "current_goal ?g ?p lits us t" and ?is = "loop_inputs ?g ?p lits us"
  have cn: "?c < count_goals ?g" using Suc by (simp add: play_ok_def Let_def)
  from play_step [OF ck n v u goals Suc] obtain \<rho> m where s: "st_of ?A \<rho> = fst (closed_loop ?g ?p lits us t)"
    "st_of ?A (mode_step ck lits m \<rho>) = fst (closed_loop ?g ?p lits us (Suc t))" "goal_of m = ?c" "ck_inv ck \<rho>" "\<not> mode_bad ck lits m \<rho>"
    "\<And>q. q < count_goals ?g \<Longrightarrow> mode_counter ck lits m q \<rho> = snd (closed_loop ?g ?p lits us (Suc t)) ! q" by blast
  have inv': "ck_inv ck (mode_step ck lits m \<rho>)" using s(4,5) by (auto simp: mode_bad_def Let_def)
  have e: "ck_inv ck (mode_step ck lits m \<rho>) = on_state ck (ck_inv ck) (st_of ?A (mode_step ck lits m \<rho>))"
    by (rule on_state [OF A sp length_st_of [OF A]])
  have i: "on_state ck (ck_inv ck) (fst (closed_loop ?g ?p lits us (Suc t)))" using inv' unfolding e s(2) .
  have goal: "ck_goal ck ?c \<rho> = aig_at ?g ?is t (goal_literals ?g ! ?c)"
  proof -
    have "ck_goal ck ?c \<rho> = on_state ck (ck_goal ck ?c) (st_of ?A \<rho>)"
      by (rule on_state [OF A literal_state_pred [OF A goals [rule_format, OF cn]] length_st_of [OF A]])
    also have "\<dots> = aig_val ?g (leaf_val ?g (?is t) (st_of ?A \<rho>)) (goal_literals ?g ! ?c)"
      by (rule literal_on_state [OF A goals [rule_format, OF cn] length_st_of [OF A]]) simp
    finally show ?thesis by (simp add: aig_at_def s(1) closed_loop_run)
  qed
  let ?c' = "current_goal ?g ?p lits us (Suc t)"
  have c': "?c' = (if ck_goal ck ?c \<rho> then Suc ?c mod count_goals ?g else ?c)" by (simp add: Let_def goal)
  have "snd (closed_loop ?g ?p lits us (Suc t)) = one_hot (count_goals ?g) (int ?c')"
  proof (rule nth_equalityI)
    have "length lits = length (cinputs ?g) + count_goals ?g"
      using v policy_root_literals_length n by (auto simp: verified_def Let_def)
    then show "length (snd (closed_loop ?g ?p lits us (Suc t))) = length (one_hot (count_goals ?g) (int ?c'))"
      by (simp add: Let_def policy_outputs_def one_hot_def)
    fix q assume "q < length (snd (closed_loop ?g ?p lits us (Suc t)))"
    then have q: "q < count_goals ?g"
      using \<open>length lits = _\<close> by (simp add: Let_def policy_outputs_def)
    have "mode_counter ck lits m q \<rho> = expected (count_goals ?g) ?c q (ck_goal ck ?c \<rho>)"
      using s(3,4,5) q n by (auto simp: mode_bad_def Let_def)
    then show "snd (closed_loop ?g ?p lits us (Suc t)) ! q = one_hot (count_goals ?g) (int ?c') ! q"
      using s(6) [OF q] q expected_next [OF cn q] unfolding c' by (simp add: one_hot_def)
  qed
  moreover have "?c' < count_goals ?g" unfolding c' using cn pos by simp
  ultimately show ?case using i unfolding play_ok_def Let_def
    by (intro conjI exI [of _ "int ?c'"]) (simp_all add: goal_of_def)
qed

text \<open>Progress along the play.\<close>

definition state_x :: "'b checker \<Rightarrow> nat \<Rightarrow> nat \<Rightarrow> nat \<Rightarrow> bool list \<Rightarrow> bool" where
  "state_x ck j k i st \<longleftrightarrow> k < ce_levels (ck_cert ck) ! j \<and> on_state ck (ck_x ck j k i) st"

lemma escape_progress:
  assumes A: "alphabet_ok den vars (ck_alphabet ck)" and rk: "ranked ck j"
    and goal: "state_pred (ck_alphabet ck) (ck_goal ck j)"
    and fair: "\<And>i. i < length (aig_fairs (al_game (ck_alphabet ck))) \<Longrightarrow> state_pred (ck_alphabet ck) (ck_fair ck i)"
    and inv: "ck_inv ck \<rho>" and ng: "\<not> ck_goal ck j \<rho>"
    and nb: "\<not> rank_violation (ck_x ck j) (ck_inv ck) (ck_goal ck j) (\<lambda>ki \<rho>. escape ck j ki (f \<rho>)) (layers_of ck j) \<rho>"
  shows "progress (length (aig_fairs (al_game (ck_alphabet ck)))) (nfair_disj (al_game (ck_alphabet ck))) (state_x ck j)
    (\<lambda>i. on_state ck (ck_fair ck i)) (on_state ck (ck_goal ck j)) (st_of (ck_alphabet ck) \<rho>) (st_of (ck_alphabet ck) (f \<rho>))"
  unfolding progress_def
proof (intro allI impI)
  let ?A = "ck_alphabet ck" and ?c = "ck_cert ck"
  let ?nd = "nfair_disj (al_game ?A)" and ?m = "ce_levels ?c ! j" and ?nf = "length (aig_fairs (al_game ?A))"
  note on = on_state [OF A _ length_st_of [OF A]]
  have X: "ck_x ck j k i \<sigma> = state_x ck j k i (st_of ?A \<sigma>)" if "k < ?m" "i < ?nd" for k i \<sigma>
  proof -
    have "state_pred ?A (ck_x ck j k i)" using rk that by (simp add: ranked_def Let_def)
    from on [OF this, of \<sigma>] that(1) show ?thesis by (simp add: state_x_def)
  qed
  fix k i assume i: "i < ?nd" and x: "state_x ck j k i (st_of ?A \<rho>)"
    and low: "\<forall>k' i'. i' < ?nd \<longrightarrow> k' < k \<or> k' = k \<and> i' < i \<longrightarrow> \<not> state_x ck j k' i' (st_of ?A \<rho>)"
  have k: "k < ?m" using x by (simp add: state_x_def)
  obtain before rest where sp: "layers_of ck j = before @ (k, i) # rest"
    "\<forall>(k', i')\<in>set before. i' < ?nd \<and> (k' < k \<or> k' = k \<and> i' < i)" using layers_split [OF k i] unfolding layers_of_def by blast
  have "\<not> ck_x ck j k' i' \<rho>" if "(k', i') \<in> set before" for k' i'
  proof -
    from sp(2) that have b: "i' < ?nd" "k' < k \<or> k' = k \<and> i' < i" by auto
    then have "k' < ?m" using k by auto
    with X [of k' i' \<rho>] low b show ?thesis by blast
  qed
  then have "escape ck j (k, i) (f \<rho>)" using nb sp(1) inv ng x X [OF k i] unfolding rank_violation_def by blast
  then have "0 < ?nf \<and> ck_x ck j k i (f \<rho>) \<and> \<not> ck_fair ck i (f \<rho>) \<or> ck_goal ck j (f \<rho>) \<or> 0 < k \<and> ck_y ck j (k - 1) (f \<rho>)"
    unfolding escape_def allowed_step_def by auto
  then show "state_x ck j k i (st_of ?A (f \<rho>)) \<and> 0 < ?nf \<and> \<not> on_state ck (ck_fair ck i) (st_of ?A (f \<rho>)) \<or>
    on_state ck (ck_goal ck j) (st_of ?A (f \<rho>)) \<or> (\<exists>k'<k. \<exists>i'<?nd. state_x ck j k' i' (st_of ?A (f \<rho>)))"
  proof (elim disjE conjE)
    assume a: "0 < ?nf" "ck_x ck j k i (f \<rho>)" "\<not> ck_fair ck i (f \<rho>)"
    then have "i < ?nf" using i by (auto simp: nfair_disj_def split: if_splits)
    from on [OF fair [OF this], of "f \<rho>"] a X [OF k i] show ?thesis by simp
  next
    assume "ck_goal ck j (f \<rho>)"
    then show ?thesis using on [OF goal, of "f \<rho>"] by simp
  next
    assume a: "0 < k" "ck_y ck j (k - 1) (f \<rho>)"
    then obtain i' where "i' < ?nd" "ck_x ck j (k - 1) i' (f \<rho>)" using rk k by (auto simp: ranked_def Let_def)
    moreover have "k - 1 < ?m" "k - 1 < k" using k a(1) by simp_all
    ultimately show ?thesis using X by blast
  qed
qed

lemma verified_sound:
  assumes ck: "checker_ok ck" and n: "al_ncounter (ck_alphabet ck) = count_goals (al_game (ck_alphabet ck))"
    and v: "verified ck lits" and u: "\<forall>t. length (us t) = length (uinputs (al_game (ck_alphabet ck)))"
    and goals: "\<forall>j<count_goals (al_game (ck_alphabet ck)). state_literal (al_game (ck_alphabet ck)) (goal_literals (al_game (ck_alphabet ck)) ! j)"
    and fairs: "\<forall>i<length (aig_fairs (al_game (ck_alphabet ck))). state_literal (al_game (ck_alphabet ck)) (n_lit (aig_fairs (al_game (ck_alphabet ck)) ! i))"
    and pos: "0 < count_goals (al_game (ck_alphabet ck))"
  defines "inp \<equiv> loop_inputs (al_game (ck_alphabet ck)) (al_policy (ck_alphabet ck)) lits us"
  shows "l \<in> set (bad_literals (al_game (ck_alphabet ck))) \<Longrightarrow> \<not> aig_at (al_game (ck_alphabet ck)) inp t l"
    and "(\<And>f. f \<in> set (aig_fairs (al_game (ck_alphabet ck))) \<Longrightarrow> recurs (\<lambda>t. aig_at (al_game (ck_alphabet ck)) inp t (n_lit f))) \<Longrightarrow>
      l \<in> set (goal_literals (al_game (ck_alphabet ck))) \<Longrightarrow> recurs (\<lambda>t. aig_at (al_game (ck_alphabet ck)) inp t l)"
proof -
  let ?A = "ck_alphabet ck" and ?g = "al_game (ck_alphabet ck)" and ?p = "al_policy (ck_alphabet ck)"
  have A: "alphabet_ok den vars ?A" using ck by (simp add: checker_ok_def)
  note step = play_step [OF ck n v u goals play_invariant [OF ck n v u goals pos]]
  let ?s = "\<lambda>t. fst (closed_loop ?g ?p lits us t)" and ?c = "current_goal ?g ?p lits us"
  let ?nf = "length (aig_fairs ?g)" and ?nd = "nfair_disj ?g"
  show "\<not> aig_at ?g inp t l" if l: "l \<in> set (bad_literals ?g)"
  proof -
    from step [of t] obtain \<rho> m where "ck_inv ck \<rho>" "\<not> mode_bad ck lits m \<rho>"
      "\<And>l. game_lit ?A l (mode_control ck lits m \<rho>) = aig_at ?g inp t l" unfolding inp_def by blast
    then show ?thesis using l by (auto simp: mode_bad_def Let_def)
  qed
  have at: "on_state ck (game_lit ?A l) (?s t) = aig_at ?g inp t l" if "state_literal ?g l" for l t
    using literal_on_state [OF A that, of "?s t" "inp t"] by (simp add: aig_at_def closed_loop_run inp_def)
  assume fair: "\<And>f. f \<in> set (aig_fairs ?g) \<Longrightarrow> recurs (\<lambda>t. aig_at ?g inp t (n_lit f))" and l: "l \<in> set (goal_literals ?g)"
  obtain j where j: "j < count_goals ?g" "l = goal_literals ?g ! j" using l by (auto simp: in_set_conv_nth goal_literals_length)
  have cn: "?c t < count_goals ?g" for t using play_invariant [OF ck n v u goals pos, of t] by (simp add: play_ok_def Let_def)
  have rk: "ranked ck j" if "j < count_goals ?g" for j using v n that by (simp add: verified_def Let_def)
  have "recurs (\<lambda>t. on_state ck (ck_goal ck j) (?s t))"
  proof (rule ranked_play [where c = ?c and n = "count_goals ?g" and nf = ?nf and nd = ?nd and X = "state_x ck" and s = ?s
        and goal = "\<lambda>j. on_state ck (ck_goal ck j)" and fair = "\<lambda>i. on_state ck (ck_fair ck i)"])
    fix t
    show "?c (Suc t) = (if on_state ck (ck_goal ck (?c t)) (?s t) then Suc (?c t) mod count_goals ?g else ?c t)"
      using at [OF goals [rule_format, OF cn], of t t] by (simp add: Let_def inp_def)
    from step [of t] obtain \<rho> m where s: "st_of ?A \<rho> = ?s t" "st_of ?A (mode_step ck lits m \<rho>) = ?s (Suc t)" "goal_of m = ?c t"
      "ck_inv ck \<rho>" "\<not> mode_bad ck lits m \<rho>" by blast
    show "\<exists>k. \<exists>i<?nd. state_x ck j k i (?s t)" if jn: "j < count_goals ?g" for j
    proof -
      obtain k i where ki: "k < ce_levels (ck_cert ck) ! j" "i < ?nd" "ck_x ck j k i \<rho>" "state_pred ?A (ck_x ck j k i)"
        using rk [OF jn] s(4) by (auto simp: ranked_def Let_def)
      then have "state_x ck j k i (?s t)"
        using on_state [OF A ki(4) length_st_of [OF A], of \<rho>] s(1) by (simp add: state_x_def)
      with ki(2) show ?thesis by blast
    qed
    assume ng: "\<not> on_state ck (ck_goal ck (?c t)) (?s t)"
    have gp: "state_pred ?A (ck_goal ck (?c t))" by (rule literal_state_pred [OF A goals [rule_format, OF cn]])
    have ng: "\<not> ck_goal ck (?c t) \<rho>" using ng on_state [OF A gp length_st_of [OF A], of \<rho>] s(1) by simp
    have nb: "\<not> rank_violation (ck_x ck (?c t)) (ck_inv ck) (ck_goal ck (?c t)) (\<lambda>ki \<rho>. escape ck (?c t) ki (mode_step ck lits m \<rho>))
      (layers_of ck (?c t)) \<rho>" using s(5) unfolding mode_bad_def Let_def s(3) by blast
    from escape_progress [OF A rk [OF cn] gp literal_state_pred [OF A fairs [rule_format]] s(4) ng nb]
    show "progress ?nf ?nd (state_x ck (?c t)) (\<lambda>i. on_state ck (ck_fair ck i)) (on_state ck (ck_goal ck (?c t))) (?s t) (?s (Suc t))"
      unfolding s(1,2) .
  next
    show "0 < ?nf \<Longrightarrow> ?nd = ?nf" by (auto simp: nfair_disj_def)
    show "recurs (\<lambda>t. on_state ck (ck_fair ck i) (?s t))" if "i < ?nf" for i
      using fair [of "aig_fairs ?g ! i"] at [OF fairs [rule_format, OF that]] that by simp
    show "?c 0 < count_goals ?g" using pos by simp
  qed (rule j(1))
  then show "recurs (\<lambda>t. aig_at ?g inp t l)" using at [OF goals [rule_format, OF j(1)]] by (simp add: j(2))
qed

end

end
