(* ===== verification/Gr1_Run.thy ===== *)
theory Gr1_Run
  imports Gr1_Sound
begin

text \<open>
  The run of the checker: a verdict of verified means that the policy wins the game it was given,
  before sampling, against every environment.
\<close>

context oxidd_laws
begin

lemma post_check_attempt:
  assumes v: "2 * (length (aig_lats g) + count_goals g) + length (aig_ins g) \<le> vars"
    and p: "structured policy" "aig_lats policy = []" "oxidd_max_aig_var policy < 2 ^ 31"
    and g: "structured g" and c: "structured cert" "aig_lats cert = []" and lv: "length levels = count_goals g" and pos: "0 < count_goals g"
  shows "(\<And>r s'. (r = CHECK_VERIFIED \<Longrightarrow> \<exists>ck lits. checker_for g policy levels ck \<and> verified ck lits) \<Longrightarrow> Q r s') \<Longrightarrow>
    post (check_attempt retries B K opt g policy cert levels) Q s"
proof (induction retries arbitrary: opt s)
  case 0
  show ?case unfolding check_attempt.simps by (intro post_return 0) simp
next
  case (Suc retries)
  have fresh: "post fresh_run R t" if "\<And>t'. R () t'" for R t using that by (simp add: post_def fresh_run_def)
  have rest: "post (do { stop \<leftarrow> (if speculative_input_first opt policy then ext (timed_out K) else State_Monad.return True);
      if stop \<or> r = CHECK_VERIFIED then State_Monad.return r
      else check_attempt retries B K (opt\<lparr>opt_legacy := True\<rparr>) g policy cert levels }) Q t"
    if "r = CHECK_VERIFIED \<Longrightarrow> \<exists>ck lits. checker_for g policy levels ck \<and> verified ck lits" for r t
    by (intro post_bind post_if post_ext post_return Suc.IH Suc.prems) (use that in blast)+
  show ?case unfolding check_attempt.simps
  proof (rule post_bind, rule fresh, rule post_bind, rule post_setup_bdds [OF v p g c lv], rule post_bind, intro post_option)
    fix r t show "post (State_Monad.return CHECK_UNKNOWN) (\<lambda>r. post (do { stop \<leftarrow> (if speculative_input_first opt policy
        then ext (timed_out K) else State_Monad.return True);
      if stop \<or> r = CHECK_VERIFIED then State_Monad.return r
      else check_attempt retries B K (opt\<lparr>opt_legacy := True\<rparr>) g policy cert levels }) Q) t"
      by (intro post_return rest) simp
    fix cp assume r: "r = Some cp"
      and ok: "\<And>ck pc. r = Some (ck, pc) \<Longrightarrow> checker_for g policy levels ck \<and> cache_ok den (ck_alphabet ck) pc"
    obtain ck pc where cp: "cp = (ck, pc)" by (cases cp)
    have ck: "checker_for g policy levels ck" "cache_ok den (ck_alphabet ck) pc" using ok r cp by simp_all
    show "post (case cp of (ck, pc) \<Rightarrow> check_certificate_mode B K opt ck pc)
      (\<lambda>r. post (do { stop \<leftarrow> (if speculative_input_first opt policy then ext (timed_out K) else State_Monad.return True);
        if stop \<or> r = CHECK_VERIFIED then State_Monad.return r
        else check_attempt retries B K (opt\<lparr>opt_legacy := True\<rparr>) g policy cert levels }) Q) t"
      unfolding cp prod.case
      by (rule post_check_certificate, rule_tac [5] rest) (use ck pos in \<open>auto simp: checker_for_def\<close>)
  qed
qed

end

lemma validate_inputs_ok:
  assumes "validate_inputs sidecars game policy cert = Some (g, levels)"
  shows "validate_aig_structure game" "structured policy" "structured cert" "aig_lats policy = []" "aig_lats cert = []"
    "aig_sample_input_dependent_acceptance game = Some g" "0 < count_goals g" "length levels = count_goals g"
proof -
  have v: "validate_aig_structure game" "validate_aig_structure policy" "validate_aig_structure cert"
    "aig_sample_input_dependent_acceptance game = Some g" "count_goals g \<noteq> 0" "validate_policy_interface False g (count_goals g) policy"
    "validate_certificate_interface g (nfair_disj g) cert = Some levels"
    using assms by (auto simp: validate_inputs_def split: if_splits bind_splits)
  then show "validate_aig_structure game" "structured policy" "structured cert"
    "aig_sample_input_dependent_acceptance game = Some g" "0 < count_goals g" by (simp_all add: validate_structure_ok)
  show "aig_lats policy = []" using v(6) by (simp add: validate_policy_interface_def Let_def)
  show "aig_lats cert = []" "length levels = count_goals g"
    using v(7) by (auto simp: validate_certificate_interface_def Let_def split: if_splits bind_splits dest!: traverse_length)
qed

lemma graph_ok_structured: "graph_ok g \<Longrightarrow> structured g"
  by (simp add: graph_ok_def structured_def)

subsection \<open>Back to the game as it was given\<close>

lemma samples_goals:
  assumes "samples g h"
  shows "list_all2 (\<lambda>l l'. state_literal h l' \<and> (\<forall>is. (\<forall>t. length (is t) = length (aig_ins g)) \<longrightarrow>
      recurs (\<lambda>t. aig_at h is t l') = recurs (\<lambda>t. aig_at g is t l))) (goal_literals g) (goal_literals h)"
    and "list_all2 (\<lambda>l l'. state_literal h l' \<and> (\<forall>is. (\<forall>t. length (is t) = length (aig_ins g)) \<longrightarrow>
      recurs (\<lambda>t. aig_at h is t l') = recurs (\<lambda>t. aig_at g is t l))) (map n_lit (aig_fairs g)) (map n_lit (aig_fairs h))"
    (is "list_all2 ?R _ _")
proof -
  have a: "list_all2 (list_all2 ?R) (map j_lits (aig_justs g) @ [map n_lit (aig_fairs g)]) (map j_lits (aig_justs h) @ [map n_lit (aig_fairs h)])"
    using assms by (simp add: samples_def acceptance_def)
  from list_all2_lengthD [OF this] have "length (map j_lits (aig_justs g)) = length (map j_lits (aig_justs h))" by simp
  from a [unfolded list_all2_append [OF this]] have
    j: "list_all2 (list_all2 ?R) (map j_lits (aig_justs g)) (map j_lits (aig_justs h))" and
    f: "list_all2 ?R (map n_lit (aig_fairs g)) (map n_lit (aig_fairs h))" by simp_all
  show "list_all2 ?R (map n_lit (aig_fairs g)) (map n_lit (aig_fairs h))" by (rule f)
  have top: "?R AIG_TRUE AIG_TRUE" by (simp add: state_literal_def AIG_TRUE_def aig_at_def)
  have "list_all2 ?R (concat (map (\<lambda>ls. if ls = [] then [AIG_TRUE] else ls) xs)) (concat (map (\<lambda>ls. if ls = [] then [AIG_TRUE] else ls) ys))"
    if "list_all2 (list_all2 ?R) xs ys" for xs ys
    using that
  proof (induction rule: list_all2_induct)
    case (Cons x xs y ys)
    have "x = [] \<longleftrightarrow> y = []" using Cons.hyps(1) by (auto dest: list_all2_lengthD)
    then have "list_all2 ?R (if x = [] then [AIG_TRUE] else x) (if y = [] then [AIG_TRUE] else y)" using Cons.hyps(1) top by simp
    from list_all2_appendI [OF this Cons.IH] show ?case by simp
  qed simp
  from this [OF j] show "list_all2 ?R (goal_literals g) (goal_literals h)" by (simp add: goal_literals_def comp_def)
qed

definition game_won :: "aig \<Rightarrow> (nat \<Rightarrow> bool list) \<Rightarrow> bool" where
  "game_won game inp \<longleftrightarrow> (\<forall>t. \<forall>l\<in>set (bad_literals game). \<not> aig_at game inp t l) \<and>
     ((\<forall>f\<in>set (aig_fairs game). recurs (\<lambda>t. aig_at game inp t (n_lit f))) \<longrightarrow>
       (\<forall>l\<in>set (goal_literals game). recurs (\<lambda>t. aig_at game inp t l)))"

context oxidd_laws
begin

lemma check_run_sound:
  assumes header: "\<forall>v\<in>aig_vars game. v \<le> unat (nextvar game)"
    and room: "unat (nextvar game) + length (concat (acceptance game)) \<le> MAX_VAR"
    and pol: "oxidd_max_aig_var policy < 2 ^ 31"
    and vars: "2 * (length (aig_lats game) + length (concat (acceptance game)) + count_goals game) + length (aig_ins game) \<le> vars"
    and run: "fst (run_state (gr1_check_run B K opt sidecars game policy cert) s) = CHECK_VERIFIED"
  shows "\<exists>g levels lits. validate_inputs sidecars game policy cert = Some (g, levels) \<and>
    policy_root_literals g (count_goals g) policy = Some lits \<and>
    (\<forall>us. (\<forall>t. length (us t) = length (uinputs game)) \<longrightarrow> game_won game (loop_inputs g policy lits us))"
proof -
  obtain g levels where v: "validate_inputs sidecars game policy cert = Some (g, levels)"
    using run by (auto simp: gr1_check_run_def split: option.splits)
  note ok = validate_inputs_ok [OF v]
  note st = validate_structure_ok [OF ok(1)]
  have "graph_ok game" using st(1) header room by (auto simp: structured_def graph_ok_def)
  then obtain h where "aig_sample_input_dependent_acceptance game = Some h" "samples game h"
    using aig_sampling_defined [of game] st room by (auto simp: list_all_iff)
  then have sm: "samples game g" using ok(6) by simp
  note fields = sample_fields [OF ok(6)]
  have ins: "aig_ins g = aig_ins game" and gok: "graph_ok g" using sm by (simp_all add: samples_def)
  have cg: "count_goals g = count_goals game"
    using list_all2_lengthD [OF samples_goals(1) [OF sm]] by (simp add: goal_literals_length)
  have vs: "2 * (length (aig_lats g) + count_goals g) + length (aig_ins g) \<le> vars" using vars fields(3) ins cg by simp
  have "post (check_attempt 2 B K opt g policy cert levels) (\<lambda>r _. r = CHECK_VERIFIED \<longrightarrow>
      (\<exists>ck lits. checker_for g policy levels ck \<and> verified ck lits)) s"
    by (rule post_check_attempt [OF vs ok(2,4) pol graph_ok_structured [OF gok] ok(3,5,8,7)]) blast
  then obtain ck lits where ck: "checker_for g policy levels ck" and vf: "verified ck lits"
    using run by (auto simp: gr1_check_run_def v post_def split_beta)
  have c: "checker_ok ck" "al_game (ck_alphabet ck) = g" "al_policy (ck_alphabet ck) = policy" "al_ncounter (ck_alphabet ck) = count_goals g"
    using ck by (simp_all add: checker_for_def)
  have lits: "policy_root_literals g (count_goals g) policy = Some lits" using vf c by (simp add: verified_def Let_def)
  have sl: "\<forall>j<count_goals g. state_literal g (goal_literals g ! j)" "\<forall>i<length (aig_fairs g). state_literal g (n_lit (aig_fairs g ! i))"
    using samples_goals [OF sm] by (auto simp: list_all2_conv_all_nth goal_literals_length)
  have "game_won game (loop_inputs g policy lits us)" if us: "\<forall>t. length (us t) = length (uinputs game)" for us
  proof -
    let ?is = "loop_inputs g policy lits us"
    have u: "\<forall>t. length (us t) = length (uinputs (al_game (ck_alphabet ck)))" using us ins c(2) by (simp add: uinputs_def input_name_def)
    have n: "al_ncounter (ck_alphabet ck) = count_goals (al_game (ck_alphabet ck))" "0 < count_goals (al_game (ck_alphabet ck))"
      using c ok(7) by simp_all
    note sound = verified_sound [OF c(1) n(1) vf u _ _ n(2), unfolded c(2,3), OF sl]
    have len: "\<forall>t. length (?is t) = length (aig_ins game)" using ins by simp
    have at: "aig_at g ?is t l = aig_at game ?is t l" if "lit_in (aig_vars game) l" for t l
      using sm len that by (auto simp: samples_def)
    have bads: "bad_literals g = bad_literals game" using fields by (simp add: bad_literals_def)
    have bl: "lit_in (aig_vars game) l" if "l \<in> set (bad_literals game)" for l
      using that validate_structure_ok(3) [OF ok(1)] by (auto simp: bad_literals_def split: if_splits)
    have "\<not> aig_at game ?is t l" if "l \<in> set (bad_literals game)" for t l
      using sound(1) [of l t] that bads at [OF bl [OF that]] by simp
    moreover have "recurs (\<lambda>t. aig_at game ?is t l)"
      if fair: "\<forall>f\<in>set (aig_fairs game). recurs (\<lambda>t. aig_at game ?is t (n_lit f))" and l: "l \<in> set (goal_literals game)" for l
    proof -
      have "recurs (\<lambda>t. aig_at g ?is t (n_lit f))" if fg: "f \<in> set (aig_fairs g)" for f
      proof -
        obtain i where i: "i < length (aig_fairs g)" "f = aig_fairs g ! i" using fg by (auto simp: in_set_conv_nth)
        have lf: "length (aig_fairs game) = length (aig_fairs g)" using list_all2_lengthD [OF samples_goals(2) [OF sm]] by simp
        have "recurs (\<lambda>t. aig_at g ?is t (n_lit f)) = recurs (\<lambda>t. aig_at game ?is t (n_lit (aig_fairs game ! i)))"
          using list_all2_nthD2 [OF samples_goals(2) [OF sm], of i] i lf len by simp
        then show ?thesis using fair i lf by simp
      qed
      moreover obtain j where j: "j < length (goal_literals game)" "l = goal_literals game ! j" using l by (auto simp: in_set_conv_nth)
      moreover have "recurs (\<lambda>t. aig_at g ?is t (goal_literals g ! j)) = recurs (\<lambda>t. aig_at game ?is t l)"
        using list_all2_nthD [OF samples_goals(1) [OF sm] j(1)] j(2) len by simp
      moreover have "goal_literals g ! j \<in> set (goal_literals g)" using j(1) cg by (simp add: goal_literals_length)
      ultimately show ?thesis using sound(2) [of "goal_literals g ! j"] by blast
    qed
    ultimately show ?thesis by (auto simp: game_won_def)
  qed
  with v lits show ?thesis by blast
qed

end

end
