(* ===== verification/Gr1_Example.thy ===== *)
theory Gr1_Example
  imports Gr1_Run Decision_Trees
begin

text \<open>A small game, with a policy that wins it and a certificate, for the checker to run on.\<close>

definition example_game :: aig where
  "example_game = \<lparr>nextvar = 4,
     aig_ins = [\<lparr>in_name = Some ''u'', in_var = 1\<rparr>, \<lparr>in_name = Some ''controllable_c'', in_var = 2\<rparr>],
     aig_lats = [\<lparr>lat_var = 3, lat_next = 4, lat_reset = 0, lat_name = Some ''s''\<rparr>],
     aig_ands = [\<lparr>g_var = 4, g_r0 = 2, g_r1 = 5\<rparr>],
     aig_outs = [], aig_bads = [\<lparr>n_name = None, n_lit = 8\<rparr>], aig_cons = [], aig_sigs = [],
     aig_justs = [\<lparr>j_name = None, j_lits = [6]\<rparr>], aig_fairs = []\<rparr>"

definition example_policy :: aig where
  "example_policy = \<lparr>nextvar = 3,
     aig_ins = [\<lparr>in_name = Some ''s'', in_var = 1\<rparr>, \<lparr>in_name = Some ''curr_0'', in_var = 2\<rparr>, \<lparr>in_name = Some ''u'', in_var = 3\<rparr>],
     aig_lats = [], aig_ands = [],
     aig_outs = [\<lparr>n_name = Some ''controllable_c'', n_lit = 1\<rparr>, \<lparr>n_name = Some ''curr_next_0'', n_lit = 1\<rparr>],
     aig_bads = [], aig_cons = [], aig_sigs = [], aig_justs = [], aig_fairs = []\<rparr>"

definition example_certificate :: aig where
  "example_certificate = \<lparr>nextvar = 3,
     aig_ins = [\<lparr>in_name = Some ''s'', in_var = 1\<rparr>, \<lparr>in_name = Some ''u'', in_var = 2\<rparr>, \<lparr>in_name = Some ''controllable_c'', in_var = 3\<rparr>],
     aig_lats = [], aig_ands = [],
     aig_outs = [\<lparr>n_name = Some ''inv'', n_lit = 1\<rparr>, \<lparr>n_name = Some ''goal_0'', n_lit = 2\<rparr>, \<lparr>n_name = Some ''move_0'', n_lit = 1\<rparr>,
       \<lparr>n_name = Some ''y_0_0'', n_lit = 1\<rparr>, \<lparr>n_name = Some ''x_0_0_0'', n_lit = 1\<rparr>],
     aig_bads = [], aig_cons = [], aig_sigs = [], aig_justs = [], aig_fairs = []\<rparr>"

definition example_limits :: "unit limits" where
  "example_limits = \<lparr>run_stopped = (\<lambda>w. (False, w)), timed_out = (\<lambda>w. (False, w))\<rparr>"

definition example_options :: check_options where
  "example_options = \<lparr>opt_order = ORDER_AUTO, opt_legacy = False, opt_unspecialized = False, opt_rebuild = False\<rparr>"

subsection \<open>Evaluation of a run\<close>

lemma run_return: "run_state (State_Monad.return x) s = (x, s)"
  by (simp add: State_Monad.return_def)

lemma run_bind: "run_state (c \<bind> f) s = (case run_state c s of (r, t) \<Rightarrow> run_state (f r) t)"
  by simp

lemma run_ext: "run_state (ext f) s = (case f (world s) of (r, w) \<Rightarrow> (r, s\<lparr>world := w\<rparr>))"
  by (simp add: ext_def)

lemma run_steps:
  "run_state fail_bdd s = ((), s\<lparr>bdd_failed := True\<rparr>)" "run_state fail_run s = ((), s\<lparr>run_failed := True\<rparr>)"
  "run_state get_failed s = (bdd_failed s, s)" "run_state get_run_failed s = (run_failed s, s)"
  "run_state count_gate s = ((), s\<lparr>built_gates := built_gates s + 1\<rparr>)" "run_state get_built s = (built_gates s, s)"
  "run_state fresh_run s = ((), s\<lparr>bdd_failed := False, run_failed := False, built_gates := 0\<rparr>)"
  by (simp_all add: fail_bdd_def fail_run_def get_failed_def get_run_failed_def count_gate_def get_built_def fresh_run_def)

lemma tree_library_ops:
  "ox_false tree_library w = (Some (Leaf False), w)" "ox_true tree_library w = (Some (Leaf True), w)"
  "ox_var tree_library v w = (Some (Node v (Leaf False) (Leaf True)), w)"
  "ox_not tree_library (Some a) w = (Some (tree_not a), w)"
  "ox_and tree_library (Some a) (Some b) w = (Some (tree_and a b), w)"
  "ox_or tree_library (Some a) (Some b) w = (Some (tree_or a b), w)"
  "ox_xor tree_library (Some a) (Some b) w = (Some (tree_xor a b), w)"
  "ox_forall tree_library (Some a) (Some b) w = (map_option (\<lambda>ps. forall_cube ps a) (cube_pairs b), w)"
  "ox_restrict tree_library (Some a) (Some b) w = (map_option (\<lambda>ps. tree_restrict ps a) (cube_pairs b), w)"
  "ox_substitute tree_library (Some a) sub w =
     (if None \<in> set (map snd sub) then None else Some (tree_substitute (map (\<lambda>(v, t). (v, the t)) sub) a), w)"
  "ox_satisfiable tree_library (Some a) w = (tree_sat [] a, w)"
  "ox_eval tree_library (Some a) args w = (tree_den a (\<lambda>v. map_of args v = Some True), w)"
  by (simp_all add: tree_library_def lift1_def lift2_def with_cube_def substitute_all_def tree_sat_handle_def tree_eval_def)

lemma bind_cong_weak: "c = c' \<Longrightarrow> c \<bind> f = c' \<bind> (f :: _ \<Rightarrow> (_, _) state)"
  by simp

lemmas monad_eval = run_return run_bind run_ext run_steps tree_library_ops

lemmas tree_eval_simps = tree_not_def tree_and_def tree_or_def tree_xor_def mk_node_def tree_ite_def forall_cube_def

lemma example_valid: "validate_inputs True example_game example_policy example_certificate = Some (example_game, [1])"
  by code_simp

lemma example_lits: "policy_root_literals example_game (Suc 0) example_policy = Some [1, 1]"
  by code_simp

lemma example_cones: "policy_cones example_game (Suc 0) example_policy = Some ([], 0)"
  by code_simp

definition example_alphabet :: "tree alphabet" where
  "example_alphabet = \<lparr>al_game = example_game, al_policy = example_policy, al_ncounter = 1, al_qvar = [0, 2], al_uvar = [4],
     al_cvar = [5], al_q = map (\<lambda>v. Some (Node v (Leaf False) (Leaf True))) [0, 2], al_u = [Some (Node 4 (Leaf False) (Leaf True))],
     al_c = [Some (Node 5 (Leaf False) (Leaf True))]\<rparr>"

lemma example_sizes: "count_goals example_game = 1" "uinputs example_game = [0]" "cinputs example_game = [1]"
  "use_input_first example_options example_policy = False" "speculative_input_first example_options example_policy = False"
  "nfair_disj example_game = 1" "bad_literals example_game = [8]" "goal_literals example_game = [6]"
  "aig_lats example_game = [\<lparr>lat_var = 3, lat_next = 4, lat_reset = 0, lat_name = Some ''s''\<rparr>]"
  "oxidd_max_aig_var example_game = 4" "oxidd_max_aig_var example_policy = 3" "oxidd_max_aig_var example_certificate = 3"
  "game_root_literals example_game = [4, 8, 6]" "map n_lit (selected_outputs example_certificate) = [1, 2, 1, 1]"
  by code_simp+

lemma example_make_alphabet:
  "run_state (make_alphabet tree_library False example_game example_policy) s = (example_alphabet, s)"
  by (simp add: make_alphabet_def example_sizes Let_def state_vars_def letter_vars_def upt_rec [of 0] upt_rec [of 1] monad_eval
      example_alphabet_def)


lemma example_fields: "al_game example_alphabet = example_game" "al_policy example_alphabet = example_policy"
  "al_ncounter example_alphabet = 1" "al_qvar example_alphabet = [0, 2]" "al_uvar example_alphabet = [4]" "al_cvar example_alphabet = [5]"
  "al_q example_alphabet = [Some (Node 0 (Leaf False) (Leaf True)), Some (Node 2 (Leaf False) (Leaf True))]"
  "al_u example_alphabet = [Some (Node 4 (Leaf False) (Leaf True))]" "al_c example_alphabet = [Some (Node 5 (Leaf False) (Leaf True))]"
  by (simp_all add: example_alphabet_def)

lemma example_graphs: "map (unat \<circ> in_var) (aig_ins example_game) = [1, 2]" "aig_ands example_game = [\<lparr>g_var = 4, g_r0 = 2, g_r1 = 5\<rparr>]"
  "aig_ands example_policy = []" "aig_ands example_certificate = []" "aig_lats example_policy = []" "aig_lats example_certificate = []"
  "aig_bads example_game \<noteq> []" "\<not> opt_unspecialized example_options" "\<not> opt_rebuild example_options"
  by (simp_all add: example_options_def example_game_def example_policy_def example_certificate_def)

lemma example_letters: "game_letters example_game [a] [b] = [a, b]"
  by (simp add: game_letters_def example_game_def input_name_def upt_rec [of 0] upt_rec [of 1] is_controllable_def starts_with_def)

lemmas roots_eval = compile_aig_roots_def compile_aig_roots_seeded_def leaf_map_def leaf_vars_def oxidd_build_roots_def
  run_literal_def gate_result_def oxidd_run_not_def oxidd_run_and_def run_operation_def bdd_same_identity_def
  count_use_def consume_literal_def example_limits_def bdd_or_into_def bdd_and_into_def

lemmas example_eval = example_graphs example_fields example_sizes example_letters

abbreviation after_gates :: "nat \<Rightarrow> unit run" where
  "after_gates n \<equiv> \<lparr>world = (), bdd_failed = False, run_failed = False, built_gates = n\<rparr>"

lemmas weak_congs = bind_cong_weak option.case_cong_weak if_weak_cong prod.case_cong_weak

lemma example_setup_game:
  "run_state (setup_game tree_library example_limits example_alphabet) (after_gates 0) =
   (Some \<lparr>gm_next = [Some (Node 5 (Leaf False) (Leaf True))], gm_bad = Some (Node 4 (Leaf False) (Node 5 (Leaf True) (Leaf False))),
      gm_goal = [Some (Node 0 (Leaf False) (Leaf True))], gm_fair = []\<rparr>, after_gates 1)"
  by (simp add: setup_game_def example_eval Let_def roots_eval monad_eval tree_eval_simps cong: weak_congs)

lemma example_certificate_inputs:
  "map (\<lambda>i. certificate_input example_alphabet (in_name i)) (aig_ins example_certificate) =
   map (\<lambda>v. Some (Node v (Leaf False) (Leaf True))) [0, 4, 5]"
  by code_simp

lemma example_certificate_leaves: "map (unat \<circ> in_var) (aig_ins example_certificate) = [1, 2, 3]"
  by (simp add: example_certificate_def)

lemma example_certificate_outputs:
  "run_state (compile_certificate_outputs tree_library example_limits example_alphabet example_certificate) (after_gates n) =
   (Some [Some (Leaf True), Some (Node 0 (Leaf False) (Leaf True)), Some (Leaf True), Some (Leaf True)], after_gates n)"
  by (simp add: compile_certificate_outputs_def example_certificate_inputs example_certificate_leaves example_eval Let_def roots_eval
      monad_eval tree_eval_simps cong: weak_congs)

lemma example_certificate_roots:
  "certificate_roots example_certificate (Suc 0) [Suc 0]
     [Some (Leaf True), Some (Node 0 (Leaf False) (Leaf True)), Some (Leaf True), Some (Leaf True)] =
   \<lparr>ce_inv = Some (Leaf True), ce_goal = [Some (Node 0 (Leaf False) (Leaf True))], ce_levels = [1],
     ce_y = [[Some (Leaf True)]], ce_x = [[[Some (Leaf True)]]]\<rparr>"
  by code_simp

definition example_checker :: "tree checker" where
  "example_checker = \<lparr>ck_alphabet = example_alphabet,
     ck_game = \<lparr>gm_next = [Some (Node 5 (Leaf False) (Leaf True))], gm_bad = Some (Node 4 (Leaf False) (Node 5 (Leaf True) (Leaf False))),
       gm_goal = [Some (Node 0 (Leaf False) (Leaf True))], gm_fair = []\<rparr>,
     ck_cert = \<lparr>ce_inv = Some (Leaf True), ce_goal = [Some (Node 0 (Leaf False) (Leaf True))], ce_levels = [1],
       ce_y = [[Some (Leaf True)]], ce_x = [[[Some (Leaf True)]]]\<rparr>,
     ck_cube = Some (Node 4 (Leaf False) (Node 5 (Leaf False) (Leaf True)))\<rparr>"

lemma example_setup:
  "run_state (setup_bdds tree_library example_limits example_options example_game example_policy example_certificate [Suc 0]) (after_gates 0) =
   (Some (example_checker, empty_cache), after_gates 1)"
  by (simp add: setup_bdds_def example_eval example_make_alphabet example_setup_game example_certificate_outputs example_certificate_roots
      monad_eval cube_of_def tree_eval_simps example_checker_def cong: weak_congs)

lemma example_checker_fields:
  "ck_alphabet example_checker = example_alphabet" "ck_cube example_checker = Some (Node 4 (Leaf False) (Node 5 (Leaf False) (Leaf True)))"
  "ce_inv (ck_cert example_checker) = Some (Leaf True)" "ce_goal (ck_cert example_checker) = [Some (Node 0 (Leaf False) (Leaf True))]"
  "ce_levels (ck_cert example_checker) = [1]" "ce_y (ck_cert example_checker) = [[Some (Leaf True)]]"
  "ce_x (ck_cert example_checker) = [[[Some (Leaf True)]]]" "gm_next (ck_game example_checker) = [Some (Node 5 (Leaf False) (Leaf True))]"
  "gm_bad (ck_game example_checker) = Some (Node 4 (Leaf False) (Node 5 (Leaf True) (Leaf False)))"
  "gm_goal (ck_game example_checker) = [Some (Node 0 (Leaf False) (Leaf True))]" "gm_fair (ck_game example_checker) = []"
  by (simp_all add: example_checker_def)

lemmas check_eval = checked_satisfiable_def refute_def check_state_only_def example_checker_fields bdd_or_into_def bdd_and_into_def

lemma example_predicates:
  "run_state (validate_certificate_predicates tree_library example_checker) (after_gates n) = (CHECK_VERIFIED, after_gates n)"
  by (simp add: validate_certificate_predicates_def check_eval monad_eval tree_eval_simps cong: weak_congs)

lemma example_goals:
  "run_state (check_goals tree_library example_checker) (after_gates n) = (CHECK_VERIFIED, after_gates n)"
  by (simp add: check_goals_def check_eval monad_eval tree_eval_simps cong: weak_congs)

lemma example_reset:
  "run_state (reset_in_predicate tree_library example_alphabet (Some (Leaf True))) (after_gates n) = (True, after_gates n)"
  by (simp add: reset_in_predicate_def monad_eval)

lemma example_coverage:
  "run_state (check_coverage tree_library example_checker) (after_gates n) = (CHECK_VERIFIED, after_gates n)"
  by (simp add: check_coverage_def check_eval monad_eval tree_eval_simps cong: weak_congs)

definition example_cache :: "tree policy_cache" where
  "example_cache = empty_cache\<lparr>pc_independent := Some []\<rparr>"

lemma example_sources:
  "map (\<lambda>i. policy_source example_game (Suc 0) (in_name i)) (aig_ins example_policy) = [Some (From_State 0), Some (From_Counter 0), Some (From_Input 0)]"
  by code_simp

lemma example_fill:
  "run_state (fill_policy_inputs tree_library example_alphabet mode True) (after_gates n) =
   (Some [Some (Node 0 (Leaf False) (Leaf True)), Some (Leaf (mode = 0)), Some (Node 4 (Leaf False) (Leaf True))], after_gates n)"
proof -
  obtain i j k where i: "aig_ins example_policy = [i, j, k]" by (simp add: example_policy_def)
  show ?thesis using example_sources
    by (simp add: fill_policy_inputs_def i example_eval source_root_def monad_eval cong: weak_congs) auto
qed

lemma example_policy_leaves: "map (unat \<circ> in_var) (aig_ins example_policy) = [1, 2, 3]"
  by (simp add: example_policy_def)

lemma example_policy_roots:
  "run_state (policy_roots tree_library example_limits example_alphabet mode True []) (after_gates n) =
   (Some ([Some (Leaf True)], [Some (Leaf True)]), after_gates n)"
  by (simp add: policy_roots_def example_fill example_lits example_policy_leaves example_eval split_roots_def Let_def roots_eval
      monad_eval tree_eval_simps cong: weak_congs)

lemma example_independent:
  "run_state (prepare_policy_independent tree_library example_limits example_alphabet empty_cache) (after_gates n) =
   ((True, example_cache), after_gates n)"
  "run_state (prepare_policy_independent tree_library example_limits example_alphabet example_cache) (after_gates n) =
   ((True, example_cache), after_gates n)"
  by (simp_all add: prepare_policy_independent_def independent_roots_def example_fill example_cones example_eval
      monad_eval tree_eval_simps example_cache_def empty_cache_def cong: weak_congs)

lemma example_compile:
  "pc = empty_cache \<or> pc = example_cache \<Longrightarrow>
   run_state (compile_policy_roots tree_library example_limits example_alphabet mode True pc) (after_gates n) =
   ((Some ([Some (Leaf True)], [Some (Leaf True)]), example_cache), after_gates n)"
  by (auto simp add: compile_policy_roots_def example_independent example_policy_roots monad_eval cong: weak_congs)
     (simp_all add: example_cache_def empty_cache_def example_policy_roots)

lemmas mode_eval = mode_policy_def mode_violation_def open_mode_def substitute_controls_def successor_def kept_successor_def
  check_inductive_def check_counter_def expected_counter_def check_ranks_def check_progress_def fair_escape_def goal_escape_def
  lower_escape_def goal_of_def assignment_cube_def

lemma example_clock: "timed_out example_limits w = (False, w)"
  by (simp add: example_limits_def)

lemma example_mode:
  "mode = - 1 \<or> mode = 0 \<Longrightarrow> pc = empty_cache \<or> pc = example_cache \<Longrightarrow>
   run_state (check_mode tree_library example_limits example_options example_checker mode pc) (after_gates n) =
   ((CHECK_VERIFIED, example_cache), after_gates n)"
  by (elim disjE; hypsubst)
     (simp_all add: check_mode_def mode_eval check_eval example_eval example_compile monad_eval tree_eval_simps Let_def
        updated_def example_clock upt_rec [of 0] cong: weak_congs)

lemma example_check:
  "run_state (check_certificate_mode tree_library example_limits example_options example_checker empty_cache) (after_gates n) =
   (CHECK_VERIFIED, after_gates n)"
  by (simp add: check_certificate_mode_def example_predicates example_goals example_reset example_coverage example_mode
      example_checker_fields example_fields monad_eval upt_rec [of 0] cong: weak_congs)

lemma example_verified:
  "fst (run_state (gr1_check_run tree_library example_limits example_options True example_game example_policy example_certificate)
     (after_gates 0)) = CHECK_VERIFIED"
  by (simp add: gr1_check_run_def example_valid numeral_2_eq_2 example_setup example_check example_sizes monad_eval cong: weak_congs)

lemma example_ok: "aig_ok example_game"
  by (simp add: aig_ok_def graph_ok_def lits_ok_def example_game_def leaf_vars_def aig_vars_def gate_vars_def lit_in_def MAX_VAR_def)

lemma example_acceptance: "concat (acceptance example_game) = [6]" "acceptance example_game = [[6], []]"
  by (simp_all add: acceptance_def example_game_def)
end
