(* ===== verification/Gr1_Claims.thy ===== *)
theory Gr1_Claims
  imports Gr1_Example
begin

text \<open>
  The claims about the checker of GR(1) certificates: what its diagrams denote, what a verdict of
  verified means for the game, and what the structural check of a graph does and does not establish.
\<close>

text \<open>C1. A verified policy wins.  Whatever the options, the library of diagrams and its failures are,
  when the checker answers \<open>CHECK_VERIFIED\<close> the outputs of the policy with its goal counters,
  latched from the reset, keep every bad literal of the game as it was given false for ever and make
  every justice goal recur whenever all fairness literals do, against every sequence of environment
  inputs.  The checker does not test that the maximum in the header of the game covers its variables
  (a conforming file does): that is assumed, together with room among the variables of 31 bits for
  the sampling latches and enough variables in the library.\<close>

theorem gr1_certificate_sound:
  assumes "oxidd_laws B den vars"
    and "\<forall>v\<in>aig_vars game. v \<le> unat (nextvar game)" and "unat (nextvar game) + length (concat (acceptance game)) \<le> MAX_VAR"
    and "oxidd_max_aig_var policy < 2 ^ 31"
    and "2 * (length (aig_lats game) + length (concat (acceptance game)) + count_goals game) + length (aig_ins game) \<le> vars"
    and "fst (run_state (gr1_check_run B K opt sidecars game policy cert) s) = CHECK_VERIFIED"
  shows "\<exists>g levels lits. validate_inputs sidecars game policy cert = Some (g, levels) \<and>
    policy_root_literals g (count_goals g) policy = Some lits \<and>
    (\<forall>us. (\<forall>t. length (us t) = length (uinputs game)) \<longrightarrow> game_won game (loop_inputs g policy lits us))"
  by (rule oxidd_laws.check_run_sound [OF assms])

theorem gr1_certificate_sound_witness:
  "game_won example_game (loop_inputs example_game example_policy [1, 1] (\<lambda>t. [even t]))"
proof -
  have "\<exists>g levels lits. validate_inputs True example_game example_policy example_certificate = Some (g, levels) \<and>
      policy_root_literals g (count_goals g) example_policy = Some lits \<and>
      (\<forall>us. (\<forall>t. length (us t) = length (uinputs example_game)) \<longrightarrow> game_won example_game (loop_inputs g example_policy lits us))"
  proof (rule gr1_certificate_sound [OF _ _ _ _ _ example_verified])
    show "\<forall>v\<in>aig_vars example_game. v \<le> unat (nextvar example_game)"
      using example_ok by (auto simp: aig_ok_def graph_ok_def)
    show "oxidd_laws tree_library tree_den 8" by (rule trees.oxidd_laws_axioms)
    show "unat (nextvar example_game) + length (concat (acceptance example_game)) \<le> MAX_VAR"
      by (simp add: example_acceptance MAX_VAR_def) (simp add: example_game_def)
    show "2 * (length (aig_lats example_game) + length (concat (acceptance example_game)) + count_goals example_game) +
        length (aig_ins example_game) \<le> 8"
      by (simp add: example_acceptance example_sizes) (simp add: example_game_def)
  qed (simp add: example_sizes)
  then show ?thesis by (simp add: example_valid example_sizes example_lits)
qed

text \<open>C2. The diagrams of a graph are right.  Whatever order the uses of the variables force on the
  release of diagrams and whatever operation fails, every root that \<open>oxidd_build_roots\<close> returns is a
  diagram of the literal it was asked for, as a predicate of the leaves, also when some gates are
  seeded with diagrams of earlier runs.\<close>

theorem build_roots_correct:
  assumes "oxidd_laws B den vars" and "structured g"
    and "length inputs = length (aig_ins g)" and "length latches = length (aig_lats g)"
    and "all_mean den inputs Is" and "all_mean den latches Ls"
    and "\<forall>(v, b)\<in>set seeds. means den b (\<lambda>\<rho>. run_gates (aig_ands g) (leaves g Is Ls \<rho>) v)"
    and run: "run_state (compile_aig_roots_seeded B K g inputs latches seeds lits) s = (Some rs, t)"
  shows "list_all2 (\<lambda>r l. \<exists>b. r = Some b \<and> (\<forall>\<rho>. den b \<rho> = aig_val g (leaves g Is Ls \<rho>) l)) rs lits"
proof -
  have "post (compile_aig_roots_seeded B K g inputs latches seeds lits)
      (\<lambda>r _. \<forall>rs. r = Some rs \<longrightarrow> roots_mean den g (leaves g Is Ls) rs lits) s"
    by (rule oxidd_laws.post_compile_roots [OF assms(1-7)]) blast
  then have "roots_mean den g (leaves g Is Ls) rs lits" using run by (simp add: post_def)
  then show ?thesis unfolding roots_mean_def by (rule list_all2_mono) (auto simp: means_def)
qed

lemma example_bad_root:
  "run_state (compile_aig_roots_seeded tree_library example_limits example_game
     (map (\<lambda>v. Some (Node v (Leaf False) (Leaf True))) [4, 5]) [Some (Node 0 (Leaf False) (Leaf True))] [] [8]) (after_gates 0) =
   (Some [Some (Node 4 (Leaf False) (Node 5 (Leaf True) (Leaf False)))], after_gates 1)"
  by (simp add: example_eval Let_def roots_eval monad_eval tree_eval_simps cong: weak_congs)

theorem build_roots_correct_witness:
  "tree_den (Node 4 (Leaf False) (Node 5 (Leaf True) (Leaf False))) (\<lambda>v. v = 4) =
     aig_val example_game (leaves example_game (projections [4, 5]) (projections [0]) (\<lambda>v. v = 4)) 8"
proof -
  have "list_all2 (\<lambda>r l. \<exists>b. r = Some b \<and> (\<forall>\<rho>. tree_den b \<rho> =
      aig_val example_game (leaves example_game (projections [4, 5]) (projections [0]) \<rho>) l))
    [Some (Node 4 (Leaf False) (Node 5 (Leaf True) (Leaf False)))] [8]"
    by (rule build_roots_correct [OF trees.oxidd_laws_axioms _ _ _ _ _ _ example_bad_root])
       (simp_all add: structured_def example_game_def leaf_vars_def all_mean_def projections_def means_def fun_eq_iff lit_in_def)
  then have "\<forall>\<rho>. tree_den (Node 4 (Leaf False) (Node 5 (Leaf True) (Leaf False))) \<rho> =
      aig_val example_game (leaves example_game (projections [4, 5]) (projections [0]) \<rho>) 8"
    by (simp del: tree_den.simps)
  then show ?thesis by (rule spec)
qed

text \<open>C3. The policy of a mode does not depend on the way it is built.  The outputs of the policy in a
  counter mode, built with constant counters on top of seeds, or restricted from outputs over the
  counter variables, and with the caches an earlier mode left, denote what the graph of the policy
  computes when the counter shows that mode; the caches stay right.\<close>

theorem compile_policy_correct:
  assumes "oxidd_laws B den vars" and "alphabet_ok den vars A" and "cache_ok den A pc"
    and run: "run_state (compile_policy_roots B K A mode spec pc) s = ((r, pc'), t)"
  shows "cache_ok den A pc' \<and> (\<forall>cn. r = Some cn \<longrightarrow> outputs_mean den A (counters A mode spec) cn)"
proof -
  have "post (compile_policy_roots B K A mode spec pc) (\<lambda>(r, pc') _. cache_ok den A pc' \<and>
      (\<forall>cn. r = Some cn \<longrightarrow> outputs_mean den A (counters A mode spec) cn)) s"
    by (rule oxidd_laws.post_compile_policy [OF assms(1-3)]) simp
  then show ?thesis using run by (simp add: post_def)
qed

theorem compile_policy_correct_witness:
  "cache_ok tree_den example_alphabet example_cache \<and>
   outputs_mean tree_den example_alphabet (counters example_alphabet 0 True) ([Some (Leaf True)], [Some (Leaf True)])"
proof -
  have A: "alphabet_ok tree_den 8 example_alphabet"
    by (auto simp: alphabet_ok_def example_eval all_mean_def projections_def means_def fun_eq_iff structured_def
        example_policy_def leaf_vars_def oxidd_max_aig_var_def)
  from compile_policy_correct [OF trees.oxidd_laws_axioms A cache_ok_empty example_compile [of empty_cache 0]]
  show ?thesis by simp
qed

text \<open>C19. Accepted graphs are acyclic circuits.  A graph that passes \<open>validate_aig_structure\<close> has distinct
  positive variables, every gate reads only leaves and earlier gates, resets are constants, and every
  literal it lists is defined.\<close>

theorem validate_structure_sound:
  assumes "validate_aig_structure g"
  shows "structured g \<and> (\<forall>l\<in>set (aig_lats g). lit_in (aig_vars g) (lat_next l) \<and> lat_reset l \<le> 1) \<and>
    (\<forall>x\<in>set (aig_outs g @ aig_bads g @ aig_cons g @ aig_fairs g). lit_in (aig_vars g) (n_lit x)) \<and>
    (\<forall>j\<in>set (aig_justs g). \<forall>l\<in>set (j_lits j). lit_in (aig_vars g) l)"
  using validate_structure_ok [OF assms] by (simp add: list_all_iff)

theorem validate_structure_sound_witness: "structured example_game \<and> lit_in (aig_vars example_game) 8"
proof -
  have "validate_aig_structure example_game" by code_simp
  from validate_structure_sound [OF this] show ?thesis by (simp add: example_game_def)
qed

subsection \<open>The maximum of the header\<close>

text \<open>
  The structural check takes the largest variable of the definitions and never looks at the number
  the header gave.  A graph whose header says 0 passes, and the sampling of its acceptance, which sizes
  its array by the header, has no result: its first write is out of bounds.
\<close>

definition short_header :: aig where
  "short_header = example_game\<lparr>nextvar := 0\<rparr>"

lemma header_maximum_unchecked:
  "validate_aig_structure short_header \<and> aig_sample_input_dependent_acceptance short_header = None"
  by code_simp

text \<open>
  A header that is one too small goes further.  In \<open>collision_game\<close> the latch \<open>s\<close>, always true, is the
  fairness condition and the controllable input \<open>c\<close> the goal; the policy \<open>c = 0\<close> loses.  All inputs
  pass the validation, but the latch that samples \<open>c\<close> gets the number 3 of \<open>s\<close>, so that goal and fairness
  become the same literal.
\<close>

definition collision_game :: aig where
  "collision_game = \<lparr>nextvar = 2,
     aig_ins = [\<lparr>in_name = Some ''u'', in_var = 1\<rparr>, \<lparr>in_name = Some ''controllable_c'', in_var = 2\<rparr>],
     aig_lats = [\<lparr>lat_var = 3, lat_next = 1, lat_reset = 1, lat_name = Some ''s''\<rparr>], aig_ands = [],
     aig_outs = [], aig_bads = [], aig_cons = [], aig_sigs = [],
     aig_justs = [\<lparr>j_name = None, j_lits = [4]\<rparr>], aig_fairs = [\<lparr>n_name = None, n_lit = 6\<rparr>]\<rparr>"

lemma header_collision_passes:
  "case aig_sample_input_dependent_acceptance collision_game of
     None \<Rightarrow> False
   | Some g \<Rightarrow> validate_aig_structure collision_game \<and> validate_game_names g \<and> count_goals g = 1 \<and>
       map lat_var (aig_lats g) = [3, 3] \<and> goal_literals g = [6] \<and> map n_lit (aig_fairs g) = [6]"
  by code_simp

end
