(* ===== verification/Spec2Isabelle.thy ===== *)
theory Spec2Isabelle
  imports Spec_Correct Env_Witness_Correct Norm_Driver Expand_Claims Expand_Pattern Expand_Width
    Gr_Level Dpa_Tables Residual_Claims Precheck_Claims Aiger_Sampling Aiger_Roundtrip Gr1_Claims
begin

text \<open>
  A verification library for tlsf-tools, the C tools around the temporal logic
  synthesis format TLSF.

  The program reads a specification (assumption and guarantee sections over input and output
  signals), expands it to plain LTL, and rewrites, normalises, classifies and lowers the
  formulas for synthesis back ends.  The core is a library over one formula AST, and most of
  its operations promise to preserve the meaning of the formula on the infinite words, or for
  finite-word specifications on the finite words, of the specification.

  Theories and the code they model (paths under \<^verbatim>\<open>src/\<close>):

  \<^item> \<open>Prelude\<close>: machine word types, options, lists, word lengths.
  \<^item> \<open>Ast\<close>: \<^verbatim>\<open>include/tlsf/ast.h\<close>, \<^verbatim>\<open>lib/ast.c\<close>.  A \<^verbatim>\<open>Node\<close> is the datatype \<open>node\<close>; kinds
    with the same union layout share a constructor.  \<open>ground\<close> is what expansion leaves.
  \<^item> \<open>Ltl_Semantics\<close>: the abstract specification: LTL over words of finite or infinite length.
  \<^item> \<open>Pass_Contract\<close>: the contract of a formula pass as the locales \<open>formula_pass\<close> and
    \<open>total_pass\<close>, the structural equality test and the bounded fixpoint loop of the drivers.
  \<^item> \<open>Nnf\<close>: \<^verbatim>\<open>lib/nnf.c\<close>.  \<open>Rewrite\<close>, \<open>Rewrite_Correct\<close>: \<^verbatim>\<open>lib/rewrite.c\<close>, every flag, the
    driver with its cap of 200 rounds, operator elimination and decomposition.
  \<^item> \<open>Norm_Schedule\<close>, \<open>Bool_Canon\<close>, \<open>Norm_Match\<close>, \<open>Sickert\<close>, \<open>Pre_Norm\<close>, \<open>Norm_Driver\<close>:
    \<^verbatim>\<open>lib/normalize.c\<close>: schedules and the rule table; boolean canonicalisation over the locale
    \<open>comparator\<close>; the template-exposing passes over the locale \<open>bottom_up\<close>; the Sickert
    stages; the pre-expansion passes against a meaning \<open>hsat\<close> of unexpanded formulas with
    the values of expressions as a parameter; the
    driver with its node and growth caps and its statistics.
  \<^item> \<open>Apset\<close>: \<^verbatim>\<open>lib/apset.c\<close>: the open-addressing table of atom names (locale
    \<open>name_index\<close>) and the bitsets over atom indices.
  \<^item> \<open>Spec\<close>, \<open>Spec_Correct\<close>: \<^verbatim>\<open>lib/spec.c\<close>: the specification record, its arrays that grow by
    doubling in their machine widths, target adaptation, fair environment, validation, and
    the atom interning of \<^verbatim>\<open>lib/conversion.c\<close>.
  \<^item> \<open>Expand_Value\<close>, \<open>Expand\<close>, \<open>Expand_Spec\<close>, \<open>Expand_Width\<close>: \<^verbatim>\<open>lib/expand.c\<close>: errors as a sum type,
    the evaluators for integers, booleans and sets in their machine widths, the mutually
    recursive expansion, parameters and overrides, bus bounds, the splitting of buses, and the
    structural test for bit widths.  \<open>Expand_Meaning\<close> gives full-format formulas a meaning by
    inductive rules that do not mention the expander: integers and guards are computed, a conditional
    is the branch its guard selects, a quantifier all or some of its instances, a bus element the signal
    of its index, and a call the body of its definition with the arguments written in.  The rules take
    sets from \<open>eval_set\<close>, whose operations refine set algebra, and compare a pattern with the
    expanded subject.  \<open>Expand_Depth\<close>, \<open>Expand_Sets\<close>, \<open>Expand_Correct\<close>, \<open>Expand_Sound\<close>,
    \<open>Expand_Pattern\<close> and \<open>Expand_Claims\<close> hold the proofs: results are ground, every formula has exactly
    the meaning of its expansion, set expressions refine set algebra, patterns decide
    instances, and the departures from lexical scoping (arguments are captured) are stated as theorems.
  \<^item> \<open>Classify\<close>: \<^verbatim>\<open>lib/classify.c\<close>.  \<open>Section_Pattern\<close>: \<^verbatim>\<open>lib/section_pattern.c\<close>, and the
    composition of the two against the TLSF meaning of a specification.
  \<^item> \<open>Env_Witness\<close>, \<open>Lasso_Fixpoints\<close>, \<open>Env_Witness_Correct\<close>: \<^verbatim>\<open>lib/env_witness.c\<close>: the
    compiler to a postorder program, its evaluation by fixpoints on the successor graph of a
    lasso, and the bounded search.

  \<^item> \<open>Gr\<close>, \<open>Gr_Correct\<close>, \<open>Gr_Level\<close>: \<^verbatim>\<open>lib/gr.c\<close>: the GR(k) recogniser with its atom table, clause
    masks and limits; the classifiers are instances of the locale \<open>classifier\<close>.
  \<^item> \<open>Dpa_Colours\<close>, \<open>Zielonka_Tree\<close>, \<open>Zielonka_Spec\<close>, \<open>Zielonka\<close>, \<open>Dpa_Parity\<close>, \<open>Dpa_Tables\<close>:
    \<^verbatim>\<open>lib/dpa_zielonka.c\<close>: colour sets as word arrays, the decision diagrams of OxiDD as
    parameters with the locale \<open>bdd\<close> for their documented behaviour, the Zielonka tree and the
    parity automaton that walks in it.  \<open>Dpa_Tables\<close> shows that truth tables fulfil the locale.

  \<^item> \<open>Cover\<close>, \<open>Cover_Correct\<close>: \<^verbatim>\<open>lib/cover.c\<close>: the constraint cover, one constraint per section
    formula or conjunct, with the support sets of its atoms.
  \<^item> \<open>Precheck\<close>, \<open>Precheck_Claims\<close>: \<^verbatim>\<open>lib/precheck_unreal.c\<close> and \<^verbatim>\<open>fill_verdict\<close> of
    \<^verbatim>\<open>lib/decompose.c\<close>: the early verdicts on a cover, which compare the propositional parts of the
    constraints as decision diagrams, against the synthesis game of the specification.
  \<^item> \<open>Union_Find\<close>, \<open>Residual\<close>: \<^verbatim>\<open>lib/residual.c\<close> and \<^verbatim>\<open>node_subst\<close> of \<^verbatim>\<open>lib/templates.c\<close>:
    disjoint sets with path halving (locale \<open>disjoint_sets\<close>), the partition of the constraints
    into clusters, the environment a cluster keeps, and its assembly.  \<open>Games\<close> states the abstract
    side, controllers against an environment that moves first; \<open>Residual_Keys\<close>,
    \<open>Cluster_Meaning\<close>, \<open>Residual_View\<close>, \<open>Residual_Correct\<close> and \<open>Residual_Claims\<close> show that solving
    all clusters is the same as solving the specification.

  \<^item> \<open>Decimal\<close>: decimal numbers as \<^verbatim>\<open>strtol\<close> reads and \<^verbatim>\<open>printf\<close> prints them.
    \<open>Aiger\<close>, \<open>Aiger_File\<close>: \<^verbatim>\<open>lib/aiger.c\<close>: and-inverter graphs with their builders, the compilation of
    Boolean formulas, merging, the sampling of acceptance literals, and the reader and writer of
    the ASCII format on strings.  \<open>Aiger_Semantics\<close> defines the values of literals and the runs of a
    graph; \<open>Aiger_Correct\<close> (locale \<open>gate_operation\<close>), \<open>Aiger_Merge\<close>, \<open>Aiger_Sampling\<close>, \<open>Aiger_Text\<close> and
    \<open>Aiger_Roundtrip\<close> hold the proofs.  Literals are 32-bit words; the theorems assume variables up to
    \<open>2 ^ 31 - 2\<close>, so that no literal wraps or equals the error literal.  The header file allows a latch
    without initial value, marked by its own literal as reset; \<^verbatim>\<open>aig_merge\<close> and \<^verbatim>\<open>aig_write_aag\<close> copy that
    literal without renumbering it, as a lemma shows on an example for each, so merging and the round
    trip are stated for graphs whose resets are 0 or 1.

  \<^item> \<open>Oxidd\<close>, \<open>Oxidd_Roots\<close>: \<^verbatim>\<open>lib/oxidd_common.c\<close>: the operations of the external library of decision
    diagrams as a record \<open>oxidd\<close> of functions on a hidden state that may return a null handle, what the
    library promises as the locale \<open>oxidd_laws\<close>, guarded operations with their retry, and the
    construction of the diagrams of chosen literals with early release.
    \<open>Gr1_Interface\<close>, \<open>Gr1_Policy\<close>, \<open>Gr1_Setup\<close>, \<open>Gr1_Certificate\<close>: \<^verbatim>\<open>lib/gr1_check.c\<close>, the checker of
    GR(1) certificates for systems: structural and interface validation, the policy of a counter mode
    with its caches, the diagrams of the game and of the certificate, and the one-step obligations with
    their verdicts, in the state monad; a null handle is \<open>None\<close> and \<open>bdd_failed\<close> a field of the state.
    \<open>Gr1_Policy_Correct\<close>, \<open>Gr1_Setup_Correct\<close>, \<open>Gr1_Certificate_Correct\<close>, \<open>Gr1_Mode_Correct\<close> and
    \<open>Gr1_Check_Correct\<close> hold what every step establishes, \<open>Gr1_Ranks\<close> the argument that ranked plays
    reach their goals again and again, \<open>Gr1_Sound\<close> and \<open>Gr1_Run\<close> the closed loop of game, policy and
    counter, and \<open>Gr1_Claims\<close> the theorems.  The checker trusts the maximum in the header of the
    game file: soundness assumes that it covers the variables, and \<open>header_collision_passes\<close> shows a game
    where it does not and the sampling latch takes the number of another latch.  \<open>Decision_Trees\<close> interprets the locale by reduced decision
    trees, and \<open>Gr1_Example\<close> evaluates a run on them.

  What the lemmas show: every formula pass returns on expanded formulas and refines its input
  (\<open>refines\<close>); the drivers compose the passes and inherit the contract through the
  interpretations; classification is sound for safety; lowering a whole specification yields
  its TLSF meaning; expansion is total up to its errors, leaves the basic fragment and keeps the
  meaning; a GR level is witnessed by an equivalent clause set; the parity automaton accepts
  exactly the accepted sets of recurring colours; merging, sampling, writing and reading a graph keep
  the values of its runs; an early verdict is right; a verified certificate means that the policy wins the
  game it was given; a positive lasso certificate is genuine; tables, arrays and bitsets keep
  their invariants within stated bounds, and outside of them the faults of the code are stated
  as theorems.

  Bounds and fuel: loops with a cap in the code use that cap (200 rewrite rounds, the
  iteration count of a schedule entry, the work budget of the lasso evaluation, of which 1000
  units are enough for every accepted program, the 2000 expansion levels of \<^verbatim>\<open>MAX_DEPTH\<close>, the 64
  stack entries, 64 atoms and 256 clauses of the GR recogniser).  The loops over decision
  diagrams are partial functions, proved to end under the laws of the diagrams.  All other recursions are structural or
  have a termination proof; the parent chains of the disjoint sets and the closure of the
  cluster environment are partial functions, proved to end on the tables of a cover.  Sums in \<^verbatim>\<open>int64_t\<close> that overflow are unspecified.

  Not modelled: running out of memory (every operation reports it as failure, the builders of
  graphs abort) and the capacities of the arrays of a graph, the sharing of
  nodes between formulas (passes build new nodes and only replace pointers), diagnostics and
  printing, the provenance mode of the expansion, the annotations the recognisers leave in a cover,
  caching and planning of the residual, deadlines and budgets of the automata, and the solvers on top of
  the external library OxiDD.  Of the certificate checker the environment, region and closed-loop methods,
  the sidecar files (their verdict is a parameter), the counterexamples, the result files, the statistics
  and the release of diagrams are left out; no substitution object is null, the comparison in floating
  point is exact below \<open>2 ^ 53\<close>, and where sampling would write out of bounds the model reports an
  invalid input.
\<close>

end
